(* ===== verification/V9xPrelude.thy ===== *)
theory V9xPrelude
  imports "HOL-Library.Word" "HOL-Library.Monad_Syntax"
begin

section \<open>Prelude: machine types, checked buffers, little-endian fields\<close>

text \<open>
  The types of \<^verbatim>\<open>include/v9xremote/types.h\<close> as words of their width, and the two ways the
  development treats C memory:
  \<^item> a buffer whose size the code itself has to respect is a list read through \<open>rd\<close> and
    written through \<open>wr\<close>; both are \<open>None\<close> outside the buffer, so \<open>None\<close> as the
    result of a model means that the C program would have touched memory it does not own, and a
    theorem that a model is never \<open>None\<close> is a memory-safety theorem;
  \<^item> a NUL-terminated string is the list of its bytes before the terminator.
  The collections \<open>le_simps\<close> and \<open>mem_simps\<close> hold the facts that carry most proofs.
\<close>

unbundle bit_operations_syntax

type_synonym u8 = "8 word"
type_synonym u16 = "16 word"
type_synonym u32 = "32 word"
type_synonym bytes = "u8 list"

named_theorems mem_simps \<open>evaluation of checked reads and writes\<close>
named_theorems le_simps \<open>little-endian fields: numeric value and round trips\<close>

text \<open>String literals of the source, as bytes; their evaluation is a simp rule.\<close>

definition asc :: "string \<Rightarrow> bytes" where
  "asc s = map of_char s"

lemma asc_Nil [simp]: "asc [] = []"
  by (simp add: asc_def)

lemma asc_Cons [simp]: "asc (c # s) = of_char c # asc s"
  by (simp add: asc_def)

lemma length_asc [simp]: "length (asc s) = length s"
  by (simp add: asc_def)

subsection \<open>Masks\<close>

lemma and_0xff: "x AND 255 = take_bit 8 x" for x :: "'a::len word"
  by (simp add: take_bit_eq_mask mask_eq_exp_minus_1)

lemma and_0xffff: "x AND 65535 = take_bit 16 x" for x :: "'a::len word"
  by (simp add: take_bit_eq_mask mask_eq_exp_minus_1)

lemma and_0xffffffff [simp]: "x AND 4294967295 = x" for x :: u32
proof -
  have "(4294967295 :: u32) = - 1" by simp
  then show ?thesis by (simp only: and.right_neutral)
qed

lemma and_0xfffffffful [simp]: "4294967295 AND x = x" for x :: u32
  by (metis and.commute and_0xffffffff)

lemma bit_u32_high [simp]: "32 \<le> n \<Longrightarrow> \<not> bit b n" for b :: u32
  using bit_imp_le_length [of b n] by auto

lemma bit_u8_high [simp]: "8 \<le> n \<Longrightarrow> \<not> bit b n" for b :: u8
  using bit_imp_le_length [of b n] by auto

lemma bit_u8_less: "bit b n \<Longrightarrow> n < 8" for b :: u8
  using bit_imp_le_length [of b n] by auto

lemma xor_right_cancel: "x XOR z = y XOR z \<longleftrightarrow> x = y" for x y z :: "'a::len word"
proof
  assume "x XOR z = y XOR z"
  then have "(x XOR z) XOR z = (y XOR z) XOR z" by simp
  then show "x = y" by (simp add: xor.assoc)
qed simp

lemma xor_left_cancel: "z XOR x = z XOR y \<longleftrightarrow> x = y" for x y z :: "'a::len word"
  by (simp only: xor.commute [of z] xor_right_cancel)

subsection \<open>Arithmetic on 32-bit words that does not wrap\<close>

lemma u32_less [simp]: "unat x < 4294967296" for x :: u32
proof -
  have "unat x < 2 ^ LENGTH(32)" by (rule unsigned_less)
  then show ?thesis by simp
qed

lemma u32_of_nat: "n < 4294967296 \<Longrightarrow> unat (of_nat n :: u32) = n"
  by (simp add: unat_of_nat)

lemma u32_add: "unat a + unat b < 4294967296 \<Longrightarrow> unat (a + b) = unat a + unat b" for a b :: u32
  by (simp add: unat_word_ariths)

lemma u32_sub: "b \<le> a \<Longrightarrow> unat (a - b) = unat a - unat b" for a b :: u32
  by (rule unat_sub)

subsection \<open>Checked buffers\<close>

definition rd :: "'a list \<Rightarrow> nat \<Rightarrow> 'a option" where
  "rd xs i = (if i < length xs then Some (xs ! i) else None)"

definition wr :: "'a list \<Rightarrow> nat \<Rightarrow> 'a \<Rightarrow> 'a list option" where
  "wr xs i v = (if i < length xs then Some (xs[i := v]) else None)"

text \<open>Reading and writing \<open>n\<close> consecutive elements, one access at a time as the byte loops of the
  code do.\<close>

fun rds :: "'a list \<Rightarrow> nat \<Rightarrow> nat \<Rightarrow> 'a list option" where
  "rds xs i 0 = Some []"
| "rds xs i (Suc n) = do { x \<leftarrow> rd xs i; ys \<leftarrow> rds xs (Suc i) n; Some (x # ys) }"

fun wrs :: "'a list \<Rightarrow> nat \<Rightarrow> 'a list \<Rightarrow> 'a list option" where
  "wrs xs i [] = Some xs"
| "wrs xs i (y # ys) = do { xs' \<leftarrow> wr xs i y; wrs xs' (Suc i) ys }"

lemma rd_Some [mem_simps]: "i < length xs \<Longrightarrow> rd xs i = Some (xs ! i)"
  by (simp add: rd_def)

lemma rd_eq_Some_iff: "rd xs i = Some x \<longleftrightarrow> i < length xs \<and> xs ! i = x"
  by (auto simp: rd_def)

lemma rd_eq_None_iff [simp]: "rd xs i = None \<longleftrightarrow> length xs \<le> i"
  by (simp add: rd_def)

lemma wr_Some [mem_simps]: "i < length xs \<Longrightarrow> wr xs i v = Some (xs[i := v])"
  by (simp add: wr_def)

lemma wr_eq_Some_iff: "wr xs i v = Some ys \<longleftrightarrow> i < length xs \<and> ys = xs[i := v]"
  by (auto simp: wr_def)

lemma rds_Some [mem_simps]: "i + n \<le> length xs \<Longrightarrow> rds xs i n = Some (take n (drop i xs))"
proof (induction n arbitrary: i)
  case 0
  then show ?case by simp
next
  case (Suc n)
  then have "i < length xs" by simp
  moreover have "rds xs (Suc i) n = Some (take n (drop (Suc i) xs))"
    using Suc by simp
  ultimately show ?case
    by (simp add: rd_def Cons_nth_drop_Suc [symmetric])
qed

lemma rds_length: "rds xs i n = Some ys \<Longrightarrow> length ys = n"
  by (induction n arbitrary: i ys) (auto split: Option.bind_splits)

lemma length_wrs: "wrs xs i ys = Some zs \<Longrightarrow> length zs = length xs"
  by (induction ys arbitrary: xs i) (auto simp: wr_def split: Option.bind_splits if_splits)

lemma wrs_Some [mem_simps]:
  "i + length ys \<le> length xs \<Longrightarrow>
   wrs xs i ys = Some (take i xs @ ys @ drop (i + length ys) xs)"
proof (induction ys arbitrary: xs i)
  case Nil
  then show ?case by simp
next
  case (Cons y ys)
  then have i: "i < length xs" by simp
  have "wrs (xs[i := y]) (Suc i) ys =
      Some (take (Suc i) (xs[i := y]) @ ys @ drop (Suc i + length ys) (xs[i := y]))"
    using Cons by simp
  also have "take (Suc i) (xs[i := y]) = take i xs @ [y]"
    using i by (simp add: take_Suc_conv_app_nth)
  finally show ?case using i by (simp add: wr_def)
qed

lemma wrs_ok_iff: "ys \<noteq> [] \<Longrightarrow> (\<exists>zs. wrs xs i ys = Some zs) \<longleftrightarrow> i + length ys \<le> length xs"
proof (induction ys arbitrary: xs i)
  case Nil
  then show ?case by simp
next
  case (Cons y ys)
  show ?case
  proof (cases "ys = []")
    case True
    then show ?thesis by (auto simp: wr_def)
  next
    case False
    then show ?thesis using Cons.IH [of "xs[i := y]" "Suc i"] by (auto simp: wr_def)
  qed
qed

subsection \<open>Little-endian fields\<close>

definition u16_of :: "u8 \<Rightarrow> u8 \<Rightarrow> u16" where
  "u16_of b0 b1 = ucast b0 OR push_bit 8 (ucast b1)"

definition u32_of :: "u8 \<Rightarrow> u8 \<Rightarrow> u8 \<Rightarrow> u8 \<Rightarrow> u32" where
  "u32_of b0 b1 b2 b3 =
     ucast b0 OR push_bit 8 (ucast b1) OR push_bit 16 (ucast b2) OR push_bit 24 (ucast b3)"

definition le16 :: "u16 \<Rightarrow> bytes" where
  "le16 v = [ucast (v AND 0xff), ucast (drop_bit 8 v AND 0xff)]"

definition le32 :: "u32 \<Rightarrow> bytes" where
  "le32 v = [ucast (v AND 0xff), ucast (drop_bit 8 v AND 0xff),
             ucast (drop_bit 16 v AND 0xff), ucast (drop_bit 24 v AND 0xff)]"

lemma length_le16 [simp]: "length (le16 v) = 2"
  by (simp add: le16_def)

lemma length_le32 [simp]: "length (le32 v) = 4"
  by (simp add: le32_def)

lemma u16_of_le16 [le_simps]:
  "u16_of (ucast (v AND 0xff)) (ucast (drop_bit 8 v AND 0xff)) = v"
  by (rule bit_word_eqI) (auto simp: u16_of_def bit_simps and_0xff)

lemma u32_of_le32 [le_simps]:
  "u32_of (ucast (v AND 0xff)) (ucast (drop_bit 8 v AND 0xff))
     (ucast (drop_bit 16 v AND 0xff)) (ucast (drop_bit 24 v AND 0xff)) = v"
proof (rule bit_word_eqI)
  fix n assume "n < LENGTH(32)"
  then show "bit (u32_of (ucast (v AND 0xff)) (ucast (drop_bit 8 v AND 0xff))
     (ucast (drop_bit 16 v AND 0xff)) (ucast (drop_bit 24 v AND 0xff))) n = bit v n"
    by (cases "24 \<le> n"; cases "16 \<le> n") (auto simp: u32_of_def bit_simps and_0xff)
qed

lemma le16_u16_of [le_simps]: "le16 (u16_of a b) = [a, b]"
  by (auto simp: le16_def u16_of_def and_0xff intro!: bit_word_eqI) (auto simp: bit_simps)

lemma le32_u32_of [le_simps]: "le32 (u32_of a b c d) = [a, b, c, d]"
  by (auto simp: le32_def u32_of_def and_0xff intro!: bit_word_eqI) (auto simp: bit_simps)

lemma unat_u8_less [simp]: "unat b < 256" for b :: u8
proof -
  have "unat b < 2 ^ LENGTH(8)" by (rule unsigned_less)
  then show ?thesis by simp
qed

lemma unat_ucast_u8_u32 [simp]: "unat (ucast b :: u32) = unat b" for b :: u8
proof -
  have "unat b < 2 ^ 32" by (rule less_trans [OF unat_u8_less]) simp
  then show ?thesis by (simp add: unsigned_ucast_eq take_bit_nat_eq_self)
qed

lemma unat_and_0xff: "unat (w AND 0xFF) = unat w mod 256" for w :: u32
  unfolding and_0xff unsigned_take_bit_eq by (simp add: take_bit_eq_mod)

lemma unat_low_byte: "unat (ucast (w AND 0xFF) :: u8) = unat w mod 256" for w :: u32
  unfolding unsigned_ucast_eq unat_and_0xff by (simp add: take_bit_eq_mod)

lemma unat_drop_byte: "unat (drop_bit 8 w) = unat w div 256" for w :: u32
  unfolding unat_drop_bit_eq by (simp add: drop_bit_eq_div)

lemma unat_u16_of [le_simps]: "unat (u16_of a b) = unat a + 256 * unat b"
proof -
  have "u16_of a b = ucast a + push_bit 8 (ucast b)"
    unfolding u16_of_def
    by (rule disjunctive_add_eq_or [symmetric]) (auto simp: bit_eq_iff bit_simps)
  also have "\<dots> = of_nat (unat a + 256 * unat b)"
    by (simp add: push_bit_eq_mult unsigned_ucast_eq)
  finally have eq: "u16_of a b = of_nat (unat a + 256 * unat b)" .
  show ?thesis
    unfolding eq unat_of_nat
    using unat_u8_less [of a] unat_u8_less [of b] by (simp del: unat_u8_less)
qed

lemma unat_u32_of [le_simps]:
  "unat (u32_of a b c d) = unat a + 256 * unat b + 65536 * unat c + 16777216 * unat d"
proof -
  have "u32_of a b c d =
      ucast a + (push_bit 8 (ucast b) + (push_bit 16 (ucast c) + push_bit 24 (ucast d)))"
    unfolding u32_of_def or.assoc
    by (simp add: disjunctive_add_eq_or bit_eq_iff bit_simps conj_disj_distribL conj_disj_distribR)
  also have "\<dots> = of_nat (unat a + 256 * unat b + 65536 * unat c + 16777216 * unat d)"
    by (simp add: push_bit_eq_mult unsigned_ucast_eq)
  finally have eq: "u32_of a b c d = of_nat (unat a + 256 * unat b + 65536 * unat c + 16777216 * unat d)" .
  show ?thesis
    unfolding eq unat_of_nat
    using unat_u8_less [of a] unat_u8_less [of b] unat_u8_less [of c] unat_u8_less [of d]
    by (simp del: unat_u8_less)
qed

end
