(* ===== verification/Frame.thy ===== *)
theory Frame
  imports V9xPrelude
begin

section \<open>Frame headers and counted strings (\<^verbatim>\<open>src/common/frame.c\<close>, \<^verbatim>\<open>src/common/bounds.c\<close>)\<close>

text \<open>
  The 24-byte header in front of every message of the wire protocol and the length-prefixed
  strings inside payloads. A C pointer into a buffer is the buffer and an offset; every access
  is checked, so \<open>None\<close> would be an access outside the buffer.
\<close>

subsection \<open>Constants of \<^verbatim>\<open>include/v9xremote/protocol.h\<close>\<close>

definition V9X_PROTOCOL_MAGIC :: bytes where
  "V9X_PROTOCOL_MAGIC = asc ''V9XR''"

definition V9X_PROTOCOL_VERSION :: u16 where
  "V9X_PROTOCOL_VERSION = 0x0100"

definition V9X_HEADER_SIZE :: nat where
  "V9X_HEADER_SIZE = 24"

definition V9X_MAX_PAYLOAD :: u32 where
  "V9X_MAX_PAYLOAD = 65536"

lemma magic_eq: "V9X_PROTOCOL_MAGIC = [0x56, 0x39, 0x58, 0x52]"
  by (simp add: V9X_PROTOCOL_MAGIC_def)

subsection \<open>Integers in a buffer\<close>

definition v9x_read_u16 :: "bytes \<Rightarrow> nat \<Rightarrow> u16 option" where
  "v9x_read_u16 source at = do {
     b0 \<leftarrow> rd source at;
     b1 \<leftarrow> rd source (at + 1);
     Some (ucast b0 OR push_bit 8 (ucast b1))
   }"

definition v9x_read_u32 :: "bytes \<Rightarrow> nat \<Rightarrow> u32 option" where
  "v9x_read_u32 source at = do {
     b0 \<leftarrow> rd source at;
     b1 \<leftarrow> rd source (at + 1);
     b2 \<leftarrow> rd source (at + 2);
     b3 \<leftarrow> rd source (at + 3);
     Some (ucast b0 OR push_bit 8 (ucast b1) OR push_bit 16 (ucast b2) OR push_bit 24 (ucast b3))
   }"

definition v9x_write_u16 :: "bytes \<Rightarrow> nat \<Rightarrow> u16 \<Rightarrow> bytes option" where
  "v9x_write_u16 target at v = do {
     t \<leftarrow> wr target at (ucast (v AND 0xff));
     wr t (at + 1) (ucast (drop_bit 8 v AND 0xff))
   }"

definition v9x_write_u32 :: "bytes \<Rightarrow> nat \<Rightarrow> u32 \<Rightarrow> bytes option" where
  "v9x_write_u32 target at v = do {
     t \<leftarrow> wr target at (ucast (v AND 0xff));
     t \<leftarrow> wr t (at + 1) (ucast (drop_bit 8 v AND 0xff));
     t \<leftarrow> wr t (at + 2) (ucast (drop_bit 16 v AND 0xff));
     wr t (at + 3) (ucast (drop_bit 24 v AND 0xff))
   }"

lemma v9x_read_u16_eq [mem_simps]:
  "at + 2 \<le> length source \<Longrightarrow>
   v9x_read_u16 source at = Some (u16_of (source ! at) (source ! (at + 1)))"
  by (simp add: v9x_read_u16_def u16_of_def rd_def)

lemma v9x_read_u32_eq [mem_simps]:
  "at + 4 \<le> length source \<Longrightarrow>
   v9x_read_u32 source at =
     Some (u32_of (source ! at) (source ! (at + 1)) (source ! (at + 2)) (source ! (at + 3)))"
  by (simp add: v9x_read_u32_def u32_of_def rd_def)

lemma v9x_write_u16_wrs: "v9x_write_u16 target at v = wrs target at (le16 v)"
  by (simp add: v9x_write_u16_def le16_def)

lemma v9x_write_u32_wrs: "v9x_write_u32 target at v = wrs target at (le32 v)"
  by (simp add: v9x_write_u32_def le32_def numeral_2_eq_2 numeral_3_eq_3)

lemma v9x_write_u16_eq [mem_simps]:
  "at + 2 \<le> length target \<Longrightarrow>
   v9x_write_u16 target at v = Some (take at target @ le16 v @ drop (at + 2) target)"
  by (simp add: v9x_write_u16_wrs wrs_Some)

lemma v9x_write_u32_eq [mem_simps]:
  "at + 4 \<le> length target \<Longrightarrow>
   v9x_write_u32 target at v = Some (take at target @ le32 v @ drop (at + 4) target)"
  by (simp add: v9x_write_u32_wrs wrs_Some)

lemma v9x_read_u16_app [mem_simps]: "v9x_read_u16 (a # b # r) 0 = Some (u16_of a b)"
  by (simp add: v9x_read_u16_eq)

lemma read_u16_le16 [le_simps]:
  "length pre = at \<Longrightarrow> v9x_read_u16 (pre @ le16 v @ post) at = Some v"
  by (simp add: v9x_read_u16_eq le16_def nth_append le_simps)

lemma read_u32_le32 [le_simps]:
  "length pre = at \<Longrightarrow> v9x_read_u32 (pre @ le32 v @ post) at = Some v"
  by (simp add: v9x_read_u32_eq le32_def nth_append le_simps)

subsection \<open>The frame header\<close>

record frame_header =
  fh_version :: u16
  fh_type :: u16
  fh_request_id :: u32
  fh_flags :: u32
  fh_payload_length :: u32
  fh_reserved :: u32

text \<open>\<open>Some None\<close> is the return value 0 (wrong magic); the four magic bytes are read in order and
  only as long as they match.\<close>

definition v9x_decode_header :: "bytes \<Rightarrow> frame_header option option" where
  "v9x_decode_header source = do {
     b0 \<leftarrow> rd source 0;
     if b0 \<noteq> V9X_PROTOCOL_MAGIC ! 0 then Some None else do {
     b1 \<leftarrow> rd source 1;
     if b1 \<noteq> V9X_PROTOCOL_MAGIC ! 1 then Some None else do {
     b2 \<leftarrow> rd source 2;
     if b2 \<noteq> V9X_PROTOCOL_MAGIC ! 2 then Some None else do {
     b3 \<leftarrow> rd source 3;
     if b3 \<noteq> V9X_PROTOCOL_MAGIC ! 3 then Some None else do {
     version \<leftarrow> v9x_read_u16 source 4;
     type \<leftarrow> v9x_read_u16 source 6;
     request_id \<leftarrow> v9x_read_u32 source 8;
     flags \<leftarrow> v9x_read_u32 source 12;
     payload_length \<leftarrow> v9x_read_u32 source 16;
     reserved \<leftarrow> v9x_read_u32 source 20;
     Some (Some \<lparr>fh_version = version, fh_type = type, fh_request_id = request_id,
                 fh_flags = flags, fh_payload_length = payload_length, fh_reserved = reserved\<rparr>)
   }}}}}"

definition v9x_encode_header :: "bytes \<Rightarrow> frame_header \<Rightarrow> bytes option" where
  "v9x_encode_header target h = do {
     t \<leftarrow> wr target 0 (V9X_PROTOCOL_MAGIC ! 0);
     t \<leftarrow> wr t 1 (V9X_PROTOCOL_MAGIC ! 1);
     t \<leftarrow> wr t 2 (V9X_PROTOCOL_MAGIC ! 2);
     t \<leftarrow> wr t 3 (V9X_PROTOCOL_MAGIC ! 3);
     t \<leftarrow> v9x_write_u16 t 4 (fh_version h);
     t \<leftarrow> v9x_write_u16 t 6 (fh_type h);
     t \<leftarrow> v9x_write_u32 t 8 (fh_request_id h);
     t \<leftarrow> v9x_write_u32 t 12 (fh_flags h);
     t \<leftarrow> v9x_write_u32 t 16 (fh_payload_length h);
     v9x_write_u32 t 20 (fh_reserved h)
   }"

text \<open>The 24 bytes a header is on the wire.\<close>

definition header_bytes :: "frame_header \<Rightarrow> bytes" where
  "header_bytes h = V9X_PROTOCOL_MAGIC @ le16 (fh_version h) @ le16 (fh_type h) @
     le32 (fh_request_id h) @ le32 (fh_flags h) @ le32 (fh_payload_length h) @
     le32 (fh_reserved h)"

lemma length_header_bytes [simp]: "length (header_bytes h) = 24"
  by (simp add: header_bytes_def magic_eq)

lemma split_24:
  assumes "24 \<le> length t"
  obtains b0 b1 b2 b3 b4 b5 b6 b7 b8 b9 b10 b11 b12 b13 b14 b15 b16 b17 b18 b19 b20 b21 b22 b23 r
  where "t = [b0,b1,b2,b3,b4,b5,b6,b7,b8,b9,b10,b11,b12,b13,b14,b15,b16,b17,b18,b19,b20,b21,b22,b23] @ r"
proof -
  have "take 24 t = map ((!) t) [0..<24]"
    using assms by (simp add: list_eq_iff_nth_eq)
  also have "\<dots> = [t!0,t!1,t!2,t!3,t!4,t!5,t!6,t!7,t!8,t!9,t!10,t!11,
      t!12,t!13,t!14,t!15,t!16,t!17,t!18,t!19,t!20,t!21,t!22,t!23]"
    by (simp add: upt_rec numeral_eq_Suc)
  finally show ?thesis
    by (rule that [OF trans [OF append_take_drop_id [of 24 t, symmetric] arg_cong [where f = "\<lambda>u. u @ drop 24 t"]]])
qed

lemma v9x_encode_header_eq:
  assumes "24 \<le> length target"
  shows "v9x_encode_header target h = Some (header_bytes h @ drop 24 target)"
  using assms
  by (elim split_24)
    (simp add: v9x_encode_header_def header_bytes_def magic_eq wr_def v9x_write_u16_def
      v9x_write_u32_def le16_def le32_def)

lemma v9x_decode_header_bytes:
  "v9x_decode_header (header_bytes h @ rest) = Some (Some h)"
  by (simp add: v9x_decode_header_def header_bytes_def magic_eq rd_def v9x_read_u16_eq
      v9x_read_u32_eq le16_def le32_def le_simps)

lemma v9x_decode_header_inv:
  assumes "24 \<le> length source" "v9x_decode_header source = Some (Some h)"
  shows "source = header_bytes h @ drop 24 source"
  using assms
  by (elim split_24)
    (auto simp: v9x_decode_header_def header_bytes_def magic_eq rd_def v9x_read_u16_eq
      v9x_read_u32_eq le_simps split: if_splits)

text \<open>
  C12. Encoding a header into any buffer of at least 24 bytes stays inside the buffer, changes
  only its first 24 bytes, and decoding what was written returns the header field for field.
\<close>

theorem header_roundtrip:
  assumes "V9X_HEADER_SIZE \<le> length target"
  shows "\<exists>wire. v9x_encode_header target h = Some wire \<and> length wire = length target \<and>
           drop V9X_HEADER_SIZE wire = drop V9X_HEADER_SIZE target \<and>
           v9x_decode_header wire = Some (Some h)"
  using assms
  by (simp add: V9X_HEADER_SIZE_def v9x_encode_header_eq v9x_decode_header_bytes)

definition sample_header :: frame_header where
  "sample_header = \<lparr>fh_version = 0x100, fh_type = 0x8fff, fh_request_id = 0xdeadbeef,
     fh_flags = 0, fh_payload_length = 65536, fh_reserved = 7\<rparr>"

theorem header_roundtrip_witness:
  "\<exists>wire. v9x_encode_header (replicate 30 0) sample_header = Some wire \<and>
     length wire = length (replicate 30 (0 :: u8)) \<and>
     drop V9X_HEADER_SIZE wire = drop V9X_HEADER_SIZE (replicate 30 0) \<and>
     v9x_decode_header wire = Some (Some sample_header)"
proof -
  have "V9X_HEADER_SIZE \<le> length (replicate 30 (0 :: u8))"
    by (simp add: V9X_HEADER_SIZE_def)
  then show ?thesis by (rule header_roundtrip)
qed

text \<open>
  Decoding is total on a 24-byte buffer: it refuses exactly the buffers that do not start
  with the magic, and it returns a header exactly when encoding that header reproduces the
  buffer byte for byte, so the wire format is canonical.
\<close>

theorem header_decode_exact:
  assumes "length source = V9X_HEADER_SIZE"
  shows "(v9x_decode_header source = Some None \<longleftrightarrow> take 4 source \<noteq> V9X_PROTOCOL_MAGIC) \<and>
    (v9x_decode_header source = Some (Some h) \<longleftrightarrow> v9x_encode_header source h = Some source) \<and>
    v9x_decode_header source \<noteq> None"
proof -
  have len: "24 \<le> length source" and nil: "drop 24 source = []"
    using assms by (auto simp: V9X_HEADER_SIZE_def)
  have "v9x_decode_header source \<noteq> None \<and>
      (v9x_decode_header source = Some None \<longleftrightarrow> take 4 source \<noteq> V9X_PROTOCOL_MAGIC)"
    using len by (elim split_24) (simp add: v9x_decode_header_def magic_eq rd_def mem_simps)
  moreover have "v9x_decode_header source = Some (Some h) \<longleftrightarrow> header_bytes h = source"
    using v9x_decode_header_inv [OF len, of h] v9x_decode_header_bytes [of h "[]"] nil by auto
  ultimately show ?thesis using nil by (simp add: v9x_encode_header_eq [OF len])
qed

theorem header_decode_exact_witness:
  "(v9x_decode_header (replicate 24 0) = Some None \<longleftrightarrow>
      take 4 (replicate 24 0) \<noteq> V9X_PROTOCOL_MAGIC) \<and>
    (v9x_decode_header (replicate 24 0) = Some (Some sample_header) \<longleftrightarrow>
      v9x_encode_header (replicate 24 0) sample_header = Some (replicate 24 0)) \<and>
    v9x_decode_header (replicate 24 0) \<noteq> None"
proof -
  have "length (replicate 24 (0 :: u8)) = V9X_HEADER_SIZE"
    by (simp add: V9X_HEADER_SIZE_def)
  then show ?thesis by (rule header_decode_exact)
qed

subsection \<open>Counted strings\<close>

text \<open>A possibly null \<open>const char *\<close> is \<open>None\<close> or the bytes before its terminator.\<close>

fun bounded_scan :: "bytes \<Rightarrow> nat \<Rightarrow> nat \<Rightarrow> nat" where
  "bounded_scan [] maximum len = len"
| "bounded_scan (c # text) maximum len =
     (if len < maximum \<and> c \<noteq> 0 then bounded_scan text maximum (len + 1) else len)"

definition v9x_bounded_length :: "bytes option \<Rightarrow> nat \<Rightarrow> nat" where
  "v9x_bounded_length text maximum =
     (case text of None \<Rightarrow> 0 | Some s \<Rightarrow> bounded_scan s maximum 0)"

text \<open>The result: the return value, the buffer and the offset after the call. Null \<open>target\<close> and
  \<open>offset\<close> pointers are \<open>None\<close> arguments.\<close>

definition v9x_append_string ::
    "bytes option \<Rightarrow> u32 \<Rightarrow> u32 option \<Rightarrow> bytes option \<Rightarrow>
     (bool \<times> bytes option \<times> u32 option) option" where
  "v9x_append_string target capacity offset text =
     (case (target, offset) of
        (Some t, Some off) \<Rightarrow>
          if off > capacity then Some (False, target, offset)
          else
            (let len = of_nat (v9x_bounded_length text 65535) :: u32 in
             if len > 65535 \<or> capacity - off < len + 2 then Some (False, target, offset)
             else do {
               t \<leftarrow> v9x_write_u16 t (unat off) (ucast len);
               t \<leftarrow> wrs t (unat (off + 2)) (take (unat len) (the text));
               Some (True, Some t, Some (off + 2 + len))
             })
      | _ \<Rightarrow> Some (False, target, offset))"

lemma bounded_scan_eq:
  "bounded_scan s maximum len =
     (if len \<le> maximum then min maximum (len + length (takeWhile (\<lambda>c. c \<noteq> 0) s)) else len)"
  by (induction s maximum len rule: bounded_scan.induct) auto

lemma v9x_bounded_length_eq:
  "v9x_bounded_length (Some s) m = min m (length (takeWhile (\<lambda>c. c \<noteq> 0) s))"
  by (simp add: v9x_bounded_length_def bounded_scan_eq)

lemma scan_no_nul: "0 \<notin> set s \<Longrightarrow> v9x_bounded_length (Some s) m = min m (length s)"
proof -
  assume "0 \<notin> set s"
  then have "takeWhile (\<lambda>c. c \<noteq> 0) s = s" by (auto simp: takeWhile_eq_all_conv)
  then show ?thesis by (simp only: v9x_bounded_length_eq)
qed

lemma append_string_ok:
  assumes cap: "unat capacity \<le> length t" and nul: "0 \<notin> set s"
    and n: "n = min 65535 (length s)" and room: "unat off + n + 2 \<le> unat capacity"
  shows "v9x_append_string (Some t) capacity (Some off) (Some s) =
    Some (True, Some (take (unat off) t @ le16 (of_nat n) @ take n s @ drop (unat off + 2 + n) t),
      Some (of_nat (unat off + 2 + n)))"
proof -
  have scan: "v9x_bounded_length (Some s) 65535 = n"
    using nul n by (simp add: scan_no_nul)
  have n16: "n < 65536" and small: "unat off + 2 + n < 4294967296"
    using n room u32_less [of capacity] by (auto simp del: u32_less)
  have off: "off \<le> capacity"
    using room by (simp add: word_le_nat_alt)
  have len: "unat (of_nat n :: u32) = n"
    using n16 by (simp add: u32_of_nat)
  have off2: "unat (off + 2) = unat off + 2"
    using small by (simp add: u32_add)
  have "unat ((of_nat n :: u32) + 2) = n + 2"
    using n16 by (simp add: u32_add len)
  then have fits: "\<not> capacity - off < (of_nat n :: u32) + 2"
    using room off by (simp add: word_less_nat_alt u32_sub)
  have le: "\<not> (65535 < (of_nat n :: u32))"
    using n16 by (simp add: word_less_nat_alt len)
  have uc: "(ucast (of_nat n :: u32) :: u16) = of_nat n"
    using n16 by (simp add: unsigned_of_nat take_bit_nat_eq_self)
  let ?t1 = "take (unat off) t @ le16 (of_nat n) @ drop (unat off + 2) t"
  have w1: "v9x_write_u16 t (unat off) (of_nat n) = Some ?t1"
    using room cap by (intro v9x_write_u16_eq) simp
  have w2: "wrs ?t1 (unat off + 2) (take n s) =
      Some (take (unat off) t @ le16 (of_nat n) @ take n s @ drop (unat off + 2 + n) t)"
    using room cap n by (subst wrs_Some) (auto simp: ac_simps)
  have "v9x_append_string (Some t) capacity (Some off) (Some s) =
      do { t \<leftarrow> v9x_write_u16 t (unat off) (of_nat n);
           t \<leftarrow> wrs t (unat (off + 2)) (take n s);
           Some (True, Some t, Some (off + 2 + of_nat n)) }"
    using leD [OF off] fits le by (simp add: v9x_append_string_def scan Let_def len uc)
  also have "\<dots> = Some (True,
      Some (take (unat off) t @ le16 (of_nat n) @ take n s @ drop (unat off + 2 + n) t),
      Some (of_nat (unat off + 2 + n)))"
    by (simp only: w1 w2 off2 Option.bind_lunit) simp
  finally show ?thesis .
qed

text \<open>
  Appending a counted string to a buffer of at least \<open>capacity\<close> bytes never leaves the
  buffer. It succeeds exactly when the two length bytes and the string (cut at 65535 bytes) fit
  between the offset and the capacity; then the length field reads back as the string's length,
  the bytes behind it are the string, everything before and behind is untouched, and the offset
  moves by exactly what was written without wrapping. Otherwise nothing changes.
\<close>

theorem append_string_spec:
  assumes cap: "unat capacity \<le> length t" and nul: "0 \<notin> set s"
    and n: "n = min 65535 (length s)"
  shows "if unat off + n + 2 \<le> unat capacity
    then \<exists>t' off'. v9x_append_string (Some t) capacity (Some off) (Some s) =
           Some (True, Some t', Some off') \<and> unat off' = unat off + 2 + n \<and>
         length t' = length t \<and> take (unat off) t' = take (unat off) t \<and>
         v9x_read_u16 t' (unat off) = Some (of_nat n) \<and>
         take n (drop (unat off + 2) t') = take n s \<and>
         drop (unat off') t' = drop (unat off') t
    else v9x_append_string (Some t) capacity (Some off) (Some s) =
           Some (False, Some t, Some off)"
proof (cases "unat off + n + 2 \<le> unat capacity")
  case True
  let ?t' = "take (unat off) t @ le16 (of_nat n) @ take n s @ drop (unat off + 2 + n) t"
  let ?off' = "of_nat (unat off + 2 + n) :: u32"
  have len: "unat off \<le> length t" "unat off + 2 + n \<le> length t" and ns: "n \<le> length s"
    using True cap n by auto
  have off': "unat ?off' = unat off + 2 + n"
    using True u32_less [of capacity] by (intro u32_of_nat) linarith
  have "v9x_append_string (Some t) capacity (Some off) (Some s) = Some (True, Some ?t', Some ?off')"
    using True by (intro append_string_ok cap nul n)
  moreover have "v9x_read_u16 ?t' (unat off) = Some (of_nat n)"
    using len by (intro read_u16_le16) simp
  moreover have "drop (unat off + 2 + n) ?t' = drop (unat off + 2 + n) t"
    using len ns by simp
  ultimately show ?thesis
    unfolding if_P [OF True]
    using len ns by (intro exI [of _ ?t'] exI [of _ ?off']) (simp only: off', simp)
next
  case False
  have scan: "v9x_bounded_length (Some s) 65535 = n"
    using nul n by (simp add: scan_no_nul)
  have len: "unat (of_nat n :: u32) = n"
    using n by (intro u32_of_nat) simp
  then have len2: "unat ((of_nat n :: u32) + 2) = n + 2"
    using n by (subst u32_add) simp_all
  show ?thesis
  proof (cases "off > capacity")
    case True
    then show ?thesis using False by (simp add: v9x_append_string_def)
  next
    case le: False
    then have "unat (capacity - off) = unat capacity - unat off" "unat off \<le> unat capacity"
      by (auto simp: unat_sub word_le_nat_alt not_less)
    then have "capacity - off < (of_nat n :: u32) + 2"
      using False by (simp add: word_less_nat_alt len2)
    then show ?thesis using False le by (simp add: v9x_append_string_def scan Let_def)
  qed
qed

theorem append_string_spec_witness:
  "\<exists>t' off'. v9x_append_string (Some (replicate 32 0)) 32 (Some 8) (Some (asc ''hello'')) =
       Some (True, Some t', Some off') \<and> unat off' = 15 \<and>
     length t' = 32 \<and> take 8 t' = replicate 8 0 \<and> v9x_read_u16 t' 8 = Some 5 \<and>
     take 5 (drop 10 t') = asc ''hello'' \<and> drop (unat off') t' = replicate 17 0"
proof -
  have "unat (32 :: u32) \<le> length (replicate 32 (0 :: u8))" "0 \<notin> set (asc ''hello'')"
    and "(5 :: nat) = min 65535 (length (asc ''hello''))"
    by simp_all
  from append_string_spec [OF this, of 8] show ?thesis
    by (auto simp del: asc_Cons)
qed

end
