(* ===== verification/InstallId.thy ===== *)
theory InstallId
  imports V9xPrelude
begin

section \<open>InstallId: the identity of an installation\<close>

text \<open>
  \<^verbatim>\<open>include/v9xremote/installid.h\<close> and \<^verbatim>\<open>src/common/installid.c\<close>: the mixing pool on 32-bit words,
  the version 4 UUID drawn from it, its validity check, and the repair of an INI image.
\<close>

subsection \<open>The pool\<close>

definition V9X_INSTALL_ID_LENGTH :: nat where "V9X_INSTALL_ID_LENGTH = 36"

record id_pool =
  pwords :: "u32 list"
  pcount :: u32

definition v9x_id_fmix :: "u32 \<Rightarrow> u32" where
  "v9x_id_fmix v =
     (let v = v AND 0xFFFFFFFF;
          v = v XOR drop_bit 16 v;
          v = (v * 0x85EBCA6B) AND 0xFFFFFFFF;
          v = v XOR drop_bit 13 v;
          v = (v * 0xC2B2AE35) AND 0xFFFFFFFF
      in v XOR drop_bit 16 v)"

definition stir_word :: "u32 list \<Rightarrow> nat \<Rightarrow> u32 list" where
  "stir_word ws index =
     ws[index := v9x_id_fmix (ws ! index + ws ! ((index + 3) mod 4) + 0x9E3779B9 * of_nat (index + 1))]"

definition v9x_id_stir :: "id_pool \<Rightarrow> id_pool" where
  "v9x_id_stir pool = pool\<lparr>pwords := foldl stir_word (pwords pool) [0, 1, 2, 3]\<rparr>"

definition v9x_id_begin :: "id_pool \<Rightarrow> id_pool" where
  "v9x_id_begin pool =
     pool\<lparr>pwords := [0x6A09E667, 0xBB67AE85, 0x3C6EF372, 0xA54FF53A], pcount := 0\<rparr>"

definition v9x_id_mix :: "id_pool \<Rightarrow> u32 \<Rightarrow> id_pool" where
  "v9x_id_mix pool v =
     (let i = unat (pcount pool AND 3);
          pool = pool\<lparr>pwords := (pwords pool)[i := pwords pool ! i XOR (v AND 0xFFFFFFFF)],
                      pcount := pcount pool + 1\<rparr>
      in v9x_id_stir pool)"

text \<open>The text loop; \<open>shift\<close> is below 32.\<close>

fun mix_chars :: "id_pool \<Rightarrow> bytes \<Rightarrow> u32 \<Rightarrow> nat \<Rightarrow> id_pool" where
  "mix_chars pool [] packed shift = v9x_id_mix pool (packed XOR of_nat shift)"
| "mix_chars pool (c # text) packed shift =
     (let packed = packed OR push_bit shift (ucast c); shift = shift + 8 in
      if shift = 32 then mix_chars (v9x_id_mix pool packed) text 0 0
      else mix_chars pool text packed shift)"

definition v9x_id_mix_text :: "id_pool \<Rightarrow> bytes option \<Rightarrow> id_pool" where
  "v9x_id_mix_text pool tp = (case tp of None \<Rightarrow> pool | Some chars \<Rightarrow> mix_chars pool chars 0 0)"

subsection \<open>The UUID\<close>

definition id_digits :: bytes where
  "id_digits = asc ''0123456789abcdef''"

definition id_raw :: "id_pool \<Rightarrow> bytes" where
  "id_raw pool =
     (let raw = map (\<lambda>index. ucast (drop_bit ((index mod 4) * 8) (pwords pool ! (index div 4)))) [0..<16];
          raw = raw[6 := (raw ! 6 AND 0x0F) OR 0x40]
      in raw[8 := (raw ! 8 AND 0x3F) OR 0x80])"

text \<open>The writing loop: a hyphen before bytes 4, 6, 8 and 10, two digits for each byte, and the
  terminator; every write is checked.\<close>

fun write_id :: "bytes \<Rightarrow> nat \<Rightarrow> bytes \<Rightarrow> nat \<Rightarrow> bytes option" where
  "write_id target out [] index = wr target out 0"
| "write_id target out (b # raw) index = do {
     (target, out) \<leftarrow>
       (if index = 4 \<or> index = 6 \<or> index = 8 \<or> index = 10
        then do { target \<leftarrow> wr target out 0x2D; Some (target, out + 1) } else Some (target, out));
     target \<leftarrow> wr target out (id_digits ! unat (drop_bit 4 b));
     target \<leftarrow> wr target (out + 1) (id_digits ! unat (b AND 0x0F));
     write_id target (out + 2) raw (index + 1) }"

definition v9x_id_finish :: "id_pool \<Rightarrow> bytes \<Rightarrow> (id_pool \<times> bytes) option" where
  "v9x_id_finish pool target =
     (let pool = v9x_id_stir (v9x_id_stir pool) in do {
      target \<leftarrow> write_id target 0 (id_raw pool) 0;
      Some (pool, target) })"

text \<open>The check of a string: the terminator differs from every character the loop accepts.\<close>

fun id_from :: "bytes \<Rightarrow> nat \<Rightarrow> nat \<Rightarrow> bool" where
  "id_from text index 0 \<longleftrightarrow> text = []"
| "id_from [] index (Suc n) \<longleftrightarrow> False"
| "id_from (c # text) index (Suc n) \<longleftrightarrow>
     (if index = 8 \<or> index = 13 \<or> index = 18 \<or> index = 23 then c = 0x2D
      else c \<ge> 0x30 \<and> c \<le> 0x39 \<or> c \<ge> 0x61 \<and> c \<le> 0x66 \<or> c \<ge> 0x41 \<and> c \<le> 0x46) \<and>
     id_from text (index + 1) n"

definition v9x_id_valid :: "bytes option \<Rightarrow> bool" where
  "v9x_id_valid tp = (case tp of None \<Rightarrow> False | Some chars \<Rightarrow> id_from chars 0 V9X_INSTALL_ID_LENGTH)"

subsection \<open>INI repair\<close>

definition is_blank :: "u8 \<Rightarrow> bool" where
  "is_blank c \<longleftrightarrow> c = 0x20 \<or> c = 0x09"

text \<open>The key loop of \<open>v9x_ini_is_key\<close>: what is left of the line after the key, if it matched.\<close>

fun after_key :: "bytes \<Rightarrow> bytes \<Rightarrow> bytes option" where
  "after_key line [] = Some line"
| "after_key [] (k # key) = None"
| "after_key (c # line) (k # key) =
     (let ch = (if c \<ge> 0x41 \<and> c \<le> 0x5A then c - 0x41 + 0x61 else c) in
      if ch \<noteq> k then None else after_key line key)"

definition v9x_ini_is_key :: "bytes \<Rightarrow> bytes \<Rightarrow> bool" where
  "v9x_ini_is_key line key =
     (case after_key (dropWhile is_blank line) key of
        None \<Rightarrow> False
      | Some rest \<Rightarrow> (let rest = dropWhile is_blank rest in rest \<noteq> [] \<and> hd rest = 0x3D))"

text \<open>One line of the image, and the image after its line end (CRLF, LF or CR).\<close>

definition image_line :: "bytes \<Rightarrow> bytes" where
  "image_line text = takeWhile (\<lambda>c. c \<noteq> 0x0D \<and> c \<noteq> 0x0A) text"

definition image_rest :: "bytes \<Rightarrow> bytes" where
  "image_rest text =
     (case dropWhile (\<lambda>c. c \<noteq> 0x0D \<and> c \<noteq> 0x0A) text of
        [] \<Rightarrow> []
      | c # rest \<Rightarrow> if c = 0x0D \<and> rest \<noteq> [] \<and> hd rest = 0x0A then tl rest else rest)"

lemma length_image_rest: "text \<noteq> [] \<Longrightarrow> length (image_rest text) < length text"
proof -
  assume "text \<noteq> []"
  let ?d = "dropWhile (\<lambda>c. c \<noteq> 0x0D \<and> c \<noteq> 0x0A) text"
  have "length ?d \<le> length text" by (rule length_dropWhile_le)
  moreover have "length (image_rest text) < length ?d" if "?d \<noteq> []"
    using that unfolding image_rest_def by (cases ?d) (auto split: if_splits)
  moreover have "image_rest text = []" if "?d = []"
    unfolding image_rest_def that by simp
  ultimately show ?thesis using \<open>text \<noteq> []\<close> by (cases "?d = []") auto
qed

text \<open>The output is the list written so far; each line checks the room for itself first.\<close>

function repair_from ::
    "bytes \<Rightarrow> bytes \<Rightarrow> nat \<Rightarrow> bytes option \<Rightarrow> bool \<Rightarrow> bool \<Rightarrow> bytes option" where
  "repair_from text out capacity unique_key seen blank =
     (if text = [] then Some out
      else
        let line = image_line text; rest = image_rest text in
        if line = [] then repair_from rest out capacity unique_key seen (blank \<or> out \<noteq> [])
        else
          let is_section = (hd line = 0x5B);
              is_key = (\<not> is_section \<and> (case unique_key of None \<Rightarrow> False | Some key \<Rightarrow> v9x_ini_is_key line key))
          in
          if is_key \<and> seen then repair_from rest out capacity unique_key seen blank
          else
            let seen = (if is_section then False else seen \<or> is_key);
                need = length line + 2 + (if blank then 2 else 0)
            in
            if need > capacity - length out then None
            else repair_from rest (out @ (if blank then [0x0D, 0x0A] else []) @ line @ [0x0D, 0x0A])
                   capacity unique_key seen False)"
  by pat_completeness auto

termination repair_from
  by (relation "measure (\<lambda>(text, _). length text)") (auto simp: length_image_rest)

declare repair_from.simps [simp del]

definition v9x_ini_repair :: "bytes \<Rightarrow> nat \<Rightarrow> bytes option \<Rightarrow> bytes option" where
  "v9x_ini_repair text capacity unique_key = repair_from text [] capacity unique_key False False"

end
