(* ===== verification/IniRepair.thy ===== *)
theory IniRepair
  imports InstallId
begin

section \<open>IniRepair: what the repair of an INI image promises\<close>

text \<open>
  \<^verbatim>\<open>installid.h\<close> promises that a repaired file is stable, that only the first line of the unique key
  survives in a section, and that twice the size and two bytes are always room enough. The image is
  compared with its list of lines.
\<close>

subsection \<open>Images and lines\<close>

function image_lines :: "bytes \<Rightarrow> bytes list" where
  "image_lines s = (if s = [] then [] else image_line s # image_lines (image_rest s))"
  by pat_completeness auto

termination image_lines
  by (relation "measure length") (auto simp: length_image_rest)

declare image_lines.simps [simp del]

definition crlf_lines :: "bytes list \<Rightarrow> bytes" where
  "crlf_lines ls = concat (map (\<lambda>l. l @ [0x0D, 0x0A]) ls)"

definition plain_line :: "bytes \<Rightarrow> bool" where
  "plain_line l \<longleftrightarrow> 0x0D \<notin> set l \<and> 0x0A \<notin> set l"

lemma crlf_lines_simps [simp]:
  "crlf_lines [] = []" "crlf_lines (l # ls) = l @ 0x0D # 0x0A # crlf_lines ls"
  "crlf_lines (ls @ ls') = crlf_lines ls @ crlf_lines ls'"
  by (simp_all add: crlf_lines_def)

lemma image_line_crlf:
  assumes "plain_line l"
  shows "image_line (l @ 0x0D # 0x0A # s) = l" "image_rest (l @ 0x0D # 0x0A # s) = s"
proof -
  have "takeWhile (\<lambda>c. c \<noteq> 0x0D \<and> c \<noteq> 0x0A) (l @ 0x0D # 0x0A # s) = l"
    "dropWhile (\<lambda>c. c \<noteq> 0x0D \<and> c \<noteq> 0x0A) (l @ 0x0D # 0x0A # s) = 0x0D # 0x0A # s"
    using assms unfolding plain_line_def by (induction l) auto
  then show "image_line (l @ 0x0D # 0x0A # s) = l" "image_rest (l @ 0x0D # 0x0A # s) = s"
    by (simp_all add: image_line_def image_rest_def)
qed

lemma image_lines_crlf: "list_all plain_line ls \<Longrightarrow> image_lines (crlf_lines ls) = ls"
proof (induction ls)
  case (Cons l ls)
  then show ?case by (subst image_lines.simps) (simp add: image_line_crlf)
qed (simp add: image_lines.simps)

lemma plain_image_line: "plain_line (image_line s)"
  by (auto simp: plain_line_def image_line_def dest: set_takeWhileD)

lemma plain_image_lines: "list_all plain_line (image_lines s)"
proof (induction s rule: image_lines.induct)
  case (1 s)
  then show ?case by (subst image_lines.simps) (auto simp: plain_image_line)
qed

subsection \<open>The repair on lines\<close>

definition line_is_key :: "bytes option \<Rightarrow> bytes \<Rightarrow> bool" where
  "line_is_key unique_key l \<longleftrightarrow>
     hd l \<noteq> 0x5B \<and> (case unique_key of None \<Rightarrow> False | Some key \<Rightarrow> v9x_ini_is_key l key)"

definition seen_after :: "bytes option \<Rightarrow> bytes \<Rightarrow> bool \<Rightarrow> bool" where
  "seen_after unique_key l seen = (if hd l = 0x5B then False else seen \<or> line_is_key unique_key l)"

fun repair_lines :: "bytes option \<Rightarrow> bytes list \<Rightarrow> bool \<Rightarrow> bool \<Rightarrow> bool \<Rightarrow> bytes list" where
  "repair_lines key [] seen blank started = []"
| "repair_lines key (l # ls) seen blank started =
     (if l = [] then repair_lines key ls seen (blank \<or> started) started
      else if line_is_key key l \<and> seen then repair_lines key ls seen blank started
      else (if blank then [[]] else []) @ l # repair_lines key ls (seen_after key l seen) False True)"

lemma repair_from_lines:
  "length (crlf_lines out) \<le> capacity \<Longrightarrow>
   repair_from s (crlf_lines out) capacity key seen blank =
     (let all = crlf_lines (out @ repair_lines key (image_lines s) seen blank (out \<noteq> []))
      in if length all \<le> capacity then Some all else None)"
proof (induction s arbitrary: out seen blank rule: length_induct)
  case (1 s)
  note IH = 1(1)[rule_format] and room = 1(2)
  show ?case
  proof (cases "s = []")
    case True
    then show ?thesis using room by (simp add: repair_from.simps image_lines.simps)
  next
    case False
    note shorter = length_image_rest [OF False]
    have lines: "image_lines s = image_line s # image_lines (image_rest s)" using False by (subst image_lines.simps) simp
    have started: "crlf_lines out \<noteq> [] \<longleftrightarrow> out \<noteq> []" by (cases out) auto
    consider "image_line s = []" | "image_line s \<noteq> []" "line_is_key key (image_line s)" "seen"
      | "image_line s \<noteq> []" "\<not> (line_is_key key (image_line s) \<and> seen)" by blast
    then show ?thesis
    proof cases
      case 1
      then show ?thesis using False IH [OF shorter room] lines started
        by (subst repair_from.simps) (simp add: Let_def)
    next
      case 2
      then show ?thesis using False IH [OF shorter room] lines
        by (subst repair_from.simps) (simp add: Let_def line_is_key_def)
    next
      case 3
      let ?new = "(if blank then [[]] else []) @ [image_line s]"
      let ?seen = "seen_after key (image_line s) seen"
      have new: "crlf_lines out @ (if blank then [0x0D, 0x0A] else []) @ image_line s @ [0x0D, 0x0A] = crlf_lines (out @ ?new)"
        by simp
      have need: "length (image_line s) + 2 + (if blank then 2 else 0) > capacity - length (crlf_lines out) \<longleftrightarrow>
          length (crlf_lines (out @ ?new)) > capacity" using room by auto
      have step: "repair_from s (crlf_lines out) capacity key seen blank =
          (if length (crlf_lines (out @ ?new)) > capacity then None
           else repair_from (image_rest s) (crlf_lines (out @ ?new)) capacity key ?seen False)"
        using False 3 need new
        by (subst repair_from.simps) (auto simp: Let_def line_is_key_def seen_after_def)
      have rl: "repair_lines key (image_lines s) seen blank (out \<noteq> []) =
          ?new @ repair_lines key (image_lines (image_rest s)) ?seen False True"
        using 3 lines by auto
      show ?thesis
        unfolding step rl using IH [OF shorter, of "out @ ?new"] by (auto simp: Let_def)
    qed
  qed
qed

lemma v9x_ini_repair_lines:
  "v9x_ini_repair s capacity key =
     (let out = crlf_lines (repair_lines key (image_lines s) False False False)
      in if length out \<le> capacity then Some out else None)"
  using repair_from_lines [of "[]" capacity s key False False] by (simp add: v9x_ini_repair_def)

lemma plain_repair_lines: "list_all plain_line ls \<Longrightarrow> list_all plain_line (repair_lines key ls seen blank started)"
  by (induction key ls seen blank started rule: repair_lines.induct) (auto simp: plain_line_def)

lemma repair_lines_idem:
  "blank \<longrightarrow> started \<Longrightarrow>
   repair_lines key (repair_lines key ls seen blank started) seen False started = repair_lines key ls seen blank started"
proof (induction key ls seen blank started rule: repair_lines.induct)
  case (2 key l ls seen blank started)
  then show ?case by auto
qed simp

text \<open>The unique key stands at most once in every section.\<close>

fun key_once :: "bytes option \<Rightarrow> bool \<Rightarrow> bytes list \<Rightarrow> bool" where
  "key_once key seen [] \<longleftrightarrow> True"
| "key_once key seen (l # ls) \<longleftrightarrow>
     (if l = [] then key_once key seen ls
      else \<not> (line_is_key key l \<and> seen) \<and> key_once key (seen_after key l seen) ls)"

lemma repair_lines_key_once: "key_once key seen (repair_lines key ls seen blank started)"
  by (induction key ls seen blank started rule: repair_lines.induct) auto

subsection \<open>Room\<close>

lemma repair_lines_length:
  "length (crlf_lines (repair_lines key (image_lines s) seen blank started)) \<le>
     2 * length s + (if s = [] then 0 else 2) + (if blank then 2 else 0)"
proof (induction s arbitrary: seen blank started rule: length_induct)
  case (1 s)
  show ?case
  proof (cases "s = []")
    case True
    then show ?thesis by (simp add: image_lines.simps)
  next
    case False
    note shorter = length_image_rest [OF False]
    have lines: "image_lines s = image_line s # image_lines (image_rest s)" using False by (subst image_lines.simps) simp
    note IH = 1[rule_format, OF shorter]
    let ?l = "image_line s" and ?r = "image_rest s"
    have split: "length ?l + length (dropWhile (\<lambda>c. c \<noteq> 0x0D \<and> c \<noteq> 0x0A) s) = length s"
      unfolding image_line_def by (metis length_append takeWhile_dropWhile_id)
    have rest: "length ?l + length ?r \<le> length s" "?r \<noteq> [] \<Longrightarrow> length ?l + length ?r + 1 \<le> length s"
      using split by (auto simp: image_rest_def split: list.splits if_splits)
    show ?thesis
    proof (cases "?l = []")
      case True
      then show ?thesis using lines IH [of seen "blank \<or> started" started] shorter False
        by (auto split: if_splits)
    next
      case l: False
      then have pos: "1 \<le> length ?l" by (cases ?l) auto
      show ?thesis
      proof (cases "line_is_key key ?l \<and> seen")
        case True
        then show ?thesis using lines IH [of seen blank started] shorter l
          by (auto split: if_splits)
      next
        case False
        then show ?thesis
          using lines IH [of "seen_after key ?l seen" False True] rest pos l \<open>s \<noteq> []\<close>
          by (cases "?r = []") auto
      qed
    qed
  qed
qed

subsection \<open>The claims\<close>

text \<open>C30. Repairing is stable: a repaired image fits the capacity, has the unique key at most once in every
  section, and repairing it again gives it back byte for byte.\<close>

theorem ini_repair_stable:
  assumes "v9x_ini_repair s capacity key = Some out"
  shows "length out \<le> capacity \<and> key_once key False (image_lines out) \<and> v9x_ini_repair out capacity key = Some out"
proof -
  define ls where "ls = repair_lines key (image_lines s) False False False"
  have out: "out = crlf_lines ls" "length out \<le> capacity"
    using assms by (auto simp: v9x_ini_repair_lines ls_def Let_def split: if_splits)
  have lines: "image_lines out = ls"
    unfolding out(1) by (rule image_lines_crlf) (simp add: ls_def plain_repair_lines plain_image_lines)
  have "repair_lines key ls False False False = ls" unfolding ls_def by (rule repair_lines_idem) simp
  then show ?thesis using out lines repair_lines_key_once [of key False "image_lines s" False False]
    by (simp add: v9x_ini_repair_lines ls_def [symmetric])
qed

definition sample_image :: bytes where
  "sample_image = [10] @ asc ''[a]'' @ [10] @ asc ''Id=1'' @ [13] @ asc ''id = 2'' @ [13, 10, 10, 10] @ asc ''x=y''"

theorem ini_repair_stable_witness:
  "length (asc ''[a]'' @ [13, 10] @ asc ''Id=1'' @ [13, 10, 13, 10] @ asc ''x=y'' @ [13, 10]) \<le> 99 \<and>
   key_once (Some (asc ''id'')) False (image_lines (asc ''[a]'' @ [13, 10] @ asc ''Id=1'' @ [13, 10, 13, 10] @ asc ''x=y'' @ [13, 10])) \<and>
   v9x_ini_repair (asc ''[a]'' @ [13, 10] @ asc ''Id=1'' @ [13, 10, 13, 10] @ asc ''x=y'' @ [13, 10]) 99 (Some (asc ''id'')) =
     Some (asc ''[a]'' @ [13, 10] @ asc ''Id=1'' @ [13, 10, 13, 10] @ asc ''x=y'' @ [13, 10])"
proof -
  have "v9x_ini_repair sample_image 99 (Some (asc ''id'')) =
      Some (asc ''[a]'' @ [13, 10] @ asc ''Id=1'' @ [13, 10, 13, 10] @ asc ''x=y'' @ [13, 10])"
    by code_simp
  then show ?thesis by (rule ini_repair_stable)
qed

text \<open>Twice the size of the image and two bytes are always room enough.\<close>

theorem ini_repair_fits:
  assumes "2 * length s + 2 \<le> capacity"
  shows "\<exists>out. v9x_ini_repair s capacity key = Some out"
  using repair_lines_length [of key s False False False] assms
  by (auto simp: v9x_ini_repair_lines Let_def split: if_splits)

theorem ini_repair_fits_witness: "\<exists>out. v9x_ini_repair sample_image 60 None = Some out"
  by (rule ini_repair_fits) (simp add: sample_image_def)

end
