(* ===== verification/Outcome.thy ===== *)
theory Outcome
  imports V9xPrelude
begin

section \<open>Outcomes: state, status and memory safety in one result\<close>

text \<open>
  The components that decode foreign bytes return a status and leave a changed state behind even
  when they fail. Their models return \<open>None\<close> when the C code would access memory it does not own,
  \<open>Some (s, Inl e)\<close> when the code returns the status \<open>e\<close>, and \<open>Some (s, Inr v)\<close> when it
  succeeds with the value \<open>v\<close>; \<open>s\<close> is the state it leaves. \<open>andthen\<close> is the idiom
  \<^verbatim>\<open>status = f(...); if (status != OK) return status;\<close> of the source, and \<open>outcome r E Q\<close> says that
  \<open>r\<close> is no illegal access, satisfies \<open>E\<close> on failure and \<open>Q\<close> on success.
\<close>

type_synonym ('s, 'e, 'a) outcome = "('s \<times> ('e + 'a)) option"

definition andthen ::
    "('s, 'e, 'a) outcome \<Rightarrow> ('a \<Rightarrow> 's \<Rightarrow> ('s, 'e, 'b) outcome) \<Rightarrow> ('s, 'e, 'b) outcome" where
  "andthen r f =
     (case r of None \<Rightarrow> None
      | Some (s, Inl e) \<Rightarrow> Some (s, Inl e)
      | Some (s, Inr a) \<Rightarrow> f a s)"

definition outcome :: "('s, 'e, 'a) outcome \<Rightarrow> ('e \<Rightarrow> 's \<Rightarrow> bool) \<Rightarrow> ('a \<Rightarrow> 's \<Rightarrow> bool) \<Rightarrow> bool" where
  "outcome r E Q =
     (case r of None \<Rightarrow> False
      | Some (s, Inl e) \<Rightarrow> E e s
      | Some (s, Inr a) \<Rightarrow> Q a s)"

lemma andthen_simps [simp]:
  "andthen None f = None"
  "andthen (Some (s, Inl e)) f = Some (s, Inl e)"
  "andthen (Some (s, Inr a)) f = f a s"
  by (simp_all add: andthen_def)

text \<open>Loops written with \<open>andthen\<close> may use what the first step returned in their termination
  proof.\<close>

lemma andthen_cong [fundef_cong]:
  assumes "r = r'" and "\<And>s a. r' = Some (s, Inr a) \<Longrightarrow> f a s = f' a s"
  shows "andthen r f = andthen r' f'"
  unfolding assms(1) andthen_def using assms(2) by (auto split: option.split sum.split)

lemma outcome_value [simp]:
  "\<not> outcome None E Q"
  "outcome (Some (s, Inl e)) E Q \<longleftrightarrow> E e s"
  "outcome (Some (s, Inr a)) E Q \<longleftrightarrow> Q a s"
  by (simp_all add: outcome_def)

lemma outcome_not_None: "outcome r E Q \<Longrightarrow> r \<noteq> None"
  by (cases r) simp_all

lemma outcome_cases:
  assumes "outcome r E Q"
  obtains s e where "r = Some (s, Inl e)" "E e s" | s a where "r = Some (s, Inr a)" "Q a s"
proof (cases r)
  case None
  with assms(1) show thesis by simp
next
  case (Some p)
  obtain s v where p: "p = (s, v)" by (cases p)
  show thesis using assms(1) that Some unfolding p by (cases v) simp_all
qed

lemma outcome_andthen:
  assumes "outcome r E P" and "\<And>a s. P a s \<Longrightarrow> outcome (f a s) E Q"
  shows "outcome (andthen r f) E Q"
  using assms by (auto elim!: outcome_cases)

lemma outcome_mono:
  assumes "outcome r E P" and "\<And>e s. E e s \<Longrightarrow> F e s" and "\<And>a s. P a s \<Longrightarrow> Q a s"
  shows "outcome r F Q"
  using assms by (auto elim!: outcome_cases)

lemma outcome_if:
  "outcome (if c then r else r') E Q \<longleftrightarrow> (c \<longrightarrow> outcome r E Q) \<and> (\<not> c \<longrightarrow> outcome r' E Q)"
  by simp

lemma outcome_conj:
  "outcome r E P \<Longrightarrow> outcome r F Q \<Longrightarrow> outcome r (\<lambda>e s. E e s \<and> F e s) (\<lambda>a s. P a s \<and> Q a s)"
  by (auto elim!: outcome_cases)

lemma andthen_eq_Inr_iff:
  "andthen r f = Some (s', Inr b) \<longleftrightarrow> (\<exists>s a. r = Some (s, Inr a) \<and> f a s = Some (s', Inr b))"
  by (auto simp: andthen_def split: option.splits sum.splits)

lemma andthen_eq_Inr_cases:
  assumes "andthen r f = Some (s', Inr b)"
  obtains s a where "r = Some (s, Inr a)" "f a s = Some (s', Inr b)"
  using assms by (auto simp: andthen_eq_Inr_iff)

end
