(* ===== verification/UpdateProto.thy ===== *)
theory UpdateProto
  imports Outcome
begin

section \<open>UpdateProto: the text half of the update protocol\<close>

text \<open>
  \<^verbatim>\<open>include/v9xremote/update_proto.h\<close> and \<^verbatim>\<open>src/common/update_proto.c\<close>. A C string walked by a
  moving pointer is the list of the bytes not yet walked, the empty list being the terminator; a
  buffer given with a length is a list, and where the code indexes it the access is checked. A string
  the code builds is the list built so far, which the code compares with the capacity of its buffer
  before every byte (the terminator included).
\<close>

subsection \<open>Constants\<close>

definition V9X_UPDATE_PORT :: u32 where "V9X_UPDATE_PORT = 80"
definition V9X_UPDATE_HOST_MAX :: nat where "V9X_UPDATE_HOST_MAX = 64"
definition V9X_UPDATE_PATH_MAX :: nat where "V9X_UPDATE_PATH_MAX = 256"
definition V9X_UPDATE_NO_LENGTH :: u32 where "V9X_UPDATE_NO_LENGTH = 0xFFFFFFFF"
definition V9X_UPDATE_REPORT_CODE_PREFIX :: bytes where "V9X_UPDATE_REPORT_CODE_PREFIX = asc ''V9X-''"
definition V9X_UPDATE_REPORT_CODE_CHARS :: nat where "V9X_UPDATE_REPORT_CODE_CHARS = 6"

definition v9x_update_crockford :: bytes where
  "v9x_update_crockford = asc ''0123456789ABCDEFGHJKMNPQRSTVWXYZ''"

record update_url =
  uhost :: bytes
  uport :: u16
  upath :: bytes

subsection \<open>Characters\<close>

definition v9x_update_lower :: "u8 \<Rightarrow> u8" where
  "v9x_update_lower c = (if c \<ge> 0x41 \<and> c \<le> 0x5A then c - 0x41 + 0x61 else c)"

definition v9x_update_is_space :: "u8 \<Rightarrow> bool" where
  "v9x_update_is_space c \<longleftrightarrow> c = 0x20 \<or> c = 0x09 \<or> c = 0x0D"

definition v9x_update_is_digit :: "u8 \<Rightarrow> bool" where
  "v9x_update_is_digit c \<longleftrightarrow> c \<ge> 0x30 \<and> c \<le> 0x39"

definition update_is_alpha :: "u8 \<Rightarrow> bool" where
  "update_is_alpha c \<longleftrightarrow> c \<ge> 0x41 \<and> c \<le> 0x5A \<or> c \<ge> 0x61 \<and> c \<le> 0x7A"

fun v9x_update_span_equals :: "bytes \<Rightarrow> bytes \<Rightarrow> bool" where
  "v9x_update_span_equals [] right \<longleftrightarrow> right = []"
| "v9x_update_span_equals (l # ls) [] \<longleftrightarrow> False"
| "v9x_update_span_equals (l # ls) (r # rs) \<longleftrightarrow>
     v9x_update_lower l = v9x_update_lower r \<and> v9x_update_span_equals ls rs"

subsection \<open>Percent encoding\<close>

definition update_hex :: bytes where
  "update_hex = asc ''0123456789ABCDEF''"

definition url_unreserved :: "u8 \<Rightarrow> bool" where
  "url_unreserved c \<longleftrightarrow> update_is_alpha c \<or> v9x_update_is_digit c \<or>
     c = 0x2D \<or> c = 0x2E \<or> c = 0x5F \<or> c = 0x7E"

text \<open>The loop: \<open>out\<close> is the output so far; \<open>None\<close> is \<^verbatim>\<open>V9X_FALSE\<close>.\<close>

fun encode_from :: "bytes \<Rightarrow> bytes \<Rightarrow> nat \<Rightarrow> bytes option" where
  "encode_from [] out capacity = Some out"
| "encode_from (c # text) out capacity =
     (if url_unreserved c then
        (if length out + 1 \<ge> capacity then None else encode_from text (out @ [c]) capacity)
      else if length out + 3 \<ge> capacity then None
      else encode_from text
        (out @ [0x25, update_hex ! unat (drop_bit 4 c), update_hex ! unat (c AND 0x0F)]) capacity)"

text \<open>The status and the string the output buffer holds afterwards (\<open>old\<close> before): with no capacity it
  is not touched, on a failure it is empty.\<close>

definition v9x_update_url_encode :: "bytes \<Rightarrow> bytes \<Rightarrow> nat \<Rightarrow> bool \<times> bytes" where
  "v9x_update_url_encode text old capacity =
     (if capacity = 0 then (False, old)
      else case encode_from text [] capacity of None \<Rightarrow> (False, []) | Some out \<Rightarrow> (True, out))"

subsection \<open>INI-shaped text\<close>

definition trim_left :: "bytes \<Rightarrow> bytes" where
  "trim_left s = dropWhile v9x_update_is_space s"

definition trim_right :: "bytes \<Rightarrow> bytes" where
  "trim_right s = rev (dropWhile v9x_update_is_space (rev s))"

text \<open>One line after another: the first line and what follows its line feed.\<close>

definition ini_line :: "bytes \<Rightarrow> bytes" where
  "ini_line text = takeWhile (\<lambda>c. c \<noteq> 0x0A) text"

definition ini_rest :: "bytes \<Rightarrow> bytes" where
  "ini_rest text = drop 1 (dropWhile (\<lambda>c. c \<noteq> 0x0A) text)"

lemma length_ini_rest: "text \<noteq> [] \<Longrightarrow> length (ini_rest text) < length text"
proof -
  assume "text \<noteq> []"
  then have "0 < length text" by simp
  then show ?thesis
    unfolding ini_rest_def length_drop
    using length_dropWhile_le [of "\<lambda>c. c \<noteq> 0x0A" "text"] by linarith
qed

datatype ini_verdict = IniSkip | IniSection bool | IniValue bytes | IniLong

text \<open>What one trimmed line means.\<close>

definition ini_judge :: "bytes \<Rightarrow> bool \<Rightarrow> bytes \<Rightarrow> bytes \<Rightarrow> nat \<Rightarrow> ini_verdict" where
  "ini_judge line in_section section_name key capacity =
     (if line = [] then IniSkip
      else if hd line = 0x5B then
        IniSection (last line = 0x5D \<and> v9x_update_span_equals (butlast (tl line)) section_name)
      else if \<not> in_section then IniSkip
      else
        let name = takeWhile (\<lambda>c. c \<noteq> 0x3D) line; after = dropWhile (\<lambda>c. c \<noteq> 0x3D) line in
        if after = [] then IniSkip
        else if \<not> v9x_update_span_equals (trim_right name) key then IniSkip
        else
          let found = trim_left (tl after) in
          if length found + 1 > capacity then IniLong else IniValue found)"

function ini_from :: "bytes \<Rightarrow> bool \<Rightarrow> bytes \<Rightarrow> bytes \<Rightarrow> nat \<Rightarrow> bytes option" where
  "ini_from text in_section section_name key capacity =
     (if text = [] then None
      else
        (case ini_judge (trim_right (trim_left (ini_line text))) in_section section_name key capacity of
           IniSkip \<Rightarrow> ini_from (ini_rest text) in_section section_name key capacity
         | IniSection here \<Rightarrow> ini_from (ini_rest text) here section_name key capacity
         | IniValue found \<Rightarrow> Some found
         | IniLong \<Rightarrow> None))"
  by pat_completeness auto

termination ini_from
  by (relation "measure (\<lambda>(text, _). length text)") (auto simp: length_ini_rest)

declare ini_from.simps [simp del]

definition v9x_update_ini_value :: "bytes \<Rightarrow> bytes \<Rightarrow> bytes \<Rightarrow> bytes \<Rightarrow> nat \<Rightarrow> bool \<times> bytes" where
  "v9x_update_ini_value text section_name key old capacity =
     (if capacity = 0 then (False, old)
      else case ini_from text False section_name key capacity of
          None \<Rightarrow> (False, [])
        | Some found \<Rightarrow> (True, found))"

subsection \<open>URLs\<close>

fun split_scheme :: "bytes \<Rightarrow> bytes \<Rightarrow> bytes option" where
  "split_scheme url [] = Some url"
| "split_scheme [] (s # scheme) = None"
| "split_scheme (c # url) (s # scheme) =
     (if v9x_update_lower c \<noteq> s then None else split_scheme url scheme)"

fun split_host :: "bytes \<Rightarrow> bytes \<Rightarrow> (bytes \<times> bytes) option" where
  "split_host [] host = Some (host, [])"
| "split_host (c # url) host =
     (if c = 0x3A \<or> c = 0x2F then Some (host, c # url)
      else if \<not> (update_is_alpha c \<or> v9x_update_is_digit c \<or> c = 0x2E \<or> c = 0x2D) then None
      else if length host + 1 \<ge> V9X_UPDATE_HOST_MAX then None
      else split_host url (host @ [c]))"

text \<open>A run of at most five digits with a value that fits 16 bits, as in ports and version parts.\<close>

fun split_digits :: "bytes \<Rightarrow> u32 \<Rightarrow> nat \<Rightarrow> (u32 \<times> nat \<times> bytes) option" where
  "split_digits [] acc digits = Some (acc, digits, [])"
| "split_digits (c # url) acc digits =
     (if v9x_update_is_digit c then
        let acc = acc * 10 + ucast (c - 0x30); digits = digits + 1 in
        if digits > 5 \<or> acc > 65535 then None else split_digits url acc digits
      else Some (acc, digits, c # url))"

fun split_path :: "bytes \<Rightarrow> bytes \<Rightarrow> bytes option" where
  "split_path [] path = Some path"
| "split_path (c # url) path =
     (if c \<le> 0x20 \<or> c \<ge> 0x7F then None
      else if length path + 1 \<ge> V9X_UPDATE_PATH_MAX then None
      else split_path url (path @ [c]))"

text \<open>\<open>None\<close> is \<^verbatim>\<open>V9X_FALSE\<close>; the struct is then not to be used.\<close>

definition v9x_update_url_split :: "bytes \<Rightarrow> update_url option" where
  "v9x_update_url_split url = do {
     url \<leftarrow> split_scheme url (asc ''http://'');
     (host, url) \<leftarrow> split_host url [];
     if host = [] then None
     else do {
       (port, url) \<leftarrow> (case url of
           c # url' \<Rightarrow> if c = 0x3A then do {
               (port, digits, url) \<leftarrow> split_digits url' 0 0;
               if digits = 0 \<or> port = 0 then None else Some (port, url) }
             else Some (V9X_UPDATE_PORT, url)
         | [] \<Rightarrow> Some (V9X_UPDATE_PORT, url));
       if url = [] then Some \<lparr>uhost = host, uport = ucast port, upath = [0x2F]\<rparr>
       else if hd url \<noteq> 0x2F then None
       else do {
         path \<leftarrow> split_path url [];
         Some \<lparr>uhost = host, uport = ucast port, upath = path\<rparr> } } }"

subsection \<open>The head of an HTTP response\<close>

record http_head =
  hstatus :: u32
  hbody :: nat
  hlength :: u32

text \<open>The end of the head: the place after the first empty line, 0 when there is none.\<close>

fun head_search :: "bytes \<Rightarrow> nat \<Rightarrow> nat \<Rightarrow> nat \<Rightarrow> nat option" where
  "head_search raw len index 0 = Some 0"
| "head_search raw len index (Suc n) = do {
     c \<leftarrow> rd raw index;
     if c \<noteq> 0x0A then head_search raw len (index + 1) n
     else do {
       bare \<leftarrow> (if index + 1 < len then do { d \<leftarrow> rd raw (index + 1); Some (d = 0x0A) } else Some False);
       if bare then Some (index + 2)
       else do {
         crlf \<leftarrow> (if index + 2 < len then do {
                    d \<leftarrow> rd raw (index + 1);
                    e \<leftarrow> rd raw (index + 2);
                    Some (d = 0x0D \<and> e = 0x0A) } else Some False);
         if crlf then Some (index + 3) else head_search raw len (index + 1) n } } }"

fun head_prefix :: "bytes \<Rightarrow> nat \<Rightarrow> bytes \<Rightarrow> bool option" where
  "head_prefix raw index [] = Some True"
| "head_prefix raw index (v # version) = do {
     c \<leftarrow> rd raw index;
     if v9x_update_lower c \<noteq> v then Some False else head_prefix raw (index + 1) version }"

fun head_code :: "bytes \<Rightarrow> nat \<Rightarrow> nat \<Rightarrow> u32 \<Rightarrow> u32 option option" where
  "head_code raw position 0 code = Some (Some code)"
| "head_code raw position (Suc n) code = do {
     c \<leftarrow> rd raw position;
     if \<not> v9x_update_is_digit c then Some None
     else head_code raw (position + 1) n (code * 10 + ucast (c - 0x30)) }"

text \<open>The scans inside a header line: to the line feed, to the colon, over blanks.\<close>

fun scan_until :: "bytes \<Rightarrow> u8 \<Rightarrow> nat \<Rightarrow> nat \<Rightarrow> nat option" where
  "scan_until raw stop_at position 0 = Some position"
| "scan_until raw stop_at position (Suc n) = do {
     c \<leftarrow> rd raw position;
     if c = stop_at then Some position else scan_until raw stop_at (position + 1) n }"

fun scan_over :: "bytes \<Rightarrow> u8 \<Rightarrow> nat \<Rightarrow> nat \<Rightarrow> nat option" where
  "scan_over raw skipped position 0 = Some position"
| "scan_over raw skipped position (Suc n) = do {
     c \<leftarrow> rd raw position;
     if c = skipped then scan_over raw skipped (position + 1) n else Some position }"

text \<open>The decimal value of Content-Length; \<open>Some None\<close> is the refusal of a value that would not fit.\<close>

fun length_digits :: "bytes \<Rightarrow> nat \<Rightarrow> nat \<Rightarrow> u32 \<Rightarrow> u32 option option" where
  "length_digits raw index 0 acc = Some (Some acc)"
| "length_digits raw index (Suc n) acc = do {
     c \<leftarrow> rd raw index;
     if \<not> v9x_update_is_digit c then Some (Some acc)
     else if acc > 0x19999998 then Some None
     else length_digits raw (index + 1) n (acc * 10 + ucast (c - 0x30)) }"

datatype header_verdict = HeaderSkip | HeaderBad | HeaderLength u32

definition head_line :: "bytes \<Rightarrow> nat \<Rightarrow> nat \<Rightarrow> header_verdict option" where
  "head_line raw start position = do {
     colon \<leftarrow> scan_until raw 0x3A start (position - start);
     if colon \<ge> position \<or> colon - start \<noteq> length (asc ''content-length'') then Some HeaderSkip
     else do {
       named \<leftarrow> head_prefix raw start (asc ''content-length'');
       if \<not> named then Some HeaderSkip
       else do {
         index \<leftarrow> scan_over raw 0x20 (colon + 1) (position - (colon + 1));
         if index \<ge> position then Some HeaderBad
         else do {
           c \<leftarrow> rd raw index;
           if \<not> v9x_update_is_digit c then Some HeaderBad
           else do {
             r \<leftarrow> length_digits raw index (position - index) 0;
             Some (case r of None \<Rightarrow> HeaderBad | Some v \<Rightarrow> HeaderLength v) } } } } }"

text \<open>The loop over the lines of the head; a line ends after its line feed.\<close>

function head_lines :: "bytes \<Rightarrow> nat \<Rightarrow> nat \<Rightarrow> http_head \<Rightarrow> (http_head, unit, unit) outcome" where
  "head_lines raw head_end position h =
     (if position < head_end then do {
        lf \<leftarrow> scan_until raw 0x0A position (head_end - position);
        verdict \<leftarrow> head_line raw position (lf + 1);
        (case verdict of
           HeaderBad \<Rightarrow> Some (h, Inl ())
         | HeaderSkip \<Rightarrow> head_lines raw head_end (lf + 1) h
         | HeaderLength v \<Rightarrow> head_lines raw head_end (lf + 1) (h\<lparr>hlength := v\<rparr>)) }
      else Some (h, Inr ()))"
  by pat_completeness auto

lemma scan_until_ge: "scan_until raw c position n = Some p \<Longrightarrow> position \<le> p \<and> p \<le> position + n"
  by (induction raw c position n rule: scan_until.induct) (auto split: if_splits Option.bind_splits)

termination head_lines
  by (relation "measure (\<lambda>(raw, head_end, position, h). head_end - position)")
     (auto dest!: scan_until_ge)

declare head_lines.simps [simp del]

definition v9x_update_http_head :: "bytes \<Rightarrow> nat \<Rightarrow> http_head \<Rightarrow> (http_head, unit, unit) outcome" where
  "v9x_update_http_head raw len h = do {
     head_end \<leftarrow> head_search raw len 0 len;
     if head_end < 14 then Some (h, Inl ())
     else do {
       version \<leftarrow> head_prefix raw 0 (asc ''http/1.'');
       if \<not> version then Some (h, Inl ())
       else do {
         minor \<leftarrow> rd raw 7;
         space \<leftarrow> rd raw 8;
         if \<not> v9x_update_is_digit minor \<or> space \<noteq> 0x20 then Some (h, Inl ())
         else do {
           code \<leftarrow> head_code raw 9 3 0;
           (case code of
              None \<Rightarrow> Some (h, Inl ())
            | Some code \<Rightarrow>
                head_lines raw head_end 0
                  \<lparr>hstatus = code, hbody = head_end, hlength = V9X_UPDATE_NO_LENGTH\<rparr>) } } } }"

subsection \<open>Report codes and versions\<close>

fun report_prefix :: "bytes \<Rightarrow> bytes \<Rightarrow> bytes option" where
  "report_prefix code [] = Some code"
| "report_prefix [] (p # prefix) = None"
| "report_prefix (c # code) (p # prefix) = (if c \<noteq> p then None else report_prefix code prefix)"

fun report_chars :: "bytes \<Rightarrow> nat \<Rightarrow> bytes option" where
  "report_chars code 0 = Some code"
| "report_chars [] (Suc n) = None"
| "report_chars (c # code) (Suc n) =
     (if c \<in> set v9x_update_crockford then report_chars code n else None)"

definition v9x_update_report_code_valid :: "bytes \<Rightarrow> bool" where
  "v9x_update_report_code_valid code =
     (case report_prefix code V9X_UPDATE_REPORT_CODE_PREFIX of
        None \<Rightarrow> False
      | Some code \<Rightarrow>
          (case report_chars code V9X_UPDATE_REPORT_CODE_CHARS of
             None \<Rightarrow> False
           | Some code \<Rightarrow> code = []))"

text \<open>The parts read so far are \<open>parts\<close>; at most three passes.\<close>

fun version_parts :: "bytes \<Rightarrow> u32 list \<Rightarrow> nat \<Rightarrow> u32 list option" where
  "version_parts text parts 0 = None"
| "version_parts text parts (Suc n) =
     (case split_digits text 0 0 of
        None \<Rightarrow> None
      | Some (part, digits, rest) \<Rightarrow>
          if digits = 0 then None
          else
            let parts = parts @ [part] in
            (case rest of
               [] \<Rightarrow> Some parts
             | c # rest \<Rightarrow> if c \<noteq> 0x2E \<or> length parts = 3 then None else version_parts rest parts n))"

definition v9x_update_version_parse :: "bytes \<Rightarrow> (u32 \<times> u32 \<times> u32) option" where
  "v9x_update_version_parse text =
     (let text = (if text \<noteq> [] \<and> (hd text = 0x76 \<or> hd text = 0x56) then tl text else text) in
      case version_parts text [] 3 of
        None \<Rightarrow> None
      | Some parts \<Rightarrow>
          if length parts < 2 then None
          else Some (parts ! 0, parts ! 1, if length parts = 3 then parts ! 2 else 0))"

fun compare_parts :: "u32 list \<Rightarrow> u32 list \<Rightarrow> int" where
  "compare_parts (l # ls) (r # rs) = (if l < r then - 1 else if l > r then 1 else compare_parts ls rs)"
| "compare_parts _ _ = 0"

definition v9x_update_version_compare :: "bytes \<Rightarrow> bytes \<Rightarrow> int" where
  "v9x_update_version_compare left right =
     (case (v9x_update_version_parse left, v9x_update_version_parse right) of
        (Some (l0, l1, l2), Some (r0, r1, r2)) \<Rightarrow> compare_parts [l0, l1, l2] [r0, r1, r2]
      | _ \<Rightarrow> - 2)"

end
