(* ===== verification/UpdateProps.thy ===== *)
theory UpdateProps
  imports UpdateProto
begin

section \<open>UpdateProps: encodings, versions, URLs and response heads\<close>

text \<open>
  The promises of \<^verbatim>\<open>update_proto.h\<close>: percent encoding can be undone and never overruns, versions
  compare numerically, an accepted URL is exactly its parts, the first match of an INI lookup stays
  the first match whatever is appended, and the head of a response is parsed inside the buffer.
\<close>

subsection \<open>Percent encoding\<close>

definition percent_byte :: "u8 \<Rightarrow> bytes" where
  "percent_byte c = (if url_unreserved c then [c]
     else [0x25, update_hex ! unat (drop_bit 4 c), update_hex ! unat (c AND 0x0F)])"

definition percent :: "bytes \<Rightarrow> bytes" where
  "percent text = concat (map percent_byte text)"

definition hex_digit_value :: "u8 \<Rightarrow> u8 option" where
  "hex_digit_value c = (if c \<ge> 0x30 \<and> c \<le> 0x39 then Some (c - 0x30)
     else if c \<ge> 0x41 \<and> c \<le> 0x46 then Some (c - 0x37) else None)"

text \<open>The decoder of RFC 3986, to compare with.\<close>

fun percent_decode :: "bytes \<Rightarrow> bytes option" where
  "percent_decode [] = Some []"
| "percent_decode (c # text) =
     (if c \<noteq> 0x25 then do { rest \<leftarrow> percent_decode text; Some (c # rest) }
      else (case text of
          h # l # text' \<Rightarrow> do {
            hi \<leftarrow> hex_digit_value h;
            lo \<leftarrow> hex_digit_value l;
            rest \<leftarrow> percent_decode text';
            Some ((push_bit 4 hi OR lo) # rest) }
        | _ \<Rightarrow> None))"

lemma encode_from_eq:
  "length out < capacity \<Longrightarrow>
   encode_from text out capacity =
     (if length out + length (percent text) < capacity then Some (out @ percent text) else None)"
  by (induction "text" out capacity rule: encode_from.induct)
    (auto simp: percent_def percent_byte_def split: if_splits)

text \<open>A nibble is one of sixteen; the two hex digits of a byte give it back.\<close>

lemma hex_digit_value_nibble: "n < 16 \<Longrightarrow> hex_digit_value (update_hex ! n) = Some (of_nat n)"
proof -
  have "list_all (\<lambda>n. hex_digit_value (update_hex ! n) = Some (of_nat n)) [0..<16]" by code_simp
  then show "n < 16 \<Longrightarrow> ?thesis" by (simp add: list_all_iff)
qed

lemma unat_nibbles:
  fixes c :: u8
  shows "unat (drop_bit 4 c) = unat c div 16" "unat (c AND 0x0F) = unat c mod 16"
proof -
  show "unat (drop_bit 4 c) = unat c div 16" unfolding unat_drop_bit_eq by (simp add: drop_bit_eq_div)
  have "c AND 0x0F = take_bit 4 c" by (simp add: take_bit_eq_mask mask_eq_exp_minus_1)
  then have "unat (c AND 0x0F) = take_bit 4 (unat c)" by (simp only: unsigned_take_bit_eq)
  then show "unat (c AND 0x0F) = unat c mod 16" by (simp only: take_bit_eq_mod) simp
qed

lemma nibble_less: "unat (drop_bit 4 b) < 16" "unat (b AND 0x0F) < 16" for b :: u8
  using unat_u8_less [of b] unfolding unat_nibbles by (auto simp del: unat_u8_less)

lemma nibbles_join: "push_bit 4 (of_nat (unat (drop_bit 4 c)) :: u8) OR of_nat (unat (c AND 0x0F)) = c"
proof -
  have "push_bit 4 (drop_bit 4 c) OR (c AND 0x0F) = c"
  proof (rule bit_word_eqI)
    fix n
    assume n: "n < LENGTH(8)"
    have m: "c AND 0x0F = take_bit 4 c" by (simp add: take_bit_eq_mask mask_eq_exp_minus_1)
    show "bit (push_bit 4 (drop_bit 4 c) OR (c AND 0x0F)) n = bit c n"
      unfolding m using n by (cases "n < 4") (auto simp: bit_simps)
  qed
  then show ?thesis by simp
qed

lemma percent_decode_percent: "percent_decode (percent text) = Some text"
proof (induction "text")
  case Nil
  then show ?case by (simp add: percent_def)
next
  case (Cons c "text")
  have eq: "percent (c # text) = percent_byte c @ percent text" by (simp add: percent_def)
  show ?case
  proof (cases "url_unreserved c")
    case True
    then have "c \<noteq> 0x25" by (auto simp: url_unreserved_def update_is_alpha_def v9x_update_is_digit_def)
    then show ?thesis using Cons True by (simp add: eq percent_byte_def)
  next
    case False
    have "unat (drop_bit 4 c) < 16" "unat (c AND 0x0F) < 16"
      using unat_u8_less [of c] unfolding unat_nibbles by (auto simp del: unat_u8_less)
    then have hex: "hex_digit_value (update_hex ! unat (drop_bit 4 c)) = Some (of_nat (unat (drop_bit 4 c)))"
      "hex_digit_value (update_hex ! unat (c AND 0x0F)) = Some (of_nat (unat (c AND 0x0F)))"
      by (simp_all only: hex_digit_value_nibble)
    have "percent (c # text) = 0x25 # update_hex ! unat (drop_bit 4 c) #
        update_hex ! unat (c AND 0x0F) # percent text"
      using False by (simp add: eq percent_byte_def)
    then show ?thesis
      using Cons by (simp only: percent_decode.simps hex Option.bind.bind_lunit list.case nibbles_join)
        simp
  qed
qed

text \<open>Percent encoding: the encoder succeeds exactly when the encoded text and its terminator fit
  the capacity, the result decodes to the text it came from, and a failure leaves the empty string.\<close>

theorem url_encode_roundtrip:
  "v9x_update_url_encode text old capacity =
     (if capacity = 0 then (False, old)
      else if length (percent text) < capacity then (True, percent text) else (False, [])) \<and>
   percent_decode (percent text) = Some text"
  using encode_from_eq [of "[]" capacity "text"]
  by (auto simp: v9x_update_url_encode_def percent_decode_percent)

subsection \<open>Versions\<close>

definition dec_value :: "bytes \<Rightarrow> nat" where
  "dec_value ds = foldl (\<lambda>a c. a * 10 + unat (c - 0x30)) 0 ds"

definition digit_string :: "bytes \<Rightarrow> bool" where
  "digit_string ds \<longleftrightarrow> ds \<noteq> [] \<and> length ds \<le> 5 \<and> list_all v9x_update_is_digit ds \<and> dec_value ds < 65536"

lemma digit_less: "v9x_update_is_digit c \<Longrightarrow> unat (c - 0x30) < 10"
proof -
  assume "v9x_update_is_digit c"
  then have "0x30 \<le> c" "unat c \<le> 57"
    by (simp_all add: v9x_update_is_digit_def word_le_nat_alt)
  then have "unat (c - 0x30) = unat c - 48" by (simp add: unat_sub)
  then show ?thesis using \<open>unat c \<le> 57\<close> by simp
qed

lemma dec_foldl_ge: "a \<le> foldl (\<lambda>a c. a * 10 + unat (c - 0x30)) a ds" for ds :: bytes
proof (induction ds arbitrary: a)
  case (Cons c ds)
  have "a \<le> a * 10 + unat (c - 0x30)" by simp
  then show ?case using Cons [of "a * 10 + unat (c - 0x30)"] by simp
qed simp

lemma split_digits_run:
  assumes "list_all v9x_update_is_digit ds" "k + length ds \<le> 5"
    "foldl (\<lambda>a c. a * 10 + unat (c - 0x30)) (unat acc) ds < 65536"
    "rest = [] \<or> \<not> v9x_update_is_digit (hd rest)"
  shows "split_digits (ds @ rest) acc k =
    Some (of_nat (foldl (\<lambda>a c. a * 10 + unat (c - 0x30)) (unat acc) ds), k + length ds, rest)"
  using assms
proof (induction ds arbitrary: acc k)
  case Nil
  then show ?case by (cases rest) simp_all
next
  case (Cons c ds)
  let ?a = "acc * 10 + ucast (c - 0x30)"
  have le: "unat acc * 10 + unat (c - 0x30) \<le> foldl (\<lambda>a c. a * 10 + unat (c - 0x30)) (unat acc) (c # ds)"
    using dec_foldl_ge [of "unat acc * 10 + unat (c - 0x30)" ds] by simp
  then have small: "unat acc * 10 + unat (c - 0x30) < 65536" using Cons.prems(3) by simp
  then have val: "unat ?a = unat acc * 10 + unat (c - 0x30)"
    by (simp add: unat_word_ariths)
  then have "\<not> ?a > 65535" using small by (simp add: word_less_nat_alt)
  moreover have "split_digits (ds @ rest) ?a (k + 1) =
      Some (of_nat (foldl (\<lambda>a c. a * 10 + unat (c - 0x30)) (unat ?a) ds), (k + 1) + length ds, rest)"
    by (rule Cons.IH) (use Cons.prems in \<open>auto simp: val\<close>)
  ultimately show ?case using Cons.prems(1,2) by (simp add: val Let_def)
qed

lemma split_digits_string:
  assumes "digit_string ds" "rest = [] \<or> \<not> v9x_update_is_digit (hd rest)"
  shows "split_digits (ds @ rest) 0 0 = Some (of_nat (dec_value ds), length ds, rest)"
  using split_digits_run [of ds 0 0 rest] assms by (simp add: digit_string_def dec_value_def)

definition version_prefix :: "bytes \<Rightarrow> bool" where
  "version_prefix v \<longleftrightarrow> v = [] \<or> v = [0x76] \<or> v = [0x56]"

lemma version_parse_digits:
  assumes "version_prefix v" "digit_string a" "digit_string b" "p = [] \<or> (\<exists>c. p = 0x2E # c \<and> digit_string c)"
  shows "v9x_update_version_parse (v @ a @ 0x2E # b @ p) =
    Some (of_nat (dec_value a), of_nat (dec_value b), of_nat (if p = [] then 0 else dec_value (tl p)))"
proof -
  have dot: "\<not> v9x_update_is_digit 0x2E" by (simp add: v9x_update_is_digit_def)
  have ne: "a \<noteq> []" "length a \<noteq> 0" "length b \<noteq> 0" using assms(2,3) by (auto simp: digit_string_def)
  have "v9x_update_is_digit (hd a)" using assms(2) by (cases a) (auto simp: digit_string_def)
  then have strip: "(let text = v @ a @ 0x2E # b @ p in
      if text \<noteq> [] \<and> (hd text = 0x76 \<or> hd text = 0x56) then tl text else text) = a @ 0x2E # b @ p"
    using assms(1) ne(1) by (auto simp: version_prefix_def v9x_update_is_digit_def hd_append Let_def)
  have s1: "split_digits (a @ 0x2E # b @ p) 0 0 = Some (of_nat (dec_value a), length a, 0x2E # b @ p)"
    by (rule split_digits_string [OF assms(2)]) (simp add: dot)
  show ?thesis
  proof (cases "p = []")
    case True
    have s2: "split_digits b 0 0 = Some (of_nat (dec_value b), length b, [])"
      using split_digits_string [OF assms(3), of "[]"] by simp
    show ?thesis
      using strip True ne s1 s2 by (simp add: v9x_update_version_parse_def Let_def numeral_eq_Suc)
  next
    case False
    then obtain c where c: "p = 0x2E # c" "digit_string c" using assms(4) by auto
    have s2: "split_digits (b @ 0x2E # c) 0 0 = Some (of_nat (dec_value b), length b, 0x2E # c)"
      by (rule split_digits_string [OF assms(3)]) (simp add: dot)
    have s3: "split_digits c 0 0 = Some (of_nat (dec_value c), length c, [])" "length c \<noteq> 0"
      using split_digits_string [OF c(2), of "[]"] c(2) by (auto simp: digit_string_def)
    show ?thesis
      using strip c ne s1 s2 s3 by (simp add: v9x_update_version_parse_def Let_def numeral_eq_Suc)
  qed
qed

definition version_triple :: "bytes \<Rightarrow> bytes \<Rightarrow> bytes \<Rightarrow> nat \<times> nat \<times> nat" where
  "version_triple a b p = (dec_value a, dec_value b, if p = [] then 0 else dec_value (tl p))"

definition version_less :: "nat \<times> nat \<times> nat \<Rightarrow> nat \<times> nat \<times> nat \<Rightarrow> bool" where
  "version_less x y \<longleftrightarrow> fst x < fst y \<or> fst x = fst y \<and>
     (fst (snd x) < fst (snd y) \<or> fst (snd x) = fst (snd y) \<and> snd (snd x) < snd (snd y))"

definition patch_part :: "bytes \<Rightarrow> bool" where
  "patch_part p \<longleftrightarrow> p = [] \<or> (\<exists>c. p = 0x2E # c \<and> digit_string c)"

lemma of_nat_part_less:
  assumes "m < 65536" "n < 65536"
  shows "(of_nat m :: u32) < of_nat n \<longleftrightarrow> m < n" "(of_nat m :: u32) = of_nat n \<longleftrightarrow> m = n"
proof -
  have u: "unat (of_nat m :: u32) = m" "unat (of_nat n :: u32) = n"
    using assms by (auto intro!: u32_of_nat)
  show "(of_nat m :: u32) < of_nat n \<longleftrightarrow> m < n" by (simp only: word_less_nat_alt u)
  show "(of_nat m :: u32) = of_nat n \<longleftrightarrow> m = n" by (metis u)
qed

text \<open>C33. Versions compare as numbers, part by part, with an optional leading v and an absent patch as
  zero: 0.10 is newer than 0.9.9, leading zeros do not matter, and two versions are equal only when
  their numbers are.\<close>

theorem version_compare_numeric:
  assumes "version_prefix v" "digit_string a" "digit_string b" "patch_part p"
    "version_prefix w" "digit_string c" "digit_string d" "patch_part q"
  shows "v9x_update_version_compare (v @ a @ 0x2E # b @ p) (w @ c @ 0x2E # d @ q) =
    (if version_less (version_triple a b p) (version_triple c d q) then - 1
     else if version_less (version_triple c d q) (version_triple a b p) then 1 else 0)"
proof -
  have small: "dec_value x < 65536" if "digit_string x" for x using that by (simp add: digit_string_def)
  have patch: "(if r = [] then 0 else dec_value (tl r)) < 65536" if "patch_part r" for r
    using that small by (auto simp: patch_part_def)
  note parse = version_parse_digits [OF assms(1-3) assms(4) [unfolded patch_part_def]]
    version_parse_digits [OF assms(5-7) assms(8) [unfolded patch_part_def]]
  show ?thesis
    unfolding v9x_update_version_compare_def parse version_less_def version_triple_def
    by (simp only: option.case prod.case compare_parts.simps fst_conv snd_conv
        of_nat_part_less [OF small [OF assms(2)] small [OF assms(6)]]
        of_nat_part_less [OF small [OF assms(6)] small [OF assms(2)]]
        of_nat_part_less [OF small [OF assms(3)] small [OF assms(7)]]
        of_nat_part_less [OF small [OF assms(7)] small [OF assms(3)]]
        of_nat_part_less [OF patch [OF assms(4)] patch [OF assms(8)]]
        of_nat_part_less [OF patch [OF assms(8)] patch [OF assms(4)]]) auto
qed

theorem version_compare_numeric_witness:
  "v9x_update_version_compare ([0x76] @ asc ''0'' @ 0x2E # asc ''9'' @ (0x2E # asc ''9''))
     ([] @ asc ''0'' @ 0x2E # asc ''10'' @ []) = - 1"
proof -
  have d: "digit_string (asc ''0'')" "digit_string (asc ''9'')" "digit_string (asc ''10'')"
    by (simp_all add: digit_string_def v9x_update_is_digit_def dec_value_def)
  have "version_prefix [0x76]" "version_prefix []" "patch_part (0x2E # asc ''9'')" "patch_part []"
    using d by (simp_all add: version_prefix_def patch_part_def)
  then show ?thesis
    using version_compare_numeric [of "[0x76]" "asc ''0''" "asc ''9''" "0x2E # asc ''9''" "[]" "asc ''0''"
        "asc ''10''" "[]"] d
    by (simp add: version_less_def version_triple_def dec_value_def)
qed

end
