(* ===== verification/InstallIdProps.thy ===== *)
theory InstallIdProps
  imports InstallId UpdateProps
begin

section \<open>InstallIdProps: the install identifier\<close>

text \<open>
  The mixing pool loses nothing: every step is injective on the four words of the pool, so two
  different measurements never meet again. What comes out is always a canonical version 4 UUID.
\<close>

subsection \<open>The finaliser is a bijection\<close>

lemma xor_shift_16: "(v XOR drop_bit 16 v) XOR drop_bit 16 (v XOR drop_bit 16 v) = v" for v :: u32
  by (rule bit_word_eqI) (auto simp: bit_simps)

lemma xor_shift_13:
  "(v XOR drop_bit 13 v) XOR drop_bit 13 (v XOR drop_bit 13 v) XOR drop_bit 26 (v XOR drop_bit 13 v) = v" for v :: u32
  by (rule bit_word_eqI) (auto simp: bit_simps)

definition id_unfmix :: "u32 \<Rightarrow> u32" where
  "id_unfmix v =
     (let v = v XOR drop_bit 16 v;
          v = v * 0x7ED1B41D;
          v = v XOR drop_bit 13 v XOR drop_bit 26 v;
          v = v * 0xA5CB9243
      in v XOR drop_bit 16 v)"

lemma id_unfmix_fmix: "id_unfmix (v9x_id_fmix v) = v"
proof -
  define a where "a = v XOR drop_bit 16 v"
  define b where "b = a * 0x85EBCA6B"
  define c where "c = b XOR drop_bit 13 b"
  define d where "d = c * 0xC2B2AE35"
  have f: "v9x_id_fmix v = d XOR drop_bit 16 d"
    by (simp add: v9x_id_fmix_def Let_def a_def b_def c_def d_def)
  have d: "d * 0x7ED1B41D = c"
  proof -
    have one: "(0xC2B2AE35 * 0x7ED1B41D :: u32) = 1" by simp
    show ?thesis unfolding d_def mult.assoc one by (rule mult_1_right)
  qed
  have b: "b * 0xA5CB9243 = a"
  proof -
    have one: "(0x85EBCA6B * 0xA5CB9243 :: u32) = 1" by simp
    show ?thesis unfolding b_def mult.assoc one by (rule mult_1_right)
  qed
  show ?thesis
    unfolding id_unfmix_def Let_def f xor_shift_16 d c_def xor_shift_13 b a_def xor_shift_16 by (rule refl)
qed

lemma v9x_id_fmix_inj: "v9x_id_fmix a = v9x_id_fmix b \<Longrightarrow> a = b"
  by (metis id_unfmix_fmix)

subsection \<open>Stirring and mixing are injective\<close>

lemma stir_word_inj:
  assumes "length as = 4" "length bs = 4" "i < 4" "stir_word as i = stir_word bs i"
  shows "as = bs"
proof (rule nth_equalityI)
  show len: "length as = length bs" using assms by simp
  have other: "as ! j = bs ! j" if "j \<noteq> i" for j
  proof -
    have "stir_word as i ! j = stir_word bs i ! j" using assms(4) by simp
    then show ?thesis using that by (simp add: stir_word_def)
  qed
  have "(i + 3) mod 4 \<noteq> i" using assms(3) by presburger
  note prev = other [OF this]
  have "stir_word as i ! i = stir_word bs i ! i" using assms(4) by simp
  then have "as ! i = bs ! i"
    using assms(1-3) prev by (auto simp: stir_word_def dest: v9x_id_fmix_inj)
  then show "as ! j = bs ! j" if "j < length as" for j using other by (cases "j = i") auto
qed

lemma length_stir_word [simp]: "length (stir_word ws i) = length ws"
  by (simp add: stir_word_def)

lemma stir_words_inj:
  assumes "length as = 4" "length bs = 4" "list_all (\<lambda>i. i < 4) is" "foldl stir_word as is = foldl stir_word bs is"
  shows "as = bs"
  using assms
proof (induction "is" arbitrary: as bs)
  case (Cons i "is")
  have "stir_word as i = stir_word bs i"
    by (rule Cons.IH) (use Cons.prems in simp_all)
  moreover have "i < 4" using Cons.prems(3) by simp
  ultimately show ?case by (rule stir_word_inj [OF Cons.prems(1,2), rotated])
qed simp

lemma length_foldl_stir [simp]: "length (foldl stir_word ws is) = length ws"
  by (induction "is" arbitrary: ws) simp_all

lemma v9x_id_stir_inj:
  assumes "length (pwords p) = 4" "length (pwords q) = 4" "v9x_id_stir p = v9x_id_stir q"
  shows "p = q"
proof -
  have "foldl stir_word (pwords p) [0, 1, 2, 3] = foldl stir_word (pwords q) [0, 1, 2, 3]"
    "pcount p = pcount q"
    using assms(3) by (cases p; cases q; simp add: v9x_id_stir_def)+
  moreover from this(1) have "pwords p = pwords q"
    using stir_words_inj [OF assms(1,2), of "[0, 1, 2, 3]"] by simp
  ultimately show ?thesis by (cases p; cases q) simp
qed

lemma pool_index: "unat (c AND 3) < 4" for c :: u32
proof -
  have "c AND 3 = take_bit 2 c" by (simp add: take_bit_eq_mask mask_eq_exp_minus_1)
  then have "unat (c AND 3) = take_bit 2 (unat c)" by (simp only: unsigned_take_bit_eq)
  then show ?thesis by (simp only: take_bit_eq_mod) simp
qed

definition pool_ok :: "id_pool \<Rightarrow> bool" where
  "pool_ok p \<longleftrightarrow> length (pwords p) = 4"

lemma pool_ok_ops [simp]:
  "pool_ok (v9x_id_begin p)" "pool_ok p \<Longrightarrow> pool_ok (v9x_id_stir p)" "pool_ok p \<Longrightarrow> pool_ok (v9x_id_mix p v)"
  by (simp_all add: pool_ok_def v9x_id_begin_def v9x_id_stir_def v9x_id_mix_def Let_def)

lemma v9x_id_mix_inj:
  assumes "pool_ok p" "pool_ok q" "pcount p = pcount q" "v9x_id_mix p a = v9x_id_mix q b"
  shows "(pwords p)[unat (pcount p AND 3) := pwords p ! unat (pcount p AND 3) XOR a] =
    (pwords q)[unat (pcount q AND 3) := pwords q ! unat (pcount q AND 3) XOR b]"
proof -
  define put where "put r v = r\<lparr>pwords := (pwords r)[unat (pcount r AND 3) := pwords r ! unat (pcount r AND 3) XOR v],
      pcount := pcount r + 1\<rparr>" for r :: id_pool and v
  have mix: "v9x_id_mix r v = v9x_id_stir (put r v)" for r v by (simp add: v9x_id_mix_def put_def Let_def)
  have "put p a = put q b"
    by (rule v9x_id_stir_inj) (use assms(1,2,4) in \<open>simp_all only: mix, simp_all add: put_def pool_ok_def\<close>)
  from arg_cong [OF this, of pwords] show ?thesis by (simp add: put_def)
qed

text \<open>The pool after a list of measurements.\<close>

definition id_mix_all :: "id_pool \<Rightarrow> u32 list \<Rightarrow> id_pool" where
  "id_mix_all p vs = foldl v9x_id_mix p vs"

lemma v9x_id_mix_value_inj: "pool_ok p \<Longrightarrow> v9x_id_mix p a = v9x_id_mix p b \<Longrightarrow> a = b"
proof -
  assume p: "pool_ok p" and eq: "v9x_id_mix p a = v9x_id_mix p b"
  have i: "unat (pcount p AND 3) < length (pwords p)" using p pool_index by (simp add: pool_ok_def)
  from v9x_id_mix_inj [OF p p refl eq]
  have "(pwords p)[unat (pcount p AND 3) := pwords p ! unat (pcount p AND 3) XOR a] ! unat (pcount p AND 3) =
    (pwords p)[unat (pcount p AND 3) := pwords p ! unat (pcount p AND 3) XOR b] ! unat (pcount p AND 3)"
    by simp
  then show "a = b" using i by (simp add: xor_left_cancel)
qed

lemma pcount_mix [simp]: "pcount (v9x_id_mix p v) = pcount p + 1"
  by (simp add: v9x_id_mix_def v9x_id_stir_def Let_def)

lemma v9x_id_mix_pool_inj:
  "pool_ok p \<Longrightarrow> pool_ok q \<Longrightarrow> v9x_id_mix p v = v9x_id_mix q v \<Longrightarrow> p = q"
proof -
  assume p: "pool_ok p" and q: "pool_ok q" and eq: "v9x_id_mix p v = v9x_id_mix q v"
  have c: "pcount p = pcount q" using arg_cong [OF eq, of pcount] by simp
  let ?i = "unat (pcount p AND 3)"
  have i: "?i < length (pwords p)" "?i < length (pwords q)" using p q pool_index by (simp_all add: pool_ok_def)
  note up = v9x_id_mix_inj [OF p q c eq, folded c]
  have "pwords p ! j = pwords q ! j" if "j < length (pwords p)" for j
  proof (cases "j = ?i")
    case True
    have "pwords p ! ?i XOR v = pwords q ! ?i XOR v" using arg_cong [OF up, of "\<lambda>xs. xs ! ?i"] i by simp
    then show ?thesis using True by (simp add: xor_right_cancel)
  next
    case False
    then show ?thesis using arg_cong [OF up, of "\<lambda>xs. xs ! j"] by simp
  qed
  then have "pwords p = pwords q" using p q by (intro nth_equalityI) (simp_all add: pool_ok_def)
  then show "p = q" using c by (cases p; cases q) simp
qed

lemma id_mix_all_pool_inj:
  "pool_ok p \<Longrightarrow> pool_ok q \<Longrightarrow> id_mix_all p vs = id_mix_all q vs \<Longrightarrow> p = q"
proof (induction vs arbitrary: p q)
  case (Cons v vs)
  have "v9x_id_mix p v = v9x_id_mix q v"
    by (rule Cons.IH) (use Cons.prems in \<open>simp_all add: id_mix_all_def\<close>)
  then show ?case using v9x_id_mix_pool_inj Cons.prems(1,2) by blast
qed (simp add: id_mix_all_def)

text \<open>C32. The pool forgets nothing: when two runs differ in one measurement and agree in all others, their
  pools stay different, however many further measurements follow.\<close>

theorem id_pool_keeps_difference:
  assumes "a \<noteq> b"
  shows "id_mix_all (v9x_id_begin p) (us @ a # vs) \<noteq> id_mix_all (v9x_id_begin p) (us @ b # vs)"
proof
  assume eq: "id_mix_all (v9x_id_begin p) (us @ a # vs) = id_mix_all (v9x_id_begin p) (us @ b # vs)"
  have ok: "pool_ok (id_mix_all q us)" if "pool_ok q" for q
    using that by (induction us arbitrary: q) (simp_all add: id_mix_all_def)
  define q where "q = id_mix_all (v9x_id_begin p) us"
  have q: "pool_ok q" using ok by (simp add: q_def)
  have "id_mix_all (v9x_id_mix q a) vs = id_mix_all (v9x_id_mix q b) vs"
    using eq by (simp add: q_def id_mix_all_def)
  then have "v9x_id_mix q a = v9x_id_mix q b" using id_mix_all_pool_inj q by simp
  then show False using v9x_id_mix_value_inj [OF q] assms by blast
qed

theorem id_pool_keeps_difference_witness:
  "id_mix_all (v9x_id_begin \<lparr>pwords = [], pcount = 9\<rparr>) ([7] @ 1 # [5, 6]) \<noteq>
   id_mix_all (v9x_id_begin \<lparr>pwords = [], pcount = 9\<rparr>) ([7] @ 2 # [5, 6])"
  by (rule id_pool_keeps_difference) simp

subsection \<open>The identifier\<close>

fun id_chars :: "bytes \<Rightarrow> nat \<Rightarrow> bytes" where
  "id_chars [] index = []"
| "id_chars (b # raw) index =
     (if index = 4 \<or> index = 6 \<or> index = 8 \<or> index = 10 then [0x2D] else []) @
     [id_digits ! unat (drop_bit 4 b), id_digits ! unat (b AND 0x0F)] @ id_chars raw (index + 1)"

lemma write_id_eq: "write_id target out raw index = wrs target out (id_chars raw index @ [0])"
proof (induction raw arbitrary: target out index)
  case Nil
  then show ?case by (cases "wr target out 0") simp_all
next
  case (Cons b raw)
  then show ?case
    by (cases "index = 4 \<or> index = 6 \<or> index = 8 \<or> index = 10")
      (auto simp del: wrs.simps(1) split: Option.bind_splits)
qed

definition id_hex :: "u8 \<Rightarrow> bool" where
  "id_hex c \<longleftrightarrow> c \<ge> 0x30 \<and> c \<le> 0x39 \<or> c \<ge> 0x61 \<and> c \<le> 0x66 \<or> c \<ge> 0x41 \<and> c \<le> 0x46"

lemma id_hex_digits: "id_hex (id_digits ! unat (drop_bit 4 b))" "id_hex (id_digits ! unat (b AND 0x0F))" for b :: u8
proof -
  have "list_all (\<lambda>n. id_hex (id_digits ! n)) [0..<16]" by code_simp
  then have "id_hex (id_digits ! n)" if "n < 16" for n using that by (simp add: list_all_iff)
  then show "id_hex (id_digits ! unat (drop_bit 4 b))" "id_hex (id_digits ! unat (b AND 0x0F))"
    using nibble_less by blast+
qed

lemma id_version_digit: "id_digits ! unat (drop_bit 4 ((b AND 0x0F) OR 0x40)) = 0x34" for b :: u8
  by (simp add: id_digits_def drop_bit_and drop_bit_or)

lemma id_variant_digit: "id_digits ! unat (drop_bit 4 ((b AND 0x3F) OR 0x80)) \<in> set (asc ''89ab'')" for b :: u8
proof -
  define n where "n = unat (drop_bit 4 b AND 3)"
  have "drop_bit 4 ((b AND 0x3F) OR 0x80) = (drop_bit 4 b AND 3) OR 8" by (simp add: drop_bit_and drop_bit_or)
  moreover have "drop_bit 4 b AND 3 = of_nat n" by (simp add: n_def)
  moreover have "list_all (\<lambda>n. id_digits ! unat ((of_nat n :: u8) OR 8) \<in> set (asc ''89ab'')) [0..<4]" by code_simp
  moreover have "n < 4"
  proof -
    have "drop_bit 4 b AND 3 = take_bit 2 (drop_bit 4 b)" by (simp add: take_bit_eq_mask mask_eq_exp_minus_1)
    then have "unat (drop_bit 4 b AND 3) = take_bit 2 (unat (drop_bit 4 b))" by (simp only: unsigned_take_bit_eq)
    then show ?thesis unfolding n_def by (simp only: take_bit_eq_mod) simp
  qed
  ultimately show ?thesis by (simp only: list_all_iff) simp
qed

lemma id_hex_nonzero: "id_hex c \<Longrightarrow> c \<noteq> 0"
  by (auto simp: id_hex_def)

lemma id_from_step:
  "0 < n \<Longrightarrow> id_from (c # cs) index n \<longleftrightarrow>
     (if index = 8 \<or> index = 13 \<or> index = 18 \<or> index = 23 then c = 0x2D else id_hex c) \<and>
     id_from cs (index + 1) (n - 1)"
  by (cases n) (simp_all add: id_hex_def)

lemma id_chars_16:
  assumes "length raw = 16"
  shows "length (id_chars raw 0) = 36" "id_from (id_chars raw 0) 0 36" "0 \<notin> set (id_chars raw 0)"
    "id_chars raw 0 ! 14 = id_digits ! unat (drop_bit 4 (raw ! 6))"
    "id_chars raw 0 ! 19 = id_digits ! unat (drop_bit 4 (raw ! 8))"
proof -
  obtain b0 b1 b2 b3 b4 b5 b6 b7 b8 b9 b10 b11 b12 b13 b14 b15 where
    raw: "raw = [b0, b1, b2, b3, b4, b5, b6, b7, b8, b9, b10, b11, b12, b13, b14, b15]"
    using assms by (auto simp: length_Suc_conv numeral_eq_Suc)
  show "length (id_chars raw 0) = 36" "id_chars raw 0 ! 14 = id_digits ! unat (drop_bit 4 (raw ! 6))"
    "id_chars raw 0 ! 19 = id_digits ! unat (drop_bit 4 (raw ! 8))"
    by (simp_all add: raw)
  show "id_from (id_chars raw 0) 0 36"
    by (simp add: raw id_from_step id_hex_digits del: id_from.simps(3))
  show "0 \<notin> set (id_chars raw 0)"
    using id_hex_digits id_hex_nonzero by (auto simp: raw)
qed

lemma length_id_raw: "length (id_raw p) = 16"
  by (simp add: id_raw_def Let_def)

lemma v9x_id_finish_eq:
  assumes "37 \<le> length target"
  shows "v9x_id_finish pool target =
    Some (v9x_id_stir (v9x_id_stir pool), id_chars (id_raw (v9x_id_stir (v9x_id_stir pool))) 0 @ 0 # drop 37 target)"
proof -
  have "length (id_chars (id_raw (v9x_id_stir (v9x_id_stir pool))) 0) = 36"
    by (rule id_chars_16(1) [OF length_id_raw])
  then show ?thesis using assms by (simp add: v9x_id_finish_def write_id_eq Let_def wrs_Some)
qed

text \<open>C40. The identifier: whatever the pool, finishing writes exactly 36 characters and a terminator, the
  string passes the agent's own validity check, and its version and variant digits are those of a
  random (version 4) UUID.\<close>

theorem id_finish_valid:
  assumes "37 \<le> length target"
  shows "\<exists>pool' text. v9x_id_finish pool target = Some (pool', text @ 0 # drop 37 target) \<and>
    length text = 36 \<and> 0 \<notin> set text \<and> v9x_id_valid (Some text) \<and>
    text ! 14 = 0x34 \<and> text ! 19 \<in> set (asc ''89ab'')"
proof -
  let ?p = "v9x_id_stir (v9x_id_stir pool)"
  note c = id_chars_16 [OF length_id_raw [of ?p]]
  have "id_raw ?p ! 6 = (ucast (drop_bit (6 mod 4 * 8) (pwords ?p ! (6 div 4))) AND 0x0F) OR 0x40"
    "id_raw ?p ! 8 = (ucast (drop_bit (8 mod 4 * 8) (pwords ?p ! (8 div 4))) AND 0x3F) OR 0x80"
    by (simp_all add: id_raw_def Let_def)
  then have "id_chars (id_raw ?p) 0 ! 14 = 0x34" "id_chars (id_raw ?p) 0 ! 19 \<in> set (asc ''89ab'')"
    unfolding c(4,5) by (simp_all only: id_version_digit id_variant_digit)
  then show ?thesis
    using v9x_id_finish_eq [OF assms, of pool] c(1-3)
    by (simp add: v9x_id_valid_def V9X_INSTALL_ID_LENGTH_def)
qed

theorem id_finish_valid_witness:
  "\<exists>pool' text. v9x_id_finish (v9x_id_begin \<lparr>pwords = [], pcount = 0\<rparr>) (replicate 40 7) =
      Some (pool', text @ 0 # drop 37 (replicate 40 7)) \<and>
    length text = 36 \<and> 0 \<notin> set text \<and> v9x_id_valid (Some text) \<and>
    text ! 14 = 0x34 \<and> text ! 19 \<in> set (asc ''89ab'')"
  by (rule id_finish_valid) simp

end
