(* ===== verification/Ed25519Field.thy ===== *)
theory Ed25519Field
  imports V9xPrelude
begin

section \<open>Field arithmetic of Ed25519 (\<^verbatim>\<open>src/common/ed25519.c\<close>)\<close>

text \<open>
  Integers modulo \<open>p = 2^255 - 19\<close> on 32 limbs of radix 256, each an unsigned 32-bit word, as the
  code has them. \<open>le_value\<close> reads limbs or bytes as a natural number; every operation is shown to
  compute on that number modulo \<open>p\<close> without any 32-bit overflow, from and to the carried form
  (\<open>carried\<close>) that the comments of the source claim.
\<close>

subsection \<open>Little-endian numbers\<close>

primrec le_value :: "'a::len word list \<Rightarrow> nat" where
  "le_value [] = 0"
| "le_value (x # xs) = unat x + 256 * le_value xs"

definition le_digits :: "nat \<Rightarrow> nat \<Rightarrow> 'a::len word list" where
  "le_digits n v = map (\<lambda>i. of_nat (v div 256 ^ i mod 256)) [0..<n]"

lemma length_le_digits [simp]: "length (le_digits n v) = n"
  by (simp add: le_digits_def)

lemma le_digits_0 [simp]: "le_digits 0 v = []"
  by (simp add: le_digits_def)

lemma le_digits_Suc: "le_digits (Suc n) v = of_nat (v mod 256) # le_digits n (v div 256)"
  by (simp add: le_digits_def upt_conv_Cons map_Suc_upt [symmetric] div_mult2_eq comp_def
      del: upt_Suc)

lemma le_value_append: "le_value (xs @ ys) = le_value xs + 256 ^ length xs * le_value ys"
  by (induction xs) (simp_all add: algebra_simps)

lemma le_value_replicate_0 [simp]: "le_value (replicate n 0) = 0"
  by (induction n) simp_all

definition byte_limbs :: "'a::len word list \<Rightarrow> bool" where
  "byte_limbs xs \<longleftrightarrow> (\<forall>x \<in> set xs. unat x < 256)"

lemma byte_limbs_simps [simp]:
  "byte_limbs []" "byte_limbs (x # xs) \<longleftrightarrow> unat x < 256 \<and> byte_limbs xs"
  by (auto simp: byte_limbs_def)

lemma byte_limbs_bytes [simp]: "byte_limbs (xs :: bytes)"
  by (simp add: byte_limbs_def)

lemma le_value_less: "byte_limbs xs \<Longrightarrow> le_value xs < 256 ^ length xs"
proof (induction xs)
  case (Cons x xs)
  then have "le_value xs + 1 \<le> 256 ^ length xs" by simp
  then have "256 * (le_value xs + 1) \<le> 256 * 256 ^ length xs" by (rule mult_le_mono2)
  then show ?case using Cons by simp
qed simp

lemma le_digits_value: "byte_limbs xs \<Longrightarrow> le_digits (length xs) (le_value xs) = xs"
  by (induction xs) (simp_all add: le_digits_Suc)

lemma le_value_inj:
  "byte_limbs xs \<Longrightarrow> byte_limbs ys \<Longrightarrow> length xs = length ys \<Longrightarrow>
    le_value xs = le_value ys \<longleftrightarrow> xs = ys"
  by (metis le_digits_value)

lemma unat_digit:
  "8 \<le> LENGTH('a) \<Longrightarrow> unat (of_nat (v mod 256) :: 'a::len word) = v mod 256"
proof -
  assume "8 \<le> LENGTH('a)"
  then have "(2::nat) ^ 8 \<le> 2 ^ LENGTH('a)" by (rule power_increasing) simp
  then have "(256::nat) \<le> 2 ^ LENGTH('a)" by simp
  moreover have "v mod 256 < (256::nat)" by simp
  ultimately have "v mod 256 < 2 ^ LENGTH('a)" by (rule less_le_trans [rotated])
  then show ?thesis by (simp add: unat_of_nat)
qed

lemma le_value_digits:
  "8 \<le> LENGTH('a) \<Longrightarrow> le_value (le_digits n v :: 'a::len word list) = v mod 256 ^ n"
proof (induction n arbitrary: v)
  case (Suc n)
  then show ?case
    by (simp add: le_digits_Suc unat_digit mod_mult2_eq)
qed simp

lemma byte_limbs_digits:
  "8 \<le> LENGTH('a) \<Longrightarrow> byte_limbs (le_digits n v :: 'a::len word list)"
  by (induction n arbitrary: v) (simp_all add: le_digits_Suc unat_digit)

lemma le_value_update:
  "i < length xs \<Longrightarrow>
    int (le_value (xs[i := x])) = int (le_value xs) + (int (unat x) - int (unat (xs ! i))) * 256 ^ i"
proof (induction xs arbitrary: i)
  case (Cons y ys)
  show ?case
  proof (cases i)
    case (Suc k)
    then have "k < length ys" using Cons.prems by simp
    note IH = Cons.IH [OF this]
    have "int (le_value ((y # ys)[i := x])) = int (unat y) + 256 * int (le_value (ys[k := x]))"
      using Suc by simp
    also have "\<dots> = int (le_value (y # ys)) + (int (unat x) - int (unat ((y # ys) ! i))) * 256 ^ i"
      unfolding IH using Suc by (simp add: algebra_simps)
    finally show ?thesis .
  qed simp
qed simp

lemma le_value_sum: "le_value xs = (\<Sum>i<length xs. unat (xs ! i) * 256 ^ i)"
proof (induction xs)
  case (Cons x xs)
  then show ?case
    by (simp add: sum.lessThan_Suc_shift sum_distrib_left algebra_simps del: sum.lessThan_Suc)
qed simp

lemma le_value_map_ucast: "le_value (map ucast (xs :: bytes) :: u32 list) = le_value xs"
  by (induction xs) simp_all

lemma byte_limbs_nth: "byte_limbs xs \<Longrightarrow> i < length xs \<Longrightarrow> unat (xs ! i) < 256"
  by (simp add: byte_limbs_def)


subsection \<open>Constants\<close>

type_synonym fe = "u32 list"

definition V9X_ED25519_LIMBS :: nat where "V9X_ED25519_LIMBS = 32"
definition V9X_ED25519_8P_LOW :: u32 where "V9X_ED25519_8P_LOW = 0x768"
definition V9X_ED25519_8P_MID :: u32 where "V9X_ED25519_8P_MID = 0x7F8"
definition V9X_ED25519_8P_HIGH :: u32 where "V9X_ED25519_8P_HIGH = 0x3F8"
definition V9X_ED25519_FOLD :: u32 where "V9X_ED25519_FOLD = 38"

definition v9x_ed25519_d_bytes :: bytes where
  "v9x_ed25519_d_bytes = [
     0xA3, 0x78, 0x59, 0x13, 0xCA, 0x4D, 0xEB, 0x75,
     0xAB, 0xD8, 0x41, 0x41, 0x4D, 0x0A, 0x70, 0x00,
     0x98, 0xE8, 0x79, 0x77, 0x79, 0x40, 0xC7, 0x8C,
     0x73, 0xFE, 0x6F, 0x2B, 0xEE, 0x6C, 0x03, 0x52]"

definition v9x_ed25519_sqrtm1_bytes :: bytes where
  "v9x_ed25519_sqrtm1_bytes = [
     0xB0, 0xA0, 0x0E, 0x4A, 0x27, 0x1B, 0xEE, 0xC4,
     0x78, 0xE4, 0x2F, 0xAD, 0x06, 0x18, 0x43, 0x2F,
     0xA7, 0xD7, 0xFB, 0x3D, 0x99, 0x00, 0x4D, 0x2B,
     0x0B, 0xDF, 0xC1, 0x4F, 0x80, 0x24, 0x83, 0x2B]"

definition v9x_ed25519_base_x_bytes :: bytes where
  "v9x_ed25519_base_x_bytes = [
     0x1A, 0xD5, 0x25, 0x8F, 0x60, 0x2D, 0x56, 0xC9,
     0xB2, 0xA7, 0x25, 0x95, 0x60, 0xC7, 0x2C, 0x69,
     0x5C, 0xDC, 0xD6, 0xFD, 0x31, 0xE2, 0xA4, 0xC0,
     0xFE, 0x53, 0x6E, 0xCD, 0xD3, 0x36, 0x69, 0x21]"

definition v9x_ed25519_base_y_bytes :: bytes where
  "v9x_ed25519_base_y_bytes = [
     0x58, 0x66, 0x66, 0x66, 0x66, 0x66, 0x66, 0x66,
     0x66, 0x66, 0x66, 0x66, 0x66, 0x66, 0x66, 0x66,
     0x66, 0x66, 0x66, 0x66, 0x66, 0x66, 0x66, 0x66,
     0x66, 0x66, 0x66, 0x66, 0x66, 0x66, 0x66, 0x66]"

definition v9x_ed25519_p_bytes :: bytes where
  "v9x_ed25519_p_bytes = [
     0xED, 0xFF, 0xFF, 0xFF, 0xFF, 0xFF, 0xFF, 0xFF,
     0xFF, 0xFF, 0xFF, 0xFF, 0xFF, 0xFF, 0xFF, 0xFF,
     0xFF, 0xFF, 0xFF, 0xFF, 0xFF, 0xFF, 0xFF, 0xFF,
     0xFF, 0xFF, 0xFF, 0xFF, 0xFF, 0xFF, 0xFF, 0x7F]"

definition v9x_ed25519_l_bytes :: bytes where
  "v9x_ed25519_l_bytes = [
     0xED, 0xD3, 0xF5, 0x5C, 0x1A, 0x63, 0x12, 0x58,
     0xD6, 0x9C, 0xF7, 0xA2, 0xDE, 0xF9, 0xDE, 0x14,
     0x00, 0x00, 0x00, 0x00, 0x00, 0x00, 0x00, 0x00,
     0x00, 0x00, 0x00, 0x00, 0x00, 0x00, 0x00, 0x10]"

text \<open>RFC 8032, section 5.1.\<close>

definition P25519 :: int where "P25519 = 2 ^ 255 - 19"
definition L25519 :: nat where "L25519 = 2 ^ 252 + 27742317777372353535851937790883648493"

lemma p_bytes_value: "int (le_value v9x_ed25519_p_bytes) = P25519"
  by (simp add: v9x_ed25519_p_bytes_def P25519_def)

lemma l_bytes_value: "le_value v9x_ed25519_l_bytes = L25519"
  by (simp add: v9x_ed25519_l_bytes_def L25519_def)

subsection \<open>Byte helpers\<close>

text \<open>The loop of \<open>v9x_ed25519_bytes_ge\<close>, from the top byte down.\<close>

primrec bytes_ge_below :: "bytes \<Rightarrow> bytes \<Rightarrow> nat \<Rightarrow> bool" where
  "bytes_ge_below a b 0 = True"
| "bytes_ge_below a b (Suc i) =
     (if a ! i \<noteq> b ! i then a ! i > b ! i else bytes_ge_below a b i)"

definition v9x_ed25519_bytes_ge :: "bytes \<Rightarrow> bytes \<Rightarrow> bool" where
  "v9x_ed25519_bytes_ge a b = bytes_ge_below a b 32"

definition bytes_sub_step :: "bytes \<Rightarrow> bytes \<times> u32 \<Rightarrow> nat \<Rightarrow> bytes \<times> u32" where
  "bytes_sub_step b = (\<lambda>(a, borrow) i.
     let diff = ucast (a ! i) + 0x100 - ucast (b ! i) - borrow
     in (a[i := ucast (diff AND 0xFF)], if drop_bit 8 diff \<noteq> 0 then 0 else 1))"

definition v9x_ed25519_bytes_sub :: "bytes \<Rightarrow> bytes \<Rightarrow> bytes" where
  "v9x_ed25519_bytes_sub a b = fst (foldl (bytes_sub_step b) (a, 0) [0..<32])"

primrec bytes_equal_from :: "bytes \<Rightarrow> bytes \<Rightarrow> nat list \<Rightarrow> bool" where
  "bytes_equal_from a b [] = True"
| "bytes_equal_from a b (i # is) = (if a ! i \<noteq> b ! i then False else bytes_equal_from a b is)"

definition v9x_ed25519_bytes_equal :: "bytes \<Rightarrow> bytes \<Rightarrow> nat \<Rightarrow> bool" where
  "v9x_ed25519_bytes_equal a b n = bytes_equal_from a b [0..<n]"

lemma bytes_equal_from_iff: "bytes_equal_from a b is \<longleftrightarrow> (\<forall>i \<in> set is. a ! i = b ! i)"
  by (induction "is") auto

lemma bytes_equal_iff:
  "length a = n \<Longrightarrow> length b = n \<Longrightarrow> v9x_ed25519_bytes_equal a b n \<longleftrightarrow> a = b"
  by (auto simp: v9x_ed25519_bytes_equal_def bytes_equal_from_iff intro: nth_equalityI)

lemma le_value_snoc: "i < length xs \<Longrightarrow> le_value (take (Suc i) xs) = le_value (take i xs) + 256 ^ i * unat (xs ! i)"
  by (simp add: take_Suc_conv_app_nth le_value_append min_def)

lemma bytes_ge_below_value:
  "i \<le> length a \<Longrightarrow> i \<le> length b \<Longrightarrow>
    bytes_ge_below a b i \<longleftrightarrow> le_value (take i b) \<le> le_value (take i a)"
proof (induction i)
  case (Suc i)
  have small: "le_value (take i xs) < 256 ^ i" if "i \<le> length xs" for xs :: bytes
    using le_value_less [of "take i xs"] that by (simp add: min_absorb2)
  have less: "le_value (take i x) + 256 ^ i * unat (x ! i) < le_value (take i y) + 256 ^ i * unat (y ! i)"
    if "x ! i < y ! i" "i \<le> length x" for x y :: bytes
  proof -
    have "unat (x ! i) + 1 \<le> unat (y ! i)" using that by (simp add: word_less_nat_alt)
    then have "256 ^ i * (unat (x ! i) + 1) \<le> 256 ^ i * unat (y ! i)" by (rule mult_le_mono2)
    then show ?thesis using small [OF that(2)] by simp
  qed
  consider "a ! i = b ! i" | "a ! i < b ! i" | "b ! i < a ! i" by force
  then show ?case
  proof cases
    case 1
    then show ?thesis using Suc by (simp add: le_value_snoc)
  next
    case 2
    then have "a ! i \<noteq> b ! i" "\<not> b ! i < a ! i" by auto
    then show ?thesis using 2 less [of a b] Suc.prems by (simp add: le_value_snoc not_le)
  next
    case 3
    then have "a ! i \<noteq> b ! i" by auto
    then show ?thesis using 3 less [of b a] Suc.prems by (simp add: le_value_snoc not_le)
  qed
qed simp

lemma bytes_ge_value:
  "length a = 32 \<Longrightarrow> length b = 32 \<Longrightarrow> v9x_ed25519_bytes_ge a b \<longleftrightarrow> le_value b \<le> le_value a"
  using bytes_ge_below_value [of 32 a b] by (simp add: v9x_ed25519_bytes_ge_def)


lemma bytes_sub_loop:
  assumes "length a = 32" "length b = 32" "n \<le> 32"
  shows "case foldl (bytes_sub_step b) (a, 0) [0..<n] of (r, borrow) \<Rightarrow>
    length r = 32 \<and> (borrow = 0 \<or> borrow = 1) \<and> (\<forall>j. n \<le> j \<longrightarrow> r ! j = a ! j) \<and>
    int (le_value (take n r)) =
      int (le_value (take n a)) - int (le_value (take n b)) + int (unat borrow) * 256 ^ n"
  using assms(3)
proof (induction n)
  case 0
  then show ?case using assms by simp
next
  case (Suc n)
  obtain r borrow where st: "foldl (bytes_sub_step b) (a, 0) [0..<n] = (r, borrow)" by fastforce
  with Suc have IH: "length r = 32" "borrow = 0 \<or> borrow = 1" "r ! n = a ! n" "\<forall>j. n \<le> j \<longrightarrow> r ! j = a ! j"
    "int (le_value (take n r)) =
      int (le_value (take n a)) - int (le_value (take n b)) + int (unat borrow) * 256 ^ n"
    by simp_all
  define diff :: u32 where "diff = ucast (a ! n) + 0x100 - ucast (b ! n) - borrow"
  have br: "unat borrow \<le> 1" using IH(2) by auto
  have le: "unat (b ! n) + unat borrow \<le> unat (a ! n) + 256"
    using br unat_u8_less [of "b ! n"] by linarith
  have step1: "unat (ucast (a ! n) + 0x100 :: u32) = unat (a ! n) + 256"
    using unat_u8_less [of "a ! n"] by (subst u32_add) (simp_all del: unat_u8_less)
  have step2: "unat (ucast (a ! n) + 0x100 - ucast (b ! n) :: u32) = unat (a ! n) + 256 - unat (b ! n)"
    using step1 le by (subst u32_sub) (simp_all add: word_le_nat_alt)
  have diff: "unat diff = unat (a ! n) + 256 - unat (b ! n) - unat borrow"
    unfolding diff_def using step2 le by (subst u32_sub) (simp_all add: word_le_nat_alt)
  have lt: "unat diff < 512" using diff unat_u8_less [of "a ! n"] by linarith
  define d where "d = (ucast (diff AND 0xFF) :: u8)"
  have d: "unat d = unat diff mod 256"
    unfolding d_def by (rule unat_low_byte)
  define borrow' :: u32 where "borrow' = (if drop_bit 8 diff \<noteq> 0 then 0 else 1)"
  have "unat (drop_bit 8 diff) = unat diff div 256" by (rule unat_drop_byte)
  then have borrow': "borrow' = (if 256 \<le> unat diff then 0 else 1)"
    by (simp add: borrow'_def flip: unat_eq_0) (simp add: div_eq_0_iff)
  have res: "foldl (bytes_sub_step b) (a, 0) [0..<Suc n] = (r[n := d], borrow')"
    using st IH by (simp add: bytes_sub_step_def Let_def diff_def d_def borrow'_def)
  have digit: "int (unat d) = int (unat (a ! n)) - int (unat (b ! n)) - int (unat borrow) + 256 * int (unat borrow')"
  proof (cases "256 \<le> unat diff")
    case True
    then have "unat diff mod 256 = unat diff - 256" using lt by (simp add: mod_if)
    then show ?thesis using True d diff le borrow' by (simp del: unsigned_of_nat of_nat_unat add: of_nat_diff)
  next
    case False
    then show ?thesis using d diff le borrow' by simp
  qed
  have "int (unat d) * 256 ^ n = (int (unat (a ! n)) - int (unat (b ! n)) - int (unat borrow) +
      256 * int (unat borrow')) * 256 ^ n"
    unfolding digit by (rule refl)
  moreover have "le_value (take (Suc n) (r[n := d])) = le_value (take n r) + 256 ^ n * unat d"
    using IH(1) Suc.prems by (simp add: le_value_snoc)
  moreover have "le_value (take (Suc n) a) = le_value (take n a) + 256 ^ n * unat (a ! n)"
    "le_value (take (Suc n) b) = le_value (take n b) + 256 ^ n * unat (b ! n)"
    using assms Suc.prems by (simp_all add: le_value_snoc)
  ultimately have "int (le_value (take (Suc n) (r[n := d]))) =
      int (le_value (take (Suc n) a)) - int (le_value (take (Suc n) b)) + int (unat borrow') * 256 ^ Suc n"
    using IH(5) by (simp add: algebra_simps)
  then show ?case using res IH by (simp add: borrow'_def)
qed


lemma bytes_sub_value:
  assumes "length a = 32" "length b = 32" "le_value b \<le> le_value a"
  shows "length (v9x_ed25519_bytes_sub a b) = 32 \<and>
    le_value (v9x_ed25519_bytes_sub a b) = le_value a - le_value b"
proof -
  obtain r borrow where st: "foldl (bytes_sub_step b) (a, 0) [0..<32] = (r, borrow)" by fastforce
  note res = bytes_sub_loop [OF assms(1,2) order_refl, unfolded st prod.case]
  have eq: "int (le_value r) = int (le_value a) - int (le_value b) + int (unat borrow) * 256 ^ 32"
  proof -
    have "take 32 r = r" "take 32 a = a" "take 32 b = b" using res assms by simp_all
    then show ?thesis using res by metis
  qed
  have lt: "le_value r < 256 ^ 32" using res le_value_less [of r] by (metis byte_limbs_bytes)
  have "borrow = 0"
  proof (rule ccontr)
    assume "borrow \<noteq> 0"
    then have "unat borrow = 1" using res by auto
    then have "int (le_value r) \<ge> 256 ^ 32" using eq assms(3) by simp
    moreover have "int (le_value r) < 256 ^ 32" using lt by (metis of_nat_less_iff of_nat_numeral of_nat_power)
    ultimately show False by linarith
  qed
  then have "le_value r = le_value a - le_value b" using eq assms(3) by simp
  then show ?thesis using res by (simp add: v9x_ed25519_bytes_sub_def st)
qed

subsection \<open>Field operations of the code\<close>

definition v9x_ed25519_fe_set_small :: "u32 \<Rightarrow> fe" where
  "v9x_ed25519_fe_set_small n = (map (\<lambda>_. 0) [0..<V9X_ED25519_LIMBS])[0 := n]"

definition v9x_ed25519_fe_from_bytes :: "bytes \<Rightarrow> fe" where
  "v9x_ed25519_fe_from_bytes xs = map (\<lambda>i. ucast (xs ! i)) [0..<V9X_ED25519_LIMBS]"

definition fe_carry_step :: "fe \<Rightarrow> nat \<Rightarrow> fe" where
  "fe_carry_step a i =
     (let carry = drop_bit 8 (a ! i);
          a = a[i := a ! i AND 0xFF]
      in a[i + 1 := a ! (i + 1) + carry])"

definition v9x_ed25519_fe_carry_pass :: "fe \<Rightarrow> fe" where
  "v9x_ed25519_fe_carry_pass a =
     (let a = foldl fe_carry_step a [0..<V9X_ED25519_LIMBS - 1];
          carry = drop_bit 8 (a ! 31);
          a = a[31 := a ! 31 AND 0xFF]
      in a[0 := a ! 0 + carry * V9X_ED25519_FOLD])"

definition v9x_ed25519_fe_carry :: "fe \<Rightarrow> fe" where
  "v9x_ed25519_fe_carry a = v9x_ed25519_fe_carry_pass (v9x_ed25519_fe_carry_pass a)"

definition v9x_ed25519_fe_add :: "fe \<Rightarrow> fe \<Rightarrow> fe" where
  "v9x_ed25519_fe_add a b =
     v9x_ed25519_fe_carry (map (\<lambda>i. a ! i + b ! i) [0..<V9X_ED25519_LIMBS])"

definition v9x_ed25519_fe_sub :: "fe \<Rightarrow> fe \<Rightarrow> fe" where
  "v9x_ed25519_fe_sub a b =
     v9x_ed25519_fe_carry (map (\<lambda>i.
       let bias = (if i = 0 then V9X_ED25519_8P_LOW
                   else if i = V9X_ED25519_LIMBS - 1 then V9X_ED25519_8P_HIGH
                   else V9X_ED25519_8P_MID)
       in a ! i + bias - b ! i) [0..<V9X_ED25519_LIMBS])"

text \<open>The nested loops of the product, over the array \<open>column\<close>.\<close>

definition fe_mul_columns :: "fe \<Rightarrow> fe \<Rightarrow> u32 list" where
  "fe_mul_columns a b =
     foldl (\<lambda>column i. foldl (\<lambda>column j. column[i + j := column ! (i + j) + a ! i * b ! j])
         column [0..<V9X_ED25519_LIMBS])
       (map (\<lambda>_. 0) [0..<64]) [0..<V9X_ED25519_LIMBS]"

definition v9x_ed25519_fe_mul :: "fe \<Rightarrow> fe \<Rightarrow> fe" where
  "v9x_ed25519_fe_mul a b =
     (let column = fe_mul_columns a b in
      v9x_ed25519_fe_carry (map (\<lambda>i. column ! i + V9X_ED25519_FOLD * column ! (i + 32))
        [0..<V9X_ED25519_LIMBS]))"

definition v9x_ed25519_fe_square :: "fe \<Rightarrow> fe" where
  "v9x_ed25519_fe_square a = v9x_ed25519_fe_mul a a"

text \<open>The two conditional subtractions of \<open>v9x_ed25519_fe_to_bytes\<close>.\<close>

definition sub_p_if_ge :: "bytes \<Rightarrow> bytes" where
  "sub_p_if_ge out = (if v9x_ed25519_bytes_ge out v9x_ed25519_p_bytes
     then v9x_ed25519_bytes_sub out v9x_ed25519_p_bytes else out)"

definition v9x_ed25519_fe_to_bytes :: "fe \<Rightarrow> bytes" where
  "v9x_ed25519_fe_to_bytes a =
     (let t = v9x_ed25519_fe_carry_pass (v9x_ed25519_fe_carry a);
          out = map (\<lambda>i. ucast (t ! i)) [0..<32]
      in (sub_p_if_ge ^^ 2) out)"

definition v9x_ed25519_fe_equal :: "fe \<Rightarrow> fe \<Rightarrow> bool" where
  "v9x_ed25519_fe_equal a b =
     v9x_ed25519_bytes_equal (v9x_ed25519_fe_to_bytes a) (v9x_ed25519_fe_to_bytes b) 32"

definition v9x_ed25519_fe_is_odd :: "fe \<Rightarrow> nat" where
  "v9x_ed25519_fe_is_odd a = unat (v9x_ed25519_fe_to_bytes a ! 0 AND 1)"

definition v9x_ed25519_fe_is_zero :: "fe \<Rightarrow> bool" where
  "v9x_ed25519_fe_is_zero a = v9x_ed25519_fe_equal a (v9x_ed25519_fe_set_small 0)"

definition v9x_ed25519_exponent :: "u8 \<Rightarrow> u8 \<Rightarrow> bytes" where
  "v9x_ed25519_exponent low high = [low] @ map (\<lambda>_. 0xFF) [1..<31] @ [high]"

text \<open>The test of one bit of a little-endian array, from the top bit down in the loops below.\<close>

definition le_bit :: "bytes \<Rightarrow> nat \<Rightarrow> bool" where
  "le_bit e n \<longleftrightarrow> drop_bit (n mod 8) (e ! (n div 8)) AND 1 \<noteq> 0"

definition fe_pow_step :: "fe \<Rightarrow> bytes \<Rightarrow> fe \<Rightarrow> nat \<Rightarrow> fe" where
  "fe_pow_step base e result n =
     (let result = v9x_ed25519_fe_square result
      in if le_bit e n then v9x_ed25519_fe_mul result base else result)"

definition v9x_ed25519_fe_pow :: "fe \<Rightarrow> bytes \<Rightarrow> fe" where
  "v9x_ed25519_fe_pow a e =
     foldl (fe_pow_step a e) (v9x_ed25519_fe_set_small 1) (rev [0..<256])"

definition v9x_ed25519_fe_invert :: "fe \<Rightarrow> fe" where
  "v9x_ed25519_fe_invert a = v9x_ed25519_fe_pow a (v9x_ed25519_exponent 0xEB 0x7F)"

subsection \<open>Carrying\<close>

lemma carry_loop:
  assumes "length a = 32" "\<forall>x \<in> set a. unat x < 2 ^ 31" "n \<le> 31"
  defines "r \<equiv> foldl fe_carry_step a [0..<n]"
  shows "length r = 32 \<and> byte_limbs (take n r) \<and> unat (r ! n) < 2 ^ 31 + 2 ^ 24 \<and>
    (\<forall>j. n < j \<longrightarrow> r ! j = a ! j) \<and> le_value r = le_value a"
  using assms(3) unfolding r_def
proof (induction n)
  case 0
  have "unat (a ! 0) < 2 ^ 31" using assms(1,2) by simp
  then show ?case using assms(1) by simp
next
  case (Suc n)
  define r where "r = foldl fe_carry_step a [0..<n]"
  define c where "c = drop_bit 8 (r ! n)"
  have IH: "length r = 32" "byte_limbs (take n r)" "unat (r ! n) < 2 ^ 31 + 2 ^ 24"
    "\<forall>j. n < j \<longrightarrow> r ! j = a ! j" "le_value r = le_value a"
    using Suc by (simp_all add: r_def)
  have nxt: "unat (r ! Suc n) < 2 ^ 31" using IH(4) assms(1,2) Suc.prems by simp
  have c: "unat c = unat (r ! n) div 256" by (simp only: c_def unat_drop_byte)
  have "unat c < 2 ^ 24" using IH(3) c by (simp add: less_mult_imp_div_less)
  then have sum: "unat (r ! Suc n + c) = unat (r ! Suc n) + unat c"
    using nxt by (subst u32_add) simp_all
  have low: "unat (r ! n AND 0xFF) = unat (r ! n) mod 256" by (rule unat_and_0xff)
  have res: "foldl fe_carry_step a [0..<Suc n] = r[n := r ! n AND 0xFF, Suc n := r ! Suc n + c]"
    by (simp add: r_def [symmetric] fe_carry_step_def Let_def c_def)
  have zero: "int (unat (r ! n) mod 256) - int (unat (r ! n)) + 256 * int (unat c) = 0"
  proof -
    have "unat (r ! n) = unat (r ! n) mod 256 + 256 * unat c" unfolding c by simp
    then show ?thesis by linarith
  qed
  have "int (le_value (r[n := r ! n AND 0xFF, Suc n := r ! Suc n + c])) = int (le_value r) +
      ((int (unat (r ! n) mod 256) - int (unat (r ! n))) * 256 ^ n + int (unat c) * 256 ^ Suc n)"
    using IH(1) Suc.prems sum low by (simp add: le_value_update del: of_nat_unat)
  also have "(int (unat (r ! n) mod 256) - int (unat (r ! n))) * 256 ^ n + int (unat c) * 256 ^ Suc n =
      (int (unat (r ! n) mod 256) - int (unat (r ! n)) + 256 * int (unat c)) * 256 ^ n"
    by (simp only: power_Suc distrib_right mult.assoc mult.left_commute)
  finally have val: "le_value (r[n := r ! n AND 0xFF, Suc n := r ! Suc n + c]) = le_value r"
    unfolding zero by simp
  have "byte_limbs (take (Suc n) (r[n := r ! n AND 0xFF, Suc n := r ! Suc n + c]))"
    using IH(1,2) Suc.prems low by (simp add: take_Suc_conv_app_nth byte_limbs_def)
  then show ?case
    using val res IH Suc.prems sum nxt \<open>unat c < 2 ^ 24\<close> by simp
qed


text \<open>
  What one pass does, in terms of the value \<open>v\<close>: the limbs become its bytes, and what lies above
  2^256 comes back into limb 0, 38 to the unit.
\<close>

lemma carry_pass_spec:
  assumes "length a = 32" "\<forall>x \<in> set a. unat x < 2 ^ 31"
  defines "v \<equiv> le_value a" and "r \<equiv> v9x_ed25519_fe_carry_pass a"
  shows "length r = 32" and "v div 2 ^ 256 < 2 ^ 24" and "\<And>j. 0 < j \<Longrightarrow> j < 32 \<Longrightarrow> unat (r ! j) < 256"
    and "unat (r ! 0) = v mod 256 + 38 * (v div 2 ^ 256)"
    and "le_value r = v mod 2 ^ 256 + 38 * (v div 2 ^ 256)"
proof -
  define s where "s = foldl fe_carry_step a [0..<31]"
  have s: "length s = 32" "byte_limbs (take 31 s)" "unat (s ! 31) < 2 ^ 31 + 2 ^ 24" "le_value s = v"
    using carry_loop [OF assms(1,2) order_refl] by (simp_all add: s_def v_def)
  have "s = take 31 s @ [s ! 31]" using s(1) take_Suc_conv_app_nth [of 31 s] by simp
  then have v: "v = le_value (take 31 s) + 256 ^ 31 * unat (s ! 31)"
    using s(1,4) le_value_append [of "take 31 s" "[s ! 31]"] by simp
  have low: "le_value (take 31 s) < 256 ^ 31" using le_value_less [OF s(2)] s(1) by simp
  have top: "unat (s ! 31) = v div 256 ^ 31"
    unfolding v using low by simp
  define c where "c = drop_bit 8 (s ! 31)"
  have c: "unat c = v div 2 ^ 256"
    unfolding c_def unat_drop_byte top by (simp flip: div_mult2_eq)
  have c_less: "unat c < 2 ^ 24"
    unfolding c_def unat_drop_byte using s(3) by (simp add: less_mult_imp_div_less)
  then show "v div 2 ^ 256 < 2 ^ 24" by (simp only: c)
  define t where "t = s[31 := s ! 31 AND 0xFF]"
  have t: "length t = 32" "byte_limbs t"
    using s(1,2) by (auto simp: t_def byte_limbs_def in_set_conv_nth nth_list_update unat_and_0xff
        all_set_conv_all_nth)
  have "int (le_value t) = int v + (int (v div 256 ^ 31 mod 256) - int (v div 256 ^ 31)) * 256 ^ 31"
    unfolding t_def using s(1,4) by (simp add: le_value_update unat_and_0xff top del: of_nat_unat)
  also have "\<dots> = int v - int (v div 256 ^ 31 div 256) * 256 ^ 32"
  proof -
    have "int (v div 256 ^ 31) = int (v div 256 ^ 31 div 256) * 256 + int (v div 256 ^ 31 mod 256)"
      by (metis div_mult_mod_eq of_nat_add of_nat_mult of_nat_numeral)
    then show ?thesis by (simp add: algebra_simps)
  qed
  also have "v div 256 ^ 31 div 256 = v div 256 ^ 32" by (simp flip: div_mult2_eq)
  also have "int v - int (v div 256 ^ 32) * 256 ^ 32 = int (v mod 256 ^ 32)"
    by (simp add: zmod_int zdiv_int minus_div_mult_eq_mod)
  finally have tv: "le_value t = v mod 2 ^ 256" by simp
  have t0: "unat (t ! 0) = v mod 256"
  proof -
    obtain x xs where "t = x # xs" using t(1) by (cases t) simp_all
    then have "unat (t ! 0) = le_value t mod 256" using t by simp
    then show ?thesis unfolding tv by (simp add: mod_mod_cancel)
  qed
  have r: "r = t[0 := t ! 0 + c * V9X_ED25519_FOLD]"
    by (simp add: r_def v9x_ed25519_fe_carry_pass_def V9X_ED25519_LIMBS_def Let_def s_def t_def c_def)
  have "unat (c * V9X_ED25519_FOLD) = unat c * 38"
    using c_less by (simp add: V9X_ED25519_FOLD_def unat_word_ariths)
  then have r0: "unat (t ! 0 + c * V9X_ED25519_FOLD) = v mod 256 + 38 * (v div 2 ^ 256)"
    using c_less t0 c by (subst u32_add) simp_all
  show "length r = 32" using t(1) by (simp add: r)
  show "unat (r ! j) < 256" if "0 < j" "j < 32" for j
    using t that byte_limbs_nth [of t j] by (simp add: r)
  show "unat (r ! 0) = v mod 256 + 38 * (v div 2 ^ 256)" using t(1) r0 by (simp add: r)
  have "int (le_value r) = int (v mod 2 ^ 256) + (int (v mod 256 + 38 * (v div 2 ^ 256)) - int (v mod 256))"
    unfolding r using t(1) r0 t0 tv by (simp add: le_value_update del: of_nat_unat)
  then show "le_value r = v mod 2 ^ 256 + 38 * (v div 2 ^ 256)" by linarith
qed


subsection \<open>The carried form and the value modulo p\<close>

definition carried :: "fe \<Rightarrow> bool" where
  "carried a \<longleftrightarrow> length a = 32 \<and> unat (a ! 0) \<le> 293 \<and> (\<forall>j. 0 < j \<longrightarrow> j < 32 \<longrightarrow> unat (a ! j) \<le> 255)"

definition fe_value :: "fe \<Rightarrow> int" where
  "fe_value a = int (le_value a) mod P25519"

lemma carried_limb: "carried a \<Longrightarrow> j < 32 \<Longrightarrow> unat (a ! j) \<le> 293"
  by (cases j) (auto simp: carried_def dest: spec [of _ j])

lemma carriedD: "carried a \<Longrightarrow> length a = 32"
  by (simp add: carried_def)

lemma P25519_pos [simp]: "0 < P25519" "P25519 \<noteq> 0" "1 < P25519"
  by (simp_all add: P25519_def)

lemma fold_value: "int (v mod 2 ^ 256 + 38 * (v div 2 ^ 256)) mod P25519 = int v mod P25519"
proof -
  define q where "q = v div 2 ^ 256"
  define m where "m = v mod 2 ^ 256"
  have "v = q * 2 ^ 256 + m" by (simp only: q_def m_def div_mult_mod_eq)
  then have "int v = int (m + 38 * q) + 2 * int q * P25519"
    by (simp add: P25519_def)
  then show ?thesis unfolding q_def [symmetric] m_def [symmetric] by (simp only: mod_mult_self1)
qed

text \<open>The two passes, from limbs below 2^31.\<close>

lemma fe_carry_spec:
  assumes "length a = 32" "\<forall>x \<in> set a. unat x < 2 ^ 31"
  shows "carried (v9x_ed25519_fe_carry a)" and "fe_value (v9x_ed25519_fe_carry a) = fe_value a"
    and "le_value (v9x_ed25519_fe_carry a) < 2 ^ 256 + 38"
proof -
  define b where "b = v9x_ed25519_fe_carry_pass a"
  define v where "v = le_value a"
  note one = carry_pass_spec [OF assms, folded b_def v_def]
  have small: "v mod 256 + 38 * (v div 2 ^ 256) < 2 ^ 30" using one(2) mod_less_divisor [of 256 v] by simp
  have bounds: "\<forall>x \<in> set b. unat x < 2 ^ 31"
  proof
    fix x assume "x \<in> set b"
    then obtain j where j: "j < 32" "x = b ! j" using one(1) by (metis in_set_conv_nth)
    show "unat x < 2 ^ 31"
    proof (cases "j = 0")
      case True
      then show ?thesis using one(4) small j by simp
    next
      case False
      then show ?thesis using one(3) [of j] j by simp
    qed
  qed
  define c where "c = v9x_ed25519_fe_carry_pass b"
  define w where "w = le_value b"
  note two = carry_pass_spec [OF one(1) bounds, folded c_def w_def]
  have c: "v9x_ed25519_fe_carry a = c" by (simp add: v9x_ed25519_fe_carry_def b_def c_def)
  have w_less: "w < 2 ^ 256 + 2 ^ 30"
    using one(5) one(2) mod_less_divisor [of "2 ^ 256" v] unfolding w_def by simp
  then have q: "w div 2 ^ 256 \<le> 1" by (simp add: div_le_mono less_mult_imp_div_less flip: less_Suc_eq_le)
  have "w mod 256 \<le> 255" using mod_less_divisor [of 256 w] by simp
  then have "unat (c ! 0) \<le> 293" using two(4) q by linarith
  then show "carried (v9x_ed25519_fe_carry a)"
    unfolding c carried_def
  proof (intro conjI allI impI)
    show "unat (c ! j) \<le> 255" if "0 < j" "j < 32" for j using two(3) [OF that] by linarith
  qed (rule two(1))
  show "fe_value (v9x_ed25519_fe_carry a) = fe_value a"
    unfolding c fe_value_def two(5) fold_value w_def one(5) fold_value v_def by (rule refl)
  have "w mod 2 ^ 256 < 2 ^ 256" by simp
  then show "le_value (v9x_ed25519_fe_carry a) < 2 ^ 256 + 38"
    unfolding c two(5) using q by linarith
qed


subsection \<open>Sums and differences\<close>

lemma le_value_map: "int (le_value (map f [0..<n])) = (\<Sum>i<n. int (unat (f i)) * 256 ^ i)"
  by (simp add: le_value_sum)

lemma le_value_limbs: "length a = 32 \<Longrightarrow> int (le_value a) = (\<Sum>i<32. int (unat (a ! i)) * 256 ^ i)"
  by (simp add: le_value_sum)

lemma fe_add_spec:
  assumes "carried a" "carried b"
  shows "carried (v9x_ed25519_fe_add a b)"
    and "fe_value (v9x_ed25519_fe_add a b) = (fe_value a + fe_value b) mod P25519"
proof -
  define l where "l = map (\<lambda>i. a ! i + b ! i) [0..<32]"
  have u: "unat (a ! i + b ! i) = unat (a ! i) + unat (b ! i)" and u2: "unat (a ! i) + unat (b ! i) \<le> 586"
    if "i < 32" for i
    using carried_limb [OF assms(1) that] carried_limb [OF assms(2) that] by (auto intro: u32_add)
  have l: "length l = 32" "\<forall>x \<in> set l. unat x < 2 ^ 31"
    using u u2 by (auto simp: l_def intro: le_less_trans [OF u2])
  have "int (le_value l) = (\<Sum>i<32. int (unat (a ! i)) * 256 ^ i + int (unat (b ! i)) * 256 ^ i)"
    unfolding l_def le_value_map by (rule sum.cong) (simp_all add: u distrib_right del: of_nat_unat)
  then have "int (le_value l) = int (le_value a) + int (le_value b)"
    using assms by (simp only: sum.distrib le_value_limbs carriedD)
  moreover have "v9x_ed25519_fe_add a b = v9x_ed25519_fe_carry l"
    by (simp add: v9x_ed25519_fe_add_def l_def V9X_ED25519_LIMBS_def)
  ultimately show "carried (v9x_ed25519_fe_add a b)"
    and "fe_value (v9x_ed25519_fe_add a b) = (fe_value a + fe_value b) mod P25519"
    using fe_carry_spec [OF l] by (simp_all add: fe_value_def mod_add_eq)
qed

lemma fe_sub_spec:
  assumes "carried a" "carried b"
  shows "carried (v9x_ed25519_fe_sub a b)"
    and "fe_value (v9x_ed25519_fe_sub a b) = (fe_value a - fe_value b) mod P25519"
proof -
  define bias :: "nat \<Rightarrow> u32" where "bias i = (if i = 0 then V9X_ED25519_8P_LOW
    else if i = 31 then V9X_ED25519_8P_HIGH else V9X_ED25519_8P_MID)" for i
  define l where "l = map (\<lambda>i. a ! i + bias i - b ! i) [0..<32]"
  have bias: "293 < unat (bias i)" "unat (bias i) < 4096" for i
    by (simp_all add: bias_def V9X_ED25519_8P_LOW_def V9X_ED25519_8P_MID_def V9X_ED25519_8P_HIGH_def)
  have u: "int (unat (a ! i + bias i - b ! i)) = int (unat (a ! i)) + int (unat (bias i)) - int (unat (b ! i))"
    and u2: "unat (a ! i + bias i - b ! i) < 2 ^ 31"
    if "i < 32" for i
  proof -
    have s: "unat (a ! i + bias i) = unat (a ! i) + unat (bias i)"
      using carried_limb [OF assms(1) that] bias(2) [of i] by (intro u32_add) simp
    have "unat (a ! i + bias i - b ! i) = unat (a ! i + bias i) - unat (b ! i)"
      using carried_limb [OF assms(2) that] bias(1) [of i] s by (intro u32_sub) (simp add: word_le_nat_alt)
    then show "int (unat (a ! i + bias i - b ! i)) = int (unat (a ! i)) + int (unat (bias i)) - int (unat (b ! i))"
      and "unat (a ! i + bias i - b ! i) < 2 ^ 31"
      using s carried_limb [OF assms(1) that] carried_limb [OF assms(2) that] bias [of i]
      by (simp_all del: of_nat_unat)
  qed
  have l: "length l = 32" "\<forall>x \<in> set l. unat x < 2 ^ 31"
    using u2 by (auto simp: l_def)
  have "int (le_value l) = (\<Sum>i<32. int (unat (a ! i)) * 256 ^ i + int (unat (bias i)) * 256 ^ i -
      int (unat (b ! i)) * 256 ^ i)"
    unfolding l_def le_value_map
    by (rule sum.cong) (simp_all only: lessThan_iff u left_diff_distrib distrib_right)
  then have "int (le_value l) = int (le_value a) + (\<Sum>i<32. int (unat (bias i)) * 256 ^ i) - int (le_value b)"
    using assms by (simp only: sum.distrib sum_subtractf le_value_limbs carriedD)
  also have "(\<Sum>i<32. int (unat (bias i)) * 256 ^ i) = 8 * P25519"
    unfolding le_value_map [symmetric]
    by (simp add: bias_def upt_rec V9X_ED25519_8P_LOW_def V9X_ED25519_8P_MID_def
        V9X_ED25519_8P_HIGH_def P25519_def)
  finally have v: "int (le_value l) = int (le_value a) - int (le_value b) + 8 * P25519" by simp
  have "v9x_ed25519_fe_sub a b = v9x_ed25519_fe_carry l"
    by (simp add: v9x_ed25519_fe_sub_def l_def V9X_ED25519_LIMBS_def Let_def bias_def cong: if_cong)
  then show "carried (v9x_ed25519_fe_sub a b)"
    and "fe_value (v9x_ed25519_fe_sub a b) = (fe_value a - fe_value b) mod P25519"
    using fe_carry_spec [OF l] by (simp_all add: fe_value_def v mod_diff_eq)
qed


subsection \<open>Products\<close>

text \<open>
  Adding into columns: a list of (column, word) pairs, added one by one. As long as no column total
  reaches 2^32, the value of the columns grows by the sum of the words at their weights.
\<close>

definition add_columns :: "u32 list \<Rightarrow> (nat \<times> u32) list \<Rightarrow> u32 list" where
  "add_columns = foldl (\<lambda>col (k, x). col[k := col ! k + x])"

definition column_total :: "(nat \<times> u32) list \<Rightarrow> nat \<Rightarrow> nat" where
  "column_total ops k = sum_list (map (\<lambda>(k', x). if k' = k then unat x else 0) ops)"

lemma column_total_simps [simp]:
  "column_total [] k = 0"
  "column_total ((k', x) # ops) k = (if k' = k then unat x else 0) + column_total ops k"
  "column_total (ops @ ops') k = column_total ops k + column_total ops' k"
  by (simp_all add: column_total_def)

lemma length_add_columns [simp]: "length (add_columns col ops) = length col"
  by (induction ops arbitrary: col) (auto simp: add_columns_def)

lemma add_columns_simps [simp]:
  "add_columns col [] = col"
  "add_columns col ((k, x) # ops) = add_columns (col[k := col ! k + x]) ops"
  by (simp_all add: add_columns_def)

lemma add_columns_append: "add_columns col (ops @ ops') = add_columns (add_columns col ops) ops'"
  by (simp add: add_columns_def)

lemma add_columns_value:
  assumes "\<forall>(k, x) \<in> set ops. k < length col"
    and "\<And>k. k < length col \<Longrightarrow> unat (col ! k) + column_total ops k < 2 ^ 32"
  shows "le_value (add_columns col ops) = le_value col + sum_list (map (\<lambda>(k, x). unat x * 256 ^ k) ops)"
    and "\<And>k. k < length col \<Longrightarrow> unat (add_columns col ops ! k) = unat (col ! k) + column_total ops k"
proof -
  have "le_value (add_columns col ops) = le_value col + sum_list (map (\<lambda>(k, x). unat x * 256 ^ k) ops) \<and>
    (\<forall>k < length col. unat (add_columns col ops ! k) = unat (col ! k) + column_total ops k)"
    using assms
  proof (induction ops arbitrary: col)
    case (Cons op ops)
    obtain k x where op: "op = (k, x)" by fastforce
    have k: "k < length col" using Cons.prems(1) op by simp
    have u: "unat (col ! k + x) = unat (col ! k) + unat x"
      using Cons.prems(2) [OF k] op by (intro u32_add) simp
    define col' where "col' = col[k := col ! k + x]"
    have c: "unat (col' ! j) = unat (col ! j) + (if k = j then unat x else 0)" if "j < length col" for j
      using that k u by (auto simp: col'_def nth_list_update)
    have p1: "\<forall>(k, x) \<in> set ops. k < length col'" using Cons.prems(1) by (auto simp: col'_def)
    have p2: "unat (col' ! j) + column_total ops j < 2 ^ 32" if "j < length col'" for j
      using that Cons.prems(2) [of j] c [of j] op by (simp add: col'_def)
    have "int (le_value col') = int (le_value col) + int (unat x) * 256 ^ k"
      using k u by (simp add: col'_def le_value_update del: of_nat_unat)
    then have "int (le_value col') = int (le_value col + unat x * 256 ^ k)" by simp
    then have "le_value col' = le_value col + unat x * 256 ^ k" by (simp only: of_nat_eq_iff)
    then show ?case
      using Cons.IH [OF p1 p2] c op by (simp add: col'_def)
  qed simp
  then show "le_value (add_columns col ops) = le_value col + sum_list (map (\<lambda>(k, x). unat x * 256 ^ k) ops)"
    and "\<And>k. k < length col \<Longrightarrow> unat (add_columns col ops ! k) = unat (col ! k) + column_total ops k"
    by simp_all
qed

definition product_ops :: "u32 list \<Rightarrow> u32 list \<Rightarrow> (nat \<times> u32) list" where
  "product_ops a b = concat (map (\<lambda>i. map (\<lambda>j. (i + j, a ! i * b ! j)) [0..<32]) [0..<32])"

lemma foldl_columns:
  "foldl (\<lambda>col i. foldl (\<lambda>col j. col[i + j := col ! (i + j) + f i j]) col js) col is =
     add_columns col (concat (map (\<lambda>i. map (\<lambda>j. (i + j, f i j)) js) is))"
proof (induction "is" arbitrary: col)
  case (Cons i "is")
  have "foldl (\<lambda>col j. col[i + j := col ! (i + j) + f i j]) col js =
      add_columns col (map (\<lambda>j. (i + j, f i j)) js)"
    by (simp add: add_columns_def foldl_map)
  then show ?case using Cons by (simp add: add_columns_append)
qed simp

lemma column_total_concat: "column_total (concat opss) k = sum_list (map (\<lambda>ops. column_total ops k) opss)"
  by (induction opss) simp_all

lemma column_total_row:
  "column_total (map (\<lambda>j. (i + j, f j)) [0..<n]) k =
     (if i \<le> k \<and> k < i + n then unat (f (k - i)) else 0)"
  by (induction n) (auto simp: less_Suc_eq)

lemma sum_list_bound: "(\<And>x. x \<in> set xs \<Longrightarrow> f x \<le> (M::nat)) \<Longrightarrow> sum_list (map f xs) \<le> length xs * M"
  by (induction xs) (simp_all add: add_le_mono)

lemma product_total_le:
  assumes "\<And>i j. i < 32 \<Longrightarrow> j < 32 \<Longrightarrow> unat (a ! i * b ! j) \<le> M"
  shows "column_total (product_ops a b) k \<le> 32 * M"
proof -
  have "column_total (product_ops a b) k =
      sum_list (map (\<lambda>i. column_total (map (\<lambda>j. (i + j, a ! i * b ! j)) [0..<32]) k) [0..<32])"
    by (simp add: product_ops_def column_total_concat comp_def)
  also have "\<dots> \<le> length [0..<32] * M"
    by (rule sum_list_bound) (auto simp: column_total_row intro: assms)
  finally show ?thesis by simp
qed

lemma sum_list_concat_map: "sum_list (concat xss) = sum_list (map sum_list xss)" for xss :: "nat list list"
  by (induction xss) simp_all

lemma product_value:
  assumes "\<And>i j. i < 32 \<Longrightarrow> j < 32 \<Longrightarrow> unat (a ! i * b ! j) = unat (a ! i) * unat (b ! j)"
    and "length a = 32" "length b = 32"
  shows "sum_list (map (\<lambda>(k, x). unat x * 256 ^ k) (product_ops a b)) = le_value a * le_value b"
proof -
  have "sum_list (map (\<lambda>(k, x). unat x * 256 ^ k) (product_ops a b)) =
      (\<Sum>i<32. \<Sum>j<32. unat (a ! i * b ! j) * 256 ^ (i + j))"
    by (simp add: product_ops_def map_concat sum_list_concat_map comp_def interv_sum_list_conv_sum_set_nat
        atLeast0LessThan)
  also have "\<dots> = (\<Sum>i<32. \<Sum>j<32. (unat (a ! i) * 256 ^ i) * (unat (b ! j) * 256 ^ j))"
    by (intro sum.cong refl) (simp add: assms(1) power_add)
  also have "\<dots> = le_value a * le_value b"
    by (simp add: le_value_sum assms(2,3) sum_product)
  finally show ?thesis .
qed


lemma sum_lessThan_plus: "(\<Sum>i<m + n. f i) = (\<Sum>i<m. f i) + (\<Sum>i<n. f (m + i))"
  for f :: "nat \<Rightarrow> int"
  by (induction n) simp_all

lemma fe_mul_spec:
  assumes "carried a" "carried b"
  shows "carried (v9x_ed25519_fe_mul a b)"
    and "fe_value (v9x_ed25519_fe_mul a b) = fe_value a * fe_value b mod P25519"
proof -
  define zero :: "u32 list" where "zero = map (\<lambda>_. 0) [0..<64]"
  define col where "col = add_columns zero (product_ops a b)"
  have col: "fe_mul_columns a b = col"
    by (simp add: fe_mul_columns_def V9X_ED25519_LIMBS_def foldl_columns col_def product_ops_def zero_def)
  have z: "length zero = 64" "\<And>k. k < 64 \<Longrightarrow> zero ! k = 0" "le_value zero = 0"
    by (simp_all add: zero_def map_replicate_const)
  have p: "unat (a ! i) * unat (b ! j) \<le> 293 * 293" if "i < 32" "j < 32" for i j
    using carried_limb [OF assms(1) that(1)] carried_limb [OF assms(2) that(2)] by (rule mult_le_mono)
  have m: "unat (a ! i * b ! j) = unat (a ! i) * unat (b ! j)" if "i < 32" "j < 32" for i j
    using p [OF that] by (simp add: unat_word_ariths)
  have tot: "column_total (product_ops a b) k \<le> 32 * (293 * 293)" for k
    by (rule product_total_le) (simp only: m p)
  have ops: "\<forall>(k, x) \<in> set (product_ops a b). k < length zero"
    by (auto simp: product_ops_def z(1))
  have sums: "unat (zero ! k) + column_total (product_ops a b) k < 2 ^ 32" if "k < length zero" for k
    using that z tot [of k] by simp
  have len: "length a = 32" "length b = 32" using assms by (simp_all add: carriedD)
  note res = add_columns_value [OF ops sums, folded col_def]
  have v: "le_value col = le_value a * le_value b"
    using res(1) z(3) product_value [OF m len] by simp
  have c: "unat (col ! k) \<le> 2747168" if "k < 64" for k
    using res(2) [of k] that z tot [of k] by simp
  define l where "l = map (\<lambda>i. col ! i + 38 * col ! (i + 32)) [0..<32]"
  have u: "unat (col ! i + 38 * col ! (i + 32)) = unat (col ! i) + 38 * unat (col ! (i + 32))"
    and u2: "unat (col ! i + 38 * col ! (i + 32)) < 2 ^ 31" if "i < 32" for i
  proof -
    have k: "unat (38 * col ! (i + 32)) = 38 * unat (col ! (i + 32))"
      using c [of "i + 32"] that by (simp add: unat_word_ariths)
    show s: "unat (col ! i + 38 * col ! (i + 32)) = unat (col ! i) + 38 * unat (col ! (i + 32))"
      using c [of "i + 32"] c [of i] that k by (subst u32_add) simp_all
    show "unat (col ! i + 38 * col ! (i + 32)) < 2 ^ 31"
      unfolding s using c [of "i + 32"] c [of i] that by simp
  qed
  have l: "length l = 32" "\<forall>x \<in> set l. unat x < 2 ^ 31"
    using u2 by (auto simp: l_def)
  have "int (le_value l) = (\<Sum>i<32. int (unat (col ! i)) * 256 ^ i + 38 * (int (unat (col ! (i + 32))) * 256 ^ i))"
    unfolding l_def le_value_map
    by (rule sum.cong)
      (simp_all only: lessThan_iff u of_nat_add of_nat_mult of_nat_numeral distrib_right mult.assoc)
  then have lv: "int (le_value l) = (\<Sum>i<32. int (unat (col ! i)) * 256 ^ i) +
      38 * (\<Sum>i<32. int (unat (col ! (i + 32))) * 256 ^ i)"
    by (simp only: sum.distrib sum_distrib_left)
  have cl: "length col = 64" by (simp add: col_def z)
  have "int (le_value col) = (\<Sum>i<32 + 32. int (unat (col ! i)) * 256 ^ i)"
    using cl by (simp add: le_value_sum)
  also have "\<dots> = (\<Sum>i<32. int (unat (col ! i)) * 256 ^ i) +
      (\<Sum>i<32. int (unat (col ! (32 + i))) * 256 ^ (32 + i))"
    by (rule sum_lessThan_plus)
  also have "(\<Sum>i<32. int (unat (col ! (32 + i))) * 256 ^ (32 + i)) =
      2 ^ 256 * (\<Sum>i<32. int (unat (col ! (i + 32))) * 256 ^ i)"
    unfolding sum_distrib_left by (rule sum.cong) (simp_all add: power_add ac_simps del: of_nat_unat)
  finally have "int (le_value col) = int (le_value l) +
      2 * (\<Sum>i<32. int (unat (col ! (i + 32))) * 256 ^ i) * P25519"
    unfolding lv by (simp add: P25519_def algebra_simps del: of_nat_unat)
  then have "fe_value l = int (le_value a * le_value b) mod P25519"
    unfolding fe_value_def v by (simp only: mod_mult_self1)
  moreover have "v9x_ed25519_fe_mul a b = v9x_ed25519_fe_carry l"
    by (simp add: v9x_ed25519_fe_mul_def col l_def V9X_ED25519_LIMBS_def V9X_ED25519_FOLD_def Let_def)
  ultimately show "carried (v9x_ed25519_fe_mul a b)"
    and "fe_value (v9x_ed25519_fe_mul a b) = fe_value a * fe_value b mod P25519"
    using fe_carry_spec [OF l] by (simp_all add: fe_value_def mod_mult_eq)
qed


subsection \<open>Bytes in and out\<close>

lemma fe_from_bytes_spec:
  assumes "length xs = 32"
  shows "carried (v9x_ed25519_fe_from_bytes xs)" and "fe_value (v9x_ed25519_fe_from_bytes xs) = int (le_value xs) mod P25519"
proof -
  have "v9x_ed25519_fe_from_bytes xs = map ucast xs"
    using assms by (auto simp: v9x_ed25519_fe_from_bytes_def V9X_ED25519_LIMBS_def intro: nth_equalityI)
  moreover have "unat b \<le> 255" for b :: u8 using unat_u8_less [of b] by linarith
  moreover have "unat b \<le> 293" for b :: u8 using unat_u8_less [of b] by linarith
  ultimately show "carried (v9x_ed25519_fe_from_bytes xs)"
    and "fe_value (v9x_ed25519_fe_from_bytes xs) = int (le_value xs) mod P25519"
    using assms by (simp_all add: carried_def fe_value_def le_value_map_ucast)
qed

lemma fe_set_small_spec:
  assumes "unat n \<le> 293"
  shows "carried (v9x_ed25519_fe_set_small n)" and "fe_value (v9x_ed25519_fe_set_small n) = int (unat n)"
proof -
  have eq: "v9x_ed25519_fe_set_small n = n # replicate 31 0"
    by (simp add: v9x_ed25519_fe_set_small_def V9X_ED25519_LIMBS_def map_replicate_const numeral_eq_Suc)
  show "carried (v9x_ed25519_fe_set_small n)"
    unfolding eq carried_def using assms by (simp add: nth_Cons')
  have "int (unat n) \<le> 293" using assms by linarith
  then have "int (unat n) < P25519" by (simp add: P25519_def del: of_nat_unat)
  then show "fe_value (v9x_ed25519_fe_set_small n) = int (unat n)"
    unfolding eq fe_value_def by (simp del: of_nat_unat)
qed

text \<open>The third carry pass leaves bytes, and two conditional subtractions of \<open>p\<close> reduce below it.\<close>

lemma sub_p_spec:
  assumes "length out = 32"
  shows "length (sub_p_if_ge out) = 32"
    and "int (le_value (sub_p_if_ge out)) =
      (if P25519 \<le> int (le_value out) then int (le_value out) - P25519 else int (le_value out))"
proof -
  have p: "length v9x_ed25519_p_bytes = 32" by (simp add: v9x_ed25519_p_bytes_def)
  note ge = bytes_ge_value [OF assms p]
  have i: "le_value v9x_ed25519_p_bytes \<le> le_value out \<longleftrightarrow> P25519 \<le> int (le_value out)"
    unfolding p_bytes_value [symmetric] by simp
  show "length (sub_p_if_ge out) = 32"
    and "int (le_value (sub_p_if_ge out)) =
      (if P25519 \<le> int (le_value out) then int (le_value out) - P25519 else int (le_value out))"
    using bytes_sub_value [OF assms p] assms ge i
    by (auto simp: sub_p_if_ge_def p_bytes_value of_nat_diff)
qed

lemma fe_to_bytes_limbs:
  assumes "length a = 32" "\<forall>x \<in> set a. unat x < 2 ^ 31"
  shows "length (v9x_ed25519_fe_to_bytes a) = 32 \<and>
    int (le_value (v9x_ed25519_fe_to_bytes a)) = fe_value a"
proof -
  define c where "c = v9x_ed25519_fe_carry a"
  define t where "t = v9x_ed25519_fe_carry_pass c"
  note c = fe_carry_spec [OF assms, folded c_def]
  have cl: "length c = 32" "\<forall>x \<in> set c. unat x < 2 ^ 31"
    using carriedD [OF c(1)] carried_limb [OF c(1)] by (auto simp: in_set_conv_nth) (force dest: carried_limb [OF c(1)])
  note t = carry_pass_spec [OF cl, folded t_def]
  have vt: "le_value t = le_value c mod 2 ^ 256 + 38 * (le_value c div 2 ^ 256)" by (rule t(5))
  have t0: "unat (t ! 0) < 256"
  proof (cases "le_value c < 2 ^ 256")
    case True
    then show ?thesis using t(4) by simp
  next
    case False
    then obtain d where d: "le_value c = 2 ^ 256 + d" using le_Suc_ex not_less by blast
    then have "d < 38" using c(3) by simp
    then have q: "le_value c div 2 ^ 256 = 1" and m: "le_value c = 2 ^ 256 + le_value c mod 2 ^ 256"
      unfolding d by simp_all
    then have "le_value c mod 2 ^ 256 < 38" using c(3) by linarith
    moreover have "le_value c mod 256 = le_value c mod 2 ^ 256 mod 256" by (simp add: mod_mod_cancel)
    ultimately have "le_value c mod 256 < 38" by simp
    then show ?thesis using t(4) q by simp
  qed
  have bytes: "byte_limbs t"
    unfolding byte_limbs_def
  proof
    fix x assume "x \<in> set t"
    then obtain j where j: "j < 32" "x = t ! j" using t(1) by (metis in_set_conv_nth)
    then show "unat x < 256" using t0 t(3) [of j] by (cases "j = 0") simp_all
  qed
  define out where "out = map (\<lambda>i. ucast (t ! i) :: u8) [0..<32]"
  have "le_value out = le_value t"
    unfolding le_value_sum using t(1) byte_limbs_nth [OF bytes]
    by (simp add: out_def unsigned_ucast_eq take_bit_nat_eq_self)
  moreover have "le_value t < 256 ^ 32" using le_value_less [OF bytes] t(1) by simp
  moreover have "int (le_value t) mod P25519 = fe_value a"
    using c(2) unfolding vt fold_value by (simp add: fe_value_def)
  ultimately have out: "length out = 32" "int (le_value out) < 2 ^ 256" "int (le_value out) mod P25519 = fe_value a"
    by (simp_all add: out_def)
  have res: "v9x_ed25519_fe_to_bytes a = sub_p_if_ge (sub_p_if_ge out)"
    by (simp add: v9x_ed25519_fe_to_bytes_def Let_def c_def t_def out_def numeral_2_eq_2)
  note s1 = sub_p_spec [OF out(1)]
  note s2 = sub_p_spec [OF s1(1)]
  have "(2 :: int) ^ 256 < 3 * P25519" by (simp add: P25519_def)
  then have less: "int (le_value (v9x_ed25519_fe_to_bytes a)) < P25519"
    unfolding res s2(2) s1(2) using out(2) by auto
  have "int (le_value (v9x_ed25519_fe_to_bytes a)) mod P25519 = fe_value a"
    unfolding res s2(2) s1(2) by (simp only: minus_mod_self2 out(3) split: if_split) blast
  then show ?thesis using less s2(1) by (simp add: res)
qed


lemma fe_to_bytes_spec:
  assumes "carried a"
  shows "length (v9x_ed25519_fe_to_bytes a) = 32" and "int (le_value (v9x_ed25519_fe_to_bytes a)) = fe_value a"
proof -
  have "\<forall>x \<in> set a. unat x < 2 ^ 31"
    using carriedD [OF assms] carried_limb [OF assms] by (force simp: in_set_conv_nth dest: carried_limb [OF assms])
  then show "length (v9x_ed25519_fe_to_bytes a) = 32"
    and "int (le_value (v9x_ed25519_fe_to_bytes a)) = fe_value a"
    using fe_to_bytes_limbs carriedD [OF assms] by blast+
qed

lemma fe_equal_iff:
  assumes "carried a" "carried b"
  shows "v9x_ed25519_fe_equal a b \<longleftrightarrow> fe_value a = fe_value b"
proof -
  note a = fe_to_bytes_spec [OF assms(1)] and b = fe_to_bytes_spec [OF assms(2)]
  have "v9x_ed25519_fe_equal a b \<longleftrightarrow> v9x_ed25519_fe_to_bytes a = v9x_ed25519_fe_to_bytes b"
    using bytes_equal_iff [OF a(1) b(1)] by (simp add: v9x_ed25519_fe_equal_def)
  also have "\<dots> \<longleftrightarrow> le_value (v9x_ed25519_fe_to_bytes a) = le_value (v9x_ed25519_fe_to_bytes b)"
    using le_value_inj [of "v9x_ed25519_fe_to_bytes a" "v9x_ed25519_fe_to_bytes b"] a(1) b(1) by simp
  finally show ?thesis using a(2) b(2) by (metis of_nat_eq_iff)
qed

lemma fe_is_zero_iff: "carried a \<Longrightarrow> v9x_ed25519_fe_is_zero a \<longleftrightarrow> fe_value a = 0"
  using fe_equal_iff [of a "v9x_ed25519_fe_set_small 0"] fe_set_small_spec [of 0]
  by (simp add: v9x_ed25519_fe_is_zero_def)

lemma fe_is_odd_eq:
  assumes "carried a"
  shows "int (v9x_ed25519_fe_is_odd a) = fe_value a mod 2"
proof -
  note b = fe_to_bytes_spec [OF assms]
  obtain x xs where c: "v9x_ed25519_fe_to_bytes a = x # xs" using b(1) by (cases "v9x_ed25519_fe_to_bytes a") simp_all
  have "unat (x AND 1) = unat x mod 2" by (simp add: and_one_eq unat_mod)
  moreover have "fe_value a mod 2 = int (unat x mod 2)"
    unfolding b(2) [symmetric] c by (simp add: zmod_int del: of_nat_unat) presburger
  ultimately show ?thesis by (simp add: v9x_ed25519_fe_is_odd_def c)
qed

subsection \<open>Powers\<close>

lemma le_bit_value: "n < 8 * length e \<Longrightarrow> le_bit e n \<longleftrightarrow> odd (le_value e div 2 ^ n)"
proof (induction e arbitrary: n)
  case (Cons x xs)
  have b: "drop_bit k y AND 1 \<noteq> 0 \<longleftrightarrow> odd (unat y div 2 ^ k)" for y :: u8 and k
    by (simp add: and_one_eq odd_iff_mod_2_eq_one [symmetric] flip: bit_iff_odd_drop_bit bit_iff_odd)
      (simp add: bit_iff_odd bit_unsigned_iff flip: bit_iff_odd)
  show ?case
  proof (cases "n < 8")
    case True
    have "(unat x + 256 * le_value xs) div 2 ^ n = unat x div 2 ^ n + 2 ^ (8 - n) * le_value xs"
    proof -
      have "(256::nat) = 2 ^ n * 2 ^ (8 - n)" using True by (simp flip: power_add)
      then have "unat x + 256 * le_value xs = unat x + 2 ^ n * (2 ^ (8 - n) * le_value xs)" by simp
      then show ?thesis by (simp only:) simp
    qed
    then show ?thesis using True by (simp add: le_bit_def b)
  next
    case False
    then obtain m where m: "n = 8 + m" using le_Suc_ex not_less by blast
    have "(unat x + 256 * le_value xs) div 2 ^ n = le_value xs div 2 ^ m"
      unfolding m power_add div_mult2_eq using unat_u8_less [of x] by (simp del: unat_u8_less)
    moreover have "(8 + m) div 8 = Suc (m div 8)" "(8 + m) mod 8 = m mod 8" by simp_all
    ultimately show ?thesis using Cons.IH [of m] Cons.prems by (simp add: m le_bit_def)
  qed
qed simp


text \<open>
  Square-and-multiply, double-and-add and the binary long division below are one loop over the bits
  of a little-endian array, from the top. \<open>ladder\<close> is its contract: \<open>rep x k\<close> says that \<open>x\<close> stands
  for the number \<open>k\<close>, and a step with bit \<open>b\<close> leads from \<open>k\<close> to \<open>2 k + b\<close>.
\<close>

locale ladder =
  fixes rep :: "'a \<Rightarrow> nat \<Rightarrow> bool"
    and step :: "bool \<Rightarrow> 'a \<Rightarrow> 'a"
  assumes step: "rep x k \<Longrightarrow> rep (step b x) (2 * k + of_bool b)"
begin

lemma climb:
  assumes "rep x 0" "n = 8 * length e"
  shows "rep (foldl (\<lambda>r i. step (le_bit e i) r) x (rev [0..<n])) (le_value e)"
proof -
  let ?f = "\<lambda>r i. step (le_bit e i) r"
  have "k \<le> n \<Longrightarrow> rep (foldl ?f x (rev [n - k..<n])) (le_value e div 2 ^ (n - k))" for k
  proof (induction k)
    case 0
    have "le_value e < 2 ^ n"
      using le_value_less [of e] by (simp add: assms(2) power_mult)
    then show ?case using assms(1) by simp
  next
    case (Suc k)
    define i where "i = n - Suc k"
    have i: "n - k = Suc i" "i < n" using Suc.prems by (simp_all add: i_def)
    have "[i..<n] = i # [Suc i..<n]" using i by (simp add: upt_rec)
    then have f: "foldl ?f x (rev [i..<n]) = ?f (foldl ?f x (rev [Suc i..<n])) i" by simp
    have IH: "rep (foldl ?f x (rev [Suc i..<n])) (le_value e div 2 ^ Suc i)"
      using Suc i by simp
    have odd: "le_bit e i \<longleftrightarrow> odd (le_value e div 2 ^ i)"
      using le_bit_value [of i e] i assms(2) by simp
    have "le_value e div 2 ^ Suc i = le_value e div 2 ^ i div 2" by (simp only: power_Suc2 div_mult2_eq)
    moreover have "m = 2 * (m div 2) + of_bool (odd m)" for m :: nat by (cases "even m") auto
    ultimately have "le_value e div 2 ^ i = 2 * (le_value e div 2 ^ Suc i) + of_bool (le_bit e i)"
      unfolding odd by metis
    then show ?case
      using step [OF IH, of "le_bit e i"] unfolding f i_def [symmetric] by simp
  qed
  from this [of n] show ?thesis by simp
qed

end

definition fe_power_rep :: "fe \<Rightarrow> fe \<Rightarrow> nat \<Rightarrow> bool" where
  "fe_power_rep a r k \<longleftrightarrow> (carried a \<longrightarrow> carried r \<and> fe_value r = fe_value a ^ k mod P25519)"

interpretation fe_ladder: ladder "fe_power_rep a"
  "\<lambda>b r. if b then v9x_ed25519_fe_mul (v9x_ed25519_fe_square r) a else v9x_ed25519_fe_square r" for a
proof
  fix x k b
  assume rep: "fe_power_rep a x k"
  have sq: "carried (v9x_ed25519_fe_square x)"
    "fe_value (v9x_ed25519_fe_square x) = fe_value a ^ (2 * k) mod P25519" if "carried a"
    using that rep fe_mul_spec [of x x]
    by (simp_all add: fe_power_rep_def v9x_ed25519_fe_square_def mod_mult_eq power_mult power2_eq_square
        power_mult_distrib)
  show "fe_power_rep a (if b then v9x_ed25519_fe_mul (v9x_ed25519_fe_square x) a
      else v9x_ed25519_fe_square x) (2 * k + of_bool b)"
    using sq fe_mul_spec [of "v9x_ed25519_fe_square x" a]
    by (auto simp: fe_power_rep_def mod_mult_right_eq mult.commute)
qed

lemma fe_pow_spec:
  assumes "carried a" "length e = 32"
  shows "carried (v9x_ed25519_fe_pow a e)" and "fe_value (v9x_ed25519_fe_pow a e) = fe_value a ^ le_value e mod P25519"
proof -
  have one: "fe_power_rep a (v9x_ed25519_fe_set_small 1) 0"
    using fe_set_small_spec [of 1] by (simp add: fe_power_rep_def)
  have steps: "(\<lambda>r i. if le_bit e i then v9x_ed25519_fe_mul (v9x_ed25519_fe_square r) a
      else v9x_ed25519_fe_square r) = fe_pow_step a e"
    by (simp add: fun_eq_iff fe_pow_step_def Let_def)
  have n: "256 = 8 * length e" using assms(2) by simp
  have "fe_power_rep a (v9x_ed25519_fe_pow a e) (le_value e)"
    unfolding v9x_ed25519_fe_pow_def steps [symmetric] by (rule fe_ladder.climb [OF one n])
  then show "carried (v9x_ed25519_fe_pow a e)"
    and "fe_value (v9x_ed25519_fe_pow a e) = fe_value a ^ le_value e mod P25519"
    using assms(1) by (simp_all add: fe_power_rep_def)
qed

lemma exponent_value:
  "length (v9x_ed25519_exponent low high) = 32"
  "le_value (v9x_ed25519_exponent low high) = unat low + (2 ^ 248 - 256) + 2 ^ 248 * unat high"
proof -
  have e: "v9x_ed25519_exponent low high = [low] @ replicate 30 0xFF @ [high]"
    by (simp add: v9x_ed25519_exponent_def map_replicate_const)
  have "unat (0xFF :: u8) = 255" by simp
  then have "le_value (replicate n (0xFF :: u8)) + 1 = 256 ^ n" for n
    by (induction n) (simp_all only: replicate.simps le_value.simps, simp_all)
  then have r: "le_value (replicate 30 (0xFF :: u8)) = 256 ^ 30 - 1" by (metis diff_add_inverse2)
  show "length (v9x_ed25519_exponent low high) = 32" unfolding e by simp
  show "le_value (v9x_ed25519_exponent low high) = unat low + (2 ^ 248 - 256) + 2 ^ 248 * unat high"
    unfolding e by (simp add: le_value_append r)
qed

lemma fe_invert_spec:
  assumes "carried a"
  shows "carried (v9x_ed25519_fe_invert a)"
    and "fe_value (v9x_ed25519_fe_invert a) = fe_value a ^ (2 ^ 255 - 21) mod P25519"
  using fe_pow_spec [OF assms exponent_value(1) [of "0xEB" "0x7F"]]
  by (simp_all add: v9x_ed25519_fe_invert_def exponent_value(2))

end
