(* ===== verification/BlockStream.thy ===== *)
theory BlockStream
  imports V9xPrelude
begin

section \<open>Streaming a message through a block function\<close>

text \<open>
  What \<^verbatim>\<open>sha256.c\<close> and \<^verbatim>\<open>sha512.c\<close> share: bytes are collected in a buffer of one block, a full
  buffer is compressed into the chaining value, and the message ends with a padding that holds its
  length in bits. The locale \<open>block_stream\<close> is the contract of one absorbed byte; inside it the
  effect of any number of bytes is derived once, in terms of the blocks of the whole message.
\<close>

subsection \<open>Cutting a message into blocks\<close>

fun full_blocks :: "nat \<Rightarrow> 'a list \<Rightarrow> 'a list list" where
  "full_blocks B xs =
     (if B = 0 \<or> length xs < B then [] else take B xs # full_blocks B (drop B xs))"

fun block_rest :: "nat \<Rightarrow> 'a list \<Rightarrow> 'a list" where
  "block_rest B xs = (if B = 0 \<or> length xs < B then xs else block_rest B (drop B xs))"

declare full_blocks.simps [simp del] block_rest.simps [simp del]

lemma full_blocks_short [simp]: "length xs < B \<Longrightarrow> full_blocks B xs = []"
  by (simp add: full_blocks.simps)

lemma block_rest_short [simp]: "length xs < B \<Longrightarrow> block_rest B xs = xs"
  by (simp add: block_rest.simps)

lemma full_blocks_one [simp]: "0 < B \<Longrightarrow> length xs = B \<Longrightarrow> full_blocks B (xs @ ys) = xs # full_blocks B ys"
  by (simp add: full_blocks.simps [of B "xs @ ys"])

lemma full_blocks_exact [simp]: "0 < B \<Longrightarrow> length xs = B \<Longrightarrow> full_blocks B xs = [xs]"
  using full_blocks_one [of B xs "[]"] by simp

lemma block_rest_exact [simp]: "0 < B \<Longrightarrow> length xs = B \<Longrightarrow> block_rest B xs = []"
  by (simp add: block_rest.simps)

lemma full_blocks_append:
  assumes "0 < B"
  shows "full_blocks B (xs @ ys) = full_blocks B xs @ full_blocks B (block_rest B xs @ ys)"
proof (induction B xs rule: full_blocks.induct)
  case (1 B xs)
  show ?case
  proof (cases "B = 0 \<or> length xs < B")
    case True
    then show ?thesis by (auto simp: full_blocks.simps block_rest.simps [of B xs])
  next
    case False
    then show ?thesis
      using "1.IH" by (simp add: full_blocks.simps [of B "xs @ ys"] full_blocks.simps [of B xs]
          block_rest.simps [of B xs])
  qed
qed

lemma block_rest_append:
  "block_rest B (xs @ ys) = block_rest B (block_rest B xs @ ys)"
proof (induction B xs rule: block_rest.induct)
  case (1 B xs)
  show ?case
  proof (cases "B = 0 \<or> length xs < B")
    case True
    then show ?thesis by (simp add: block_rest.simps [of B xs])
  next
    case False
    then show ?thesis
      using "1.IH" by (simp add: block_rest.simps [of B "xs @ ys"] block_rest.simps [of B xs])
  qed
qed

lemma length_block_rest: "0 < B \<Longrightarrow> length (block_rest B xs) = length xs mod B"
proof (induction B xs rule: block_rest.induct)
  case (1 B xs)
  then show ?case
    by (cases "length xs < B") (simp_all add: block_rest.simps [of B xs] le_mod_geq)
qed

lemma concat_full_blocks: "concat (full_blocks B xs) @ block_rest B xs = xs"
proof (induction B xs rule: full_blocks.induct)
  case (1 B xs)
  then show ?case
    by (cases "B = 0 \<or> length xs < B") (auto simp: full_blocks.simps block_rest.simps)
qed

subsection \<open>Big-endian integers\<close>

definition be_bytes :: "nat \<Rightarrow> nat \<Rightarrow> bytes" where
  "be_bytes k n = map (\<lambda>i. of_nat (n div 256 ^ (k - 1 - i))) [0..<k]"

lemma length_be_bytes [simp]: "length (be_bytes k n) = k"
  by (simp add: be_bytes_def)

lemma be_bytes_split: "be_bytes (a + b) n = be_bytes a (n div 256 ^ b) @ be_bytes b n"
proof (rule nth_equalityI)
  fix i assume "i < length (be_bytes (a + b) n)"
  then have i: "i < a + b" by simp
  show "be_bytes (a + b) n ! i = (be_bytes a (n div 256 ^ b) @ be_bytes b n) ! i"
  proof (cases "i < a")
    case True
    then have "a + b - Suc i = b + (a - Suc i)" by simp
    then have "n div 256 ^ (a + b - Suc i) = n div 256 ^ b div 256 ^ (a - Suc i)"
      by (simp only: power_add div_mult2_eq)
    then show ?thesis using True by (simp add: be_bytes_def nth_append)
  next
    case False
    then have "a + b - Suc i = b - Suc (i - a)" and "i - a < b" using i by linarith+
    moreover have "be_bytes (a + b) n ! i = of_nat (n div 256 ^ (a + b - Suc i))"
      using i by (simp add: be_bytes_def)
    ultimately show ?thesis using False by (simp add: be_bytes_def nth_append)
  qed
qed simp

lemma be_bytes_high: "be_bytes b (x * 256 ^ b + y) = be_bytes b y"
proof (rule nth_equalityI)
  fix i assume "i < length (be_bytes b (x * 256 ^ b + y))"
  then have i: "i < b" by simp
  define k where "k = b - 1 - i"
  have wrap: "(of_nat 256 :: u8) = 0" by simp
  have b: "b = Suc i + k" using i by (simp add: k_def)
  have "(x * 256 ^ b + y) div 256 ^ k = x * 256 ^ Suc i + y div 256 ^ k"
    unfolding b power_add by (simp add: mult.assoc [symmetric])
  then have "(of_nat ((x * 256 ^ b + y) div 256 ^ k) :: u8) = of_nat (y div 256 ^ k)"
    using wrap by (simp only: power_Suc of_nat_add of_nat_mult) simp
  then show "be_bytes b (x * 256 ^ b + y) ! i = be_bytes b y ! i"
    using i unfolding be_bytes_def k_def by (simp only: nth_map_upt diff_zero add_0 length_upt)
qed simp

lemma be_bytes_mod: "be_bytes b (n mod 256 ^ b) = be_bytes b n"
  using be_bytes_high [of b "n div 256 ^ b" "n mod 256 ^ b"] by (simp only: div_mult_mod_eq)

lemma be_bytes_halves:
  "y < 256 ^ b \<Longrightarrow> be_bytes (a + b) (x * 256 ^ b + y) = be_bytes a x @ be_bytes b y"
  unfolding be_bytes_split be_bytes_high by simp

lemma upt_4: "[0..<4] = [0, 1, 2, 3]"
  by (simp add: upt_rec)

lemma be_bytes_u32:
  "be_bytes 4 (unat w) = map (\<lambda>i. ucast (drop_bit (24 - 8 * i) w AND 0xFF)) [0..<4]" for w :: u32
proof -
  have "ucast (drop_bit (8 * k) w AND 0xFF) = (of_nat (unat w div 256 ^ k) :: u8)" for k
  proof -
    have "(of_nat (unat w div 256 ^ k) :: u8) = of_nat (drop_bit (8 * k) (unat w))"
      by (simp add: power_mult drop_bit_eq_div)
    then show ?thesis
      by (auto intro!: bit_word_eqI simp: bit_simps and_0xff)
  qed
  from this [of 3] this [of 2] this [of 1] this [of 0] show ?thesis
    by (simp add: be_bytes_def upt_4)
qed

text \<open>A loop over the bytes of an array of words, four to a word.\<close>

lemma words_to_bytes:
  "map (\<lambda>i. f (st ! (i div 4)) (i mod 4)) [0..<4 * n] =
     concat (map (\<lambda>j. map (f (st ! j)) [0..<4]) [0..<n])"
proof (induction n)
  case (Suc n)
  have "[0..<4 * Suc n] = [0..<4 * n] @ [4 * n, 4 * n + 1, 4 * n + 2, 4 * n + 3]"
    by (simp add: eval_nat_numeral)
  moreover have "(4 * n + i) div 4 = n" "(4 * n + i) mod 4 = i" if "i < 4" for i
    using that by simp_all
  from this [of 1] this [of 2] this [of 3]
  have "(4 * n + 1) div 4 = n" "(4 * n + 1) mod 4 = 1" "(4 * n + 2) div 4 = n" "(4 * n + 2) mod 4 = 2"
    "(4 * n + 3) div 4 = n" "(4 * n + 3) mod 4 = 3" by simp_all
  ultimately show ?case using Suc
    by (simp only: map_append list.map) (simp add: upt_4 del: One_nat_def add_2_eq_Suc')
qed simp

text \<open>
  The padding of FIPS 180-4, section 5.1, for whole bytes: a 1 bit, the fewest zeros that leave
  room for the \<open>k\<close>-byte length field in the last block, and the length in bits.
\<close>

definition pad_zeros :: "nat \<Rightarrow> nat \<Rightarrow> nat \<Rightarrow> nat" where
  "pad_zeros B k len = (2 * B - 1 - k - len mod B) mod B"

definition fips_padding :: "nat \<Rightarrow> nat \<Rightarrow> nat \<Rightarrow> bytes" where
  "fips_padding B k len =
     0x80 # replicate (pad_zeros B k len) 0 @ be_bytes k (8 * len)"

lemma pad_zeros_least:
  assumes "0 < k" "k < B"
  shows "(len + 1 + pad_zeros B k len + k) mod B = 0"
    and "(len + 1 + z + k) mod B = 0 \<Longrightarrow> pad_zeros B k len \<le> z"
proof -
  let ?r = "len mod B"
  have r: "?r < B" using assms by simp
  have *: "(len + 1 + y + k) mod B = (?r + 1 + y + k) mod B" for y
    by (metis (no_types) mod_add_left_eq add.assoc)
  consider "?r + 1 + k \<le> B" | "?r + 1 + k > B" by linarith
  then have pz: "?r + 1 + pad_zeros B k len + k = B \<or> ?r + 1 + pad_zeros B k len + k = 2 * B"
  proof cases
    case 1
    then obtain t where t: "B = ?r + 1 + k + t" using le_Suc_ex by blast
    then have "2 * B - 1 - k - ?r = B + t" and "t < B" by linarith+
    then have "pad_zeros B k len = t" by (simp add: pad_zeros_def)
    then show ?thesis using t by linarith
  next
    case 2
    then have "2 * B - 1 - k - ?r < B" using assms by linarith
    then have "pad_zeros B k len = 2 * B - 1 - k - ?r" unfolding pad_zeros_def by (rule mod_less)
    then show ?thesis using assms r by linarith
  qed
  then show "(len + 1 + pad_zeros B k len + k) mod B = 0"
    unfolding * by auto
  have small: "pad_zeros B k len < B" using assms by (simp add: pad_zeros_def)
  assume "(len + 1 + z + k) mod B = 0"
  then obtain q where q: "?r + 1 + z + k = B * q" unfolding * by (auto elim: dvdE)
  show "pad_zeros B k len \<le> z"
  proof (rule ccontr)
    assume "\<not> pad_zeros B k len \<le> z"
    then have lt: "B * q < ?r + 1 + pad_zeros B k len + k" and
      d: "?r + 1 + pad_zeros B k len + k - B * q < B"
      using q small by linarith+
    from pz obtain p where p: "?r + 1 + pad_zeros B k len + k = B * p"
      by (metis mult.commute mult_1)
    have "q < p" using lt unfolding p using assms by simp
    then have "B * q + B \<le> B * p" by (metis Suc_leI mult_Suc_right mult_le_mono2 add.commute)
    then show False using d unfolding p by linarith
  qed
qed

text \<open>A byte count kept in two halves, the carry found by the wrap of the low one.\<close>

lemma two_halves_mod:
  fixes h l M :: nat
  assumes "l < M"
  shows "(h mod M) * M + l = (h * M + l) mod (M * M)"
proof -
  have "h mod M < M" using assms by simp
  then have "h mod M + 1 \<le> M" by simp
  then have "(h mod M + 1) * M \<le> M * M" by (rule mult_le_mono1)
  then have "(h mod M) * M + l < M * M" using assms by simp
  moreover have "h * M + l = (h mod M) * M + l + (h div M) * (M * M)"
    by (metis add.assoc add.commute add_mult_distrib div_mult_mod_eq mult.assoc)
  ultimately show ?thesis by (metis mod_less mod_mult_self1)
qed

lemma two_halves_carry:
  fixes h x y M :: nat
  assumes "x < M" "y < M"
  shows "(if (x + y) mod M < x then (h + 1) mod M else h mod M) * M + (x + y) mod M =
    (h * M + (x + y)) mod (M * M)"
proof (cases "x + y < M")
  case True
  then show ?thesis using two_halves_mod [of "x + y" M h] by simp
next
  case False
  then have "(x + y) mod M = x + y - M" using assms by (simp add: mod_if)
  moreover have "x + y - M < x" "x + y - M < M" using False assms by linarith+
  moreover have "(h + 1) * M + (x + y - M) = h * M + (x + y)" using False by simp
  ultimately show ?thesis using two_halves_mod [of "x + y - M" M "h + 1"] by simp
qed

lemma two_halves_add:
  fixes hi lo len M :: nat
  assumes "hi < M" "lo < M" "len < M"
  shows "(if (lo + len) mod M < len then (hi + 1) mod M else hi) * M + (lo + len) mod M =
    (hi * M + lo + len) mod (M * M)"
  using two_halves_carry [OF assms(3,2), of hi]
  unfolding mod_less [OF assms(1)] add.commute [of len lo] add.assoc .

text \<open>The shift of such a count by three bits.\<close>

lemma two_halves_bits:
  "unat (push_bit 3 hi OR drop_bit 29 lo) * 2 ^ 32 + unat (push_bit 3 lo) =
     8 * (unat hi * 2 ^ 32 + unat lo) mod 2 ^ 64" for hi lo :: u32
proof -
  have "push_bit 3 hi OR drop_bit 29 lo = push_bit 3 hi + drop_bit 29 lo"
    by (rule disjunctive_add_eq_or [symmetric]) (auto simp: bit_eq_iff bit_simps)
  then have hi: "unat (push_bit 3 hi OR drop_bit 29 lo) = (8 * unat hi + unat lo div 2 ^ 29) mod 2 ^ 32"
    by (simp add: unat_word_ariths push_bit_eq_mult unat_drop_bit_eq drop_bit_eq_div mod_simps
        mult.commute)
  have lo: "unat (push_bit 3 lo) = 8 * unat lo mod 2 ^ 32"
    by (simp add: unat_word_ariths push_bit_eq_mult mult.commute)
  have "8 * unat lo = unat lo div 2 ^ 29 * 2 ^ 32 + 8 * unat lo mod 2 ^ 32"
    using div_mult_mod_eq [of "8 * unat lo" "8 * 2 ^ 29"] by simp
  then have "(8 * unat hi + unat lo div 2 ^ 29) * 2 ^ 32 + 8 * unat lo mod 2 ^ 32 =
      8 * (unat hi * 2 ^ 32 + unat lo)"
    by (simp add: algebra_simps)
  then have "(8 * unat hi + unat lo div 2 ^ 29) mod 2 ^ 32 * 2 ^ 32 + 8 * unat lo mod 2 ^ 32 =
      8 * (unat hi * 2 ^ 32 + unat lo) mod (2 ^ 32 * 2 ^ 32)"
    using two_halves_mod [of "8 * unat lo mod 2 ^ 32" "2 ^ 32" "8 * unat hi + unat lo div 2 ^ 29"]
    by (simp only: mod_less_divisor zero_less_power zero_less_numeral)
  then show ?thesis by (simp only: hi lo) simp
qed

subsection \<open>The contract of one absorbed byte\<close>

locale block_stream =
  fixes B :: nat
    and compress :: "'s \<Rightarrow> bytes \<Rightarrow> 's"
    and step :: "u8 \<Rightarrow> 'c \<Rightarrow> 'c"
    and inv :: "'c \<Rightarrow> bool"
    and chain :: "'c \<Rightarrow> 's"
    and pend :: "'c \<Rightarrow> bytes"
  assumes block_pos: "0 < B"
    and step_inv: "inv c \<Longrightarrow> inv (step b c)"
    and pend_short: "inv c \<Longrightarrow> length (pend c) < B"
    and step_collects: "inv c \<Longrightarrow> length (pend c) + 1 < B \<Longrightarrow>
      chain (step b c) = chain c \<and> pend (step b c) = pend c @ [b]"
    and step_compresses: "inv c \<Longrightarrow> length (pend c) + 1 = B \<Longrightarrow>
      chain (step b c) = compress (chain c) (pend c @ [b]) \<and> pend (step b c) = []"
begin

lemma absorb_byte:
  assumes "inv c"
  shows "chain (step b c) = foldl compress (chain c) (full_blocks B (pend c @ [b])) \<and>
    pend (step b c) = block_rest B (pend c @ [b])"
proof (cases "length (pend c) + 1 < B")
  case True
  then show ?thesis using step_collects [OF assms True, of b] by simp
next
  case False
  then have "length (pend c) + 1 = B" using pend_short [OF assms] by simp
  then show ?thesis using step_compresses [OF assms, of b] block_pos by simp
qed

lemma absorb:
  assumes "inv c"
  shows "inv (fold step xs c) \<and>
    chain (fold step xs c) = foldl compress (chain c) (full_blocks B (pend c @ xs)) \<and>
    pend (fold step xs c) = block_rest B (pend c @ xs)"
  using assms
proof (induction xs arbitrary: c)
  case Nil
  then show ?case using pend_short by simp
next
  case (Cons b xs)
  note IH = Cons.IH [OF step_inv [OF Cons.prems, of b]]
  have "full_blocks B (pend c @ b # xs) =
      full_blocks B (pend c @ [b]) @ full_blocks B (block_rest B (pend c @ [b]) @ xs)"
    using full_blocks_append [OF block_pos, of "pend c @ [b]" xs] by simp
  moreover have "block_rest B (pend c @ b # xs) = block_rest B (block_rest B (pend c @ [b]) @ xs)"
    using block_rest_append [of B "pend c @ [b]" xs] by simp
  ultimately show ?case using IH absorb_byte [OF Cons.prems, of b] by simp
qed

text \<open>Absorbing a message in any number of pieces is absorbing it at once.\<close>

lemma absorb_chunks:
  "inv c \<Longrightarrow> fold (fold step) chunks c = fold step (concat chunks) c"
  by (induction chunks arbitrary: c) (simp_all add: absorb)

end

end
