(* ===== verification/Sha512.thy ===== *)
theory Sha512
  imports BlockStream
begin

section \<open>SHA-512 (\<^verbatim>\<open>src/common/sha512.c\<close>)\<close>

text \<open>
  SHA-512 on pairs of 32-bit halves: the compilers the agent is built with have no 64-bit type, so
  additions carry by hand and rotations are split across the halves. \<open>val64\<close> reads a pair as the
  64-bit word it stands for; each operation on pairs is shown to be the operation on 64-bit words,
  and from there the hash is FIPS 180-4 as in \<open>Sha256\<close>, over the same \<open>block_stream\<close>.
\<close>

subsection \<open>Constants\<close>

definition v9x_sha512_k :: "u32 list" where
  "v9x_sha512_k = [
     0x428A2F98, 0xD728AE22, 0x71374491, 0x23EF65CD, 0xB5C0FBCF, 0xEC4D3B2F,
     0xE9B5DBA5, 0x8189DBBC, 0x3956C25B, 0xF348B538, 0x59F111F1, 0xB605D019,
     0x923F82A4, 0xAF194F9B, 0xAB1C5ED5, 0xDA6D8118, 0xD807AA98, 0xA3030242,
     0x12835B01, 0x45706FBE, 0x243185BE, 0x4EE4B28C, 0x550C7DC3, 0xD5FFB4E2,
     0x72BE5D74, 0xF27B896F, 0x80DEB1FE, 0x3B1696B1, 0x9BDC06A7, 0x25C71235,
     0xC19BF174, 0xCF692694, 0xE49B69C1, 0x9EF14AD2, 0xEFBE4786, 0x384F25E3,
     0x0FC19DC6, 0x8B8CD5B5, 0x240CA1CC, 0x77AC9C65, 0x2DE92C6F, 0x592B0275,
     0x4A7484AA, 0x6EA6E483, 0x5CB0A9DC, 0xBD41FBD4, 0x76F988DA, 0x831153B5,
     0x983E5152, 0xEE66DFAB, 0xA831C66D, 0x2DB43210, 0xB00327C8, 0x98FB213F,
     0xBF597FC7, 0xBEEF0EE4, 0xC6E00BF3, 0x3DA88FC2, 0xD5A79147, 0x930AA725,
     0x06CA6351, 0xE003826F, 0x14292967, 0x0A0E6E70, 0x27B70A85, 0x46D22FFC,
     0x2E1B2138, 0x5C26C926, 0x4D2C6DFC, 0x5AC42AED, 0x53380D13, 0x9D95B3DF,
     0x650A7354, 0x8BAF63DE, 0x766A0ABB, 0x3C77B2A8, 0x81C2C92E, 0x47EDAEE6,
     0x92722C85, 0x1482353B, 0xA2BFE8A1, 0x4CF10364, 0xA81A664B, 0xBC423001,
     0xC24B8B70, 0xD0F89791, 0xC76C51A3, 0x0654BE30, 0xD192E819, 0xD6EF5218,
     0xD6990624, 0x5565A910, 0xF40E3585, 0x5771202A, 0x106AA070, 0x32BBD1B8,
     0x19A4C116, 0xB8D2D0C8, 0x1E376C08, 0x5141AB53, 0x2748774C, 0xDF8EEB99,
     0x34B0BCB5, 0xE19B48A8, 0x391C0CB3, 0xC5C95A63, 0x4ED8AA4A, 0xE3418ACB,
     0x5B9CCA4F, 0x7763E373, 0x682E6FF3, 0xD6B2B8A3, 0x748F82EE, 0x5DEFB2FC,
     0x78A5636F, 0x43172F60, 0x84C87814, 0xA1F0AB72, 0x8CC70208, 0x1A6439EC,
     0x90BEFFFA, 0x23631E28, 0xA4506CEB, 0xDE82BDE9, 0xBEF9A3F7, 0xB2C67915,
     0xC67178F2, 0xE372532B, 0xCA273ECE, 0xEA26619C, 0xD186B8C7, 0x21C0C207,
     0xEADA7DD6, 0xCDE0EB1E, 0xF57D4F7F, 0xEE6ED178, 0x06F067AA, 0x72176FBA,
     0x0A637DC5, 0xA2C898A6, 0x113F9804, 0xBEF90DAE, 0x1B710B35, 0x131C471B,
     0x28DB77F5, 0x23047D84, 0x32CAAB7B, 0x40C72493, 0x3C9EBE0A, 0x15C9BEBC,
     0x431D67C4, 0x9C100D4C, 0x4CC5D4BE, 0xCB3E42B6, 0x597F299C, 0xFC657E2A,
     0x5FCB6FAB, 0x3AD6FAEC, 0x6C44198C, 0x4A475817]"

definition v9x_sha512_h0 :: "u32 list" where
  "v9x_sha512_h0 = [
     0x6A09E667, 0xF3BCC908, 0xBB67AE85, 0x84CAA73B, 0x3C6EF372, 0xFE94F82B,
     0xA54FF53A, 0x5F1D36F1, 0x510E527F, 0xADE682D1, 0x9B05688C, 0x2B3E6C1F,
     0x1F83D9AB, 0xFB41BD6B, 0x5BE0CD19, 0x137E2179]"

definition v9x_sha512_hex_digits :: bytes where
  "v9x_sha512_hex_digits = asc ''0123456789abcdef''"

definition V9X_SHA512_BLOCK_BYTES :: nat where
  "V9X_SHA512_BLOCK_BYTES = 128"

subsection \<open>Words as pairs\<close>

record sha512_word =
  w512_hi :: u32
  w512_lo :: u32

record sha512_ctx =
  s512_state :: "u32 list"
  s512_count_lo :: u32
  s512_count_hi :: u32
  s512_buffered :: nat
  s512_buffer :: bytes

definition v9x_sha512_add :: "sha512_word \<Rightarrow> sha512_word \<Rightarrow> sha512_word" where
  "v9x_sha512_add x y =
     (let lo = (w512_lo x + w512_lo y) AND 0xFFFFFFFF;
          hi = (w512_hi x + w512_hi y) AND 0xFFFFFFFF
      in \<lparr>w512_hi = (if lo < w512_lo x then (hi + 1) AND 0xFFFFFFFF else hi), w512_lo = lo\<rparr>)"

definition v9x_sha512_rotr :: "sha512_word \<Rightarrow> nat \<Rightarrow> sha512_word" where
  "v9x_sha512_rotr x bits =
     (let (x, bits) = (if bits > 32 then (\<lparr>w512_hi = w512_lo x, w512_lo = w512_hi x\<rparr>, bits - 32)
                       else (x, bits))
      in \<lparr>w512_hi = (drop_bit bits (w512_hi x) OR push_bit (32 - bits) (w512_lo x)) AND 0xFFFFFFFF,
          w512_lo = (drop_bit bits (w512_lo x) OR push_bit (32 - bits) (w512_hi x)) AND 0xFFFFFFFF\<rparr>)"

definition v9x_sha512_shr :: "sha512_word \<Rightarrow> nat \<Rightarrow> sha512_word" where
  "v9x_sha512_shr x bits =
     \<lparr>w512_hi = drop_bit bits (w512_hi x),
      w512_lo = (drop_bit bits (w512_lo x) OR push_bit (32 - bits) (w512_hi x)) AND 0xFFFFFFFF\<rparr>"

definition v9x_sha512_xor3 :: "sha512_word \<Rightarrow> sha512_word \<Rightarrow> sha512_word \<Rightarrow> sha512_word" where
  "v9x_sha512_xor3 x y z =
     \<lparr>w512_hi = w512_hi x XOR w512_hi y XOR w512_hi z, w512_lo = w512_lo x XOR w512_lo y XOR w512_lo z\<rparr>"

definition v9x_sha512_ch :: "sha512_word \<Rightarrow> sha512_word \<Rightarrow> sha512_word \<Rightarrow> sha512_word" where
  "v9x_sha512_ch x y z =
     \<lparr>w512_hi = (w512_hi x AND w512_hi y) XOR (NOT (w512_hi x) AND w512_hi z),
      w512_lo = (w512_lo x AND w512_lo y) XOR (NOT (w512_lo x) AND w512_lo z)\<rparr>"

definition v9x_sha512_maj :: "sha512_word \<Rightarrow> sha512_word \<Rightarrow> sha512_word \<Rightarrow> sha512_word" where
  "v9x_sha512_maj x y z =
     \<lparr>w512_hi = (w512_hi x AND w512_hi y) XOR (w512_hi x AND w512_hi z) XOR (w512_hi y AND w512_hi z),
      w512_lo = (w512_lo x AND w512_lo y) XOR (w512_lo x AND w512_lo z) XOR (w512_lo y AND w512_lo z)\<rparr>"

definition v9x_sha512_big_sigma0 :: "sha512_word \<Rightarrow> sha512_word" where
  "v9x_sha512_big_sigma0 x =
     v9x_sha512_xor3 (v9x_sha512_rotr x 28) (v9x_sha512_rotr x 34) (v9x_sha512_rotr x 39)"

definition v9x_sha512_big_sigma1 :: "sha512_word \<Rightarrow> sha512_word" where
  "v9x_sha512_big_sigma1 x =
     v9x_sha512_xor3 (v9x_sha512_rotr x 14) (v9x_sha512_rotr x 18) (v9x_sha512_rotr x 41)"

definition v9x_sha512_small_sigma0 :: "sha512_word \<Rightarrow> sha512_word" where
  "v9x_sha512_small_sigma0 x =
     v9x_sha512_xor3 (v9x_sha512_rotr x 1) (v9x_sha512_rotr x 8) (v9x_sha512_shr x 7)"

definition v9x_sha512_small_sigma1 :: "sha512_word \<Rightarrow> sha512_word" where
  "v9x_sha512_small_sigma1 x =
     v9x_sha512_xor3 (v9x_sha512_rotr x 19) (v9x_sha512_rotr x 61) (v9x_sha512_shr x 6)"

text \<open>The pointer argument is the array and the offset.\<close>

definition v9x_sha512_load32 :: "bytes \<Rightarrow> nat \<Rightarrow> u32" where
  "v9x_sha512_load32 data off =
     push_bit 24 (ucast (data ! off)) OR push_bit 16 (ucast (data ! (off + 1))) OR
     push_bit 8 (ucast (data ! (off + 2))) OR ucast (data ! (off + 3))"

subsection \<open>The block function\<close>

definition sha512_load :: "bytes \<Rightarrow> nat \<Rightarrow> sha512_word" where
  "sha512_load block i =
     \<lparr>w512_hi = v9x_sha512_load32 block (8 * i), w512_lo = v9x_sha512_load32 block (8 * i + 4)\<rparr>"

definition sha512_extend :: "sha512_word list \<Rightarrow> nat \<Rightarrow> sha512_word list" where
  "sha512_extend w i = w @ [v9x_sha512_add
     (v9x_sha512_add (v9x_sha512_small_sigma1 (w ! (i - 2))) (w ! (i - 7)))
     (v9x_sha512_add (v9x_sha512_small_sigma0 (w ! (i - 15))) (w ! (i - 16)))]"

definition sha512_schedule :: "bytes \<Rightarrow> sha512_word list" where
  "sha512_schedule block = foldl sha512_extend (map (sha512_load block) [0..<16]) [16..<80]"

type_synonym 'w sha512_vars = "'w \<times> 'w \<times> 'w \<times> 'w \<times> 'w \<times> 'w \<times> 'w \<times> 'w"

text \<open>The body of the round loop; \<open>v[0..7]\<close> is the tuple.\<close>

fun sha512_round ::
  "sha512_word list \<Rightarrow> sha512_word sha512_vars \<Rightarrow> nat \<Rightarrow> sha512_word sha512_vars" where
  "sha512_round w (v0, v1, v2, v3, v4, v5, v6, v7) i =
     (let k = \<lparr>w512_hi = v9x_sha512_k ! (2 * i), w512_lo = v9x_sha512_k ! (2 * i + 1)\<rparr>;
          t1 = v9x_sha512_add
                 (v9x_sha512_add v7 (v9x_sha512_big_sigma1 v4))
                 (v9x_sha512_add (v9x_sha512_ch v4 v5 v6) (v9x_sha512_add k (w ! i)));
          t2 = v9x_sha512_add (v9x_sha512_big_sigma0 v0) (v9x_sha512_maj v0 v1 v2)
      in (v9x_sha512_add t1 t2, v0, v1, v2, v9x_sha512_add v3 t1, v4, v5, v6))"

definition sha512_state_word :: "u32 list \<Rightarrow> nat \<Rightarrow> sha512_word" where
  "sha512_state_word state j = \<lparr>w512_hi = state ! (2 * j), w512_lo = state ! (2 * j + 1)\<rparr>"

definition v9x_sha512_block :: "u32 list \<Rightarrow> bytes \<Rightarrow> u32 list" where
  "v9x_sha512_block state block =
     (let w = sha512_schedule block;
          s = sha512_state_word state in
      case foldl (sha512_round w) (s 0, s 1, s 2, s 3, s 4, s 5, s 6, s 7) [0..<80] of
        (v0, v1, v2, v3, v4, v5, v6, v7) \<Rightarrow>
          concat (map2 (\<lambda>j v. let k = v9x_sha512_add (s j) v in [w512_hi k, w512_lo k])
            [0..<8] [v0, v1, v2, v3, v4, v5, v6, v7]))"

subsection \<open>Streaming\<close>

definition v9x_sha512_init :: "sha512_ctx \<Rightarrow> sha512_ctx" where
  "v9x_sha512_init ctx = ctx\<lparr>s512_state := map (\<lambda>i. v9x_sha512_h0 ! i) [0..<16],
     s512_count_lo := 0, s512_count_hi := 0, s512_buffered := 0\<rparr>"

definition sha512_put :: "u8 \<Rightarrow> sha512_ctx \<Rightarrow> sha512_ctx" where
  "sha512_put b ctx =
     (let ctx = ctx\<lparr>s512_buffer := (s512_buffer ctx)[s512_buffered ctx := b],
                    s512_buffered := s512_buffered ctx + 1\<rparr>
      in if s512_buffered ctx = V9X_SHA512_BLOCK_BYTES
         then ctx\<lparr>s512_state := v9x_sha512_block (s512_state ctx) (s512_buffer ctx),
                  s512_buffered := 0\<rparr>
         else ctx)"

definition v9x_sha512_update :: "bytes \<Rightarrow> sha512_ctx \<Rightarrow> sha512_ctx" where
  "v9x_sha512_update data ctx =
     (let len = of_nat (length data) :: u32;
          ctx = ctx\<lparr>s512_count_lo := (s512_count_lo ctx + len) AND 0xFFFFFFFF\<rparr>;
          ctx = (if s512_count_lo ctx < len
                 then ctx\<lparr>s512_count_hi := (s512_count_hi ctx + 1) AND 0xFFFFFFFF\<rparr> else ctx)
      in fold sha512_put data ctx)"

function sha512_zero_to :: "nat \<Rightarrow> sha512_ctx \<Rightarrow> sha512_ctx" where
  "sha512_zero_to n ctx =
     (if s512_buffered ctx < n
      then sha512_zero_to n (ctx\<lparr>s512_buffer := (s512_buffer ctx)[s512_buffered ctx := 0],
                                 s512_buffered := s512_buffered ctx + 1\<rparr>)
      else ctx)"
  by pat_completeness auto
termination
  by (relation "measure (\<lambda>(n, ctx). n - s512_buffered ctx)") auto

declare sha512_zero_to.simps [simp del]

definition sha512_put_count :: "u32 \<Rightarrow> u32 \<Rightarrow> u32 \<Rightarrow> bytes \<Rightarrow> bytes" where
  "sha512_put_count bits_top bits_hi bits_lo buffer =
     foldl (\<lambda>buf i. buf[116 + i := ucast (drop_bit (24 - 8 * i) bits_top AND 0xFF),
                        120 + i := ucast (drop_bit (24 - 8 * i) bits_hi AND 0xFF),
                        124 + i := ucast (drop_bit (24 - 8 * i) bits_lo AND 0xFF)])
       buffer [0..<4]"

definition v9x_sha512_final :: "sha512_ctx \<Rightarrow> bytes \<times> sha512_ctx" where
  "v9x_sha512_final ctx =
     (let bits_top = drop_bit 29 (s512_count_hi ctx);
          bits_hi = (push_bit 3 (s512_count_hi ctx) OR drop_bit 29 (s512_count_lo ctx)) AND 0xFFFFFFFF;
          bits_lo = push_bit 3 (s512_count_lo ctx) AND 0xFFFFFFFF;
          ctx = ctx\<lparr>s512_buffer := (s512_buffer ctx)[s512_buffered ctx := 0x80],
                    s512_buffered := s512_buffered ctx + 1\<rparr>;
          ctx = (if s512_buffered ctx > 112
                 then (let ctx = sha512_zero_to V9X_SHA512_BLOCK_BYTES ctx in
                       ctx\<lparr>s512_state := v9x_sha512_block (s512_state ctx) (s512_buffer ctx),
                           s512_buffered := 0\<rparr>)
                 else ctx);
          ctx = sha512_zero_to 116 ctx;
          ctx = ctx\<lparr>s512_buffer := sha512_put_count bits_top bits_hi bits_lo (s512_buffer ctx)\<rparr>;
          ctx = ctx\<lparr>s512_state := v9x_sha512_block (s512_state ctx) (s512_buffer ctx),
                    s512_buffered := 0\<rparr>
      in (map (\<lambda>i. ucast (drop_bit (24 - 8 * (i mod 4)) (s512_state ctx ! (i div 4)) AND 0xFF))
            [0..<64], ctx))"

definition v9x_sha512_hex :: "bytes \<Rightarrow> bytes" where
  "v9x_sha512_hex digest =
     concat (map (\<lambda>i. [v9x_sha512_hex_digits ! unat (drop_bit 4 (digest ! i) AND 0x0F),
                       v9x_sha512_hex_digits ! unat (digest ! i AND 0x0F)]) [0..<64])"

definition sha512_of :: "sha512_ctx \<Rightarrow> bytes list \<Rightarrow> bytes" where
  "sha512_of ctx chunks = fst (v9x_sha512_final (fold v9x_sha512_update chunks (v9x_sha512_init ctx)))"

subsection \<open>FIPS 180-4\<close>

type_synonym u64 = "64 word"

definition val64 :: "sha512_word \<Rightarrow> u64" where
  "val64 x = push_bit 32 (ucast (w512_hi x)) OR ucast (w512_lo x)"

definition fips512_K :: "nat \<Rightarrow> u64" where
  "fips512_K t = val64 \<lparr>w512_hi = v9x_sha512_k ! (2 * t), w512_lo = v9x_sha512_k ! (2 * t + 1)\<rparr>"

function fips512_W :: "(nat \<Rightarrow> u64) \<Rightarrow> nat \<Rightarrow> u64" where
  "fips512_W M t =
     (if t < 16 then M t
      else (word_rotr 19 (fips512_W M (t - 2)) XOR word_rotr 61 (fips512_W M (t - 2)) XOR
              drop_bit 6 (fips512_W M (t - 2))) + fips512_W M (t - 7) +
           (word_rotr 1 (fips512_W M (t - 15)) XOR word_rotr 8 (fips512_W M (t - 15)) XOR
              drop_bit 7 (fips512_W M (t - 15))) + fips512_W M (t - 16))"
  by pat_completeness auto
termination
  by (relation "measure snd") auto

declare fips512_W.simps [simp del]

fun fips512_round :: "(nat \<Rightarrow> u64) \<Rightarrow> nat \<Rightarrow> u64 sha512_vars \<Rightarrow> u64 sha512_vars" where
  "fips512_round W t (a, b, c, d, e, f, g, h) =
     (let T1 = h + (word_rotr 14 e XOR word_rotr 18 e XOR word_rotr 41 e) +
               ((e AND f) XOR (NOT e AND g)) + fips512_K t + W t;
          T2 = (word_rotr 28 a XOR word_rotr 34 a XOR word_rotr 39 a) +
               ((a AND b) XOR (a AND c) XOR (b AND c))
      in (T1 + T2, a, b, c, d + T1, e, f, g))"

primrec fips512_rounds :: "(nat \<Rightarrow> u64) \<Rightarrow> nat \<Rightarrow> u64 sha512_vars \<Rightarrow> u64 sha512_vars" where
  "fips512_rounds W 0 v = v"
| "fips512_rounds W (Suc t) v = fips512_round W t (fips512_rounds W t v)"

definition be_word64 :: "bytes \<Rightarrow> nat \<Rightarrow> u64" where
  "be_word64 block t = of_nat (\<Sum>i<8. unat (block ! (8 * t + i)) * 256 ^ (7 - i))"

definition fips512_compress :: "u64 list \<Rightarrow> bytes \<Rightarrow> u64 list" where
  "fips512_compress H block =
     (case fips512_rounds (fips512_W (be_word64 block)) 80
             (H ! 0, H ! 1, H ! 2, H ! 3, H ! 4, H ! 5, H ! 6, H ! 7) of
        (a, b, c, d, e, f, g, h) \<Rightarrow> map2 (+) (take 8 H) [a, b, c, d, e, f, g, h])"

definition fips512_H0 :: "u64 list" where
  "fips512_H0 = [0x6A09E667F3BCC908, 0xBB67AE8584CAA73B, 0x3C6EF372FE94F82B, 0xA54FF53A5F1D36F1,
     0x510E527FADE682D1, 0x9B05688C2B3E6C1F, 0x1F83D9ABFB41BD6B, 0x5BE0CD19137E2179]"

definition fips512 :: "bytes \<Rightarrow> bytes" where
  "fips512 m = concat (map (\<lambda>h. be_bytes 8 (unat h))
     (foldl fips512_compress fips512_H0 (full_blocks 128 (m @ fips_padding 128 16 (length m)))))"

subsection \<open>Pairs are 64-bit words\<close>

lemma bit_val64:
  "bit (val64 x) n \<longleftrightarrow> (if n < 32 then bit (w512_lo x) n else bit (w512_hi x) (n - 32))"
  by (auto simp: val64_def bit_simps dest: bit_imp_le_length)

lemma val64_eqI:
  assumes "\<And>n. n < 32 \<Longrightarrow> bit (w512_lo x) n = bit w n"
    and "\<And>n. n < 32 \<Longrightarrow> bit (w512_hi x) n = bit w (n + 32)"
  shows "val64 x = w"
proof (rule bit_word_eqI)
  fix n assume "n < LENGTH(64)"
  then show "bit (val64 x) n = bit w n"
    using assms(1) [of n] assms(2) [of "n - 32"] by (simp add: bit_val64)
qed

lemma unat_val64: "unat (val64 x) = unat (w512_hi x) * 2 ^ 32 + unat (w512_lo x)"
proof -
  have "val64 x = push_bit 32 (ucast (w512_hi x)) + ucast (w512_lo x)"
    unfolding val64_def
    by (rule disjunctive_add_eq_or [symmetric]) (auto simp: bit_eq_iff bit_simps)
  also have "\<dots> = of_nat (unat (w512_hi x) * 2 ^ 32 + unat (w512_lo x))"
    by (simp add: push_bit_eq_mult unsigned_ucast_eq)
  finally have eq: "val64 x = of_nat (unat (w512_hi x) * 2 ^ 32 + unat (w512_lo x))" .
  have "unat (w512_hi x) * 2 ^ 32 + unat (w512_lo x) < 2 ^ 64"
    using u32_less [of "w512_hi x"] u32_less [of "w512_lo x"] by (simp del: u32_less)
  then show ?thesis unfolding eq unat_of_nat by simp
qed

lemma val64_add: "val64 (v9x_sha512_add x y) = val64 x + val64 y"
proof -
  let ?M = "2 ^ 32 :: nat"
  let ?h = "unat (w512_hi x) + unat (w512_hi y)" and ?l = "unat (w512_lo x) + unat (w512_lo y)"
  have less: "unat (w512_lo x) < ?M" "unat (w512_lo y) < ?M" by simp_all
  have "unat (val64 (v9x_sha512_add x y)) =
      (if ?l mod ?M < unat (w512_lo x) then (?h + 1) mod ?M else ?h mod ?M) * ?M + ?l mod ?M"
    by (simp add: unat_val64 v9x_sha512_add_def Let_def word_less_nat_alt unat_word_ariths mod_simps)
  also have "\<dots> = (?h * ?M + ?l) mod (?M * ?M)"
    by (rule two_halves_carry [OF less])
  also have "\<dots> = unat (val64 x + val64 y)"
  proof -
    have "unat (val64 x + val64 y) = (unat (val64 x) + unat (val64 y)) mod (?M * ?M)"
      by (simp add: unat_word_ariths)
    also have "unat (val64 x) + unat (val64 y) = ?h * ?M + ?l"
      by (simp add: unat_val64 algebra_simps)
    finally show ?thesis by (rule sym)
  qed
  finally show ?thesis by (simp add: word_unat_eq_iff)
qed

lemma val64_rotr_small:
  assumes "0 < n" "n < 32"
  shows "val64 (v9x_sha512_rotr x n) = word_rotr n (val64 x)"
proof (rule val64_eqI)
  fix i :: nat assume i: "i < 32"
  have low: "(i + n) mod 64 = i + n" using i assms by simp
  have high: "(i + 32 + n) mod 64 = (if i + n < 32 then i + n + 32 else i + n - 32)"
    using i assms by (simp add: mod_if)
  have z: "\<not> bit y (i + n)" if "32 \<le> i + n" for y :: u32 using that by (rule bit_u32_high)
  have p: "32 - n \<le> i \<longleftrightarrow> 32 \<le> i + n" and q: "32 - n \<le> i \<Longrightarrow> i - (32 - n) = i + n - 32" using assms by linarith+
  show "bit (w512_lo (v9x_sha512_rotr x n)) i = bit (word_rotr n (val64 x)) i"
    using i assms z low p q
    by (auto simp: v9x_sha512_rotr_def bit_word_rotr_iff bit_or_iff bit_drop_bit_eq bit_push_bit_iff
        bit_val64 add.commute)
  show "bit (w512_hi (v9x_sha512_rotr x n)) i = bit (word_rotr n (val64 x)) (i + 32)"
    using i assms z high p q
    by (auto simp: v9x_sha512_rotr_def bit_word_rotr_iff bit_or_iff bit_drop_bit_eq bit_push_bit_iff
        bit_val64 add.commute)
qed


lemma val64_swap: "val64 \<lparr>w512_hi = w512_lo x, w512_lo = w512_hi x\<rparr> = word_rotr 32 (val64 x)"
  by (rule val64_eqI) (simp_all add: bit_word_rotr_iff bit_val64)

lemma word_rotr_rotr64: "word_rotr m (word_rotr n w) = word_rotr (m + n) w" for w :: u64
  by (rule bit_word_eqI) (simp add: bit_word_rotr_iff mod_add_left_eq add.assoc)

lemma val64_rotr:
  assumes "0 < n" "n < 64" "n \<noteq> 32"
  shows "val64 (v9x_sha512_rotr x n) = word_rotr n (val64 x)"
proof (cases "n < 32")
  case True
  then show ?thesis using assms by (simp add: val64_rotr_small)
next
  case False
  define y where "y = \<lparr>w512_hi = w512_lo x, w512_lo = w512_hi x\<rparr>"
  have "v9x_sha512_rotr x n = v9x_sha512_rotr y (n - 32)"
    using assms False by (auto simp: v9x_sha512_rotr_def y_def)
  also have "val64 \<dots> = word_rotr (n - 32) (word_rotr 32 (val64 x))"
    using assms False by (simp add: val64_rotr_small y_def val64_swap)
  finally show ?thesis using False by (simp add: word_rotr_rotr64)
qed

lemma val64_shr:
  assumes "0 < n" "n < 32"
  shows "val64 (v9x_sha512_shr x n) = drop_bit n (val64 x)"
proof (rule val64_eqI)
  fix i :: nat assume i: "i < 32"
  have z: "\<not> bit y (i + n)" if "32 \<le> i + n" for y :: u32 using that by (rule bit_u32_high)
  have p: "32 - n \<le> i \<longleftrightarrow> 32 \<le> i + n" and q: "32 - n \<le> i \<Longrightarrow> i - (32 - n) = i + n - 32" using assms by linarith+
  show "bit (w512_lo (v9x_sha512_shr x n)) i = bit (drop_bit n (val64 x)) i"
    using i assms z p q
    by (auto simp: v9x_sha512_shr_def bit_or_iff bit_drop_bit_eq bit_push_bit_iff bit_val64 add.commute)
  show "bit (w512_hi (v9x_sha512_shr x n)) i = bit (drop_bit n (val64 x)) (i + 32)"
    by (simp add: v9x_sha512_shr_def bit_drop_bit_eq bit_val64 add.commute)
qed

lemma val64_xor3: "val64 (v9x_sha512_xor3 x y z) = val64 x XOR val64 y XOR val64 z"
  by (rule val64_eqI) (simp_all add: v9x_sha512_xor3_def bit_xor_iff bit_val64)

lemma val64_ch:
  "val64 (v9x_sha512_ch x y z) = (val64 x AND val64 y) XOR (NOT (val64 x) AND val64 z)"
  by (rule val64_eqI)
    (simp_all add: v9x_sha512_ch_def bit_xor_iff bit_and_iff bit_not_iff bit_val64)

lemma val64_maj:
  "val64 (v9x_sha512_maj x y z) =
     (val64 x AND val64 y) XOR (val64 x AND val64 z) XOR (val64 y AND val64 z)"
  by (rule val64_eqI) (simp_all add: v9x_sha512_maj_def bit_xor_iff bit_and_iff bit_val64)

lemmas val64_simps = val64_add val64_rotr val64_shr val64_xor3 val64_ch val64_maj
  v9x_sha512_big_sigma0_def v9x_sha512_big_sigma1_def
  v9x_sha512_small_sigma0_def v9x_sha512_small_sigma1_def

subsection \<open>One block\<close>

lemma sha512_load_eq: "val64 (sha512_load block i) = be_word64 block i"
proof -
  have l: "v9x_sha512_load32 block k =
      u32_of (block ! (k + 3)) (block ! (k + 2)) (block ! (k + 1)) (block ! k)" for k
    by (simp add: v9x_sha512_load32_def u32_of_def ac_simps)
  have sum8: "(\<Sum>j<8. f j) = f 0 + f 1 + f 2 + f 3 + f 4 + f 5 + f 6 + f 7" for f :: "nat \<Rightarrow> nat"
    by (simp add: eval_nat_numeral)
  have "unat (val64 (sha512_load block i)) = (\<Sum>j<8. unat (block ! (8 * i + j)) * 256 ^ (7 - j))"
    by (simp add: unat_val64 sha512_load_def l unat_u32_of sum8 add.commute)
  moreover have "of_nat (unat x) = x" for x :: u64 by simp
  ultimately show ?thesis unfolding be_word64_def by metis
qed

lemma sha512_extend_W:
  assumes "16 \<le> n" "map val64 w = map (fips512_W M) [0..<n]"
  shows "map val64 (sha512_extend w n) = map (fips512_W M) [0..<Suc n]"
proof -
  have len: "length w = n" using arg_cong [OF assms(2), of length] by simp
  have "val64 (w ! k) = fips512_W M k" if "k < n" for k
    using arg_cong [OF assms(2), of "\<lambda>l. l ! k"] that len by simp
  then show ?thesis
    using assms by (simp add: sha512_extend_def fips512_W.simps [of M n] val64_simps ac_simps)
qed

lemma sha512_schedule_eq: "map val64 (sha512_schedule block) = map (fips512_W (be_word64 block)) [0..<80]"
proof -
  have "map val64 (foldl sha512_extend (map (sha512_load block) [0..<16]) [16..<16 + n]) =
      map (fips512_W (be_word64 block)) [0..<16 + n]" for n
  proof (induction n)
    case 0
    then show ?case by (simp add: sha512_load_eq fips512_W.simps)
  next
    case (Suc n)
    have "[16..<16 + Suc n] = [16..<16 + n] @ [16 + n]"
      by (metis add_Suc_right le_add1 upt_Suc_append)
    then show ?case using sha512_extend_W [OF _ Suc] by (simp only: foldl_append foldl.simps) simp
  qed
  from this [of 64] show ?thesis by (simp add: sha512_schedule_def)
qed

definition map_vars :: "('a \<Rightarrow> 'b) \<Rightarrow> 'a sha512_vars \<Rightarrow> 'b sha512_vars" where
  "map_vars h = (\<lambda>(a, b, c, d, e, f, g, k). (h a, h b, h c, h d, h e, h f, h g, h k))"

lemma sha512_round_eq:
  assumes "\<And>t. t < 80 \<Longrightarrow> val64 (w ! t) = W t" "t < 80"
  shows "map_vars val64 (sha512_round w v t) = fips512_round W t (map_vars val64 v)"
  using assms
  by (cases v; cases "snd (snd (snd (snd (snd v))))")
    (simp add: map_vars_def Let_def val64_simps fips512_K_def ac_simps)

lemma sha512_rounds_eq:
  assumes "\<And>t. t < 80 \<Longrightarrow> val64 (w ! t) = W t"
  shows "n \<le> 80 \<Longrightarrow> map_vars val64 (foldl (sha512_round w) v [0..<n]) = fips512_rounds W n (map_vars val64 v)"
  by (induction n) (simp_all add: sha512_round_eq [OF assms])

lemma upt_8: "[0..<8] = [0, 1, 2, 3, 4, 5, 6, 7]"
  by (simp add: upt_rec)

lemma upt_16: "[0..<16] = [0, 1, 2, 3, 4, 5, 6, 7, 8, 9, 10, 11, 12, 13, 14, 15]"
  by (simp add: upt_rec)

text \<open>The state array as eight 64-bit words.\<close>

definition state64 :: "u32 list \<Rightarrow> u64 list" where
  "state64 st = map (\<lambda>j. val64 (sha512_state_word st j)) [0..<8]"

lemma sha512_block_eq: "state64 (v9x_sha512_block st block) = fips512_compress (state64 st) block"
proof -
  have w: "val64 (sha512_schedule block ! t) = fips512_W (be_word64 block) t" if "t < 80" for t
    using arg_cong [OF sha512_schedule_eq, of "\<lambda>l. l ! t"] arg_cong [OF sha512_schedule_eq, of length] that
    by simp
  obtain v0 v1 v2 v3 v4 v5 v6 v7 where v: "foldl (sha512_round (sha512_schedule block))
      (sha512_state_word st 0, sha512_state_word st 1, sha512_state_word st 2, sha512_state_word st 3,
       sha512_state_word st 4, sha512_state_word st 5, sha512_state_word st 6, sha512_state_word st 7)
      [0..<80] = (v0, v1, v2, v3, v4, v5, v6, v7)"
    by (rule prod_cases7) (metis surj_pair)
  have s: "state64 st = [val64 (sha512_state_word st 0), val64 (sha512_state_word st 1),
      val64 (sha512_state_word st 2), val64 (sha512_state_word st 3), val64 (sha512_state_word st 4),
      val64 (sha512_state_word st 5), val64 (sha512_state_word st 6), val64 (sha512_state_word st 7)]"
    by (simp add: state64_def upt_8)
  have r: "fips512_rounds (fips512_W (be_word64 block)) 80
      (val64 (sha512_state_word st 0), val64 (sha512_state_word st 1), val64 (sha512_state_word st 2),
       val64 (sha512_state_word st 3), val64 (sha512_state_word st 4), val64 (sha512_state_word st 5),
       val64 (sha512_state_word st 6), val64 (sha512_state_word st 7)) =
      (val64 v0, val64 v1, val64 v2, val64 v3, val64 v4, val64 v5, val64 v6, val64 v7)"
    using sha512_rounds_eq [OF w order_refl, where v = "(sha512_state_word st 0, sha512_state_word st 1, sha512_state_word st 2, sha512_state_word st 3,
       sha512_state_word st 4, sha512_state_word st 5, sha512_state_word st 6, sha512_state_word st 7)", unfolded v]
    by (simp add: map_vars_def)
  have word_eta: "\<lparr>w512_hi = w512_hi y, w512_lo = w512_lo y\<rparr> = y" for y :: sha512_word by simp
  have "v9x_sha512_block st block = concat (map2 (\<lambda>j v. let k = v9x_sha512_add (sha512_state_word st j) v in [w512_hi k, w512_lo k])
            [0..<8] [v0, v1, v2, v3, v4, v5, v6, v7])"
    using v by (simp only: v9x_sha512_block_def Let_def prod.case)
  then have "state64 (v9x_sha512_block st block) =
      map (\<lambda>(j, v). val64 (v9x_sha512_add (sha512_state_word st j) v)) (zip [0..<8] [v0, v1, v2, v3, v4, v5, v6, v7])"
    by (simp add: state64_def sha512_state_word_def upt_8 Let_def word_eta)
  also have "\<dots> = fips512_compress (state64 st) block"
    by (simp add: fips512_compress_def s r upt_8 val64_add del: One_nat_def)
  finally show ?thesis .
qed

subsection \<open>The byte loop\<close>

definition sha512_inv :: "sha512_ctx \<Rightarrow> bool" where
  "sha512_inv ctx \<longleftrightarrow> length (s512_buffer ctx) = 128 \<and> s512_buffered ctx < 128"

definition sha512_pend :: "sha512_ctx \<Rightarrow> bytes" where
  "sha512_pend ctx = take (s512_buffered ctx) (s512_buffer ctx)"

interpretation s512: block_stream 128 v9x_sha512_block sha512_put sha512_inv s512_state sha512_pend
proof
  fix c b
  assume "sha512_inv c"
  then have len: "length (s512_buffer c) = 128" and k: "s512_buffered c < 128"
    by (simp_all add: sha512_inv_def)
  have grown: "take (Suc (s512_buffered c)) ((s512_buffer c)[s512_buffered c := b]) = sha512_pend c @ [b]"
    using len k by (simp add: sha512_pend_def take_Suc_conv_app_nth)
  show "sha512_inv (sha512_put b c)"
    using len k by (auto simp: sha512_inv_def sha512_put_def Let_def V9X_SHA512_BLOCK_BYTES_def)
  show "length (sha512_pend c) < 128"
    using len k by (simp add: sha512_pend_def)
  show "s512_state (sha512_put b c) = s512_state c \<and> sha512_pend (sha512_put b c) = sha512_pend c @ [b]"
    if "length (sha512_pend c) + 1 < 128"
    using that len k grown
    by (simp add: sha512_put_def Let_def V9X_SHA512_BLOCK_BYTES_def sha512_pend_def)
  show "s512_state (sha512_put b c) = v9x_sha512_block (s512_state c) (sha512_pend c @ [b]) \<and>
      sha512_pend (sha512_put b c) = []"
    if "length (sha512_pend c) + 1 = 128"
  proof -
    have "s512_buffered c = 127" using that len k by (simp add: sha512_pend_def)
    then show ?thesis using grown len
      by (simp add: sha512_put_def Let_def V9X_SHA512_BLOCK_BYTES_def sha512_pend_def)
  qed
qed simp_all

subsection \<open>The byte count\<close>

definition sha512_count :: "sha512_ctx \<Rightarrow> nat" where
  "sha512_count ctx = unat (s512_count_hi ctx) * 2 ^ 32 + unat (s512_count_lo ctx)"

lemma sha512_put_counts [simp]:
  "s512_count_hi (fold sha512_put data ctx) = s512_count_hi ctx"
  "s512_count_lo (fold sha512_put data ctx) = s512_count_lo ctx"
  by (induction data arbitrary: ctx) (simp_all add: sha512_put_def Let_def)


lemma sha512_update_count:
  assumes "length data < 2 ^ 32"
  shows "sha512_count (v9x_sha512_update data ctx) = (sha512_count ctx + length data) mod 2 ^ 64"
proof -
  define len :: u32 where "len = of_nat (length data)"
  have len: "unat len = length data" using assms by (simp add: len_def u32_of_nat)
  let ?lo = "s512_count_lo ctx" and ?hi = "s512_count_hi ctx"
  have "sha512_count (v9x_sha512_update data ctx) =
      (if (unat ?lo + unat len) mod 2 ^ 32 < unat len then (unat ?hi + 1) mod 2 ^ 32 else unat ?hi) *
        2 ^ 32 + (unat ?lo + unat len) mod 2 ^ 32"
    by (simp add: v9x_sha512_update_def Let_def sha512_count_def len_def [symmetric]
        word_less_nat_alt unat_word_ariths)
  also have "\<dots> = (unat ?hi * 2 ^ 32 + unat ?lo + unat len) mod (2 ^ 32 * 2 ^ 32)"
    by (rule two_halves_add) simp_all
  finally show ?thesis by (simp add: len sha512_count_def)
qed

lemma sha512_update_stream:
  "sha512_inv ctx \<Longrightarrow> sha512_inv (v9x_sha512_update data ctx) \<and>
     s512_state (v9x_sha512_update data ctx) =
       foldl v9x_sha512_block (s512_state ctx) (full_blocks 128 (sha512_pend ctx @ data)) \<and>
     sha512_pend (v9x_sha512_update data ctx) = block_rest 128 (sha512_pend ctx @ data)"
proof -
  assume inv: "sha512_inv ctx"
  define c where "c = ctx\<lparr>s512_count_lo := s512_count_lo (v9x_sha512_update data ctx),
    s512_count_hi := s512_count_hi (v9x_sha512_update data ctx)\<rparr>"
  have "v9x_sha512_update data ctx = fold sha512_put data c"
    unfolding c_def by (simp add: v9x_sha512_update_def Let_def)
  moreover have "sha512_inv c" "s512_state c = s512_state ctx" "sha512_pend c = sha512_pend ctx"
    using inv by (simp_all add: c_def sha512_inv_def sha512_pend_def)
  ultimately show ?thesis using s512.absorb [of c data] by simp
qed

lemma sha512_updates:
  assumes "sha512_inv ctx" "\<forall>data \<in> set chunks. length data < 2 ^ 32"
  shows "sha512_inv (fold v9x_sha512_update chunks ctx) \<and>
     s512_state (fold v9x_sha512_update chunks ctx) =
       foldl v9x_sha512_block (s512_state ctx) (full_blocks 128 (sha512_pend ctx @ concat chunks)) \<and>
     sha512_pend (fold v9x_sha512_update chunks ctx) = block_rest 128 (sha512_pend ctx @ concat chunks) \<and>
     sha512_count (fold v9x_sha512_update chunks ctx) =
       (sha512_count ctx + length (concat chunks)) mod 2 ^ 64"
  using assms
proof (induction chunks arbitrary: ctx)
  case Nil
  moreover have "sha512_count ctx < 2 ^ 64"
    using u32_less [of "s512_count_hi ctx"] u32_less [of "s512_count_lo ctx"]
    by (simp add: sha512_count_def del: u32_less)
  ultimately show ?case using s512.pend_short [of ctx] by simp
next
  case (Cons data chunks)
  note step = sha512_update_stream [OF Cons.prems(1), of data]
  have IH: "\<forall>data \<in> set chunks. length data < 2 ^ 32" and "length data < 2 ^ 32"
    using Cons.prems(2) by auto
  note count = sha512_update_count [OF this(2), of ctx]
  show ?case
    using Cons.IH [OF conjunct1 [OF step] IH] step count
      full_blocks_append [of 128 "sha512_pend ctx @ data" "concat chunks"]
      block_rest_append [of 128 "sha512_pend ctx @ data" "concat chunks"]
    by (simp add: mod_add_left_eq add.assoc)
qed


subsection \<open>Padding\<close>

lemma sha512_zero_to_eq:
  assumes "s512_buffered ctx \<le> n" "n \<le> length (s512_buffer ctx)"
  shows "sha512_zero_to n ctx = ctx\<lparr>s512_buffer := take (s512_buffered ctx) (s512_buffer ctx) @
    replicate (n - s512_buffered ctx) 0 @ drop n (s512_buffer ctx), s512_buffered := n\<rparr>"
  using assms
proof (induction n ctx rule: sha512_zero_to.induct)
  case (1 n ctx)
  show ?case
  proof (cases "s512_buffered ctx < n")
    case False
    then show ?thesis using "1.prems" by (simp add: sha512_zero_to.simps [of n ctx])
  next
    case True
    let ?k = "s512_buffered ctx" and ?b = "s512_buffer ctx"
    have "take (Suc ?k) (?b[?k := 0]) = take ?k ?b @ [0]"
      using True "1.prems" by (simp add: take_Suc_conv_app_nth)
    moreover have "drop n (?b[?k := 0]) = drop n ?b" using True by simp
    moreover have "replicate (n - ?k) (0::u8) = 0 # replicate (n - Suc ?k) 0"
      using True by (simp add: Suc_diff_Suc flip: replicate_Suc)
    ultimately show ?thesis
      using "1.IH" [OF True] "1.prems" True by (simp add: sha512_zero_to.simps [of n ctx])
  qed
qed

lemma sha512_put_count_eq:
  assumes "length buffer = 128"
  shows "sha512_put_count tp hi lo buffer =
    take 116 buffer @ be_bytes 12 ((unat tp * 2 ^ 32 + unat hi) * 2 ^ 32 + unat lo)"
proof -
  define p where "p = take 116 buffer"
  have p: "length p = 116" using assms by (simp add: p_def)
  obtain a b c d e f g h i j k l where "drop 116 buffer = [a, b, c, d, e, f, g, h, i, j, k, l]"
    using assms by (auto simp: length_Suc_conv numeral_eq_Suc dest!: arg_cong [of _ _ length] intro: that)
  then have buffer: "buffer = p @ [a, b, c, d, e, f, g, h, i, j, k, l]"
    by (metis p_def append_take_drop_id)
  have "be_bytes (8 + 4) ((unat tp * 256 ^ 4 + unat hi) * 256 ^ 4 + unat lo) =
      be_bytes 8 (unat tp * 256 ^ 4 + unat hi) @ be_bytes 4 (unat lo)"
    by (rule be_bytes_halves) simp
  moreover have "be_bytes (4 + 4) (unat tp * 256 ^ 4 + unat hi) = be_bytes 4 (unat tp) @ be_bytes 4 (unat hi)"
    by (rule be_bytes_halves) simp
  ultimately show ?thesis
    using p by (simp add: buffer sha512_put_count_def upt_4 list_update_append be_bytes_u32)
qed

lemma sha512_bits:
  "replicate 4 0 @ be_bytes 12 ((unat (drop_bit 29 hi) * 2 ^ 32 + unat (push_bit 3 hi OR drop_bit 29 lo)) * 2 ^ 32 +
       unat (push_bit 3 lo)) = be_bytes 16 (8 * (unat hi * 2 ^ 32 + unat lo))" for hi lo :: u32
proof -
  let ?n = "8 * (unat hi * 2 ^ 32 + unat lo)"
  have less: "unat hi < 2 ^ 32" "unat lo < 2 ^ 32" by simp_all
  have unat_drop29: "unat (drop_bit 29 hi) = unat hi div 2 ^ 29"
    by (metis drop_bit_eq_div unat_drop_bit_eq)
  from less have n: "?n < 256 ^ 12" by (simp del: u32_less)
  have "?n div 2 ^ 64 = ?n div (8 * 2 ^ 61)" by simp
  also have "\<dots> = (unat hi * 2 ^ 32 + unat lo) div 2 ^ 61" by (rule div_mult_mult1) simp
  also have "\<dots> = (unat hi * 2 ^ 32 + unat lo) div (2 ^ 32 * 2 ^ 29)" by simp
  also have "\<dots> = (unat hi * 2 ^ 32 + unat lo) div 2 ^ 32 div 2 ^ 29" by (rule div_mult2_eq)
  also have "\<dots> = unat (drop_bit 29 hi)"
    using less(2) by (simp add: unat_drop29 del: u32_less)
  finally have "?n = unat (drop_bit 29 hi) * 2 ^ 64 + ?n mod 2 ^ 64" by (metis div_mult_mod_eq)
  then have "(unat (drop_bit 29 hi) * 2 ^ 32 + unat (push_bit 3 hi OR drop_bit 29 lo)) * 2 ^ 32 +
       unat (push_bit 3 lo) = ?n"
    using two_halves_bits [of hi lo] by simp
  moreover have "be_bytes (4 + 12) (0 * 256 ^ 12 + ?n) = be_bytes 4 0 @ be_bytes 12 ?n"
    by (rule be_bytes_halves [OF n])
  moreover have "be_bytes 4 0 = replicate 4 0" by (simp add: be_bytes_def upt_4 numeral_eq_Suc)
  ultimately show ?thesis by simp
qed

text \<open>What \<open>v9x_sha512_final\<close> compresses: the pending bytes and the padding.\<close>

lemma sha512_final_state:
  assumes "sha512_inv ctx"
  defines "k \<equiv> length (sha512_pend ctx)"
  shows "s512_state (snd (v9x_sha512_final ctx)) = foldl v9x_sha512_block (s512_state ctx)
    (full_blocks 128 (sha512_pend ctx @ 0x80 # replicate (pad_zeros 128 16 k) 0 @
       be_bytes 16 (8 * sha512_count ctx)))"
proof -
  let ?b = "s512_buffer ctx" and ?p = "sha512_pend ctx"
  define cnt where "cnt = be_bytes 12 ((unat (drop_bit 29 (s512_count_hi ctx)) * 2 ^ 32 +
      unat (push_bit 3 (s512_count_hi ctx) OR drop_bit 29 (s512_count_lo ctx))) * 2 ^ 32 +
    unat (push_bit 3 (s512_count_lo ctx)))"
  have len: "length ?b = 128" and k: "k = s512_buffered ctx" "k < 128"
    using assms by (auto simp: sha512_inv_def sha512_pend_def)
  have bits: "be_bytes 16 (8 * sha512_count ctx) = replicate 4 0 @ cnt"
    unfolding cnt_def sha512_bits sha512_count_def by (rule refl)
  have cnt: "length cnt = 12" by (simp add: cnt_def)
  have one: "take (Suc k) (?b[k := 0x80]) = ?p @ [0x80]"
    using len k by (simp add: sha512_pend_def take_Suc_conv_app_nth)
  have lp: "length ?p = k" by (simp add: k_def)
  have app: "(?p @ [0x80]) @ xs = ?p @ 0x80 # xs" for xs by simp
  show ?thesis
  proof (cases "k + 1 > 112")
    case True
    define b1 where "b1 = ?p @ 0x80 # replicate (127 - s512_buffered ctx) 0"
    have b1: "length b1 = 128" using k by (simp add: b1_def lp)
    have "pad_zeros 128 16 k + 4 = (127 - k) + 116" using True k by (simp add: pad_zeros_def)
    then have "replicate (pad_zeros 128 16 k) (0::u8) @ replicate 4 0 = replicate (127 - k) 0 @ replicate 116 0"
      by (simp only: replicate_add [symmetric])
    then have blocks: "?p @ 0x80 # replicate (pad_zeros 128 16 k) 0 @ replicate 4 0 @ cnt =
        b1 @ (replicate 116 0 @ cnt)"
      unfolding b1_def k(1) [symmetric] by (metis append.assoc append_Cons)
    show ?thesis
      using cnt_def [symmetric] True len k one b1 cnt lp full_blocks_one [of 128 b1 "replicate 116 0 @ cnt"]
      unfolding bits blocks
      by (simp add: v9x_sha512_final_def Let_def V9X_SHA512_BLOCK_BYTES_def sha512_zero_to_eq
          sha512_put_count_eq app b1_def [symmetric] del: append_assoc append_Cons)
  next
    case False
    have "pad_zeros 128 16 k = (239 - k) mod 128" using k by (simp add: pad_zeros_def)
    also have "239 - k = 128 + (111 - k)" using False by linarith
    finally have "pad_zeros 128 16 k = 111 - k" by simp
    then have z: "pad_zeros 128 16 k + 4 = 115 - k" "116 - k = Suc (115 - k)" using False by linarith+
    have "replicate (pad_zeros 128 16 k) (0::u8) @ replicate 4 0 = replicate (115 - k) 0"
      using z by (simp only: replicate_add [symmetric])
    then have block: "?p @ 0x80 # replicate (pad_zeros 128 16 k) 0 @ replicate 4 0 @ cnt =
        ?p @ 0x80 # replicate (115 - k) 0 @ cnt"
      by (metis append.assoc)
    show ?thesis
      using cnt_def [symmetric] False len k one lp cnt z unfolding bits block
      by (simp add: v9x_sha512_final_def Let_def V9X_SHA512_BLOCK_BYTES_def sha512_zero_to_eq
          sha512_put_count_eq)
  qed
qed


text \<open>The bytes of the state are those of its 64-bit words.\<close>

lemma length_v9x_sha512_block [simp]: "length (v9x_sha512_block st block) = 16"
  by (simp add: v9x_sha512_block_def Let_def upt_8 split: prod.splits)

lemma sha512_blocks_eq:
  "length st = 16 \<Longrightarrow> state64 (foldl v9x_sha512_block st bs) = foldl fips512_compress (state64 st) bs \<and>
    length (foldl v9x_sha512_block st bs) = 16"
proof (induction bs arbitrary: st)
  case (Cons b bs)
  then show ?case using Cons.IH [of "v9x_sha512_block st b"] by (simp add: sha512_block_eq)
qed simp

lemma be_bytes_val64: "be_bytes 8 (unat (val64 x)) = be_bytes 4 (unat (w512_hi x)) @ be_bytes 4 (unat (w512_lo x))"
  using be_bytes_halves [of "unat (w512_lo x)" 4 4 "unat (w512_hi x)"] by (simp add: unat_val64)

lemma sha512_final_digest:
  assumes "length (s512_state (snd (v9x_sha512_final ctx))) = 16"
  shows "fst (v9x_sha512_final ctx) =
     concat (map (\<lambda>h. be_bytes 8 (unat h)) (state64 (s512_state (snd (v9x_sha512_final ctx)))))"
proof -
  define st where "st = s512_state (snd (v9x_sha512_final ctx))"
  have "fst (v9x_sha512_final ctx) =
      map (\<lambda>i. ucast (drop_bit (24 - 8 * (i mod 4)) (st ! (i div 4)) AND 0xFF)) [0..<64]"
    by (simp add: v9x_sha512_final_def Let_def st_def)
  also have "\<dots> = concat (map (\<lambda>j. be_bytes 4 (unat (st ! j))) [0..<16])"
    using words_to_bytes [of "\<lambda>h i. ucast (drop_bit (24 - 8 * i) h AND 0xFF)" st 16]
    by (simp add: be_bytes_u32)
  also have "\<dots> = concat (map (\<lambda>h. be_bytes 8 (unat h)) (state64 st))"
    by (simp add: state64_def be_bytes_val64 sha512_state_word_def upt_8 upt_16)
  finally show ?thesis by (simp add: st_def)
qed

lemma sha512_stream:
  assumes "length (s512_buffer ctx) = 128" "\<forall>data \<in> set chunks. length data < 2 ^ 32"
    and "length (concat chunks) < 2 ^ 64"
  shows "sha512_of ctx chunks = fips512 (concat chunks)"
proof -
  let ?m = "concat chunks"
  define c0 where "c0 = v9x_sha512_init ctx"
  define c where "c = fold v9x_sha512_update chunks c0"
  have h0: "s512_state c0 = v9x_sha512_h0"
    by (simp add: c0_def v9x_sha512_init_def v9x_sha512_h0_def upt_rec)
  have H0: "state64 v9x_sha512_h0 = fips512_H0"
    by (simp add: state64_def upt_8 sha512_state_word_def v9x_sha512_h0_def fips512_H0_def
        word_unat_eq_iff unat_val64)
  have c0: "sha512_inv c0" "sha512_pend c0 = []" "sha512_count c0 = 0"
    using assms(1) by (simp_all add: c0_def v9x_sha512_init_def sha512_inv_def sha512_pend_def sha512_count_def)
  note upd = sha512_updates [OF c0(1) assms(2), folded c_def]
  have rest: "length (block_rest 128 ?m) = length ?m mod 128" by (rule length_block_rest) simp
  have "sha512_count c = length ?m" using upd c0 assms(3) by simp
  moreover have "pad_zeros 128 16 (length (sha512_pend c)) = pad_zeros 128 16 (length ?m)"
    using upd c0 rest by (simp add: pad_zeros_def)
  ultimately have st: "s512_state (snd (v9x_sha512_final c)) = foldl v9x_sha512_block v9x_sha512_h0
      (full_blocks 128 (?m @ fips_padding 128 16 (length ?m)))"
    using sha512_final_state [of c] upd c0 full_blocks_append [of 128 ?m "fips_padding 128 16 (length ?m)"]
    by (simp add: fips_padding_def h0)
  have "length v9x_sha512_h0 = 16" by (simp add: v9x_sha512_h0_def)
  note eq = sha512_blocks_eq [OF this, of "full_blocks 128 (?m @ fips_padding 128 16 (length ?m))"]
  have "length (s512_state (snd (v9x_sha512_final c))) = 16" unfolding st using eq by (rule conjunct2)
  from sha512_final_digest [OF this] show ?thesis
    using eq by (simp add: sha512_of_def c_def [symmetric] c0_def [symmetric] fips512_def st H0)
qed

text \<open>C21. For every message of less than 2^64 bytes, cut in any way into pieces of less than 4 GB,
  the digest computed on pairs of 32-bit halves is that of FIPS 180-4 for the whole message.\<close>

theorem sha512_correct:
  assumes "length (s512_buffer ctx) = 128" "\<forall>data \<in> set chunks. length data < 2 ^ 32"
    and "length (concat chunks) < 2 ^ 64"
  shows "sha512_of ctx chunks = fips512 (concat chunks)"
  using assms by (rule sha512_stream)

theorem sha512_correct_witness:
  "sha512_of (\<lparr>s512_state = [], s512_count_lo = 7, s512_count_hi = 9, s512_buffered = 63,
      s512_buffer = replicate 128 1\<rparr>) [[0x61], [0x62, 0x63]] = fips512 [0x61, 0x62, 0x63]"
  using sha512_correct [of "\<lparr>s512_state = [], s512_count_lo = 7, s512_count_hi = 9, s512_buffered = 63,
      s512_buffer = replicate 128 1\<rparr>" "[[0x61], [0x62, 0x63]]"] by simp

end
