(* ===== verification/Ed25519.thy ===== *)
theory Ed25519
  imports Ed25519Field Sha512
begin

section \<open>Ed25519 signatures (\<^verbatim>\<open>src/common/ed25519.c\<close>)\<close>

text \<open>
  Points, scalars modulo the group order, signing and verification, over the field of
  \<open>Ed25519Field\<close> and the hash of \<open>Sha512\<close>. Scalars are 32-byte little-endian arrays and are shown to
  compute modulo \<open>L\<close>; the point formulas are shown to be the RFC 8032 formulas modulo \<open>p\<close>; decoding
  is shown to be strict, which is what makes comparing encodings compare points.
\<close>

subsection \<open>Points\<close>

record ed25519_point =
  pt_x :: fe
  pt_y :: fe
  pt_z :: fe
  pt_t :: fe

definition v9x_ed25519_point_identity :: ed25519_point where
  "v9x_ed25519_point_identity =
     \<lparr>pt_x = v9x_ed25519_fe_set_small 0, pt_y = v9x_ed25519_fe_set_small 1,
      pt_z = v9x_ed25519_fe_set_small 1, pt_t = v9x_ed25519_fe_set_small 0\<rparr>"

definition v9x_ed25519_point_base :: ed25519_point where
  "v9x_ed25519_point_base =
     (let x = v9x_ed25519_fe_from_bytes v9x_ed25519_base_x_bytes;
          y = v9x_ed25519_fe_from_bytes v9x_ed25519_base_y_bytes
      in \<lparr>pt_x = x, pt_y = y, pt_z = v9x_ed25519_fe_set_small 1, pt_t = v9x_ed25519_fe_mul x y\<rparr>)"

definition v9x_ed25519_point_add :: "ed25519_point \<Rightarrow> ed25519_point \<Rightarrow> ed25519_point" where
  "v9x_ed25519_point_add p q =
     (let d2 = v9x_ed25519_fe_from_bytes v9x_ed25519_d_bytes;
          d2 = v9x_ed25519_fe_add d2 d2;
          a = v9x_ed25519_fe_sub (pt_y p) (pt_x p);
          t = v9x_ed25519_fe_sub (pt_y q) (pt_x q);
          a = v9x_ed25519_fe_mul a t;
          b = v9x_ed25519_fe_add (pt_y p) (pt_x p);
          t = v9x_ed25519_fe_add (pt_y q) (pt_x q);
          b = v9x_ed25519_fe_mul b t;
          c = v9x_ed25519_fe_mul (pt_t p) d2;
          c = v9x_ed25519_fe_mul c (pt_t q);
          d = v9x_ed25519_fe_add (pt_z p) (pt_z p);
          d = v9x_ed25519_fe_mul d (pt_z q);
          e = v9x_ed25519_fe_sub b a;
          f = v9x_ed25519_fe_sub d c;
          g = v9x_ed25519_fe_add d c;
          h = v9x_ed25519_fe_add b a
      in \<lparr>pt_x = v9x_ed25519_fe_mul e f, pt_y = v9x_ed25519_fe_mul g h,
          pt_z = v9x_ed25519_fe_mul f g, pt_t = v9x_ed25519_fe_mul e h\<rparr>)"

definition v9x_ed25519_point_double :: "ed25519_point \<Rightarrow> ed25519_point" where
  "v9x_ed25519_point_double p =
     (let a = v9x_ed25519_fe_square (pt_x p);
          b = v9x_ed25519_fe_square (pt_y p);
          c = v9x_ed25519_fe_square (pt_z p);
          c = v9x_ed25519_fe_add c c;
          h = v9x_ed25519_fe_add a b;
          e = v9x_ed25519_fe_add (pt_x p) (pt_y p);
          e = v9x_ed25519_fe_square e;
          e = v9x_ed25519_fe_sub h e;
          g = v9x_ed25519_fe_sub a b;
          f = v9x_ed25519_fe_add c g
      in \<lparr>pt_x = v9x_ed25519_fe_mul e f, pt_y = v9x_ed25519_fe_mul g h,
          pt_z = v9x_ed25519_fe_mul f g, pt_t = v9x_ed25519_fe_mul e h\<rparr>)"

definition scalar_mul_step :: "ed25519_point \<Rightarrow> bytes \<Rightarrow> ed25519_point \<Rightarrow> nat \<Rightarrow> ed25519_point" where
  "scalar_mul_step base scalar result n =
     (let result = v9x_ed25519_point_double result
      in if le_bit scalar n then v9x_ed25519_point_add result base else result)"

definition v9x_ed25519_point_scalar_mul :: "ed25519_point \<Rightarrow> bytes \<Rightarrow> ed25519_point" where
  "v9x_ed25519_point_scalar_mul p scalar =
     foldl (scalar_mul_step p scalar) v9x_ed25519_point_identity (rev [0..<256])"

definition v9x_ed25519_point_encode :: "ed25519_point \<Rightarrow> bytes" where
  "v9x_ed25519_point_encode p =
     (let z_inverse = v9x_ed25519_fe_invert (pt_z p);
          x = v9x_ed25519_fe_mul (pt_x p) z_inverse;
          y = v9x_ed25519_fe_mul (pt_y p) z_inverse;
          out = v9x_ed25519_fe_to_bytes y
      in if v9x_ed25519_fe_is_odd x \<noteq> 0 then out[31 := out ! 31 OR 0x80] else out)"

text \<open>Steps 2 and 3 of the decoding: \<open>u\<close>, \<open>v\<close> and the candidate root.\<close>

definition decode_u :: "fe \<Rightarrow> fe" where
  "decode_u y = v9x_ed25519_fe_sub (v9x_ed25519_fe_square y) (v9x_ed25519_fe_set_small 1)"

definition decode_v :: "fe \<Rightarrow> fe" where
  "decode_v y = v9x_ed25519_fe_add
     (v9x_ed25519_fe_mul (v9x_ed25519_fe_from_bytes v9x_ed25519_d_bytes) (v9x_ed25519_fe_square y))
     (v9x_ed25519_fe_set_small 1)"

definition decode_root :: "fe \<Rightarrow> fe \<Rightarrow> fe" where
  "decode_root u v =
     (let v3 = v9x_ed25519_fe_square v;
          v3 = v9x_ed25519_fe_mul v3 v;
          t = v9x_ed25519_fe_square v3;
          t = v9x_ed25519_fe_mul t v;
          t = v9x_ed25519_fe_mul t u;
          t = v9x_ed25519_fe_pow t (v9x_ed25519_exponent 0xFD 0x0F);
          x = v9x_ed25519_fe_mul u v3
      in v9x_ed25519_fe_mul x t)"

definition v9x_ed25519_point_decode :: "bytes \<Rightarrow> ed25519_point option" where
  "v9x_ed25519_point_decode input =
     (let y_bytes = map (\<lambda>i. input ! i) [0..<32];
          x_0 = unat (drop_bit 7 (y_bytes ! 31) AND 1);
          y_bytes = y_bytes[31 := y_bytes ! 31 AND 0x7F];
          y = v9x_ed25519_fe_from_bytes y_bytes;
          canonical = v9x_ed25519_fe_to_bytes y
      in if \<not> v9x_ed25519_bytes_equal canonical y_bytes 32 then None
         else
           (let u = decode_u y;
                v = decode_v y;
                x = decode_root u v;
                vx2 = v9x_ed25519_fe_mul (v9x_ed25519_fe_square x) v;
                neg_u = v9x_ed25519_fe_sub (v9x_ed25519_fe_set_small 0) u
            in if \<not> v9x_ed25519_fe_equal vx2 u \<and> \<not> v9x_ed25519_fe_equal vx2 neg_u then None
               else
                 (let x = (if v9x_ed25519_fe_equal vx2 u then x
                           else v9x_ed25519_fe_mul x (v9x_ed25519_fe_from_bytes v9x_ed25519_sqrtm1_bytes))
                  in if v9x_ed25519_fe_is_zero x \<and> x_0 = 1 then None
                     else
                       (let x = (if v9x_ed25519_fe_is_odd x \<noteq> x_0
                                 then v9x_ed25519_fe_sub (v9x_ed25519_fe_set_small 0) x else x)
                        in Some \<lparr>pt_x = x, pt_y = y, pt_z = v9x_ed25519_fe_set_small 1,
                                 pt_t = v9x_ed25519_fe_mul x y\<rparr>))))"

subsection \<open>Scalars\<close>

text \<open>The inner loop of \<open>v9x_ed25519_scalar_reduce\<close>: one bit to the left, \<open>incoming\<close> below.\<close>

definition shift_step :: "bytes \<times> u16 \<Rightarrow> nat \<Rightarrow> bytes \<times> u16" where
  "shift_step = (\<lambda>(remainder, incoming) i.
     let outgoing = ucast (drop_bit 7 (remainder ! i)) AND 1;
         remainder = remainder[i := ucast ((push_bit 1 (ucast (remainder ! i)) OR incoming) AND 0xFF)]
     in (remainder, outgoing))"

definition reduce_step :: "bytes \<Rightarrow> bytes \<Rightarrow> nat \<Rightarrow> bytes" where
  "reduce_step input remainder n =
     (let incoming = ucast (drop_bit (n mod 8) (input ! (n div 8))) AND 1;
          remainder = fst (foldl shift_step (remainder, incoming) [0..<32])
      in if v9x_ed25519_bytes_ge remainder v9x_ed25519_l_bytes
         then v9x_ed25519_bytes_sub remainder v9x_ed25519_l_bytes else remainder)"

definition v9x_ed25519_scalar_reduce :: "bytes \<Rightarrow> bytes" where
  "v9x_ed25519_scalar_reduce input =
     foldl (reduce_step input) (map (\<lambda>_. 0) [0..<32]) (rev [0..<512])"

definition muladd_columns :: "bytes \<Rightarrow> bytes \<Rightarrow> bytes \<Rightarrow> u32 list" where
  "muladd_columns a b c =
     foldl (\<lambda>column i.
         let column = foldl (\<lambda>column j. column[i + j := column ! (i + j) + ucast (a ! i) * ucast (b ! j)])
               column [0..<32]
         in column[i := column ! i + ucast (c ! i)])
       (map (\<lambda>_. 0) [0..<64]) [0..<32]"

definition wide_step :: "u32 list \<Rightarrow> bytes \<times> u32 \<Rightarrow> nat \<Rightarrow> bytes \<times> u32" where
  "wide_step column = (\<lambda>(wide, carry) i.
     let carry = carry + column ! i
     in (wide[i := ucast (carry AND 0xFF)], drop_bit 8 carry))"

definition v9x_ed25519_scalar_muladd :: "bytes \<Rightarrow> bytes \<Rightarrow> bytes \<Rightarrow> bytes" where
  "v9x_ed25519_scalar_muladd a b c =
     v9x_ed25519_scalar_reduce
       (fst (foldl (wide_step (muladd_columns a b c)) (replicate 64 0, 0) [0..<64]))"

subsection \<open>Keys, signing and verification\<close>

text \<open>The local \<open>struct v9x_sha512\<close> before its initialisation; \<open>sha512_correct\<close> shows that nothing
  depends on it.\<close>

definition sha512_local :: sha512_ctx where
  "sha512_local = \<lparr>s512_state = [], s512_count_lo = 0, s512_count_hi = 0, s512_buffered = 0,
     s512_buffer = replicate 128 0\<rparr>"

definition v9x_ed25519_expand_seed :: "bytes \<Rightarrow> bytes \<times> bytes" where
  "v9x_ed25519_expand_seed seed =
     (let sha = v9x_sha512_init sha512_local;
          sha = v9x_sha512_update seed sha;
          digest = fst (v9x_sha512_final sha);
          scalar = take 32 digest;
          prefix = take 32 (drop 32 digest);
          scalar = scalar[0 := scalar ! 0 AND 0xF8];
          scalar = scalar[31 := (scalar ! 31 AND 0x7F) OR 0x40]
      in (scalar, prefix))"

definition v9x_ed25519_challenge :: "bytes \<Rightarrow> bytes \<Rightarrow> bytes \<Rightarrow> bytes" where
  "v9x_ed25519_challenge r_bytes public_key message =
     (let sha = v9x_sha512_init sha512_local;
          sha = v9x_sha512_update (take 32 r_bytes) sha;
          sha = v9x_sha512_update (take 32 public_key) sha;
          sha = v9x_sha512_update message sha;
          digest = fst (v9x_sha512_final sha)
      in v9x_ed25519_scalar_reduce digest)"

definition v9x_ed25519_public_key :: "bytes \<Rightarrow> bytes" where
  "v9x_ed25519_public_key seed =
     (let (scalar, prefix) = v9x_ed25519_expand_seed seed;
          a = v9x_ed25519_point_scalar_mul v9x_ed25519_point_base scalar
      in v9x_ed25519_point_encode a)"

definition v9x_ed25519_sign :: "bytes \<Rightarrow> bytes \<Rightarrow> bytes \<Rightarrow> bytes" where
  "v9x_ed25519_sign seed public_key message =
     (let (scalar, prefix) = v9x_ed25519_expand_seed seed;
          sha = v9x_sha512_init sha512_local;
          sha = v9x_sha512_update prefix sha;
          sha = v9x_sha512_update message sha;
          digest = fst (v9x_sha512_final sha);
          r = v9x_ed25519_scalar_reduce digest;
          r_point = v9x_ed25519_point_scalar_mul v9x_ed25519_point_base r;
          signature = v9x_ed25519_point_encode r_point;
          k = v9x_ed25519_challenge signature public_key message
      in signature @ v9x_ed25519_scalar_muladd k scalar r)"

definition v9x_ed25519_verify :: "bytes \<Rightarrow> bytes \<Rightarrow> bytes \<Rightarrow> bool" where
  "v9x_ed25519_verify signature public_key message =
     (if v9x_ed25519_bytes_ge (drop 32 signature) v9x_ed25519_l_bytes then False
      else case v9x_ed25519_point_decode public_key of
        None \<Rightarrow> False
      | Some a \<Rightarrow>
          (case v9x_ed25519_point_decode signature of
             None \<Rightarrow> False
           | Some r_point \<Rightarrow>
               (let k = v9x_ed25519_challenge signature public_key message;
                    lhs = v9x_ed25519_point_scalar_mul v9x_ed25519_point_base (drop 32 signature);
                    rhs = v9x_ed25519_point_scalar_mul a k;
                    rhs = v9x_ed25519_point_add r_point rhs;
                    lhs_bytes = v9x_ed25519_point_encode lhs;
                    rhs_bytes = v9x_ed25519_point_encode rhs
                in v9x_ed25519_bytes_equal lhs_bytes rhs_bytes 32)))"


subsection \<open>Scalars modulo L\<close>

lemma unat_ucast_u8_u16: "unat (ucast b :: u16) = unat b" for b :: u8
proof -
  have "unat b < 2 ^ 16" by (rule less_trans [OF unat_u8_less]) simp
  then show ?thesis by (simp add: unsigned_ucast_eq take_bit_nat_eq_self)
qed

lemma unat_and_one_u16: "unat (ucast b AND (1 :: u16)) = unat b mod 2" for b :: u8
  by (simp add: and_one_eq unat_mod unat_ucast_u8_u16)

lemma and_one_odd: "b AND 1 \<noteq> 0 \<longleftrightarrow> odd (unat b)" for b :: u8
proof -
  have "unat (b AND 1) = unat b mod 2" by (simp add: and_one_eq unat_mod)
  then show ?thesis by (metis odd_iff_mod_2_eq_one unat_eq_0 zero_neq_one parity_cases)
qed

lemma and_one_u16: "ucast b AND (1 :: u16) = of_bool (b AND 1 \<noteq> 0)" for b :: u8
  unfolding and_one_odd by (simp add: word_unat_eq_iff unat_and_one_u16 mod_2_eq_odd)

lemma shift_digit:
  fixes b :: u8
  assumes "unat c \<le> 1"
  shows "unat (ucast ((push_bit 1 (ucast b :: u16) OR c) AND 0xFF) :: u8) +
      256 * unat (ucast (drop_bit 7 b) AND (1 :: u16)) = 2 * unat b + unat c"
proof -
  have c: "c = 0 \<or> c = 1" using assms by (auto simp: word_unat_eq_iff)
  have lt: "2 * unat b + 1 < 65536" using unat_u8_less [of b] by linarith
  have "push_bit 1 (ucast b :: u16) OR c = push_bit 1 (ucast b) + c"
    using c by (auto simp: or_one_eq push_bit_eq_mult)
  also have "unat \<dots> = 2 * unat b + unat c"
    using c lt by (auto simp: unat_word_ariths push_bit_eq_mult unat_ucast_u8_u16)
  finally have u: "unat (push_bit 1 (ucast b :: u16) OR c) = 2 * unat b + unat c" .
  have "unat (ucast (drop_bit 7 b) AND (1 :: u16)) = unat b div 128"
    unfolding unat_and_one_u16 unat_drop_bit_eq using unat_u8_less [of b]
    by (simp add: drop_bit_eq_div del: unat_u8_less)
  moreover have "unat (ucast (w AND 0xFF) :: u8) = unat w mod 256" for w :: u16
    unfolding unsigned_ucast_eq and_0xff unsigned_take_bit_eq by (simp add: take_bit_eq_mod)
  moreover have "(2 * unat b + unat c) div 256 = unat b div 128"
    using assms by linarith
  ultimately show ?thesis using u by (metis mod_mult_div_eq)
qed

lemma shift_loop:
  assumes "length r = 32" "unat c \<le> 1" "n \<le> 32"
  shows "case foldl shift_step (r, c) [0..<n] of (r', c') \<Rightarrow>
    length r' = 32 \<and> unat c' \<le> 1 \<and> (\<forall>j. n \<le> j \<longrightarrow> r' ! j = r ! j) \<and>
    le_value (take n r') + 256 ^ n * unat c' = 2 * le_value (take n r) + unat c"
  using assms(3)
proof (induction n)
  case 0
  then show ?case using assms by simp
next
  case (Suc n)
  obtain r' c' where st: "foldl shift_step (r, c) [0..<n] = (r', c')" by fastforce
  with Suc have IH: "length r' = 32" "unat c' \<le> 1" "r' ! n = r ! n" "\<forall>j. n \<le> j \<longrightarrow> r' ! j = r ! j"
    "le_value (take n r') + 256 ^ n * unat c' = 2 * le_value (take n r) + unat c"
    by simp_all
  define b where "b = r ! n"
  define d where "d = (ucast ((push_bit 1 (ucast b :: u16) OR c') AND 0xFF) :: u8)"
  define c'' where "c'' = ucast (drop_bit 7 b) AND (1 :: u16)"
  have digit: "unat d + 256 * unat c'' = 2 * unat b + unat c'"
    unfolding d_def c''_def by (rule shift_digit [OF IH(2)])
  have c'': "unat c'' \<le> 1"
  proof -
    have "unat (drop_bit 7 b) mod 2 < 2" by simp
    then show ?thesis unfolding c''_def unat_and_one_u16 by linarith
  qed
  have res: "foldl shift_step (r, c) [0..<Suc n] = (r'[n := d], c'')"
    using st IH by (simp add: shift_step_def Let_def d_def c''_def b_def)
  have "le_value (take (Suc n) (r'[n := d])) = le_value (take n r') + 256 ^ n * unat d"
    using IH(1) Suc.prems by (simp add: le_value_snoc)
  moreover have "le_value (take (Suc n) r) = le_value (take n r) + 256 ^ n * unat b"
    using assms Suc.prems by (simp add: le_value_snoc b_def)
  moreover have "256 ^ n * unat d + 256 ^ Suc n * unat c'' = 256 ^ n * (2 * unat b) + 256 ^ n * unat c'"
    using arg_cong [OF digit, of "\<lambda>z. 256 ^ n * z"] by (simp add: algebra_simps)
  ultimately have "le_value (take (Suc n) (r'[n := d])) + 256 ^ Suc n * unat c'' =
      2 * le_value (take (Suc n) r) + unat c"
    using IH(5) by (simp add: algebra_simps)
  then show ?case using res IH c'' by simp
qed

lemma mod_once: "n < 2 * m \<Longrightarrow> n mod m = (if m \<le> n then n - m else n)" for n m :: nat
  by (auto simp: le_mod_geq)

definition scalar_rep :: "bytes \<Rightarrow> nat \<Rightarrow> bool" where
  "scalar_rep r k \<longleftrightarrow> length r = 32 \<and> le_value r = k mod L25519"

definition reduce_bit :: "bool \<Rightarrow> bytes \<Rightarrow> bytes" where
  "reduce_bit b remainder =
     (let remainder = fst (foldl shift_step (remainder, of_bool b) [0..<32])
      in if v9x_ed25519_bytes_ge remainder v9x_ed25519_l_bytes
         then v9x_ed25519_bytes_sub remainder v9x_ed25519_l_bytes else remainder)"

interpretation scalar_ladder: ladder scalar_rep reduce_bit
proof
  fix x k b
  assume "scalar_rep x k"
  then have x: "length x = 32" "le_value x = k mod L25519" by (simp_all add: scalar_rep_def)
  obtain r c where st: "foldl shift_step (x, of_bool b) [0..<32] = (r, c)" by fastforce
  note loop = shift_loop [of x "of_bool b" 32, unfolded st prod.case]
  have "take 32 r = r" "take 32 x = x" using loop x by (cases b; simp)+
  then have r: "length r = 32" "le_value r + 2 ^ 256 * unat c = 2 * le_value x + of_bool b"
    using loop x by (cases b; simp)+
  have L: "0 < L25519" "2 * L25519 < 2 ^ 256" by (simp_all add: L25519_def)
  have less: "2 * le_value x + of_bool b < 2 * L25519"
  proof -
    have "k mod L25519 < L25519" using L(1) by (rule mod_less_divisor)
    moreover have "of_bool b \<le> (1 :: nat)" by simp
    ultimately show ?thesis unfolding x(2) by linarith
  qed
  then have "unat c = 0" using r(2) L(2) by (cases "unat c") auto
  then have v: "le_value r = 2 * (k mod L25519) + of_bool b" using r(2) x(2) by simp
  have l: "length v9x_ed25519_l_bytes = 32" by (simp add: v9x_ed25519_l_bytes_def)
  have "(2 * k + of_bool b) mod L25519 = (2 * (k mod L25519) + of_bool b) mod L25519"
    by (metis mod_add_left_eq mod_mult_right_eq)
  also have "\<dots> = (if L25519 \<le> le_value r then le_value r - L25519 else le_value r)"
    using mod_once [OF less] x(2) v by simp
  finally show "scalar_rep (reduce_bit b x) (2 * k + of_bool b)"
    using bytes_ge_value [OF r(1) l] bytes_sub_value [OF r(1) l] r(1)
    by (simp add: scalar_rep_def reduce_bit_def st l_bytes_value)
qed

lemma scalar_reduce_spec:
  assumes "length input = 64"
  shows "length (v9x_ed25519_scalar_reduce input) = 32"
    and "le_value (v9x_ed25519_scalar_reduce input) = le_value input mod L25519"
proof -
  have steps: "(\<lambda>r i. reduce_bit (le_bit input i) r) = reduce_step input"
  proof (intro ext)
    fix r i
    have "ucast (drop_bit (i mod 8) (input ! (i div 8))) AND (1 :: u16) = of_bool (le_bit input i)"
      by (simp add: le_bit_def and_one_u16)
    then show "reduce_bit (le_bit input i) r = reduce_step input r i"
      by (simp add: reduce_bit_def reduce_step_def Let_def)
  qed
  have zero: "scalar_rep (map (\<lambda>_. 0) [0..<32]) 0"
    by (simp add: scalar_rep_def map_replicate_const)
  have n: "512 = 8 * length input" using assms by simp
  have "scalar_rep (v9x_ed25519_scalar_reduce input) (le_value input)"
    unfolding v9x_ed25519_scalar_reduce_def steps [symmetric] by (rule scalar_ladder.climb [OF zero n])
  then show "length (v9x_ed25519_scalar_reduce input) = 32"
    and "le_value (v9x_ed25519_scalar_reduce input) = le_value input mod L25519"
    by (simp_all add: scalar_rep_def)
qed


lemma wide_loop:
  assumes "length column = 64" "\<And>k. k < 64 \<Longrightarrow> unat (column ! k) < 2 ^ 22" "n \<le> 64" "length w = 64"
  shows "case foldl (wide_step column) (w, 0) [0..<n] of (wide, carry) \<Rightarrow>
    length wide = 64 \<and> unat carry < 2 ^ 15 \<and>
    le_value (take n wide) + 256 ^ n * unat carry = (\<Sum>k<n. unat (column ! k) * 256 ^ k)"
  using assms(3)
proof (induction n)
  case 0
  then show ?case using assms(4) by simp
next
  case (Suc n)
  obtain wide carry where st: "foldl (wide_step column) (w, 0) [0..<n] = (wide, carry)" by fastforce
  with Suc have IH: "length wide = 64" "unat carry < 2 ^ 15"
    "le_value (take n wide) + 256 ^ n * unat carry = (\<Sum>k<n. unat (column ! k) * 256 ^ k)"
    by simp_all
  have col: "unat (column ! n) < 2 ^ 22" using assms(2) Suc.prems by simp
  define s where "s = carry + column ! n"
  have s: "unat s = unat carry + unat (column ! n)"
    using IH(2) col unfolding s_def by (intro u32_add) simp
  have res: "foldl (wide_step column) (w, 0) [0..<Suc n] = (wide[n := ucast (s AND 0xFF)], drop_bit 8 s)"
    using st by (simp add: wide_step_def Let_def s_def)
  have carry: "unat (drop_bit 8 s) < 2 ^ 15"
    unfolding unat_drop_byte s using IH(2) col by (simp add: less_mult_imp_div_less)
  have digit: "le_value (take (Suc n) (wide[n := ucast (s AND 0xFF)])) =
      le_value (take n wide) + 256 ^ n * (unat s mod 256)"
    using IH(1) Suc.prems by (simp add: le_value_snoc unat_low_byte)
  have "le_value (take (Suc n) (wide[n := ucast (s AND 0xFF)])) + 256 ^ Suc n * unat (drop_bit 8 s) =
      le_value (take n wide) + 256 ^ n * (unat s mod 256 + 256 * (unat s div 256))"
    by (simp only: digit unat_drop_byte power_Suc distrib_left add.assoc mult.assoc mult.left_commute)
  also have "unat s mod 256 + 256 * (unat s div 256) = unat carry + unat (column ! n)" by (simp add: s)
  also have "le_value (take n wide) + 256 ^ n * (unat carry + unat (column ! n)) =
      (\<Sum>k<Suc n. unat (column ! k) * 256 ^ k)"
    using IH(3) by (simp add: algebra_simps)
  finally show ?case using res IH carry by simp
qed

definition muladd_ops :: "bytes \<Rightarrow> bytes \<Rightarrow> bytes \<Rightarrow> (nat \<times> u32) list" where
  "muladd_ops a b c = concat (map (\<lambda>i. map (\<lambda>j. (i + j, ucast (a ! i) * ucast (b ! j))) [0..<32] @
     [(i, ucast (c ! i))]) [0..<32])"

lemma muladd_columns_ops:
  "muladd_columns a b c = add_columns (map (\<lambda>_. 0) [0..<64]) (muladd_ops a b c)"
proof -
  have "foldl (\<lambda>column i.
         let column = foldl (\<lambda>column j. column[i + j := column ! (i + j) + ucast (a ! i) * ucast (b ! j)])
               column [0..<32]
         in column[i := column ! i + ucast (c ! i)]) col is =
       add_columns col (concat (map (\<lambda>i. map (\<lambda>j. (i + j, ucast (a ! i) * ucast (b ! j))) [0..<32] @
         [(i, ucast (c ! i))]) is))" for col "is"
  proof (induction "is" arbitrary: col)
    case (Cons i "is")
    have "foldl (\<lambda>col j. col[i + j := col ! (i + j) + ucast (a ! i) * ucast (b ! j)]) col [0..<32] =
        add_columns col (map (\<lambda>j. (i + j, ucast (a ! i) * ucast (b ! j))) [0..<32])"
      using foldl_columns [of "\<lambda>i j. ucast (a ! i) * ucast (b ! j)" "[0..<32]" col "[i]"] by simp
    then show ?case using Cons by (simp add: add_columns_append Let_def)
  qed simp
  then show ?thesis by (simp only: muladd_columns_def muladd_ops_def)
qed


lemma muladd_row_total:
  "column_total (map (\<lambda>j. (i + j, ucast (a ! i) * ucast (b ! j))) [0..<32] @ [(i, ucast (c ! i))]) k
     \<le> 255 * 255 + (if i = k then 255 else 0)" for a b c :: bytes
proof -
  have b255: "unat x \<le> 255" for x :: u8 using unat_u8_less [of x] by linarith
  have prod: "unat (ucast x * ucast y :: u32) \<le> 255 * 255" for x y :: u8
  proof -
    have "unat x * unat y \<le> 255 * 255" using b255 b255 by (rule mult_le_mono)
    then show ?thesis by (simp add: unat_word_ariths)
  qed
  have "column_total (map (\<lambda>j. (i + j, ucast (a ! i) * ucast (b ! j))) [0..<32]) k \<le> 255 * 255"
    unfolding column_total_row using prod by (simp only: split: if_split) simp
  moreover have "column_total [(i, ucast (c ! i))] k \<le> (if i = k then 255 else 0)"
    using b255 by simp
  ultimately show ?thesis unfolding column_total_simps(3) by (rule add_le_mono)
qed

lemma muladd_value:
  assumes "length a = 32" "length b = 32" "length c = 32"
  shows "le_value (muladd_columns a b c) = le_value a * le_value b + le_value c"
    and "length (muladd_columns a b c) = 64"
    and "k < 64 \<Longrightarrow> unat (muladd_columns a b c ! k) < 2 ^ 22"
proof -
  define zero :: "u32 list" where "zero = map (\<lambda>_. 0) [0..<64]"
  have z: "length zero = 64" "\<And>k. k < 64 \<Longrightarrow> zero ! k = 0" "le_value zero = 0"
    by (simp_all add: zero_def map_replicate_const)
  have tot: "column_total (muladd_ops a b c) k < 2 ^ 22" for k
  proof -
    have "column_total (muladd_ops a b c) k = sum_list (map (\<lambda>i. column_total
        (map (\<lambda>j. (i + j, ucast (a ! i) * ucast (b ! j))) [0..<32] @ [(i, ucast (c ! i))]) k) [0..<32])"
      by (simp only: muladd_ops_def column_total_concat map_map comp_def)
    also have "\<dots> \<le> length [0..<32] * (255 * 255 + 255)"
    proof (rule sum_list_bound)
      fix i
      show "column_total (map (\<lambda>j. (i + j, ucast (a ! i) * ucast (b ! j))) [0..<32] @ [(i, ucast (c ! i))]) k
          \<le> 255 * 255 + 255"
        by (rule order_trans [OF muladd_row_total]) simp
    qed
    finally show ?thesis by simp
  qed
  have ops: "\<forall>(k, x) \<in> set (muladd_ops a b c). k < length zero"
    by (auto simp: muladd_ops_def z(1))
  have sums: "unat (zero ! k) + column_total (muladd_ops a b c) k < 2 ^ 32" if "k < length zero" for k
    using that z tot [of k] by simp
  note res = add_columns_value [OF ops sums]
  have cols: "muladd_columns a b c = add_columns zero (muladd_ops a b c)"
    by (simp only: muladd_columns_ops zero_def)
  have prod: "unat (ucast x * ucast y :: u32) = unat x * unat y" for x y :: u8
  proof -
    have "unat x \<le> 255" "unat y \<le> 255" using unat_u8_less [of x] unat_u8_less [of y] by linarith+
    then have "unat x * unat y \<le> 255 * 255" by (rule mult_le_mono)
    then show ?thesis by (simp add: unat_word_ariths)
  qed
  have "sum_list (map (\<lambda>(k, x). unat x * 256 ^ k) (muladd_ops a b c)) =
      (\<Sum>i<32. (\<Sum>j<32. unat (a ! i) * unat (b ! j) * 256 ^ (i + j)) + unat (c ! i) * 256 ^ i)"
    by (simp add: muladd_ops_def map_concat sum_list_concat_map comp_def interv_sum_list_conv_sum_set_nat
        atLeast0LessThan prod)
  also have "\<dots> = (\<Sum>i<32. \<Sum>j<32. (unat (a ! i) * 256 ^ i) * (unat (b ! j) * 256 ^ j)) +
      (\<Sum>i<32. unat (c ! i) * 256 ^ i)"
    unfolding sum.distrib by (intro arg_cong2 [of _ _ _ _ "(+)"] sum.cong refl) (simp_all add: power_add)
  also have "\<dots> = le_value a * le_value b + le_value c"
    by (simp add: le_value_sum assms sum_product)
  finally show "le_value (muladd_columns a b c) = le_value a * le_value b + le_value c"
    using res(1) z(3) by (simp add: cols)
  show "length (muladd_columns a b c) = 64" by (simp add: cols z(1))
  show "unat (muladd_columns a b c ! k) < 2 ^ 22" if "k < 64"
    using res(2) [of k] that z tot [of k] by (simp add: cols)
qed

lemma scalar_muladd_spec:
  assumes "length a = 32" "length b = 32" "length c = 32"
  shows "length (v9x_ed25519_scalar_muladd a b c) = 32"
    and "le_value (v9x_ed25519_scalar_muladd a b c) = (le_value a * le_value b + le_value c) mod L25519"
proof -
  define col where "col = muladd_columns a b c"
  note col = muladd_value [OF assms, folded col_def]
  obtain wide carry where st: "foldl (wide_step col) (replicate 64 0, 0) [0..<64] = (wide, carry)" by fastforce
  have loop: "length wide = 64" "le_value wide + 256 ^ 64 * unat carry = (\<Sum>k<64. unat (col ! k) * 256 ^ k)"
  proof -
    note w = wide_loop [OF col(2,3) order_refl, of "replicate 64 0", unfolded st prod.case]
    show l: "length wide = 64" using w by simp
    then have "take 64 wide = wide" by simp
    then show "le_value wide + 256 ^ 64 * unat carry = (\<Sum>k<64. unat (col ! k) * 256 ^ k)"
      using w by (simp only: length_replicate)
  qed
  then have sum: "le_value wide + 2 ^ 512 * unat carry = le_value a * le_value b + le_value c"
    using col(1,2) by (simp add: le_value_sum [of col])
  have "le_value a * le_value b + le_value c < 2 ^ 512"
  proof -
    have s: "le_value x \<le> 2 ^ 256 - 1" if "length x = 32" for x :: bytes
      using le_value_less [of x] that by simp
    have "le_value a * le_value b \<le> (2 ^ 256 - 1) * (2 ^ 256 - 1)"
      by (rule mult_le_mono [OF s [OF assms(1)] s [OF assms(2)]])
    moreover have "le_value c \<le> 2 ^ 256 - 1" by (rule s [OF assms(3)])
    ultimately have "le_value a * le_value b + le_value c \<le> (2 ^ 256 - 1) * (2 ^ 256 - 1) + (2 ^ 256 - 1)"
      by (rule add_le_mono)
    then show ?thesis by (rule le_less_trans) simp
  qed
  then have "unat carry = 0" using sum by (cases "unat carry") simp_all
  then have "le_value wide = le_value a * le_value b + le_value c" using sum by simp
  then show "length (v9x_ed25519_scalar_muladd a b c) = 32"
    and "le_value (v9x_ed25519_scalar_muladd a b c) = (le_value a * le_value b + le_value c) mod L25519"
    using scalar_reduce_spec [OF loop(1)] by (simp_all only: v9x_ed25519_scalar_muladd_def col_def [symmetric] st fst_conv)
qed


subsection \<open>Points stay carried\<close>

definition point_ok :: "ed25519_point \<Rightarrow> bool" where
  "point_ok p \<longleftrightarrow> carried (pt_x p) \<and> carried (pt_y p) \<and> carried (pt_z p) \<and> carried (pt_t p)"

lemma fe_square_spec:
  "carried a \<Longrightarrow> carried (v9x_ed25519_fe_square a)"
  "carried a \<Longrightarrow> fe_value (v9x_ed25519_fe_square a) = fe_value a * fe_value a mod P25519"
  using fe_mul_spec [of a a] by (simp_all add: v9x_ed25519_fe_square_def)

lemmas fe_carried = fe_add_spec(1) fe_sub_spec(1) fe_mul_spec(1) fe_square_spec(1) fe_from_bytes_spec(1)
  fe_set_small_spec(1) fe_invert_spec(1) fe_pow_spec(1)

lemmas fe_values = fe_add_spec(2) fe_sub_spec(2) fe_mul_spec(2) fe_square_spec(2) fe_from_bytes_spec(2)
  fe_set_small_spec(2) fe_invert_spec(2) fe_pow_spec(2)

lemma const_bytes_length [simp]:
  "length v9x_ed25519_d_bytes = 32" "length v9x_ed25519_sqrtm1_bytes = 32"
  "length v9x_ed25519_base_x_bytes = 32" "length v9x_ed25519_base_y_bytes = 32"
  by (simp_all add: v9x_ed25519_d_bytes_def v9x_ed25519_sqrtm1_bytes_def v9x_ed25519_base_x_bytes_def
      v9x_ed25519_base_y_bytes_def)

lemma point_identity_ok: "point_ok v9x_ed25519_point_identity"
  by (simp add: point_ok_def v9x_ed25519_point_identity_def fe_carried)

lemma point_base_ok: "point_ok v9x_ed25519_point_base"
  by (simp add: point_ok_def v9x_ed25519_point_base_def Let_def fe_carried)

lemma point_add_ok: "point_ok p \<Longrightarrow> point_ok q \<Longrightarrow> point_ok (v9x_ed25519_point_add p q)"
  by (simp add: point_ok_def v9x_ed25519_point_add_def Let_def fe_carried)

lemma point_double_ok: "point_ok p \<Longrightarrow> point_ok (v9x_ed25519_point_double p)"
  by (simp add: point_ok_def v9x_ed25519_point_double_def Let_def fe_carried)

lemma point_scalar_mul_ok:
  assumes "point_ok p"
  shows "point_ok (v9x_ed25519_point_scalar_mul p scalar)"
proof -
  have "point_ok r \<Longrightarrow> point_ok (foldl (scalar_mul_step p scalar) r is)" for r "is"
  proof (induction "is" arbitrary: r)
    case (Cons i "is")
    have "point_ok (scalar_mul_step p scalar r i)"
      using Cons.prems assms by (simp add: scalar_mul_step_def Let_def point_double_ok point_add_ok)
    then show ?case by (simp add: Cons.IH)
  qed simp
  then show ?thesis by (simp add: v9x_ed25519_point_scalar_mul_def point_identity_ok)
qed

subsection \<open>Encoding\<close>

lemma fe_value_range: "0 \<le> fe_value a" "fe_value a < P25519"
  by (simp_all add: fe_value_def)

lemma top_byte:
  fixes b :: bytes
  assumes "length b = 32"
  shows "le_value b = le_value (take 31 b) + 2 ^ 248 * unat (b ! 31)" and "le_value (take 31 b) < 2 ^ 248"
proof -
  have "b = take 31 b @ [b ! 31]" using assms take_Suc_conv_app_nth [of 31 b] by simp
  then show "le_value b = le_value (take 31 b) + 2 ^ 248 * unat (b ! 31)"
    using assms le_value_append [of "take 31 b" "[b ! 31]"] by simp
  show "le_value (take 31 b) < 2 ^ 248" using le_value_less [of "take 31 b"] assms by simp
qed

lemma unat_or_0x80: "unat b < 128 \<Longrightarrow> unat (b OR 0x80) = unat b + 128" for b :: u8
proof -
  assume "unat b < 128"
  have "bit b 7 \<longleftrightarrow> bit (unat b) 7" by (simp add: bit_unsigned_iff)
  also have "\<dots> \<longleftrightarrow> odd (unat b div 2 ^ 7)" by (rule bit_iff_odd)
  also have "\<dots> \<longleftrightarrow> False" using \<open>unat b < 128\<close> by simp
  finally have "\<not> bit b 7" by simp
  have "b AND 0x80 = 0"
  proof (rule bit_word_eqI)
    fix n
    have "bit (0x80 :: u8) n \<longleftrightarrow> n < 8 \<and> 7 = n"
      using bit_exp_iff [where 'a = "8 word", of 7 n] by simp
    then show "bit (b AND 0x80) n = bit 0 n"
      using \<open>\<not> bit b 7\<close> by (auto simp only: bit_and_iff bit_0_eq bot_apply bot_bool_def)
  qed
  then have "b OR 0x80 = b + 0x80" by (rule disjunctive_add_eq_or [symmetric])
  then show "unat (b OR 0x80) = unat b + 128" using \<open>unat b < 128\<close> by (simp add: unat_word_ariths)
qed

lemma point_encode_spec:
  assumes "point_ok p"
  defines "zi \<equiv> fe_value (pt_z p) ^ (2 ^ 255 - 21) mod P25519"
  shows "length (v9x_ed25519_point_encode p) = 32"
    and "int (le_value (v9x_ed25519_point_encode p)) =
      fe_value (pt_y p) * zi mod P25519 + 2 ^ 255 * (fe_value (pt_x p) * zi mod P25519 mod 2)"
proof -
  have c: "carried (pt_x p)" "carried (pt_y p)" "carried (pt_z p)" using assms by (simp_all add: point_ok_def)
  define x where "x = v9x_ed25519_fe_mul (pt_x p) (v9x_ed25519_fe_invert (pt_z p))"
  define y where "y = v9x_ed25519_fe_mul (pt_y p) (v9x_ed25519_fe_invert (pt_z p))"
  define out where "out = v9x_ed25519_fe_to_bytes y"
  have xy: "carried x" "carried y" "fe_value x = fe_value (pt_x p) * zi mod P25519"
    "fe_value y = fe_value (pt_y p) * zi mod P25519"
    using c by (simp_all add: x_def y_def zi_def fe_carried fe_values)
  have out: "length out = 32" "int (le_value out) = fe_value y"
    using fe_to_bytes_spec [OF xy(2)] by (simp_all add: out_def)
  have enc: "v9x_ed25519_point_encode p = (if v9x_ed25519_fe_is_odd x \<noteq> 0 then out[31 := out ! 31 OR 0x80] else out)"
    by (simp add: v9x_ed25519_point_encode_def Let_def x_def y_def out_def)
  have odd: "v9x_ed25519_fe_is_odd x = nat (fe_value x mod 2)"
    using fe_is_odd_eq [OF xy(1)] by linarith
  have "le_value out < 2 ^ 255" using out(2) fe_value_range(2) [of y] by (simp add: P25519_def)
  then have "unat (out ! 31) < 128" using top_byte(1) [OF out(1)] by simp
  note top = unat_or_0x80 [OF this]
  have "int (le_value (out[31 := out ! 31 OR 0x80])) = int (le_value out) + 2 ^ 255"
    using out(1) by (simp add: le_value_update top del: of_nat_unat)
  then show "length (v9x_ed25519_point_encode p) = 32"
    and "int (le_value (v9x_ed25519_point_encode p)) =
      fe_value (pt_y p) * zi mod P25519 + 2 ^ 255 * (fe_value (pt_x p) * zi mod P25519 mod 2)"
    using out odd unfolding enc xy(3,4) [symmetric] by (auto simp: mod2_eq_if)
qed


subsection \<open>Decoding\<close>

lemma unat_and_0x7f: "unat (b AND 0x7F) = unat b mod 128" for b :: u8
proof -
  have "b AND 0x7F = take_bit 7 b" by (simp add: take_bit_eq_mask mask_eq_exp_minus_1)
  then show ?thesis by (simp only: unsigned_take_bit_eq) (simp add: take_bit_eq_mod)
qed

lemma sqrtm1_value:
  "int (le_value v9x_ed25519_sqrtm1_bytes) * int (le_value v9x_ed25519_sqrtm1_bytes) mod P25519 =
     (- 1) mod P25519"
  by (simp add: v9x_ed25519_sqrtm1_bytes_def P25519_def)

definition D25519 :: int where
  "D25519 = 37095705934669439343138083508754565189542113879843219016388785533085940283555"

lemma d_value: "int (le_value v9x_ed25519_d_bytes) mod P25519 = D25519"
  by (simp add: v9x_ed25519_d_bytes_def P25519_def D25519_def)

text \<open>RFC 8032: \<open>d = -121665/121666\<close>.\<close>

lemma d_is_quotient: "121666 * D25519 mod P25519 = (- 121665) mod P25519"
  by (simp add: D25519_def P25519_def)

definition on_curve :: "int \<Rightarrow> int \<Rightarrow> bool" where
  "on_curve x y \<longleftrightarrow> (y * y - x * x) mod P25519 = (1 + D25519 * (x * x) * (y * y)) mod P25519"

lemma neg_parity: "0 < x \<Longrightarrow> x < P25519 \<Longrightarrow> (0 - x) mod P25519 mod 2 = 1 - x mod 2"
proof -
  assume x: "0 < x" "x < P25519"
  then have "(0 - x) mod P25519 = P25519 - x"
    by (metis diff_0 mod_pos_pos_trivial diff_gt_0_iff_gt zmod_zminus1_eq_if less_imp_le less_irrefl)
  moreover have "odd P25519" by (simp add: P25519_def)
  ultimately show ?thesis by (simp add: mod2_eq_if)
qed

lemma decode_curve:
  fixes x y :: int
  assumes "x * x * (D25519 * (y * y) + 1) mod P25519 = (y * y - 1) mod P25519"
  shows "on_curve x y"
proof -
  have "y * y - x * x - (1 + D25519 * (x * x) * (y * y)) =
      - (x * x * (D25519 * (y * y) + 1) - (y * y - 1))"
    by (simp add: algebra_simps)
  then show ?thesis
    using assms unfolding on_curve_def mod_eq_dvd_iff by (simp only: dvd_minus_iff)
qed


lemma decode_uv:
  assumes "carried y"
  shows "carried (decode_u y)" "fe_value (decode_u y) = (fe_value y * fe_value y - 1) mod P25519"
    and "carried (decode_v y)" "fe_value (decode_v y) = (D25519 * (fe_value y * fe_value y) + 1) mod P25519"
  using assms by (simp_all add: decode_u_def decode_v_def fe_carried fe_values d_value mod_simps)

lemma decode_root_carried: "carried u \<Longrightarrow> carried v \<Longrightarrow> carried (decode_root u v)"
  by (simp add: decode_root_def Let_def fe_carried exponent_value)


text \<open>Multiplying a root of \<open>-u/v\<close> by the square root of -1 gives a root of \<open>u/v\<close>.\<close>

lemma sqrtm1_root:
  fixes x u v :: int
  assumes "x * x * v mod P25519 = (0 - u) mod P25519" "s * s mod P25519 = (- 1) mod P25519"
  shows "(x * s mod P25519) * (x * s mod P25519) * v mod P25519 = u mod P25519"
proof -
  have "(x * s mod P25519) * (x * s mod P25519) * v mod P25519 = (x * s) * (x * s) * v mod P25519"
    by (metis mod_mult_eq mod_mult_left_eq)
  also have "\<dots> = (x * x * v) * (s * s) mod P25519" by (simp only: ac_simps)
  also have "\<dots> = ((x * x * v) mod P25519) * ((s * s) mod P25519) mod P25519"
    by (rule mod_mult_eq [symmetric])
  also have "\<dots> = (0 - u) * (- 1) mod P25519"
    unfolding assms by (rule mod_mult_eq)
  finally show ?thesis by simp
qed

lemma point_decode_spec:
  assumes "v9x_ed25519_point_decode input = Some p" "length input \<ge> 32"
  shows "point_ok p" and "fe_value (pt_z p) = 1"
    and "fe_value (pt_t p) = fe_value (pt_x p) * fe_value (pt_y p) mod P25519"
    and "int (le_value (take 32 input)) = fe_value (pt_y p) + 2 ^ 255 * (fe_value (pt_x p) mod 2)"
    and "on_curve (fe_value (pt_x p)) (fe_value (pt_y p))"
proof -
  define b where "b = map (\<lambda>i. input ! i) [0..<32]"
  define x_0 where "x_0 = unat (drop_bit 7 (b ! 31) AND 1)"
  define yb where "yb = b[31 := b ! 31 AND 0x7F]"
  define y where "y = v9x_ed25519_fe_from_bytes yb"
  define u where "u = decode_u y"
  define v where "v = decode_v y"
  define x where "x = decode_root u v"
  define vx2 where "vx2 = v9x_ed25519_fe_mul (v9x_ed25519_fe_square x) v"
  define neg_u where "neg_u = v9x_ed25519_fe_sub (v9x_ed25519_fe_set_small 0) u"
  define x1 where "x1 = (if v9x_ed25519_fe_equal vx2 u then x
    else v9x_ed25519_fe_mul x (v9x_ed25519_fe_from_bytes v9x_ed25519_sqrtm1_bytes))"
  define x2 where "x2 = (if v9x_ed25519_fe_is_odd x1 \<noteq> x_0
    then v9x_ed25519_fe_sub (v9x_ed25519_fe_set_small 0) x1 else x1)"
  have dec: "v9x_ed25519_bytes_equal (v9x_ed25519_fe_to_bytes y) yb 32"
    "v9x_ed25519_fe_equal vx2 u \<or> v9x_ed25519_fe_equal vx2 neg_u"
    "\<not> (v9x_ed25519_fe_is_zero x1 \<and> x_0 = 1)"
    "p = \<lparr>pt_x = x2, pt_y = y, pt_z = v9x_ed25519_fe_set_small 1, pt_t = v9x_ed25519_fe_mul x2 y\<rparr>"
    using assms(1)
    unfolding v9x_ed25519_point_decode_def Let_def b_def [symmetric] x_0_def [symmetric] yb_def [symmetric]
      y_def [symmetric] u_def [symmetric] v_def [symmetric] x_def [symmetric] vx2_def [symmetric]
      neg_u_def [symmetric] x1_def [symmetric] x2_def [symmetric]
    by (auto split: if_splits)
  have b: "b = take 32 input" "length b = 32" "length yb = 32"
    using assms(2) by (auto simp: b_def yb_def intro: nth_equalityI)
  have yv: "le_value yb = le_value (take 31 b) + 2 ^ 248 * (unat (b ! 31) mod 128)"
    using top_byte(1) [OF b(3)] b(2) by (simp add: yb_def unat_and_0x7f)
  have x0: "x_0 = unat (b ! 31) div 128"
  proof -
    have "x_0 = unat (drop_bit 7 (b ! 31)) mod 2" by (simp add: x_0_def and_one_eq unat_mod)
    also have "\<dots> = unat (b ! 31) div 128 mod 2" by (simp only: unat_drop_bit_eq) (simp add: drop_bit_eq_div)
    also have "\<dots> = unat (b ! 31) div 128" using unat_u8_less [of "b ! 31"] by (simp add: less_mult_imp_div_less del: unat_u8_less)
    finally show ?thesis .
  qed
  have x0_le: "x_0 \<le> 1" unfolding x0 using unat_u8_less [of "b ! 31"] by linarith
  have total: "le_value b = le_value yb + 2 ^ 255 * x_0"
  proof -
    have "2 ^ 248 * w = 2 ^ 248 * (w mod 128) + 2 ^ 248 * (128 * (w div 128))" for w :: nat
      by (simp only: distrib_left [symmetric] mod_mult_div_eq)
    from this [of "unat (b ! 31)"] show ?thesis unfolding top_byte(1) [OF b(2)] yv x0 by simp
  qed
  have y: "carried y" "fe_value y = int (le_value yb)"
  proof -
    show c: "carried y" using b(3) by (simp add: y_def fe_carried)
    have "v9x_ed25519_fe_to_bytes y = yb"
      using dec(1) bytes_equal_iff [OF fe_to_bytes_spec(1) [OF c] b(3)] by simp
    then show "fe_value y = int (le_value yb)" using fe_to_bytes_spec(2) [OF c] by simp
  qed
  note uv = decode_uv [OF y(1), folded u_def v_def]
  have x: "carried x" using uv by (simp add: x_def decode_root_carried)
  have vx2: "carried vx2" "fe_value vx2 = fe_value x * fe_value x * fe_value v mod P25519"
    using x uv by (simp_all add: vx2_def fe_carried fe_values mod_simps)
  have nu: "carried neg_u" "fe_value neg_u = (0 - fe_value u) mod P25519"
    using uv by (simp_all add: neg_u_def fe_carried fe_values)
  have u_red: "fe_value u mod P25519 = fe_value u" using fe_value_range by simp
  have x1: "carried x1" "fe_value x1 * fe_value x1 * fe_value v mod P25519 = fe_value u"
  proof -
    show "carried x1" using x by (simp add: x1_def fe_carried)
    show "fe_value x1 * fe_value x1 * fe_value v mod P25519 = fe_value u"
    proof (cases "v9x_ed25519_fe_equal vx2 u")
      case True
      then show ?thesis using fe_equal_iff [OF vx2(1) uv(1)] vx2(2) by (simp add: x1_def)
    next
      case False
      then have "fe_value vx2 = fe_value neg_u" using dec(2) fe_equal_iff [OF vx2(1) nu(1)] by simp
      then have neg: "fe_value x * fe_value x * fe_value v mod P25519 = (0 - fe_value u) mod P25519"
        using vx2(2) nu(2) by simp
      show ?thesis
        using sqrtm1_root [OF neg sqrtm1_value] False x u_red
        by (simp add: x1_def fe_values fe_carried mod_simps)
    qed
  qed
  have x2: "carried x2" "fe_value x2 * fe_value x2 mod P25519 = fe_value x1 * fe_value x1 mod P25519"
  proof -
    show "carried x2" using x1(1) by (simp add: x2_def fe_carried)
    have "(0 - a) mod P25519 * ((0 - a) mod P25519) mod P25519 = (0 - a) * (0 - a) mod P25519" for a
      by (rule mod_mult_eq)
    then show "fe_value x2 * fe_value x2 mod P25519 = fe_value x1 * fe_value x1 mod P25519"
      using x1(1) by (simp add: x2_def fe_carried fe_values)
  qed
  have odd1: "int (v9x_ed25519_fe_is_odd x1) = fe_value x1 mod 2" by (rule fe_is_odd_eq [OF x1(1)])
  have parity: "fe_value x2 mod 2 = int x_0"
  proof (cases "v9x_ed25519_fe_is_odd x1 = x_0")
    case True
    then show ?thesis using odd1 by (simp add: x2_def)
  next
    case False
    have "fe_value x1 \<noteq> 0"
      using False odd1 dec(3) fe_is_zero_iff [OF x1(1)] x0_le by auto
    then have "(0 - fe_value x1) mod P25519 mod 2 = 1 - fe_value x1 mod 2"
      using neg_parity [of "fe_value x1"] fe_value_range [of x1] by simp
    moreover have "fe_value x2 = (0 - fe_value x1) mod P25519"
      using False x1(1) by (simp add: x2_def fe_values fe_carried)
    moreover have "1 - fe_value x1 mod 2 = int x_0"
      using False odd1 x0_le by (cases x_0) auto
    ultimately show ?thesis by simp
  qed
  have p: "pt_x p = x2" "pt_y p = y" "pt_z p = v9x_ed25519_fe_set_small 1" "pt_t p = v9x_ed25519_fe_mul x2 y"
    by (simp_all add: dec(4))
  show "point_ok p" using x2 y by (simp add: point_ok_def p fe_carried)
  show "fe_value (pt_z p) = 1" by (simp add: p fe_values)
  show "fe_value (pt_t p) = fe_value (pt_x p) * fe_value (pt_y p) mod P25519"
    using x2 y by (simp add: p fe_values)
  show "int (le_value (take 32 input)) = fe_value (pt_y p) + 2 ^ 255 * (fe_value (pt_x p) mod 2)"
    using total y(2) parity by (simp add: p b(1))
  show "on_curve (fe_value (pt_x p)) (fe_value (pt_y p))"
  proof (rule decode_curve)
    have "fe_value x2 * fe_value x2 * fe_value v mod P25519 = fe_value u"
      using x1(2) x2(2) by (metis mod_mult_left_eq)
    then show "fe_value (pt_x p) * fe_value (pt_x p) * (D25519 * (fe_value (pt_y p) * fe_value (pt_y p)) + 1) mod P25519 =
        (fe_value (pt_y p) * fe_value (pt_y p) - 1) mod P25519"
      unfolding p using uv(2,4) by (simp add: mod_simps)
  qed
qed


subsection \<open>What the functions promise\<close>

text \<open>The message length is a 32-bit parameter.\<close>

definition challenge_scalar :: "bytes \<Rightarrow> nat" where
  "challenge_scalar m = le_value (fips512 m) mod L25519"

lemma length_fips512: "length (fips512 m) = 64"
proof -
  have "length (fips512_compress H b) = 8" if "length H = 8" for H b
    using that by (simp add: fips512_compress_def split: prod.splits)
  then have "length H = 8 \<Longrightarrow> length (foldl fips512_compress H bs) = 8" for H bs
    by (induction bs arbitrary: H) simp_all
  then have "length (foldl fips512_compress fips512_H0 bs) = 8" for bs
    by (simp add: fips512_H0_def)
  then show ?thesis
    by (simp add: fips512_def length_concat comp_def sum_list_triv)
qed

lemma sha512_local_ok: "length (s512_buffer sha512_local) = 128"
  by (simp add: sha512_local_def)

lemma sha512_chunks:
  assumes "\<forall>data \<in> set chunks. length data < 2 ^ 32" "length (concat chunks) < 2 ^ 64"
  shows "fst (v9x_sha512_final (fold v9x_sha512_update chunks (v9x_sha512_init sha512_local))) =
    fips512 (concat chunks)"
  using sha512_stream [OF sha512_local_ok assms] by (simp add: sha512_of_def)

lemma challenge_spec:
  assumes "length r \<ge> 32" "length pk \<ge> 32" "length message < 2 ^ 32"
  shows "length (v9x_ed25519_challenge r pk message) = 32"
    and "le_value (v9x_ed25519_challenge r pk message) = challenge_scalar (take 32 r @ take 32 pk @ message)"
proof -
  have "v9x_ed25519_challenge r pk message =
      v9x_ed25519_scalar_reduce (fips512 (take 32 r @ take 32 pk @ message))"
    using sha512_chunks [of "[take 32 r, take 32 pk, message]"] assms
    by (simp add: v9x_ed25519_challenge_def Let_def)
  then show "length (v9x_ed25519_challenge r pk message) = 32"
    and "le_value (v9x_ed25519_challenge r pk message) = challenge_scalar (take 32 r @ take 32 pk @ message)"
    using scalar_reduce_spec [OF length_fips512] by (simp_all add: challenge_scalar_def)
qed


text \<open>The scalar of a seed: RFC 8032, section 5.1.5.\<close>

definition seed_scalar :: "bytes \<Rightarrow> nat" where
  "seed_scalar seed = (let h = le_value (take 32 (fips512 seed)) in
     h mod 2 ^ 254 div 8 * 8 + 2 ^ 254)"

lemma length_point_encode:
  "point_ok p \<Longrightarrow> length (v9x_ed25519_point_encode p) = 32"
  by (rule point_encode_spec(1))

lemma point_encode_base: "length (v9x_ed25519_point_encode (v9x_ed25519_point_scalar_mul v9x_ed25519_point_base s)) = 32"
  by (intro length_point_encode point_scalar_mul_ok point_base_ok)

lemma unat_and_0xf8: "unat (b AND 0xF8) = unat b div 8 * 8" for b :: u8
proof -
  have "b AND 0xF8 = push_bit 3 (drop_bit 3 b)"
  proof (rule bit_word_eqI)
    fix n assume "n < LENGTH(8)"
    then have "n \<in> {0, 1, 2, 3, 4, 5, 6, 7}" by auto
    then show "bit (b AND 0xF8) n = bit (push_bit 3 (drop_bit 3 b)) n"
      by (auto simp: bit_and_iff bit_push_bit_iff bit_drop_bit_eq bit_numeral_word_iff)
  qed
  then have "unat (b AND 0xF8) = unat (drop_bit 3 b) * 8 mod 256"
    by (simp add: push_bit_eq_mult unat_word_ariths)
  also have "unat (drop_bit 3 b) = unat b div 8" by (simp only: unat_drop_bit_eq) (simp add: drop_bit_eq_div)
  also have "unat b div 8 * 8 mod 256 = unat b div 8 * 8"
    using unat_u8_less [of b] by (intro mod_less) linarith
  finally show ?thesis .
qed

lemma unat_clamp_top: "unat ((b AND 0x7F) OR 0x40) = unat b mod 64 + 64" for b :: u8
proof -
  have "(b AND 0x7F) OR 0x40 = take_bit 6 b + 0x40"
  proof -
    have "(b AND 0x7F) OR 0x40 = take_bit 6 b OR 0x40"
    proof (rule bit_word_eqI)
      fix n assume "n < LENGTH(8)"
      then have "n \<in> {0, 1, 2, 3, 4, 5, 6, 7}" by auto
      then show "bit ((b AND 0x7F) OR 0x40) n = bit (take_bit 6 b OR 0x40) n"
        by (auto simp: bit_and_iff bit_or_iff bit_take_bit_iff bit_numeral_word_iff)
    qed
    also have "\<dots> = take_bit 6 b + 0x40"
    proof (rule disjunctive_add_eq_or [symmetric], rule bit_word_eqI)
      fix n assume "n < LENGTH(8)"
      then have "n \<in> {0, 1, 2, 3, 4, 5, 6, 7}" by auto
      then show "bit (take_bit 6 b AND 0x40) n = bit 0 n"
        by (auto simp: bit_and_iff bit_take_bit_iff bit_numeral_word_iff)
    qed
    finally show ?thesis .
  qed
  moreover have "unat (take_bit 6 b) = unat b mod 64"
    by (simp only: unsigned_take_bit_eq) (simp add: take_bit_eq_mod)
  moreover have "unat b mod 64 < 64" by simp
  ultimately show ?thesis by (simp add: unat_word_ariths)
qed

lemma expand_seed_spec:
  assumes "length seed = 32"
  obtains scalar where "v9x_ed25519_expand_seed seed = (scalar, drop 32 (fips512 seed))"
    "length scalar = 32" "le_value scalar = seed_scalar seed"
proof -
  define d where "d = take 32 (fips512 seed)"
  have d: "length d = 32" by (simp add: d_def length_fips512)
  define s1 where "s1 = d[0 := d ! 0 AND 0xF8]"
  define s2 where "s2 = s1[31 := (s1 ! 31 AND 0x7F) OR 0x40]"
  have "fst (v9x_sha512_final (v9x_sha512_update seed (v9x_sha512_init sha512_local))) = fips512 seed"
    using sha512_chunks [of "[seed]"] assms by simp
  then have e: "v9x_ed25519_expand_seed seed = (s2, drop 32 (fips512 seed))"
    using length_fips512 [of seed] by (simp add: v9x_ed25519_expand_seed_def Let_def s2_def s1_def d_def)
  have len: "length s2 = 32" by (simp add: s2_def s1_def d)
  define low where "low = le_value (take 31 d)"
  define t where "t = unat (d ! 31)"
  have h: "le_value d = low + 2 ^ 248 * t" and low: "low < 2 ^ 248"
    using top_byte [OF d] by (simp_all add: low_def t_def)
  have d0: "unat (d ! 0) mod 8 = low mod 8"
  proof -
    obtain x xs where "take 31 d = x # xs" using d by (cases d) auto
    moreover have "(a + 256 * b) mod 8 = a mod 8" for a b :: nat by presburger
    ultimately show ?thesis using d by (cases d) (auto simp: low_def)
  qed
  have m8: "int (n div 8 * 8) - int n = - int (n mod 8)" for n :: nat
    using div_mult_mod_eq [of n 8] by linarith
  have v1: "int (le_value s1) = int (le_value d) - int (low mod 8)"
    using d d0 m8 [of "unat (d ! 0)"]
    by (simp add: s1_def le_value_update unat_and_0xf8 del: of_nat_unat)
  have v2: "int (le_value s2) = int (le_value s1) + (int (t mod 64) + 64 - int t) * 2 ^ 248"
    using d by (simp add: s2_def s1_def le_value_update unat_clamp_top t_def del: of_nat_unat)
  have lm: "low = low div 8 * 8 + low mod 8" by simp
  have v: "int (le_value s2) = int (low div 8 * 8 + 2 ^ 248 * (t mod 64) + 2 ^ 254)"
    unfolding v2 v1 h using m8 [of low] by simp
  have "le_value d mod 2 ^ 254 = low + 2 ^ 248 * (t mod 64)"
  proof -
    have "2 ^ 248 * t = 2 ^ 248 * (t mod 64) + 2 ^ 248 * (64 * (t div 64))"
      by (simp only: distrib_left [symmetric] mod_mult_div_eq)
    then have "low + 2 ^ 248 * t = low + 2 ^ 248 * (t mod 64) + (t div 64) * 2 ^ 254"
      by simp
    moreover have "low + 2 ^ 248 * (t mod 64) < 2 ^ 254"
      using low mod_less_divisor [of 64 t] by simp
    ultimately show ?thesis unfolding h by (metis mod_less mod_mult_self1)
  qed
  moreover have "(low + 2 ^ 248 * (t mod 64)) div 8 * 8 = low div 8 * 8 + 2 ^ 248 * (t mod 64)"
  proof -
    have "(low + 8 * j) div 8 * 8 = low div 8 * 8 + 8 * j" for j by simp
    from this [of "2 ^ 245 * (t mod 64)"] show ?thesis by (simp only: mult.assoc [symmetric]) simp
  qed
  ultimately have "seed_scalar seed = low div 8 * 8 + 2 ^ 248 * (t mod 64) + 2 ^ 254"
    by (simp only: seed_scalar_def Let_def d_def [symmetric])
  then have "le_value s2 = seed_scalar seed" using v by simp
  then show ?thesis using e len that by blast
qed

text \<open>C38. Every field operation takes carried limbs to carried limbs and computes modulo p; no
  32-bit word overflows on the way.\<close>

theorem field_arithmetic:
  assumes "carried a" "carried b" "length e = 32"
  shows "carried (v9x_ed25519_fe_add a b) \<and> carried (v9x_ed25519_fe_sub a b) \<and>
    carried (v9x_ed25519_fe_mul a b) \<and> carried (v9x_ed25519_fe_pow a e) \<and>
    fe_value (v9x_ed25519_fe_add a b) = (fe_value a + fe_value b) mod P25519 \<and>
    fe_value (v9x_ed25519_fe_sub a b) = (fe_value a - fe_value b) mod P25519 \<and>
    fe_value (v9x_ed25519_fe_mul a b) = fe_value a * fe_value b mod P25519 \<and>
    fe_value (v9x_ed25519_fe_pow a e) = fe_value a ^ le_value e mod P25519 \<and>
    fe_value (v9x_ed25519_fe_invert a) = fe_value a ^ nat (P25519 - 2) mod P25519"
proof -
  have "nat (P25519 - 2) = 2 ^ 255 - 21" by (simp add: P25519_def)
  then show ?thesis using assms by (simp add: fe_carried fe_values)
qed

theorem field_arithmetic_witness:
  "carried (v9x_ed25519_fe_mul (v9x_ed25519_fe_set_small 293) (v9x_ed25519_fe_set_small 2)) \<and>
   fe_value (v9x_ed25519_fe_mul (v9x_ed25519_fe_set_small 293) (v9x_ed25519_fe_set_small 2)) = 586"
proof -
  have ok: "carried (v9x_ed25519_fe_set_small 293)" "carried (v9x_ed25519_fe_set_small 2)"
    by (simp_all add: fe_set_small_spec)
  have "length (replicate 32 (0::u8)) = 32" by simp
  note f = field_arithmetic [OF ok this]
  have m: "carried (v9x_ed25519_fe_mul (v9x_ed25519_fe_set_small 293) (v9x_ed25519_fe_set_small 2))"
    "fe_value (v9x_ed25519_fe_mul (v9x_ed25519_fe_set_small 293) (v9x_ed25519_fe_set_small 2)) =
      fe_value (v9x_ed25519_fe_set_small 293) * fe_value (v9x_ed25519_fe_set_small 2) mod P25519"
    using f by blast+
  then show ?thesis by (simp add: fe_set_small_spec(2)) (simp add: P25519_def)
qed

text \<open>The byte form of a field element is the one 32-byte little-endian number below p with
  its value, from any limbs below 2^31; so two elements are equal modulo p exactly when
  \<open>v9x_ed25519_fe_equal\<close> says so.\<close>

theorem to_bytes_canonical:
  assumes "length a = 32" "\<forall>x \<in> set a. unat x < 2 ^ 31" "carried b" "carried c"
  shows "v9x_ed25519_fe_to_bytes a = le_digits 32 (nat (int (le_value a) mod P25519)) \<and>
    (v9x_ed25519_fe_equal b c \<longleftrightarrow> int (le_value b) mod P25519 = int (le_value c) mod P25519)"
proof -
  note t = fe_to_bytes_limbs [OF assms(1,2)]
  then have "nat (fe_value a) = le_value (v9x_ed25519_fe_to_bytes a)" by linarith
  then have "v9x_ed25519_fe_to_bytes a = le_digits 32 (nat (int (le_value a) mod P25519))"
    using le_digits_value [of "v9x_ed25519_fe_to_bytes a"] t by (simp add: fe_value_def)
  then show ?thesis using fe_equal_iff [OF assms(3,4)] by (simp add: fe_value_def)
qed

theorem to_bytes_canonical_witness:
  "v9x_ed25519_fe_to_bytes (replicate 32 0x7FFFFFFF) =
     le_digits 32 (nat (int (le_value (replicate 32 (0x7FFFFFFF :: u32))) mod P25519)) \<and>
   \<not> v9x_ed25519_fe_equal (v9x_ed25519_fe_set_small 5) (v9x_ed25519_fe_set_small 6)"
  using to_bytes_canonical [of "replicate 32 0x7FFFFFFF" "v9x_ed25519_fe_set_small 5" "v9x_ed25519_fe_set_small 6"]
    fe_set_small_spec [of 5] fe_set_small_spec [of 6]
  by (simp add: fe_value_def)

text \<open>Scalar arithmetic: the binary long division computes the remainder modulo L of any 64
  bytes, and \<open>v9x_ed25519_scalar_muladd\<close> computes \<open>(a b + c) mod L\<close>.\<close>

theorem scalar_arithmetic:
  assumes "length a = 32" "length b = 32" "length c = 32" "length w = 64"
  shows "v9x_ed25519_scalar_reduce w = le_digits 32 (le_value w mod L25519) \<and>
    v9x_ed25519_scalar_muladd a b c = le_digits 32 ((le_value a * le_value b + le_value c) mod L25519)"
  using scalar_reduce_spec [OF assms(4)] scalar_muladd_spec [OF assms(1-3)]
    le_digits_value [of "v9x_ed25519_scalar_reduce w"] le_digits_value [of "v9x_ed25519_scalar_muladd a b c"]
  by simp

theorem scalar_arithmetic_witness:
  "v9x_ed25519_scalar_muladd (3 # replicate 31 0) (4 # replicate 31 0) (5 # replicate 31 0) = le_digits 32 17"
  using scalar_arithmetic [of "3 # replicate 31 0" "4 # replicate 31 0" "5 # replicate 31 0" "replicate 64 0"]
  by (simp add: L25519_def)

lemma curve_check:
  fixes x y a b c e p d :: int
  assumes "x * x = a + p * q1" "y * y = b + p * q2" "d * a = c + p * q3" "c * b = e + p * q4"
    "b - a = 1 + e + p * q5"
  shows "(y * y - x * x) mod p = (1 + d * (x * x) * (y * y)) mod p"
proof -
  have "d * (x * x) * (y * y) = e + p * (q4 + b * q3 + q1 * d * b + q2 * (d * (a + p * q1)))"
  proof -
    have "d * (x * x) * (y * y) = d * (a + p * q1) * (b + p * q2)" by (simp only: assms(1,2))
    also have "\<dots> = (d * a) * b + p * (q1 * d * b + q2 * (d * (a + p * q1)))" by (simp add: algebra_simps)
    also have "(d * a) * b = c * b + p * (b * q3)" unfolding assms(3) by (simp add: algebra_simps)
    finally show ?thesis unfolding assms(4) by (simp add: algebra_simps)
  qed
  then have "(1 + d * (x * x) * (y * y)) mod p = (1 + e) mod p"
    by (simp only: add.assoc [symmetric] mod_mult_self2)
  moreover have "y * y - x * x = 1 + e + p * (q5 + q2 - q1)"
    using assms(1,2,5) by (simp add: algebra_simps)
  then have "(y * y - x * x) mod p = (1 + e) mod p" by (simp only: mod_mult_self2)
  ultimately show ?thesis by simp
qed

text \<open>The curve constants are those of RFC 8032: \<open>d = -121665/121666\<close>, the square root of -1,
  the base point with \<open>y = 4/5\<close> and even \<open>x\<close> on the curve, and the bytes of p and L.\<close>

theorem curve_constants:
  "121666 * int (le_value v9x_ed25519_d_bytes) mod P25519 = (- 121665) mod P25519 \<and>
   int (le_value v9x_ed25519_sqrtm1_bytes) ^ 2 mod P25519 = (- 1) mod P25519 \<and>
   5 * int (le_value v9x_ed25519_base_y_bytes) mod P25519 = 4 \<and>
   even (le_value v9x_ed25519_base_x_bytes) \<and>
   on_curve (int (le_value v9x_ed25519_base_x_bytes)) (int (le_value v9x_ed25519_base_y_bytes)) \<and>
   int (le_value v9x_ed25519_p_bytes) = P25519 \<and> le_value v9x_ed25519_l_bytes = L25519"
proof (intro conjI)
  have x: "le_value v9x_ed25519_base_x_bytes = 15112221349535400772501151409588531511454012693041857206046113283949847762202"
    by (simp add: v9x_ed25519_base_x_bytes_def)
  have y: "le_value v9x_ed25519_base_y_bytes = 46316835694926478169428394003475163141307993866256225615783033603165251855960"
    by (simp add: v9x_ed25519_base_y_bytes_def)
  have s: "le_value v9x_ed25519_sqrtm1_bytes = 19681161376707505956807079304988542015446066515923890162744021073123829784752"
    by (simp add: v9x_ed25519_sqrtm1_bytes_def)
  have d: "int (le_value v9x_ed25519_d_bytes) = D25519"
    by (simp add: v9x_ed25519_d_bytes_def D25519_def)
  show "121666 * int (le_value v9x_ed25519_d_bytes) mod P25519 = (- 121665) mod P25519"
    unfolding d by (rule d_is_quotient)
  show "int (le_value v9x_ed25519_sqrtm1_bytes) ^ 2 mod P25519 = (- 1) mod P25519"
  proof -
    have "(19681161376707505956807079304988542015446066515923890162744021073123829784752 :: int) ^ 2 =
        - 1 + P25519 * 6690407189080634018507799843845558368979872843924222843531373839242004886245"
      by (simp add: P25519_def power2_eq_square)
    then show ?thesis unfolding s of_nat_numeral by (simp only: mod_mult_self2)
  qed
  show "5 * int (le_value v9x_ed25519_base_y_bytes) mod P25519 = 4"
    unfolding y by (simp add: P25519_def)
  show "even (le_value v9x_ed25519_base_x_bytes)" unfolding x by simp
  show "on_curve (int (le_value v9x_ed25519_base_x_bytes)) (int (le_value v9x_ed25519_base_y_bytes))"
  proof -
    have xx: "(15112221349535400772501151409588531511454012693041857206046113283949847762202 :: int) *
        15112221349535400772501151409588531511454012693041857206046113283949847762202 =
        26187595835145689230469591415084376402084551887632582719101735842039498021991 +
        P25519 * 3944643120641682540557488748386534817562863454810087094083181913524639656337"
      by (simp add: P25519_def)
    have yy: "(46316835694926478169428394003475163141307993866256225615783033603165251855960 :: int) *
        46316835694926478169428394003475163141307993866256225615783033603165251855960 =
        37053468555941182535542715202780130513046395093004980492626426882532201484768 +
        P25519 * 37053468555941182535542715202780130513046395093004980492626426882532201484768"
      by (simp add: P25519_def)
    have dxx: "D25519 * 26187595835145689230469591415084376402084551887632582719101735842039498021991 =
        45925948435572007145069502170446592761695376174804512530996725752748131570562 +
        P25519 * 16779166187174577975451292873628643683728414202820820819847581227016496542207"
      by (simp add: P25519_def D25519_def)
    have dxxyy: "45925948435572007145069502170446592761695376174804512530996725752748131570562 *
        37053468555941182535542715202780130513046395093004980492626426882532201484768 =
        10865872720795493305073123787695754110961843205372397773524691040492703462776 +
        P25519 * 29392606998766084572844481389085819367485040751874888019837904481758804205160"
      by (simp add: P25519_def)
    have last: "37053468555941182535542715202780130513046395093004980492626426882532201484768 -
        26187595835145689230469591415084376402084551887632582719101735842039498021991 = 1 +
        10865872720795493305073123787695754110961843205372397773524691040492703462776 + P25519 * (0)"
      by (simp add: P25519_def)
    show ?thesis
      unfolding x y on_curve_def of_nat_numeral
      by (rule curve_check [OF xx yy dxx dxxyy last])
  qed
qed (rule p_bytes_value l_bytes_value)+

text \<open>C19. Decoding is strict: what it accepts is the encoding of the point it returns, which lies
  on the curve.\<close>

theorem decode_encode:
  assumes "v9x_ed25519_point_decode input = Some p" "length input \<ge> 32"
  shows "v9x_ed25519_point_encode p = take 32 input \<and> on_curve (fe_value (pt_x p)) (fe_value (pt_y p))"
proof -
  note dec = point_decode_spec [OF assms]
  note enc = point_encode_spec [OF dec(1), unfolded dec(2) power_one]
  have "int (le_value (v9x_ed25519_point_encode p)) = int (le_value (take 32 input))"
    using enc(2) dec(4) fe_value_range by (simp add: P25519_pos)
  then have "v9x_ed25519_point_encode p = take 32 input"
    using le_value_inj [of "v9x_ed25519_point_encode p" "take 32 input"] enc(1) assms(2) by simp
  then show ?thesis using dec(5) by simp
qed


text \<open>A concrete accepted encoding: the neutral element, \<open>y = 1\<close> and \<open>x = 0\<close>.\<close>

definition identity_bytes :: bytes where
  "identity_bytes = 1 # replicate 31 0"

lemma decode_identity: "\<exists>p. v9x_ed25519_point_decode identity_bytes = Some p"
proof -
  define y where "y = v9x_ed25519_fe_from_bytes identity_bytes"
  have len: "length identity_bytes = 32" and val: "le_value identity_bytes = 1"
    by (simp_all add: identity_bytes_def)
  have y: "carried y" "fe_value y = 1"
    unfolding y_def using len val by (simp_all add: fe_carried fe_values)
  have b: "map (\<lambda>i. identity_bytes ! i) [0..<32] = identity_bytes"
    using len by (metis map_nth)
  have top0: "identity_bytes ! 31 = 0" by (simp add: identity_bytes_def)
  have top: "identity_bytes ! 31 = 0" "identity_bytes[31 := 0] = identity_bytes"
    using top0 list_update_id [of identity_bytes 31] by simp_all
  have canonical: "v9x_ed25519_fe_to_bytes y = identity_bytes"
    using fe_to_bytes_spec [OF y(1)] y(2) val len
      le_value_inj [of "v9x_ed25519_fe_to_bytes y" identity_bytes] by simp
  note uv = decode_uv [OF y(1)]
  define u where "u = decode_u y"
  define v where "v = decode_v y"
  define x where "x = decode_root u v"
  have u: "carried u" "fe_value u = 0" using uv y by (simp_all add: u_def)
  have v: "carried v" using uv by (simp add: v_def)
  have x: "carried x" "fe_value x = 0"
    unfolding x_def using u v by (simp_all add: decode_root_carried)
      (simp add: decode_root_def Let_def fe_carried fe_values exponent_value)
  have "v9x_ed25519_fe_equal (v9x_ed25519_fe_mul (v9x_ed25519_fe_square x) v) u"
    using x u v by (subst fe_equal_iff) (simp_all add: fe_carried fe_values)
  then show ?thesis
    unfolding v9x_ed25519_point_decode_def Let_def b
    using len top canonical bytes_equal_iff [of identity_bytes 32 identity_bytes]
    by (simp add: y_def [symmetric] u_def [symmetric] v_def [symmetric] x_def [symmetric])
qed

theorem decode_encode_witness:
  "\<exists>p. v9x_ed25519_point_decode identity_bytes = Some p \<and>
     v9x_ed25519_point_encode p = identity_bytes"
proof -
  obtain p where p: "v9x_ed25519_point_decode identity_bytes = Some p" using decode_identity by blast
  have "length identity_bytes = 32" by (simp add: identity_bytes_def)
  then show ?thesis using p decode_encode [OF p] by simp
qed

text \<open>C3. Verification, in full: S must be below L, both encodings must decode strictly, and the
  cofactorless equation is compared by encodings, with k the SHA-512 of R, A and the message
  modulo L. In particular no S at or above L is ever accepted.\<close>

theorem verify_spec:
  assumes "length signature = 64" "length public_key = 32" "length message < 2 ^ 32"
  shows "v9x_ed25519_verify signature public_key message \<longleftrightarrow>
    le_value (drop 32 signature) < L25519 \<and>
    (\<exists>a r. v9x_ed25519_point_decode public_key = Some a \<and> v9x_ed25519_point_decode signature = Some r \<and>
      v9x_ed25519_point_encode (v9x_ed25519_point_scalar_mul v9x_ed25519_point_base (drop 32 signature)) =
      v9x_ed25519_point_encode (v9x_ed25519_point_add r (v9x_ed25519_point_scalar_mul a
        (le_digits 32 (challenge_scalar (take 32 signature @ public_key @ message))))))"
proof -
  have len: "length (drop 32 signature) = 32" "length v9x_ed25519_l_bytes = 32"
    using assms by (simp_all add: v9x_ed25519_l_bytes_def)
  have ge: "v9x_ed25519_bytes_ge (drop 32 signature) v9x_ed25519_l_bytes \<longleftrightarrow>
      L25519 \<le> le_value (drop 32 signature)"
    using bytes_ge_value [OF len] by (simp add: l_bytes_value)
  have k: "v9x_ed25519_challenge signature public_key message =
      le_digits 32 (challenge_scalar (take 32 signature @ public_key @ message))"
    using challenge_spec [of signature public_key message] assms
      le_digits_value [of "v9x_ed25519_challenge signature public_key message"] by simp
  have eq: "v9x_ed25519_bytes_equal (v9x_ed25519_point_encode p) (v9x_ed25519_point_encode q) 32 \<longleftrightarrow>
      v9x_ed25519_point_encode p = v9x_ed25519_point_encode q" if "point_ok p" "point_ok q" for p q
    using that by (intro bytes_equal_iff length_point_encode)
  have ok: "point_ok p" if "v9x_ed25519_point_decode b = Some p" "length b \<ge> 32" for b p
    using point_decode_spec(1) [OF that] .
  have eq': "v9x_ed25519_bytes_equal (v9x_ed25519_point_encode (v9x_ed25519_point_scalar_mul v9x_ed25519_point_base s))
       (v9x_ed25519_point_encode (v9x_ed25519_point_add r (v9x_ed25519_point_scalar_mul a kk))) 32 \<longleftrightarrow>
     v9x_ed25519_point_encode (v9x_ed25519_point_scalar_mul v9x_ed25519_point_base s) =
     v9x_ed25519_point_encode (v9x_ed25519_point_add r (v9x_ed25519_point_scalar_mul a kk))"
    if "v9x_ed25519_point_decode public_key = Some a" "v9x_ed25519_point_decode signature = Some r" for a r s kk
    using that assms by (intro eq point_scalar_mul_ok point_base_ok point_add_ok) (auto intro: ok)
  show ?thesis
    unfolding v9x_ed25519_verify_def Let_def ge k
    using eq' by (auto split: option.splits)
qed

theorem verify_spec_witness:
  "\<not> v9x_ed25519_verify (replicate 32 0 @ v9x_ed25519_l_bytes) identity_bytes [1, 2, 3]"
proof -
  have "length v9x_ed25519_l_bytes = 32" by (simp add: v9x_ed25519_l_bytes_def)
  then show ?thesis
    using verify_spec [of "replicate 32 0 @ v9x_ed25519_l_bytes" identity_bytes "[1, 2, 3]"]
    by (simp add: identity_bytes_def l_bytes_value)
qed

text \<open>C22. Signing: the second half of the signature is \<open>S = (k s + r) mod L\<close>, below L, and the first
  half encodes \<open>[r] B\<close>, with r the hash of the prefix and the message and k the challenge.\<close>

theorem sign_spec:
  assumes "length seed = 32" "length public_key = 32" "length message < 2 ^ 32"
  shows "let h = fips512 seed; r = le_value (fips512 (drop 32 h @ message)) mod L25519;
      signature = v9x_ed25519_sign seed public_key message in
    length signature = 64 \<and>
    take 32 signature = v9x_ed25519_point_encode
      (v9x_ed25519_point_scalar_mul v9x_ed25519_point_base (le_digits 32 r)) \<and>
    le_value (drop 32 signature) =
      (challenge_scalar (take 32 signature @ public_key @ message) * seed_scalar seed + r) mod L25519 \<and>
    le_value (drop 32 signature) < L25519"
proof -
  obtain scalar where sc: "v9x_ed25519_expand_seed seed = (scalar, drop 32 (fips512 seed))"
    "length scalar = 32" "le_value scalar = seed_scalar seed"
    using expand_seed_spec [OF assms(1)] by blast
  define prefix where "prefix = drop 32 (fips512 seed)"
  define rb where "rb = v9x_ed25519_scalar_reduce (fips512 (prefix @ message))"
  define R where "R = v9x_ed25519_point_encode (v9x_ed25519_point_scalar_mul v9x_ed25519_point_base rb)"
  define k where "k = v9x_ed25519_challenge R public_key message"
  have plen: "length prefix = 32" by (simp add: prefix_def length_fips512)
  have hash: "fst (v9x_sha512_final (v9x_sha512_update message (v9x_sha512_update prefix
      (v9x_sha512_init sha512_local)))) = fips512 (prefix @ message)"
    using sha512_chunks [of "[prefix, message]"] plen assms(3) by simp
  have sig: "v9x_ed25519_sign seed public_key message = R @ v9x_ed25519_scalar_muladd k scalar rb"
    using sc hash by (simp add: v9x_ed25519_sign_def Let_def prefix_def R_def rb_def k_def)
  have rb: "length rb = 32" "le_value rb = le_value (fips512 (prefix @ message)) mod L25519"
    using scalar_reduce_spec [OF length_fips512] by (simp_all add: rb_def)
  have R: "length R = 32" unfolding R_def by (rule point_encode_base)
  have k: "length k = 32" "le_value k = challenge_scalar (R @ public_key @ message)"
    using challenge_spec [of R public_key message] assms R by (simp_all add: k_def)
  note S = scalar_muladd_spec [OF k(1) sc(2) rb(1)]
  have rb': "rb = le_digits 32 (le_value (fips512 (prefix @ message)) mod L25519)"
    using le_digits_value [of rb] rb by simp
  have L: "0 < L25519" by (simp add: L25519_def)
  show ?thesis
    unfolding Let_def prefix_def [symmetric] sig
    using S R k(2) rb(2) L sc(3) by (simp add: R_def [symmetric] rb' [symmetric])
qed

theorem sign_spec_witness:
  "length (v9x_ed25519_sign (replicate 32 7) (replicate 32 9) [1, 2, 3]) = 64 \<and>
   le_value (drop 32 (v9x_ed25519_sign (replicate 32 7) (replicate 32 9) [1, 2, 3])) < L25519"
  using sign_spec [of "replicate 32 7" "replicate 32 9" "[1, 2, 3]"] by (simp add: Let_def)

end
