(* ===== verification/UpdateRelease.thy ===== *)
theory UpdateRelease
  imports UpdateProto Ed25519
begin

section \<open>UpdateRelease: the signed release file\<close>

text \<open>
  \<^verbatim>\<open>include/v9xremote/update_release.h\<close> and \<^verbatim>\<open>src/common/update_release.c\<close>. The text is the list
  of its declared length; positions are natural numbers, and every indexed access is checked.
\<close>

subsection \<open>Constants\<close>

definition V9X_RELEASE_SCHEMA :: bytes where "V9X_RELEASE_SCHEMA = asc ''1''"
definition V9X_RELEASE_VERSION_MAX :: nat where "V9X_RELEASE_VERSION_MAX = 16"
definition V9X_RELEASE_BUILD_MAX :: nat where "V9X_RELEASE_BUILD_MAX = 48"
definition V9X_RELEASE_FILE_MAX :: nat where "V9X_RELEASE_FILE_MAX = 64"
definition V9X_RELEASE_FAMILY_MAX :: nat where "V9X_RELEASE_FAMILY_MAX = 24"
definition V9X_RELEASE_SECTION :: bytes where "V9X_RELEASE_SECTION = asc ''V9xRemoteRelease''"
definition V9X_RELEASE_SIGNATURE :: bytes where "V9X_RELEASE_SIGNATURE = asc ''[Signature]''"
definition V9X_RELEASE_KEY_NAME :: bytes where "V9X_RELEASE_KEY_NAME = asc ''Ed25519=''"
definition V9X_RELEASE_SIG_HEX :: nat where "V9X_RELEASE_SIG_HEX = 128"
definition V9X_RELEASE_SECTION_MAX :: nat where "V9X_RELEASE_SECTION_MAX = 8 + V9X_RELEASE_FAMILY_MAX"

lemmas release_consts =
  V9X_RELEASE_SCHEMA_def V9X_RELEASE_VERSION_MAX_def V9X_RELEASE_BUILD_MAX_def V9X_RELEASE_FILE_MAX_def
  V9X_RELEASE_FAMILY_MAX_def V9X_RELEASE_SECTION_def V9X_RELEASE_SIGNATURE_def V9X_RELEASE_KEY_NAME_def
  V9X_RELEASE_SIG_HEX_def V9X_RELEASE_SECTION_MAX_def

record release_info =
  rversion :: bytes
  rbuild :: bytes
  rfile :: bytes
  rsize :: u32
  rsha256 :: bytes

subsection \<open>Hexadecimal\<close>

text \<open>\<open>None\<close> is the -1 of the source.\<close>

definition v9x_release_hex_value :: "u8 \<Rightarrow> u8 option" where
  "v9x_release_hex_value c =
     (if c \<ge> 0x30 \<and> c \<le> 0x39 then Some (c - 0x30)
      else if c \<ge> 0x61 \<and> c \<le> 0x66 then Some (c - 0x61 + 10)
      else if c \<ge> 0x41 \<and> c \<le> 0x46 then Some (c - 0x41 + 10)
      else None)"

text \<open>The string must end after \<open>count\<close> pairs.\<close>

fun v9x_release_hex_bytes :: "bytes \<Rightarrow> nat \<Rightarrow> bytes option" where
  "v9x_release_hex_bytes hex 0 = (if hex = [] then Some [] else None)"
| "v9x_release_hex_bytes hex (Suc count) =
     (case hex of
        h # l # hex \<Rightarrow> do {
          high \<leftarrow> v9x_release_hex_value h;
          low \<leftarrow> v9x_release_hex_value l;
          bytes \<leftarrow> v9x_release_hex_bytes hex count;
          Some ((push_bit 4 high OR low) # bytes) }
      | _ \<Rightarrow> None)"

definition v9x_release_hex_digest :: "bytes \<Rightarrow> bytes option" where
  "v9x_release_hex_digest hex = v9x_release_hex_bytes hex 32"

subsection \<open>The signature section\<close>

fun v9x_release_at :: "bytes \<Rightarrow> nat \<Rightarrow> bytes \<Rightarrow> bool" where
  "v9x_release_at text position [] \<longleftrightarrow> True"
| "v9x_release_at text position (c # literal) \<longleftrightarrow>
     \<not> (position \<ge> length text \<or> text ! position \<noteq> c) \<and> v9x_release_at text (position + 1) literal"

text \<open>The scan for the section: \<open>None\<close> refuses a NUL or a second section; \<open>section_at\<close> is the place
  found so far.\<close>

fun find_section :: "bytes \<Rightarrow> nat \<Rightarrow> nat \<Rightarrow> nat option \<Rightarrow> nat option option" where
  "find_section text position 0 section_at = Some section_at"
| "find_section text position (Suc n) section_at =
     (if text ! position = 0 then None
      else if (position = 0 \<or> text ! (position - 1) = 0x0A) \<and>
              v9x_release_at text position V9X_RELEASE_SIGNATURE
      then (if section_at \<noteq> None then None else find_section text (position + 1) n (Some position))
      else find_section text (position + 1) n section_at)"

text \<open>The hex digits up to a line end or the end of the text; \<open>None\<close> when they do not fit.\<close>

fun take_hex :: "bytes \<Rightarrow> nat \<Rightarrow> nat \<Rightarrow> bytes \<Rightarrow> bytes option" where
  "take_hex text hex_start 0 hex = Some hex"
| "take_hex text hex_start (Suc n) hex =
     (let p = hex_start + length hex in
      if p < length text \<and> text ! p \<noteq> 0x0D \<and> text ! p \<noteq> 0x0A then
        (if length hex = V9X_RELEASE_SIG_HEX then None
         else take_hex text hex_start n (hex @ [text ! p]))
      else Some hex)"

text \<open>\<open>Some n\<close> is success with \<^verbatim>\<open>*signed_length\<close> n.\<close>

definition v9x_release_verify :: "bytes \<Rightarrow> bytes \<Rightarrow> nat option" where
  "v9x_release_verify text public_key =
     (case find_section text 0 (length text) None of
        Some (Some section_at) \<Rightarrow>
          let position = section_at + length V9X_RELEASE_SIGNATURE;
              position = (if position < length text \<and> text ! position = 0x0D then position + 1 else position)
          in
          if position \<ge> length text \<or> text ! position \<noteq> 0x0A then None
          else if \<not> v9x_release_at text (position + 1) V9X_RELEASE_KEY_NAME then None
          else
            let hex_start = position + 1 + length V9X_RELEASE_KEY_NAME in
            (case take_hex text hex_start (V9X_RELEASE_SIG_HEX + 1) [] of
               None \<Rightarrow> None
             | Some hex \<Rightarrow>
                 if length hex \<noteq> V9X_RELEASE_SIG_HEX then None
                 else
                   let position = hex_start + length hex;
                       position = (if position < length text \<and> text ! position = 0x0D
                                   then position + 1 else position);
                       position = (if position < length text \<and> text ! position = 0x0A
                                   then position + 1 else position)
                   in
                   if position \<noteq> length text then None
                   else
                     (case v9x_release_hex_bytes hex 64 of
                        None \<Rightarrow> None
                      | Some signature \<Rightarrow>
                          if \<not> v9x_ed25519_verify signature public_key (take section_at text) then None
                          else Some section_at))
      | _ \<Rightarrow> None)"

subsection \<open>The fields\<close>

definition v9x_release_plain_name :: "bytes \<Rightarrow> bool" where
  "v9x_release_plain_name name =
     (if name = [] \<or> hd name = 0x2E then False
      else list_all (\<lambda>c. update_is_alpha c \<or> c \<ge> 0x30 \<and> c \<le> 0x39 \<or> c = 0x2E \<or> c = 0x2D \<or> c = 0x5F) name)"

fun parse_u32_from :: "bytes \<Rightarrow> u32 \<Rightarrow> u32 option" where
  "parse_u32_from [] acc = Some acc"
| "parse_u32_from (c # text) acc =
     (if c < 0x30 \<or> c > 0x39 \<or> acc > 0x19999998 then None
      else parse_u32_from text (acc * 10 + ucast (c - 0x30)))"

definition v9x_release_parse_u32 :: "bytes \<Rightarrow> u32 option" where
  "v9x_release_parse_u32 text = (if text = [] then None else parse_u32_from text 0)"

text \<open>The section name of a family, built byte by byte in its buffer.\<close>

fun family_section :: "bytes \<Rightarrow> bytes \<Rightarrow> bytes option" where
  "family_section [] section_name = Some section_name"
| "family_section (c # family) section_name =
     (if length section_name + 1 \<ge> V9X_RELEASE_SECTION_MAX then None
      else family_section family (section_name @ [c]))"

text \<open>\<open>signed_text\<close> are the first \<^verbatim>\<open>signed_length\<close> bytes of the text; \<open>ini_field\<close> is one lookup, as an
  option: the value is read back as a C string, up to its first NUL.\<close>

definition ini_field :: "bytes \<Rightarrow> bytes \<Rightarrow> bytes \<Rightarrow> nat \<Rightarrow> bytes option" where
  "ini_field signed_text section_name key capacity =
     (case v9x_update_ini_value signed_text section_name key [] capacity of
        (ok, found) \<Rightarrow> if ok then Some (takeWhile (\<lambda>c. c \<noteq> 0) found) else None)"

definition v9x_release_read :: "bytes \<Rightarrow> nat \<Rightarrow> bytes \<Rightarrow> bytes \<Rightarrow> release_info option" where
  "v9x_release_read text signed_length app family = (
     let signed_text = take signed_length text in do {
     schema \<leftarrow> ini_field signed_text V9X_RELEASE_SECTION (asc ''Schema'') 72;
     if schema \<noteq> [hd V9X_RELEASE_SCHEMA] then None
     else do {
       app_found \<leftarrow> ini_field signed_text V9X_RELEASE_SECTION (asc ''App'') 72;
       if app_found \<noteq> app then None
       else do {
         version \<leftarrow> ini_field signed_text V9X_RELEASE_SECTION (asc ''Version'') V9X_RELEASE_VERSION_MAX;
         _ \<leftarrow> v9x_update_version_parse version;
         let build = (case ini_field signed_text V9X_RELEASE_SECTION (asc ''Build'') V9X_RELEASE_BUILD_MAX of
             None \<Rightarrow> [] | Some b \<Rightarrow> b);
         if \<not> v9x_release_plain_name family then None
         else do {
           section_name \<leftarrow> family_section family (asc ''Family.'');
           file_name \<leftarrow> ini_field signed_text section_name (asc ''File'') V9X_RELEASE_FILE_MAX;
           if \<not> v9x_release_plain_name file_name then None
           else do {
             size_text \<leftarrow> ini_field signed_text section_name (asc ''Size'') 72;
             size \<leftarrow> v9x_release_parse_u32 size_text;
             if size = 0 then None
             else do {
               digest_text \<leftarrow> ini_field signed_text section_name (asc ''Sha256'') 72;
               digest \<leftarrow> v9x_release_hex_digest digest_text;
               Some \<lparr>rversion = version, rbuild = build, rfile = file_name, rsize = size,
                     rsha256 = digest\<rparr> } } } } } })"

end
