(* ===== verification/UpdateHttp.thy ===== *)
theory UpdateHttp
  imports UpdateProps
begin

section \<open>UpdateHttp: what a response head means\<close>

text \<open>
  \<open>v9x_update_http_head\<close> walks one buffer with positions; here the same head is cut into lines first
  and each line is read on its own. The two agree on every buffer, so the walk reads only bytes it
  was given, and an accepted head has the bounds the downloader relies on.
\<close>

subsection \<open>Scans as list functions\<close>

definition slice :: "bytes \<Rightarrow> nat \<Rightarrow> nat \<Rightarrow> bytes" where
  "slice raw position n = take n (drop position raw)"

lemma slice_0 [simp]: "slice raw position 0 = []"
  by (simp add: slice_def)

lemma slice_Suc:
  "position < length raw \<Longrightarrow> slice raw position (Suc n) = raw ! position # slice raw (position + 1) n"
  by (simp add: slice_def Cons_nth_drop_Suc [symmetric])

lemma hd_slice: "0 < n \<Longrightarrow> position < length raw \<Longrightarrow> hd (slice raw position n) = raw ! position"
  by (cases n) (simp_all add: slice_Suc)

lemma length_slice [simp]: "position + n \<le> length raw \<Longrightarrow> length (slice raw position n) = n"
  by (simp add: slice_def)

lemma slice_split: "k \<le> n \<Longrightarrow> slice raw position n = slice raw position k @ slice raw (position + k) (n - k)"
  unfolding slice_def by (metis add.commute drop_drop le_add_diff_inverse take_add)

lemma scan_until_eq:
  "position + n \<le> length raw \<Longrightarrow>
   scan_until raw c position n = Some (position + length (takeWhile (\<lambda>x. x \<noteq> c) (slice raw position n)))"
proof (induction n arbitrary: position)
  case (Suc n)
  then show ?case by (simp add: rd_Some slice_Suc)
qed simp

lemma scan_over_eq:
  "position + n \<le> length raw \<Longrightarrow>
   scan_over raw c position n = Some (position + length (takeWhile (\<lambda>x. x = c) (slice raw position n)))"
proof (induction n arbitrary: position)
  case (Suc n)
  then show ?case by (simp add: rd_Some slice_Suc)
qed simp

lemma head_prefix_eq:
  "index + length lit \<le> length raw \<Longrightarrow>
   head_prefix raw index lit = Some (map v9x_update_lower (slice raw index (length lit)) = lit)"
proof (induction lit arbitrary: index)
  case (Cons v lit)
  then show ?case by (simp add: rd_Some slice_Suc)
qed simp

subsection \<open>Bounded decimals\<close>

fun dec32 :: "bytes \<Rightarrow> u32 \<Rightarrow> u32 option" where
  "dec32 [] acc = Some acc"
| "dec32 (c # cs) acc = (if acc > 0x19999998 then None else dec32 cs (acc * 10 + ucast (c - 0x30)))"

lemma dec32_value:
  assumes "list_all v9x_update_is_digit ds"
  shows "dec32 ds acc =
    (if ds = [] \<or> foldl (\<lambda>a c. a * 10 + unat (c - 0x30)) (unat acc) ds \<le> 4294967289
     then Some (of_nat (foldl (\<lambda>a c. a * 10 + unat (c - 0x30)) (unat acc) ds)) else None)"
  using assms
proof (induction ds arbitrary: acc)
  case (Cons c ds)
  let ?f = "\<lambda>a (c :: u8). a * 10 + unat (c - 0x30)"
  have d: "unat (c - 0x30) < 10" using Cons.prems digit_less by simp
  have le: "unat acc * 10 + unat (c - 0x30) \<le> foldl ?f (unat acc) (c # ds)"
    using dec_foldl_ge [of "unat acc * 10 + unat (c - 0x30)" ds] by simp
  show ?case
  proof (cases "acc > 0x19999998")
    case True
    then have "unat acc \<ge> 429496729" by (simp add: word_less_nat_alt)
    then show ?thesis using le True by simp
  next
    case False
    then have a: "unat acc \<le> 429496728" by (simp add: word_less_nat_alt)
    then have v: "unat (acc * 10 + ucast (c - 0x30)) = unat acc * 10 + unat (c - 0x30)"
      using d by (simp add: unat_word_ariths)
    have "dec32 ds (acc * 10 + ucast (c - 0x30)) =
      (if ds = [] \<or> foldl ?f (unat acc) (c # ds) \<le> 4294967289
       then Some (of_nat (foldl ?f (unat acc) (c # ds))) else None)"
      using Cons by (simp add: v)
    moreover have "foldl ?f (unat acc) (c # ds) \<le> 4294967289" if "ds = []"
      using that a d by simp
    ultimately show ?thesis using False by auto
  qed
qed simp

lemma length_digits_eq:
  "index + n \<le> length raw \<Longrightarrow>
   length_digits raw index n acc = Some (dec32 (takeWhile v9x_update_is_digit (slice raw index n)) acc)"
proof (induction n arbitrary: index acc)
  case (Suc n)
  then show ?case by (simp add: rd_Some slice_Suc)
qed simp

definition content_length :: "bytes \<Rightarrow> header_verdict" where
  "content_length ds = (if dec_value ds \<le> 4294967289 then HeaderLength (of_nat (dec_value ds)) else HeaderBad)"

lemma dec32_content_length:
  "ds \<noteq> [] \<Longrightarrow> list_all v9x_update_is_digit ds \<Longrightarrow>
   (case dec32 ds 0 of None \<Rightarrow> HeaderBad | Some v \<Rightarrow> HeaderLength v) = content_length ds"
  by (simp add: dec32_value content_length_def dec_value_def)

subsection \<open>One line\<close>

text \<open>The meaning of a header line, given with its line feed: only \<^verbatim>\<open>Content-Length\<close>, in any case, means
  anything.\<close>

definition header_meaning :: "bytes \<Rightarrow> header_verdict" where
  "header_meaning line =
     (let name = takeWhile (\<lambda>c. c \<noteq> 0x3A) line; rest = dropWhile (\<lambda>c. c \<noteq> 0x3A) line in
      if rest = [] \<or> map v9x_update_lower name \<noteq> asc ''content-length'' then HeaderSkip
      else let v = dropWhile (\<lambda>c. c = 0x20) (tl rest) in
        if v = [] \<or> \<not> v9x_update_is_digit (hd v) then HeaderBad
        else content_length (takeWhile v9x_update_is_digit v))"

lemma takeWhile_slice_drop:
  "position + n \<le> length raw \<Longrightarrow>
   slice raw (position + length (takeWhile P (slice raw position n)))
     (n - length (takeWhile P (slice raw position n))) = dropWhile P (slice raw position n)"
proof -
  assume "position + n \<le> length raw"
  let ?k = "length (takeWhile P (slice raw position n))"
  have "dropWhile P (slice raw position n) = drop ?k (slice raw position n)" by (rule dropWhile_eq_drop)
  also have "\<dots> = slice raw (position + ?k) (n - ?k)" by (simp add: slice_def drop_take add.commute)
  finally show ?thesis by simp
qed

lemma head_line_eq:
  assumes le: "start \<le> position" "position \<le> length raw"
  shows "head_line raw start position = Some (header_meaning (slice raw start (position - start)))"
proof -
  define line where "line = slice raw start (position - start)"
  define k where "k = length (takeWhile (\<lambda>c. c \<noteq> 0x3A) line)"
  have len: "length line = position - start" using le by (simp add: line_def)
  have colon: "scan_until raw 0x3A start (position - start) = Some (start + k)"
    using le scan_until_eq [where c = "0x3A", of start "position - start" raw] by (simp add: k_def line_def)
  have kle: "k \<le> position - start" unfolding k_def len [symmetric] by (rule length_takeWhile_le)
  have rest: "slice raw (start + k) (position - start - k) = dropWhile (\<lambda>c. c \<noteq> 0x3A) line"
    using takeWhile_slice_drop [where P = "\<lambda>c. c \<noteq> 0x3A", of start "position - start" raw] le
    by (simp add: line_def k_def)
  have none: "dropWhile (\<lambda>c. c \<noteq> 0x3A) line = [] \<longleftrightarrow> start + k \<ge> position"
  proof -
    have "length (dropWhile (\<lambda>c. c \<noteq> 0x3A) line) = position - start - k"
      using rest le kle by (metis (no_types, lifting) add_diff_assoc2 diff_diff_left length_slice
          le_add_diff_inverse nat_add_left_cancel_le)
    then show ?thesis using kle le by (metis diff_is_0_eq le_diff_conv2 length_0_conv add.commute diff_diff_left)
  qed
  show ?thesis
  proof (cases "start + k \<ge> position \<or> k \<noteq> 14")
    case True
    have "map v9x_update_lower (takeWhile (\<lambda>c. c \<noteq> 0x3A) line) \<noteq> asc ''content-length''" if "k \<noteq> 14"
    proof
      assume "map v9x_update_lower (takeWhile (\<lambda>c. c \<noteq> 0x3A) line) = asc ''content-length''"
      from arg_cong [OF this, of length] show False using that by (simp add: k_def)
    qed
    then have "header_meaning line = HeaderSkip" using True none by (auto simp: header_meaning_def)
    then show ?thesis using True by (auto simp: head_line_def colon line_def [symmetric])
  next
    case False
    then have k: "k = 14" "start + 14 < position" by simp_all
    have name: "head_prefix raw start (asc ''content-length'') =
        Some (map v9x_update_lower (takeWhile (\<lambda>c. c \<noteq> 0x3A) line) = asc ''content-length'')"
    proof -
      have "takeWhile (\<lambda>c. c \<noteq> 0x3A) line = take 14 line"
        unfolding k(1) [symmetric] unfolding k_def by (rule takeWhile_eq_take)
      then have "slice raw start 14 = takeWhile (\<lambda>c. c \<noteq> 0x3A) line"
        using k le by (simp add: line_def slice_def min_def)
      moreover have len14: "length (asc ''content-length'') = 14" by simp
      have "head_prefix raw start (asc ''content-length'') =
          Some (map v9x_update_lower (slice raw start 14) = asc ''content-length'')"
        by (rule head_prefix_eq [of start "asc ''content-length''" raw, unfolded len14]) (use k le in linarith)
      ultimately show ?thesis by (simp only:)
    qed
    define after where "after = slice raw (start + 15) (position - (start + 15))"
    have after: "after = tl (dropWhile (\<lambda>c. c \<noteq> 0x3A) line)"
    proof -
      have "Suc (position - (start + 15)) = position - start - k" using k by simp
      then have "dropWhile (\<lambda>c. c \<noteq> 0x3A) line = raw ! (start + 14) # after"
        using slice_Suc [of "start + 14" raw "position - (start + 15)"] k le rest
        by (simp add: after_def add.commute)
      then show ?thesis by simp
    qed
    define j where "j = length (takeWhile (\<lambda>c. c = 0x20) after)"
    have blanks: "scan_over raw 0x20 (start + 15) (position - (start + 15)) = Some (start + 15 + j)"
      using scan_over_eq [where c = "0x20", of "start + 15" "position - (start + 15)" raw] k le
      by (simp add: j_def after_def)
    have jle: "j \<le> position - (start + 15)"
      unfolding j_def using length_takeWhile_le [of "\<lambda>c. c = 0x20" after] le k by (simp add: after_def)
    define v where "v = slice raw (start + 15 + j) (position - (start + 15 + j))"
    have v: "v = dropWhile (\<lambda>c. c = 0x20) after"
      using takeWhile_slice_drop [where P = "\<lambda>c. c = 0x20", of "start + 15" "position - (start + 15)" raw] k le
      by (simp add: v_def j_def after_def)
    have lenv: "length v = position - (start + 15 + j)" using le k jle by (simp add: v_def)
    have digits: "length_digits raw (start + 15 + j) (position - (start + 15 + j)) 0 =
        Some (dec32 (takeWhile v9x_update_is_digit v) 0)"
      using length_digits_eq [of "start + 15 + j" "position - (start + 15 + j)" raw 0] le k jle
      by (simp add: v_def)
    have hdv: "rd raw (start + 15 + j) = Some (hd v)" if "start + 15 + j < position"
      using that le by (simp add: v_def rd_Some hd_slice)
    have verdict: "(case dec32 (takeWhile v9x_update_is_digit v) 0 of None \<Rightarrow> HeaderBad | Some v \<Rightarrow> HeaderLength v)
        = content_length (takeWhile v9x_update_is_digit v)" if "v \<noteq> []" "v9x_update_is_digit (hd v)"
      using that by (intro dec32_content_length) (cases v, simp_all add: list_all_iff, meson set_takeWhileD)
    have empty: "v = [] \<longleftrightarrow> position \<le> start + 15 + j"
      unfolding length_0_conv [symmetric] lenv by simp
    have means: "header_meaning line =
      (if map v9x_update_lower (takeWhile (\<lambda>c. c \<noteq> 0x3A) line) \<noteq> asc ''content-length'' then HeaderSkip
       else if v = [] \<or> \<not> v9x_update_is_digit (hd v) then HeaderBad
       else content_length (takeWhile v9x_update_is_digit v))"
      using none k by (auto simp: header_meaning_def after [symmetric] v [symmetric] Let_def)
    show ?thesis
      unfolding line_def [symmetric] means
      using k name blanks digits hdv verdict empty
      by (auto simp: head_line_def colon add.commute add.left_commute)
  qed
qed

subsection \<open>The lines of a head\<close>

function head_lines_of :: "bytes \<Rightarrow> bytes list" where
  "head_lines_of text = (if text = [] then [] else (ini_line text @ [0x0A]) # head_lines_of (ini_rest text))"
  by pat_completeness auto

termination head_lines_of
  by (relation "measure length") (auto simp: length_ini_rest)

declare head_lines_of.simps [simp del]

fun lines_meaning :: "bytes list \<Rightarrow> http_head \<Rightarrow> http_head \<times> (unit + unit)" where
  "lines_meaning [] h = (h, Inr ())"
| "lines_meaning (l # ls) h =
     (case header_meaning l of
        HeaderBad \<Rightarrow> (h, Inl ())
      | HeaderSkip \<Rightarrow> lines_meaning ls h
      | HeaderLength v \<Rightarrow> lines_meaning ls (h\<lparr>hlength := v\<rparr>))"

lemma first_line:
  assumes "0x0A \<in> set s"
  shows "length (ini_line s) < length s" "take (length (ini_line s) + 1) s = ini_line s @ [0x0A]"
    "ini_rest s = drop (length (ini_line s) + 1) s"
proof -
  obtain us vs where s: "s = us @ 0x0A # vs" "0x0A \<notin> set us" using split_list_first [OF assms] by auto
  have "ini_line s = us" unfolding s ini_line_def using s(2)
    by (subst takeWhile_append2) auto
  moreover have "dropWhile (\<lambda>c. c \<noteq> 0x0A) s = 0x0A # vs" unfolding s using s(2)
    by (subst dropWhile_append2) auto
  ultimately show "length (ini_line s) < length s" "take (length (ini_line s) + 1) s = ini_line s @ [0x0A]"
    "ini_rest s = drop (length (ini_line s) + 1) s"
    by (simp_all add: s ini_rest_def)
qed

lemma head_lines_eq:
  "position \<le> n \<Longrightarrow> n \<le> length raw \<Longrightarrow> n = 0 \<or> raw ! (n - 1) = 0x0A \<Longrightarrow>
   head_lines raw n position h = Some (lines_meaning (head_lines_of (slice raw position (n - position))) h)"
proof (induction raw n position h rule: head_lines.induct)
  case (1 raw n position h)
  show ?case
  proof (cases "position < n")
    case False
    then show ?thesis using 1 by (simp add: head_lines.simps head_lines_of.simps)
  next
    case True
    define s where "s = slice raw position (n - position)"
    have len: "length s = n - position" using 1 True by (simp add: s_def)
    have "s ! (n - position - 1) = 0x0A" using 1(4,5) True by (simp add: s_def slice_def)
    then have mem: "0x0A \<in> set s" using len True by (metis diff_less nth_mem zero_less_diff zero_less_one)
    note line = first_line [OF mem]
    define k where "k = length (ini_line s)"
    have k: "k < n - position" "position + k + 1 \<le> n" using line(1) by (simp_all add: k_def len)
    have lf: "scan_until raw 0x0A position (n - position) = Some (position + k)"
      using scan_until_eq [where c = "0x0A", of position "n - position" raw] 1(4) True
      by (simp add: k_def ini_line_def s_def)
    have l: "head_line raw position (position + k + 1) = Some (header_meaning (ini_line s @ [0x0A]))"
      unfolding line(2) [symmetric] k_def [symmetric]
      using head_line_eq [of position "position + k + 1" raw] k 1(4)
      by (simp add: s_def slice_def min_def)
    have rest: "ini_rest s = slice raw (position + k + 1) (n - (position + k + 1))"
      unfolding line(3) k_def [symmetric] by (simp add: s_def slice_def drop_take add.commute)
    have ih: "head_lines raw n (position + k + 1) g =
        Some (lines_meaning (head_lines_of (ini_rest s)) g)"
      if "header_meaning (ini_line s @ [0x0A]) = HeaderSkip \<and> g = h \<or>
          (\<exists>v. header_meaning (ini_line s @ [0x0A]) = HeaderLength v \<and> g = h\<lparr>hlength := v\<rparr>)" for g
      using that
    proof
      assume "header_meaning (ini_line s @ [0x0A]) = HeaderSkip \<and> g = h"
      then show ?thesis unfolding rest using 1(1) [OF True lf l] k 1(4,5) by simp
    next
      assume "\<exists>v. header_meaning (ini_line s @ [0x0A]) = HeaderLength v \<and> g = h\<lparr>hlength := v\<rparr>"
      then show ?thesis unfolding rest using 1(2) [OF True lf l] k 1(4,5) by auto
    qed
    have ne: "s \<noteq> []" using len True by auto
    show ?thesis
      unfolding s_def [symmetric]
      using True lf l ih ne
      by (simp add: head_lines.simps [of raw n position h] head_lines_of.simps [of s] split: header_verdict.splits)
  qed
qed

subsection \<open>The whole head\<close>

definition blank_after :: "bytes \<Rightarrow> nat \<Rightarrow> bool" where
  "blank_after raw i \<longleftrightarrow> raw ! i = 0x0A \<and>
     (i + 1 < length raw \<and> raw ! (i + 1) = 0x0A \<or>
      i + 2 < length raw \<and> raw ! (i + 1) = 0x0D \<and> raw ! (i + 2) = 0x0A)"

text \<open>The length of the head: up to and with the first empty line; 0 when there is none.\<close>

definition head_length :: "bytes \<Rightarrow> nat" where
  "head_length raw =
     (case find (blank_after raw) [0..<length raw] of
        None \<Rightarrow> 0 | Some i \<Rightarrow> if raw ! (i + 1) = 0x0A then i + 2 else i + 3)"

definition status_line :: "bytes \<Rightarrow> bool" where
  "status_line head \<longleftrightarrow> map v9x_update_lower (slice head 0 7) = asc ''http/1.'' \<and>
     v9x_update_is_digit (head ! 7) \<and> head ! 8 = 0x20 \<and> list_all v9x_update_is_digit (slice head 9 3)"

definition head_meaning :: "bytes \<Rightarrow> http_head \<Rightarrow> http_head \<times> (unit + unit)" where
  "head_meaning raw h =
     (let n = head_length raw in
      if n < 14 \<or> \<not> status_line raw then (h, Inl ())
      else lines_meaning (head_lines_of (take n raw))
        \<lparr>hstatus = of_nat (dec_value (slice raw 9 3)), hbody = n, hlength = V9X_UPDATE_NO_LENGTH\<rparr>)"

lemma head_search_eq:
  "i + n = length raw \<Longrightarrow>
   head_search raw (length raw) i n =
     Some (case find (blank_after raw) [i..<i + n] of
        None \<Rightarrow> 0 | Some i \<Rightarrow> if raw ! (i + 1) = 0x0A then i + 2 else i + 3)"
proof (induction n arbitrary: i)
  case (Suc n)
  then have i: "i < length raw" by simp
  have upt: "[i..<i + Suc n] = i # [i + 1..<i + 1 + n]" using upt_conv_Cons [of i "i + Suc n"] by simp
  have ih: "head_search raw (length raw) (i + 1) n =
     Some (case find (blank_after raw) [i + 1..<i + 1 + n] of
        None \<Rightarrow> 0 | Some i \<Rightarrow> if raw ! (i + 1) = 0x0A then i + 2 else i + 3)"
    by (rule Suc.IH) (use Suc.prems in simp)
  have next1: "(if i + 1 < length raw then do { d \<leftarrow> rd raw (i + 1); Some (d = 0x0A) } else Some False) =
      Some (i + 1 < length raw \<and> raw ! (i + 1) = 0x0A)"
    by (simp add: rd_Some)
  have next2: "(if i + 2 < length raw then do {
                    d \<leftarrow> rd raw (i + 1);
                    e \<leftarrow> rd raw (i + 2);
                    Some (d = 0x0D \<and> e = 0x0A) } else Some False) =
      Some (i + 2 < length raw \<and> raw ! (i + 1) = 0x0D \<and> raw ! (i + 2) = 0x0A)"
    by (simp add: rd_Some)
  show ?case
    unfolding upt head_search.simps next1 next2 rd_Some [OF i] bind.bind_lunit ih
    by (simp add: blank_after_def [of raw i] del: upt_Suc)
qed simp

lemma head_length_cases:
  assumes "head_length raw = n" "n \<noteq> 0"
  shows "n \<le> length raw" "raw ! (n - 1) = 0x0A"
proof -
  obtain i where i: "find (blank_after raw) [0..<length raw] = Some i"
    "n = (if raw ! (i + 1) = 0x0A then i + 2 else i + 3)"
    using assms by (auto simp: head_length_def split: option.splits)
  then have "blank_after raw i" "i < length raw" by (auto simp: find_Some_iff)
  then show "n \<le> length raw" "raw ! (n - 1) = 0x0A"
    using i(2) by (auto simp: blank_after_def)
qed

lemma head_code_eq:
  "position + n \<le> length raw \<Longrightarrow>
   head_code raw position n code =
     Some (if list_all v9x_update_is_digit (slice raw position n)
       then Some (foldl (\<lambda>a c. a * 10 + ucast (c - 0x30)) code (slice raw position n)) else None)"
proof (induction n arbitrary: position code)
  case (Suc n)
  then show ?case by (simp add: rd_Some slice_Suc)
qed simp

lemma foldl_of_nat:
  "foldl (\<lambda>a c. a * 10 + ucast (c - 0x30)) (of_nat a :: u32) ds =
   of_nat (foldl (\<lambda>a c. a * 10 + unat (c - 0x30)) a ds)" for ds :: bytes
proof (induction ds arbitrary: a)
  case (Cons c ds)
  have "(of_nat a :: u32) * 10 + ucast (c - 0x30) = of_nat (a * 10 + unat (c - 0x30))" by simp
  then show ?case using Cons [of "a * 10 + unat (c - 0x30)"] by (simp del: of_nat_add of_nat_mult)
qed simp

lemma v9x_update_http_head_eq: "v9x_update_http_head raw (length raw) h = Some (head_meaning raw h)"
proof -
  have search: "head_search raw (length raw) 0 (length raw) = Some (head_length raw)"
    using head_search_eq [of 0 "length raw" raw] by (simp add: head_length_def)
  show ?thesis
  proof (cases "head_length raw < 14")
    case True
    then show ?thesis by (simp add: v9x_update_http_head_def search head_meaning_def)
  next
    case False
    then have n: "14 \<le> head_length raw" "head_length raw \<le> length raw" "raw ! (head_length raw - 1) = 0x0A"
      using head_length_cases [of raw "head_length raw"] by auto
    have len7: "length (asc ''http/1.'') = 7" by simp
    have version: "head_prefix raw 0 (asc ''http/1.'') =
        Some (map v9x_update_lower (slice raw 0 7) = asc ''http/1.'')"
      by (rule head_prefix_eq [of 0 "asc ''http/1.''" raw, unfolded len7]) (use n in linarith)
    have code: "head_code raw 9 3 0 =
        Some (if list_all v9x_update_is_digit (slice raw 9 3) then Some (of_nat (dec_value (slice raw 9 3))) else None)"
      using head_code_eq [of 9 3 raw 0] n foldl_of_nat [of 0] by (simp add: dec_value_def)
    have lines: "head_lines raw (head_length raw) 0 g =
        Some (lines_meaning (head_lines_of (take (head_length raw) raw)) g)" for g
      using head_lines_eq [of 0 "head_length raw" raw g] n by (simp add: slice_def)
    have rds: "rd raw 7 = Some (raw ! 7)" "rd raw 8 = Some (raw ! 8)" using n by (simp_all add: rd_Some)
    show ?thesis
      using False
      by (simp add: v9x_update_http_head_def search version code lines rds head_meaning_def status_line_def
          Let_def del: asc_Cons)
  qed
qed

text \<open>C9. The response head: on every buffer the position-walking parser reads only bytes of the
  buffer and computes exactly the line-by-line meaning of the bytes up to the first empty line - the
  status of a well-formed status line, the length of the head, and the value of the last
  Content-Length header, refusing one that is not a number up to 4294967289.\<close>

theorem http_head_exact:
  "v9x_update_http_head raw (length raw) h = Some (head_meaning raw h)"
  by (rule v9x_update_http_head_eq)

subsection \<open>Bounds of an accepted head\<close>

lemma lines_meaning_bounds:
  "lines_meaning ls h = (h', Inr ()) \<Longrightarrow> hlength h = V9X_UPDATE_NO_LENGTH \<or> unat (hlength h) \<le> 4294967289 \<Longrightarrow>
   hstatus h' = hstatus h \<and> hbody h' = hbody h \<and>
   (hlength h' = V9X_UPDATE_NO_LENGTH \<or> unat (hlength h') \<le> 4294967289)"
proof (induction ls arbitrary: h)
  case (Cons l ls)
  have "unat v \<le> 4294967289" if "header_meaning l = HeaderLength v" for v
    using that by (auto simp: header_meaning_def content_length_def Let_def u32_of_nat split: if_splits)
  then show ?case using Cons by (auto split: header_verdict.splits)
qed simp

lemma digits_bound:
  "list_all v9x_update_is_digit ds \<Longrightarrow> foldl (\<lambda>a c. a * 10 + unat (c - 0x30)) a ds < (a + 1) * 10 ^ length ds"
proof (induction ds arbitrary: a)
  case (Cons c ds)
  have "unat (c - 0x30) < 10" using Cons.prems digit_less by simp
  then have "a * 10 + unat (c - 0x30) + 1 \<le> (a + 1) * 10" by simp
  then have "(a * 10 + unat (c - 0x30) + 1) * 10 ^ length ds \<le> (a + 1) * 10 * 10 ^ length ds"
    by (rule mult_le_mono1)
  moreover have "foldl (\<lambda>a c. a * 10 + unat (c - 0x30)) (a * 10 + unat (c - 0x30)) ds <
      (a * 10 + unat (c - 0x30) + 1) * 10 ^ length ds"
    using Cons.IH [of "a * 10 + unat (c - 0x30)"] Cons.prems by simp
  moreover have eq: "(a + 1) * 10 ^ length (c # ds) = (a + 1) * 10 * 10 ^ length ds" by (simp add: algebra_simps)
  ultimately show ?case unfolding eq foldl_Cons by linarith
qed simp

text \<open>What the downloader may rely on after an accepted head: the status has three digits, the body
  starts inside the buffer right after a line feed, and the content length is absent or one that can
  still be added to without wrapping.\<close>

theorem http_head_bounds:
  assumes "v9x_update_http_head raw (length raw) h = Some (h', Inr ())"
  shows "unat (hstatus h') < 1000 \<and> 14 \<le> hbody h' \<and> hbody h' \<le> length raw \<and>
    raw ! (hbody h' - 1) = 0x0A \<and>
    (hlength h' = V9X_UPDATE_NO_LENGTH \<or> unat (hlength h') \<le> 4294967289)"
proof -
  have m: "head_meaning raw h = (h', Inr ())" using assms by (simp add: v9x_update_http_head_eq)
  define n where "n = head_length raw"
  have n: "14 \<le> n" "status_line raw"
    "lines_meaning (head_lines_of (take n raw))
       \<lparr>hstatus = of_nat (dec_value (slice raw 9 3)), hbody = n, hlength = V9X_UPDATE_NO_LENGTH\<rparr> = (h', Inr ())"
    using m by (auto simp: head_meaning_def n_def [symmetric] Let_def split: if_splits)
  have inside: "n \<le> length raw" "raw ! (n - 1) = 0x0A"
    using head_length_cases [OF n_def [symmetric]] n(1) by auto
  have "dec_value (slice raw 9 3) < 1000"
    using digits_bound [of "slice raw 9 3" 0] n inside by (simp add: dec_value_def status_line_def)
  then have "unat (of_nat (dec_value (slice raw 9 3)) :: u32) < 1000" by (simp add: u32_of_nat)
  then show ?thesis using lines_meaning_bounds [OF n(3)] n(1) inside by simp
qed

definition sample_head :: bytes where
  "sample_head = asc ''HTTP/1.1 200 OK'' @ [13, 10] @ asc ''content-LENGTH:  042'' @ [13, 10, 13, 10] @ asc ''x''"

definition no_head :: http_head where
  "no_head = \<lparr>hstatus = 0, hbody = 0, hlength = 0\<rparr>"

lemma sample_head_accepted:
  "v9x_update_http_head sample_head (length sample_head) no_head =
    Some (\<lparr>hstatus = 200, hbody = 41, hlength = 42\<rparr>, Inr ())"
  by code_simp

theorem http_head_bounds_witness:
  "\<exists>h' :: http_head. unat (hstatus h') < 1000 \<and> 14 \<le> hbody h' \<and> hbody h' \<le> length sample_head \<and>
    sample_head ! (hbody h' - 1) = 0x0A \<and>
    (hlength h' = V9X_UPDATE_NO_LENGTH \<or> unat (hlength h') \<le> 4294967289)"
  using http_head_bounds [OF sample_head_accepted] by blast

end
