(* ===== verification/ReleaseProps.thy ===== *)
theory ReleaseProps
  imports UpdateRelease UpdateHttp
begin

section \<open>ReleaseProps: what a verified release file is\<close>

text \<open>
  The verifier walks the text with positions; here the text is cut at its signature section. Acceptance
  is equivalent to a layout: a body, one signature section that is the rest of the file, and a
  signature over exactly the body.
\<close>

subsection \<open>The signature section\<close>

lemma v9x_release_at_iff: "v9x_release_at s p lit \<longleftrightarrow> take (length lit) (drop p s) = lit"
proof (induction s p lit rule: v9x_release_at.induct)
  case (2 s p c lit)
  show ?case
  proof (cases "p < length s")
    case True
    then show ?thesis using 2 by (auto simp: Cons_nth_drop_Suc [symmetric])
  qed simp
qed simp

definition signature_at :: "bytes \<Rightarrow> nat \<Rightarrow> bool" where
  "signature_at s p \<longleftrightarrow> (p = 0 \<or> s ! (p - 1) = 0x0A) \<and> take 11 (drop p s) = V9X_RELEASE_SIGNATURE"

lemma length_signature: "length V9X_RELEASE_SIGNATURE = 11"
  by (simp add: V9X_RELEASE_SIGNATURE_def)

lemma find_section_eq:
  "find_section s p n found =
     (if (\<exists>q \<in> set [p..<p + n]. s ! q = 0) \<or>
         length (filter (signature_at s) [p..<p + n]) + (if found = None then 0 else 1) > 1 then None
      else Some (if filter (signature_at s) [p..<p + n] = [] then found
                 else Some (hd (filter (signature_at s) [p..<p + n]))))"
proof (induction n arbitrary: p found)
  case (Suc n)
  have upt: "[p..<p + Suc n] = p # [p + 1..<p + 1 + n]" using upt_conv_Cons [of p "p + Suc n"] by simp
  have sig: "(p = 0 \<or> s ! (p - 1) = 0x0A) \<and> v9x_release_at s p V9X_RELEASE_SIGNATURE \<longleftrightarrow> signature_at s p"
    by (simp only: signature_at_def v9x_release_at_iff length_signature)
  show ?case
    unfolding upt find_section.simps sig Suc.IH by (auto simp del: upt_Suc)
qed simp

subsection \<open>The rest of the file\<close>

definition strip :: "u8 \<Rightarrow> bytes \<Rightarrow> bytes" where
  "strip c r = (if r \<noteq> [] \<and> hd r = c then tl r else r)"

definition no_eol :: "u8 \<Rightarrow> bool" where
  "no_eol c \<longleftrightarrow> c \<noteq> 0x0D \<and> c \<noteq> 0x0A"

definition parse_tail :: "bytes \<Rightarrow> bytes option" where
  "parse_tail r =
     (let r = strip 0x0D r in
      if r = [] \<or> hd r \<noteq> 0x0A then None
      else
        let r = tl r in
        if take 8 r \<noteq> V9X_RELEASE_KEY_NAME then None
        else
          let r = drop 8 r; hex = takeWhile no_eol r in
          if length hex \<noteq> V9X_RELEASE_SIG_HEX then None
          else if strip 0x0A (strip 0x0D (dropWhile no_eol r)) \<noteq> [] then None
          else v9x_release_hex_bytes hex 64)"

lemma at_drop:
  "(p < length s \<and> s ! p = c) = (drop p s \<noteq> [] \<and> hd (drop p s) = c)"
  "(p \<ge> length s \<or> s ! p \<noteq> c) = (drop p s = [] \<or> hd (drop p s) \<noteq> c)"
  by (auto simp: hd_drop_conv_nth)

lemma drop_strip: "drop (if p < length s \<and> s ! p = c then p + 1 else p) s = strip c (drop p s)"
  unfolding at_drop by (simp add: strip_def tl_drop drop_Suc [symmetric])

lemma take_hex_step:
  "take_hex s start (Suc n) hex =
     (if start + length hex < length s \<and> no_eol (s ! (start + length hex)) then
        (if length hex = 128 then None else take_hex s start n (hex @ [s ! (start + length hex)]))
      else Some hex)"
  by (simp add: Let_def no_eol_def V9X_RELEASE_SIG_HEX_def)

lemma take_hex_eq:
  "length hex + n = 129 \<Longrightarrow> length hex \<le> 128 \<Longrightarrow>
   take_hex s start n hex =
     (let h = hex @ takeWhile no_eol (drop (start + length hex) s)
      in if length h \<le> 128 then Some h else None)"
proof (induction n arbitrary: hex)
  case (Suc n)
  let ?p = "start + length hex"
  show ?case
  proof (cases "?p < length s \<and> no_eol (s ! ?p)")
    case False
    then have "takeWhile no_eol (drop ?p s) = []"
      by (cases "?p < length s") (simp_all add: Cons_nth_drop_Suc [symmetric])
    then show ?thesis using False Suc.prems by (simp only: take_hex_step if_False Let_def) simp
  next
    case True
    then have d: "takeWhile no_eol (drop ?p s) = s ! ?p # takeWhile no_eol (drop (?p + 1) s)"
      by (simp add: Cons_nth_drop_Suc [symmetric])
    show ?thesis
    proof (cases "length hex = 128")
      case full: True
      then show ?thesis using True d by (simp only: take_hex_step if_True Let_def) simp
    next
      case more: False
      have "take_hex s start n (hex @ [s ! ?p]) =
        (let h = (hex @ [s ! ?p]) @ takeWhile no_eol (drop (start + length (hex @ [s ! ?p])) s)
         in if length h \<le> 128 then Some h else None)"
        by (rule Suc.IH) (use Suc.prems more in simp_all)
      then show ?thesis using True more d by (simp only: take_hex_step if_True if_False Let_def) simp
    qed
  qed
qed simp

lemma v9x_release_verify_eq:
  "v9x_release_verify s key =
     (case find_section s 0 (length s) None of
        Some (Some n) \<Rightarrow>
          (case parse_tail (drop (n + 11) s) of
             None \<Rightarrow> None
           | Some sig \<Rightarrow> if v9x_ed25519_verify sig key (take n s) then Some n else None)
      | _ \<Rightarrow> None)"
proof -
  have key8: "length V9X_RELEASE_KEY_NAME = 8" by (simp add: V9X_RELEASE_KEY_NAME_def)
  have tail: "(let position = n + length V9X_RELEASE_SIGNATURE;
              position = (if position < length s \<and> s ! position = 0x0D then position + 1 else position)
          in
          if position \<ge> length s \<or> s ! position \<noteq> 0x0A then None
          else if \<not> v9x_release_at s (position + 1) V9X_RELEASE_KEY_NAME then None
          else
            let hex_start = position + 1 + length V9X_RELEASE_KEY_NAME in
            (case take_hex s hex_start (V9X_RELEASE_SIG_HEX + 1) [] of
               None \<Rightarrow> None
             | Some hex \<Rightarrow>
                 if length hex \<noteq> V9X_RELEASE_SIG_HEX then None
                 else
                   let position = hex_start + length hex;
                       position = (if position < length s \<and> s ! position = 0x0D
                                   then position + 1 else position);
                       position = (if position < length s \<and> s ! position = 0x0A
                                   then position + 1 else position)
                   in
                   if position \<noteq> length s then None
                   else
                     (case v9x_release_hex_bytes hex 64 of
                        None \<Rightarrow> None
                      | Some signature \<Rightarrow>
                          if \<not> v9x_ed25519_verify signature key (take n s) then None
                          else Some n))) =
      (case parse_tail (drop (n + 11) s) of
         None \<Rightarrow> None | Some sig \<Rightarrow> if v9x_ed25519_verify sig key (take n s) then Some n else None)" for n
  proof -
    define p where "p = (if n + 11 < length s \<and> s ! (n + 11) = 0x0D then n + 11 + 1 else n + 11)"
    have p: "strip 0x0D (drop (n + 11) s) = drop p s" unfolding p_def drop_strip by (rule refl)
    define r where "r = drop (p + 1) s"
    define h where "h = takeWhile no_eol (drop (p + 1 + 8) s)"
    have r: "tl (drop p s) = r" by (simp add: r_def tl_drop drop_Suc [symmetric])
    have key: "v9x_release_at s (p + 1) V9X_RELEASE_KEY_NAME \<longleftrightarrow> take 8 r = V9X_RELEASE_KEY_NAME"
      by (simp only: v9x_release_at_iff key8 r_def)
    have r8: "drop 8 r = drop (p + 1 + 8) s" by (simp add: r_def add.commute)
    have hex: "take_hex s (p + 1 + 8) (V9X_RELEASE_SIG_HEX + 1) [] = (if length h \<le> 128 then Some h else None)"
      using take_hex_eq [of "[]" "V9X_RELEASE_SIG_HEX + 1" s "p + 1 + 8"]
      by (simp add: V9X_RELEASE_SIG_HEX_def h_def Let_def)
    define q1 where "q1 = p + 1 + 8 + length h"
    define q2 where "q2 = (if q1 < length s \<and> s ! q1 = 0x0D then q1 + 1 else q1)"
    define q3 where "q3 = (if q2 < length s \<and> s ! q2 = 0x0A then q2 + 1 else q2)"
    have q1: "drop q1 s = dropWhile no_eol (drop (p + 1 + 8) s)"
      unfolding q1_def h_def dropWhile_eq_drop by (simp add: add.commute)
    have q3: "drop q3 s = strip 0x0A (strip 0x0D (dropWhile no_eol (drop (p + 1 + 8) s)))"
      unfolding q3_def drop_strip unfolding q2_def drop_strip q1 by (rule refl)
    have fits: "q3 \<noteq> length s \<longleftrightarrow> drop q3 s \<noteq> []" if "take 8 r = V9X_RELEASE_KEY_NAME"
    proof -
      have "8 \<le> length r" using arg_cong [OF that, of length] by (simp add: key8)
      then have "p + 1 + 8 \<le> length s" by (simp add: r_def)
      then have "q1 \<le> length s"
        unfolding q1_def h_def using length_takeWhile_le [of no_eol "drop (p + 1 + 8) s"] by simp
      then have "q3 \<le> length s" by (auto simp: q2_def q3_def)
      then show ?thesis by auto
    qed
    have eol: "(p \<ge> length s \<or> s ! p \<noteq> 0x0A) = (drop p s = [] \<or> hd (drop p s) \<noteq> 0x0A)" by (rule at_drop)
    show ?thesis
    proof (cases "drop p s \<noteq> [] \<and> hd (drop p s) = 0x0A \<and> take 8 r = V9X_RELEASE_KEY_NAME \<and> length h = 128")
      case False
      then show ?thesis
        unfolding length_signature Let_def p_def [symmetric] key8 parse_tail_def p r eol key hex r8 h_def [symmetric]
        by (auto simp: V9X_RELEASE_SIG_HEX_def)
    next
      case True
      then have h128: "length h = V9X_RELEASE_SIG_HEX" "length h \<le> 128" by (simp_all add: V9X_RELEASE_SIG_HEX_def)
      have parse: "parse_tail (drop (n + 11) s) = (if q3 \<noteq> length s then None else v9x_release_hex_bytes h 64)"
        unfolding parse_tail_def Let_def p r r8 h_def [symmetric] q3 [symmetric] using True h128 fits by simp
      show ?thesis
        unfolding length_signature Let_def p_def [symmetric] key8 eol key hex parse
        using True by (simp add: V9X_RELEASE_SIG_HEX_def q3_def q2_def q1_def split: option.splits)
    qed
  qed
  show ?thesis unfolding v9x_release_verify_def tail by (rule refl)
qed

subsection \<open>The layout of a release file\<close>

text \<open>The rest of the file from the signature section on, for a signature given as hex digits.\<close>

definition signature_section :: "bytes \<Rightarrow> bytes \<Rightarrow> bool" where
  "signature_section r sig \<longleftrightarrow>
     (\<exists>eol hex eol'. r = V9X_RELEASE_SIGNATURE @ eol @ V9X_RELEASE_KEY_NAME @ hex @ eol' \<and>
        (eol = [0x0A] \<or> eol = [0x0D, 0x0A]) \<and>
        (eol' = [] \<or> eol' = [0x0A] \<or> eol' = [0x0D] \<or> eol' = [0x0D, 0x0A]) \<and>
        length hex = 128 \<and> v9x_release_hex_bytes hex 64 = Some sig)"

definition release_layout :: "bytes \<Rightarrow> nat \<Rightarrow> bytes \<Rightarrow> bool" where
  "release_layout s n sig \<longleftrightarrow>
     0 \<notin> set s \<and> filter (signature_at s) [0..<length s] = [n] \<and> signature_section (drop n s) sig"

lemma hex_bytes_chars: "v9x_release_hex_bytes hex n = Some bs \<Longrightarrow> list_all no_eol hex"
proof (induction n arbitrary: hex bs)
  case 0
  then show ?case by (simp split: if_splits)
next
  case (Suc n)
  have digit: "no_eol c" if "v9x_release_hex_value c = Some v" for c v
    using that by (auto simp: v9x_release_hex_value_def no_eol_def split: if_splits)
  from Suc.prems obtain h l hex' where hex: "hex = h # l # hex'" by (auto split: list.splits)
  then obtain a b bs' where "v9x_release_hex_value h = Some a" "v9x_release_hex_value l = Some b"
    "v9x_release_hex_bytes hex' n = Some bs'" using Suc.prems by (auto simp: bind_eq_Some_conv)
  then show ?case using hex digit Suc.IH by auto
qed

lemma strip_strip_empty:
  "strip 0x0A (strip 0x0D e) = [] \<longleftrightarrow> e = [] \<or> e = [0x0A] \<or> e = [0x0D] \<or> e = [0x0D, 0x0A]"
proof (cases e)
  case (Cons c e')
  then show ?thesis by (cases e') (auto simp: strip_def)
qed (simp add: strip_def)

lemma parse_tail_iff:
  "parse_tail r = Some sig \<longleftrightarrow> signature_section (V9X_RELEASE_SIGNATURE @ r) sig"
proof
  assume parse: "parse_tail r = Some sig"
  define r1 where "r1 = strip 0x0D r"
  define r2 where "r2 = drop 8 (tl r1)"
  define hex where "hex = takeWhile no_eol r2"
  have c: "r1 \<noteq> []" "hd r1 = 0x0A" "take 8 (tl r1) = V9X_RELEASE_KEY_NAME" "length hex = 128"
    "strip 0x0A (strip 0x0D (dropWhile no_eol r2)) = []" "v9x_release_hex_bytes hex 64 = Some sig"
    using parse unfolding parse_tail_def r1_def r2_def hex_def Let_def V9X_RELEASE_SIG_HEX_def
    by (auto split: if_splits)
  have "r1 = 0x0A # V9X_RELEASE_KEY_NAME @ hex @ dropWhile no_eol r2"
    using c(1-3) unfolding hex_def r2_def
    by (metis append_take_drop_id list.collapse takeWhile_dropWhile_id)
  moreover have "r = r1 \<or> r = 0x0D # r1"
    using c(1) unfolding r1_def strip_def by (cases r) (auto split: if_splits)
  ultimately obtain eol where eol: "r = eol @ V9X_RELEASE_KEY_NAME @ hex @ dropWhile no_eol r2"
    "eol = [0x0A] \<or> eol = [0x0D, 0x0A]"
    by (metis append_Cons append_Nil)
  define e where "e = dropWhile no_eol r2"
  have "e = [] \<or> e = [0x0A] \<or> e = [0x0D] \<or> e = [0x0D, 0x0A]"
    using c(5) unfolding e_def by (simp only: strip_strip_empty)
  then show "signature_section (V9X_RELEASE_SIGNATURE @ r) sig"
    unfolding signature_section_def using c(4,6) eol unfolding e_def [symmetric] by blast
next
  assume "signature_section (V9X_RELEASE_SIGNATURE @ r) sig"
  then obtain eol hex eol' where r: "r = eol @ V9X_RELEASE_KEY_NAME @ hex @ eol'"
    "eol = [0x0A] \<or> eol = [0x0D, 0x0A]" "eol' = [] \<or> eol' = [0x0A] \<or> eol' = [0x0D] \<or> eol' = [0x0D, 0x0A]"
    "length hex = 128" "v9x_release_hex_bytes hex 64 = Some sig"
    by (auto simp: signature_section_def)
  have key8: "length V9X_RELEASE_KEY_NAME = 8" by (simp add: V9X_RELEASE_KEY_NAME_def)
  have strip: "strip 0x0D r = 0x0A # V9X_RELEASE_KEY_NAME @ hex @ eol'" using r(1,2) by (auto simp: strip_def)
  have hex: "list_all no_eol hex" using hex_bytes_chars r(5) by blast
  have stop: "eol' = [] \<or> \<not> no_eol (hd eol')" using r(3) by (auto simp: no_eol_def)
  have "takeWhile no_eol (hex @ eol') = hex" "dropWhile no_eol (hex @ eol') = eol'"
    using hex stop by (induction hex) (cases eol', auto)+
  then show "parse_tail r = Some sig"
    unfolding parse_tail_def strip using r(4,5) key8 r(3) [folded strip_strip_empty]
    by (simp add: V9X_RELEASE_SIG_HEX_def)
qed

lemma v9x_release_verify_iff:
  "v9x_release_verify s key = Some n \<longleftrightarrow>
     (\<exists>sig. release_layout s n sig \<and> v9x_ed25519_verify sig key (take n s))"
proof -
  let ?ps = "filter (signature_at s) [0..<length s]"
  have zero: "(\<exists>q \<in> set [0..<length s]. s ! q = 0) \<longleftrightarrow> 0 \<in> set s" by (auto simp: in_set_conv_nth)
  have find: "find_section s 0 (length s) None = Some (Some m) \<longleftrightarrow> 0 \<notin> set s \<and> ?ps = [m]" for m
    unfolding find_section_eq [of s 0 "length s" None] add_0 zero
    by (cases ?ps) auto
  have sig: "drop m s = V9X_RELEASE_SIGNATURE @ drop (m + 11) s" if "?ps = [m]" for m
  proof -
    have "m \<in> set ?ps" using that by simp
    then have "take 11 (drop m s) = V9X_RELEASE_SIGNATURE" by (simp add: signature_at_def)
    then show ?thesis by (metis append_take_drop_id drop_drop add.commute)
  qed
  show ?thesis
  proof (cases "\<exists>m. 0 \<notin> set s \<and> ?ps = [m]")
    case False
    then have "find_section s 0 (length s) None \<noteq> Some (Some m)" for m using find by blast
    then have "v9x_release_verify s key = None"
      unfolding v9x_release_verify_eq by (auto split: option.splits)
    then show ?thesis using False by (auto simp: release_layout_def)
  next
    case True
    then obtain m where m: "0 \<notin> set s" "?ps = [m]" by blast
    then have "find_section s 0 (length s) None = Some (Some m)" using find by blast
    then have "v9x_release_verify s key = Some n \<longleftrightarrow>
        n = m \<and> (\<exists>sig. parse_tail (drop (m + 11) s) = Some sig \<and> v9x_ed25519_verify sig key (take m s))"
      unfolding v9x_release_verify_eq by (auto split: option.splits if_splits)
    then show ?thesis unfolding parse_tail_iff sig [OF m(2), symmetric] release_layout_def using m by auto
  qed
qed

text \<open>C8. Release verification: a file is accepted with its signed part exactly when it is a body without
  NUL bytes followed by the one signature section at the start of a line, which is the whole rest of
  the file, and the 64 signature bytes it spells verify over the body under the key.\<close>

theorem release_verify_exact:
  "v9x_release_verify s key = Some n \<longleftrightarrow>
     (\<exists>sig. release_layout s n sig \<and> v9x_ed25519_verify sig key (take n s))"
  by (rule v9x_release_verify_iff)

end
