(* ===== verification/RemoteText.thy ===== *)
theory RemoteText
  imports UpdateProto
begin

section \<open>RemoteText: the bounded strings and the chat log of remote help\<close>

text \<open>
  The first part of \<^verbatim>\<open>src/guest/remote.c\<close>: the string helpers of the remote-help worker and the chat
  shared with the tray. A C string is the list of its bytes before the terminator; \<^verbatim>\<open>unsigned long\<close> and
  \<^verbatim>\<open>long\<close> are 32-bit words.
\<close>

subsection \<open>Constants\<close>

definition V9X_CHAT_LOG_SIZE :: nat where "V9X_CHAT_LOG_SIZE = 8192"
definition V9X_CHAT_QUEUE :: nat where "V9X_CHAT_QUEUE = 4"
definition V9X_CHAT_LINE :: nat where "V9X_CHAT_LINE = 512"

lemmas chat_consts = V9X_CHAT_LOG_SIZE_def V9X_CHAT_QUEUE_def V9X_CHAT_LINE_def

subsection \<open>Bounded strings\<close>

text \<open>\<^verbatim>\<open>lstrcpynA\<close> keeps at most \<open>capacity - 1\<close> bytes.\<close>

definition v9x_rt_copy :: "nat \<Rightarrow> bytes \<Rightarrow> bytes" where
  "v9x_rt_copy capacity s = take (capacity - 1) s"

text \<open>Every byte of an append looks for room for itself and the terminator; what fitted stays.\<close>

fun v9x_rt_append :: "bytes \<Rightarrow> nat \<Rightarrow> bytes \<Rightarrow> bytes \<times> bool" where
  "v9x_rt_append target capacity [] = (target, True)"
| "v9x_rt_append target capacity (c # s) =
     (if length target + 1 \<ge> capacity then (target, False)
      else v9x_rt_append (target @ [c]) capacity s)"

text \<open>A chain of appends joined by \<^verbatim>\<open>&&\<close>, and one whose results are ignored.\<close>

fun rt_append_all :: "bytes \<Rightarrow> nat \<Rightarrow> bytes list \<Rightarrow> bytes \<times> bool" where
  "rt_append_all target capacity [] = (target, True)"
| "rt_append_all target capacity (p # ps) =
     (case v9x_rt_append target capacity p of
        (t, ok) \<Rightarrow> if ok then rt_append_all t capacity ps else (t, False))"

definition rt_append_each :: "bytes \<Rightarrow> nat \<Rightarrow> bytes list \<Rightarrow> bytes" where
  "rt_append_each target capacity ps = foldl (\<lambda>t p. fst (v9x_rt_append t capacity p)) target ps"

text \<open>The digits of the magnitude, least significant first.\<close>

function rt_digits :: "u32 \<Rightarrow> bytes" where
  "rt_digits magnitude =
     (0x30 + ucast (magnitude mod 10)) #
       (if magnitude div 10 \<noteq> 0 then rt_digits (magnitude div 10) else [])"
  by pat_completeness auto

lemma unat_div_10: "unat (m div 10) = unat m div 10" for m :: u32
  by (simp add: unat_div)

termination rt_digits
proof (relation "measure unat")
  fix m :: u32
  assume "m div 10 \<noteq> 0"
  then have "unat (m div 10) \<noteq> 0" by (simp add: unat_eq_0)
  then show "(m div 10, m) \<in> measure unat" by (simp add: unat_div_10)
qed simp

declare rt_digits.simps [simp del]

definition rt_number :: "u32 \<Rightarrow> bytes" where
  "rt_number v =
     (let magnitude = (if v <s 0 then - v else v)
      in (if v <s 0 then [0x2D] else []) @ rev (rt_digits magnitude))"

definition v9x_rt_append_number :: "bytes \<Rightarrow> nat \<Rightarrow> u32 \<Rightarrow> bytes \<times> bool" where
  "v9x_rt_append_number target capacity v = v9x_rt_append target capacity (rt_number v)"

definition rt_encoded :: "bytes \<Rightarrow> bytes" where
  "rt_encoded s =
     (case v9x_update_url_encode s [] (V9X_CHAT_LINE * 3 + 4) of (ok, encoded) \<Rightarrow> if ok then encoded else [])"

definition v9x_rt_append_field :: "bytes \<Rightarrow> nat \<Rightarrow> bytes \<Rightarrow> bytes \<Rightarrow> bytes \<times> bool" where
  "v9x_rt_append_field target capacity key s =
     rt_append_all target capacity [key, [0x3D], rt_encoded s, [0x0D, 0x0A]]"

subsection \<open>Decoding and searching\<close>

text \<open>\<open>None\<close> is the -1 of the source; a missing character is the terminator, which is no digit.\<close>

definition v9x_rt_hex :: "u8 \<Rightarrow> u8 option" where
  "v9x_rt_hex c =
     (if c \<ge> 0x30 \<and> c \<le> 0x39 then Some (c - 0x30)
      else if c \<ge> 0x61 \<and> c \<le> 0x66 then Some (c - 0x61 + 10)
      else if c \<ge> 0x41 \<and> c \<le> 0x46 then Some (c - 0x41 + 10)
      else None)"

definition rt_escape :: "u8 \<Rightarrow> bytes \<Rightarrow> u8 option" where
  "rt_escape c s =
     (if c = 0x25 then
        (case s of
           h # l # _ \<Rightarrow> do { hi \<leftarrow> v9x_rt_hex h; lo \<leftarrow> v9x_rt_hex l; Some (push_bit 4 hi OR lo) }
         | _ \<Rightarrow> None)
      else None)"

definition rt_keep :: "u8 \<Rightarrow> bytes \<Rightarrow> bytes" where
  "rt_keep ch rest = (if ch < 0x20 \<and> ch \<noteq> 0x0D \<and> ch \<noteq> 0x0A \<and> ch \<noteq> 0x09 then rest else ch # rest)"

function v9x_rt_decode :: "bytes \<Rightarrow> bytes" where
  "v9x_rt_decode [] = []"
| "v9x_rt_decode (c # s) =
     (case rt_escape c s of
        Some ch \<Rightarrow> rt_keep ch (v9x_rt_decode (drop 2 s))
      | None \<Rightarrow> rt_keep c (v9x_rt_decode s))"
  by pat_completeness auto

termination v9x_rt_decode
  by (relation "measure length") auto

definition rt_upper_to_lower :: "u8 \<Rightarrow> u8" where
  "rt_upper_to_lower a = (if a \<ge> 0x41 \<and> a \<le> 0x5A then a + 32 else a)"

fun ci_match :: "bytes \<Rightarrow> bytes \<Rightarrow> bool" where
  "ci_match data [] \<longleftrightarrow> True"
| "ci_match [] (b # needle) \<longleftrightarrow> False"
| "ci_match (a # data) (b # needle) \<longleftrightarrow> rt_upper_to_lower a = rt_upper_to_lower b \<and> ci_match data needle"

fun v9x_rt_ci_find :: "bytes \<Rightarrow> bytes \<Rightarrow> bool" where
  "v9x_rt_ci_find [] needle \<longleftrightarrow> needle = []"
| "v9x_rt_ci_find (a # data) needle \<longleftrightarrow>
     length needle \<le> length (a # data) \<and> (ci_match (a # data) needle \<or> v9x_rt_ci_find data needle)"

subsection \<open>The chat\<close>

record chat =
  chat_log :: bytes
  chat_outgoing :: "bytes list"

definition chat_clock :: "u16 \<Rightarrow> u16 \<Rightarrow> bytes" where
  "chat_clock hour minute =
     [0x30 + ucast (hour div 10), 0x30 + ucast (hour mod 10), 0x3A,
      0x30 + ucast (minute div 10), 0x30 + ucast (minute mod 10), 0x20]"

definition chat_line :: "bytes \<Rightarrow> bytes \<Rightarrow> bytes \<Rightarrow> bytes" where
  "chat_line clock who s =
     rt_append_each [] (V9X_CHAT_LINE + 32) [clock, who, asc '': '', s, [0x0D, 0x0A]]"

text \<open>How much the loop drops: the first line with its line feed, everything when there is none.\<close>

definition chat_cut :: "bytes \<Rightarrow> nat" where
  "chat_cut log =
     (let cut = length (takeWhile (\<lambda>c. c \<noteq> 0x0A) log);
          cut = (if cut < length log then cut + 1 else cut)
      in if cut = 0 then length log else cut)"

text \<open>The loop that makes room; on its own it would not return for a line longer than the log.\<close>

partial_function (option) chat_trim :: "bytes \<Rightarrow> nat \<Rightarrow> bytes option" where
  "chat_trim log len =
     (if length log + len + 1 > V9X_CHAT_LOG_SIZE then chat_trim (drop (chat_cut log) log) len
      else Some log)"

definition v9x_chat_append :: "chat \<Rightarrow> bytes \<Rightarrow> bytes \<Rightarrow> bytes \<Rightarrow> chat option" where
  "v9x_chat_append c clock who s =
     (let line = chat_line clock who s in do {
        log \<leftarrow> chat_trim (chat_log c) (length line);
        Some (c\<lparr>chat_log := log @ line\<rparr>) })"

definition v9x_chat_send :: "chat \<Rightarrow> bytes \<Rightarrow> bytes \<Rightarrow> chat option" where
  "v9x_chat_send c clock s =
     (if s = [] then Some c
      else
        let c = (if length (chat_outgoing c) < V9X_CHAT_QUEUE
                 then c\<lparr>chat_outgoing := chat_outgoing c @ [v9x_rt_copy V9X_CHAT_LINE s]\<rparr> else c)
        in v9x_chat_append c clock (asc ''You'') s)"

end
