(* ===== verification/Sha256.thy ===== *)
theory Sha256
  imports BlockStream
begin

section \<open>SHA-256 (\<^verbatim>\<open>src/common/sha256.c\<close>)\<close>

text \<open>
  The streaming hash of the updater and of the relay, as the code has it (a 64-byte buffer, the
  byte count in two 32-bit halves, padding written into the buffer), and FIPS 180-4 as a function
  of the whole message. The main result is that the code computes the standard's digest for every
  way a message can be cut into pieces.
\<close>

subsection \<open>Constants\<close>

definition v9x_sha256_k :: "u32 list" where
  "v9x_sha256_k = [
     0x428A2F98, 0x71374491, 0xB5C0FBCF, 0xE9B5DBA5, 0x3956C25B, 0x59F111F1,
     0x923F82A4, 0xAB1C5ED5, 0xD807AA98, 0x12835B01, 0x243185BE, 0x550C7DC3,
     0x72BE5D74, 0x80DEB1FE, 0x9BDC06A7, 0xC19BF174, 0xE49B69C1, 0xEFBE4786,
     0x0FC19DC6, 0x240CA1CC, 0x2DE92C6F, 0x4A7484AA, 0x5CB0A9DC, 0x76F988DA,
     0x983E5152, 0xA831C66D, 0xB00327C8, 0xBF597FC7, 0xC6E00BF3, 0xD5A79147,
     0x06CA6351, 0x14292967, 0x27B70A85, 0x2E1B2138, 0x4D2C6DFC, 0x53380D13,
     0x650A7354, 0x766A0ABB, 0x81C2C92E, 0x92722C85, 0xA2BFE8A1, 0xA81A664B,
     0xC24B8B70, 0xC76C51A3, 0xD192E819, 0xD6990624, 0xF40E3585, 0x106AA070,
     0x19A4C116, 0x1E376C08, 0x2748774C, 0x34B0BCB5, 0x391C0CB3, 0x4ED8AA4A,
     0x5B9CCA4F, 0x682E6FF3, 0x748F82EE, 0x78A5636F, 0x84C87814, 0x8CC70208,
     0x90BEFFFA, 0xA4506CEB, 0xBEF9A3F7, 0xC67178F2]"

definition v9x_sha256_h0 :: "u32 list" where
  "v9x_sha256_h0 = [
     0x6A09E667, 0xBB67AE85, 0x3C6EF372, 0xA54FF53A, 0x510E527F, 0x9B05688C,
     0x1F83D9AB, 0x5BE0CD19]"

definition v9x_sha256_hex_digits :: bytes where
  "v9x_sha256_hex_digits = asc ''0123456789abcdef''"

definition V9X_SHA256_BLOCK_BYTES :: nat where
  "V9X_SHA256_BLOCK_BYTES = 64"

subsection \<open>The code\<close>

record sha256_ctx =
  s256_state :: "u32 list"
  s256_count_lo :: u32
  s256_count_hi :: u32
  s256_buffered :: nat
  s256_buffer :: bytes

definition v9x_sha256_rotr :: "u32 \<Rightarrow> nat \<Rightarrow> u32" where
  "v9x_sha256_rotr value bits =
     (drop_bit bits value OR push_bit (32 - bits) value) AND 0xFFFFFFFF"

definition v9x_sha256_ch :: "u32 \<Rightarrow> u32 \<Rightarrow> u32 \<Rightarrow> u32" where
  "v9x_sha256_ch x y z = (x AND y) XOR (NOT x AND z)"

definition v9x_sha256_maj :: "u32 \<Rightarrow> u32 \<Rightarrow> u32 \<Rightarrow> u32" where
  "v9x_sha256_maj x y z = (x AND y) XOR (x AND z) XOR (y AND z)"

definition v9x_sha256_big_sigma0 :: "u32 \<Rightarrow> u32" where
  "v9x_sha256_big_sigma0 x = v9x_sha256_rotr x 2 XOR v9x_sha256_rotr x 13 XOR v9x_sha256_rotr x 22"

definition v9x_sha256_big_sigma1 :: "u32 \<Rightarrow> u32" where
  "v9x_sha256_big_sigma1 x = v9x_sha256_rotr x 6 XOR v9x_sha256_rotr x 11 XOR v9x_sha256_rotr x 25"

definition v9x_sha256_small_sigma0 :: "u32 \<Rightarrow> u32" where
  "v9x_sha256_small_sigma0 x = v9x_sha256_rotr x 7 XOR v9x_sha256_rotr x 18 XOR drop_bit 3 x"

definition v9x_sha256_small_sigma1 :: "u32 \<Rightarrow> u32" where
  "v9x_sha256_small_sigma1 x = v9x_sha256_rotr x 17 XOR v9x_sha256_rotr x 19 XOR drop_bit 10 x"

text \<open>Step 1 of \<open>v9x_sha256_block\<close>: the array \<open>w\<close>, filled from the front.\<close>

definition sha256_load :: "bytes \<Rightarrow> nat \<Rightarrow> u32" where
  "sha256_load block i =
     push_bit 24 (ucast (block ! (4 * i))) OR push_bit 16 (ucast (block ! (4 * i + 1))) OR
     push_bit 8 (ucast (block ! (4 * i + 2))) OR ucast (block ! (4 * i + 3))"

definition sha256_extend :: "u32 list \<Rightarrow> nat \<Rightarrow> u32 list" where
  "sha256_extend w i = w @ [(v9x_sha256_small_sigma1 (w ! (i - 2)) + w ! (i - 7) +
     v9x_sha256_small_sigma0 (w ! (i - 15)) + w ! (i - 16)) AND 0xFFFFFFFF]"

definition sha256_schedule :: "bytes \<Rightarrow> u32 list" where
  "sha256_schedule block = foldl sha256_extend (map (sha256_load block) [0..<16]) [16..<64]"

text \<open>Step 3: one round on the eight working variables.\<close>

type_synonym sha256_vars = "u32 \<times> u32 \<times> u32 \<times> u32 \<times> u32 \<times> u32 \<times> u32 \<times> u32"

fun sha256_round :: "u32 list \<Rightarrow> sha256_vars \<Rightarrow> nat \<Rightarrow> sha256_vars" where
  "sha256_round w (a, b, c, d, e, f, g, h) i =
     (let t1 = (h + v9x_sha256_big_sigma1 e + v9x_sha256_ch e f g + v9x_sha256_k ! i + w ! i)
            AND 0xFFFFFFFF;
          t2 = (v9x_sha256_big_sigma0 a + v9x_sha256_maj a b c) AND 0xFFFFFFFF
      in ((t1 + t2) AND 0xFFFFFFFF, a, b, c, (d + t1) AND 0xFFFFFFFF, e, f, g))"

definition v9x_sha256_block :: "u32 list \<Rightarrow> bytes \<Rightarrow> u32 list" where
  "v9x_sha256_block state block =
     (let w = sha256_schedule block in
      case foldl (sha256_round w) (state ! 0, state ! 1, state ! 2, state ! 3, state ! 4, state ! 5,
             state ! 6, state ! 7) [0..<64] of
        (a, b, c, d, e, f, g, h) \<Rightarrow>
          [(state ! 0 + a) AND 0xFFFFFFFF, (state ! 1 + b) AND 0xFFFFFFFF,
           (state ! 2 + c) AND 0xFFFFFFFF, (state ! 3 + d) AND 0xFFFFFFFF,
           (state ! 4 + e) AND 0xFFFFFFFF, (state ! 5 + f) AND 0xFFFFFFFF,
           (state ! 6 + g) AND 0xFFFFFFFF, (state ! 7 + h) AND 0xFFFFFFFF])"

definition v9x_sha256_init :: "sha256_ctx \<Rightarrow> sha256_ctx" where
  "v9x_sha256_init ctx = ctx\<lparr>s256_state := map (\<lambda>i. v9x_sha256_h0 ! i) [0..<8],
     s256_count_lo := 0, s256_count_hi := 0, s256_buffered := 0\<rparr>"

text \<open>The body of the byte loop of \<open>v9x_sha256_update\<close>.\<close>

definition sha256_put :: "u8 \<Rightarrow> sha256_ctx \<Rightarrow> sha256_ctx" where
  "sha256_put b ctx =
     (let ctx = ctx\<lparr>s256_buffer := (s256_buffer ctx)[s256_buffered ctx := b],
                    s256_buffered := s256_buffered ctx + 1\<rparr>
      in if s256_buffered ctx = V9X_SHA256_BLOCK_BYTES
         then ctx\<lparr>s256_state := v9x_sha256_block (s256_state ctx) (s256_buffer ctx),
                  s256_buffered := 0\<rparr>
         else ctx)"

definition v9x_sha256_update :: "bytes \<Rightarrow> sha256_ctx \<Rightarrow> sha256_ctx" where
  "v9x_sha256_update data ctx =
     (let len = of_nat (length data) :: u32;
          ctx = ctx\<lparr>s256_count_lo := (s256_count_lo ctx + len) AND 0xFFFFFFFF\<rparr>;
          ctx = (if s256_count_lo ctx < len
                 then ctx\<lparr>s256_count_hi := (s256_count_hi ctx + 1) AND 0xFFFFFFFF\<rparr> else ctx)
      in fold sha256_put data ctx)"

text \<open>The two loops of \<open>v9x_sha256_final\<close> that write zeros.\<close>

function sha256_zero_to :: "nat \<Rightarrow> sha256_ctx \<Rightarrow> sha256_ctx" where
  "sha256_zero_to n ctx =
     (if s256_buffered ctx < n
      then sha256_zero_to n (ctx\<lparr>s256_buffer := (s256_buffer ctx)[s256_buffered ctx := 0],
                                 s256_buffered := s256_buffered ctx + 1\<rparr>)
      else ctx)"
  by pat_completeness auto
termination
  by (relation "measure (\<lambda>(n, ctx). n - s256_buffered ctx)") auto

declare sha256_zero_to.simps [simp del]

text \<open>The loop over \<open>i\<close> that stores the bit count, one index at a time.\<close>

definition sha256_put_count :: "u32 \<Rightarrow> u32 \<Rightarrow> bytes \<Rightarrow> bytes" where
  "sha256_put_count bits_hi bits_lo buffer =
     foldl (\<lambda>buf i. buf[56 + i := ucast (drop_bit (24 - 8 * i) bits_hi AND 0xFF),
                        60 + i := ucast (drop_bit (24 - 8 * i) bits_lo AND 0xFF)])
       buffer [0..<4]"

definition v9x_sha256_final :: "sha256_ctx \<Rightarrow> bytes \<times> sha256_ctx" where
  "v9x_sha256_final ctx =
     (let bits_hi = (push_bit 3 (s256_count_hi ctx) OR drop_bit 29 (s256_count_lo ctx)) AND 0xFFFFFFFF;
          bits_lo = push_bit 3 (s256_count_lo ctx) AND 0xFFFFFFFF;
          ctx = ctx\<lparr>s256_buffer := (s256_buffer ctx)[s256_buffered ctx := 0x80],
                    s256_buffered := s256_buffered ctx + 1\<rparr>;
          ctx = (if s256_buffered ctx > 56
                 then (let ctx = sha256_zero_to V9X_SHA256_BLOCK_BYTES ctx in
                       ctx\<lparr>s256_state := v9x_sha256_block (s256_state ctx) (s256_buffer ctx),
                           s256_buffered := 0\<rparr>)
                 else ctx);
          ctx = sha256_zero_to 56 ctx;
          ctx = ctx\<lparr>s256_buffer := sha256_put_count bits_hi bits_lo (s256_buffer ctx)\<rparr>;
          ctx = ctx\<lparr>s256_state := v9x_sha256_block (s256_state ctx) (s256_buffer ctx),
                    s256_buffered := 0\<rparr>
      in (map (\<lambda>i. ucast (drop_bit (24 - 8 * (i mod 4)) (s256_state ctx ! (i div 4)) AND 0xFF))
            [0..<32], ctx))"

definition v9x_sha256_hex :: "bytes \<Rightarrow> bytes" where
  "v9x_sha256_hex digest =
     concat (map (\<lambda>i. [v9x_sha256_hex_digits ! unat (drop_bit 4 (digest ! i) AND 0x0F),
                       v9x_sha256_hex_digits ! unat (digest ! i AND 0x0F)]) [0..<32])"

text \<open>What the callers do: init, any number of updates, final.\<close>

definition sha256_of :: "sha256_ctx \<Rightarrow> bytes list \<Rightarrow> bytes" where
  "sha256_of ctx chunks = fst (v9x_sha256_final (fold v9x_sha256_update chunks (v9x_sha256_init ctx)))"

subsection \<open>FIPS 180-4\<close>

text \<open>Rotation is the library's; the schedule is the standard's recursion; the hash is a fold over
  the blocks of the padded message.\<close>

function fips256_W :: "(nat \<Rightarrow> u32) \<Rightarrow> nat \<Rightarrow> u32" where
  "fips256_W M t =
     (if t < 16 then M t
      else (word_rotr 17 (fips256_W M (t - 2)) XOR word_rotr 19 (fips256_W M (t - 2)) XOR
              drop_bit 10 (fips256_W M (t - 2))) + fips256_W M (t - 7) +
           (word_rotr 7 (fips256_W M (t - 15)) XOR word_rotr 18 (fips256_W M (t - 15)) XOR
              drop_bit 3 (fips256_W M (t - 15))) + fips256_W M (t - 16))"
  by pat_completeness auto
termination
  by (relation "measure snd") auto

declare fips256_W.simps [simp del]

fun fips256_round :: "(nat \<Rightarrow> u32) \<Rightarrow> nat \<Rightarrow> sha256_vars \<Rightarrow> sha256_vars" where
  "fips256_round W t (a, b, c, d, e, f, g, h) =
     (let T1 = h + (word_rotr 6 e XOR word_rotr 11 e XOR word_rotr 25 e) +
               ((e AND f) XOR (NOT e AND g)) + v9x_sha256_k ! t + W t;
          T2 = (word_rotr 2 a XOR word_rotr 13 a XOR word_rotr 22 a) +
               ((a AND b) XOR (a AND c) XOR (b AND c))
      in (T1 + T2, a, b, c, d + T1, e, f, g))"

primrec fips256_rounds :: "(nat \<Rightarrow> u32) \<Rightarrow> nat \<Rightarrow> sha256_vars \<Rightarrow> sha256_vars" where
  "fips256_rounds W 0 v = v"
| "fips256_rounds W (Suc t) v = fips256_round W t (fips256_rounds W t v)"

text \<open>The \<open>t\<close>-th big-endian 32-bit word of a block.\<close>

definition be_word :: "bytes \<Rightarrow> nat \<Rightarrow> u32" where
  "be_word block t = of_nat (unat (block ! (4 * t)) * 2 ^ 24 + unat (block ! (4 * t + 1)) * 2 ^ 16 +
     unat (block ! (4 * t + 2)) * 2 ^ 8 + unat (block ! (4 * t + 3)))"

definition fips256_compress :: "u32 list \<Rightarrow> bytes \<Rightarrow> u32 list" where
  "fips256_compress H block =
     (case fips256_rounds (fips256_W (be_word block)) 64
             (H ! 0, H ! 1, H ! 2, H ! 3, H ! 4, H ! 5, H ! 6, H ! 7) of
        (a, b, c, d, e, f, g, h) \<Rightarrow> map2 (+) (take 8 H) [a, b, c, d, e, f, g, h])"

definition fips256 :: "bytes \<Rightarrow> bytes" where
  "fips256 m = concat (map (\<lambda>h. be_bytes 4 (unat h))
     (foldl fips256_compress v9x_sha256_h0 (full_blocks 64 (m @ fips_padding 64 8 (length m)))))"


subsection \<open>One block\<close>

lemma sha256_rotr_eq:
  assumes "0 < n" "n < 32"
  shows "v9x_sha256_rotr x n = word_rotr n x"
proof (rule bit_word_eqI)
  fix i assume "i < LENGTH(32)"
  then have i: "i < 32" by simp
  show "bit (v9x_sha256_rotr x n) i = bit (word_rotr n x) i"
  proof (cases "i + n < 32")
    case True
    then have "\<not> 32 - n \<le> i" using assms by linarith
    then show ?thesis using i assms True
      by (simp add: v9x_sha256_rotr_def bit_word_rotr_iff bit_or_iff bit_drop_bit_eq bit_push_bit_iff add.commute)
  next
    case False
    then have "(i + n) mod 32 = i - (32 - n)" and "32 - n \<le> i" using i assms by (simp_all add: mod_if)
    moreover have "\<not> bit x (n + i)" using False by (intro bit_u32_high) simp
    ultimately show ?thesis using i assms
      by (simp add: v9x_sha256_rotr_def bit_word_rotr_iff bit_or_iff bit_drop_bit_eq bit_push_bit_iff)
  qed
qed

lemma sha256_load_eq: "sha256_load block i = be_word block i"
proof -
  have "sha256_load block i = u32_of (block ! (4 * i + 3)) (block ! (4 * i + 2)) (block ! (4 * i + 1)) (block ! (4 * i))"
    by (simp add: sha256_load_def u32_of_def ac_simps)
  then have "unat (sha256_load block i) = unat (block ! (4 * i)) * 2 ^ 24 + unat (block ! (4 * i + 1)) * 2 ^ 16 +
     unat (block ! (4 * i + 2)) * 2 ^ 8 + unat (block ! (4 * i + 3))"
    by (simp add: unat_u32_of)
  moreover have "of_nat (unat x) = x" for x :: u32 by simp
  ultimately show ?thesis unfolding be_word_def by metis
qed

lemma sha256_extend_W:
  assumes "16 \<le> n"
  shows "sha256_extend (map (fips256_W M) [0..<n]) n = map (fips256_W M) [0..<Suc n]"
  using assms by (simp add: sha256_extend_def fips256_W.simps [of M n] sha256_rotr_eq
      v9x_sha256_small_sigma0_def v9x_sha256_small_sigma1_def)

lemma sha256_schedule_eq: "sha256_schedule block = map (fips256_W (be_word block)) [0..<64]"
proof -
  have "foldl sha256_extend (map (sha256_load block) [0..<16]) [16..<16 + n] =
      map (fips256_W (be_word block)) [0..<16 + n]" for n
  proof (induction n)
    case 0
    then show ?case by (simp add: sha256_load_eq fips256_W.simps)
  next
    case (Suc n)
    have "[16..<16 + Suc n] = [16..<16 + n] @ [16 + n]"
      by (metis add_Suc_right le_add1 upt_Suc_append)
    moreover have "sha256_extend (map (fips256_W M) [0..<16 + n]) (16 + n) =
        map (fips256_W M) [0..<16 + Suc n]" for M
      using sha256_extend_W [of "16 + n" M] by (metis add_Suc_right le_add1)
    ultimately show ?case using Suc by (simp only: foldl_append foldl.simps)
  qed
  from this [of 48] show ?thesis by (simp add: sha256_schedule_def)
qed

lemma sha256_round_eq:
  "t < 64 \<Longrightarrow> sha256_round (map W [0..<64]) v t = fips256_round W t v"
  by (cases v; cases "snd (snd (snd (snd (snd v))))") (simp add: v9x_sha256_big_sigma0_def v9x_sha256_big_sigma1_def sha256_rotr_eq
      v9x_sha256_ch_def v9x_sha256_maj_def Let_def)

lemma sha256_rounds_eq:
  "n \<le> 64 \<Longrightarrow> foldl (sha256_round (map W [0..<64])) v [0..<n] = fips256_rounds W n v"
  by (induction n) (simp_all add: sha256_round_eq)

lemma sha256_block_eq:
  assumes "length H = 8"
  shows "v9x_sha256_block H block = fips256_compress H block"
proof -
  obtain h0 h1 h2 h3 h4 h5 h6 h7 where "H = [h0, h1, h2, h3, h4, h5, h6, h7]"
    using assms by (auto simp: length_Suc_conv numeral_eq_Suc)
  then show ?thesis
    by (simp add: v9x_sha256_block_def fips256_compress_def sha256_schedule_eq sha256_rounds_eq
        split: prod.splits)
qed

lemma length_v9x_sha256_block [simp]: "length (v9x_sha256_block H block) = 8"
  by (simp add: v9x_sha256_block_def Let_def split: prod.splits)

lemma sha256_blocks_eq:
  "length H = 8 \<Longrightarrow> foldl v9x_sha256_block H bs = foldl fips256_compress H bs \<and>
    length (foldl v9x_sha256_block H bs) = 8"
proof (induction bs arbitrary: H)
  case (Cons b bs)
  then show ?case using Cons.IH [of "v9x_sha256_block H b"]
    by (simp add: sha256_block_eq [OF Cons.prems, symmetric])
qed simp

subsection \<open>The byte loop\<close>

definition sha256_inv :: "sha256_ctx \<Rightarrow> bool" where
  "sha256_inv ctx \<longleftrightarrow> length (s256_buffer ctx) = 64 \<and> s256_buffered ctx < 64"

definition sha256_pend :: "sha256_ctx \<Rightarrow> bytes" where
  "sha256_pend ctx = take (s256_buffered ctx) (s256_buffer ctx)"

interpretation s256: block_stream 64 v9x_sha256_block sha256_put sha256_inv s256_state sha256_pend
proof
  fix c b
  assume "sha256_inv c"
  then have len: "length (s256_buffer c) = 64" and k: "s256_buffered c < 64"
    by (simp_all add: sha256_inv_def)
  have grown: "take (Suc (s256_buffered c)) ((s256_buffer c)[s256_buffered c := b]) = sha256_pend c @ [b]"
    using len k by (simp add: sha256_pend_def take_Suc_conv_app_nth)
  show "sha256_inv (sha256_put b c)"
    using len k by (auto simp: sha256_inv_def sha256_put_def Let_def V9X_SHA256_BLOCK_BYTES_def)
  show "length (sha256_pend c) < 64"
    using len k by (simp add: sha256_pend_def)
  show "s256_state (sha256_put b c) = s256_state c \<and> sha256_pend (sha256_put b c) = sha256_pend c @ [b]"
    if "length (sha256_pend c) + 1 < 64"
    using that len k grown
    by (simp add: sha256_put_def Let_def V9X_SHA256_BLOCK_BYTES_def sha256_pend_def)
  show "s256_state (sha256_put b c) = v9x_sha256_block (s256_state c) (sha256_pend c @ [b]) \<and>
      sha256_pend (sha256_put b c) = []"
    if "length (sha256_pend c) + 1 = 64"
  proof -
    have "s256_buffered c = 63" using that len k by (simp add: sha256_pend_def)
    then show ?thesis using grown len
      by (simp add: sha256_put_def Let_def V9X_SHA256_BLOCK_BYTES_def sha256_pend_def)
  qed
qed simp_all

subsection \<open>The byte count\<close>

definition sha256_count :: "sha256_ctx \<Rightarrow> nat" where
  "sha256_count ctx = unat (s256_count_hi ctx) * 2 ^ 32 + unat (s256_count_lo ctx)"

lemma sha256_put_counts [simp]:
  "s256_count_hi (fold sha256_put data ctx) = s256_count_hi ctx"
  "s256_count_lo (fold sha256_put data ctx) = s256_count_lo ctx"
  by (induction data arbitrary: ctx) (simp_all add: sha256_put_def Let_def)


lemma sha256_update_count:
  assumes "length data < 2 ^ 32"
  shows "sha256_count (v9x_sha256_update data ctx) = (sha256_count ctx + length data) mod 2 ^ 64"
proof -
  define len :: u32 where "len = of_nat (length data)"
  have len: "unat len = length data" using assms by (simp add: len_def u32_of_nat)
  let ?lo = "s256_count_lo ctx" and ?hi = "s256_count_hi ctx"
  have "sha256_count (v9x_sha256_update data ctx) =
      (if (unat ?lo + unat len) mod 2 ^ 32 < unat len then (unat ?hi + 1) mod 2 ^ 32 else unat ?hi) *
        2 ^ 32 + (unat ?lo + unat len) mod 2 ^ 32"
    by (simp add: v9x_sha256_update_def Let_def sha256_count_def len_def [symmetric]
        word_less_nat_alt unat_word_ariths)
  also have "\<dots> = (unat ?hi * 2 ^ 32 + unat ?lo + unat len) mod (2 ^ 32 * 2 ^ 32)"
    by (rule two_halves_add) simp_all
  finally show ?thesis by (simp add: len sha256_count_def)
qed

lemma sha256_update_stream:
  "sha256_inv ctx \<Longrightarrow> sha256_inv (v9x_sha256_update data ctx) \<and>
     s256_state (v9x_sha256_update data ctx) =
       foldl v9x_sha256_block (s256_state ctx) (full_blocks 64 (sha256_pend ctx @ data)) \<and>
     sha256_pend (v9x_sha256_update data ctx) = block_rest 64 (sha256_pend ctx @ data)"
proof -
  assume inv: "sha256_inv ctx"
  define c where "c = ctx\<lparr>s256_count_lo := s256_count_lo (v9x_sha256_update data ctx),
    s256_count_hi := s256_count_hi (v9x_sha256_update data ctx)\<rparr>"
  have "v9x_sha256_update data ctx = fold sha256_put data c"
    unfolding c_def by (simp add: v9x_sha256_update_def Let_def)
  moreover have "sha256_inv c" "s256_state c = s256_state ctx" "sha256_pend c = sha256_pend ctx"
    using inv by (simp_all add: c_def sha256_inv_def sha256_pend_def)
  ultimately show ?thesis using s256.absorb [of c data] by simp
qed

lemma sha256_updates:
  assumes "sha256_inv ctx" "\<forall>data \<in> set chunks. length data < 2 ^ 32"
  shows "sha256_inv (fold v9x_sha256_update chunks ctx) \<and>
     s256_state (fold v9x_sha256_update chunks ctx) =
       foldl v9x_sha256_block (s256_state ctx) (full_blocks 64 (sha256_pend ctx @ concat chunks)) \<and>
     sha256_pend (fold v9x_sha256_update chunks ctx) = block_rest 64 (sha256_pend ctx @ concat chunks) \<and>
     sha256_count (fold v9x_sha256_update chunks ctx) =
       (sha256_count ctx + length (concat chunks)) mod 2 ^ 64"
  using assms
proof (induction chunks arbitrary: ctx)
  case Nil
  moreover have "sha256_count ctx < 2 ^ 64"
    using u32_less [of "s256_count_hi ctx"] u32_less [of "s256_count_lo ctx"]
    by (simp add: sha256_count_def del: u32_less)
  ultimately show ?case using s256.pend_short [of ctx] by simp
next
  case (Cons data chunks)
  note step = sha256_update_stream [OF Cons.prems(1), of data]
  have IH: "\<forall>data \<in> set chunks. length data < 2 ^ 32" and "length data < 2 ^ 32"
    using Cons.prems(2) by auto
  note count = sha256_update_count [OF this(2), of ctx]
  show ?case
    using Cons.IH [OF conjunct1 [OF step] IH] step count
      full_blocks_append [of 64 "sha256_pend ctx @ data" "concat chunks"]
      block_rest_append [of 64 "sha256_pend ctx @ data" "concat chunks"]
    by (simp add: mod_add_left_eq add.assoc)
qed


subsection \<open>Padding\<close>

lemma sha256_zero_to_eq:
  assumes "s256_buffered ctx \<le> n" "n \<le> length (s256_buffer ctx)"
  shows "sha256_zero_to n ctx = ctx\<lparr>s256_buffer := take (s256_buffered ctx) (s256_buffer ctx) @
    replicate (n - s256_buffered ctx) 0 @ drop n (s256_buffer ctx), s256_buffered := n\<rparr>"
  using assms
proof (induction n ctx rule: sha256_zero_to.induct)
  case (1 n ctx)
  show ?case
  proof (cases "s256_buffered ctx < n")
    case False
    then show ?thesis using "1.prems" by (simp add: sha256_zero_to.simps [of n ctx])
  next
    case True
    let ?k = "s256_buffered ctx" and ?b = "s256_buffer ctx"
    have "take (Suc ?k) (?b[?k := 0]) = take ?k ?b @ [0]"
      using True "1.prems" by (simp add: take_Suc_conv_app_nth)
    moreover have "drop n (?b[?k := 0]) = drop n ?b" using True by simp
    moreover have "replicate (n - ?k) (0::u8) = 0 # replicate (n - Suc ?k) 0"
      using True by (simp add: Suc_diff_Suc flip: replicate_Suc)
    ultimately show ?thesis
      using "1.IH" [OF True] "1.prems" True by (simp add: sha256_zero_to.simps [of n ctx])
  qed
qed

lemma sha256_put_count_eq:
  assumes "length buffer = 64"
  shows "sha256_put_count hi lo buffer = take 56 buffer @ be_bytes 8 (unat hi * 2 ^ 32 + unat lo)"
proof -
  define p where "p = take 56 buffer"
  have p: "length p = 56" using assms by (simp add: p_def)
  obtain a b c d e f g h where "drop 56 buffer = [a, b, c, d, e, f, g, h]"
    using assms by (auto simp: length_Suc_conv numeral_eq_Suc dest!: arg_cong [of _ _ length] intro: that)
  then have buffer: "buffer = p @ [a, b, c, d, e, f, g, h]"
    by (metis p_def append_take_drop_id)
  have "be_bytes (4 + 4) (unat hi * 256 ^ 4 + unat lo) = be_bytes 4 (unat hi) @ be_bytes 4 (unat lo)"
    by (rule be_bytes_halves) simp
  then show ?thesis
    using p by (simp add: buffer sha256_put_count_def upt_4 list_update_append be_bytes_u32)
qed

text \<open>What \<open>v9x_sha256_final\<close> compresses: the pending bytes and the padding.\<close>

lemma sha256_final_state:
  assumes "sha256_inv ctx"
  defines "k \<equiv> length (sha256_pend ctx)"
  shows "s256_state (snd (v9x_sha256_final ctx)) = foldl v9x_sha256_block (s256_state ctx)
    (full_blocks 64 (sha256_pend ctx @ 0x80 # replicate (pad_zeros 64 8 k) 0 @
       be_bytes 8 (8 * sha256_count ctx)))"
proof -
  let ?b = "s256_buffer ctx" and ?p = "sha256_pend ctx"
  define cnt where "cnt = be_bytes 8 (8 * sha256_count ctx)"
  have len: "length ?b = 64" and k: "k = s256_buffered ctx" "k < 64"
    using assms by (auto simp: sha256_inv_def sha256_pend_def)
  have bits: "be_bytes 8 (unat (push_bit 3 (s256_count_hi ctx) OR drop_bit 29 (s256_count_lo ctx)) *
      2 ^ 32 + unat (push_bit 3 (s256_count_lo ctx))) = cnt"
    using be_bytes_mod [of 8 "8 * sha256_count ctx"] unfolding two_halves_bits
    by (simp add: sha256_count_def cnt_def)
  have cnt: "length cnt = 8" by (simp add: cnt_def)
  have one: "take (Suc k) (?b[k := 0x80]) = ?p @ [0x80]"
    using len k by (simp add: sha256_pend_def take_Suc_conv_app_nth)
  have lp: "length ?p = k" by (simp add: k_def)
  show ?thesis
  proof (cases "k + 1 > 56")
    case True
    define b1 where "b1 = ?p @ 0x80 # replicate (63 - k) 0"
    have app: "(?p @ [0x80]) @ xs = ?p @ 0x80 # xs" for xs by simp
    have b1: "length b1 = 64" using k by (simp add: b1_def lp)
    have "pad_zeros 64 8 k = (63 - k) + 56" using True k by (simp add: pad_zeros_def)
    then have blocks: "?p @ 0x80 # replicate (pad_zeros 64 8 k) 0 @ cnt = b1 @ (replicate 56 0 @ cnt)"
      by (simp add: b1_def replicate_add)
    show ?thesis
      using True len k one bits b1 cnt lp full_blocks_one [of 64 b1 "replicate 56 0 @ cnt"]
      unfolding cnt_def [symmetric] blocks
      by (simp add: v9x_sha256_final_def Let_def V9X_SHA256_BLOCK_BYTES_def sha256_zero_to_eq
          sha256_put_count_eq b1_def app del: append_assoc append_Cons)
  next
    case False
    then have "pad_zeros 64 8 k = 55 - k" and "56 - k = Suc (55 - k)"
      by (simp_all add: pad_zeros_def mod_if)
    then show ?thesis
      using False len k one bits lp cnt unfolding cnt_def [symmetric]
      by (simp add: v9x_sha256_final_def Let_def V9X_SHA256_BLOCK_BYTES_def sha256_zero_to_eq
          sha256_put_count_eq)
  qed
qed

lemma sha256_final_digest:
  assumes "length (s256_state (snd (v9x_sha256_final ctx))) = 8"
  shows "fst (v9x_sha256_final ctx) =
     concat (map (\<lambda>h. be_bytes 4 (unat h)) (s256_state (snd (v9x_sha256_final ctx))))"
proof -
  define st where "st = s256_state (snd (v9x_sha256_final ctx))"
  have "fst (v9x_sha256_final ctx) =
      map (\<lambda>i. ucast (drop_bit (24 - 8 * (i mod 4)) (st ! (i div 4)) AND 0xFF)) [0..<32]"
    by (simp add: v9x_sha256_final_def Let_def st_def)
  also have "\<dots> = concat (map (\<lambda>h. be_bytes 4 (unat h)) st)"
  proof -
    obtain h0 h1 h2 h3 h4 h5 h6 h7 where "st = [h0, h1, h2, h3, h4, h5, h6, h7]"
      using assms by (auto simp: st_def length_Suc_conv numeral_eq_Suc)
    then show ?thesis by (simp add: be_bytes_u32 upt_4 upt_rec)
  qed
  finally show ?thesis by (simp add: st_def)
qed

lemma sha256_of_eq:
  assumes "length (s256_buffer ctx) = 64" "\<forall>data \<in> set chunks. length data < 2 ^ 32"
  shows "sha256_of ctx chunks = fips256 (concat chunks)"
proof -
  let ?m = "concat chunks"
  define c0 where "c0 = v9x_sha256_init ctx"
  define c where "c = fold v9x_sha256_update chunks c0"
  have h0: "s256_state c0 = v9x_sha256_h0"
    by (simp add: c0_def v9x_sha256_init_def v9x_sha256_h0_def upt_rec)
  have c0: "sha256_inv c0" "sha256_pend c0 = []" "sha256_count c0 = 0"
    using assms(1) by (simp_all add: c0_def v9x_sha256_init_def sha256_inv_def sha256_pend_def sha256_count_def)
  note upd = sha256_updates [OF c0(1) assms(2), folded c_def]
  have rest: "length (block_rest 64 ?m) = length ?m mod 64" by (rule length_block_rest) simp
  have "be_bytes 8 (8 * sha256_count c) = be_bytes 8 (8 * length ?m)"
    using be_bytes_mod [of 8 "8 * sha256_count c"] be_bytes_mod [of 8 "8 * length ?m"] upd c0
    by (simp add: mod_mult_right_eq)
  moreover have "pad_zeros 64 8 (length (sha256_pend c)) = pad_zeros 64 8 (length ?m)"
    using upd c0 rest by (simp add: pad_zeros_def)
  ultimately have st: "s256_state (snd (v9x_sha256_final c)) = foldl v9x_sha256_block v9x_sha256_h0
      (full_blocks 64 (?m @ fips_padding 64 8 (length ?m)))"
    using sha256_final_state [of c] upd c0 full_blocks_append [of 64 ?m "fips_padding 64 8 (length ?m)"]
    by (simp add: fips_padding_def h0)
  have "length v9x_sha256_h0 = 8" by (simp add: v9x_sha256_h0_def)
  note eq = sha256_blocks_eq [OF this, of "full_blocks 64 (?m @ fips_padding 64 8 (length ?m))"]
  have "length (s256_state (snd (v9x_sha256_final c))) = 8" unfolding st using eq by (rule conjunct2)
  from sha256_final_digest [OF this] show ?thesis
    using eq by (simp add: sha256_of_def c_def [symmetric] c0_def [symmetric] fips256_def st)
qed

text \<open>C11. For every message cut in any way into pieces of less than 4 GB, whatever was left in the
  context before, the digest is that of FIPS 180-4 for the whole message.\<close>

theorem sha256_correct:
  assumes "length (s256_buffer ctx) = 64" "\<forall>data \<in> set chunks. length data < 2 ^ 32"
  shows "sha256_of ctx chunks = fips256 (concat chunks)"
  using assms by (rule sha256_of_eq)

theorem sha256_correct_witness:
  "sha256_of (\<lparr>s256_state = [], s256_count_lo = 7, s256_count_hi = 9, s256_buffered = 63,
      s256_buffer = replicate 64 1\<rparr>) [[0x61], [0x62, 0x63]] = fips256 [0x61, 0x62, 0x63]"
  using sha256_correct [of "\<lparr>s256_state = [], s256_count_lo = 7, s256_count_hi = 9, s256_buffered = 63,
      s256_buffer = replicate 64 1\<rparr>" "[[0x61], [0x62, 0x63]]"] by simp

end
