(* ===== verification/Relay.thy ===== *)
theory Relay
  imports Outcome Ed25519 Sha256
begin

section \<open>Relay: signed chunks of a remote-help session\<close>

text \<open>
  \<^verbatim>\<open>include/v9xremote/relay.h\<close> and \<^verbatim>\<open>src/common/relay.c\<close>. Identifiers are C strings (the bytes
  before the terminator, a null pointer is \<open>None\<close>); a batch is memory read through checked accesses
  and its offsets are 32-bit words.
\<close>

subsection \<open>Constants\<close>

definition V9X_RELAY_RECORD_HEADER :: u32 where "V9X_RELAY_RECORD_HEADER = 76"
definition V9X_RELAY_CHUNK_MAX :: u32 where "V9X_RELAY_CHUNK_MAX = 1048576"
definition V9X_RELAY_MACHINE_LENGTH :: nat where "V9X_RELAY_MACHINE_LENGTH = 8"
definition V9X_RELAY_HEX_ID_LENGTH :: nat where "V9X_RELAY_HEX_ID_LENGTH = 32"
definition V9X_RELAY_INSTALL_LENGTH :: nat where "V9X_RELAY_INSTALL_LENGTH = 36"
definition V9X_RELAY_MESSAGE_MAX :: nat where "V9X_RELAY_MESSAGE_MAX = 256"
definition V9X_RELAY_DOWN_MAGIC :: bytes where "V9X_RELAY_DOWN_MAGIC = asc ''V9XD''"

lemmas relay_consts =
  V9X_RELAY_RECORD_HEADER_def V9X_RELAY_CHUNK_MAX_def V9X_RELAY_MACHINE_LENGTH_def
  V9X_RELAY_HEX_ID_LENGTH_def V9X_RELAY_INSTALL_LENGTH_def V9X_RELAY_MESSAGE_MAX_def
  V9X_RELAY_DOWN_MAGIC_def

datatype relay_status = V9X_RELAY_RECORD_OK | V9X_RELAY_RECORD_END | V9X_RELAY_RECORD_BAD

record relay_record =
  rseq :: u32
  rlength :: u32
  rsignature :: nat
  rdata :: nat

definition v9x_relay_crockford :: bytes where
  "v9x_relay_crockford = asc ''0123456789ABCDEFGHJKMNPQRSTVWXYZ''"

definition relay_digits :: bytes where
  "relay_digits = asc ''0123456789abcdef''"

subsection \<open>Strings and identifiers\<close>

fun v9x_relay_length :: "bytes \<Rightarrow> nat" where
  "v9x_relay_length [] = 0"
| "v9x_relay_length (c # text) = v9x_relay_length text + 1"

definition v9x_relay_read32 :: "bytes \<Rightarrow> nat \<Rightarrow> u32 option" where
  "v9x_relay_read32 batch p = do {
     b0 \<leftarrow> rd batch p;
     b1 \<leftarrow> rd batch (p + 1);
     b2 \<leftarrow> rd batch (p + 2);
     b3 \<leftarrow> rd batch (p + 3);
     Some (ucast b0 OR push_bit 8 (ucast b1) OR push_bit 16 (ucast b2) OR push_bit 24 (ucast b3)) }"

text \<open>The shape of an identifier: a test for each place, then the terminator.\<close>

fun shaped :: "bytes \<Rightarrow> nat \<Rightarrow> nat \<Rightarrow> (nat \<Rightarrow> u8 \<Rightarrow> bool) \<Rightarrow> bool" where
  "shaped text index 0 test \<longleftrightarrow> text = []"
| "shaped [] index (Suc n) test \<longleftrightarrow> False"
| "shaped (c # text) index (Suc n) test \<longleftrightarrow> test index c \<and> shaped text (index + 1) n test"

definition machine_char :: "nat \<Rightarrow> u8 \<Rightarrow> bool" where
  "machine_char index c \<longleftrightarrow>
     (if index = 0 then c = 0x4D else if index = 1 then c = 0x2D else c \<in> set v9x_relay_crockford)"

definition v9x_relay_machine_valid :: "bytes option \<Rightarrow> bool" where
  "v9x_relay_machine_valid machine =
     (case machine of None \<Rightarrow> False
      | Some text \<Rightarrow> shaped text 0 V9X_RELAY_MACHINE_LENGTH machine_char)"

definition hex_id_char :: "nat \<Rightarrow> u8 \<Rightarrow> bool" where
  "hex_id_char index c \<longleftrightarrow> c \<ge> 0x30 \<and> c \<le> 0x39 \<or> c \<ge> 0x61 \<and> c \<le> 0x66"

definition v9x_relay_hex_id_valid :: "bytes option \<Rightarrow> bool" where
  "v9x_relay_hex_id_valid idp =
     (case idp of None \<Rightarrow> False | Some text \<Rightarrow> shaped text 0 V9X_RELAY_HEX_ID_LENGTH hex_id_char)"

definition install_char :: "nat \<Rightarrow> u8 \<Rightarrow> bool" where
  "install_char index c \<longleftrightarrow>
     (if index = 8 \<or> index = 13 \<or> index = 18 \<or> index = 23 then c = 0x2D
      else c \<ge> 0x30 \<and> c \<le> 0x39 \<or> c \<ge> 0x61 \<and> c \<le> 0x66 \<or> c \<ge> 0x41 \<and> c \<le> 0x46)"

definition v9x_relay_install_valid :: "bytes option \<Rightarrow> bool" where
  "v9x_relay_install_valid install =
     (case install of None \<Rightarrow> False
      | Some text \<Rightarrow> shaped text 0 V9X_RELAY_INSTALL_LENGTH install_char)"

definition v9x_relay_hex :: "bytes \<Rightarrow> bytes" where
  "v9x_relay_hex bs =
     concat (map (\<lambda>b. [relay_digits ! unat (drop_bit 4 b), relay_digits ! unat (b AND 0x0F)]) bs)"

subsection \<open>The canonical text\<close>

text \<open>Appending into the output buffer: every byte is a checked write.\<close>

fun v9x_relay_append :: "bytes \<Rightarrow> nat \<Rightarrow> bytes \<Rightarrow> (bytes \<times> nat) option" where
  "v9x_relay_append out used [] = Some (out, used)"
| "v9x_relay_append out used (c # text) = do {
     out \<leftarrow> wr out used c;
     v9x_relay_append out (used + 1) text }"

text \<open>The decimal digits, filled from the end of the 11-byte buffer; at most ten passes.\<close>

fun relay_number :: "bytes \<Rightarrow> u32 \<Rightarrow> nat \<Rightarrow> nat \<Rightarrow> (bytes \<times> nat) option" where
  "relay_number number v digits 0 = Some (number, digits)"
| "relay_number number v digits (Suc n) = do {
     number \<leftarrow> wr number (10 - digits - 1) (0x30 + ucast (v mod 10));
     if v div 10 \<noteq> 0 then relay_number number (v div 10) (digits + 1) n
     else Some (number, digits + 1) }"

definition decimal :: "u32 \<Rightarrow> bytes option" where
  "decimal v = do {
     (number, digits) \<leftarrow> relay_number (replicate 11 0) v 0 11;
     Some (take digits (drop (10 - digits) number)) }"

text \<open>The pieces, in the order of the source. \<open>out\<close> and \<open>out_length\<close> are what the two output pointers
  point to (\<open>None\<close>: null) and come back as they are left.\<close>

fun append_all :: "bytes \<Rightarrow> nat \<Rightarrow> bytes list \<Rightarrow> (bytes \<times> nat) option" where
  "append_all out used [] = Some (out, used)"
| "append_all out used (t # ts) = do {
     (out, used) \<leftarrow> v9x_relay_append out used t;
     append_all out used ts }"

definition v9x_relay_message ::
    "bytes option \<Rightarrow> bytes option \<Rightarrow> bytes option \<Rightarrow> bytes option \<Rightarrow> u32 \<Rightarrow> bytes option \<Rightarrow> u32 \<Rightarrow>
     sha256_ctx \<Rightarrow> bytes option \<Rightarrow> u32 option \<Rightarrow> (bool \<times> bytes option \<times> u32 option) option" where
  "v9x_relay_message machine install nonce session seq data len hash out out_length =
     (if \<not> v9x_relay_machine_valid machine \<or> \<not> v9x_relay_install_valid install \<or>
         \<not> v9x_relay_hex_id_valid nonce \<or> \<not> v9x_relay_hex_id_valid session \<or>
         out = None \<or> out_length = None \<or> (data = None \<and> len \<noteq> 0)
      then Some (False, out, out_length)
      else do {
        chunk \<leftarrow> rds (case_option [] id data) 0 (unat len);
        let digest = fst (v9x_sha256_final (v9x_sha256_update chunk (v9x_sha256_init hash)));
        let hex = v9x_relay_hex digest;
        number \<leftarrow> decimal seq;
        (out, used) \<leftarrow> append_all (case_option [] id out) 0
          [asc ''V9XRELAY1'' @ [10] @ asc ''machine='', case_option [] id machine,
           [10] @ asc ''install='', case_option [] id install,
           [10] @ asc ''nonce='', case_option [] id nonce,
           [10] @ asc ''session='', case_option [] id session,
           [10] @ asc ''seq='', number,
           [10] @ asc ''sha256='', hex, [10]];
        out \<leftarrow> wr out used 0;
        Some (used < V9X_RELAY_MESSAGE_MAX \<and> used = v9x_relay_length (takeWhile (\<lambda>c. c \<noteq> 0) out),
              Some out, Some (of_nat used)) })"

subsection \<open>Records\<close>

definition v9x_relay_next ::
    "bytes option \<Rightarrow> u32 \<Rightarrow> u32 option \<Rightarrow> relay_record option \<Rightarrow>
     (relay_status \<times> u32 option \<times> relay_record option) option" where
  "v9x_relay_next bp batch_length op rp =
     (case (bp, op, rp) of
        (Some batch, Some at, Some r) \<Rightarrow>
          if at > batch_length then Some (V9X_RELAY_RECORD_BAD, op, rp)
          else if at = batch_length then Some (V9X_RELAY_RECORD_END, op, rp)
          else if batch_length - at < V9X_RELAY_RECORD_HEADER then Some (V9X_RELAY_RECORD_BAD, op, rp)
          else do {
            magic \<leftarrow> rds batch (unat at) 4;
            if magic \<noteq> V9X_RELAY_DOWN_MAGIC then Some (V9X_RELAY_RECORD_BAD, op, rp)
            else do {
              len \<leftarrow> v9x_relay_read32 batch (unat at + 8);
              if len = 0 \<or> len > V9X_RELAY_CHUNK_MAX \<or>
                 len > batch_length - at - V9X_RELAY_RECORD_HEADER
              then Some (V9X_RELAY_RECORD_BAD, op, rp)
              else do {
                seq \<leftarrow> v9x_relay_read32 batch (unat at + 4);
                Some (V9X_RELAY_RECORD_OK, Some (at + V9X_RELAY_RECORD_HEADER + len),
                      Some \<lparr>rseq = seq, rlength = len, rsignature = unat at + 12,
                            rdata = unat at + unat V9X_RELAY_RECORD_HEADER\<rparr>) } } }
      | _ \<Rightarrow> Some (V9X_RELAY_RECORD_BAD, op, rp))"

text \<open>The record's pointers reach into the batch; \<open>hash\<close>, \<open>message\<close> and \<open>out_length\<close> are the
  locals of the calls, uninitialised.\<close>

definition v9x_relay_verify ::
    "bytes \<Rightarrow> relay_record option \<Rightarrow> bytes option \<Rightarrow> bytes option \<Rightarrow> bytes option \<Rightarrow>
     bytes option \<Rightarrow> bytes option \<Rightarrow> sha256_ctx \<Rightarrow> bytes \<Rightarrow> u32 \<Rightarrow> bool option" where
  "v9x_relay_verify batch rp public_key machine install nonce session hash message out_length =
     (case (rp, public_key) of
        (Some r, Some key) \<Rightarrow> do {
          (ok, out, used) \<leftarrow> v9x_relay_message machine install nonce session (rseq r)
            (Some (drop (rdata r) batch)) (rlength r) hash (Some message) (Some out_length);
          if \<not> ok then Some False
          else do {
            signature \<leftarrow> rds batch (rsignature r) 64;
            Some (v9x_ed25519_verify signature key (take (unat (case_option 0 id used)) (case_option [] id out))) } }
      | _ \<Rightarrow> Some False)"

end
