(* ===== verification/Remote.thy ===== *)
theory Remote
  imports RemoteText Relay
begin

section \<open>Remote: registration, check-in and relay sessions\<close>

text \<open>
  The rest of \<^verbatim>\<open>src/guest/remote.c\<close>. Everything outside the worker - the HTTP replies, the loopback
  socket, the tick counter, the pause flag and the owner's typing - is an input of each step; the
  requests the worker sends are a log in the state. Profile files and log lines are not modelled.
\<close>

subsection \<open>Constants and state\<close>

definition V9X_REMOTE_UP_MAX :: nat where "V9X_REMOTE_UP_MAX = 262144"
definition V9X_REMOTE_IDLE_POLL :: u32 where "V9X_REMOTE_IDLE_POLL = 60"
definition V9X_REMOTE_HEARTBEAT_MS :: u32 where "V9X_REMOTE_HEARTBEAT_MS = 15000"
definition V9X_REMOTE_BODY_MAX :: nat where "V9X_REMOTE_BODY_MAX = 4096"
definition V9X_REMOTE_URL_MAX :: nat where "V9X_REMOTE_URL_MAX = 512"
definition V9X_AGENT_VERSION :: bytes where "V9X_AGENT_VERSION = asc ''0.13.1''"

lemmas remote_consts =
  V9X_REMOTE_UP_MAX_def V9X_REMOTE_IDLE_POLL_def V9X_REMOTE_HEARTBEAT_MS_def V9X_REMOTE_BODY_MAX_def
  V9X_REMOTE_URL_MAX_def

datatype remote_status =
  V9X_REMOTE_OFF | V9X_REMOTE_CONNECTING | V9X_REMOTE_ONLINE | V9X_REMOTE_UNREACHABLE | V9X_REMOTE_STOPPED

text \<open>\<^verbatim>\<open>V9xRemote\<close> with the part of \<^verbatim>\<open>V9xAgentState\<close> the worker uses; \<open>m_chat\<close> is shared with the tray.\<close>

record remote =
  m_server :: bytes
  m_machine :: bytes
  m_secret :: bytes
  m_display_name :: bytes
  m_github :: bytes
  m_email :: bytes
  m_install_id :: bytes
  m_next_poll :: u32
  m_session_id :: bytes
  m_session_state :: bytes
  m_stop :: bool
  m_chat :: chat
  m_chat_incoming :: bool
  m_status :: remote_status
  m_requests :: "(bytes \<times> bytes \<times> bytes) list"

text \<open>What an HTTP call brings: status, head and body.\<close>

record http_reply =
  reply_status :: u32
  reply_head :: bytes
  reply_body :: bytes

subsection \<open>HTTP calls\<close>

definition v9x_remote_url :: "remote \<Rightarrow> bytes \<Rightarrow> bytes option \<Rightarrow> bytes \<times> bool" where
  "v9x_remote_url m op extra =
     rt_append_all [] V9X_REMOTE_URL_MAX
       ([m_server m, asc ''/index.php?bt_type=v9xa_'', op] @
        (if m_machine m = [] then [] else [asc ''&machine='', m_machine m]) @
        case_option [] (\<lambda>x. [x]) extra)"

text \<open>A call is only made when the URL fits; \<open>reply\<close> is what the network answers.\<close>

definition v9x_remote_call ::
    "remote \<Rightarrow> bytes \<Rightarrow> bytes \<Rightarrow> bytes option \<Rightarrow> bytes \<Rightarrow> http_reply option \<Rightarrow> remote \<times> http_reply option" where
  "v9x_remote_call m method op extra body reply =
     (case v9x_remote_url m op extra of
        (url, ok) \<Rightarrow>
          if ok then (m\<lparr>m_requests := m_requests m @ [(method, url, body)]\<rparr>, reply) else (m, None))"

text \<open>A value of an INI reply, read as a C string; empty when it is missing.\<close>

definition v9x_remote_value :: "http_reply \<Rightarrow> bytes \<Rightarrow> bytes \<Rightarrow> nat \<Rightarrow> bool \<times> bytes" where
  "v9x_remote_value reply section_name key capacity =
     (case v9x_update_ini_value (reply_body reply) section_name key [] capacity of
        (ok, found) \<Rightarrow> (ok, takeWhile (\<lambda>c. c \<noteq> 0) found))"

fun leading_number :: "bytes \<Rightarrow> u32 \<Rightarrow> u32" where
  "leading_number [] acc = acc"
| "leading_number (c # s) acc =
     (if c \<ge> 0x30 \<and> c \<le> 0x39 then leading_number s (acc * 10 + ucast (c - 0x30)) else acc)"

subsection \<open>Registration\<close>

definition append_fields :: "bytes \<Rightarrow> (bytes \<times> bytes) list \<Rightarrow> bytes" where
  "append_fields body kvs =
     foldl (\<lambda>b (k, v). fst (v9x_rt_append_field b V9X_REMOTE_BODY_MAX k v)) body kvs"

definition register_body :: "remote \<Rightarrow> bytes \<Rightarrow> bytes \<Rightarrow> bytes" where
  "register_body m os computer =
     append_fields (rt_append_each [] V9X_REMOTE_BODY_MAX [asc ''[register]'' @ [0x0D, 0x0A]])
       [(asc ''install_id'', m_install_id m), (asc ''display_name'', m_display_name m),
        (asc ''github'', m_github m), (asc ''email'', m_email m), (asc ''version'', V9X_AGENT_VERSION),
        (asc ''os'', os), (asc ''computer'', computer)]"

definition v9x_remote_register :: "remote \<Rightarrow> bytes \<Rightarrow> bytes \<Rightarrow> http_reply option \<Rightarrow> remote \<times> bool" where
  "v9x_remote_register m os computer reply =
     (let body = register_body m os computer;
          m = m\<lparr>m_machine := [], m_secret := []\<rparr>
      in case v9x_remote_call m (asc ''POST'') (asc ''register'') None body reply of
        (m, None) \<Rightarrow> (m, False)
      | (m, Some r) \<Rightarrow>
          let (found, status) = v9x_remote_value r (asc ''register'') (asc ''status'') 64;
              (mfound, machine) = v9x_remote_value r (asc ''register'') (asc ''machine'') 16;
              (sfound, secret) = v9x_remote_value r (asc ''register'') (asc ''secret'') 40
          in
          if \<not> found \<or> status \<noteq> asc ''ok'' \<or> \<not> mfound \<or> \<not> sfound \<or>
             \<not> v9x_relay_machine_valid (Some machine) \<or> length secret \<noteq> 32
          then (m, False)
          else (m\<lparr>m_machine := v9x_rt_copy 16 machine, m_secret := v9x_rt_copy 40 secret\<rparr>, True))"

definition v9x_remote_forget :: "remote \<Rightarrow> remote" where
  "v9x_remote_forget m = m\<lparr>m_machine := [], m_secret := []\<rparr>"

subsection \<open>Check-in\<close>

definition v9x_last_command_age :: "bool \<Rightarrow> u32 \<Rightarrow> u32 \<Rightarrow> u32" where
  "v9x_last_command_age known now tick = (if \<not> known then - 1 else (now - tick) div 1000)"

text \<open>The inputs of one check-in: pause flag, last command, the reply, the lines the owner types while
  the call runs, and the clock.\<close>

record poll_input =
  poll_paused :: bool
  poll_age :: u32
  poll_source :: bytes
  poll_reply :: "http_reply option"
  poll_typed :: "bytes list"
  poll_clock :: bytes

definition poll_body :: "remote \<Rightarrow> poll_input \<Rightarrow> bytes \<Rightarrow> bytes" where
  "poll_body m i open_session =
     (let body = rt_append_each [] V9X_REMOTE_BODY_MAX
            [asc ''[poll]'' @ [0x0D, 0x0A] @ asc ''version='' @ V9X_AGENT_VERSION @ [0x0D, 0x0A] @ asc ''state='',
             (if poll_paused i then asc ''paused'' else asc ''on''), [0x0D, 0x0A] @ asc ''busy='',
             (if 0 \<le>s poll_age i \<and> poll_age i <s 60 then asc ''1'' else asc ''0''),
             [0x0D, 0x0A] @ asc ''last_command_age='', rt_number (poll_age i), [0x0D, 0x0A]];
          body = append_fields body
            [(asc ''last_command_source'', poll_source i), (asc ''session'', open_session),
             (asc ''display_name'', m_display_name m), (asc ''github'', m_github m), (asc ''email'', m_email m)];
          sent = chat_outgoing (m_chat m)
      in if sent = [] then body
         else append_fields
           (rt_append_each body V9X_REMOTE_BODY_MAX
             [asc ''[chat]'' @ [0x0D, 0x0A] @ asc ''count='', rt_number (of_nat (length sent)), [0x0D, 0x0A]])
           (map (\<lambda>k. ([0x31 + of_nat k], sent ! k)) [0..<length sent]))"

text \<open>The lines typed during the call, in order.\<close>

fun chat_typed :: "chat \<Rightarrow> bytes \<Rightarrow> bytes list \<Rightarrow> chat option" where
  "chat_typed c clock [] = Some c"
| "chat_typed c clock (s # ss) = do { c \<leftarrow> v9x_chat_send c clock s; chat_typed c clock ss }"

definition poll_next :: "http_reply \<Rightarrow> u32" where
  "poll_next r =
     (case v9x_remote_value r (asc ''poll'') (asc ''next_poll'') 16 of
        (ok, s) \<Rightarrow>
          if ok \<and> leading_number s 0 \<ge> 1 \<and> leading_number s 0 \<le> 3600 then leading_number s 0
          else V9X_REMOTE_IDLE_POLL)"

definition poll_session :: "http_reply \<Rightarrow> bytes \<times> bytes" where
  "poll_session r =
     (case v9x_remote_value r (asc ''session'') (asc ''id'') 40 of
        (ok, s) \<Rightarrow>
          if ok \<and> v9x_relay_hex_id_valid (Some s)
          then (s, snd (v9x_remote_value r (asc ''session'') (asc ''state'') 16))
          else ([], []))"

text \<open>The chat lines of the reply, at most 20.\<close>

definition poll_count :: "http_reply \<Rightarrow> nat" where
  "poll_count r =
     (case v9x_remote_value r (asc ''chat'') (asc ''count'') 8 of
        (ok, s) \<Rightarrow> if ok then unat (leading_number s 0) else 0)"

fun poll_lines :: "chat \<Rightarrow> bool \<Rightarrow> bytes \<Rightarrow> http_reply \<Rightarrow> nat list \<Rightarrow> (chat \<times> bool) option" where
  "poll_lines c incoming clock r [] = Some (c, incoming)"
| "poll_lines c incoming clock r (index # rest) =
     (case v9x_remote_value r (asc ''chat'') (fst (v9x_rt_append_number [] 8 (of_nat index)))
             (V9X_CHAT_LINE * 3 + 4) of
        (ok, s) \<Rightarrow>
          if ok then do {
            c \<leftarrow> v9x_chat_append c clock (asc ''Developer'') (v9x_rt_decode s);
            poll_lines c True clock r rest }
          else poll_lines c incoming clock r rest)"

text \<open>What an \<^verbatim>\<open>ok\<close> reply does: \<open>sent\<close> is the number of lines that went up with the request.\<close>

definition poll_accept :: "remote \<Rightarrow> poll_input \<Rightarrow> nat \<Rightarrow> http_reply \<Rightarrow> remote option" where
  "poll_accept m i sent r =
     (let c = (m_chat m)\<lparr>chat_outgoing := drop sent (chat_outgoing (m_chat m))\<rparr>; session = poll_session r in do {
        (c, incoming) \<leftarrow> poll_lines c (m_chat_incoming m) (poll_clock i) r [1..<min (poll_count r) 20 + 1];
        Some (m\<lparr>m_next_poll := poll_next r, m_session_id := fst session,
                m_session_state := snd session, m_chat := c, m_chat_incoming := incoming,
                m_status := V9X_REMOTE_ONLINE\<rparr>) })"

definition poll_answer :: "remote \<Rightarrow> poll_input \<Rightarrow> nat \<Rightarrow> http_reply \<Rightarrow> (remote \<times> bool) option" where
  "poll_answer m i sent r =
     (case v9x_remote_value r (asc ''poll'') (asc ''status'') 32 of
        (found, status) \<Rightarrow>
          if \<not> found then Some (m, False)
          else if status = asc ''unknown_machine'' \<or> status = asc ''bad_secret''
          then Some (v9x_remote_forget m, False)
          else if status = asc ''retired'' then Some (m\<lparr>m_stop := True\<rparr>, False)
          else if status \<noteq> asc ''ok'' then Some (m\<lparr>m_next_poll := 600\<rparr>, False)
          else do { m \<leftarrow> poll_accept m i sent r; Some (m, True) })"

text \<open>\<open>None\<close> would be a check-in that does not return.\<close>

definition v9x_remote_poll :: "remote \<Rightarrow> poll_input \<Rightarrow> bytes option \<Rightarrow> (remote \<times> bool) option" where
  "v9x_remote_poll m i open_session =
     (let body = poll_body m i (case_option [] id open_session); sent = length (chat_outgoing (m_chat m)) in
      case v9x_remote_call m (asc ''POST'') (asc ''poll'') None body (poll_reply i) of
        (m, reply) \<Rightarrow> do {
          c \<leftarrow> chat_typed (m_chat m) (poll_clock i) (poll_typed i);
          let m = m\<lparr>m_chat := c\<rparr>;
          (case reply of
             None \<Rightarrow> Some (m, False)
           | Some r \<Rightarrow> poll_answer m i sent r) })"

subsection \<open>Feeding a down batch\<close>

text \<open>The fixed data of a session, with the uninitialised locals of the signature check, and its
  variables; \<open>delivered\<close> is every byte the loopback socket has taken so far.\<close>

record session_env =
  e_key :: bytes
  e_nonce :: bytes
  e_session :: bytes
  e_hash :: sha256_ctx
  e_message :: bytes
  e_length :: u32

record session =
  s_remote :: remote
  s_expected :: u32
  s_up_seq :: u32
  s_heartbeat :: u32
  s_moved :: bool
  s_fed :: bool
  s_delivered :: bytes
  s_uploaded :: "(u32 \<times> bytes) list"

datatype feed_end = FeedDone | FeedBadChunk | FeedLoopback

lemma v9x_relay_next_advances:
  assumes "v9x_relay_next b n (Some at) rp = Some (V9X_RELAY_RECORD_OK, Some at', rp')"
  shows "unat n - unat at' < unat n - unat at"
proof -
  obtain len where le: "at \<le> n" "76 \<le> n - at" "len \<noteq> 0" "len \<le> n - at - 76" "at' = at + 76 + len"
    using assms by (auto simp: v9x_relay_next_def relay_consts bind_eq_Some_conv not_less
        split: option.splits if_splits)
  have "unat len \<le> unat n - unat at - 76" "76 \<le> unat n - unat at"
    using le by (simp_all add: word_le_nat_alt u32_sub)
  moreover have "unat (at + 76 + len) = unat at + 76 + unat len"
  proof -
    have "unat at + 76 + unat len < 4294967296"
      using calculation u32_less [of n] by linarith
    then show ?thesis by (simp add: unat_word_ariths)
  qed
  ultimately show ?thesis using le(5) by simp
qed

text \<open>The inner loop. \<open>taken\<close> says for each sequence number how many bytes of the chunk the loopback takes
  (all of them: success).\<close>

function feed_batch ::
    "session_env \<Rightarrow> (u32 \<Rightarrow> nat) \<Rightarrow> bytes \<Rightarrow> u32 \<Rightarrow> relay_record \<Rightarrow> u32 \<Rightarrow> session \<Rightarrow> (session \<times> feed_end) option" where
  "feed_batch e taken body n r offset s =
     (case v9x_relay_next (Some body) n (Some offset) (Some r) of
        Some (V9X_RELAY_RECORD_END, _, _) \<Rightarrow> Some (s, FeedDone)
      | Some (V9X_RELAY_RECORD_OK, Some offset', Some r') \<Rightarrow>
          if rseq r' \<noteq> s_expected s then Some (s, FeedBadChunk)
          else do {
            ok \<leftarrow> v9x_relay_verify body (Some r') (Some (e_key e)) (Some (m_machine (s_remote s)))
              (Some (m_install_id (s_remote s))) (Some (e_nonce e)) (Some (e_session e))
              (e_hash e) (e_message e) (e_length e);
            if \<not> ok then Some (s, FeedBadChunk)
            else do {
              chunk \<leftarrow> rds body (rdata r') (unat (rlength r'));
              let s = s\<lparr>s_delivered := s_delivered s @ take (taken (rseq r')) chunk\<rparr>;
              if taken (rseq r') < length chunk then Some (s, FeedLoopback)
              else feed_batch e taken body n r' offset'
                (s\<lparr>s_expected := s_expected s + 1, s_moved := True, s_fed := True\<rparr>) } }
      | Some (V9X_RELAY_RECORD_BAD, _, _) \<Rightarrow> Some (s, FeedBadChunk)
      | _ \<Rightarrow> None)"
  by pat_completeness auto

termination feed_batch
  by (relation "measure (\<lambda>(e, taken, body, n, r, offset, s). unat n - unat offset)")
     (auto dest: v9x_relay_next_advances)

declare feed_batch.simps [simp del]

subsection \<open>One round of a session\<close>

text \<open>What the world does in one round.\<close>

record round_input =
  in_paused :: bool
  in_down :: "http_reply option"
  in_taken :: "u32 \<Rightarrow> nat"
  in_drained :: "bytes option"
  in_ups :: "http_reply option list"
  in_ticks :: "u32 \<times> u32"
  in_poll :: poll_input

datatype session_end = Closed bool bytes

definition session_query :: "bytes \<Rightarrow> bytes list \<Rightarrow> bytes" where
  "session_query session rest = rt_append_each [] 160 ([asc ''&session='', session] @ rest)"

text \<open>At most four tries; the replies that have not come are \<open>None\<close>.\<close>

fun up_tries :: "remote \<Rightarrow> bytes \<Rightarrow> bytes \<Rightarrow> nat \<Rightarrow> http_reply option list \<Rightarrow> remote \<times> http_reply option" where
  "up_tries m query chunk 0 replies = (m, None)"
| "up_tries m query chunk (Suc n) replies =
     (case v9x_remote_call m (asc ''POST'') (asc ''up'') (Some query) chunk
             (case replies of [] \<Rightarrow> None | r # _ \<Rightarrow> r) of
        (m, reply) \<Rightarrow>
          (case reply of
             Some r \<Rightarrow> if reply_status r = 200 then (m, Some r)
                       else up_tries m query chunk n (drop 1 replies)
           | None \<Rightarrow> up_tries m query chunk n (drop 1 replies)))"

text \<open>The down part of a round: nothing happens without a reply of status 200.\<close>

definition round_down :: "session_env \<Rightarrow> round_input \<Rightarrow> session \<Rightarrow> (session \<times> session_end option) option" where
  "round_down e i s =
     (let quiet = \<not> s_moved s;
          s = s\<lparr>s_moved := False, s_fed := False\<rparr>
      in
      if in_paused i then Some (s, Some (Closed False (asc ''paused'')))
      else
        let query = session_query (e_session e)
              [asc ''&after='', rt_number (s_expected s - 1), if quiet then asc ''&wait=3'' else asc ''&wait=0'']
        in
        case v9x_remote_call (s_remote s) (asc ''GET'') (asc ''down'') (Some query) [] (in_down i) of
          (m, reply) \<Rightarrow>
            let s = s\<lparr>s_remote := m\<rparr> in
            (case reply of
               None \<Rightarrow> Some (s, None)
             | Some r \<Rightarrow>
                 if reply_status r \<noteq> 200 then Some (s, None)
                 else if v9x_rt_ci_find (reply_head r) (asc ''x-v9x-session-state: closed'')
                 then Some (s, Some (Closed True (asc ''ended'')))
                 else do {
                   (s, end_of) \<leftarrow> feed_batch e (in_taken i) (reply_body r) (of_nat (length (reply_body r)))
                     \<lparr>rseq = 0, rlength = 0, rsignature = 0, rdata = 0\<rparr> 0 s;
                   Some (s, case end_of of
                       FeedDone \<Rightarrow> None
                     | FeedBadChunk \<Rightarrow> Some (Closed False (asc ''bad-signature''))
                     | FeedLoopback \<Rightarrow> Some (Closed False (asc ''loopback''))) }))"

definition round_up :: "session_env \<Rightarrow> round_input \<Rightarrow> session \<Rightarrow> session \<times> session_end option" where
  "round_up e i s =
     (case in_drained i of
        None \<Rightarrow> (s, Some (Closed False (asc ''loopback-closed'')))
      | Some [] \<Rightarrow> (s, None)
      | Some (c # cs) \<Rightarrow>
          let query = session_query (e_session e) [asc ''&seq='', rt_number (s_up_seq s)];
              (m, reply) = up_tries (s_remote s) query (c # cs) 4 (in_ups i);
              s = s\<lparr>s_remote := m\<rparr>
          in
          (case reply of
             None \<Rightarrow> (s, Some (Closed False (asc ''up-failed'')))
           | Some r \<Rightarrow>
               if v9x_rt_ci_find (reply_body r) (asc ''status=closed'')
               then (s, Some (Closed True (asc ''ended'')))
               else (s\<lparr>s_uploaded := s_uploaded s @ [(s_up_seq s, c # cs)],
                       s_up_seq := s_up_seq s + 1, s_moved := True\<rparr>, None)))"

definition round_heartbeat :: "session_env \<Rightarrow> round_input \<Rightarrow> session \<Rightarrow> (session \<times> session_end option) option" where
  "round_heartbeat e i s =
     (if fst (in_ticks i) - s_heartbeat s \<ge> V9X_REMOTE_HEARTBEAT_MS then do {
        (m, ok) \<leftarrow> v9x_remote_poll (s_remote s) (in_poll i) (Some (e_session e));
        let s = s\<lparr>s_heartbeat := snd (in_ticks i), s_remote := m\<rparr>;
        Some (s,
          if ok \<and> (m_session_id m \<noteq> e_session e \<or> m_session_state m \<noteq> asc ''open'')
          then Some (Closed True (asc ''ended''))
          else if m_stop m then Some (Closed False (asc ''ended'')) else None) }
      else Some (s, None))"

definition session_round :: "session_env \<Rightarrow> round_input \<Rightarrow> session \<Rightarrow> (session \<times> session_end option) option" where
  "session_round e i s = do {
     (s, ended) \<leftarrow> round_down e i s;
     (case ended of
        Some x \<Rightarrow> Some (s, Some x)
      | None \<Rightarrow>
          (case round_up e i s of
             (s, Some x) \<Rightarrow> Some (s, Some x)
           | (s, None) \<Rightarrow> round_heartbeat e i s)) }"

text \<open>The rounds of a session for a finite list of inputs; \<open>None\<close> in the second place: still open.\<close>

fun session_rounds :: "session_env \<Rightarrow> round_input list \<Rightarrow> session \<Rightarrow> (session \<times> session_end option) option" where
  "session_rounds e [] s = Some (s, None)"
| "session_rounds e (i # is) s = do {
     (s, ended) \<leftarrow> session_round e i s;
     (case ended of None \<Rightarrow> session_rounds e is s | Some x \<Rightarrow> Some (s, Some x)) }"

subsection \<open>A whole session\<close>

definition v9x_remote_nonce :: "bytes \<Rightarrow> bytes" where
  "v9x_remote_nonce uuid = take V9X_RELAY_HEX_ID_LENGTH (filter (\<lambda>c. c \<noteq> 0x2D) uuid)"

text \<open>A call whose reply is not looked at.\<close>

definition v9x_remote_session_call :: "remote \<Rightarrow> bytes \<Rightarrow> bytes \<Rightarrow> bytes option \<Rightarrow> remote" where
  "v9x_remote_session_call m op session extra =
     fst (v9x_remote_call m (asc ''POST'') op
       (Some (rt_append_each [] 96 ([asc ''&session='', session] @ case_option [] (\<lambda>x. [x]) extra))) [] None)"

record session_open =
  o_paused :: bool
  o_uuid :: bytes
  o_loopback :: bool
  o_accept :: "http_reply option"
  o_tick :: u32
  o_key :: bytes
  o_hash :: sha256_ctx
  o_message :: bytes
  o_length :: u32
  o_rounds :: "round_input list"

definition session_start :: "session_open \<Rightarrow> bytes \<Rightarrow> bytes \<Rightarrow> remote \<Rightarrow> session_env \<times> session" where
  "session_start opening nonce name m =
     (\<lparr>e_key = o_key opening, e_nonce = nonce, e_session = name, e_hash = o_hash opening, e_message = o_message opening,
       e_length = o_length opening\<rparr>,
      \<lparr>s_remote = m, s_expected = 1, s_up_seq = 1, s_heartbeat = o_tick opening, s_moved = True, s_fed = False,
       s_delivered = [], s_uploaded = []\<rparr>)"

text \<open>The worker, the session if one was opened, and how it ended (\<open>None\<close>: still open after the inputs).\<close>

definition v9x_remote_session ::
    "remote \<Rightarrow> bytes \<Rightarrow> session_open \<Rightarrow> (remote \<times> session option \<times> session_end option) option" where
  "v9x_remote_session m session_id opening =
     (let name = v9x_rt_copy 40 session_id in
      if o_paused opening
      then Some (v9x_remote_session_call m (asc ''accept'') name (Some (asc ''&refuse=paused'')), None, None)
      else
        let nonce = v9x_remote_nonce (o_uuid opening) in
        if \<not> o_loopback opening
        then Some (v9x_remote_session_call m (asc ''accept'') name (Some (asc ''&refuse=loopback'')), None, None)
        else
          (case v9x_remote_call m (asc ''POST'') (asc ''accept'')
                  (Some (session_query name [asc ''&nonce='', nonce])) [] (o_accept opening) of
             (m, None) \<Rightarrow> Some (m, None, None)
           | (m, Some r) \<Rightarrow>
               if v9x_remote_value r (asc ''session'') (asc ''status'') 32 \<noteq> (True, asc ''ok'')
               then Some (m, None, None)
               else
                 (case session_start opening nonce name m of
                    (e, s) \<Rightarrow> do {
                      (s, ended) \<leftarrow> session_rounds e (o_rounds opening) s;
                      Some
                        (case ended of
                           Some (Closed False reason) \<Rightarrow>
                             v9x_remote_session_call (s_remote s) (asc ''close'') name
                               (Some (rt_append_each [] 160 [asc ''&reason='', reason]))
                         | _ \<Rightarrow> s_remote s,
                         Some s, ended) })))"

subsection \<open>The worker\<close>

record pass_input =
  p_os :: bytes
  p_computer :: bytes
  p_register :: "http_reply option"
  p_poll :: poll_input
  p_open :: session_open

text \<open>How one pass of the loop ends: go round again, wait so many milliseconds, a session that is still
  open, or the end of the worker.\<close>

datatype pass_end = PassAgain | PassWait u32 | PassSession | PassStopped

definition next_backoff :: "u32 \<Rightarrow> u32" where
  "next_backoff backoff = (if backoff < 900 then backoff * 2 else backoff)"

definition pass_checked_in :: "remote \<Rightarrow> u32 \<Rightarrow> pass_input \<Rightarrow> (remote \<times> u32 \<times> pass_end) option" where
  "pass_checked_in m backoff i = do {
     (m, ok) \<leftarrow> v9x_remote_poll m (p_poll i) None;
     if \<not> ok then
       (if m_stop m then Some (m\<lparr>m_status := V9X_REMOTE_STOPPED\<rparr>, backoff, PassStopped)
        else if m_machine m = [] then Some (m, backoff, PassAgain)
        else Some (m\<lparr>m_status := V9X_REMOTE_UNREACHABLE\<rparr>, next_backoff backoff, PassWait (backoff * 1000)))
     else if m_session_id m \<noteq> [] \<and> m_session_state m = asc ''pending'' then do {
       (m, s, ended) \<leftarrow> v9x_remote_session m (m_session_id m) (p_open i);
       Some (m, 30, if s \<noteq> None \<and> ended = None then PassSession else PassAgain) }
     else Some (m, 30, PassWait (m_next_poll m * 1000)) }"

definition v9x_remote_thread :: "remote \<Rightarrow> u32 \<Rightarrow> pass_input \<Rightarrow> (remote \<times> u32 \<times> pass_end) option" where
  "v9x_remote_thread m backoff i =
     (if m_stop m then Some (m\<lparr>m_status := V9X_REMOTE_STOPPED\<rparr>, backoff, PassStopped)
      else if m_machine m = [] \<or> m_secret m = [] then
        (case v9x_remote_register (m\<lparr>m_status := V9X_REMOTE_CONNECTING\<rparr>) (p_os i) (p_computer i) (p_register i) of
           (m, ok) \<Rightarrow>
             if \<not> ok
             then Some (m\<lparr>m_status := V9X_REMOTE_UNREACHABLE\<rparr>, next_backoff backoff, PassWait (backoff * 1000))
             else pass_checked_in m 30 i)
      else pass_checked_in m backoff i)"

end
