(* ===== verification/RelayProps.thy ===== *)
theory RelayProps
  imports Relay UpdateProps
begin

section \<open>RelayProps: what a relay signature covers, and the framing of a batch\<close>

text \<open>
  The canonical text is a function of the identifiers, the sequence number and the digest of the
  chunk; the code writes exactly it, inside its buffer, and no two different chunks share it. A batch
  is a concatenation of records, and the record reader is the inverse of that concatenation.
\<close>

subsection \<open>Identifiers\<close>

lemma shaped_iff:
  "shaped text index n test \<longleftrightarrow> length text = n \<and> (\<forall>j < n. test (index + j) (text ! j))"
proof (induction "text" index n test rule: shaped.induct)
  case (3 c "text" index n test)
  then show ?case by (auto simp: less_Suc_eq_0_disj)
qed auto

lemma shaped_length: "shaped text index n test \<Longrightarrow> length text = n"
  by (simp add: shaped_iff)

lemma shaped_nonzero:
  assumes "shaped text index n test" "\<And>j c. test j c \<Longrightarrow> c \<noteq> 0"
  shows "0 \<notin> set text"
  using assms by (auto simp: shaped_iff in_set_conv_nth)

lemma machine_char_nonzero: "machine_char j c \<Longrightarrow> c \<noteq> 0"
  by (auto simp: machine_char_def v9x_relay_crockford_def split: if_splits)

lemma install_char_nonzero: "install_char j c \<Longrightarrow> c \<noteq> 0"
  by (auto simp: install_char_def split: if_splits)

lemma hex_id_char_nonzero: "hex_id_char j c \<Longrightarrow> c \<noteq> 0"
  by (auto simp: hex_id_char_def)

definition ids_valid :: "bytes \<Rightarrow> bytes \<Rightarrow> bytes \<Rightarrow> bytes \<Rightarrow> bool" where
  "ids_valid machine install nonce session \<longleftrightarrow>
     v9x_relay_machine_valid (Some machine) \<and> v9x_relay_install_valid (Some install) \<and>
     v9x_relay_hex_id_valid (Some nonce) \<and> v9x_relay_hex_id_valid (Some session)"

lemma ids_validD:
  assumes "ids_valid machine install nonce session"
  shows "length machine = 8" "length install = 36" "length nonce = 32" "length session = 32"
    "0 \<notin> set machine \<union> set install \<union> set nonce \<union> set session"
proof -
  have "shaped machine 0 8 machine_char" "shaped install 0 36 install_char"
    "shaped nonce 0 32 hex_id_char" "shaped session 0 32 hex_id_char"
    using assms by (simp_all add: ids_valid_def v9x_relay_machine_valid_def v9x_relay_install_valid_def
        v9x_relay_hex_id_valid_def relay_consts)
  then show "length machine = 8" "length install = 36" "length nonce = 32" "length session = 32"
    "0 \<notin> set machine \<union> set install \<union> set nonce \<union> set session"
    using shaped_length shaped_nonzero [where test = machine_char] shaped_nonzero [where test = install_char]
      shaped_nonzero [where test = hex_id_char] machine_char_nonzero install_char_nonzero hex_id_char_nonzero
    by (blast | auto)+
qed

lemma v9x_relay_length_eq [simp]: "v9x_relay_length text = length text"
  by (induction "text") simp_all

subsection \<open>Decimal numbers\<close>

fun dec_digits :: "nat \<Rightarrow> bytes" where
  "dec_digits n = (if n < 10 then [0x30 + of_nat n] else dec_digits (n div 10) @ [0x30 + of_nat (n mod 10)])"

declare dec_digits.simps [simp del]

lemma dec_digit:
  assumes "d < 10"
  shows "v9x_update_is_digit (0x30 + of_nat d)" "unat ((0x30 + of_nat d :: u8) - 0x30) = d"
proof -
  have "list_all (\<lambda>d. v9x_update_is_digit (0x30 + of_nat d) \<and> unat ((0x30 + of_nat d :: u8) - 0x30) = d) [0..<10]"
    by code_simp
  then show "v9x_update_is_digit (0x30 + of_nat d)" "unat ((0x30 + of_nat d :: u8) - 0x30) = d"
    using assms by (simp_all add: list_all_iff)
qed

lemma dec_digits_digits: "list_all v9x_update_is_digit (dec_digits n)"
proof (induction n rule: dec_digits.induct)
  case (1 n)
  then show ?case by (subst dec_digits.simps) (auto simp: dec_digit)
qed

lemma dec_value_snoc: "dec_value (ds @ [c]) = dec_value ds * 10 + unat (c - 0x30)"
  by (simp add: dec_value_def)

lemma dec_value_digits: "dec_value (dec_digits n) = n"
proof (induction n rule: dec_digits.induct)
  case (1 n)
  show ?case
  proof (cases "n < 10")
    case True
    then show ?thesis
      using dec_digit(2) [of n] by (subst dec_digits.simps) (simp add: dec_value_def)
  next
    case False
    then have "dec_digits n = dec_digits (n div 10) @ [0x30 + of_nat (n mod 10)]"
      by (subst dec_digits.simps) simp
    then show ?thesis using 1 False dec_digit(2) [of "n mod 10"] by (simp only: dec_value_snoc) simp
  qed
qed

lemma dec_digits_length: "n < 10 ^ k \<Longrightarrow> 0 < k \<Longrightarrow> length (dec_digits n) \<le> k"
proof (induction k arbitrary: n)
  case (Suc k)
  show ?case
  proof (cases "n < 10")
    case True
    then show ?thesis by (subst dec_digits.simps) simp
  next
    case False
    then have "0 < k" using Suc.prems by (cases k) auto
    moreover have "n div 10 < 10 ^ k" using Suc.prems by (simp add: less_mult_imp_div_less mult.commute)
    ultimately have "length (dec_digits (n div 10)) \<le> k" using Suc.IH by blast
    then show ?thesis using False by (subst dec_digits.simps) simp
  qed
qed simp

lemma dec_digits_nonempty: "dec_digits n \<noteq> []"
  by (subst dec_digits.simps) simp

lemma relay_number_eq:
  assumes "length number = 11" "d + length (dec_digits (unat v)) \<le> 10" "length (dec_digits (unat v)) \<le> n"
  shows "\<exists>number'. relay_number number v d n = Some (number', d + length (dec_digits (unat v))) \<and>
    length number' = 11 \<and>
    drop (10 - (d + length (dec_digits (unat v)))) number' = dec_digits (unat v) @ drop (10 - d) number"
  using assms
proof (induction n arbitrary: number v d)
  case 0
  then show ?case using dec_digits_nonempty [of "unat v"] by simp
next
  case (Suc n)
  have d: "d < 10" using Suc.prems(2) dec_digits_nonempty [of "unat v"] by (cases "dec_digits (unat v)") auto
  let ?c = "0x30 + ucast (v mod 10) :: u8"
  have u: "unat (v mod 10) = unat v mod 10" "unat (v div 10) = unat v div 10"
    by (simp_all add: unat_mod unat_div)
  have c: "?c = 0x30 + of_nat (unat v mod 10)"
  proof -
    have "(ucast (v mod 10) :: u8) = of_nat (unat (v mod 10))" by simp
    then show ?thesis by (simp only: u)
  qed
  define number1 where "number1 = number[10 - d - 1 := ?c]"
  have w: "wr number (10 - d - 1) ?c = Some number1"
    using Suc.prems(1) d by (simp add: wr_def number1_def)
  have len1: "length number1 = 11" using Suc.prems(1) by (simp add: number1_def)
  have at: "drop (10 - (d + 1)) number1 = ?c # drop (10 - d) number"
  proof -
    have i: "10 - d - 1 < length number" "Suc (10 - d - 1) = 10 - d" using Suc.prems(1) d by simp_all
    have "drop (10 - d - 1) number1 = number1 ! (10 - d - 1) # drop (Suc (10 - d - 1)) number1"
      using i(1) by (intro Cons_nth_drop_Suc [symmetric]) (simp add: number1_def)
    also have "\<dots> = ?c # drop (10 - d) number"
      using i by (simp add: number1_def)
    finally show ?thesis by (simp only: diff_diff_left)
  qed
  have small: "v div 10 = 0 \<longleftrightarrow> unat v < 10"
    by (metis div_less_dividend div_eq_0_iff u(2) unat_eq_zero zero_neq_numeral)
  show ?case
  proof (cases "unat v < 10")
    case True
    then have "dec_digits (unat v) = [?c]" by (subst dec_digits.simps) (simp add: c)
    then show ?thesis using True small w len1 at by simp
  next
    case False
    then have digits: "dec_digits (unat v) = dec_digits (unat (v div 10)) @ [?c]"
      by (subst dec_digits.simps) (simp only: if_False c u)
    have "\<exists>number'. relay_number number1 (v div 10) (d + 1) n =
        Some (number', (d + 1) + length (dec_digits (unat (v div 10)))) \<and> length number' = 11 \<and>
      drop (10 - ((d + 1) + length (dec_digits (unat (v div 10))))) number' =
        dec_digits (unat (v div 10)) @ drop (10 - (d + 1)) number1"
      by (rule Suc.IH [OF len1]) (use Suc.prems(2,3) digits in simp_all)
    then obtain number' where n: "relay_number number1 (v div 10) (d + 1) n =
        Some (number', d + length (dec_digits (unat v)))" "length number' = 11"
      "drop (10 - (d + length (dec_digits (unat v)))) number' = dec_digits (unat v) @ drop (10 - d) number"
      unfolding at digits by auto
    have "v div 10 \<noteq> 0" using False small by simp
    then show ?thesis using n w by simp
  qed
qed

lemma decimal_eq: "decimal v = Some (dec_digits (unat v))"
proof -
  have "unat v < 10 ^ 10" by (rule less_trans [OF u32_less]) simp
  then have le: "length (dec_digits (unat v)) \<le> 10" by (rule dec_digits_length) simp
  have "\<exists>number'. relay_number (replicate 11 0) v 0 11 = Some (number', 0 + length (dec_digits (unat v))) \<and>
    length number' = 11 \<and>
    drop (10 - (0 + length (dec_digits (unat v)))) number' = dec_digits (unat v) @ drop (10 - 0) (replicate 11 0)"
    by (rule relay_number_eq) (use le in simp_all)
  then obtain number' where n: "relay_number (replicate 11 0) v 0 11 = Some (number', length (dec_digits (unat v)))"
    "drop (10 - length (dec_digits (unat v))) number' = dec_digits (unat v) @ drop 10 (replicate 11 0)"
    by auto
  then show ?thesis by (simp only: decimal_def n Option.bind.bind_lunit prod.case) simp
qed

subsection \<open>The canonical text\<close>

definition relay_text :: "bytes \<Rightarrow> bytes \<Rightarrow> bytes \<Rightarrow> bytes \<Rightarrow> u32 \<Rightarrow> bytes \<Rightarrow> bytes" where
  "relay_text machine install nonce session seq digest =
     asc ''V9XRELAY1'' @ [10] @ asc ''machine='' @ machine @
     [10] @ asc ''install='' @ install @ [10] @ asc ''nonce='' @ nonce @
     [10] @ asc ''session='' @ session @ [10] @ asc ''seq='' @ dec_digits (unat seq) @
     [10] @ asc ''sha256='' @ v9x_relay_hex digest @ [10]"

lemma v9x_relay_append_eq:
  "used + length text \<le> length out \<Longrightarrow>
   v9x_relay_append out used text = Some (take used out @ text @ drop (used + length text) out, used + length text)"
proof -
  have "v9x_relay_append out used text = map_option (\<lambda>out'. (out', used + length text)) (wrs out used text)"
    for out used and "text" :: bytes
    by (induction "text" arbitrary: out used) (auto simp: map_option_case split: Option.bind_splits option.splits)
  then show "used + length text \<le> length out \<Longrightarrow> ?thesis" by (simp add: wrs_Some)
qed

lemma append_all_eq:
  "used + length (concat ts) \<le> length out \<Longrightarrow>
   append_all out used ts =
     Some (take used out @ concat ts @ drop (used + length (concat ts)) out, used + length (concat ts))"
proof (induction ts arbitrary: out used)
  case (Cons t ts)
  let ?out = "take used out @ t @ drop (used + length t) out"
  have "append_all ?out (used + length t) ts =
      Some (take (used + length t) ?out @ concat ts @ drop (used + length t + length (concat ts)) ?out,
        used + length t + length (concat ts))"
    by (rule Cons.IH) (use Cons.prems in simp)
  moreover have len: "length (take used out) = used" using Cons.prems by simp
  moreover have "take (used + length t) ?out = take used out @ t"
    "drop (used + length t + length (concat ts)) ?out = drop (used + length t + length (concat ts)) out"
    using len by (simp_all add: ac_simps)
  ultimately show ?case using Cons.prems by (simp add: v9x_relay_append_eq add.assoc)
qed simp

lemma length_v9x_relay_hex [simp]: "length (v9x_relay_hex bs) = 2 * length bs"
  by (induction bs) (simp_all add: v9x_relay_hex_def)

lemma relay_digits_nonzero: "n < 16 \<Longrightarrow> relay_digits ! n \<noteq> 0"
proof -
  have "list_all (\<lambda>n. relay_digits ! n \<noteq> 0) [0..<16]" by code_simp
  then show "n < 16 \<Longrightarrow> relay_digits ! n \<noteq> 0" by (simp add: list_all_iff)
qed

lemma relay_digits_inj: "relay_digits ! m = relay_digits ! n \<Longrightarrow> m < 16 \<Longrightarrow> n < 16 \<Longrightarrow> m = n"
proof -
  have "distinct relay_digits" "length relay_digits = 16" by code_simp+
  then show "relay_digits ! m = relay_digits ! n \<Longrightarrow> m < 16 \<Longrightarrow> n < 16 \<Longrightarrow> m = n"
    by (simp add: nth_eq_iff_index_eq)
qed

lemma v9x_relay_hex_Cons:
  "v9x_relay_hex (b # bs) =
     relay_digits ! unat (drop_bit 4 b) # relay_digits ! unat (b AND 0x0F) # v9x_relay_hex bs"
  by (simp add: v9x_relay_hex_def)

lemma v9x_relay_hex_nonzero: "0 \<notin> set (v9x_relay_hex bs)"
proof (induction bs)
  case (Cons b bs)
  then show ?case
    unfolding v9x_relay_hex_Cons using relay_digits_nonzero nibble_less [of b] by (metis set_ConsD)
qed (simp add: v9x_relay_hex_def)

lemma v9x_relay_hex_inj: "v9x_relay_hex as = v9x_relay_hex bs \<Longrightarrow> as = bs"
proof (induction as arbitrary: bs)
  case Nil
  then have "length (v9x_relay_hex bs) = 0" by (metis length_0_conv length_v9x_relay_hex list.size(3) mult_0_right)
  then show ?case by simp
next
  case (Cons a as)
  then obtain b bs' where bs: "bs = b # bs'"
    by (cases bs) (simp_all add: v9x_relay_hex_def)
  have eq: "relay_digits ! unat (drop_bit 4 a) = relay_digits ! unat (drop_bit 4 b)"
    "relay_digits ! unat (a AND 0x0F) = relay_digits ! unat (b AND 0x0F)"
    "v9x_relay_hex as = v9x_relay_hex bs'"
    using Cons.prems unfolding bs v9x_relay_hex_Cons by simp_all
  then have "unat (drop_bit 4 a) = unat (drop_bit 4 b)" "unat (a AND 0x0F) = unat (b AND 0x0F)"
    using relay_digits_inj nibble_less by blast+
  then have "a = b" using nibbles_join [of a] nibbles_join [of b] by simp
  then show ?case using Cons.IH [OF eq(3)] bs by simp
qed

lemma dec_digits_chars: "c \<in> set (dec_digits n) \<Longrightarrow> c \<noteq> 0 \<and> c \<noteq> 10"
  using dec_digits_digits [of n] by (auto simp: list_all_iff v9x_update_is_digit_def)

lemma dec_digits_u32_length: "length (dec_digits (unat seq)) \<le> 10" for seq :: u32
proof (rule dec_digits_length)
  show "unat seq < 10 ^ 10" by (rule less_trans [OF u32_less]) simp
qed simp

lemma relay_text_facts:
  assumes "ids_valid machine install nonce session" "length digest = 32"
  shows "length (relay_text machine install nonce session seq digest) \<le> 239"
    "0 \<notin> set (relay_text machine install nonce session seq digest)"
  using ids_validD [OF assms(1)] assms(2) dec_digits_u32_length [of seq] dec_digits_chars [of _ "unat seq"]
    v9x_relay_hex_nonzero [of digest]
  by (auto simp: relay_text_def)

lemma length_fips256 [simp]: "length (fips256 m) = 32"
proof -
  have "length v9x_sha256_h0 = 8" by (simp add: v9x_sha256_h0_def)
  from sha256_blocks_eq [OF this] have "length (foldl fips256_compress v9x_sha256_h0 bs) = 8" for bs
    by metis
  then show ?thesis by (simp add: fips256_def length_concat comp_def sum_list_triv)
qed

lemma v9x_relay_message_eq:
  assumes ids: "ids_valid machine install nonce session"
    and bufs: "240 \<le> length out" "length (s256_buffer hash) = 64" "unat len \<le> length data"
    and t_def: "t = relay_text machine install nonce session seq (fips256 (take (unat len) data))"
  shows "v9x_relay_message (Some machine) (Some install) (Some nonce) (Some session) seq (Some data) len hash
      (Some out) (Some used) = Some (True, Some (t @ 0 # drop (length t + 1) out), Some (of_nat (length t)))"
proof -
  define chunk where "chunk = take (unat len) data"
  have chunk: "rds data 0 (unat len) = Some chunk" using bufs(3) by (simp add: rds_Some chunk_def)
  have "length chunk < 2 ^ 32" using bufs(3) by (simp add: chunk_def)
  then have digest: "fst (v9x_sha256_final (v9x_sha256_update chunk (v9x_sha256_init hash))) = fips256 chunk"
    using sha256_of_eq [of hash "[chunk]"] bufs(2) by (simp add: sha256_of_def)
  have t: "length t \<le> 239" "0 \<notin> set t"
    using relay_text_facts [OF ids length_fips256, of seq chunk] by (simp_all add: t_def chunk_def)
  let ?ts = "[asc ''V9XRELAY1'' @ [10] @ asc ''machine='', machine, [10] @ asc ''install='', install,
     [10] @ asc ''nonce='', nonce, [10] @ asc ''session='', session, [10] @ asc ''seq='', dec_digits (unat seq),
     [10] @ asc ''sha256='', v9x_relay_hex (fips256 chunk), [10]]"
  have cat: "concat ?ts = t" by (simp add: t_def relay_text_def chunk_def del: asc_Cons)
  have app: "append_all out 0 ?ts = Some (t @ drop (length t) out, length t)"
    using append_all_eq [of 0 ?ts out] t(1) bufs(1) unfolding cat by simp
  have w: "wr (t @ drop (length t) out) (length t) 0 = Some (t @ 0 # drop (length t + 1) out)"
  proof -
    obtain c cs where "drop (length t) out = c # cs" using t(1) bufs(1) by (cases "drop (length t) out") auto
    then have "cs = drop (length t + 1) out" by (metis drop_Suc tl_drop Suc_eq_plus1 list.sel(3))
    then show ?thesis using \<open>drop (length t) out = c # cs\<close> by (simp add: wr_def)
  qed
  have nul: "takeWhile (\<lambda>c. c \<noteq> 0) (t @ 0 # drop (length t + 1) out) = t"
    using t(2) by (subst takeWhile_append2) auto
  have valid: "v9x_relay_machine_valid (Some machine)" "v9x_relay_install_valid (Some install)"
    "v9x_relay_hex_id_valid (Some nonce)" "v9x_relay_hex_id_valid (Some session)"
    using ids by (simp_all add: ids_valid_def)
  show ?thesis
    unfolding v9x_relay_message_def
    using valid chunk digest app w nul t(1)
    by (simp add: decimal_eq V9X_RELAY_MESSAGE_MAX_def Let_def id_def
        del: asc_Cons append_all.simps v9x_relay_append.simps append_Cons)
qed

lemma relay_text_inj:
  assumes ids: "ids_valid m i n s" "ids_valid m' i' n' s'" and digests: "length d = 32" "length d' = 32"
    and eq: "relay_text m i n s q d = relay_text m' i' n' s' q' d'"
  shows "m = m' \<and> i = i' \<and> n = n' \<and> s = s' \<and> q = q' \<and> d = d'"
proof -
  note l = ids_validD [OF ids(1)] ids_validD [OF ids(2)]
  let ?z = "\<lambda>q d. [10] @ asc ''sha256='' @ v9x_relay_hex d @ [10]"
  have parts: "m = m' \<and> i = i' \<and> n = n' \<and> s = s' \<and>
      dec_digits (unat q) @ ?z q d = dec_digits (unat q') @ ?z q' d'"
    using eq l unfolding relay_text_def by (simp add: append_eq_append_conv)
  have stop: "takeWhile (\<lambda>c. c \<noteq> 10) (dec_digits (unat q) @ ?z q d) = dec_digits (unat q)" for q d
    using dec_digits_chars [of _ "unat q"] by (subst takeWhile_append2) auto
  have "dec_digits (unat q) = dec_digits (unat q')" using parts stop by metis
  then have "unat q = unat q'" using dec_value_digits by metis
  moreover from parts \<open>dec_digits (unat q) = dec_digits (unat q')\<close>
  have "v9x_relay_hex d = v9x_relay_hex d'" by simp
  ultimately show ?thesis using parts v9x_relay_hex_inj by (simp add: word_unat_eq_iff)
qed

subsection \<open>Records in a batch\<close>

text \<open>A record as the server writes it.\<close>

definition relay_bytes :: "u32 \<Rightarrow> bytes \<Rightarrow> bytes \<Rightarrow> bytes" where
  "relay_bytes seq signature data =
     V9X_RELAY_DOWN_MAGIC @ le32 seq @ le32 (of_nat (length data)) @ signature @ data"

definition read32_of :: "bytes \<Rightarrow> u32" where
  "read32_of s = u32_of (s ! 0) (s ! 1) (s ! 2) (s ! 3)"

lemma read32_of_le32: "read32_of (le32 v @ s) = v"
  by (simp add: read32_of_def le32_def u32_of_le32)

lemma le32_read32_of: "4 \<le> length s \<Longrightarrow> le32 (read32_of s) = take 4 s"
proof -
  assume "4 \<le> length s"
  then obtain a b c d t where "s = a # b # c # d # t"
    by (auto simp: numeral_eq_Suc Suc_le_length_iff)
  then show ?thesis by (simp add: read32_of_def le32_u32_of)
qed

lemma v9x_relay_read32_eq:
  "p + 4 \<le> length batch \<Longrightarrow> v9x_relay_read32 batch p = Some (read32_of (drop p batch))"
  by (simp add: v9x_relay_read32_def rd_Some read32_of_def u32_of_def)

text \<open>The reader on what is left of the batch.\<close>

lemma v9x_relay_next_eq:
  assumes "length batch = unat n" "at \<le> n"
  defines "rest \<equiv> drop (unat at) batch"
  defines "len \<equiv> read32_of (drop 8 rest)"
  shows "v9x_relay_next (Some batch) n (Some at) (Some r) = Some (
    if rest = [] then (V9X_RELAY_RECORD_END, Some at, Some r)
    else if length rest < 76 \<or> take 4 rest \<noteq> V9X_RELAY_DOWN_MAGIC \<or> len = 0 \<or>
        unat len > 1048576 \<or> unat len > length rest - 76 then (V9X_RELAY_RECORD_BAD, Some at, Some r)
    else (V9X_RELAY_RECORD_OK, Some (at + 76 + len),
          Some \<lparr>rseq = read32_of (drop 4 rest), rlength = len, rsignature = unat at + 12, rdata = unat at + 76\<rparr>))"
proof -
  have left: "unat (n - at) = length rest" using assms(1,2) by (simp add: rest_def u32_sub)
  have "at = n \<longleftrightarrow> rest = []" using assms(1,2) by (auto simp: rest_def word_le_nat_alt word_unat_eq_iff)
  moreover have "n - at < 76 \<longleftrightarrow> length rest < 76" by (simp add: word_less_nat_alt left)
  moreover have "unat (n - at - 76) = length rest - 76" if "\<not> length rest < 76"
    using that left by (simp add: u32_sub word_le_nat_alt)
  then have "len > n - at - 76 \<longleftrightarrow> unat len > length rest - 76" if "\<not> length rest < 76"
    using that by (simp add: word_less_nat_alt)
  moreover have "len > 1048576 \<longleftrightarrow> unat len > 1048576" by (simp add: word_less_nat_alt)
  moreover have "rds batch (unat at) 4 = Some (take 4 rest)"
    "v9x_relay_read32 batch (unat at + 8) = Some len"
    "v9x_relay_read32 batch (unat at + 4) = Some (read32_of (drop 4 rest))" if "\<not> length rest < 76"
    using that by (simp_all add: rest_def len_def rds_Some v9x_relay_read32_eq add.commute)
  ultimately show ?thesis
    using assms(2) by (auto simp: v9x_relay_next_def relay_consts not_less simp del: asc_Cons)
qed

lemma relay_bytes_facts:
  assumes "rest = relay_bytes seq sig data @ post" "length sig = 64" "length data < 2 ^ 32"
  shows "length rest = 76 + length data + length post" "take 4 rest = V9X_RELAY_DOWN_MAGIC"
    "read32_of (drop 4 rest) = seq" "read32_of (drop 8 rest) = of_nat (length data)"
    "take 64 (drop 12 rest) = sig" "take (length data) (drop 76 rest) = data"
proof -
  have magic: "length V9X_RELAY_DOWN_MAGIC = 4" by (simp add: V9X_RELAY_DOWN_MAGIC_def)
  have d: "drop 4 rest = le32 seq @ le32 (of_nat (length data)) @ sig @ data @ post"
    using magic by (simp add: assms(1) relay_bytes_def)
  then have d8: "drop 8 rest = le32 (of_nat (length data)) @ sig @ data @ post"
    using drop_drop [of 4 4 rest] by simp
  then have d12: "drop 12 rest = sig @ data @ post"
    using drop_drop [of 4 8 rest] by simp
  then have d76: "drop 76 rest = data @ post"
    using drop_drop [of 64 12 rest] assms(2) by simp
  show "length rest = 76 + length data + length post" "take 4 rest = V9X_RELAY_DOWN_MAGIC"
    using magic assms(2) by (simp_all add: assms(1) relay_bytes_def)
  show "read32_of (drop 4 rest) = seq" "read32_of (drop 8 rest) = of_nat (length data)"
    unfolding d d8 by (rule read32_of_le32)+
  show "take 64 (drop 12 rest) = sig" "take (length data) (drop 76 rest) = data"
    using assms(2) by (simp_all add: d12 d76)
qed

lemma relay_bytes_split:
  assumes "76 \<le> length rest" "take 4 rest = V9X_RELAY_DOWN_MAGIC" "unat len \<le> length rest - 76"
    "len = read32_of (drop 8 rest)"
  shows "rest = relay_bytes (read32_of (drop 4 rest)) (take 64 (drop 12 rest)) (take (unat len) (drop 76 rest)) @
    drop (76 + unat len) rest"
proof -
  have "length (take (unat len) (drop 76 rest)) = unat len" using assms(1,3) by simp
  then have "of_nat (length (take (unat len) (drop 76 rest))) = len" by simp
  moreover have "le32 (read32_of (drop 4 rest)) = take 4 (drop 4 rest)" "le32 len = take 4 (drop 8 rest)"
    unfolding assms(4) using assms(1) by (simp_all add: le32_read32_of)
  ultimately have "relay_bytes (read32_of (drop 4 rest)) (take 64 (drop 12 rest)) (take (unat len) (drop 76 rest)) =
      take 4 rest @ take 4 (drop 4 rest) @ take 4 (drop 8 rest) @ take 64 (drop 12 rest) @
      take (unat len) (drop 76 rest)"
    using assms(2) by (simp add: relay_bytes_def)
  also have "\<dots> = take (4 + (4 + (4 + (64 + unat len)))) rest"
    unfolding take_add drop_drop by simp
  finally show ?thesis by simp
qed

lemma v9x_relay_next_ok_iff:
  assumes "length batch = unat n" "at \<le> n"
  shows "v9x_relay_next (Some batch) n (Some at) (Some r) = Some (V9X_RELAY_RECORD_OK, Some at', Some r') \<longleftrightarrow>
    (\<exists>sig data post. drop (unat at) batch = relay_bytes (rseq r') sig data @ post \<and> length sig = 64 \<and>
       data \<noteq> [] \<and> length data \<le> 1048576 \<and> unat at' = unat at + 76 + length data \<and>
       r' = \<lparr>rseq = rseq r', rlength = of_nat (length data), rsignature = unat at + 12, rdata = unat at + 76\<rparr>)"
    (is "?ok \<longleftrightarrow> ?rec")
proof -
  define rest where "rest = drop (unat at) batch"
  define len where "len = read32_of (drop 8 rest)"
  note nx = v9x_relay_next_eq [OF assms, of r, folded rest_def, folded len_def]
  have total: "unat at + length rest = unat n" using assms by (simp add: rest_def word_le_nat_alt)
  have sum: "unat (at + 76 + len) = unat at + 76 + unat len" if "76 \<le> length rest" "unat len \<le> length rest - 76"
  proof -
    have "unat at + 76 + unat len < 4294967296" using that total u32_less [of n] by linarith
    then show ?thesis by (simp add: unat_word_ariths)
  qed
  show ?thesis
  proof
    assume ?ok
    then have c: "rest \<noteq> []" "76 \<le> length rest" "take 4 rest = V9X_RELAY_DOWN_MAGIC" "len \<noteq> 0"
      "unat len \<le> 1048576" "unat len \<le> length rest - 76" "at' = at + 76 + len"
      "r' = \<lparr>rseq = read32_of (drop 4 rest), rlength = len, rsignature = unat at + 12, rdata = unat at + 76\<rparr>"
      unfolding nx by (auto split: if_splits)
    have "length (take (unat len) (drop 76 rest)) = unat len" using c by simp
    moreover have "0 < unat len" using c(4) by (simp add: unat_gt_0)
    ultimately have data: "length (take (unat len) (drop 76 rest)) = unat len"
      "take (unat len) (drop 76 rest) \<noteq> []" by force+
    have seq: "read32_of (drop 4 rest) = rseq r'" by (simp add: c(8))
    have "rest = relay_bytes (rseq r') (take 64 (drop 12 rest)) (take (unat len) (drop 76 rest)) @
        drop (76 + unat len) rest"
      using relay_bytes_split [OF c(2,3,6) len_def] unfolding seq .
    moreover have "length (take 64 (drop 12 rest)) = 64" using c(2) by simp
    moreover have "unat at' = unat at + 76 + length (take (unat len) (drop 76 rest))"
      unfolding data(1) c(7) by (rule sum [OF c(2,6)])
    moreover have "r' = \<lparr>rseq = rseq r', rlength = of_nat (length (take (unat len) (drop 76 rest))),
        rsignature = unat at + 12, rdata = unat at + 76\<rparr>"
      unfolding data(1) by (simp add: c(8))
    moreover have "length (take (unat len) (drop 76 rest)) \<le> 1048576" unfolding data(1) by (rule c(5))
    ultimately show ?rec unfolding rest_def [symmetric] using data(2) by blast
  next
    assume ?rec
    then obtain sig data post where d: "rest = relay_bytes (rseq r') sig data @ post" "length sig = 64"
      "data \<noteq> []" "length data \<le> 1048576" "unat at' = unat at + 76 + length data"
      "r' = \<lparr>rseq = rseq r', rlength = of_nat (length data), rsignature = unat at + 12, rdata = unat at + 76\<rparr>"
      by (auto simp: rest_def)
    have small: "length data < 2 ^ 32" using d(4) by simp
    note f = relay_bytes_facts [OF d(1,2) small]
    have len: "len = of_nat (length data)" "unat len = length data"
      using f(4) d(4) by (simp_all add: len_def u32_of_nat)
    have "len \<noteq> 0" using len(2) d(3) by auto
    moreover have "at' = at + 76 + len"
      unfolding word_unat_eq_iff using sum d(5) f(1) len(2) by simp
    moreover have "r' = \<lparr>rseq = read32_of (drop 4 rest), rlength = len, rsignature = unat at + 12, rdata = unat at + 76\<rparr>"
      unfolding f(3) len(1) by (rule d(6))
    ultimately show ?ok
      unfolding nx using f(1,2) d(4) len(2) by auto
  qed
qed

subsection \<open>Verification\<close>

lemma v9x_relay_verify_eq:
  assumes "ids_valid machine install nonce session" "240 \<le> length message" "length (s256_buffer hash) = 64"
    and "rdata r + unat (rlength r) \<le> length batch" "rsignature r + 64 \<le> length batch"
  shows "v9x_relay_verify batch (Some r) (Some key) (Some machine) (Some install) (Some nonce) (Some session)
      hash message out_length =
    Some (v9x_ed25519_verify (take 64 (drop (rsignature r) batch)) key
      (relay_text machine install nonce session (rseq r) (fips256 (take (unat (rlength r)) (drop (rdata r) batch)))))"
proof -
  let ?t = "relay_text machine install nonce session (rseq r) (fips256 (take (unat (rlength r)) (drop (rdata r) batch)))"
  have fits: "unat (rlength r) \<le> length (drop (rdata r) batch)" using assms(4) by simp
  have "length ?t \<le> 239" by (rule relay_text_facts(1) [OF assms(1) length_fips256])
  then have "unat (of_nat (length ?t) :: u32) = length ?t" by (simp add: u32_of_nat)
  then show ?thesis
    using v9x_relay_message_eq [OF assms(1-3) fits refl, of "rseq r" out_length] assms(5)
    by (simp add: v9x_relay_verify_def rds_Some)
qed

lemma v9x_relay_verify_invalid:
  "\<not> ids_valid machine install nonce session \<Longrightarrow>
   v9x_relay_verify batch (Some r) (Some key) (Some machine) (Some install) (Some nonce) (Some session)
      hash message out_length = Some False"
  by (auto simp: v9x_relay_verify_def v9x_relay_message_def ids_valid_def)

subsection \<open>The claims\<close>

text \<open>C23. The record reader is exact: on a batch of its declared length every read is inside the batch,
  and a record is returned exactly when the bytes at the offset are a well-formed record of 1 byte to
  1 MiB; the offset then moves behind it.\<close>

theorem relay_next_exact:
  assumes "length batch = unat n" "at \<le> n"
  shows "v9x_relay_next (Some batch) n (Some at) (Some r) \<noteq> None \<and>
    (v9x_relay_next (Some batch) n (Some at) (Some r) = Some (V9X_RELAY_RECORD_OK, Some at', Some r') \<longleftrightarrow>
    (\<exists>sig data post. drop (unat at) batch = relay_bytes (rseq r') sig data @ post \<and> length sig = 64 \<and>
       data \<noteq> [] \<and> length data \<le> 1048576 \<and> unat at' = unat at + 76 + length data \<and>
       r' = \<lparr>rseq = rseq r', rlength = of_nat (length data), rsignature = unat at + 12, rdata = unat at + 76\<rparr>))"
  using v9x_relay_next_ok_iff [OF assms] v9x_relay_next_eq [OF assms] by simp

definition sample_batch :: bytes where
  "sample_batch = relay_bytes 7 (replicate 64 1) [9, 8]"

definition no_record :: relay_record where
  "no_record = \<lparr>rseq = 0, rlength = 0, rsignature = 0, rdata = 0\<rparr>"

theorem relay_next_exact_witness:
  "v9x_relay_next (Some sample_batch) 78 (Some 0) (Some no_record) =
     Some (V9X_RELAY_RECORD_OK, Some 78, Some \<lparr>rseq = 7, rlength = 2, rsignature = 12, rdata = 76\<rparr>)"
proof -
  have "length sample_batch = unat (78 :: u32)" "(0 :: u32) \<le> 78"
    by (simp_all add: sample_batch_def relay_bytes_def V9X_RELAY_DOWN_MAGIC_def)
  note relay_next_exact [OF this, of no_record 78 "\<lparr>rseq = 7, rlength = 2, rsignature = 12, rdata = 76\<rparr>"]
  moreover have "\<exists>sig data post. drop (unat (0 :: u32)) sample_batch = relay_bytes 7 sig data @ post \<and> length sig = 64 \<and>
       data \<noteq> [] \<and> length data \<le> 1048576 \<and> unat (78 :: u32) = unat (0 :: u32) + 76 + length data \<and>
       \<lparr>rseq = 7, rlength = 2, rsignature = 12, rdata = 76\<rparr> =
         \<lparr>rseq = 7, rlength = of_nat (length data), rsignature = unat (0 :: u32) + 12, rdata = unat (0 :: u32) + 76\<rparr>"
    by (rule exI [of _ "replicate 64 1"], rule exI [of _ "[9, 8]"], rule exI [of _ "[]"])
      (simp add: sample_batch_def)
  ultimately show ?thesis by (simp only: relay_record.select_convs)
qed

text \<open>C24. The canonical text binds a chunk: two accepted calls that leave the same text are about the
  same machine, install, nonce, session and sequence number, and about chunks with the same SHA-256.\<close>

theorem relay_message_binds:
  assumes "ids_valid m i n s" "ids_valid m' i' n' s'" "240 \<le> length out" "240 \<le> length out'"
    and "length (s256_buffer h) = 64" "length (s256_buffer h') = 64"
    and "unat len \<le> length d" "unat len' \<le> length d'"
    and "v9x_relay_message (Some m) (Some i) (Some n) (Some s) q (Some d) len h (Some out) (Some u) =
      Some (True, Some t, Some k)"
    and "v9x_relay_message (Some m') (Some i') (Some n') (Some s') q' (Some d') len' h' (Some out') (Some u') =
      Some (True, Some t', Some k')"
    and "take (unat k) t = take (unat k') t'"
  shows "m = m' \<and> i = i' \<and> n = n' \<and> s = s' \<and> q = q' \<and>
    fips256 (take (unat len) d) = fips256 (take (unat len') d')"
proof -
  have covers: "take (unat k) t = relay_text m i n s q (fips256 (take (unat len) d))"
    if "ids_valid m i n s" "240 \<le> length out" "length (s256_buffer h) = 64" "unat len \<le> length d"
      "v9x_relay_message (Some m) (Some i) (Some n) (Some s) q (Some d) len h (Some out) (Some u) =
        Some (True, Some t, Some k)" for m i n s q d len h out u t k
  proof -
    define x where "x = relay_text m i n s q (fips256 (take (unat len) d))"
    have "length x \<le> 239" using relay_text_facts(1) [OF that(1) length_fips256] by (simp add: x_def)
    then show ?thesis
      using v9x_relay_message_eq [OF that(1-4) refl, of q u] that(5)
      unfolding x_def [symmetric] by (auto simp: u32_of_nat)
  qed
  show ?thesis
    by (rule relay_text_inj [OF assms(1,2) length_fips256 length_fips256])
      (use covers [OF assms(1,3,5,7,9)] covers [OF assms(2,4,6,8,10)] assms(11) in simp)
qed

definition sample_machine :: bytes where "sample_machine = asc ''M-7ZX2QA''"
definition sample_install :: bytes where "sample_install = asc ''00112233-4455-4677-8899-AABBccddeeff''"
definition sample_nonce :: bytes where "sample_nonce = asc ''0123456789abcdef0123456789abcdef''"
definition sample_session :: bytes where "sample_session = replicate 32 0x61"

definition sample_hash :: sha256_ctx where
  "sample_hash = \<lparr>s256_state = [], s256_count_lo = 0, s256_count_hi = 0, s256_buffered = 0,
     s256_buffer = replicate 64 0\<rparr>"

lemma sample_ids_valid: "ids_valid sample_machine sample_install sample_nonce sample_session"
  by code_simp

theorem relay_message_binds_witness:
  "sample_machine = sample_machine \<and> sample_install = sample_install \<and> sample_nonce = sample_nonce \<and>
    sample_session = sample_session \<and> (7 :: u32) = 7 \<and> fips256 (take (unat (1 :: u32)) [1, 2]) = fips256 (take (unat (1 :: u32)) [1, 3])"
proof -
  have b: "240 \<le> length (replicate 256 (0 :: u8))" "length (s256_buffer sample_hash) = 64"
    "unat (1 :: u32) \<le> length [1, 2 :: u8]" "unat (1 :: u32) \<le> length [1, 3 :: u8]"
    by (simp_all add: sample_hash_def)
  have same: "take (unat (1 :: u32)) [1, 2 :: u8] = take (unat (1 :: u32)) [1, 3]" by simp
  note calls = v9x_relay_message_eq [OF sample_ids_valid b(1,2,3) refl, of 7 0]
    v9x_relay_message_eq [OF sample_ids_valid b(1,2,4) refl, of 7 0]
  show ?thesis
    by (rule relay_message_binds [OF sample_ids_valid sample_ids_valid b(1,1,2,2,3,4) calls]) (simp only: same)
qed

end
