(* ===== verification/RemoteProps.thy ===== *)
theory RemoteProps
  imports Remote RelayProps
begin

section \<open>RemoteProps: what a relay session may deliver, and the bounds of the worker\<close>

text \<open>
  The promises of remote help: the handlers behind the tunnel see only bytes the developer signed for
  this session, in order and without gaps or repeats, whatever the server sends; the chat log stays in
  its buffer; and the worker never spins.
\<close>

subsection \<open>Bounded strings\<close>

lemma v9x_rt_append_eq:
  "length t < capacity \<Longrightarrow>
   v9x_rt_append t capacity s = (t @ take (capacity - 1 - length t) s, length t + length s < capacity)"
proof (induction s arbitrary: t)
  case (Cons c s)
  show ?case
  proof (cases "length t + 1 \<ge> capacity")
    case True
    then have "capacity - 1 - length t = 0" using Cons.prems by simp
    then show ?thesis using True by simp
  next
    case False
    then have "v9x_rt_append (t @ [c]) capacity s =
        ((t @ [c]) @ take (capacity - 1 - length (t @ [c])) s, length (t @ [c]) + length s < capacity)"
      by (intro Cons.IH) simp
    moreover have "capacity - 1 - length t = Suc (capacity - 1 - length (t @ [c]))" using False by simp
    ultimately show ?thesis using False by simp
  qed
qed simp

lemma v9x_rt_append_bound: "length t < capacity \<Longrightarrow> length (fst (v9x_rt_append t capacity s)) < capacity"
  by (auto simp: v9x_rt_append_eq)

lemma rt_append_each_bound: "length t < capacity \<Longrightarrow> length (rt_append_each t capacity ps) < capacity"
  unfolding rt_append_each_def by (induction ps arbitrary: t) (simp_all add: v9x_rt_append_bound)

subsection \<open>The chat log\<close>

lemma chat_cut_pos: "log \<noteq> [] \<Longrightarrow> 0 < chat_cut log"
  by (auto simp: chat_cut_def Let_def)

lemma chat_trim_eq:
  assumes "len < V9X_CHAT_LOG_SIZE"
  shows "\<exists>k. chat_trim log len = Some (drop k log) \<and> length (drop k log) + len < V9X_CHAT_LOG_SIZE \<and>
    (length log + len < V9X_CHAT_LOG_SIZE \<longrightarrow> k = 0)"
proof (induction log rule: length_induct)
  case (1 log)
  show ?case
  proof (cases "length log + len + 1 > V9X_CHAT_LOG_SIZE")
    case False
    then show ?thesis by (intro exI [of _ 0]) (simp add: chat_trim.simps [of log])
  next
    case True
    then have "log \<noteq> []" using assms by auto
    then have "length (drop (chat_cut log) log) < length log" using chat_cut_pos by simp
    with 1 obtain k where "chat_trim (drop (chat_cut log) log) len = Some (drop k (drop (chat_cut log) log))"
      "length (drop k (drop (chat_cut log) log)) + len < V9X_CHAT_LOG_SIZE" by blast
    then show ?thesis using True
      by (intro exI [of _ "k + chat_cut log"]) (simp add: chat_trim.simps [of log])
  qed
qed

lemma chat_line_bound: "length (chat_line clock who s) < V9X_CHAT_LINE + 32"
  unfolding chat_line_def by (rule rt_append_each_bound) (simp add: V9X_CHAT_LINE_def)

lemma v9x_chat_append_eq:
  "\<exists>k. v9x_chat_append c clock who s = Some (c\<lparr>chat_log := drop k (chat_log c) @ chat_line clock who s\<rparr>) \<and>
    length (drop k (chat_log c) @ chat_line clock who s) < V9X_CHAT_LOG_SIZE \<and>
    (length (chat_log c) + length (chat_line clock who s) < V9X_CHAT_LOG_SIZE \<longrightarrow> k = 0)"
proof -
  have "length (chat_line clock who s) < V9X_CHAT_LOG_SIZE"
    using chat_line_bound [of clock who s] by (simp add: chat_consts)
  from chat_trim_eq [OF this, of "chat_log c"] show ?thesis
    by (auto simp: v9x_chat_append_def)
qed

text \<open>The invariant of the chat: the log and its terminator fit, the queue fits, and so does every
  queued line.\<close>

definition chat_ok :: "chat \<Rightarrow> bool" where
  "chat_ok c \<longleftrightarrow> length (chat_log c) < V9X_CHAT_LOG_SIZE \<and> length (chat_outgoing c) \<le> V9X_CHAT_QUEUE \<and>
     list_all (\<lambda>s. length s < V9X_CHAT_LINE) (chat_outgoing c)"

lemma v9x_chat_append_ok:
  "chat_ok c \<Longrightarrow> \<exists>c'. v9x_chat_append c clock who s = Some c' \<and> chat_ok c' \<and> chat_outgoing c' = chat_outgoing c"
  using v9x_chat_append_eq [of c clock who s] by (auto simp: chat_ok_def)

lemma v9x_chat_send_ok: "chat_ok c \<Longrightarrow> \<exists>c'. v9x_chat_send c clock s = Some c' \<and> chat_ok c'"
proof -
  assume c: "chat_ok c"
  let ?c = "if length (chat_outgoing c) < V9X_CHAT_QUEUE
    then c\<lparr>chat_outgoing := chat_outgoing c @ [v9x_rt_copy V9X_CHAT_LINE s]\<rparr> else c"
  have "chat_ok ?c" using c by (auto simp: chat_ok_def v9x_rt_copy_def chat_consts)
  then show ?thesis using c v9x_chat_append_ok [of ?c clock "asc ''You''" s]
    by (auto simp: v9x_chat_send_def Let_def simp del: asc_Cons)
qed

lemma chat_typed_ok: "chat_ok c \<Longrightarrow> \<exists>c'. chat_typed c clock ss = Some c' \<and> chat_ok c'"
proof (induction ss arbitrary: c)
  case (Cons s ss)
  then obtain c1 where "v9x_chat_send c clock s = Some c1" "chat_ok c1" using v9x_chat_send_ok by blast
  then show ?case using Cons.IH by simp
qed simp

lemma poll_lines_ok:
  "chat_ok c \<Longrightarrow> \<exists>c' b. poll_lines c incoming clock r ks = Some (c', b) \<and> chat_ok c'"
proof (induction c incoming clock r ks rule: poll_lines.induct)
  case (2 c incoming clock r k ks)
  obtain ok s where v: "v9x_remote_value r (asc ''chat'') (fst (v9x_rt_append_number [] 8 (of_nat k)))
      (V9X_CHAT_LINE * 3 + 4) = (ok, s)" by force
  obtain c1 where c1: "v9x_chat_append c clock (asc ''Developer'') (v9x_rt_decode s) = Some c1" "chat_ok c1"
    using v9x_chat_append_ok [OF 2(3)] by blast
  show ?case
  proof (cases ok)
    case True
    then show ?thesis using 2(1) [OF v [symmetric] True c1] c1(1) v by (simp del: asc_Cons)
  next
    case False
    then show ?thesis using 2(2) [OF v [symmetric] False 2(3)] v by (simp del: asc_Cons)
  qed
qed simp

subsection \<open>Calls and check-ins\<close>

lemma v9x_remote_call_fields:
  assumes "v9x_remote_call m method op extra body reply = (m', r)"
  shows "m_chat m' = m_chat m" "m_machine m' = m_machine m" "m_install_id m' = m_install_id m"
    "m_next_poll m' = m_next_poll m" "m_stop m' = m_stop m" "m_secret m' = m_secret m"
    "m_session_id m' = m_session_id m" "m_session_state m' = m_session_state m"
    "m_chat_incoming m' = m_chat_incoming m" "r \<noteq> None \<longrightarrow> r = reply"
  using assms by (auto simp: v9x_remote_call_def split: prod.splits if_splits)

text \<open>The worker between two steps: the chat is sound and the next check-in is due within an hour.\<close>

definition remote_ok :: "remote \<Rightarrow> bool" where
  "remote_ok m \<longleftrightarrow> chat_ok (m_chat m) \<and> 1 \<le> m_next_poll m \<and> m_next_poll m \<le> 3600"

lemma poll_next_bounds: "1 \<le> poll_next r \<and> poll_next r \<le> 3600"
  by (auto simp: poll_next_def remote_consts split: prod.splits)

text \<open>What a check-in may change of the worker.\<close>

definition same_machine :: "remote \<Rightarrow> remote \<Rightarrow> bool" where
  "same_machine m m' \<longleftrightarrow> m_install_id m' = m_install_id m \<and> (m_machine m' = m_machine m \<or> m_machine m' = [])"

lemma poll_accept_ok:
  assumes "remote_ok m"
  shows "\<exists>m'. poll_accept m i sent r = Some m' \<and> remote_ok m' \<and> same_machine m m'"
proof -
  let ?c = "(m_chat m)\<lparr>chat_outgoing := drop sent (chat_outgoing (m_chat m))\<rparr>"
  have "chat_ok ?c" using assms by (auto simp: remote_ok_def chat_ok_def list_all_iff dest: in_set_dropD)
  then obtain c b where "poll_lines ?c (m_chat_incoming m) (poll_clock i) r [1..<min (poll_count r) 20 + 1] = Some (c, b)"
    "chat_ok c" using poll_lines_ok by blast
  then show ?thesis using poll_next_bounds [of r]
    by (simp add: poll_accept_def same_machine_def Let_def remote_ok_def)
qed

lemma poll_answer_ok:
  assumes "remote_ok m"
  shows "\<exists>m' ok. poll_answer m i sent r = Some (m', ok) \<and> remote_ok m' \<and> same_machine m m'"
proof -
  obtain found status where v: "v9x_remote_value r (asc ''poll'') (asc ''status'') 32 = (found, status)" by force
  obtain m' where "poll_accept m i sent r = Some m'" "remote_ok m'" "same_machine m m'"
    using poll_accept_ok [OF assms] by blast
  then show ?thesis unfolding poll_answer_def v prod.case
    using assms by (auto simp: same_machine_def v9x_remote_forget_def remote_ok_def)
qed

lemma v9x_remote_poll_ok:
  assumes "remote_ok m"
  shows "\<exists>m' ok. v9x_remote_poll m i open_session = Some (m', ok) \<and> remote_ok m' \<and> same_machine m m'"
proof -
  obtain m1 reply where call: "v9x_remote_call m (asc ''POST'') (asc ''poll'') None
      (poll_body m i (case_option [] id open_session)) (poll_reply i) = (m1, reply)" by force
  note f = v9x_remote_call_fields [OF call]
  obtain c where c: "chat_typed (m_chat m1) (poll_clock i) (poll_typed i) = Some c" "chat_ok c"
    using chat_typed_ok assms f(1) unfolding remote_ok_def by metis
  have m1: "remote_ok (m1\<lparr>m_chat := c\<rparr>)" using assms c(2) f(4) by (simp add: remote_ok_def)
  obtain m' ok where m': "poll_answer (m1\<lparr>m_chat := c\<rparr>) i (length (chat_outgoing (m_chat m))) (the reply) = Some (m', ok)"
    "remote_ok m'" "same_machine (m1\<lparr>m_chat := c\<rparr>) m'"
    using poll_answer_ok [of "m1\<lparr>m_chat := c\<rparr>" i "length (chat_outgoing (m_chat m))" "the reply"] m1 by auto
  have "same_machine m m'" "same_machine m (m1\<lparr>m_chat := c\<rparr>)"
    using m'(3) f by (auto simp: same_machine_def)
  moreover have "v9x_remote_poll m i open_session =
      (case reply of None \<Rightarrow> Some (m1\<lparr>m_chat := c\<rparr>, False) | Some r \<Rightarrow> Some (m', ok))"
    using m'(1) by (cases reply) (simp_all only: v9x_remote_poll_def Let_def call prod.case c(1) option.sel
        Option.bind.bind_lunit option.case)
  ultimately show ?thesis using m'(2) m1 by (cases reply) auto
qed

subsection \<open>Authentic streams\<close>

text \<open>A chunk the developer signed for place \<open>k\<close> of this session, and the byte streams that consist of
  such chunks in order.\<close>

definition authentic :: "session_env \<Rightarrow> bytes \<Rightarrow> bytes \<Rightarrow> nat \<Rightarrow> bytes \<Rightarrow> bool" where
  "authentic e machine install k chunk \<longleftrightarrow>
     ids_valid machine install (e_nonce e) (e_session e) \<and>
     (\<exists>sig. length sig = 64 \<and>
        v9x_ed25519_verify sig (e_key e)
          (relay_text machine install (e_nonce e) (e_session e) (of_nat k) (fips256 chunk)))"

inductive authentic_stream :: "session_env \<Rightarrow> bytes \<Rightarrow> bytes \<Rightarrow> nat \<Rightarrow> bytes \<Rightarrow> bool" for e machine install where
  start: "authentic_stream e machine install 0 []"
| chunk: "authentic_stream e machine install k bs \<Longrightarrow> authentic e machine install (k + 1) c \<Longrightarrow>
    authentic_stream e machine install (k + 1) (bs @ c)"

inductive_cases authentic_stream_SucE: "authentic_stream e machine install (Suc k) bs"

definition env_ok :: "session_env \<Rightarrow> bool" where
  "env_ok e \<longleftrightarrow> 240 \<le> length (e_message e) \<and> length (s256_buffer (e_hash e)) = 64"

text \<open>The session between two chunks, and one whose loopback gave up inside a chunk.\<close>

definition faithful :: "session_env \<Rightarrow> bytes \<Rightarrow> bytes \<Rightarrow> session \<Rightarrow> bool" where
  "faithful e machine install s \<longleftrightarrow>
     (\<exists>k. authentic_stream e machine install k (s_delivered s) \<and> s_expected s = of_nat (k + 1)) \<and>
     m_install_id (s_remote s) = install \<and> (m_machine (s_remote s) = machine \<or> m_machine (s_remote s) = []) \<and>
     remote_ok (s_remote s)"

definition cut_short :: "session_env \<Rightarrow> bytes \<Rightarrow> bytes \<Rightarrow> session \<Rightarrow> bool" where
  "cut_short e machine install s \<longleftrightarrow>
     remote_ok (s_remote s) \<and> (\<exists>k bs c j. authentic_stream e machine install k bs \<and> authentic e machine install (k + 1) c \<and>
        s_delivered s = bs @ take j c)"

lemma no_machine: "\<not> ids_valid [] install nonce session"
  using ids_validD(1) by force

lemma feed_batch_faithful:
  assumes "env_ok e" "length body = unat n" "offset \<le> n" "faithful e machine install s"
  shows "\<exists>s' fe. feed_batch e taken body n r offset s = Some (s', fe) \<and>
    s_remote s' = s_remote s \<and>
    (if fe = FeedLoopback then cut_short e machine install s' else faithful e machine install s')"
  using assms(3,4)
proof (induction "unat n - unat offset" arbitrary: r offset s rule: less_induct)
  case less
  note IH = less(1) and ok = assms(1,2) less(2,3)
  obtain st op rp where nx: "v9x_relay_next (Some body) n (Some offset) (Some r) = Some (st, op, rp)"
    using v9x_relay_next_eq [OF ok(2,3), of r] by (metis surj_pair)
  show ?case
  proof (cases "st = V9X_RELAY_RECORD_OK")
    case False
    then show ?thesis using nx ok(4)
      by (subst feed_batch.simps) (cases st, auto)
  next
    case True
    obtain offset' r' where o: "op = Some offset'" "rp = Some r'"
      using nx True v9x_relay_next_eq [OF ok(2,3), of r] by (auto split: if_splits)
    note rec = nx [unfolded True o]
    obtain sig data post where d: "drop (unat offset) body = relay_bytes (rseq r') sig data @ post"
      "length sig = 64" "data \<noteq> []" "length data \<le> 1048576" "unat offset' = unat offset + 76 + length data"
      "r' = \<lparr>rseq = rseq r', rlength = of_nat (length data), rsignature = unat offset + 12, rdata = unat offset + 76\<rparr>"
      using rec v9x_relay_next_ok_iff [OF ok(2,3), of r offset' r'] by blast
    have small: "length data < 2 ^ 32" using d(4) by simp
    note f = relay_bytes_facts [OF d(1,2) small]
    have rl: "unat (rlength r') = length data" "rdata r' = unat offset + 76" "rsignature r' = unat offset + 12"
    proof -
      have "rlength r' = of_nat (length data)" using d(6) by (metis relay_record.select_convs(2))
      then show "unat (rlength r') = length data" using d(4) by (simp add: u32_of_nat)
      show "rdata r' = unat offset + 76" "rsignature r' = unat offset + 12"
        using d(6) by (metis relay_record.select_convs(3,4))+
    qed
    have total: "unat offset + length (drop (unat offset) body) = length body"
      using ok(2,3) by (simp add: word_le_nat_alt)
    have inside: "rdata r' + unat (rlength r') \<le> length body" "rsignature r' + 64 \<le> length body"
      unfolding rl using f(1) total by simp_all
    have chunk: "take (unat (rlength r')) (drop (rdata r') body) = data"
      "take 64 (drop (rsignature r') body) = sig"
      using f(5,6) unfolding rl by (simp_all add: add.commute)
    have rds: "rds body (rdata r') (unat (rlength r')) = Some data"
      using inside(1) chunk(1) by (simp add: rds_Some)
    let ?m = "m_machine (s_remote s)"
    have inst: "m_install_id (s_remote s) = install" using ok(4) by (simp add: faithful_def)
    define good where "good \<longleftrightarrow> ids_valid ?m install (e_nonce e) (e_session e) \<and>
      v9x_ed25519_verify sig (e_key e) (relay_text ?m install (e_nonce e) (e_session e) (rseq r') (fips256 data))"
    have verify: "v9x_relay_verify body (Some r') (Some (e_key e)) (Some ?m) (Some (m_install_id (s_remote s)))
        (Some (e_nonce e)) (Some (e_session e)) (e_hash e) (e_message e) (e_length e) = Some good"
    proof (cases "ids_valid ?m install (e_nonce e) (e_session e)")
      case True
      then show ?thesis
        using v9x_relay_verify_eq [OF True _ _ inside, of "e_message e" "e_hash e"] ok(1) chunk
        by (simp add: good_def inst env_ok_def)
    qed (simp add: v9x_relay_verify_invalid good_def inst)
    show ?thesis
    proof (cases "rseq r' = s_expected s \<and> good")
      case False
      then show ?thesis using rec verify ok(4)
        by (subst feed_batch.simps) auto
    next
      case True
      obtain k where k: "authentic_stream e machine install k (s_delivered s)" "s_expected s = of_nat (k + 1)"
        using ok(4) by (auto simp: faithful_def)
      have "?m = machine" using True ok(4) no_machine by (auto simp: faithful_def good_def)
      then have auth: "authentic e machine install (k + 1) data"
        using True k(2) d(2) by (auto simp: authentic_def good_def)
      let ?s = "s\<lparr>s_delivered := s_delivered s @ take (taken (rseq r')) data\<rparr>"
      let ?t = "?s\<lparr>s_expected := s_expected ?s + 1, s_moved := True, s_fed := True\<rparr>"
      show ?thesis
      proof (cases "taken (rseq r') < length data")
        case short: True
        have "cut_short e machine install ?s"
          unfolding cut_short_def using k(1) auth ok(4) by (auto simp: faithful_def)
        then show ?thesis using rec verify True rds short
          by (subst feed_batch.simps) simp
      next
        case full: False
        have "authentic_stream e machine install (k + 1) (s_delivered s @ data)"
          by (rule authentic_stream.chunk [OF k(1) auth])
        then have "faithful e machine install ?t"
          using full k(2) ok(4) by (auto simp: faithful_def intro!: exI [of _ "k + 1"])
        moreover have "offset' \<le> n" using d(5) f(1) total ok(2) by (simp add: word_le_nat_alt)
        ultimately obtain s' fe where rest: "feed_batch e taken body n r' offset' ?t = Some (s', fe)"
          "s_remote s' = s_remote ?t"
          "if fe = FeedLoopback then cut_short e machine install s' else faithful e machine install s'"
          using IH [OF v9x_relay_next_advances [OF rec], where s = ?t and r = r'] by blast
        have "feed_batch e taken body n r offset s = feed_batch e taken body n r' offset' ?t"
          using rec verify True rds full
          by (subst feed_batch.simps) (simp add: Let_def)
        then show ?thesis using rest by (simp only:) simp
      qed
    qed
  qed
qed

subsection \<open>Rounds\<close>

lemma up_tries_fields:
  "up_tries m query c n replies = (m', r) \<Longrightarrow>
   m_chat m' = m_chat m \<and> m_machine m' = m_machine m \<and> m_install_id m' = m_install_id m \<and>
   m_next_poll m' = m_next_poll m"
proof (induction n arbitrary: m replies)
  case (Suc n)
  obtain m1 reply where call: "v9x_remote_call m (asc ''POST'') (asc ''up'') (Some query) c
      (case replies of [] \<Rightarrow> None | r # _ \<Rightarrow> r) = (m1, reply)" by force
  note f = v9x_remote_call_fields [OF call]
  have "m' = m1 \<or> up_tries m1 query c n (drop 1 replies) = (m', r)"
    using Suc.prems call by (auto simp del: asc_Cons split: option.splits if_splits)
  then show ?case using Suc.IH f by metis
qed simp

definition bodies_ok :: "round_input \<Rightarrow> bool" where
  "bodies_ok i \<longleftrightarrow> (case in_down i of None \<Rightarrow> True | Some r \<Rightarrow> length (reply_body r) < 2 ^ 32)"

lemma faithful_remote:
  "faithful e machine install s \<Longrightarrow> s_delivered t = s_delivered s \<Longrightarrow> s_expected t = s_expected s \<Longrightarrow>
   same_machine (s_remote s) (s_remote t) \<Longrightarrow> remote_ok (s_remote t) \<Longrightarrow> faithful e machine install t"
  by (auto simp: faithful_def same_machine_def)

lemma round_down_ok:
  assumes "env_ok e" "faithful e machine install s" "bodies_ok i"
  shows "\<exists>s' x. round_down e i s = Some (s', x) \<and>
    (faithful e machine install s' \<or> x \<noteq> None \<and> cut_short e machine install s')"
proof -
  let ?s = "s\<lparr>s_moved := False, s_fed := False\<rparr>"
  have s: "faithful e machine install ?s" using assms(2) by (auto simp: faithful_def)
  let ?query = "session_query (e_session e)
    [asc ''&after='', rt_number (s_expected ?s - 1), if \<not> s_moved s then asc ''&wait=3'' else asc ''&wait=0'']"
  obtain m reply where call: "v9x_remote_call (s_remote ?s) (asc ''GET'') (asc ''down'') (Some ?query) [] (in_down i) =
      (m, reply)" by force
  note f = v9x_remote_call_fields [OF call]
  let ?t = "?s\<lparr>s_remote := m\<rparr>"
  have t: "faithful e machine install ?t"
    by (rule faithful_remote [OF s]) (use f s in \<open>auto simp: same_machine_def faithful_def remote_ok_def\<close>)
  show ?thesis
  proof (cases "\<not> in_paused i \<and> (\<exists>r. reply = Some r \<and> reply_status r = 200 \<and>
      \<not> v9x_rt_ci_find (reply_head r) (asc ''x-v9x-session-state: closed''))")
    case False
    then show ?thesis using s t call
      by (auto simp: round_down_def Let_def simp del: asc_Cons split: option.splits)
  next
    case True
    then obtain r where r: "reply = Some r" "reply_status r = 200"
      "\<not> v9x_rt_ci_find (reply_head r) (asc ''x-v9x-session-state: closed'')" by blast
    have "in_down i = Some r" using f(10) r(1) by simp
    then have "length (reply_body r) = unat (of_nat (length (reply_body r)) :: u32)"
      using assms(3) by (simp add: bodies_ok_def u32_of_nat)
    from feed_batch_faithful [OF assms(1) this _ t, of 0 "in_taken i"] obtain s' fe where
      fed: "feed_batch e (in_taken i) (reply_body r) (of_nat (length (reply_body r)))
          \<lparr>rseq = 0, rlength = 0, rsignature = 0, rdata = 0\<rparr> 0 ?t = Some (s', fe)"
        "if fe = FeedLoopback then cut_short e machine install s' else faithful e machine install s'"
      by (metis word_zero_le)
    have "round_down e i s = Some (s', case fe of FeedDone \<Rightarrow> None
        | FeedBadChunk \<Rightarrow> Some (Closed False (asc ''bad-signature''))
        | FeedLoopback \<Rightarrow> Some (Closed False (asc ''loopback'')))"
      using True r call fed(1)
      by (simp only: round_down_def Let_def prod.case option.case if_False if_True not_False_eq_True
          Option.bind.bind_lunit simp_thms)
    then show ?thesis using fed(2) by (cases fe) auto
  qed
qed

lemma round_up_ok:
  assumes "faithful e machine install s" "round_up e i s = (s', x)"
  shows "faithful e machine install s'"
proof (cases "in_drained i")
  case None
  then show ?thesis using assms by (simp add: round_up_def)
next
  case (Some d)
  show ?thesis
  proof (cases d)
    case Nil
    then show ?thesis using assms Some by (simp add: round_up_def)
  next
    case (Cons c cs)
    obtain m reply where tries: "up_tries (s_remote s)
        (session_query (e_session e) [asc ''&seq='', rt_number (s_up_seq s)]) (c # cs) 4 (in_ups i) = (m, reply)"
      by force
    note f = up_tries_fields [OF tries]
    have s': "s_delivered s' = s_delivered s \<and> s_expected s' = s_expected s \<and> s_remote s' = m"
      using assms(2) Some Cons tries
      by (auto simp: round_up_def Let_def simp del: asc_Cons up_tries.simps split: option.splits if_splits)
    show ?thesis
      by (rule faithful_remote [OF assms(1)]) (use s' f assms(1) in \<open>auto simp: same_machine_def faithful_def remote_ok_def\<close>)
  qed
qed

lemma round_heartbeat_ok:
  assumes "faithful e machine install s"
  shows "\<exists>s' x. round_heartbeat e i s = Some (s', x) \<and> faithful e machine install s'"
proof -
  have "remote_ok (s_remote s)" using assms by (simp add: faithful_def)
  from v9x_remote_poll_ok [OF this, of "in_poll i" "Some (e_session e)"] obtain m ok where
    m: "v9x_remote_poll (s_remote s) (in_poll i) (Some (e_session e)) = Some (m, ok)" "remote_ok m"
      "same_machine (s_remote s) m" by blast
  have "faithful e machine install (s\<lparr>s_heartbeat := snd (in_ticks i), s_remote := m\<rparr>)"
    by (rule faithful_remote [OF assms]) (use m in simp_all)
  then show ?thesis using assms m(1) by (simp add: round_heartbeat_def Let_def del: asc_Cons)
qed

lemma session_round_ok:
  assumes "env_ok e" "faithful e machine install s" "bodies_ok i"
  shows "\<exists>s' x. session_round e i s = Some (s', x) \<and>
    (faithful e machine install s' \<or> x \<noteq> None \<and> cut_short e machine install s')"
proof -
  obtain s1 x1 where down: "round_down e i s = Some (s1, x1)"
    "faithful e machine install s1 \<or> x1 \<noteq> None \<and> cut_short e machine install s1"
    using round_down_ok [OF assms] by blast
  show ?thesis
  proof (cases x1)
    case (Some x)
    then show ?thesis using down by (simp add: session_round_def)
  next
    case None
    then have s1: "faithful e machine install s1" using down(2) by simp
    obtain s2 x2 where up: "round_up e i s1 = (s2, x2)" by force
    note s2 = round_up_ok [OF s1 up]
    show ?thesis using round_heartbeat_ok [OF s2, of i] down(1) None up s2
      by (cases x2) (auto simp: session_round_def)
  qed
qed

lemma session_rounds_ok:
  assumes "env_ok e" "faithful e machine install s" "list_all bodies_ok inputs"
  shows "\<exists>s' x. session_rounds e inputs s = Some (s', x) \<and>
    (faithful e machine install s' \<or> x \<noteq> None \<and> cut_short e machine install s')"
  using assms(2,3)
proof (induction inputs arbitrary: s)
  case (Cons i inputs)
  obtain s1 x1 where r: "session_round e i s = Some (s1, x1)"
    "faithful e machine install s1 \<or> x1 \<noteq> None \<and> cut_short e machine install s1"
    using session_round_ok [OF assms(1) Cons.prems(1), of i] Cons.prems(2) by auto
  show ?case
  proof (cases x1)
    case None
    then show ?thesis using Cons.IH [of s1] Cons.prems(2) r by simp
  next
    case (Some x)
    then show ?thesis using r by simp
  qed
qed simp

text \<open>The bytes a session delivers: authentic chunks 1 to \<open>k\<close>, then perhaps the beginning of chunk \<open>k + 1\<close>.\<close>

definition only_signed :: "session_env \<Rightarrow> bytes \<Rightarrow> bytes \<Rightarrow> bytes \<Rightarrow> bool" where
  "only_signed e machine install bytes \<longleftrightarrow>
     (\<exists>k bs part. authentic_stream e machine install k bs \<and> bytes = bs @ part \<and>
        (part = [] \<or> (\<exists>rest. authentic e machine install (k + 1) (part @ rest))))"

lemma only_signedI:
  "faithful e machine install s \<or> cut_short e machine install s \<Longrightarrow> only_signed e machine install (s_delivered s)"
proof -
  assume "faithful e machine install s \<or> cut_short e machine install s"
  then show ?thesis
  proof
    assume "faithful e machine install s"
    then obtain k where "authentic_stream e machine install k (s_delivered s)" by (auto simp: faithful_def)
    then show ?thesis unfolding only_signed_def by (intro exI [of _ k] exI [of _ "s_delivered s"] exI [of _ "[]"]) simp
  next
    assume "cut_short e machine install s"
    then obtain k bs c j where c: "authentic_stream e machine install k bs" "authentic e machine install (k + 1) c"
      "s_delivered s = bs @ take j c" by (auto simp: cut_short_def)
    have "authentic e machine install (k + 1) (take j c @ drop j c)" using c(2) by simp
    then show ?thesis unfolding only_signed_def using c(1,3) by blast
  qed
qed

text \<open>The environment of a session: the key, the nonce drawn for it and its name.\<close>

definition session_env_of :: "session_open \<Rightarrow> bytes \<Rightarrow> session_env" where
  "session_env_of opening session_id =
     fst (session_start opening (v9x_remote_nonce (o_uuid opening)) (v9x_rt_copy 40 session_id) undefined)"

lemma remote_ok_session_call: "remote_ok m \<Longrightarrow> remote_ok (v9x_remote_session_call m op name extra)"
  unfolding v9x_remote_session_call_def remote_ok_def
  by (auto simp: v9x_remote_call_def split: prod.splits)

lemma v9x_remote_session_signed:
  assumes m: "remote_ok m"
    and locals: "length (o_message opening) = 256" "length (s256_buffer (o_hash opening)) = 64"
    and bodies: "list_all bodies_ok (o_rounds opening)"
  shows "\<exists>m' sp ended. v9x_remote_session m session_id opening = Some (m', sp, ended) \<and> remote_ok m' \<and>
    (case sp of None \<Rightarrow> True
     | Some s \<Rightarrow> only_signed (session_env_of opening session_id) (m_machine m) (m_install_id m) (s_delivered s))"
proof -
  let ?name = "v9x_rt_copy 40 session_id" and ?nonce = "v9x_remote_nonce (o_uuid opening)"
  obtain m1 reply where call: "v9x_remote_call m (asc ''POST'') (asc ''accept'')
      (Some (session_query ?name [asc ''&nonce='', ?nonce])) [] (o_accept opening) = (m1, reply)" by force
  note f = v9x_remote_call_fields [OF call]
  define e where "e = session_env_of opening session_id"
  define s where "s = snd (session_start opening ?nonce ?name m1)"
  have start: "session_start opening ?nonce ?name m1 = (e, s)"
    by (simp add: e_def s_def session_env_of_def session_start_def)
  have env: "env_ok e" using locals by (simp add: e_def session_env_of_def session_start_def env_ok_def)
  have "faithful e (m_machine m) (m_install_id m) s"
    using m f by (auto simp: faithful_def remote_ok_def s_def session_start_def intro!: exI [of _ 0] authentic_stream.start)
  from session_rounds_ok [OF env this bodies] obtain s' x where
    rounds: "session_rounds e (o_rounds opening) s = Some (s', x)"
      "faithful e (m_machine m) (m_install_id m) s' \<or> cut_short e (m_machine m) (m_install_id m) s'" by blast
  note signed = only_signedI [OF rounds(2)]
  have ok1: "remote_ok m1" using m f by (simp add: remote_ok_def)
  have ok': "remote_ok (s_remote s')" using rounds(2) by (auto simp: faithful_def cut_short_def)
  define m' where "m' = (case x of
      Some (Closed False reason) \<Rightarrow> v9x_remote_session_call (s_remote s') (asc ''close'') ?name
        (Some (rt_append_each [] 160 [asc ''&reason='', reason]))
    | _ \<Rightarrow> s_remote s')"
  have m': "remote_ok m'"
    unfolding m'_def using ok' remote_ok_session_call by (auto split: option.splits session_end.splits bool.splits)
  show ?thesis
  proof (cases "o_paused opening \<or> \<not> o_loopback opening \<or> reply = None \<or>
      v9x_remote_value (the reply) (asc ''session'') (asc ''status'') 32 \<noteq> (True, asc ''ok'')")
    case True
    then show ?thesis using call m ok1 remote_ok_session_call
      by (cases reply) (auto simp: v9x_remote_session_def Let_def simp del: asc_Cons)
  next
    case False
    then obtain r where "reply = Some r" "v9x_remote_value r (asc ''session'') (asc ''status'') 32 = (True, asc ''ok'')"
      by auto
    then have "v9x_remote_session m session_id opening = Some (m', Some s', x)"
      using False call start rounds(1) unfolding m'_def
      by (simp add: v9x_remote_session_def Let_def del: asc_Cons)
    then show ?thesis using signed m' unfolding e_def by auto
  qed
qed

text \<open>C1. Integrity of remote help: whatever the server answers, in whatever rounds, a session returns,
  and the bytes that reach the handlers behind the loopback are chunks that carry the developer's
  signature for this machine, this install, this session and the nonce drawn for it, in the order of
  their sequence numbers from 1 on, without gaps or repeats; at most the last one is cut short, when
  the loopback gave up.\<close>

theorem relay_session_integrity:
  assumes "remote_ok m"
    and "length (o_message opening) = 256" "length (s256_buffer (o_hash opening)) = 64"
    and "list_all bodies_ok (o_rounds opening)"
  shows "\<exists>m' sp ended. v9x_remote_session m session_id opening = Some (m', sp, ended) \<and>
    (case sp of None \<Rightarrow> True
     | Some s \<Rightarrow> only_signed (session_env_of opening session_id) (m_machine m) (m_install_id m) (s_delivered s))"
  using v9x_remote_session_signed [OF assms, of session_id] by blast

definition sample_remote :: remote where
  "sample_remote = \<lparr>m_server = asc ''http://h'', m_machine = sample_machine, m_secret = replicate 32 0x30,
     m_display_name = [], m_github = [], m_email = [], m_install_id = sample_install, m_next_poll = 60,
     m_session_id = sample_session, m_session_state = asc ''pending'', m_stop = False,
     m_chat = \<lparr>chat_log = [], chat_outgoing = []\<rparr>, m_chat_incoming = False,
     m_status = V9X_REMOTE_ONLINE, m_requests = []\<rparr>"

definition sample_poll :: poll_input where
  "sample_poll = \<lparr>poll_paused = False, poll_age = - 1, poll_source = [], poll_reply = None, poll_typed = [],
     poll_clock = chat_clock 9 5\<rparr>"

definition sample_round :: round_input where
  "sample_round = \<lparr>in_paused = False,
     in_down = Some \<lparr>reply_status = 200, reply_head = [], reply_body = sample_batch\<rparr>,
     in_taken = (\<lambda>_. 1000), in_drained = Some [], in_ups = [], in_ticks = (0, 0), in_poll = sample_poll\<rparr>"

definition sample_opening :: session_open where
  "sample_opening = \<lparr>o_paused = False, o_uuid = sample_install, o_loopback = True,
     o_accept = Some \<lparr>reply_status = 200, reply_head = [],
       reply_body = asc ''[session]'' @ [10] @ asc ''status=ok''\<rparr>,
     o_tick = 0, o_key = replicate 32 0, o_hash = sample_hash, o_message = replicate 256 0, o_length = 0,
     o_rounds = [sample_round]\<rparr>"

theorem relay_session_integrity_witness:
  "\<exists>m' sp ended. v9x_remote_session sample_remote sample_session sample_opening = Some (m', sp, ended) \<and>
    (case sp of None \<Rightarrow> True
     | Some s \<Rightarrow> only_signed (session_env_of sample_opening sample_session) sample_machine sample_install (s_delivered s))"
proof -
  have "remote_ok sample_remote" by (simp add: sample_remote_def remote_ok_def chat_ok_def chat_consts)
  moreover have "length (o_message sample_opening) = 256" "length (s256_buffer (o_hash sample_opening)) = 64"
    by (simp_all add: sample_opening_def sample_hash_def)
  moreover have "list_all bodies_ok (o_rounds sample_opening)"
    by (simp add: sample_opening_def sample_round_def bodies_ok_def sample_batch_def relay_bytes_def
        V9X_RELAY_DOWN_MAGIC_def)
  moreover have "m_machine sample_remote = sample_machine" "m_install_id sample_remote = sample_install"
    by (simp_all add: sample_remote_def)
  ultimately show ?thesis using relay_session_integrity [of sample_remote sample_opening sample_session]
    by (simp only:)
qed

subsection \<open>The worker loop\<close>

text \<open>The backoff is 30 seconds doubled up to five times.\<close>

definition backoff_ok :: "u32 \<Rightarrow> bool" where
  "backoff_ok b \<longleftrightarrow> b \<in> {30, 60, 120, 240, 480, 960}"

lemma next_backoff_ok: "backoff_ok b \<Longrightarrow> backoff_ok (next_backoff b)"
  by (auto simp: backoff_ok_def next_backoff_def)

text \<open>Milliseconds of a wait, without the wrap-around of the 32-bit product.\<close>

definition waits :: "pass_end \<Rightarrow> nat \<Rightarrow> bool" where
  "waits x s \<longleftrightarrow> 1 \<le> s \<and> s \<le> 3600 \<and> (\<exists>w. x = PassWait w \<and> unat w = 1000 * s)"

lemma waits_seconds: "1 \<le> b \<Longrightarrow> b \<le> 3600 \<Longrightarrow> waits (PassWait (b * 1000)) (unat b)" for b :: u32
proof -
  assume b: "1 \<le> b" "b \<le> 3600"
  then have u: "1 \<le> unat b" "unat b \<le> 3600" by (simp_all add: word_le_nat_alt)
  then have "unat (b * 1000) = unat b * 1000" by (simp add: unat_word_ariths)
  then show ?thesis using u by (simp add: waits_def)
qed

lemma backoff_waits: "backoff_ok b \<Longrightarrow> waits (PassWait (b * 1000)) (unat b)"
  by (rule waits_seconds) (auto simp: backoff_ok_def)

lemma unat_next_backoff: "backoff_ok b \<Longrightarrow> unat (next_backoff b) = min (2 * unat b) 960"
  by (auto simp: backoff_ok_def next_backoff_def)

definition pass_ok :: "pass_input \<Rightarrow> bool" where
  "pass_ok i \<longleftrightarrow> length (o_message (p_open i)) = 256 \<and> length (s256_buffer (o_hash (p_open i))) = 64 \<and>
     list_all bodies_ok (o_rounds (p_open i))"

text \<open>What the server says to a check-in, and the reply that offers a session.\<close>

definition said :: "poll_input \<Rightarrow> bytes list \<Rightarrow> bool" where
  "said i words \<longleftrightarrow>
     (\<exists>r w. poll_reply i = Some r \<and> v9x_remote_value r (asc ''poll'') (asc ''status'') 32 = (True, w) \<and> w \<in> set words)"

definition offers_session :: "poll_input \<Rightarrow> bool" where
  "offers_session i \<longleftrightarrow>
     said i [asc ''ok''] \<and> (\<exists>r name. poll_reply i = Some r \<and> name \<noteq> [] \<and> poll_session r = (name, asc ''pending''))"

text \<open>How a pass may end. It goes round again without a wait only when the server was reached and has
  just rejected the machine or offered a session; a wait is the backoff after a failure, which then
  doubles, and what the server asked for after a check-in.\<close>

definition ends_well :: "remote \<Rightarrow> u32 \<Rightarrow> pass_input \<Rightarrow> remote \<Rightarrow> u32 \<Rightarrow> pass_end \<Rightarrow> bool" where
  "ends_well m b i m' b' x \<longleftrightarrow>
     (case x of
        PassAgain \<Rightarrow>
          \<not> m_stop m \<and>
          (said (p_poll i) [asc ''unknown_machine'', asc ''bad_secret''] \<and> m_machine m' = [] \<or> offers_session (p_poll i))
      | PassSession \<Rightarrow> \<not> m_stop m \<and> offers_session (p_poll i)
      | PassStopped \<Rightarrow>
          m_status m' = V9X_REMOTE_STOPPED \<and> (m_stop m \<or> said (p_poll i) [asc ''retired''])
      | PassWait _ \<Rightarrow>
          \<not> m_stop m \<and>
          (m_status m' = V9X_REMOTE_UNREACHABLE \<and>
             (\<exists>s. (s = unat b \<or> s = 30 \<and> (m_machine m = [] \<or> m_secret m = [])) \<and> waits x s \<and>
                unat b' = min (2 * s) 960) \<or>
           m_status m' = V9X_REMOTE_ONLINE \<and> said (p_poll i) [asc ''ok''] \<and> \<not> offers_session (p_poll i) \<and> b' = 30 \<and>
             (\<exists>r. poll_reply (p_poll i) = Some r \<and> waits x (unat (poll_next r)))))"

lemma poll_answer_said:
  assumes "poll_answer m i sent r = Some (m', ok)" "poll_reply i = Some r"
  shows "ok \<longrightarrow> said i [asc ''ok''] \<and> m_next_poll m' = poll_next r \<and>
      poll_session r = (m_session_id m', m_session_state m') \<and> m_status m' = V9X_REMOTE_ONLINE"
    "m_stop m' \<longrightarrow> m_stop m \<or> said i [asc ''retired'']"
    "\<not> ok \<and> m_machine m' = [] \<longrightarrow> m_machine m = [] \<or> said i [asc ''unknown_machine'', asc ''bad_secret'']"
  using assms
  by (auto simp: poll_answer_def said_def poll_accept_def v9x_remote_forget_def Let_def bind_eq_Some_conv
      simp del: asc_Cons split: prod.splits if_splits)

lemma v9x_remote_poll_said:
  assumes "v9x_remote_poll m i open_session = Some (m', ok)"
  shows "ok \<Longrightarrow> \<exists>r. poll_reply i = Some r \<and> said i [asc ''ok''] \<and> m_next_poll m' = poll_next r \<and>
      poll_session r = (m_session_id m', m_session_state m') \<and> m_status m' = V9X_REMOTE_ONLINE"
    and "m_stop m' \<Longrightarrow> m_stop m \<or> said i [asc ''retired'']"
    and "\<not> ok \<Longrightarrow> m_machine m' = [] \<Longrightarrow> m_machine m = [] \<or> said i [asc ''unknown_machine'', asc ''bad_secret'']"
proof -
  obtain m1 reply where call: "v9x_remote_call m (asc ''POST'') (asc ''poll'') None
      (poll_body m i (case_option [] id open_session)) (poll_reply i) = (m1, reply)" by force
  note f = v9x_remote_call_fields [OF call]
  obtain c where c: "chat_typed (m_chat m1) (poll_clock i) (poll_typed i) = Some c"
    and rest: "(case reply of None \<Rightarrow> Some (m1\<lparr>m_chat := c\<rparr>, False)
      | Some r \<Rightarrow> poll_answer (m1\<lparr>m_chat := c\<rparr>) i (length (chat_outgoing (m_chat m))) r) = Some (m', ok)"
    using assms unfolding v9x_remote_poll_def Let_def call prod.case by (auto simp: bind_eq_Some_conv)
  have got: "poll_reply i = Some r" if "reply = Some r" for r using f(10) that by simp
  note said = poll_answer_said [of "m1\<lparr>m_chat := c\<rparr>" i _ _ m' ok, OF _ got]
  show "ok \<Longrightarrow> \<exists>r. poll_reply i = Some r \<and> said i [asc ''ok''] \<and> m_next_poll m' = poll_next r \<and>
      poll_session r = (m_session_id m', m_session_state m') \<and> m_status m' = V9X_REMOTE_ONLINE"
    using rest said(1) got by (cases reply) (simp_all del: asc_Cons)
  show "m_stop m' \<Longrightarrow> m_stop m \<or> said i [asc ''retired'']"
    using rest said(2) f(5) by (cases reply) (auto simp del: asc_Cons)
  show "\<not> ok \<Longrightarrow> m_machine m' = [] \<Longrightarrow> m_machine m = [] \<or> said i [asc ''unknown_machine'', asc ''bad_secret'']"
    using rest said(3) f(2) by (cases reply) (auto simp del: asc_Cons)
qed

lemma ends_well_failed:
  assumes "backoff_ok b" "\<not> m_stop m" "b = b0 \<or> b = 30 \<and> (m_machine m = [] \<or> m_secret m = [])"
    and "m_status m' = V9X_REMOTE_UNREACHABLE"
  shows "ends_well m b0 i m' (next_backoff b) (PassWait (b * 1000))"
proof -
  have "unat b = unat b0 \<or> unat b = 30 \<and> (m_machine m = [] \<or> m_secret m = [])" using assms(3) by auto
  then show ?thesis
    using assms(2,4) backoff_waits [OF assms(1)] unat_next_backoff [OF assms(1)] by (auto simp: ends_well_def)
qed

text \<open>A check-in of a worker that has a machine.\<close>

lemma pass_checked_in_ok:
  assumes "remote_ok m" "backoff_ok b" "pass_ok i" "m_machine m \<noteq> []" "\<not> m_stop m"
  shows "\<exists>m' b' x. pass_checked_in m b i = Some (m', b', x) \<and> remote_ok m' \<and> backoff_ok b' \<and>
    (\<forall>m0 b0. \<not> m_stop m0 \<and> (b = b0 \<or> b = 30 \<and> (m_machine m0 = [] \<or> m_secret m0 = [])) \<longrightarrow> ends_well m0 b0 i m' b' x)"
proof -
  obtain m1 ok where poll: "v9x_remote_poll m (p_poll i) None = Some (m1, ok)" "remote_ok m1"
    using v9x_remote_poll_ok [OF assms(1)] by blast
  obtain m2 sp ended where session: "v9x_remote_session m1 (m_session_id m1) (p_open i) = Some (m2, sp, ended)"
    "remote_ok m2"
    using v9x_remote_session_signed [OF poll(2), of "p_open i" "m_session_id m1"] assms(3) unfolding pass_ok_def by blast
  note said = v9x_remote_poll_said [OF poll(1)]
  have st: "remote_ok (m1\<lparr>m_status := st\<rparr>)" for st using poll(2) by (simp add: remote_ok_def)
  note eq = pass_checked_in_def [of m b i] poll(1) session(1) Option.bind.bind_lunit prod.case
  show ?thesis
  proof (cases ok)
    case False
    show ?thesis
      unfolding eq using False said(2,3) assms(4,5) st poll(2) next_backoff_ok [OF assms(2)] ends_well_failed [OF assms(2)]
        assms(2) by (auto simp: ends_well_def [of _ _ _ _ _ PassStopped] ends_well_def [of _ _ _ _ _ PassAgain] simp del: asc_Cons)
  next
    case True
    obtain r where r: "poll_reply (p_poll i) = Some r" "said (p_poll i) [asc ''ok'']" "m_next_poll m1 = poll_next r"
      "poll_session r = (m_session_id m1, m_session_state m1)" "m_status m1 = V9X_REMOTE_ONLINE"
      using said(1) [OF True] by blast
    have offer: "offers_session (p_poll i) \<longleftrightarrow> m_session_id m1 \<noteq> [] \<and> m_session_state m1 = asc ''pending''"
      using r by (simp add: offers_session_def del: asc_Cons)
    have idle: "waits (PassWait (m_next_poll m1 * 1000)) (unat (poll_next r))"
      using poll_next_bounds [of r] unfolding r(3) by (intro waits_seconds) simp_all
    have "backoff_ok 30" by (simp add: backoff_ok_def)
    then show ?thesis
      unfolding eq using True session(2) poll(2) r(1,2,5) idle offer by (auto simp: ends_well_def simp del: asc_Cons)
  qed
qed

lemma machine_not_empty: "\<not> v9x_relay_machine_valid (Some [])"
  by (simp add: v9x_relay_machine_valid_def V9X_RELAY_MACHINE_LENGTH_def numeral_eq_Suc)

lemma register_fields:
  assumes "v9x_remote_register m os computer reply = (m', ok)"
  shows "m_chat m' = m_chat m" "m_next_poll m' = m_next_poll m" "m_stop m' = m_stop m"
    "ok \<Longrightarrow> m_machine m' \<noteq> []" "reply = None \<Longrightarrow> \<not> ok"
proof -
  obtain m2 answer where call: "v9x_remote_call (m\<lparr>m_machine := [], m_secret := []\<rparr>) (asc ''POST'') (asc ''register'') None
      (register_body m os computer) reply = (m2, answer)"
    by force
  note f = v9x_remote_call_fields [OF call]
  show "m_chat m' = m_chat m" "m_next_poll m' = m_next_poll m" "m_stop m' = m_stop m"
    "ok \<Longrightarrow> m_machine m' \<noteq> []" "reply = None \<Longrightarrow> \<not> ok"
    using assms call f by (auto simp: v9x_remote_register_def Let_def machine_not_empty v9x_rt_copy_def
        simp del: asc_Cons split: option.splits prod.splits if_splits)
qed

lemma v9x_remote_thread_ok:
  assumes "remote_ok m" "backoff_ok b" "pass_ok i"
  shows "\<exists>m' b' x. v9x_remote_thread m b i = Some (m', b', x) \<and> remote_ok m' \<and> backoff_ok b' \<and> ends_well m b i m' b' x"
proof -
  obtain m1 ok where reg: "v9x_remote_register (m\<lparr>m_status := V9X_REMOTE_CONNECTING\<rparr>) (p_os i) (p_computer i) (p_register i) = (m1, ok)"
    by force
  note f = register_fields [OF reg]
  have m1: "remote_ok m1" "remote_ok (m1\<lparr>m_status := st\<rparr>)" "remote_ok (m\<lparr>m_status := st\<rparr>)" for st
    using assms(1) f(1,2) by (simp_all add: remote_ok_def)
  have b30: "backoff_ok 30" by (simp add: backoff_ok_def)
  note eq = v9x_remote_thread_def [of m b i] reg prod.case
  consider "m_stop m" | "\<not> m_stop m" "m_machine m = [] \<or> m_secret m = []" "\<not> ok"
    | "\<not> m_stop m" "m_machine m = [] \<or> m_secret m = []" ok | "\<not> m_stop m" "m_machine m \<noteq> []" "m_secret m \<noteq> []"
    by blast
  then show ?thesis
  proof cases
    case 1
    then show ?thesis unfolding eq using assms(2) m1(3) by (auto simp: ends_well_def)
  next
    case 2
    then show ?thesis unfolding eq
      using m1(2) next_backoff_ok [OF assms(2)] ends_well_failed [OF assms(2)] by simp
  next
    case 3
    then show ?thesis unfolding eq using pass_checked_in_ok [OF m1(1) b30 assms(3)] f(3,4) by auto
  next
    case 4
    then show ?thesis unfolding eq using pass_checked_in_ok [OF assms] by auto
  qed
qed

text \<open>Passes in a row, and what they look like while the network is down.\<close>

fun worker_passes :: "remote \<Rightarrow> u32 \<Rightarrow> pass_input list \<Rightarrow> (remote \<times> u32 \<times> pass_end list) option" where
  "worker_passes m b [] = Some (m, b, [])"
| "worker_passes m b (i # is) = do {
     (m, b, x) \<leftarrow> v9x_remote_thread m b i;
     if x = PassStopped \<or> x = PassSession then Some (m, b, [x])
     else do { (m, b, xs) \<leftarrow> worker_passes m b is; Some (m, b, x # xs) } }"

definition network_down :: "pass_input \<Rightarrow> bool" where
  "network_down i \<longleftrightarrow> p_register i = None \<and> poll_reply (p_poll i) = None"

lemma poll_down:
  assumes "remote_ok m" "poll_reply i = None"
  shows "\<exists>m'. v9x_remote_poll m i open_session = Some (m', False) \<and> remote_ok m' \<and>
    m_machine m' = m_machine m \<and> m_stop m' = m_stop m"
proof -
  obtain m1 reply where call: "v9x_remote_call m (asc ''POST'') (asc ''poll'') None
      (poll_body m i (case_option [] id open_session)) (poll_reply i) = (m1, reply)" by force
  note f = v9x_remote_call_fields [OF call]
  obtain c where c: "chat_typed (m_chat m1) (poll_clock i) (poll_typed i) = Some c" "chat_ok c"
    using chat_typed_ok assms(1) f(1) unfolding remote_ok_def by metis
  have "reply = None" using f(10) assms(2) by auto
  then show ?thesis
    unfolding v9x_remote_poll_def Let_def call prod.case c(1) Option.bind.bind_lunit
    using assms(1) c(2) f by (simp add: remote_ok_def)
qed

lemma pass_down:
  assumes "remote_ok m" "\<not> m_stop m" "network_down i"
  shows "\<exists>m'. v9x_remote_thread m b i = Some (m', next_backoff b, PassWait (b * 1000)) \<and> remote_ok m' \<and> \<not> m_stop m'"
proof (cases "m_machine m = [] \<or> m_secret m = []")
  case True
  obtain m1 ok where reg: "v9x_remote_register (m\<lparr>m_status := V9X_REMOTE_CONNECTING\<rparr>) (p_os i) (p_computer i) (p_register i) = (m1, ok)"
    by force
  note f = register_fields [OF reg]
  show ?thesis unfolding v9x_remote_thread_def reg prod.case
    using True assms f(1-3,5) by (simp add: network_down_def remote_ok_def)
next
  case False
  obtain m1 where "v9x_remote_poll m (p_poll i) None = Some (m1, False)" "remote_ok m1"
    "m_machine m1 = m_machine m" "m_stop m1 = m_stop m"
    using poll_down [OF assms(1)] assms(3) unfolding network_down_def by blast
  then show ?thesis using False assms(2)
    by (simp add: v9x_remote_thread_def pass_checked_in_def remote_ok_def)
qed

lemma unat_backoff_power:
  assumes "backoff_ok b"
  shows "PassWait (b * 1000) = PassWait (of_nat (1000 * min (unat b) 960))"
  using assms by (auto simp: backoff_ok_def)

lemma min_double: "min (min (2 * n) c * 2 ^ k) c = min (n * 2 ^ Suc k) c" for n c :: nat
proof (cases "2 * n \<le> c")
  case False
  have "c \<le> c * 2 ^ k" by simp
  moreover have "c * 2 ^ k \<le> 2 * n * 2 ^ k" using False by (intro mult_le_mono1) simp
  ultimately have "c \<le> 2 * n * 2 ^ k" by (rule order_trans)
  moreover have "2 * n * 2 ^ k = n * 2 ^ Suc k" by simp
  ultimately have "min (n * 2 ^ Suc k) c = c" by (metis min_absorb2)
  moreover have "min (2 * n) c = c" "min (c * 2 ^ k) c = c" using False \<open>c \<le> c * 2 ^ k\<close> by (simp_all only: min_absorb2)
  ultimately show ?thesis by (simp only:)
qed (simp add: min_def ac_simps)

lemma passes_down:
  assumes "remote_ok m" "\<not> m_stop m" "backoff_ok b" "list_all network_down is"
  shows "\<exists>m' b'. worker_passes m b is =
    Some (m', b', map (\<lambda>k. PassWait (of_nat (1000 * min (unat b * 2 ^ k) 960))) [0..<length is])"
  using assms
proof (induction "is" arbitrary: m b)
  case (Cons i "is")
  obtain m1 where m1: "v9x_remote_thread m b i = Some (m1, next_backoff b, PassWait (b * 1000))" "remote_ok m1" "\<not> m_stop m1"
    using pass_down [OF Cons.prems(1,2)] Cons.prems(4) by auto
  obtain m2 b2 where m2: "worker_passes m1 (next_backoff b) is = Some (m2, b2,
      map (\<lambda>k. PassWait (of_nat (1000 * min (unat (next_backoff b) * 2 ^ k) 960))) [0..<length is])"
    using Cons.IH [OF m1(2,3) next_backoff_ok [OF Cons.prems(3)]] Cons.prems(4) unfolding list.pred_inject by blast
  note step = unat_next_backoff [OF Cons.prems(3)] min_double
  show ?case
    using m1(1) m2 unat_backoff_power [OF Cons.prems(3)]
    by (simp add: step upt_conv_Cons map_Suc_upt [symmetric] comp_def del: upt_Suc power_Suc)
qed simp

text \<open>C25. The worker loop: every pass of the loop returns, keeps the chat inside its buffers and the next
  check-in within an hour, and goes round again without a wait only when the server, in this very pass,
  has answered the check-in and rejected the machine or offered a session. It stops only when told to;
  and after any other answer, and after none, it waits: the backoff of 30 to 960 seconds after a failure,
  which then doubles, and the 1 to 3600 seconds the server asked for after a check-in. While the network
  is down the waits of the passes are the backoff doubled from pass to pass, up to 960 seconds.\<close>

theorem remote_worker_bounds:
  assumes "remote_ok m" "backoff_ok b" "pass_ok i"
  shows "(\<exists>m' b' x. v9x_remote_thread m b i = Some (m', b', x) \<and> remote_ok m' \<and> backoff_ok b' \<and>
      ends_well m b i m' b' x) \<and>
    (\<not> m_stop m \<and> list_all network_down is \<longrightarrow>
      (\<exists>m' b'. worker_passes m b is =
        Some (m', b', map (\<lambda>k. PassWait (of_nat (1000 * min (unat b * 2 ^ k) 960))) [0..<length is])))"
  using v9x_remote_thread_ok [OF assms] passes_down [OF assms(1) _ assms(2)] by blast

definition sample_pass :: pass_input where
  "sample_pass = \<lparr>p_os = [], p_computer = [], p_register = None, p_poll = sample_poll, p_open = sample_opening\<rparr>"

theorem remote_worker_bounds_witness:
  "(\<exists>m' b' x. v9x_remote_thread sample_remote 480 sample_pass = Some (m', b', x) \<and> remote_ok m' \<and> backoff_ok b' \<and>
      ends_well sample_remote 480 sample_pass m' b' x) \<and>
   (\<exists>m' b'. worker_passes sample_remote 480 [sample_pass, sample_pass, sample_pass] =
      Some (m', b', [PassWait 480000, PassWait 960000, PassWait 960000]))"
proof -
  have "remote_ok sample_remote" by (simp add: sample_remote_def remote_ok_def chat_ok_def chat_consts)
  moreover have "backoff_ok 480" by (simp add: backoff_ok_def)
  moreover have "pass_ok sample_pass"
    by (simp add: pass_ok_def sample_pass_def sample_opening_def sample_hash_def sample_round_def bodies_ok_def
        sample_batch_def relay_bytes_def V9X_RELAY_DOWN_MAGIC_def)
  moreover have "\<not> m_stop sample_remote" by (simp add: sample_remote_def)
  moreover have "list_all network_down [sample_pass, sample_pass, sample_pass]"
    by (simp add: network_down_def sample_pass_def sample_poll_def)
  ultimately show ?thesis
    using remote_worker_bounds [of sample_remote 480 sample_pass "[sample_pass, sample_pass, sample_pass]"]
    by (simp add: upt_conv_Cons)
qed

subsection \<open>Chat as a state machine\<close>

text \<open>The operations that touch the chat: the worker appends a line, the owner sends one, a check-in has
  delivered the first ones.\<close>

inductive chat_reachable :: "chat \<Rightarrow> bool" where
  empty: "chat_reachable \<lparr>chat_log = [], chat_outgoing = []\<rparr>"
| append: "chat_reachable c \<Longrightarrow> v9x_chat_append c clock who s = Some c' \<Longrightarrow> chat_reachable c'"
| send: "chat_reachable c \<Longrightarrow> v9x_chat_send c clock s = Some c' \<Longrightarrow> chat_reachable c'"
| delivered: "chat_reachable c \<Longrightarrow> chat_reachable (c\<lparr>chat_outgoing := drop n (chat_outgoing c)\<rparr>)"

lemma chat_reachable_ok: "chat_reachable c \<Longrightarrow> chat_ok c"
proof (induction rule: chat_reachable.induct)
  case (append c clock who s c')
  then show ?case using v9x_chat_append_ok [of c clock who s] by auto
next
  case (send c clock s c')
  then show ?case using v9x_chat_send_ok [of c clock s] by auto
qed (auto simp: chat_ok_def chat_consts list_all_iff dest: in_set_dropD)

text \<open>C31. The chat: in every reachable state the log and its terminator fit their buffer and the queue
  its slots, and an append always makes room: it drops whole prefixes only as far as needed and the
  log ends with the complete new line.\<close>

theorem chat_append_fits:
  assumes "chat_reachable c"
  shows "chat_ok c \<and> (\<exists>k. v9x_chat_append c clock who s =
      Some (c\<lparr>chat_log := drop k (chat_log c) @ chat_line clock who s\<rparr>) \<and>
    length (drop k (chat_log c) @ chat_line clock who s) < V9X_CHAT_LOG_SIZE \<and>
    (length (chat_log c) + length (chat_line clock who s) < V9X_CHAT_LOG_SIZE \<longrightarrow> k = 0))"
  using chat_reachable_ok [OF assms] v9x_chat_append_eq by blast

theorem chat_append_fits_witness:
  "chat_ok \<lparr>chat_log = [], chat_outgoing = []\<rparr> \<and> (\<exists>k. v9x_chat_append \<lparr>chat_log = [], chat_outgoing = []\<rparr> (chat_clock 23 59) (asc ''You'') (asc ''hi'') =
      Some (\<lparr>chat_log = [], chat_outgoing = []\<rparr>\<lparr>chat_log := drop k [] @ chat_line (chat_clock 23 59) (asc ''You'') (asc ''hi'')\<rparr>) \<and>
    length (drop k [] @ chat_line (chat_clock 23 59) (asc ''You'') (asc ''hi'')) < V9X_CHAT_LOG_SIZE \<and>
    (length ([] :: bytes) + length (chat_line (chat_clock 23 59) (asc ''You'') (asc ''hi'')) < V9X_CHAT_LOG_SIZE \<longrightarrow> k = 0))"
  using chat_append_fits [OF chat_reachable.empty, of "chat_clock 23 59" "asc ''You''" "asc ''hi''"]
  by (simp only: chat.select_convs)

subsection \<open>Chat text on the wire\<close>

definition rt_plain :: "u8 \<Rightarrow> bool" where
  "rt_plain c \<longleftrightarrow> c \<ge> 0x20 \<or> c = 0x0D \<or> c = 0x0A \<or> c = 0x09"

lemma rt_keep_eq: "rt_keep c rest = (if rt_plain c then c # rest else rest)"
  by (auto simp: rt_keep_def rt_plain_def not_less)

lemma v9x_rt_hex_nibble: "n < 16 \<Longrightarrow> v9x_rt_hex (update_hex ! n) = Some (of_nat n)"
proof -
  have "list_all (\<lambda>n. v9x_rt_hex (update_hex ! n) = Some (of_nat n)) [0..<16]" by code_simp
  then show "n < 16 \<Longrightarrow> ?thesis" by (simp add: list_all_iff)
qed

lemma v9x_rt_decode_percent: "v9x_rt_decode (percent s) = filter rt_plain s"
proof (induction s)
  case Nil
  then show ?case by (simp add: percent_def)
next
  case (Cons c s)
  have eq: "percent (c # s) = percent_byte c @ percent s" by (simp add: percent_def)
  show ?case
  proof (cases "url_unreserved c")
    case True
    then have "c \<noteq> 0x25" by (auto simp: url_unreserved_def update_is_alpha_def v9x_update_is_digit_def)
    then show ?thesis using Cons True by (simp add: eq percent_byte_def rt_escape_def rt_keep_eq)
  next
    case False
    have p: "percent (c # s) = 0x25 # update_hex ! unat (drop_bit 4 c) # update_hex ! unat (c AND 0x0F) # percent s"
      using False by (simp add: eq percent_byte_def)
    have "rt_escape 0x25 (update_hex ! unat (drop_bit 4 c) # update_hex ! unat (c AND 0x0F) # percent s) = Some c"
      unfolding rt_escape_def using v9x_rt_hex_nibble nibble_less [of c] nibbles_join [of c] by simp
    then show ?thesis using Cons unfolding p by (simp add: rt_keep_eq)
  qed
qed

text \<open>C39. Chat text survives the wire: what the percent encoder of the update protocol makes of a line,
  the decoder of the chat gives back, less the control characters other than CR, LF and TAB.\<close>

theorem chat_decode_encoded:
  "v9x_rt_decode (rt_encoded s) = (if length (percent s) < V9X_CHAT_LINE * 3 + 4 then filter rt_plain s else [])"
  using encode_from_eq [of "[]" "V9X_CHAT_LINE * 3 + 4" s]
  by (simp add: rt_encoded_def v9x_update_url_encode_def v9x_rt_decode_percent V9X_CHAT_LINE_def)

end
