(* ===== verification/Loops.thy ===== *)
theory Loops
  imports Outcome
begin

section \<open>Counted loops and block writes\<close>

text \<open>
  \<open>for_up i n f s\<close> is the loop \<^verbatim>\<open>for (j = i; j < i + n; ++j)\<close> whose body \<open>f j\<close> changes the
  state \<open>s\<close> and is \<open>None\<close> on an access outside a buffer; \<open>for_out\<close> is the same loop with a body
  that may also return from the function (\<open>Inl\<close>). \<open>splice xs i ys\<close> is the buffer \<open>xs\<close> after the
  block \<open>ys\<close> has been written at \<open>i\<close>: the lemmas below turn loops of writes into one splice, and
  the collection \<open>splice_simps\<close> reads through splices.
\<close>

named_theorems splice_simps \<open>reading a buffer after a block write\<close>

primrec for_up :: "nat \<Rightarrow> nat \<Rightarrow> (nat \<Rightarrow> 's \<Rightarrow> 's option) \<Rightarrow> 's \<Rightarrow> 's option" where
  "for_up i 0 f s = Some s"
| "for_up i (Suc n) f s = do { s' \<leftarrow> f i s; for_up (Suc i) n f s' }"

primrec for_out :: "nat \<Rightarrow> nat \<Rightarrow> (nat \<Rightarrow> 's \<Rightarrow> ('s, 'e, unit) outcome) \<Rightarrow> 's \<Rightarrow> ('s, 'e, unit) outcome" where
  "for_out i 0 f s = Some (s, Inr ())"
| "for_out i (Suc n) f s = andthen (f i s) (\<lambda>_ s'. for_out (Suc i) n f s')"

text \<open>A search loop that stops at the first hit.\<close>

primrec any_up :: "nat \<Rightarrow> nat \<Rightarrow> (nat \<Rightarrow> bool option) \<Rightarrow> bool option" where
  "any_up i 0 f = Some False"
| "any_up i (Suc n) f = do { b \<leftarrow> f i; if b then Some True else any_up (Suc i) n f }"

definition splice :: "'a list \<Rightarrow> nat \<Rightarrow> 'a list \<Rightarrow> 'a list" where
  "splice xs i ys = take i xs @ ys @ drop (i + length ys) xs"

subsection \<open>Invariant rules\<close>

lemma for_up_rule:
  assumes "P i s" and "\<And>j t. i \<le> j \<Longrightarrow> j < i + n \<Longrightarrow> P j t \<Longrightarrow> \<exists>t'. f j t = Some t' \<and> P (Suc j) t'"
  shows "\<exists>t. for_up i n f s = Some t \<and> P (i + n) t"
  using assms
proof (induction n arbitrary: i s)
  case (Suc n)
  obtain s' where s': "f i s = Some s'" "P (Suc i) s'" using Suc.prems(2) [of i s] Suc.prems(1) by auto
  have "\<exists>t. for_up (Suc i) n f s' = Some t \<and> P (Suc i + n) t"
    by (rule Suc.IH [OF s'(2)]) (use Suc.prems(2) in auto)
  then show ?case using s'(1) by simp
qed simp

lemma for_up_cong:
  assumes "\<And>j t. i \<le> j \<Longrightarrow> j < i + n \<Longrightarrow> f j t = g j t"
  shows "for_up i n f s = for_up i n g s"
  using assms
proof (induction n arbitrary: i s)
  case (Suc n)
  have "for_up (Suc i) n f t = for_up (Suc i) n g t" for t
    by (rule Suc.IH) (use Suc.prems in auto)
  then show ?case using Suc.prems [of i s] by simp
qed simp

lemma for_up_total:
  assumes "\<And>j t. i \<le> j \<Longrightarrow> j < i + n \<Longrightarrow> P t \<Longrightarrow> f j t = Some (g j t) \<and> P (g j t)" "P s"
  shows "for_up i n f s = Some (fold g [i..<i + n] s) \<and> P (fold g [i..<i + n] s)"
  using assms
proof (induction n arbitrary: i s)
  case (Suc n)
  have "for_up (Suc i) n f (g i s) = Some (fold g [Suc i..<Suc i + n] (g i s)) \<and> P (fold g [Suc i..<Suc i + n] (g i s))"
    by (rule Suc.IH) (use Suc.prems in auto)
  moreover have "[i..<i + Suc n] = i # [Suc i..<Suc i + n]" by (simp add: upt_conv_Cons)
  moreover have "f i s = Some (g i s)" using Suc.prems by simp
  ultimately show ?case by simp
qed simp

lemma for_out_rule:
  assumes "P i s"
    and "\<And>j t. i \<le> j \<Longrightarrow> j < i + n \<Longrightarrow> P j t \<Longrightarrow> outcome (f j t) E (\<lambda>_ t'. P (Suc j) t')"
  shows "outcome (for_out i n f s) E (\<lambda>_ t. P (i + n) t)"
  using assms
proof (induction n arbitrary: i s)
  case (Suc n)
  have "outcome (f i s) E (\<lambda>_ t'. P (Suc i) t')" using Suc.prems by simp
  moreover have "outcome (for_out (Suc i) n f t) E (\<lambda>_ t. P (i + Suc n) t)" if "P (Suc i) t" for t
    using Suc.IH [OF that] Suc.prems(2) by simp
  ultimately show ?case by (auto intro: outcome_andthen)
qed simp

lemma any_up_eq:
  assumes "\<And>j. i \<le> j \<Longrightarrow> j < i + n \<Longrightarrow> f j = Some (g j)"
  shows "any_up i n f = Some (\<exists>j. i \<le> j \<and> j < i + n \<and> g j)"
  using assms
proof (induction n arbitrary: i)
  case (Suc n)
  have "any_up (Suc i) n f = Some (\<exists>j. Suc i \<le> j \<and> j < Suc i + n \<and> g j)"
    by (rule Suc.IH) (use Suc.prems in auto)
  moreover have "(\<exists>j. i \<le> j \<and> j < i + Suc n \<and> g j) \<longleftrightarrow> g i \<or> (\<exists>j. Suc i \<le> j \<and> j < Suc i + n \<and> g j)"
  proof
    assume "\<exists>j. i \<le> j \<and> j < i + Suc n \<and> g j"
    then obtain j where "i \<le> j" "j < i + Suc n" "g j" by blast
    then show "g i \<or> (\<exists>j. Suc i \<le> j \<and> j < Suc i + n \<and> g j)" by (cases "j = i") auto
  qed (auto intro: Suc_leD)
  ultimately show ?case using Suc.prems by simp
qed simp

lemma those_map: "(\<And>x. x \<in> set xs \<Longrightarrow> f x = Some (g x)) \<Longrightarrow> those (map f xs) = Some (map g xs)"
  by (induction xs) simp_all

lemma nth_concat_const:
  assumes "\<And>j. j \<in> set js \<Longrightarrow> length (g j) = c" "y < length js" "k < c"
  shows "concat (map g js) ! (y * c + k) = g (js ! y) ! k"
  using assms
proof (induction js arbitrary: y)
  case (Cons j js)
  show ?case
  proof (cases y)
    case 0
    then show ?thesis using Cons.prems by (simp add: nth_append)
  next
    case (Suc y')
    then have "concat (map g js) ! (y' * c + k) = g (js ! y') ! k" using Cons.IH [of y'] Cons.prems by simp
    then show ?thesis using Suc Cons.prems(1) by (simp add: nth_append add.assoc)
  qed
qed simp

subsection \<open>Block writes\<close>

lemma length_splice [simp]: "i + length ys \<le> length xs \<Longrightarrow> length (splice xs i ys) = length xs"
  by (simp add: splice_def)

lemma nth_splice:
  "i + length ys \<le> length xs \<Longrightarrow> k < length xs \<Longrightarrow>
   splice xs i ys ! k = (if i \<le> k \<and> k < i + length ys then ys ! (k - i) else xs ! k)"
  by (auto simp: splice_def nth_append min_def)

lemma splice_Nil [simp]: "splice xs i [] = xs"
  by (simp add: splice_def)

lemma wrs_splice: "i + length ys \<le> length xs \<Longrightarrow> wrs xs i ys = Some (splice xs i ys)"
  by (simp add: wrs_Some splice_def)

lemma wr_splice: "i < length xs \<Longrightarrow> wr xs i y = Some (splice xs i [y])"
  by (simp add: wr_def splice_def upd_conv_take_nth_drop)

lemma splice_append:
  "i + length ys + length zs \<le> length xs \<Longrightarrow> splice (splice xs i ys) (i + length ys) zs = splice xs i (ys @ zs)"
  by (rule nth_equalityI) (auto simp: nth_splice nth_append)

lemma splice_prepend:
  "i + length ys + length zs \<le> length xs \<Longrightarrow> splice (splice xs (i + length ys) zs) i ys = splice xs i (ys @ zs)"
  by (rule nth_equalityI) (auto simp: nth_splice nth_append)

lemma splice_all: "length ys = length xs \<Longrightarrow> splice xs 0 ys = ys"
  by (simp add: splice_def)

lemma take_splice_before [splice_simps]:
  "m \<le> i \<Longrightarrow> i + length ys \<le> length xs \<Longrightarrow> take m (splice xs i ys) = take m xs"
  by (simp add: splice_def min_def)

lemma take_drop_splice_before:
  "a + m \<le> i \<Longrightarrow> i + length ys \<le> length xs \<Longrightarrow> take m (drop a (splice xs i ys)) = take m (drop a xs)"
  by (rule nth_equalityI) (auto simp: nth_splice split: if_splits)

lemma take_drop_splice_after:
  "i + length ys \<le> a \<Longrightarrow> i + length ys \<le> length xs \<Longrightarrow> take m (drop a (splice xs i ys)) = take m (drop a xs)"
  by (rule nth_equalityI) (auto simp: nth_splice)

lemma take_drop_splice:
  "i + length ys \<le> length xs \<Longrightarrow> take (length ys) (drop i (splice xs i ys)) = ys"
  by (simp add: splice_def min_def)

lemma splice_overwrite:
  assumes "i + length ys \<le> length xs" and "length zs = length ys"
  shows "splice (splice xs i ys) i zs = splice xs i zs"
  by (rule nth_equalityI) (use assms in \<open>auto simp: nth_splice\<close>)

lemma length_concat_const:
  "(\<And>j. j \<in> set js \<Longrightarrow> length (g j) = c) \<Longrightarrow> length (concat (map g js)) = length js * c"
  by (induction js) simp_all

text \<open>A loop that writes blocks of one size, upwards or downwards, writes them all at once.\<close>

lemma for_up_splice:
  fixes xs :: "'a list"
  assumes "\<And>j. i \<le> j \<Longrightarrow> j < i + n \<Longrightarrow> length (g j) = c"
    and "\<And>j t. i \<le> j \<Longrightarrow> j < i + n \<Longrightarrow> length t = length xs \<Longrightarrow> f j t = Some (splice t (a + (j - i) * c) (g j))"
    and "a + n * c \<le> length xs"
  shows "for_up i n f xs = Some (splice xs a (concat (map g [i..<i + n])))"
  using assms
proof (induction n arbitrary: i xs a)
  case (Suc n)
  have len: "length (g i) = c" using Suc.prems(1) by simp
  have first: "f i xs = Some (splice xs a (g i))" using Suc.prems(2) [of i xs] by simp
  have room: "a + c + n * c \<le> length xs" using Suc.prems(3) by (simp add: add.assoc)
  have rest: "length (concat (map g [Suc i..<Suc i + n])) = n * c"
    using length_concat_const [of "[Suc i..<Suc i + n]" g c] Suc.prems(1) by (simp del: upt_Suc)
  have "for_up (Suc i) n f (splice xs a (g i)) =
      Some (splice (splice xs a (g i)) (a + c) (concat (map g [Suc i..<Suc i + n])))"
  proof (rule Suc.IH)
    fix j and t :: "'a list" assume j: "Suc i \<le> j" "j < Suc i + n" "length t = length (splice xs a (g i))"
    have "f j t = Some (splice t (a + (j - i) * c) (g j))"
      by (rule Suc.prems(2)) (use j room len in auto)
    moreover have "a + (j - i) * c = a + c + (j - Suc i) * c"
    proof -
      have "j - i = Suc (j - Suc i)" using j(1) by simp
      then show ?thesis by simp
    qed
    ultimately show "f j t = Some (splice t (a + c + (j - Suc i) * c) (g j))" by simp
  qed (use Suc.prems(1) room len in auto)
  also have "splice (splice xs a (g i)) (a + c) (concat (map g [Suc i..<Suc i + n])) =
      splice xs a (g i @ concat (map g [Suc i..<Suc i + n]))"
    using splice_append [of a "g i" "concat (map g [Suc i..<Suc i + n])" xs] len rest room by simp
  finally show ?case using first upt_conv_Cons [of i "i + Suc n"] by (simp del: upt_Suc)
qed simp

lemma for_up_splice_down:
  fixes xs :: "'a list"
  assumes "\<And>j. i \<le> j \<Longrightarrow> j < i + n \<Longrightarrow> length (g j) = c"
    and "\<And>j t. i \<le> j \<Longrightarrow> j < i + n \<Longrightarrow> length t = length xs \<Longrightarrow>
           f j t = Some (splice t (a + (i + n - 1 - j) * c) (g j))"
    and "a + n * c \<le> length xs"
  shows "for_up i n f xs = Some (splice xs a (concat (map g (rev [i..<i + n]))))"
  using assms
proof (induction n arbitrary: i xs)
  case (Suc n)
  define rest where "rest = concat (map g (rev [Suc i..<Suc i + n]))"
  have len: "length (g i) = c" using Suc.prems(1) by simp
  have first: "f i xs = Some (splice xs (a + n * c) (g i))" using Suc.prems(2) [of i xs] by simp
  have room: "a + n * c + c \<le> length xs" using Suc.prems(3) by (simp add: add.commute add.left_commute)
  have rest: "length rest = n * c"
    unfolding rest_def using length_concat_const [of "rev [Suc i..<Suc i + n]" g c] Suc.prems(1)
    by (simp del: upt_Suc)
  have "for_up (Suc i) n f (splice xs (a + n * c) (g i)) =
      Some (splice (splice xs (a + n * c) (g i)) a rest)"
    unfolding rest_def
  proof (rule Suc.IH)
    fix j and t :: "'a list" assume "Suc i \<le> j" "j < Suc i + n" "length t = length (splice xs (a + n * c) (g i))"
    then show "f j t = Some (splice t (a + (Suc i + n - 1 - j) * c) (g j))"
      using Suc.prems(2) [of j t] room len by simp
  qed (use Suc.prems(1) room len in auto)
  also have "splice (splice xs (a + n * c) (g i)) a rest = splice xs a (rest @ g i)"
    using splice_prepend [of a rest "g i" xs] rest len room by simp
  finally show ?case using first upt_conv_Cons [of i "i + Suc n"] by (simp add: rest_def del: upt_Suc)
qed simp

lemma for_up_fill:
  assumes "\<And>j t. i \<le> j \<Longrightarrow> j < i + n \<Longrightarrow> length t = length xs \<Longrightarrow> f j t = Some (splice t (a + (j - i)) [v])"
    and "a + n \<le> length xs"
  shows "for_up i n f xs = Some (splice xs a (replicate n v))"
proof -
  have "for_up i n f xs = Some (splice xs a (concat (map (\<lambda>_. [v]) [i..<i + n])))"
    by (rule for_up_splice [where c = 1]) (use assms in auto)
  also have "concat (map (\<lambda>_. [v]) [i..<i + n]) = replicate n v"
    by (simp add: map_replicate_const)
  finally show ?thesis .
qed

end
