(* ===== verification/Shotxf.thy ===== *)
theory Shotxf
  imports Loops
begin

section \<open>Screenshot shaping: crop, scale, index and run-length encode\<close>

text \<open>
  Models \<^verbatim>\<open>src/common/shotxf.c\<close>. The source BMP, the output and the work area are three
  buffers; a pointer into one of them is a position in it, and every access goes through \<open>rd\<close>,
  \<open>wr\<close> and their block forms, so that \<open>None\<close> is an access outside a buffer (or, for the probe of
  the colour table, a search that never ends). The arithmetic on sizes, boxes and colour sums is
  on 32-bit words as in the code; the position inside the run-length coded data, which stays
  below its capacity, is a natural number.
\<close>

subsection \<open>Options\<close>

definition V9X_SHOT_COMPACT :: u32 where "V9X_SHOT_COMPACT = 0x00000001"
definition V9X_SHOT_GRAY :: u32 where "V9X_SHOT_GRAY = 0x00000002"
definition V9X_SHOT_KNOWN_FLAGS :: u32 where "V9X_SHOT_KNOWN_FLAGS = V9X_SHOT_COMPACT OR V9X_SHOT_GRAY"
definition V9X_SHOT_OPTIONS_SIZE :: u32 where "V9X_SHOT_OPTIONS_SIZE = 24"
definition V9X_BMP_HEADER :: u32 where "V9X_BMP_HEADER = 54"
definition V9X_PALETTE_BYTES :: u32 where "V9X_PALETTE_BYTES = 1024"
definition V9X_HASH_SLOTS :: u32 where "V9X_HASH_SLOTS = 1024"
definition V9X_WORK_KEYS :: u32 where "V9X_WORK_KEYS = V9X_PALETTE_BYTES"
definition V9X_WORK_VALUES :: u32 where "V9X_WORK_VALUES = V9X_WORK_KEYS + V9X_HASH_SLOTS * 4"
definition V9X_WORK_INDICES :: u32 where "V9X_WORK_INDICES = V9X_WORK_VALUES + V9X_HASH_SLOTS"

datatype shotxf_status = V9X_SHOTXF_OK | V9X_SHOTXF_BAD_SOURCE | V9X_SHOTXF_BAD_OPTIONS | V9X_SHOTXF_NO_ROOM

record shot_options =
  so_flags :: u32
  so_x :: u32
  so_y :: u32
  so_width :: u32
  so_height :: u32
  so_scale_percent :: u32

definition v9x_get32 :: "bytes \<Rightarrow> nat \<Rightarrow> u32 option" where
  "v9x_get32 data at =
     do { b0 \<leftarrow> rd data at; b1 \<leftarrow> rd data (at + 1); b2 \<leftarrow> rd data (at + 2); b3 \<leftarrow> rd data (at + 3);
          Some (u32_of b0 b1 b2 b3) }"

definition v9x_get16 :: "bytes \<Rightarrow> nat \<Rightarrow> u32 option" where
  "v9x_get16 data at =
     do { b0 \<leftarrow> rd data at; b1 \<leftarrow> rd data (at + 1); Some (ucast b0 OR push_bit 8 (ucast b1)) }"

definition v9x_put32 :: "bytes \<Rightarrow> nat \<Rightarrow> u32 \<Rightarrow> bytes option" where
  "v9x_put32 data at v =
     wrs data at [ucast (v AND 0xff), ucast (drop_bit 8 v AND 0xff),
                  ucast (drop_bit 16 v AND 0xff), ucast (drop_bit 24 v AND 0xff)]"

definition v9x_put16 :: "bytes \<Rightarrow> nat \<Rightarrow> u32 \<Rightarrow> bytes option" where
  "v9x_put16 data at v = wrs data at [ucast (v AND 0xff), ucast (drop_bit 8 v AND 0xff)]"

text \<open>The result \<open>Some None\<close> is the return value 0.\<close>

definition v9x_shot_options_decode :: "bytes \<Rightarrow> u32 \<Rightarrow> shot_options option option" where
  "v9x_shot_options_decode data len =
     (if len \<noteq> V9X_SHOT_OPTIONS_SIZE then Some None
      else do {
        flags \<leftarrow> v9x_get32 data 0;
        x \<leftarrow> v9x_get32 data 4;
        y \<leftarrow> v9x_get32 data 8;
        width \<leftarrow> v9x_get32 data 12;
        height \<leftarrow> v9x_get32 data 16;
        scale \<leftarrow> v9x_get32 data 20;
        Some (Some \<lparr>so_flags = flags, so_x = x, so_y = y, so_width = width, so_height = height,
                     so_scale_percent = scale\<rparr>) })"

definition v9x_shot_options_encode :: "shot_options \<Rightarrow> bytes \<Rightarrow> bytes option" where
  "v9x_shot_options_encode options data =
     do {
       data \<leftarrow> v9x_put32 data 0 (so_flags options);
       data \<leftarrow> v9x_put32 data 4 (so_x options);
       data \<leftarrow> v9x_put32 data 8 (so_y options);
       data \<leftarrow> v9x_put32 data 12 (so_width options);
       data \<leftarrow> v9x_put32 data 16 (so_height options);
       v9x_put32 data 20 (so_scale_percent options) }"

definition v9x_shot_options_active :: "shot_options \<Rightarrow> bool" where
  "v9x_shot_options_active options \<longleftrightarrow>
     so_flags options \<noteq> 0 \<or> (so_width options \<noteq> 0 \<and> so_height options \<noteq> 0) \<or>
     (so_scale_percent options \<noteq> 0 \<and> so_scale_percent options \<noteq> 100)"

subsection \<open>Region and output size\<close>

record shot_plan =
  region_x :: u32
  region_y :: u32
  region_width :: u32
  region_height :: u32
  output_width :: u32
  output_height :: u32

definition plan_output :: "u32 \<Rightarrow> u32 \<Rightarrow> u32" where
  "plan_output scale side =
     (let out = (side * scale + 99) div 100 in if out = 0 then 1 else out)"

definition plan_region :: "u32 \<Rightarrow> u32 \<Rightarrow> u32 \<Rightarrow> u32 \<Rightarrow> u32 \<Rightarrow> shot_plan" where
  "plan_region scale x y width height =
     \<lparr>region_x = x, region_y = y, region_width = width, region_height = height,
      output_width = plan_output scale width, output_height = plan_output scale height\<rparr>"

definition v9x_shotxf_plan :: "shot_options \<Rightarrow> u32 \<Rightarrow> u32 \<Rightarrow> shotxf_status + shot_plan" where
  "v9x_shotxf_plan options screen_width screen_height =
     (let scale = (if so_scale_percent options = 0 then 100 else so_scale_percent options) in
      if so_flags options AND NOT V9X_SHOT_KNOWN_FLAGS \<noteq> 0 \<or> scale > 100 \<or>
         screen_width = 0 \<or> screen_height = 0 \<or> screen_width > 4096 \<or> screen_height > 4096
      then Inl V9X_SHOTXF_BAD_OPTIONS
      else if so_width options = 0 \<or> so_height options = 0
      then Inr (plan_region scale 0 0 screen_width screen_height)
      else if so_x options \<ge> screen_width \<or> so_y options \<ge> screen_height
      then Inl V9X_SHOTXF_BAD_OPTIONS
      else
        (let w = screen_width - so_x options;
             h = screen_height - so_y options
         in Inr (plan_region scale (so_x options) (so_y options)
                   (if so_width options < w then so_width options else w)
                   (if so_height options < h then so_height options else h))))"

definition v9x_stride24 :: "u32 \<Rightarrow> u32" where
  "v9x_stride24 width = (width * 3 + 3) AND NOT 3"

definition v9x_stride8 :: "u32 \<Rightarrow> u32" where
  "v9x_stride8 width = (width + 3) AND NOT 3"

definition v9x_shotxf_output_capacity :: "u32 \<Rightarrow> u32 \<Rightarrow> u32" where
  "v9x_shotxf_output_capacity width height =
     V9X_BMP_HEADER + V9X_PALETTE_BYTES + v9x_stride24 width * height"

definition v9x_shotxf_work_capacity :: "u32 \<Rightarrow> u32 \<Rightarrow> u32" where
  "v9x_shotxf_work_capacity width height = V9X_WORK_INDICES + width * height"

subsection \<open>The 24-bit image\<close>

definition v9x_bmp_header :: "bytes \<Rightarrow> u32 \<Rightarrow> u32 \<Rightarrow> u32 \<Rightarrow> u32 \<Rightarrow> u32 \<Rightarrow> u32 \<Rightarrow> bytes option" where
  "v9x_bmp_header out width height bits compression colours image_bytes =
     (let offset = V9X_BMP_HEADER + colours * 4 in
      do {
        out \<leftarrow> for_up 0 (unat V9X_BMP_HEADER) (\<lambda>i out. wr out i 0) out;
        out \<leftarrow> wr out 0 0x42;
        out \<leftarrow> wr out 1 0x4D;
        out \<leftarrow> v9x_put32 out 2 (offset + image_bytes);
        out \<leftarrow> v9x_put32 out 10 offset;
        out \<leftarrow> v9x_put32 out 14 40;
        out \<leftarrow> v9x_put32 out 18 width;
        out \<leftarrow> v9x_put32 out 22 height;
        out \<leftarrow> v9x_put16 out 26 1;
        out \<leftarrow> v9x_put16 out 28 bits;
        out \<leftarrow> v9x_put32 out 30 compression;
        out \<leftarrow> v9x_put32 out 34 image_bytes;
        out \<leftarrow> v9x_put32 out 38 2835;
        out \<leftarrow> v9x_put32 out 42 2835;
        out \<leftarrow> v9x_put32 out 46 colours;
        v9x_put32 out 50 colours })"

text \<open>The sums of blue, green and red over one row of a box, and over the whole box; \<open>at\<close> is the
  running source pointer.\<close>

definition box_row :: "bytes \<Rightarrow> nat \<Rightarrow> u32 \<Rightarrow> u32 \<Rightarrow> u32 \<times> u32 \<times> u32 \<Rightarrow> (u32 \<times> u32 \<times> u32) option" where
  "box_row source at x0 x1 sums =
     for_up 0 (unat x1 - unat x0)
       (\<lambda>i (sum_b, sum_g, sum_r). do {
          b \<leftarrow> rd source (at + 3 * i);
          g \<leftarrow> rd source (at + 3 * i + 1);
          r \<leftarrow> rd source (at + 3 * i + 2);
          Some (sum_b + ucast b, sum_g + ucast g, sum_r + ucast r) })
       sums"

definition box_sums :: "bytes \<Rightarrow> nat \<Rightarrow> u32 \<Rightarrow> u32 \<Rightarrow> u32 \<Rightarrow> u32 \<Rightarrow> u32 \<Rightarrow> u32 \<Rightarrow> (u32 \<times> u32 \<times> u32) option" where
  "box_sums source pixels source_height source_stride x0 x1 y0 y1 =
     for_up (unat y0) (unat y1 - unat y0)
       (\<lambda>y. box_row source (pixels + unat ((source_height - 1 - of_nat y) * source_stride + x0 * 3)) x0 x1)
       (0, 0, 0)"

text \<open>The bounds of the box of an output row or column.\<close>

definition box_from :: "u32 \<Rightarrow> u32 \<Rightarrow> u32 \<Rightarrow> u32 \<Rightarrow> u32" where
  "box_from start side out i = start + (i * side) div out"

definition box_to :: "u32 \<Rightarrow> u32 \<Rightarrow> u32 \<Rightarrow> u32 \<Rightarrow> u32" where
  "box_to start side out i =
     (let from = box_from start side out i;
          upto = start + ((i + 1) * side) div out
      in if upto \<le> from then from + 1 else upto)"

definition resample_pixel ::
    "bytes \<Rightarrow> nat \<Rightarrow> u32 \<Rightarrow> u32 \<Rightarrow> u32 \<Rightarrow> u32 \<Rightarrow> u32 \<Rightarrow> u32 \<Rightarrow> u32 \<Rightarrow> nat \<Rightarrow> nat \<Rightarrow> bytes \<Rightarrow> bytes option" where
  "resample_pixel source pixels source_height source_stride y0 y1 rx rw ow row ox out =
     (let x0 = box_from rx rw ow (of_nat ox);
          x1 = box_to rx rw ow (of_nat ox);
          count = (x1 - x0) * (y1 - y0)
      in do {
        (sum_b, sum_g, sum_r) \<leftarrow> box_sums source pixels source_height source_stride x0 x1 y0 y1;
        wrs out (row + unat (of_nat ox * 3 :: u32))
          [ucast ((sum_b + count div 2) div count),
           ucast ((sum_g + count div 2) div count),
           ucast ((sum_r + count div 2) div count)] })"

definition resample_row ::
    "bytes \<Rightarrow> nat \<Rightarrow> u32 \<Rightarrow> u32 \<Rightarrow> u32 \<Rightarrow> u32 \<Rightarrow> u32 \<Rightarrow> u32 \<Rightarrow> u32 \<Rightarrow> u32 \<Rightarrow> nat \<Rightarrow> bytes \<Rightarrow> bytes option" where
  "resample_row source pixels source_height source_stride rx ry rw rh ow oh oy out =
     (let stride = v9x_stride24 ow;
          y0 = box_from ry rh oh (of_nat oy);
          y1 = box_to ry rh oh (of_nat oy);
          row = unat (V9X_BMP_HEADER + (oh - 1 - of_nat oy) * stride)
      in do {
        out \<leftarrow> for_up 0 (unat ow)
          (resample_pixel source pixels source_height source_stride y0 y1 rx rw ow row) out;
        for_up (unat (ow * 3)) (unat stride - unat (ow * 3)) (\<lambda>i out. wr out (row + i) 0) out })"

definition v9x_shotxf_resample ::
    "bytes \<Rightarrow> nat \<Rightarrow> u32 \<Rightarrow> u32 \<Rightarrow> u32 \<Rightarrow> u32 \<Rightarrow> u32 \<Rightarrow> u32 \<Rightarrow> bytes \<Rightarrow> u32 \<Rightarrow> u32 \<Rightarrow> bytes option" where
  "v9x_shotxf_resample source pixels source_height source_stride rx ry rw rh out ow oh =
     do {
       out \<leftarrow> v9x_bmp_header out ow oh 24 0 0 (v9x_stride24 ow * oh);
       for_up 0 (unat oh)
         (resample_row source pixels source_height source_stride rx ry rw rh ow oh) out }"

subsection \<open>Palette and indices\<close>

text \<open>The search of the open-addressing table of colours in the work area: the first slot that
  holds the key or is empty.\<close>

partial_function (option) index_probe :: "bytes \<Rightarrow> u32 \<Rightarrow> u32 \<Rightarrow> (u32 \<times> u32) option" where
  [code]: "index_probe work key slot =
     do {
       stored \<leftarrow> v9x_get32 work (unat V9X_WORK_KEYS + unat (slot * 4));
       if stored = key + 1 \<or> stored = 0 then Some (slot, stored)
       else index_probe work key ((slot + 1) AND (V9X_HASH_SLOTS - 1)) }"

definition index_colour :: "u32 \<Rightarrow> u32 \<Rightarrow> u32 \<Rightarrow> bytes \<times> u32 \<Rightarrow> (bytes \<times> u32, unit, u8) outcome" where
  "index_colour b g r st =
     (let (work, colours) = st;
          key = push_bit 16 r OR push_bit 8 g OR b;
          start = drop_bit 22 (key * 2654435761) AND (V9X_HASH_SLOTS - 1)
      in do {
        (slot, stored) \<leftarrow> index_probe work key start;
        if stored = key + 1 then do {
          v \<leftarrow> rd work (unat V9X_WORK_VALUES + unat slot);
          Some ((work, colours), Inr v) }
        else if colours = 256 then Some ((work, colours), Inl ())
        else do {
          work \<leftarrow> v9x_put32 work (unat V9X_WORK_KEYS + unat (slot * 4)) (key + 1);
          work \<leftarrow> wr work (unat V9X_WORK_VALUES + unat slot) (ucast colours);
          work \<leftarrow> wrs work (unat (colours * 4)) [ucast b, ucast g, ucast r, 0];
          Some ((work, colours + 1), Inr (ucast colours)) } })"

definition gray_value :: "u32 \<Rightarrow> u32 \<Rightarrow> u32 \<Rightarrow> u8" where
  "gray_value b g r = ucast (drop_bit 8 (r * 77 + g * 150 + b * 29 + 128))"

definition index_pixel ::
    "bytes \<Rightarrow> bool \<Rightarrow> nat \<Rightarrow> nat \<Rightarrow> nat \<Rightarrow> bytes \<times> u32 \<Rightarrow> (bytes \<times> u32, unit, unit) outcome" where
  "index_pixel image24 gray row target x st =
     do {
       b \<leftarrow> rd image24 (row + 3 * x);
       g \<leftarrow> rd image24 (row + 3 * x + 1);
       r \<leftarrow> rd image24 (row + 3 * x + 2);
       if gray then do {
         work \<leftarrow> wr (fst st) (target + x) (gray_value (ucast b) (ucast g) (ucast r));
         Some ((work, snd st), Inr ()) }
       else andthen (index_colour (ucast b) (ucast g) (ucast r) st) (\<lambda>v st. do {
         work \<leftarrow> wr (fst st) (target + x) v;
         Some ((work, snd st), Inr ()) }) }"

definition index_row ::
    "bytes \<Rightarrow> nat \<Rightarrow> u32 \<Rightarrow> bool \<Rightarrow> nat \<Rightarrow> bytes \<times> u32 \<Rightarrow> (bytes \<times> u32, unit, unit) outcome" where
  "index_row image24 base width gray y =
     for_out 0 (unat width)
       (index_pixel image24 gray (base + unat (of_nat y * v9x_stride24 width))
          (unat V9X_WORK_INDICES + unat (of_nat y * width)))"

text \<open>The gray ramp, and the empty colour table.\<close>

definition index_begin :: "bool \<Rightarrow> bytes \<Rightarrow> (bytes \<times> u32) option" where
  "index_begin gray work =
     (if gray then do {
        work \<leftarrow> for_up 0 256 (\<lambda>x work. wrs work (4 * x) [of_nat x, of_nat x, of_nat x, 0]) work;
        Some (work, 256) }
      else do {
        work \<leftarrow> for_up 0 (unat (V9X_HASH_SLOTS * 4)) (\<lambda>x work. wr work (unat V9X_WORK_KEYS + x) 0) work;
        Some (work, 0) })"

text \<open>\<open>image24\<close> is the output buffer, whose pixels start at \<open>base\<close>; the result is the changed work
  area and the number of colours, 0 when there are too many.\<close>

definition v9x_shotxf_index :: "bytes \<Rightarrow> nat \<Rightarrow> u32 \<Rightarrow> u32 \<Rightarrow> bool \<Rightarrow> bytes \<Rightarrow> (bytes \<times> u32) option" where
  "v9x_shotxf_index image24 base width height gray work =
     do {
       st \<leftarrow> index_begin gray work;
       ((work, colours), r) \<leftarrow> for_out 0 (unat height) (index_row image24 base width gray) st;
       Some (case r of Inl _ \<Rightarrow> (work, 0) | Inr _ \<Rightarrow> (work, colours)) }"

end
