(* ===== verification/ShotRle.thy ===== *)
theory ShotRle
  imports Shotxf
begin

section \<open>Screenshot shaping: RLE8 and the whole transform\<close>

text \<open>
  Models \<^verbatim>\<open>v9x_shotxf_rle8\<close> and \<^verbatim>\<open>v9x_shotxf_apply\<close> of \<^verbatim>\<open>src/common/shotxf.c\<close>. A row is
  the list of its indices and the position \<^verbatim>\<open>i\<close> in it is what is left of the list; \<open>Inl ()\<close> is
  the early \<^verbatim>\<open>return 0\<close> of the encoder when the capacity is used up.
\<close>

subsection \<open>RLE8\<close>

text \<open>The length of the run of \<open>c\<close>, at most 255, and of the literal stretch up to the next run
  of three.\<close>

fun run_from :: "u8 \<Rightarrow> nat \<Rightarrow> bytes \<Rightarrow> nat" where
  "run_from c run [] = run"
| "run_from c run (x # xs) = (if run < 255 \<and> x = c then run_from c (run + 1) xs else run)"

fun literal_from :: "nat \<Rightarrow> bytes \<Rightarrow> nat" where
  "literal_from n [] = n"
| "literal_from n (x # xs) =
     (if n \<ge> 255 then n
      else case xs of
          y # z # _ \<Rightarrow> if x = y \<and> x = z then n else literal_from (n + 1) xs
        | _ \<Rightarrow> literal_from (n + 1) xs)"

type_synonym rle_state = "bytes \<times> nat"

fun rle_singles :: "nat \<Rightarrow> nat \<Rightarrow> bytes \<Rightarrow> rle_state \<Rightarrow> (rle_state, unit, unit) outcome" where
  "rle_singles base capacity [] st = Some (st, Inr ())"
| "rle_singles base capacity (c # cs) (out, at) =
     (if at + 2 > capacity then Some ((out, at), Inl ())
      else do {
        out \<leftarrow> wrs out (base + at) [1, c];
        rle_singles base capacity cs (out, at + 2) })"

definition rle_run :: "nat \<Rightarrow> nat \<Rightarrow> nat \<Rightarrow> u8 \<Rightarrow> rle_state \<Rightarrow> (rle_state, unit, unit) outcome" where
  "rle_run base capacity run c st =
     (let (out, at) = st in
      if at + 2 > capacity then Some (st, Inl ())
      else do {
        out \<leftarrow> wrs out (base + at) [of_nat run, c];
        Some ((out, at + 2), Inr ()) })"

definition rle_literal :: "nat \<Rightarrow> nat \<Rightarrow> bytes \<Rightarrow> rle_state \<Rightarrow> (rle_state, unit, unit) outcome" where
  "rle_literal base capacity cs st =
     (let (out, at) = st; n = length cs in
      if at + 2 + n + 1 > capacity then Some (st, Inl ())
      else do {
        out \<leftarrow> wrs out (base + at) (0 # of_nat n # cs);
        let at = at + 2 + n;
        if odd at then do {
          out \<leftarrow> wr out (base + at) 0;
          Some ((out, at + 1), Inr ()) }
        else Some ((out, at), Inr ()) })"

lemma run_from_ge: "run \<le> run_from c run xs"
  by (induction c run xs rule: run_from.induct) auto

lemma literal_from_ge: "n \<le> literal_from n xs"
proof (induction xs arbitrary: n)
  case (Cons x xs)
  have "n \<le> literal_from (n + 1) xs" using Cons.IH [of "n + 1"] by simp
  then show ?case by (auto split: list.split)
qed simp

text \<open>After a run of one there is at least one literal: the code always moves on.\<close>

lemma run_from_short: "run_from c 1 cs < 2 \<Longrightarrow> cs = [] \<or> hd cs \<noteq> c"
  using run_from_ge [of 2 c "tl cs"] by (cases cs) (auto simp: numeral_2_eq_2)

lemma literal_from_pos: "run_from c 1 cs < 2 \<Longrightarrow> 1 \<le> literal_from 0 (c # cs)"
  using run_from_short [of c cs] literal_from_ge [of 1 cs] by (auto split: list.split)

function rle_row :: "nat \<Rightarrow> nat \<Rightarrow> bytes \<Rightarrow> rle_state \<Rightarrow> (rle_state, unit, unit) outcome" where
  "rle_row base capacity [] st = Some (st, Inr ())"
| "rle_row base capacity (c # cs) st =
     (let row = c # cs; run = run_from c 1 cs in
      if run \<ge> 2 then
        andthen (rle_run base capacity run c st) (\<lambda>_ st. rle_row base capacity (drop run row) st)
      else let n = literal_from 0 row in
        if n < 3 then
          andthen (rle_singles base capacity (take n row) st) (\<lambda>_ st. rle_row base capacity (drop n row) st)
        else
          andthen (rle_literal base capacity (take n row) st) (\<lambda>_ st. rle_row base capacity (drop n row) st))"
  by pat_completeness auto
termination
proof (relation "measure (\<lambda>(_, _, row, _). length row)", goal_cases)
  case (2 base capacity c cs st row run)
  then show ?case by (cases run) auto
next
  case (3 base capacity c cs st row run n)
  then show ?case using literal_from_pos [of c cs] by (cases n) auto
next
  case (4 base capacity c cs st row run n)
  then show ?case by (cases n) auto
qed simp

definition rle_line :: "nat \<Rightarrow> nat \<Rightarrow> bytes \<Rightarrow> u32 \<Rightarrow> u32 \<Rightarrow> nat \<Rightarrow> rle_state \<Rightarrow> (rle_state, unit, unit) outcome" where
  "rle_line base capacity work width height y st =
     do {
       row \<leftarrow> rds work (unat V9X_WORK_INDICES + unat (of_nat y * width)) (unat width);
       andthen (rle_row base capacity row st) (\<lambda>_ (out, at).
         if at + 2 > capacity then Some ((out, at), Inl ())
         else do {
           out \<leftarrow> wrs out (base + at) [0, if of_nat y + 1 = height then 1 else 0];
           Some ((out, at + 2), Inr ()) }) }"

text \<open>\<open>out\<close> is the output buffer and \<open>base\<close> the position the encoder writes from; the result is the
  buffer and the encoded length, 0 when the capacity is too small.\<close>

definition v9x_shotxf_rle8 :: "bytes \<Rightarrow> u32 \<Rightarrow> u32 \<Rightarrow> bytes \<Rightarrow> nat \<Rightarrow> u32 \<Rightarrow> (bytes \<times> nat) option" where
  "v9x_shotxf_rle8 work width height out base capacity =
     do {
       ((out, at), r) \<leftarrow> for_out 0 (unat height) (rle_line base (unat capacity) work width height) (out, 0);
       Some (out, case r of Inl _ \<Rightarrow> 0 | Inr _ \<Rightarrow> at) }"

subsection \<open>The transform\<close>

record shot_source =
  src_offset :: u32
  src_width :: u32
  src_height :: u32

definition v9x_shotxf_source :: "bytes \<Rightarrow> u32 \<Rightarrow> shot_source option option" where
  "v9x_shotxf_source source source_length =
     (if source_length < V9X_BMP_HEADER then Some None
      else do {
        m0 \<leftarrow> rd source 0;
        m1 \<leftarrow> rd source 1;
        if m0 \<noteq> 0x42 \<or> m1 \<noteq> 0x4D then Some None
        else do {
          pixel_offset \<leftarrow> v9x_get32 source 10;
          width \<leftarrow> v9x_get32 source 18;
          height \<leftarrow> v9x_get32 source 22;
          bits \<leftarrow> v9x_get16 source 28;
          compression \<leftarrow> v9x_get32 source 30;
          if bits \<noteq> 24 \<or> compression \<noteq> 0 \<or> width = 0 \<or> height = 0 \<or> width > 4096 \<or> height > 4096 \<or>
             pixel_offset < V9X_BMP_HEADER \<or> pixel_offset > source_length
          then Some None
          else if source_length - pixel_offset < v9x_stride24 width * height then Some None
          else Some (Some \<lparr>src_offset = pixel_offset, src_width = width, src_height = height\<rparr>) } })"

record shot_result =
  res_output :: bytes
  res_work :: bytes
  res_length :: u32
  res_width :: u32
  res_height :: u32
  res_bits :: u32

text \<open>The rows of an uncompressed 8-bit image, each padded to a multiple of four bytes.\<close>

definition raw8_rows :: "bytes \<Rightarrow> nat \<Rightarrow> u32 \<Rightarrow> u32 \<Rightarrow> bytes \<Rightarrow> bytes option" where
  "raw8_rows work base ow oh out =
     (let stride = v9x_stride8 ow in
      for_up 0 (unat oh) (\<lambda>y out. do {
        let row = base + unat (of_nat y * stride);
        out \<leftarrow> for_up 0 (unat ow) (\<lambda>x out. do {
          v \<leftarrow> rd work (unat V9X_WORK_INDICES + unat (of_nat y * ow) + x);
          wr out (row + x) v }) out;
        for_up (unat ow) (unat stride - unat ow) (\<lambda>x out. wr out (row + x) 0) out }) out)"

text \<open>The 8-bit image over the 24-bit one: palette, then the shorter of the two encodings, then the
  header; the result is the buffer and the length of the file.\<close>

definition pack8 :: "bytes \<Rightarrow> u32 \<Rightarrow> u32 \<Rightarrow> u32 \<Rightarrow> bytes \<Rightarrow> (bytes \<times> u32) option" where
  "pack8 work colours ow oh output =
     (let header8 = V9X_BMP_HEADER + colours * 4;
          raw8 = v9x_stride8 ow * oh
      in do {
        output \<leftarrow> for_up 0 (unat (colours * 4)) (\<lambda>y output. do {
          v \<leftarrow> rd work y;
          wr output (unat V9X_BMP_HEADER + y) v }) output;
        (output, encoded) \<leftarrow> v9x_shotxf_rle8 work ow oh output (unat header8) raw8;
        if encoded \<noteq> 0 \<and> encoded < unat raw8 then do {
          output \<leftarrow> v9x_bmp_header output ow oh 8 1 colours (of_nat encoded);
          Some (output, header8 + of_nat encoded) }
        else do {
          output \<leftarrow> raw8_rows work (unat header8) ow oh output;
          output \<leftarrow> v9x_bmp_header output ow oh 8 0 colours raw8;
          Some (output, header8 + raw8) } })"

definition shotxf_shape ::
    "bytes \<Rightarrow> shot_source \<Rightarrow> u32 \<Rightarrow> shot_plan \<Rightarrow> bytes \<Rightarrow> bytes \<Rightarrow> shot_result option" where
  "shotxf_shape source src flags plan output work =
     (let ow = output_width plan; oh = output_height plan;
          length24 = V9X_BMP_HEADER + v9x_stride24 ow * oh
      in do {
        output \<leftarrow> v9x_shotxf_resample source (unat (src_offset src)) (src_height src)
          (v9x_stride24 (src_width src)) (region_x plan) (region_y plan) (region_width plan)
          (region_height plan) output ow oh;
        let plain = \<lparr>res_output = output, res_work = work, res_length = length24, res_width = ow,
                     res_height = oh, res_bits = 24\<rparr>;
        if flags AND (V9X_SHOT_COMPACT OR V9X_SHOT_GRAY) = 0 then Some plain
        else do {
          (work, colours) \<leftarrow> v9x_shotxf_index output (unat V9X_BMP_HEADER) ow oh
            (flags AND V9X_SHOT_GRAY \<noteq> 0) work;
          if colours = 0 then Some (plain\<lparr>res_work := work\<rparr>)
          else do {
            (output, len) \<leftarrow> pack8 work colours ow oh output;
            Some \<lparr>res_output = output, res_work = work, res_length = len, res_width = ow,
                  res_height = oh, res_bits = 8\<rparr> } } })"

definition v9x_shotxf_apply ::
    "bytes \<Rightarrow> u32 \<Rightarrow> shot_options \<Rightarrow> bytes \<Rightarrow> u32 \<Rightarrow> bytes \<Rightarrow> u32 \<Rightarrow> (shotxf_status + shot_result) option" where
  "v9x_shotxf_apply source source_length options output output_capacity work work_capacity =
     do {
       src \<leftarrow> v9x_shotxf_source source source_length;
       case src of
         None \<Rightarrow> Some (Inl V9X_SHOTXF_BAD_SOURCE)
       | Some src \<Rightarrow>
           (case v9x_shotxf_plan options (src_width src) (src_height src) of
              Inl status \<Rightarrow> Some (Inl status)
            | Inr plan \<Rightarrow>
                if output_capacity < v9x_shotxf_output_capacity (output_width plan) (output_height plan) \<or>
                   work_capacity < v9x_shotxf_work_capacity (output_width plan) (output_height plan)
                then Some (Inl V9X_SHOTXF_NO_ROOM)
                else do {
                  result \<leftarrow> shotxf_shape source src (so_flags options) plan output work;
                  Some (Inr result) }) }"

end
