(* ===== verification/ShotScale.thy ===== *)
theory ShotScale
  imports Shotxf
begin

section \<open>Screenshot shaping: the plan, the header and the scaled image\<close>

text \<open>
  The plan keeps the region inside the screen and the output inside the region; under these bounds
  no product, box bound or colour sum of the resampler wraps, and the 24-bit file it writes is the
  header followed by the rows of the scaled image, bottom row first, where every pixel is the
  rounded average of its box.
\<close>

subsection \<open>Words without wrap-around\<close>

lemma u32_mult: "unat a * unat b < 4294967296 \<Longrightarrow> unat (a * b) = unat a * unat b" for a b :: u32
  by (simp add: unat_word_ariths)

lemma u32_div: "unat (a div b) = unat a div unat b" for a b :: u32
  by (rule unat_div)

lemma and_not_3: "unat (x AND NOT 3) = unat x div 4 * 4" for x :: u32
proof -
  have "x AND NOT 3 = push_bit 2 (drop_bit 2 x)"
  proof (rule bit_word_eqI)
    fix n assume "n < LENGTH(32)"
    have three: "(3 :: u32) = mask 2" by (simp add: mask_eq_exp_minus_1)
    have "bit (3 :: u32) n \<longleftrightarrow> n < 2"
      unfolding three bit_mask_iff using \<open>n < LENGTH(32)\<close> by simp
    then show "bit (x AND NOT 3) n = bit (push_bit 2 (drop_bit 2 x)) n"
      using \<open>n < LENGTH(32)\<close> by (cases "2 \<le> n") (auto simp: bit_simps dest!: le_Suc_ex)
  qed
  moreover have "unat (push_bit 2 (drop_bit 2 x)) = unat x div 4 * 4"
  proof -
    have "unat x div 4 * 4 < 4294967296" using u32_less [of x] by linarith
    then show ?thesis
      by (simp add: push_bit_eq_mult unat_word_ariths unat_drop_bit_eq drop_bit_eq_div)
  qed
  ultimately show ?thesis by simp
qed

lemma unat_stride24: "unat w \<le> 4096 \<Longrightarrow> unat (v9x_stride24 w) = (3 * unat w + 3) div 4 * 4"
  unfolding v9x_stride24_def and_not_3 by (simp add: u32_add u32_mult mult.commute)

lemma stride24_bounds:
  assumes "unat w \<le> 4096"
  shows "3 * unat w \<le> unat (v9x_stride24 w)" "unat (v9x_stride24 w) \<le> 12288"
proof -
  have "(3 * unat w + 3) div 4 \<le> 12291 div 4" by (rule div_le_mono) (use assms in simp)
  then show "unat (v9x_stride24 w) \<le> 12288" unfolding unat_stride24 [OF assms] by simp
  show "3 * unat w \<le> unat (v9x_stride24 w)" unfolding unat_stride24 [OF assms] by linarith
qed

lemma unat_stride8: "unat w \<le> 4096 \<Longrightarrow> unat (v9x_stride8 w) = (unat w + 3) div 4 * 4"
  unfolding v9x_stride8_def and_not_3 by (simp add: u32_add)

subsection \<open>The plan\<close>

definition plan_within :: "shot_plan \<Rightarrow> u32 \<Rightarrow> u32 \<Rightarrow> bool" where
  "plan_within p sw sh \<longleftrightarrow>
     unat (region_x p) + unat (region_width p) \<le> unat sw \<and> unat sw \<le> 4096 \<and>
     unat (region_y p) + unat (region_height p) \<le> unat sh \<and> unat sh \<le> 4096 \<and>
     1 \<le> output_width p \<and> output_width p \<le> region_width p \<and>
     1 \<le> output_height p \<and> output_height p \<le> region_height p"

definition shot_scale :: "shot_options \<Rightarrow> nat" where
  "shot_scale options = (if so_scale_percent options = 0 then 100 else unat (so_scale_percent options))"

lemma unat_plan_output:
  assumes "1 \<le> unat scale" "unat scale \<le> 100" "1 \<le> unat w" "unat w \<le> 4096"
  shows "unat (plan_output scale w) = (unat w * unat scale + 99) div 100"
    "1 \<le> plan_output scale w" "plan_output scale w \<le> w"
proof -
  have prod: "1 \<le> unat w * unat scale" "unat w * unat scale \<le> unat w * 100"
    using assms by simp_all
  then have "unat w * unat scale + 99 < 4294967296" using assms(4) by linarith
  then have e: "unat ((w * scale + 99) div 100) = (unat w * unat scale + 99) div 100"
    by (simp add: u32_div u32_add u32_mult)
  have pos: "1 \<le> (unat w * unat scale + 99) div 100" using prod(1) by linarith
  have "(w * scale + 99) div 100 \<noteq> 0" using e pos by (metis not_one_le_zero unsigned_0)
  then have p: "plan_output scale w = (w * scale + 99) div 100" by (simp add: plan_output_def)
  show "unat (plan_output scale w) = (unat w * unat scale + 99) div 100" using e p by simp
  show "1 \<le> plan_output scale w" using e p pos by (simp add: word_le_nat_alt)
  have "(unat w * unat scale + 99) div 100 \<le> unat w" using prod(2) by linarith
  then show "plan_output scale w \<le> w" using e p by (simp add: word_le_nat_alt)
qed

lemma plan_ok:
  assumes "v9x_shotxf_plan options sw sh = Inr p"
  shows "plan_within p sw sh"
    "unat (output_width p) = (unat (region_width p) * shot_scale options + 99) div 100"
    "unat (output_height p) = (unat (region_height p) * shot_scale options + 99) div 100"
proof -
  define scale where "scale = (if so_scale_percent options = 0 then 100 else so_scale_percent options)"
  have s: "shot_scale options = unat scale" by (simp add: shot_scale_def scale_def)
  have c: "scale \<le> 100" "sw \<noteq> 0" "sh \<noteq> 0" "sw \<le> 4096" "sh \<le> 4096"
    using assms unfolding v9x_shotxf_plan_def Let_def scale_def [symmetric] by (auto split: if_splits)
  have scale: "1 \<le> unat scale" "unat scale \<le> 100"
    using c(1) by (auto simp: scale_def word_le_nat_alt Suc_le_eq unat_gt_0)
  have screen: "unat sw \<le> 4096" "unat sh \<le> 4096" "1 \<le> unat sw" "1 \<le> unat sh"
    using c(2-5) by (auto simp: word_le_nat_alt Suc_le_eq unat_gt_0)
  have reg: "\<exists>x y w h. p = plan_region scale x y w h \<and> 1 \<le> unat w \<and> 1 \<le> unat h \<and>
      unat x + unat w \<le> unat sw \<and> unat y + unat h \<le> unat sh"
  proof (cases "so_width options = 0 \<or> so_height options = 0")
    case True
    then have "p = plan_region scale 0 0 sw sh"
      using assms unfolding v9x_shotxf_plan_def Let_def scale_def [symmetric] by (auto split: if_splits)
    then show ?thesis using screen by fastforce
  next
    case False
    define w where "w = (if so_width options < sw - so_x options then so_width options else sw - so_x options)"
    define h where "h = (if so_height options < sh - so_y options then so_height options else sh - so_y options)"
    have p: "p = plan_region scale (so_x options) (so_y options) w h"
      and inside: "so_x options < sw" "so_y options < sh"
      using assms False unfolding v9x_shotxf_plan_def Let_def scale_def [symmetric] w_def h_def
      by (auto split: if_splits simp: not_le)
    have sub: "unat (sw - so_x options) = unat sw - unat (so_x options)"
      "unat (sh - so_y options) = unat sh - unat (so_y options)"
      using inside by (simp_all add: u32_sub)
    have "1 \<le> unat w" "1 \<le> unat h" "unat (so_x options) + unat w \<le> unat sw" "unat (so_y options) + unat h \<le> unat sh"
      using False inside sub
      by (auto simp: w_def h_def word_less_nat_alt Suc_le_eq unat_gt_0 not_less)
    then show ?thesis using p by blast
  qed
  then obtain x y w h where p: "p = plan_region scale x y w h" "1 \<le> unat w" "1 \<le> unat h"
    "unat x + unat w \<le> unat sw" "unat y + unat h \<le> unat sh" by blast
  have "unat w \<le> 4096" "unat h \<le> 4096" using p screen by linarith+
  note ow = unat_plan_output [OF scale p(2) this(1)] and oh = unat_plan_output [OF scale p(3) this(2)]
  show "plan_within p sw sh" using p screen ow oh by (simp add: plan_within_def plan_region_def)
  show "unat (output_width p) = (unat (region_width p) * shot_scale options + 99) div 100"
    "unat (output_height p) = (unat (region_height p) * shot_scale options + 99) div 100"
    using p ow oh s by (simp_all add: plan_region_def)
qed

subsection \<open>The header\<close>

definition le16u :: "u32 \<Rightarrow> bytes" where
  "le16u v = [ucast (v AND 0xff), ucast (drop_bit 8 v AND 0xff)]"

definition bmp_header :: "u32 \<Rightarrow> u32 \<Rightarrow> u32 \<Rightarrow> u32 \<Rightarrow> u32 \<Rightarrow> u32 \<Rightarrow> bytes" where
  "bmp_header width height bits compression colours image_bytes =
     [0x42, 0x4D] @ le32 (54 + colours * 4 + image_bytes) @ [0, 0, 0, 0] @ le32 (54 + colours * 4) @
     le32 40 @ le32 width @ le32 height @ le16u 1 @ le16u bits @ le32 compression @ le32 image_bytes @
     le32 2835 @ le32 2835 @ le32 colours @ le32 colours"

lemma length_le16u [simp]: "length (le16u v) = 2"
  by (simp add: le16u_def)

lemma length_bmp_header [simp]: "length (bmp_header w h bits c n i) = 54"
  by (simp add: bmp_header_def)

lemma put32_le32: "v9x_put32 data at v = wrs data at (le32 v)"
  by (simp add: v9x_put32_def le32_def)

lemma put16_le16u: "v9x_put16 data at v = wrs data at (le16u v)"
  by (simp add: v9x_put16_def le16u_def)

lemma header_step:
  assumes "length p = at" "length b \<le> k" "length p + k \<le> length out"
  shows "wrs (splice out 0 (p @ replicate k 0)) at b = Some (splice out 0 ((p @ b) @ replicate (k - length b) 0))"
proof -
  have "wrs (splice out 0 (p @ replicate k 0)) at b = Some (splice (splice out 0 (p @ replicate k 0)) at b)"
    by (rule wrs_splice) (use assms in simp)
  moreover have "splice (splice out 0 (p @ replicate k 0)) at b = splice out 0 ((p @ b) @ replicate (k - length b) 0)"
    by (rule nth_equalityI) (use assms in \<open>auto simp: nth_splice nth_append\<close>)
  ultimately show ?thesis by simp
qed

primrec put_all :: "bytes \<Rightarrow> (nat \<times> bytes) list \<Rightarrow> bytes option" where
  "put_all out [] = Some out"
| "put_all out (w # ws) = do { out \<leftarrow> wrs out (fst w) (snd w); put_all out ws }"

primrec contiguous :: "nat \<Rightarrow> (nat \<times> bytes) list \<Rightarrow> bool" where
  "contiguous n [] \<longleftrightarrow> True"
| "contiguous n (w # ws) \<longleftrightarrow> fst w = n \<and> contiguous (n + length (snd w)) ws"

lemma put_all_append: "put_all out (ws @ vs) = do { out \<leftarrow> put_all out ws; put_all out vs }"
  by (induction ws arbitrary: out) simp_all

lemma put_all_contiguous:
  assumes "contiguous (length p) ws" "length (concat (map snd ws)) \<le> k" "length p + k \<le> length out"
  shows "put_all (splice out 0 (p @ replicate k 0)) ws =
    Some (splice out 0 (p @ concat (map snd ws) @ replicate (k - length (concat (map snd ws))) 0))"
  using assms
proof (induction ws arbitrary: p k)
  case (Cons w ws)
  have "put_all (splice out 0 (p @ replicate k 0)) (w # ws) =
      put_all (splice out 0 ((p @ snd w) @ replicate (k - length (snd w)) 0)) ws"
    using header_step [of p "fst w" "snd w" k out] Cons.prems by simp
  also have "\<dots> = Some (splice out 0 ((p @ snd w) @ concat (map snd ws) @
      replicate (k - length (snd w) - length (concat (map snd ws))) 0))"
    by (rule Cons.IH) (use Cons.prems in auto)
  finally show ?case by simp
qed simp

lemma wr_wrs: "wr xs i v = wrs xs i [v]"
  by simp

lemma v9x_bmp_header_eq:
  assumes "54 \<le> length out"
  shows "v9x_bmp_header out w h bits c n i = Some (splice out 0 (bmp_header w h bits c n i))"
proof -
  define ws :: "(nat \<times> bytes) list" where "ws = [(0, [0x42]), (1, [0x4D]), (2, le32 (54 + n * 4 + i))]"
  define vs :: "(nat \<times> bytes) list" where "vs = [(10, le32 (54 + n * 4)), (14, le32 40), (18, le32 w), (22, le32 h), (26, le16u 1),
    (28, le16u bits), (30, le32 c), (34, le32 i), (38, le32 2835), (42, le32 2835), (46, le32 n), (50, le32 n)]"
  have fill: "for_up 0 54 (\<lambda>i out. wr out i 0) out = Some (splice out 0 ([] @ replicate 54 0))"
    using for_up_fill [of 0 54 out "\<lambda>i out. wr out i 0" 0 0] assms by (simp add: wr_splice)
  have "v9x_bmp_header out w h bits c n i = put_all (splice out 0 ([] @ replicate 54 0)) (ws @ vs)"
    unfolding v9x_bmp_header_def Let_def V9X_BMP_HEADER_def put32_le32 put16_le16u wr_wrs [of _ 0]
      wr_wrs [of _ 1] ws_def vs_def put_all_append
    using fill by (simp del: wrs.simps)
  also have "put_all (splice out 0 ([] @ replicate 54 0)) (ws @ vs) =
      put_all (splice out 0 ([] @ concat (map snd ws) @ replicate 48 0)) vs"
    unfolding put_all_append
    by (subst put_all_contiguous) (use assms in \<open>simp_all add: ws_def\<close>)
  also have "[] @ concat (map snd ws) @ replicate 48 (0 :: u8) = (concat (map snd ws) @ [0, 0, 0, 0]) @ replicate 44 0"
    by (simp add: numeral_eq_Suc)
  also have "put_all (splice out 0 \<dots>) vs = Some (splice out 0 ((concat (map snd ws) @ [0, 0, 0, 0]) @ concat (map snd vs) @ replicate 0 0))"
    by (subst put_all_contiguous) (use assms in \<open>simp_all add: ws_def vs_def\<close>)
  finally show ?thesis by (simp add: bmp_header_def ws_def vs_def)
qed

subsection \<open>The colour sums of a box\<close>

type_synonym picture = "nat \<Rightarrow> nat \<Rightarrow> nat \<Rightarrow> u8"

text \<open>A picture gives the byte of a channel (0 blue, 1 green, 2 red) of the pixel in column \<open>x\<close> and
  row \<open>y\<close>, counted from the top; the file keeps the rows bottom up.\<close>

definition source_picture :: "bytes \<Rightarrow> nat \<Rightarrow> nat \<Rightarrow> nat \<Rightarrow> picture" where
  "source_picture source pixels height stride k x y = source ! (pixels + (height - 1 - y) * stride + 3 * x + k)"

definition box_total :: "picture \<Rightarrow> nat \<Rightarrow> nat \<Rightarrow> nat \<Rightarrow> nat \<Rightarrow> nat \<Rightarrow> nat" where
  "box_total pic k x0 x1 y0 y1 = (\<Sum>y\<leftarrow>[y0..<y1]. \<Sum>x\<leftarrow>[x0..<x1]. unat (pic k x y))"

definition box_average :: "picture \<Rightarrow> nat \<Rightarrow> nat \<Rightarrow> nat \<Rightarrow> nat \<Rightarrow> nat \<Rightarrow> u8" where
  "box_average pic k x0 x1 y0 y1 =
     (let n = (x1 - x0) * (y1 - y0) in of_nat ((box_total pic k x0 x1 y0 y1 + n div 2) div n))"

lemma for_up_sums:
  assumes "\<And>j a b c. i \<le> j \<Longrightarrow> j < i + n \<Longrightarrow>
    f j (a, b, c) = Some (a + of_nat (A j), b + of_nat (B j), c + of_nat (C j))"
  shows "for_up i n f (a, b, c) =
    Some (a + of_nat (\<Sum>j\<leftarrow>[i..<i + n]. A j), b + of_nat (\<Sum>j\<leftarrow>[i..<i + n]. B j), c + of_nat (\<Sum>j\<leftarrow>[i..<i + n]. C j))"
  using assms
proof (induction n arbitrary: i a b c)
  case (Suc n)
  have "for_up (Suc i) n f (a', b', c') = Some (a' + of_nat (\<Sum>j\<leftarrow>[Suc i..<Suc i + n]. A j),
      b' + of_nat (\<Sum>j\<leftarrow>[Suc i..<Suc i + n]. B j), c' + of_nat (\<Sum>j\<leftarrow>[Suc i..<Suc i + n]. C j))" for a' b' c'
    by (rule Suc.IH) (use Suc.prems in auto)
  then show ?case using Suc.prems [of i a b c] upt_conv_Cons [of i "i + Suc n"]
    by (simp del: upt_Suc add: add.assoc)
qed simp

lemma sum_list_upper: "(\<And>x. x \<in> set xs \<Longrightarrow> f x \<le> c) \<Longrightarrow> (\<Sum>x\<leftarrow>xs. f x) \<le> length xs * c" for f :: "'a \<Rightarrow> nat"
  by (induction xs) (auto simp: add_mono)

lemma box_total_bound: "box_total pic k x0 x1 y0 y1 \<le> (y1 - y0) * ((x1 - x0) * 255)"
proof -
  have byte: "unat (pic k x y) \<le> 255" for x y using unat_u8_less [of "pic k x y"] by linarith
  have "(\<Sum>x\<leftarrow>[x0..<x1]. unat (pic k x y)) \<le> (x1 - x0) * 255" for y
    using sum_list_upper [of "[x0..<x1]" "\<lambda>x. unat (pic k x y)" 255] byte by simp
  then show ?thesis
    unfolding box_total_def
    using sum_list_upper [of "[y0..<y1]" "\<lambda>y. \<Sum>x\<leftarrow>[x0..<x1]. unat (pic k x y)" "(x1 - x0) * 255"] by simp
qed

lemma box_row_eq:
  assumes "at + 3 * (unat x1 - unat x0) \<le> length source"
    and "\<And>k x. k < 3 \<Longrightarrow> unat x0 \<le> x \<Longrightarrow> x < unat x1 \<Longrightarrow> source ! (at + 3 * (x - unat x0) + k) = pic k x y"
  shows "box_row source at x0 x1 (a, b, c) =
    Some (a + of_nat (\<Sum>x\<leftarrow>[unat x0..<unat x1]. unat (pic 0 x y)),
          b + of_nat (\<Sum>x\<leftarrow>[unat x0..<unat x1]. unat (pic 1 x y)),
          c + of_nat (\<Sum>x\<leftarrow>[unat x0..<unat x1]. unat (pic 2 x y)))"
proof -
  define n where "n = unat x1 - unat x0"
  have shift: "(\<Sum>i\<leftarrow>[0..<0 + n]. g (unat x0 + i)) = (\<Sum>x\<leftarrow>[unat x0..<unat x1]. g x)" for g :: "nat \<Rightarrow> nat"
  proof -
    have "[unat x0..<unat x1] = map (\<lambda>i. unat x0 + i) [0..<n]"
      by (rule nth_equalityI) (auto simp: n_def)
    then show ?thesis by (simp add: comp_def)
  qed
  have byte: "source ! (at + 3 * i + k) = pic k (unat x0 + i) y" if "i < n" "k < 3" for i k
    using assms(2) [of k "unat x0 + i"] that by (simp add: n_def)
  have "box_row source at x0 x1 (a, b, c) =
    Some (a + of_nat (\<Sum>i\<leftarrow>[0..<0 + n]. unat (pic 0 (unat x0 + i) y)),
          b + of_nat (\<Sum>i\<leftarrow>[0..<0 + n]. unat (pic 1 (unat x0 + i) y)),
          c + of_nat (\<Sum>i\<leftarrow>[0..<0 + n]. unat (pic 2 (unat x0 + i) y)))"
    unfolding box_row_def n_def [symmetric]
  proof (rule for_up_sums)
    fix i and a b c :: u32
    assume i: "0 \<le> i" "i < 0 + n"
    have room: "at + 3 * i + 2 < length source" using assms(1) i(2) unfolding n_def by linarith
    show "(case (a, b, c) of (sum_b, sum_g, sum_r) \<Rightarrow> do {
          b \<leftarrow> rd source (at + 3 * i); g \<leftarrow> rd source (at + 3 * i + 1); r \<leftarrow> rd source (at + 3 * i + 2);
          Some (sum_b + ucast b, sum_g + ucast g, sum_r + ucast r) }) =
        Some (a + of_nat (unat (pic 0 (unat x0 + i) y)), b + of_nat (unat (pic 1 (unat x0 + i) y)),
              c + of_nat (unat (pic 2 (unat x0 + i) y)))"
      using room byte [of i 0] byte [of i 1] byte [of i 2] i(2)
      by (simp add: rd_Some)
  qed
  then show ?thesis
    by (simp only: shift [of "\<lambda>x. unat (pic 0 x y)"] shift [of "\<lambda>x. unat (pic 1 x y)"]
        shift [of "\<lambda>x. unat (pic 2 x y)"])
qed

text \<open>A screen of at most 4096 by 4096 pixels whose rows are all in the source buffer.\<close>

definition source_within :: "bytes \<Rightarrow> nat \<Rightarrow> u32 \<Rightarrow> u32 \<Rightarrow> bool" where
  "source_within source pixels sw sh \<longleftrightarrow>
     unat sw \<le> 4096 \<and> unat sh \<le> 4096 \<and>
     pixels + unat (v9x_stride24 sw) * unat sh \<le> length source"

lemma box_sums_eq:
  assumes within: "source_within source pixels sw sh"
    and x: "unat x0 \<le> unat x1" "unat x1 \<le> unat sw" and y: "unat y0 \<le> unat y1" "unat y1 \<le> unat sh"
  defines "pic \<equiv> source_picture source pixels (unat sh) (unat (v9x_stride24 sw))"
  shows "box_sums source pixels sh (v9x_stride24 sw) x0 x1 y0 y1 =
    Some (of_nat (box_total pic 0 (unat x0) (unat x1) (unat y0) (unat y1)),
          of_nat (box_total pic 1 (unat x0) (unat x1) (unat y0) (unat y1)),
          of_nat (box_total pic 2 (unat x0) (unat x1) (unat y0) (unat y1)))"
proof -
  define stride where "stride = unat (v9x_stride24 sw)"
  have w: "unat sw \<le> 4096" "unat sh \<le> 4096" "pixels + stride * unat sh \<le> length source"
    using within by (simp_all add: source_within_def stride_def)
  have stride: "3 * unat sw \<le> stride" "stride \<le> 12288"
    using stride24_bounds [OF w(1)] by (simp_all add: stride_def)
  have row: "box_row source (pixels + unat ((sh - 1 - of_nat j) * v9x_stride24 sw + x0 * 3)) x0 x1 (a, b, c) =
      Some (a + of_nat (\<Sum>x\<leftarrow>[unat x0..<unat x1]. unat (pic 0 x j)),
            b + of_nat (\<Sum>x\<leftarrow>[unat x0..<unat x1]. unat (pic 1 x j)),
            c + of_nat (\<Sum>x\<leftarrow>[unat x0..<unat x1]. unat (pic 2 x j)))"
    if "unat y0 \<le> j" "j < unat y0 + (unat y1 - unat y0)" for j a b c
  proof -
    have j: "j < unat sh" using that y by linarith
    define q where "q = unat sh - 1 - j"
    have "1 \<le> sh" using j by (simp add: word_le_nat_alt)
    then have s1: "unat (sh - 1) = unat sh - 1" by (simp add: u32_sub)
    moreover have uj: "unat (of_nat j :: u32) = j" using j w(2) by (simp add: u32_of_nat)
    ultimately have uq: "unat (sh - 1 - of_nat j) = q"
      using j by (subst u32_sub) (auto simp: word_le_nat_alt q_def)
    have q: "q * stride + stride \<le> stride * unat sh"
    proof -
      have "Suc q \<le> unat sh" using j by (simp add: q_def)
      then have "Suc q * stride \<le> unat sh * stride" by (rule mult_le_mono1)
      then show ?thesis by (simp add: mult.commute)
    qed
    have "stride * unat sh \<le> 12288 * 4096" using stride(2) w(2) by (rule mult_le_mono)
    then have at: "unat ((sh - 1 - of_nat j) * v9x_stride24 sw + x0 * 3) = q * stride + 3 * unat x0"
      using q x w(1) stride uq by (simp add: u32_add u32_mult stride_def [symmetric])
    show ?thesis
      unfolding at
    proof (rule box_row_eq)
      show "pixels + (q * stride + 3 * unat x0) + 3 * (unat x1 - unat x0) \<le> length source"
        using q x stride w(3) by linarith
    qed (auto simp: pic_def source_picture_def q_def stride_def algebra_simps)
  qed
  show ?thesis
    unfolding box_sums_def
    by (subst for_up_sums [where A = "\<lambda>y. \<Sum>x\<leftarrow>[unat x0..<unat x1]. unat (pic 0 x y)"
          and B = "\<lambda>y. \<Sum>x\<leftarrow>[unat x0..<unat x1]. unat (pic 1 x y)"
          and C = "\<lambda>y. \<Sum>x\<leftarrow>[unat x0..<unat x1]. unat (pic 2 x y)"])
       (use row y in \<open>simp_all add: box_total_def\<close>)
qed

subsection \<open>The scaled image\<close>

lemma box_bounds:
  assumes "i < unat ow" "1 \<le> ow" "ow \<le> rw" "unat rx + unat rw \<le> 4096"
  shows "unat (box_from rx rw ow (of_nat i)) = unat rx + i * unat rw div unat ow"
    "unat (box_to rx rw ow (of_nat i)) = unat rx + (i + 1) * unat rw div unat ow"
    "i * unat rw div unat ow < (i + 1) * unat rw div unat ow"
    "(i + 1) * unat rw div unat ow \<le> unat rw"
proof -
  have o: "1 \<le> unat ow" "unat ow \<le> unat rw" "unat rw \<le> 4096"
    using assms by (auto simp: word_le_nat_alt)
  have i: "(i + 1) * unat rw \<le> unat ow * unat rw" using assms(1) by (intro mult_le_mono1) simp
  have "unat ow * unat rw \<le> 4096 * 4096" by (rule mult_le_mono) (use o in auto)
  then have big: "(i + 1) * unat rw \<le> 4096 * 4096" using i by linarith
  have ui: "unat (of_nat i :: u32) = i" using assms(1) o by (simp add: u32_of_nat)
  show upto: "(i + 1) * unat rw div unat ow \<le> unat rw"
    using div_le_mono [OF i, of "unat ow"] o(1) by simp
  have "(i * unat rw + unat ow) div unat ow \<le> (i * unat rw + unat rw) div unat ow"
    by (rule div_le_mono) (use o in simp)
  moreover have "(i * unat rw + unat ow) div unat ow = i * unat rw div unat ow + 1"
    using o(1) by (intro div_add_self2) simp
  ultimately show less: "i * unat rw div unat ow < (i + 1) * unat rw div unat ow"
    by (simp add: add.commute)
  have f: "unat ((of_nat i * rw) div ow) = i * unat rw div unat ow"
    using big ui by (simp add: u32_div u32_mult)
  have ui1: "unat (of_nat i + 1 :: u32) = i + 1" using ui assms(1) o by (simp add: u32_add)
  have t: "unat (((of_nat i + 1) * rw) div ow) = (i + 1) * unat rw div unat ow"
    using big ui1 by (simp add: u32_div u32_mult)
  show frm: "unat (box_from rx rw ow (of_nat i)) = unat rx + i * unat rw div unat ow"
    unfolding box_from_def using f less upto assms(4) by (subst u32_add) auto
  have t': "unat (rx + ((of_nat i + 1) * rw) div ow) = unat rx + (i + 1) * unat rw div unat ow"
    using t upto assms(4) by (subst u32_add) auto
  then have "box_from rx rw ow (of_nat i) < rx + ((of_nat i + 1) * rw) div ow"
    using frm less by (simp add: word_less_nat_alt)
  then have "box_to rx rw ow (of_nat i) = rx + ((of_nat i + 1) * rw) div ow"
    unfolding box_to_def Let_def by (metis not_le)
  then show "unat (box_to rx rw ow (of_nat i)) = unat rx + (i + 1) * unat rw div unat ow"
    using t' by simp
qed

definition scaled :: "picture \<Rightarrow> nat \<Rightarrow> nat \<Rightarrow> nat \<Rightarrow> nat \<Rightarrow> nat \<Rightarrow> nat \<Rightarrow> picture" where
  "scaled pic rx rw ow ry rh oh k x y =
     box_average pic k (rx + x * rw div ow) (rx + (x + 1) * rw div ow)
       (ry + y * rh div oh) (ry + (y + 1) * rh div oh)"

definition plan_picture :: "shot_plan \<Rightarrow> picture \<Rightarrow> picture" where
  "plan_picture p pic =
     scaled pic (unat (region_x p)) (unat (region_width p)) (unat (output_width p))
       (unat (region_y p)) (unat (region_height p)) (unat (output_height p))"

definition pixel_bytes :: "picture \<Rightarrow> nat \<Rightarrow> nat \<Rightarrow> bytes" where
  "pixel_bytes pic y x = [pic 0 x y, pic 1 x y, pic 2 x y]"

definition picture_row :: "picture \<Rightarrow> nat \<Rightarrow> nat \<Rightarrow> nat \<Rightarrow> bytes" where
  "picture_row pic width stride y =
     concat (map (pixel_bytes pic y) [0..<width]) @ replicate (stride - 3 * width) 0"

lemma length_pixels [simp]: "length (concat (map (pixel_bytes pic y) xs)) = 3 * length xs"
  using length_concat_const [of xs "pixel_bytes pic y" 3] by (simp add: pixel_bytes_def mult.commute)

lemma length_picture_row [simp]: "3 * w \<le> stride \<Longrightarrow> length (picture_row pic w stride y) = stride"
  by (simp add: picture_row_def)

lemma average_word:
  fixes t n :: nat
  assumes "t \<le> n * 255" "n \<le> 16777216" "unat c = n"
  shows "ucast ((of_nat t + c div 2) div c :: u32) = (of_nat ((t + n div 2) div n) :: u8)"
proof -
  have "t + n div 2 < 4294967296" using assms(1,2) by linarith
  then have "unat ((of_nat t + c div 2) div c) = (t + n div 2) div n"
    using assms(3) by (simp add: u32_div u32_add u32_of_nat)
  moreover have "ucast w = (of_nat (unat w) :: u8)" for w :: u32 by simp
  ultimately show ?thesis by metis
qed

lemma resample_pixel_eq:
  assumes within: "source_within source pixels sw sh"
    and x: "i < unat ow" "1 \<le> ow" "ow \<le> rw" "unat rx + unat rw \<le> unat sw"
    and y: "unat y0 < unat y1" "unat y1 \<le> unat sh"
    and room: "row + 3 * unat ow \<le> length out"
  defines "pic \<equiv> source_picture source pixels (unat sh) (unat (v9x_stride24 sw))"
  defines "avg \<equiv> \<lambda>k. box_average pic k (unat rx + i * unat rw div unat ow)
    (unat rx + (i + 1) * unat rw div unat ow) (unat y0) (unat y1)"
  shows "resample_pixel source pixels sh (v9x_stride24 sw) y0 y1 rx rw ow row i out =
    Some (splice out (row + i * 3) [avg 0, avg 1, avg 2])"
proof -
  have small: "unat sw \<le> 4096" "unat sh \<le> 4096" using within by (simp_all add: source_within_def)
  have rx: "unat rx + unat rw \<le> 4096" using x(4) small(1) by linarith
  note b = box_bounds [OF x(1-3) rx]
  define x0 where "x0 = box_from rx rw ow (of_nat i)"
  define x1 where "x1 = box_to rx rw ow (of_nat i)"
  have ux: "unat x0 < unat x1" "unat x1 \<le> unat sw" using b x(4) by (simp_all add: x0_def x1_def)
  define n where "n = (unat x1 - unat x0) * (unat y1 - unat y0)"
  have n: "n \<le> 16777216"
  proof -
    have "n \<le> 4096 * 4096" unfolding n_def by (rule mult_le_mono) (use ux y small in auto)
    then show ?thesis by simp
  qed
  have un: "unat ((x1 - x0) * (y1 - y0)) = n"
    using ux y n by (simp add: u32_mult u32_sub word_le_nat_alt n_def)
  have sums: "box_sums source pixels sh (v9x_stride24 sw) x0 x1 y0 y1 =
      Some (of_nat (box_total pic 0 (unat x0) (unat x1) (unat y0) (unat y1)),
            of_nat (box_total pic 1 (unat x0) (unat x1) (unat y0) (unat y1)),
            of_nat (box_total pic 2 (unat x0) (unat x1) (unat y0) (unat y1)))"
    unfolding pic_def by (rule box_sums_eq [OF within]) (use ux y in auto)
  have total: "box_total pic k (unat x0) (unat x1) (unat y0) (unat y1) \<le> n * 255" for k
    using box_total_bound [of pic k "unat x0" "unat x1" "unat y0" "unat y1"]
    by (simp add: n_def mult.commute mult.left_commute)
  have avg: "ucast ((of_nat (box_total pic k (unat x0) (unat x1) (unat y0) (unat y1)) +
      (x1 - x0) * (y1 - y0) div 2) div ((x1 - x0) * (y1 - y0)) :: u32) = avg k" for k
    unfolding average_word [OF total n un]
    by (simp add: avg_def box_average_def Let_def n_def x0_def x1_def b(1,2))
  have ox: "unat (of_nat i * 3 :: u32) = i * 3"
    using x(1) rx x(3) by (simp add: u32_mult u32_of_nat word_le_nat_alt)
  have "i * 3 + 3 \<le> 3 * unat ow" using x(1) by linarith
  then have "wrs out (row + i * 3) [avg 0, avg 1, avg 2] = Some (splice out (row + i * 3) [avg 0, avg 1, avg 2])"
    using room by (intro wrs_splice) simp
  then show ?thesis
    unfolding resample_pixel_def Let_def x0_def [symmetric] x1_def [symmetric] sums
    by (simp add: avg ox del: wrs.simps)
qed

lemma resample_row_eq:
  assumes within: "source_within source pixels sw sh"
    and x: "1 \<le> ow" "ow \<le> rw" "unat rx + unat rw \<le> unat sw"
    and y: "j < unat oh" "1 \<le> oh" "oh \<le> rh" "unat ry + unat rh \<le> unat sh"
    and room: "54 + unat oh * unat (v9x_stride24 ow) \<le> length out"
  defines "pic \<equiv> source_picture source pixels (unat sh) (unat (v9x_stride24 sw))"
  defines "new \<equiv> scaled pic (unat rx) (unat rw) (unat ow) (unat ry) (unat rh) (unat oh)"
  shows "resample_row source pixels sh (v9x_stride24 sw) rx ry rw rh ow oh j out =
    Some (splice out (54 + (unat oh - 1 - j) * unat (v9x_stride24 ow)) (picture_row new (unat ow) (unat (v9x_stride24 ow)) j))"
proof -
  have small: "unat sw \<le> 4096" "unat sh \<le> 4096" using within by (simp_all add: source_within_def)
  have rx: "unat ry + unat rh \<le> 4096" using y(4) small(2) by linarith
  have ow: "unat ow \<le> 4096" "unat oh \<le> 4096" using x y small by (simp_all add: word_le_nat_alt)
  note b = box_bounds [OF y(1-3) rx]
  define stride where "stride = unat (v9x_stride24 ow)"
  note stride = stride24_bounds [OF ow(1), folded stride_def]
  define y0 where "y0 = box_from ry rh oh (of_nat j)"
  define y1 where "y1 = box_to ry rh oh (of_nat j)"
  have uy: "unat y0 < unat y1" "unat y1 \<le> unat sh" using b y(4) by (simp_all add: y0_def y1_def)
  define q where "q = unat oh - 1 - j"
  define row where "row = 54 + q * stride"
  have q: "q * stride + stride \<le> unat oh * stride"
  proof -
    have "Suc q \<le> unat oh" using y(1) by (simp add: q_def)
    then have "Suc q * stride \<le> unat oh * stride" by (rule mult_le_mono1)
    then show ?thesis by simp
  qed
  have "unat oh * stride \<le> 4096 * 12288" using stride(2) ow(2) by (intro mult_le_mono)
  then have big: "54 + q * stride < 4294967296" using q by linarith
  have s1: "unat (oh - 1) = unat oh - 1" using y(2) by (simp add: u32_sub)
  have uj: "unat (of_nat j :: u32) = j" using y(1) ow(2) by (simp add: u32_of_nat)
  have uq: "unat (oh - 1 - of_nat j) = q"
    using y(1) s1 uj by (subst u32_sub) (auto simp: word_le_nat_alt q_def)
  have urow: "unat (V9X_BMP_HEADER + (oh - 1 - of_nat j) * v9x_stride24 ow) = row"
    using big uq by (simp add: V9X_BMP_HEADER_def u32_add u32_mult row_def stride_def)
  have room': "row + stride \<le> length out" using room q by (simp add: row_def stride_def)
  define pix where "pix = concat (map (pixel_bytes new j) [0..<unat ow])"
  have "for_up 0 (unat ow) (resample_pixel source pixels sh (v9x_stride24 sw) y0 y1 rx rw ow row) out =
      Some (splice out row (concat (map (pixel_bytes new j) [0..<0 + unat ow])))"
  proof (rule for_up_splice [where c = 3])
    fix i and t :: bytes
    assume i: "0 \<le> i" "i < 0 + unat ow" "length t = length out"
    have "row + 3 * unat ow \<le> length t" using room' stride(1) i(3) by linarith
    then show "resample_pixel source pixels sh (v9x_stride24 sw) y0 y1 rx rw ow row i t =
        Some (splice t (row + (i - 0) * 3) (pixel_bytes new j i))"
      using resample_pixel_eq [OF within _ x uy, of i row t] i(2)
      by (simp add: pixel_bytes_def new_def scaled_def pic_def y0_def y1_def b(1,2))
  qed (use room' stride(1) in \<open>auto simp: pixel_bytes_def\<close>)
  then have pixels: "for_up 0 (unat ow) (resample_pixel source pixels sh (v9x_stride24 sw) y0 y1 rx rw ow row) out =
      Some (splice out row pix)" by (simp add: pix_def)
  have uow: "unat (ow * 3) = 3 * unat ow" using ow(1) by (simp add: u32_mult)
  have lp: "length pix = 3 * unat ow" by (simp add: pix_def)
  have pad: "for_up (3 * unat ow) (stride - 3 * unat ow) (\<lambda>i out. wr out (row + i) 0) (splice out row pix) =
      Some (splice (splice out row pix) (row + 3 * unat ow) (replicate (stride - 3 * unat ow) 0))"
    by (rule for_up_fill) (use room' stride(1) lp in \<open>auto simp: wr_splice\<close>)
  have "splice (splice out row pix) (row + 3 * unat ow) (replicate (stride - 3 * unat ow) 0) =
      splice out row (picture_row new (unat ow) stride j)"
    using splice_append [of row pix "replicate (stride - 3 * unat ow) 0" out] room' stride(1) lp
    by (simp add: picture_row_def pix_def [symmetric])
  then show ?thesis
    unfolding resample_row_def Let_def y0_def [symmetric] y1_def [symmetric] urow
    using pixels pad by (simp add: uow stride_def row_def q_def)
qed

text \<open>The 24-bit file: the header and the rows of the scaled picture, bottom row first.\<close>

definition bmp24 :: "picture \<Rightarrow> u32 \<Rightarrow> u32 \<Rightarrow> bytes" where
  "bmp24 pic ow oh =
     bmp_header ow oh 24 0 0 (v9x_stride24 ow * oh) @
     concat (map (picture_row pic (unat ow) (unat (v9x_stride24 ow))) (rev [0..<unat oh]))"

lemma length_bmp24:
  "unat ow \<le> 4096 \<Longrightarrow> length (bmp24 pic ow oh) = 54 + unat oh * unat (v9x_stride24 ow)"
  unfolding bmp24_def
  by (subst length_append, subst length_concat_const [where c = "unat (v9x_stride24 ow)"])
     (use stride24_bounds in auto)

lemma v9x_shotxf_resample_eq:
  assumes within: "source_within source pixels sw sh" and plan: "plan_within p sw sh"
    and room: "54 + unat (output_height p) * unat (v9x_stride24 (output_width p)) \<le> length out"
  defines "pic \<equiv> source_picture source pixels (unat sh) (unat (v9x_stride24 sw))"
  shows "v9x_shotxf_resample source pixels sh (v9x_stride24 sw) (region_x p) (region_y p)
      (region_width p) (region_height p) out (output_width p) (output_height p) =
    Some (splice out 0 (bmp24 (plan_picture p pic) (output_width p) (output_height p)))"
proof -
  define ow where "ow = output_width p"
  define oh where "oh = output_height p"
  define new where "new = plan_picture p pic"
  define stride where "stride = unat (v9x_stride24 ow)"
  define hdr where "hdr = bmp_header ow oh 24 0 0 (v9x_stride24 ow * oh)"
  have p: "1 \<le> ow" "ow \<le> region_width p" "unat (region_x p) + unat (region_width p) \<le> unat sw"
    "1 \<le> oh" "oh \<le> region_height p" "unat (region_y p) + unat (region_height p) \<le> unat sh" "unat sw \<le> 4096"
    using plan by (simp_all add: plan_within_def ow_def oh_def)
  have small: "unat ow \<le> 4096" using p by (simp add: word_le_nat_alt)
  note stride = stride24_bounds [OF small, folded stride_def]
  have room': "54 + unat oh * stride \<le> length out" using room by (simp add: ow_def oh_def stride_def)
  have header: "v9x_bmp_header out ow oh 24 0 0 (v9x_stride24 ow * oh) = Some (splice out 0 hdr)"
    unfolding hdr_def by (rule v9x_bmp_header_eq) (use room' in simp)
  have len: "length (splice out 0 hdr) = length out" by (rule length_splice) (use room' in \<open>simp add: hdr_def\<close>)
  have "for_up 0 (unat oh) (resample_row source pixels sh (v9x_stride24 sw) (region_x p) (region_y p)
      (region_width p) (region_height p) ow oh) (splice out 0 hdr) =
    Some (splice (splice out 0 hdr) 54 (concat (map (picture_row new (unat ow) stride) (rev [0..<0 + unat oh]))))"
  proof (rule for_up_splice_down [where c = stride])
    fix j and t :: bytes
    assume j: "0 \<le> j" "j < 0 + unat oh" "length t = length (splice out 0 hdr)"
    show "resample_row source pixels sh (v9x_stride24 sw) (region_x p) (region_y p) (region_width p)
        (region_height p) ow oh j t =
      Some (splice t (54 + (0 + unat oh - 1 - j) * stride) (picture_row new (unat ow) stride j))"
      using resample_row_eq [OF within p(1-3) _ p(4-6), of j t] j len room'
      by (simp add: stride_def new_def plan_picture_def pic_def ow_def oh_def)
  qed (use room' len stride in auto)
  moreover have "splice (splice out 0 hdr) 54 (concat (map (picture_row new (unat ow) stride) (rev [0..<unat oh]))) =
      splice out 0 (bmp24 new ow oh)"
  proof -
    have l: "length (concat (map (picture_row new (unat ow) stride) (rev [0..<unat oh]))) = unat oh * stride"
      using length_concat_const [of "rev [0..<unat oh]" "picture_row new (unat ow) stride" stride] stride by simp
    show ?thesis
      using splice_append [of 0 hdr _ out] l room' unfolding bmp24_def hdr_def stride_def by simp
  qed
  ultimately show ?thesis
    unfolding v9x_shotxf_resample_def ow_def [symmetric] oh_def [symmetric] new_def [symmetric]
    by (simp add: header)
qed

text \<open>At full scale every output pixel is the pixel of the screen it stands for.\<close>

lemma box_average_one: "box_average pic k x (x + 1) y (y + 1) = pic k x y"
  by (simp add: box_average_def box_total_def)

lemma scaled_identity:
  assumes "x < rw" "y < rh"
  shows "scaled pic rx rw rw ry rh rh k x y = pic k (rx + x) (ry + y)"
proof -
  have "(x + 1) * rw div rw = x + 1" "(y + 1) * rh div rh = y + 1" "x * rw div rw = x" "y * rh div rh = y"
    using assms by (simp_all only: nonzero_mult_div_cancel_right)
  then show ?thesis
    unfolding scaled_def using box_average_one [of pic k "rx + x" "ry + y"] by (simp only: add.assoc)
qed

end
