(* ===== verification/ShotRleProps.thy ===== *)
theory ShotRleProps
  imports ShotRle ShotScale
begin

section \<open>Screenshot shaping: RLE8 decodes to the rows it encodes\<close>

text \<open>
  \<open>rle_decode\<close> reads RLE8 as Windows does: a pair of a count and an index, or an escape for the end
  of the line (0), the end of the bitmap (1) or a literal stretch padded to an even length; the
  delta escape (2), which the encoder never writes, is refused. \<open>rle_emits\<close> says what a step of the
  encoder adds: bytes that a decoder turns into the given indices, whatever follows them.
\<close>

function rle_decode :: "bytes \<Rightarrow> bytes \<Rightarrow> bytes list \<Rightarrow> bytes list option" where
  "rle_decode (n # c # rest) row rows =
     (if n \<noteq> 0 then rle_decode rest (row @ replicate (unat n) c) rows
      else if c = 0 then rle_decode rest [] (rows @ [row])
      else if c = 1 then Some (rows @ [row])
      else if c = 2 then None
      else let k = unat c; padded = k + k mod 2 in
        if length rest < padded then None
        else rle_decode (drop padded rest) (row @ take k rest) rows)"
| "rle_decode [n] row rows = None"
| "rle_decode [] row rows = None"
  by pat_completeness auto
termination
  by (relation "measure (\<lambda>(bs, _, _). length bs)") auto

definition rle_emits :: "nat \<Rightarrow> nat \<Rightarrow> bytes \<Rightarrow> rle_state \<Rightarrow> (rle_state, unit, unit) outcome \<Rightarrow> bool" where
  "rle_emits base capacity data st r \<longleftrightarrow>
     outcome r
       (\<lambda>_ st'. length (fst st') = length (fst st) \<and> take base (fst st') = take base (fst st))
       (\<lambda>_ st'. \<exists>code. fst st' = splice (fst st) (base + snd st) code \<and> snd st' = snd st + length code \<and>
          snd st' \<le> capacity \<and> even (length code) \<and>
          (\<forall>rest row rows. rle_decode (code @ rest) row rows = rle_decode rest (row @ data) rows))"

subsection \<open>Runs and literals of the source row\<close>

lemma run_from_bounds: "run \<le> 255 \<Longrightarrow> run_from c run xs \<le> 255 \<and> run_from c run xs \<le> run + length xs"
  by (induction c run xs rule: run_from.induct) (auto split: if_splits)

lemma run_from_take: "take (run_from c run xs - run) xs = replicate (run_from c run xs - run) c"
proof (induction c run xs rule: run_from.induct)
  case (2 c run x xs)
  show ?case
  proof (cases "run < 255 \<and> x = c")
    case True
    have "run + 1 \<le> run_from c (run + 1) xs" by (rule run_from_ge)
    then have "run_from c (run + 1) xs - run = Suc (run_from c (run + 1) xs - (run + 1))" by simp
    then show ?thesis using True 2 by simp
  qed auto
qed simp

lemma run_from_replicate:
  assumes "run_from c 1 cs = n"
  shows "take n (c # cs) = replicate n c" "n \<le> 255" "n \<le> length (c # cs)" "1 \<le> n"
proof -
  have n: "1 \<le> n" using run_from_ge [of 1 c cs] assms by simp
  then show "1 \<le> n" .
  then obtain m where m: "n = Suc m" by (cases n) auto
  then show "take n (c # cs) = replicate n c" using run_from_take [of c 1 cs] assms by simp
  show "n \<le> 255" "n \<le> length (c # cs)" using run_from_bounds [of 1 c cs] assms by simp_all
qed

lemma literal_from_step:
  "literal_from n (x # xs) = n \<or> (n < 255 \<and> literal_from n (x # xs) = literal_from (n + 1) xs)"
  unfolding literal_from.simps(2) [of n x xs]
  by (auto simp del: literal_from.simps split: list.split)

lemma literal_from_bounds: "n \<le> 255 \<Longrightarrow> literal_from n xs \<le> 255 \<and> literal_from n xs \<le> n + length xs"
proof (induction xs arbitrary: n)
  case (Cons x xs)
  show ?case using literal_from_step [of n x xs]
  proof (elim disjE conjE)
    assume "n < 255" "literal_from n (x # xs) = literal_from (n + 1) xs"
    then show ?thesis using Cons.IH [of "n + 1"] by (simp del: literal_from.simps)
  qed (use Cons.prems in \<open>simp del: literal_from.simps\<close>)
qed simp

subsection \<open>What the steps emit\<close>

lemma emits_code:
  assumes "base + capacity \<le> length out" "at + length code \<le> capacity" "even (length code)"
    and "\<And>rest row rows. rle_decode (code @ rest) row rows = rle_decode rest (row @ data) rows"
  shows "rle_emits base capacity data (out, at) (Some ((splice out (base + at) code, at + length code), Inr ()))"
  using assms by (auto simp: rle_emits_def)

lemma emits_full: "rle_emits base capacity data st (Some (st, Inl ()))"
  by (simp add: rle_emits_def)

lemma emits_nothing: "snd st \<le> capacity \<Longrightarrow> rle_emits base capacity [] st (Some (st, Inr ()))"
  by (auto simp: rle_emits_def intro!: exI [of _ "[]"])

lemma emits_andthen:
  assumes room: "base + capacity \<le> length (fst st)" and first: "rle_emits base capacity xs st r"
    and second: "\<And>st' u. r = Some (st', Inr u) \<Longrightarrow> length (fst st') = length (fst st) \<Longrightarrow> even (snd st') = even (snd st) \<Longrightarrow>
      snd st' \<le> capacity \<Longrightarrow> rle_emits base capacity ys st' (f u st')"
  shows "rle_emits base capacity (xs @ ys) st (andthen r f)"
  using first [unfolded rle_emits_def]
proof (rule outcome_cases)
  fix st' e assume "r = Some (st', Inl e)" "length (fst st') = length (fst st) \<and> take base (fst st') = take base (fst st)"
  then show ?thesis by (simp add: rle_emits_def)
next
  fix st' u assume r: "r = Some (st', Inr u)"
    and "\<exists>code. fst st' = splice (fst st) (base + snd st) code \<and> snd st' = snd st + length code \<and>
      snd st' \<le> capacity \<and> even (length code) \<and>
      (\<forall>rest row rows. rle_decode (code @ rest) row rows = rle_decode rest (row @ xs) rows)"
  then obtain code where code: "fst st' = splice (fst st) (base + snd st) code" "snd st' = snd st + length code"
    "snd st' \<le> capacity" "even (length code)"
    "\<And>rest row rows. rle_decode (code @ rest) row rows = rle_decode rest (row @ xs) rows" by blast
  have fits: "base + snd st + length code \<le> length (fst st)" using code(2,3) room by linarith
  have len: "length (fst st') = length (fst st)" unfolding code(1) by (rule length_splice) (use fits in simp)
  have before: "take base (fst st') = take base (fst st)"
    unfolding code(1) by (rule take_splice_before) (use fits in auto)
  have "rle_emits base capacity ys st' (f u st')" by (rule second [OF r len]) (use code in auto)
  then show ?thesis
    unfolding rle_emits_def
  proof (rule outcome_cases)
    fix st'' e assume "f u st' = Some (st'', Inl e)"
      "length (fst st'') = length (fst st') \<and> take base (fst st'') = take base (fst st')"
    then show "outcome (andthen r f)
      (\<lambda>_ st'. length (fst st') = length (fst st) \<and> take base (fst st') = take base (fst st))
      (\<lambda>_ st'. \<exists>code. fst st' = splice (fst st) (base + snd st) code \<and> snd st' = snd st + length code \<and>
          snd st' \<le> capacity \<and> even (length code) \<and>
          (\<forall>rest row rows. rle_decode (code @ rest) row rows = rle_decode rest (row @ xs @ ys) rows))"
      using r len before by simp
  next
    fix st'' v assume s: "f u st' = Some (st'', Inr v)"
      "\<exists>code. fst st'' = splice (fst st') (base + snd st') code \<and> snd st'' = snd st' + length code \<and>
        snd st'' \<le> capacity \<and> even (length code) \<and>
        (\<forall>rest row rows. rle_decode (code @ rest) row rows = rle_decode rest (row @ ys) rows)"
    then obtain code' where code': "fst st'' = splice (fst st') (base + snd st') code'" "snd st'' = snd st' + length code'"
      "snd st'' \<le> capacity" "even (length code')"
      "\<And>rest row rows. rle_decode (code' @ rest) row rows = rle_decode rest (row @ ys) rows" by blast
    have "fst st'' = splice (fst st) (base + snd st) (code @ code')"
      using splice_append [of "base + snd st" code code' "fst st"] code code' room by (simp add: add.assoc)
    then show "outcome (andthen r f)
      (\<lambda>_ st'. length (fst st') = length (fst st) \<and> take base (fst st') = take base (fst st))
      (\<lambda>_ st'. \<exists>code. fst st' = splice (fst st) (base + snd st) code \<and> snd st' = snd st + length code \<and>
          snd st' \<le> capacity \<and> even (length code) \<and>
          (\<forall>rest row rows. rle_decode (code @ rest) row rows = rle_decode rest (row @ xs @ ys) rows))"
      using r s(1) code code' by (auto intro!: exI [of _ "code @ code'"])
  qed
qed

lemma emits_run:
  assumes "base + capacity \<le> length out" "1 \<le> run" "run \<le> 255"
  shows "rle_emits base capacity (replicate run c) (out, at) (rle_run base capacity run c (out, at))"
proof (cases "at + 2 > capacity")
  case False
  have run: "unat (of_nat run :: u8) = run" using assms(3) by (simp add: unat_of_nat)
  then have "(of_nat run :: u8) \<noteq> 0" using assms(2) by (metis not_one_le_zero unsigned_0)
  then have "rle_emits base capacity (replicate run c) (out, at) (Some ((splice out (base + at) [of_nat run, c], at + length [of_nat run, c]), Inr ()))"
    using assms False run by (intro emits_code) auto
  moreover have "wrs out (base + at) [of_nat run, c] = Some (splice out (base + at) [of_nat run, c])"
    using False assms(1) by (intro wrs_splice) simp
  ultimately show ?thesis using False by (simp add: rle_run_def del: wrs.simps)
qed (simp add: rle_run_def emits_full)

lemma emits_singles:
  assumes "base + capacity \<le> length (fst st)" "snd st \<le> capacity"
  shows "rle_emits base capacity cs st (rle_singles base capacity cs st)"
  using assms
proof (induction cs arbitrary: st)
  case Nil
  then show ?case by (cases st) (simp add: emits_nothing)
next
  case (Cons c cs)
  obtain out at where st: "st = (out, at)" by (cases st)
  have "rle_singles base capacity (c # cs) st =
      andthen (rle_run base capacity 1 c st) (\<lambda>_ st. rle_singles base capacity cs st)"
    by (simp add: st rle_run_def bind_eq_Some_conv split: Option.bind_split)
  moreover have "rle_emits base capacity (replicate 1 c @ cs) st
      (andthen (rle_run base capacity 1 c st) (\<lambda>_ st. rle_singles base capacity cs st))"
  proof (rule emits_andthen)
    show "rle_emits base capacity (replicate 1 c) st (rle_run base capacity 1 c st)"
      unfolding st by (rule emits_run) (use Cons.prems st in auto)
  qed (use Cons in auto)
  ultimately show ?case by simp
qed

lemma emits_literal:
  assumes "base + capacity \<le> length out" "3 \<le> length cs" "length cs \<le> 255" "even at"
  shows "rle_emits base capacity cs (out, at) (rle_literal base capacity cs (out, at))"
proof (cases "at + 2 + length cs + 1 > capacity")
  case False
  define n where "n = length cs"
  define pad :: bytes where "pad = (if odd n then [0] else [])"
  define code where "code = 0 # of_nat n # cs @ pad"
  have n: "3 \<le> n" "n \<le> 255" using assms by (simp_all add: n_def)
  have un: "unat (of_nat n :: u8) = n" using n by (simp add: unat_of_nat)
  have not: "(of_nat n :: u8) \<noteq> 0" "(of_nat n :: u8) \<noteq> 1" "(of_nat n :: u8) \<noteq> 2"
  proof -
    have "unat (of_nat n :: u8) \<noteq> unat (0 :: u8)" "unat (of_nat n :: u8) \<noteq> unat (1 :: u8)"
      "unat (of_nat n :: u8) \<noteq> unat (2 :: u8)" using un n by simp_all
    then show "(of_nat n :: u8) \<noteq> 0" "(of_nat n :: u8) \<noteq> 1" "(of_nat n :: u8) \<noteq> 2" by metis+
  qed
  have padded: "length (cs @ pad) = n + n mod 2" by (simp add: pad_def n_def odd_iff_mod_2_eq_one)
  have decode: "rle_decode (code @ rest) row rows = rle_decode rest (row @ cs) rows" for rest row rows
  proof -
    have "rle_decode (code @ rest) row rows =
        rle_decode (drop (n + n mod 2) ((cs @ pad) @ rest)) (row @ take n ((cs @ pad) @ rest)) rows"
      unfolding code_def using not padded un by (simp add: Let_def)
    also have "drop (n + n mod 2) ((cs @ pad) @ rest) = rest" using padded by simp
    also have "take n ((cs @ pad) @ rest) = cs" by (simp add: n_def)
    finally show ?thesis .
  qed
  have len: "length code = 2 + n + length pad" "length pad \<le> 1" "even (length code)"
    by (simp_all add: code_def n_def pad_def)
  have "rle_emits base capacity cs (out, at) (Some ((splice out (base + at) code, at + length code), Inr ()))"
    by (rule emits_code [OF assms(1) _ len(3) decode]) (use False len in \<open>simp add: n_def\<close>)
  moreover have "rle_literal base capacity cs (out, at) = Some ((splice out (base + at) code, at + length code), Inr ())"
  proof -
    have w: "wrs out (base + at) (0 # of_nat n # cs) = Some (splice out (base + at) (0 # of_nat n # cs))"
      using False assms(1) by (intro wrs_splice) (simp add: n_def)
    have "wr (splice out (base + at) (0 # of_nat n # cs)) (base + (at + 2 + n)) 0 =
        Some (splice out (base + at) ((0 # of_nat n # cs) @ [0]))"
      using False assms(1) splice_append [of "base + at" "0 # of_nat n # cs" "[0]" out]
      by (subst wr_splice) (auto simp: n_def add.assoc)
    then show ?thesis
      using False w assms(4) unfolding rle_literal_def Let_def prod.case
      by (auto simp: n_def [symmetric] code_def pad_def simp del: wrs.simps)
  qed
  ultimately show ?thesis by simp
qed (simp add: rle_literal_def emits_full)

lemma emits_row:
  assumes "base + capacity \<le> length (fst st)" "snd st \<le> capacity" "even (snd st)"
  shows "rle_emits base capacity row st (rle_row base capacity row st)"
  using assms
proof (induction base capacity row st rule: rle_row.induct)
  case (1 base capacity st)
  then show ?case by (simp add: emits_nothing)
next
  case (2 base capacity c cs st)
  define row where "row = c # cs"
  define run where "run = run_from c 1 cs"
  define n where "n = literal_from 0 row"
  obtain out at where st: "st = (out, at)" by (cases st)
  note run = run_from_replicate [OF run_def [symmetric], folded row_def]
  have lit: "n \<le> 255" "length (take n row) = n"
    using literal_from_bounds [of 0 row] by (simp_all add: n_def)
  show ?case
  proof (cases "run \<ge> 2")
    case True
    have "rle_emits base capacity (take run row @ drop run row) st
        (andthen (rle_run base capacity run c st) (\<lambda>_ st. rle_row base capacity (drop run row) st))"
    proof (rule emits_andthen)
      show "rle_emits base capacity (take run row) st (rle_run base capacity run c st)"
        unfolding st run(1) using 2(4) run by (intro emits_run) (auto simp: st)
      show "rle_emits base capacity (drop run row) st' (rle_row base capacity (drop run row) st')"
        if "rle_run base capacity run c st = Some (st', Inr u)" "length (fst st') = length (fst st)"
          "even (snd st') = even (snd st)" "snd st' \<le> capacity" for st' u
        using 2(1) [OF row_def run_def True that(1)] that 2(4-6) by simp
    qed (use 2(4) in simp)
    then show ?thesis using True by (simp add: row_def run_def Let_def)
  next
    case short: False
    show ?thesis
    proof (cases "n < 3")
      case True
      have "rle_emits base capacity (take n row @ drop n row) st
          (andthen (rle_singles base capacity (take n row) st) (\<lambda>_ st. rle_row base capacity (drop n row) st))"
      proof (rule emits_andthen)
        show "rle_emits base capacity (take n row) st (rle_singles base capacity (take n row) st)"
          by (rule emits_singles) (use 2 in auto)
        show "rle_emits base capacity (drop n row) st' (rle_row base capacity (drop n row) st')"
          if "rle_singles base capacity (take n row) st = Some (st', Inr u)" "length (fst st') = length (fst st)"
            "even (snd st') = even (snd st)" "snd st' \<le> capacity" for st' u
          using 2(2) [OF row_def run_def short n_def True that(1)] that 2(4-6) by simp
      qed (use 2(4) in simp)
      then show ?thesis using short True by (simp add: row_def run_def n_def Let_def)
    next
      case False
      have "rle_emits base capacity (take n row @ drop n row) st
          (andthen (rle_literal base capacity (take n row) st) (\<lambda>_ st. rle_row base capacity (drop n row) st))"
      proof (rule emits_andthen)
        show "rle_emits base capacity (take n row) st (rle_literal base capacity (take n row) st)"
          unfolding st by (rule emits_literal) (use 2(4-6) st lit False in auto)
        show "rle_emits base capacity (drop n row) st' (rle_row base capacity (drop n row) st')"
          if "rle_literal base capacity (take n row) st = Some (st', Inr u)" "length (fst st') = length (fst st)"
            "even (snd st') = even (snd st)" "snd st' \<le> capacity" for st' u
          using 2(3) [OF row_def run_def short n_def False that(1)] that 2(4-6) by simp
      qed (use 2(4) in simp)
      then show ?thesis using short False by (simp add: row_def run_def n_def Let_def)
    qed
  qed
qed

subsection \<open>Lines and the whole image\<close>

definition index_rows :: "bytes \<Rightarrow> nat \<Rightarrow> nat \<Rightarrow> bytes list" where
  "index_rows work w h = map (\<lambda>y. take w (drop (6144 + y * w) work)) [0..<h]"

text \<open>After \<open>y\<close> lines the code decodes to the first \<open>y\<close> rows; the last line ends the bitmap.\<close>

definition rle_lines :: "nat \<Rightarrow> bytes list \<Rightarrow> bytes \<Rightarrow> nat \<Rightarrow> nat \<Rightarrow> rle_state \<Rightarrow> bool" where
  "rle_lines base rows out capacity y st \<longleftrightarrow>
     (\<exists>code. fst st = splice out base code \<and> snd st = length code \<and> length code \<le> capacity \<and> even (length code) \<and>
        (\<forall>rest. rle_decode (code @ rest) [] [] =
           (if y = length rows then Some rows else rle_decode rest [] (take y rows))))"

lemma unat_work_indices: "unat V9X_WORK_INDICES = 6144"
  by (simp add: V9X_WORK_INDICES_def V9X_WORK_VALUES_def V9X_WORK_KEYS_def V9X_PALETTE_BYTES_def V9X_HASH_SLOTS_def)

lemma row_position:
  fixes w h :: u32
  assumes "unat w \<le> 4096" "unat h \<le> 4096" "y < unat h"
  shows "unat (of_nat y * w) = y * unat w" "y * unat w + unat w \<le> unat w * unat h"
proof -
  have "Suc y * unat w \<le> unat h * unat w" by (rule mult_le_mono1) (use assms in simp)
  then show le: "y * unat w + unat w \<le> unat w * unat h" by (simp add: mult.commute)
  have "unat w * unat h \<le> 4096 * 4096" using assms by (intro mult_le_mono)
  show "unat (of_nat y * w) = y * unat w"
  proof -
    have "unat (of_nat y :: u32) = y" using assms by (simp add: u32_of_nat)
    moreover have "y * unat w < 4294967296"
      using le \<open>unat w * unat h \<le> 4096 * 4096\<close> by linarith
    ultimately show ?thesis using u32_mult [of "of_nat y" w] by simp
  qed
qed

lemma rle_line_step:
  assumes small: "unat w \<le> 4096" "unat h \<le> 4096" and y: "y < unat h"
    and room: "base + capacity \<le> length out" and work: "6144 + unat w * unat h \<le> length work"
    and st: "rle_lines base (index_rows work (unat w) (unat h)) out capacity y st"
  shows "outcome (rle_line base capacity work w h y st)
    (\<lambda>_ st'. length (fst st') = length out \<and> take base (fst st') = take base out)
    (\<lambda>_ st'. rle_lines base (index_rows work (unat w) (unat h)) out capacity (Suc y) st')"
proof -
  define rows where "rows = index_rows work (unat w) (unat h)"
  have len: "length rows = unat h" by (simp add: rows_def index_rows_def)
  obtain code where code: "fst st = splice out base code" "snd st = length code" "length code \<le> capacity" "even (length code)"
    and dec: "\<And>rest. rle_decode (code @ rest) [] [] = rle_decode rest [] (take y rows)"
    using st y unfolding rle_lines_def rows_def [symmetric] len by auto
  note pos = row_position [OF small y]
  define row where "row = take (unat w) (drop (6144 + y * unat w) work)"
  have rds: "rds work (unat V9X_WORK_INDICES + unat (of_nat y * w)) (unat w) = Some row"
    unfolding unat_work_indices pos(1) row_def by (rule rds_Some) (use work pos(2) in linarith)
  have row: "rows ! y = row" using y by (simp add: rows_def index_rows_def row_def)
  have l: "length (fst st) = length out" unfolding code(1) by (rule length_splice) (use code(3) room in simp)
  have before: "take base (fst st) = take base out"
    unfolding code(1) by (rule take_splice_before) (use code(3) room in auto)
  have em: "rle_emits base capacity row st (rle_row base capacity row st)"
    by (rule emits_row) (use l room code in auto)
  have uy: "(of_nat y + 1 = h) \<longleftrightarrow> Suc y = unat h"
  proof -
    have "unat (of_nat y + 1 :: u32) = Suc y" using y small(2) by (simp add: u32_add u32_of_nat)
    then show ?thesis by (metis word_unat_eq_iff)
  qed
  define mark :: bytes where "mark = [0, if Suc y = unat h then 1 else 0]"
  show ?thesis
    using em [unfolded rle_emits_def]
  proof (rule outcome_cases)
    fix t and e :: unit
    assume "rle_row base capacity row st = Some (t, Inl e)"
      "length (fst t) = length (fst st) \<and> take base (fst t) = take base (fst st)"
    then show ?thesis using l before by (simp add: rle_line_def rds)
  next
    fix t and u :: unit
    assume t: "rle_row base capacity row st = Some (t, Inr u)"
      "\<exists>code. fst t = splice (fst st) (base + snd st) code \<and> snd t = snd st + length code \<and>
          snd t \<le> capacity \<and> even (length code) \<and>
          (\<forall>rest row' rows. rle_decode (code @ rest) row' rows = rle_decode rest (row' @ row) rows)"
    then obtain code' where code': "fst t = splice (fst st) (base + snd st) code'" "snd t = snd st + length code'"
      "snd t \<le> capacity" "even (length code')"
      "\<And>rest row' rows. rle_decode (code' @ rest) row' rows = rle_decode rest (row' @ row) rows" by blast
    have t1: "fst t = splice out base (code @ code')"
      using splice_append [of base code code' out] code code' room by simp
    have lt: "length (fst t) = length out" unfolding t1 by (rule length_splice) (use code code' room in simp)
    have bt: "take base (fst t) = take base out"
      unfolding t1 by (rule take_splice_before) (use code code' room in auto)
    show ?thesis
    proof (cases "snd t + 2 > capacity")
      case True
      then show ?thesis using t(1) lt bt by (cases t) (simp add: rle_line_def rds)
    next
      case False
      define all where "all = code @ code' @ mark"
      have al: "length all = snd t + 2" using code(2) code'(2) by (simp add: all_def mark_def)
      have "wrs (fst t) (base + snd t) mark = Some (splice (fst t) (base + snd t) mark)"
        using False lt room by (intro wrs_splice) (simp add: mark_def)
      moreover have "splice (fst t) (base + snd t) mark = splice out base all"
        using splice_append [of base "code @ code'" mark out] t1 code(2) code'(2) False room
        by (simp add: all_def mark_def)
      ultimately have run: "rle_line base capacity work w h y st = Some ((splice out base all, snd t + 2), Inr ())"
        using t(1) False by (cases t) (simp add: rle_line_def rds uy mark_def del: wrs.simps)
      have "rle_decode (all @ rest) [] [] =
          (if Suc y = length rows then Some rows else rle_decode rest [] (take (Suc y) rows))" for rest
      proof -
        have tk: "take (Suc y) rows = take y rows @ [row]" using y len row by (simp add: take_Suc_conv_app_nth)
        then have full: "Suc y = unat h \<Longrightarrow> take y rows @ [row] = rows" using len by (metis order_refl take_all)
        have "rle_decode (all @ rest) [] [] = rle_decode (code' @ mark @ rest) [] (take y rows)"
          using dec by (simp add: all_def)
        also have "\<dots> = rle_decode (mark @ rest) row (take y rows)" using code'(5) by simp
        also have "\<dots> = (if Suc y = length rows then Some rows else rle_decode rest [] (take (Suc y) rows))"
          using tk len full by (simp add: mark_def)
        finally show ?thesis .
      qed
      then have "rle_lines base rows out capacity (Suc y) (splice out base all, snd t + 2)"
        unfolding rle_lines_def
        by (intro exI [of _ all]) (use al False code(2,4) code'(2,4) in \<open>auto simp: all_def mark_def\<close>)
      then show ?thesis using run by (simp add: rows_def)
    qed
  qed
qed

text \<open>The encoder stays inside its capacity and touches nothing before it; what it writes, when it
  succeeds, decodes to the index rows.\<close>

lemma v9x_shotxf_rle8_eq:
  assumes small: "unat w \<le> 4096" "unat h \<le> 4096" "1 \<le> unat h"
    and room: "base + unat capacity \<le> length out" and work: "6144 + unat w * unat h \<le> length work"
  shows "\<exists>out' n. v9x_shotxf_rle8 work w h out base capacity = Some (out', n) \<and>
    length out' = length out \<and> take base out' = take base out \<and> n \<le> unat capacity \<and>
    (n \<noteq> 0 \<longrightarrow> rle_decode (take n (drop base out')) [] [] = Some (index_rows work (unat w) (unat h)))"
proof -
  define rows where "rows = index_rows work (unat w) (unat h)"
  have len: "length rows = unat h" by (simp add: rows_def index_rows_def)
  have "outcome (for_out 0 (unat h) (rle_line base (unat capacity) work w h) (out, 0))
    (\<lambda>_ st'. length (fst st') = length out \<and> take base (fst st') = take base out)
    (\<lambda>_ st'. rle_lines base rows out (unat capacity) (0 + unat h) st')"
  proof (rule for_out_rule)
    show "rle_lines base rows out (unat capacity) 0 (out, 0)"
      using small(3) len by (auto simp: rle_lines_def intro!: exI [of _ "[]"])
  next
    fix y t assume "0 \<le> y" "y < 0 + unat h" "rle_lines base rows out (unat capacity) y t"
    then show "outcome (rle_line base (unat capacity) work w h y t)
      (\<lambda>_ st'. length (fst st') = length out \<and> take base (fst st') = take base out)
      (\<lambda>_ st'. rle_lines base rows out (unat capacity) (Suc y) st')"
      unfolding rows_def by (intro rle_line_step small room work) auto
  qed
  then show ?thesis
  proof (rule outcome_cases)
    fix t and e :: unit
    assume "for_out 0 (unat h) (rle_line base (unat capacity) work w h) (out, 0) = Some (t, Inl e)"
      "length (fst t) = length out \<and> take base (fst t) = take base out"
    then show ?thesis by (cases t) (simp add: v9x_shotxf_rle8_def)
  next
    fix t and u :: unit
    assume t: "for_out 0 (unat h) (rle_line base (unat capacity) work w h) (out, 0) = Some (t, Inr u)"
      "rle_lines base rows out (unat capacity) (0 + unat h) t"
    then obtain code where code: "fst t = splice out base code" "snd t = length code" "length code \<le> unat capacity"
      "\<And>rest. rle_decode (code @ rest) [] [] = Some rows"
      using len by (auto simp: rle_lines_def)
    have fits: "base + length code \<le> length out" using code(3) room by linarith
    have "take (length code) (drop base (fst t)) = code" unfolding code(1) by (rule take_drop_splice) (rule fits)
    then have "rle_decode (take (snd t) (drop base (fst t))) [] [] = Some rows" using code(2) code(4) [of "[]"] by simp
    moreover have "length (fst t) = length out" unfolding code(1) by (rule length_splice) (rule fits)
    moreover have "take base (fst t) = take base out"
      unfolding code(1) by (rule take_splice_before) (use fits in auto)
    ultimately show ?thesis using t(1) code(2,3) by (cases t) (simp add: v9x_shotxf_rle8_def rows_def)
  qed
qed

end
