(* ===== verification/ShotIndex.thy ===== *)
theory ShotIndex
  imports ShotScale
begin

section \<open>Screenshot shaping: the colour table refines a list of distinct colours\<close>

text \<open>
  The work area holds a palette, an open-addressing hash table of colours with linear probing, and
  one index per pixel. The abstract counterpart is the list of distinct colours in the order of
  their first appearance: \<open>table_of work cs\<close> says that the table holds exactly the colours \<open>cs\<close>.
  Probing always ends, because at most 256 of the 1024 slots are in use, finds a colour that is in
  the table, and stops at an empty slot for one that is not.
\<close>

type_synonym colour = "u8 \<times> u8 \<times> u8"

definition colour_key :: "colour \<Rightarrow> u32" where
  "colour_key p = (case p of (b, g, r) \<Rightarrow> u32_of b g r 0)"

definition colour_hash :: "colour \<Rightarrow> nat" where
  "colour_hash p = unat (drop_bit 22 (colour_key p * 2654435761) AND 1023)"

definition stored_key :: "bytes \<Rightarrow> nat \<Rightarrow> u32" where
  "stored_key work s =
     u32_of (work ! (1024 + 4 * s)) (work ! (1024 + 4 * s + 1)) (work ! (1024 + 4 * s + 2)) (work ! (1024 + 4 * s + 3))"

definition stored_value :: "bytes \<Rightarrow> nat \<Rightarrow> nat" where
  "stored_value work s = unat (work ! (5120 + s))"

definition used_slots :: "bytes \<Rightarrow> nat set" where
  "used_slots work = {s. s < 1024 \<and> stored_key work s \<noteq> 0}"

definition table_of :: "bytes \<Rightarrow> colour list \<Rightarrow> bool" where
  "table_of work cs \<longleftrightarrow>
     distinct cs \<and> card (used_slots work) = length cs \<and>
     (\<forall>s \<in> used_slots work. stored_value work s < length cs \<and>
        stored_key work s = colour_key (cs ! stored_value work s) + 1 \<and>
        (\<exists>d. s = (colour_hash (cs ! stored_value work s) + d) mod 1024 \<and>
             (\<forall>e < d. stored_key work ((colour_hash (cs ! stored_value work s) + e) mod 1024) \<noteq> 0))) \<and>
     (\<forall>v < length cs. \<exists>s \<in> used_slots work. stored_value work s = v)"

subsection \<open>Keys\<close>

lemma colour_key_code: "push_bit 16 (ucast r) OR push_bit 8 (ucast g) OR ucast b = colour_key (b, g, r)"
  by (rule bit_word_eqI) (auto simp: colour_key_def u32_of_def bit_simps)

lemma colour_key_inject: "colour_key p = colour_key q \<longleftrightarrow> p = q"
proof
  assume eq: "colour_key p = colour_key q"
  obtain b g r b' g' r' where "p = (b, g, r)" "q = (b', g', r')" by (metis prod_cases3)
  then show "p = q" using arg_cong [OF eq, of le32] by (simp add: colour_key_def le32_u32_of)
qed simp

lemma colour_key_less: "unat (colour_key p) < 16777216"
proof -
  obtain b g r where p: "p = (b, g, r)" by (metis prod_cases3)
  show ?thesis
    using unat_u8_less [of b] unat_u8_less [of g] unat_u8_less [of r]
    by (simp add: p colour_key_def unat_u32_of del: unat_u8_less)
qed

lemma colour_key_nonzero: "colour_key p + 1 \<noteq> 0"
proof -
  have "unat (colour_key p + 1) = unat (colour_key p) + 1"
    using colour_key_less [of p] by (simp add: u32_add)
  then show ?thesis by (metis add_is_0 one_neq_zero unsigned_0)
qed

lemma and_1023: "unat (x AND 1023) = unat x mod 1024" for x :: u32
proof -
  have "x AND 1023 = take_bit 10 x" by (simp add: take_bit_eq_mask mask_eq_exp_minus_1)
  then have "unat (x AND 1023) = take_bit 10 (unat x)" by (simp only: unsigned_take_bit_eq)
  then show ?thesis by (simp add: take_bit_eq_mod)
qed

lemma colour_hash_less: "colour_hash p < 1024"
  by (simp add: colour_hash_def and_1023)

subsection \<open>Reading the table\<close>

lemma get32_key:
  assumes "6144 \<le> length work" "s < 1024"
  shows "v9x_get32 work (unat V9X_WORK_KEYS + unat (of_nat s * 4 :: u32)) = Some (stored_key work s)"
proof -
  have "unat (of_nat s * 4 :: u32) = 4 * s" using assms(2) by (simp add: u32_mult u32_of_nat)
  then show ?thesis
    using assms by (simp add: v9x_get32_def V9X_WORK_KEYS_def V9X_PALETTE_BYTES_def rd_Some stored_key_def)
qed

lemma next_slot:
  "s < 1024 \<Longrightarrow> (of_nat s + 1) AND (V9X_HASH_SLOTS - 1) = (of_nat ((s + 1) mod 1024) :: u32)"
  by (simp add: V9X_HASH_SLOTS_def word_unat_eq_iff and_1023 u32_add u32_of_nat)

lemma index_probe_found:
  assumes "6144 \<le> length work" "st < 1024"
    and "\<And>e. e < d \<Longrightarrow> stored_key work ((st + e) mod 1024) \<notin> {0, key + 1}"
    and "stored_key work ((st + d) mod 1024) \<in> {0, key + 1}"
  shows "index_probe work key (of_nat st) =
    Some (of_nat ((st + d) mod 1024), stored_key work ((st + d) mod 1024))"
  using assms
proof (induction d arbitrary: st)
  case 0
  have "stored_key work st \<in> {0, key + 1}" using 0 by simp
  then show ?case
    using 0 by (subst index_probe.simps) (auto simp: get32_key)
next
  case (Suc d)
  have first: "stored_key work st \<notin> {0, key + 1}" using Suc.prems(3) [of 0] Suc.prems(2) by simp
  define st' where "st' = (st + 1) mod 1024"
  have "index_probe work key (of_nat st) = index_probe work key (of_nat st')"
    using Suc.prems(1,2) first by (subst index_probe.simps) (simp add: get32_key next_slot st'_def)
  also have "\<dots> = Some (of_nat ((st' + d) mod 1024), stored_key work ((st' + d) mod 1024))"
  proof (rule Suc.IH)
    show "stored_key work ((st' + e) mod 1024) \<notin> {0, key + 1}" if "e < d" for e
      using Suc.prems(3) [of "Suc e"] that by (simp add: st'_def mod_add_left_eq)
    show "stored_key work ((st' + d) mod 1024) \<in> {0, key + 1}"
      using Suc.prems(4) by (simp add: st'_def mod_add_left_eq)
  qed (use Suc.prems in \<open>simp_all add: st'_def\<close>)
  finally show ?case by (simp add: st'_def mod_add_left_eq)
qed

lemma empty_slot:
  assumes "table_of work cs" "length cs \<le> 256"
  obtains s where "s < 1024" "stored_key work s = 0"
proof -
  have "finite (used_slots work)" by (simp add: used_slots_def)
  have "card (used_slots work) < card {..<1024 :: nat}" using assms by (simp add: table_of_def)
  then have "used_slots work \<noteq> {..<1024}" by (metis less_irrefl)
  moreover have "used_slots work \<subseteq> {..<1024}" by (auto simp: used_slots_def)
  ultimately obtain s where "s < 1024" "s \<notin> used_slots work" by blast
  then show thesis using that by (simp add: used_slots_def)
qed

text \<open>Probing ends, and tells whether the colour is in the table.\<close>

lemma index_probe_table:
  assumes work: "6144 \<le> length work" and tab: "table_of work cs" "length cs \<le> 256"
  obtains s d where "index_probe work (colour_key p) (of_nat (colour_hash p)) = Some (of_nat s, stored_key work s)"
    "s < 1024" "s = (colour_hash p + d) mod 1024"
    "\<And>e. e < d \<Longrightarrow> stored_key work ((colour_hash p + e) mod 1024) \<noteq> 0"
    "p \<in> set cs \<Longrightarrow> s \<in> used_slots work \<and> stored_key work s = colour_key p + 1 \<and> cs ! stored_value work s = p"
    "p \<notin> set cs \<Longrightarrow> stored_key work s = 0"
proof -
  define h where "h = colour_hash p"
  define stop where "stop d \<longleftrightarrow> stored_key work ((h + d) mod 1024) \<in> {0, colour_key p + 1}" for d
  have h: "h < 1024" by (simp add: h_def colour_hash_less)
  obtain s0 where s0: "s0 < 1024" "stored_key work s0 = 0" using tab by (rule empty_slot)
  have "h + (1024 + s0 - h) = s0 + 1024" using h by linarith
  then have "(h + (1024 + s0 - h)) mod 1024 = s0" using s0(1) by (simp only: mod_add_self2 mod_less)
  then have "stop (1024 + s0 - h)" using s0(2) by (simp add: stop_def)
  define d where "d = (LEAST d. stop d)"
  have d: "stop d" unfolding d_def using \<open>stop (1024 + s0 - h)\<close> by (rule LeastI)
  have before: "\<not> stop e" if "e < d" for e using that not_less_Least unfolding d_def by blast
  define s where "s = (h + d) mod 1024"
  have s: "s < 1024" by (simp add: s_def)
  have probe: "index_probe work (colour_key p) (of_nat h) = Some (of_nat s, stored_key work s)"
    unfolding s_def by (rule index_probe_found [OF work h]) (use d before in \<open>auto simp: stop_def\<close>)
  have here: "cs ! stored_value work s = p \<and> s \<in> used_slots work" if "stored_key work s = colour_key p + 1"
  proof -
    have "s \<in> used_slots work" using that colour_key_nonzero s by (simp add: used_slots_def)
    moreover from this have "stored_key work s = colour_key (cs ! stored_value work s) + 1"
      using tab(1) by (simp add: table_of_def)
    ultimately show ?thesis using that by (simp add: colour_key_inject)
  qed
  have there: "stored_key work s = colour_key p + 1" if p: "p \<in> set cs"
  proof (rule ccontr)
    assume no: "stored_key work s \<noteq> colour_key p + 1"
    then have empty: "stored_key work s = 0" using d by (simp add: stop_def s_def)
    obtain v where v: "v < length cs" "cs ! v = p" using p by (metis in_set_conv_nth)
    then obtain t where t: "t \<in> used_slots work" "stored_value work t = v"
      using tab(1) unfolding table_of_def by blast
    then obtain c where c: "t = (h + c) mod 1024" "\<forall>e < c. stored_key work ((h + e) mod 1024) \<noteq> 0"
      using tab(1) v unfolding table_of_def h_def by blast
    have "stored_key work t = colour_key p + 1" using tab(1) t v by (auto simp: table_of_def)
    then have "stop c" using c(1) by (simp add: stop_def)
    then have "d \<le> c" using before not_le by blast
    then show False
      using c(2) empty no \<open>stored_key work t = colour_key p + 1\<close> c(1) by (cases "d = c") (auto simp: s_def)
  qed
  show thesis
  proof
    show "index_probe work (colour_key p) (of_nat (colour_hash p)) = Some (of_nat s, stored_key work s)"
      using probe by (simp add: h_def)
    show "s = (colour_hash p + d) mod 1024" by (simp add: s_def h_def)
    show "stored_key work ((colour_hash p + e) mod 1024) \<noteq> 0" if "e < d" for e
      using before [OF that] by (simp add: stop_def h_def)
    show "s \<in> used_slots work \<and> stored_key work s = colour_key p + 1 \<and> cs ! stored_value work s = p" if "p \<in> set cs"
      using there [OF that] here by simp
    show "stored_key work s = 0" if "p \<notin> set cs"
    proof (rule ccontr)
      assume "stored_key work s \<noteq> 0"
      then have "stored_key work s = colour_key p + 1" using d by (simp add: stop_def s_def)
      then have a: "cs ! stored_value work s = p" "s \<in> used_slots work" using here by auto
      then have "stored_value work s < length cs" using tab(1) by (simp add: table_of_def)
      then show False using a(1) that by (metis nth_mem)
    qed
  qed (rule s)
qed

subsection \<open>Adding a colour\<close>

lemma table_of_insert:
  assumes tab: "table_of work cs" and new: "p \<notin> set cs"
    and s: "s < 1024" "stored_key work s = 0" "s = (colour_hash p + d) mod 1024"
      "\<And>e. e < d \<Longrightarrow> stored_key work ((colour_hash p + e) mod 1024) \<noteq> 0"
    and key: "\<And>t. t < 1024 \<Longrightarrow> stored_key work' t = (if t = s then colour_key p + 1 else stored_key work t)"
    and val: "\<And>t. t < 1024 \<Longrightarrow> stored_value work' t = (if t = s then length cs else stored_value work t)"
  shows "table_of work' (cs @ [p])"
proof -
  have used: "used_slots work' = insert s (used_slots work)"
    using s(1) key by (auto simp: used_slots_def colour_key_nonzero split: if_splits)
  have fresh: "s \<notin> used_slots work" using s(2) by (simp add: used_slots_def)
  have fin: "finite (used_slots work)" by (simp add: used_slots_def)
  have keep: "stored_key work t \<noteq> 0 \<Longrightarrow> stored_key work' t \<noteq> 0" if "t < 1024" for t
    using key [OF that] by (simp add: colour_key_nonzero)
  have slots: "stored_value work' t < length (cs @ [p]) \<and>
      stored_key work' t = colour_key ((cs @ [p]) ! stored_value work' t) + 1 \<and>
      (\<exists>d. t = (colour_hash ((cs @ [p]) ! stored_value work' t) + d) mod 1024 \<and>
        (\<forall>e < d. stored_key work' ((colour_hash ((cs @ [p]) ! stored_value work' t) + e) mod 1024) \<noteq> 0))"
    if t: "t \<in> used_slots work'" for t
  proof (cases "t = s")
    case True
    have "\<forall>e < d. stored_key work' ((colour_hash p + e) mod 1024) \<noteq> 0" using s(4) keep by simp
    then have "\<exists>d. t = (colour_hash p + d) mod 1024 \<and>
        (\<forall>e < d. stored_key work' ((colour_hash p + e) mod 1024) \<noteq> 0)" using True s(3) by blast
    moreover have "stored_value work' t = length cs" "stored_key work' t = colour_key p + 1"
      using True s(1) key val by auto
    ultimately show ?thesis by simp
  next
    case False
    then have old: "t \<in> used_slots work" "t < 1024" using t used by (auto simp: used_slots_def)
    then have v: "stored_value work t < length cs" "stored_key work t = colour_key (cs ! stored_value work t) + 1"
      using tab by (simp_all add: table_of_def)
    obtain c where c: "t = (colour_hash (cs ! stored_value work t) + c) mod 1024"
      "\<forall>e < c. stored_key work ((colour_hash (cs ! stored_value work t) + e) mod 1024) \<noteq> 0"
      using tab old(1) unfolding table_of_def by blast
    have "\<forall>e < c. stored_key work' ((colour_hash (cs ! stored_value work t) + e) mod 1024) \<noteq> 0"
      using c(2) keep by simp
    then have "\<exists>d. t = (colour_hash (cs ! stored_value work t) + d) mod 1024 \<and>
        (\<forall>e < d. stored_key work' ((colour_hash (cs ! stored_value work t) + e) mod 1024) \<noteq> 0)"
      using c(1) by blast
    moreover have "stored_value work' t = stored_value work t" "stored_key work' t = stored_key work t"
      using False old(2) key val by auto
    ultimately show ?thesis using v by (simp add: nth_append)
  qed
  have onto: "\<exists>t \<in> used_slots work'. stored_value work' t = v" if v: "v < length (cs @ [p])" for v
  proof (cases "v = length cs")
    case True
    then show ?thesis using used val [OF s(1)] by auto
  next
    case False
    then have "v < length cs" using v by simp
    then obtain t where t: "t \<in> used_slots work" "stored_value work t = v" using tab unfolding table_of_def by blast
    then have "t < 1024" "t \<noteq> s" using fresh by (auto simp: used_slots_def)
    then have "stored_value work' t = v" using val t(2) by simp
    then show ?thesis using used t(1) by blast
  qed
  have "distinct (cs @ [p])" using tab new by (simp add: table_of_def)
  moreover have "card (used_slots work') = length (cs @ [p])"
    using tab used fresh fin by (simp add: table_of_def)
  ultimately show ?thesis unfolding table_of_def using slots onto by blast
qed

definition palette_entry :: "colour \<Rightarrow> bytes" where
  "palette_entry p = (case p of (b, g, r) \<Rightarrow> [b, g, r, 0])"

definition palette_bytes :: "colour list \<Rightarrow> bytes" where
  "palette_bytes cs = concat (map palette_entry cs)"

definition add_colour :: "colour \<Rightarrow> colour list \<Rightarrow> colour list" where
  "add_colour p cs = (if p \<in> set cs then cs else cs @ [p])"

text \<open>The distinct colours of a list of pixels, in the order of their first appearance.\<close>

definition palette_of :: "colour list \<Rightarrow> colour list" where
  "palette_of ps = fold add_colour ps []"

definition colours_ok :: "bytes \<Rightarrow> colour list \<Rightarrow> bool" where
  "colours_ok work cs \<longleftrightarrow>
     6144 \<le> length work \<and> length cs \<le> 256 \<and> table_of work cs \<and> take (4 * length cs) work = palette_bytes cs"

lemma length_palette_entry [simp]: "length (palette_entry p) = 4"
  by (simp add: palette_entry_def split: prod.split)

lemma length_palette_bytes [simp]: "length (palette_bytes cs) = 4 * length cs"
  unfolding palette_bytes_def by (subst length_concat_const [where c = 4]) simp_all

lemma palette_of_snoc: "palette_of (ps @ [p]) = add_colour p (palette_of ps)"
  by (simp add: palette_of_def)

lemma length_add_colour: "length cs \<le> length (add_colour p cs)"
  by (simp add: add_colour_def)

lemma length_fold_add_colour: "length cs \<le> length (fold add_colour ps cs)"
  by (induction ps arbitrary: cs) (auto intro: order_trans [OF length_add_colour])

lemma length_palette_of_append: "length (palette_of ps) \<le> length (palette_of (ps @ qs))"
  by (simp add: palette_of_def length_fold_add_colour)

lemma set_add_colour [simp]: "set (add_colour p cs) = insert p (set cs)"
  by (auto simp: add_colour_def)

lemma distinct_palette_of: "distinct (palette_of ps)"
  by (induction ps rule: rev_induct) (auto simp: palette_of_snoc add_colour_def, simp add: palette_of_def)

lemma set_palette_of: "set (palette_of ps) = set ps"
  by (induction ps rule: rev_induct) (auto simp: palette_of_snoc, simp_all add: palette_of_def)

lemma stored_splice:
  assumes "i + length ys \<le> length work" "6144 \<le> length work" "t < 1024"
    and "i + length ys \<le> 1024 + 4 * t \<or> 1028 + 4 * t \<le> i"
  shows "stored_key (splice work i ys) t = stored_key work t"
  using assms by (auto simp: stored_key_def nth_splice)

lemma value_splice:
  assumes "i + length ys \<le> length work" "6144 \<le> length work" "t < 1024"
    and "i + length ys \<le> 5120 + t \<or> 5121 + t \<le> i"
  shows "stored_value (splice work i ys) t = stored_value work t"
  using assms by (auto simp: stored_value_def nth_splice)

lemma stored_splice_key:
  assumes "6144 \<le> length work" "t < 1024"
  shows "stored_key (splice work (1024 + 4 * t) (le32 v)) t = v"
  using assms unfolding stored_key_def
  by (simp add: nth_splice) (simp add: le32_def u32_of_le32)

lemma index_colour_new:
  assumes ok: "colours_ok work cs" and new: "(b, g, r) \<notin> set cs" and room: "length cs < 256"
  shows "\<exists>work'. index_colour (ucast b) (ucast g) (ucast r) (work, of_nat (length cs)) =
      Some ((work', of_nat (length cs + 1)), Inr (of_nat (length cs))) \<and>
    colours_ok work' (cs @ [(b, g, r)]) \<and> length work' = length work \<and> drop 6144 work' = drop 6144 work"
proof -
  define p where "p = (b, g, r)"
  have work: "6144 \<le> length work" and tab: "table_of work cs" and pal: "take (4 * length cs) work = palette_bytes cs"
    using ok by (simp_all add: colours_ok_def)
  obtain s d where probe: "index_probe work (colour_key p) (of_nat (colour_hash p)) = Some (of_nat s, stored_key work s)"
    and s: "s < 1024" "s = (colour_hash p + d) mod 1024"
      "\<And>e. e < d \<Longrightarrow> stored_key work ((colour_hash p + e) mod 1024) \<noteq> 0" "stored_key work s = 0"
    using index_probe_table [OF work tab, of p] room new unfolding p_def by (metis less_imp_le)
  define w1 where "w1 = splice work (1024 + 4 * s) (le32 (colour_key p + 1))"
  define w2 where "w2 = splice w1 (5120 + s) [of_nat (length cs)]"
  define w3 where "w3 = splice w2 (4 * length cs) [b, g, r, 0]"
  have l1: "length w1 = length work" unfolding w1_def by (rule length_splice) (use work s(1) in simp)
  have l2: "length w2 = length work" unfolding w2_def using l1 work s(1) by (subst length_splice) auto
  have l3: "length w3 = length work" unfolding w3_def using l2 work room by (subst length_splice) auto
  have start: "drop_bit 22 (colour_key p * 2654435761) AND (V9X_HASH_SLOTS - 1) = of_nat (colour_hash p)"
    by (simp add: V9X_HASH_SLOTS_def colour_hash_def)
  have at: "unat V9X_WORK_KEYS + unat (of_nat s * 4 :: u32) = 1024 + 4 * s"
    "unat V9X_WORK_VALUES + unat (of_nat s :: u32) = 5120 + s"
    "unat (of_nat (length cs) * 4 :: u32) = 4 * length cs"
    using s(1) room
    by (simp_all add: V9X_WORK_VALUES_def V9X_WORK_KEYS_def V9X_PALETTE_BYTES_def V9X_HASH_SLOTS_def u32_mult u32_of_nat)
  have p1: "v9x_put32 work (1024 + 4 * s) (colour_key p + 1) = Some w1"
    unfolding put32_le32 w1_def by (rule wrs_splice) (use work s(1) in simp)
  have p2: "wr w1 (5120 + s) (of_nat (length cs)) = Some w2"
    unfolding w2_def by (rule wr_splice) (use l1 work s(1) in simp)
  have p3: "wrs w2 (4 * length cs) [b, g, r, 0] = Some w3"
    unfolding w3_def by (rule wrs_splice) (use l2 work room in simp)
  have not256: "(of_nat (length cs) :: u32) \<noteq> 256"
  proof
    assume "(of_nat (length cs) :: u32) = 256"
    then have "unat (of_nat (length cs) :: u32) = 256" by simp
    then show False using room by (simp add: u32_of_nat)
  qed
  have low: "ucast (of_nat (length cs) :: u32) = (of_nat (length cs) :: u8)"
    using room by (simp add: word_unat_eq_iff unat_low_byte u32_of_nat unsigned_ucast_eq unat_of_nat take_bit_eq_mod)
  have bytes: "ucast (ucast x :: u32) = x" for x :: u8 by (rule bit_word_eqI) (auto simp: bit_simps)
  have run: "index_colour (ucast b) (ucast g) (ucast r) (work, of_nat (length cs)) =
      Some ((w3, of_nat (length cs + 1)), Inr (of_nat (length cs)))"
    unfolding index_colour_def Let_def prod.case colour_key_code p_def [symmetric] start probe
    using s(4) colour_key_nonzero [of p] not256 p1 p2 p3
    by (simp add: at low bytes add.commute del: wrs.simps)
  have key: "stored_key w3 t = (if t = s then colour_key p + 1 else stored_key work t)" if t: "t < 1024" for t
  proof -
    have "stored_key w3 t = stored_key w2 t"
      unfolding w3_def by (rule stored_splice) (use t l2 work room in auto)
    also have "\<dots> = stored_key w1 t"
      unfolding w2_def by (rule stored_splice) (use t l1 work s(1) in auto)
    also have "\<dots> = (if t = s then colour_key p + 1 else stored_key work t)"
    proof (cases "t = s")
      case True
      then show ?thesis unfolding w1_def using stored_splice_key [OF work s(1)] by simp
    next
      case False
      then have "1028 + 4 * s \<le> 1024 + 4 * t \<or> 1028 + 4 * t \<le> 1024 + 4 * s" by linarith
      then show ?thesis using False t work s(1) unfolding w1_def by (subst stored_splice) auto
    qed
    finally show ?thesis .
  qed
  have val: "stored_value w3 t = (if t = s then length cs else stored_value work t)" if t: "t < 1024" for t
  proof -
    have "stored_value w3 t = stored_value w2 t"
      unfolding w3_def by (rule value_splice) (use t l2 work room in auto)
    also have "\<dots> = (if t = s then length cs else stored_value w1 t)"
      unfolding w2_def stored_value_def using t l1 work s(1) room by (auto simp: nth_splice unat_of_nat)
    also have "stored_value w1 t = stored_value work t"
      unfolding w1_def by (rule value_splice) (use t work s(1) in auto)
    finally show ?thesis .
  qed
  have "table_of w3 (cs @ [p])"
    by (rule table_of_insert [OF tab _ s(1,4,2,3) key val]) (use new in \<open>simp_all add: p_def\<close>)
  moreover have "take (4 * length (cs @ [p])) w3 = palette_bytes (cs @ [p])"
  proof -
    have "take (4 * length cs) w2 = take (4 * length cs) work"
      unfolding w2_def w1_def using work s(1) room by (simp add: take_splice_before)
    then have "take (4 * length cs) w2 = palette_bytes cs" using pal by simp
    moreover have "palette_bytes (cs @ [p]) = palette_bytes cs @ [b, g, r, 0]"
      by (simp add: palette_bytes_def palette_entry_def p_def)
    ultimately show ?thesis
      unfolding w3_def splice_def using l2 work room by simp
  qed
  moreover have "drop 6144 w3 = drop 6144 work"
    by (rule nth_equalityI) (use l1 l2 l3 work s(1) room in \<open>auto simp: w3_def w2_def w1_def nth_splice\<close>)
  ultimately show ?thesis using run l3 work room by (auto simp: colours_ok_def p_def)
qed

lemma index_colour_known:
  assumes ok: "colours_ok work cs" and known: "(b, g, r) \<in> set cs"
  shows "\<exists>v. index_colour (ucast b) (ucast g) (ucast r) (work, n) = Some ((work, n), Inr v) \<and>
    unat v < length cs \<and> cs ! unat v = (b, g, r)"
proof -
  define p where "p = (b, g, r)"
  have work: "6144 \<le> length work" and tab: "table_of work cs" "length cs \<le> 256"
    using ok by (simp_all add: colours_ok_def)
  obtain s where probe: "index_probe work (colour_key p) (of_nat (colour_hash p)) = Some (of_nat s, stored_key work s)"
    and s: "s < 1024" "s \<in> used_slots work" "stored_key work s = colour_key p + 1" "cs ! stored_value work s = p"
    using index_probe_table [OF work tab, of p] known unfolding p_def by metis
  have start: "drop_bit 22 (colour_key p * 2654435761) AND (V9X_HASH_SLOTS - 1) = of_nat (colour_hash p)"
    by (simp add: V9X_HASH_SLOTS_def colour_hash_def)
  have at: "unat V9X_WORK_VALUES + unat (of_nat s :: u32) = 5120 + s"
    using s(1) by (simp add: V9X_WORK_VALUES_def V9X_WORK_KEYS_def V9X_PALETTE_BYTES_def V9X_HASH_SLOTS_def u32_of_nat)
  have "rd work (5120 + s) = Some (work ! (5120 + s))" using work s(1) by (simp add: rd_Some)
  then have "index_colour (ucast b) (ucast g) (ucast r) (work, n) = Some ((work, n), Inr (work ! (5120 + s)))"
    unfolding index_colour_def Let_def prod.case colour_key_code p_def [symmetric] start probe
    using s(3) by (simp add: at)
  moreover have "stored_value work s < length cs" using tab(1) s(2) by (simp add: table_of_def)
  ultimately show ?thesis using s(4) by (auto simp: stored_value_def p_def)
qed

end
