(* ===== verification/ShotPalette.thy ===== *)
theory ShotPalette
  imports ShotIndex
begin

section \<open>Screenshot shaping: indexing a whole image\<close>

text \<open>
  The pass over the image keeps three things in step: the palette, the colour table, and one index
  per pixel seen so far, whose palette entry is the colour of that pixel. It gives up exactly when
  the image has more than 256 distinct colours; the gray form never does.
\<close>

definition image_pixel :: "bytes \<Rightarrow> nat \<Rightarrow> nat \<Rightarrow> nat \<Rightarrow> nat \<Rightarrow> colour" where
  "image_pixel img base stride y x =
     (img ! (base + y * stride + 3 * x), img ! (base + y * stride + 3 * x + 1),
      img ! (base + y * stride + 3 * x + 2))"

definition image_pixels :: "bytes \<Rightarrow> nat \<Rightarrow> nat \<Rightarrow> nat \<Rightarrow> nat \<Rightarrow> colour list" where
  "image_pixels img base stride width height =
     concat (map (\<lambda>y. map (image_pixel img base stride y) [0..<width]) [0..<height])"

definition grayed :: "colour \<Rightarrow> colour" where
  "grayed p = (case p of (b, g, r) \<Rightarrow> let v = gray_value (ucast b) (ucast g) (ucast r) in (v, v, v))"

definition gray_ramp :: "colour list" where
  "gray_ramp = map (\<lambda>x. (of_nat x, of_nat x, of_nat x)) [0..<256]"

text \<open>The index of every pixel is in the palette and stands for its colour.\<close>

definition indexed :: "bytes \<Rightarrow> colour list \<Rightarrow> colour list \<Rightarrow> bool" where
  "indexed work pal ps \<longleftrightarrow>
     6144 + length ps \<le> length work \<and>
     (\<forall>i < length ps. unat (work ! (6144 + i)) < length pal \<and> pal ! unat (work ! (6144 + i)) = ps ! i)"

definition index_state :: "bool \<Rightarrow> nat \<Rightarrow> colour list \<Rightarrow> bytes \<times> u32 \<Rightarrow> bool" where
  "index_state gray n ps st \<longleftrightarrow>
     length (fst st) = n \<and>
     (if gray then snd st = 256 \<and> take 1024 (fst st) = palette_bytes gray_ramp \<and> indexed (fst st) gray_ramp (map grayed ps)
      else snd st = of_nat (length (palette_of ps)) \<and> colours_ok (fst st) (palette_of ps) \<and>
           indexed (fst st) (palette_of ps) ps)"

lemma length_image_pixels [simp]: "length (image_pixels img base stride w h) = h * w"
  unfolding image_pixels_def by (subst length_concat_const [where c = w]) simp_all

lemma length_gray_ramp [simp]: "length gray_ramp = 256"
  by (simp add: gray_ramp_def)

lemma nth_gray_ramp: "gray_ramp ! unat v = (v, v, v)" for v :: u8
proof -
  have "unat v < 256" by simp
  then have "gray_ramp ! unat v = (of_nat (unat v), of_nat (unat v), of_nat (unat v))"
    unfolding gray_ramp_def by (subst nth_map) auto
  then show ?thesis by simp
qed

lemma indexed_snoc:
  assumes "indexed work pal ps" "6144 + length ps < length work" "unat v < length pal" "pal ! unat v = p"
  shows "indexed (splice work (6144 + length ps) [v]) pal (ps @ [p])"
  using assms by (auto simp: indexed_def nth_splice nth_append less_Suc_eq)

lemma indexed_more: "indexed work pal ps \<Longrightarrow> indexed work (pal @ qal) ps"
  by (auto simp: indexed_def nth_append)

lemma indexed_drop:
  assumes "indexed work pal ps" "length work' = length work" "drop 6144 work' = drop 6144 work"
  shows "indexed work' pal ps"
proof -
  have "work' ! (6144 + i) = work ! (6144 + i)" if "i < length ps" for i
  proof -
    have "6144 + i < length work" using assms(1) that by (auto simp: indexed_def)
    then show ?thesis using arg_cong [OF assms(3), of "\<lambda>xs. xs ! i"] assms(2) by simp
  qed
  then show ?thesis using assms(1,2) by (simp add: indexed_def)
qed

lemma colours_ok_splice:
  assumes "colours_ok work cs" "6144 \<le> i" "i < length work"
  shows "colours_ok (splice work i [v]) cs"
proof -
  have len: "6144 \<le> length work" "length cs \<le> 256" using assms(1) by (simp_all add: colours_ok_def)
  have key: "stored_key (splice work i [v]) t = stored_key work t"
    and val: "stored_value (splice work i [v]) t = stored_value work t" if "t < 1024" for t
    using assms len that by (auto intro!: stored_splice value_splice)
  have used: "used_slots (splice work i [v]) = used_slots work" using key by (auto simp: used_slots_def)
  have "table_of work cs" using assms(1) by (simp add: colours_ok_def)
  then have "table_of (splice work i [v]) cs"
    unfolding table_of_def used using key val by (auto simp: used_slots_def)
  then show ?thesis using assms len by (simp add: colours_ok_def take_splice_before)
qed

lemma index_colour_step:
  assumes "colours_ok work cs" "length cs \<le> 256"
  shows "outcome (index_colour (ucast b) (ucast g) (ucast r) (work, of_nat (length cs)))
    (\<lambda>_ st. length (fst st) = length work \<and> 256 < length (add_colour (b, g, r) cs))
    (\<lambda>v st. length (fst st) = length work \<and> drop 6144 (fst st) = drop 6144 work \<and>
       snd st = of_nat (length (add_colour (b, g, r) cs)) \<and> colours_ok (fst st) (add_colour (b, g, r) cs) \<and>
       unat v < length (add_colour (b, g, r) cs) \<and> add_colour (b, g, r) cs ! unat v = (b, g, r))"
proof (cases "(b, g, r) \<in> set cs")
  case True
  then show ?thesis using index_colour_known [OF assms(1) True, of "of_nat (length cs)"] assms(1)
    by (auto simp: add_colour_def)
next
  case new: False
  show ?thesis
  proof (cases "length cs < 256")
    case True
    have "unat (of_nat (length cs) :: u8) = length cs" using True by (simp add: unat_of_nat)
    then show ?thesis using index_colour_new [OF assms(1) new True] new by (auto simp: add_colour_def)
  next
    case False
    then have full: "length cs = 256" using assms(2) by simp
    have work: "6144 \<le> length work" and tab: "table_of work cs" using assms(1) by (simp_all add: colours_ok_def)
    obtain s where "index_probe work (colour_key (b, g, r)) (of_nat (colour_hash (b, g, r))) = Some (of_nat s, stored_key work s)"
      "stored_key work s = 0"
      using index_probe_table [OF work tab assms(2), of "(b, g, r)"] new by metis
    moreover have "drop_bit 22 (colour_key (b, g, r) * 2654435761) AND (V9X_HASH_SLOTS - 1) = of_nat (colour_hash (b, g, r))"
      by (simp add: V9X_HASH_SLOTS_def colour_hash_def)
    ultimately have "index_colour (ucast b) (ucast g) (ucast r) (work, of_nat (length cs)) = Some ((work, of_nat (length cs)), Inl ())"
      unfolding index_colour_def Let_def prod.case colour_key_code
      using colour_key_nonzero [of "(b, g, r)"] full by simp
    then show ?thesis using full new by (simp add: add_colour_def)
  qed
qed

subsection \<open>The pass\<close>

lemma index_pixel_step:
  assumes st: "index_state gray n ps st" and room: "6144 + length ps < n"
    and at: "target + x = 6144 + length ps" and image: "row + 3 * x + 2 < length img"
  defines "p \<equiv> (img ! (row + 3 * x), img ! (row + 3 * x + 1), img ! (row + 3 * x + 2))"
  shows "outcome (index_pixel img gray row target x st)
    (\<lambda>_ st'. length (fst st') = n \<and> \<not> gray \<and> 256 < length (palette_of (ps @ [p])))
    (\<lambda>_ st'. index_state gray n (ps @ [p]) st')"
proof -
  obtain work colours where st': "st = (work, colours)" by (cases st)
  have len: "length work = n" using st by (simp add: index_state_def st')
  have reads: "rd img (row + 3 * x) = Some (img ! (row + 3 * x))"
    "rd img (row + 3 * x + 1) = Some (img ! (row + 3 * x + 1))"
    "rd img (row + 3 * x + 2) = Some (img ! (row + 3 * x + 2))"
    using image by (simp_all add: rd_Some)
  show ?thesis
  proof (cases gray)
    case True
    define v where "v = gray_value (ucast (img ! (row + 3 * x))) (ucast (img ! (row + 3 * x + 1))) (ucast (img ! (row + 3 * x + 2)))"
    have "indexed (splice work (6144 + length (map grayed ps)) [v]) gray_ramp (map grayed ps @ [grayed p])"
      by (rule indexed_snoc)
         (use st True room len in \<open>auto simp: index_state_def st' nth_gray_ramp grayed_def p_def v_def Let_def\<close>)
    moreover have "take 1024 (splice work (6144 + length ps) [v]) = take 1024 work"
      using room len by (simp add: take_splice_before)
    ultimately have "index_state gray n (ps @ [p]) (splice work (6144 + length ps) [v], colours)"
      using st True room len by (simp add: index_state_def st')
    moreover have "wr work (6144 + length ps) v = Some (splice work (6144 + length ps) [v])"
      using room len by (simp add: wr_splice)
    ultimately show ?thesis
      unfolding index_pixel_def reads using True by (simp add: st' at v_def)
  next
    case False
    have inv: "colours = of_nat (length (palette_of ps))" "colours_ok work (palette_of ps)" "indexed work (palette_of ps) ps"
      using st False by (simp_all add: index_state_def st')
    have colour: "outcome (index_colour (ucast (img ! (row + 3 * x))) (ucast (img ! (row + 3 * x + 1)))
        (ucast (img ! (row + 3 * x + 2))) (work, colours))
      (\<lambda>_ st'. length (fst st') = n \<and> \<not> gray \<and> 256 < length (palette_of (ps @ [p])))
      (\<lambda>v st'. length (fst st') = n \<and> drop 6144 (fst st') = drop 6144 work \<and>
         snd st' = of_nat (length (palette_of (ps @ [p]))) \<and> colours_ok (fst st') (palette_of (ps @ [p])) \<and>
         unat v < length (palette_of (ps @ [p])) \<and> palette_of (ps @ [p]) ! unat v = p)"
      using index_colour_step [OF inv(2), folded inv(1)] inv(2) len False
      by (simp add: palette_of_snoc p_def colours_ok_def)
    have store: "outcome (do { w \<leftarrow> wr (fst t) (target + x) v; Some ((w, snd t), Inr ()) })
        (\<lambda>_ st'. length (fst st') = n \<and> \<not> gray \<and> 256 < length (palette_of (ps @ [p])))
        (\<lambda>_ st'. index_state gray n (ps @ [p]) st')"
      if t: "length (fst t) = n \<and> drop 6144 (fst t) = drop 6144 work \<and>
         snd t = of_nat (length (palette_of (ps @ [p]))) \<and> colours_ok (fst t) (palette_of (ps @ [p])) \<and>
         unat v < length (palette_of (ps @ [p])) \<and> palette_of (ps @ [p]) ! unat v = p" for v t
    proof -
      have "indexed (fst t) (palette_of ps) ps" by (rule indexed_drop [OF inv(3)]) (use t len in auto)
      then have "indexed (fst t) (palette_of (ps @ [p])) ps"
        by (auto simp: palette_of_snoc add_colour_def indexed_more)
      then have "indexed (splice (fst t) (6144 + length ps) [v]) (palette_of (ps @ [p])) (ps @ [p])"
        using t room by (intro indexed_snoc) auto
      moreover have "colours_ok (splice (fst t) (6144 + length ps) [v]) (palette_of (ps @ [p]))"
        using t room by (intro colours_ok_splice) auto
      moreover have "wr (fst t) (6144 + length ps) v = Some (splice (fst t) (6144 + length ps) [v])"
        using t room by (simp add: wr_splice)
      ultimately show ?thesis using t room False by (simp add: at index_state_def)
    qed
    have "index_pixel img gray row target x st =
        andthen (index_colour (ucast (img ! (row + 3 * x))) (ucast (img ! (row + 3 * x + 1)))
          (ucast (img ! (row + 3 * x + 2))) (work, colours))
        (\<lambda>v t. do { w \<leftarrow> wr (fst t) (target + x) v; Some ((w, snd t), Inr ()) })"
      unfolding index_pixel_def reads st' using False by simp
    then show ?thesis using outcome_andthen [OF colour store] by (simp only:)
  qed
qed

lemma index_begin_ok:
  assumes "6144 \<le> length work"
  shows "\<exists>st. index_begin gray work = Some st \<and> index_state gray (length work) [] st"
proof (cases gray)
  case True
  have "for_up 0 256 (\<lambda>x work. wrs work (4 * x) [of_nat x, of_nat x, of_nat x, 0]) work =
      Some (splice work 0 (concat (map (\<lambda>x. [of_nat x, of_nat x, of_nat x, 0]) [0..<0 + 256])))"
    by (rule for_up_splice [where c = 4]) (use assms in \<open>auto simp: wrs_splice mult.commute simp del: wrs.simps\<close>)
  moreover have "concat (map (\<lambda>x. [of_nat x, of_nat x, of_nat x, 0]) [0..<0 + 256]) = palette_bytes gray_ramp"
    by (simp add: palette_bytes_def gray_ramp_def palette_entry_def comp_def)
  moreover have "take 1024 (splice work 0 (palette_bytes gray_ramp)) = palette_bytes gray_ramp"
    using take_drop_splice [of 0 "palette_bytes gray_ramp" work] assms by simp
  ultimately show ?thesis
    using True assms by (simp add: index_begin_def index_state_def indexed_def)
next
  case False
  define w where "w = splice work 1024 (replicate 4096 0)"
  have "for_up 0 4096 (\<lambda>x work. wr work (1024 + x) 0) work = Some w"
    unfolding w_def by (rule for_up_fill) (use assms in \<open>auto simp: wr_splice\<close>)
  moreover have "stored_key w t = 0" if "t < 1024" for t
    using that assms by (simp add: stored_key_def w_def nth_splice u32_of_def)
  then have "used_slots w = {}" by (auto simp: used_slots_def)
  then have "colours_ok w []" using assms by (simp add: colours_ok_def table_of_def palette_bytes_def w_def)
  ultimately show ?thesis
    using False assms
    by (simp add: index_begin_def index_state_def indexed_def palette_of_def w_def V9X_HASH_SLOTS_def
        V9X_WORK_KEYS_def V9X_PALETTE_BYTES_def)
qed

text \<open>The pixels before column \<open>x\<close> of row \<open>y\<close>.\<close>

definition pixels_before :: "bytes \<Rightarrow> nat \<Rightarrow> nat \<Rightarrow> nat \<Rightarrow> nat \<Rightarrow> nat \<Rightarrow> colour list" where
  "pixels_before img base stride w y x =
     image_pixels img base stride w y @ map (image_pixel img base stride y) [0..<x]"

lemma pixels_before_Suc:
  "pixels_before img base stride w y (Suc x) = pixels_before img base stride w y x @ [image_pixel img base stride y x]"
  by (simp add: pixels_before_def)

lemma pixels_before_row: "pixels_before img base stride w y w = image_pixels img base stride w (Suc y)"
  by (simp add: pixels_before_def image_pixels_def)

lemma pixels_before_0: "pixels_before img base stride w y 0 = image_pixels img base stride w y"
  by (simp add: pixels_before_def)

lemma length_pixels_before [simp]: "length (pixels_before img base stride w y x) = y * w + x"
  by (simp add: pixels_before_def)

lemma palette_of_before:
  assumes "y < h" "x \<le> w"
  shows "length (palette_of (pixels_before img base stride w y x)) \<le> length (palette_of (image_pixels img base stride w h))"
proof -
  have "[0..<h] = [0..<y] @ y # [Suc y..<h]"
    using assms(1) by (metis upt_add_eq_append upt_conv_Cons le_add_diff_inverse less_imp_le zero_le)
  moreover have "[0..<w] = [0..<x] @ [x..<w]"
    using assms(2) by (metis upt_add_eq_append le_add_diff_inverse zero_le)
  ultimately have "image_pixels img base stride w h = pixels_before img base stride w y x @
      map (image_pixel img base stride y) [x..<w] @
      concat (map (\<lambda>y. map (image_pixel img base stride y) [0..<w]) [Suc y..<h])"
    unfolding image_pixels_def pixels_before_def by simp
  then show ?thesis using length_palette_of_append by metis
qed

lemma index_row_step:
  assumes small: "unat w \<le> 4096" "unat h \<le> 4096" and y: "y < unat h"
    and img: "base + unat (v9x_stride24 w) * unat h \<le> length img"
    and work: "6144 + unat w * unat h \<le> n"
    and st: "index_state gray n (image_pixels img base (unat (v9x_stride24 w)) (unat w) y) st"
  shows "outcome (index_row img base w gray y st)
    (\<lambda>_ st'. length (fst st') = n \<and> \<not> gray \<and>
       256 < length (palette_of (image_pixels img base (unat (v9x_stride24 w)) (unat w) (unat h))))
    (\<lambda>_ st'. index_state gray n (image_pixels img base (unat (v9x_stride24 w)) (unat w) (Suc y)) st')"
proof -
  define stride where "stride = unat (v9x_stride24 w)"
  note stride = stride24_bounds [OF small(1), folded stride_def]
  have uy: "unat (of_nat y :: u32) = y" using y small(2) by (simp add: u32_of_nat)
  have ys: "y * stride + stride \<le> stride * unat h" "y * unat w + unat w \<le> unat w * unat h"
  proof -
    have "Suc y \<le> unat h" using y by simp
    then have "Suc y * stride \<le> unat h * stride" "Suc y * unat w \<le> unat h * unat w" by (simp_all only: mult_le_mono1)
    then show "y * stride + stride \<le> stride * unat h" "y * unat w + unat w \<le> unat w * unat h"
      by (simp_all add: mult.commute)
  qed
  have "stride * unat h \<le> 12288 * 4096" "unat w * unat h \<le> 4096 * 4096"
    using stride(2) small by (simp_all only: mult_le_mono)
  then have row: "unat (of_nat y * v9x_stride24 w) = y * stride" "unat (of_nat y * w) = y * unat w"
    using ys uy by (simp_all add: u32_mult stride_def)
  have base: "unat V9X_WORK_INDICES = 6144"
    by (simp add: V9X_WORK_INDICES_def V9X_WORK_VALUES_def V9X_WORK_KEYS_def V9X_PALETTE_BYTES_def V9X_HASH_SLOTS_def)
  have "outcome (for_out 0 (unat w) (index_pixel img gray (base + y * stride) (6144 + y * unat w)) st)
    (\<lambda>_ st'. length (fst st') = n \<and> \<not> gray \<and>
       256 < length (palette_of (image_pixels img base stride (unat w) (unat h))))
    (\<lambda>_ st'. index_state gray n (pixels_before img base stride (unat w) y (0 + unat w)) st')"
  proof (rule for_out_rule)
    show "index_state gray n (pixels_before img base stride (unat w) y 0) st"
      using st by (simp add: pixels_before_0 stride_def)
  next
    fix x t assume x: "0 \<le> x" "x < 0 + unat w" and t: "index_state gray n (pixels_before img base stride (unat w) y x) t"
    have "outcome (index_pixel img gray (base + y * stride) (6144 + y * unat w) x t)
      (\<lambda>_ st'. length (fst st') = n \<and> \<not> gray \<and> 256 < length (palette_of (pixels_before img base stride (unat w) y x @
         [(img ! (base + y * stride + 3 * x), img ! (base + y * stride + 3 * x + 1), img ! (base + y * stride + 3 * x + 2))])))
      (\<lambda>_ st'. index_state gray n (pixels_before img base stride (unat w) y x @
         [(img ! (base + y * stride + 3 * x), img ! (base + y * stride + 3 * x + 1), img ! (base + y * stride + 3 * x + 2))]) st')"
    proof (rule index_pixel_step [OF t])
      show "base + y * stride + 3 * x + 2 < length img"
        using img ys(1) x stride(1) unfolding stride_def by linarith
    qed (use x work ys in auto)
    moreover have "256 < length (palette_of (pixels_before img base stride (unat w) y (Suc x))) \<Longrightarrow>
        256 < length (palette_of (image_pixels img base stride (unat w) (unat h)))"
      using palette_of_before [OF y, of "Suc x" "unat w" img base stride] x by simp
    ultimately show "outcome (index_pixel img gray (base + y * stride) (6144 + y * unat w) x t)
      (\<lambda>_ st'. length (fst st') = n \<and> \<not> gray \<and>
         256 < length (palette_of (image_pixels img base stride (unat w) (unat h))))
      (\<lambda>_ st'. index_state gray n (pixels_before img base stride (unat w) y (Suc x)) st')"
      unfolding pixels_before_Suc image_pixel_def by (auto elim!: outcome_mono)
  qed
  then show ?thesis
    unfolding index_row_def row base by (simp add: pixels_before_row stride_def)
qed

text \<open>The pass as a whole: it never leaves the buffers, ends, and either there are more than 256 colours
  or every index stands for its pixel in a palette of distinct colours.\<close>

lemma v9x_shotxf_index_eq:
  fixes gray :: bool
  assumes small: "unat w \<le> 4096" "unat h \<le> 4096" "1 \<le> unat w" "1 \<le> unat h"
    and img: "base + unat (v9x_stride24 w) * unat h \<le> length img"
    and work: "6144 + unat w * unat h \<le> length work"
  defines "ps \<equiv> image_pixels img base (unat (v9x_stride24 w)) (unat w) (unat h)"
  defines "pal \<equiv> if gray then gray_ramp else palette_of ps"
  shows "\<exists>work'. v9x_shotxf_index img base w h gray work =
      Some (work', if length pal \<le> 256 then of_nat (length pal) else 0) \<and> length work' = length work \<and>
    (length pal \<le> 256 \<longrightarrow> take (4 * length pal) work' = palette_bytes pal \<and>
       indexed work' pal (if gray then map grayed ps else ps))"
proof -
  obtain st where st: "index_begin gray work = Some st" "index_state gray (length work) [] st"
    using index_begin_ok [of work gray] work by auto
  have start: "index_state gray (length work) (image_pixels img base (unat (v9x_stride24 w)) (unat w) 0) st"
    using st(2) by (simp add: image_pixels_def)
  have "outcome (for_out 0 (unat h) (index_row img base w gray) st)
    (\<lambda>_ st'. length (fst st') = length work \<and> \<not> gray \<and> 256 < length (palette_of ps))
    (\<lambda>_ st'. index_state gray (length work) (image_pixels img base (unat (v9x_stride24 w)) (unat w) (0 + unat h)) st')"
  proof (rule for_out_rule)
    show "index_state gray (length work) (image_pixels img base (unat (v9x_stride24 w)) (unat w) 0) st"
      by (rule start)
  next
    fix y t assume "0 \<le> y" "y < 0 + unat h"
      "index_state gray (length work) (image_pixels img base (unat (v9x_stride24 w)) (unat w) y) t"
    then show "outcome (index_row img base w gray y t)
      (\<lambda>_ st'. length (fst st') = length work \<and> \<not> gray \<and> 256 < length (palette_of ps))
      (\<lambda>_ st'. index_state gray (length work) (image_pixels img base (unat (v9x_stride24 w)) (unat w) (Suc y)) st')"
      unfolding ps_def by (intro index_row_step small img work) auto
  qed
  then show ?thesis
  proof (rule outcome_cases)
    fix t and e :: unit
    assume t: "for_out 0 (unat h) (index_row img base w gray) st = Some (t, Inl e)"
      "length (fst t) = length work \<and> \<not> gray \<and> 256 < length (palette_of ps)"
    then show ?thesis using st(1) by (cases t) (simp add: v9x_shotxf_index_def pal_def)
  next
    fix t and u :: unit
    assume t: "for_out 0 (unat h) (index_row img base w gray) st = Some (t, Inr u)"
      "index_state gray (length work) (image_pixels img base (unat (v9x_stride24 w)) (unat w) (0 + unat h)) t"
    have "snd t = of_nat (length pal)" "length pal \<le> 256" "length (fst t) = length work"
      "take (4 * length pal) (fst t) = palette_bytes pal" "indexed (fst t) pal (if gray then map grayed ps else ps)"
      using t(2) by (auto simp: index_state_def pal_def ps_def colours_ok_def split: if_splits)
    then show ?thesis using st(1) t(1) by (cases t) (simp add: v9x_shotxf_index_def)
  qed
qed

end
