(* ===== verification/ShotPicture.thy ===== *)
theory ShotPicture
  imports ShotRleProps ShotPalette
begin

section \<open>Screenshot shaping: the picture in the file\<close>

text \<open>
  \<open>bmp_read\<close> is a strict reader of the three forms of BMP the code writes: 24-bit, 8-bit with a
  palette, and 8-bit RLE8. It refuses a file whose size field, image size, palette indices or rows
  do not fit together, and gives the picture as rows of colours, top row first. The main lemma says
  that the file the transform produces reads back as the scaled region of the screen.
\<close>

definition bmp_u32 :: "bytes \<Rightarrow> nat \<Rightarrow> nat" where
  "bmp_u32 bs at = unat (u32_of (bs ! at) (bs ! (at + 1)) (bs ! (at + 2)) (bs ! (at + 3)))"

definition bmp_u16 :: "bytes \<Rightarrow> nat \<Rightarrow> nat" where
  "bmp_u16 bs at = unat (u16_of (bs ! at) (bs ! (at + 1)))"

definition read_palette :: "bytes \<Rightarrow> nat \<Rightarrow> colour list" where
  "read_palette bs n = map (\<lambda>i. (bs ! (54 + 4 * i), bs ! (54 + 4 * i + 1), bs ! (54 + 4 * i + 2))) [0..<n]"

definition read_rows8 :: "bytes \<Rightarrow> nat \<Rightarrow> nat \<Rightarrow> nat \<Rightarrow> bytes list option" where
  "read_rows8 raw compression w h =
     (if compression = 0 then
        (let stride = (w + 3) div 4 * 4 in
         if length raw < stride * h then None else Some (map (\<lambda>y. take w (drop (y * stride) raw)) [0..<h]))
      else if compression = 1 then rle_decode raw [] []
      else None)"

definition bmp_read :: "bytes \<Rightarrow> colour list list option" where
  "bmp_read bs =
     (let off = bmp_u32 bs 10; w = bmp_u32 bs 18; h = bmp_u32 bs 22; bits = bmp_u16 bs 28;
          compression = bmp_u32 bs 30; n = bmp_u32 bs 46; raw = drop off bs
      in
      if length bs < 54 \<or> take 2 bs \<noteq> [0x42, 0x4D] \<or> bmp_u32 bs 2 \<noteq> length bs \<or> bmp_u32 bs 14 \<noteq> 40 \<or>
         off \<noteq> 54 + 4 * n \<or> length bs < off \<or> length raw \<noteq> bmp_u32 bs 34
      then None
      else if bits = 24 \<and> compression = 0 \<and> n = 0 then
        (let stride = (3 * w + 3) div 4 * 4 in
         if length raw < stride * h then None
         else Some (rev (map (\<lambda>y. map (image_pixel raw 0 stride y) [0..<w]) [0..<h])))
      else if bits = 8 then
        (case read_rows8 raw compression w h of
           None \<Rightarrow> None
         | Some rows \<Rightarrow>
             if length rows = h \<and> (\<forall>row \<in> set rows. length row = w \<and> (\<forall>i \<in> set row. unat i < n))
             then Some (rev (map (map (\<lambda>i. read_palette bs n ! unat i)) rows))
             else None)
      else None)"

subsection \<open>Reading the header\<close>

lemma header_fields:
  fixes w h bits compression n image_bytes :: u32
  defines "hdr \<equiv> bmp_header w h bits compression n image_bytes"
  shows "take 2 (hdr @ rest) = [0x42, 0x4D]"
    "bmp_u32 (hdr @ rest) 2 = unat (54 + n * 4 + image_bytes)"
    "bmp_u32 (hdr @ rest) 10 = unat (54 + n * 4)"
    "bmp_u32 (hdr @ rest) 14 = 40"
    "bmp_u32 (hdr @ rest) 18 = unat w"
    "bmp_u32 (hdr @ rest) 22 = unat h"
    "bmp_u16 (hdr @ rest) 28 = unat bits mod 65536"
    "bmp_u32 (hdr @ rest) 30 = unat compression"
    "bmp_u32 (hdr @ rest) 34 = unat image_bytes"
    "bmp_u32 (hdr @ rest) 46 = unat n"
proof -
  have 16: "unat (u16_of (ucast (v AND 255)) (ucast (drop_bit 8 v AND 255))) = unat v mod 65536" for v :: u32
    unfolding unat_u16_of unat_low_byte unat_drop_byte
    using mod_mult2_eq [of "unat v" 256 256] by simp
  have forty: "u32_of 40 0 0 0 = 40" by (simp add: u32_of_def)
  show "take 2 (hdr @ rest) = [0x42, 0x4D]"
    "bmp_u32 (hdr @ rest) 2 = unat (54 + n * 4 + image_bytes)"
    "bmp_u32 (hdr @ rest) 10 = unat (54 + n * 4)"
    "bmp_u32 (hdr @ rest) 14 = 40"
    "bmp_u32 (hdr @ rest) 18 = unat w"
    "bmp_u32 (hdr @ rest) 22 = unat h"
    "bmp_u16 (hdr @ rest) 28 = unat bits mod 65536"
    "bmp_u32 (hdr @ rest) 30 = unat compression"
    "bmp_u32 (hdr @ rest) 34 = unat image_bytes"
    "bmp_u32 (hdr @ rest) 46 = unat n"
    unfolding hdr_def bmp_header_def bmp_u32_def bmp_u16_def le32_def le16u_def
    by (simp_all add: u32_of_le32 [simplified] 16 forty)
qed

subsection \<open>Blocks of one size\<close>

definition colour_at :: "picture \<Rightarrow> nat \<Rightarrow> nat \<Rightarrow> colour" where
  "colour_at pic x y = (pic 0 x y, pic 1 x y, pic 2 x y)"

definition picture_rows :: "picture \<Rightarrow> nat \<Rightarrow> nat \<Rightarrow> colour list list" where
  "picture_rows pic w h = map (\<lambda>y. map (\<lambda>x. colour_at pic x y) [0..<w]) [0..<h]"

lemma picture_row_nth:
  assumes "x < w" "k < 3"
  shows "picture_row pic w stride y ! (3 * x + k) = pixel_bytes pic y x ! k"
proof -
  have "3 * x + k < 3 * w" using assms by linarith
  then have "picture_row pic w stride y ! (3 * x + k) = concat (map (pixel_bytes pic y) [0..<w]) ! (x * 3 + k)"
    by (simp add: picture_row_def nth_append mult.commute)
  also have "\<dots> = pixel_bytes pic y ([0..<w] ! x) ! k"
    by (rule nth_concat_const) (use assms in \<open>auto simp: pixel_bytes_def\<close>)
  finally show ?thesis using assms by simp
qed

text \<open>A pixel of the 24-bit rows, counted from the bottom of the picture.\<close>

lemma rows24_pixel:
  assumes "x < w" "y < h" "3 * w \<le> stride"
  shows "image_pixel (concat (map (picture_row pic w stride) (rev [0..<h])) @ rest) 0 stride y x = colour_at pic x (h - 1 - y)"
proof -
  define raw where "raw = concat (map (picture_row pic w stride) (rev [0..<h]))"
  have len: "length raw = h * stride"
    unfolding raw_def using length_concat_const [of "rev [0..<h]" "picture_row pic w stride" stride] assms(3) by simp
  have "(raw @ rest) ! (y * stride + 3 * x + k) = pixel_bytes pic (h - 1 - y) x ! k" if "k < 3" for k
  proof -
    have k: "3 * x + k < stride" using assms that by linarith
    have "Suc y * stride \<le> h * stride" by (rule mult_le_mono1) (use assms(2) in simp)
    then have "y * stride + (3 * x + k) < length raw" using k len by simp
    then have "(raw @ rest) ! (y * stride + 3 * x + k) = raw ! (y * stride + (3 * x + k))"
      by (simp add: nth_append add.assoc)
    also have "\<dots> = picture_row pic w stride (rev [0..<h] ! y) ! (3 * x + k)"
      unfolding raw_def by (rule nth_concat_const) (use assms k in auto)
    also have "rev [0..<h] ! y = h - 1 - y" using assms(2) by (simp add: rev_nth)
    finally show ?thesis using picture_row_nth [OF assms(1) that] by simp
  qed
  from this [of 0] this [of 1] this [of 2] show ?thesis
    by (simp add: image_pixel_def colour_at_def pixel_bytes_def raw_def numeral_2_eq_2)
qed

lemma rev_rows: "rev (map f [0..<h]) = map (\<lambda>y. f (h - 1 - y)) [0..<h]"
  by (rule nth_equalityI) (auto simp: rev_nth)

lemma bmp_read_24:
  assumes "unat w \<le> 4096" "unat h \<le> 4096" "1 \<le> unat w" "1 \<le> unat h"
  shows "bmp_read (bmp24 pic w h) = Some (picture_rows pic (unat w) (unat h))"
proof -
  define stride where "stride = unat (v9x_stride24 w)"
  note stride = stride24_bounds [OF assms(1), folded stride_def]
  define raw where "raw = concat (map (picture_row pic (unat w) stride) (rev [0..<unat h]))"
  have len: "length raw = unat h * stride"
    unfolding raw_def using length_concat_const [of "rev [0..<unat h]" "picture_row pic (unat w) stride" stride] stride(1) by simp
  have "stride * unat h \<le> 12288 * 4096" by (rule mult_le_mono) (use stride(2) assms in auto)
  then have size: "unat (v9x_stride24 w * h) = stride * unat h" by (simp add: u32_mult stride_def)
  have total: "unat (54 + v9x_stride24 w * h) = 54 + stride * unat h"
    using size \<open>stride * unat h \<le> 12288 * 4096\<close> by (simp add: u32_add)
  have img: "bmp24 pic w h = bmp_header w h 24 0 0 (v9x_stride24 w * h) @ raw"
    by (simp add: bmp24_def raw_def stride_def)
  note f = header_fields [of w h 24 0 0 "v9x_stride24 w * h" raw]
  have "rev (map (\<lambda>y. map (image_pixel raw 0 stride y) [0..<unat w]) [0..<unat h]) = picture_rows pic (unat w) (unat h)"
    unfolding rev_rows picture_rows_def raw_def
    using rows24_pixel [of _ "unat w" _ "unat h" stride pic "[]"] stride(1) by (auto intro!: map_cong)
  then show ?thesis
    unfolding img bmp_read_def Let_def f
    using len total size unat_stride24 [OF assms(1), folded stride_def] by (simp add: mult.commute)
qed

lemma bmp_read_8:
  assumes small: "unat image_bytes < 2147483648" and pal: "length pal = unat n" "unat n \<le> 256"
    and raw: "length raw = unat image_bytes"
    and rows: "read_rows8 raw (unat compression) (unat w) (unat h) = Some rows" "length rows = unat h"
      "\<And>row i. row \<in> set rows \<Longrightarrow> length row = unat w \<and> (i \<in> set row \<longrightarrow> unat i < length pal)"
  shows "bmp_read (bmp_header w h 8 compression n image_bytes @ palette_bytes pal @ raw) =
    Some (rev (map (map (\<lambda>i. pal ! unat i)) rows))"
proof -
  define img where "img = bmp_header w h 8 compression n image_bytes @ palette_bytes pal @ raw"
  have off: "unat (54 + n * 4) = 54 + 4 * unat n" using pal(2) by (simp add: u32_add u32_mult)
  have total: "unat (54 + n * 4 + image_bytes) = 54 + 4 * unat n + unat image_bytes"
    using off small pal(2) by (subst u32_add) auto
  note f = header_fields [of w h 8 compression n image_bytes "palette_bytes pal @ raw", folded img_def]
  have len: "length img = 54 + 4 * unat n + length raw" using pal(1) by (simp add: img_def)
  have d: "drop (54 + 4 * unat n) img = raw" using pal(1) by (simp add: img_def)
  have "read_palette img (unat n) = pal"
  proof (rule nth_equalityI)
    fix i assume "i < length (read_palette img (unat n))"
    then have i: "i < length pal" using pal(1) by (simp add: read_palette_def)
    have "img ! (54 + (4 * i + k)) = palette_entry (pal ! i) ! k" if "k < 4" for k
    proof -
      have "4 * i + k < 4 * length pal" using i that by linarith
      then have "img ! (54 + (4 * i + k)) = palette_bytes pal ! (i * 4 + k)"
        by (simp add: img_def nth_append mult.commute)
      also have "\<dots> = palette_entry (pal ! i) ! k"
        unfolding palette_bytes_def by (rule nth_concat_const) (use i that in auto)
      finally show ?thesis .
    qed
    from this [of 0] this [of 1] this [of 2] show "read_palette img (unat n) ! i = pal ! i"
      using i pal(1) by (cases "pal ! i") (simp add: read_palette_def palette_entry_def numeral_2_eq_2)
  qed (use pal(1) in \<open>simp add: read_palette_def\<close>)
  moreover have "bmp_read img = Some (rev (map (map (\<lambda>i. read_palette img (unat n) ! unat i)) rows))"
    unfolding bmp_read_def Let_def f off total len d
    using raw rows pal(1) by auto
  ultimately show ?thesis by (simp add: img_def)
qed

subsection \<open>Packing into 8 bits\<close>

definition raw8 :: "bytes list \<Rightarrow> nat \<Rightarrow> bytes" where
  "raw8 rows stride = concat (map (\<lambda>row. row @ replicate (stride - length row) 0) rows)"

lemma stride8_bounds:
  assumes "unat w \<le> 4096"
  shows "unat w \<le> unat (v9x_stride8 w)" "unat (v9x_stride8 w) \<le> unat (v9x_stride24 w)"
proof -
  show "unat w \<le> unat (v9x_stride8 w)" unfolding unat_stride8 [OF assms] by linarith
  have "(unat w + 3) div 4 \<le> (3 * unat w + 3) div 4" by (rule div_le_mono) simp
  then show "unat (v9x_stride8 w) \<le> unat (v9x_stride24 w)"
    unfolding unat_stride8 [OF assms] unat_stride24 [OF assms] by simp
qed

lemma raw8_rows_eq:
  assumes small: "unat w \<le> 4096" "unat h \<le> 4096"
    and work: "6144 + unat w * unat h \<le> length work"
    and room: "base + unat (v9x_stride8 w) * unat h \<le> length out"
  shows "raw8_rows work base w h out =
    Some (splice out base (raw8 (index_rows work (unat w) (unat h)) (unat (v9x_stride8 w))))"
proof -
  define stride where "stride = unat (v9x_stride8 w)"
  note stride = stride8_bounds [OF small(1), folded stride_def]
  define row where "row y = take (unat w) (drop (6144 + y * unat w) work)" for y
  have rows: "length (row y) = unat w" if "y < unat h" for y
  proof -
    have "6144 + y * unat w + unat w \<le> length work" using row_position(2) [OF small that] work by linarith
    then show ?thesis by (simp add: row_def)
  qed
  have "for_up 0 (unat h) (\<lambda>y out. do {
        let row = base + unat (of_nat y * v9x_stride8 w);
        out \<leftarrow> for_up 0 (unat w) (\<lambda>x out. do {
          v \<leftarrow> rd work (unat V9X_WORK_INDICES + unat (of_nat y * w) + x);
          wr out (row + x) v }) out;
        for_up (unat w) (stride - unat w) (\<lambda>x out. wr out (row + x) 0) out }) out =
      Some (splice out base (concat (map (\<lambda>y. row y @ replicate (stride - unat w) 0) [0..<0 + unat h])))"
  proof (rule for_up_splice [where c = stride])
    fix y assume y: "0 \<le> y" "y < 0 + unat h"
    then have lr: "length (row y) = unat w" using rows by simp
    then show "length (row y @ replicate (stride - unat w) 0) = stride" using stride by simp
    fix t :: bytes assume t: "length t = length out"
    have y': "y < unat h" using y by simp
    note pos = row_position [OF small y']
    have small8: "unat (v9x_stride8 w) \<le> 4096"
    proof -
      have "(unat w + 3) div 4 \<le> 4099 div 4" by (rule div_le_mono) (use small in simp)
      then show ?thesis unfolding unat_stride8 [OF small(1)] by simp
    qed
    note pos8 = row_position [OF small8 small(2) y', folded stride_def]
    define at where "at = base + y * stride"
    have fits: "at + stride \<le> length t" using pos8(2) room t by (simp add: at_def stride_def)
    have copy: "for_up 0 (unat w) (\<lambda>x out. do {
          v \<leftarrow> rd work (6144 + y * unat w + x);
          wr out (at + x) v }) t =
        Some (splice t at (concat (map (\<lambda>x. [work ! (6144 + y * unat w + x)]) [0..<0 + unat w])))"
    proof (rule for_up_splice [where c = 1])
      fix x and t' :: bytes assume "0 \<le> x" "x < 0 + unat w" "length t' = length t"
      then show "do { v \<leftarrow> rd work (6144 + y * unat w + x); wr t' (at + x) v } =
          Some (splice t' (at + (x - 0) * 1) [work ! (6144 + y * unat w + x)])"
        using fits stride work pos(2) by (simp add: rd_Some wr_splice)
    qed (use fits stride in auto)
    have "concat (map (\<lambda>x. [work ! (6144 + y * unat w + x)]) [0..<0 + unat w]) = row y"
      by (rule nth_equalityI) (use lr work pos(2) in \<open>auto simp: row_def concat_map_singleton\<close>)
    note copy = copy [unfolded this]
    have pad: "for_up (unat w) (stride - unat w) (\<lambda>x out. wr out (at + x) 0) (splice t at (row y)) =
        Some (splice (splice t at (row y)) (at + unat w) (replicate (stride - unat w) 0))"
      by (rule for_up_fill) (use fits stride lr in \<open>auto simp: wr_splice\<close>)
    have "splice (splice t at (row y)) (at + unat w) (replicate (stride - unat w) 0) =
        splice t at (row y @ replicate (stride - unat w) 0)"
      using splice_append [of at "row y" "replicate (stride - unat w) 0" t] lr fits stride by simp
    then show "(do {
        let row = base + unat (of_nat y * v9x_stride8 w);
        out \<leftarrow> for_up 0 (unat w) (\<lambda>x out. do {
          v \<leftarrow> rd work (unat V9X_WORK_INDICES + unat (of_nat y * w) + x);
          wr out (row + x) v }) t;
        for_up (unat w) (stride - unat w) (\<lambda>x out. wr out (row + x) 0) out }) =
      Some (splice t (base + (y - 0) * stride) (row y @ replicate (stride - unat w) 0))"
      using copy pad by (simp add: unat_work_indices pos(1) pos8(1) at_def Let_def)
  qed (use room stride in \<open>auto simp: stride_def mult.commute\<close>)
  moreover have "concat (map (\<lambda>y. row y @ replicate (stride - unat w) 0) [0..<unat h]) =
      raw8 (index_rows work (unat w) (unat h)) stride"
  proof -
    show ?thesis
      using rows unfolding raw8_def index_rows_def row_def [symmetric] by (auto intro!: arg_cong [where f = concat] map_cong)
  qed
  ultimately show ?thesis by (simp add: raw8_rows_def stride_def Let_def)
qed

lemma read_raw8:
  assumes "unat w \<le> 4096" "\<And>row. row \<in> set rows \<Longrightarrow> length row = unat w" "length rows = h"
  shows "read_rows8 (raw8 rows (unat (v9x_stride8 w))) 0 (unat w) h = Some rows"
proof -
  define stride where "stride = unat (v9x_stride8 w)"
  note stride = stride8_bounds(1) [OF assms(1), folded stride_def]
  define g where "g row = row @ replicate (stride - length row) 0" for row :: bytes
  have c: "length (g row) = stride" if "row \<in> set rows" for row using assms(2) [OF that] stride by (simp add: g_def)
  have raw: "raw8 rows stride = concat (map g rows)" by (simp add: raw8_def g_def [abs_def])
  have len: "length (raw8 rows stride) = h * stride"
    unfolding raw using length_concat_const [of rows g stride] c assms(3) by simp
  have "take (unat w) (drop (y * stride) (raw8 rows stride)) = rows ! y" if y: "y < h" for y
  proof (rule nth_equalityI)
    have "Suc y * stride \<le> h * stride" by (rule mult_le_mono1) (use y in simp)
    then have fits: "y * stride + stride \<le> length (raw8 rows stride)" using len by simp
    have row: "rows ! y \<in> set rows" using y assms(3) by simp
    then show "length (take (unat w) (drop (y * stride) (raw8 rows stride))) = length (rows ! y)"
      using fits stride assms(2) by simp
    fix k assume "k < length (take (unat w) (drop (y * stride) (raw8 rows stride)))"
    then have k: "k < unat w" by simp
    then have "take (unat w) (drop (y * stride) (raw8 rows stride)) ! k = raw8 rows stride ! (y * stride + k)"
      using fits stride by simp
    also have "\<dots> = g (rows ! y) ! k"
      unfolding raw by (rule nth_concat_const [OF c]) (use y assms(3) k stride in auto)
    also have "\<dots> = rows ! y ! k" using k assms(2) [OF row] by (simp add: g_def nth_append)
    finally show "take (unat w) (drop (y * stride) (raw8 rows stride)) ! k = rows ! y ! k" .
  qed
  then have "map (\<lambda>y. take (unat w) (drop (y * stride) (raw8 rows stride))) [0..<h] = rows"
    by (intro nth_equalityI) (use assms(3) in auto)
  then show ?thesis
    unfolding read_rows8_def stride_def [symmetric] using unat_stride8 [OF assms(1), folded stride_def] len
    by (simp add: mult.commute)
qed

lemma file_parts:
  assumes "length hdr = 54" "54 + p + d \<le> length out"
  shows "take (54 + p + d) (splice out 0 hdr) = hdr @ take p (drop 54 out) @ take d (drop (54 + p) out)"
proof -
  have "splice out 0 hdr = hdr @ drop 54 out" by (simp add: splice_def assms(1))
  then have "take (54 + p + d) (splice out 0 hdr) = hdr @ take (p + d) (drop 54 out)"
    using assms(1) by simp
  also have "take (p + d) (drop 54 out) = take p (drop 54 out) @ take d (drop (54 + p) out)"
    by (simp only: take_add drop_drop add.commute [of p 54])
  finally show ?thesis .
qed

lemma pack8_eq:
  assumes small: "unat w \<le> 4096" "unat h \<le> 4096" "1 \<le> unat w" "1 \<le> unat h"
    and pal: "length pal = unat n" "unat n \<le> 256" "take (4 * length pal) work = palette_bytes pal"
    and idx: "\<And>row i. row \<in> set (index_rows work (unat w) (unat h)) \<Longrightarrow> i \<in> set row \<Longrightarrow> unat i < length pal"
    and work: "6144 + unat w * unat h \<le> length work"
    and room: "1078 + unat (v9x_stride24 w) * unat h \<le> length out"
  shows "\<exists>out' len. pack8 work n w h out = Some (out', len) \<and>
    unat len \<le> 1078 + unat (v9x_stride24 w) * unat h \<and>
    bmp_read (take (unat len) out') =
      Some (rev (map (map (\<lambda>i. pal ! unat i)) (index_rows work (unat w) (unat h))))"
proof -
  define rows where "rows = index_rows work (unat w) (unat h)"
  define stride where "stride = unat (v9x_stride8 w)"
  define p where "p = 4 * unat n"
  note s8 = stride8_bounds [OF small(1), folded stride_def]
  have p: "p \<le> 1024" "length (palette_bytes pal) = p" using pal by (simp_all add: p_def)
  have rows: "length rows = unat h" "\<And>row. row \<in> set rows \<Longrightarrow> length row = unat w"
  proof -
    show "length rows = unat h" by (simp add: rows_def index_rows_def)
    fix row assume "row \<in> set rows"
    then obtain y where y: "y < unat h" "row = take (unat w) (drop (6144 + y * unat w) work)"
      by (auto simp: rows_def index_rows_def)
    have "6144 + y * unat w + unat w \<le> length work" using row_position(2) [OF small(1,2) y(1)] work by linarith
    then show "length row = unat w" using y(2) by simp
  qed
  have prod: "stride * unat h \<le> unat (v9x_stride24 w) * unat h" by (rule mult_le_mono1 [OF s8(2)])
  have "unat (v9x_stride24 w) * unat h \<le> 12288 * 4096"
    by (rule mult_le_mono) (use stride24_bounds [OF small(1)] small in auto)
  then have big: "stride * unat h \<le> 50331648" using prod by linarith
  have uraw: "unat (v9x_stride8 w * h) = stride * unat h" using big by (simp add: u32_mult stride_def)
  have uhdr: "unat (V9X_BMP_HEADER + n * 4) = 54 + p" "unat (n * 4) = p"
    using pal(2) by (simp_all add: V9X_BMP_HEADER_def u32_add u32_mult p_def mult.commute)
  have fits: "54 + p + stride * unat h \<le> length out" using p prod room by linarith
  have "for_up 0 p (\<lambda>y out. do { v \<leftarrow> rd work y; wr out (54 + y) v }) out =
      Some (splice out 54 (concat (map (\<lambda>y. [work ! y]) [0..<0 + p])))"
    by (rule for_up_splice [where c = 1]) (use work p fits in \<open>auto simp: rd_Some wr_splice\<close>)
  moreover have "concat (map (\<lambda>y. [work ! y]) [0..<0 + p]) = palette_bytes pal"
    unfolding pal(3) [symmetric] by (rule nth_equalityI) (use work p pal(1) in \<open>auto simp: p_def concat_map_singleton\<close>)
  ultimately have copy: "for_up 0 p (\<lambda>y out. do { v \<leftarrow> rd work y; wr out (54 + y) v }) out =
      Some (splice out 54 (palette_bytes pal))" by simp
  define o1 where "o1 = splice out 54 (palette_bytes pal)"
  have l1: "length o1 = length out" unfolding o1_def by (rule length_splice) (use p fits in simp)
  have t1: "take p (drop 54 o1) = palette_bytes pal"
    unfolding o1_def using take_drop_splice [of 54 "palette_bytes pal" out] p fits by simp
  obtain o2 m where rle: "v9x_shotxf_rle8 work w h o1 (54 + p) (v9x_stride8 w * h) = Some (o2, m)"
    and o2: "length o2 = length o1" "take (54 + p) o2 = take (54 + p) o1" "m \<le> stride * unat h"
      "m \<noteq> 0 \<longrightarrow> rle_decode (take m (drop (54 + p) o2)) [] [] = Some rows"
    using v9x_shotxf_rle8_eq [OF small(1,2,4), of "54 + p" "v9x_stride8 w * h" o1 work] fits l1 work
    unfolding uraw rows_def by auto
  have t2: "take p (drop 54 o2) = palette_bytes pal"
    using o2(2) t1 by (metis drop_take add_diff_cancel_left')
  have read: "bmp_read (bmp_header w h 8 c n i @ palette_bytes pal @ raw) =
      Some (rev (map (map (\<lambda>i. pal ! unat i)) rows))"
    if "unat i < 2147483648" "length raw = unat i" "read_rows8 raw (unat c) (unat w) (unat h) = Some rows" for c i raw
    by (rule bmp_read_8 [OF that(1) pal(1,2) that(2,3) rows(1)]) (use rows(2) idx in \<open>auto simp: rows_def\<close>)
  show ?thesis
  proof (cases "m \<noteq> 0 \<and> m < stride * unat h")
    case True
    define raw where "raw = take m (drop (54 + p) o2)"
    have um: "unat (of_nat m :: u32) = m" using True big by (simp add: u32_of_nat)
    have "m \<le> length o2 - (54 + p)" using True fits o2(1) l1 by linarith
    then have lraw: "length raw = m" by (simp add: raw_def)
    define o3 where "o3 = splice o2 0 (bmp_header w h 8 1 n (of_nat m))"
    have hdr: "v9x_bmp_header o2 w h 8 1 n (of_nat m) = Some o3"
      unfolding o3_def by (rule v9x_bmp_header_eq) (use o2(1) l1 fits in simp)
    have len: "unat (V9X_BMP_HEADER + n * 4 + of_nat m) = 54 + p + m"
      using uhdr um True big p by (subst u32_add) auto
    have "take (54 + p + m) o3 = bmp_header w h 8 1 n (of_nat m) @ palette_bytes pal @ raw"
      unfolding o3_def raw_def t2 [symmetric] by (rule file_parts) (use True fits o2(1) l1 in auto)
    moreover have "read_rows8 raw (unat (1 :: u32)) (unat w) (unat h) = Some rows"
      using True o2(4) by (simp add: read_rows8_def raw_def)
    ultimately have "bmp_read (take (54 + p + m) o3) = Some (rev (map (map (\<lambda>i. pal ! unat i)) rows))"
      using read [of "of_nat m" raw 1] um lraw True big by simp
    moreover have "p + m \<le> 1024 + unat (v9x_stride24 w) * unat h" using True p(1) prod by linarith
    ultimately have "pack8 work n w h out = Some (o3, V9X_BMP_HEADER + n * 4 + of_nat m) \<and>
        unat (V9X_BMP_HEADER + n * 4 + of_nat m) \<le> 1078 + unat (v9x_stride24 w) * unat h \<and>
        bmp_read (take (unat (V9X_BMP_HEADER + n * 4 + of_nat m)) o3) = Some (rev (map (map (\<lambda>i. pal ! unat i)) rows))"
      unfolding pack8_def Let_def len uhdr uraw using copy rle hdr True
      by (simp add: o1_def [symmetric] V9X_BMP_HEADER_def)
    then show ?thesis unfolding rows_def by blast
  next
    case False
    define raw where "raw = raw8 rows stride"
    have lraw: "length raw = stride * unat h"
      unfolding raw_def raw8_def using rows s8(1)
      by (subst length_concat_const [where c = stride]) (auto simp: mult.commute)
    define o3 where "o3 = splice o2 (54 + p) raw"
    have l3: "length o3 = length out" unfolding o3_def using lraw fits o2(1) l1 by (subst length_splice) auto
    have rr: "raw8_rows work (54 + p) w h o2 = Some o3"
      unfolding o3_def raw_def rows_def stride_def
      by (rule raw8_rows_eq [OF small(1,2) work]) (use fits o2(1) l1 in \<open>simp add: stride_def\<close>)
    have "take p (drop 54 o3) = take p (drop 54 o2)"
      unfolding o3_def by (rule take_drop_splice_before) (use lraw fits o2(1) l1 in auto)
    then have t3: "take p (drop 54 o3) = palette_bytes pal" using t2 by simp
    have r3: "take (stride * unat h) (drop (54 + p) o3) = raw"
      unfolding o3_def using take_drop_splice [of "54 + p" raw o2] lraw fits o2(1) l1 by simp
    define o4 where "o4 = splice o3 0 (bmp_header w h 8 0 n (v9x_stride8 w * h))"
    have hdr: "v9x_bmp_header o3 w h 8 0 n (v9x_stride8 w * h) = Some o4"
      unfolding o4_def by (rule v9x_bmp_header_eq) (use l3 fits in simp)
    have len: "unat (V9X_BMP_HEADER + n * 4 + v9x_stride8 w * h) = 54 + p + stride * unat h"
      using uhdr uraw big p by (subst u32_add) auto
    have "take (54 + p + stride * unat h) o4 = bmp_header w h 8 0 n (v9x_stride8 w * h) @ palette_bytes pal @ raw"
      unfolding o4_def t3 [symmetric] r3 [symmetric] by (rule file_parts) (use fits l3 in auto)
    moreover have "read_rows8 raw (unat (0 :: u32)) (unat w) (unat h) = Some rows"
      using read_raw8 [OF small(1) rows(2,1)] by (simp add: raw_def stride_def)
    ultimately have "bmp_read (take (54 + p + stride * unat h) o4) = Some (rev (map (map (\<lambda>i. pal ! unat i)) rows))"
      using read [of "v9x_stride8 w * h" raw 0] lraw uraw big by simp
    moreover have "p + stride * unat h \<le> 1024 + unat (v9x_stride24 w) * unat h" using p(1) prod by linarith
    ultimately have "pack8 work n w h out = Some (o4, V9X_BMP_HEADER + n * 4 + v9x_stride8 w * h) \<and>
        unat (V9X_BMP_HEADER + n * 4 + v9x_stride8 w * h) \<le> 1078 + unat (v9x_stride24 w) * unat h \<and>
        bmp_read (take (unat (V9X_BMP_HEADER + n * 4 + v9x_stride8 w * h)) o4) =
          Some (rev (map (map (\<lambda>i. pal ! unat i)) rows))"
      unfolding pack8_def Let_def len uhdr uraw using copy rle hdr rr False
      by (cases "m = 0") (simp_all add: o1_def [symmetric] V9X_BMP_HEADER_def)
    then show ?thesis unfolding rows_def by blast
  qed
qed

subsection \<open>The whole transform\<close>

lemma v9x_shotxf_source_ok:
  assumes "unat source_length \<le> length source"
  obtains "v9x_shotxf_source source source_length = Some None"
  | src where "v9x_shotxf_source source source_length = Some (Some src)"
      "source_within source (unat (src_offset src)) (src_width src) (src_height src)"
      "1 \<le> src_width src" "1 \<le> src_height src"
proof (cases "source_length < V9X_BMP_HEADER")
  case True
  then show thesis using that(1) by (simp add: v9x_shotxf_source_def)
next
  case False
  then have len: "54 \<le> length source" using assms by (simp add: V9X_BMP_HEADER_def word_less_nat_alt)
  define off where "off = u32_of (source ! 10) (source ! 11) (source ! 12) (source ! 13)"
  define w where "w = u32_of (source ! 18) (source ! 19) (source ! 20) (source ! 21)"
  define h where "h = u32_of (source ! 22) (source ! 23) (source ! 24) (source ! 25)"
  have reads: "rd source 0 = Some (source ! 0)" "rd source 1 = Some (source ! 1)"
    "v9x_get32 source 10 = Some off" "v9x_get32 source 18 = Some w" "v9x_get32 source 22 = Some h"
    "\<exists>b. v9x_get16 source 28 = Some b" "\<exists>c. v9x_get32 source 30 = Some c"
    using len by (auto simp: v9x_get32_def v9x_get16_def rd_def off_def w_def h_def)
  then obtain b c where bc: "v9x_get16 source 28 = Some b" "v9x_get32 source 30 = Some c" by blast
  define good where "good \<longleftrightarrow> source ! 0 = 0x42 \<and> source ! 1 = 0x4D \<and> \<not> (b \<noteq> 24 \<or> c \<noteq> 0 \<or> w = 0 \<or> h = 0 \<or>
    w > 4096 \<or> h > 4096 \<or> off < V9X_BMP_HEADER \<or> off > source_length) \<and>
    \<not> source_length - off < v9x_stride24 w * h"
  have eq: "v9x_shotxf_source source source_length =
      Some (if good then Some \<lparr>src_offset = off, src_width = w, src_height = h\<rparr> else None)"
    unfolding v9x_shotxf_source_def good_def using False reads bc by simp
  show thesis
  proof (cases good)
    case True
    then have g: "w \<le> 4096" "h \<le> 4096" "w \<noteq> 0" "h \<noteq> 0" "off \<le> source_length" "v9x_stride24 w * h \<le> source_length - off"
      by (auto simp: good_def not_less)
    then have small: "unat w \<le> 4096" "unat h \<le> 4096" by (simp_all add: word_le_nat_alt)
    have "unat (v9x_stride24 w) * unat h \<le> 12288 * 4096"
      by (rule mult_le_mono) (use stride24_bounds [OF small(1)] small in auto)
    then have "unat (v9x_stride24 w * h) = unat (v9x_stride24 w) * unat h" by (simp add: u32_mult)
    moreover have "unat (v9x_stride24 w * h) \<le> unat source_length - unat off"
      using g(5,6) by (simp add: word_le_nat_alt u32_sub)
    ultimately have "unat off + unat (v9x_stride24 w) * unat h \<le> length source"
      using g(5) assms by (simp add: word_le_nat_alt)
    then have "source_within source (unat off) w h" using small by (simp add: source_within_def)
    moreover have "1 \<le> w" "1 \<le> h" using g(3,4) by (simp_all add: word_le_nat_alt Suc_le_eq unat_gt_0)
    ultimately show thesis using that(2) [of "\<lparr>src_offset = off, src_width = w, src_height = h\<rparr>"] eq True by simp
  next
    case False
    then show thesis using that(1) eq by simp
  qed
qed

text \<open>What the file has to show: the scaled region, in gray when that was asked for.\<close>

definition shot_picture :: "bytes \<Rightarrow> shot_source \<Rightarrow> shot_plan \<Rightarrow> u32 \<Rightarrow> colour list list" where
  "shot_picture source src p flags =
     (let pic = source_picture source (unat (src_offset src)) (unat (src_height src))
                  (unat (v9x_stride24 (src_width src)));
          rows = picture_rows (plan_picture p pic) (unat (output_width p)) (unat (output_height p))
      in if flags AND V9X_SHOT_GRAY \<noteq> 0 then map (map grayed) rows else rows)"

lemma index_rows_picture:
  assumes small: "unat w \<le> 4096" "unat h \<le> 4096"
    and idx: "indexed work pal (map f (image_pixels (bmp24 pic w h @ rest) 54 (unat (v9x_stride24 w)) (unat w) (unat h)))"
  shows "rev (map (map (\<lambda>i. pal ! unat i)) (index_rows work (unat w) (unat h))) =
      map (map f) (picture_rows pic (unat w) (unat h))"
    "row \<in> set (index_rows work (unat w) (unat h)) \<Longrightarrow> i \<in> set row \<Longrightarrow> unat i < length pal"
proof -
  define stride where "stride = unat (v9x_stride24 w)"
  note stride = stride24_bounds [OF small(1), folded stride_def]
  define ps where "ps = image_pixels (bmp24 pic w h @ rest) 54 stride (unat w) (unat h)"
  have work: "6144 + unat h * unat w \<le> length work" using idx by (simp add: indexed_def)
  have entry: "unat (work ! (6144 + (y * unat w + x))) < length pal"
    "pal ! unat (work ! (6144 + (y * unat w + x))) = f (colour_at pic x (unat h - 1 - y))"
    if "y < unat h" "x < unat w" for x y
  proof -
    have "Suc y * unat w \<le> unat h * unat w" by (rule mult_le_mono1) (use that in simp)
    then have lt: "y * unat w + x < length (map f ps)" using that by (simp add: ps_def)
    have "map f ps ! (y * unat w + x) = f (ps ! (y * unat w + x))" using lt by simp
    also have "ps ! (y * unat w + x) = map (image_pixel (bmp24 pic w h @ rest) 54 stride ([0..<unat h] ! y)) [0..<unat w] ! x"
      unfolding ps_def image_pixels_def by (rule nth_concat_const) (use that in auto)
    also have "\<dots> = image_pixel (bmp24 pic w h @ rest) 54 stride y x" using that by simp
    also have "\<dots> = image_pixel (concat (map (picture_row pic (unat w) stride) (rev [0..<unat h])) @ rest) 0 stride y x"
      by (simp add: image_pixel_def bmp24_def stride_def nth_append)
    also have "\<dots> = colour_at pic x (unat h - 1 - y)"
      by (rule rows24_pixel) (use that stride in auto)
    finally have "map f ps ! (y * unat w + x) = f (colour_at pic x (unat h - 1 - y))" .
    then show "unat (work ! (6144 + (y * unat w + x))) < length pal"
      "pal ! unat (work ! (6144 + (y * unat w + x))) = f (colour_at pic x (unat h - 1 - y))"
      using idx lt unfolding indexed_def ps_def stride_def by auto
  qed
  have row: "take (unat w) (drop (6144 + y * unat w) work) = map (\<lambda>x. work ! (6144 + (y * unat w + x))) [0..<unat w]"
    if "y < unat h" for y
  proof -
    have "Suc y * unat w \<le> unat h * unat w" by (rule mult_le_mono1) (use that in simp)
    then have "6144 + y * unat w + unat w \<le> length work" using work by simp
    then show ?thesis by (intro nth_equalityI) (auto simp: add.assoc)
  qed
  have "map (map (\<lambda>i. pal ! unat i)) (index_rows work (unat w) (unat h)) =
      map (\<lambda>y. map (\<lambda>x. f (colour_at pic x (unat h - 1 - y))) [0..<unat w]) [0..<unat h]"
    unfolding index_rows_def using row entry(2) by (auto simp: comp_def)
  then show "rev (map (map (\<lambda>i. pal ! unat i)) (index_rows work (unat w) (unat h))) =
      map (map f) (picture_rows pic (unat w) (unat h))"
    unfolding picture_rows_def by (simp add: rev_rows comp_def)
  show "unat i < length pal" if "row \<in> set (index_rows work (unat w) (unat h))" "i \<in> set row"
    using that row entry(1) by (auto simp: index_rows_def)
qed

lemma unat_output_capacity:
  assumes "unat w \<le> 4096" "unat h \<le> 4096"
  shows "unat (v9x_shotxf_output_capacity w h) = 1078 + unat (v9x_stride24 w) * unat h"
    "unat (v9x_shotxf_work_capacity w h) = 6144 + unat w * unat h"
proof -
  have "unat (v9x_stride24 w) * unat h \<le> 12288 * 4096" "unat w * unat h \<le> 4096 * 4096"
    by (rule mult_le_mono; use stride24_bounds [OF assms(1)] assms in simp)+
  then show "unat (v9x_shotxf_output_capacity w h) = 1078 + unat (v9x_stride24 w) * unat h"
    "unat (v9x_shotxf_work_capacity w h) = 6144 + unat w * unat h"
    by (simp_all add: v9x_shotxf_output_capacity_def v9x_shotxf_work_capacity_def V9X_BMP_HEADER_def
        V9X_PALETTE_BYTES_def V9X_WORK_INDICES_def V9X_WORK_VALUES_def V9X_WORK_KEYS_def V9X_HASH_SLOTS_def
        u32_add u32_mult)
qed

definition few_colours :: "colour list list \<Rightarrow> bool" where
  "few_colours rows \<longleftrightarrow> card (set (concat rows)) \<le> 256"

lemma UN_bottom_up: "(\<Union>y\<in>{..<h :: nat}. g (h - 1 - y)) = (\<Union>y\<in>{..<h}. g y)"
proof (intro set_eqI iffI)
  fix z assume "z \<in> (\<Union>y\<in>{..<h}. g (h - 1 - y))"
  then obtain y where "y < h" "z \<in> g (h - 1 - y)" by auto
  then show "z \<in> (\<Union>y\<in>{..<h}. g y)" by (intro UN_I [of "h - 1 - y"]) auto
next
  fix z assume "z \<in> (\<Union>y\<in>{..<h}. g y)"
  then obtain y where "y < h" "z \<in> g (h - 1 - (h - 1 - y))" by auto
  then show "z \<in> (\<Union>y\<in>{..<h}. g (h - 1 - y))" by (intro UN_I [of "h - 1 - y"]) auto
qed

lemma image_pixels_bmp24:
  assumes "unat w \<le> 4096"
  shows "set (image_pixels (bmp24 pic w h @ rest) 54 (unat (v9x_stride24 w)) (unat w) (unat h)) =
    set (concat (picture_rows pic (unat w) (unat h)))"
proof -
  define stride where "stride = unat (v9x_stride24 w)"
  note stride = stride24_bounds [OF assms, folded stride_def]
  have "image_pixel (bmp24 pic w h @ rest) 54 stride y x = colour_at pic x (unat h - 1 - y)"
    if "y < unat h" "x < unat w" for x y
  proof -
    have "image_pixel (bmp24 pic w h @ rest) 54 stride y x =
        image_pixel (concat (map (picture_row pic (unat w) stride) (rev [0..<unat h])) @ rest) 0 stride y x"
      by (simp add: image_pixel_def bmp24_def stride_def nth_append)
    then show ?thesis using rows24_pixel that stride by simp
  qed
  then have "set (image_pixels (bmp24 pic w h @ rest) 54 stride (unat w) (unat h)) =
      (\<Union>y\<in>{..<unat h}. (\<lambda>x. colour_at pic x (unat h - 1 - y)) ` {..<unat w})"
    by (auto simp: image_pixels_def)
  also have "\<dots> = (\<Union>y\<in>{..<unat h}. (\<lambda>x. colour_at pic x y) ` {..<unat w})"
    by (rule UN_bottom_up)
  also have "\<dots> = set (concat (picture_rows pic (unat w) (unat h)))"
    by (auto simp: picture_rows_def)
  finally show ?thesis by (simp add: stride_def)
qed

text \<open>The transform stays in its buffers and ends, and the file it makes shows the picture. A COMPACT
  image stays in 24 bits exactly when it has more than 256 colours.\<close>

lemma shotxf_shape_eq:
  assumes within: "source_within source (unat (src_offset src)) (src_width src) (src_height src)"
    and plan: "plan_within p (src_width src) (src_height src)"
    and room: "unat (v9x_shotxf_output_capacity (output_width p) (output_height p)) \<le> length output"
      "unat (v9x_shotxf_work_capacity (output_width p) (output_height p)) \<le> length work"
  shows "\<exists>r. shotxf_shape source src flags p output work = Some r \<and>
    res_width r = output_width p \<and> res_height r = output_height p \<and>
    unat (res_length r) \<le> unat (v9x_shotxf_output_capacity (output_width p) (output_height p)) \<and>
    bmp_read (take (unat (res_length r)) (res_output r)) =
      Some (if res_bits r = 8 then shot_picture source src p flags else shot_picture source src p 0) \<and>
    (res_bits r = 8 \<longleftrightarrow> flags AND V9X_SHOT_GRAY \<noteq> 0 \<or>
       flags AND V9X_SHOT_COMPACT \<noteq> 0 \<and> few_colours (shot_picture source src p 0))"
proof -
  define ow where "ow = output_width p"
  define oh where "oh = output_height p"
  define gray where "gray \<longleftrightarrow> flags AND V9X_SHOT_GRAY \<noteq> 0"
  define new where "new = plan_picture p (source_picture source (unat (src_offset src)) (unat (src_height src))
    (unat (v9x_stride24 (src_width src))))"
  define rows where "rows = picture_rows new (unat ow) (unat oh)"
  define stride where "stride = unat (v9x_stride24 ow)"
  have small: "unat ow \<le> 4096" "unat oh \<le> 4096" "1 \<le> unat ow" "1 \<le> unat oh"
    using plan by (auto simp: plan_within_def ow_def oh_def word_le_nat_alt)
  note cap = unat_output_capacity [OF small(1,2), folded stride_def]
  have room': "1078 + stride * unat oh \<le> length output" "6144 + unat ow * unat oh \<le> length work"
    using room cap by (simp_all add: ow_def oh_def)
  have fits: "54 + unat oh * stride \<le> length output" using room'(1) by (simp add: mult.commute)
  have "stride * unat oh \<le> 12288 * 4096"
    by (rule mult_le_mono) (use stride24_bounds [OF small(1)] small in \<open>auto simp: stride_def\<close>)
  then have ul: "unat (V9X_BMP_HEADER + v9x_stride24 ow * oh) = 54 + unat oh * stride"
    by (simp add: V9X_BMP_HEADER_def u32_add u32_mult stride_def mult.commute)
  have pic: "shot_picture source src p flags = (if gray then map (map grayed) rows else rows)"
    "shot_picture source src p 0 = rows"
    by (simp_all add: shot_picture_def rows_def new_def gray_def Let_def ow_def oh_def)
  define o1 where "o1 = splice output 0 (bmp24 new ow oh)"
  have resample: "v9x_shotxf_resample source (unat (src_offset src)) (src_height src)
      (v9x_stride24 (src_width src)) (region_x p) (region_y p) (region_width p) (region_height p) output ow oh = Some o1"
    unfolding o1_def new_def ow_def oh_def
    by (rule v9x_shotxf_resample_eq [OF within plan]) (use fits in \<open>simp add: ow_def oh_def stride_def\<close>)
  define tail where "tail = drop (length (bmp24 new ow oh)) output"
  have len24: "length (bmp24 new ow oh) = 54 + unat oh * stride"
    using length_bmp24 [OF small(1)] by (simp add: stride_def)
  have o1: "o1 = bmp24 new ow oh @ tail" by (simp add: o1_def splice_def tail_def)
  have l1: "length o1 = length output" unfolding o1_def by (rule length_splice) (use fits len24 in simp)
  have read24: "bmp_read (take (54 + unat oh * stride) o1) = Some rows"
    using bmp_read_24 [OF small] len24 by (simp add: o1 rows_def)
  define ps where "ps = image_pixels o1 54 stride (unat ow) (unat oh)"
  define pal where "pal = (if gray then gray_ramp else palette_of ps)"
  have "\<exists>work'. v9x_shotxf_index o1 54 ow oh gray work =
      Some (work', if length pal \<le> 256 then of_nat (length pal) else 0) \<and> length work' = length work \<and>
    (length pal \<le> 256 \<longrightarrow> take (4 * length pal) work' = palette_bytes pal \<and>
       indexed work' pal (if gray then map grayed ps else ps))"
    unfolding pal_def ps_def stride_def
    by (rule v9x_shotxf_index_eq [OF small]) (use room' l1 in \<open>auto simp: stride_def\<close>)
  then obtain work' where index: "v9x_shotxf_index o1 54 ow oh gray work =
      Some (work', if length pal \<le> 256 then of_nat (length pal) else 0)"
    and work': "length work' = length work"
      "length pal \<le> 256 \<Longrightarrow> take (4 * length pal) work' = palette_bytes pal"
      "length pal \<le> 256 \<Longrightarrow> indexed work' pal (if gray then map grayed ps else ps)"
    by blast
  have "set ps = set (concat rows)"
    unfolding ps_def o1 rows_def stride_def by (rule image_pixels_bmp24 [OF small(1)])
  moreover have "length (palette_of ps) = card (set ps)"
    using distinct_card [OF distinct_palette_of [of ps]] by (simp add: set_palette_of)
  ultimately have few: "length pal \<le> 256 \<longleftrightarrow> gray \<or> few_colours rows"
    by (simp add: pal_def few_colours_def)
  have "ps \<noteq> []"
  proof -
    have "length ps = unat oh * unat ow" by (simp add: ps_def)
    then show ?thesis using small by (auto simp: Suc_le_eq)
  qed
  then have "palette_of ps \<noteq> []" using set_palette_of [of ps] by auto
  then have pal0: "pal \<noteq> []" using length_gray_ramp by (auto simp: pal_def simp del: length_gray_ramp)
  show ?thesis
  proof (cases "flags AND (V9X_SHOT_COMPACT OR V9X_SHOT_GRAY) = 0")
    case True
    then have none: "flags AND V9X_SHOT_COMPACT = 0" "flags AND V9X_SHOT_GRAY = 0"
      by (simp_all add: bit_eq_iff bit_simps)
    then show ?thesis
      unfolding shotxf_shape_def Let_def ow_def [symmetric] oh_def [symmetric]
      using True resample read24 ul cap pic(2) by (simp add: mult.commute)
  next
    case asked: False
    show ?thesis
    proof (cases "length pal \<le> 256")
      case False
      then have "\<not> gray" "\<not> few_colours rows" using few by auto
      then show ?thesis
        unfolding shotxf_shape_def Let_def ow_def [symmetric] oh_def [symmetric]
        using asked resample index read24 ul cap pic(2) False
        by (simp add: mult.commute gray_def V9X_BMP_HEADER_def)
    next
      case True
      have n: "unat (of_nat (length pal) :: u32) = length pal" using True by (simp add: u32_of_nat)
      have nz: "(of_nat (length pal) :: u32) \<noteq> 0" using n pal0 by (metis length_0_conv unsigned_0)
      have idx: "indexed work' pal (map (if gray then grayed else id)
          (image_pixels (bmp24 new ow oh @ tail) 54 (unat (v9x_stride24 ow)) (unat ow) (unat oh)))"
        using work'(3) [OF True] by (simp add: ps_def o1 stride_def split: if_splits)
      note disp = index_rows_picture [OF small(1,2) idx]
      obtain o2 len where pack: "pack8 work' (of_nat (length pal)) ow oh o1 = Some (o2, len)"
        and o2: "unat len \<le> 1078 + stride * unat oh"
          "bmp_read (take (unat len) o2) = Some (rev (map (map (\<lambda>i. pal ! unat i)) (index_rows work' (unat ow) (unat oh))))"
        using pack8_eq [OF small, of pal "of_nat (length pal)" work' o1] n True work' disp(2) room' l1
        by (auto simp: stride_def)
      have "rev (map (map (\<lambda>i. pal ! unat i)) (index_rows work' (unat ow) (unat oh))) = shot_picture source src p flags"
        unfolding disp(1) pic(1) by (simp add: rows_def)
      moreover have "flags AND V9X_SHOT_GRAY \<noteq> 0 \<or> flags AND V9X_SHOT_COMPACT \<noteq> 0 \<and> few_colours rows"
        using few True asked by (auto simp: gray_def bit_eq_iff bit_simps)
      ultimately show ?thesis
        unfolding shotxf_shape_def Let_def ow_def [symmetric] oh_def [symmetric]
        using asked resample index nz True pack o2 cap pic(2)
        by (simp add: gray_def V9X_BMP_HEADER_def)
    qed
  qed
qed

end
