(* ===== verification/ShotProps.thy ===== *)
theory ShotProps
  imports ShotPicture
begin

section \<open>Properties of screenshot shaping\<close>

text \<open>
  The claims about \<^verbatim>\<open>src/common/shotxf.c\<close>: what a shaped screenshot shows and where it may
  write, the bounds of the plan, and the options block.
\<close>

lemma v9x_shotxf_apply_eq:
  assumes "unat source_length \<le> length source" "unat output_capacity \<le> length output"
    "unat work_capacity \<le> length work"
  shows "case v9x_shotxf_source source source_length of
      None \<Rightarrow> False
    | Some None \<Rightarrow>
        v9x_shotxf_apply source source_length options output output_capacity work work_capacity =
          Some (Inl V9X_SHOTXF_BAD_SOURCE)
    | Some (Some src) \<Rightarrow>
        (case v9x_shotxf_plan options (src_width src) (src_height src) of
           Inl e \<Rightarrow>
             v9x_shotxf_apply source source_length options output output_capacity work work_capacity = Some (Inl e)
         | Inr p \<Rightarrow>
             if output_capacity < v9x_shotxf_output_capacity (output_width p) (output_height p) \<or>
                work_capacity < v9x_shotxf_work_capacity (output_width p) (output_height p)
             then v9x_shotxf_apply source source_length options output output_capacity work work_capacity =
                    Some (Inl V9X_SHOTXF_NO_ROOM)
             else \<exists>r. v9x_shotxf_apply source source_length options output output_capacity work work_capacity =
                    Some (Inr r) \<and>
                  res_width r = output_width p \<and> res_height r = output_height p \<and>
                  res_length r \<le> output_capacity \<and>
                  bmp_read (take (unat (res_length r)) (res_output r)) =
                    Some (if res_bits r = 8 then shot_picture source src p (so_flags options)
                          else shot_picture source src p 0) \<and>
                  (res_bits r = 8 \<longleftrightarrow> so_flags options AND V9X_SHOT_GRAY \<noteq> 0 \<or>
                     so_flags options AND V9X_SHOT_COMPACT \<noteq> 0 \<and> few_colours (shot_picture source src p 0)))"
  using assms(1)
proof (cases rule: v9x_shotxf_source_ok)
  case 1
  then show ?thesis by (simp add: v9x_shotxf_apply_def)
next
  case (2 src)
  show ?thesis
  proof (cases "v9x_shotxf_plan options (src_width src) (src_height src)")
    case (Inl e)
    then show ?thesis using 2 by (simp add: v9x_shotxf_apply_def)
  next
    case (Inr p)
    show ?thesis
    proof (cases "output_capacity < v9x_shotxf_output_capacity (output_width p) (output_height p) \<or>
        work_capacity < v9x_shotxf_work_capacity (output_width p) (output_height p)")
      case True
      then show ?thesis using 2 Inr by (simp add: v9x_shotxf_apply_def)
    next
      case False
      then have cap: "unat (v9x_shotxf_output_capacity (output_width p) (output_height p)) \<le> unat output_capacity"
        "unat (v9x_shotxf_work_capacity (output_width p) (output_height p)) \<le> unat work_capacity"
        by (auto simp: word_less_nat_alt)
      have room: "unat (v9x_shotxf_output_capacity (output_width p) (output_height p)) \<le> length output"
        "unat (v9x_shotxf_work_capacity (output_width p) (output_height p)) \<le> length work"
        using cap assms(2,3) by linarith+
      obtain r where r: "shotxf_shape source src (so_flags options) p output work = Some r"
        "res_width r = output_width p" "res_height r = output_height p"
        "unat (res_length r) \<le> unat (v9x_shotxf_output_capacity (output_width p) (output_height p))"
        "bmp_read (take (unat (res_length r)) (res_output r)) =
          Some (if res_bits r = 8 then shot_picture source src p (so_flags options) else shot_picture source src p 0)"
        "res_bits r = 8 \<longleftrightarrow> so_flags options AND V9X_SHOT_GRAY \<noteq> 0 \<or>
           so_flags options AND V9X_SHOT_COMPACT \<noteq> 0 \<and> few_colours (shot_picture source src p 0)"
        using shotxf_shape_eq [OF 2(2) plan_ok(1) [OF Inr] room, of "so_flags options"] by blast
      have "v9x_shotxf_apply source source_length options output output_capacity work work_capacity = Some (Inr r)"
        using 2(1) Inr False r(1) by (simp add: v9x_shotxf_apply_def)
      moreover have "res_length r \<le> output_capacity" using r(4) cap(1) by (simp add: word_le_nat_alt)
      ultimately show ?thesis
        unfolding 2(1) Inr option.case sum.case if_not_P [OF False] using r(2,3,5,6) by blast
    qed
  qed
qed

text \<open>C5. Shaping a screenshot: on buffers of the stated sizes the transform never touches memory outside
  them and always ends; it refuses exactly the sources, options and capacities it must; and otherwise
  the BMP it writes, read by a strict reader of 24-bit, 8-bit and RLE8 files, shows exactly the
  requested region of the screen with every pixel the rounded average of its box, in gray when that
  was asked for. An image is stored in 8 bits exactly when gray was asked for, or compact was and it
  has at most 256 colours.\<close>

theorem shot_apply_picture:
  assumes "unat source_length \<le> length source" "unat output_capacity \<le> length output"
    "unat work_capacity \<le> length work"
  shows "case v9x_shotxf_source source source_length of
      None \<Rightarrow> False
    | Some None \<Rightarrow>
        v9x_shotxf_apply source source_length options output output_capacity work work_capacity =
          Some (Inl V9X_SHOTXF_BAD_SOURCE)
    | Some (Some src) \<Rightarrow>
        (case v9x_shotxf_plan options (src_width src) (src_height src) of
           Inl e \<Rightarrow>
             v9x_shotxf_apply source source_length options output output_capacity work work_capacity = Some (Inl e)
         | Inr p \<Rightarrow>
             if output_capacity < v9x_shotxf_output_capacity (output_width p) (output_height p) \<or>
                work_capacity < v9x_shotxf_work_capacity (output_width p) (output_height p)
             then v9x_shotxf_apply source source_length options output output_capacity work work_capacity =
                    Some (Inl V9X_SHOTXF_NO_ROOM)
             else \<exists>r. v9x_shotxf_apply source source_length options output output_capacity work work_capacity =
                    Some (Inr r) \<and>
                  res_width r = output_width p \<and> res_height r = output_height p \<and>
                  res_length r \<le> output_capacity \<and>
                  bmp_read (take (unat (res_length r)) (res_output r)) =
                    Some (if res_bits r = 8 then shot_picture source src p (so_flags options)
                          else shot_picture source src p 0) \<and>
                  (res_bits r = 8 \<longleftrightarrow> so_flags options AND V9X_SHOT_GRAY \<noteq> 0 \<or>
                     so_flags options AND V9X_SHOT_COMPACT \<noteq> 0 \<and> few_colours (shot_picture source src p 0)))"
  using assms by (rule v9x_shotxf_apply_eq)

definition shot_sample :: bytes where
  "shot_sample = bmp_header 2 1 24 0 0 8 @ [1, 2, 3, 4, 5, 6, 0, 0]"

definition shot_sample_options :: shot_options where
  "shot_sample_options = \<lparr>so_flags = 1, so_x = 0, so_y = 0, so_width = 0, so_height = 0, so_scale_percent = 0\<rparr>"

lemma shot_apply_picture_witness:
  "\<exists>r. v9x_shotxf_apply shot_sample 62 shot_sample_options (replicate 1086 0) 1086 (replicate 6146 0) 6146 = Some (Inr r) \<and>
     res_bits r = 8 \<and> bmp_read (take (unat (res_length r)) (res_output r)) = Some [[(1, 2, 3), (4, 5, 6)]]"
proof -
  have src: "v9x_shotxf_source shot_sample 62 = Some (Some \<lparr>src_offset = 54, src_width = 2, src_height = 1\<rparr>)"
    by (simp add: v9x_shotxf_source_def shot_sample_def bmp_header_def le32_def le16u_def rd_def v9x_get32_def
        v9x_get16_def u32_of_def V9X_BMP_HEADER_def v9x_stride24_def)
  have plan: "v9x_shotxf_plan shot_sample_options 2 1 =
      Inr \<lparr>region_x = 0, region_y = 0, region_width = 2, region_height = 1, output_width = 2, output_height = 1\<rparr>"
    by (simp add: v9x_shotxf_plan_def shot_sample_options_def plan_region_def plan_output_def
        V9X_SHOT_KNOWN_FLAGS_def V9X_SHOT_COMPACT_def V9X_SHOT_GRAY_def)
  have picture: "shot_picture shot_sample \<lparr>src_offset = 54, src_width = 2, src_height = 1\<rparr>
      \<lparr>region_x = 0, region_y = 0, region_width = 2, region_height = 1, output_width = 2, output_height = 1\<rparr> f =
      [[(1, 2, 3), (4, 5, 6)]]" if "f AND V9X_SHOT_GRAY = 0" for f
    using that
    by (simp add: shot_picture_def picture_rows_def colour_at_def plan_picture_def scaled_def box_average_def
        box_total_def source_picture_def shot_sample_def bmp_header_def le32_def le16u_def v9x_stride24_def upt_conv_Cons)
  have cap: "v9x_shotxf_output_capacity 2 1 = 1086" "v9x_shotxf_work_capacity 2 1 = 6146"
    by (simp_all add: v9x_shotxf_output_capacity_def v9x_shotxf_work_capacity_def V9X_BMP_HEADER_def
        V9X_PALETTE_BYTES_def V9X_WORK_INDICES_def V9X_WORK_VALUES_def V9X_WORK_KEYS_def V9X_HASH_SLOTS_def
        v9x_stride24_def)
  have flags: "so_flags shot_sample_options = 1" by (simp add: shot_sample_options_def)
  have p: "shot_picture shot_sample \<lparr>src_offset = 54, src_width = 2, src_height = 1\<rparr>
      \<lparr>region_x = 0, region_y = 0, region_width = 2, region_height = 1, output_width = 2, output_height = 1\<rparr>
      (so_flags shot_sample_options) = [[(1, 2, 3), (4, 5, 6)]]"
    "shot_picture shot_sample \<lparr>src_offset = 54, src_width = 2, src_height = 1\<rparr>
      \<lparr>region_x = 0, region_y = 0, region_width = 2, region_height = 1, output_width = 2, output_height = 1\<rparr> 0 =
      [[(1, 2, 3), (4, 5, 6)]]"
    by (rule picture; simp add: flags V9X_SHOT_GRAY_def)+
  have asked: "so_flags shot_sample_options AND V9X_SHOT_COMPACT \<noteq> 0 \<and> few_colours [[(1, 2, 3), (4, 5, 6)]]"
    by (simp add: flags V9X_SHOT_COMPACT_def few_colours_def)
  have "\<exists>r. v9x_shotxf_apply shot_sample 62 shot_sample_options (replicate 1086 0) 1086 (replicate 6146 0) 6146 = Some (Inr r) \<and>
     res_bits r = 8 \<and> bmp_read (take (unat (res_length r)) (res_output r)) =
       Some (if res_bits r = 8 then [[(1, 2, 3), (4, 5, 6)]] else [[(1, 2, 3), (4, 5, 6)]])"
    using shot_apply_picture [of 62 shot_sample 1086 "replicate 1086 0" 6146 "replicate 6146 0" shot_sample_options,
        unfolded src option.case shot_source.simps plan sum.case shot_plan.simps cap p] asked
    by (auto simp: shot_sample_def)
  then show ?thesis by (simp only: if_cancel)
qed

end
