(* ===== verification/TextScan.thy ===== *)
theory TextScan
  imports V9xPrelude
begin

section \<open>Line filtering for READ_TEXT (\<^verbatim>\<open>src/common/textscan.c\<close>)\<close>

text \<open>
  The line scanner behind \<^verbatim>\<open>v9xctl cat\<close>: it is fed a file in chunks and keeps the matching
  lines, after the first \<open>skip\<close> of them, in one bounded buffer. The specification at the end
  speaks about the lines of the whole file; the scanner works byte by byte. Counters are \<open>nat\<close>:
  each is at most the number of bytes fed, and a file has fewer than \<open>2 ^ 31\<close> bytes.
\<close>

definition V9X_TEXT_LINE_MAX :: nat where
  "V9X_TEXT_LINE_MAX = 1024"

subsection \<open>The code\<close>

record text_scan =
  ts_skip :: nat
  ts_emit :: bool
  ts_match :: "bytes option"
  ts_output :: bytes
  ts_capacity :: nat
  ts_used :: nat
  ts_lines :: nat
  ts_matched :: nat
  ts_emitted :: nat
  ts_truncated :: bool
  ts_long_line :: bool
  ts_line_length :: nat
  ts_line_cut :: bool
  ts_line :: bytes

text \<open>A match of length 0 is no match (\<open>match_length\<close> is the length of the match bytes); the two
  bits of \<open>flags\<close> are the two boolean fields.\<close>

definition v9x_text_begin :: "text_scan \<Rightarrow> bool \<Rightarrow> nat \<Rightarrow> bytes \<Rightarrow> bytes \<Rightarrow> nat \<Rightarrow> text_scan" where
  "v9x_text_begin scan emit skip mat output capacity = scan\<lparr>
     ts_skip := skip, ts_emit := emit, ts_match := (if length mat \<noteq> 0 then Some mat else None),
     ts_output := output, ts_capacity := capacity, ts_used := 0, ts_lines := 0, ts_matched := 0,
     ts_emitted := 0, ts_truncated := False, ts_long_line := False, ts_line_length := 0,
     ts_line_cut := False\<rparr>"

definition v9x_text_lower :: "u8 \<Rightarrow> u8" where
  "v9x_text_lower ch = (if ch \<ge> 0x41 \<and> ch \<le> 0x5A then ch + (0x61 - 0x41) else ch)"

definition v9x_text_matches :: "text_scan \<Rightarrow> bool" where
  "v9x_text_matches scan =
     (case ts_match scan of
        None \<Rightarrow> True
      | Some mat \<Rightarrow>
          if length mat > ts_line_length scan then False
          else list_ex (\<lambda>start. list_all (\<lambda>index.
                  v9x_text_lower (ts_line scan ! (start + index)) = v9x_text_lower (mat ! index))
                [0..<length mat])
              [0..<ts_line_length scan - length mat + 1])"

definition v9x_text_line_done :: "text_scan \<Rightarrow> text_scan option" where
  "v9x_text_line_done scan =
     (let len = ts_line_length scan;
          len = (if len \<noteq> 0 \<and> ts_line scan ! (len - 1) = 0x0D then len - 1 else len);
          scan = scan\<lparr>ts_line_length := len, ts_lines := ts_lines scan + 1\<rparr>;
          scan = (if ts_line_cut scan then scan\<lparr>ts_long_line := True\<rparr> else scan)
      in do {
        scan \<leftarrow>
          (if v9x_text_matches scan then
             (let scan = scan\<lparr>ts_matched := ts_matched scan + 1\<rparr> in
              if ts_emit scan \<and> ts_matched scan > ts_skip scan \<and> \<not> ts_truncated scan then
                if ts_used scan + len + 1 > ts_capacity scan then Some (scan\<lparr>ts_truncated := True\<rparr>)
                else do {
                  out \<leftarrow> wrs (ts_output scan) (ts_used scan) (take len (ts_line scan));
                  out \<leftarrow> wr out (ts_used scan + len) 0x0A;
                  Some (scan\<lparr>ts_output := out, ts_used := ts_used scan + len + 1,
                             ts_emitted := ts_emitted scan + 1\<rparr>)
                }
              else Some scan)
           else Some scan);
        Some (scan\<lparr>ts_line_length := 0, ts_line_cut := False\<rparr>)
      })"

fun v9x_text_feed :: "text_scan \<Rightarrow> bytes \<Rightarrow> text_scan option" where
  "v9x_text_feed scan [] = Some scan"
| "v9x_text_feed scan (ch # data) = do {
     scan \<leftarrow>
       (if ch = 0x0A then v9x_text_line_done scan
        else if ts_line_length scan < V9X_TEXT_LINE_MAX then do {
          line \<leftarrow> wr (ts_line scan) (ts_line_length scan) ch;
          Some (scan\<lparr>ts_line := line, ts_line_length := ts_line_length scan + 1\<rparr>)
        }
        else Some (scan\<lparr>ts_line_cut := True\<rparr>));
     v9x_text_feed scan data
   }"

definition v9x_text_end :: "text_scan \<Rightarrow> text_scan option" where
  "v9x_text_end scan =
     (if ts_line_length scan \<noteq> 0 \<or> ts_line_cut scan then v9x_text_line_done scan else Some scan)"

text \<open>One pass over a file that arrives in the given chunks.\<close>

fun text_feed_all :: "text_scan \<Rightarrow> bytes list \<Rightarrow> text_scan option" where
  "text_feed_all scan [] = v9x_text_end scan"
| "text_feed_all scan (c # cs) = do { scan \<leftarrow> v9x_text_feed scan c; text_feed_all scan cs }"

subsection \<open>The specification: the lines of the whole file\<close>

text \<open>The finished lines (each ended by LF) and the unfinished rest.\<close>

fun split_lf :: "bytes \<Rightarrow> bytes list \<times> bytes" where
  "split_lf [] = ([], [])"
| "split_lf (c # cs) = (case split_lf cs of (ls, cur) \<Rightarrow>
     if c = 0x0A then ([] # ls, cur)
     else (case ls of [] \<Rightarrow> ([], c # cur) | l # ls' \<Rightarrow> ((c # l) # ls', cur)))"

definition file_lines :: "bytes \<Rightarrow> bytes list" where
  "file_lines file = (case split_lf file of (ls, cur) \<Rightarrow> if cur = [] then ls else ls @ [cur])"

text \<open>A line as it is matched and emitted: cut at the limit, one trailing CR dropped.\<close>

definition clean_line :: "bytes \<Rightarrow> bytes" where
  "clean_line l = (let l = take V9X_TEXT_LINE_MAX l in
     if l \<noteq> [] \<and> last l = 0x0D then butlast l else l)"

definition contains_nocase :: "bytes \<Rightarrow> bytes \<Rightarrow> bool" where
  "contains_nocase mat l \<longleftrightarrow>
     (\<exists>pre mid post. l = pre @ mid @ post \<and> map v9x_text_lower mid = map v9x_text_lower mat)"

definition matching_lines :: "bytes \<Rightarrow> bytes \<Rightarrow> bytes list" where
  "matching_lines mat file = filter (contains_nocase mat) (map clean_line (file_lines file))"

text \<open>The longest run of leading lines that fits a buffer, each with its LF.\<close>

fun fitting :: "nat \<Rightarrow> bytes list \<Rightarrow> bytes list" where
  "fitting room [] = []"
| "fitting room (l # ls) =
     (if length l + 1 > room then [] else l # fitting (room - (length l + 1)) ls)"

definition with_lf :: "bytes list \<Rightarrow> bytes" where
  "with_lf ls = concat (map (\<lambda>l. l @ [0x0A]) ls)"

subsection \<open>The scanner refines the specification\<close>

lemma contains_nocase_index:
  "contains_nocase mat l \<longleftrightarrow> (\<exists>start. start + length mat \<le> length l \<and>
     (\<forall>i < length mat. v9x_text_lower (l ! (start + i)) = v9x_text_lower (mat ! i)))"
    (is "_ \<longleftrightarrow> (\<exists>start. ?at start)")
proof
  assume "contains_nocase mat l"
  then obtain pre mid post where l: "l = pre @ mid @ post"
    and m: "map v9x_text_lower mid = map v9x_text_lower mat"
    by (auto simp: contains_nocase_def)
  have len: "length mid = length mat"
    using m by (rule map_eq_imp_length_eq)
  have "v9x_text_lower (mid ! i) = v9x_text_lower (mat ! i)" if "i < length mat" for i
    using that len m by (metis nth_map)
  then have "?at (length pre)"
    using len by (simp add: l nth_append)
  then show "\<exists>start. ?at start" ..
next
  assume "\<exists>start. ?at start"
  then obtain start where at: "?at start" ..
  let ?mid = "take (length mat) (drop start l)"
  have "map v9x_text_lower ?mid = map v9x_text_lower mat"
    using at by (intro nth_equalityI) auto
  moreover have "l = take start l @ ?mid @ drop (length mat) (drop start l)"
    by (metis append_take_drop_id)
  ultimately show "contains_nocase mat l"
    unfolding contains_nocase_def by blast
qed

lemma contains_nocase_exec [code]:
  "contains_nocase mat l \<longleftrightarrow> length mat \<le> length l \<and>
     list_ex (\<lambda>start. map v9x_text_lower (take (length mat) (drop start l)) =
                        map v9x_text_lower mat) [0..<Suc (length l - length mat)]"
proof -
  have "(\<forall>i < length mat. v9x_text_lower (l ! (start + i)) = v9x_text_lower (mat ! i)) \<longleftrightarrow>
      map v9x_text_lower (take (length mat) (drop start l)) = map v9x_text_lower mat"
    if "start + length mat \<le> length l" for start
    using that by (auto simp: list_eq_iff_nth_eq)
  moreover have "start \<in> set [0..<Suc (length l - length mat)] \<and> length mat \<le> length l \<longleftrightarrow>
      start + length mat \<le> length l" for start
    by auto
  ultimately show ?thesis
    unfolding contains_nocase_index list_ex_iff by blast
qed

lemma v9x_text_matches_eq:
  assumes "ts_match scan = (if length mat \<noteq> 0 then Some mat else None)"
    and "ts_line_length scan \<le> length (ts_line scan)"
  shows "v9x_text_matches scan = contains_nocase mat (take (ts_line_length scan) (ts_line scan))"
proof (cases "mat = []")
  case True
  have "contains_nocase [] l" for l
    unfolding contains_nocase_def by (rule exI [of _ l], rule exI [of _ "[]"]) simp
  then show ?thesis using assms True by (simp add: v9x_text_matches_def)
next
  case False
  let ?L = "ts_line_length scan" and ?m = "length mat"
  have ex: "list_ex P [0..<Suc (?L - ?m)] \<longleftrightarrow> (\<exists>start. start + ?m \<le> ?L \<and> P start)"
    if le: "?m \<le> ?L" for P
  proof -
    have "start \<in> set [0..<Suc (?L - ?m)] \<longleftrightarrow> start + ?m \<le> ?L" for start
      using le by auto
    then show ?thesis unfolding list_ex_iff by blast
  qed
  have take: "take ?L (ts_line scan) ! (start + i) = ts_line scan ! (start + i)"
    if "start + ?m \<le> ?L" "i < ?m" for start i
    using that by simp
  show ?thesis
  proof (cases "?m \<le> ?L")
    case True
    then have "v9x_text_matches scan = (\<exists>start. start + ?m \<le> ?L \<and>
        (\<forall>i<?m. v9x_text_lower (ts_line scan ! (start + i)) = v9x_text_lower (mat ! i)))"
      using assms False by (simp add: v9x_text_matches_def ex list_all_iff Ball_def del: upt_Suc)
    then show ?thesis
      using assms(2) take unfolding contains_nocase_index by auto
  next
    case False
    then show ?thesis
      using assms \<open>mat \<noteq> []\<close> by (auto simp: v9x_text_matches_def contains_nocase_index)
  qed
qed

lemma split_lf_snoc:
  "split_lf (xs @ [c]) = (case split_lf xs of (ls, cur) \<Rightarrow>
     if c = 0x0A then (ls @ [cur], []) else (ls, cur @ [c]))"
  by (induction xs) (auto split: prod.splits list.splits if_splits)

lemma fitting_snoc:
  "fitting room (ls @ [l]) =
     (if fitting room ls = ls
      then if length (with_lf ls) + length l + 1 > room then ls else ls @ [l]
      else fitting room ls)"
  by (induction room ls rule: fitting.induct) (auto simp: with_lf_def)

lemma fitting_length: "length (with_lf (fitting room ls)) \<le> room"
  by (induction room ls rule: fitting.induct) (auto simp: with_lf_def)

lemma fitting_shorter: "length (fitting room ls) \<le> length ls"
  by (induction room ls rule: fitting.induct) auto

lemma fitting_not_longer [simp]: "fitting room ls \<noteq> ls @ [l]"
  using fitting_shorter [of room ls] by (metis length_append_singleton not_less_eq_eq order_refl)

lemma with_lf_snoc [simp]: "with_lf (ls @ [l]) = with_lf ls @ l @ [0x0A]"
  by (simp add: with_lf_def)

text \<open>The lines selected for emission, and what the scanner must have emitted of them.\<close>

definition selected :: "bool \<Rightarrow> nat \<Rightarrow> bytes \<Rightarrow> bytes list \<Rightarrow> bytes list" where
  "selected emit skip mat ls =
     (if emit then drop skip (filter (contains_nocase mat) (map clean_line ls)) else [])"

definition scan_cfg :: "bool \<Rightarrow> nat \<Rightarrow> bytes \<Rightarrow> bytes \<Rightarrow> nat \<Rightarrow> text_scan \<Rightarrow> bool" where
  "scan_cfg emit skip mat out0 cap scan \<longleftrightarrow>
     ts_emit scan = emit \<and> ts_skip scan = skip \<and> ts_capacity scan = cap \<and>
     ts_match scan = (if length mat \<noteq> 0 then Some mat else None) \<and>
     cap \<le> length out0 \<and> length (ts_output scan) = length out0 \<and>
     length (ts_line scan) = V9X_TEXT_LINE_MAX"

definition scan_lines :: "bool \<Rightarrow> nat \<Rightarrow> bytes \<Rightarrow> bytes \<Rightarrow> nat \<Rightarrow> bytes list \<Rightarrow> text_scan \<Rightarrow> bool" where
  "scan_lines emit skip mat out0 cap ls scan \<longleftrightarrow>
     (let sel = selected emit skip mat ls; em = fitting cap sel in
      ts_lines scan = length ls \<and>
      ts_matched scan = length (filter (contains_nocase mat) (map clean_line ls)) \<and>
      ts_emitted scan = length em \<and> ts_used scan = length (with_lf em) \<and>
      ts_output scan = with_lf em @ drop (ts_used scan) out0 \<and>
      (ts_truncated scan \<longleftrightarrow> em \<noteq> sel) \<and>
      (ts_long_line scan \<longleftrightarrow> (\<exists>l\<in>set ls. length l > V9X_TEXT_LINE_MAX)))"

definition scan_cur :: "bytes \<Rightarrow> text_scan \<Rightarrow> bool" where
  "scan_cur cur scan \<longleftrightarrow>
     ts_line_length scan = min V9X_TEXT_LINE_MAX (length cur) \<and>
     take (ts_line_length scan) (ts_line scan) = take V9X_TEXT_LINE_MAX cur \<and>
     (ts_line_cut scan \<longleftrightarrow> length cur > V9X_TEXT_LINE_MAX)"

lemma selected_snoc:
  "selected emit skip mat (ls @ [l]) =
     (if emit \<and> contains_nocase mat (clean_line l) \<and>
         length (filter (contains_nocase mat) (map clean_line ls)) + 1 > skip
      then selected emit skip mat ls @ [clean_line l] else selected emit skip mat ls)"
  by (auto simp: selected_def not_less)

lemma done_line:
  assumes "scan_cur cur scan" and "length (ts_line scan) = V9X_TEXT_LINE_MAX"
  defines "len \<equiv> (if ts_line_length scan \<noteq> 0 \<and> ts_line scan ! (ts_line_length scan - 1) = 0x0D
                  then ts_line_length scan - 1 else ts_line_length scan)"
  shows "len \<le> V9X_TEXT_LINE_MAX" "take len (ts_line scan) = clean_line cur"
proof -
  let ?n = "ts_line_length scan" and ?l = "take V9X_TEXT_LINE_MAX cur"
  have n: "?n = length ?l" "?n \<le> V9X_TEXT_LINE_MAX" and l: "take ?n (ts_line scan) = ?l"
    using assms(1) by (auto simp: scan_cur_def)
  show "len \<le> V9X_TEXT_LINE_MAX" unfolding len_def using n(2) by auto
  have last: "ts_line scan ! (?n - 1) = last ?l" if "?n \<noteq> 0"
  proof -
    have "?l \<noteq> []" using that n by auto
    then have "last ?l = ?l ! (?n - 1)" using n by (simp add: last_conv_nth)
    also have "\<dots> = take ?n (ts_line scan) ! (?n - 1)" by (simp only: l)
    also have "\<dots> = ts_line scan ! (?n - 1)" using that by simp
    finally show ?thesis by simp
  qed
  have butl: "take (?n - 1) (ts_line scan) = butlast ?l"
    by (metis l n(1) butlast_conv_take take_take min.cobounded1 min.absorb1 diff_le_self)
  show "take len (ts_line scan) = clean_line cur"
    using last l butl n(1) by (auto simp: len_def clean_line_def Let_def)
qed

lemma line_done_lines:
  assumes cfg: "scan_cfg emit skip mat out0 cap scan"
    and lines: "scan_lines emit skip mat out0 cap ls scan" and cur: "scan_cur cur scan"
  shows "\<exists>scan'. v9x_text_line_done scan = Some scan' \<and> scan_cfg emit skip mat out0 cap scan' \<and>
    scan_lines emit skip mat out0 cap (ls @ [cur]) scan' \<and> scan_cur [] scan'"
proof -
  let ?len = "if ts_line_length scan \<noteq> 0 \<and> ts_line scan ! (ts_line_length scan - 1) = 0x0D
    then ts_line_length scan - 1 else ts_line_length scan"
  let ?l = "clean_line cur"
  have line: "length (ts_line scan) = V9X_TEXT_LINE_MAX"
    using cfg by (simp add: scan_cfg_def)
  note dl = done_line [OF cur line]
  have len: "?len = length ?l"
    using arg_cong [OF dl(2), of length] dl(1) line by simp
  let ?s1 = "scan\<lparr>ts_line_length := ?len, ts_lines := ts_lines scan + 1\<rparr>"
  let ?s2 = "if ts_line_cut scan then ?s1\<lparr>ts_long_line := True\<rparr> else ?s1"
  let ?sel = "selected emit skip mat ls"
  let ?em = "fitting cap ?sel"
  have lim: "length (with_lf ?em) \<le> cap" by (rule fitting_length)
  have out: "ts_output scan = with_lf ?em @ drop (length (with_lf ?em)) out0"
    and used: "ts_used scan = length (with_lf ?em)" and cap: "cap \<le> length out0"
    using lines cfg by (auto simp: scan_lines_def scan_cfg_def Let_def)
  have fit: "wrs (ts_output scan) (ts_used scan) ?l =
      Some (with_lf ?em @ ?l @ drop (length (with_lf ?em) + length ?l) out0)"
    if "length (with_lf ?em) + length ?l + 1 \<le> cap"
    using that cap lim by (subst wrs_Some) (auto simp: out used add.commute)
  have fit1: "wr (with_lf ?em @ ?l @ drop (length (with_lf ?em) + length ?l) out0)
      (ts_used scan + length ?l) 0x0A =
      Some (with_lf ?em @ ?l @ [0x0A] @ drop (length (with_lf ?em) + length ?l + 1) out0)"
    if "length (with_lf ?em) + length ?l + 1 \<le> cap"
    using that cap by (subst wr_Some) (auto simp: used list_update_append drop_update_swap
      list_update_beyond Cons_nth_drop_Suc [symmetric] ac_simps)
  have res: "v9x_text_line_done scan = do {
      s3 \<leftarrow> (if contains_nocase mat ?l then
               (let s = ?s2\<lparr>ts_matched := ts_matched scan + 1\<rparr> in
                if emit \<and> ts_matched scan + 1 > skip \<and> \<not> ts_truncated scan then
                  if ts_used scan + length ?l + 1 > cap then Some (s\<lparr>ts_truncated := True\<rparr>)
                  else Some (s\<lparr>ts_output := with_lf ?em @ ?l @ [0x0A] @
                        drop (length (with_lf ?em) + length ?l + 1) out0,
                      ts_used := ts_used scan + length ?l + 1, ts_emitted := ts_emitted scan + 1\<rparr>)
                else Some s)
             else Some ?s2);
      Some (s3\<lparr>ts_line_length := 0, ts_line_cut := False\<rparr>) }"
  proof -
    obtain n where n: "?len = n" by blast
    have nl: "n = length ?l" and tk: "take n (ts_line scan) = ?l"
      using len dl(2) by (simp_all only: n)
    have sels: "ts_emit scan = emit" "ts_skip scan = skip" "ts_capacity scan = cap"
      using cfg by (simp_all add: scan_cfg_def)
    have fit': "wrs (ts_output scan) (ts_used scan) ?l \<bind>
          (\<lambda>out. wr out (ts_used scan + length ?l) 0x0A \<bind> f) =
        f (with_lf ?em @ ?l @ [0x0A] @ drop (length (with_lf ?em) + length ?l + 1) out0)"
      if "ts_used scan + length ?l + 1 \<le> cap" for f :: "bytes \<Rightarrow> text_scan option"
      using that by (simp only: used fit [unfolded used] fit1 [unfolded used] Option.bind_lunit)
    have match: "v9x_text_matches (scan\<lparr>ts_line_length := n, ts_lines := Suc k\<rparr>) = contains_nocase mat ?l"
      "v9x_text_matches (scan\<lparr>ts_line_length := n, ts_lines := Suc k, ts_long_line := True\<rparr>) =
         contains_nocase mat ?l" for k
      using cfg line dl(1) [unfolded n] tk
      by (subst v9x_text_matches_eq [of _ mat]; simp add: scan_cfg_def)+
    show ?thesis
      unfolding v9x_text_line_done_def Let_def n
      by (cases "ts_line_cut scan"; cases "contains_nocase mat ?l";
          cases "emit \<and> ts_matched scan + 1 > skip \<and> \<not> ts_truncated scan";
          cases "ts_used scan + length ?l + 1 \<le> cap")
        (auto simp: match [unfolded nl] sels nl fit' tk [unfolded nl])
  qed
  have tr: "ts_truncated scan \<longleftrightarrow> ?em \<noteq> ?sel"
    and lno: "ts_lines scan = length ls" and em: "ts_emitted scan = length ?em"
    and mt: "ts_matched scan = length (filter (contains_nocase mat) (map clean_line ls))"
    and ll: "ts_long_line scan \<longleftrightarrow> (\<exists>l\<in>set ls. length l > V9X_TEXT_LINE_MAX)"
    and cut: "ts_line_cut scan \<longleftrightarrow> length cur > V9X_TEXT_LINE_MAX"
    using lines cur by (auto simp: scan_lines_def scan_cur_def Let_def)
  note facts = tr lno em mt ll cut out used
  let ?take = "emit \<and> contains_nocase mat ?l \<and> ts_matched scan + 1 > skip"
  obtain S where S: "?sel = S" by blast
  obtain S' where S': "selected emit skip mat (ls @ [cur]) = S'" by blast
  have sel': "S' = (if ?take then S @ [?l] else S)"
    by (auto simp: selected_snoc mt S [symmetric] S' [symmetric])
  have em': "fitting cap S' = (if ?take \<and> \<not> ts_truncated scan
      then if length (with_lf (fitting cap S)) + length ?l + 1 > cap then fitting cap S
           else fitting cap S @ [?l] else fitting cap S)"
    using tr [unfolded S] unfolding sel' by (auto simp: fitting_snoc)
  note facts = facts [unfolded S] and res = res [unfolded S]
  show ?thesis
    unfolding scan_lines_def Let_def S' em'
    using cfg facts tr [unfolded S] sel'
    by (cases "contains_nocase mat ?l"; cases "emit \<and> ts_matched scan + 1 > skip";
        cases "ts_truncated scan"; cases "length (with_lf (fitting cap S)) + length ?l + 1 > cap")
      (simp_all add: res scan_cfg_def scan_cur_def Let_def, auto)
qed

lemma feed_lines:
  assumes "scan_cfg emit skip mat out0 cap scan"
    and "scan_lines emit skip mat out0 cap ls scan" and "scan_cur cur scan"
    and "split_lf xs = (ls, cur)" and "split_lf (xs @ ys) = (ls', cur')"
  shows "\<exists>scan'. v9x_text_feed scan ys = Some scan' \<and> scan_cfg emit skip mat out0 cap scan' \<and>
    scan_lines emit skip mat out0 cap ls' scan' \<and> scan_cur cur' scan'"
  using assms
proof (induction ys arbitrary: scan xs ls cur)
  case Nil
  then show ?case by simp
next
  case (Cons c ys)
  note cfg = Cons.prems(1) and lines = Cons.prems(2) and cur = Cons.prems(3)
  have nxt: "split_lf ((xs @ [c]) @ ys) = (ls', cur')" using Cons.prems(5) by simp
  consider "c = 0x0A" | "c \<noteq> 0x0A" "ts_line_length scan < V9X_TEXT_LINE_MAX"
    | "c \<noteq> 0x0A" "ts_line_length scan \<ge> V9X_TEXT_LINE_MAX" by linarith
  then show ?case
  proof cases
    case 1
    obtain scan' where s: "v9x_text_line_done scan = Some scan'"
        "scan_cfg emit skip mat out0 cap scan'"
        "scan_lines emit skip mat out0 cap (ls @ [cur]) scan'" "scan_cur [] scan'"
      using line_done_lines [OF cfg lines cur] by blast
    have "split_lf (xs @ [c]) = (ls @ [cur], [])"
      using 1 Cons.prems(4) by (simp add: split_lf_snoc)
    from Cons.IH [OF s(2-4) this nxt] show ?thesis using 1 s(1) by simp
  next
    case 2
    let ?s = "scan\<lparr>ts_line := (ts_line scan)[ts_line_length scan := c],
                   ts_line_length := ts_line_length scan + 1\<rparr>"
    have sp: "split_lf (xs @ [c]) = (ls, cur @ [c])"
      using 2 Cons.prems(4) by (simp add: split_lf_snoc)
    have len: "length cur = ts_line_length scan"
      using cur 2 by (auto simp: scan_cur_def)
    have "scan_cur (cur @ [c]) ?s"
      using cur 2 cfg len
      by (auto simp: scan_cur_def scan_cfg_def take_Suc_conv_app_nth)
    moreover have "scan_cfg emit skip mat out0 cap ?s" "scan_lines emit skip mat out0 cap ls ?s"
      using cfg lines by (auto simp: scan_cfg_def scan_lines_def Let_def)
    ultimately show ?thesis
      using Cons.IH [OF _ _ _ sp nxt, of ?s] 2 cfg by (simp add: wr_Some scan_cfg_def)
  next
    case 3
    let ?s = "scan\<lparr>ts_line_cut := True\<rparr>"
    have sp: "split_lf (xs @ [c]) = (ls, cur @ [c])"
      using 3 Cons.prems(4) by (simp add: split_lf_snoc)
    have "scan_cur (cur @ [c]) ?s" "scan_cfg emit skip mat out0 cap ?s"
      "scan_lines emit skip mat out0 cap ls ?s"
      using cur 3 cfg lines by (auto simp: scan_cur_def scan_cfg_def scan_lines_def Let_def)
    then show ?thesis
      using Cons.IH [OF _ _ _ sp nxt, of ?s] 3 by simp
  qed
qed

lemma feed_all_lines:
  assumes "scan_cfg emit skip mat out0 cap scan"
    and "scan_lines emit skip mat out0 cap ls scan" and "scan_cur cur scan"
    and "split_lf xs = (ls, cur)"
  shows "\<exists>scan'. text_feed_all scan chunks = Some scan' \<and> scan_cfg emit skip mat out0 cap scan' \<and>
    scan_lines emit skip mat out0 cap (file_lines (xs @ concat chunks)) scan'"
  using assms
proof (induction chunks arbitrary: scan xs ls cur)
  case Nil
  note cfg = Nil.prems(1) and lines = Nil.prems(2) and cur = Nil.prems(3) and sp = Nil.prems(4)
  show ?case
  proof (cases "cur = []")
    case True
    then have "v9x_text_end scan = Some scan" "file_lines xs = ls"
      using cur sp by (auto simp: v9x_text_end_def scan_cur_def file_lines_def)
    then show ?thesis using cfg lines by simp
  next
    case False
    then have "v9x_text_end scan = v9x_text_line_done scan" "file_lines xs = ls @ [cur]"
      using cur sp
      by (auto simp: v9x_text_end_def scan_cur_def file_lines_def V9X_TEXT_LINE_MAX_def)
    then show ?thesis using line_done_lines [OF cfg lines cur] by auto
  qed
next
  case (Cons c chunks)
  obtain ls' cur' where sp: "split_lf (xs @ c) = (ls', cur')" by (cases "split_lf (xs @ c)")
  obtain scan' where s: "v9x_text_feed scan c = Some scan'" "scan_cfg emit skip mat out0 cap scan'"
      "scan_lines emit skip mat out0 cap ls' scan'" "scan_cur cur' scan'"
    using feed_lines [OF Cons.prems(1-4) sp] by blast
  from Cons.IH [OF s(2-4) sp] show ?case using s(1) by simp
qed

text \<open>
  C34. However a file is cut into chunks, one emitting pass of the scanner over a buffer of at
  least \<open>capacity\<close> bytes never touches memory outside its two buffers, counts every line of the
  file and every matching one, and leaves in the buffer exactly the longest run of matching
  lines after the first \<open>skip\<close> ones that fits, each terminated by LF and none cut short; the
  truncation flag is set exactly when a selected line is missing, the long-line flag exactly
  when some line was cut at 1024 bytes.
\<close>

theorem text_scan_correct:
  assumes "capacity \<le> length output" "length (ts_line scan) = V9X_TEXT_LINE_MAX"
  shows "\<exists>scan'. text_feed_all (v9x_text_begin scan True skip mat output capacity) chunks = Some scan' \<and>
    (let selected = drop skip (matching_lines mat (concat chunks));
         emitted = fitting capacity selected in
     take (ts_used scan') (ts_output scan') = with_lf emitted \<and>
     drop (ts_used scan') (ts_output scan') = drop (ts_used scan') output \<and>
     ts_used scan' \<le> capacity \<and> ts_emitted scan' = length emitted \<and>
     ts_lines scan' = length (file_lines (concat chunks)) \<and>
     ts_matched scan' = length (matching_lines mat (concat chunks)) \<and>
     (ts_truncated scan' \<longleftrightarrow> emitted \<noteq> selected) \<and>
     (ts_long_line scan' \<longleftrightarrow> (\<exists>l \<in> set (file_lines (concat chunks)). length l > V9X_TEXT_LINE_MAX)))"
proof -
  let ?s = "v9x_text_begin scan True skip mat output capacity"
  have "scan_cfg True skip mat output capacity ?s" "scan_lines True skip mat output capacity [] ?s"
    "scan_cur [] ?s" "split_lf [] = ([], [])"
    using assms
    by (auto simp: scan_cfg_def scan_lines_def scan_cur_def v9x_text_begin_def selected_def with_lf_def)
  from feed_all_lines [OF this, of chunks] obtain scan' where
    s: "text_feed_all ?s chunks = Some scan'" "scan_cfg True skip mat output capacity scan'"
      "scan_lines True skip mat output capacity (file_lines (concat chunks)) scan'"
    by auto
  then show ?thesis
    using fitting_length [of capacity "drop skip (matching_lines mat (concat chunks))"]
    by (auto simp: scan_lines_def scan_cfg_def Let_def selected_def matching_lines_def)
qed

definition sample_scan :: text_scan where
  "sample_scan = \<lparr>ts_skip = 0, ts_emit = False, ts_match = None, ts_output = [], ts_capacity = 0,
     ts_used = 0, ts_lines = 0, ts_matched = 0, ts_emitted = 0, ts_truncated = False,
     ts_long_line = False, ts_line_length = 0, ts_line_cut = False, ts_line = replicate 1024 0\<rparr>"

theorem text_scan_correct_witness:
  "\<exists>scan'. text_feed_all (v9x_text_begin sample_scan True 1 (asc ''x'') (replicate 8 0) 8)
       [asc ''aX'' @ [13, 10] @ asc ''b'', [10] @ asc ''xy'' @ [10] @ asc ''xxxxx''] = Some scan' \<and>
     take (ts_used scan') (ts_output scan') = asc ''xy'' @ [10] \<and> ts_lines scan' = 4 \<and>
     ts_matched scan' = 3 \<and> ts_truncated scan'"
proof -
  have pre: "8 \<le> length (replicate 8 (0 :: u8))" "length (ts_line sample_scan) = V9X_TEXT_LINE_MAX"
    by (simp_all add: sample_scan_def V9X_TEXT_LINE_MAX_def)
  let ?file = "concat [asc ''aX'' @ [13, 10] @ asc ''b'', [10] @ asc ''xy'' @ [10] @ asc ''xxxxx'']"
  have f: "file_lines ?file = [asc ''aX'' @ [13], asc ''b'', asc ''xy'', asc ''xxxxx'']"
    by (simp add: file_lines_def)
  have m: "matching_lines (asc ''x'') ?file = [asc ''aX'', asc ''xy'', asc ''xxxxx'']"
    unfolding matching_lines_def f
    by (simp add: clean_line_def V9X_TEXT_LINE_MAX_def contains_nocase_exec v9x_text_lower_def
        Let_def upt_rec)
  show ?thesis
    using text_scan_correct [OF pre, of 1 "asc ''x''"
      "[asc ''aX'' @ [13, 10] @ asc ''b'', [10] @ asc ''xy'' @ [10] @ asc ''xxxxx'']"]
    unfolding m f by (auto simp: with_lf_def)
qed

end
