(* ===== verification/UpdateIni.thy ===== *)
theory UpdateIni
  imports UpdateProto
begin

section \<open>UpdateIni: an INI text is its sections and entries\<close>

text \<open>
  A lookup is compared with the file as a list of items: section headers and entries. Rendering the
  items and looking a key up gives the first entry of that name inside a section of that name, both
  without regard to case, whatever text follows.
\<close>

datatype ini_item = Section bytes | Entry bytes bytes

fun render_item :: "ini_item \<Rightarrow> bytes" where
  "render_item (Section n) = 0x5B # n @ [0x5D, 0x0D, 0x0A]"
| "render_item (Entry k v) = k @ 0x3D # v @ [0x0D, 0x0A]"

definition trimmed :: "bytes \<Rightarrow> bool" where
  "trimmed s \<longleftrightarrow> s = [] \<or> \<not> v9x_update_is_space (hd s) \<and> \<not> v9x_update_is_space (last s)"

fun item_ok :: "ini_item \<Rightarrow> bool" where
  "item_ok (Section n) \<longleftrightarrow> 0x0A \<notin> set n"
| "item_ok (Entry k v) \<longleftrightarrow> k \<noteq> [] \<and> hd k \<noteq> 0x5B \<and> 0x3D \<notin> set k \<and> 0x0A \<notin> set k \<union> set v \<and> trimmed k \<and> trimmed v"

definition same_text :: "bytes \<Rightarrow> bytes \<Rightarrow> bool" where
  "same_text a b \<longleftrightarrow> map v9x_update_lower a = map v9x_update_lower b"

text \<open>The search over the items: an answer, or whether the text after them is in the section.\<close>

fun ini_scan :: "ini_item list \<Rightarrow> bool \<Rightarrow> bytes \<Rightarrow> bytes \<Rightarrow> nat \<Rightarrow> bytes option + bool" where
  "ini_scan [] here section_name key capacity = Inr here"
| "ini_scan (Section n # items) here section_name key capacity =
     ini_scan items (same_text n section_name) section_name key capacity"
| "ini_scan (Entry k v # items) here section_name key capacity =
     (if here \<and> same_text k key then Inl (if length v < capacity then Some v else None)
      else ini_scan items here section_name key capacity)"

lemma v9x_update_span_equals_iff: "v9x_update_span_equals a b \<longleftrightarrow> same_text a b"
  by (induction a b rule: v9x_update_span_equals.induct) (auto simp: same_text_def)

subsection \<open>Trimming\<close>

lemma trim_left_trimmed: "trimmed s \<Longrightarrow> trim_left s = s"
  by (cases s) (auto simp: trimmed_def trim_left_def)

lemma trim_right_trimmed: "trimmed s \<Longrightarrow> trim_right s = s"
  by (cases s rule: rev_cases) (auto simp: trimmed_def trim_right_def)

lemma trim_right_snoc: "v9x_update_is_space c \<Longrightarrow> trim_right (s @ [c]) = trim_right s"
  by (simp add: trim_right_def)

lemma trim_left_Cons: "\<not> v9x_update_is_space c \<Longrightarrow> trim_left (c # s) = c # s"
  by (simp add: trim_left_def)

lemma space_facts [simp]:
  "v9x_update_is_space 0x0D" "\<not> v9x_update_is_space 0x5B" "\<not> v9x_update_is_space 0x5D" "\<not> v9x_update_is_space 0x3D"
  by (simp_all add: v9x_update_is_space_def)

lemma ini_line_append:
  assumes "0x0A \<notin> set line"
  shows "ini_line (line @ 0x0A # rest) = line" "ini_rest (line @ 0x0A # rest) = rest"
proof -
  have "takeWhile (\<lambda>c. c \<noteq> 0x0A) (line @ 0x0A # rest) = line @ takeWhile (\<lambda>c. c \<noteq> 0x0A) (0x0A # rest)"
    using assms by (subst takeWhile_append2) auto
  then show "ini_line (line @ 0x0A # rest) = line" by (simp add: ini_line_def)
  have "dropWhile (\<lambda>c. c \<noteq> 0x0A) (line @ 0x0A # rest) = dropWhile (\<lambda>c. c \<noteq> 0x0A) (0x0A # rest)"
    using assms by (subst dropWhile_append2) auto
  then show "ini_rest (line @ 0x0A # rest) = rest" by (simp add: ini_rest_def)
qed

subsection \<open>One item\<close>

lemma judge_section:
  "ini_judge (trim_right (trim_left (0x5B # n @ [0x5D, 0x0D]))) here section_name key capacity =
     IniSection (same_text n section_name)"
proof -
  have "trim_right (0x5B # n @ [0x5D, 0x0D]) = 0x5B # n @ [0x5D]"
    using trim_right_snoc [of "0x0D" "0x5B # n @ [0x5D]"] trim_right_trimmed [of "0x5B # n @ [0x5D]"]
    by (simp add: trimmed_def)
  then show ?thesis
    by (simp add: trim_left_Cons ini_judge_def v9x_update_span_equals_iff)
qed

lemma judge_entry:
  assumes "item_ok (Entry k v)"
  shows "ini_judge (trim_right (trim_left (k @ 0x3D # v @ [0x0D]))) here section_name key capacity =
     (if here \<and> same_text k key then (if length v < capacity then IniValue v else IniLong) else IniSkip)"
proof -
  have k: "k \<noteq> []" "hd k \<noteq> 0x5B" "0x3D \<notin> set k" "trimmed k" "trimmed v" using assms by simp_all
  then have "trim_left (k @ 0x3D # v @ [0x0D]) = k @ 0x3D # v @ [0x0D]"
    by (cases k) (auto simp: trimmed_def trim_left_Cons)
  moreover have "trimmed (k @ 0x3D # v)"
    using k by (cases "v = []") (auto simp: trimmed_def)
  ultimately have line: "trim_right (trim_left (k @ 0x3D # v @ [0x0D])) = k @ 0x3D # v"
    using trim_right_snoc [of "0x0D" "k @ 0x3D # v"] trim_right_trimmed by simp
  have split: "takeWhile (\<lambda>c. c \<noteq> 0x3D) (k @ 0x3D # v) = k"
    "dropWhile (\<lambda>c. c \<noteq> 0x3D) (k @ 0x3D # v) = 0x3D # v"
    using k(3) by (induction k) auto
  show ?thesis
    unfolding line ini_judge_def split Let_def
    using k by (auto simp: trim_right_trimmed trim_left_trimmed v9x_update_span_equals_iff)
qed

lemma ini_from_items:
  assumes "list_all item_ok items"
  shows "ini_from (concat (map render_item items) @ rest) here section_name key capacity =
    (case ini_scan items here section_name key capacity of
       Inl found \<Rightarrow> found
     | Inr here' \<Rightarrow> ini_from rest here' section_name key capacity)"
  using assms
proof (induction items arbitrary: here)
  case (Cons item items)
  let ?more = "concat (map render_item items) @ rest"
  show ?case
  proof (cases item)
    case (Section n)
    have line: "ini_line (0x5B # n @ [0x5D, 0x0D] @ 0x0A # ?more) = 0x5B # n @ [0x5D, 0x0D]"
      "ini_rest (0x5B # n @ [0x5D, 0x0D] @ 0x0A # ?more) = ?more"
      using ini_line_append [of "0x5B # n @ [0x5D, 0x0D]" ?more] Cons.prems Section by auto
    show ?thesis
      using Cons line
      by (subst ini_from.simps) (simp add: Section judge_section del: ini_line_append)
  next
    case (Entry k v)
    have "0x0A \<notin> set (k @ 0x3D # v @ [0x0D])" using Cons.prems Entry by auto
    then have line: "ini_line (k @ 0x3D # v @ [0x0D] @ 0x0A # ?more) = k @ 0x3D # v @ [0x0D]"
      "ini_rest (k @ 0x3D # v @ [0x0D] @ 0x0A # ?more) = ?more"
      using ini_line_append [of "k @ 0x3D # v @ [0x0D]" ?more] by auto
    have "item_ok (Entry k v)" using Cons.prems Entry by simp
    note judge = judge_entry [OF this]
    show ?thesis
      using Cons line
      by (subst ini_from.simps) (simp add: Entry judge)
  qed
qed simp

lemma v9x_update_ini_value_items:
  "list_all item_ok items \<Longrightarrow> 0 < capacity \<Longrightarrow>
   v9x_update_ini_value (concat (map render_item items) @ rest) section_name key old capacity =
     (case (case ini_scan items False section_name key capacity of
              Inl found \<Rightarrow> found
            | Inr here \<Rightarrow> ini_from rest here section_name key capacity) of
        None \<Rightarrow> (False, []) | Some v \<Rightarrow> (True, v))"
  by (simp add: v9x_update_ini_value_def ini_from_items)

text \<open>C27. INI lookup: on a rendered list of sections and entries, whatever follows it, the value found is
  that of the first entry with that key inside a section of that name, without regard to case; it is
  refused when its bytes and terminator do not fit the buffer, and only when there is no such entry
  does the text after the items count.\<close>

theorem ini_value_items:
  assumes "list_all item_ok items" "0 < capacity"
  shows "v9x_update_ini_value (concat (map render_item items) @ rest) section_name key old capacity =
     (case ini_scan items False section_name key capacity of
        Inl None \<Rightarrow> (False, [])
      | Inl (Some v) \<Rightarrow> (True, v)
      | Inr here \<Rightarrow> (case ini_from rest here section_name key capacity of
            None \<Rightarrow> (False, []) | Some v \<Rightarrow> (True, v)))"
  unfolding v9x_update_ini_value_items [OF assms]
  by (cases "ini_scan items False section_name key capacity") (auto split: option.splits)

definition sample_items :: "ini_item list" where
  "sample_items = [Section (asc ''a''), Entry (asc ''k'') (asc ''0''), Section (asc ''Net''),
     Entry (asc ''Port'') (asc ''8080''), Entry (asc ''port'') (asc ''1'')]"

theorem ini_value_items_witness:
  "v9x_update_ini_value (concat (map render_item sample_items) @ asc ''port=2'') (asc ''nEt'') (asc ''PORT'') [] 5 =
     (True, asc ''8080'')"
proof -
  have ok: "list_all item_ok sample_items" "(0 :: nat) < 5" by code_simp+
  have scan: "ini_scan sample_items False (asc ''nEt'') (asc ''PORT'') 5 = Inl (Some (asc ''8080''))" by code_simp
  show ?thesis
    using ini_value_items [OF ok, of "asc ''port=2''" "asc ''nEt''" "asc ''PORT''" "[]"] unfolding scan
    by (simp only: sum.case option.case)
qed

end
