(* ===== verification/UpdateUrl.thy ===== *)
theory UpdateUrl
  imports UpdateProps
begin

section \<open>UpdateUrl: the URLs the downloader accepts\<close>

text \<open>
  The grammar of \<open>v9x_update_url_split\<close>: scheme, host, optional port, optional path. Acceptance is
  equivalent to a decomposition of the text, so an accepted URL has exactly the parts it is split into
  and every part fits its field.
\<close>

definition host_char :: "u8 \<Rightarrow> bool" where
  "host_char c \<longleftrightarrow> update_is_alpha c \<or> v9x_update_is_digit c \<or> c = 0x2E \<or> c = 0x2D"

definition path_char :: "u8 \<Rightarrow> bool" where
  "path_char c \<longleftrightarrow> 0x20 < c \<and> c < 0x7F"

definition port_denotes :: "bytes \<Rightarrow> u16 \<Rightarrow> bool" where
  "port_denotes s port \<longleftrightarrow> s = [] \<and> port = 80 \<or>
     (\<exists>ds. s = 0x3A # ds \<and> digit_string ds \<and> 0 < dec_value ds \<and> port = of_nat (dec_value ds))"

definition path_denotes :: "bytes \<Rightarrow> bytes \<Rightarrow> bool" where
  "path_denotes s path \<longleftrightarrow> s = [] \<and> path = [0x2F] \<or>
     s = path \<and> path \<noteq> [] \<and> hd path = 0x2F \<and> length path < 256 \<and> list_all path_char path"

definition url_denotes :: "bytes \<Rightarrow> update_url \<Rightarrow> bool" where
  "url_denotes url u \<longleftrightarrow>
     (\<exists>scheme port path. url = scheme @ uhost u @ port @ path \<and>
        map v9x_update_lower scheme = asc ''http://'' \<and>
        uhost u \<noteq> [] \<and> length (uhost u) < 64 \<and> list_all host_char (uhost u) \<and>
        port_denotes port (uport u) \<and> path_denotes path (upath u))"

subsection \<open>The pieces\<close>

lemma split_scheme_iff:
  "split_scheme url lit = Some r \<longleftrightarrow> (\<exists>s. url = s @ r \<and> map v9x_update_lower s = lit)"
proof (induction url lit rule: split_scheme.induct)
  case (3 c url s lit)
  then show ?case by (auto simp: Cons_eq_append_conv)
qed auto

lemma host_char_stops: "host_char c \<Longrightarrow> c \<noteq> 0x3A \<and> c \<noteq> 0x2F"
  by (auto simp: host_char_def update_is_alpha_def v9x_update_is_digit_def)

lemma split_host_step:
  "split_host (c # url) host =
     (if c = 0x3A \<or> c = 0x2F then Some (host, c # url)
      else if host_char c \<and> length host + 1 < 64 then split_host url (host @ [c]) else None)"
  by (simp add: host_char_def V9X_UPDATE_HOST_MAX_def)

lemma split_host_sound:
  "split_host url host = Some (h, r) \<Longrightarrow>
   \<exists>s. url = s @ r \<and> h = host @ s \<and> list_all host_char s \<and> (s = [] \<or> length h < 64) \<and>
     (r = [] \<or> hd r = 0x3A \<or> hd r = 0x2F)"
proof (induction url arbitrary: host)
  case (Cons c url)
  show ?case
  proof (cases "c = 0x3A \<or> c = 0x2F")
    case True
    then show ?thesis using Cons.prems by auto
  next
    case False
    then have c: "host_char c" "length host + 1 < 64" "split_host url (host @ [c]) = Some (h, r)"
      using Cons.prems by (simp_all only: split_host_step) (simp_all split: if_splits)
    from Cons.IH [OF c(3)] obtain s where s: "url = s @ r" "h = (host @ [c]) @ s" "list_all host_char s"
      "s = [] \<or> length h < 64" "r = [] \<or> hd r = 0x3A \<or> hd r = 0x2F" by blast
    show ?thesis by (rule exI [of _ "c # s"]) (use s c in auto)
  qed
qed simp

lemma split_host_complete:
  "list_all host_char s \<Longrightarrow> s = [] \<or> length host + length s < 64 \<Longrightarrow>
   r = [] \<or> hd r = 0x3A \<or> hd r = 0x2F \<Longrightarrow> split_host (s @ r) host = Some (host @ s, r)"
proof (induction s arbitrary: host)
  case Nil
  then show ?case by (cases r) auto
next
  case (Cons c s)
  have "c \<noteq> 0x3A" "c \<noteq> 0x2F" using Cons.prems(1) host_char_stops [of c] by simp_all
  moreover have "split_host (s @ r) (host @ [c]) = Some ((host @ [c]) @ s, r)"
    by (rule Cons.IH) (use Cons.prems in auto)
  ultimately show ?case using Cons.prems by (simp only: append_Cons split_host_step) simp
qed

lemma split_path_iff:
  "split_path url p = Some q \<longleftrightarrow> q = p @ url \<and> list_all path_char url \<and> (url = [] \<or> length q < 256)"
proof (induction url arbitrary: p)
  case (Cons c url)
  have step: "split_path (c # url) p =
      (if path_char c \<and> length p + 1 < 256 then split_path url (p @ [c]) else None)"
    by (auto simp: path_char_def V9X_UPDATE_PATH_MAX_def dest: leD)
  show ?case unfolding step using Cons [of "p @ [c]"] by auto
qed auto

lemma split_digits_accepts:
  assumes "split_digits url acc k = Some (v, n, r)" "unat acc < 65536"
  shows "\<exists>ds. url = ds @ r \<and> list_all v9x_update_is_digit ds \<and> n = k + length ds \<and>
    (r = [] \<or> \<not> v9x_update_is_digit (hd r)) \<and> (ds = [] \<or> n \<le> 5) \<and>
    unat v = foldl (\<lambda>a c. a * 10 + unat (c - 0x30)) (unat acc) ds \<and> unat v < 65536"
  using assms
proof (induction url acc k rule: split_digits.induct)
  case (2 c url acc k)
  show ?case
  proof (cases "v9x_update_is_digit c")
    case False
    then show ?thesis using 2 by auto
  next
    case True
    let ?a = "acc * 10 + ucast (c - 0x30)"
    have a: "unat ?a = unat acc * 10 + unat (c - 0x30)"
      using 2(3) digit_less [OF True] by (simp add: unat_word_ariths)
    have run: "split_digits url ?a (k + 1) = Some (v, n, r)" "\<not> ?a > 65535" "k + 1 \<le> 5"
      using 2(2) True by (auto simp: Let_def split: if_splits)
    then have "unat ?a < 65536" by (simp add: word_less_nat_alt)
    from 2(1) [OF True refl refl _ run(1) this] run
    obtain ds where ds: "url = ds @ r" "list_all v9x_update_is_digit ds" "n = k + 1 + length ds"
      "r = [] \<or> \<not> v9x_update_is_digit (hd r)" "ds = [] \<or> n \<le> 5"
      "unat v = foldl (\<lambda>a c. a * 10 + unat (c - 0x30)) (unat ?a) ds" "unat v < 65536" by auto
    show ?thesis
      by (rule exI [of _ "c # ds"]) (use ds True run(3) a in auto)
  qed
qed auto

text \<open>The port: what the code reads after the host.\<close>

definition url_port :: "bytes \<Rightarrow> (u32 \<times> bytes) option" where
  "url_port url = (case url of
      c # url' \<Rightarrow> if c = 0x3A then do {
          (port, digits, url) \<leftarrow> split_digits url' 0 0;
          if digits = 0 \<or> port = 0 then None else Some (port, url) }
        else Some (V9X_UPDATE_PORT, url)
    | [] \<Rightarrow> Some (V9X_UPDATE_PORT, url))"

lemma url_port_sound:
  assumes "url_port url = Some (port, r)"
  shows "\<exists>s. url = s @ r \<and> port_denotes s (ucast port)"
proof (cases "url \<noteq> [] \<and> hd url = 0x3A")
  case False
  then have "r = url" "port = 80" using assms by (auto simp: url_port_def V9X_UPDATE_PORT_def split: list.splits)
  then show ?thesis by (auto simp: port_denotes_def)
next
  case True
  then obtain url' where url: "url = 0x3A # url'" by (cases url) auto
  obtain digits where d: "split_digits url' 0 0 = Some (port, digits, r)" "digits \<noteq> 0" "port \<noteq> 0"
    using assms by (auto simp: url url_port_def bind_eq_Some_conv split: if_splits)
  from split_digits_accepts [OF d(1)] obtain ds where ds: "url' = ds @ r"
    "list_all v9x_update_is_digit ds" "digits = length ds" "ds = [] \<or> digits \<le> 5"
    "unat port = dec_value ds" "unat port < 65536"
    by (auto simp: dec_value_def)
  have "digit_string ds" using ds d(2) by (auto simp: digit_string_def)
  moreover have "0 < dec_value ds" using d(3) ds(5) by (metis gr0I unat_eq_zero)
  moreover have "(ucast port :: u16) = of_nat (dec_value ds)"
    unfolding ds(5) [symmetric] by simp
  ultimately show ?thesis using ds(1) url by (auto simp: port_denotes_def)
qed

lemma url_port_complete:
  assumes "port_denotes s port" "r = [] \<or> hd r = 0x2F"
  shows "\<exists>p. url_port (s @ r) = Some (p, r) \<and> ucast p = port"
  using assms(1) unfolding port_denotes_def
proof
  assume "s = [] \<and> port = 80"
  then show ?thesis using assms(2)
    by (cases r) (auto simp: url_port_def V9X_UPDATE_PORT_def)
next
  assume "\<exists>ds. s = 0x3A # ds \<and> digit_string ds \<and> 0 < dec_value ds \<and> port = of_nat (dec_value ds)"
  then obtain ds where ds: "s = 0x3A # ds" "digit_string ds" "0 < dec_value ds" "port = of_nat (dec_value ds)"
    by auto
  have small: "dec_value ds < 65536" using ds(2) by (simp add: digit_string_def)
  have "split_digits (ds @ r) 0 0 = Some (of_nat (dec_value ds), length ds, r)"
    by (rule split_digits_string [OF ds(2)]) (use assms(2) in \<open>auto simp: v9x_update_is_digit_def\<close>)
  moreover have "(of_nat (dec_value ds) :: u32) \<noteq> 0"
  proof
    assume "(of_nat (dec_value ds) :: u32) = 0"
    then have "unat (of_nat (dec_value ds) :: u32) = 0" by simp
    then show False using small ds(3) by (simp add: u32_of_nat)
  qed
  moreover have "(ucast (of_nat (dec_value ds) :: u32) :: u16) = port"
  proof -
    define w where "w = (of_nat (dec_value ds) :: u32)"
    have "unat w = dec_value ds" unfolding w_def using small by (intro u32_of_nat) simp
    moreover have "(ucast w :: u16) = of_nat (unat w)" by simp
    ultimately show ?thesis unfolding w_def [symmetric] ds(4) by (simp only:)
  qed
  moreover have "length ds \<noteq> 0" using ds(2) by (auto simp: digit_string_def)
  ultimately show ?thesis using ds(1) by (simp add: url_port_def)
qed

lemma v9x_update_url_split_eq:
  "v9x_update_url_split url = do {
     url \<leftarrow> split_scheme url (asc ''http://'');
     (host, url) \<leftarrow> split_host url [];
     if host = [] then None
     else do {
       (port, url) \<leftarrow> url_port url;
       if url = [] then Some \<lparr>uhost = host, uport = ucast port, upath = [0x2F]\<rparr>
       else if hd url \<noteq> 0x2F then None
       else do {
         path \<leftarrow> split_path url [];
         Some \<lparr>uhost = host, uport = ucast port, upath = path\<rparr> } } }"
  unfolding v9x_update_url_split_def url_port_def by (rule refl)

lemma v9x_update_url_split_sound: "v9x_update_url_split url = Some u \<Longrightarrow> url_denotes url u"
proof -
  assume "v9x_update_url_split url = Some u"
  then obtain u1 where s1: "split_scheme url (asc ''http://'') = Some u1"
    by (cases "split_scheme url (asc ''http://'')") (simp_all add: v9x_update_url_split_eq del: asc_Cons)
  then obtain h u2 where s2: "split_host u1 [] = Some (h, u2)" "h \<noteq> []"
    using \<open>v9x_update_url_split url = Some u\<close>
    by (cases "split_host u1 []") (auto simp: v9x_update_url_split_eq simp del: asc_Cons split: if_splits)
  then obtain p u3 where s3: "url_port u2 = Some (p, u3)"
    using \<open>v9x_update_url_split url = Some u\<close> s1
    by (cases "url_port u2") (auto simp: v9x_update_url_split_eq simp del: asc_Cons)
  have s4: "u3 = [] \<and> u = \<lparr>uhost = h, uport = ucast p, upath = [0x2F]\<rparr> \<or>
     u3 \<noteq> [] \<and> hd u3 = 0x2F \<and> (\<exists>q. split_path u3 [] = Some q \<and> u = \<lparr>uhost = h, uport = ucast p, upath = q\<rparr>)"
  proof -
    have "(if u3 = [] then Some \<lparr>uhost = h, uport = ucast p, upath = [0x2F]\<rparr>
       else if hd u3 \<noteq> 0x2F then None
       else do { path \<leftarrow> split_path u3 []; Some \<lparr>uhost = h, uport = ucast p, upath = path\<rparr> }) = Some u"
      using \<open>v9x_update_url_split url = Some u\<close> s2(2)
      by (simp only: v9x_update_url_split_eq s1 s2(1) s3 Option.bind.bind_lunit prod.case if_False)
    then show ?thesis
      by (cases "u3 = []"; cases "hd u3 = 0x2F"; cases "split_path u3 []") simp_all
  qed
  note s = s1 s2 s3 s4
  obtain sch where a: "url = sch @ u1" "map v9x_update_lower sch = asc ''http://''"
    using s(1) unfolding split_scheme_iff by blast
  have b: "u1 = h @ u2" "list_all host_char h" "length h < 64"
    using split_host_sound [OF s2(1)] s2(2) by auto
  obtain port where c: "u2 = port @ u3" "port_denotes port (ucast p)" using url_port_sound [OF s(4)] by blast
  have "path_denotes u3 (upath u)" "uhost u = h" "uport u = ucast p"
    using s(5) by (auto simp: path_denotes_def split_path_iff)
  then show ?thesis unfolding url_denotes_def using a b c s(3)
    by (intro exI [of _ sch] exI [of _ port] exI [of _ u3]) simp
qed

lemma v9x_update_url_split_complete: "url_denotes url u \<Longrightarrow> v9x_update_url_split url = Some u"
proof -
  assume "url_denotes url u"
  then obtain sch port path where u: "url = sch @ uhost u @ port @ path"
    "map v9x_update_lower sch = asc ''http://''" "uhost u \<noteq> []" "length (uhost u) < 64"
    "list_all host_char (uhost u)" "port_denotes port (uport u)" "path_denotes path (upath u)"
    unfolding url_denotes_def by blast
  have scheme: "split_scheme url (asc ''http://'') = Some (uhost u @ port @ path)"
    unfolding split_scheme_iff using u(1,2) by blast
  have stop: "path = [] \<or> hd path = 0x2F" using u(7) by (auto simp: path_denotes_def)
  have "port @ path = [] \<or> hd (port @ path) = 0x3A \<or> hd (port @ path) = 0x2F"
    using u(6) stop by (auto simp: port_denotes_def)
  then have host: "split_host (uhost u @ port @ path) [] = Some (uhost u, port @ path)"
    using split_host_complete [of "uhost u" "[]"] u(4,5) by auto
  obtain p where p: "url_port (port @ path) = Some (p, path)" "ucast p = uport u"
    using url_port_complete [OF u(6) stop] by blast
  show ?thesis
  proof (cases "path = []")
    case True
    then have "upath u = [0x2F]" using u(7) by (auto simp: path_denotes_def)
    then show ?thesis using scheme host p u(3) True by (simp add: v9x_update_url_split_eq del: asc_Cons)
  next
    case False
    then have "split_path path [] = Some (upath u)" using u(7) by (auto simp: path_denotes_def split_path_iff)
    then show ?thesis using scheme host p u(3) False stop by (simp add: v9x_update_url_split_eq del: asc_Cons)
  qed
qed

text \<open>C26. URL splitting: a URL is accepted with exactly the parts of its unique reading as scheme, host,
  optional port 1..65535 and optional absolute path, each of a length its field holds and of characters
  that cannot end a request line.\<close>

theorem url_split_exact:
  "v9x_update_url_split url = Some u \<longleftrightarrow> url_denotes url u"
  using v9x_update_url_split_sound v9x_update_url_split_complete by blast

end
