(* ===== verification/VncDes.thy ===== *)
theory VncDes
  imports Loops
begin

section \<open>DES and the VNC password\<close>

text \<open>
  Models \<^verbatim>\<open>src/guest/vncdes.c\<close>: single-block DES on arrays of one byte per bit, with the key
  schedule rotated in place round by round, and the response to a VNC challenge. The tables hold
  bit numbers from 1 as in the source; \<open>None\<close> is an access outside an array. The specification
  is FIPS 46-3 with the subkeys computed first: a Feistel network over a list of subkeys, of which
  decryption is the same network over the reversed list.
\<close>

subsection \<open>The tables\<close>

definition vnc_des_ip :: "nat list" where
  "vnc_des_ip =
     [58, 50, 42, 34, 26, 18, 10, 2, 60, 52, 44, 36, 28, 20, 12, 4, 62, 54, 46, 38, 30, 22, 14,
      6, 64, 56, 48, 40, 32, 24, 16, 8, 57, 49, 41, 33, 25, 17, 9, 1, 59, 51, 43, 35, 27, 19,
      11, 3, 61, 53, 45, 37, 29, 21, 13, 5, 63, 55, 47, 39, 31, 23, 15, 7]"

definition vnc_des_fp :: "nat list" where
  "vnc_des_fp =
     [40, 8, 48, 16, 56, 24, 64, 32, 39, 7, 47, 15, 55, 23, 63, 31, 38, 6, 46, 14, 54, 22, 62,
      30, 37, 5, 45, 13, 53, 21, 61, 29, 36, 4, 44, 12, 52, 20, 60, 28, 35, 3, 43, 11, 51, 19,
      59, 27, 34, 2, 42, 10, 50, 18, 58, 26, 33, 1, 41, 9, 49, 17, 57, 25]"

definition vnc_des_e :: "nat list" where
  "vnc_des_e =
     [32, 1, 2, 3, 4, 5, 4, 5, 6, 7, 8, 9, 8, 9, 10, 11, 12, 13, 12, 13, 14, 15, 16, 17, 16,
      17, 18, 19, 20, 21, 20, 21, 22, 23, 24, 25, 24, 25, 26, 27, 28, 29, 28, 29, 30, 31, 32, 1]"

definition vnc_des_p :: "nat list" where
  "vnc_des_p =
     [16, 7, 20, 21, 29, 12, 28, 17, 1, 15, 23, 26, 5, 18, 31, 10, 2, 8, 24, 14, 32, 27, 3, 9,
      19, 13, 30, 6, 22, 11, 4, 25]"

definition vnc_des_pc1 :: "nat list" where
  "vnc_des_pc1 =
     [57, 49, 41, 33, 25, 17, 9, 1, 58, 50, 42, 34, 26, 18, 10, 2, 59, 51, 43, 35, 27, 19, 11,
      3, 60, 52, 44, 36, 63, 55, 47, 39, 31, 23, 15, 7, 62, 54, 46, 38, 30, 22, 14, 6, 61, 53,
      45, 37, 29, 21, 13, 5, 28, 20, 12, 4]"

definition vnc_des_pc2 :: "nat list" where
  "vnc_des_pc2 =
     [14, 17, 11, 24, 1, 5, 3, 28, 15, 6, 21, 10, 23, 19, 12, 4, 26, 8, 16, 7, 27, 20, 13, 2,
      41, 52, 31, 37, 47, 55, 30, 40, 51, 45, 33, 48, 44, 49, 39, 56, 34, 53, 46, 42, 50, 36,
      29, 32]"

definition vnc_des_shifts :: "nat list" where
  "vnc_des_shifts =
     [1, 1, 2, 2, 2, 2, 2, 2, 1, 2, 2, 2, 2, 2, 2, 1]"

definition vnc_des_s :: "u8 list list" where
  "vnc_des_s =
    [[14, 4, 13, 1, 2, 15, 11, 8, 3, 10, 6, 12, 5, 9, 0, 7, 0, 15, 7, 4, 14, 2, 13, 1, 10, 6,
      12, 11, 9, 5, 3, 8, 4, 1, 14, 8, 13, 6, 2, 11, 15, 12, 9, 7, 3, 10, 5, 0, 15, 12, 8, 2,
      4, 9, 1, 7, 5, 11, 3, 14, 10, 0, 6, 13],
     [15, 1, 8, 14, 6, 11, 3, 4, 9, 7, 2, 13, 12, 0, 5, 10, 3, 13, 4, 7, 15, 2, 8, 14, 12, 0,
      1, 10, 6, 9, 11, 5, 0, 14, 7, 11, 10, 4, 13, 1, 5, 8, 12, 6, 9, 3, 2, 15, 13, 8, 10, 1,
      3, 15, 4, 2, 11, 6, 7, 12, 0, 5, 14, 9],
     [10, 0, 9, 14, 6, 3, 15, 5, 1, 13, 12, 7, 11, 4, 2, 8, 13, 7, 0, 9, 3, 4, 6, 10, 2, 8, 5,
      14, 12, 11, 15, 1, 13, 6, 4, 9, 8, 15, 3, 0, 11, 1, 2, 12, 5, 10, 14, 7, 1, 10, 13, 0, 6,
      9, 8, 7, 4, 15, 14, 3, 11, 5, 2, 12],
     [7, 13, 14, 3, 0, 6, 9, 10, 1, 2, 8, 5, 11, 12, 4, 15, 13, 8, 11, 5, 6, 15, 0, 3, 4, 7, 2,
      12, 1, 10, 14, 9, 10, 6, 9, 0, 12, 11, 7, 13, 15, 1, 3, 14, 5, 2, 8, 4, 3, 15, 0, 6, 10,
      1, 13, 8, 9, 4, 5, 11, 12, 7, 2, 14],
     [2, 12, 4, 1, 7, 10, 11, 6, 8, 5, 3, 15, 13, 0, 14, 9, 14, 11, 2, 12, 4, 7, 13, 1, 5, 0,
      15, 10, 3, 9, 8, 6, 4, 2, 1, 11, 10, 13, 7, 8, 15, 9, 12, 5, 6, 3, 0, 14, 11, 8, 12, 7,
      1, 14, 2, 13, 6, 15, 0, 9, 10, 4, 5, 3],
     [12, 1, 10, 15, 9, 2, 6, 8, 0, 13, 3, 4, 14, 7, 5, 11, 10, 15, 4, 2, 7, 12, 9, 5, 6, 1,
      13, 14, 0, 11, 3, 8, 9, 14, 15, 5, 2, 8, 12, 3, 7, 0, 4, 10, 1, 13, 11, 6, 4, 3, 2, 12,
      9, 5, 15, 10, 11, 14, 1, 7, 6, 0, 8, 13],
     [4, 11, 2, 14, 15, 0, 8, 13, 3, 12, 9, 7, 5, 10, 6, 1, 13, 0, 11, 7, 4, 9, 1, 10, 14, 3,
      5, 12, 2, 15, 8, 6, 1, 4, 11, 13, 12, 3, 7, 14, 10, 15, 6, 8, 0, 5, 9, 2, 6, 11, 13, 8,
      1, 4, 10, 7, 9, 5, 0, 15, 14, 2, 3, 12],
     [13, 2, 8, 4, 6, 15, 11, 1, 10, 9, 3, 14, 5, 0, 12, 7, 1, 15, 13, 8, 10, 3, 7, 4, 12, 5,
      6, 11, 0, 14, 9, 2, 7, 11, 4, 1, 9, 12, 14, 2, 0, 6, 10, 13, 15, 3, 5, 8, 2, 1, 14, 7, 4,
      10, 8, 13, 15, 12, 9, 0, 3, 5, 6, 11]]"

subsection \<open>The code\<close>

text \<open>An array that a loop fills from its first to its last entry is the list of those entries.\<close>

definition vnc_des_unpack :: "bytes \<Rightarrow> nat \<Rightarrow> bytes option" where
  "vnc_des_unpack bs count =
     those (map (\<lambda>index. do {
       b \<leftarrow> rd bs (index div 8);
       Some (drop_bit (7 - index mod 8) b AND 1) }) [0..<count])"

definition vnc_des_permute :: "bytes \<Rightarrow> nat list \<Rightarrow> nat \<Rightarrow> bytes option" where
  "vnc_des_permute xs table count =
     those (map (\<lambda>index. do { t \<leftarrow> rd table index; rd xs (t - 1) }) [0..<count])"

text \<open>One left shift of the half of \<open>cd\<close> that starts at \<open>a\<close>.\<close>

definition rotate_half :: "nat \<Rightarrow> bytes \<Rightarrow> bytes option" where
  "rotate_half a cd =
     do {
       temp \<leftarrow> rd cd a;
       cd \<leftarrow> for_up a 27 (\<lambda>index cd. do { b \<leftarrow> rd cd (index + 1); wr cd index b }) cd;
       wr cd (a + 27) temp }"

definition rotate_key :: "nat \<Rightarrow> bytes \<Rightarrow> bytes option" where
  "rotate_key shifts cd = for_up 0 shifts (\<lambda>_ cd. do { cd \<leftarrow> rotate_half 0 cd; rotate_half 28 cd }) cd"

text \<open>The four output bits of one S-box.\<close>

definition sbox_bits :: "bytes \<Rightarrow> nat \<Rightarrow> bytes option" where
  "sbox_bits expanded index =
     do {
       six \<leftarrow> rds expanded (index * 6) 6;
       let row = push_bit 1 (ucast (six ! 0) :: u32) OR ucast (six ! 5);
       let column = push_bit 3 (ucast (six ! 1) :: u32) OR push_bit 2 (ucast (six ! 2)) OR
             push_bit 1 (ucast (six ! 3)) OR ucast (six ! 4);
       box \<leftarrow> rd vnc_des_s index;
       val \<leftarrow> rd box (unat (row * 16 + column));
       Some [drop_bit 3 val AND 1, drop_bit 2 val AND 1, drop_bit 1 val AND 1, val AND 1] }"

definition xor_at :: "bytes \<Rightarrow> bytes \<Rightarrow> nat \<Rightarrow> bytes option" where
  "xor_at xs ys count =
     those (map (\<lambda>index. do { a \<leftarrow> rd xs index; b \<leftarrow> rd ys index; Some (a XOR b) }) [0..<count])"

text \<open>\<open>f(R, K)\<close>, and one round on \<open>cd\<close> and \<open>lr\<close>.\<close>

definition des_mix :: "bytes \<Rightarrow> bytes \<Rightarrow> bytes option" where
  "des_mix right subkey =
     do {
       expanded \<leftarrow> vnc_des_permute right vnc_des_e 48;
       expanded \<leftarrow> xor_at expanded subkey 48;
       sbox_out \<leftarrow> those (map (sbox_bits expanded) [0..<8]);
       vnc_des_permute (concat sbox_out) vnc_des_p 32 }"

definition swap_halves :: "bytes \<Rightarrow> bytes \<Rightarrow> bytes option" where
  "swap_halves mixed lr =
     for_up 0 32 (\<lambda>index lr. do {
       temp \<leftarrow> rd lr (32 + index);
       l \<leftarrow> rd lr index;
       m \<leftarrow> rd mixed index;
       lr \<leftarrow> wr lr (32 + index) (l XOR m);
       wr lr index temp }) lr"

definition des_round :: "nat \<Rightarrow> bytes \<times> bytes \<Rightarrow> (bytes \<times> bytes) option" where
  "des_round round = (\<lambda>(cd, lr).
     do {
       shifts \<leftarrow> rd vnc_des_shifts round;
       cd \<leftarrow> rotate_key shifts cd;
       subkey \<leftarrow> vnc_des_permute cd vnc_des_pc2 48;
       mixed \<leftarrow> des_mix (drop 32 lr) subkey;
       lr \<leftarrow> swap_halves mixed lr;
       Some (cd, lr) })"

definition des_pack_byte :: "bytes \<Rightarrow> nat \<Rightarrow> u8 option" where
  "des_pack_byte block index =
     for_up 0 8 (\<lambda>bit out. do {
       b \<leftarrow> rd block (index * 8 + bit);
       Some (push_bit 1 out OR b) }) 0"

definition vnc_des_encrypt :: "bytes \<Rightarrow> bytes \<Rightarrow> bytes option" where
  "vnc_des_encrypt key inp =
     do {
       key_bits \<leftarrow> vnc_des_unpack key 64;
       cd \<leftarrow> vnc_des_permute key_bits vnc_des_pc1 56;
       block \<leftarrow> vnc_des_unpack inp 64;
       lr \<leftarrow> vnc_des_permute block vnc_des_ip 64;
       (cd, lr) \<leftarrow> for_up 0 16 des_round (cd, lr);
       right \<leftarrow> rds lr 32 32;
       left \<leftarrow> rds lr 0 32;
       block \<leftarrow> vnc_des_permute (right @ left) vnc_des_fp 64;
       those (map (des_pack_byte block) [0..<8]) }"

text \<open>The password is a C string: past its end every byte is 0.\<close>

definition reverse_byte :: "u8 \<Rightarrow> u8" where
  "reverse_byte c = foldl (\<lambda>reversed bit. push_bit 1 reversed OR (drop_bit bit c AND 1)) 0 [0..<8]"

definition vnc_auth_key :: "bytes \<Rightarrow> bytes" where
  "vnc_auth_key password =
     map (\<lambda>index. reverse_byte (if index < length password then password ! index else 0)) [0..<8]"

definition vnc_auth_response :: "bytes \<Rightarrow> bytes \<Rightarrow> bytes option" where
  "vnc_auth_response password challenge =
     do {
       let key = vnc_auth_key password;
       left \<leftarrow> vnc_des_encrypt key (take 8 challenge);
       right \<leftarrow> vnc_des_encrypt key (drop 8 challenge);
       Some (left @ right) }"

subsection \<open>FIPS 46-3\<close>

definition perm :: "nat list \<Rightarrow> 'a list \<Rightarrow> 'a list" where
  "perm table xs = map (\<lambda>t. xs ! (t - 1)) table"

definition bits_of :: "bytes \<Rightarrow> bytes" where
  "bits_of bs = map (\<lambda>i. drop_bit (7 - i mod 8) (bs ! (i div 8)) AND 1) [0..<64]"

definition byte_of :: "bytes \<Rightarrow> u8" where
  "byte_of bits = foldl (\<lambda>out b. push_bit 1 out OR b) 0 bits"

definition bytes_of :: "bytes \<Rightarrow> bytes" where
  "bytes_of bits = map (\<lambda>i. byte_of (take 8 (drop (i * 8) bits))) [0..<8]"

definition sbox :: "u8 list \<Rightarrow> bytes \<Rightarrow> bytes" where
  "sbox box six =
     (let v = box ! (16 * (2 * unat (six ! 0) + unat (six ! 5)) +
                8 * unat (six ! 1) + 4 * unat (six ! 2) + 2 * unat (six ! 3) + unat (six ! 4))
      in [drop_bit 3 v AND 1, drop_bit 2 v AND 1, drop_bit 1 v AND 1, v AND 1])"

text \<open>The cipher function \<open>f\<close> of the standard.\<close>

definition des_f :: "bytes \<Rightarrow> bytes \<Rightarrow> bytes" where
  "des_f subkey right =
     (let mixed = map2 (XOR) (perm vnc_des_e right) subkey
      in perm vnc_des_p (concat (map (\<lambda>i. sbox (vnc_des_s ! i) (take 6 (drop (i * 6) mixed))) [0..<8])))"

definition des_shift :: "nat \<Rightarrow> bytes \<Rightarrow> bytes" where
  "des_shift n cd = rotate n (take 28 cd) @ rotate n (drop 28 cd)"

fun des_subkeys :: "bytes \<Rightarrow> nat list \<Rightarrow> bytes list" where
  "des_subkeys cd [] = []"
| "des_subkeys cd (n # ns) = (let cd = des_shift n cd in perm vnc_des_pc2 cd # des_subkeys cd ns)"

definition des_schedule :: "bytes \<Rightarrow> bytes list" where
  "des_schedule key = des_subkeys (perm vnc_des_pc1 (bits_of key)) vnc_des_shifts"

subsection \<open>Feistel networks\<close>

text \<open>Any round function at all makes an invertible network; what the mixing operation has to
  promise is that mixing the same value in twice changes nothing.\<close>

locale feistel =
  fixes mix :: "'k \<Rightarrow> 'h \<Rightarrow> 'h"
    and plus :: "'h \<Rightarrow> 'h \<Rightarrow> 'h"
    and half :: "'h \<Rightarrow> bool"
    and subkey :: "'k \<Rightarrow> bool"
  assumes half_mix: "subkey k \<Longrightarrow> half r \<Longrightarrow> half (mix k r)"
    and half_plus: "half a \<Longrightarrow> half b \<Longrightarrow> half (plus a b)"
    and plus_twice: "half a \<Longrightarrow> half b \<Longrightarrow> plus (plus a b) b = a"
begin

primrec net :: "'k list \<Rightarrow> 'h \<times> 'h \<Rightarrow> 'h \<times> 'h" where
  "net [] lr = lr"
| "net (k # ks) lr = net ks (snd lr, plus (fst lr) (mix k (snd lr)))"

definition halves :: "'h \<times> 'h \<Rightarrow> bool" where
  "halves lr \<longleftrightarrow> half (fst lr) \<and> half (snd lr)"

lemma net_halves: "list_all subkey ks \<Longrightarrow> halves lr \<Longrightarrow> halves (net ks lr)"
  by (induction ks arbitrary: lr) (auto simp: halves_def half_mix half_plus)

lemma net_append: "net (ks @ ks') lr = net ks' (net ks lr)"
  by (induction ks arbitrary: lr) simp_all

text \<open>The reversed subkeys, fed with the swapped halves, undo the network.\<close>

lemma net_undo:
  assumes "list_all subkey ks" and "halves lr"
  shows "net (rev ks) (prod.swap (net ks lr)) = prod.swap lr"
  using assms
proof (induction ks arbitrary: lr)
  case (Cons k ks)
  let ?lr = "(snd lr, plus (fst lr) (mix k (snd lr)))"
  have "halves ?lr" using Cons.prems by (simp add: halves_def half_mix half_plus)
  then have "net (rev ks) (prod.swap (net ks ?lr)) = prod.swap ?lr"
    using Cons by simp
  then show ?case
    using Cons.prems by (simp add: net_append halves_def half_mix plus_twice prod_eq_iff)
qed simp

lemma net_inj:
  assumes "list_all subkey ks" and "halves a" and "halves b" and "net ks a = net ks b"
  shows "a = b"
  using net_undo [OF assms(1,2)] net_undo [OF assms(1,3)] assms(4)
  by (metis swap_swap)

end

subsection \<open>Bits\<close>

definition bit_list :: "nat \<Rightarrow> bytes \<Rightarrow> bool" where
  "bit_list n xs \<longleftrightarrow> length xs = n \<and> set xs \<subseteq> {0, 1}"

lemma and_one_bit: "x AND 1 \<in> {0, 1}" for x :: u8
  by (simp add: and_one_eq mod_2_eq_odd)

lemma bit_list_nth: "bit_list n xs \<Longrightarrow> i < n \<Longrightarrow> xs ! i = 0 \<or> xs ! i = 1"
  unfolding bit_list_def using nth_mem by fastforce

text \<open>A table of \<open>m\<close> bit numbers from 1 to \<open>n\<close>.\<close>

definition table_ok :: "nat \<Rightarrow> nat \<Rightarrow> nat list \<Rightarrow> bool" where
  "table_ok m n table \<longleftrightarrow> length table = m \<and> list_all (\<lambda>t. 1 \<le> t \<and> t \<le> n) table"

lemma des_tables:
  "table_ok 64 64 vnc_des_ip" "table_ok 64 64 vnc_des_fp" "table_ok 48 32 vnc_des_e"
  "table_ok 32 32 vnc_des_p" "table_ok 56 64 vnc_des_pc1" "table_ok 48 56 vnc_des_pc2"
  by (simp_all add: table_ok_def vnc_des_ip_def vnc_des_fp_def vnc_des_e_def vnc_des_p_def
      vnc_des_pc1_def vnc_des_pc2_def)

lemma bit_list_perm:
  assumes "table_ok m n table" and "bit_list n xs"
  shows "bit_list m (perm table xs)"
proof -
  have "xs ! (t - 1) \<in> {0, 1}" if "t \<in> set table" for t
    using bit_list_nth [OF assms(2), of "t - 1"] assms(1) that by (fastforce simp: list_all_iff table_ok_def)
  then show ?thesis using assms(1) by (auto simp: bit_list_def perm_def table_ok_def)
qed

lemma xor_bits: "x \<in> {0, 1} \<Longrightarrow> y \<in> {0, 1} \<Longrightarrow> x XOR y \<in> {0, 1 :: u8}"
  by auto

lemma bit_list_xor: "bit_list n xs \<Longrightarrow> bit_list n ys \<Longrightarrow> bit_list n (map2 (XOR) xs ys)"
  unfolding bit_list_def by (fastforce dest: set_zip_leftD set_zip_rightD simp: xor_bits)

lemma bit_list_append: "bit_list m xs \<Longrightarrow> bit_list n ys \<Longrightarrow> bit_list (m + n) (xs @ ys)"
  by (auto simp: bit_list_def)

lemma bit_list_take: "bit_list n xs \<Longrightarrow> m \<le> n \<Longrightarrow> bit_list m (take m xs)"
  by (auto simp: bit_list_def dest: in_set_takeD)

lemma bit_list_drop: "bit_list n xs \<Longrightarrow> bit_list (n - m) (drop m xs)"
  by (auto simp: bit_list_def dest: in_set_dropD)

lemma bit_list_bits_of: "bit_list 64 (bits_of bs)"
  by (auto simp: bit_list_def bits_of_def and_one_eq mod_2_eq_odd)

lemma bit_list_sbox: "bit_list 4 (sbox box six)"
  by (auto simp: bit_list_def sbox_def Let_def and_one_eq mod_2_eq_odd)

lemma bit_list_rotate: "bit_list n xs \<Longrightarrow> bit_list n (rotate k xs)"
  by (simp add: bit_list_def)

lemma bit_list_shift: "bit_list 56 cd \<Longrightarrow> bit_list 56 (des_shift n cd)"
  unfolding des_shift_def
  using bit_list_append [OF bit_list_rotate [OF bit_list_take [of 56 cd 28]] bit_list_rotate [OF bit_list_drop [of 56 cd 28]]]
  by simp

lemma bit_list_byte: "bit_list 64 xs \<Longrightarrow> i < 8 \<Longrightarrow> bit_list 8 (take 8 (drop (i * 8) xs))"
  by (rule bit_list_take [OF bit_list_drop]) (assumption, arith)

lemma bit_list_concat:
  assumes "\<And>i. i \<in> set js \<Longrightarrow> bit_list n (f i)"
  shows "bit_list (length js * n) (concat (map f js))"
  using assms by (induction js) (auto simp: bit_list_def)

lemma bit_list_f:
  assumes "bit_list 48 k" and "bit_list 32 r"
  shows "bit_list 32 (des_f k r)"
proof -
  have "bit_list 32 (concat (map (\<lambda>i. sbox (vnc_des_s ! i) (take 6 (drop (i * 6)
      (map2 (XOR) (perm vnc_des_e r) k)))) [0..<8]))"
    using bit_list_concat [of "[0..<8]" 4] bit_list_sbox by simp
  from bit_list_perm [OF des_tables(4) this] show ?thesis
    by (simp add: des_f_def Let_def)
qed

lemma xor_twice: "length a = length b \<Longrightarrow> map2 (XOR) (map2 (XOR) a b) b = a" for a b :: bytes
  by (rule nth_equalityI) (simp_all add: xor.assoc)

interpretation des: feistel des_f "map2 (XOR)" "bit_list 32" "bit_list 48"
proof
  fix k and a b :: bytes
  show "bit_list 48 k \<Longrightarrow> bit_list 32 a \<Longrightarrow> bit_list 32 (des_f k a)" by (rule bit_list_f)
  show "bit_list 32 a \<Longrightarrow> bit_list 32 b \<Longrightarrow> bit_list 32 (map2 (XOR) a b)" by (rule bit_list_xor)
  show "bit_list 32 a \<Longrightarrow> bit_list 32 b \<Longrightarrow> map2 (XOR) (map2 (XOR) a b) b = a"
    by (rule xor_twice) (simp add: bit_list_def)
qed

text \<open>DES over a list of subkeys; the last round's halves go out swapped.\<close>

definition des_crypt :: "bytes list \<Rightarrow> bytes \<Rightarrow> bytes" where
  "des_crypt subkeys block =
     (let lr = perm vnc_des_ip (bits_of block);
          (left, right) = des.net subkeys (take 32 lr, drop 32 lr)
      in bytes_of (perm vnc_des_fp (right @ left)))"

text \<open>Packing bits into bytes is the inverse of unpacking them.\<close>

lemma bit_01: "b = 0 \<or> b = 1 \<Longrightarrow> bit b k \<longleftrightarrow> k = 0 \<and> b = 1" for b :: u8
  by (auto simp: bit_1_iff)

lemma bit_byte_of:
  "bit_list n xs \<Longrightarrow> n \<le> 8 \<Longrightarrow> bit (byte_of xs) k \<longleftrightarrow> k < n \<and> xs ! (n - 1 - k) = 1"
proof (induction xs arbitrary: n k rule: rev_induct)
  case Nil
  then show ?case by (simp add: byte_of_def bit_list_def)
next
  case (snoc b xs)
  obtain m where n: "n = Suc m" "length xs = m" using snoc.prems(1) by (cases n) (auto simp: bit_list_def)
  have b: "b = 0 \<or> b = 1" and xs: "bit_list m xs" using snoc.prems(1) n by (auto simp: bit_list_def)
  have "bit (byte_of (xs @ [b])) k \<longleftrightarrow> (1 \<le> k \<and> k < 8 \<and> bit (byte_of xs) (k - 1)) \<or> (k = 0 \<and> b = 1)"
  proof -
    have "byte_of (xs @ [b]) = push_bit 1 (byte_of xs) OR b" by (simp add: byte_of_def)
    then show ?thesis using bit_01 [OF b, of k] by (simp add: bit_or_iff bit_push_bit_iff del: push_bit_of_1 push_bit_Suc)
  qed
  also have "\<dots> \<longleftrightarrow> k < n \<and> (xs @ [b]) ! (n - 1 - k) = 1"
  proof (cases k)
    case 0
    then show ?thesis using n by (simp add: nth_append)
  next
    case (Suc j)
    then show ?thesis using snoc.IH [OF xs, of j] snoc.prems(2) n by (auto simp: nth_append)
  qed
  finally show ?case .
qed

lemma bits_of_bytes_of:
  assumes "bit_list 64 xs"
  shows "bits_of (bytes_of xs) = xs"
proof (rule nth_equalityI)
  show "length (bits_of (bytes_of xs)) = length xs" using assms by (simp add: bits_of_def bit_list_def)
  fix i assume "i < length (bits_of (bytes_of xs))"
  then have i: "i < 64" by (simp add: bits_of_def)
  let ?b = "byte_of (take 8 (drop (i div 8 * 8) xs))"
  have l: "bit_list 8 (take 8 (drop (i div 8 * 8) xs))"
    by (rule bit_list_byte [OF assms]) (use i in simp)
  have "i div 8 * 8 + (7 - (7 - i mod 8)) = i" by simp
  then have "bit ?b (7 - i mod 8) \<longleftrightarrow> xs ! i = 1"
  proof -
    have "7 - i mod 8 < 8" by (rule le_less_trans [of _ 7]) simp_all
    then show ?thesis
      using bit_byte_of [OF l, of "7 - i mod 8"] assms i by (simp add: bit_list_def)
  qed
  then have "drop_bit (7 - i mod 8) ?b AND 1 = (if xs ! i = 1 then 1 else 0)"
    by (auto simp: bit_iff_odd_drop_bit and_one_eq mod_2_eq_odd)
  then show "bits_of (bytes_of xs) ! i = xs ! i"
    using bit_list_nth [OF assms i] i by (auto simp: bits_of_def bytes_of_def)
qed

lemma bytes_of_bits_of:
  assumes "length bs = 8"
  shows "bytes_of (bits_of bs) = bs"
proof (rule nth_equalityI)
  show "length (bytes_of (bits_of bs)) = length bs" using assms by (simp add: bytes_of_def)
  fix i assume "i < length (bytes_of (bits_of bs))"
  then have i: "i < 8" by (simp add: bytes_of_def)
  have l: "bit_list 8 (take 8 (drop (i * 8) (bits_of bs)))"
    by (rule bit_list_byte [OF bit_list_bits_of i])
  have "byte_of (take 8 (drop (i * 8) (bits_of bs))) = bs ! i"
  proof (rule bit_word_eqI)
    fix k assume "k < LENGTH(8)"
    then have k: "k < 8" by simp
    have "bits_of bs ! (i * 8 + (7 - k)) = drop_bit k (bs ! i) AND 1"
    proof -
      have "(i * 8 + (7 - k)) div 8 = i" "(i * 8 + (7 - k)) mod 8 = 7 - k" "i * 8 + (7 - k) < 64"
        using i k div_mult_self4 [of 8 "7 - k" i] mod_mult_self4 [of "7 - k" 8 i]
        by (simp_all add: add.commute mult.commute del: add_diff_assoc add_diff_assoc2)
      then show ?thesis using k by (simp add: bits_of_def del: add_diff_assoc)
    qed
    then show "bit (byte_of (take 8 (drop (i * 8) (bits_of bs)))) k = bit (bs ! i) k"
      using bit_byte_of [OF l, of k] i k
      by (auto simp: bits_of_def bit_iff_odd_drop_bit and_one_eq mod_2_eq_odd)
  qed
  then show "bytes_of (bits_of bs) ! i = bs ! i" using i by (simp add: bytes_of_def)
qed

text \<open>The final permutation is the inverse of the initial one.\<close>

lemma perm_perm:
  assumes "map (\<lambda>t. s ! (t - 1)) t = [1..<Suc (length xs)]" and "list_all (\<lambda>i. 1 \<le> i \<and> i \<le> length s) t"
  shows "perm t (perm s xs) = xs"
proof -
  have "perm t (perm s xs) = map (\<lambda>i. xs ! (i - 1)) (map (\<lambda>t. s ! (t - 1)) t)"
    using assms(2) by (auto simp: perm_def list_all_iff Suc_le_lessD)
  also have "\<dots> = map (\<lambda>i. xs ! i) [0..<length xs]"
    unfolding assms(1) by (simp add: map_Suc_upt [symmetric] del: map_Suc_upt upt_Suc)
  finally show ?thesis by (simp add: map_nth)
qed

lemma perm_fp_ip: "length xs = 64 \<Longrightarrow> perm vnc_des_fp (perm vnc_des_ip xs) = xs"
  by (rule perm_perm) (simp_all add: vnc_des_fp_def vnc_des_ip_def upt_rec)

lemma perm_ip_fp: "length xs = 64 \<Longrightarrow> perm vnc_des_ip (perm vnc_des_fp xs) = xs"
  by (rule perm_perm) (simp_all add: vnc_des_fp_def vnc_des_ip_def upt_rec)

subsection \<open>The code is the standard\<close>

lemma unpack_eq: "length bs = 8 \<Longrightarrow> vnc_des_unpack bs 64 = Some (bits_of bs)"
  unfolding vnc_des_unpack_def bits_of_def
  by (rule those_map) (auto simp: rd_def)

lemma permute_eq:
  assumes "table_ok m n table" and "bit_list n xs"
  shows "vnc_des_permute xs table m = Some (perm table xs)"
proof -
  have "those (map (\<lambda>index. do { t \<leftarrow> rd table index; rd xs (t - 1) }) [0..<m]) =
      Some (map (\<lambda>i. xs ! (table ! i - 1)) [0..<m])"
    using assms by (intro those_map) (fastforce simp: rd_def table_ok_def bit_list_def list_all_length)
  also have "map (\<lambda>i. xs ! (table ! i - 1)) [0..<m] = perm table xs"
    using assms(1) by (auto simp: perm_def table_ok_def intro: nth_equalityI)
  finally show ?thesis by (simp add: vnc_des_permute_def)
qed

lemma xor_at_eq: "length xs = n \<Longrightarrow> length ys = n \<Longrightarrow> xor_at xs ys n = Some (map2 (XOR) xs ys)"
proof -
  assume l: "length xs = n" "length ys = n"
  then have "xor_at xs ys n = Some (map (\<lambda>i. xs ! i XOR ys ! i) [0..<n])"
    unfolding xor_at_def by (intro those_map) (simp add: rd_def)
  also have "map (\<lambda>i. xs ! i XOR ys ! i) [0..<n] = map2 (XOR) xs ys"
    using l by (intro nth_equalityI) simp_all
  finally show ?thesis .
qed

lemma sbox_index:
  fixes b0 b1 b2 b3 b4 b5 :: u8
  assumes "b0 = 0 \<or> b0 = 1" "b1 = 0 \<or> b1 = 1" "b2 = 0 \<or> b2 = 1" "b3 = 0 \<or> b3 = 1" "b4 = 0 \<or> b4 = 1" "b5 = 0 \<or> b5 = 1"
  shows "unat ((push_bit 1 (ucast b0 :: u32) OR ucast b5) * 16 +
      (push_bit 3 (ucast b1) OR push_bit 2 (ucast b2) OR push_bit 1 (ucast b3) OR ucast b4)) =
    16 * (2 * unat b0 + unat b5) + 8 * unat b1 + 4 * unat b2 + 2 * unat b3 + unat b4 \<and>
    16 * (2 * unat b0 + unat b5) + 8 * unat b1 + 4 * unat b2 + 2 * unat b3 + unat b4 < 64"
  using assms by (elim disjE) simp_all

lemma sbox_bits_eq:
  assumes "bit_list 48 expanded" and "index < 8"
  shows "sbox_bits expanded index = Some (sbox (vnc_des_s ! index) (take 6 (drop (index * 6) expanded)))"
proof -
  let ?six = "take 6 (drop (index * 6) expanded)"
  have six: "?six ! j = 0 \<or> ?six ! j = 1" if "j < 6" for j
    using bit_list_nth [OF assms(1), of "index * 6 + j"] assms that by (simp add: bit_list_def)
  have "rds expanded (index * 6) 6 = Some ?six"
    using assms by (intro rds_Some) (simp add: bit_list_def)
  moreover have "length vnc_des_s = 8" "list_all (\<lambda>b. length b = 64) vnc_des_s"
    by (simp_all add: vnc_des_s_def)
  ultimately show ?thesis
    using assms(2) sbox_index [OF six six six six six six, of 0 1 2 3 4 5]
    by (simp add: sbox_bits_def sbox_def rd_def list_all_length Let_def)
qed

lemma des_mix_eq:
  assumes "bit_list 32 right" and "bit_list 48 subkey"
  shows "des_mix right subkey = Some (des_f subkey right)"
proof -
  let ?e = "map2 (XOR) (perm vnc_des_e right) subkey"
  have e: "bit_list 48 (perm vnc_des_e right)" by (rule bit_list_perm [OF des_tables(3) assms(1)])
  then have x: "bit_list 48 ?e" by (rule bit_list_xor [OF _ assms(2)])
  have "those (map (sbox_bits ?e) [0..<8]) =
      Some (map (\<lambda>i. sbox (vnc_des_s ! i) (take 6 (drop (i * 6) ?e))) [0..<8])"
    by (rule those_map) (simp add: sbox_bits_eq [OF x])
  moreover have "bit_list 32 (concat (map (\<lambda>i. sbox (vnc_des_s ! i) (take 6 (drop (i * 6) ?e))) [0..<8]))"
    using bit_list_concat [of "[0..<8]" 4] bit_list_sbox by simp
  ultimately show ?thesis
    using permute_eq [OF des_tables(3) assms(1)] permute_eq [OF des_tables(4)] e assms(2)
    by (simp add: des_mix_def des_f_def Let_def xor_at_eq bit_list_def)
qed

text \<open>The loops that rotate and swap in place.\<close>

lemma rotate_half_eq:
  assumes "a + 28 \<le> length cd"
  shows "rotate_half a cd = Some (take a cd @ rotate1 (take 28 (drop a cd)) @ drop (a + 28) cd)"
proof -
  let ?inv = "\<lambda>j t. length t = length cd \<and> (\<forall>k < length cd. t ! k = (if a \<le> k \<and> k < j then cd ! (k + 1) else cd ! k))"
  have "\<exists>t. for_up a 27 (\<lambda>index cd. do { b \<leftarrow> rd cd (index + 1); wr cd index b }) cd = Some t \<and> ?inv (a + 27) t"
    by (rule for_up_rule) (use assms in \<open>auto simp: rd_def wr_def nth_list_update\<close>)
  then obtain t where t: "for_up a 27 (\<lambda>index cd. do { b \<leftarrow> rd cd (index + 1); wr cd index b }) cd = Some t"
      "?inv (a + 27) t" by blast
  have "t[a + 27 := cd ! a] = take a cd @ rotate1 (take 28 (drop a cd)) @ drop (a + 28) cd"
    using t(2) assms
    by (intro nth_equalityI) (auto simp: nth_list_update nth_append nth_rotate1 rotate1_hd_tl hd_drop_conv_nth nth_tl)
  then show ?thesis using t assms by (simp add: rotate_half_def rd_def wr_def)
qed

lemma rotate_key_eq:
  assumes "length cd = 56"
  shows "rotate_key n cd = Some (des_shift n cd)"
proof -
  have "for_up i n (\<lambda>_ cd. do { cd \<leftarrow> rotate_half 0 cd; rotate_half 28 cd }) cd = Some (des_shift n cd)" for i
    using assms
  proof (induction n arbitrary: i cd)
    case (Suc n)
    let ?cd = "rotate1 (take 28 cd) @ rotate1 (drop 28 cd)"
    have "rotate_half 0 cd = Some (rotate1 (take 28 cd) @ drop 28 cd)"
      using rotate_half_eq [of 0 cd] Suc.prems by simp
    moreover have "rotate_half 28 (rotate1 (take 28 cd) @ drop 28 cd) = Some ?cd"
      using rotate_half_eq [of 28 "rotate1 (take 28 cd) @ drop 28 cd"] Suc.prems by simp
    moreover have "des_shift n ?cd = des_shift (Suc n) cd"
      using Suc.prems by (simp add: des_shift_def rotate1_rotate_swap)
    ultimately show ?case using Suc.IH [of ?cd "Suc i"] Suc.prems by simp
  qed (simp add: des_shift_def)
  then show ?thesis by (simp add: rotate_key_def)
qed

lemma swap_halves_eq:
  assumes "length mixed = 32" and "length lr = 64"
  shows "swap_halves mixed lr = Some (drop 32 lr @ map2 (XOR) (take 32 lr) mixed)"
proof -
  let ?inv = "\<lambda>j t. length t = 64 \<and> (\<forall>k < 64. t ! k =
      (if k < j then lr ! (32 + k) else if 32 \<le> k \<and> k < 32 + j then lr ! (k - 32) XOR mixed ! (k - 32) else lr ! k))"
  have "\<exists>t. swap_halves mixed lr = Some t \<and> ?inv (0 + 32) t"
    unfolding swap_halves_def
    by (rule for_up_rule) (use assms in \<open>auto simp: rd_def wr_def nth_list_update\<close>)
  then obtain t where t: "swap_halves mixed lr = Some t" "?inv 32 t" by auto
  have "t = drop 32 lr @ map2 (XOR) (take 32 lr) mixed"
    using t(2) assms by (intro nth_equalityI) (auto simp: nth_append)
  then show ?thesis using t(1) by simp
qed

text \<open>A round of the code is a round of the network with the subkey of the schedule.\<close>

lemma des_round_eq:
  assumes "bit_list 56 cd" and "bit_list 32 l" and "bit_list 32 r" and "i < 16"
  defines "cd' \<equiv> des_shift (vnc_des_shifts ! i) cd"
  shows "des_round i (cd, l @ r) = Some (cd', r @ map2 (XOR) l (des_f (perm vnc_des_pc2 cd') r))"
    and "bit_list 48 (perm vnc_des_pc2 cd')"
proof -
  have cd: "bit_list 56 cd'" unfolding cd'_def by (rule bit_list_shift [OF assms(1)])
  show k: "bit_list 48 (perm vnc_des_pc2 cd')" by (rule bit_list_perm [OF des_tables(6) cd])
  have f: "length (des_f (perm vnc_des_pc2 cd') r) = 32"
    using bit_list_f [OF k assms(3)] by (simp add: bit_list_def)
  have lens: "length cd = 56" "length l = 32" "length r = 32" "length vnc_des_shifts = 16"
    using assms(1-3) by (simp_all add: bit_list_def vnc_des_shifts_def)
  show "des_round i (cd, l @ r) = Some (cd', r @ map2 (XOR) l (des_f (perm vnc_des_pc2 cd') r))"
    using assms(4) lens f permute_eq [OF des_tables(6) cd] des_mix_eq [OF assms(3) k]
      rotate_key_eq [of cd "vnc_des_shifts ! i"] swap_halves_eq [OF f, of "l @ r"]
    unfolding cd'_def [symmetric] by (simp add: des_round_def rd_def)
qed

lemma pack_byte_eq:
  "k + i + n \<le> length block \<Longrightarrow>
   for_up i n (\<lambda>bit out. do { b \<leftarrow> rd block (k + bit); Some (push_bit 1 out OR b) }) x =
   Some (foldl (\<lambda>out b. push_bit 1 out OR b) x (take n (drop (k + i) block)))"
proof (induction n arbitrary: i x)
  case (Suc n)
  then have "take (Suc n) (drop (k + i) block) = block ! (k + i) # take n (drop (k + Suc i) block)"
    by (simp add: Cons_nth_drop_Suc [symmetric])
  then show ?case using Suc.IH [of "Suc i" "push_bit 1 x OR block ! (k + i)"] Suc.prems
    by (simp add: rd_def del: push_bit_of_1)
qed simp

lemma des_rounds_eq:
  assumes "bit_list 56 cd" and "bit_list 32 l" and "bit_list 32 r" and "i + n \<le> 16"
  shows "\<exists>cd'. for_up i n des_round (cd, l @ r) =
        Some (cd', case des.net (des_subkeys cd (take n (drop i vnc_des_shifts))) (l, r) of (l', r') \<Rightarrow> l' @ r') \<and>
      list_all (bit_list 48) (des_subkeys cd (take n (drop i vnc_des_shifts)))"
  using assms
proof (induction n arbitrary: i cd l r)
  case (Suc n)
  let ?cd = "des_shift (vnc_des_shifts ! i) cd"
  let ?k = "perm vnc_des_pc2 ?cd"
  let ?r = "map2 (XOR) l (des_f ?k r)"
  have "length vnc_des_shifts = 16" by (simp add: vnc_des_shifts_def)
  then have ks: "take (Suc n) (drop i vnc_des_shifts) =
      vnc_des_shifts ! i # take n (drop (Suc i) vnc_des_shifts)"
    using Suc.prems by (simp add: Cons_nth_drop_Suc [symmetric])
  have r: "bit_list 32 ?r"
    using des_round_eq(2) [OF Suc.prems(1-3), of i] Suc.prems by (intro bit_list_xor bit_list_f) simp_all
  have step: "des_round i (cd, l @ r) = Some (?cd, r @ ?r)" "bit_list 48 ?k"
    using des_round_eq [OF Suc.prems(1-3)] Suc.prems(4) by simp_all
  have "Suc i + n \<le> 16" using Suc.prems(4) by simp
  from Suc.IH [OF bit_list_shift [OF Suc.prems(1)] Suc.prems(3) r this] step
  show ?case unfolding ks by (simp add: Let_def)
qed simp

lemma pack_bytes_eq:
  assumes "bit_list 64 bits"
  shows "those (map (des_pack_byte bits) [0..<8]) = Some (bytes_of bits)"
  unfolding bytes_of_def
proof (rule those_map)
  fix i assume "i \<in> set [0..<8::nat]"
  then show "des_pack_byte bits i = Some (byte_of (take 8 (drop (i * 8) bits)))"
    using pack_byte_eq [of "i * 8" 0 8 bits] assms by (simp add: des_pack_byte_def byte_of_def bit_list_def)
qed

lemma vnc_des_encrypt_eq:
  assumes "length key = 8" and "length block = 8"
  shows "vnc_des_encrypt key block = Some (des_crypt (des_schedule key) block)"
    and "list_all (bit_list 48) (des_schedule key)"
proof -
  define cd where "cd = perm vnc_des_pc1 (bits_of key)"
  define lr where "lr = perm vnc_des_ip (bits_of block)"
  define net where "net = des.net (des_schedule key) (take 32 lr, drop 32 lr)"
  have cd: "bit_list 56 cd" "vnc_des_permute (bits_of key) vnc_des_pc1 56 = Some cd"
    unfolding cd_def using des_tables(5) bit_list_bits_of by (rule bit_list_perm, rule permute_eq)
  have lr: "bit_list 64 lr" "vnc_des_permute (bits_of block) vnc_des_ip 64 = Some lr"
    unfolding lr_def using des_tables(1) bit_list_bits_of by (rule bit_list_perm, rule permute_eq)
  have lh: "bit_list 32 (take 32 lr)" "bit_list 32 (drop 32 lr)"
    using bit_list_take [OF lr(1), of 32] bit_list_drop [OF lr(1), of 32] by simp_all
  have sched: "des_subkeys cd (take 16 (drop 0 vnc_des_shifts)) = des_schedule key"
    unfolding des_schedule_def cd_def
    by (rule arg_cong [of _ _ "des_subkeys _"]) (simp add: vnc_des_shifts_def)
  obtain cd' where loop: "for_up 0 16 des_round (cd, lr) = Some (cd', fst net @ snd net)"
    and ks: "list_all (bit_list 48) (des_schedule key)"
    using des_rounds_eq [OF cd(1) lh, of 0 16] unfolding sched append_take_drop_id net_def by (auto simp: case_prod_beta)
  show "list_all (bit_list 48) (des_schedule key)" by (rule ks)
  have "des.halves net"
    unfolding net_def by (rule des.net_halves [OF ks]) (use lh in \<open>simp add: des.halves_def\<close>)
  then have h: "bit_list 32 (fst net)" "bit_list 32 (snd net)" by (simp_all add: des.halves_def)
  then have out: "bit_list 64 (snd net @ fst net)" using bit_list_append [of 32 _ 32] by simp
  have halves: "rds (fst net @ snd net) 32 32 = Some (snd net)" "rds (fst net @ snd net) 0 32 = Some (fst net)"
    using h by (simp_all add: rds_Some bit_list_def)
  have crypt: "des_crypt (des_schedule key) block = bytes_of (perm vnc_des_fp (snd net @ fst net))"
    unfolding des_crypt_def Let_def lr_def [symmetric] net_def [symmetric] by (simp add: case_prod_beta)
  show "vnc_des_encrypt key block = Some (des_crypt (des_schedule key) block)"
    unfolding crypt vnc_des_encrypt_def
    by (simp add: unpack_eq assms cd lr loop halves permute_eq [OF des_tables(2) out]
        pack_bytes_eq [OF bit_list_perm [OF des_tables(2) out]])
qed

subsection \<open>Decryption\<close>

lemma des_undo:
  assumes "list_all (bit_list 48) ks" and "length block = 8"
  shows "des_crypt (rev ks) (des_crypt ks block) = block"
proof -
  let ?lr = "perm vnc_des_ip (bits_of block)"
  have lr: "bit_list 64 ?lr" by (rule bit_list_perm [OF des_tables(1) bit_list_bits_of])
  then have halves: "des.halves (take 32 ?lr, drop 32 ?lr)"
    using bit_list_take [OF lr, of 32] bit_list_drop [OF lr, of 32] by (simp add: des.halves_def)
  obtain l r where net: "des.net ks (take 32 ?lr, drop 32 ?lr) = (l, r)" by fastforce
  have h: "bit_list 32 l" "bit_list 32 r"
    using des.net_halves [OF assms(1) halves] by (simp_all add: net des.halves_def)
  then have out: "bit_list 64 (r @ l)" using bit_list_append [of 32 r 32 l] by simp
  have fp: "bit_list 64 (perm vnc_des_fp (r @ l))" by (rule bit_list_perm [OF des_tables(2) out])
  have ipfp: "perm vnc_des_ip (perm vnc_des_fp (r @ l)) = r @ l"
    by (rule perm_ip_fp) (use out in \<open>simp add: bit_list_def\<close>)
  have undo: "des.net (rev ks) (r, l) = (drop 32 ?lr, take 32 ?lr)"
    using des.net_undo [OF assms(1) halves] by (simp add: net)
  have "length r = 32" using h by (simp add: bit_list_def)
  moreover have "perm vnc_des_fp ?lr = bits_of block"
    by (rule perm_fp_ip) (simp add: bits_of_def)
  ultimately show ?thesis
    using undo bytes_of_bits_of [OF assms(2)]
    by (simp add: des_crypt_def Let_def net bits_of_bytes_of [OF fp] ipfp)
qed

text \<open>FIPS 46-3 decryption: the same network over the reversed schedule.\<close>

definition des_decrypt :: "bytes \<Rightarrow> bytes \<Rightarrow> bytes" where
  "des_decrypt key block = des_crypt (rev (des_schedule key)) block"

lemma length_des_crypt [simp]: "length (des_crypt ks block) = 8"
  by (simp add: des_crypt_def Let_def bytes_of_def case_prod_beta)

lemma des_encrypted:
  assumes "length key = 8" and "length block = 8"
  obtains out where "vnc_des_encrypt key block = Some out" "length out = 8"
    "out = des_crypt (des_schedule key) block" "des_decrypt key out = block"
  using vnc_des_encrypt_eq [OF assms] des_undo [OF _ assms(2)] by (simp add: des_decrypt_def)

subsection \<open>The password\<close>

lemma bit_reverse_byte: "bit (reverse_byte c) k \<longleftrightarrow> k < 8 \<and> bit c (7 - k)"
proof -
  let ?bits = "map (\<lambda>i. drop_bit i c AND 1) [0..<8]"
  have "reverse_byte c = byte_of ?bits"
    unfolding reverse_byte_def byte_of_def foldl_map ..
  moreover have "bit_list 8 ?bits" by (auto simp: bit_list_def and_one_eq mod_2_eq_odd)
  ultimately show ?thesis
    using bit_byte_of [of 8 ?bits k] by (auto simp: bit_iff_odd_drop_bit and_one_eq mod_2_eq_odd)
qed

text \<open>The key schedule does not use the last bit of a key byte, which is the top bit of a password
  character.\<close>

lemma schedule_parity:
  assumes "\<And>i j. i < 8 \<Longrightarrow> 0 < j \<Longrightarrow> j < 8 \<Longrightarrow> bit (k ! i) j = bit (k' ! i) j"
  shows "des_schedule k = des_schedule k'"
proof -
  have "list_all (\<lambda>t. (t - 1) div 8 < 8 \<and> (t - 1) mod 8 < 7 \<and> t - 1 < 64) vnc_des_pc1"
    by (simp add: vnc_des_pc1_def)
  moreover have "bits_of k ! (t - 1) = bits_of k' ! (t - 1)"
    if "(t - 1) div 8 < 8" "(t - 1) mod 8 < 7" "t - 1 < 64" for t
  proof -
    have "bit (k ! ((t - 1) div 8)) (7 - (t - 1) mod 8) = bit (k' ! ((t - 1) div 8)) (7 - (t - 1) mod 8)"
      by (rule assms) (use that in simp_all)
    then show ?thesis
      using that(3) by (simp add: bits_of_def bit_iff_odd_drop_bit and_one_eq mod_2_eq_odd)
  qed
  ultimately show ?thesis
    unfolding des_schedule_def perm_def by (intro arg_cong [of _ _ "\<lambda>x. des_subkeys x vnc_des_shifts"])
      (auto simp: list_all_iff)
qed

text \<open>The seven bits of the character at a place of the password; past its end, 0.\<close>

definition password_char :: "bytes \<Rightarrow> nat \<Rightarrow> u8" where
  "password_char password i = (if i < length password then take_bit 7 (password ! i) else 0)"

lemma auth_key_schedule:
  assumes "\<And>i. i < 8 \<Longrightarrow> password_char p i = password_char q i"
  shows "des_schedule (vnc_auth_key p) = des_schedule (vnc_auth_key q)"
proof (rule schedule_parity)
  fix i j :: nat assume i: "i < 8" and j: "0 < j" "j < 8"
  have "bit (vnc_auth_key r ! i) j \<longleftrightarrow> bit (password_char r i) (7 - j)" for r
    using i j by (simp add: vnc_auth_key_def password_char_def bit_reverse_byte bit_take_bit_iff)
  then show "bit (vnc_auth_key p ! i) j = bit (vnc_auth_key q ! i) j"
    using assms [OF i] by simp
qed

lemma length_auth_key [simp]: "length (vnc_auth_key password) = 8"
  by (simp add: vnc_auth_key_def)

lemma auth_response_eq:
  assumes "length challenge = 16"
  shows "vnc_auth_response password challenge =
    Some (des_crypt (des_schedule (vnc_auth_key password)) (take 8 challenge) @
          des_crypt (des_schedule (vnc_auth_key password)) (drop 8 challenge))"
  using assms vnc_des_encrypt_eq(1) [of "vnc_auth_key password"] by (simp add: vnc_auth_response_def Let_def)

text \<open>
  C18. The DES of the VNC server is FIPS 46-3 encryption on every key and block: it stays inside its
  arrays, gives 8 bytes, and decryption with the reversed key schedule gives the block back.
\<close>

theorem des_encrypt_decrypts:
  assumes "length key = 8" and "length block = 8"
  shows "\<exists>out. vnc_des_encrypt key block = Some out \<and> length out = 8 \<and>
    out = des_crypt (des_schedule key) block \<and> des_decrypt key out = block"
  by (rule des_encrypted [OF assms]) blast

lemma des_encrypt_decrypts_witness:
  "\<exists>out. vnc_des_encrypt (replicate 8 0) (replicate 8 1) = Some out \<and> length out = 8 \<and>
    out = des_crypt (des_schedule (replicate 8 0)) (replicate 8 1) \<and>
    des_decrypt (replicate 8 0) out = replicate 8 1"
  by (rule des_encrypt_decrypts) simp_all

text \<open>The DES key of a password: byte by byte its first eight characters with their bits mirrored, and 0
  past its end.\<close>

definition mirrored_key :: "bytes \<Rightarrow> bytes \<Rightarrow> bool" where
  "mirrored_key password key \<longleftrightarrow> length key = 8 \<and>
     (\<forall>i<8. \<forall>j<8. bit (key ! i) j \<longleftrightarrow> i < length password \<and> bit (password ! i) (7 - j))"

lemma auth_key_mirrored: "mirrored_key password (vnc_auth_key password)"
  by (auto simp: mirrored_key_def vnc_auth_key_def bit_reverse_byte)

lemma mirrored_key_unique:
  assumes "mirrored_key password key" "mirrored_key password key'"
  shows "key = key'"
proof (rule nth_equalityI)
  show "length key = length key'" using assms by (simp add: mirrored_key_def)
  show "key ! i = key' ! i" if "i < length key" for i
    using assms that by (intro bit_word_eqI) (simp add: mirrored_key_def)
qed

text \<open>Both halves of a challenge, encrypted under one key.\<close>

lemma auth_response_halves:
  assumes "length challenge = 16" and "mirrored_key password key"
  shows "vnc_auth_response password challenge =
      Some (des_crypt (des_schedule key) (take 8 challenge) @ des_crypt (des_schedule key) (drop 8 challenge))"
    and "length (des_crypt (des_schedule key) (take 8 challenge)) = 8"
    and "des_decrypt key (des_crypt (des_schedule key) (take 8 challenge)) = take 8 challenge"
    and "des_decrypt key (des_crypt (des_schedule key) (drop 8 challenge)) = drop 8 challenge"
    and "length (des_crypt (des_schedule key) (drop 8 challenge)) = 8"
proof -
  have key: "key = vnc_auth_key password" by (rule mirrored_key_unique [OF assms(2) auth_key_mirrored])
  have half: "length (des_crypt (des_schedule key) b) = 8 \<and> des_decrypt key (des_crypt (des_schedule key) b) = b"
    if "length b = 8" for b
    by (rule des_encrypted [OF length_auth_key [of password, folded key] that]) blast
  show "vnc_auth_response password challenge =
      Some (des_crypt (des_schedule key) (take 8 challenge) @ des_crypt (des_schedule key) (drop 8 challenge))"
    unfolding key by (rule auth_response_eq [OF assms(1)])
  show "length (des_crypt (des_schedule key) (take 8 challenge)) = 8"
    "des_decrypt key (des_crypt (des_schedule key) (take 8 challenge)) = take 8 challenge"
    "des_decrypt key (des_crypt (des_schedule key) (drop 8 challenge)) = drop 8 challenge"
    "length (des_crypt (des_schedule key) (drop 8 challenge)) = 8"
    using half [of "take 8 challenge"] half [of "drop 8 challenge"] assms(1) by simp_all
qed

text \<open>
  C20. The answer to a VNC challenge is the DES encryption of its two halves under the password's key,
  which is its first eight characters, each with its bits mirrored, in their order and padded with 0:
  16 bytes inside the arrays, from which the decryption under that key gives the challenge back. So two
  challenges never have the same answer under one password, and the answer depends on the low seven
  bits of the first eight characters of the password and on nothing else of it.
\<close>

theorem vnc_auth_response_spec:
  assumes "length challenge = 16" and "length other = 16" and "mirrored_key password key"
  shows "\<exists>r. vnc_auth_response password challenge = Some r \<and> length r = 16 \<and>
    r = des_crypt (des_schedule key) (take 8 challenge) @ des_crypt (des_schedule key) (drop 8 challenge) \<and>
    des_decrypt key (take 8 r) @ des_decrypt key (drop 8 r) = challenge \<and>
    (vnc_auth_response password other = Some r \<longleftrightarrow> other = challenge) \<and>
    (\<forall>guess. (\<forall>i<8. password_char guess i = password_char password i) \<longrightarrow>
      vnc_auth_response guess challenge = Some r)"
proof -
  let ?r = "des_crypt (des_schedule key) (take 8 challenge) @ des_crypt (des_schedule key) (drop 8 challenge)"
  note half = auth_response_halves [OF assms(1,3)] and half' = auth_response_halves [OF assms(2,3)]
  have undone: "des_decrypt key (take 8 ?r) @ des_decrypt key (drop 8 ?r) = challenge"
    using half by simp
  have "other = challenge" if "vnc_auth_response password other = Some ?r"
  proof -
    have "des_crypt (des_schedule key) (take 8 other) @ des_crypt (des_schedule key) (drop 8 other) = ?r"
      using that half'(1) by simp
    then have "des_crypt (des_schedule key) (take 8 other) = des_crypt (des_schedule key) (take 8 challenge)"
      "des_crypt (des_schedule key) (drop 8 other) = des_crypt (des_schedule key) (drop 8 challenge)"
      using half(2) half'(2) by simp_all
    then show ?thesis using half(3,4) half'(3,4) by (metis append_take_drop_id)
  qed
  moreover have "vnc_auth_response guess challenge = Some ?r"
    if "\<forall>i<8. password_char guess i = password_char password i" for guess
    using auth_key_schedule [of guess password] that half(1) by (simp add: auth_response_eq [OF assms(1)])
  ultimately show ?thesis using half(1,2,5) undone by auto
qed

lemma vnc_auth_response_spec_witness:
  "\<exists>r. vnc_auth_response (asc ''secret'') (replicate 16 1) = Some r \<and> length r = 16 \<and>
    r = des_crypt (des_schedule [0xCE, 0xA6, 0xC6, 0x4E, 0xA6, 0x2E, 0, 0]) (replicate 8 1) @
        des_crypt (des_schedule [0xCE, 0xA6, 0xC6, 0x4E, 0xA6, 0x2E, 0, 0]) (replicate 8 1) \<and>
    des_decrypt [0xCE, 0xA6, 0xC6, 0x4E, 0xA6, 0x2E, 0, 0] (take 8 r) @
      des_decrypt [0xCE, 0xA6, 0xC6, 0x4E, 0xA6, 0x2E, 0, 0] (drop 8 r) = replicate 16 1 \<and>
    (vnc_auth_response (asc ''secret'') (replicate 16 2) = Some r \<longleftrightarrow> replicate 16 (2 :: u8) = replicate 16 1) \<and>
    (\<forall>guess. (\<forall>i<8. password_char guess i = password_char (asc ''secret'') i) \<longrightarrow>
      vnc_auth_response guess (replicate 16 1) = Some r)"
proof -
  have "vnc_auth_key (asc ''secret'') = [0xCE, 0xA6, 0xC6, 0x4E, 0xA6, 0x2E, 0, 0]" by code_simp
  then have "mirrored_key (asc ''secret'') [0xCE, 0xA6, 0xC6, 0x4E, 0xA6, 0x2E, 0, 0]"
    using auth_key_mirrored [of "asc ''secret''"] by (simp only:)
  moreover have "take 8 (replicate 16 (1 :: u8)) = replicate 8 1" "drop 8 (replicate 16 (1 :: u8)) = replicate 8 1"
    by simp_all
  ultimately show ?thesis
    using vnc_auth_response_spec [of "replicate 16 1" "replicate 16 2" "asc ''secret''" "[0xCE, 0xA6, 0xC6, 0x4E, 0xA6, 0x2E, 0, 0]"]
    by (simp only: length_replicate)
qed

end
