(* ===== verification/VncPixel.thy ===== *)
theory VncPixel
  imports Loops
begin

section \<open>Pixel formats of the VNC server\<close>

text \<open>
  Models the wire integers and the pixel-format part of \<^verbatim>\<open>src/guest/vnc.c\<close>. \<^verbatim>\<open>DWORD\<close> and
  \<^verbatim>\<open>unsigned int\<close> are 32-bit words; the record \<open>vnc_px\<close> holds the global format and what
  \<^verbatim>\<open>vnc_build_tables\<close> derives from it. A shift by the width of the word or more is undefined in
  C: the model is \<open>None\<close> there, as it is outside an array. \<open>vnc_store_pixel\<close> gives the bytes the
  code stores at its target.
\<close>

subsection \<open>Wire integers\<close>

definition vnc_u16 :: "bytes \<Rightarrow> nat \<Rightarrow> u32 option" where
  "vnc_u16 source at =
     do { b0 \<leftarrow> rd source at; b1 \<leftarrow> rd source (at + 1); Some (push_bit 8 (ucast b0) OR ucast b1) }"

definition vnc_u32 :: "bytes \<Rightarrow> nat \<Rightarrow> u32 option" where
  "vnc_u32 source at =
     do {
       b0 \<leftarrow> rd source at; b1 \<leftarrow> rd source (at + 1); b2 \<leftarrow> rd source (at + 2); b3 \<leftarrow> rd source (at + 3);
       Some (push_bit 24 (ucast b0) OR push_bit 16 (ucast b1) OR push_bit 8 (ucast b2) OR ucast b3) }"

definition vnc_put16 :: "u32 \<Rightarrow> bytes" where
  "vnc_put16 v = [ucast (drop_bit 8 v AND 0xff), ucast (v AND 0xff)]"

definition vnc_put32 :: "u32 \<Rightarrow> bytes" where
  "vnc_put32 v = [ucast (drop_bit 24 v AND 0xff), ucast (drop_bit 16 v AND 0xff),
     ucast (drop_bit 8 v AND 0xff), ucast (v AND 0xff)]"

subsection \<open>Formats and tables\<close>

record vnc_format =
  bpp :: u8
  depth :: u8
  big_endian :: u8
  true_colour :: u8
  red_max :: u32
  green_max :: u32
  blue_max :: u32
  red_shift :: u8
  green_shift :: u8
  blue_shift :: u8

record vnc_px =
  px_format :: vnc_format
  red_table :: "u32 list"
  green_table :: "u32 list"
  blue_table :: "u32 list"
  pixel_bytes :: nat
  cpixel_bytes :: nat
  cpixel_skip :: nat

definition shl32 :: "u32 \<Rightarrow> u8 \<Rightarrow> u32 option" where
  "shl32 v n = (if unat n < 32 then Some (push_bit (unat n) v) else None)"

definition colour_table :: "u32 \<Rightarrow> u8 \<Rightarrow> u32 list option" where
  "colour_table top_value shift = those (map (\<lambda>v. shl32 ((of_nat v * top_value + 127) div 255) shift) [0..<256])"

text \<open>The bits a colour can use, and the CPIXEL layout of ZRLE.\<close>

definition used_bits :: "vnc_format \<Rightarrow> u32 option" where
  "used_bits f =
     do {
       r \<leftarrow> shl32 (red_max f) (red_shift f);
       g \<leftarrow> shl32 (green_max f) (green_shift f);
       b \<leftarrow> shl32 (blue_max f) (blue_shift f);
       Some (r OR g OR b) }"

definition cpixel_layout :: "vnc_format \<Rightarrow> nat \<Rightarrow> (nat \<times> nat) option" where
  "cpixel_layout f n =
     (if true_colour f \<noteq> 0 \<and> bpp f = 32 \<and> depth f \<le> 24 then do {
        used \<leftarrow> used_bits f;
        Some (if used AND 0xff000000 = 0 then (3, if big_endian f \<noteq> 0 then 1 else 0)
          else if used AND 0xff = 0 then (3, if big_endian f \<noteq> 0 then 0 else 1)
          else (n, 0)) }
      else Some (n, 0))"

definition vnc_build_tables :: "vnc_format \<Rightarrow> vnc_px option" where
  "vnc_build_tables f =
     do {
       red \<leftarrow> colour_table (red_max f) (red_shift f);
       green \<leftarrow> colour_table (green_max f) (green_shift f);
       blue \<leftarrow> colour_table (blue_max f) (blue_shift f);
       let n = unat (bpp f) div 8;
       (cn, skip) \<leftarrow> cpixel_layout f n;
       Some \<lparr>px_format = f, red_table = red, green_table = green, blue_table = blue,
         pixel_bytes = n, cpixel_bytes = cn, cpixel_skip = skip\<rparr> }"

definition default_format :: vnc_format where
  "default_format = \<lparr>bpp = 32, depth = 24, big_endian = 0, true_colour = 1,
     red_max = 255, green_max = 255, blue_max = 255, red_shift = 16, green_shift = 8, blue_shift = 0\<rparr>"

definition vnc_default_format :: "vnc_px option" where
  "vnc_default_format = vnc_build_tables default_format"

definition vnc_write_format :: "vnc_format \<Rightarrow> bytes" where
  "vnc_write_format f =
     [bpp f, depth f, big_endian f, true_colour f] @ vnc_put16 (red_max f) @ vnc_put16 (green_max f) @
     vnc_put16 (blue_max f) @ [red_shift f, green_shift f, blue_shift f, 0, 0, 0]"

subsection \<open>Pixels\<close>

definition vnc_translate :: "vnc_px \<Rightarrow> u32 \<Rightarrow> u32 option" where
  "vnc_translate px native =
     do {
       r \<leftarrow> rd (red_table px) (unat (drop_bit 16 native AND 0xff));
       g \<leftarrow> rd (green_table px) (unat (drop_bit 8 native AND 0xff));
       b \<leftarrow> rd (blue_table px) (unat (native AND 0xff));
       Some (r OR g OR b) }"

definition vnc_store_pixel :: "vnc_px \<Rightarrow> u32 \<Rightarrow> bytes" where
  "vnc_store_pixel px pixel =
     (if pixel_bytes px = 1 then [ucast pixel]
      else if pixel_bytes px = 2 then
        (if big_endian (px_format px) \<noteq> 0 then [ucast (drop_bit 8 pixel), ucast pixel]
         else [ucast pixel, ucast (drop_bit 8 pixel)])
      else if big_endian (px_format px) \<noteq> 0 then vnc_put32 pixel
      else [ucast pixel, ucast (drop_bit 8 pixel), ucast (drop_bit 16 pixel), ucast (drop_bit 24 pixel)])"

subsection \<open>A viewer's format\<close>

function max_bits :: "u32 \<Rightarrow> nat \<Rightarrow> nat" where
  "max_bits top_value bits = (if drop_bit bits top_value \<noteq> 0 then max_bits top_value (bits + 1) else bits)"
  by pat_completeness auto
termination
proof (relation "measure (\<lambda>(_, bits). 32 - bits)")
  fix top_value :: u32 and bits :: nat assume nz: "drop_bit bits top_value \<noteq> 0"
  have "bits < 32"
  proof (rule ccontr)
    assume "\<not> bits < 32"
    then have "drop_bit bits top_value = 0" by (intro bit_word_eqI) (simp add: bit_simps)
    with nz show False by simp
  qed
  then show "((top_value, bits + 1), (top_value, bits)) \<in> measure (\<lambda>(_, bits). 32 - bits)" by simp
qed simp

declare max_bits.simps [simp del]

definition vnc_shift_ok :: "u32 \<Rightarrow> u8 \<Rightarrow> u8 \<Rightarrow> bool" where
  "vnc_shift_ok top_value shift bits \<longleftrightarrow> top_value \<noteq> 0 \<and> unat shift + max_bits top_value 0 \<le> unat bits"

definition read_format :: "bytes \<Rightarrow> vnc_format option" where
  "read_format format =
     do {
       b \<leftarrow> rd format 0; d \<leftarrow> rd format 1; e \<leftarrow> rd format 2; t \<leftarrow> rd format 3;
       rmax \<leftarrow> vnc_u16 format 4; gmax \<leftarrow> vnc_u16 format 6; bmax \<leftarrow> vnc_u16 format 8;
       rs \<leftarrow> rd format 10; gs \<leftarrow> rd format 11; bs \<leftarrow> rd format 12;
       Some \<lparr>bpp = b, depth = d, big_endian = (if e \<noteq> 0 then 1 else 0), true_colour = (if t \<noteq> 0 then 1 else 0),
         red_max = rmax, green_max = gmax, blue_max = bmax, red_shift = rs, green_shift = gs, blue_shift = bs\<rparr> }"

definition colour_map_format :: "vnc_format \<Rightarrow> vnc_format" where
  "colour_map_format f = f\<lparr>red_max := 7, green_max := 7, blue_max := 3,
     red_shift := 5, green_shift := 2, blue_shift := 0\<rparr>"

text \<open>The format the server switches to; \<open>Some None\<close> is a refusal.\<close>

definition wanted_format :: "bytes \<Rightarrow> vnc_format option option" where
  "wanted_format format =
     do {
       f \<leftarrow> read_format format;
       Some (if bpp f \<noteq> 8 \<and> bpp f \<noteq> 16 \<and> bpp f \<noteq> 32 then None
         else if true_colour f = 0 then (if bpp f \<noteq> 8 then None else Some (colour_map_format f))
         else if \<not> vnc_shift_ok (red_max f) (red_shift f) (bpp f) \<or>
           \<not> vnc_shift_ok (green_max f) (green_shift f) (bpp f) \<or>
           \<not> vnc_shift_ok (blue_max f) (blue_shift f) (bpp f) then None
         else Some f) }"

text \<open>The palette a colour-map viewer is sent.\<close>

definition map_entry :: "nat \<Rightarrow> bytes" where
  "map_entry index =
     (let i = of_nat index :: u32 in
      vnc_put16 ((drop_bit 5 i AND 7) * 65535 div 7) @ vnc_put16 ((drop_bit 2 i AND 7) * 65535 div 7) @
      vnc_put16 ((i AND 3) * 65535 div 3))"

definition colour_map_message :: bytes where
  "colour_map_message = [1, 0] @ vnc_put16 0 @ vnc_put16 256 @ concat (map map_entry [0..<256])"

end
