(* ===== verification/VncPixelProps.thy ===== *)
theory VncPixelProps
  imports VncPixel
begin

section \<open>What a viewer reads\<close>

text \<open>
  A format the server accepts fits its pixel: every channel, shifted into place, stays below two
  to the bits of the pixel. Under such a format the tables build without an undefined shift, each
  screen colour has a pixel value, and the viewer reads that value from the bytes stored for it,
  also from the three bytes of ZRLE's CPIXEL when the maxima are of the form the protocol demands.
\<close>

subsection \<open>Formats that fit\<close>

definition channel_fits :: "u32 \<Rightarrow> u8 \<Rightarrow> u8 \<Rightarrow> bool" where
  "channel_fits m shift bits \<longleftrightarrow> m \<noteq> 0 \<and> unat m < 65536 \<and> unat m * 2 ^ unat shift < 2 ^ unat bits"

definition format_ok :: "vnc_format \<Rightarrow> bool" where
  "format_ok f \<longleftrightarrow> bpp f \<in> {8, 16, 32} \<and> channel_fits (red_max f) (red_shift f) (bpp f) \<and>
     channel_fits (green_max f) (green_shift f) (bpp f) \<and> channel_fits (blue_max f) (blue_shift f) (bpp f)"

lemma max_bits_zero: "drop_bit (max_bits m k) m = 0"
proof (induction m k rule: max_bits.induct)
  case (1 m k)
  then show ?case by (subst max_bits.simps, cases "drop_bit k m = 0") (simp_all add: max_bits.simps [of m k])
qed

lemma max_bits_nonzero: "k \<le> j \<Longrightarrow> j < max_bits m k \<Longrightarrow> drop_bit j m \<noteq> 0"
proof (induction m k rule: max_bits.induct)
  case (1 m k)
  show ?case
  proof (cases "drop_bit k m = 0")
    case True
    then have "max_bits m k = k" by (simp add: max_bits.simps)
    then show ?thesis using 1(2,3) by simp
  next
    case False
    then have "max_bits m k = max_bits m (k + 1)" by (simp add: max_bits.simps [of m k])
    then show ?thesis using 1 False by (cases "j = k") simp_all
  qed
qed

lemma drop_bit_zero_iff: "drop_bit n m = 0 \<longleftrightarrow> unat m < 2 ^ n" for m :: u32
proof -
  have "drop_bit n m = 0 \<longleftrightarrow> unat (drop_bit n m) = 0" by (rule unat_eq_zero [symmetric])
  also have "\<dots> \<longleftrightarrow> unat m div 2 ^ n = 0" by (simp only: unat_drop_bit_eq) (simp only: drop_bit_eq_div)
  also have "\<dots> \<longleftrightarrow> unat m < 2 ^ n" by (simp add: div_eq_0_iff)
  finally show ?thesis .
qed

lemma shift_ok_iff: "vnc_shift_ok m shift bits \<longleftrightarrow> m \<noteq> 0 \<and> unat m * 2 ^ unat shift < 2 ^ unat bits"
proof -
  let ?n = "max_bits m 0"
  have less: "unat m < 2 ^ ?n" using max_bits_zero [of m 0] by (simp add: drop_bit_zero_iff)
  have "unat shift + ?n \<le> unat bits \<longleftrightarrow> unat m * 2 ^ unat shift < 2 ^ unat bits" if m: "m \<noteq> 0"
  proof
    assume le: "unat shift + ?n \<le> unat bits"
    have "unat m * 2 ^ unat shift < 2 ^ ?n * 2 ^ unat shift" using less by simp
    also have "\<dots> = 2 ^ (unat shift + ?n)" by (simp add: power_add mult.commute)
    also have "\<dots> \<le> 2 ^ unat bits" using le by simp
    finally show "unat m * 2 ^ unat shift < 2 ^ unat bits" .
  next
    assume less': "unat m * 2 ^ unat shift < 2 ^ unat bits"
    have n: "0 < ?n" using less m by (cases ?n) (simp_all add: unat_eq_zero)
    then have "drop_bit (?n - 1) m \<noteq> 0" by (intro max_bits_nonzero [of 0]) simp_all
    then have "2 ^ (?n - 1) * 2 ^ unat shift \<le> unat m * 2 ^ unat shift" by (simp add: drop_bit_zero_iff)
    then have "2 ^ (?n - 1 + unat shift) < (2 :: nat) ^ unat bits"
      using less' unfolding power_add by (rule le_less_trans)
    then show "unat shift + ?n \<le> unat bits" using n by simp
  qed
  then show ?thesis unfolding vnc_shift_ok_def by blast
qed

lemma channel_shift:
  assumes "channel_fits m shift bits" and "bits \<in> {8, 16, 32}"
  shows "unat shift < 32"
proof -
  have "unat bits \<le> 32" using assms(2) by auto
  then have "(2 :: nat) ^ unat bits \<le> 2 ^ 32" by (rule power_increasing) simp
  moreover have "2 ^ unat shift \<le> unat m * 2 ^ unat shift"
    using assms(1) by (simp add: channel_fits_def unat_gt_0 Suc_le_eq)
  ultimately have "(2 :: nat) ^ unat shift < 2 ^ 32" using assms(1) unfolding channel_fits_def by linarith
  then show ?thesis by (rule power_less_imp_less_exp [rotated]) simp
qed

text \<open>The channel_scale channel: rounded to the nearest multiple of one over the maximum.\<close>

definition channel_scale :: "u32 \<Rightarrow> nat \<Rightarrow> nat" where
  "channel_scale m v = (v * unat m + 127) div 255"

lemma channel_scale_le: "v < 256 \<Longrightarrow> channel_scale m v \<le> unat m"
proof -
  assume v: "v < 256"
  then have "v * unat m \<le> 255 * unat m" by (intro mult_right_mono) simp_all
  then have "channel_scale m v \<le> (255 * unat m + 127) div 255" unfolding channel_scale_def by (intro div_le_mono) simp
  also have "\<dots> = unat m" by simp
  finally show ?thesis .
qed

lemma channel_scale_word:
  assumes "v < 256" and "unat m < 65536"
  shows "unat ((of_nat v * m + 127) div 255 :: u32) = channel_scale m v"
proof -
  have le: "v * unat m \<le> 255 * 65535" using assms by (intro mult_mono) simp_all
  have uv: "unat (of_nat v :: u32) = v" using assms(1) by (intro u32_of_nat) simp
  have "unat (of_nat v * m :: u32) = v * unat m"
    unfolding unat_word_ariths uv using le by simp
  then have "unat (of_nat v * m + 127 :: u32) = v * unat m + 127"
    using le by (subst u32_add) simp_all
  then show ?thesis by (simp add: unat_div channel_scale_def)
qed

lemma channel_value:
  assumes "channel_fits m shift bits" and "bits \<in> {8, 16, 32}" and "v < 256"
  shows "unat (push_bit (unat shift) ((of_nat v * m + 127) div 255 :: u32)) = channel_scale m v * 2 ^ unat shift"
    and "channel_scale m v * 2 ^ unat shift < 2 ^ unat bits"
proof -
  have m: "unat m < 65536" "unat m * 2 ^ unat shift < 2 ^ unat bits" using assms(1) by (simp_all add: channel_fits_def)
  show less: "channel_scale m v * 2 ^ unat shift < 2 ^ unat bits"
    using channel_scale_le [OF assms(3), of m] m(2) by (meson le_less_trans mult_le_mono1)
  have "unat bits \<le> 32" using assms(2) by auto
  then have "(2 :: nat) ^ unat bits \<le> 2 ^ 32" by (rule power_increasing) simp
  then have "channel_scale m v * 2 ^ unat shift < 2 ^ 32" using less by linarith
  then show "unat (push_bit (unat shift) ((of_nat v * m + 127) div 255 :: u32)) = channel_scale m v * 2 ^ unat shift"
    unfolding unsigned_push_bit_eq channel_scale_word [OF assms(3) m(1)]
    by (simp add: take_bit_nat_eq_self push_bit_eq_mult)
qed

subsection \<open>Tables\<close>

definition channel :: "u32 \<Rightarrow> u8 \<Rightarrow> u32 \<Rightarrow> u32" where
  "channel m shift v = push_bit (unat shift) ((v * m + 127) div 255)"

lemma colour_table_eq:
  "unat shift < 32 \<Longrightarrow> colour_table m shift = Some (map (\<lambda>v. channel m shift (of_nat v)) [0..<256])"
  unfolding colour_table_def channel_def by (rule those_map) (simp add: shl32_def)

lemma format_shifts:
  assumes "format_ok f"
  shows "unat (red_shift f) < 32" "unat (green_shift f) < 32" "unat (blue_shift f) < 32"
  using assms channel_shift unfolding format_ok_def by blast+

definition used_word :: "vnc_format \<Rightarrow> u32" where
  "used_word f = push_bit (unat (red_shift f)) (red_max f) OR
     push_bit (unat (green_shift f)) (green_max f) OR push_bit (unat (blue_shift f)) (blue_max f)"

lemma used_bits_eq: "format_ok f \<Longrightarrow> used_bits f = Some (used_word f)"
  using format_shifts [of f] by (simp add: used_bits_def used_word_def shl32_def or.assoc)

definition cpixel_of :: "vnc_format \<Rightarrow> nat \<times> nat" where
  "cpixel_of f =
     (if true_colour f \<noteq> 0 \<and> bpp f = 32 \<and> depth f \<le> 24 \<and> used_word f AND 0xff000000 = 0
      then (3, if big_endian f \<noteq> 0 then 1 else 0)
      else if true_colour f \<noteq> 0 \<and> bpp f = 32 \<and> depth f \<le> 24 \<and> used_word f AND 0xff = 0
      then (3, if big_endian f \<noteq> 0 then 0 else 1)
      else (unat (bpp f) div 8, 0))"

text \<open>What \<open>vnc_build_tables\<close> makes of an accepted format.\<close>

definition px_of :: "vnc_format \<Rightarrow> vnc_px" where
  "px_of f = \<lparr>px_format = f,
     red_table = map (\<lambda>v. channel (red_max f) (red_shift f) (of_nat v)) [0..<256],
     green_table = map (\<lambda>v. channel (green_max f) (green_shift f) (of_nat v)) [0..<256],
     blue_table = map (\<lambda>v. channel (blue_max f) (blue_shift f) (of_nat v)) [0..<256],
     pixel_bytes = unat (bpp f) div 8, cpixel_bytes = fst (cpixel_of f), cpixel_skip = snd (cpixel_of f)\<rparr>"

lemma build_tables_eq: "format_ok f \<Longrightarrow> vnc_build_tables f = Some (px_of f)"
  using format_shifts [of f] used_bits_eq [of f]
  by (simp add: vnc_build_tables_def colour_table_eq cpixel_layout_def px_of_def cpixel_of_def Let_def)

text \<open>The pixel value of a screen colour.\<close>

definition pixel_of :: "vnc_format \<Rightarrow> u32 \<Rightarrow> u32" where
  "pixel_of f native =
     channel (red_max f) (red_shift f) (drop_bit 16 native AND 0xff) OR
     channel (green_max f) (green_shift f) (drop_bit 8 native AND 0xff) OR
     channel (blue_max f) (blue_shift f) (native AND 0xff)"

lemma translate_eq: "vnc_translate (px_of f) native = Some (pixel_of f native)"
proof -
  have less: "unat (x AND 0xff) < 256" for x :: u32 unfolding unat_and_0xff by simp
  have idx: "rd (map (\<lambda>v. channel m s (of_nat v)) [0..<256]) (unat (x AND 0xff)) = Some (channel m s (x AND 0xff))"
    for m s and x :: u32
    using less [of x] by (simp add: rd_def)
  show ?thesis by (simp add: vnc_translate_def px_of_def pixel_of_def idx or.assoc)
qed

lemma or_less:
  fixes a b :: u32
  assumes "unat a < 2 ^ n" and "unat b < 2 ^ n"
  shows "unat (a OR b) < 2 ^ n"
  using assms unfolding drop_bit_zero_iff [symmetric] drop_bit_or by simp

lemma pixel_fits:
  assumes "format_ok f"
  shows "unat (pixel_of f native) < 2 ^ unat (bpp f)"
proof -
  have ch: "unat (channel m s (x AND 0xff)) < 2 ^ unat (bpp f)"
    if "channel_fits m s (bpp f)" for m s and x :: u32
  proof -
    have "unat (x AND 0xff) < 256" unfolding unat_and_0xff by simp
    then show ?thesis
      using channel_value [OF that, of "unat (x AND 0xff)"] assms by (simp add: channel_def format_ok_def)
  qed
  show ?thesis using assms unfolding pixel_of_def format_ok_def by (intro or_less ch) simp_all
qed

subsection \<open>Reading the wire\<close>

definition wire_value :: "bytes \<Rightarrow> u32" where
  "wire_value bs = foldl (\<lambda>v b. push_bit 8 v OR ucast b) 0 bs"

text \<open>A pixel as the protocol defines it: most significant byte first or last.\<close>

definition read_pixel :: "vnc_format \<Rightarrow> bytes \<Rightarrow> u32" where
  "read_pixel f bs = wire_value (if big_endian f \<noteq> 0 then bs else rev bs)"

definition three_bytes :: "vnc_format \<Rightarrow> bool" where
  "three_bytes f \<longleftrightarrow> true_colour f \<noteq> 0 \<and> bpp f = 32 \<and> depth f \<le> 24"

text \<open>CPIXEL, as the protocol defines it: three bytes where the channels leave the top or the bottom
  byte of a 32-bit pixel free.\<close>

definition read_cpixel :: "vnc_format \<Rightarrow> bytes \<Rightarrow> u32" where
  "read_cpixel f bs =
     (if three_bytes f \<and> unat (used_word f) < 2 ^ 24 then read_pixel f bs
      else if three_bytes f \<and> used_word f AND 0xff = 0 then push_bit 8 (read_pixel f bs)
      else read_pixel f bs)"

definition cpixel_width :: "vnc_format \<Rightarrow> nat" where
  "cpixel_width f =
     (if three_bytes f \<and> (unat (used_word f) < 2 ^ 24 \<or> used_word f AND 0xff = 0) then 3
      else unat (bpp f) div 8)"

lemma bit_small: "unat v < 2 ^ n \<Longrightarrow> n \<le> k \<Longrightarrow> \<not> bit v k" for v :: u32
  using bit_drop_bit_eq [of n v] by (auto simp: drop_bit_zero_iff [symmetric] fun_eq_iff dest: spec [of _ "k - n"])

lemma length_store_pixel:
  "format_ok f \<Longrightarrow> length (vnc_store_pixel (px_of f) v) = unat (bpp f) div 8"
  by (auto simp: format_ok_def vnc_store_pixel_def px_of_def vnc_put32_def)

lemma four_bytes:
  "wire_value [ucast (drop_bit 24 v), ucast (drop_bit 16 v), ucast (drop_bit 8 v), ucast v] = v"
proof (rule bit_word_eqI)
  fix n assume "n < LENGTH(32)"
  then show "bit (wire_value [ucast (drop_bit 24 v), ucast (drop_bit 16 v), ucast (drop_bit 8 v), ucast v]) n = bit v n"
    by (cases "24 \<le> n"; cases "16 \<le> n"; cases "8 \<le> n") (auto simp: wire_value_def bit_simps)
qed

lemma put32_bytes: "vnc_put32 v = [ucast (drop_bit 24 v), ucast (drop_bit 16 v), ucast (drop_bit 8 v), ucast v]"
  by (auto simp: vnc_put32_def and_0xff intro!: bit_word_eqI) (auto simp: bit_simps)

lemma read_stored:
  assumes "format_ok f" and "unat v < 2 ^ unat (bpp f)"
  shows "read_pixel f (vnc_store_pixel (px_of f) v) = v"
proof -
  consider "bpp f = 8" | "bpp f = 16" | "bpp f = 32" using assms(1) by (auto simp: format_ok_def)
  then show ?thesis
  proof cases
    case 1
    have "wire_value [ucast v] = v"
    proof (rule bit_word_eqI)
      fix n assume "n < LENGTH(32)"
      then show "bit (wire_value [ucast v]) n = bit v n"
        using bit_small [of v 8 n] assms(2) 1 by (cases "8 \<le> n") (auto simp: wire_value_def bit_simps)
    qed
    then show ?thesis using 1 by (simp add: read_pixel_def vnc_store_pixel_def px_of_def)
  next
    case 2
    have "wire_value [ucast (drop_bit 8 v), ucast v] = v"
    proof (rule bit_word_eqI)
      fix n assume "n < LENGTH(32)"
      then show "bit (wire_value [ucast (drop_bit 8 v), ucast v]) n = bit v n"
        using bit_small [of v 16 n] assms(2) 2
        by (cases "16 \<le> n"; cases "8 \<le> n") (auto simp: wire_value_def bit_simps)
    qed
    then show ?thesis using 2 by (simp add: read_pixel_def vnc_store_pixel_def px_of_def)
  next
    case 3
    then show ?thesis by (simp add: read_pixel_def vnc_store_pixel_def px_of_def put32_bytes four_bytes)
  qed
qed

subsection \<open>CPIXEL\<close>

text \<open>Maxima of the form \<open>2 ^ n - 1\<close>, which the protocol demands of a viewer.\<close>

definition maxima_ok :: "vnc_format \<Rightarrow> bool" where
  "maxima_ok f \<longleftrightarrow> (\<forall>m \<in> {red_max f, green_max f, blue_max f}. \<exists>n \<le> 16. m = mask n)"

lemma used_low_iff: "unat (used_word f) < 2 ^ 24 \<longleftrightarrow> used_word f AND 0xff000000 = 0"
proof -
  have "bit (0xff000000 :: u32) n \<longleftrightarrow> 24 \<le> n \<and> n < 32" for n
  proof -
    have "(0xff000000 :: u32) = push_bit 24 (mask 8)" by (simp add: mask_eq_exp_minus_1)
    then show ?thesis by (simp only: bit_push_bit_iff bit_mask_iff) auto
  qed
  then have top_byte: "bit (used_word f AND 0xff000000) n \<longleftrightarrow> 24 \<le> n \<and> bit (used_word f) n" for n
    using bit_imp_le_length [of "used_word f" n] by (auto simp: bit_and_iff)
  have "used_word f AND 0xff000000 = 0 \<longleftrightarrow> drop_bit 24 (used_word f) = 0"
  proof
    assume z: "used_word f AND 0xff000000 = 0"
    show "drop_bit 24 (used_word f) = 0"
      using top_byte [of "24 + n" for n] unfolding z by (intro bit_word_eqI) (simp add: bit_drop_bit_eq)
  next
    assume "drop_bit 24 (used_word f) = 0"
    then have "unat (used_word f) < 2 ^ 24" by (simp only: drop_bit_zero_iff)
    then have "\<not> bit (used_word f AND 0xff000000) n" for n using bit_small [of "used_word f" 24 n] top_byte by blast
    then show "used_word f AND 0xff000000 = 0" by (intro bit_word_eqI) simp
  qed
  then show ?thesis by (simp add: drop_bit_zero_iff)
qed

lemma px_cpixel:
  "cpixel_of f = (if three_bytes f \<and> unat (used_word f) < 2 ^ 24 then (3, if big_endian f \<noteq> 0 then 1 else 0)
     else if three_bytes f \<and> used_word f AND 0xff = 0 then (3, if big_endian f \<noteq> 0 then 0 else 1)
     else (unat (bpp f) div 8, 0))"
  unfolding used_low_iff by (auto simp: cpixel_of_def three_bytes_def)

lemma channel_bits:
  assumes "channel_fits (mask n) shift bits" and "bits \<in> {8, 16, 32}" and "n \<le> 16"
    and "bit (channel (mask n) shift (x AND 0xff)) k"
  shows "bit (push_bit (unat shift) (mask n :: u32)) k"
proof -
  let ?v = "unat (x AND 0xff)"
  have v: "?v < 256" unfolding unat_and_0xff by simp
  have k: "unat shift \<le> k" "k < 32" "bit (((x AND 0xff) * mask n + 127) div 255) (k - unat shift)"
    using assms(4) by (auto simp: channel_def bit_push_bit_iff dest: bit_imp_le_length)
  have "unat (mask n :: u32) = 2 ^ n - 1"
  proof -
    have "(2 :: nat) ^ n \<le> 2 ^ 16" using assms(3) by (rule power_increasing) simp
    then have "unat (of_nat (2 ^ n - 1) :: u32) = 2 ^ n - 1" by (intro u32_of_nat) simp
    moreover have "(mask n :: u32) = of_nat (2 ^ n - 1)"
      using of_nat_mask_eq [of n, where 'a = u32] by (simp only: mask_eq_exp_minus_1)
    ultimately show ?thesis by (simp only:)
  qed
  then have "channel_scale (mask n) ?v < 2 ^ n" using channel_scale_le [OF v, of "mask n"] by (simp add: le_less_trans)
  then have "unat (((x AND 0xff) * mask n + 127) div 255) < 2 ^ n"
    using channel_scale_word [OF v, of "mask n"] assms(1) by (simp add: channel_fits_def)
  then have "k - unat shift < n" using bit_small [of _ n] k(3) by (metis not_less)
  then show ?thesis using k assms(3) by (auto simp: bit_push_bit_iff bit_mask_iff)
qed

lemma pixel_bits:
  assumes "format_ok f" and "maxima_ok f" and "bit (pixel_of f native) k"
  shows "bit (used_word f) k"
proof -
  obtain r g b where m: "red_max f = mask r" "green_max f = mask g" "blue_max f = mask b" "r \<le> 16" "g \<le> 16" "b \<le> 16"
    using assms(2) by (auto simp: maxima_ok_def)
  show ?thesis
    using assms(1,3) channel_bits [of r "red_shift f" "bpp f"] channel_bits [of g "green_shift f" "bpp f"]
      channel_bits [of b "blue_shift f" "bpp f"] m
    unfolding pixel_of_def used_word_def format_ok_def bit_or_iff by metis
qed

text \<open>The bytes ZRLE sends for a pixel are the CPIXEL a viewer reads that pixel from.\<close>

lemma read_cpixel_stored:
  fixes native :: u32
  assumes "format_ok f" and "maxima_ok f"
  defines "bs \<equiv> take (fst (cpixel_of f)) (drop (snd (cpixel_of f)) (vnc_store_pixel (px_of f) (pixel_of f native)))"
  shows "length bs = cpixel_width f" and "read_cpixel f bs = pixel_of f native"
    and "snd (cpixel_of f) + fst (cpixel_of f) \<le> unat (bpp f) div 8"
proof -
  let ?v = "pixel_of f native"
  have bytes: "vnc_store_pixel (px_of f) ?v =
      (let w = [ucast (drop_bit 24 ?v), ucast (drop_bit 16 ?v), ucast (drop_bit 8 ?v), ucast ?v]
       in if big_endian f \<noteq> 0 then w else rev w)" if "three_bytes f"
    using that by (auto simp: three_bytes_def vnc_store_pixel_def px_of_def put32_bytes)
  have b32: "bpp f = 32" if "three_bytes f" using that by (simp add: three_bytes_def)
  consider (low) "three_bytes f" "unat (used_word f) < 2 ^ 24"
    | (high) "three_bytes f" "\<not> unat (used_word f) < 2 ^ 24" "used_word f AND 0xff = 0"
    | (all) "\<not> (three_bytes f \<and> (unat (used_word f) < 2 ^ 24 \<or> used_word f AND 0xff = 0))" by blast
  then have "length bs = cpixel_width f \<and> read_cpixel f bs = ?v \<and>
      snd (cpixel_of f) + fst (cpixel_of f) \<le> unat (bpp f) div 8"
  proof cases
    case low
    have "\<not> bit ?v n" if "24 \<le> n" for n
      using pixel_bits [OF assms(1,2), of native n] bit_small [OF low(2) that] by blast
    then have "wire_value [ucast (drop_bit 16 ?v), ucast (drop_bit 8 ?v), ucast ?v] = ?v"
      by (intro bit_word_eqI, case_tac "24 \<le> n"; case_tac "16 \<le> n"; case_tac "8 \<le> n")
        (auto simp: wire_value_def bit_simps)
    then show ?thesis
      using low b32 bytes by (auto simp: bs_def px_cpixel cpixel_width_def read_cpixel_def read_pixel_def)
  next
    case high
    have "\<not> bit (used_word f) n" if "n < 8" for n
    proof -
      have "bit (used_word f AND 0xff) n \<longleftrightarrow> bit (used_word f) n"
        unfolding and_0xff bit_take_bit_iff using that by simp
      then show ?thesis using high(3) by simp
    qed
    then have "\<not> bit ?v n" if "n < 8" for n
      using pixel_bits [OF assms(1,2), of native n] that by blast
    then have "push_bit 8 (wire_value [ucast (drop_bit 24 ?v), ucast (drop_bit 16 ?v), ucast (drop_bit 8 ?v)]) = ?v"
      by (intro bit_word_eqI, case_tac "24 \<le> n"; case_tac "16 \<le> n"; case_tac "8 \<le> n")
        (auto simp: wire_value_def bit_simps)
    then show ?thesis
      using high b32 bytes by (auto simp: bs_def px_cpixel cpixel_width_def read_cpixel_def read_pixel_def)
  next
    case all
    have "read_pixel f (vnc_store_pixel (px_of f) ?v) = ?v"
      by (rule read_stored [OF assms(1) pixel_fits [OF assms(1)]])
    then show ?thesis
      using all length_store_pixel [OF assms(1)]
      by (auto simp: bs_def px_cpixel cpixel_width_def read_cpixel_def)
  qed
  then show "length bs = cpixel_width f" "read_cpixel f bs = ?v"
    "snd (cpixel_of f) + fst (cpixel_of f) \<le> unat (bpp f) div 8" by simp_all
qed

subsection \<open>The format a viewer asks for\<close>

lemma read_u16:
  assumes "i + 2 \<le> length bs"
  shows "\<exists>v. vnc_u16 bs i = Some v \<and> unat v < 65536"
proof -
  let ?v = "push_bit 8 (ucast (bs ! i)) OR ucast (bs ! (i + 1)) :: u32"
  have "drop_bit 16 ?v = 0" by (rule bit_word_eqI) (auto simp: bit_simps)
  then have "unat ?v < 2 ^ 16" by (simp only: drop_bit_zero_iff)
  then show ?thesis using assms by (simp add: vnc_u16_def rd_def)
qed

lemma read_format_total:
  assumes "16 \<le> length body"
  obtains f where "read_format body = Some f" "unat (red_max f) < 65536" "unat (green_max f) < 65536"
    "unat (blue_max f) < 65536"
proof -
  obtain r g b where "vnc_u16 body 4 = Some r" "unat r < 65536" "vnc_u16 body 6 = Some g" "unat g < 65536"
      "vnc_u16 body 8 = Some b" "unat b < 65536"
    using read_u16 [of 4 body] read_u16 [of 6 body] read_u16 [of 8 body] assms by auto
  moreover have "rd body 0 = Some (body ! 0)" by (rule rd_Some) (use assms in linarith)
  ultimately show ?thesis using assms that by (simp add: read_format_def rd_Some)
qed

lemma colour_map_ok: "bpp f = 8 \<Longrightarrow> format_ok (colour_map_format f)"
  by (simp add: format_ok_def colour_map_format_def channel_fits_def)

lemma default_ok: "format_ok default_format"
  by (simp add: format_ok_def default_format_def channel_fits_def)

text \<open>
  C17. A viewer's SetPixelFormat: whatever the sixteen bytes are, the server accepts exactly the
  colour-map format of 8 bits and the true-colour formats of 8, 16 or 32 bits whose channels, shifted
  into place, fit the pixel. For an accepted format no table entry needs an undefined shift, every
  screen colour has a pixel value - each channel rounded to the nearest step - and the viewer reads
  exactly this value from the bytes stored for it.
\<close>

theorem vnc_set_format_sound:
  assumes "16 \<le> length body"
  shows "\<exists>f. read_format body = Some f \<and>
    wanted_format body = Some (if true_colour f \<noteq> 0 \<and> format_ok f then Some f
      else if true_colour f = 0 \<and> bpp f = 8 then Some (colour_map_format f) else None) \<and>
    (\<forall>g. wanted_format body = Some (Some g) \<longrightarrow>
      vnc_build_tables g = Some (px_of g) \<and>
      (\<forall>native. vnc_translate (px_of g) native = Some (pixel_of g native) \<and>
        length (vnc_store_pixel (px_of g) (pixel_of g native)) = unat (bpp g) div 8 \<and>
        read_pixel g (vnc_store_pixel (px_of g) (pixel_of g native)) = pixel_of g native))"
proof -
  obtain f where f: "read_format body = Some f" "unat (red_max f) < 65536" "unat (green_max f) < 65536"
      "unat (blue_max f) < 65536"
    by (rule read_format_total [OF assms])
  have w: "wanted_format body = Some (if true_colour f \<noteq> 0 \<and> format_ok f then Some f
      else if true_colour f = 0 \<and> bpp f = 8 then Some (colour_map_format f) else None)"
  proof -
    have "vnc_shift_ok m shift (bpp f) \<longleftrightarrow> channel_fits m shift (bpp f)" if "unat m < 65536" for m shift
      using that by (simp add: shift_ok_iff channel_fits_def)
    then have "format_ok f \<longleftrightarrow> bpp f \<in> {8, 16, 32} \<and> vnc_shift_ok (red_max f) (red_shift f) (bpp f) \<and>
        vnc_shift_ok (green_max f) (green_shift f) (bpp f) \<and> vnc_shift_ok (blue_max f) (blue_shift f) (bpp f)"
      using f(2-4) by (simp add: format_ok_def)
    then show ?thesis using f(1) by (simp add: wanted_format_def)
  qed
  have ok: "format_ok g" if "wanted_format body = Some (Some g)" for g
    using that w colour_map_ok by (auto split: if_splits)
  show ?thesis
  proof (rule exI [of _ f], intro conjI allI impI)
    fix g native assume "wanted_format body = Some (Some g)"
    then have g: "format_ok g" by (rule ok)
    then show "vnc_build_tables g = Some (px_of g)" by (rule build_tables_eq)
    show "vnc_translate (px_of g) native = Some (pixel_of g native)" by (rule translate_eq)
    show "length (vnc_store_pixel (px_of g) (pixel_of g native)) = unat (bpp g) div 8"
      by (rule length_store_pixel [OF g])
    show "read_pixel g (vnc_store_pixel (px_of g) (pixel_of g native)) = pixel_of g native"
      by (rule read_stored [OF g pixel_fits [OF g]])
  qed (rule f(1), rule w)
qed

lemma vnc_set_format_sound_witness:
  "\<exists>f. read_format (vnc_write_format default_format) = Some f \<and>
    wanted_format (vnc_write_format default_format) =
      Some (if true_colour f \<noteq> 0 \<and> format_ok f then Some f
        else if true_colour f = 0 \<and> bpp f = 8 then Some (colour_map_format f) else None) \<and>
    (\<forall>g. wanted_format (vnc_write_format default_format) = Some (Some g) \<longrightarrow>
      vnc_build_tables g = Some (px_of g) \<and>
      (\<forall>native. vnc_translate (px_of g) native = Some (pixel_of g native) \<and>
        length (vnc_store_pixel (px_of g) (pixel_of g native)) = unat (bpp g) div 8 \<and>
        read_pixel g (vnc_store_pixel (px_of g) (pixel_of g native)) = pixel_of g native))"
  by (rule vnc_set_format_sound) (simp add: vnc_write_format_def vnc_put16_def)

end
