(* ===== verification/VncFrame.thy ===== *)
theory VncFrame
  imports Loops
begin

section \<open>Capture and comparison of frames\<close>

text \<open>
  Models the sampled capture and the tile comparison of \<^verbatim>\<open>src/guest/vnc.c\<close>: \<open>vs_bits\<close> is the
  DIB section the screen is read into, \<open>vs_prev\<close> the previous frame, which mirrors what the viewer
  shows; both are row-major. The byte flags of the tiles are booleans. GDI is an input: \<open>blit\<close> is
  what one \<^verbatim>\<open>BitBlt\<close> from the screen makes of the DIB, \<open>None\<close> when it fails; \<open>pointer\<close> is what
  \<^verbatim>\<open>GetCursorInfo\<close> reports, and \<open>draw\<close> what \<^verbatim>\<open>DrawIconEx\<close> makes of the DIB. Sizes are at most
  4096, so no product overflows. \<open>None\<close> is an access outside a buffer.
\<close>

definition VNC_TILE :: nat where "VNC_TILE = 16"

definition VNC_MAX_DIM :: nat where "VNC_MAX_DIM = 4096"

definition VNC_MAX_TILES :: nat where
  "VNC_MAX_TILES = (VNC_MAX_DIM div VNC_TILE) * (VNC_MAX_DIM div VNC_TILE)"

record vnc_screen =
  vs_bits :: "u32 list"
  vs_prev :: "u32 list"
  vs_width :: nat
  vs_height :: nat
  vs_tiles_x :: nat
  vs_tiles_y :: nat
  vs_dirty :: "bool list"
  vs_read_mask :: "bool list"
  vs_suspect :: "bool list"
  vs_full :: bool
  vs_step :: nat
  vs_rich :: bool
  vs_area :: "(int \<times> int \<times> int \<times> int) option"

type_synonym blit = "u32 list \<Rightarrow> nat \<Rightarrow> nat \<Rightarrow> nat \<Rightarrow> nat \<Rightarrow> u32 list option"

subsection \<open>The sampled capture\<close>

definition vnc_sample_order :: "nat list" where
  "vnc_sample_order = [0, 8, 4, 12, 2, 10, 6, 14, 1, 9, 5, 13, 3, 11, 7, 15]"

definition vnc_suspect_rect :: "int \<Rightarrow> int \<Rightarrow> int \<Rightarrow> int \<Rightarrow> vnc_screen \<Rightarrow> vnc_screen option" where
  "vnc_suspect_rect left upper right lower s =
     (let left = max left 0; upper = max upper 0;
          right = min right (int (vs_width s)); lower = min lower (int (vs_height s))
      in
      if left \<ge> right \<or> upper \<ge> lower then Some s
      else
        let y0 = nat left div VNC_TILE; y1 = nat (right - 1) div VNC_TILE;
            t0 = nat upper div VNC_TILE; t1 = nat (lower - 1) div VNC_TILE
        in do {
          suspect \<leftarrow> for_up t0 (t1 + 1 - t0) (\<lambda>tile_y suspect.
            for_up y0 (y1 + 1 - y0) (\<lambda>tile_x suspect.
              wr suspect (tile_y * vs_tiles_x s + tile_x) True) suspect) (vs_suspect s);
          Some (s\<lparr>vs_suspect := suspect\<rparr>) })"

text \<open>The row a band samples; the last band may be cut.\<close>

definition sample_row :: "vnc_screen \<Rightarrow> nat \<Rightarrow> nat \<Rightarrow> nat" where
  "sample_row s phase band =
     (let row = band * VNC_TILE + phase in if row \<ge> vs_height s then vs_height s - 1 else row)"

definition sample_rows :: "blit \<Rightarrow> nat \<Rightarrow> vnc_screen \<Rightarrow> (vnc_screen, unit, unit) outcome" where
  "sample_rows blit phase s =
     for_out 0 (vs_tiles_y s) (\<lambda>band s.
       case blit (vs_bits s) 0 (sample_row s phase band) (vs_width s) 1 of
         None \<Rightarrow> Some (s, Inl ())
       | Some bits \<Rightarrow> Some (s\<lparr>vs_bits := bits\<rparr>, Inr ())) s"

definition suspect_tile :: "nat \<Rightarrow> nat \<Rightarrow> nat \<Rightarrow> vnc_screen \<Rightarrow> vnc_screen option" where
  "suspect_tile phase band tile_x s =
     (let row = sample_row s phase band;
          x0 = tile_x * VNC_TILE;
          x1 = (if x0 + VNC_TILE > vs_width s then vs_width s else x0 + VNC_TILE);
          index = band * vs_tiles_x s + tile_x
      in do {
        dirty \<leftarrow> rd (vs_dirty s) index;
        changed \<leftarrow> (if dirty then Some True
          else any_up x0 (x1 - x0) (\<lambda>x. do {
            now \<leftarrow> rd (vs_bits s) (row * vs_width s + x);
            old \<leftarrow> rd (vs_prev s) (row * vs_width s + x);
            Some (now \<noteq> old) }));
        if changed then do {
          suspect \<leftarrow> wr (vs_suspect s) index True;
          Some (s\<lparr>vs_suspect := suspect\<rparr>) }
        else Some s })"

definition suspect_tiles :: "nat \<Rightarrow> vnc_screen \<Rightarrow> vnc_screen option" where
  "suspect_tiles phase s =
     for_up 0 (vs_tiles_y s) (\<lambda>band. for_up 0 (vs_tiles_x s) (suspect_tile phase band)) s"

text \<open>A cursor drawn into the frame: where it was and where it is now.\<close>

definition suspect_cursor :: "(int \<times> int) option \<Rightarrow> vnc_screen \<Rightarrow> vnc_screen option" where
  "suspect_cursor pointer s =
     (if vs_rich s then Some s
      else do {
        s \<leftarrow> (case vs_area s of None \<Rightarrow> Some s
               | Some (l, t, r, b) \<Rightarrow> vnc_suspect_rect l t r b s);
        case pointer of None \<Rightarrow> Some s
        | Some (x, y) \<Rightarrow>
            vnc_suspect_rect (x - 32) (y - 32) (x + 32) (y + 32)
              (s\<lparr>vs_area := Some (x - 32, y - 32, x + 32, y + 32)\<rparr>) })"

text \<open>The length of the run of suspect tiles from \<open>tile_x\<close> on, once the first of them is known.\<close>

function suspect_run :: "bool list \<Rightarrow> nat \<Rightarrow> nat \<Rightarrow> nat \<Rightarrow> nat \<Rightarrow> nat option" where
  "suspect_run flags base tile_x count run =
     (if tile_x + run < count then do {
        b \<leftarrow> rd flags (base + tile_x + run);
        if b then suspect_run flags base tile_x count (run + 1) else Some run }
      else Some run)"
  by pat_completeness auto
termination
  by (relation "measure (\<lambda>(_, _, tile_x, count, run). count - (tile_x + run))") auto

declare suspect_run.simps [simp del]

text \<open>One band, from tile \<open>tile_x\<close> on: each run of suspect tiles is read with one call. A run is at
  least one tile long, so the loop moves on; \<open>None\<close> would be a run of length 0.\<close>

function read_band :: "blit \<Rightarrow> nat \<Rightarrow> nat \<Rightarrow> vnc_screen \<Rightarrow> (vnc_screen, unit, unit) outcome" where
  "read_band blit band tile_x s =
     (if tile_x < vs_tiles_x s then do {
        first \<leftarrow> rd (vs_suspect s) (band * vs_tiles_x s + tile_x);
        if \<not> first then read_band blit band (tile_x + 1) s
        else do {
          run \<leftarrow> suspect_run (vs_suspect s) (band * vs_tiles_x s) tile_x (vs_tiles_x s) 1;
          let y0 = band * VNC_TILE;
          let height = (if y0 + VNC_TILE > vs_height s then vs_height s - y0 else VNC_TILE);
          let x0 = tile_x * VNC_TILE;
          let width = (if (tile_x + run) * VNC_TILE > vs_width s then vs_width s - x0 else run * VNC_TILE);
          case blit (vs_bits s) x0 y0 width height of
            None \<Rightarrow> Some (s, Inl ())
          | Some bits \<Rightarrow> do {
              mask \<leftarrow> for_up 0 run (\<lambda>index mask.
                wr mask (band * vs_tiles_x s + tile_x + index) True) (vs_read_mask s);
              if run = 0 then None
              else read_band blit band (tile_x + run) (s\<lparr>vs_bits := bits, vs_read_mask := mask\<rparr>) } } }
      else Some (s, Inr ()))"
  by pat_completeness auto
termination
  by (relation "measure (\<lambda>(_, _, tile_x, s). vs_tiles_x s - tile_x)") auto

declare read_band.simps [simp del]

definition vnc_capture_sampled :: "blit \<Rightarrow> (int \<times> int) option \<Rightarrow> vnc_screen \<Rightarrow> (vnc_screen, unit, unit) outcome" where
  "vnc_capture_sampled blit pointer s =
     do {
       phase \<leftarrow> rd vnc_sample_order (vs_step s mod 16);
       suspect \<leftarrow> for_up 0 (vs_tiles_x s * vs_tiles_y s) (\<lambda>i f. wr f i False) (vs_suspect s);
       let s = s\<lparr>vs_step := (vs_step s + 1) mod 2 ^ 32, vs_suspect := suspect\<rparr>;
       andthen (sample_rows blit phase s) (\<lambda>_ s. do {
         s \<leftarrow> suspect_tiles phase s;
         s \<leftarrow> suspect_cursor pointer s;
         for_out 0 (vs_tiles_y s) (\<lambda>band. read_band blit band 0) s }) }"

text \<open>\<^verbatim>\<open>vnc_capture\<close> after the size check and \<^verbatim>\<open>GetDC\<close>: \<open>Inl\<close> is the return value 0.\<close>

definition capture_read :: "blit \<Rightarrow> (int \<times> int) option \<Rightarrow> vnc_screen \<Rightarrow> (vnc_screen, unit, unit) outcome" where
  "capture_read blit pointer s =
     (let full = vs_full s; s = s\<lparr>vs_full := False\<rparr> in
      if full then
        (case blit (vs_bits s) 0 0 (vs_width s) (vs_height s) of
           None \<Rightarrow> Some (s, Inl ())
         | Some bits \<Rightarrow> do {
             mask \<leftarrow> for_up 0 (vs_tiles_x s * vs_tiles_y s) (\<lambda>index mask. wr mask index True) (vs_read_mask s);
             Some (s\<lparr>vs_bits := bits, vs_read_mask := mask\<rparr>, Inr ()) })
      else vnc_capture_sampled blit pointer s)"

text \<open>\<open>metrics\<close> is the size the system reports and \<open>screen\<close> whether \<^verbatim>\<open>GetDC\<close> gave a context; the
  result is the return value of the code.\<close>

definition vnc_capture ::
    "nat \<times> nat \<Rightarrow> bool \<Rightarrow> blit \<Rightarrow> (int \<times> int) option \<Rightarrow> (u32 list \<Rightarrow> u32 list) \<Rightarrow> vnc_screen \<Rightarrow>
     (vnc_screen \<times> int) option" where
  "vnc_capture metrics screen blit pointer draw s =
     (if metrics \<noteq> (vs_width s, vs_height s) then Some (s, - 1)
      else if \<not> screen then Some (s, 0)
      else do {
        (s, r) \<leftarrow> capture_read blit pointer s;
        case r of
          Inl _ \<Rightarrow> Some (s\<lparr>vs_full := True\<rparr>, 0)
        | Inr _ \<Rightarrow> if vs_rich s then Some (s\<lparr>vs_area := None\<rparr>, 1)
                   else Some (s\<lparr>vs_bits := draw (vs_bits s)\<rparr>, 1) })"

subsection \<open>The comparison\<close>

definition tile_side :: "nat \<Rightarrow> nat \<Rightarrow> nat" where
  "tile_side extent at = (if extent - at < VNC_TILE then extent - at else VNC_TILE)"

definition tile_differs :: "vnc_screen \<Rightarrow> nat \<Rightarrow> nat \<Rightarrow> nat \<Rightarrow> nat \<Rightarrow> bool option" where
  "tile_differs s x0 y0 width height =
     any_up 0 height (\<lambda>row.
       any_up 0 width (\<lambda>column. do {
         now \<leftarrow> rd (vs_bits s) ((y0 + row) * vs_width s + x0 + column);
         old \<leftarrow> rd (vs_prev s) ((y0 + row) * vs_width s + x0 + column);
         Some (now \<noteq> old) }))"

definition copy_tile :: "vnc_screen \<Rightarrow> nat \<Rightarrow> nat \<Rightarrow> nat \<Rightarrow> nat \<Rightarrow> u32 list option" where
  "copy_tile s x0 y0 width height =
     for_up 0 height (\<lambda>row prev. do {
       let offset = (y0 + row) * vs_width s + x0;
       source \<leftarrow> rds (vs_bits s) offset width;
       wrs prev offset source }) (vs_prev s)"

definition diff_tile :: "bool \<Rightarrow> nat \<Rightarrow> nat \<Rightarrow> vnc_screen \<times> nat \<Rightarrow> (vnc_screen \<times> nat) option" where
  "diff_tile everything tile_y tile_x = (\<lambda>(s, count).
     let index = tile_y * vs_tiles_x s + tile_x;
         y0 = tile_y * VNC_TILE; height = tile_side (vs_height s) y0;
         x0 = tile_x * VNC_TILE; width = tile_side (vs_width s) x0
     in do {
       was_read \<leftarrow> rd (vs_read_mask s) index;
       if \<not> everything \<and> \<not> was_read then do {
         dirty \<leftarrow> wr (vs_dirty s) index False;
         Some (s\<lparr>vs_dirty := dirty\<rparr>, count) }
       else do {
         mask \<leftarrow> wr (vs_read_mask s) index False;
         changed \<leftarrow> (if everything then Some True else tile_differs s x0 y0 width height);
         prev \<leftarrow> (if changed then copy_tile s x0 y0 width height else Some (vs_prev s));
         dirty \<leftarrow> wr (vs_dirty s) index changed;
         Some (s\<lparr>vs_read_mask := mask, vs_prev := prev, vs_dirty := dirty\<rparr>,
           if changed then count + 1 else count) } })"

definition vnc_diff :: "bool \<Rightarrow> vnc_screen \<Rightarrow> (vnc_screen \<times> nat) option" where
  "vnc_diff everything s =
     for_up 0 (vs_tiles_y s) (\<lambda>tile_y. for_up 0 (vs_tiles_x s) (diff_tile everything tile_y)) (s, 0)"

end
