(* ===== verification/VncFrameProps.thy ===== *)
theory VncFrameProps
  imports VncFrame
begin

section \<open>The previous frame and the screen\<close>

text \<open>
  The pixel \<open>p\<close> of a row-major image lies in the tile \<open>tile_of s p\<close>. The comparison makes the
  previous frame equal to the DIB on every tile it was told to look at, leaves it alone elsewhere,
  and marks exactly the tiles that changed. With the sampled capture before it, sixteen polls of a
  screen that stands still make the previous frame equal to the screen.
\<close>

subsection \<open>Rectangles and tiles\<close>

definition frame_ok :: "vnc_screen \<Rightarrow> bool" where
  "frame_ok s \<longleftrightarrow> 0 < vs_width s \<and> vs_width s \<le> VNC_MAX_DIM \<and> 0 < vs_height s \<and> vs_height s \<le> VNC_MAX_DIM \<and>
     vs_tiles_x s = (vs_width s + VNC_TILE - 1) div VNC_TILE \<and>
     vs_tiles_y s = (vs_height s + VNC_TILE - 1) div VNC_TILE \<and>
     length (vs_bits s) = vs_width s * vs_height s \<and> length (vs_prev s) = vs_width s * vs_height s \<and>
     length (vs_dirty s) = VNC_MAX_TILES \<and> length (vs_read_mask s) = VNC_MAX_TILES \<and>
     length (vs_suspect s) = VNC_MAX_TILES"

definition tile_of :: "vnc_screen \<Rightarrow> nat \<Rightarrow> nat" where
  "tile_of s p = p div vs_width s div VNC_TILE * vs_tiles_x s + p mod vs_width s div VNC_TILE"

definition in_rect :: "nat \<Rightarrow> nat \<Rightarrow> nat \<Rightarrow> nat \<Rightarrow> nat \<Rightarrow> nat \<Rightarrow> bool" where
  "in_rect w x y width height p \<longleftrightarrow> x \<le> p mod w \<and> p mod w < x + width \<and> y \<le> p div w \<and> p div w < y + height"

lemma row_range:
  fixes p :: nat
  assumes "x + n \<le> w"
  shows "y * w + x \<le> p \<and> p < y * w + x + n \<longleftrightarrow> p div w = y \<and> x \<le> p mod w \<and> p mod w < x + n"
proof
  assume p: "y * w + x \<le> p \<and> p < y * w + x + n"
  then obtain d where d: "p = y * w + d" "x \<le> d" "d < x + n"
    by (metis add_less_cancel_left group_cancel.add1 le_add_diff_inverse add_leD1 nat_add_left_cancel_le add.assoc)
  then have "d < w" using assms by simp
  then show "p div w = y \<and> x \<le> p mod w \<and> p mod w < x + n" using d by simp
next
  assume "p div w = y \<and> x \<le> p mod w \<and> p mod w < x + n"
  then show "y * w + x \<le> p \<and> p < y * w + x + n"
    using div_mult_mod_eq [of p w] by auto
qed

lemma row_bound: "y < h \<Longrightarrow> x + n \<le> w \<Longrightarrow> y * w + x + n \<le> w * (h :: nat)"
proof -
  assume "y < h" "x + n \<le> w"
  then have "y * w + (x + n) \<le> y * w + w" by simp
  also have "\<dots> = Suc y * w" by simp
  also have "\<dots> \<le> h * w" using \<open>y < h\<close> by (intro mult_le_mono1) simp
  finally show ?thesis by (simp add: mult.commute add.assoc)
qed

lemma nth_row_splice:
  assumes "length ys = n" "x + n \<le> w" "y < h" "length xs = w * h" "p < w * h"
  shows "splice xs (y * w + x) ys ! p =
    (if in_rect w x y n 1 p then ys ! (p - (y * w + x)) else xs ! p)"
proof -
  have "y * w + x + length ys \<le> length xs" using row_bound [OF assms(3,2)] assms by simp
  then show ?thesis
    using assms row_range [OF assms(2), of y p] by (auto simp: nth_splice in_rect_def)
qed

text \<open>A loop that copies the rows of a rectangle from one image to another.\<close>

lemma copy_rows:
  assumes len: "length src = w * h" "length xs = w * h" and fit: "x + n \<le> w" "y + m \<le> h"
    and step: "\<And>row t. row < m \<Longrightarrow> length t = w * h \<Longrightarrow>
      f row t = Some (splice t ((y + row) * w + x) (take n (drop ((y + row) * w + x) src)))"
  shows "\<exists>t. for_up 0 m f xs = Some t \<and> length t = w * h \<and>
    (\<forall>p < w * h. t ! p = (if in_rect w x y n m p then src ! p else xs ! p))"
proof -
  let ?inv = "\<lambda>j t. length t = w * h \<and> (\<forall>p < w * h. t ! p = (if in_rect w x y n j p then src ! p else xs ! p))"
  have "\<exists>t. for_up 0 m f xs = Some t \<and> ?inv (0 + m) t"
  proof (rule for_up_rule)
    show "?inv 0 xs" using len by (auto simp: in_rect_def)
    fix j t assume j: "j < 0 + m" and inv: "?inv j t"
    have y: "y + j < h" using j fit(2) by simp
    have row: "length (take n (drop ((y + j) * w + x) src)) = n"
      using row_bound [OF y fit(1)] len(1) by simp
    have "splice t ((y + j) * w + x) (take n (drop ((y + j) * w + x) src)) ! p =
        (if in_rect w x y n (Suc j) p then src ! p else xs ! p)" if p: "p < w * h" for p
    proof (cases "in_rect w x (y + j) n 1 p")
      case True
      then have "(y + j) * w + x \<le> p" "p < (y + j) * w + x + n"
        using row_range [OF fit(1), of "y + j" p] by (auto simp: in_rect_def)
      then show ?thesis
        using nth_row_splice [OF row fit(1) y, of t p] inv p True len(1) by (auto simp: in_rect_def)
    next
      case False
      then have "in_rect w x y n (Suc j) p = in_rect w x y n j p" by (auto simp: in_rect_def)
      then show ?thesis using nth_row_splice [OF row fit(1) y, of t p] inv p False by simp
    qed
    moreover have "length (splice t ((y + j) * w + x) (take n (drop ((y + j) * w + x) src))) = w * h"
      using inv row row_bound [OF y fit(1)] by simp
    ultimately show "\<exists>t'. f j t = Some t' \<and> ?inv (Suc j) t'" using step [of j t] j inv by simp
  qed
  then show ?thesis by simp
qed

lemma tile_fits:
  assumes "t < (n + VNC_TILE - 1) div VNC_TILE"
  shows "t * VNC_TILE < n" "t * VNC_TILE + tile_side n (t * VNC_TILE) \<le> n"
    "i < n \<Longrightarrow> t * VNC_TILE \<le> i \<and> i < t * VNC_TILE + tile_side n (t * VNC_TILE) \<longleftrightarrow> i div VNC_TILE = t"
  using assms by (auto simp: tile_side_def VNC_TILE_def)

lemma tile_index: "tx < n \<Longrightarrow> b < n \<Longrightarrow> ty * n + tx = a * n + b \<longleftrightarrow> ty = a \<and> tx = (b :: nat)"
  by (metis div_mult_self3 div_less mod_mult_self3 mod_less add.commute add_0_right add_cancel_left_right div_mult_self1 less_nat_zero_code mod_mult_self1)

lemma tile_below:
  assumes "frame_ok s" and "p < vs_width s * vs_height s"
  shows "p mod vs_width s div VNC_TILE < vs_tiles_x s" "p div vs_width s div VNC_TILE < vs_tiles_y s"
    "tile_of s p < vs_tiles_x s * vs_tiles_y s"
proof -
  have "p mod vs_width s < vs_width s" using assms(1) by (simp add: frame_ok_def)
  moreover have "p div vs_width s < vs_height s" using assms(2) by (simp add: less_mult_imp_div_less mult.commute)
  ultimately show x: "p mod vs_width s div VNC_TILE < vs_tiles_x s" and y: "p div vs_width s div VNC_TILE < vs_tiles_y s"
    using assms(1) by (auto simp: frame_ok_def VNC_TILE_def)
  show "tile_of s p < vs_tiles_x s * vs_tiles_y s"
    using row_bound [OF y, of "p mod vs_width s div VNC_TILE" 1 "vs_tiles_x s"] x by (simp add: tile_of_def)
qed

text \<open>The rectangle of a tile holds the pixels of that tile.\<close>

lemma in_tile_rect:
  assumes "frame_ok s" and "p < vs_width s * vs_height s" and "tx < vs_tiles_x s" and "ty < vs_tiles_y s"
  shows "in_rect (vs_width s) (tx * VNC_TILE) (ty * VNC_TILE) (tile_side (vs_width s) (tx * VNC_TILE))
      (tile_side (vs_height s) (ty * VNC_TILE)) p \<longleftrightarrow> tile_of s p = ty * vs_tiles_x s + tx"
proof -
  have "p mod vs_width s < vs_width s" using assms(1) by (simp add: frame_ok_def)
  moreover have "p div vs_width s < vs_height s" using assms(2) by (simp add: less_mult_imp_div_less mult.commute)
  moreover have "tx < (vs_width s + VNC_TILE - 1) div VNC_TILE" "ty < (vs_height s + VNC_TILE - 1) div VNC_TILE"
    using assms by (simp_all add: frame_ok_def)
  ultimately have "in_rect (vs_width s) (tx * VNC_TILE) (ty * VNC_TILE) (tile_side (vs_width s) (tx * VNC_TILE))
      (tile_side (vs_height s) (ty * VNC_TILE)) p \<longleftrightarrow>
      p mod vs_width s div VNC_TILE = tx \<and> p div vs_width s div VNC_TILE = ty"
    using tile_fits(3) by (auto simp: in_rect_def)
  also have "\<dots> \<longleftrightarrow> tile_of s p = ty * vs_tiles_x s + tx"
    using tile_index [OF tile_below(1) [OF assms(1,2)] assms(3), of "p div vs_width s div VNC_TILE" ty]
    by (auto simp: tile_of_def)
  finally show ?thesis .
qed

lemma tiles_max: "frame_ok s \<Longrightarrow> vs_tiles_x s * vs_tiles_y s \<le> VNC_MAX_TILES"
proof -
  assume ok: "frame_ok s"
  then have "vs_tiles_x s \<le> 256" "vs_tiles_y s \<le> 256"
    by (auto simp: frame_ok_def VNC_TILE_def VNC_MAX_DIM_def)
  then have "vs_tiles_x s * vs_tiles_y s \<le> 256 * 256" by (rule mult_le_mono)
  then show ?thesis by (simp add: VNC_MAX_TILES_def VNC_MAX_DIM_def VNC_TILE_def)
qed

subsection \<open>The comparison\<close>

text \<open>The tile differs between the DIB and the previous frame.\<close>

definition tile_changed :: "vnc_screen \<Rightarrow> nat \<Rightarrow> bool" where
  "tile_changed s t \<longleftrightarrow> (\<exists>p < vs_width s * vs_height s. tile_of s p = t \<and> vs_bits s ! p \<noteq> vs_prev s ! p)"

text \<open>The frame after the comparison of the first \<open>k\<close> tiles.\<close>

definition diffed :: "bool \<Rightarrow> vnc_screen \<Rightarrow> nat \<Rightarrow> vnc_screen \<times> nat \<Rightarrow> bool" where
  "diffed everything s0 k = (\<lambda>(s, n).
     s = s0\<lparr>vs_prev := vs_prev s, vs_dirty := vs_dirty s, vs_read_mask := vs_read_mask s\<rparr> \<and>
     length (vs_prev s) = vs_width s0 * vs_height s0 \<and> length (vs_dirty s) = VNC_MAX_TILES \<and>
     length (vs_read_mask s) = VNC_MAX_TILES \<and>
     (\<forall>p < vs_width s0 * vs_height s0. vs_prev s ! p =
        (if tile_of s0 p < k \<and> (everything \<or> vs_read_mask s0 ! tile_of s0 p) then vs_bits s0 ! p else vs_prev s0 ! p)) \<and>
     (\<forall>t < VNC_MAX_TILES. vs_dirty s ! t =
        (if t < k then everything \<or> vs_read_mask s0 ! t \<and> tile_changed s0 t else vs_dirty s0 ! t)) \<and>
     (\<forall>t < VNC_MAX_TILES. vs_read_mask s ! t \<longleftrightarrow> \<not> t < k \<and> vs_read_mask s0 ! t) \<and>
     n = card {t. t < k \<and> (everything \<or> vs_read_mask s0 ! t \<and> tile_changed s0 t)})"

lemma tile_differs_eq:
  assumes len: "length (vs_bits s) = vs_width s * vs_height s" "length (vs_prev s) = vs_width s * vs_height s"
    and fit: "x0 + width \<le> vs_width s" "y0 + height \<le> vs_height s"
  shows "tile_differs s x0 y0 width height =
    Some (\<exists>p < vs_width s * vs_height s. in_rect (vs_width s) x0 y0 width height p \<and> vs_bits s ! p \<noteq> vs_prev s ! p)"
proof -
  let ?w = "vs_width s" and ?h = "vs_height s"
  let ?d = "\<lambda>row column. vs_bits s ! ((y0 + row) * ?w + x0 + column) \<noteq> vs_prev s ! ((y0 + row) * ?w + x0 + column)"
  have at: "(y0 + row) * ?w + x0 + column < ?w * ?h" if "row < height" "column < width" for row column
    using row_bound [of "y0 + row" ?h x0 width ?w] fit that by simp
  have "tile_differs s x0 y0 width height =
      Some (\<exists>row. 0 \<le> row \<and> row < 0 + height \<and> (\<exists>column. 0 \<le> column \<and> column < 0 + width \<and> ?d row column))"
    unfolding tile_differs_def
    by (intro any_up_eq) (use at len in \<open>simp add: rd_def\<close>)
  also have "(\<exists>row. 0 \<le> row \<and> row < 0 + height \<and> (\<exists>column. 0 \<le> column \<and> column < 0 + width \<and> ?d row column)) \<longleftrightarrow>
      (\<exists>p < ?w * ?h. in_rect ?w x0 y0 width height p \<and> vs_bits s ! p \<noteq> vs_prev s ! p)"
  proof
    assume "\<exists>row. 0 \<le> row \<and> row < 0 + height \<and> (\<exists>column. 0 \<le> column \<and> column < 0 + width \<and> ?d row column)"
    then obtain row column where rc: "row < height" "column < width" "?d row column" by auto
    let ?p = "(y0 + row) * ?w + x0 + column"
    have "?p div ?w = y0 + row \<and> x0 \<le> ?p mod ?w \<and> ?p mod ?w < x0 + width"
      using row_range [OF fit(1), of "y0 + row" ?p] rc(2) by simp
    then have "in_rect ?w x0 y0 width height ?p" using rc(1) by (simp add: in_rect_def)
    then show "\<exists>p < ?w * ?h. in_rect ?w x0 y0 width height p \<and> vs_bits s ! p \<noteq> vs_prev s ! p"
      using at [OF rc(1,2)] rc(3) by blast
  next
    assume "\<exists>p < ?w * ?h. in_rect ?w x0 y0 width height p \<and> vs_bits s ! p \<noteq> vs_prev s ! p"
    then obtain p where p: "in_rect ?w x0 y0 width height p" "vs_bits s ! p \<noteq> vs_prev s ! p" by blast
    have "(y0 + (p div ?w - y0)) * ?w + x0 + (p mod ?w - x0) = p"
      using p(1) div_mult_mod_eq [of p ?w] by (simp add: in_rect_def)
    then have "?d (p div ?w - y0) (p mod ?w - x0)" using p(2) by simp
    moreover have "p div ?w - y0 < height" "p mod ?w - x0 < width" using p(1) by (auto simp: in_rect_def)
    ultimately show "\<exists>row. 0 \<le> row \<and> row < 0 + height \<and> (\<exists>column. 0 \<le> column \<and> column < 0 + width \<and> ?d row column)"
      by auto
  qed
  finally show ?thesis .
qed

lemma copy_tile_eq:
  assumes len: "length (vs_bits s) = vs_width s * vs_height s" "length (vs_prev s) = vs_width s * vs_height s"
    and fit: "x0 + width \<le> vs_width s" "y0 + height \<le> vs_height s"
  shows "\<exists>t. copy_tile s x0 y0 width height = Some t \<and> length t = vs_width s * vs_height s \<and>
    (\<forall>p < vs_width s * vs_height s. t ! p =
      (if in_rect (vs_width s) x0 y0 width height p then vs_bits s ! p else vs_prev s ! p))"
  unfolding copy_tile_def
proof (rule copy_rows [OF len fit])
  fix row and t :: "u32 list" assume row: "row < height" and t: "length t = vs_width s * vs_height s"
  have "(y0 + row) * vs_width s + x0 + width \<le> vs_width s * vs_height s"
    using row_bound [of "y0 + row" "vs_height s" x0 width "vs_width s"] row fit by simp
  then show "(let offset = (y0 + row) * vs_width s + x0 in do {
       source \<leftarrow> rds (vs_bits s) offset width; wrs t offset source }) =
      Some (splice t ((y0 + row) * vs_width s + x0) (take width (drop ((y0 + row) * vs_width s + x0) (vs_bits s))))"
    using len t by (simp add: Let_def rds_Some wrs_splice)
qed

lemma card_next: "card {t. t < Suc k \<and> P t} = (if P k then Suc (card {t. t < k \<and> P t}) else card {t. t < k \<and> P t})"
proof -
  have "{t. t < Suc k \<and> P t} = (if P k then insert k {t. t < k \<and> P t} else {t. t < k \<and> P t})"
    by (auto simp: less_Suc_eq)
  then show ?thesis by simp
qed

lemma diff_tile_step:
  assumes ok: "frame_ok s0" and d: "diffed everything s0 (ty * vs_tiles_x s0 + tx) (s, n)"
    and tile: "tx < vs_tiles_x s0" "ty < vs_tiles_y s0"
  shows "\<exists>r. diff_tile everything ty tx (s, n) = Some r \<and> diffed everything s0 (ty * vs_tiles_x s0 + Suc tx) r"
proof -
  let ?w = "vs_width s0" and ?h = "vs_height s0"
  define k where "k = ty * vs_tiles_x s0 + tx"
  define go where "go \<longleftrightarrow> everything \<or> vs_read_mask s0 ! k"
  have k: "k < VNC_MAX_TILES"
    using row_bound [OF tile(2), of tx 1 "vs_tiles_x s0"] tile(1) tiles_max [OF ok] by (simp add: k_def)
  have s: "s = s0\<lparr>vs_prev := vs_prev s, vs_dirty := vs_dirty s, vs_read_mask := vs_read_mask s\<rparr>"
    and len: "length (vs_prev s) = ?w * ?h" "length (vs_dirty s) = VNC_MAX_TILES" "length (vs_read_mask s) = VNC_MAX_TILES"
    and prev: "\<And>p. p < ?w * ?h \<Longrightarrow> vs_prev s ! p =
        (if tile_of s0 p < k \<and> (everything \<or> vs_read_mask s0 ! tile_of s0 p) then vs_bits s0 ! p else vs_prev s0 ! p)"
    and dirty: "\<And>t. t < VNC_MAX_TILES \<Longrightarrow> vs_dirty s ! t =
        (if t < k then everything \<or> vs_read_mask s0 ! t \<and> tile_changed s0 t else vs_dirty s0 ! t)"
    and marks: "\<And>t. t < VNC_MAX_TILES \<Longrightarrow> vs_read_mask s ! t \<longleftrightarrow> \<not> t < k \<and> vs_read_mask s0 ! t"
    and n: "n = card {t. t < k \<and> (everything \<or> vs_read_mask s0 ! t \<and> tile_changed s0 t)}"
    using d by (simp_all add: diffed_def k_def)
  have same: "vs_width s = ?w" "vs_height s = ?h" "vs_bits s = vs_bits s0" "vs_tiles_x s = vs_tiles_x s0"
    by (subst s, simp)+
  let ?x0 = "tx * VNC_TILE" and ?y0 = "ty * VNC_TILE"
  let ?tw = "tile_side ?w ?x0" and ?th = "tile_side ?h ?y0"
  have fit: "?x0 + ?tw \<le> ?w" "?y0 + ?th \<le> ?h"
    using tile_fits(2) ok tile by (simp_all add: frame_ok_def)
  have bits: "length (vs_bits s0) = ?w * ?h" using ok by (simp add: frame_ok_def)
  have rect: "in_rect ?w ?x0 ?y0 ?tw ?th p \<longleftrightarrow> tile_of s0 p = k" if "p < ?w * ?h" for p
    using in_tile_rect [OF ok that tile] by (simp add: k_def)
  have changed: "tile_differs s ?x0 ?y0 ?tw ?th = Some (tile_changed s0 k)"
    using tile_differs_eq [of s ?x0 ?tw ?y0 ?th] fit len bits rect prev
    unfolding same tile_changed_def by (auto cong: conj_cong)
  obtain t where t: "copy_tile s ?x0 ?y0 ?tw ?th = Some t" "length t = ?w * ?h"
      "\<And>p. p < ?w * ?h \<Longrightarrow> t ! p = (if tile_of s0 p = k then vs_bits s0 ! p else vs_prev s ! p)"
    using copy_tile_eq [of s ?x0 ?tw ?y0 ?th] fit len bits rect unfolding same by auto
  have was: "rd (vs_read_mask s) k = Some (vs_read_mask s0 ! k)" using k len marks by (simp add: rd_def)
  define c where "c \<longleftrightarrow> everything \<or> tile_changed s0 k"
  define r where "r = (if go then (s\<lparr>vs_read_mask := (vs_read_mask s)[k := False], vs_prev := (if c then t else vs_prev s),
      vs_dirty := (vs_dirty s)[k := c]\<rparr>, if c then n + 1 else n)
    else (s\<lparr>vs_dirty := (vs_dirty s)[k := False]\<rparr>, n))"
  have "diff_tile everything ty tx (s, n) = Some r"
    unfolding diff_tile_def using was changed t(1) k len
    by (cases everything) (simp_all add: same Let_def k_def [symmetric] r_def go_def c_def wr_def)
  moreover have "diffed everything s0 (Suc k) r"
  proof -
    have unchanged: "vs_bits s0 ! p = vs_prev s0 ! p" if "\<not> c" "p < ?w * ?h" "tile_of s0 p = k" for p
      using that by (auto simp: c_def tile_changed_def)
    have "fst r = s0\<lparr>vs_prev := vs_prev (fst r), vs_dirty := vs_dirty (fst r), vs_read_mask := vs_read_mask (fst r)\<rparr>"
    proof -
      obtain pv dv mv where "s = s0\<lparr>vs_prev := pv, vs_dirty := dv, vs_read_mask := mv\<rparr>" using s by blast
      then show ?thesis by (simp add: r_def)
    qed
    moreover have "length (vs_prev (fst r)) = ?w * ?h" "length (vs_dirty (fst r)) = VNC_MAX_TILES"
        "length (vs_read_mask (fst r)) = VNC_MAX_TILES"
      using len t(2) by (simp_all add: r_def)
    moreover have "vs_prev (fst r) ! p = (if tile_of s0 p < Suc k \<and> (everything \<or> vs_read_mask s0 ! tile_of s0 p)
        then vs_bits s0 ! p else vs_prev s0 ! p)" if "p < ?w * ?h" for p
      using that t(3) prev unchanged by (auto simp: r_def go_def less_Suc_eq)
    moreover have "vs_dirty (fst r) ! t = (if t < Suc k then everything \<or> vs_read_mask s0 ! t \<and> tile_changed s0 t
        else vs_dirty s0 ! t)" if "t < VNC_MAX_TILES" for t
      using that dirty len k by (auto simp: r_def go_def c_def nth_list_update less_Suc_eq)
    moreover have "vs_read_mask (fst r) ! t \<longleftrightarrow> \<not> t < Suc k \<and> vs_read_mask s0 ! t" if "t < VNC_MAX_TILES" for t
      using that marks len k by (auto simp: r_def go_def nth_list_update less_Suc_eq)
    moreover have "snd r = card {t. t < Suc k \<and> (everything \<or> vs_read_mask s0 ! t \<and> tile_changed s0 t)}"
      unfolding card_next using n by (auto simp: r_def go_def c_def)
    ultimately show ?thesis by (simp add: diffed_def case_prod_beta)
  qed
  ultimately show ?thesis by (simp add: k_def)
qed

text \<open>A pass over all tiles, band by band.\<close>

lemma for_tiles:
  assumes "P 0 s"
    and "\<And>ty tx t. tx < x \<Longrightarrow> ty < y \<Longrightarrow> P (ty * x + tx) t \<Longrightarrow> \<exists>t'. f ty tx t = Some t' \<and> P (ty * x + Suc tx) t'"
  shows "\<exists>t. for_up 0 y (\<lambda>ty. for_up 0 x (f ty)) s = Some t \<and> P (x * y) t"
proof -
  have "\<exists>t. for_up 0 y (\<lambda>ty. for_up 0 x (f ty)) s = Some t \<and> P ((0 + y) * x) t"
  proof (rule for_up_rule [where P = "\<lambda>ty. P (ty * x)"])
    fix ty t assume ty: "ty < 0 + y" and t: "P (ty * x) t"
    have "\<exists>t'. for_up 0 x (f ty) t = Some t' \<and> P (ty * x + (0 + x)) t'"
      by (rule for_up_rule [where P = "\<lambda>tx. P (ty * x + tx)"]) (use t ty assms(2) in auto)
    then show "\<exists>t'. for_up 0 x (f ty) t = Some t' \<and> P (Suc ty * x) t'" by (simp add: add.commute)
  qed (use assms(1) in simp)
  then show ?thesis by (simp add: mult.commute)
qed

lemma vnc_diff_spec:
  assumes ok: "frame_ok s"
  shows "\<exists>r. vnc_diff everything s = Some r \<and> diffed everything s (vs_tiles_x s * vs_tiles_y s) r"
  unfolding vnc_diff_def
proof (rule for_tiles)
  show "diffed everything s 0 (s, 0)" using ok by (simp add: diffed_def frame_ok_def)
  show "\<exists>r. diff_tile everything ty tx q = Some r \<and> diffed everything s (ty * vs_tiles_x s + Suc tx) r"
    if "tx < vs_tiles_x s" "ty < vs_tiles_y s" "diffed everything s (ty * vs_tiles_x s + tx) q" for ty tx q
    using diff_tile_step [OF ok, of everything ty tx "fst q" "snd q"] that by simp
qed

subsection \<open>The sampled capture of a screen that stands still\<close>

text \<open>What \<^verbatim>\<open>BitBlt\<close> promises: the pixels of the rectangle are the screen's, the others stay.\<close>

definition blits :: "blit \<Rightarrow> nat \<Rightarrow> nat \<Rightarrow> u32 list \<Rightarrow> bool" where
  "blits blit w h screen \<longleftrightarrow> length screen = w * h \<and>
     (\<forall>bits x y n m. length bits = w * h \<and> x + n \<le> w \<and> y + m \<le> h \<longrightarrow>
       (\<exists>t. blit bits x y n m = Some t \<and> length t = w * h \<and>
         (\<forall>p < w * h. t ! p = (if in_rect w x y n m p then screen ! p else bits ! p))))"

lemma blitsE:
  assumes "blits blit w h screen" "length bits = w * h" "x + n \<le> w" "y + m \<le> h"
  obtains t where "blit bits x y n m = Some t" "length t = w * h"
    "\<And>p. p < w * h \<Longrightarrow> t ! p = (if in_rect w x y n m p then screen ! p else bits ! p)"
  using assms unfolding blits_def by blast

text \<open>The pixel lies in the row its band samples in this phase.\<close>

definition sampled :: "vnc_screen \<Rightarrow> nat \<Rightarrow> nat \<Rightarrow> bool" where
  "sampled s phase p \<longleftrightarrow> p div vs_width s = sample_row s phase (p div vs_width s div VNC_TILE)"

lemma sampled_same: "vs_width t = vs_width s \<Longrightarrow> vs_height t = vs_height s \<Longrightarrow> sampled t = sampled s"
  by (auto simp: fun_eq_iff sampled_def sample_row_def Let_def)

lemma sample_row_band:
  assumes "frame_ok s" "band < vs_tiles_y s" "phase < 16"
  shows "sample_row s phase band < vs_height s" "sample_row s phase band div VNC_TILE = band"
proof -
  have "band * VNC_TILE < vs_height s" using tile_fits(1) assms by (simp add: frame_ok_def)
  then show "sample_row s phase band < vs_height s" "sample_row s phase band div VNC_TILE = band"
    using assms(1,3) by (auto simp: sample_row_def Let_def VNC_TILE_def frame_ok_def)
qed

lemma sampled_iff:
  assumes "frame_ok s" "p < vs_width s * vs_height s" "phase < 16"
  shows "sampled s phase p \<longleftrightarrow> (\<exists>band < vs_tiles_y s. p div vs_width s = sample_row s phase band)"
  using tile_below(2) [OF assms(1,2)] sample_row_band(2) [OF assms(1) _ assms(3)]
  unfolding sampled_def by metis

lemma sample_rows_spec:
  assumes ok: "frame_ok s" and b: "blits blit (vs_width s) (vs_height s) screen" and phase: "phase < 16"
  shows "\<exists>bits. sample_rows blit phase s = Some (s\<lparr>vs_bits := bits\<rparr>, Inr ()) \<and>
    length bits = vs_width s * vs_height s \<and>
    (\<forall>p < vs_width s * vs_height s. bits ! p = (if sampled s phase p then screen ! p else vs_bits s ! p))"
proof -
  let ?w = "vs_width s" and ?h = "vs_height s"
  let ?inv = "\<lambda>j t. \<exists>bits. t = s\<lparr>vs_bits := bits\<rparr> \<and> length bits = ?w * ?h \<and> (\<forall>p < ?w * ?h. bits ! p =
      (if \<exists>band < j. p div ?w = sample_row s phase band then screen ! p else vs_bits s ! p))"
  have "outcome (sample_rows blit phase s) (\<lambda>_ _. False) (\<lambda>_ t. ?inv (0 + vs_tiles_y s) t)"
    unfolding sample_rows_def
  proof (rule for_out_rule)
    show "?inv 0 s" using ok by (intro exI [of _ "vs_bits s"]) (simp add: frame_ok_def)
    fix j t assume j: "j < 0 + vs_tiles_y s" and "?inv j t"
    then obtain bits where t: "t = s\<lparr>vs_bits := bits\<rparr>" "length bits = ?w * ?h"
        "\<And>p. p < ?w * ?h \<Longrightarrow> bits ! p = (if \<exists>band < j. p div ?w = sample_row s phase band then screen ! p else vs_bits s ! p)"
      by blast
    let ?row = "sample_row s phase j"
    have row: "sample_row t phase j = ?row" "?row + 1 \<le> ?h"
      using sample_row_band(1) [OF ok, of j phase] j phase by (simp_all add: t sample_row_def Let_def)
    obtain c where c: "blit bits 0 ?row ?w 1 = Some c" "length c = ?w * ?h"
        "\<And>p. p < ?w * ?h \<Longrightarrow> c ! p = (if in_rect ?w 0 ?row ?w 1 p then screen ! p else bits ! p)"
      by (rule blitsE [OF b t(2) _ row(2), of 0 ?w]) simp_all
    have "in_rect ?w 0 ?row ?w 1 p \<longleftrightarrow> p div ?w = ?row" for p
      using ok by (auto simp: in_rect_def frame_ok_def)
    then have "?inv (Suc j) (t\<lparr>vs_bits := c\<rparr>)"
      using c t by (intro exI [of _ c]) (auto simp: less_Suc_eq)
    then show "outcome (case blit (vs_bits t) 0 (sample_row t phase j) (vs_width t) 1 of
          None \<Rightarrow> Some (t, Inl ()) | Some bits \<Rightarrow> Some (t\<lparr>vs_bits := bits\<rparr>, Inr ()))
        (\<lambda>_ _. False) (\<lambda>_ t'. ?inv (Suc j) t')"
      using c(1) row(1) t(1) by simp
  qed
  then obtain bits where r: "sample_rows blit phase s = Some (s\<lparr>vs_bits := bits\<rparr>, Inr ())" "length bits = ?w * ?h"
      "\<forall>p < ?w * ?h. bits ! p = (if \<exists>band < vs_tiles_y s. p div ?w = sample_row s phase band then screen ! p else vs_bits s ! p)"
    by (auto elim!: outcome_cases)
  then show ?thesis using sampled_iff [OF ok _ phase] by (intro exI [of _ bits]) simp
qed

text \<open>A tile is suspect when it was dirty or its sampled row changed.\<close>

definition row_changed :: "vnc_screen \<Rightarrow> nat \<Rightarrow> nat \<Rightarrow> bool" where
  "row_changed s phase t \<longleftrightarrow> (\<exists>p < vs_width s * vs_height s. tile_of s p = t \<and> sampled s phase p \<and>
     vs_bits s ! p \<noteq> vs_prev s ! p)"

lemma suspect_tile_spec:
  assumes ok: "frame_ok s" and tile: "tx < vs_tiles_x s" "ty < vs_tiles_y s" and phase: "phase < 16"
  defines "k \<equiv> ty * vs_tiles_x s + tx"
  shows "suspect_tile phase ty tx s = Some (s\<lparr>vs_suspect :=
    (if vs_dirty s ! k \<or> row_changed s phase k then (vs_suspect s)[k := True] else vs_suspect s)\<rparr>)"
proof -
  let ?w = "vs_width s" and ?h = "vs_height s" and ?row = "sample_row s phase ty" and ?x0 = "tx * VNC_TILE"
  let ?n = "(if ?x0 + VNC_TILE > ?w then ?w else ?x0 + VNC_TILE) - ?x0"
  have k: "k < VNC_MAX_TILES"
    using row_bound [OF tile(2), of tx 1 "vs_tiles_x s"] tile(1) tiles_max [OF ok] by (simp add: k_def)
  have x0: "?x0 < ?w" using tile_fits(1) tile ok by (simp add: frame_ok_def)
  have n: "?n = tile_side ?w ?x0" using x0 by (auto simp: tile_side_def)
  have row: "?row < ?h" "?row div VNC_TILE = ty" using sample_row_band [OF ok tile(2) phase] by simp_all
  have at: "?row * ?w + x < ?w * ?h" if "x < ?x0 + ?n" for x
    using row_bound [OF row(1), of 0 "Suc x" ?w] that x0 by (auto split: if_splits)
  have "any_up ?x0 ?n (\<lambda>x. do {
         now \<leftarrow> rd (vs_bits s) (?row * ?w + x); old \<leftarrow> rd (vs_prev s) (?row * ?w + x); Some (now \<noteq> old) }) =
      Some (\<exists>x. ?x0 \<le> x \<and> x < ?x0 + ?n \<and> vs_bits s ! (?row * ?w + x) \<noteq> vs_prev s ! (?row * ?w + x))"
    by (rule any_up_eq) (use at ok in \<open>simp add: rd_def frame_ok_def\<close>)
  also have "(\<exists>x. ?x0 \<le> x \<and> x < ?x0 + ?n \<and> vs_bits s ! (?row * ?w + x) \<noteq> vs_prev s ! (?row * ?w + x)) \<longleftrightarrow>
      row_changed s phase k"
  proof -
    have key: "tile_of s p = k \<and> sampled s phase p \<longleftrightarrow> p div ?w = ?row \<and> ?x0 \<le> p mod ?w \<and> p mod ?w < ?x0 + ?n"
      if "p < ?w * ?h" for p
    proof -
      have "tile_of s p = k \<longleftrightarrow> p div ?w div VNC_TILE = ty \<and> p mod ?w div VNC_TILE = tx"
        using tile_index [OF tile_below(1) [OF ok that] tile(1), of "p div ?w div VNC_TILE" ty]
        by (simp add: tile_of_def k_def)
      moreover have "p mod ?w div VNC_TILE = tx \<longleftrightarrow> ?x0 \<le> p mod ?w \<and> p mod ?w < ?x0 + ?n"
        unfolding n using tile_fits(3) [of tx ?w "p mod ?w"] tile(1) ok by (simp add: frame_ok_def)
      ultimately show ?thesis using row(2) by (auto simp: sampled_def)
    qed
    show ?thesis
    proof
      assume "\<exists>x. ?x0 \<le> x \<and> x < ?x0 + ?n \<and> vs_bits s ! (?row * ?w + x) \<noteq> vs_prev s ! (?row * ?w + x)"
      then obtain x where x: "?x0 \<le> x" "x < ?x0 + ?n" "vs_bits s ! (?row * ?w + x) \<noteq> vs_prev s ! (?row * ?w + x)" by blast
      have "x < ?w" using x(2) x0 by (auto split: if_splits)
      then show "row_changed s phase k"
        unfolding row_changed_def using x at [OF x(2)] key [of "?row * ?w + x"] by (intro exI [of _ "?row * ?w + x"]) simp
    next
      assume "row_changed s phase k"
      then obtain p where p: "p < ?w * ?h" "tile_of s p = k" "sampled s phase p" "vs_bits s ! p \<noteq> vs_prev s ! p"
        by (auto simp: row_changed_def)
      then have "p div ?w = ?row \<and> ?x0 \<le> p mod ?w \<and> p mod ?w < ?x0 + ?n" using key [OF p(1)] by blast
      then have q: "p div ?w = ?row" "?x0 \<le> p mod ?w" "p mod ?w < ?x0 + ?n" by blast+
      then have "?row * ?w + p mod ?w = p" using div_mult_mod_eq [of p ?w] by simp
      then show "\<exists>x. ?x0 \<le> x \<and> x < ?x0 + ?n \<and> vs_bits s ! (?row * ?w + x) \<noteq> vs_prev s ! (?row * ?w + x)"
        using q p(4) by (intro exI [of _ "p mod ?w"]) simp
    qed
  qed
  finally have scan: "any_up ?x0 ?n (\<lambda>x. do {
         now \<leftarrow> rd (vs_bits s) (?row * ?w + x); old \<leftarrow> rd (vs_prev s) (?row * ?w + x); Some (now \<noteq> old) }) =
      Some (row_changed s phase k)" .
  have "rd (vs_dirty s) k = Some (vs_dirty s ! k)" "wr (vs_suspect s) k True = Some ((vs_suspect s)[k := True])"
    using k ok by (simp_all add: rd_def wr_def frame_ok_def)
  then show ?thesis
    by (simp add: suspect_tile_def Let_def k_def [symmetric] scan del: any_up.simps)
qed

lemma frame_ok_bits: "frame_ok s \<Longrightarrow> length bits = vs_width s * vs_height s \<Longrightarrow> frame_ok (s\<lparr>vs_bits := bits\<rparr>)"
  by (simp add: frame_ok_def)

lemma row_changed_suspect: "row_changed (s\<lparr>vs_suspect := u\<rparr>) phase t = row_changed s phase t"
  by (simp add: row_changed_def tile_of_def sampled_def sample_row_def Let_def)

lemma suspect_tiles_spec:
  assumes ok: "frame_ok s" and phase: "phase < 16"
  shows "\<exists>u. suspect_tiles phase s = Some (s\<lparr>vs_suspect := u\<rparr>) \<and> length u = VNC_MAX_TILES \<and>
    (\<forall>t < VNC_MAX_TILES. u ! t \<longleftrightarrow> vs_suspect s ! t \<or>
       (t < vs_tiles_x s * vs_tiles_y s \<and> (vs_dirty s ! t \<or> row_changed s phase t)))"
proof -
  let ?inv = "\<lambda>k t. \<exists>u. t = s\<lparr>vs_suspect := u\<rparr> \<and> length u = VNC_MAX_TILES \<and>
    (\<forall>j < VNC_MAX_TILES. u ! j \<longleftrightarrow> vs_suspect s ! j \<or> (j < k \<and> (vs_dirty s ! j \<or> row_changed s phase j)))"
  have "\<exists>t. suspect_tiles phase s = Some t \<and> ?inv (vs_tiles_x s * vs_tiles_y s) t"
    unfolding suspect_tiles_def
  proof (rule for_tiles)
    show "?inv 0 s" using ok by (intro exI [of _ "vs_suspect s"]) (simp add: frame_ok_def)
    fix ty tx t assume tile: "tx < vs_tiles_x s" "ty < vs_tiles_y s" and "?inv (ty * vs_tiles_x s + tx) t"
    then obtain u where t: "t = s\<lparr>vs_suspect := u\<rparr>" and u: "length u = VNC_MAX_TILES"
        "\<forall>j < VNC_MAX_TILES. u ! j \<longleftrightarrow> vs_suspect s ! j \<or>
          (j < ty * vs_tiles_x s + tx \<and> (vs_dirty s ! j \<or> row_changed s phase j))" by blast
    have ok': "frame_ok t" using ok u(1) by (simp add: t frame_ok_def)
    let ?k = "ty * vs_tiles_x s + tx"
    let ?u = "if vs_dirty s ! ?k \<or> row_changed s phase ?k then u[?k := True] else u"
    have k: "?k < VNC_MAX_TILES"
      using row_bound [OF tile(2), of tx 1 "vs_tiles_x s"] tile(1) tiles_max [OF ok] by simp
    have "suspect_tile phase ty tx t = Some (s\<lparr>vs_suspect := ?u\<rparr>)"
      using suspect_tile_spec [OF ok' _ _ phase, of tx ty] tile row_changed_suspect by (simp add: t)
    moreover have "?inv (ty * vs_tiles_x s + Suc tx) (s\<lparr>vs_suspect := ?u\<rparr>)"
      using u k by (intro exI [of _ ?u]) (auto simp: nth_list_update less_Suc_eq)
    ultimately show "\<exists>t'. suspect_tile phase ty tx t = Some t' \<and> ?inv (ty * vs_tiles_x s + Suc tx) t'" by blast
  qed
  then show ?thesis by blast
qed

text \<open>A run ends at the edge or at a tile that is not suspect.\<close>

lemma suspect_run_spec:
  assumes "tile_x + run \<le> count" and "base + count \<le> length flags"
    and "\<forall>i < run. flags ! (base + tile_x + i)"
  shows "\<exists>n. suspect_run flags base tile_x count run = Some n \<and> run \<le> n \<and> tile_x + n \<le> count \<and>
    (\<forall>i < n. flags ! (base + tile_x + i))"
  using assms
proof (induction flags base tile_x count run rule: suspect_run.induct)
  case (1 flags base tile_x count run)
  show ?case
  proof (cases "tile_x + run < count \<and> flags ! (base + tile_x + run)")
    case True
    then have "\<exists>n. suspect_run flags base tile_x count (run + 1) = Some n \<and> run + 1 \<le> n \<and> tile_x + n \<le> count \<and>
        (\<forall>i < n. flags ! (base + tile_x + i))"
      using 1 by (intro "1.IH") (auto simp: rd_def less_Suc_eq)
    then show ?thesis using True 1 by (subst suspect_run.simps) (auto simp: rd_def)
  next
    case False
    then show ?thesis using 1 by (subst suspect_run.simps) (auto simp: rd_def)
  qed
qed

text \<open>The tiles of one band from \<open>tile_x\<close> on that are suspect.\<close>

definition band_read :: "vnc_screen \<Rightarrow> nat \<Rightarrow> nat \<Rightarrow> nat \<Rightarrow> bool" where
  "band_read s band tile_x t \<longleftrightarrow>
     band * vs_tiles_x s + tile_x \<le> t \<and> t < band * vs_tiles_x s + vs_tiles_x s \<and> vs_suspect s ! t"

definition screen_read :: "vnc_screen \<Rightarrow> u32 list \<Rightarrow> (nat \<Rightarrow> bool) \<Rightarrow> u32 list \<Rightarrow> bool list \<Rightarrow> bool" where
  "screen_read s screen P bits marks \<longleftrightarrow>
     length bits = vs_width s * vs_height s \<and> length marks = VNC_MAX_TILES \<and>
     (\<forall>p < vs_width s * vs_height s. bits ! p = (if P (tile_of s p) then screen ! p else vs_bits s ! p)) \<and>
     (\<forall>t < VNC_MAX_TILES. marks ! t \<longleftrightarrow> vs_read_mask s ! t \<or> P t)"

lemma run_rect:
  assumes ok: "frame_ok s" and p: "p < vs_width s * vs_height s" and band: "band < vs_tiles_y s"
    and run: "tile_x + run \<le> vs_tiles_x s" "0 < run"
  defines "wd \<equiv> (if (tile_x + run) * VNC_TILE > vs_width s then vs_width s - tile_x * VNC_TILE else run * VNC_TILE)"
    and "ht \<equiv> (if band * VNC_TILE + VNC_TILE > vs_height s then vs_height s - band * VNC_TILE else VNC_TILE)"
  shows "in_rect (vs_width s) (tile_x * VNC_TILE) (band * VNC_TILE) wd ht p \<longleftrightarrow>
      band * vs_tiles_x s + tile_x \<le> tile_of s p \<and> tile_of s p < band * vs_tiles_x s + (tile_x + run)"
    and "tile_x * VNC_TILE + wd \<le> vs_width s" "band * VNC_TILE + ht \<le> vs_height s"
proof -
  let ?c = "p mod vs_width s" and ?r = "p div vs_width s"
  have c: "?c < vs_width s" using ok by (simp add: frame_ok_def)
  have r: "?r < vs_height s" using p by (simp add: less_mult_imp_div_less mult.commute)
  have x: "tile_x * VNC_TILE < vs_width s" and y: "band * VNC_TILE < vs_height s"
    using tile_fits(1) ok band run by (simp_all add: frame_ok_def)
  show "tile_x * VNC_TILE + wd \<le> vs_width s" "band * VNC_TILE + ht \<le> vs_height s"
    using x y by (auto simp: wd_def ht_def VNC_TILE_def)
  have "tile_x * VNC_TILE \<le> ?c \<and> ?c < tile_x * VNC_TILE + wd \<longleftrightarrow> tile_x \<le> ?c div VNC_TILE \<and> ?c div VNC_TILE < tile_x + run"
  proof (cases "(tile_x + run) * VNC_TILE > vs_width s")
    case True
    then have "?c < (tile_x + run) * VNC_TILE" using c by simp
    then have "?c div VNC_TILE < tile_x + run" by (rule less_mult_imp_div_less)
    then show ?thesis using c x True by (auto simp: wd_def VNC_TILE_def)
  next
    case False
    then show ?thesis by (auto simp: wd_def VNC_TILE_def)
  qed
  moreover have "band * VNC_TILE \<le> ?r \<and> ?r < band * VNC_TILE + ht \<longleftrightarrow> ?r div VNC_TILE = band"
    using r y by (auto simp: ht_def VNC_TILE_def)
  ultimately have rect: "in_rect (vs_width s) (tile_x * VNC_TILE) (band * VNC_TILE) wd ht p \<longleftrightarrow>
      ?r div VNC_TILE = band \<and> tile_x \<le> ?c div VNC_TILE \<and> ?c div VNC_TILE < tile_x + run"
    by (auto simp: in_rect_def)
  have tc: "?c div VNC_TILE < vs_tiles_x s" by (rule tile_below(1) [OF ok p])
  show "in_rect (vs_width s) (tile_x * VNC_TILE) (band * VNC_TILE) wd ht p \<longleftrightarrow>
      band * vs_tiles_x s + tile_x \<le> tile_of s p \<and> tile_of s p < band * vs_tiles_x s + (tile_x + run)"
  proof -
    have "tile_of s p div vs_tiles_x s = ?r div VNC_TILE" "tile_of s p mod vs_tiles_x s = ?c div VNC_TILE"
      using tc by (simp_all add: tile_of_def)
    then show ?thesis unfolding rect using row_range [OF run(1), of band "tile_of s p"] by (auto simp: add.assoc)
  qed
qed

lemma read_band_spec:
  assumes "frame_ok s" and "blits blit (vs_width s) (vs_height s) screen" and "band < vs_tiles_y s"
  shows "\<exists>bits marks. read_band blit band tile_x s = Some (s\<lparr>vs_bits := bits, vs_read_mask := marks\<rparr>, Inr ()) \<and>
    screen_read s screen (band_read s band tile_x) bits marks"
  using assms
proof (induction blit band tile_x s rule: read_band.induct)
  case (1 blit band tile_x s)
  note ok = 1(3) and b = 1(4) and band = 1(5)
  let ?w = "vs_width s" and ?h = "vs_height s" and ?n = "vs_tiles_x s"
  have all: "band * ?n + ?n \<le> VNC_MAX_TILES"
    using row_bound [OF band, of 0 ?n ?n] tiles_max [OF ok] by simp
  have lens: "length (vs_suspect s) = VNC_MAX_TILES" "length (vs_read_mask s) = VNC_MAX_TILES"
      "length (vs_bits s) = ?w * ?h" using ok by (simp_all add: frame_ok_def)
  show ?case
  proof (cases "tile_x < ?n")
    case False
    then have "screen_read s screen (band_read s band tile_x) (vs_bits s) (vs_read_mask s)"
      using lens by (auto simp: screen_read_def band_read_def)
    then show ?thesis using False by (subst read_band.simps) (intro exI [of _ "vs_bits s"] exI [of _ "vs_read_mask s"], simp)
  next
    case True
    then have k: "band * ?n + tile_x < VNC_MAX_TILES" using all by simp
    show ?thesis
    proof (cases "vs_suspect s ! (band * ?n + tile_x)")
      case False
      then have "\<not> band_read s band tile_x (band * ?n + tile_x)" by (simp add: band_read_def)
      then have "band_read s band (tile_x + 1) = band_read s band tile_x"
        by (intro ext) (auto simp: band_read_def le_less Suc_le_eq)
      moreover obtain bits marks where "read_band blit band (tile_x + 1) s = Some (s\<lparr>vs_bits := bits, vs_read_mask := marks\<rparr>, Inr ())"
          "screen_read s screen (band_read s band (tile_x + 1)) bits marks"
        using "1.IH"(1) [OF True _ _ ok b band] False k lens by (fastforce simp: rd_def)
      ultimately show ?thesis using True False k lens by (subst read_band.simps) (auto simp: rd_def)
    next
      case sus: True
      obtain run where run: "suspect_run (vs_suspect s) (band * ?n) tile_x ?n 1 = Some run" "1 \<le> run" "tile_x + run \<le> ?n"
          "\<forall>i < run. vs_suspect s ! (band * ?n + tile_x + i)"
        using suspect_run_spec [of tile_x 1 ?n "band * ?n" "vs_suspect s"] True sus all lens by auto
      define wd where "wd = (if (tile_x + run) * VNC_TILE > ?w then ?w - tile_x * VNC_TILE else run * VNC_TILE)"
      define ht where "ht = (if band * VNC_TILE + VNC_TILE > ?h then ?h - band * VNC_TILE else VNC_TILE)"
      have rect: "in_rect ?w (tile_x * VNC_TILE) (band * VNC_TILE) wd ht p \<longleftrightarrow>
            band * ?n + tile_x \<le> tile_of s p \<and> tile_of s p < band * ?n + (tile_x + run)" if "p < ?w * ?h" for p
        using run_rect(1) [OF ok that band run(3)] run(2) by (simp add: wd_def ht_def)
      have fit: "tile_x * VNC_TILE + wd \<le> ?w" "band * VNC_TILE + ht \<le> ?h"
        using run_rect(2,3) [OF ok _ band run(3), of 0] run(2) ok by (simp_all add: wd_def ht_def frame_ok_def)
      obtain bits where bits: "blit (vs_bits s) (tile_x * VNC_TILE) (band * VNC_TILE) wd ht = Some bits" "length bits = ?w * ?h"
          "\<And>p. p < ?w * ?h \<Longrightarrow> bits ! p = (if in_rect ?w (tile_x * VNC_TILE) (band * VNC_TILE) wd ht p then screen ! p else vs_bits s ! p)"
        by (rule blitsE [OF b lens(3) fit]) (use that in \<open>simp_all\<close>)
      have room: "band * ?n + tile_x + run \<le> VNC_MAX_TILES" using run(3) all by simp
      have marks: "for_up 0 run (\<lambda>index marks. wr marks (band * ?n + tile_x + index) True) (vs_read_mask s) =
          Some (splice (vs_read_mask s) (band * ?n + tile_x) (replicate run True))"
        by (rule for_up_fill) (use room lens(2) in \<open>simp_all add: wr_splice\<close>)
      let ?marks = "splice (vs_read_mask s) (band * ?n + tile_x) (replicate run True)"
      let ?s = "s\<lparr>vs_bits := bits, vs_read_mask := ?marks\<rparr>"
      have ok': "frame_ok ?s" using ok bits(2) room lens by (simp add: frame_ok_def)
      have same: "tile_of ?s = tile_of s" "band_read ?s band (tile_x + run) = band_read s band (tile_x + run)"
        by (auto simp: fun_eq_iff tile_of_def band_read_def)
      obtain bits' marks' where rest: "read_band blit band (tile_x + run) ?s =
            Some (?s\<lparr>vs_bits := bits', vs_read_mask := marks'\<rparr>, Inr ())"
          "screen_read ?s screen (band_read ?s band (tile_x + run)) bits' marks'"
        using "1.IH"(2) [OF True _ _ run(1) refl refl refl refl _ marks, of "True" bits] sus k lens bits run(2) ok' b band
        by (fastforce simp: rd_def wd_def ht_def)
      have split: "band_read s band tile_x t \<longleftrightarrow>
          band * ?n + tile_x \<le> t \<and> t < band * ?n + (tile_x + run) \<or> band_read s band (tile_x + run) t" for t
      proof (cases "band * ?n + tile_x \<le> t \<and> t < band * ?n + (tile_x + run)")
        case True
        then have "t - (band * ?n + tile_x) < run" by linarith
        then have "vs_suspect s ! t" using run(4) [rule_format, of "t - (band * ?n + tile_x)"] True by simp
        then show ?thesis using True run(3) by (simp add: band_read_def)
      next
        case False
        then show ?thesis by (auto simp: band_read_def)
      qed
      have "screen_read s screen (band_read s band tile_x) bits' marks'"
        using rest(2) bits(3) rect room lens(2) unfolding screen_read_def same split
        by (auto simp: nth_splice)
      moreover have "read_band blit band tile_x s = Some (s\<lparr>vs_bits := bits', vs_read_mask := marks'\<rparr>, Inr ())"
        using rest(1) bits(1) marks True sus k lens run(1,2)
        by (subst read_band.simps) (simp add: rd_def Let_def wd_def [symmetric] ht_def [symmetric])
      ultimately show ?thesis by blast
    qed
  qed
qed

lemma read_bands_spec:
  assumes ok: "frame_ok s" and b: "blits blit (vs_width s) (vs_height s) screen"
  shows "\<exists>bits marks. for_out 0 (vs_tiles_y s) (\<lambda>band. read_band blit band 0) s =
      Some (s\<lparr>vs_bits := bits, vs_read_mask := marks\<rparr>, Inr ()) \<and>
    screen_read s screen (\<lambda>t. t < vs_tiles_x s * vs_tiles_y s \<and> vs_suspect s ! t) bits marks"
proof -
  let ?n = "vs_tiles_x s"
  let ?inv = "\<lambda>j t. \<exists>bits marks. t = s\<lparr>vs_bits := bits, vs_read_mask := marks\<rparr> \<and>
    screen_read s screen (\<lambda>t. t < j * ?n \<and> vs_suspect s ! t) bits marks"
  have "outcome (for_out 0 (vs_tiles_y s) (\<lambda>band. read_band blit band 0) s) (\<lambda>_ _. False) (\<lambda>_ t. ?inv (0 + vs_tiles_y s) t)"
  proof (rule for_out_rule)
    show "?inv 0 s" using ok
      by (intro exI [of _ "vs_bits s"] exI [of _ "vs_read_mask s"]) (simp add: screen_read_def frame_ok_def)
    fix j t assume j: "j < 0 + vs_tiles_y s" and "?inv j t"
    then obtain bits marks where t: "t = s\<lparr>vs_bits := bits, vs_read_mask := marks\<rparr>"
        "screen_read s screen (\<lambda>t. t < j * ?n \<and> vs_suspect s ! t) bits marks" by blast
    have ok': "frame_ok t" using ok t by (simp add: frame_ok_def screen_read_def)
    obtain bits' marks' where r: "read_band blit j 0 t = Some (t\<lparr>vs_bits := bits', vs_read_mask := marks'\<rparr>, Inr ())"
        "screen_read t screen (band_read t j 0) bits' marks'"
      using read_band_spec [OF ok', of blit screen j 0] b j t(1) by auto
    have "band_read t j 0 i \<longleftrightarrow> j * ?n \<le> i \<and> i < Suc j * ?n \<and> vs_suspect s ! i" for i
      by (simp add: band_read_def t(1) add.commute)
    then have "screen_read s screen (\<lambda>i. i < Suc j * ?n \<and> vs_suspect s ! i) bits' marks'"
      using r(2) t(2) by (auto simp: screen_read_def t(1) tile_of_def)
    then show "outcome (read_band blit j 0 t) (\<lambda>_ _. False) (\<lambda>_ t'. ?inv (Suc j) t')"
      using r(1) t(1) by auto
  qed
  then obtain t where "for_out 0 (vs_tiles_y s) (\<lambda>band. read_band blit band 0) s = Some (t, Inr ())" "?inv (vs_tiles_y s) t"
    by (elim outcome_cases) simp_all
  then show ?thesis by (subst mult.commute) blast
qed

text \<open>The tiles that the sampled capture looks at: the dirty ones, and those whose sampled row differs
  between the screen and the previous frame.\<close>

definition noticed :: "vnc_screen \<Rightarrow> u32 list \<Rightarrow> nat \<Rightarrow> nat \<Rightarrow> bool" where
  "noticed s screen phase t \<longleftrightarrow> vs_dirty s ! t \<or>
     (\<exists>p < vs_width s * vs_height s. tile_of s p = t \<and> sampled s phase p \<and> screen ! p \<noteq> vs_prev s ! p)"

lemma capture_sampled_spec:
  assumes ok: "frame_ok s" and b: "blits blit (vs_width s) (vs_height s) screen" and rich: "vs_rich s"
  defines "phase \<equiv> vnc_sample_order ! (vs_step s mod 16)"
  shows "\<exists>bits marks u. vnc_capture_sampled blit pointer s =
      Some (s\<lparr>vs_step := (vs_step s + 1) mod 2 ^ 32, vs_suspect := u, vs_bits := bits, vs_read_mask := marks\<rparr>, Inr ()) \<and>
    length u = VNC_MAX_TILES \<and> length bits = vs_width s * vs_height s \<and> length marks = VNC_MAX_TILES \<and>
    (\<forall>p < vs_width s * vs_height s. noticed s screen phase (tile_of s p) \<longrightarrow> bits ! p = screen ! p) \<and>
    (\<forall>t < VNC_MAX_TILES. marks ! t \<longleftrightarrow> vs_read_mask s ! t \<or>
       t < vs_tiles_x s * vs_tiles_y s \<and> noticed s screen phase t)"
proof -
  let ?n = "vs_tiles_x s * vs_tiles_y s"
  have lens: "length (vs_suspect s) = VNC_MAX_TILES" "?n \<le> VNC_MAX_TILES"
    using ok tiles_max [OF ok] by (simp_all add: frame_ok_def)
  have i: "vs_step s mod 16 < 16" by simp
  have order: "list_all (\<lambda>v. v < 16) vnc_sample_order" "length vnc_sample_order = 16" by (simp_all add: vnc_sample_order_def)
  then have phase: "phase < 16" "rd vnc_sample_order (vs_step s mod 16) = Some phase"
    using i by (simp_all add: phase_def list_all_length rd_def)
  let ?u0 = "splice (vs_suspect s) 0 (replicate ?n False)"
  have clear: "for_up 0 ?n (\<lambda>i f. wr f i False) (vs_suspect s) = Some ?u0"
    by (rule for_up_fill) (use lens in \<open>simp_all add: wr_splice\<close>)
  let ?s1 = "s\<lparr>vs_step := (vs_step s + 1) mod 2 ^ 32, vs_suspect := ?u0\<rparr>"
  have ok1: "frame_ok ?s1" using ok lens by (simp add: frame_ok_def)
  obtain bits1 where r1: "sample_rows blit phase ?s1 = Some (?s1\<lparr>vs_bits := bits1\<rparr>, Inr ())"
      "length bits1 = vs_width s * vs_height s"
      "\<And>p. p < vs_width s * vs_height s \<Longrightarrow> bits1 ! p = (if sampled s phase p then screen ! p else vs_bits s ! p)"
    using sample_rows_spec [OF ok1, of blit screen phase] b phase(1) sampled_same [of ?s1 s] by auto
  let ?s2 = "?s1\<lparr>vs_bits := bits1\<rparr>"
  have ok2: "frame_ok ?s2" by (rule frame_ok_bits [OF ok1]) (simp add: r1(2))
  have changed: "row_changed ?s2 phase t \<longleftrightarrow> (\<exists>p < vs_width s * vs_height s. tile_of s p = t \<and> sampled s phase p \<and> screen ! p \<noteq> vs_prev s ! p)" for t
    using r1(3) sampled_same [of ?s2 s] by (auto simp: row_changed_def tile_of_def cong: conj_cong)
  obtain u where u: "suspect_tiles phase ?s2 = Some (?s2\<lparr>vs_suspect := u\<rparr>)" "length u = VNC_MAX_TILES"
      "\<And>t. t < VNC_MAX_TILES \<Longrightarrow> u ! t \<longleftrightarrow> ?u0 ! t \<or> (t < ?n \<and> noticed s screen phase t)"
    using suspect_tiles_spec [OF ok2 phase(1)] unfolding changed by (auto simp: noticed_def)
  let ?s3 = "?s2\<lparr>vs_suspect := u\<rparr>"
  have ok3: "frame_ok ?s3" using ok2 u(2) lens by (simp add: frame_ok_def)
  have "?u0 ! t \<longleftrightarrow> False" if "t < ?n" for t using that lens by (simp add: nth_splice)
  then have u': "u ! t \<longleftrightarrow> noticed s screen phase t" if "t < ?n" for t using u(3) [of t] that lens(2) by auto
  obtain bits marks where r3: "for_out 0 (vs_tiles_y ?s3) (\<lambda>band. read_band blit band 0) ?s3 =
        Some (?s3\<lparr>vs_bits := bits, vs_read_mask := marks\<rparr>, Inr ())"
      "screen_read ?s3 screen (\<lambda>t. t < vs_tiles_x ?s3 * vs_tiles_y ?s3 \<and> vs_suspect ?s3 ! t) bits marks"
    using read_bands_spec [OF ok3, of blit screen] b by auto
  have "vnc_capture_sampled blit pointer s =
      Some (s\<lparr>vs_step := (vs_step s + 1) mod 2 ^ 32, vs_suspect := u, vs_bits := bits, vs_read_mask := marks\<rparr>, Inr ())"
    using phase(2) clear r1(1) u(1) r3(1) rich by (simp add: vnc_capture_sampled_def Let_def suspect_cursor_def)
  moreover have "noticed s screen phase (tile_of s p) \<longrightarrow> bits ! p = screen ! p" if p: "p < vs_width s * vs_height s" for p
    using r3(2) p u' tile_below(3) [OF ok p] by (auto simp: screen_read_def tile_of_def)
  moreover have "length bits = vs_width s * vs_height s" "length marks = VNC_MAX_TILES"
      "\<forall>t < VNC_MAX_TILES. marks ! t \<longleftrightarrow> vs_read_mask s ! t \<or> t < ?n \<and> noticed s screen phase t"
    using r3(2) u' by (auto simp: screen_read_def)
  ultimately show ?thesis using u(2) by blast
qed

subsection \<open>Comparison and capture together\<close>

lemma diffedE:
  assumes "frame_ok s" and "vnc_diff everything s = Some (t, n)"
  shows "t = s\<lparr>vs_prev := vs_prev t, vs_dirty := vs_dirty t, vs_read_mask := vs_read_mask t\<rparr>"
    and "frame_ok t"
    and "p < vs_width s * vs_height s \<Longrightarrow> vs_prev t ! p =
        (if everything \<or> vs_read_mask s ! tile_of s p then vs_bits s ! p else vs_prev s ! p)"
    and "k < vs_tiles_x s * vs_tiles_y s \<Longrightarrow> vs_dirty t ! k \<longleftrightarrow> everything \<or> vs_read_mask s ! k \<and> tile_changed s k"
    and "k < vs_tiles_x s * vs_tiles_y s \<Longrightarrow> \<not> vs_read_mask t ! k"
    and "n = card {k. k < vs_tiles_x s * vs_tiles_y s \<and> vs_dirty t ! k}"
proof -
  let ?n = "vs_tiles_x s * vs_tiles_y s"
  have d: "diffed everything s ?n (t, n)" using vnc_diff_spec [OF assms(1), of everything] assms(2) by simp
  have max_tiles: "?n \<le> VNC_MAX_TILES" by (rule tiles_max [OF assms(1)])
  show t: "t = s\<lparr>vs_prev := vs_prev t, vs_dirty := vs_dirty t, vs_read_mask := vs_read_mask t\<rparr>"
    using d by (simp add: diffed_def)
  have "length (vs_prev t) = vs_width s * vs_height s" "length (vs_dirty t) = VNC_MAX_TILES" "length (vs_read_mask t) = VNC_MAX_TILES"
    using d by (simp_all add: diffed_def)
  moreover obtain a b c where "t = s\<lparr>vs_prev := a, vs_dirty := b, vs_read_mask := c\<rparr>" using t by blast
  ultimately show "frame_ok t" using assms(1) by (simp add: frame_ok_def)
  show "vs_prev t ! p = (if everything \<or> vs_read_mask s ! tile_of s p then vs_bits s ! p else vs_prev s ! p)"
    if "p < vs_width s * vs_height s"
    using d that tile_below(3) [OF assms(1) that] by (simp add: diffed_def)
  have dirty: "vs_dirty t ! k \<longleftrightarrow> everything \<or> vs_read_mask s ! k \<and> tile_changed s k" if "k < ?n" for k
    using d that max_tiles by (simp add: diffed_def)
  show "vs_dirty t ! k \<longleftrightarrow> everything \<or> vs_read_mask s ! k \<and> tile_changed s k" if "k < ?n" using dirty [OF that] .
  show "\<not> vs_read_mask t ! k" if "k < ?n" using d that max_tiles by (simp add: diffed_def)
  have "{k. k < ?n \<and> vs_dirty t ! k} = {k. k < ?n \<and> (everything \<or> vs_read_mask s ! k \<and> tile_changed s k)}"
    using dirty by auto
  then show "n = card {k. k < ?n \<and> vs_dirty t ! k}" using d by (simp add: diffed_def)
qed

text \<open>
  C16. The comparison of frames, for every screen size the server accepts: it stays inside its
  buffers; the previous frame becomes the DIB on the tiles that were read (all of them, for a full
  frame) and is untouched elsewhere; a tile is marked dirty exactly when it is sent - on a full frame,
  or when a read pixel changed - so the previous frame is unchanged on the tiles that are not dirty; no
  tile stays marked as read; and the result counts the dirty tiles.
\<close>

theorem vnc_diff_exact:
  assumes "frame_ok s"
  shows "\<exists>t n. vnc_diff everything s = Some (t, n) \<and> frame_ok t \<and>
    (\<forall>p < vs_width s * vs_height s.
       vs_prev t ! p = (if everything \<or> vs_read_mask s ! tile_of s p then vs_bits s ! p else vs_prev s ! p) \<and>
       (vs_dirty t ! tile_of s p \<or> vs_prev t ! p = vs_prev s ! p)) \<and>
    (\<forall>k < vs_tiles_x s * vs_tiles_y s. \<not> vs_read_mask t ! k \<and>
       (vs_dirty t ! k \<longleftrightarrow> everything \<or> vs_read_mask s ! k \<and>
         (\<exists>p < vs_width s * vs_height s. tile_of s p = k \<and> vs_bits s ! p \<noteq> vs_prev s ! p))) \<and>
    n = card {k. k < vs_tiles_x s * vs_tiles_y s \<and> vs_dirty t ! k}"
proof -
  obtain t n where r: "vnc_diff everything s = Some (t, n)" using vnc_diff_spec [OF assms, of everything] by auto
  note d = diffedE [OF assms r]
  have "vs_dirty t ! tile_of s p \<or> vs_prev t ! p = vs_prev s ! p" if p: "p < vs_width s * vs_height s" for p
    using d(3) [OF p] d(4) [OF tile_below(3) [OF assms p]] p by (auto simp: tile_changed_def)
  then show ?thesis using r d(2-6) unfolding tile_changed_def by (intro exI [of _ t] exI [of _ n] conjI allI impI) simp_all
qed

text \<open>A screen of one pixel that has changed.\<close>

definition one_pixel :: vnc_screen where
  "one_pixel = \<lparr>vs_bits = [0], vs_prev = [7], vs_width = 1, vs_height = 1, vs_tiles_x = 1, vs_tiles_y = 1,
     vs_dirty = replicate VNC_MAX_TILES False, vs_read_mask = replicate VNC_MAX_TILES False,
     vs_suspect = replicate VNC_MAX_TILES False, vs_full = False, vs_step = 3, vs_rich = True, vs_area = None\<rparr>"

lemma one_pixel_ok: "frame_ok one_pixel"
  by (simp add: frame_ok_def one_pixel_def VNC_MAX_DIM_def VNC_TILE_def)

lemma vnc_diff_exact_witness:
  "\<exists>t n. vnc_diff True one_pixel = Some (t, n) \<and> frame_ok t \<and>
    (\<forall>p < vs_width one_pixel * vs_height one_pixel.
       vs_prev t ! p = (if True \<or> vs_read_mask one_pixel ! tile_of one_pixel p then vs_bits one_pixel ! p else vs_prev one_pixel ! p) \<and>
       (vs_dirty t ! tile_of one_pixel p \<or> vs_prev t ! p = vs_prev one_pixel ! p)) \<and>
    (\<forall>k < vs_tiles_x one_pixel * vs_tiles_y one_pixel. \<not> vs_read_mask t ! k \<and>
       (vs_dirty t ! k \<longleftrightarrow> True \<or> vs_read_mask one_pixel ! k \<and>
         (\<exists>p < vs_width one_pixel * vs_height one_pixel. tile_of one_pixel p = k \<and> vs_bits one_pixel ! p \<noteq> vs_prev one_pixel ! p))) \<and>
    n = card {k. k < vs_tiles_x one_pixel * vs_tiles_y one_pixel \<and> vs_dirty t ! k}"
  by (rule vnc_diff_exact [OF one_pixel_ok])

text \<open>A poll of the server that only looks for changes: a capture, and a comparison when it succeeded.\<close>

definition poll_frame :: "blit \<Rightarrow> (int \<times> int) option \<Rightarrow> (u32 list \<Rightarrow> u32 list) \<Rightarrow> vnc_screen \<Rightarrow> vnc_screen option" where
  "poll_frame blit pointer draw s =
     do {
       (s, r) \<leftarrow> vnc_capture (vs_width s, vs_height s) True blit pointer draw s;
       if r = 1 then do { (s, n) \<leftarrow> vnc_diff False s; Some s } else Some s }"

fun poll_frames :: "blit \<Rightarrow> (int \<times> int) option list \<Rightarrow> (u32 list \<Rightarrow> u32 list) \<Rightarrow> vnc_screen \<Rightarrow> vnc_screen option" where
  "poll_frames blit [] draw s = Some s"
| "poll_frames blit (pointer # pointers) draw s =
     do { s \<leftarrow> poll_frame blit pointer draw s; poll_frames blit pointers draw s }"

text \<open>After polls in the phases \<open>phases\<close>: each tile shows the screen, or no poll has yet sampled a row
  of it that differs.\<close>

definition catching_up :: "vnc_screen \<Rightarrow> u32 list \<Rightarrow> nat set \<Rightarrow> bool" where
  "catching_up s screen phases \<longleftrightarrow> frame_ok s \<and> vs_rich s \<and> \<not> vs_full s \<and>
     (\<forall>k < vs_tiles_x s * vs_tiles_y s. \<not> vs_read_mask s ! k) \<and>
     (\<forall>k. (\<forall>p < vs_width s * vs_height s. tile_of s p = k \<longrightarrow> vs_prev s ! p = screen ! p) \<or>
          (\<forall>p < vs_width s * vs_height s. tile_of s p = k \<longrightarrow> (\<exists>phase \<in> phases. sampled s phase p) \<longrightarrow>
             vs_prev s ! p = screen ! p))"

lemma poll_step:
  assumes c: "catching_up s screen phases" and b: "blits blit (vs_width s) (vs_height s) screen"
  defines "phase \<equiv> vnc_sample_order ! (vs_step s mod 16)"
  shows "\<exists>t. poll_frame blit pointer draw s = Some t \<and> catching_up t screen (insert phase phases) \<and>
    vs_width t = vs_width s \<and> vs_height t = vs_height s \<and> vs_step t = (vs_step s + 1) mod 2 ^ 32"
proof -
  let ?px = "vs_width s * vs_height s" and ?n = "vs_tiles_x s * vs_tiles_y s"
  have ok: "frame_ok s" and rich: "vs_rich s" and full: "\<not> vs_full s"
    and clear: "\<And>k. k < ?n \<Longrightarrow> \<not> vs_read_mask s ! k"
    using c by (simp_all add: catching_up_def)
  have same: "s\<lparr>vs_full := False\<rparr> = s" using full by (cases s) simp
  obtain bits marks u where cap: "vnc_capture_sampled blit pointer s =
        Some (s\<lparr>vs_step := (vs_step s + 1) mod 2 ^ 32, vs_suspect := u, vs_bits := bits, vs_read_mask := marks\<rparr>, Inr ())"
      and len: "length u = VNC_MAX_TILES" "length bits = ?px" "length marks = VNC_MAX_TILES"
      and bits: "\<And>p. p < ?px \<Longrightarrow> noticed s screen phase (tile_of s p) \<Longrightarrow> bits ! p = screen ! p"
      and marks: "\<And>t. t < VNC_MAX_TILES \<Longrightarrow> marks ! t \<longleftrightarrow> vs_read_mask s ! t \<or> t < ?n \<and> noticed s screen phase t"
    using capture_sampled_spec [OF ok b rich, of pointer] unfolding phase_def by auto
  let ?c = "s\<lparr>vs_step := (vs_step s + 1) mod 2 ^ 32, vs_suspect := u, vs_bits := bits, vs_read_mask := marks, vs_area := None\<rparr>"
  have okc: "frame_ok ?c" using ok len by (simp add: frame_ok_def)
  obtain t n where d: "vnc_diff False ?c = Some (t, n)" using vnc_diff_spec [OF okc, of False] by auto
  note spec = diffedE [OF okc d]
  have "capture_read blit pointer s = vnc_capture_sampled blit pointer s"
    unfolding capture_read_def Let_def same using full by simp
  then have poll: "poll_frame blit pointer draw s = Some t"
    using cap d rich by (simp add: poll_frame_def vnc_capture_def)
  obtain x y z where t: "t = ?c\<lparr>vs_prev := x, vs_dirty := y, vs_read_mask := z\<rparr>" using spec(1) by blast
  have dims: "vs_width t = vs_width s" "vs_height t = vs_height s" "vs_tiles_x t = vs_tiles_x s" "vs_tiles_y t = vs_tiles_y s"
      "vs_rich t" "\<not> vs_full t" "vs_step t = (vs_step s + 1) mod 2 ^ 32"
    using rich full by (simp_all add: t)
  have tiles: "tile_of t = tile_of s" "tile_of ?c = tile_of s" using dims by (simp_all add: fun_eq_iff tile_of_def)
  have prev: "vs_prev t ! p = (if noticed s screen phase (tile_of s p) then screen ! p else vs_prev s ! p)" if p: "p < ?px" for p
  proof -
    have k: "tile_of s p < ?n" by (rule tile_below(3) [OF ok p])
    then have "marks ! tile_of s p \<longleftrightarrow> noticed s screen phase (tile_of s p)"
      using marks [of "tile_of s p"] clear [OF k] tiles_max [OF ok] by simp
    then show ?thesis using spec(3) [of p, unfolded tiles(2)] p bits [OF p] by simp
  qed
  have "(\<forall>p < ?px. tile_of s p = k \<longrightarrow> vs_prev t ! p = screen ! p) \<or>
      (\<forall>p < ?px. tile_of s p = k \<longrightarrow> (\<exists>phase \<in> insert phase phases. sampled s phase p) \<longrightarrow> vs_prev t ! p = screen ! p)" for k
  proof (cases "noticed s screen phase k")
    case True
    then show ?thesis using prev by auto
  next
    case False
    then have here: "vs_prev s ! p = screen ! p" if "p < ?px" "tile_of s p = k" "sampled s phase p" for p
      using that by (auto simp: noticed_def)
    have keep: "vs_prev t ! p = vs_prev s ! p" if "p < ?px" "tile_of s p = k" for p
      using prev [OF that(1)] that(2) False by simp
    have "(\<forall>p < ?px. tile_of s p = k \<longrightarrow> vs_prev s ! p = screen ! p) \<or>
        (\<forall>p < ?px. tile_of s p = k \<longrightarrow> (\<exists>phase \<in> phases. sampled s phase p) \<longrightarrow> vs_prev s ! p = screen ! p)"
      using c unfolding catching_up_def by blast
    then show ?thesis using here keep by (metis insert_iff)
  qed
  moreover have "\<forall>k < ?n. \<not> vs_read_mask t ! k" using spec(5) by simp
  ultimately have "catching_up t screen (insert phase phases)"
    using spec(2) dims sampled_same [OF dims(1,2)] by (simp add: catching_up_def tiles)
  then show ?thesis using poll dims by blast
qed

lemma poll_frames_step:
  assumes "catching_up s screen phases" and "blits blit (vs_width s) (vs_height s) screen"
  shows "\<exists>t. poll_frames blit pointers draw s = Some t \<and>
    catching_up t screen (phases \<union> (\<lambda>i. vnc_sample_order ! ((vs_step s + i) mod 16)) ` {..<length pointers}) \<and>
    vs_width t = vs_width s \<and> vs_height t = vs_height s"
  using assms
proof (induction pointers arbitrary: s phases)
  case (Cons pointer pointers)
  let ?phase = "vnc_sample_order ! (vs_step s mod 16)"
  obtain t where t: "poll_frame blit pointer draw s = Some t" "catching_up t screen (insert ?phase phases)"
      "vs_width t = vs_width s" "vs_height t = vs_height s" "vs_step t = (vs_step s + 1) mod 2 ^ 32"
    using poll_step [OF Cons.prems, of pointer draw] by blast
  obtain u where u: "poll_frames blit pointers draw t = Some u"
      "catching_up u screen (insert ?phase phases \<union> (\<lambda>i. vnc_sample_order ! ((vs_step t + i) mod 16)) ` {..<length pointers})"
      "vs_width u = vs_width s" "vs_height u = vs_height s"
    using Cons.IH [OF t(2)] Cons.prems(2) t(3,4) by auto
  have "(vs_step t + i) mod 16 = (vs_step s + Suc i) mod 16" for i
  proof -
    have "(vs_step s + 1) mod 2 ^ 32 mod 16 = (vs_step s + 1) mod 16"
      by (rule mod_mod_cancel) simp
    then show ?thesis unfolding t(5) by (metis add_Suc_shift mod_add_left_eq plus_1_eq_Suc add.commute)
  qed
  then have "insert ?phase phases \<union> (\<lambda>i. vnc_sample_order ! ((vs_step t + i) mod 16)) ` {..<length pointers} =
      phases \<union> (\<lambda>i. vnc_sample_order ! ((vs_step s + i) mod 16)) ` {..<length (pointer # pointers)}"
    by (auto simp: lessThan_Suc_eq_insert_0 image_image)
  then show ?case using t(1) u by auto
qed simp

lemma all_phases:
  assumes "v < 16"
  shows "\<exists>i < 16. vnc_sample_order ! ((c + i) mod 16) = v"
proof -
  have "list_all (\<lambda>v. \<exists>n < 16. vnc_sample_order ! n = v) [0..<16]"
    unfolding vnc_sample_order_def by code_simp
  then have "\<exists>n < 16. vnc_sample_order ! n = v" using assms by (simp add: list_all_iff)
  then obtain n where n: "n < 16" "vnc_sample_order ! n = v" by blast
  let ?i = "(n + 16 - c mod 16) mod 16"
  have "(c + ?i) mod 16 = (c + (n + 16 - c mod 16)) mod 16" by (rule mod_add_right_eq)
  also have "c + (n + 16 - c mod 16) = c div 16 * 16 + (n + 16)"
  proof -
    have "c mod 16 < 16" by simp
    then show ?thesis using div_mult_mod_eq [of c 16] by linarith
  qed
  also have "(c div 16 * 16 + (n + 16)) mod 16 = n" using n(1) by simp
  finally have "(c + ?i) mod 16 = n" .
  then show ?thesis using n(2) by (intro exI [of _ ?i]) simp
qed

text \<open>
  C15. The sampled capture catches up: while the screen stands still, sixteen polls - each reading one
  row in sixteen and only the tiles where that row changed - leave the previous frame equal to the
  screen, whatever it held before, for every screen size and wherever the cursor is (with the viewer
  drawing it); no poll touches memory outside its buffers.
\<close>

theorem vnc_capture_catches_up:
  assumes ok: "frame_ok s" and rich: "vs_rich s" and full: "\<not> vs_full s"
    and clear: "\<forall>k < vs_tiles_x s * vs_tiles_y s. \<not> vs_read_mask s ! k"
    and b: "blits blit (vs_width s) (vs_height s) screen" and n: "length pointers = 16"
  shows "\<exists>t. poll_frames blit pointers draw s = Some t \<and> vs_prev t = screen"
proof -
  have "catching_up s screen {}" using assms by (simp add: catching_up_def)
  then obtain t where t: "poll_frames blit pointers draw s = Some t"
      "catching_up t screen ((\<lambda>i. vnc_sample_order ! ((vs_step s + i) mod 16)) ` {..<16})"
      "vs_width t = vs_width s" "vs_height t = vs_height s"
    using poll_frames_step [OF _ b, of "{}" pointers draw] n by auto
  have okt: "frame_ok t" using t(2) by (simp add: catching_up_def)
  have "vs_prev t ! p = screen ! p" if p: "p < vs_width t * vs_height t" for p
  proof -
    let ?y = "p div vs_width t"
    have y: "?y < vs_height t" using p by (simp add: less_mult_imp_div_less mult.commute)
    obtain i where i: "i < 16" "vnc_sample_order ! ((vs_step s + i) mod 16) = ?y mod 16"
      using all_phases [of "?y mod 16"] by auto
    have "sampled t (?y mod 16) p" using y by (simp add: sampled_def sample_row_def VNC_TILE_def Let_def)
    then have "\<exists>phase \<in> (\<lambda>i. vnc_sample_order ! ((vs_step s + i) mod 16)) ` {..<16}. sampled t phase p"
      using i by force
    then show ?thesis using t(2) p unfolding catching_up_def by blast
  qed
  moreover have "length (vs_prev t) = vs_width t * vs_height t" using okt by (simp add: frame_ok_def)
  moreover have "length screen = vs_width t * vs_height t" using b t(3,4) by (simp add: blits_def)
  ultimately have "vs_prev t = screen" by (intro nth_equalityI) simp_all
  then show ?thesis using t(1) by blast
qed

text \<open>A \<^verbatim>\<open>BitBlt\<close> that never fails.\<close>

definition copy_blit :: "nat \<Rightarrow> nat \<Rightarrow> u32 list \<Rightarrow> blit" where
  "copy_blit w h screen bits x y n m =
     Some (map (\<lambda>p. if in_rect w x y n m p then screen ! p else bits ! p) [0..<w * h])"

lemma copy_blit_ok: "length screen = w * h \<Longrightarrow> blits (copy_blit w h screen) w h screen"
  by (simp add: blits_def copy_blit_def)

lemma vnc_capture_catches_up_witness:
  "\<exists>t. poll_frames (copy_blit 1 1 [9]) (replicate 16 None) id one_pixel = Some t \<and> vs_prev t = [9]"
proof (rule vnc_capture_catches_up)
  show "blits (copy_blit 1 1 [9]) (vs_width one_pixel) (vs_height one_pixel) [9]"
    using copy_blit_ok [of "[9]" 1 1] by (simp add: one_pixel_def)
qed (simp_all add: one_pixel_ok, simp_all add: one_pixel_def VNC_MAX_TILES_def VNC_MAX_DIM_def VNC_TILE_def)

end
