(* ===== verification/VncOut.thy ===== *)
theory VncOut
  imports VncPixelProps VncFrameProps "HOL-Library.Sublist"
begin

section \<open>The output of the VNC server\<close>

text \<open>
  Models the output buffer of \<^verbatim>\<open>src/guest/vnc.c\<close> and the encodings that need no state of their own.
  Bytes are put into a buffer of 64 KiB that is sent when it is full; \<open>net_room\<close> is how many bytes the
  peer still takes before the connection fails, an input of the model. \<open>stream s\<close> is everything sent
  or waiting: the specification of each routine says which bytes it appends, and a failed send leaves
  a prefix of them on the wire. The counters of \<^verbatim>\<open>VNC.LOG\<close> are not modelled.
\<close>

definition VNC_OUT_SIZE :: nat where "VNC_OUT_SIZE = 65536"

record vnc_net =
  out_buf :: bytes
  out_length :: nat
  net_sent :: bytes
  net_room :: nat

type_synonym 'a net_result = "(vnc_net, unit, 'a) outcome"

definition vnc_send_all :: "bytes \<Rightarrow> vnc_net \<Rightarrow> vnc_net \<times> (unit + unit)" where
  "vnc_send_all data s =
     (if length data \<le> net_room s
      then (s\<lparr>net_sent := net_sent s @ data, net_room := net_room s - length data\<rparr>, Inr ())
      else (s\<lparr>net_sent := net_sent s @ take (net_room s) data, net_room := 0\<rparr>, Inl ()))"

definition vnc_flush :: "vnc_net \<Rightarrow> unit net_result" where
  "vnc_flush s =
     do {
       data \<leftarrow> rds (out_buf s) 0 (out_length s);
       let (s, r) = vnc_send_all data s;
       Some (s\<lparr>out_length := 0\<rparr>, r) }"

text \<open>The result is the write position.\<close>

definition vnc_reserve :: "nat \<Rightarrow> vnc_net \<Rightarrow> nat net_result" where
  "vnc_reserve len s =
     andthen (if out_length s + len > VNC_OUT_SIZE then vnc_flush s else Some (s, Inr ()))
       (\<lambda>_ s. Some (s\<lparr>out_length := out_length s + len\<rparr>, Inr (out_length s)))"

text \<open>Reserving and filling what was reserved.\<close>

definition vnc_emit :: "nat \<Rightarrow> bytes \<Rightarrow> vnc_net \<Rightarrow> unit net_result" where
  "vnc_emit len bs s =
     andthen (vnc_reserve len s) (\<lambda>at s. do {
       buf \<leftarrow> wrs (out_buf s) at bs;
       Some (s\<lparr>out_buf := buf\<rparr>, Inr ()) })"

subsection \<open>The stream\<close>

definition stream :: "vnc_net \<Rightarrow> bytes" where
  "stream s = net_sent s @ take (out_length s) (out_buf s)"

definition net_ok :: "vnc_net \<Rightarrow> bool" where
  "net_ok s \<longleftrightarrow> length (out_buf s) = VNC_OUT_SIZE \<and> out_length s \<le> VNC_OUT_SIZE"

definition emits :: "'a net_result \<Rightarrow> vnc_net \<Rightarrow> bytes \<Rightarrow> bool" where
  "emits r s bs \<longleftrightarrow> outcome r (\<lambda>_ t. prefix (net_sent t) (stream s @ bs)) (\<lambda>_ t. net_ok t \<and> stream t = stream s @ bs)"

lemma flush_emits:
  assumes "net_ok s"
  shows "outcome (vnc_flush s) (\<lambda>_ t. prefix (net_sent t) (stream s))
    (\<lambda>_ t. net_ok t \<and> stream t = stream s \<and> out_length t = 0)"
proof -
  have "rds (out_buf s) 0 (out_length s) = Some (take (out_length s) (out_buf s))"
    using assms by (simp add: rds_Some net_ok_def)
  then show ?thesis
    using assms take_is_prefix [of "min (net_room s) (out_length s)" "take (out_length s) (out_buf s)"]
    by (auto simp: vnc_flush_def vnc_send_all_def stream_def net_ok_def min_def)
qed

lemma reserve_place:
  assumes "net_ok s" and "len \<le> VNC_OUT_SIZE"
  shows "outcome (vnc_reserve len s) (\<lambda>_ t. prefix (net_sent t) (stream s))
    (\<lambda>at t. length (out_buf t) = VNC_OUT_SIZE \<and> out_length t = at + len \<and> at + len \<le> VNC_OUT_SIZE \<and>
      net_sent t @ take at (out_buf t) = stream s)"
  unfolding vnc_reserve_def
proof (rule outcome_andthen [where P = "\<lambda>_ t. net_ok t \<and> stream t = stream s \<and> out_length t + len \<le> VNC_OUT_SIZE"])
  show "outcome (if VNC_OUT_SIZE < out_length s + len then vnc_flush s else Some (s, Inr ()))
      (\<lambda>_ t. prefix (net_sent t) (stream s)) (\<lambda>_ t. net_ok t \<and> stream t = stream s \<and> out_length t + len \<le> VNC_OUT_SIZE)"
    using outcome_mono [OF flush_emits [OF assms(1)]] assms by auto
qed (auto simp: net_ok_def stream_def)

lemma emit_emits:
  assumes "net_ok s" and "length bs = len" and "len \<le> VNC_OUT_SIZE"
  shows "emits (vnc_emit len bs s) s bs"
  unfolding emits_def vnc_emit_def
proof (rule outcome_andthen [OF outcome_mono [OF reserve_place [OF assms(1,3)]]])
  fix at and t :: vnc_net assume t: "length (out_buf t) = VNC_OUT_SIZE \<and> out_length t = at + len \<and> at + len \<le> VNC_OUT_SIZE \<and>
      net_sent t @ take at (out_buf t) = stream s"
  then show "outcome (do { buf \<leftarrow> wrs (out_buf t) at bs; Some (t\<lparr>out_buf := buf\<rparr>, Inr ()) })
      (\<lambda>_ t. prefix (net_sent t) (stream s @ bs)) (\<lambda>_ t. net_ok t \<and> stream t = stream s @ bs)"
    using assms(2) by (simp add: wrs_Some net_ok_def stream_def)
qed (auto intro: prefix_prefix)

lemma emits_seq:
  assumes "emits r s bs" and "\<And>a t. net_ok t \<Longrightarrow> stream t = stream s @ bs \<Longrightarrow> emits (f a t) t cs"
  shows "emits (andthen r f) s (bs @ cs)"
  unfolding emits_def
proof (rule outcome_andthen [OF outcome_mono [OF assms(1) [unfolded emits_def]]])
  fix a t assume "net_ok t \<and> stream t = stream s @ bs"
  then show "outcome (f a t) (\<lambda>_ t. prefix (net_sent t) (stream s @ bs @ cs)) (\<lambda>_ t. net_ok t \<and> stream t = stream s @ bs @ cs)"
    using assms(2) [of t a] by (simp add: emits_def)
next
  fix t assume "prefix (net_sent t) (stream s @ bs)"
  then show "prefix (net_sent t) (stream s @ bs @ cs)" by (metis append_assoc prefix_prefix)
qed simp_all

text \<open>The same with a result that is known beforehand.\<close>

definition emits_val :: "'a net_result \<Rightarrow> vnc_net \<Rightarrow> bytes \<Rightarrow> 'a \<Rightarrow> bool" where
  "emits_val r s bs a \<longleftrightarrow>
     outcome r (\<lambda>_ t. prefix (net_sent t) (stream s @ bs)) (\<lambda>b t. b = a \<and> net_ok t \<and> stream t = stream s @ bs)"

lemma emits_val_unit: "emits_val r s bs () \<longleftrightarrow> emits r s bs"
  by (simp add: emits_val_def emits_def)

lemma emits_val_emits: "emits_val r s bs a \<Longrightarrow> emits r s bs"
  unfolding emits_val_def emits_def by (erule outcome_mono) simp_all

lemma emits_val_done: "net_ok s \<Longrightarrow> emits_val (Some (s, Inr a)) s [] a"
  by (simp add: emits_val_def)

lemma emits_val_seq:
  assumes "emits_val r s bs a" and "\<And>t. net_ok t \<Longrightarrow> emits_val (f a t) t cs b"
  shows "emits_val (andthen r f) s (bs @ cs) b"
  unfolding emits_val_def
proof (rule outcome_andthen [OF outcome_mono [OF assms(1) [unfolded emits_val_def]]])
  fix c t assume "c = a \<and> net_ok t \<and> stream t = stream s @ bs"
  then show "outcome (f c t) (\<lambda>_ t. prefix (net_sent t) (stream s @ bs @ cs))
      (\<lambda>d t. d = b \<and> net_ok t \<and> stream t = stream s @ bs @ cs)"
    using assms(2) [of t] by (simp add: emits_val_def)
next
  fix t assume "prefix (net_sent t) (stream s @ bs)"
  then show "prefix (net_sent t) (stream s @ bs @ cs)" by (metis append_assoc prefix_prefix)
qed simp_all

lemma emits_val_map:
  assumes "emits_val r s bs a"
  shows "emits_val (andthen r (\<lambda>a t. Some (t, Inr (g a)))) s bs (g a)"
proof -
  have "emits_val (andthen r (\<lambda>a t. Some (t, Inr (g a)))) s (bs @ []) (g a)"
    by (rule emits_val_seq [OF assms]) (rule emits_val_done)
  then show ?thesis by simp
qed

lemma emits_done: "net_ok s \<Longrightarrow> emits (Some (s, Inr a)) s []"
  by (simp add: emits_def)

lemma emits_for:
  assumes "net_ok s" and "\<And>j t. i \<le> j \<Longrightarrow> j < i + n \<Longrightarrow> net_ok t \<Longrightarrow> emits (f j t) t (g j)"
  shows "emits (for_out i n f s) s (concat (map g [i..<i + n]))"
  using assms
proof (induction n arbitrary: i s)
  case (Suc n)
  have "emits (for_out i (Suc n) f s) s (g i @ concat (map g [Suc i..<Suc i + n]))"
    unfolding for_out.simps
  proof (rule emits_seq)
    show "emits (f i s) s (g i)" using Suc.prems by simp
    show "emits (for_out (Suc i) n f t) t (concat (map g [Suc i..<Suc i + n]))" if "net_ok t" for t
      by (rule Suc.IH [OF that]) (use Suc.prems(2) in simp)
  qed
  then show ?case by (simp add: upt_conv_Cons [of i] del: upt_Suc)
qed (simp add: emits_done)

subsection \<open>Rectangles and raw pixels\<close>

definition rect_header :: "nat \<Rightarrow> nat \<Rightarrow> nat \<Rightarrow> nat \<Rightarrow> u32 \<Rightarrow> bytes" where
  "rect_header x y width height encoding =
     vnc_put16 (of_nat x) @ vnc_put16 (of_nat y) @ vnc_put16 (of_nat width) @ vnc_put16 (of_nat height) @ vnc_put32 encoding"

definition vnc_rect_header :: "nat \<Rightarrow> nat \<Rightarrow> nat \<Rightarrow> nat \<Rightarrow> u32 \<Rightarrow> vnc_net \<Rightarrow> unit net_result" where
  "vnc_rect_header x y width height encoding = vnc_emit 12 (rect_header x y width height encoding)"

text \<open>The translated pixels of one row of the previous frame.\<close>

definition row_pixels :: "vnc_px \<Rightarrow> vnc_screen \<Rightarrow> nat \<Rightarrow> nat \<Rightarrow> nat \<Rightarrow> u32 list option" where
  "row_pixels px s x y width =
     those (map (\<lambda>column. do {
       p \<leftarrow> rd (vs_prev s) (y * vs_width s + x + column);
       vnc_translate px p }) [0..<width])"

definition store_pixels :: "vnc_px \<Rightarrow> u32 list \<Rightarrow> bytes" where
  "store_pixels px ps = concat (map (vnc_store_pixel px) ps)"

definition vnc_encode_raw :: "vnc_px \<Rightarrow> vnc_screen \<Rightarrow> nat \<Rightarrow> nat \<Rightarrow> nat \<Rightarrow> nat \<Rightarrow> vnc_net \<Rightarrow> unit net_result" where
  "vnc_encode_raw px s x y width height =
     for_out 0 height (\<lambda>row net. do {
       ps \<leftarrow> row_pixels px s x (y + row) width;
       vnc_emit (width * pixel_bytes px) (store_pixels px ps) net })"

end
