(* ===== verification/VncView.thy ===== *)
theory VncView
  imports VncOut
begin

section \<open>A viewer\<close>

text \<open>
  A reference viewer after RFC 6143, written without looking at the encoder: a framebuffer of pixel
  values, and for each encoding a function that reads a rectangle off the wire and paints it. It is
  \<open>None\<close> on input the protocol forbids. \<open>shown f s x y w h fb\<close> is the framebuffer \<open>fb\<close> after the
  rectangle has been painted with the pixels of the previous frame of \<open>s\<close> in the format \<open>f\<close>: what
  every encoding has to achieve.
\<close>

subsection \<open>Pixels\<close>

fun view_pixels :: "vnc_format \<Rightarrow> nat \<Rightarrow> bytes \<Rightarrow> (u32 list \<times> bytes) option" where
  "view_pixels f 0 bs = Some ([], bs)"
| "view_pixels f (Suc k) bs =
     (let n = unat (bpp f) div 8 in
      if length bs < n then None
      else do { (ps, rest) \<leftarrow> view_pixels f k (drop n bs); Some (read_pixel f (take n bs) # ps, rest) })"

lemma view_stored_pixels:
  assumes "format_ok f" and "\<forall>p \<in> set ps. unat p < 2 ^ unat (bpp f)"
  shows "view_pixels f (length ps) (store_pixels (px_of f) ps @ rest) = Some (ps, rest)"
  using assms(2)
proof (induction ps)
  case (Cons p ps)
  then show ?case
    using length_store_pixel [OF assms(1), of p] read_stored [OF assms(1), of p] by (simp add: store_pixels_def Let_def)
qed (simp add: store_pixels_def)

lemma length_store_pixels:
  "format_ok f \<Longrightarrow> length (store_pixels (px_of f) ps) = length ps * (unat (bpp f) div 8)"
  unfolding store_pixels_def by (rule length_concat_const) (rule length_store_pixel)

lemma store_pixels_concat: "store_pixels px (concat pss) = concat (map (store_pixels px) pss)"
  by (induction pss) (simp_all add: store_pixels_def)

subsection \<open>Rectangles of the framebuffer\<close>

definition put_rect :: "nat \<Rightarrow> nat \<Rightarrow> nat \<Rightarrow> nat \<Rightarrow> nat \<Rightarrow> u32 list \<Rightarrow> u32 list \<Rightarrow> u32 list" where
  "put_rect w x y width height pixels fb =
     map (\<lambda>p. if in_rect w x y width height p then pixels ! ((p div w - y) * width + (p mod w - x)) else fb ! p)
       [0..<length fb]"

definition shown :: "vnc_format \<Rightarrow> vnc_screen \<Rightarrow> nat \<Rightarrow> nat \<Rightarrow> nat \<Rightarrow> nat \<Rightarrow> u32 list \<Rightarrow> u32 list" where
  "shown f s x y width height fb =
     map (\<lambda>p. if in_rect (vs_width s) x y width height p then pixel_of f (vs_prev s ! p) else fb ! p) [0..<length fb]"

definition rect_row :: "vnc_format \<Rightarrow> vnc_screen \<Rightarrow> nat \<Rightarrow> nat \<Rightarrow> nat \<Rightarrow> u32 list" where
  "rect_row f s x y width = map (\<lambda>column. pixel_of f (vs_prev s ! (y * vs_width s + x + column))) [0..<width]"

definition rect_pixels :: "vnc_format \<Rightarrow> vnc_screen \<Rightarrow> nat \<Rightarrow> nat \<Rightarrow> nat \<Rightarrow> nat \<Rightarrow> u32 list" where
  "rect_pixels f s x y width height = concat (map (\<lambda>row. rect_row f s x (y + row) width) [0..<height])"

lemma length_rect_pixels [simp]: "length (rect_pixels f s x y width height) = height * width"
  using length_concat_const [of "[0..<height]" "\<lambda>row. rect_row f s x (y + row) width" width]
  by (simp add: rect_pixels_def rect_row_def)

lemma nth_rect_pixels:
  assumes "r < height" "c < width"
  shows "rect_pixels f s x y width height ! (r * width + c) = pixel_of f (vs_prev s ! ((y + r) * vs_width s + x + c))"
  unfolding rect_pixels_def
  using assms by (subst nth_concat_const) (simp_all add: rect_row_def)

lemma rect_pixels_fit: "format_ok f \<Longrightarrow> p \<in> set (rect_pixels f s x y width height) \<Longrightarrow> unat p < 2 ^ unat (bpp f)"
  using pixel_fits by (auto simp: rect_pixels_def rect_row_def)

lemma put_rect_pixels:
  assumes "0 < vs_width s"
  shows "put_rect (vs_width s) x y width height (rect_pixels f s x y width height) fb = shown f s x y width height fb"
proof -
  have "rect_pixels f s x y width height ! ((p div vs_width s - y) * width + (p mod vs_width s - x)) = pixel_of f (vs_prev s ! p)"
    if "in_rect (vs_width s) x y width height p" for p
  proof -
    have r: "p div vs_width s - y < height" and c: "p mod vs_width s - x < width"
      using that by (auto simp: in_rect_def)
    have "(y + (p div vs_width s - y)) * vs_width s + x + (p mod vs_width s - x) = p"
      using that div_mult_mod_eq [of p "vs_width s"] by (simp add: in_rect_def)
    then show ?thesis using nth_rect_pixels [OF r c] by simp
  qed
  then show ?thesis by (simp add: put_rect_def shown_def)
qed

text \<open>A framebuffer that shows the previous frame stays right when more of it is painted, and is wholly
  right on the rectangle.\<close>

lemma nth_shown:
  "p < length fb \<Longrightarrow> shown f s x y width height fb ! p =
     (if in_rect (vs_width s) x y width height p then pixel_of f (vs_prev s ! p) else fb ! p)"
  by (simp add: shown_def)

lemma length_shown [simp]: "length (shown f s x y width height fb) = length fb"
  by (simp add: shown_def)

subsection \<open>Raw\<close>

definition view_raw :: "vnc_format \<Rightarrow> nat \<Rightarrow> nat \<Rightarrow> nat \<Rightarrow> nat \<Rightarrow> nat \<Rightarrow> u32 list \<Rightarrow> bytes \<Rightarrow> (u32 list \<times> bytes) option" where
  "view_raw f w x y width height fb bs =
     do { (ps, rest) \<leftarrow> view_pixels f (width * height) bs; Some (put_rect w x y width height ps fb, rest) }"

lemma row_pixels_eq:
  assumes "frame_ok s" and "y < vs_height s" and "x + width \<le> vs_width s"
  shows "row_pixels (px_of f) s x y width = Some (rect_row f s x y width)"
  unfolding row_pixels_def rect_row_def
proof (rule those_map)
  fix c assume "c \<in> set [0..<width]"
  then have "y * vs_width s + x + c < length (vs_prev s)"
    using row_bound [OF assms(2,3)] assms(1) by (simp add: frame_ok_def)
  then show "do { p \<leftarrow> rd (vs_prev s) (y * vs_width s + x + c); vnc_translate (px_of f) p } =
      Some (pixel_of f (vs_prev s ! (y * vs_width s + x + c)))"
    by (simp add: rd_def translate_eq)
qed

lemma pixel_bytes_4: "format_ok f \<Longrightarrow> pixel_bytes (px_of f) = unat (bpp f) div 8 \<and> unat (bpp f) div 8 \<le> 4 \<and> 0 < unat (bpp f) div 8"
  by (auto simp: format_ok_def px_of_def)

lemma encode_raw_emits:
  assumes f: "format_ok f" and s: "frame_ok s" and fit: "x + width \<le> vs_width s" "y + height \<le> vs_height s"
    and net: "net_ok net"
  shows "emits (vnc_encode_raw (px_of f) s x y width height net) net
    (store_pixels (px_of f) (rect_pixels f s x y width height))"
proof -
  have "width * pixel_bytes (px_of f) \<le> 4096 * 4"
    using pixel_bytes_4 [OF f] fit s by (intro mult_le_mono) (simp_all add: frame_ok_def VNC_MAX_DIM_def)
  then have size: "width * pixel_bytes (px_of f) \<le> VNC_OUT_SIZE" by (simp add: VNC_OUT_SIZE_def)
  have "emits (vnc_encode_raw (px_of f) s x y width height net) net
      (concat (map (\<lambda>row. store_pixels (px_of f) (rect_row f s x (y + row) width)) [0..<0 + height]))"
    unfolding vnc_encode_raw_def
  proof (rule emits_for [OF net])
    fix row t assume row: "row < 0 + height" and t: "net_ok t"
    have "emits (vnc_emit (width * pixel_bytes (px_of f)) (store_pixels (px_of f) (rect_row f s x (y + row) width)) t) t
        (store_pixels (px_of f) (rect_row f s x (y + row) width))"
      by (rule emit_emits [OF t _ size])
        (use length_store_pixels [OF f] pixel_bytes_4 [OF f] in \<open>simp add: rect_row_def\<close>)
    then show "emits (do { ps \<leftarrow> row_pixels (px_of f) s x (y + row) width;
          vnc_emit (width * pixel_bytes (px_of f)) (store_pixels (px_of f) ps) t }) t
        (store_pixels (px_of f) (rect_row f s x (y + row) width))"
      using row_pixels_eq [OF s _ fit(1), of "y + row" f] row fit(2) by simp
  qed
  also have "concat (map (\<lambda>row. store_pixels (px_of f) (rect_row f s x (y + row) width)) [0..<0 + height]) =
      store_pixels (px_of f) (rect_pixels f s x y width height)"
    by (simp add: rect_pixels_def store_pixels_concat o_def)
  finally show ?thesis .
qed

lemma view_raw_shows:
  assumes "format_ok f" and "0 < vs_width s"
  shows "view_raw f (vs_width s) x y width height fb
      (store_pixels (px_of f) (rect_pixels f s x y width height) @ rest) = Some (shown f s x y width height fb, rest)"
  using view_stored_pixels [OF assms(1), of "rect_pixels f s x y width height" rest]
    rect_pixels_fit [OF assms(1)] put_rect_pixels [OF assms(2)]
  by (simp add: view_raw_def mult.commute)

end
