(* ===== verification/VncGrid.thy ===== *)
theory VncGrid
  imports VncView
begin

section \<open>The tiles of a rectangle\<close>

text \<open>
  The loops of the Hextile and ZRLE encoders over the tiles of a rectangle, as the list of the tiles they
  visit; the tiles lie in the rectangle and cover it, so painting each of them paints the rectangle.
\<close>

text \<open>The tiles of a rectangle, row by row; those at the right and the lower edge may be cut.\<close>

definition tile_grid :: "nat \<Rightarrow> nat \<Rightarrow> nat \<Rightarrow> nat \<Rightarrow> nat \<Rightarrow> (nat \<times> nat \<times> nat \<times> nat) list" where
  "tile_grid step x y width height =
     concat (map (\<lambda>j. map (\<lambda>i.
       (x + i * step, y + j * step,
        if width - i * step < step then width - i * step else step,
        if height - j * step < step then height - j * step else step))
       [0..<(width + step - 1) div step]) [0..<(height + step - 1) div step])"

text \<open>The side of a tile, cut at the end of the rectangle.\<close>

definition cut_side :: "nat \<Rightarrow> nat \<Rightarrow> nat \<Rightarrow> nat" where
  "cut_side step n i = (if n - i * step < step then n - i * step else step)"

lemma cut_side_bounds:
  assumes "0 < step" and "i < (n + step - 1) div step"
  shows "0 < cut_side step n i \<and> cut_side step n i \<le> step \<and> i * step + cut_side step n i \<le> n"
proof -
  have "Suc i * step \<le> (n + step - 1) div step * step" using assms(2) by (intro mult_le_mono1) simp
  also have "\<dots> \<le> n + step - 1" by (rule div_times_less_eq_dividend)
  finally have "i * step < n" using assms(1) by simp
  then show ?thesis using assms(1) by (auto simp: cut_side_def)
qed

lemma cut_side_holds:
  assumes "0 < step" and "a < n"
  shows "a div step < (n + step - 1) div step" "a div step * step \<le> a" "a < a div step * step + cut_side step n (a div step)"
proof -
  have split: "a div step * step + a mod step = a" "a mod step < step" using assms(1) by simp_all
  have "Suc (a div step) * step \<le> a + step" using split by simp
  also have "\<dots> \<le> n + step - 1" using assms by linarith
  finally have "Suc (a div step) \<le> (n + step - 1) div step" using assms(1) by (simp add: less_eq_div_iff_mult_less_eq)
  then show "a div step < (n + step - 1) div step" by simp
  show "a div step * step \<le> a" using split(1) by linarith
  show "a < a div step * step + cut_side step n (a div step)"
  proof (cases "n - a div step * step < step")
    case True
    then have "cut_side step n (a div step) = n - a div step * step" by (simp add: cut_side_def)
    then show ?thesis using assms(2) by linarith
  next
    case False
    then have "cut_side step n (a div step) = step" by (simp add: cut_side_def)
    then show ?thesis using split by linarith
  qed
qed

lemma set_tile_grid:
  "set (tile_grid step x y width height) =
     (\<Union>j \<in> {0..<(height + step - 1) div step}.
       (\<lambda>i. (x + i * step, y + j * step, cut_side step width i, cut_side step height j)) `
       {0..<(width + step - 1) div step})"
  by (simp only: tile_grid_def cut_side_def set_concat set_map set_upt image_image)

lemma tile_grid_fits:
  assumes "0 < step" and "(tx, ty, tw, th) \<in> set (tile_grid step x y width height)"
  shows "0 < tw \<and> tw \<le> step \<and> 0 < th \<and> th \<le> step \<and> x \<le> tx \<and> tx + tw \<le> x + width \<and> y \<le> ty \<and> ty + th \<le> y + height"
proof -
  obtain i j where "i < (width + step - 1) div step" "j < (height + step - 1) div step"
      "tx = x + i * step" "ty = y + j * step" "tw = cut_side step width i" "th = cut_side step height j"
    using assms(2) unfolding set_tile_grid by (elim UN_E imageE) simp
  then show ?thesis using cut_side_bounds [OF assms(1), of i width] cut_side_bounds [OF assms(1), of j height] by simp
qed

lemma tile_grid_covers:
  assumes "0 < step" and "in_rect w x y width height p"
  shows "\<exists>(tx, ty, tw, th) \<in> set (tile_grid step x y width height). in_rect w tx ty tw th p"
proof -
  define a where "a = p mod w - x"
  define b where "b = p div w - y"
  have at: "p mod w = x + a" "p div w = y + b" "a < width" "b < height" using assms(2) by (auto simp: in_rect_def a_def b_def)
  note ca = cut_side_holds [OF assms(1) at(3)] and cb = cut_side_holds [OF assms(1) at(4)]
  have "(x + a div step * step, y + b div step * step, cut_side step width (a div step), cut_side step height (b div step))
      \<in> set (tile_grid step x y width height)"
    unfolding set_tile_grid
    by (rule UN_I [of "b div step"], use cb(1) in simp, rule image_eqI [of _ _ "a div step"], use ca(1) in simp_all)
  moreover have "in_rect w (x + a div step * step) (y + b div step * step) (cut_side step width (a div step)) (cut_side step height (b div step)) p"
    unfolding in_rect_def at(1,2) add.assoc nat_add_left_cancel_le nat_add_left_cancel_less using ca(2,3) cb(2,3) by blast
  ultimately show ?thesis by blast
qed

subsection \<open>Painting tile by tile\<close>

lemma nth_fold_shown:
  assumes "p < length fb"
  shows "length (fold (\<lambda>(tx, ty, tw, th). shown f s tx ty tw th) tiles fb) = length fb \<and>
    fold (\<lambda>(tx, ty, tw, th). shown f s tx ty tw th) tiles fb ! p =
    (if \<exists>(tx, ty, tw, th) \<in> set tiles. in_rect (vs_width s) tx ty tw th p then pixel_of f (vs_prev s ! p) else fb ! p)"
  using assms
proof (induction tiles arbitrary: fb)
  case (Cons t tiles)
  obtain tx ty tw th where t: "t = (tx, ty, tw, th)" by (metis prod_cases4)
  show ?case using Cons.IH [of "shown f s tx ty tw th fb"] Cons.prems by (auto simp: t nth_shown)
qed simp

lemma fold_shown_grid:
  assumes step: "0 < step"
  shows "fold (\<lambda>(tx, ty, tw, th). shown f s tx ty tw th) (tile_grid step x y width height) fb = shown f s x y width height fb"
proof (cases "fb = []")
  case True
  have "length (fold (\<lambda>(tx, ty, tw, th). shown f s tx ty tw th) tiles fb) = length fb" for tiles
    by (induction tiles arbitrary: fb) auto
  then show ?thesis using True by (simp add: shown_def)
next
  case False
  have covered: "(\<exists>(tx, ty, tw, th) \<in> set (tile_grid step x y width height). in_rect (vs_width s) tx ty tw th p) \<longleftrightarrow>
      in_rect (vs_width s) x y width height p" for p
  proof
    assume "\<exists>(tx, ty, tw, th) \<in> set (tile_grid step x y width height). in_rect (vs_width s) tx ty tw th p"
    then obtain tx ty tw th where "(tx, ty, tw, th) \<in> set (tile_grid step x y width height)" "in_rect (vs_width s) tx ty tw th p"
      by blast
    then show "in_rect (vs_width s) x y width height p"
      using tile_grid_fits [OF step, of tx ty tw th x y width height] unfolding in_rect_def by linarith
  qed (rule tile_grid_covers [OF step])
  show ?thesis
  proof (rule nth_equalityI)
    have "0 < length fb" using False by simp
    then show "length (fold (\<lambda>(tx, ty, tw, th). shown f s tx ty tw th) (tile_grid step x y width height) fb) =
        length (shown f s x y width height fb)"
      using nth_fold_shown [of 0 fb] by simp
    fix p assume "p < length (fold (\<lambda>(tx, ty, tw, th). shown f s tx ty tw th) (tile_grid step x y width height) fb)"
    then have "p < length fb" using nth_fold_shown [OF \<open>0 < length fb\<close>] by simp
    then show "fold (\<lambda>(tx, ty, tw, th). shown f s tx ty tw th) (tile_grid step x y width height) fb ! p =
        shown f s x y width height fb ! p"
      using nth_fold_shown [of p fb] covered by (simp only: nth_shown)
  qed
qed

subsection \<open>The pixels of a tile\<close>

text \<open>The translated pixels of a tile; \<open>cap\<close> is the size of the array they are stored in.\<close>

definition tile_pixels :: "nat \<Rightarrow> vnc_px \<Rightarrow> vnc_screen \<Rightarrow> nat \<Rightarrow> nat \<Rightarrow> nat \<Rightarrow> nat \<Rightarrow> u32 list option" where
  "tile_pixels cap px s x0 y0 width height =
     do {
       rows \<leftarrow> those (map (\<lambda>row. row_pixels px s x0 (y0 + row) width) [0..<height]);
       if length (concat rows) \<le> cap then Some (concat rows) else None }"

lemma tile_pixels_eq:
  assumes "frame_ok s" and "x + width \<le> vs_width s" "y + height \<le> vs_height s" and "width * height \<le> cap"
  shows "tile_pixels cap (px_of f) s x y width height = Some (rect_pixels f s x y width height)"
proof -
  have "those (map (\<lambda>row. row_pixels (px_of f) s x (y + row) width) [0..<height]) =
      Some (map (\<lambda>row. rect_row f s x (y + row) width) [0..<height])"
    by (rule those_map) (use row_pixels_eq [OF assms(1) _ assms(2)] assms(3) in simp)
  then show ?thesis
    using assms(4) length_rect_pixels [of f s x y width height]
    by (simp add: tile_pixels_def rect_pixels_def mult.commute)
qed

end
