(* ===== verification/VncHextile.thy ===== *)
theory VncHextile
  imports VncGrid
begin

section \<open>The Hextile encoder\<close>

text \<open>
  Models the Hextile encoder of \<^verbatim>\<open>src/guest/vnc.c\<close>: tiles of 16 by 16 pixels, each of one colour, of
  subrectangles over a background, or raw, with the background and foreground carried from tile to
  tile. The globals \<^verbatim>\<open>vnc_hex_bg\<close> and so on are the record \<open>hex_state\<close>; the work arrays \<^verbatim>\<open>vnc_tile\<close>,
  \<^verbatim>\<open>vnc_covered\<close> and \<^verbatim>\<open>vnc_subrects\<close> are values of their sizes.
\<close>

definition VNC_HEX_RAW :: u8 where "VNC_HEX_RAW = 1"
definition VNC_HEX_BG :: u8 where "VNC_HEX_BG = 2"
definition VNC_HEX_FG :: u8 where "VNC_HEX_FG = 4"
definition VNC_HEX_ANY :: u8 where "VNC_HEX_ANY = 8"
definition VNC_HEX_COLOURED :: u8 where "VNC_HEX_COLOURED = 16"

record hex_state =
  hex_bg_valid :: bool
  hex_fg_valid :: bool
  hex_bg :: u32
  hex_fg :: u32

subsection \<open>Subrectangles\<close>

text \<open>A growing loop: up to \<open>limit\<close>, while the next row or column is free.\<close>

function grow :: "(nat \<Rightarrow> bool option) \<Rightarrow> nat \<Rightarrow> nat \<Rightarrow> nat option" where
  "grow free limit k =
     (if k < limit then do { ok \<leftarrow> free k; if ok then grow free limit (k + 1) else Some k } else Some k)"
  by pat_completeness auto
termination
  by (relation "measure (\<lambda>(_, limit, k). limit - k)") auto

declare grow.simps [simp del]

text \<open>A pixel ends a rectangle of \<open>colour\<close>.\<close>

definition blocked :: "u32 list \<Rightarrow> bool list \<Rightarrow> u32 \<Rightarrow> nat \<Rightarrow> bool option" where
  "blocked tile covered colour at =
     do { t \<leftarrow> rd tile at; if t \<noteq> colour then Some True else rd covered at }"

text \<open>The larger of the row-first and the column-first rectangle at \<open>(x, y)\<close>.\<close>

definition best_rect :: "u32 list \<Rightarrow> bool list \<Rightarrow> nat \<Rightarrow> nat \<Rightarrow> nat \<Rightarrow> nat \<Rightarrow> u32 \<Rightarrow> (nat \<times> nat) option" where
  "best_rect tile covered width height x y colour =
     do {
       run_w \<leftarrow> grow (\<lambda>i. do { b \<leftarrow> blocked tile covered colour (y * width + x + i); Some (\<not> b) }) (width - x) 1;
       run_h \<leftarrow> grow (\<lambda>j. do {
         b \<leftarrow> any_up 0 run_w (\<lambda>i. blocked tile covered colour ((y + j) * width + x + i)); Some (\<not> b) }) (height - y) 1;
       alt_h \<leftarrow> grow (\<lambda>j. do { b \<leftarrow> blocked tile covered colour ((y + j) * width + x); Some (\<not> b) }) (height - y) 1;
       alt_w \<leftarrow> grow (\<lambda>i. do {
         b \<leftarrow> any_up 0 alt_h (\<lambda>j. blocked tile covered colour ((y + j) * width + x + i)); Some (\<not> b) }) (width - x) 1;
       Some (if alt_w * alt_h > run_w * run_h then (alt_w, alt_h) else (run_w, run_h)) }"

definition cover_rect :: "nat \<Rightarrow> nat \<Rightarrow> nat \<Rightarrow> nat \<Rightarrow> nat \<Rightarrow> bool list \<Rightarrow> bool list option" where
  "cover_rect width x y run_w run_h covered =
     for_up 0 run_h (\<lambda>j. for_up 0 run_w (\<lambda>i covered. wr covered ((y + j) * width + x + i) True)) covered"

record hex_work =
  hw_covered :: "bool list"
  hw_subrects :: bytes
  hw_used :: nat
  hw_count :: nat

text \<open>The bytes of one subrectangle, at the end of what is used.\<close>

definition put_subrect :: "vnc_px \<Rightarrow> bool \<Rightarrow> u32 \<Rightarrow> nat \<Rightarrow> nat \<Rightarrow> nat \<Rightarrow> nat \<Rightarrow> nat \<Rightarrow> nat \<Rightarrow> bytes \<Rightarrow> bytes option" where
  "put_subrect px two_tone colour x y run_w run_h used per subrects =
     do {
       subrects \<leftarrow> (if two_tone then Some subrects else wrs subrects (used - per) (vnc_store_pixel px colour));
       subrects \<leftarrow> wr subrects (used - 2) (of_nat x * 16 OR of_nat y);
       wr subrects (used - 1) (of_nat (run_w - 1) * 16 OR of_nat (run_h - 1)) }"

definition hextile_pixel ::
    "vnc_px \<Rightarrow> u32 list \<Rightarrow> nat \<Rightarrow> nat \<Rightarrow> u32 \<Rightarrow> bool \<Rightarrow> nat \<Rightarrow> nat \<Rightarrow> hex_work \<Rightarrow> (hex_work, unit, unit) outcome" where
  "hextile_pixel px tile width height bg two_tone y x s =
     (let limit = width * height * pixel_bytes px;
          per = (if two_tone then 2 else 2 + pixel_bytes px)
      in do {
        colour \<leftarrow> rd tile (y * width + x);
        done_before \<leftarrow> (if colour = bg then Some True else rd (hw_covered s) (y * width + x));
        if done_before then Some (s, Inr ())
        else do {
          (run_w, run_h) \<leftarrow> best_rect tile (hw_covered s) width height x y colour;
          covered \<leftarrow> cover_rect width x y run_w run_h (hw_covered s);
          let used = hw_used s + per;
          if hw_count s = 255 \<or> used \<ge> limit then Some (s\<lparr>hw_covered := covered, hw_used := used\<rparr>, Inl ())
          else do {
            subrects \<leftarrow> put_subrect px two_tone colour x y run_w run_h used per (hw_subrects s);
            Some (\<lparr>hw_covered = covered, hw_subrects = subrects, hw_used = used, hw_count = hw_count s + 1\<rparr>, Inr ()) } } })"

text \<open>\<open>Inl\<close> is the result -1; otherwise the count is \<open>hw_count\<close> and the bytes are the first \<open>hw_used\<close>.\<close>

definition vnc_hextile_subrects ::
    "vnc_px \<Rightarrow> u32 list \<Rightarrow> nat \<Rightarrow> nat \<Rightarrow> u32 \<Rightarrow> bool \<Rightarrow> bytes \<Rightarrow> (hex_work, unit, unit) outcome" where
  "vnc_hextile_subrects px tile width height bg two_tone subrects =
     for_out 0 height (\<lambda>y. for_out 0 width (hextile_pixel px tile width height bg two_tone y))
       \<lparr>hw_covered = replicate (VNC_TILE * VNC_TILE) False, hw_subrects = subrects, hw_used = 0, hw_count = 0\<rparr>"

subsection \<open>One tile\<close>

fun count_colour :: "u32 \<Rightarrow> u32 \<Rightarrow> u32 \<times> nat \<times> nat \<times> nat \<Rightarrow> u32 \<times> nat \<times> nat \<times> nat" where
  "count_colour first pixel (second, first_count, second_count, colours) =
     (if pixel = first then (second, first_count + 1, second_count, colours)
      else if colours = 1 then (pixel, first_count, 1, 2)
      else if pixel = second then (second, first_count, second_count + 1, colours)
      else (second, first_count, second_count, 3))"

text \<open>The background, the foreground of a tile of two colours, and how many colours there are (3 for more).\<close>

definition tile_colours :: "u32 list \<Rightarrow> (u32 \<times> u32 \<times> nat) option" where
  "tile_colours tile =
     do {
       first \<leftarrow> rd tile 0;
       let (second, first_count, second_count, colours) =
         foldl (\<lambda>c pixel. count_colour first pixel c) (0, 0, 0, 1) tile;
       let bg = (if colours \<ge> 2 \<and> second_count > first_count then second else first);
       Some (bg, if colours = 2 then if bg = first then second else first else 0, colours) }"

definition bg_flag :: "hex_state \<Rightarrow> u32 \<Rightarrow> u8" where
  "bg_flag hex bg = (if \<not> hex_bg_valid hex \<or> hex_bg hex \<noteq> bg then VNC_HEX_BG else 0)"

definition hex_solid :: "vnc_px \<Rightarrow> u32 \<Rightarrow> hex_state \<Rightarrow> vnc_net \<Rightarrow> hex_state net_result" where
  "hex_solid px bg hex net =
     (let flags = bg_flag hex bg in
      andthen (vnc_emit (1 + (if flags AND VNC_HEX_BG \<noteq> 0 then pixel_bytes px else 0))
          (flags # (if flags AND VNC_HEX_BG \<noteq> 0 then vnc_store_pixel px bg else [])) net)
        (\<lambda>_ net. Some (net, Inr (hex\<lparr>hex_bg := bg, hex_bg_valid := True\<rparr>))))"

definition hex_raw :: "vnc_px \<Rightarrow> u32 list \<Rightarrow> nat \<Rightarrow> nat \<Rightarrow> hex_state \<Rightarrow> vnc_net \<Rightarrow> hex_state net_result" where
  "hex_raw px tile width height hex net =
     andthen (vnc_emit (1 + width * height * pixel_bytes px) (VNC_HEX_RAW # store_pixels px tile) net)
       (\<lambda>_ net. Some (net, Inr (hex\<lparr>hex_bg_valid := False, hex_fg_valid := False\<rparr>)))"

definition body_flags :: "bool \<Rightarrow> u32 \<Rightarrow> u32 \<Rightarrow> hex_state \<Rightarrow> u8" where
  "body_flags two_tone bg fg hex =
     (let flags = bg_flag hex bg OR VNC_HEX_ANY in
      if \<not> two_tone then flags OR VNC_HEX_COLOURED
      else if \<not> hex_fg_valid hex \<or> hex_fg hex \<noteq> fg then flags OR VNC_HEX_FG else flags)"

definition hex_body ::
    "vnc_px \<Rightarrow> bool \<Rightarrow> u32 \<Rightarrow> u32 \<Rightarrow> hex_work \<Rightarrow> hex_state \<Rightarrow> vnc_net \<Rightarrow> hex_state net_result" where
  "hex_body px two_tone bg fg work hex net =
     (let flags = body_flags two_tone bg fg hex in
      do {
        body \<leftarrow> rds (hw_subrects work) 0 (hw_used work);
        andthen (vnc_emit (1 + (if flags AND VNC_HEX_BG \<noteq> 0 then pixel_bytes px else 0) +
              (if flags AND VNC_HEX_FG \<noteq> 0 then pixel_bytes px else 0) + 1 + hw_used work)
            (flags # (if flags AND VNC_HEX_BG \<noteq> 0 then vnc_store_pixel px bg else []) @
              (if flags AND VNC_HEX_FG \<noteq> 0 then vnc_store_pixel px fg else []) @
              of_nat (hw_count work) # body) net)
          (\<lambda>_ net. Some (net, Inr
            (if two_tone then \<lparr>hex_bg_valid = True, hex_fg_valid = True, hex_bg = bg, hex_fg = fg\<rparr>
             else hex\<lparr>hex_bg := bg, hex_bg_valid := True, hex_fg_valid := False\<rparr>))) })"

definition vnc_encode_hextile_tile ::
    "vnc_px \<Rightarrow> vnc_screen \<Rightarrow> nat \<Rightarrow> nat \<Rightarrow> nat \<Rightarrow> nat \<Rightarrow> bytes \<Rightarrow> hex_state \<Rightarrow> vnc_net \<Rightarrow> hex_state net_result" where
  "vnc_encode_hextile_tile px s x0 y0 width height subrects hex net =
     do {
       tile \<leftarrow> tile_pixels (VNC_TILE * VNC_TILE) px s x0 y0 width height;
       (bg, fg, colours) \<leftarrow> tile_colours tile;
       if colours = 1 then hex_solid px bg hex net
       else do {
         (work, r) \<leftarrow> vnc_hextile_subrects px tile width height bg (colours = 2) subrects;
         case r of
           Inl _ \<Rightarrow> hex_raw px tile width height hex net
         | Inr _ \<Rightarrow> hex_body px (colours = 2) bg fg work hex net } }"

subsection \<open>A rectangle\<close>

fun hextile_tiles ::
    "vnc_px \<Rightarrow> vnc_screen \<Rightarrow> bytes \<Rightarrow> (nat \<times> nat \<times> nat \<times> nat) list \<Rightarrow> hex_state \<Rightarrow> vnc_net \<Rightarrow> hex_state net_result" where
  "hextile_tiles px s subrects [] hex net = Some (net, Inr hex)"
| "hextile_tiles px s subrects ((tx, ty, tw, th) # tiles) hex net =
     andthen (vnc_encode_hextile_tile px s tx ty tw th subrects hex net)
       (\<lambda>hex net. hextile_tiles px s subrects tiles hex net)"

definition vnc_encode_hextile ::
    "vnc_px \<Rightarrow> vnc_screen \<Rightarrow> nat \<Rightarrow> nat \<Rightarrow> nat \<Rightarrow> nat \<Rightarrow> bytes \<Rightarrow> hex_state \<Rightarrow> vnc_net \<Rightarrow> hex_state net_result" where
  "vnc_encode_hextile px s x y width height subrects hex net =
     hextile_tiles px s subrects (tile_grid VNC_TILE x y width height)
       (hex\<lparr>hex_bg_valid := False, hex_fg_valid := False\<rparr>) net"

end
