(* ===== verification/Vncz.thy ===== *)
theory Vncz
  imports Loops
begin

section \<open>The deflate encoder of the VNC server\<close>

text \<open>
  Models \<^verbatim>\<open>src/guest/vncz.c\<close>: the bit sink, the fixed Huffman codes, the greedy matcher with one
  candidate per three-byte hash, and the block with its sync flush that one call emits. The bits
  waiting in the sink are a 32-bit word as in the code; positions in the input, which the hash
  table stores plus one so that 0 is empty, are natural numbers. \<open>None\<close> is an access outside a
  buffer or table, or a loop that does not end.
\<close>

definition VNC_DEFLATE_HASH_SIZE :: nat where "VNC_DEFLATE_HASH_SIZE = 4096"

definition vnc_length_base :: "nat list" where
  "vnc_length_base =
     [3, 4, 5, 6, 7, 8, 9, 10, 11, 13, 15, 17, 19, 23, 27, 31,
      35, 43, 51, 59, 67, 83, 99, 115, 131, 163, 195, 227, 258]"

definition vnc_length_extra :: "nat list" where
  "vnc_length_extra =
     [0, 0, 0, 0, 0, 0, 0, 0, 1, 1, 1, 1, 2, 2, 2, 2,
      3, 3, 3, 3, 4, 4, 4, 4, 5, 5, 5, 5, 0]"

definition vnc_distance_base :: "nat list" where
  "vnc_distance_base =
     [1, 2, 3, 4, 5, 7, 9, 13, 17, 25, 33, 49, 65, 97, 129, 193,
      257, 385, 513, 769, 1025, 1537, 2049, 3073, 4097, 6145, 8193, 12289,
      16385, 24577]"

definition vnc_distance_extra :: "nat list" where
  "vnc_distance_extra =
     [0, 0, 0, 0, 1, 1, 2, 2, 3, 3, 4, 4, 5, 5, 6, 6,
      7, 7, 8, 8, 9, 9, 10, 10, 11, 11, 12, 12, 13, 13]"

subsection \<open>The bit sink\<close>

record vnc_bits =
  sink_out :: bytes
  sink_length :: nat
  sink_capacity :: nat
  sink_bits :: u32
  sink_count :: nat
  sink_failed :: bool

function vnc_bits_flush :: "vnc_bits \<Rightarrow> vnc_bits option" where
  "vnc_bits_flush sink =
     (if sink_count sink \<ge> 8 then
        if sink_length sink \<ge> sink_capacity sink
        then Some (sink\<lparr>sink_failed := True, sink_count := 0, sink_bits := 0\<rparr>)
        else do {
          out \<leftarrow> wr (sink_out sink) (sink_length sink) (ucast (sink_bits sink AND 0xff));
          vnc_bits_flush (sink\<lparr>sink_out := out, sink_length := sink_length sink + 1,
            sink_bits := drop_bit 8 (sink_bits sink), sink_count := sink_count sink - 8\<rparr>) }
      else Some sink)"
  by pat_completeness auto
termination
  by (relation "measure sink_count") auto

declare vnc_bits_flush.simps [simp del]

definition vnc_bits_put :: "vnc_bits \<Rightarrow> u32 \<Rightarrow> nat \<Rightarrow> vnc_bits option" where
  "vnc_bits_put sink v count =
     vnc_bits_flush (sink\<lparr>sink_bits := sink_bits sink OR push_bit (sink_count sink) v,
       sink_count := sink_count sink + count\<rparr>)"

fun reverse_bits :: "nat \<Rightarrow> u32 \<Rightarrow> u32 \<Rightarrow> u32" where
  "reverse_bits 0 code reversed = reversed"
| "reverse_bits (Suc n) code reversed =
     reverse_bits n (drop_bit 1 code) (push_bit 1 reversed OR (code AND 1))"

definition vnc_bits_code :: "vnc_bits \<Rightarrow> u32 \<Rightarrow> nat \<Rightarrow> vnc_bits option" where
  "vnc_bits_code sink code count = vnc_bits_put sink (reverse_bits count code 0) count"

subsection \<open>Symbols and matches\<close>

definition vnc_symbol :: "vnc_bits \<Rightarrow> nat \<Rightarrow> vnc_bits option" where
  "vnc_symbol sink symbol =
     (if symbol < 144 then vnc_bits_code sink (of_nat (0x30 + symbol)) 8
      else if symbol < 256 then vnc_bits_code sink (of_nat (0x190 + symbol - 144)) 9
      else if symbol < 280 then vnc_bits_code sink (of_nat (symbol - 256)) 7
      else vnc_bits_code sink (of_nat (0xc0 + symbol - 280)) 8)"

text \<open>The search of a base table from its end; going below the first entry is an illegal access.\<close>

primrec base_index :: "nat list \<Rightarrow> nat \<Rightarrow> nat \<Rightarrow> nat option" where
  "base_index table v 0 = do { b \<leftarrow> rd table 0; if b > v then None else Some 0 }"
| "base_index table v (Suc i) =
     do { b \<leftarrow> rd table (Suc i); if b > v then base_index table v i else Some (Suc i) }"

definition vnc_match :: "vnc_bits \<Rightarrow> nat \<Rightarrow> nat \<Rightarrow> vnc_bits option" where
  "vnc_match sink len dist =
     do {
       index \<leftarrow> base_index vnc_length_base len 28;
       sink \<leftarrow> vnc_symbol sink (257 + index);
       sink \<leftarrow> vnc_bits_put sink (of_nat (len - vnc_length_base ! index)) (vnc_length_extra ! index);
       index \<leftarrow> base_index vnc_distance_base dist 29;
       sink \<leftarrow> vnc_bits_code sink (of_nat index) 5;
       vnc_bits_put sink (of_nat (dist - vnc_distance_base ! index)) (vnc_distance_extra ! index) }"

subsection \<open>The matcher\<close>

definition vnc_hash3 :: "bytes \<Rightarrow> nat \<Rightarrow> nat option" where
  "vnc_hash3 inp at =
     do {
       b0 \<leftarrow> rd inp at;
       b1 \<leftarrow> rd inp (at + 1);
       b2 \<leftarrow> rd inp (at + 2);
       Some (unat (((push_bit 8 (ucast b0) OR ucast b1) XOR push_bit 4 (ucast b2)) AND
                   (of_nat VNC_DEFLATE_HASH_SIZE - 1 :: u32))) }"

function vnc_run :: "bytes \<Rightarrow> nat \<Rightarrow> nat \<Rightarrow> nat \<Rightarrow> nat \<Rightarrow> nat option" where
  "vnc_run inp from_at position limit run =
     (if run < limit then do {
        a \<leftarrow> rd inp (from_at + run);
        b \<leftarrow> rd inp (position + run);
        if a = b then vnc_run inp from_at position limit (run + 1) else Some run }
      else Some run)"
  by pat_completeness auto
termination
  by (relation "measure (\<lambda>(_, _, _, limit, run). limit - run)") auto

declare vnc_run.simps [simp del]

text \<open>The candidate of a position: the changed table, the length of the match (0 for none) and its
  distance.\<close>

definition vnc_find :: "bytes \<Rightarrow> nat \<Rightarrow> nat list \<Rightarrow> (nat list \<times> nat \<times> nat) option" where
  "vnc_find inp position head =
     (if position + 3 \<le> length inp then do {
        hash \<leftarrow> vnc_hash3 inp position;
        candidate \<leftarrow> rd head hash;
        head \<leftarrow> wr head hash (position + 1);
        if candidate \<noteq> 0 \<and> position - (candidate - 1) \<le> 32768 then do {
          let from_at = candidate - 1;
          let limit = length inp - position;
          run \<leftarrow> vnc_run inp from_at position (if limit > 258 then 258 else limit) 0;
          Some (head, if run \<ge> 3 then (run, position - from_at) else (0, 0)) }
        else Some (head, 0, 0) }
      else Some (head, 0, 0))"

definition vnc_enter :: "bytes \<Rightarrow> nat \<Rightarrow> nat \<Rightarrow> nat list \<Rightarrow> nat list option" where
  "vnc_enter inp position best head =
     for_up 1 (best - 1) (\<lambda>step head.
       if position + step + 3 \<le> length inp then do {
         hash \<leftarrow> vnc_hash3 inp (position + step);
         wr head hash (position + step + 1) }
       else Some head) head"

definition vnc_step :: "bytes \<Rightarrow> vnc_bits \<Rightarrow> nat list \<Rightarrow> nat \<Rightarrow> (vnc_bits \<times> nat list \<times> nat) option" where
  "vnc_step inp sink head position =
     do {
       (head, best, dist) \<leftarrow> vnc_find inp position head;
       if best \<noteq> 0 then do {
         sink \<leftarrow> vnc_match sink best dist;
         head \<leftarrow> vnc_enter inp position best head;
         Some (sink, head, position + best) }
       else do {
         b \<leftarrow> rd inp position;
         sink \<leftarrow> vnc_symbol sink (unat b);
         Some (sink, head, position + 1) } }"

partial_function (option) vnc_loop :: "bytes \<Rightarrow> vnc_bits \<Rightarrow> nat list \<Rightarrow> nat \<Rightarrow> (vnc_bits \<times> nat list) option" where
  [code]: "vnc_loop inp sink head position =
     (if position < length inp \<and> \<not> sink_failed sink then do {
        (sink, head, position) \<leftarrow> vnc_step inp sink head position;
        vnc_loop inp sink head position }
      else Some (sink, head))"

subsection \<open>One call\<close>

record vnc_deflate =
  header_written :: bool
  deflate_head :: "nat list"

definition vnc_deflate_init :: "nat list \<Rightarrow> vnc_deflate" where
  "vnc_deflate_init head = \<lparr>header_written = False, deflate_head = head\<rparr>"

definition vnc_deflate_bound :: "nat \<Rightarrow> nat" where
  "vnc_deflate_bound n = n + n div 8 + 16"

definition vnc_sync_flush :: "vnc_bits \<Rightarrow> vnc_bits option" where
  "vnc_sync_flush sink =
     do {
       sink \<leftarrow> vnc_symbol sink 256;
       sink \<leftarrow> vnc_bits_put sink 0 3;
       sink \<leftarrow> (if sink_count sink > 0 then vnc_bits_put sink 0 (8 - sink_count sink) else Some sink);
       sink \<leftarrow> vnc_bits_put sink 0x0000 16;
       vnc_bits_put sink 0xffff 16 }"

definition vnc_sync_begin :: "vnc_deflate \<Rightarrow> bytes \<Rightarrow> nat \<Rightarrow> vnc_bits option" where
  "vnc_sync_begin stream out capacity =
     (let sink = \<lparr>sink_out = out, sink_length = 0, sink_capacity = capacity, sink_bits = 0, sink_count = 0,
                  sink_failed = False\<rparr>
      in do {
        sink \<leftarrow> (if \<not> header_written stream then do {
                    sink \<leftarrow> vnc_bits_put sink 0x78 8;
                    vnc_bits_put sink 0x01 8 }
                  else Some sink);
        sink \<leftarrow> vnc_bits_put sink 0 1;
        vnc_bits_put sink 1 2 })"

text \<open>The result is the changed stream, the output buffer and the bytes written, 0 when they do not
  fit.\<close>

definition vnc_deflate_sync :: "vnc_deflate \<Rightarrow> bytes \<Rightarrow> bytes \<Rightarrow> nat \<Rightarrow> (vnc_deflate \<times> bytes \<times> nat) option" where
  "vnc_deflate_sync stream inp out capacity =
     do {
       sink \<leftarrow> vnc_sync_begin stream out capacity;
       head \<leftarrow> for_up 0 VNC_DEFLATE_HASH_SIZE (\<lambda>index head. wr head index 0) (deflate_head stream);
       (sink, head) \<leftarrow> vnc_loop inp sink head 0;
       sink \<leftarrow> vnc_sync_flush sink;
       Some (\<lparr>header_written = True, deflate_head = head\<rparr>, sink_out sink,
             if sink_failed sink then 0 else sink_length sink) }"

end
