(* ===== verification/VncZrle.thy ===== *)
theory VncZrle
  imports VncHextile Vncz
begin

section \<open>The ZRLE encoder\<close>

text \<open>
  Models the ZRLE encoder of \<^verbatim>\<open>src/guest/vnc.c\<close>: tiles of up to 64 by 16 pixels, each in the smallest
  of five forms, collected in a buffer, deflated by the stream of the connection and sent with a length.
  The palette with its hash table of 256 slots and the buffer \<^verbatim>\<open>vnc_zraw\<close> with its length are the
  record \<open>vnc_zrle\<close>; the arrays keep what earlier tiles left in them. Sizes stay below \<open>2 ^ 20\<close>, so
  \<^verbatim>\<open>unsigned long\<close> is \<open>nat\<close>, and \<open>absent\<close> is the \<^verbatim>\<open>~0ul\<close> of a form that cannot be used. A failed
  send or deflate ends the connection; the state it leaves is not used again.
\<close>

definition VNC_ZRLE_TILE :: nat where "VNC_ZRLE_TILE = 64"

definition VNC_ZRLE_RAW_CAP :: nat where "VNC_ZRLE_RAW_CAP = VNC_MAX_DIM * VNC_TILE * 4 + 1024"

definition absent :: nat where "absent = 0xffffffff"

record vnc_zrle =
  zr_raw :: bytes
  zr_length :: nat
  zr_palette :: "u32 list"
  zr_count :: nat
  zr_keys :: "u32 list"
  zr_slots :: "nat list"

subsection \<open>The buffer\<close>

definition vnc_zput :: "u8 \<Rightarrow> vnc_zrle \<Rightarrow> vnc_zrle option" where
  "vnc_zput v z =
     do { raw \<leftarrow> wr (zr_raw z) (zr_length z) v; Some (z\<lparr>zr_raw := raw, zr_length := zr_length z + 1\<rparr>) }"

definition vnc_zput_cpixel :: "vnc_px \<Rightarrow> u32 \<Rightarrow> vnc_zrle \<Rightarrow> vnc_zrle option" where
  "vnc_zput_cpixel px pixel z =
     (let wire = vnc_store_pixel px pixel in
      for_up 0 (cpixel_bytes px) (\<lambda>index z. do { b \<leftarrow> rd wire (cpixel_skip px + index); vnc_zput b z }) z)"

function zput_run_rest :: "nat \<Rightarrow> vnc_zrle \<Rightarrow> vnc_zrle option" where
  "zput_run_rest v z =
     (if v \<ge> 255 then do { z \<leftarrow> vnc_zput 255 z; zput_run_rest (v - 255) z } else vnc_zput (of_nat v) z)"
  by pat_completeness auto
termination
  by (relation "measure fst") auto

declare zput_run_rest.simps [simp del]

definition vnc_zput_run_length :: "nat \<Rightarrow> vnc_zrle \<Rightarrow> vnc_zrle option" where
  "vnc_zput_run_length len z = zput_run_rest (len - 1) z"

definition vnc_zrun_bytes :: "nat \<Rightarrow> nat" where
  "vnc_zrun_bytes len = (len - 1) div 255 + 1"

subsection \<open>The palette\<close>

definition zpalette_home :: "u32 \<Rightarrow> nat" where
  "zpalette_home pixel = unat ((pixel XOR drop_bit 8 pixel XOR drop_bit 16 pixel XOR drop_bit 24 pixel) AND 0xff)"

text \<open>The slot of a pixel or the empty slot where it would go.\<close>

partial_function (option) zpalette_probe :: "nat list \<Rightarrow> u32 list \<Rightarrow> u32 \<Rightarrow> nat \<Rightarrow> nat option" where
  [code]: "zpalette_probe slots keys pixel slot =
     do {
       used \<leftarrow> rd slots slot;
       if used = 0 then Some slot
       else do {
         key \<leftarrow> rd keys slot;
         if key = pixel then Some slot else zpalette_probe slots keys pixel ((slot + 1) mod 256) } }"

text \<open>\<open>None\<close> is the result -1.\<close>

definition vnc_zpalette_index :: "u32 \<Rightarrow> vnc_zrle \<Rightarrow> (vnc_zrle \<times> nat option) option" where
  "vnc_zpalette_index pixel z =
     do {
       slot \<leftarrow> zpalette_probe (zr_slots z) (zr_keys z) pixel (zpalette_home pixel);
       used \<leftarrow> rd (zr_slots z) slot;
       if used = 0 then
         if zr_count z \<ge> 127 then Some (z, None)
         else do {
           palette \<leftarrow> wr (zr_palette z) (zr_count z) pixel;
           keys \<leftarrow> wr (zr_keys z) slot pixel;
           slots \<leftarrow> wr (zr_slots z) slot (zr_count z + 1);
           Some (z\<lparr>zr_palette := palette, zr_keys := keys, zr_slots := slots, zr_count := zr_count z + 1\<rparr>,
             Some (zr_count z)) }
       else Some (z, Some (used - 1)) }"

definition index_word :: "nat option \<Rightarrow> u32" where
  "index_word i = (case i of None \<Rightarrow> 0xffffffff | Some i \<Rightarrow> of_nat i)"

definition zput_palette :: "vnc_px \<Rightarrow> vnc_zrle \<Rightarrow> vnc_zrle option" where
  "zput_palette px z =
     for_up 0 (zr_count z) (\<lambda>index z. do { pixel \<leftarrow> rd (zr_palette z) index; vnc_zput_cpixel px pixel z }) z"

subsection \<open>Runs\<close>

function zrun :: "u32 list \<Rightarrow> nat \<Rightarrow> nat \<Rightarrow> nat \<Rightarrow> nat option" where
  "zrun tile count index run =
     (if index + run < count then do {
        a \<leftarrow> rd tile (index + run);
        b \<leftarrow> rd tile index;
        if a = b then zrun tile count index (run + 1) else Some run }
      else Some run)"
  by pat_completeness auto
termination
  by (relation "measure (\<lambda>(_, count, index, run). count - (index + run))") auto

declare zrun.simps [simp del]

text \<open>The loop over the runs of a tile; a run is at least one pixel, so it moves on, and \<open>None\<close> would be
  a run of length 0.\<close>

function for_runs :: "u32 list \<Rightarrow> nat \<Rightarrow> nat \<Rightarrow> (u32 \<Rightarrow> nat \<Rightarrow> 's \<Rightarrow> 's option) \<Rightarrow> 's \<Rightarrow> 's option" where
  "for_runs tile count index f s =
     (if index < count then do {
        run \<leftarrow> zrun tile count index 1;
        pixel \<leftarrow> rd tile index;
        s \<leftarrow> f pixel run s;
        if run = 0 then None else for_runs tile count (index + run) f s }
      else Some s)"
  by pat_completeness auto
termination
  by (relation "measure (\<lambda>(_, count, index, _). count - index)") auto

declare for_runs.simps [simp del]

text \<open>The survey of a tile: its palette, whether there are too many colours, and the sizes of plain and
  of palette run-length encoding.\<close>

type_synonym survey = "vnc_zrle \<times> bool \<times> nat \<times> nat"

definition survey_run :: "vnc_px \<Rightarrow> u32 \<Rightarrow> nat \<Rightarrow> survey \<Rightarrow> survey option" where
  "survey_run px pixel run = (\<lambda>(z, too_many, plain_size, palette_rle_size). do {
     (z, too_many) \<leftarrow> (if \<not> too_many then do { (z, i) \<leftarrow> vnc_zpalette_index pixel z; Some (z, i = None) } else Some (z, True));
     Some (z, too_many, plain_size + (cpixel_bytes px + vnc_zrun_bytes run),
       palette_rle_size + (if run = 1 then 1 else 1 + vnc_zrun_bytes run)) })"

definition zrle_survey :: "vnc_px \<Rightarrow> u32 list \<Rightarrow> nat \<Rightarrow> vnc_zrle \<Rightarrow> survey option" where
  "zrle_survey px tile count z =
     for_runs tile count 0 (survey_run px) (z\<lparr>zr_slots := replicate 256 0, zr_count := 0\<rparr>, False, 0, 0)"

subsection \<open>The five forms of a tile\<close>

definition zrle_solid :: "vnc_px \<Rightarrow> vnc_zrle \<Rightarrow> vnc_zrle option" where
  "zrle_solid px z =
     do { z \<leftarrow> vnc_zput 1 z; pixel \<leftarrow> rd (zr_palette z) 0; vnc_zput_cpixel px pixel z }"

definition zpack_pixel :: "u32 list \<Rightarrow> nat \<Rightarrow> nat \<Rightarrow> nat \<Rightarrow> nat \<Rightarrow> vnc_zrle \<times> u32 \<times> nat \<Rightarrow> (vnc_zrle \<times> u32 \<times> nat) option" where
  "zpack_pixel tile width bits row column = (\<lambda>(z, byte, filled). do {
     pixel \<leftarrow> rd tile (row * width + column);
     (z, i) \<leftarrow> vnc_zpalette_index pixel z;
     let byte = push_bit bits byte OR index_word i;
     let filled = filled + bits;
     if filled = 8 then do { z \<leftarrow> vnc_zput (ucast byte) z; Some (z, 0, 0) } else Some (z, byte, filled) })"

definition zpack_row :: "u32 list \<Rightarrow> nat \<Rightarrow> nat \<Rightarrow> nat \<Rightarrow> vnc_zrle \<Rightarrow> vnc_zrle option" where
  "zpack_row tile width bits row z =
     do {
       (z, byte, filled) \<leftarrow> for_up 0 width (zpack_pixel tile width bits row) (z, 0, 0);
       if filled \<noteq> 0 then vnc_zput (ucast (push_bit (8 - filled) byte)) z else Some z }"

definition zrle_packed :: "vnc_px \<Rightarrow> u32 list \<Rightarrow> nat \<Rightarrow> nat \<Rightarrow> nat \<Rightarrow> vnc_zrle \<Rightarrow> vnc_zrle option" where
  "zrle_packed px tile width height bits z =
     do {
       z \<leftarrow> vnc_zput (of_nat (zr_count z)) z;
       z \<leftarrow> zput_palette px z;
       for_up 0 height (zpack_row tile width bits) z }"

definition zrle_palette_run :: "u32 \<Rightarrow> nat \<Rightarrow> vnc_zrle \<Rightarrow> vnc_zrle option" where
  "zrle_palette_run pixel run z =
     do {
       (z, i) \<leftarrow> vnc_zpalette_index pixel z;
       let entry = (ucast (index_word i) :: u8);
       if run = 1 then vnc_zput entry z
       else do { z \<leftarrow> vnc_zput (entry OR 128) z; vnc_zput_run_length run z } }"

definition zrle_palette_rle :: "vnc_px \<Rightarrow> u32 list \<Rightarrow> nat \<Rightarrow> vnc_zrle \<Rightarrow> vnc_zrle option" where
  "zrle_palette_rle px tile count z =
     do {
       z \<leftarrow> vnc_zput (of_nat (128 + zr_count z)) z;
       z \<leftarrow> zput_palette px z;
       for_runs tile count 0 zrle_palette_run z }"

definition zrle_plain :: "vnc_px \<Rightarrow> u32 list \<Rightarrow> nat \<Rightarrow> vnc_zrle \<Rightarrow> vnc_zrle option" where
  "zrle_plain px tile count z =
     do {
       z \<leftarrow> vnc_zput 128 z;
       for_runs tile count 0 (\<lambda>pixel run z. do { z \<leftarrow> vnc_zput_cpixel px pixel z; vnc_zput_run_length run z }) z }"

definition zrle_raw :: "vnc_px \<Rightarrow> u32 list \<Rightarrow> nat \<Rightarrow> vnc_zrle \<Rightarrow> vnc_zrle option" where
  "zrle_raw px tile count z =
     do {
       z \<leftarrow> vnc_zput 0 z;
       for_up 0 count (\<lambda>index z. do { pixel \<leftarrow> rd tile index; vnc_zput_cpixel px pixel z }) z }"

definition pack_bits :: "nat \<Rightarrow> nat" where
  "pack_bits count = (if count \<le> 2 then 1 else if count \<le> 4 then 2 else 4)"

text \<open>Packing is for up to 16 colours. The smallest form is taken; on a tie packed comes before palette
  run-length, that before plain run-length, and raw comes last.\<close>

definition vnc_encode_zrle_tile ::
    "vnc_px \<Rightarrow> vnc_screen \<Rightarrow> nat \<Rightarrow> nat \<Rightarrow> nat \<Rightarrow> nat \<Rightarrow> vnc_zrle \<Rightarrow> vnc_zrle option" where
  "vnc_encode_zrle_tile px s x0 y0 width height z =
     do {
       tile \<leftarrow> tile_pixels (VNC_ZRLE_TILE * VNC_TILE) px s x0 y0 width height;
       let count = width * height;
       (z, too_many, plain_size, palette_rle_size) \<leftarrow> zrle_survey px tile count z;
       if \<not> too_many \<and> zr_count z = 1 then zrle_solid px z
       else
         let raw_size = count * cpixel_bytes px;
             bits = pack_bits (zr_count z);
             packed_size = (if \<not> too_many \<and> zr_count z \<le> 16
               then zr_count z * cpixel_bytes px + height * ((width * bits + 7) div 8) else absent);
             palette_rle_size = (if too_many then absent else palette_rle_size + zr_count z * cpixel_bytes px);
             best = raw_size;
             best = (if plain_size < best then plain_size else best);
             best = (if palette_rle_size < best then palette_rle_size else best);
             best = (if packed_size < best then packed_size else best)
         in
         if best = packed_size then zrle_packed px tile width height bits z
         else if best = palette_rle_size then zrle_palette_rle px tile count z
         else if best = plain_size then zrle_plain px tile count z
         else zrle_raw px tile count z }"

subsection \<open>A rectangle\<close>

fun zrle_tiles :: "vnc_px \<Rightarrow> vnc_screen \<Rightarrow> (nat \<times> nat \<times> nat \<times> nat) list \<Rightarrow> vnc_zrle \<Rightarrow> vnc_zrle option" where
  "zrle_tiles px s [] z = Some z"
| "zrle_tiles px s ((tx, ty, tw, th) # tiles) z =
     do { z \<leftarrow> vnc_encode_zrle_tile px s tx ty tw th z; zrle_tiles px s tiles z }"

function send_parts :: "bytes \<Rightarrow> nat \<Rightarrow> nat \<Rightarrow> vnc_net \<Rightarrow> unit net_result" where
  "send_parts zout packed sent net =
     (if sent < packed then
        let part = (if packed - sent > 32768 then 32768 else packed - sent) in do {
          data \<leftarrow> rds zout sent part;
          andthen (vnc_emit part data net) (\<lambda>_ net. send_parts zout packed (sent + part) net) }
      else Some (net, Inr ()))"
  by pat_completeness auto
termination
  by (relation "measure (\<lambda>(_, packed, sent, _). packed - sent)") auto

declare send_parts.simps [simp del]

text \<open>What a connection keeps for ZRLE: the work record, the deflate stream and its output buffer.\<close>

record zrle_link =
  zl_work :: vnc_zrle
  zl_stream :: vnc_deflate
  zl_out :: bytes

definition vnc_encode_zrle ::
    "vnc_px \<Rightarrow> vnc_screen \<Rightarrow> nat \<Rightarrow> nat \<Rightarrow> nat \<Rightarrow> nat \<Rightarrow> zrle_link \<Rightarrow> vnc_net \<Rightarrow> zrle_link net_result" where
  "vnc_encode_zrle px s x y width height link net =
     do {
       work \<leftarrow> zrle_tiles px s (tile_grid VNC_ZRLE_TILE x y width height) ((zl_work link)\<lparr>zr_length := 0\<rparr>);
       raw \<leftarrow> rds (zr_raw work) 0 (zr_length work);
       (stream, out, packed) \<leftarrow> vnc_deflate_sync (zl_stream link) raw (zl_out link) (vnc_deflate_bound VNC_ZRLE_RAW_CAP);
       if packed = 0 then Some (net, Inl ())
       else
         andthen (vnc_emit 4 (vnc_put32 (of_nat packed)) net) (\<lambda>_ net.
           andthen (send_parts out packed 0 net) (\<lambda>_ net.
             Some (net, Inr \<lparr>zl_work = work, zl_stream = stream, zl_out = out\<rparr>))) }"

end
