(* ===== verification/VncUpdate.thy ===== *)
theory VncUpdate
  imports VncZrle
begin

section \<open>Updates: moved windows, the cursor and the dirty tiles\<close>

text \<open>
  Models the part of \<^verbatim>\<open>src/guest/vnc.c\<close> between a captured frame and the bytes of one update: the
  detection of a moved window, the pseudo-rectangles of the cursor, the rectangles of the dirty
  tiles, and the step of \<^verbatim>\<open>vnc_serve\<close> that puts them together. Window and cursor coordinates are
  \<open>int\<close>: Windows keeps them far from the limits of \<^verbatim>\<open>LONG\<close>. What the worker records with a
  capture, the foreground window (\<open>0\<close> for none) with its rectangle and the shape and place of the
  cursor, is part of the state.
\<close>

definition VNC_ENC_RAW :: u32 where "VNC_ENC_RAW = 0"
definition VNC_ENC_COPYRECT :: u32 where "VNC_ENC_COPYRECT = 1"
definition VNC_ENC_HEXTILE :: u32 where "VNC_ENC_HEXTILE = 5"
definition VNC_ENC_ZRLE :: u32 where "VNC_ENC_ZRLE = 16"
definition VNC_ENC_DESKTOP_SIZE :: u32 where "VNC_ENC_DESKTOP_SIZE = - 223"
definition VNC_ENC_RICH_CURSOR :: u32 where "VNC_ENC_RICH_CURSOR = - 239"
definition VNC_ENC_POINTER_POS :: u32 where "VNC_ENC_POINTER_POS = - 232"
definition VNC_COPY_MIN :: int where "VNC_COPY_MIN = 32"
definition VNC_CURSOR_MAX :: nat where "VNC_CURSOR_MAX = 64"

subsection \<open>A moved window\<close>

text \<open>Left, upper, right and lower edge.\<close>

type_synonym edges = "int \<times> int \<times> int \<times> int"

record vnc_move =
  mv_use :: bool
  mv_window :: nat
  mv_rect :: edges
  mv_last :: nat
  mv_last_rect :: edges
  mv_pending :: bool
  mv_x :: int
  mv_y :: int
  mv_w :: int
  mv_h :: int
  mv_src_x :: int
  mv_src_y :: int

text \<open>The copy within one array, in whole pixels: upwards or downwards, so that no pixel is
  overwritten before it is read.\<close>

definition vnc_move_bytes :: "nat \<Rightarrow> nat \<Rightarrow> nat \<Rightarrow> u32 list \<Rightarrow> u32 list option" where
  "vnc_move_bytes target source count prev =
     (if target < source then
        for_up 0 count (\<lambda>k prev. do { p \<leftarrow> rd prev (source + k); wr prev (target + k) p }) prev
      else
        for_up 0 count (\<lambda>k prev. do {
          p \<leftarrow> rd prev (source + count - 1 - k); wr prev (target + count - 1 - k) p }) prev)"

text \<open>The destination of a move, clipped so that it and its source lie on the screen.\<close>

definition clip_move :: "int \<Rightarrow> int \<Rightarrow> edges \<Rightarrow> int \<Rightarrow> int \<Rightarrow> edges" where
  "clip_move width height now dx dy =
     (let (left, upper, right, lower) = now;
          x0 = (if left < 0 then 0 else left); x0 = (if x0 < dx then dx else x0);
          y0 = (if upper < 0 then 0 else upper); y0 = (if y0 < dy then dy else y0);
          x1 = (if right > width then width else right); x1 = (if x1 > width + dx then width + dx else x1);
          y1 = (if lower > height then height else lower); y1 = (if y1 > height + dy then height + dy else y1)
      in (x0, y0, x1, y1))"

definition window_moved :: "vnc_move \<Rightarrow> bool" where
  "window_moved m \<longleftrightarrow>
     (let (l, t, r, b) = mv_rect m; (l', t', r', b') = mv_last_rect m in
      mv_use m \<and> mv_window m \<noteq> 0 \<and> mv_window m = mv_last m \<and>
      r - l = r' - l' \<and> b - t = b' - t' \<and> (l \<noteq> l' \<or> t \<noteq> t'))"

definition move_rows :: "vnc_move \<Rightarrow> int \<Rightarrow> vnc_screen \<Rightarrow> u32 list option" where
  "move_rows m dy s =
     for_up 0 (nat (mv_h m)) (\<lambda>row prev.
       let r = (if dy > 0 then nat (mv_h m) - 1 - row else row) in
       vnc_move_bytes ((nat (mv_y m) + r) * vs_width s + nat (mv_x m))
         ((nat (mv_src_y m) + r) * vs_width s + nat (mv_src_x m)) (nat (mv_w m)) prev) (vs_prev s)"

definition vnc_detect_move :: "vnc_move \<Rightarrow> vnc_screen \<Rightarrow> (vnc_move \<times> vnc_screen) option" where
  "vnc_detect_move m s =
     (let m = m\<lparr>mv_pending := False\<rparr>;
          (left, upper, right, lower) = mv_rect m;
          (left', upper', right', lower') = mv_last_rect m;
          dx = left - left'; dy = upper - upper';
          (x0, y0, x1, y1) = clip_move (int (vs_width s)) (int (vs_height s)) (mv_rect m) dx dy
      in do {
        (m, s) \<leftarrow> (if window_moved m \<and> x1 - x0 \<ge> VNC_COPY_MIN \<and> y1 - y0 \<ge> VNC_COPY_MIN then do {
          let m = m\<lparr>mv_x := x0, mv_y := y0, mv_w := x1 - x0, mv_h := y1 - y0,
            mv_src_x := x0 - dx, mv_src_y := y0 - dy\<rparr>;
          prev \<leftarrow> move_rows m dy s;
          Some (m\<lparr>mv_pending := True\<rparr>, s\<lparr>vs_prev := prev\<rparr>) }
        else Some (m, s));
        Some (m\<lparr>mv_last := mv_window m, mv_last_rect := mv_rect m\<rparr>, s) })"

text \<open>A full frame only remembers the window.\<close>

definition forget_move :: "vnc_move \<Rightarrow> vnc_move" where
  "forget_move m = m\<lparr>mv_last := mv_window m, mv_last_rect := mv_rect m, mv_pending := False\<rparr>"

subsection \<open>The cursor\<close>

record vnc_cursor =
  cu_serial :: nat
  cu_w :: nat
  cu_h :: nat
  cu_hot_x :: nat
  cu_hot_y :: nat
  cu_rgb :: "u32 list"
  cu_mask :: "bool list"
  cu_at :: "int \<times> int"
  cu_at_valid :: bool
  cu_use_pos :: bool
  cu_sent_serial :: nat
  cu_pos_sent :: "int \<times> int"
  cu_pointer :: "int \<times> int"
  cu_seen :: nat
  cu_shown :: bool
  cu_reset :: bool

text \<open>
  A new shape is what \<^verbatim>\<open>DrawIconEx\<close> makes of a black and of a white surface of 64 by 64 pixels, both
  inputs: equal colours are an opaque pixel, black over black and white over white a transparent one,
  and what inverts the screen becomes opaque black.
\<close>

definition cursor_pixel :: "u32 \<Rightarrow> u32 \<Rightarrow> u32 \<times> bool" where
  "cursor_pixel on_black on_white =
     (let on_black = on_black AND 0xffffff; on_white = on_white AND 0xffffff in
      if on_black = on_white then (on_black, True)
      else if on_black = 0 \<and> on_white = 0xffffff then (0, False)
      else (0, True))"

definition cursor_side :: "int \<Rightarrow> nat" where
  "cursor_side n = (if n \<le> 0 \<or> n > int VNC_CURSOR_MAX then 32 else nat n)"

text \<open>
  \<open>info\<close> is what \<^verbatim>\<open>GetCursorInfo\<close> reports (flags, cursor, position; \<open>None\<close> when there is no such call
  or it fails), \<open>surface\<close> whether the surfaces exist, \<open>metrics\<close> the cursor size of the system, and \<open>hot\<close>
  the hot spot of the icon, 0 when it is not known. The copy of the black drawing that the code keeps
  in rows of the cursor's width is read through its index.
\<close>

definition vnc_grab_cursor ::
    "(u32 \<times> nat \<times> int \<times> int) option \<Rightarrow> bool \<Rightarrow> int \<times> int \<Rightarrow> nat \<times> nat \<Rightarrow> u32 list \<Rightarrow> u32 list \<Rightarrow> vnc_cursor \<Rightarrow> vnc_cursor option" where
  "vnc_grab_cursor info surface metrics hot black white c =
     (case info of
        None \<Rightarrow> Some c
      | Some (flags, cursor, at) \<Rightarrow>
          let shown = (flags AND 1 \<noteq> 0 \<and> cursor \<noteq> 0); reset = cu_reset c;
              c = c\<lparr>cu_at := at, cu_at_valid := True, cu_reset := False\<rparr> in
          if \<not> reset \<and> shown = cu_shown c \<and> (\<not> shown \<or> cursor = cu_seen c) then Some c
          else
            let c = c\<lparr>cu_seen := cursor, cu_shown := shown, cu_serial := (cu_serial c + 1) mod 2 ^ 32\<rparr> in
            if \<not> shown \<or> \<not> surface then do {
              rgb \<leftarrow> wr (cu_rgb c) 0 0;
              mask \<leftarrow> wr (cu_mask c) 0 False;
              Some (c\<lparr>cu_w := 1, cu_h := 1, cu_hot_x := 0, cu_hot_y := 0, cu_rgb := rgb, cu_mask := mask\<rparr>) }
            else
              let width = cursor_side (fst metrics); height = cursor_side (snd metrics)
              in do {
                (rgb, mask) \<leftarrow> for_up 0 (width * height) (\<lambda>index (rgb, mask). do {
                  on_black \<leftarrow> rd black (index div width * VNC_CURSOR_MAX + index mod width);
                  on_white \<leftarrow> rd white (index div width * VNC_CURSOR_MAX + index mod width);
                  rgb \<leftarrow> wr rgb index (fst (cursor_pixel on_black on_white));
                  mask \<leftarrow> wr mask index (snd (cursor_pixel on_black on_white));
                  Some (rgb, mask) }) (cu_rgb c, cu_mask c);
                Some (c\<lparr>cu_w := width, cu_h := height,
                  cu_hot_x := if fst hot < width then fst hot else 0, cu_hot_y := if snd hot < height then snd hot else 0,
                  cu_rgb := rgb, cu_mask := mask\<rparr>) })"

definition vnc_cursor_shape_due :: "vnc_screen \<Rightarrow> vnc_cursor \<Rightarrow> bool" where
  "vnc_cursor_shape_due s c \<longleftrightarrow> vs_rich s \<and> cu_serial c \<noteq> cu_sent_serial c"

definition vnc_cursor_pos_due :: "vnc_cursor \<Rightarrow> vnc_cursor \<times> bool" where
  "vnc_cursor_pos_due c =
     (if \<not> cu_use_pos c \<or> \<not> cu_at_valid c then (c, False)
      else if cu_at c = cu_pos_sent c then (c, False)
      else if cu_at c = cu_pointer c then (c\<lparr>cu_pos_sent := cu_at c\<rparr>, False)
      else (c, True))"

text \<open>One row of the mask, most significant bit first.\<close>

definition mask_row :: "vnc_cursor \<Rightarrow> nat \<Rightarrow> nat \<Rightarrow> bytes option" where
  "mask_row c row_bytes row =
     for_up 0 (cu_w c) (\<lambda>column at. do {
       opaque \<leftarrow> rd (cu_mask c) (row * cu_w c + column);
       if opaque then do {
         b \<leftarrow> rd at (column div 8);
         wr at (column div 8) (b OR drop_bit (column mod 8) 0x80) }
       else Some at }) (replicate row_bytes 0)"

definition vnc_send_cursor_shape :: "vnc_px \<Rightarrow> vnc_cursor \<Rightarrow> vnc_net \<Rightarrow> vnc_cursor net_result" where
  "vnc_send_cursor_shape px c net =
     (let row_bytes = (cu_w c + 7) div 8 in
      andthen (vnc_rect_header (cu_hot_x c) (cu_hot_y c) (cu_w c) (cu_h c) VNC_ENC_RICH_CURSOR net) (\<lambda>_ net. do {
        pixels \<leftarrow> those (map (\<lambda>index. do { p \<leftarrow> rd (cu_rgb c) index; vnc_translate px p }) [0..<cu_w c * cu_h c]);
        rows \<leftarrow> those (map (mask_row c row_bytes) [0..<cu_h c]);
        andthen (vnc_emit (cu_w c * cu_h c * pixel_bytes px + row_bytes * cu_h c) (store_pixels px pixels @ concat rows) net)
          (\<lambda>_ net. Some (net, Inr (c\<lparr>cu_sent_serial := cu_serial c\<rparr>))) }))"

subsection \<open>The rectangles\<close>

record vnc_conn =
  cn_px :: vnc_px
  cn_zrle :: bool
  cn_hextile :: bool
  cn_hex :: hex_state
  cn_subrects :: bytes
  cn_link :: zrle_link

definition vnc_send_rect :: "vnc_screen \<Rightarrow> nat \<times> nat \<times> nat \<times> nat \<Rightarrow> vnc_conn \<Rightarrow> vnc_net \<Rightarrow> vnc_conn net_result" where
  "vnc_send_rect s = (\<lambda>(x, y, width, height) c net.
     if cn_zrle c then
       andthen (vnc_rect_header x y width height VNC_ENC_ZRLE net) (\<lambda>_ net.
         andthen (vnc_encode_zrle (cn_px c) s x y width height (cn_link c) net) (\<lambda>link net.
           Some (net, Inr (c\<lparr>cn_link := link\<rparr>))))
     else if cn_hextile c then
       andthen (vnc_rect_header x y width height VNC_ENC_HEXTILE net) (\<lambda>_ net.
         andthen (vnc_encode_hextile (cn_px c) s x y width height (cn_subrects c) (cn_hex c) net) (\<lambda>hex net.
           Some (net, Inr (c\<lparr>cn_hex := hex\<rparr>))))
     else
       andthen (vnc_rect_header x y width height VNC_ENC_RAW net) (\<lambda>_ net.
         andthen (vnc_encode_raw (cn_px c) s x y width height net) (\<lambda>_ net. Some (net, Inr c))))"

text \<open>One row of tiles, from tile \<open>tile_x\<close> on: a rectangle per run of dirty tiles.\<close>

function send_band :: "vnc_screen \<Rightarrow> nat \<Rightarrow> nat \<Rightarrow> vnc_conn \<Rightarrow> vnc_net \<Rightarrow> vnc_conn net_result" where
  "send_band s tile_y tile_x c net =
     (if tile_x < vs_tiles_x s then do {
        first \<leftarrow> rd (vs_dirty s) (tile_y * vs_tiles_x s + tile_x);
        if \<not> first then send_band s tile_y (tile_x + 1) c net
        else do {
          run \<leftarrow> suspect_run (vs_dirty s) (tile_y * vs_tiles_x s) tile_x (vs_tiles_x s) 1;
          let x = tile_x * VNC_TILE;
          let y = tile_y * VNC_TILE;
          let width = (if (tile_x + run) * VNC_TILE > vs_width s then vs_width s - x else run * VNC_TILE);
          let height = (if y + VNC_TILE > vs_height s then vs_height s - y else VNC_TILE);
          if run = 0 then None
          else andthen (vnc_send_rect s (x, y, width, height) c net) (\<lambda>c net. send_band s tile_y (tile_x + run) c net) } }
      else Some (net, Inr c))"
  by pat_completeness auto
termination
  by (relation "measure (\<lambda>(s, _, tile_x, _). vs_tiles_x s - tile_x)") auto

declare send_band.simps [simp del]

fun send_bands :: "vnc_screen \<Rightarrow> nat list \<Rightarrow> vnc_conn \<Rightarrow> vnc_net \<Rightarrow> vnc_conn net_result" where
  "send_bands s [] c net = Some (net, Inr c)"
| "send_bands s (tile_y # ys) c net = andthen (send_band s tile_y 0 c net) (\<lambda>c net. send_bands s ys c net)"

text \<open>The rectangles there will be: the tiles at which a run of dirty tiles starts.\<close>

definition count_runs :: "vnc_screen \<Rightarrow> nat option" where
  "count_runs s =
     for_up 0 (vs_tiles_y s) (\<lambda>tile_y. for_up 0 (vs_tiles_x s) (\<lambda>tile_x rects. do {
       dirty \<leftarrow> rd (vs_dirty s) (tile_y * vs_tiles_x s + tile_x);
       start \<leftarrow> (if \<not> dirty then Some False else if tile_x = 0 then Some True
         else do { left \<leftarrow> rd (vs_dirty s) (tile_y * vs_tiles_x s + tile_x - 1); Some (\<not> left) });
       Some (if start then rects + 1 else rects) })) 0"

subsection \<open>One update\<close>

definition send_copy :: "vnc_move \<Rightarrow> vnc_net \<Rightarrow> vnc_move net_result" where
  "send_copy m net =
     (if mv_pending m then
        andthen (vnc_rect_header (nat (mv_x m)) (nat (mv_y m)) (nat (mv_w m)) (nat (mv_h m)) VNC_ENC_COPYRECT net) (\<lambda>_ net.
          andthen (vnc_emit 4 (vnc_put16 (of_int (mv_src_x m)) @ vnc_put16 (of_int (mv_src_y m))) net) (\<lambda>_ net.
            Some (net, Inr (m\<lparr>mv_pending := False\<rparr>))))
      else Some (net, Inr m))"

definition send_position :: "bool \<Rightarrow> vnc_cursor \<Rightarrow> vnc_net \<Rightarrow> vnc_cursor net_result" where
  "send_position due c net =
     (if due then
        andthen (vnc_emit 12 (vnc_put16 (of_int (fst (cu_at c))) @ vnc_put16 (of_int (snd (cu_at c))) @
            vnc_put16 0 @ vnc_put16 0 @ vnc_put32 VNC_ENC_POINTER_POS) net)
          (\<lambda>_ net. Some (net, Inr (c\<lparr>cu_pos_sent := cu_at c\<rparr>)))
      else Some (net, Inr c))"

definition vnc_send_update ::
    "vnc_screen \<Rightarrow> vnc_move \<Rightarrow> vnc_cursor \<Rightarrow> vnc_conn \<Rightarrow> vnc_net \<Rightarrow> (vnc_move \<times> vnc_cursor \<times> vnc_conn) net_result" where
  "vnc_send_update s m cu c net =
     (let shape = vnc_cursor_shape_due s cu; (cu, position) = vnc_cursor_pos_due cu in do {
        runs \<leftarrow> count_runs s;
        let rects = runs + of_bool shape + of_bool position + of_bool (mv_pending m);
        if rects = 0 then Some (net, Inr (m, cu, c))
        else
          andthen (vnc_emit 4 ([0, 0] @ vnc_put16 (of_nat rects)) net) (\<lambda>_ net.
          andthen (send_copy m net) (\<lambda>m net.
          andthen (if shape then vnc_send_cursor_shape (cn_px c) cu net else Some (net, Inr cu)) (\<lambda>cu net.
          andthen (send_position position cu net) (\<lambda>cu net.
          andthen (send_bands s [0..<vs_tiles_y s] c net) (\<lambda>c net.
          andthen (vnc_flush net) (\<lambda>_ net. Some (net, Inr (m, cu, c)))))))) })"

definition vnc_send_desktop_size :: "vnc_screen \<Rightarrow> vnc_net \<Rightarrow> unit net_result" where
  "vnc_send_desktop_size s net =
     andthen (vnc_emit 4 ([0, 0] @ vnc_put16 1) net) (\<lambda>_ net.
     andthen (vnc_rect_header 0 0 (vs_width s) (vs_height s) VNC_ENC_DESKTOP_SIZE net) (\<lambda>_ net. vnc_flush net))"

subsection \<open>A captured frame\<close>

text \<open>The step of \<^verbatim>\<open>vnc_serve\<close> after a successful capture while the viewer waits for an update. The
  boolean says whether an update was sent.\<close>

definition serve_frame ::
    "bool \<Rightarrow> vnc_screen \<Rightarrow> vnc_move \<Rightarrow> vnc_cursor \<Rightarrow> vnc_conn \<Rightarrow> vnc_net \<Rightarrow>
     (bool \<times> vnc_screen \<times> vnc_move \<times> vnc_cursor \<times> vnc_conn) net_result" where
  "serve_frame full s m cu c net =
     do {
       (m, s) \<leftarrow> (if full then Some (forget_move m, s) else vnc_detect_move m s);
       (s, dirty) \<leftarrow> vnc_diff full s;
       let quiet = (dirty = 0 \<and> \<not> mv_pending m \<and> \<not> vnc_cursor_shape_due s cu);
       let (cu', position) = (if quiet then vnc_cursor_pos_due cu else (cu, False));
       if quiet \<and> \<not> position then Some (net, Inr (False, s, m, cu', c))
       else
         andthen (vnc_send_update s m cu' c net) (\<lambda>(m, cu, c) net. Some (net, Inr (True, s, m, cu, c))) }"

end
