(* ===== verification/VncMove.thy ===== *)
theory VncMove
  imports VncUpdate
begin

section \<open>Moved windows\<close>

text \<open>
  The copy that \<open>vnc_detect_move\<close> applies to the previous frame, against the copy a viewer makes of a
  CopyRect: all pixels at once, each from where it was before. The code copies row by row inside one
  array, with source and target overlapping; the order of the rows and of the pixels in a row is such
  that nothing is overwritten before it is read.
\<close>

text \<open>Where a pixel of the target rectangle comes from.\<close>

definition copied_from :: "nat \<Rightarrow> nat \<Rightarrow> nat \<Rightarrow> nat \<Rightarrow> nat \<Rightarrow> nat \<Rightarrow> nat" where
  "copied_from w x y sx sy p = (p div w - y + sy) * w + (p mod w - x + sx)"

definition copy_rect :: "nat \<Rightarrow> nat \<times> nat \<times> nat \<times> nat \<Rightarrow> nat \<Rightarrow> nat \<Rightarrow> 'a list \<Rightarrow> 'a list" where
  "copy_rect w = (\<lambda>(x, y, width, height) sx sy fb.
     map (\<lambda>p. if in_rect w x y width height p then fb ! copied_from w x y sx sy p else fb ! p) [0..<length fb])"

lemma copy_rect_map:
  assumes len: "length xs = w * h" and fit: "x + n \<le> w" "y + k \<le> h" "sx + n \<le> w" "sy + k \<le> h"
  shows "copy_rect w (x, y, n, k) sx sy (map g xs) = map g (copy_rect w (x, y, n, k) sx sy xs)"
proof -
  have "copied_from w x y sx sy p < length xs" if p: "in_rect w x y n k p" for p
  proof -
    have rows: "p div w - y + sy < h" and cols: "p mod w - x + sx + 1 \<le> w" using p fit by (auto simp: in_rect_def)
    show ?thesis using row_bound [OF rows cols] len unfolding copied_from_def by linarith
  qed
  then show ?thesis by (auto simp: copy_rect_def)
qed

subsection \<open>One row\<close>

lemma vnc_move_bytes_eq:
  assumes "target + count \<le> length prev" and "source + count \<le> length prev"
  shows "vnc_move_bytes target source count prev = Some (splice prev target (take count (drop source prev)))"
proof (cases "target < source")
  case True
  let ?inv = "\<lambda>j t. length t = length prev \<and>
    (\<forall>k < length prev. t ! k = (if target \<le> k \<and> k < target + j then prev ! (source + (k - target)) else prev ! k))"
  have "\<exists>t. for_up 0 count (\<lambda>k prev. do { p \<leftarrow> rd prev (source + k); wr prev (target + k) p }) prev = Some t \<and> ?inv (0 + count) t"
  proof (rule for_up_rule)
    fix j t assume "j < 0 + count" "?inv j t"
    then show "\<exists>t'. do { p \<leftarrow> rd t (source + j); wr t (target + j) p } = Some t' \<and> ?inv (Suc j) t'"
      using True assms by (auto simp: rd_def wr_def nth_list_update less_Suc_eq)
  qed auto
  then obtain t where "vnc_move_bytes target source count prev = Some t" "?inv count t"
    using True by (auto simp: vnc_move_bytes_def)
  then show ?thesis using assms by (auto simp: nth_splice intro!: nth_equalityI)
next
  case False
  let ?inv = "\<lambda>j t. length t = length prev \<and>
    (\<forall>k < length prev. t ! k = (if target + count - j \<le> k \<and> k < target + count then prev ! (source + (k - target)) else prev ! k))"
  have "\<exists>t. for_up 0 count (\<lambda>k prev. do {
      p \<leftarrow> rd prev (source + count - 1 - k); wr prev (target + count - 1 - k) p }) prev = Some t \<and> ?inv (0 + count) t"
  proof (rule for_up_rule)
    fix j t assume j: "j < 0 + count" and inv: "?inv j t"
    have "source + count - 1 - j < target + count - j" using False j by simp
    then have "rd t (source + count - 1 - j) = Some (prev ! (source + count - 1 - j))"
      using inv j assms by (simp add: rd_def)
    moreover have "target + count - Suc j \<le> k \<longleftrightarrow> target + count - j \<le> k \<or> k = target + count - 1 - j" for k
      using j by auto
    moreover have "source + (target + count - 1 - j - target) = source + count - 1 - j" using j by simp
    ultimately show "\<exists>t'. do { p \<leftarrow> rd t (source + count - 1 - j); wr t (target + count - 1 - j) p } = Some t' \<and> ?inv (Suc j) t'"
      using inv j assms by (auto simp: wr_def nth_list_update)
  qed auto
  then obtain t where "vnc_move_bytes target source count prev = Some t" "?inv count t"
    using False by (auto simp: vnc_move_bytes_def)
  then show ?thesis using assms by (auto simp: nth_splice intro!: nth_equalityI)
qed

subsection \<open>The rows in their order\<close>

definition rows_moved ::
    "nat \<Rightarrow> nat \<Rightarrow> nat \<Rightarrow> nat \<Rightarrow> nat \<Rightarrow> nat \<Rightarrow> nat \<Rightarrow> nat \<Rightarrow> nat \<Rightarrow> 'a list \<Rightarrow> 'a list \<Rightarrow> bool" where
  "rows_moved w h x y n sx sy lo hi prev t \<longleftrightarrow> length t = w * h \<and>
     (\<forall>p < w * h. t ! p = (if in_rect w x (y + lo) n (hi - lo) p then prev ! copied_from w x y sx sy p else prev ! p))"

lemma row_move_step:
  assumes inv: "rows_moved w h x y n sx sy lo hi prev t"
    and r: "r < m" and fit: "x + n \<le> w" "y + m \<le> h" "sx + n \<le> w" "sy + m \<le> h"
    and order: "r = hi \<and> y \<le> sy \<and> lo \<le> hi \<and> lo' = lo \<and> hi' = Suc hi \<or> Suc r = lo \<and> sy \<le> y \<and> lo \<le> hi \<and> lo' = r \<and> hi' = hi"
  shows "\<exists>t'. vnc_move_bytes ((y + r) * w + x) ((sy + r) * w + sx) n t = Some t' \<and>
    rows_moved w h x y n sx sy lo' hi' prev t'"
proof -
  let ?ys = "take n (drop ((sy + r) * w + sx) t)"
  have rows: "y + r < h" "sy + r < h" using r fit by simp_all
  have len: "length t = w * h" using inv by (simp add: rows_moved_def)
  have room: "(y + r) * w + x + n \<le> length t" "(sy + r) * w + sx + n \<le> length t"
    using row_bound [OF rows(1) fit(1)] row_bound [OF rows(2) fit(3)] len by simp_all
  have ys: "length ?ys = n" using room by simp
  have source: "?ys ! c = prev ! ((sy + r) * w + sx + c)" if c: "c < n" for c
  proof -
    let ?q = "(sy + r) * w + sx + c"
    have "?q div w = sy + r" using row_range [OF fit(3), of "sy + r" ?q] c by simp
    then have "\<not> in_rect w x (y + lo) n (hi - lo) ?q" using order by (auto simp: in_rect_def)
    moreover have "?q < w * h" using room(2) len c by simp
    ultimately have "t ! ?q = prev ! ?q" using inv by (simp add: rows_moved_def)
    then show ?thesis using c room(2) by simp
  qed
  have "splice t ((y + r) * w + x) ?ys ! p =
      (if in_rect w x (y + lo') n (hi' - lo') p then prev ! copied_from w x y sx sy p else prev ! p)" if p: "p < w * h" for p
  proof (cases "in_rect w x (y + r) n 1 p")
    case True
    then have at: "p div w = y + r" "x \<le> p mod w" "p mod w < x + n" by (auto simp: in_rect_def)
    then have "p = (y + r) * w + p mod w" using div_mult_mod_eq [of p w] by simp
    then have "p - ((y + r) * w + x) = p mod w - x" by linarith
    then have "splice t ((y + r) * w + x) ?ys ! p = prev ! ((sy + r) * w + sx + (p mod w - x))"
      using nth_row_splice [OF ys fit(1) rows(1) len p] True source [of "p mod w - x"] at by simp
    moreover have "copied_from w x y sx sy p = (sy + r) * w + sx + (p mod w - x)"
      by (simp add: copied_from_def at(1) add.commute)
    moreover have "in_rect w x (y + lo') n (hi' - lo') p" using at order by (auto simp: in_rect_def)
    ultimately show ?thesis by simp
  next
    case False
    then have "in_rect w x (y + lo') n (hi' - lo') p = in_rect w x (y + lo) n (hi - lo) p"
      using order by (auto simp: in_rect_def)
    then show ?thesis using nth_row_splice [OF ys fit(1) rows(1) len p] False inv p by (simp add: rows_moved_def)
  qed
  then show ?thesis using vnc_move_bytes_eq [OF room] len room ys by (simp add: rows_moved_def)
qed

lemma rows_moved_all:
  assumes "rows_moved w h x y n sx sy 0 m prev t" and "length prev = w * h"
  shows "t = copy_rect w (x, y, n, m) sx sy prev"
  using assms by (auto simp: rows_moved_def copy_rect_def intro!: nth_equalityI)

lemma move_rows_eq:
  assumes len: "length (vs_prev s) = vs_width s * vs_height s"
    and at: "mv_x m = int x" "mv_y m = int y" "mv_w m = int n" "mv_h m = int k" "mv_src_x m = int sx" "mv_src_y m = int sy"
    and fit: "x + n \<le> vs_width s" "y + k \<le> vs_height s" "sx + n \<le> vs_width s" "sy + k \<le> vs_height s"
    and dy: "int sy = int y - dy"
  shows "move_rows m dy s = Some (copy_rect (vs_width s) (x, y, n, k) sx sy (vs_prev s))"
proof -
  let ?w = "vs_width s" and ?h = "vs_height s"
  let ?step = "\<lambda>row prev. let r = (if dy > 0 then k - 1 - row else row) in
    vnc_move_bytes ((y + r) * ?w + x) ((sy + r) * ?w + sx) n prev"
  have "\<exists>t. for_up 0 k ?step (vs_prev s) = Some t \<and> rows_moved ?w ?h x y n sx sy 0 k (vs_prev s) t"
  proof (cases "dy > 0")
    case True
    have "\<exists>t. for_up 0 k ?step (vs_prev s) = Some t \<and>
        (\<lambda>j. rows_moved ?w ?h x y n sx sy (k - j) k (vs_prev s)) (0 + k) t"
    proof (rule for_up_rule)
      show "rows_moved ?w ?h x y n sx sy (k - 0) k (vs_prev s) (vs_prev s)"
        using len by (auto simp: rows_moved_def in_rect_def)
      fix j t assume j: "j < 0 + k" and inv: "rows_moved ?w ?h x y n sx sy (k - j) k (vs_prev s) t"
      define r where "r = k - Suc j"
      have r: "r < k" "Suc r = k - j" "r \<le> k" "k - 1 - j = r" using j by (simp_all add: r_def)
      have "sy \<le> y" using True dy by simp
      then have "\<exists>t'. vnc_move_bytes ((y + r) * ?w + x) ((sy + r) * ?w + sx) n t = Some t' \<and>
          rows_moved ?w ?h x y n sx sy r k (vs_prev s) t'"
        by (intro row_move_step [OF inv r(1) fit]) (use r(2) in simp)
      then show "\<exists>t'. ?step j t = Some t' \<and> rows_moved ?w ?h x y n sx sy (k - Suc j) k (vs_prev s) t'"
        unfolding r_def [symmetric] using True r(4) by (simp only: Let_def if_True)
    qed
    then show ?thesis by simp
  next
    case False
    have "\<exists>t. for_up 0 k ?step (vs_prev s) = Some t \<and>
        (\<lambda>j. rows_moved ?w ?h x y n sx sy 0 j (vs_prev s)) (0 + k) t"
    proof (rule for_up_rule)
      show "rows_moved ?w ?h x y n sx sy 0 0 (vs_prev s) (vs_prev s)"
        using len by (auto simp: rows_moved_def in_rect_def)
      fix j t assume j: "j < 0 + k" and inv: "rows_moved ?w ?h x y n sx sy 0 j (vs_prev s) t"
      have "y \<le> sy" using False dy by simp
      then show "\<exists>t'. ?step j t = Some t' \<and> rows_moved ?w ?h x y n sx sy 0 (Suc j) (vs_prev s) t'"
        using row_move_step [OF inv _ fit, of j 0 "Suc j"] j False by simp
    qed
    then show ?thesis by simp
  qed
  then obtain t where "for_up 0 k ?step (vs_prev s) = Some t" "t = copy_rect ?w (x, y, n, k) sx sy (vs_prev s)"
    using rows_moved_all len by blast
  then show ?thesis unfolding move_rows_def at nat_int by simp
qed

subsection \<open>The detection\<close>

lemma clip_move_inside:
  assumes "clip_move width height now dx dy = (x0, y0, x1, y1)"
  shows "0 \<le> x0" "dx \<le> x0" "0 \<le> y0" "dy \<le> y0" "x1 \<le> width" "x1 \<le> width + dx" "y1 \<le> height" "y1 \<le> height + dy"
  using assms by (auto simp: clip_move_def Let_def split: prod.splits)

text \<open>A pending move is one a viewer can carry out, and the previous frame has been moved the same way.\<close>

definition move_agrees :: "vnc_screen \<Rightarrow> vnc_move \<Rightarrow> u32 list \<Rightarrow> bool" where
  "move_agrees s m prev \<longleftrightarrow>
     (if mv_pending m then
        (\<exists>x y n k sx sy. mv_x m = int x \<and> mv_y m = int y \<and> mv_w m = int n \<and> mv_h m = int k \<and>
           mv_src_x m = int sx \<and> mv_src_y m = int sy \<and>
           x + n \<le> vs_width s \<and> y + k \<le> vs_height s \<and> sx + n \<le> vs_width s \<and> sy + k \<le> vs_height s \<and>
           prev = copy_rect (vs_width s) (x, y, n, k) sx sy (vs_prev s))
      else prev = vs_prev s)"

lemma move_agreesI:
  assumes "mv_pending m" and "mv_x m = int x" "mv_y m = int y" "mv_w m = int n" "mv_h m = int k" "mv_src_x m = int sx" "mv_src_y m = int sy"
    and "x + n \<le> vs_width s" "y + k \<le> vs_height s" "sx + n \<le> vs_width s" "sy + k \<le> vs_height s"
  shows "move_agrees s m (copy_rect (vs_width s) (x, y, n, k) sx sy (vs_prev s))"
proof -
  have "\<exists>x' y' n' k' sx' sy'. mv_x m = int x' \<and> mv_y m = int y' \<and> mv_w m = int n' \<and> mv_h m = int k' \<and>
      mv_src_x m = int sx' \<and> mv_src_y m = int sy' \<and>
      x' + n' \<le> vs_width s \<and> y' + k' \<le> vs_height s \<and> sx' + n' \<le> vs_width s \<and> sy' + k' \<le> vs_height s \<and>
      copy_rect (vs_width s) (x, y, n, k) sx sy (vs_prev s) = copy_rect (vs_width s) (x', y', n', k') sx' sy' (vs_prev s)"
    by (intro exI conjI, rule assms(2), rule assms(3), rule assms(4), rule assms(5), rule assms(6), rule assms(7),
      rule assms(8), rule assms(9), rule assms(10), rule assms(11), rule refl)
  then show ?thesis unfolding move_agrees_def using assms(1) by (simp only: if_True)
qed

lemma detect_move_agrees:
  assumes len: "length (vs_prev s) = vs_width s * vs_height s"
  shows "\<exists>m' prev. vnc_detect_move m s = Some (m', s\<lparr>vs_prev := prev\<rparr>) \<and> move_agrees s m' prev"
proof -
  obtain l t r b where now: "mv_rect m = (l, t, r, b)" by (metis prod_cases4)
  obtain l' t' r' b' where was: "mv_last_rect m = (l', t', r', b')" by (metis prod_cases4)
  obtain x0 y0 x1 y1 where clip: "clip_move (int (vs_width s)) (int (vs_height s)) (mv_rect m) (l - l') (t - t') = (x0, y0, x1, y1)"
    by (metis prod_cases4)
  let ?dy = "t - t'"
  let ?m = "m\<lparr>mv_pending := False\<rparr>"
  let ?go = "window_moved ?m \<and> x1 - x0 \<ge> VNC_COPY_MIN \<and> y1 - y0 \<ge> VNC_COPY_MIN"
  let ?set = "?m\<lparr>mv_x := x0, mv_y := y0, mv_w := x1 - x0, mv_h := y1 - y0, mv_src_x := x0 - (l - l'), mv_src_y := y0 - ?dy\<rparr>"
  have steps: "vnc_detect_move m s = do {
      (m, s) \<leftarrow> (if ?go then do { prev \<leftarrow> move_rows ?set ?dy s; Some (?set\<lparr>mv_pending := True\<rparr>, s\<lparr>vs_prev := prev\<rparr>) }
        else Some (?m, s));
      Some (m\<lparr>mv_last := mv_window m, mv_last_rect := mv_rect m\<rparr>, s) }"
    using clip by (simp add: vnc_detect_move_def now was Let_def)
  show ?thesis
  proof (cases ?go)
    case True
    note inside = clip_move_inside [OF clip]
    let ?x = "nat x0" and ?y = "nat y0" and ?n = "nat (x1 - x0)" and ?k = "nat (y1 - y0)"
      and ?sx = "nat (x0 - (l - l'))" and ?sy = "nat (y0 - ?dy)"
    have size: "0 \<le> x1 - x0" "0 \<le> y1 - y0" using True by (simp_all add: VNC_COPY_MIN_def)
    have at: "mv_x ?set = int ?x" "mv_y ?set = int ?y" "mv_w ?set = int ?n" "mv_h ?set = int ?k"
        "mv_src_x ?set = int ?sx" "mv_src_y ?set = int ?sy"
      using inside size by simp_all
    have fit: "?x + ?n \<le> vs_width s" "?y + ?k \<le> vs_height s" "?sx + ?n \<le> vs_width s" "?sy + ?k \<le> vs_height s"
      using inside size by linarith+
    have "int ?sy = int ?y - ?dy" using inside by simp
    from move_rows_eq [OF len at fit this]
    have rows: "move_rows ?set ?dy s = Some (copy_rect (vs_width s) (?x, ?y, ?n, ?k) ?sx ?sy (vs_prev s))" .
    let ?r = "?set\<lparr>mv_pending := True, mv_last := mv_window m, mv_last_rect := mv_rect m\<rparr>"
    have "vnc_detect_move m s = Some (?r, s\<lparr>vs_prev := copy_rect (vs_width s) (?x, ?y, ?n, ?k) ?sx ?sy (vs_prev s)\<rparr>)"
      unfolding steps if_P [OF True] rows by simp
    moreover have "move_agrees s ?r (copy_rect (vs_width s) (?x, ?y, ?n, ?k) ?sx ?sy (vs_prev s))"
      by (rule move_agreesI) (use at fit in simp_all)
    ultimately show ?thesis by blast
  next
    case False
    have "vnc_detect_move m s = Some (?m\<lparr>mv_last := mv_window m, mv_last_rect := mv_rect m\<rparr>, s\<lparr>vs_prev := vs_prev s\<rparr>)"
      unfolding steps if_not_P [OF False] by simp
    then show ?thesis by (auto simp: move_agrees_def)
  qed
qed

end
