(* ===== verification/VncHextileProps.thy ===== *)
theory VncHextileProps
  imports VncHextile
begin

section \<open>Hextile shows the frame\<close>

text \<open>
  A reference reader of Hextile, after RFC 6143, and the proof that it reads what the encoder wrote:
  every tile decodes to the translated pixels of the previous frame, and the background and
  foreground the reader carries along are those the encoder believes it has.
\<close>

subsection \<open>The reader\<close>

type_synonym subrect = "u32 \<times> nat \<times> nat \<times> nat \<times> nat"

fun view_subrects :: "vnc_format \<Rightarrow> u32 option \<Rightarrow> nat \<Rightarrow> bytes \<Rightarrow> (subrect list \<times> bytes) option" where
  "view_subrects f fg 0 bs = Some ([], bs)"
| "view_subrects f fg (Suc k) bs =
     do {
       (colours, bs) \<leftarrow> (case fg of Some c \<Rightarrow> Some ([c], bs) | None \<Rightarrow> view_pixels f 1 bs);
       case bs of
         xy # wh # bs \<Rightarrow> do {
           (rects, rest) \<leftarrow> view_subrects f fg k bs;
           Some ((hd colours, unat xy div 16, unat xy mod 16, unat wh div 16 + 1, unat wh mod 16 + 1) # rects, rest) }
       | _ \<Rightarrow> None }"

definition paint :: "nat \<Rightarrow> subrect list \<Rightarrow> u32 list \<Rightarrow> u32 list" where
  "paint width rects tile =
     foldl (\<lambda>tile (c, x, y, w, h). map (\<lambda>p. if in_rect width x y w h p then c else tile ! p) [0..<length tile]) tile rects"

text \<open>A colour that may be given anew by a flag.\<close>

definition view_colour :: "vnc_format \<Rightarrow> bool \<Rightarrow> u32 option \<Rightarrow> bytes \<Rightarrow> (u32 option \<times> bytes) option" where
  "view_colour f given old bs =
     (if given then do { (ps, rest) \<leftarrow> view_pixels f 1 bs; Some (Some (hd ps), rest) } else Some (old, bs))"

fun view_hex_tile ::
    "vnc_format \<Rightarrow> nat \<Rightarrow> nat \<Rightarrow> u32 option \<times> u32 option \<Rightarrow> bytes \<Rightarrow>
     (u32 list \<times> (u32 option \<times> u32 option) \<times> bytes) option" where
  "view_hex_tile f w h carried [] = None"
| "view_hex_tile f w h (bg, fg) (flags # bs) =
     (if flags AND 1 \<noteq> 0 then do { (ps, rest) \<leftarrow> view_pixels f (w * h) bs; Some (ps, (None, None), rest) }
      else do {
        (bg, bs) \<leftarrow> view_colour f (flags AND 2 \<noteq> 0) bg bs;
        (fg, bs) \<leftarrow> view_colour f (flags AND 4 \<noteq> 0) fg bs;
        case bg of None \<Rightarrow> None
        | Some back_colour \<Rightarrow>
            if flags AND 8 = 0 then Some (replicate (w * h) back_colour, (bg, fg), bs)
            else if flags AND 16 = 0 \<and> fg = None then None
            else (case bs of [] \<Rightarrow> None
              | n # bs \<Rightarrow> do {
                  (rects, rest) \<leftarrow> view_subrects f (if flags AND 16 = 0 then fg else None) (unat n) bs;
                  if \<forall>(c, x, y, rw, rh) \<in> set rects. x + rw \<le> w \<and> y + rh \<le> h
                  then Some (paint w rects (replicate (w * h) back_colour), (bg, if flags AND 16 = 0 then fg else None), rest)
                  else None }) })"

subsection \<open>Growing a rectangle\<close>

lemma grow_spec:
  assumes "\<forall>j. k \<le> j \<and> j < limit \<longrightarrow> free j = Some (ok j)" and "k \<le> limit"
  shows "\<exists>n. grow free limit k = Some n \<and> k \<le> n \<and> n \<le> limit \<and> (\<forall>j. k \<le> j \<and> j < n \<longrightarrow> ok j)"
  using assms
proof (induction free limit k rule: grow.induct)
  case (1 free limit k)
  show ?case
  proof (cases "k < limit \<and> ok k")
    case True
    then have "\<exists>n. grow free limit (k + 1) = Some n \<and> k + 1 \<le> n \<and> n \<le> limit \<and> (\<forall>j. k + 1 \<le> j \<and> j < n \<longrightarrow> ok j)"
      using 1 by (intro "1.IH") auto
    then obtain n where n: "grow free limit (k + 1) = Some n" "k + 1 \<le> n" "n \<le> limit" "\<forall>j. k + 1 \<le> j \<and> j < n \<longrightarrow> ok j" by blast
    have "ok j" if "k \<le> j" "j < n" for j using n(4) True that by (cases "j = k") simp_all
    then show ?thesis using n True 1(2) by (subst grow.simps) auto
  next
    case False
    then show ?thesis using 1 by (subst grow.simps) auto
  qed
qed

lemma blocked_eq:
  "at < length tile \<Longrightarrow> at < length covered \<Longrightarrow> blocked tile covered colour at = Some (tile ! at \<noteq> colour \<or> covered ! at)"
  by (simp add: blocked_def rd_def)

lemma best_rect_spec:
  assumes len: "length tile = width * height" "width * height \<le> length covered"
    and at: "x < width" "y < height" and colour: "tile ! (y * width + x) = colour"
  shows "\<exists>rw rh. best_rect tile covered width height x y colour = Some (rw, rh) \<and> 0 < rw \<and> x + rw \<le> width \<and>
    0 < rh \<and> y + rh \<le> height \<and> (\<forall>i < rw. \<forall>j < rh. tile ! ((y + j) * width + x + i) = colour)"
proof -
  let ?same = "\<lambda>at. tile ! at = colour \<and> \<not> covered ! at"
  have inside: "(y + j) * width + x + i < width * height" if "i < width - x" "j < height - y" for i j
  proof -
    have "y + j < height" "x + Suc i \<le> width" using that by linarith+
    then show ?thesis using row_bound [of "y + j" height x "Suc i" width] by simp
  qed
  have bl: "blocked tile covered colour ((y + j) * width + x + i) = Some (\<not> ?same ((y + j) * width + x + i))"
    if "i < width - x" "j < height - y" for i j
    using inside [OF that] len by (subst blocked_eq) auto
  have one: "1 \<le> width - x" "1 \<le> height - y" using at by simp_all
  have "\<forall>i. 1 \<le> i \<and> i < width - x \<longrightarrow> do { b \<leftarrow> blocked tile covered colour (y * width + x + i); Some (\<not> b) } = Some (?same (y * width + x + i))"
    using bl [of _ 0] at by auto
  from grow_spec [OF this one(1)] obtain run_w
    where w: "grow (\<lambda>i. do { b \<leftarrow> blocked tile covered colour (y * width + x + i); Some (\<not> b) }) (width - x) 1 = Some run_w"
      "1 \<le> run_w" "run_w \<le> width - x" "\<forall>i. 1 \<le> i \<and> i < run_w \<longrightarrow> ?same (y * width + x + i)" by blast
  have any: "any_up 0 n (\<lambda>i. blocked tile covered colour ((y + j) * width + x + i)) =
      Some (\<exists>i. 0 \<le> i \<and> i < 0 + n \<and> \<not> ?same ((y + j) * width + x + i))" if "n \<le> width - x" "j < height - y" for n j
    by (rule any_up_eq) (use bl that in simp)
  have "\<forall>j. 1 \<le> j \<and> j < height - y \<longrightarrow> do { b \<leftarrow> any_up 0 run_w (\<lambda>i. blocked tile covered colour ((y + j) * width + x + i)); Some (\<not> b) } =
      Some (\<forall>i < run_w. ?same ((y + j) * width + x + i))"
    using any [OF w(3)] by auto
  from grow_spec [OF this one(2)] obtain run_h where h: "grow (\<lambda>j. do {
        b \<leftarrow> any_up 0 run_w (\<lambda>i. blocked tile covered colour ((y + j) * width + x + i)); Some (\<not> b) }) (height - y) 1 = Some run_h"
      "1 \<le> run_h" "run_h \<le> height - y" "\<forall>j. 1 \<le> j \<and> j < run_h \<longrightarrow> (\<forall>i < run_w. ?same ((y + j) * width + x + i))" by blast
  have "\<forall>j. 1 \<le> j \<and> j < height - y \<longrightarrow> do { b \<leftarrow> blocked tile covered colour ((y + j) * width + x); Some (\<not> b) } = Some (?same ((y + j) * width + x))"
    using bl [of 0] at by auto
  from grow_spec [OF this one(2)] obtain alt_h
    where ah: "grow (\<lambda>j. do { b \<leftarrow> blocked tile covered colour ((y + j) * width + x); Some (\<not> b) }) (height - y) 1 = Some alt_h"
      "1 \<le> alt_h" "alt_h \<le> height - y" "\<forall>j. 1 \<le> j \<and> j < alt_h \<longrightarrow> ?same ((y + j) * width + x)" by blast
  have columns: "any_up 0 alt_h (\<lambda>j. blocked tile covered colour ((y + j) * width + x + i)) =
      Some (\<exists>j. 0 \<le> j \<and> j < 0 + alt_h \<and> \<not> ?same ((y + j) * width + x + i))" if "i < width - x" for i
    by (rule any_up_eq) (use bl that ah(3) in simp)
  have "\<forall>i. 1 \<le> i \<and> i < width - x \<longrightarrow> do { b \<leftarrow> any_up 0 alt_h (\<lambda>j. blocked tile covered colour ((y + j) * width + x + i)); Some (\<not> b) } =
      Some (\<forall>j < alt_h. ?same ((y + j) * width + x + i))"
    using columns by auto
  from grow_spec [OF this one(1)] obtain alt_w where aw: "grow (\<lambda>i. do {
        b \<leftarrow> any_up 0 alt_h (\<lambda>j. blocked tile covered colour ((y + j) * width + x + i)); Some (\<not> b) }) (width - x) 1 = Some alt_w"
      "1 \<le> alt_w" "alt_w \<le> width - x" "\<forall>i. 1 \<le> i \<and> i < alt_w \<longrightarrow> (\<forall>j < alt_h. ?same ((y + j) * width + x + i))" by blast
  have run: "tile ! ((y + j) * width + x + i) = colour" if "i < run_w" "j < run_h" for i j
    using h(4) [rule_format, of j i] w(4) [rule_format, of i] colour that by (cases "j = 0"; cases "i = 0") auto
  have alt: "tile ! ((y + j) * width + x + i) = colour" if "i < alt_w" "j < alt_h" for i j
    using aw(4) [rule_format, of i j] ah(4) [rule_format, of j] colour that by (cases "i = 0"; cases "j = 0") auto
  have fits: "x + run_w \<le> width" "y + run_h \<le> height" "x + alt_w \<le> width" "y + alt_h \<le> height"
    using w(3) h(3) ah(3) aw(3) at by simp_all
  show ?thesis
    unfolding best_rect_def
    using w(1,2) h(1,2) ah(1,2) aw(1,2) run alt fits by (cases "alt_w * alt_h > run_w * run_h") auto
qed

lemma cover_rect_spec:
  assumes fit: "x + rw \<le> width" "y + rh \<le> height" and len: "width * height \<le> length covered"
  shows "\<exists>t. cover_rect width x y rw rh covered = Some t \<and> length t = length covered \<and>
    (\<forall>p < length covered. t ! p \<longleftrightarrow> covered ! p \<or> (p < width * height \<and> in_rect width x y rw rh p))"
proof -
  let ?row = "\<lambda>j p. (y + j) * width + x \<le> p \<and> p < (y + j) * width + x + rw"
  let ?inv = "\<lambda>j t. length t = length covered \<and> (\<forall>p < length covered. t ! p \<longleftrightarrow> covered ! p \<or> (\<exists>k < j. ?row k p))"
  have row_end: "(y + j) * width + x + rw \<le> width * height" if "j < rh" for j
    using row_bound [of "y + j" height x rw width] fit that by simp
  have "\<exists>t. cover_rect width x y rw rh covered = Some t \<and> ?inv (0 + rh) t"
    unfolding cover_rect_def
  proof (rule for_up_rule)
    show "?inv 0 covered" by simp
    fix j t assume j: "j < 0 + rh" and inv: "?inv j t"
    let ?t = "splice t ((y + j) * width + x) (replicate rw True)"
    have room: "(y + j) * width + x + rw \<le> length t" using row_end [of j] j len inv by simp
    have "for_up 0 rw (\<lambda>i covered. wr covered ((y + j) * width + x + i) True) t = Some ?t"
      by (rule for_up_fill) (use room in \<open>simp_all add: wr_splice\<close>)
    moreover have "?inv (Suc j) ?t"
      using inv room by (auto simp: nth_splice less_Suc_eq)
    ultimately show "\<exists>t'. for_up 0 rw (\<lambda>i covered. wr covered ((y + j) * width + x + i) True) t = Some t' \<and> ?inv (Suc j) t'"
      by blast
  qed
  moreover have "(\<exists>k < rh. ?row k p) \<longleftrightarrow> p < width * height \<and> in_rect width x y rw rh p" for p
  proof
    assume "\<exists>k < rh. ?row k p"
    then obtain k where k: "k < rh" "?row k p" by blast
    then show "p < width * height \<and> in_rect width x y rw rh p"
      using row_range [OF fit(1), of "y + k" p] row_end [OF k(1)] by (auto simp: in_rect_def)
  next
    assume p: "p < width * height \<and> in_rect width x y rw rh p"
    then have "?row (p div width - y) p"
      using row_range [OF fit(1), of "y + (p div width - y)" p] by (simp add: in_rect_def)
    then show "\<exists>k < rh. ?row k p" using p by (intro exI [of _ "p div width - y"]) (auto simp: in_rect_def)
  qed
  ultimately show ?thesis by simp
qed

subsection \<open>The subrectangles of a tile\<close>

definition subrect_bytes :: "vnc_px \<Rightarrow> bool \<Rightarrow> subrect \<Rightarrow> bytes" where
  "subrect_bytes px two_tone = (\<lambda>(c, x, y, rw, rh).
     (if two_tone then [] else vnc_store_pixel px c) @ [of_nat x * 16 OR of_nat y, of_nat (rw - 1) * 16 OR of_nat (rh - 1)])"

text \<open>A subrectangle that lies in the tile and shows only its own colour there.\<close>

definition subrect_ok :: "u32 list \<Rightarrow> nat \<Rightarrow> nat \<Rightarrow> subrect \<Rightarrow> bool" where
  "subrect_ok tile width height = (\<lambda>(c, x, y, rw, rh). 0 < rw \<and> 0 < rh \<and> x + rw \<le> width \<and> y + rh \<le> height \<and>
     c \<in> set tile \<and> (\<forall>p < width * height. in_rect width x y rw rh p \<longrightarrow> tile ! p = c))"

definition in_subrect :: "nat \<Rightarrow> nat \<Rightarrow> subrect \<Rightarrow> bool" where
  "in_subrect width p = (\<lambda>(c, x, y, rw, rh). in_rect width x y rw rh p)"

lemma take_splice_end: "i + length ys \<le> length xs \<Longrightarrow> take (i + length ys) (splice xs i ys) = take i xs @ ys"
  by (rule nth_equalityI) (auto simp: nth_splice nth_append)

lemma wrs_append: "wrs xs i (as @ bs) = do { xs \<leftarrow> wrs xs i as; wrs xs (i + length as) bs }"
proof (induction as arbitrary: xs i)
  case (Cons a as)
  then show ?case by (cases "wr xs i a") simp_all
qed simp

lemma put_subrect_eq:
  assumes "length (vnc_store_pixel px c) = pixel_bytes px" and "used = base + per"
    and "per = (if two_tone then 2 else 2 + pixel_bytes px)"
  shows "put_subrect px two_tone c x y rw rh used per subrects =
    wrs subrects base (subrect_bytes px two_tone (c, x, y, rw, rh))"
  using assms by (cases two_tone) (simp_all add: put_subrect_def subrect_bytes_def wrs_append)

lemma nibbles:
  assumes "x < 16" and "y < 16"
  shows "unat (of_nat x * 16 OR of_nat y :: u8) div 16 = x" "unat (of_nat x * 16 OR of_nat y :: u8) mod 16 = y"
proof -
  have "list_all (\<lambda>x. list_all (\<lambda>y. unat (of_nat x * 16 OR of_nat y :: u8) = x * 16 + y) [0..<16]) [0..<16]"
    by code_simp
  then have "unat (of_nat x * 16 OR of_nat y :: u8) = x * 16 + y" using assms by (simp add: list_all_iff)
  then show "unat (of_nat x * 16 OR of_nat y :: u8) div 16 = x" "unat (of_nat x * 16 OR of_nat y :: u8) mod 16 = y"
    using assms by simp_all
qed

text \<open>The work area after the pixels before \<open>k\<close>: the subrectangles written so far, and every pixel
  before \<open>k\<close> that is not background lies in one.\<close>

definition subrects_done ::
    "vnc_px \<Rightarrow> u32 list \<Rightarrow> nat \<Rightarrow> nat \<Rightarrow> u32 \<Rightarrow> bool \<Rightarrow> nat \<Rightarrow> hex_work \<Rightarrow> subrect list \<Rightarrow> bool" where
  "subrects_done px tile width height bg two_tone k s rects \<longleftrightarrow>
     length (hw_covered s) = VNC_TILE * VNC_TILE \<and> length (hw_subrects s) = 1536 \<and>
     hw_used s = length rects * (if two_tone then 2 else 2 + pixel_bytes px) \<and> hw_used s \<le> 1024 \<and>
     hw_count s = length rects \<and> length rects \<le> 255 \<and>
     take (hw_used s) (hw_subrects s) = concat (map (subrect_bytes px two_tone) rects) \<and>
     list_all (subrect_ok tile width height) rects \<and> list_all (\<lambda>r. fst r \<noteq> bg) rects \<and>
     (\<forall>p < width * height. hw_covered s ! p \<longrightarrow> (\<exists>r \<in> set rects. in_subrect width p r)) \<and>
     (\<forall>p < k. p < width * height \<longrightarrow> tile ! p = bg \<or> hw_covered s ! p)"

lemma hextile_pixel_step:
  assumes px: "\<And>c. length (vnc_store_pixel px c) = pixel_bytes px" "pixel_bytes px \<le> 4"
    and tile: "length tile = width * height" "width \<le> 16" "height \<le> 16"
    and at: "x < width" "y < height"
    and d: "subrects_done px tile width height bg two_tone (y * width + x) s rects"
  shows "outcome (hextile_pixel px tile width height bg two_tone y x s) (\<lambda>_ _. True)
    (\<lambda>_ t. \<exists>rects'. subrects_done px tile width height bg two_tone (y * width + Suc x) t rects')"
proof -
  let ?k = "y * width + x" and ?colour = "tile ! (y * width + x)"
  let ?per = "if two_tone then 2 else 2 + pixel_bytes px"
  have k: "?k < width * height" using row_bound [OF at(2), of x 1 width] at(1) by simp
  have "width * height \<le> 16 * 16" using tile by (intro mult_le_mono)
  then have cov: "width * height \<le> length (hw_covered s)" using d by (simp add: subrects_done_def VNC_TILE_def)
  have reads: "rd tile ?k = Some ?colour" "rd (hw_covered s) ?k = Some (hw_covered s ! ?k)"
    using k tile(1) cov by (simp_all add: rd_def)
  show ?thesis
  proof (cases "?colour = bg \<or> hw_covered s ! ?k")
    case True
    then have "subrects_done px tile width height bg two_tone (y * width + Suc x) s rects"
      using d k by (auto simp: subrects_done_def less_Suc_eq)
    then show ?thesis using True reads by (auto simp: hextile_pixel_def Let_def)
  next
    case False
    obtain rw rh where best: "best_rect tile (hw_covered s) width height x y ?colour = Some (rw, rh)"
        "0 < rw" "x + rw \<le> width" "0 < rh" "y + rh \<le> height"
        "\<forall>i < rw. \<forall>j < rh. tile ! ((y + j) * width + x + i) = ?colour"
      using best_rect_spec [OF tile(1) cov at refl] by blast
    obtain covered where covered: "cover_rect width x y rw rh (hw_covered s) = Some covered"
        "length covered = length (hw_covered s)"
        "\<And>p. p < length (hw_covered s) \<Longrightarrow> covered ! p \<longleftrightarrow> hw_covered s ! p \<or> (p < width * height \<and> in_rect width x y rw rh p)"
      using cover_rect_spec [OF best(3,5) cov] by blast
    let ?used = "hw_used s + ?per" and ?limit = "width * height * pixel_bytes px"
    have limit: "?limit \<le> 16 * 16 * 4" using tile px(2) by (intro mult_le_mono)
    let ?new = "(?colour, x, y, rw, rh)"
    have rect: "tile ! p = ?colour" if "p < width * height" "in_rect width x y rw rh p" for p
    proof -
      have "(y + (p div width - y)) * width + x + (p mod width - x) = p"
        using that(2) div_mult_mod_eq [of p width] by (simp add: in_rect_def)
      moreover have "p mod width - x < rw" "p div width - y < rh" using that(2) by (auto simp: in_rect_def)
      ultimately show ?thesis using best(6) by metis
    qed
    have ok: "subrect_ok tile width height ?new"
      using best rect k tile(1) nth_mem [of ?k tile] by (simp add: subrect_ok_def)
    show ?thesis
    proof (cases "hw_count s = 255 \<or> ?used \<ge> ?limit")
      case True
      then show ?thesis using False reads best(1) covered(1) by (auto simp: hextile_pixel_def Let_def)
    next
      case room: False
      have bytes: "length (subrect_bytes px two_tone ?new) = ?per" using px(1) by (simp add: subrect_bytes_def)
      have sub: "length (hw_subrects s) = 1536" using d by (simp add: subrects_done_def)
      then have fits: "hw_used s + length (subrect_bytes px two_tone ?new) \<le> length (hw_subrects s)"
        using room limit bytes by simp
      let ?sub = "splice (hw_subrects s) (hw_used s) (subrect_bytes px two_tone ?new)"
      have put: "put_subrect px two_tone ?colour x y rw rh ?used ?per (hw_subrects s) = Some ?sub"
        using put_subrect_eq [OF px(1), of ?used "hw_used s" ?per two_tone ?colour x y rw rh "hw_subrects s"] wrs_splice [OF fits]
        by simp
      let ?t = "\<lparr>hw_covered = covered, hw_subrects = ?sub, hw_used = ?used, hw_count = hw_count s + 1\<rparr>"
      have "take ?used ?sub = take (hw_used s) (hw_subrects s) @ subrect_bytes px two_tone ?new"
        using take_splice_end [OF fits] unfolding bytes .
      then have "take ?used ?sub = concat (map (subrect_bytes px two_tone) (rects @ [?new]))"
      proof -
        have "take (hw_used s) (hw_subrects s) = concat (map (subrect_bytes px two_tone) rects)"
          using d unfolding subrects_done_def by blast
        then show ?thesis using \<open>take ?used ?sub = _\<close> by (simp only: map_append concat_append list.map concat.simps append_Nil2)
      qed
      moreover have "\<exists>r \<in> set (rects @ [?new]). in_subrect width p r" if "p < width * height" "covered ! p" for p
        using covered(3) [of p] that cov d by (auto simp: subrects_done_def in_subrect_def)
      moreover have "tile ! p = bg \<or> covered ! p" if "p < y * width + Suc x" "p < width * height" for p
      proof (cases "p = ?k")
        case True
        have "in_rect width x y rw rh ?k" using at best(2,4) by (simp add: in_rect_def)
        then show ?thesis using True covered(3) [of ?k] k cov by simp
      next
        case False
        then have "tile ! p = bg \<or> hw_covered s ! p" using d that by (simp add: subrects_done_def)
        then show ?thesis using covered(3) [of p] that cov by auto
      qed
      ultimately have "subrects_done px tile width height bg two_tone (y * width + Suc x) ?t (rects @ [?new])"
        using d covered(2) ok False room limit fits by (simp add: subrects_done_def)
      then show ?thesis using False reads best(1) covered(1) room put by (auto simp: hextile_pixel_def Let_def)
    qed
  qed
qed

lemma hextile_subrects_spec:
  assumes px: "\<And>c. length (vnc_store_pixel px c) = pixel_bytes px" "pixel_bytes px \<le> 4"
    and tile: "length tile = width * height" "width \<le> 16" "height \<le> 16" and buf: "length subrects = 1536"
  shows "outcome (vnc_hextile_subrects px tile width height bg two_tone subrects) (\<lambda>_ _. True)
    (\<lambda>_ t. \<exists>rects. subrects_done px tile width height bg two_tone (width * height) t rects)"
proof -
  have "outcome (vnc_hextile_subrects px tile width height bg two_tone subrects) (\<lambda>_ _. True)
    (\<lambda>_ t. \<exists>rects. subrects_done px tile width height bg two_tone ((0 + height) * width) t rects)"
    unfolding vnc_hextile_subrects_def
  proof (rule for_out_rule [where P = "\<lambda>y t. \<exists>rects. subrects_done px tile width height bg two_tone (y * width) t rects"])
    have "width * height \<le> 16 * 16" using tile by (intro mult_le_mono)
    then show "\<exists>rects. subrects_done px tile width height bg two_tone (0 * width)
        \<lparr>hw_covered = replicate (VNC_TILE * VNC_TILE) False, hw_subrects = subrects, hw_used = 0, hw_count = 0\<rparr> rects"
      using buf by (intro exI [of _ "[]"]) (simp add: subrects_done_def VNC_TILE_def)
    fix y t assume y: "y < 0 + height" and t: "\<exists>rects. subrects_done px tile width height bg two_tone (y * width) t rects"
    have "outcome (for_out 0 width (hextile_pixel px tile width height bg two_tone y) t) (\<lambda>_ _. True)
        (\<lambda>_ t. \<exists>rects. subrects_done px tile width height bg two_tone (y * width + (0 + width)) t rects)"
    proof (rule for_out_rule [where P = "\<lambda>x t. \<exists>rects. subrects_done px tile width height bg two_tone (y * width + x) t rects"])
      fix x t assume x: "x < 0 + width" and "\<exists>rects. subrects_done px tile width height bg two_tone (y * width + x) t rects"
      then obtain rects where "subrects_done px tile width height bg two_tone (y * width + x) t rects" by blast
      moreover have "x < width" "y < height" using x y by simp_all
      ultimately show "outcome (hextile_pixel px tile width height bg two_tone y x t) (\<lambda>_ _. True)
          (\<lambda>_ t'. \<exists>rects. subrects_done px tile width height bg two_tone (y * width + Suc x) t' rects)"
        using hextile_pixel_step [OF px tile] by blast
    qed (use t in simp)
    then show "outcome (for_out 0 width (hextile_pixel px tile width height bg two_tone y) t) (\<lambda>_ _. True)
        (\<lambda>_ t'. \<exists>rects. subrects_done px tile width height bg two_tone (Suc y * width) t' rects)"
      by (simp add: add.commute)
  qed
  then show ?thesis by (simp add: mult.commute)
qed

subsection \<open>Reading subrectangles back\<close>

lemma count_colours_inv:
  assumes "foldl (\<lambda>c pixel. count_colour first pixel c) (second, a, b, n) tile = (second', a', b', n')"
    and "n = 1 \<longrightarrow> S \<subseteq> {first}" "n = 2 \<longrightarrow> S \<subseteq> {first, second}" "n \<noteq> 1 \<longrightarrow> second \<in> S" "n \<in> {1, 2, 3}"
  shows "n' \<in> {1, 2, 3} \<and> (n' = 1 \<longrightarrow> S \<union> set tile \<subseteq> {first}) \<and> (n' = 2 \<longrightarrow> S \<union> set tile \<subseteq> {first, second'}) \<and>
    (n' \<noteq> 1 \<longrightarrow> second' \<in> S \<union> set tile)"
  using assms
proof (induction tile arbitrary: second a b n S)
  case (Cons p tile)
  obtain second1 a1 b1 n1 where step: "count_colour first p (second, a, b, n) = (second1, a1, b1, n1)"
    by (metis prod_cases4)
  have inv: "n1 = 1 \<longrightarrow> insert p S \<subseteq> {first}" "n1 = 2 \<longrightarrow> insert p S \<subseteq> {first, second1}"
      "n1 \<noteq> 1 \<longrightarrow> second1 \<in> insert p S" "n1 \<in> {1, 2, 3}"
    using step Cons.prems(2-5) by (auto split: if_splits)
  have "foldl (\<lambda>c pixel. count_colour first pixel c) (second1, a1, b1, n1) tile = (second', a', b', n')"
    using Cons.prems(1) step by simp
  from Cons.IH [OF this inv] show ?case by simp
qed simp

lemma count_colours:
  assumes "foldl (\<lambda>c pixel. count_colour first pixel c) (0, 0, 0, 1) tile = (second, a, b, n)"
  shows "n \<in> {1, 2, 3}" "n = 1 \<Longrightarrow> set tile \<subseteq> {first}" "n = 2 \<Longrightarrow> set tile \<subseteq> {first, second}"
    "n \<noteq> 1 \<Longrightarrow> second \<in> set tile"
  using count_colours_inv [OF assms, of "{}"] by auto

lemma view_one_pixel:
  assumes "format_ok f" and "unat c < 2 ^ unat (bpp f)"
  shows "view_pixels f 1 (vnc_store_pixel (px_of f) c @ rest) = Some ([c], rest)"
  using view_stored_pixels [OF assms(1), of "[c]" rest] assms(2) by (simp add: store_pixels_def)

lemma view_subrects_bytes:
  assumes f: "format_ok f" and "list_all (subrect_ok tile width height) rects"
    and small: "width \<le> 16" "height \<le> 16" and fit: "\<forall>c \<in> set tile. unat c < 2 ^ unat (bpp f)"
    and "two_tone \<longrightarrow> (\<forall>r \<in> set rects. fst r = fg)"
  shows "view_subrects f (if two_tone then Some fg else None) (length rects)
    (concat (map (subrect_bytes (px_of f) two_tone) rects) @ rest) = Some (rects, rest)"
  using assms(2,6)
proof (induction rects)
  case (Cons r rects)
  obtain c x y rw rh where r: "r = (c, x, y, rw, rh)" by (metis prod_cases5)
  have ok: "0 < rw" "0 < rh" "x + rw \<le> width" "y + rh \<le> height" "c \<in> set tile"
    using Cons.prems(1) by (simp_all add: r subrect_ok_def)
  have n: "x < 16" "y < 16" "rw - 1 < 16" "rh - 1 < 16" using ok small by linarith+
  have IH: "view_subrects f (if two_tone then Some fg else None) (length rects)
      (concat (map (subrect_bytes (px_of f) two_tone) rects) @ rest) = Some (rects, rest)"
    using Cons by simp
  define xy wh :: u8 where xy: "xy = of_nat x * 16 OR of_nat y" and wh: "wh = of_nat (rw - 1) * 16 OR of_nat (rh - 1)"
  have parts: "unat xy div 16 = x" "unat xy mod 16 = y" "unat wh div 16 + 1 = rw" "unat wh mod 16 + 1 = rh"
    using nibbles [OF n(1,2)] nibbles [OF n(3,4)] ok by (simp_all only: xy wh) simp_all
  have bytes: "subrect_bytes (px_of f) b (d, x, y, rw, rh) = (if b then [] else vnc_store_pixel (px_of f) d) @ [xy, wh]" for b d
    by (simp only: subrect_bytes_def split_conv xy wh)
  have one: "view_pixels f 1 (vnc_store_pixel (px_of f) c @ bs) = Some ([c], bs)" for bs
    using view_one_pixel [OF f] fit ok(5) by blast
  show ?case
    using IH Cons.prems(2) one parts by (cases two_tone) (simp_all add: r bytes del: view_pixels.simps One_nat_def)
qed simp

lemma paint_Cons: "paint width ((c, x, y, w, h) # rects) tile =
    paint width rects (map (\<lambda>p. if in_rect width x y w h p then c else tile ! p) [0..<length tile])"
  by (simp add: paint_def)

lemma length_paint [simp]: "length (paint width rects tile) = length tile"
  unfolding paint_def by (induction rects arbitrary: tile) auto

lemma nth_paint:
  assumes "p < length tile" and "\<forall>r \<in> set rects. in_subrect width p r \<longrightarrow> fst r = c"
    and "tile ! p = c \<or> (\<exists>r \<in> set rects. in_subrect width p r)"
  shows "paint width rects tile ! p = c"
  using assms
proof (induction rects arbitrary: tile)
  case (Cons r rects)
  obtain d x y w h where r: "r = (d, x, y, w, h)" by (metis prod_cases5)
  show ?case
    unfolding r paint_Cons
    by (rule Cons.IH) (use Cons.prems in \<open>auto simp: r in_subrect_def\<close>)
qed (simp add: paint_def)

lemma paint_subrects:
  assumes d: "subrects_done px tile width height bg two_tone (width * height) t rects"
    and len: "length tile = width * height"
  shows "paint width rects (replicate (width * height) bg) = tile"
proof (rule nth_equalityI)
  fix p assume "p < length (paint width rects (replicate (width * height) bg))"
  then have p: "p < width * height" by simp
  show "paint width rects (replicate (width * height) bg) ! p = tile ! p"
  proof (rule nth_paint)
    show "\<forall>r \<in> set rects. in_subrect width p r \<longrightarrow> fst r = tile ! p"
      using d p by (auto simp: subrects_done_def list_all_iff subrect_ok_def in_subrect_def split_beta)
    show "replicate (width * height) bg ! p = tile ! p \<or> (\<exists>r \<in> set rects. in_subrect width p r)"
      using d p by (auto simp: subrects_done_def)
  qed (use p in simp)
qed (simp add: len)

subsection \<open>Reading a tile back\<close>

text \<open>What the viewer carries agrees with what the encoder believes it carries.\<close>

definition carries :: "hex_state \<Rightarrow> u32 option \<times> u32 option \<Rightarrow> bool" where
  "carries hex carried \<longleftrightarrow> (hex_bg_valid hex \<longrightarrow> fst carried = Some (hex_bg hex)) \<and>
     (hex_fg_valid hex \<longrightarrow> snd carried = Some (hex_fg hex))"

lemma view_colour_given:
  assumes "format_ok f" and "unat c < 2 ^ unat (bpp f)"
  shows "view_colour f given old ((if given then vnc_store_pixel (px_of f) c else []) @ rest) =
    Some (if given then Some c else old, rest)"
  using view_one_pixel [OF assms] by (simp add: view_colour_def del: view_pixels.simps One_nat_def)

lemma solid_reads:
  assumes "format_ok f" and "unat bg < 2 ^ unat (bpp f)" and "\<not> given \<longrightarrow> old = Some bg"
  shows "view_hex_tile f w h (old, fg)
      ((if given then VNC_HEX_BG else 0) # (if given then vnc_store_pixel (px_of f) bg else []) @ rest) =
    Some (replicate (w * h) bg, (Some bg, fg), rest)"
  using view_colour_given [OF assms(1,2), of given old rest] assms(3)
  by (cases given) (simp_all add: VNC_HEX_BG_def view_colour_def)

lemma raw_reads:
  assumes "format_ok f" and "\<forall>p \<in> set tile. unat p < 2 ^ unat (bpp f)" and "length tile = w * h"
  shows "view_hex_tile f w h carried (VNC_HEX_RAW # store_pixels (px_of f) tile @ rest) = Some (tile, (None, None), rest)"
  using view_stored_pixels [OF assms(1,2), of rest] assms(3) by (cases carried) (simp add: VNC_HEX_RAW_def)

lemma subrects_read:
  assumes f: "format_ok f" and fit: "\<forall>c \<in> set tile. unat c < 2 ^ unat (bpp f)"
    and tile: "length tile = width * height" "width \<le> 16" "height \<le> 16"
    and d: "subrects_done (px_of f) tile width height bg two_tone (width * height) work rects"
    and bg: "bg \<in> set tile" "\<not> given \<longrightarrow> old = Some bg"
    and fg: "two_tone \<longrightarrow> fg \<in> set tile \<and> set tile \<subseteq> {bg, fg}" "\<not> given_fg \<longrightarrow> two_tone \<longrightarrow> old_fg = Some fg"
      "given_fg \<longrightarrow> two_tone"
  shows "view_hex_tile f width height (old, old_fg)
      (((if given then VNC_HEX_BG else 0) OR VNC_HEX_ANY OR (if two_tone then if given_fg then VNC_HEX_FG else 0 else VNC_HEX_COLOURED)) #
       (if given then vnc_store_pixel (px_of f) bg else []) @ (if given_fg then vnc_store_pixel (px_of f) fg else []) @
       of_nat (hw_count work) # take (hw_used work) (hw_subrects work) @ rest) =
    Some (tile, (Some bg, if two_tone then Some fg else None), rest)"
proof -
  let ?flags = "(if given then VNC_HEX_BG else 0) OR VNC_HEX_ANY OR (if two_tone then if given_fg then VNC_HEX_FG else 0 else VNC_HEX_COLOURED)"
  have flags: "?flags AND 1 = 0" "?flags AND 2 \<noteq> 0 \<longleftrightarrow> given" "?flags AND 4 \<noteq> 0 \<longleftrightarrow> given_fg" "?flags AND 8 \<noteq> 0"
      "?flags AND 16 = 0 \<longleftrightarrow> two_tone"
    using fg(3) by (cases given; cases two_tone; cases given_fg; simp add: VNC_HEX_BG_def VNC_HEX_ANY_def VNC_HEX_FG_def VNC_HEX_COLOURED_def)+
  have n: "hw_count work = length rects" "length rects < 256"
    and bytes: "take (hw_used work) (hw_subrects work) = concat (map (subrect_bytes (px_of f) two_tone) rects)"
    and ok: "list_all (subrect_ok tile width height) rects" and not_bg: "list_all (\<lambda>r. fst r \<noteq> bg) rects"
    using d unfolding subrects_done_def by (blast | simp)+
  have inside: "\<forall>(c, x, y, rw, rh) \<in> set rects. x + rw \<le> width \<and> y + rh \<le> height" and "\<forall>r \<in> set rects. fst r \<in> set tile"
    using ok by (auto simp: list_all_iff subrect_ok_def)
  then have one_colour: "two_tone \<longrightarrow> (\<forall>r \<in> set rects. fst r = fg)"
    using not_bg fg(1) by (auto simp: list_all_iff)
  have reads: "view_subrects f (if two_tone then Some fg else None) (length rects)
      (take (hw_used work) (hw_subrects work) @ rest) = Some (rects, rest)"
    unfolding bytes by (rule view_subrects_bytes [OF f ok tile(2,3) fit one_colour])
  have count: "unat (of_nat (hw_count work) :: u8) = length rects" using n by (simp add: unat_of_nat)
  have bgc: "view_colour f given old ((if given then vnc_store_pixel (px_of f) bg else []) @ bs) = Some (Some bg, bs)" for bs
    using view_colour_given [OF f, of bg given old bs] fit bg by auto
  have fgc: "view_colour f given_fg old_fg ((if given_fg then vnc_store_pixel (px_of f) fg else []) @ bs) =
      Some (if two_tone then Some fg else old_fg, bs)" for bs
    using view_colour_given [OF f, of fg given_fg old_fg bs] fit fg by (auto simp: view_colour_def)
  show ?thesis
    using flags bgc fgc reads count inside paint_subrects [OF d tile(1)] by (cases two_tone) simp_all
qed

text \<open>The tile as an equation of its bytes, its next state and how the viewer reads it.\<close>

definition sends_tile ::
    "vnc_format \<Rightarrow> nat \<Rightarrow> nat \<Rightarrow> u32 list \<Rightarrow> hex_state \<Rightarrow> (vnc_net \<Rightarrow> hex_state net_result) \<Rightarrow> bool" where
  "sends_tile f width height tile hex send \<longleftrightarrow> (\<exists>bs hex'.
     (\<forall>net. send net = andthen (vnc_emit (length bs) bs net) (\<lambda>_ net. Some (net, Inr hex'))) \<and>
     length bs \<le> VNC_OUT_SIZE \<and>
     (\<forall>carried. carries hex carried \<longrightarrow> (\<exists>carried'. carries hex' carried' \<and>
       (\<forall>rest. view_hex_tile f width height carried (bs @ rest) = Some (tile, carried', rest)))))"

lemma sends_tileI:
  assumes "\<And>net. send net = andthen (vnc_emit (length bs) bs net) (\<lambda>_ net. Some (net, Inr hex'))"
    and "length bs \<le> VNC_OUT_SIZE"
    and "\<And>bg fg. carries hex (bg, fg) \<Longrightarrow> carries hex' (g bg fg) \<and>
      (\<forall>rest. view_hex_tile f width height (bg, fg) (bs @ rest) = Some (tile, g bg fg, rest))"
  shows "sends_tile f width height tile hex send"
proof -
  have "\<exists>carried'. carries hex' carried' \<and>
      (\<forall>rest. view_hex_tile f width height carried (bs @ rest) = Some (tile, carried', rest))" if "carries hex carried" for carried
    using assms(3) [of "fst carried" "snd carried"] that by (intro exI [of _ "g (fst carried) (snd carried)"]) simp
  then show ?thesis using assms(1,2) unfolding sends_tile_def by blast
qed

lemma px_facts:
  assumes "format_ok f"
  shows "length (vnc_store_pixel (px_of f) c) = pixel_bytes (px_of f)" "pixel_bytes (px_of f) \<le> 4"
    "length (store_pixels (px_of f) ps) = length ps * pixel_bytes (px_of f)"
  using length_store_pixel [OF assms] pixel_bytes_4 [OF assms] length_store_pixels [OF assms] by simp_all

lemma bg_flag_eq: "bg_flag hex bg = (if bg_flag hex bg AND VNC_HEX_BG \<noteq> 0 then VNC_HEX_BG else 0)"
  "\<not> bg_flag hex bg AND VNC_HEX_BG \<noteq> 0 \<Longrightarrow> hex_bg_valid hex \<and> hex_bg hex = bg"
  by (auto simp: bg_flag_def VNC_HEX_BG_def split: if_splits)

lemma hex_solid_sends:
  assumes f: "format_ok f" and bg: "unat bg < 2 ^ unat (bpp f)"
  shows "sends_tile f width height (replicate (width * height) bg) hex (hex_solid (px_of f) bg hex)"
proof -
  let ?given = "bg_flag hex bg AND VNC_HEX_BG \<noteq> 0"
  let ?bs = "(if ?given then VNC_HEX_BG else 0) # (if ?given then vnc_store_pixel (px_of f) bg else [])"
  show ?thesis
  proof (rule sends_tileI [where bs = ?bs and hex' = "hex\<lparr>hex_bg := bg, hex_bg_valid := True\<rparr>" and g = "\<lambda>_ fg. (Some bg, fg)"])
    fix net
    have "hex_solid (px_of f) bg hex net = andthen (vnc_emit (1 + (if ?given then pixel_bytes (px_of f) else 0))
        (bg_flag hex bg # (if ?given then vnc_store_pixel (px_of f) bg else [])) net)
      (\<lambda>_ net. Some (net, Inr (hex\<lparr>hex_bg := bg, hex_bg_valid := True\<rparr>)))"
      by (simp add: hex_solid_def)
    also have "1 + (if ?given then pixel_bytes (px_of f) else 0) = length ?bs" using px_facts [OF f] by simp
    also have "bg_flag hex bg = (if ?given then VNC_HEX_BG else 0)" by (rule bg_flag_eq(1))
    finally show "hex_solid (px_of f) bg hex net = andthen (vnc_emit (length ?bs) ?bs net)
      (\<lambda>_ net. Some (net, Inr (hex\<lparr>hex_bg := bg, hex_bg_valid := True\<rparr>)))" by simp
  next
    show "length ?bs \<le> VNC_OUT_SIZE" using px_facts [OF f] by (simp add: VNC_OUT_SIZE_def)
  next
    fix old fg assume c: "carries hex (old, fg)"
    then have "\<not> ?given \<longrightarrow> old = Some bg" using bg_flag_eq(2) [of hex bg] by (auto simp: carries_def)
    from solid_reads [OF f bg this, of width height fg] c
    show "carries (hex\<lparr>hex_bg := bg, hex_bg_valid := True\<rparr>) (Some bg, fg) \<and>
        (\<forall>rest. view_hex_tile f width height (old, fg) (?bs @ rest) = Some (replicate (width * height) bg, (Some bg, fg), rest))"
      by (simp add: carries_def del: view_hex_tile.simps)
  qed
qed

lemma hex_raw_sends:
  assumes f: "format_ok f" and fit: "\<forall>p \<in> set tile. unat p < 2 ^ unat (bpp f)"
    and len: "length tile = width * height" "width \<le> 16" "height \<le> 16"
  shows "sends_tile f width height tile hex (hex_raw (px_of f) tile width height hex)"
proof (rule sends_tileI [where bs = "VNC_HEX_RAW # store_pixels (px_of f) tile" and
      hex' = "hex\<lparr>hex_bg_valid := False, hex_fg_valid := False\<rparr>" and g = "\<lambda>_ _. (None, None)"])
  have "width * height * pixel_bytes (px_of f) \<le> 16 * 16 * 4" using len px_facts(2) [OF f] by (intro mult_le_mono)
  then show "length (VNC_HEX_RAW # store_pixels (px_of f) tile) \<le> VNC_OUT_SIZE"
    using len px_facts(3) [OF f] by (simp add: VNC_OUT_SIZE_def)
qed (use len px_facts(3) [OF f] raw_reads [OF f fit] in \<open>simp_all add: hex_raw_def carries_def del: view_hex_tile.simps\<close>)

lemma hex_body_sends:
  assumes f: "format_ok f" and fit: "\<forall>c \<in> set tile. unat c < 2 ^ unat (bpp f)"
    and tile: "length tile = width * height" "width \<le> 16" "height \<le> 16"
    and d: "subrects_done (px_of f) tile width height bg two_tone (width * height) work rects"
    and bg: "bg \<in> set tile" and fg: "two_tone \<longrightarrow> fg \<in> set tile \<and> set tile \<subseteq> {bg, fg}"
  shows "sends_tile f width height tile hex (hex_body (px_of f) two_tone bg fg work hex)"
proof -
  define given where "given \<longleftrightarrow> bg_flag hex bg AND VNC_HEX_BG \<noteq> 0"
  define given_fg where "given_fg \<longleftrightarrow> two_tone \<and> (\<not> hex_fg_valid hex \<or> hex_fg hex \<noteq> fg)"
  define flags where "flags = ((if given then VNC_HEX_BG else 0) OR VNC_HEX_ANY OR
    (if two_tone then if given_fg then VNC_HEX_FG else 0 else VNC_HEX_COLOURED))"
  define bs where "bs = flags # (if given then vnc_store_pixel (px_of f) bg else []) @
    (if given_fg then vnc_store_pixel (px_of f) fg else []) @ of_nat (hw_count work) # take (hw_used work) (hw_subrects work)"
  define hex' where "hex' = (if two_tone then \<lparr>hex_bg_valid = True, hex_fg_valid = True, hex_bg = bg, hex_fg = fg\<rparr>
    else hex\<lparr>hex_bg := bg, hex_bg_valid := True, hex_fg_valid := False\<rparr>)"
  have used: "hw_used work \<le> length (hw_subrects work)" "hw_used work \<le> 1024" using d by (simp_all add: subrects_done_def)
  have "bg_flag hex bg = (if given then VNC_HEX_BG else 0)" unfolding given_def by (rule bg_flag_eq(1))
  then have flags: "body_flags two_tone bg fg hex = flags"
    by (simp add: body_flags_def flags_def given_fg_def or.assoc Let_def)
  have bits: "flags AND VNC_HEX_BG \<noteq> 0 \<longleftrightarrow> given" "flags AND VNC_HEX_FG \<noteq> 0 \<longleftrightarrow> given_fg"
    unfolding flags_def given_fg_def
    by (cases given; cases two_tone; simp add: VNC_HEX_BG_def VNC_HEX_ANY_def VNC_HEX_FG_def VNC_HEX_COLOURED_def)+
  have len: "length bs = 1 + (if given then pixel_bytes (px_of f) else 0) + (if given_fg then pixel_bytes (px_of f) else 0) + 1 + hw_used work"
    using used(1) px_facts(1) [OF f] by (simp add: bs_def)
  show ?thesis
  proof (rule sends_tileI [where bs = bs and hex' = hex' and g = "\<lambda>_ _. (Some bg, if two_tone then Some fg else None)"])
    show "hex_body (px_of f) two_tone bg fg work hex net = andthen (vnc_emit (length bs) bs net) (\<lambda>_ net. Some (net, Inr hex'))" for net
      unfolding hex_body_def Let_def flags bits len by (simp add: rds_Some used(1) bs_def hex'_def)
    show "length bs \<le> VNC_OUT_SIZE" using len used(2) px_facts(2) [OF f] by (simp add: VNC_OUT_SIZE_def)
    fix old old_fg assume c: "carries hex (old, old_fg)"
    have "\<not> given \<longrightarrow> old = Some bg" using c bg_flag_eq(2) [of hex bg] by (auto simp: carries_def given_def)
    moreover have "\<not> given_fg \<longrightarrow> two_tone \<longrightarrow> old_fg = Some fg" using c by (auto simp: carries_def given_fg_def)
    moreover have "given_fg \<longrightarrow> two_tone" by (simp add: given_fg_def)
    ultimately have "view_hex_tile f width height (old, old_fg) (bs @ rest) =
        Some (tile, (Some bg, if two_tone then Some fg else None), rest)" for rest
      using subrects_read [OF f fit tile d bg _ fg, of given old given_fg old_fg rest] by (simp add: bs_def flags_def del: view_hex_tile.simps)
    then show "carries hex' (Some bg, if two_tone then Some fg else None) \<and>
        (\<forall>rest. view_hex_tile f width height (old, old_fg) (bs @ rest) = Some (tile, (Some bg, if two_tone then Some fg else None), rest))"
      by (simp add: carries_def hex'_def)
  qed
qed

lemma tile_colours_spec:
  assumes "tile \<noteq> []"
  shows "\<exists>bg fg n. tile_colours tile = Some (bg, fg, n) \<and> bg \<in> set tile \<and> (n = 1 \<longrightarrow> tile = replicate (length tile) bg) \<and>
    (n = 2 \<longrightarrow> fg \<in> set tile \<and> set tile \<subseteq> {bg, fg})"
proof -
  obtain second a b n where counts: "foldl (\<lambda>c pixel. count_colour (tile ! 0) pixel c) (0, 0, 0, 1) tile = (second, a, b, n)"
    by (metis prod_cases4)
  note cc = count_colours [OF counts]
  have first: "tile ! 0 \<in> set tile" using assms by (intro nth_mem) simp
  define bg where "bg = (if n \<ge> 2 \<and> b > a then second else tile ! 0)"
  define fg where "fg = (if n = 2 then if bg = tile ! 0 then second else tile ! 0 else 0)"
  have "tile_colours tile = Some (bg, fg, n)"
    using assms counts by (simp add: tile_colours_def rd_def bg_def fg_def del: One_nat_def)
  moreover have "bg \<in> set tile" using first cc(1,4) by (auto simp: bg_def)
  moreover have "tile = replicate (length tile) bg" if "n = 1"
    using cc(2) that by (intro replicate_eqI) (auto simp: bg_def)
  moreover have "fg \<in> set tile \<and> set tile \<subseteq> {bg, fg}" if "n = 2"
    using first cc(3,4) that by (auto simp: bg_def fg_def)
  ultimately show ?thesis by blast
qed

lemma hextile_tile_sends:
  assumes f: "format_ok f" and s: "frame_ok s" and fits: "x + width \<le> vs_width s" "y + height \<le> vs_height s"
    and side: "0 < width" "width \<le> 16" "0 < height" "height \<le> 16" and buf: "length subrects = 1536"
  shows "sends_tile f width height (rect_pixels f s x y width height) hex
    (vnc_encode_hextile_tile (px_of f) s x y width height subrects hex)"
proof -
  define tile where "tile = rect_pixels f s x y width height"
  have len: "length tile = width * height" and fit: "\<forall>c \<in> set tile. unat c < 2 ^ unat (bpp f)"
    using rect_pixels_fit [OF f] by (auto simp: tile_def mult.commute)
  have "tile \<noteq> []" using len side by (cases tile) simp_all
  moreover have area: "width * height \<le> VNC_TILE * VNC_TILE" unfolding VNC_TILE_def using side by (intro mult_le_mono)
  ultimately obtain bg fg n where col: "tile_colours tile = Some (bg, fg, n)" and bg: "bg \<in> set tile"
      and one: "n = 1 \<longrightarrow> tile = replicate (length tile) bg" and two: "n = 2 \<longrightarrow> fg \<in> set tile \<and> set tile \<subseteq> {bg, fg}"
    using tile_colours_spec by blast
  have eq: "vnc_encode_hextile_tile (px_of f) s x y width height subrects hex = (\<lambda>net.
      if n = 1 then hex_solid (px_of f) bg hex net
      else do {
        (work, r) \<leftarrow> vnc_hextile_subrects (px_of f) tile width height bg (n = 2) subrects;
        case r of
          Inl _ \<Rightarrow> hex_raw (px_of f) tile width height hex net
        | Inr _ \<Rightarrow> hex_body (px_of f) (n = 2) bg fg work hex net })"
    by (rule ext) (simp add: vnc_encode_hextile_tile_def tile_pixels_eq [OF s fits area] tile_def [symmetric] col)
  show ?thesis
  proof (cases "n = 1")
    case True
    then have "tile = replicate (width * height) bg" using one len by simp
    then show ?thesis
      using hex_solid_sends [OF f, of bg width height hex] bg fit True unfolding eq tile_def [symmetric] by simp
  next
    case False
    have "outcome (vnc_hextile_subrects (px_of f) tile width height bg (n = 2) subrects) (\<lambda>_ _. True)
      (\<lambda>_ t. \<exists>rects. subrects_done (px_of f) tile width height bg (n = 2) (width * height) t rects)"
      by (rule hextile_subrects_spec) (use px_facts [OF f] len side buf in simp_all)
    then show ?thesis
    proof (cases rule: outcome_cases)
      case (1 work e)
      then show ?thesis
        using hex_raw_sends [OF f fit len side(2,4), of hex] False unfolding eq tile_def [symmetric] by simp
    next
      case (2 work u)
      then obtain rects where "subrects_done (px_of f) tile width height bg (n = 2) (width * height) work rects" by blast
      from hex_body_sends [OF f fit len side(2,4) this bg two, of hex]
      show ?thesis using 2 False unfolding eq tile_def [symmetric] by simp
    qed
  qed
qed

end
