(* ===== verification/VncHextileShow.thy ===== *)
theory VncHextileShow
  imports VncHextileProps
begin

section \<open>Hextile rectangles reach the viewer\<close>

text \<open>
  The reference reader of a whole Hextile rectangle, tile by tile, and the proof that the encoder's
  rectangle becomes the previous frame on the viewer's screen.
\<close>

subsection \<open>A rectangle\<close>

fun view_tiles ::
    "vnc_format \<Rightarrow> nat \<Rightarrow> (nat \<times> nat \<times> nat \<times> nat) list \<Rightarrow> u32 option \<times> u32 option \<Rightarrow> u32 list \<Rightarrow> bytes \<Rightarrow>
     (u32 list \<times> bytes) option" where
  "view_tiles f w [] carried fb bs = Some (fb, bs)"
| "view_tiles f w ((tx, ty, tw, th) # tiles) carried fb bs =
     do {
       (pixels, carried, bs) \<leftarrow> view_hex_tile f tw th carried bs;
       view_tiles f w tiles carried (put_rect w tx ty tw th pixels fb) bs }"

definition view_hextile :: "vnc_format \<Rightarrow> nat \<Rightarrow> nat \<Rightarrow> nat \<Rightarrow> nat \<Rightarrow> nat \<Rightarrow> u32 list \<Rightarrow> bytes \<Rightarrow> (u32 list \<times> bytes) option" where
  "view_hextile f w x y width height fb bs = view_tiles f w (tile_grid 16 x y width height) (None, None) fb bs"

lemma hextile_tiles_emits:
  assumes f: "format_ok f" and s: "frame_ok s" and buf: "length subrects = 1536"
    and "\<forall>(tx, ty, tw, th) \<in> set tiles. 0 < tw \<and> tw \<le> 16 \<and> 0 < th \<and> th \<le> 16 \<and> tx + tw \<le> vs_width s \<and> ty + th \<le> vs_height s"
  shows "\<exists>bs hex'. (\<forall>net. net_ok net \<longrightarrow> emits_val (hextile_tiles (px_of f) s subrects tiles hex net) net bs hex') \<and>
    (\<forall>carried fb rest. carries hex carried \<longrightarrow> view_tiles f (vs_width s) tiles carried fb (bs @ rest) =
      Some (fold (\<lambda>(tx, ty, tw, th). shown f s tx ty tw th) tiles fb, rest))"
  using assms(4)
proof (induction tiles arbitrary: hex)
  case Nil
  then show ?case by (intro exI [of _ "[]"] exI [of _ hex]) (simp add: emits_val_done)
next
  case (Cons t tiles)
  obtain tx ty tw th where t: "t = (tx, ty, tw, th)" by (metis prod_cases4)
  have "sends_tile f tw th (rect_pixels f s tx ty tw th) hex (vnc_encode_hextile_tile (px_of f) s tx ty tw th subrects hex)"
    by (rule hextile_tile_sends [OF f s _ _ _ _ _ _ buf]) (use Cons.prems t in auto)
  then obtain bs hex' where
      send: "\<And>net. vnc_encode_hextile_tile (px_of f) s tx ty tw th subrects hex net =
        andthen (vnc_emit (length bs) bs net) (\<lambda>_ net. Some (net, Inr hex'))"
      and size: "length bs \<le> VNC_OUT_SIZE"
      and view: "\<And>carried. carries hex carried \<Longrightarrow> \<exists>carried'. carries hex' carried' \<and>
        (\<forall>rest. view_hex_tile f tw th carried (bs @ rest) = Some (rect_pixels f s tx ty tw th, carried', rest))"
    unfolding sends_tile_def by blast
  have rest: "\<forall>(tx, ty, tw, th) \<in> set tiles. 0 < tw \<and> tw \<le> 16 \<and> 0 < th \<and> th \<le> 16 \<and> tx + tw \<le> vs_width s \<and> ty + th \<le> vs_height s"
    using Cons.prems by simp
  obtain cs hex'' where cs: "\<And>net. net_ok net \<Longrightarrow> emits_val (hextile_tiles (px_of f) s subrects tiles hex' net) net cs hex''"
      "\<And>carried fb rest. carries hex' carried \<Longrightarrow> view_tiles f (vs_width s) tiles carried fb (cs @ rest) =
        Some (fold (\<lambda>(tx, ty, tw, th). shown f s tx ty tw th) tiles fb, rest)"
    using Cons.IH [OF rest, of hex'] by blast
  have "emits_val (hextile_tiles (px_of f) s subrects (t # tiles) hex net) net (bs @ cs) hex''" if net: "net_ok net" for net
  proof -
    have "hextile_tiles (px_of f) s subrects (t # tiles) hex net =
        andthen (vnc_emit (length bs) bs net) (\<lambda>_ net. hextile_tiles (px_of f) s subrects tiles hex' net)"
      by (auto simp: t send andthen_def split: option.split sum.split)
    then show ?thesis
      using emits_val_seq [OF emit_emits [OF net refl size, folded emits_val_unit] cs(1)] by simp
  qed
  moreover have "view_tiles f (vs_width s) (t # tiles) carried fb ((bs @ cs) @ rest) =
      Some (fold (\<lambda>(tx, ty, tw, th). shown f s tx ty tw th) (t # tiles) fb, rest)" if c: "carries hex carried" for carried fb rest
  proof -
    obtain carried' where "carries hex' carried'"
        "\<And>rest. view_hex_tile f tw th carried (bs @ rest) = Some (rect_pixels f s tx ty tw th, carried', rest)"
      using view [OF c] by blast
    then show ?thesis using cs(2) s by (simp add: t frame_ok_def put_rect_pixels del: view_hex_tile.simps)
  qed
  ultimately show ?case by (intro exI [of _ "bs @ cs"] exI [of _ hex'']) blast
qed

lemma hextile_reads_rect:
  assumes f: "format_ok f" and s: "frame_ok s" and fits: "x + width \<le> vs_width s" "y + height \<le> vs_height s"
    and buf: "length subrects = 1536"
  shows "\<exists>bs hex'. (\<forall>net. net_ok net \<longrightarrow> emits_val (vnc_encode_hextile (px_of f) s x y width height subrects hex net) net bs hex') \<and>
    (\<forall>fb rest. view_hextile f (vs_width s) x y width height fb (bs @ rest) = Some (shown f s x y width height fb, rest))"
proof -
  let ?hex = "hex\<lparr>hex_bg_valid := False, hex_fg_valid := False\<rparr>"
  have step: "0 < (16 :: nat)" by simp
  have "\<forall>(tx, ty, tw, th) \<in> set (tile_grid 16 x y width height). 0 < tw \<and> tw \<le> 16 \<and> 0 < th \<and> th \<le> 16 \<and>
      tx + tw \<le> vs_width s \<and> ty + th \<le> vs_height s"
    using tile_grid_fits [OF step, of _ _ _ _ x y width height] fits by fastforce
  from hextile_tiles_emits [OF f s buf this, of ?hex] obtain bs hex' where
      "\<forall>net. net_ok net \<longrightarrow> emits_val (hextile_tiles (px_of f) s subrects (tile_grid 16 x y width height) ?hex net) net bs hex'"
      "\<forall>carried fb rest. carries ?hex carried \<longrightarrow> view_tiles f (vs_width s) (tile_grid 16 x y width height) carried fb (bs @ rest) =
        Some (shown f s x y width height fb, rest)"
    unfolding fold_shown_grid [OF step] by blast
  then show ?thesis
    by (intro exI [of _ bs] exI [of _ hex']) (simp add: vnc_encode_hextile_def view_hextile_def VNC_TILE_def carries_def)
qed

text \<open>
  C14. The Hextile encoder: for a format the server accepts and a rectangle inside the frame, what
  \<^verbatim>\<open>vnc_encode_hextile\<close> sends (unless the connection fails, and then a prefix of it) is read by a
  viewer that follows RFC 6143 without error and to the last byte, whatever follows on the wire,
  and the viewer's framebuffer then shows the previous frame on the rectangle and is unchanged
  elsewhere. No buffer is left, in particular the 64 KiB output buffer and the subrectangle area.
\<close>

theorem vnc_hextile_shows:
  assumes "format_ok f" and "vnc_build_tables f = Some px" and "frame_ok s" and "x + width \<le> vs_width s" and "y + height \<le> vs_height s"
    and "length subrects = 1536" and "net_ok net"
  shows "\<exists>bs. emits (vnc_encode_hextile px s x y width height subrects hex net) net bs \<and>
    (\<forall>fb rest. view_hextile f (vs_width s) x y width height fb (bs @ rest) = Some (shown f s x y width height fb, rest))"
proof -
  have "px = px_of f" using build_tables_eq [OF assms(1)] assms(2) by simp
  then show ?thesis using hextile_reads_rect [OF assms(1,3-6), of hex] emits_val_emits assms(7) by metis
qed

lemma default_format_ok: "format_ok default_format"
  by (simp add: format_ok_def channel_fits_def default_format_def)

definition idle_net :: vnc_net where
  "idle_net = \<lparr>out_buf = replicate VNC_OUT_SIZE 0, out_length = 0, net_sent = [], net_room = 1000\<rparr>"

lemma idle_net_ok: "net_ok idle_net"
  by (simp add: net_ok_def idle_net_def)

lemma vnc_hextile_shows_witness:
  "\<exists>bs. emits (vnc_encode_hextile (px_of default_format) one_pixel 0 0 1 1 (replicate 1536 0)
      \<lparr>hex_bg_valid = True, hex_fg_valid = True, hex_bg = 7, hex_fg = 9\<rparr> idle_net) idle_net bs \<and>
    (\<forall>fb rest. view_hextile default_format (vs_width one_pixel) 0 0 1 1 fb (bs @ rest) =
      Some (shown default_format one_pixel 0 0 1 1 fb, rest))"
  by (rule vnc_hextile_shows [OF default_format_ok build_tables_eq [OF default_format_ok] one_pixel_ok _ _ _ idle_net_ok])
    (simp_all add: one_pixel_def)

end
