(* ===== verification/Probing.thy ===== *)
theory Probing
  imports V9xPrelude
begin

section \<open>Hash tables with linear probing\<close>

text \<open>
  The program keeps colours in open-addressing tables: a key goes into the first free slot from its
  home slot on. \<open>slot t s\<close> is the key in slot \<open>s\<close> of the table \<open>t\<close>. The locale is the interface between such a
  table and the code that uses it: the search loop looks at a slot and moves to the next one, modulo
  the size, until it meets the key or a free slot. In a table where every key can be reached
  (\<open>probed\<close>) and one slot is free, the search ends, and it ends at the key when the key is there.
\<close>

definition probed :: "nat \<Rightarrow> ('k \<Rightarrow> nat) \<Rightarrow> (nat \<Rightarrow> 'k option) \<Rightarrow> bool" where
  "probed n home T \<longleftrightarrow> (\<forall>s < n. \<forall>k. T s = Some k \<longrightarrow>
     (\<exists>d. s = (home k + d) mod n \<and> (\<forall>e < d. T ((home k + e) mod n) \<noteq> None)))"

definition table_keys :: "nat \<Rightarrow> (nat \<Rightarrow> 'k option) \<Rightarrow> 'k set" where
  "table_keys n T = {k. \<exists>s < n. T s = Some k}"

definition used_slots_of :: "nat \<Rightarrow> (nat \<Rightarrow> 'k option) \<Rightarrow> nat set" where
  "used_slots_of n T = {s. s < n \<and> T s \<noteq> None}"

lemma probed_empty: "probed n home (\<lambda>_. None)" "table_keys n (\<lambda>_. None) = {}" "used_slots_of n (\<lambda>_. None) = {}"
  by (simp_all add: probed_def table_keys_def used_slots_of_def)

lemma probed_insert:
  assumes "probed n home T" and "T s = None" and "s = (home k + d) mod n"
    and "\<forall>e < d. T ((home k + e) mod n) \<noteq> None"
  shows "probed n home (T(s \<mapsto> k))"
proof -
  have keep: "T t \<noteq> None \<Longrightarrow> (T(s \<mapsto> k)) t \<noteq> None" for t by simp
  have "\<exists>d. t = (home l + d) mod n \<and> (\<forall>e < d. (T(s \<mapsto> k)) ((home l + e) mod n) \<noteq> None)"
    if t: "t < n" "(T(s \<mapsto> k)) t = Some l" for t l
  proof (cases "t = s")
    case True
    then have "l = k" using t(2) by simp
    then show ?thesis using True assms(3,4) keep by blast
  next
    case False
    then have "T t = Some l" using t(2) by simp
    then obtain d where "t = (home l + d) mod n" "\<forall>e < d. T ((home l + e) mod n) \<noteq> None"
      using assms(1) t(1) unfolding probed_def by blast
    then show ?thesis using keep by blast
  qed
  then show ?thesis unfolding probed_def by blast
qed

lemma table_keys_insert: "T s = None \<Longrightarrow> s < n \<Longrightarrow> table_keys n (T(s \<mapsto> k)) = insert k (table_keys n T)"
  unfolding table_keys_def by (auto split: if_splits) (metis option.distinct(1))

lemma used_slots_insert: "s < n \<Longrightarrow> used_slots_of n (T(s \<mapsto> k)) = insert s (used_slots_of n T)"
  by (auto simp: used_slots_of_def)

lemma finite_used [simp]: "finite (used_slots_of n T)"
  by (simp add: used_slots_of_def)

lemma free_slot: "card (used_slots_of n T) < n \<Longrightarrow> \<exists>s < n. T s = None"
proof (rule ccontr)
  assume "card (used_slots_of n T) < n" and "\<not> (\<exists>s < n. T s = None)"
  moreover from this(2) have "used_slots_of n T = {..<n}" by (auto simp: used_slots_of_def)
  ultimately show False by simp
qed

locale probing =
  fixes n :: nat and home :: "'k \<Rightarrow> nat" and ok :: "'t \<Rightarrow> bool" and slot :: "'t \<Rightarrow> nat \<Rightarrow> 'k option"
    and find :: "'t \<Rightarrow> 'k \<Rightarrow> nat \<Rightarrow> nat option"
  assumes home_less: "home k < n"
    and find_step: "ok t \<Longrightarrow> s < n \<Longrightarrow>
      find t k s = (if slot t s = None \<or> slot t s = Some k then Some s else find t k ((s + 1) mod n))"
begin

lemma find_after:
  assumes "ok t" "s < n" "\<forall>e < d. slot t ((s + e) mod n) \<noteq> None \<and> slot t ((s + e) mod n) \<noteq> Some k"
    and "slot t ((s + d) mod n) = None \<or> slot t ((s + d) mod n) = Some k"
  shows "find t k s = Some ((s + d) mod n)"
  using assms
proof (induction d arbitrary: s)
  case 0
  then show ?case by (simp add: find_step)
next
  case (Suc d)
  define s' where "s' = (s + 1) mod n"
  have n: "0 < n" using home_less [of k] by simp
  have shift: "(s' + e) mod n = (s + Suc e) mod n" for e by (simp add: s'_def mod_add_left_eq)
  have "slot t s \<noteq> None \<and> slot t s \<noteq> Some k" using Suc.prems(3) [rule_format, of 0] Suc.prems(2) by simp
  then have "find t k s = find t k s'" using find_step [OF Suc.prems(1,2), of k] by (auto simp: s'_def)
  also have "\<dots> = Some ((s' + d) mod n)"
  proof (rule Suc.IH [OF Suc.prems(1)])
    show "s' < n" using n by (simp add: s'_def)
    show "\<forall>e < d. slot t ((s' + e) mod n) \<noteq> None \<and> slot t ((s' + e) mod n) \<noteq> Some k"
      using Suc.prems(3) unfolding shift by blast
    show "slot t ((s' + d) mod n) = None \<or> slot t ((s' + d) mod n) = Some k" unfolding shift by (rule Suc.prems(4))
  qed
  finally show ?case by (simp add: shift)
qed

lemma find_ends:
  assumes t: "ok t" and probed: "probed n home (slot t)" and free: "\<exists>s < n. slot t s = None"
  shows "\<exists>s d. find t k (home k) = Some s \<and> s < n \<and> s = (home k + d) mod n \<and>
    (\<forall>e < d. slot t ((home k + e) mod n) \<noteq> None) \<and>
    slot t s = (if k \<in> table_keys n (slot t) then Some k else None)"
proof -
  let ?at = "\<lambda>d. (home k + d) mod n"
  let ?stop = "\<lambda>d. slot t (?at d) = None \<or> slot t (?at d) = Some k"
  obtain s0 where s0: "s0 < n" "slot t s0 = None" using free by blast
  have "home k + (n + s0 - home k) = s0 + n" using home_less [of k] by linarith
  then have "?at (n + s0 - home k) = s0" using s0(1) by (simp only: mod_add_self2 mod_less)
  then have some: "?stop (n + s0 - home k)" using s0(2) by (simp only:) simp
  define d where "d = (LEAST d. ?stop d)"
  have d: "?stop d" unfolding d_def by (rule LeastI [of ?stop]) (rule some)
  have before: "\<not> ?stop e" if "e < d" for e using that not_less_Least [of e ?stop] unfolding d_def by blast
  have find: "find t k (home k) = Some (?at d)"
  proof (rule find_after [of t "home k" d k])
    show "\<forall>e < d. slot t (?at e) \<noteq> None \<and> slot t (?at e) \<noteq> Some k" using before by simp
  qed (rule t home_less d)+
  have there: "slot t (?at d) = Some k" if "k \<in> table_keys n (slot t)"
  proof (rule ccontr)
    assume no: "slot t (?at d) \<noteq> Some k"
    then have empty: "slot t (?at d) = None" using d by blast
    obtain s where "s < n" "slot t s = Some k" using \<open>k \<in> table_keys n (slot t)\<close> by (auto simp: table_keys_def)
    then obtain c where c: "slot t (?at c) = Some k" "\<forall>e < c. slot t (?at e) \<noteq> None"
      using probed unfolding probed_def by blast
    then have "d \<le> c" using before not_le by blast
    then show False using c(1) c(2) [rule_format, of d] empty by (cases "d = c") simp_all
  qed
  have absent: "slot t (?at d) = None" if "k \<notin> table_keys n (slot t)"
    using that d home_less [of k] by (auto simp: table_keys_def)
  show ?thesis
  proof (rule exI [of _ "?at d"], rule exI [of _ d], intro conjI)
    show "?at d < n" using home_less [of k] by simp
    show "\<forall>e < d. slot t (?at e) \<noteq> None" using before by simp
    show "slot t (?at d) = (if k \<in> table_keys n (slot t) then Some k else None)" using there absent by simp
  qed (rule find refl)+
qed

end

end
