(* ===== verification/VncZrleWork.thy ===== *)
theory VncZrleWork
  imports VncZrle Probing
begin

section \<open>ZRLE: the buffer, the palette and the runs\<close>

text \<open>
  What the parts of the ZRLE encoder do to the work record: writes append to the buffer, the hash table
  of the palette refines a list of distinct colours (\<open>palette_ok z cs\<close>), and the loop over runs is a loop
  over \<open>split_runs\<close>, the run-length form of the tile.
\<close>

subsection \<open>Appending\<close>

definition zr_append :: "vnc_zrle \<Rightarrow> bytes \<Rightarrow> vnc_zrle" where
  "zr_append z bs = z\<lparr>zr_raw := splice (zr_raw z) (zr_length z) bs, zr_length := zr_length z + length bs\<rparr>"

definition zr_room :: "vnc_zrle \<Rightarrow> nat \<Rightarrow> bool" where
  "zr_room z k \<longleftrightarrow> zr_length z + k \<le> length (zr_raw z)"

definition zr_content :: "vnc_zrle \<Rightarrow> bytes" where
  "zr_content z = take (zr_length z) (zr_raw z)"

lemma zr_append_fields [simp]:
  "zr_length (zr_append z bs) = zr_length z + length bs" "zr_palette (zr_append z bs) = zr_palette z"
  "zr_count (zr_append z bs) = zr_count z" "zr_keys (zr_append z bs) = zr_keys z" "zr_slots (zr_append z bs) = zr_slots z"
  by (simp_all add: zr_append_def)

lemma zr_append_raw: "zr_raw (zr_append z bs) = splice (zr_raw z) (zr_length z) bs"
  by (simp add: zr_append_def)

lemma zr_append_Nil [simp]: "zr_append z [] = z"
  by (simp add: zr_append_def)

lemma zr_append_append:
  "zr_room z (length as + length bs) \<Longrightarrow> zr_append (zr_append z as) bs = zr_append z (as @ bs)"
  by (simp add: zr_append_def zr_room_def splice_append add.assoc)

lemma zr_room_append: "zr_room z (length as + k) \<Longrightarrow> zr_room (zr_append z as) k"
  by (simp add: zr_room_def zr_append_raw add.assoc)

lemma zr_content_append: "zr_room z (length bs) \<Longrightarrow> zr_content (zr_append z bs) = zr_content z @ bs"
  unfolding zr_content_def zr_append_raw
  by (rule nth_equalityI) (auto simp: zr_room_def nth_splice nth_append)

lemma zr_room_mono: "zr_room z k \<Longrightarrow> j \<le> k \<Longrightarrow> zr_room z j"
  by (simp add: zr_room_def)

lemma zput_eq: "zr_room z 1 \<Longrightarrow> vnc_zput v z = Some (zr_append z [v])"
  by (simp add: vnc_zput_def zr_room_def wr_splice zr_append_def)

text \<open>A counted loop whose body appends.\<close>

lemma for_up_append:
  assumes "\<And>j t. i \<le> j \<Longrightarrow> j < i + n \<Longrightarrow> Q t \<Longrightarrow> zr_room t (length (g j)) \<Longrightarrow> f j t = Some (zr_append t (g j))"
    and "\<And>t bs. Q t \<Longrightarrow> Q (zr_append t bs)" and "Q z" and "zr_room z (length (concat (map g [i..<i + n])))"
  shows "for_up i n f z = Some (zr_append z (concat (map g [i..<i + n])))"
  using assms
proof (induction n arbitrary: i z)
  case (Suc n)
  let ?rest = "concat (map g [Suc i..<Suc i + n])"
  have split: "concat (map g [i..<i + Suc n]) = g i @ ?rest" by (simp add: upt_conv_Cons del: upt_Suc)
  have room: "zr_room z (length (g i) + length ?rest)" using Suc.prems(4) unfolding split by simp
  have first: "f i z = Some (zr_append z (g i))"
    using Suc.prems(1) [of i z] Suc.prems(3) room by (simp add: zr_room_def)
  have "for_up (Suc i) n f (zr_append z (g i)) = Some (zr_append (zr_append z (g i)) ?rest)"
  proof (rule Suc.IH)
    show "\<And>j t. Suc i \<le> j \<Longrightarrow> j < Suc i + n \<Longrightarrow> Q t \<Longrightarrow> zr_room t (length (g j)) \<Longrightarrow> f j t = Some (zr_append t (g j))"
      using Suc.prems(1) by simp
    show "Q (zr_append z (g i))" by (rule Suc.prems(2) [OF Suc.prems(3)])
    show "zr_room (zr_append z (g i)) (length ?rest)" by (rule zr_room_append [OF room])
  qed (rule Suc.prems(2))
  then show ?case using first zr_append_append [OF room] unfolding split by simp
qed simp

definition cpixel_bytes_of :: "vnc_px \<Rightarrow> u32 \<Rightarrow> bytes" where
  "cpixel_bytes_of px p = take (cpixel_bytes px) (drop (cpixel_skip px) (vnc_store_pixel px p))"

definition run_bytes :: "nat \<Rightarrow> bytes" where
  "run_bytes n = replicate ((n - 1) div 255) 255 @ [of_nat ((n - 1) mod 255)]"

lemma length_run_bytes [simp]: "length (run_bytes n) = vnc_zrun_bytes n"
  by (simp add: run_bytes_def vnc_zrun_bytes_def)

lemma zput_cpixel_eq:
  assumes "cpixel_skip px + cpixel_bytes px \<le> length (vnc_store_pixel px p)" and "zr_room z (cpixel_bytes px)"
  shows "vnc_zput_cpixel px p z = Some (zr_append z (cpixel_bytes_of px p))"
proof -
  let ?wire = "vnc_store_pixel px p"
  have "concat (map (\<lambda>j. [?wire ! (cpixel_skip px + j)]) [0..<0 + cpixel_bytes px]) = cpixel_bytes_of px p"
    unfolding cpixel_bytes_of_def by (rule nth_equalityI) (use assms(1) in \<open>auto simp: nth_concat_const [where c = 1, simplified]\<close>)
  moreover have "for_up 0 (cpixel_bytes px) (\<lambda>index z. do { b \<leftarrow> rd ?wire (cpixel_skip px + index); vnc_zput b z }) z =
      Some (zr_append z (concat (map (\<lambda>j. [?wire ! (cpixel_skip px + j)]) [0..<0 + cpixel_bytes px])))"
    by (rule for_up_append [where Q = "\<lambda>_. True"]) (use assms in \<open>simp_all add: rd_def zput_eq length_concat_const [where c = 1, simplified]\<close>)
  ultimately show ?thesis by (simp add: vnc_zput_cpixel_def Let_def)
qed

lemma zput_run_length_eq:
  assumes "zr_room z (vnc_zrun_bytes n)"
  shows "vnc_zput_run_length n z = Some (zr_append z (run_bytes n))"
proof -
  have "zput_run_rest v z = Some (zr_append z (replicate (v div 255) 255 @ [of_nat (v mod 255)]))"
    if "zr_room z (v div 255 + 1)" for v
    using that
  proof (induction v z rule: zput_run_rest.induct)
    case (1 v z)
    show ?case
    proof (cases "v < 255")
      case True
      then show ?thesis using 1(2) by (subst zput_run_rest.simps) (simp add: zput_eq)
    next
      case False
      then have v: "v div 255 = Suc ((v - 255) div 255)" "v mod 255 = (v - 255) mod 255"
        using le_div_geq [of 255 v] le_mod_geq [of 255 v] by simp_all
      let ?rest = "replicate ((v - 255) div 255) 255 @ [of_nat ((v - 255) mod 255)]"
      have room: "zr_room z (length [255 :: u8] + length ?rest)" using 1(2) unfolding v(1) by simp
      have put: "vnc_zput 255 z = Some (zr_append z [255])" by (rule zput_eq) (use room in \<open>simp add: zr_room_def\<close>)
      have "zput_run_rest (v - 255) (zr_append z [255]) = Some (zr_append (zr_append z [255]) ?rest)"
        by (rule "1.IH" [OF _ put]) (use False zr_room_append [OF room] in simp_all)
      then show ?thesis
        using False put zr_append_append [OF room] unfolding v by (subst zput_run_rest.simps) simp
    qed
  qed
  then show ?thesis using assms by (simp add: vnc_zput_run_length_def run_bytes_def vnc_zrun_bytes_def)
qed

subsection \<open>The palette\<close>

definition zslot :: "vnc_zrle \<Rightarrow> nat \<Rightarrow> u32 option" where
  "zslot z s = (if zr_slots z ! s = 0 then None else Some (zr_keys z ! s))"

definition palette_sizes :: "vnc_zrle \<Rightarrow> bool" where
  "palette_sizes z \<longleftrightarrow> length (zr_palette z) = 128 \<and> length (zr_keys z) = 256 \<and> length (zr_slots z) = 256"

definition palette_ok :: "vnc_zrle \<Rightarrow> u32 list \<Rightarrow> bool" where
  "palette_ok z cs \<longleftrightarrow> palette_sizes z \<and> zr_count z = length cs \<and> length cs \<le> 127 \<and> distinct cs \<and>
     take (length cs) (zr_palette z) = cs \<and> probed 256 zpalette_home (zslot z) \<and>
     table_keys 256 (zslot z) = set cs \<and> card (used_slots_of 256 (zslot z)) = length cs \<and>
     (\<forall>s < 256. \<forall>k. zslot z s = Some k \<longrightarrow> zr_slots z ! s - 1 < length cs \<and> cs ! (zr_slots z ! s - 1) = k)"

lemma palette_ok_append [simp]: "palette_ok (zr_append z bs) cs \<longleftrightarrow> palette_ok z cs"
proof -
  have "zslot (zr_append z bs) = zslot z" by (rule ext) (simp add: zslot_def)
  then show ?thesis by (simp add: palette_ok_def palette_sizes_def)
qed

interpretation zpalette: probing 256 zpalette_home palette_sizes zslot "\<lambda>z. zpalette_probe (zr_slots z) (zr_keys z)"
proof unfold_locales
  show "zpalette_home k < 256" for k
    unfolding zpalette_home_def unat_and_0xff by simp
  show "zpalette_probe (zr_slots z) (zr_keys z) k s =
      (if zslot z s = None \<or> zslot z s = Some k then Some s else zpalette_probe (zr_slots z) (zr_keys z) k ((s + 1) mod 256))"
    if "palette_sizes z" "s < 256" for z s k
    using that by (subst zpalette_probe.simps) (simp add: palette_sizes_def zslot_def rd_def)
qed

lemma palette_search:
  assumes "palette_ok z cs"
  shows "\<exists>s d. zpalette_probe (zr_slots z) (zr_keys z) p (zpalette_home p) = Some s \<and> s < 256 \<and>
    s = (zpalette_home p + d) mod 256 \<and> (\<forall>e < d. zslot z ((zpalette_home p + e) mod 256) \<noteq> None) \<and>
    zslot z s = (if p \<in> set cs then Some p else None)"
proof -
  have "card (used_slots_of 256 (zslot z)) < 256" using assms by (simp add: palette_ok_def)
  from free_slot [OF this] show ?thesis
    using zpalette.find_ends [of z p] assms by (auto simp: palette_ok_def)
qed

lemma palette_found:
  assumes "palette_ok z cs" and "p \<in> set cs"
  shows "\<exists>i. vnc_zpalette_index p z = Some (z, Some i) \<and> i < length cs \<and> cs ! i = p"
proof -
  obtain s where s: "zpalette_probe (zr_slots z) (zr_keys z) p (zpalette_home p) = Some s" "s < 256" "zslot z s = Some p"
    using palette_search [OF assms(1), of p] assms(2) by auto
  then have "rd (zr_slots z) s = Some (zr_slots z ! s)" "zr_slots z ! s \<noteq> 0"
    using assms(1) by (auto simp: palette_ok_def palette_sizes_def rd_def zslot_def split: if_splits)
  moreover have "zr_slots z ! s - 1 < length cs" "cs ! (zr_slots z ! s - 1) = p"
    using assms(1) s(2,3) by (simp_all add: palette_ok_def)
  ultimately show ?thesis using s(1) by (simp add: vnc_zpalette_index_def)
qed

lemma palette_full:
  assumes "palette_ok z cs" and "p \<notin> set cs" and "length cs = 127"
  shows "vnc_zpalette_index p z = Some (z, None)"
proof -
  obtain s where s: "zpalette_probe (zr_slots z) (zr_keys z) p (zpalette_home p) = Some s" "s < 256" "zslot z s = None"
    using palette_search [OF assms(1), of p] assms(2) by auto
  then have "rd (zr_slots z) s = Some 0"
    using assms(1) by (auto simp: palette_ok_def palette_sizes_def rd_def zslot_def split: if_splits)
  then show ?thesis using s(1) assms by (simp add: vnc_zpalette_index_def palette_ok_def)
qed

lemma palette_added:
  assumes ok: "palette_ok z cs" and new: "p \<notin> set cs" and room: "length cs < 127"
  shows "\<exists>z'. vnc_zpalette_index p z = Some (z', Some (length cs)) \<and> palette_ok z' (cs @ [p]) \<and>
    zr_raw z' = zr_raw z \<and> zr_length z' = zr_length z"
proof -
  obtain s d where s: "zpalette_probe (zr_slots z) (zr_keys z) p (zpalette_home p) = Some s" "s < 256"
      "s = (zpalette_home p + d) mod 256" "\<forall>e < d. zslot z ((zpalette_home p + e) mod 256) \<noteq> None" "zslot z s = None"
    using palette_search [OF ok, of p] new by auto
  have sizes: "length (zr_palette z) = 128" "length (zr_keys z) = 256" "length (zr_slots z) = 256" "zr_count z = length cs"
    using ok by (simp_all add: palette_ok_def palette_sizes_def)
  define z' where "z' = z\<lparr>zr_palette := (zr_palette z)[length cs := p], zr_keys := (zr_keys z)[s := p],
    zr_slots := (zr_slots z)[s := length cs + 1], zr_count := length cs + 1\<rparr>"
  have "rd (zr_slots z) s = Some 0" using s(2,5) sizes by (auto simp: rd_def zslot_def split: if_splits)
  then have eq: "vnc_zpalette_index p z = Some (z', Some (length cs))"
    using s(1,2) sizes room by (simp add: vnc_zpalette_index_def wr_def z'_def)
  have slot: "zslot z' t = ((zslot z)(s \<mapsto> p)) t" for t
    using s(2) sizes by (cases "t = s") (simp_all add: zslot_def z'_def)
  then have T: "zslot z' = (zslot z)(s \<mapsto> p)" by (rule ext)
  have probed: "probed 256 zpalette_home (zslot z')"
    unfolding T
    by (rule probed_insert [of 256 zpalette_home "zslot z" s p d, OF _ s(5) s(3) s(4)]) (use ok in \<open>simp add: palette_ok_def\<close>)
  have keys: "table_keys 256 (zslot z') = set (cs @ [p])"
    using table_keys_insert [of "zslot z" s 256 p] s(2,5) ok unfolding T by (simp add: palette_ok_def)
  have "s \<notin> used_slots_of 256 (zslot z)" using s(5) by (simp add: used_slots_of_def)
  then have card: "card (used_slots_of 256 (zslot z')) = length (cs @ [p])"
    using used_slots_insert [OF s(2), of "zslot z" p] ok unfolding T by (simp add: palette_ok_def)
  have "zr_slots z' ! t - 1 < length (cs @ [p]) \<and> (cs @ [p]) ! (zr_slots z' ! t - 1) = k"
    if t: "t < 256" "zslot z' t = Some k" for t k
  proof (cases "t = s")
    case True
    moreover from this have "k = p" using t(2) by (simp add: slot)
    ultimately show ?thesis using s(2) sizes by (simp add: z'_def)
  next
    case False
    then have "zslot z t = Some k" using t(2) by (simp add: slot)
    then have "zr_slots z ! t - 1 < length cs \<and> cs ! (zr_slots z ! t - 1) = k" using ok t(1) by (simp add: palette_ok_def)
    then show ?thesis using False by (simp add: z'_def nth_append)
  qed
  then have "palette_ok z' (cs @ [p])"
    using probed keys card ok new room sizes
    by (simp add: palette_ok_def palette_sizes_def z'_def take_Suc_conv_app_nth)
  then show ?thesis using eq by (simp add: z'_def)
qed

subsection \<open>Runs\<close>

function split_runs :: "'a list \<Rightarrow> ('a \<times> nat) list" where
  "split_runs [] = []"
| "split_runs (x # xs) = (x, length (takeWhile (\<lambda>y. y = x) xs) + 1) # split_runs (dropWhile (\<lambda>y. y = x) xs)"
  by pat_completeness auto
termination
  by (relation "measure length") (auto simp: le_imp_less_Suc length_dropWhile_le)

lemma split_runs_join: "concat (map (\<lambda>(p, n). replicate n p) (split_runs xs)) = xs"
proof (induction xs rule: split_runs.induct)
  case (2 x xs)
  have "replicate (length (takeWhile (\<lambda>y. y = x) xs)) x = takeWhile (\<lambda>y. y = x) xs"
    by (rule replicate_eqI [symmetric]) (auto dest: set_takeWhileD)
  then show ?case using 2 by simp
qed simp

lemma split_runs_pos: "(p, n) \<in> set (split_runs xs) \<Longrightarrow> 0 < n"
  by (induction xs rule: split_runs.induct) auto

lemma split_runs_colours: "fst ` set (split_runs xs) = set xs"
proof -
  have "set xs = set (concat (map (\<lambda>(p, n). replicate n p) (split_runs xs)))" by (simp only: split_runs_join)
  also have "\<dots> = fst ` set (split_runs xs)" using split_runs_pos by (force simp: image_iff)
  finally show ?thesis by simp
qed

primrec run_all :: "('a \<Rightarrow> nat \<Rightarrow> 's \<Rightarrow> 's option) \<Rightarrow> ('a \<times> nat) list \<Rightarrow> 's \<Rightarrow> 's option" where
  "run_all f [] s = Some s"
| "run_all f (r # rs) s = do { s \<leftarrow> f (fst r) (snd r) s; run_all f rs s }"

lemma zrun_eq:
  assumes "index < length tile" and "index + run \<le> length tile"
  shows "zrun tile (length tile) index run =
    Some (run + length (takeWhile (\<lambda>y. y = tile ! index) (drop (index + run) tile)))"
  using assms
proof (induction tile "length tile" index run rule: zrun.induct)
  case (1 tile index run)
  show ?case
  proof (cases "index + run < length tile")
    case True
    then have "drop (index + run) tile = tile ! (index + run) # drop (index + (run + 1)) tile"
      using Cons_nth_drop_Suc [of "index + run" tile] by simp
    then show ?thesis using 1 True by (subst zrun.simps) (auto simp: rd_def)
  qed (use 1 in \<open>simp add: zrun.simps\<close>)
qed

lemma for_runs_eq: "for_runs tile (length tile) index f s = run_all f (split_runs (drop index tile)) s"
proof (induction "length tile - index" arbitrary: index s rule: less_induct)
  case less
  show ?case
  proof (cases "index < length tile")
    case True
    let ?more = "length (takeWhile (\<lambda>y. y = tile ! index) (drop (index + 1) tile))"
    have d: "drop index tile = tile ! index # drop (index + 1) tile"
      using Cons_nth_drop_Suc [of index tile] True by simp
    have "dropWhile (\<lambda>y. y = tile ! index) (drop (index + 1) tile) = drop ?more (drop (index + 1) tile)"
      by (rule dropWhile_eq_drop)
    then have rest: "dropWhile (\<lambda>y. y = tile ! index) (drop (index + 1) tile) = drop (index + (1 + ?more)) tile"
      by (simp add: add.commute add.left_commute)
    have IH: "for_runs tile (length tile) (index + (1 + ?more)) f t = run_all f (split_runs (drop (index + (1 + ?more)) tile)) t" for t
      by (rule less.hyps) (use True in simp)
    show ?thesis
      unfolding d split_runs.simps rest
      using True zrun_eq [OF True, of 1] IH by (subst for_runs.simps) (simp add: rd_def add.commute)
  qed (simp add: for_runs.simps)
qed

lemma run_all_append:
  assumes "\<And>p n t. (p, n) \<in> set rs \<Longrightarrow> Q t \<Longrightarrow> zr_room t (length (g p n)) \<Longrightarrow> f p n t = Some (zr_append t (g p n))"
    and "\<And>t bs. Q t \<Longrightarrow> Q (zr_append t bs)" and "Q z" and "zr_room z (length (concat (map (\<lambda>(p, n). g p n) rs)))"
  shows "run_all f rs z = Some (zr_append z (concat (map (\<lambda>(p, n). g p n) rs)))"
  using assms
proof (induction rs arbitrary: z)
  case (Cons r rs)
  obtain p n where r: "r = (p, n)" by (cases r)
  let ?rest = "concat (map (\<lambda>(p, n). g p n) rs)"
  have room: "zr_room z (length (g p n) + length ?rest)" using Cons.prems(4) by (simp add: r)
  have first: "f p n z = Some (zr_append z (g p n))"
    using Cons.prems(1) [of p n z] Cons.prems(3) room by (simp add: r zr_room_def)
  have "run_all f rs (zr_append z (g p n)) = Some (zr_append (zr_append z (g p n)) ?rest)"
    by (rule Cons.IH) (use Cons.prems zr_room_append [OF room] in auto)
  then show ?case using first zr_append_append [OF room] by (simp add: r)
qed simp

end
