(* ===== verification/VncZrleRead.thy ===== *)
theory VncZrleRead
  imports VncZrleWork
begin

section \<open>A reader of ZRLE tiles\<close>

text \<open>
  A reference reader of ZRLE tiles after RFC 6143 section 7.7.6 (what the inflated bytes mean), and the
  three codes it has to undo: CPIXELs, run lengths and packed palette indices.
\<close>

subsection \<open>The reader\<close>

definition view_cpixel :: "vnc_format \<Rightarrow> bytes \<Rightarrow> (u32 \<times> bytes) option" where
  "view_cpixel f bs =
     (let n = cpixel_width f in if length bs < n then None else Some (read_cpixel f (take n bs), drop n bs))"

fun view_cpixels :: "vnc_format \<Rightarrow> nat \<Rightarrow> bytes \<Rightarrow> (u32 list \<times> bytes) option" where
  "view_cpixels f 0 bs = Some ([], bs)"
| "view_cpixels f (Suc k) bs =
     do { (p, bs) \<leftarrow> view_cpixel f bs; (ps, bs) \<leftarrow> view_cpixels f k bs; Some (p # ps, bs) }"

fun view_run_length :: "bytes \<Rightarrow> (nat \<times> bytes) option" where
  "view_run_length [] = None"
| "view_run_length (b # bs) =
     (if b = 255 then do { (n, bs) \<leftarrow> view_run_length bs; Some (n + 255, bs) } else Some (unat b + 1, bs))"

definition view_plain_run :: "vnc_format \<Rightarrow> bytes \<Rightarrow> ((u32 \<times> nat) \<times> bytes) option" where
  "view_plain_run f bs =
     do { (p, bs) \<leftarrow> view_cpixel f bs; (n, bs) \<leftarrow> view_run_length bs; Some ((p, n), bs) }"

fun view_palette_run :: "u32 list \<Rightarrow> bytes \<Rightarrow> ((u32 \<times> nat) \<times> bytes) option" where
  "view_palette_run cs [] = None"
| "view_palette_run cs (b # bs) =
     (let i = unat b mod 128 in
      if i \<ge> length cs then None
      else if unat b < 128 then Some ((cs ! i, 1), bs)
      else do { (n, bs) \<leftarrow> view_run_length bs; Some ((cs ! i, n), bs) })"

text \<open>Runs until the tile is full; a run beyond its end is an error.\<close>

function view_rle :: "(bytes \<Rightarrow> ((u32 \<times> nat) \<times> bytes) option) \<Rightarrow> nat \<Rightarrow> bytes \<Rightarrow> (u32 list \<times> bytes) option" where
  "view_rle reader k bs =
     (if k = 0 then Some ([], bs)
      else case reader bs of
        None \<Rightarrow> None
      | Some ((p, n), bs) \<Rightarrow>
          if n = 0 \<or> n > k then None
          else do { (ps, bs) \<leftarrow> view_rle reader (k - n) bs; Some (replicate n p @ ps, bs) })"
  by pat_completeness auto
termination
  by (relation "measure (\<lambda>(_, k, _). k)") auto

declare view_rle.simps [simp del]

definition view_packed_row :: "u32 list \<Rightarrow> nat \<Rightarrow> nat \<Rightarrow> bytes \<Rightarrow> (u32 list \<times> bytes) option" where
  "view_packed_row cs bits w bs =
     (let n = (w * bits + 7) div 8;
          ids = map (\<lambda>c. unat (bs ! (c * bits div 8)) div 2 ^ (8 - bits - c * bits mod 8) mod 2 ^ bits) [0..<w]
      in if length bs < n \<or> (\<exists>i \<in> set ids. i \<ge> length cs) then None else Some (map ((!) cs) ids, drop n bs))"

fun view_packed_rows :: "u32 list \<Rightarrow> nat \<Rightarrow> nat \<Rightarrow> nat \<Rightarrow> bytes \<Rightarrow> (u32 list \<times> bytes) option" where
  "view_packed_rows cs bits w 0 bs = Some ([], bs)"
| "view_packed_rows cs bits w (Suc h) bs =
     do { (ps, bs) \<leftarrow> view_packed_row cs bits w bs; (qs, bs) \<leftarrow> view_packed_rows cs bits w h bs; Some (ps @ qs, bs) }"

fun view_zrle_tile :: "vnc_format \<Rightarrow> nat \<Rightarrow> nat \<Rightarrow> bytes \<Rightarrow> (u32 list \<times> bytes) option" where
  "view_zrle_tile f w h [] = None"
| "view_zrle_tile f w h (b # bs) =
     (let kind = unat b in
      if kind = 0 then view_cpixels f (w * h) bs
      else if kind = 1 then do { (p, bs) \<leftarrow> view_cpixel f bs; Some (replicate (w * h) p, bs) }
      else if kind \<le> 16 then do {
        (cs, bs) \<leftarrow> view_cpixels f kind bs;
        view_packed_rows cs (if kind = 2 then 1 else if kind \<le> 4 then 2 else 4) w h bs }
      else if kind = 128 then view_rle (view_plain_run f) (w * h) bs
      else if kind \<ge> 130 then do {
        (cs, bs) \<leftarrow> view_cpixels f (kind - 128) bs;
        view_rle (view_palette_run cs) (w * h) bs }
      else None)"

subsection \<open>CPIXELs\<close>

definition colour_of :: "vnc_format \<Rightarrow> u32 \<Rightarrow> bool" where
  "colour_of f p \<longleftrightarrow> (\<exists>native. p = pixel_of f native)"

abbreviation cpx :: "vnc_format \<Rightarrow> u32 \<Rightarrow> bytes" where
  "cpx f p \<equiv> cpixel_bytes_of (px_of f) p"

lemma cpx_facts:
  assumes f: "format_ok f" "maxima_ok f"
  shows "cpixel_bytes (px_of f) = cpixel_width f" "length (cpx f p) = cpixel_width f"
    "cpixel_skip (px_of f) + cpixel_bytes (px_of f) \<le> length (vnc_store_pixel (px_of f) p)"
    "cpixel_width f \<le> 4" "0 < cpixel_width f"
    and "colour_of f p \<Longrightarrow> read_cpixel f (cpx f p) = p"
proof -
  have parts: "cpixel_bytes (px_of f) = fst (cpixel_of f)" "cpixel_skip (px_of f) = snd (cpixel_of f)"
    by (simp_all add: px_of_def)
  have fits: "snd (cpixel_of f) + fst (cpixel_of f) \<le> unat (bpp f) div 8" by (rule read_cpixel_stored(3) [OF f])
  have len: "length (cpx f p) = fst (cpixel_of f)" for p
    using fits length_store_pixel [OF f(1), of p] by (simp add: cpixel_bytes_of_def parts)
  have width: "cpixel_width f = fst (cpixel_of f)"
    using read_cpixel_stored(1) [OF f, of 0] len [of "pixel_of f 0"] by (simp add: cpixel_bytes_of_def parts)
  show "cpixel_bytes (px_of f) = cpixel_width f" "length (cpx f p) = cpixel_width f"
    "cpixel_skip (px_of f) + cpixel_bytes (px_of f) \<le> length (vnc_store_pixel (px_of f) p)"
    using fits len length_store_pixel [OF f(1), of p] by (simp_all add: parts width)
  show "cpixel_width f \<le> 4" "0 < cpixel_width f"
    using pixel_bytes_4 [OF f(1)] by (auto simp: cpixel_width_def)
  show "colour_of f p \<Longrightarrow> read_cpixel f (cpx f p) = p"
    using read_cpixel_stored(2) [OF f] by (auto simp: colour_of_def cpixel_bytes_of_def parts)
qed

definition format_rfc :: "vnc_format \<Rightarrow> bool" where
  "format_rfc f \<longleftrightarrow> format_ok f \<and> maxima_ok f"

lemma view_cpixel_stored: "format_rfc f \<Longrightarrow> colour_of f p \<Longrightarrow> view_cpixel f (cpx f p @ rest) = Some (p, rest)"
  using cpx_facts(2,6) [of f p] by (simp add: format_rfc_def view_cpixel_def)

lemma view_cpixels_stored:
  "format_rfc f \<Longrightarrow> \<forall>p \<in> set ps. colour_of f p \<Longrightarrow>
   view_cpixels f (length ps) (concat (map (cpx f) ps) @ rest) = Some (ps, rest)"
  by (induction ps) (simp_all add: view_cpixel_stored)

lemma length_cpx [simp]: "format_rfc f \<Longrightarrow> length (cpx f p) = cpixel_width f"
  using cpx_facts(2) by (simp add: format_rfc_def)

lemma length_cpixels: "format_rfc f \<Longrightarrow> length (concat (map (cpx f) ps)) = length ps * cpixel_width f"
  by (rule length_concat_const) simp

lemma zput_cpixel:
  assumes "format_rfc f" and "zr_room z (cpixel_width f)"
  shows "vnc_zput_cpixel (px_of f) p z = Some (zr_append z (cpx f p))"
  using zput_cpixel_eq [of "px_of f" p z] cpx_facts(1,3) [of f] assms by (simp add: format_rfc_def)

subsection \<open>Run lengths\<close>

lemma view_run_bytes:
  assumes "0 < n"
  shows "view_run_length (run_bytes n @ rest) = Some (n, rest)"
proof -
  have "view_run_length (replicate k 255 @ [of_nat m] @ rest) = Some (255 * k + m + 1, rest)" if "m < 255" for k m
  proof (induction k)
    case 0
    have "unat (of_nat m :: u8) = m" using that by (simp add: unat_of_nat)
    moreover have "(of_nat m :: u8) \<noteq> 255"
    proof
      assume "(of_nat m :: u8) = 255"
      then have "unat (of_nat m :: u8) = unat (255 :: u8)" by (rule arg_cong)
      then show False using that calculation by simp
    qed
    ultimately show ?case by simp
  qed simp
  from this [of "(n - 1) mod 255" "(n - 1) div 255"] show ?thesis using assms by (simp add: run_bytes_def)
qed

lemma view_rle_runs:
  assumes "\<And>p n rest. (p, n) \<in> set rs \<Longrightarrow> 0 < n \<and> reader (enc p n @ rest) = Some ((p, n), rest)"
  shows "view_rle reader (length (concat (map (\<lambda>(p, n). replicate n p) rs))) (concat (map (\<lambda>(p, n). enc p n) rs) @ rest) =
    Some (concat (map (\<lambda>(p, n). replicate n p) rs), rest)"
  using assms
proof (induction rs)
  case Nil
  then show ?case by (simp add: view_rle.simps)
next
  case (Cons r rs)
  obtain p n where r: "r = (p, n)" by (cases r)
  have "0 < n" and read: "reader (enc p n @ bs) = Some ((p, n), bs)" for bs using Cons.prems [of p n] by (simp_all add: r)
  moreover have "view_rle reader (length (concat (map (\<lambda>(p, n). replicate n p) rs))) (concat (map (\<lambda>(p, n). enc p n) rs) @ rest) =
      Some (concat (map (\<lambda>(p, n). replicate n p) rs), rest)"
    by (rule Cons.IH, rule Cons.prems) simp
  ultimately show ?case by (subst view_rle.simps) (simp add: r)
qed

subsection \<open>Packed indices\<close>

fun pack_from :: "nat \<Rightarrow> u32 \<Rightarrow> nat \<Rightarrow> nat list \<Rightarrow> bytes" where
  "pack_from bits byte filled [] = (if filled \<noteq> 0 then [ucast (push_bit (8 - filled) byte)] else [])"
| "pack_from bits byte filled (i # is) =
     (let byte = push_bit bits byte OR of_nat i; filled = filled + bits in
      if filled = 8 then ucast byte # pack_from bits 0 0 is else pack_from bits byte filled is)"

definition digits :: "nat \<Rightarrow> nat \<Rightarrow> nat list \<Rightarrow> nat" where
  "digits base = foldl (\<lambda>v i. v * base + i)"

lemma digits_append: "digits base v (xs @ ys) = digits base (digits base v xs) ys"
  by (simp add: digits_def)

lemma digits_less: "\<forall>i \<in> set xs. i < base \<Longrightarrow> v < c \<Longrightarrow> digits base v xs < c * base ^ length xs"
proof (induction xs arbitrary: v c)
  case (Cons x xs)
  have "v * base + x < v * base + base" using Cons.prems(1) by simp
  also have "\<dots> = Suc v * base" by simp
  also have "\<dots> \<le> c * base" using Cons.prems(2) by (intro mult_le_mono1) simp
  finally have "digits base (v * base + x) xs < c * base * base ^ length xs" by (rule Cons.IH [rotated]) (use Cons.prems in simp)
  then show ?case by (simp add: digits_def mult.assoc)
qed (simp add: digits_def)

lemma nth_digits:
  assumes "\<forall>i \<in> set xs. i < base" and "c < length xs"
  shows "digits base v xs div base ^ (length xs - 1 - c) mod base = xs ! c"
  using assms
proof (induction xs rule: rev_induct)
  case (snoc x xs)
  have x: "x < base" using snoc.prems(1) by simp
  show ?case
  proof (cases "c = length xs")
    case True
    then show ?thesis using x by (simp add: digits_def)
  next
    case False
    then have c: "c < length xs" using snoc.prems(2) by simp
    have step: "(digits base v xs * base + x) div base = digits base v xs" using x by simp
    have "length (xs @ [x]) - 1 - c = Suc (length xs - 1 - c)" using c by simp
    then have "digits base v (xs @ [x]) div base ^ (length (xs @ [x]) - 1 - c) =
        (digits base v xs * base + x) div base div base ^ (length xs - 1 - c)"
      by (simp add: digits_def div_mult2_eq)
    also have "\<dots> = digits base v xs div base ^ (length xs - 1 - c)" by (simp only: step)
    finally show ?thesis using snoc.IH [OF _ c] snoc.prems(1) c by (simp add: nth_append)
  qed
qed simp

lemma shift_in:
  assumes "i < 2 ^ b" and "unat w * 2 ^ b + i < 2 ^ 32"
  shows "unat (push_bit b w OR of_nat i :: u32) = unat w * 2 ^ b + i"
proof -
  have "unat (push_bit b w) = unat w * 2 ^ b"
    using assms(2) unfolding unsigned_push_bit_eq by (simp add: push_bit_eq_mult take_bit_eq_mod)
  moreover have "push_bit b w OR of_nat i = push_bit b w + (of_nat i :: u32)"
  proof (rule disjunctive_add [symmetric])
    fix n
    have "unat (of_nat i :: u32) < 2 ^ b" using assms by (simp add: u32_of_nat)
    then show "\<not> bit (push_bit b w) n \<or> \<not> bit (of_nat i :: u32) n"
      using bit_small [of "of_nat i" b n] by (auto simp: bit_push_bit_iff)
  qed
  ultimately show ?thesis using assms by (simp add: u32_add u32_of_nat)
qed

lemma pack_step:
  assumes "xs \<noteq> []" and "0 < bits" "filled + bits * length xs \<le> 8" and "unat byte < 2 ^ filled" and "\<forall>i \<in> set xs. i < 2 ^ bits"
  shows "\<exists>w. unat w = digits (2 ^ bits) (unat byte) xs \<and> unat w < 2 ^ (filled + bits * length xs) \<and>
    pack_from bits byte filled (xs @ ys) =
      (if filled + bits * length xs = 8 then ucast w # pack_from bits 0 0 ys
       else pack_from bits w (filled + bits * length xs) ys)"
  using assms
proof (induction xs arbitrary: byte filled)
  case (Cons x xs)
  let ?w = "push_bit bits byte OR of_nat x :: u32"
  have len: "bits * length (x # xs) = bits + bits * length xs" by simp
  have x: "x < 2 ^ bits" and fb: "filled + bits \<le> 8" using Cons.prems(3,5) by (simp_all add: len)
  have "unat byte * 2 ^ bits + x < 2 ^ (filled + bits)"
  proof -
    have "unat byte * 2 ^ bits + x < Suc (unat byte) * 2 ^ bits" using x by simp
    also have "\<dots> \<le> 2 ^ filled * 2 ^ bits" using Cons.prems(4) by (intro mult_le_mono1) simp
    finally show ?thesis by (simp add: power_add)
  qed
  moreover have "(2 :: nat) ^ (filled + bits) \<le> 2 ^ 8" using fb by (rule power_increasing) simp
  ultimately have w: "unat ?w = unat byte * 2 ^ bits + x" "unat ?w < 2 ^ (filled + bits)"
    using shift_in [OF x, of byte] by simp_all
  show ?case
  proof (cases "xs = []")
    case True
    then show ?thesis using w by (intro exI [of _ ?w]) (simp add: Let_def digits_def)
  next
    case False
    then have "1 \<le> length xs" by (cases xs) simp_all
    then have "bits * 1 \<le> bits * length xs" by (rule mult_le_mono2)
    then have less: "filled + bits \<noteq> 8" using Cons.prems(2,3) unfolding len by linarith
    have "filled + bits + bits * length xs \<le> 8" using Cons.prems(3) unfolding len by linarith
    from Cons.IH [OF False Cons.prems(2) this w(2)] Cons.prems(5) obtain v where
        "unat v = digits (2 ^ bits) (unat ?w) xs" "unat v < 2 ^ (filled + bits + bits * length xs)"
        "pack_from bits ?w (filled + bits) (xs @ ys) =
          (if filled + bits + bits * length xs = 8 then ucast v # pack_from bits 0 0 ys
           else pack_from bits v (filled + bits + bits * length xs) ys)" by auto
    then show ?thesis
      using less w(1) by (intro exI [of _ v]) (simp add: Let_def digits_def add.assoc)
  qed
qed simp

lemma digit_at:
  assumes "\<forall>i \<in> set xs. i < 2 ^ bits" "c < length xs" "bits * length xs \<le> 8"
  shows "digits (2 ^ bits) 0 xs * 2 ^ (8 - bits * length xs) div 2 ^ (8 - bits - c * bits) mod 2 ^ bits = xs ! c"
proof -
  have "bits * (length xs - 1 - c) + bits * Suc c = bits * length xs"
  proof -
    have "length xs - 1 - c + Suc c = length xs" using assms(2) by simp
    then show ?thesis by (metis add_mult_distrib2)
  qed
  then have e: "8 - bits - c * bits = bits * (length xs - 1 - c) + (8 - bits * length xs)"
    using assms(3) by (simp add: mult.commute)
  have "digits (2 ^ bits) 0 xs * 2 ^ (8 - bits * length xs) div 2 ^ (8 - bits - c * bits) =
      digits (2 ^ bits) 0 xs div (2 ^ bits) ^ (length xs - 1 - c)"
    unfolding e power_add power_mult by simp
  then show ?thesis using nth_digits [OF assms(1,2), of 0] by simp
qed

lemma unat_u8_ucast: "unat (ucast w :: u8) = unat w mod 256" for w :: u32
  by (simp add: unsigned_ucast_eq take_bit_eq_mod)

lemma pack_unpack:
  assumes "0 < bits" and "k * bits = 8" and "\<forall>i \<in> set is. i < 2 ^ bits"
  shows "length (pack_from bits 0 0 is) = (length is * bits + 7) div 8 \<and>
    (\<forall>c < length is. unat (pack_from bits 0 0 is ! (c * bits div 8)) div 2 ^ (8 - bits - c * bits mod 8) mod 2 ^ bits = is ! c)"
  using assms(3)
proof (induction "length is" arbitrary: "is" rule: less_induct)
  case less
  consider "is = []" | "is \<noteq> []" "length is < k" | "k \<le> length is" by linarith
  then show ?case
  proof cases
    case 2
    let ?n = "length is"
    have "Suc ?n * bits \<le> 8" unfolding assms(2) [symmetric] using 2 by (intro mult_le_mono1) simp
    then have fill: "bits * ?n + bits \<le> 8" by (simp add: mult.commute)
    obtain w :: u32 where w: "unat w = digits (2 ^ bits) 0 is" "unat w < 2 ^ (bits * ?n)"
        "pack_from bits 0 0 is = pack_from bits w (bits * ?n) []"
      using pack_step [OF 2(1) assms(1), of 0 0 "[]"] less.prems fill assms(1) by auto
    have pos: "0 < bits * ?n" using 2 assms(1) by simp
    have "unat w * 2 ^ (8 - bits * ?n) < 2 ^ (bits * ?n) * 2 ^ (8 - bits * ?n)" using w(2) by simp
    also have "\<dots> = 256" unfolding power_add [symmetric] using fill by simp
    finally have small: "unat w * 2 ^ (8 - bits * ?n) < 256" .
    then have "unat (push_bit (8 - bits * ?n) w) = unat w * 2 ^ (8 - bits * ?n)"
      unfolding unsigned_push_bit_eq by (simp add: push_bit_eq_mult take_bit_eq_mod)
    then have byte: "unat (ucast (push_bit (8 - bits * ?n) w) :: u8) = unat w * 2 ^ (8 - bits * ?n)"
      using small by (simp add: unat_u8_ucast)
    have one: "pack_from bits 0 0 is = [ucast (push_bit (8 - bits * ?n) w)]" using w(3) pos by simp
    have "(m + 7) div 8 = 1" if "0 < m" "m \<le> 8" for m :: nat
      by (rule div_nat_eqI) (use that in simp_all)
    then have len: "(?n * bits + 7) div 8 = 1" using pos fill by (simp add: mult.commute)
    have "c * bits < 8" if "c < ?n" for c
    proof -
      have "bits * c < bits * ?n" by (rule mult_strict_left_mono [OF that assms(1)])
      then show ?thesis unfolding mult.commute [of c] using fill by linarith
    qed
    then show ?thesis
      using digit_at [OF less.prems] fill w(1) byte len unfolding one by simp
  next
    case 3
    define xs where "xs = take k is"
    define ys where "ys = drop k is"
    have parts: "is = xs @ ys" "length xs = k" using 3 by (simp_all add: xs_def ys_def)
    have k: "0 < k" using assms(2) by (cases k) simp_all
    then have xs: "xs \<noteq> []" using parts(2) by auto
    have full: "bits * length xs = 8" using assms(2) parts(2) by (simp add: mult.commute)
    have small: "\<forall>i \<in> set xs. i < 2 ^ bits" "\<forall>i \<in> set ys. i < 2 ^ bits" using less.prems by (simp_all add: parts(1))
    obtain w :: u32 where w: "unat w = digits (2 ^ bits) 0 xs" "unat w < 2 ^ 8"
        "pack_from bits 0 0 is = ucast w # pack_from bits 0 0 ys"
      using pack_step [OF xs assms(1), of 0 0 ys] small(1) full by (auto simp: parts(1))
    have byte: "unat (ucast w :: u8) = digits (2 ^ bits) 0 xs" using w(1,2) by (simp add: unat_u8_ucast)
    have IH: "length (pack_from bits 0 0 ys) = (length ys * bits + 7) div 8"
        "\<And>c. c < length ys \<Longrightarrow> unat (pack_from bits 0 0 ys ! (c * bits div 8)) div 2 ^ (8 - bits - c * bits mod 8) mod 2 ^ bits = ys ! c"
      using less.hyps [OF _ small(2)] k parts by auto
    have "length is * bits = 8 + length ys * bits" using assms(2) by (simp add: parts add_mult_distrib)
    then have len: "length (pack_from bits 0 0 is) = (length is * bits + 7) div 8" using IH(1) w(3) by simp
    have "unat (pack_from bits 0 0 is ! (c * bits div 8)) div 2 ^ (8 - bits - c * bits mod 8) mod 2 ^ bits = is ! c"
      if c: "c < length is" for c
    proof (cases "c < k")
      case True
      then have "c * bits < 8" using assms(1,2) by (metis mult_less_cancel2)
      then show ?thesis using digit_at [OF small(1), of c] True full byte parts w(3) by (simp add: nth_append)
    next
      case False
      then have "c * bits = 8 + (c - k) * bits" using assms(2) by (metis add_mult_distrib le_add_diff_inverse not_less)
      then have "c * bits div 8 = Suc ((c - k) * bits div 8)" "c * bits mod 8 = (c - k) * bits mod 8" by simp_all
      then show ?thesis using IH(2) [of "c - k"] c False parts w(3) by (simp add: nth_append)
    qed
    then show ?thesis using len by blast
  qed simp
qed

end
