(* ===== verification/VncZrleTile.thy ===== *)
theory VncZrleTile
  imports VncZrleRead
begin

section \<open>ZRLE tiles reach the reader\<close>

text \<open>
  The bytes that each of the five forms of a ZRLE tile appends, the sizes the survey predicts for them,
  and the proof that the reader gets the tile back from whichever form the encoder takes, in no more
  bytes than the raw form needs.
\<close>

subsection \<open>The survey\<close>

definition plain_cost :: "nat \<Rightarrow> (u32 \<times> nat) list \<Rightarrow> nat" where
  "plain_cost width rs = sum_list (map (\<lambda>(p, n). width + vnc_zrun_bytes n) rs)"

definition palette_cost :: "(u32 \<times> nat) list \<Rightarrow> nat" where
  "palette_cost rs = sum_list (map (\<lambda>(p, n). if n = 1 then 1 else 1 + vnc_zrun_bytes n) rs)"

lemma survey_runs:
  assumes "palette_sizes z" and "\<not> too_many \<longrightarrow> palette_ok z cs"
  shows "\<exists>z' too'. run_all (survey_run px) rs (z, too_many, a, b) =
      Some (z', too', a + plain_cost (cpixel_bytes px) rs, b + palette_cost rs) \<and>
    zr_raw z' = zr_raw z \<and> zr_length z' = zr_length z \<and> palette_sizes z' \<and>
    (\<not> too' \<longrightarrow> \<not> too_many \<and> (\<exists>cs'. palette_ok z' cs' \<and> set cs' = set cs \<union> fst ` set rs))"
  using assms
proof (induction rs arbitrary: z too_many cs a b)
  case Nil
  then show ?case by (auto simp: plain_cost_def palette_cost_def)
next
  case (Cons r rs)
  obtain p n where r: "r = (p, n)" by (cases r)
  let ?a = "a + (cpixel_bytes px + vnc_zrun_bytes n)" and ?b = "b + (if n = 1 then 1 else 1 + vnc_zrun_bytes n)"
  have "\<exists>z1 too1 cs1. survey_run px p n (z, too_many, a, b) = Some (z1, too1, ?a, ?b) \<and>
      zr_raw z1 = zr_raw z \<and> zr_length z1 = zr_length z \<and> palette_sizes z1 \<and>
      (\<not> too1 \<longrightarrow> \<not> too_many \<and> palette_ok z1 cs1 \<and> set cs1 = insert p (set cs))"
  proof (cases too_many)
    case True
    then show ?thesis using Cons.prems(1) by (intro exI [of _ z] exI [of _ True]) (simp add: survey_run_def)
  next
    case False
    then have ok: "palette_ok z cs" using Cons.prems(2) by simp
    consider "p \<in> set cs" | "p \<notin> set cs" "length cs = 127" | "p \<notin> set cs" "length cs < 127"
      using ok unfolding palette_ok_def by linarith
    then show ?thesis
    proof cases
      case 1
      then obtain i where "vnc_zpalette_index p z = Some (z, Some i)" using palette_found [OF ok] by blast
      then show ?thesis using False ok 1 Cons.prems(1) by (auto simp: survey_run_def insert_absorb)
    next
      case 2
      then show ?thesis
        using False palette_full [OF ok] Cons.prems(1) by (intro exI [of _ z] exI [of _ True]) (simp add: survey_run_def)
    next
      case 3
      then obtain z' where "vnc_zpalette_index p z = Some (z', Some (length cs))" "palette_ok z' (cs @ [p])"
          "zr_raw z' = zr_raw z" "zr_length z' = zr_length z"
        using palette_added [OF ok] by blast
      then show ?thesis
        using False by (intro exI [of _ z'] exI [of _ False] exI [of _ "cs @ [p]"]) (simp add: survey_run_def palette_ok_def)
    qed
  qed
  then obtain z1 too1 cs1 where one: "survey_run px p n (z, too_many, a, b) = Some (z1, too1, ?a, ?b)"
      "zr_raw z1 = zr_raw z" "zr_length z1 = zr_length z" "palette_sizes z1"
      "\<not> too1 \<longrightarrow> \<not> too_many \<and> palette_ok z1 cs1 \<and> set cs1 = insert p (set cs)" by blast
  obtain z' too' where rest: "run_all (survey_run px) rs (z1, too1, ?a, ?b) =
      Some (z', too', ?a + plain_cost (cpixel_bytes px) rs, ?b + palette_cost rs)"
      "zr_raw z' = zr_raw z1" "zr_length z' = zr_length z1" "palette_sizes z'"
      "\<not> too' \<longrightarrow> \<not> too1 \<and> (\<exists>cs'. palette_ok z' cs' \<and> set cs' = set cs1 \<union> fst ` set rs)"
    using Cons.IH [OF one(4), of too1 cs1 ?a ?b] one(5) by blast
  have "run_all (survey_run px) (r # rs) (z, too_many, a, b) =
      Some (z', too', a + plain_cost (cpixel_bytes px) (r # rs), b + palette_cost (r # rs))"
    using one(1) rest(1) by (simp add: r plain_cost_def palette_cost_def add.assoc)
  then show ?case using one(2,3,5) rest(2-5) by (auto simp: r)
qed

lemma survey_spec:
  assumes "palette_sizes z"
  shows "\<exists>z' too_many. zrle_survey px tile (length tile) z =
      Some (z', too_many, plain_cost (cpixel_bytes px) (split_runs tile), palette_cost (split_runs tile)) \<and>
    zr_raw z' = zr_raw z \<and> zr_length z' = zr_length z \<and> palette_sizes z' \<and>
    (\<not> too_many \<longrightarrow> (\<exists>cs. palette_ok z' cs \<and> set cs = set tile))"
proof -
  let ?z = "z\<lparr>zr_slots := replicate 256 0, zr_count := 0\<rparr>"
  have "zslot ?z s = None" if "s < 256" for s using that by (simp add: zslot_def)
  then have "palette_ok ?z []"
    using assms by (auto simp: palette_ok_def palette_sizes_def probed_def table_keys_def used_slots_of_def)
  moreover have "palette_sizes ?z" using assms by (simp add: palette_sizes_def)
  ultimately show ?thesis
    using survey_runs [of ?z False "[]" px "split_runs tile" 0 0]
    by (auto simp: zrle_survey_def for_runs_eq split_runs_colours)
qed

subsection \<open>The forms\<close>

definition index_in :: "u32 list \<Rightarrow> u32 \<Rightarrow> nat" where
  "index_in cs p = length (takeWhile (\<lambda>q. q \<noteq> p) cs)"

lemma index_in_bounds:
  assumes "p \<in> set cs"
  shows "index_in cs p < length cs" "cs ! index_in cs p = p"
  using assms unfolding index_in_def by (induction cs) auto

lemma palette_index:
  assumes "palette_ok z cs" and "p \<in> set cs"
  shows "vnc_zpalette_index p z = Some (z, Some (index_in cs p))"
proof -
  obtain i where i: "vnc_zpalette_index p z = Some (z, Some i)" "i < length cs" "cs ! i = p"
    using palette_found [OF assms] by blast
  moreover have "i = index_in cs p"
    using index_in_bounds [OF assms(2)] i assms(1) nth_eq_iff_index_eq [of cs i "index_in cs p"] by (simp add: palette_ok_def)
  ultimately show ?thesis by simp
qed

lemma rd_palette:
  assumes "palette_ok z cs" and "i < length cs"
  shows "rd (zr_palette z) i = Some (cs ! i)"
proof -
  have "take (length cs) (zr_palette z) ! i = cs ! i" using assms(1) by (simp add: palette_ok_def)
  then show ?thesis using assms by (simp add: rd_def palette_ok_def palette_sizes_def)
qed

lemma zput_palette_eq:
  assumes f: "format_rfc f" and ok: "palette_ok z cs" and room: "zr_room z (length cs * cpixel_width f)"
  shows "zput_palette (px_of f) z = Some (zr_append z (concat (map (cpx f) cs)))"
proof -
  have cs: "map (\<lambda>i. cpx f (cs ! i)) [0..<0 + length cs] = map (cpx f) cs" by (rule nth_equalityI) simp_all
  have "for_up 0 (length cs) (\<lambda>index z. do { pixel \<leftarrow> rd (zr_palette z) index; vnc_zput_cpixel (px_of f) pixel z }) z =
      Some (zr_append z (concat (map (\<lambda>i. cpx f (cs ! i)) [0..<0 + length cs])))"
  proof (rule for_up_append [where Q = "\<lambda>z. palette_ok z cs"])
    show "zr_room z (length (concat (map (\<lambda>i. cpx f (cs ! i)) [0..<0 + length cs])))"
      unfolding cs length_cpixels [OF f] by (rule room)
  qed (use ok f in \<open>simp_all add: rd_palette zput_cpixel\<close>)
  then show ?thesis using ok unfolding cs by (simp add: zput_palette_def palette_ok_def)
qed

lemma solid_bytes:
  assumes f: "format_rfc f" and ok: "palette_ok z [p]" and room: "zr_room z (1 + cpixel_width f)"
  shows "zrle_solid (px_of f) z = Some (zr_append z (1 # cpx f p))"
proof -
  have "vnc_zput 1 z = Some (zr_append z [1])" by (rule zput_eq) (use room in \<open>simp add: zr_room_def\<close>)
  moreover have "rd (zr_palette (zr_append z [1])) 0 = Some p" using rd_palette [OF ok, of 0] by simp
  moreover have "vnc_zput_cpixel (px_of f) p (zr_append z [1]) = Some (zr_append (zr_append z [1]) (cpx f p))"
    by (rule zput_cpixel [OF f]) (rule zr_room_append, use room in simp)
  moreover have "zr_append (zr_append z [1]) (cpx f p) = zr_append z (1 # cpx f p)"
    using zr_append_append [of z "[1]" "cpx f p"] room f by simp
  ultimately show ?thesis by (simp add: zrle_solid_def)
qed

text \<open>A form that starts with one byte and appends something else after it.\<close>

lemma put_then:
  assumes "zr_room z (1 + length bs)" and "g (zr_append z [b]) = Some (zr_append (zr_append z [b]) bs)"
  shows "do { z \<leftarrow> vnc_zput b z; g z } = Some (zr_append z (b # bs))"
proof -
  have "vnc_zput b z = Some (zr_append z [b])" by (rule zput_eq) (use assms(1) in \<open>simp add: zr_room_def\<close>)
  then show ?thesis using assms zr_append_append [of z "[b]" bs] by simp
qed

lemma raw_bytes:
  assumes f: "format_rfc f" and room: "zr_room z (1 + length tile * cpixel_width f)"
  shows "zrle_raw (px_of f) tile (length tile) z = Some (zr_append z (0 # concat (map (cpx f) tile)))"
  unfolding zrle_raw_def
proof (rule put_then)
  let ?z = "zr_append z [0]"
  have tile: "map (\<lambda>i. cpx f (tile ! i)) [0..<0 + length tile] = map (cpx f) tile" by (rule nth_equalityI) simp_all
  show "zr_room z (1 + length (concat (map (cpx f) tile)))" using room unfolding length_cpixels [OF f] .
  then have "zr_room ?z (length (concat (map (cpx f) tile)))" by (intro zr_room_append) simp
  then show "for_up 0 (length tile) (\<lambda>index z. do { pixel \<leftarrow> rd tile index; vnc_zput_cpixel (px_of f) pixel z }) ?z =
      Some (zr_append ?z (concat (map (cpx f) tile)))"
    using for_up_append [of 0 "length tile" "\<lambda>_. True" "\<lambda>i. cpx f (tile ! i)"
        "\<lambda>index z. do { pixel \<leftarrow> rd tile index; vnc_zput_cpixel (px_of f) pixel z }" ?z] f
    unfolding tile by (simp add: rd_def zput_cpixel)
qed

lemma plain_bytes:
  assumes f: "format_rfc f" and room: "zr_room z (1 + plain_cost (cpixel_width f) (split_runs tile))"
  shows "zrle_plain (px_of f) tile (length tile) z =
    Some (zr_append z (128 # concat (map (\<lambda>(p, n). cpx f p @ run_bytes n) (split_runs tile))))"
  unfolding zrle_plain_def
proof (rule put_then)
  let ?z = "zr_append z [128]" and ?bs = "concat (map (\<lambda>(p, n). cpx f p @ run_bytes n) (split_runs tile))"
  have "length (concat (map (\<lambda>(p, n). cpx f p @ run_bytes n) rs)) = plain_cost (cpixel_width f) rs" for rs
    by (induction rs) (auto simp: plain_cost_def f)
  then show room': "zr_room z (1 + length ?bs)" using room by simp
  show "for_runs tile (length tile) 0 (\<lambda>pixel run z. do { z \<leftarrow> vnc_zput_cpixel (px_of f) pixel z; vnc_zput_run_length run z }) ?z =
      Some (zr_append ?z ?bs)"
    unfolding for_runs_eq drop_0
  proof (rule run_all_append [where Q = "\<lambda>_. True"])
    fix p n t assume "zr_room t (length (cpx f p @ run_bytes n))"
    then have room: "zr_room t (length (cpx f p) + length (run_bytes n))" by simp
    then have "vnc_zput_cpixel (px_of f) p t = Some (zr_append t (cpx f p))"
      using f by (intro zput_cpixel) (simp_all add: zr_room_def)
    moreover have "vnc_zput_run_length n (zr_append t (cpx f p)) = Some (zr_append (zr_append t (cpx f p)) (run_bytes n))"
      by (rule zput_run_length_eq) (use zr_room_append [OF room] in simp)
    ultimately show "do { z \<leftarrow> vnc_zput_cpixel (px_of f) p t; vnc_zput_run_length n z } = Some (zr_append t (cpx f p @ run_bytes n))"
      using zr_append_append [OF room] by simp
  qed (use zr_room_append [of z "[128]" "length ?bs"] room' in simp_all)
qed

definition palette_run_bytes :: "u32 list \<Rightarrow> u32 \<Rightarrow> nat \<Rightarrow> bytes" where
  "palette_run_bytes cs p n =
     (let e = of_nat (index_in cs p) :: u8 in if n = 1 then [e] else (e OR 128) # run_bytes n)"

lemma palette_run_eq:
  assumes ok: "palette_ok z cs" and p: "p \<in> set cs" and room: "zr_room z (length (palette_run_bytes cs p n))"
  shows "zrle_palette_run p n z = Some (zr_append z (palette_run_bytes cs p n))"
proof -
  let ?i = "index_in cs p"
  have "?i < 127" using index_in_bounds(1) [OF p] ok by (simp add: palette_ok_def)
  then have "unat (ucast (of_nat ?i :: u32) :: u8) = unat (of_nat ?i :: u8)"
    by (simp add: unat_u8_ucast u32_of_nat unat_of_nat)
  then have e: "(ucast (of_nat ?i :: u32) :: u8) = of_nat ?i" by (simp only: word_unat_eq_iff)
  show ?thesis
  proof (cases "n = 1")
    case True
    then show ?thesis
      using palette_index [OF ok p] e room
      by (simp add: zrle_palette_run_def palette_run_bytes_def index_word_def zput_eq Let_def)
  next
    case False
    then have bytes: "palette_run_bytes cs p n = (of_nat ?i OR 128) # run_bytes n" by (simp add: palette_run_bytes_def Let_def)
    have "do { z \<leftarrow> vnc_zput (of_nat ?i OR 128) z; vnc_zput_run_length n z } = Some (zr_append z ((of_nat ?i OR 128) # run_bytes n))"
      by (rule put_then, use room bytes in simp, rule zput_run_length_eq, rule zr_room_append) (use room bytes in simp)
    then show ?thesis
      using palette_index [OF ok p] e False unfolding bytes by (simp add: zrle_palette_run_def index_word_def Let_def)
  qed
qed

lemma palette_rle_bytes:
  assumes f: "format_rfc f" and ok: "palette_ok z cs" "set tile \<subseteq> set cs"
    and room: "zr_room z (1 + (length cs * cpixel_width f + palette_cost (split_runs tile)))"
  shows "zrle_palette_rle (px_of f) tile (length tile) z = Some (zr_append z (of_nat (128 + length cs) #
    concat (map (cpx f) cs) @ concat (map (\<lambda>(p, n). palette_run_bytes cs p n) (split_runs tile))))"
proof -
  let ?cs = "concat (map (cpx f) cs)" and ?bs = "concat (map (\<lambda>(p, n). palette_run_bytes cs p n) (split_runs tile))"
  let ?z = "zr_append z [of_nat (128 + length cs)]"
  have "length (concat (map (\<lambda>(p, n). palette_run_bytes cs p n) rs)) = palette_cost rs" for rs
    by (induction rs) (auto simp: palette_cost_def palette_run_bytes_def Let_def)
  then have len: "length ?bs = palette_cost (split_runs tile)" by simp
  have room1: "zr_room z (1 + length (?cs @ ?bs))" using room by (simp add: len length_cpixels [OF f] del: length_concat)
  have room2: "zr_room ?z (length ?cs + length ?bs)" by (rule zr_room_append) (use room1 in simp)
  have "zput_palette (px_of f) ?z = Some (zr_append ?z ?cs)"
    by (rule zput_palette_eq [OF f]) (use ok(1) room2 in \<open>simp_all add: length_cpixels [OF f] zr_room_def del: length_concat\<close>)
  moreover have "for_runs tile (length tile) 0 zrle_palette_run (zr_append ?z ?cs) = Some (zr_append (zr_append ?z ?cs) ?bs)"
    unfolding for_runs_eq drop_0
  proof (rule run_all_append [where Q = "\<lambda>z. palette_ok z cs"])
    fix p n t assume "(p, n) \<in> set (split_runs tile)" "palette_ok t cs" "zr_room t (length (palette_run_bytes cs p n))"
    moreover from this(1) have "p \<in> set cs" using split_runs_colours [of tile] ok(2) by force
    ultimately show "zrle_palette_run p n t = Some (zr_append t (palette_run_bytes cs p n))" by (intro palette_run_eq)
  qed (use ok(1) zr_room_append [OF room2] in simp_all)
  ultimately have rest: "do { z \<leftarrow> zput_palette (px_of f) ?z; for_runs tile (length tile) 0 zrle_palette_run z } = Some (zr_append ?z (?cs @ ?bs))"
    using zr_append_append [OF room2] by simp
  have "do { z \<leftarrow> vnc_zput (of_nat (128 + length cs)) z; z \<leftarrow> zput_palette (px_of f) z; for_runs tile (length tile) 0 zrle_palette_run z } =
      Some (zr_append z (of_nat (128 + length cs) # ?cs @ ?bs))"
    by (rule put_then [OF room1]) (rule rest)
  moreover have "zr_count z = length cs" using ok(1) by (simp add: palette_ok_def)
  ultimately show ?thesis by (simp only: zrle_palette_rle_def)
qed

lemma zpack_columns:
  assumes "palette_ok z cs" and "\<And>j. c \<le> j \<Longrightarrow> j < c + k \<Longrightarrow> rd tile (row * width + j) = Some (tile ! (row * width + j)) \<and>
      tile ! (row * width + j) \<in> set cs"
    and "zr_room z (length (pack_from bits byte filled (map (\<lambda>j. index_in cs (tile ! (row * width + j))) [c..<c + k])))"
  shows "do {
      (z, byte, filled) \<leftarrow> for_up c k (zpack_pixel tile width bits row) (z, byte, filled);
      if filled \<noteq> 0 then vnc_zput (ucast (push_bit (8 - filled) byte)) z else Some z } =
    Some (zr_append z (pack_from bits byte filled (map (\<lambda>j. index_in cs (tile ! (row * width + j))) [c..<c + k])))"
  using assms
proof (induction k arbitrary: c z byte filled)
  case 0
  then show ?case by (cases "filled = 0") (simp_all add: zput_eq)
next
  case (Suc k)
  let ?p = "tile ! (row * width + c)" and ?rest = "map (\<lambda>j. index_in cs (tile ! (row * width + j))) [Suc c..<Suc c + k]"
  let ?byte = "push_bit bits byte OR of_nat (index_in cs ?p) :: u32" and ?filled = "filled + bits"
  have ids: "map (\<lambda>j. index_in cs (tile ! (row * width + j))) [c..<c + Suc k] = index_in cs ?p # ?rest"
    by (simp add: upt_conv_Cons del: upt_Suc)
  have p: "rd tile (row * width + c) = Some ?p" "vnc_zpalette_index ?p z = Some (z, Some (index_in cs ?p))"
    using Suc.prems(2) [of c] palette_index [OF Suc.prems(1)] by simp_all
  have more: "\<And>j. Suc c \<le> j \<Longrightarrow> j < Suc c + k \<Longrightarrow> rd tile (row * width + j) = Some (tile ! (row * width + j)) \<and>
      tile ! (row * width + j) \<in> set cs" using Suc.prems(2) by simp
  show ?case
  proof (cases "?filled = 8")
    case True
    let ?z = "zr_append z [ucast ?byte]" and ?bs = "pack_from bits 0 0 ?rest"
    have room: "zr_room z (length [ucast ?byte :: u8] + length ?bs)" using Suc.prems(3) True unfolding ids by (simp add: Let_def)
    have put: "vnc_zput (ucast ?byte) z = Some ?z" by (rule zput_eq) (use room in \<open>simp add: zr_room_def\<close>)
    have "do {
        (z, byte, filled) \<leftarrow> for_up (Suc c) k (zpack_pixel tile width bits row) (?z, 0, 0);
        if filled \<noteq> 0 then vnc_zput (ucast (push_bit (8 - filled) byte)) z else Some z } = Some (zr_append ?z ?bs)"
      by (rule Suc.IH) (use Suc.prems(1) more zr_room_append [OF room] in simp_all)
    moreover have "zpack_pixel tile width bits row c (z, byte, filled) = Some (?z, 0, 0)"
      using True p put by (simp add: zpack_pixel_def index_word_def Let_def)
    moreover have "pack_from bits byte filled (index_in cs ?p # ?rest) = ucast ?byte # ?bs" using True by (simp add: Let_def)
    ultimately show ?thesis
      using zr_append_append [OF room] unfolding ids for_up.simps by (simp del: upt_Suc)
  next
    case False
    have "do {
        (z, byte, filled) \<leftarrow> for_up (Suc c) k (zpack_pixel tile width bits row) (z, ?byte, ?filled);
        if filled \<noteq> 0 then vnc_zput (ucast (push_bit (8 - filled) byte)) z else Some z } =
        Some (zr_append z (pack_from bits ?byte ?filled ?rest))"
      by (rule Suc.IH [OF Suc.prems(1) more]) (use Suc.prems(3) False in \<open>simp_all only: ids, simp_all add: Let_def\<close>)
    moreover have "zpack_pixel tile width bits row c (z, byte, filled) = Some (z, ?byte, ?filled)"
      using False p by (simp add: zpack_pixel_def index_word_def Let_def)
    moreover have "pack_from bits byte filled (index_in cs ?p # ?rest) = pack_from bits ?byte ?filled ?rest"
      using False by (simp add: Let_def)
    ultimately show ?thesis unfolding ids for_up.simps by (simp del: upt_Suc)
  qed
qed

definition row_indices :: "u32 list \<Rightarrow> u32 list \<Rightarrow> nat \<Rightarrow> nat \<Rightarrow> nat list" where
  "row_indices cs tile width row = map (\<lambda>j. index_in cs (tile ! (row * width + j))) [0..<width]"

definition packed_row :: "u32 list \<Rightarrow> u32 list \<Rightarrow> nat \<Rightarrow> nat \<Rightarrow> nat \<Rightarrow> bytes" where
  "packed_row cs tile width bits row = pack_from bits 0 0 (row_indices cs tile width row)"

lemma tile_at:
  fixes tile :: "u32 list"
  assumes "length tile = width * height" "row < height" "j < width"
  shows "row * width + j < length tile"
  using row_bound [OF assms(2), of j 1 width] assms by simp

lemma packed_row_reads:
  assumes bits: "bits = 1 \<or> bits = 2 \<or> bits = 4" "length cs \<le> 2 ^ bits" "set tile \<subseteq> set cs"
    and tile: "length tile = width * height" "row < height"
  shows "length (packed_row cs tile width bits row) = (width * bits + 7) div 8"
    and "view_packed_row cs bits width (packed_row cs tile width bits row @ rest) =
      Some (map (\<lambda>j. tile ! (row * width + j)) [0..<width], rest)"
proof -
  have b: "0 < bits" "8 div bits * bits = 8" using bits(1) by auto
  have mem: "tile ! (row * width + j) \<in> set cs" if "j < width" for j
    using nth_mem [OF tile_at [OF tile that]] bits(3) by blast
  have ids: "length (row_indices cs tile width row) = width" "\<forall>i \<in> set (row_indices cs tile width row). i < length cs"
    "\<And>j. j < width \<Longrightarrow> cs ! (row_indices cs tile width row ! j) = tile ! (row * width + j)"
    using index_in_bounds mem by (auto simp: row_indices_def)
  have "\<forall>i \<in> set (row_indices cs tile width row). i < 2 ^ bits" using ids(2) bits(2) by (auto intro: less_le_trans)
  note pack = pack_unpack [OF b this]
  show len: "length (packed_row cs tile width bits row) = (width * bits + 7) div 8" using pack ids(1) by (simp add: packed_row_def)
  have byte: "c * bits div 8 < (width * bits + 7) div 8" if "c < width" for c
  proof -
    have "Suc c * bits \<le> width * bits" using that by (intro mult_le_mono1) simp
    then have "(c * bits + 8) div 8 \<le> (width * bits + 7) div 8" using b(1) by (intro div_le_mono) simp
    then show ?thesis by simp
  qed
  have "map (\<lambda>c. unat ((packed_row cs tile width bits row @ rest) ! (c * bits div 8)) div 2 ^ (8 - bits - c * bits mod 8) mod 2 ^ bits)
      [0..<width] = row_indices cs tile width row"
    by (rule nth_equalityI) (use pack ids(1) byte len in \<open>auto simp: nth_append packed_row_def\<close>)
  then show "view_packed_row cs bits width (packed_row cs tile width bits row @ rest) =
      Some (map (\<lambda>j. tile ! (row * width + j)) [0..<width], rest)"
    using ids len by (auto simp: view_packed_row_def Let_def not_le intro!: nth_equalityI)
qed

lemma zpack_row_eq:
  assumes "palette_ok z cs" and "length tile = width * height" "row < height" "set tile \<subseteq> set cs"
    and "zr_room z (length (packed_row cs tile width bits row))"
  shows "zpack_row tile width bits row z = Some (zr_append z (packed_row cs tile width bits row))"
proof -
  have at: "rd tile (row * width + j) = Some (tile ! (row * width + j)) \<and> tile ! (row * width + j) \<in> set cs" if "j < width" for j
    using tile_at [OF assms(2,3) that] assms(4) nth_mem by (auto simp: rd_def)
  show ?thesis
    unfolding zpack_row_def packed_row_def row_indices_def
    using zpack_columns [OF assms(1), of 0 width tile row width bits 0 0] at assms(5)
    by (simp add: packed_row_def row_indices_def)
qed

lemma packed_bytes:
  assumes f: "format_rfc f" and ok: "palette_ok z cs" "set tile \<subseteq> set cs" and tile: "length tile = width * height"
    and room: "zr_room z (1 + (length cs * cpixel_width f + length (concat (map (packed_row cs tile width bits) [0..<height]))))"
  shows "zrle_packed (px_of f) tile width height bits z = Some (zr_append z (of_nat (length cs) #
    concat (map (cpx f) cs) @ concat (map (packed_row cs tile width bits) [0..<height])))"
proof -
  let ?cs = "concat (map (cpx f) cs)" and ?bs = "concat (map (packed_row cs tile width bits) [0..<0 + height])"
  let ?z = "zr_append z [of_nat (length cs)]"
  have room1: "zr_room z (1 + length (?cs @ ?bs))" using room by (simp add: length_cpixels [OF f] del: length_concat)
  have room2: "zr_room ?z (length ?cs + length ?bs)" by (rule zr_room_append) (use room1 in simp)
  have "zput_palette (px_of f) ?z = Some (zr_append ?z ?cs)"
    by (rule zput_palette_eq [OF f]) (use ok(1) room2 in \<open>simp_all add: length_cpixels [OF f] zr_room_def del: length_concat\<close>)
  moreover have "for_up 0 height (zpack_row tile width bits) (zr_append ?z ?cs) = Some (zr_append (zr_append ?z ?cs) ?bs)"
    by (rule for_up_append [where Q = "\<lambda>z. palette_ok z cs"])
      (use ok zpack_row_eq [OF _ tile] zr_room_append [OF room2] in simp_all)
  ultimately have rest: "do { z \<leftarrow> zput_palette (px_of f) ?z; for_up 0 height (zpack_row tile width bits) z } = Some (zr_append ?z (?cs @ ?bs))"
    using zr_append_append [OF room2] by simp
  have "do { z \<leftarrow> vnc_zput (of_nat (length cs)) z; z \<leftarrow> zput_palette (px_of f) z; for_up 0 height (zpack_row tile width bits) z } =
      Some (zr_append z (of_nat (length cs) # ?cs @ ?bs))"
    by (rule put_then [OF room1]) (rule rest)
  moreover have "zr_count z = length cs" using ok(1) by (simp add: palette_ok_def)
  ultimately show ?thesis by (simp add: zrle_packed_def)
qed

lemma packed_rows_read:
  assumes bits: "bits = 1 \<or> bits = 2 \<or> bits = 4" "length cs \<le> 2 ^ bits" "set tile \<subseteq> set cs"
    and tile: "length tile = width * height"
  shows "view_packed_rows cs bits width height (concat (map (packed_row cs tile width bits) [0..<height]) @ rest) = Some (tile, rest)"
proof -
  have "view_packed_rows cs bits width k (concat (map (packed_row cs tile width bits) [i..<i + k]) @ rest) =
      Some (concat (map (\<lambda>row. map (\<lambda>j. tile ! (row * width + j)) [0..<width]) [i..<i + k]), rest)" if "i + k \<le> height" for i k
    using that
  proof (induction k arbitrary: i)
    case (Suc k)
    have "view_packed_row cs bits width (packed_row cs tile width bits i @ bs) =
        Some (map (\<lambda>j. tile ! (i * width + j)) [0..<width], bs)" for bs
      by (rule packed_row_reads(2) [OF bits tile]) (use Suc.prems in simp)
    then show ?case using Suc.IH [of "Suc i"] Suc.prems by (simp add: upt_conv_Cons del: upt_Suc)
  qed simp
  from this [of 0 height] have read: "view_packed_rows cs bits width height (concat (map (packed_row cs tile width bits) [0..<height]) @ rest) =
      Some (concat (map (\<lambda>row. map (\<lambda>j. tile ! (row * width + j)) [0..<width]) [0..<height]), rest)" by simp
  have "concat (map (\<lambda>row. map (\<lambda>j. tile ! (row * width + j)) [0..<width]) [0..<height]) = tile"
  proof (rule nth_equalityI)
    show len: "length (concat (map (\<lambda>row. map (\<lambda>j. tile ! (row * width + j)) [0..<width]) [0..<height])) = length tile"
      using length_concat_const [of "[0..<height]" "\<lambda>row. map (\<lambda>j. tile ! (row * width + j)) [0..<width]" width] tile
      by (simp add: mult.commute)
    fix p assume "p < length (concat (map (\<lambda>row. map (\<lambda>j. tile ! (row * width + j)) [0..<width]) [0..<height]))"
    then have p: "p < width * height" using len tile by simp
    then have "0 < width" by (cases width) simp_all
    then have "p div width < height" "p mod width < width" using p by (simp_all add: less_mult_imp_div_less mult.commute)
    then show "concat (map (\<lambda>row. map (\<lambda>j. tile ! (row * width + j)) [0..<width]) [0..<height]) ! p = tile ! p"
      using nth_concat_const [of "[0..<height]" "\<lambda>row. map (\<lambda>j. tile ! (row * width + j)) [0..<width]" width "p div width" "p mod width"]
      by simp
  qed
  then show ?thesis using read by simp
qed

subsection \<open>Reading each form\<close>

lemma unat_u8_of_nat: "n < 256 \<Longrightarrow> unat (of_nat n :: u8) = n"
  by (simp add: unat_of_nat)

lemma read_raw:
  assumes "format_rfc f" "\<forall>p \<in> set tile. colour_of f p" "length tile = w * h"
  shows "view_zrle_tile f w h (0 # concat (map (cpx f) tile) @ rest) = Some (tile, rest)"
  using view_cpixels_stored [OF assms(1,2), of rest] assms(3) by simp

lemma read_solid:
  assumes "format_rfc f" "colour_of f p"
  shows "view_zrle_tile f w h (1 # cpx f p @ rest) = Some (replicate (w * h) p, rest)"
  using view_cpixel_stored [OF assms, of rest] by simp

lemma read_packed:
  assumes f: "format_rfc f" and cs: "\<forall>p \<in> set cs. colour_of f p" "2 \<le> length cs" "length cs \<le> 16" "set tile \<subseteq> set cs"
    and tile: "length tile = w * h"
  shows "view_zrle_tile f w h (of_nat (length cs) # concat (map (cpx f) cs) @
    concat (map (packed_row cs tile w (pack_bits (length cs))) [0..<h]) @ rest) = Some (tile, rest)"
proof -
  let ?bits = "pack_bits (length cs)"
  have bits: "?bits = 1 \<or> ?bits = 2 \<or> ?bits = 4" "length cs \<le> 2 ^ ?bits" using cs(2,3) by (auto simp: pack_bits_def)
  have eq: "(if length cs = 2 then 1 else if length cs \<le> 4 then 2 else 4) = ?bits" using cs(2) by (simp add: pack_bits_def)
  have "cs \<noteq> []" using cs(2) by auto
  then show ?thesis
    using cs(2,3) packed_rows_read [OF bits cs(4) tile, of rest] view_cpixels_stored [OF f cs(1)]
    by (simp add: unat_u8_of_nat Let_def eq)
qed

lemma read_plain:
  assumes f: "format_rfc f" and tile: "\<forall>p \<in> set tile. colour_of f p" "length tile = w * h"
  shows "view_zrle_tile f w h (128 # concat (map (\<lambda>(p, n). cpx f p @ run_bytes n) (split_runs tile)) @ rest) = Some (tile, rest)"
proof -
  have "view_rle (view_plain_run f) (length (concat (map (\<lambda>(p, n). replicate n p) (split_runs tile))))
      (concat (map (\<lambda>(p, n). cpx f p @ run_bytes n) (split_runs tile)) @ rest) =
      Some (concat (map (\<lambda>(p, n). replicate n p) (split_runs tile)), rest)"
  proof (rule view_rle_runs)
    fix p n rest assume r: "(p, n) \<in> set (split_runs tile)"
    then have "0 < n" "colour_of f p" using split_runs_pos split_runs_colours [of tile] tile(1) by force+
    then show "0 < n \<and> view_plain_run f ((cpx f p @ run_bytes n) @ rest) = Some ((p, n), rest)"
      using view_cpixel_stored [OF f] view_run_bytes by (simp add: view_plain_run_def)
  qed
  then show ?thesis unfolding split_runs_join tile(2) by simp
qed

lemma read_palette_run:
  assumes "p \<in> set cs" "length cs \<le> 127" "0 < n"
  shows "view_palette_run cs (palette_run_bytes cs p n @ rest) = Some ((p, n), rest)"
proof -
  let ?i = "index_in cs p"
  have i: "?i < length cs" "cs ! ?i = p" using index_in_bounds [OF assms(1)] by simp_all
  have e: "unat (of_nat ?i :: u8) = ?i" using i(1) assms(2) by (simp add: unat_u8_of_nat)
  have "list_all (\<lambda>i. unat (of_nat i OR 128 :: u8) = i + 128) [0..<127]" by code_simp
  then have "unat (of_nat ?i OR 128 :: u8) = ?i + 128" using i(1) assms(2) by (simp add: list_all_iff)
  then show ?thesis
    using i e assms(2,3) view_run_bytes [OF assms(3), of rest] by (simp add: palette_run_bytes_def Let_def)
qed

lemma read_palette_rle:
  assumes f: "format_rfc f" and cs: "\<forall>p \<in> set cs. colour_of f p" "2 \<le> length cs" "length cs \<le> 127" "set tile \<subseteq> set cs"
    and tile: "length tile = w * h"
  shows "view_zrle_tile f w h (of_nat (128 + length cs) # concat (map (cpx f) cs) @
    concat (map (\<lambda>(p, n). palette_run_bytes cs p n) (split_runs tile)) @ rest) = Some (tile, rest)"
proof -
  have "view_rle (view_palette_run cs) (length (concat (map (\<lambda>(p, n). replicate n p) (split_runs tile))))
      (concat (map (\<lambda>(p, n). palette_run_bytes cs p n) (split_runs tile)) @ rest) =
      Some (concat (map (\<lambda>(p, n). replicate n p) (split_runs tile)), rest)"
  proof (rule view_rle_runs)
    fix p n rest assume r: "(p, n) \<in> set (split_runs tile)"
    then have "0 < n" "p \<in> set cs" using split_runs_pos split_runs_colours [of tile] cs(4) by force+
    then show "0 < n \<and> view_palette_run cs (palette_run_bytes cs p n @ rest) = Some ((p, n), rest)"
      using read_palette_run cs(3) by simp
  qed
  then have "view_rle (view_palette_run cs) (w * h) (concat (map (\<lambda>(p, n). palette_run_bytes cs p n) (split_runs tile)) @ rest) =
      Some (tile, rest)"
    unfolding split_runs_join tile .
  moreover have "unat (of_nat (128 + length cs) :: u8) = 128 + length cs" using cs(3) by (intro unat_u8_of_nat) simp
  moreover have "cs \<noteq> []" using cs(2) by auto
  ultimately show ?thesis
    using cs(2) view_cpixels_stored [OF f cs(1)] by (simp add: Let_def del: of_nat_add)
qed

subsection \<open>The tile\<close>

lemma rect_pixels_colours: "p \<in> set (rect_pixels f s x y width height) \<Longrightarrow> colour_of f p"
  by (auto simp: rect_pixels_def rect_row_def colour_of_def)

text \<open>Some form of the tile is appended, and the reader gets the tile back from it.\<close>

definition zrle_reads :: "vnc_format \<Rightarrow> nat \<Rightarrow> nat \<Rightarrow> u32 list \<Rightarrow> vnc_zrle \<Rightarrow> vnc_zrle option \<Rightarrow> bool" where
  "zrle_reads f w h tile z r \<longleftrightarrow> (\<exists>bs. r = Some (zr_append z bs) \<and> length bs \<le> 1 + length tile * cpixel_width f \<and>
     (\<forall>rest. view_zrle_tile f w h (bs @ rest) = Some (tile, rest)))"

lemma length_plain: "format_rfc f \<Longrightarrow>
    length (concat (map (\<lambda>(p, n). cpx f p @ run_bytes n) rs)) = plain_cost (cpixel_width f) rs"
  by (induction rs) (auto simp: plain_cost_def)

lemma length_palette_runs: "length (concat (map (\<lambda>(p, n). palette_run_bytes cs p n) rs)) = palette_cost rs"
  by (induction rs) (auto simp: palette_cost_def palette_run_bytes_def Let_def)

lemma zrle_form_reads:
  assumes f: "format_rfc f" and tile: "\<forall>p \<in> set tile. colour_of f p" "length tile = w * h" "tile \<noteq> []" "length tile \<le> 1024"
    and room: "zr_room z (1 + length tile * cpixel_width f)"
    and palette: "\<not> too_many \<longrightarrow> palette_ok z cs \<and> set cs = set tile"
    and defs: "packed_size = (if \<not> too_many \<and> zr_count z \<le> 16
        then zr_count z * cpixel_width f + h * ((w * pack_bits (zr_count z) + 7) div 8) else absent)"
      "palette_size = (if too_many then absent else palette_cost (split_runs tile) + zr_count z * cpixel_width f)"
      "plain_size = plain_cost (cpixel_width f) (split_runs tile)"
      "best \<le> length tile * cpixel_width f"
      "form = (if best = packed_size then zrle_packed (px_of f) tile w h (pack_bits (zr_count z)) z
        else if best = palette_size then zrle_palette_rle (px_of f) tile (length tile) z
        else if best = plain_size then zrle_plain (px_of f) tile (length tile) z
        else zrle_raw (px_of f) tile (length tile) z)"
    and many: "\<not> too_many \<longrightarrow> zr_count z \<noteq> 1"
  shows "zrle_reads f w h tile z form"
proof -
  have "length tile * cpixel_width f \<le> 1024 * 4" using tile(4) cpx_facts(4) [of f] f by (intro mult_le_mono) (simp_all add: format_rfc_def)
  then have big: "best < absent" using defs(4) by (simp add: absent_def)
  have cs: "palette_ok z cs" "set cs = set tile" "zr_count z = length cs" "2 \<le> length cs" "length cs \<le> 127" "set tile \<subseteq> set cs"
      "\<forall>p \<in> set cs. colour_of f p" if "\<not> too_many"
  proof -
    show ok: "palette_ok z cs" "set cs = set tile" using palette that by blast+
    then show n: "zr_count z = length cs" "length cs \<le> 127" by (simp_all add: palette_ok_def)
    have "length cs \<noteq> 0" using ok(2) tile(3) by auto
    moreover have "length cs \<noteq> 1" using many that n(1) by simp
    ultimately show "2 \<le> length cs" by linarith
    show "set tile \<subseteq> set cs" "\<forall>p \<in> set cs. colour_of f p" using ok(2) tile(1) by simp_all
  qed
  consider (packed) "best = packed_size" | (palette) "best \<noteq> packed_size" "best = palette_size"
    | (plain) "best \<noteq> packed_size" "best \<noteq> palette_size" "best = plain_size"
    | (raw) "best \<noteq> packed_size" "best \<noteq> palette_size" "best \<noteq> plain_size" by blast
  then show ?thesis
  proof cases
    case packed
    then have t: "\<not> too_many" "zr_count z \<le> 16" using big unfolding defs(1) by (auto split: if_splits)
    note cs = cs [OF t(1)]
    let ?bits = "pack_bits (length cs)"
    have bits: "?bits = 1 \<or> ?bits = 2 \<or> ?bits = 4" "length cs \<le> 2 ^ ?bits" using t(2) cs(3) by (auto simp: pack_bits_def)
    have rows: "length (concat (map (packed_row cs tile w ?bits) [0..<h])) = h * ((w * ?bits + 7) div 8)"
      using length_concat_const [of "[0..<h]" "packed_row cs tile w ?bits" "(w * ?bits + 7) div 8"]
        packed_row_reads(1) [OF bits cs(6) tile(2)] by (simp del: length_concat)
    have size: "length cs * cpixel_width f + length (concat (map (packed_row cs tile w ?bits) [0..<h])) \<le> length tile * cpixel_width f"
      using packed defs(1,4) t cs(3) unfolding rows by simp
    have "form = Some (zr_append z (of_nat (length cs) # concat (map (cpx f) cs) @ concat (map (packed_row cs tile w ?bits) [0..<h])))"
      using packed_bytes [OF f cs(1,6) tile(2)] zr_room_mono [OF room] size packed cs(3) unfolding defs(5) by simp
    moreover have "view_zrle_tile f w h ((of_nat (length cs) # concat (map (cpx f) cs) @ concat (map (packed_row cs tile w ?bits) [0..<h])) @ rest) =
        Some (tile, rest)" for rest
      using read_packed [OF f cs(7,4) _ cs(6) tile(2), of rest] t(2) cs(3) by simp
    ultimately show ?thesis
      unfolding zrle_reads_def using size length_cpixels [OF f, of cs] by (intro exI conjI) (assumption, simp del: length_concat, blast)
  next
    case palette
    then have t: "\<not> too_many" using big unfolding defs(2) by (auto split: if_splits)
    note cs = cs [OF t]
    have size: "length cs * cpixel_width f + palette_cost (split_runs tile) \<le> length tile * cpixel_width f"
      using palette defs(2,4) t cs(3) by simp
    have "form = Some (zr_append z (of_nat (128 + length cs) # concat (map (cpx f) cs) @
        concat (map (\<lambda>(p, n). palette_run_bytes cs p n) (split_runs tile))))"
      using palette_rle_bytes [OF f cs(1,6)] zr_room_mono [OF room] size palette unfolding defs(5) by simp
    moreover have "view_zrle_tile f w h ((of_nat (128 + length cs) # concat (map (cpx f) cs) @
        concat (map (\<lambda>(p, n). palette_run_bytes cs p n) (split_runs tile))) @ rest) = Some (tile, rest)" for rest
      using read_palette_rle [OF f cs(7,4,5,6) tile(2), of rest] by (simp del: of_nat_add)
    ultimately show ?thesis
      unfolding zrle_reads_def using size length_cpixels [OF f, of cs] length_palette_runs [of cs "split_runs tile"]
      by (intro exI conjI) (assumption, simp del: length_concat, blast)
  next
    case plain
    have size: "plain_cost (cpixel_width f) (split_runs tile) \<le> length tile * cpixel_width f"
      using plain(3) defs(3,4) by simp
    have "form = Some (zr_append z (128 # concat (map (\<lambda>(p, n). cpx f p @ run_bytes n) (split_runs tile))))"
      using plain_bytes [OF f] zr_room_mono [OF room] size plain unfolding defs(5) by simp
    moreover have "view_zrle_tile f w h ((128 # concat (map (\<lambda>(p, n). cpx f p @ run_bytes n) (split_runs tile))) @ rest) = Some (tile, rest)" for rest
      using read_plain [OF f tile(1,2), of rest] by simp
    ultimately show ?thesis
      unfolding zrle_reads_def using size length_plain [OF f, of "split_runs tile"] by (intro exI conjI) (assumption, simp del: length_concat, blast)
  next
    case raw
    have "form = Some (zr_append z (0 # concat (map (cpx f) tile)))"
      using raw_bytes [OF f room] raw unfolding defs(5) by simp
    moreover have "view_zrle_tile f w h ((0 # concat (map (cpx f) tile)) @ rest) = Some (tile, rest)" for rest
      using read_raw [OF f tile(1,2), of rest] by simp
    ultimately show ?thesis
      unfolding zrle_reads_def using length_cpixels [OF f, of tile] by (intro exI conjI) (assumption, simp del: length_concat, blast)
  qed
qed

lemma zrle_tile_reads:
  assumes f: "format_rfc f" and s: "frame_ok s" and fits: "x + w \<le> vs_width s" "y + h \<le> vs_height s"
    and side: "0 < w" "w \<le> 64" "0 < h" "h \<le> 16" and z: "palette_sizes z"
    and room: "zr_room z (1 + w * h * cpixel_width f)"
  shows "\<exists>z1. zr_raw z1 = zr_raw z \<and> zr_length z1 = zr_length z \<and> palette_sizes z1 \<and>
    zrle_reads f w h (rect_pixels f s x y w h) z1 (vnc_encode_zrle_tile (px_of f) s x y w h z)"
proof -
  define tile where "tile = rect_pixels f s x y w h"
  have len: "length tile = w * h" by (simp add: tile_def mult.commute)
  have area: "w * h \<le> VNC_ZRLE_TILE * VNC_TILE" unfolding VNC_ZRLE_TILE_def VNC_TILE_def using side by (intro mult_le_mono)
  have "0 < length tile" unfolding len using side by simp
  then have "tile \<noteq> []" by auto
  moreover have "\<forall>p \<in> set tile. colour_of f p" by (simp add: tile_def rect_pixels_colours)
  moreover have "length tile \<le> 1024" using area unfolding len by (simp add: VNC_ZRLE_TILE_def VNC_TILE_def)
  ultimately have tile: "\<forall>p \<in> set tile. colour_of f p" "tile \<noteq> []" "length tile \<le> 1024" by blast+
  have width: "cpixel_bytes (px_of f) = cpixel_width f" using cpx_facts(1) f by (simp add: format_rfc_def)
  obtain z1 too_many where survey: "zrle_survey (px_of f) tile (w * h) z =
      Some (z1, too_many, plain_cost (cpixel_width f) (split_runs tile), palette_cost (split_runs tile))"
      and z1: "zr_raw z1 = zr_raw z" "zr_length z1 = zr_length z" "palette_sizes z1"
      and pal: "\<not> too_many \<longrightarrow> (\<exists>cs. palette_ok z1 cs \<and> set cs = set tile)"
    using survey_spec [OF z, of "px_of f" tile] unfolding len width by blast
  obtain cs where cs: "\<not> too_many \<longrightarrow> palette_ok z1 cs \<and> set cs = set tile" using pal by blast
  have room1: "zr_room z1 (1 + length tile * cpixel_width f)" using room z1 by (simp add: zr_room_def len)
  have eq: "tile_pixels (VNC_ZRLE_TILE * VNC_TILE) (px_of f) s x y w h = Some tile"
    unfolding tile_def by (rule tile_pixels_eq [OF s fits area])
  have "zrle_reads f w h tile z1 (vnc_encode_zrle_tile (px_of f) s x y w h z)"
  proof (cases "\<not> too_many \<and> zr_count z1 = 1")
    case True
    then have ok: "palette_ok z1 cs" "set cs = set tile" "length cs = 1" using cs by (auto simp: palette_ok_def)
    obtain p where p: "cs = [p]" using ok(3) by (cases cs) simp_all
    then have solid: "tile = replicate (w * h) p" using ok(2) len by (intro replicate_eqI) auto
    have "p \<in> set tile" using p ok(2) by (metis list.set_intros(1))
    then have "colour_of f p" using tile(1) by blast
    from read_solid [OF f this, of w h] have reads: "view_zrle_tile f w h ((1 # cpx f p) @ rest) = Some (tile, rest)" for rest
      by (simp only: solid append_Cons)
    have "1 * cpixel_width f \<le> length tile * cpixel_width f" using tile(2) by (intro mult_le_mono1) (cases tile; simp)
    then have size: "length (1 # cpx f p) \<le> 1 + length tile * cpixel_width f" using f by simp
    have "zrle_solid (px_of f) z1 = Some (zr_append z1 (1 # cpx f p))"
      by (rule solid_bytes [OF f]) (use ok(1) p zr_room_mono [OF room1] size f in simp_all)
    then have "vnc_encode_zrle_tile (px_of f) s x y w h z = Some (zr_append z1 (1 # cpx f p))"
      using True by (simp add: vnc_encode_zrle_tile_def eq survey)
    then show ?thesis unfolding zrle_reads_def using size reads by blast
  next
    case False
    define packed_size where "packed_size = (if \<not> too_many \<and> zr_count z1 \<le> 16
      then zr_count z1 * cpixel_width f + h * ((w * pack_bits (zr_count z1) + 7) div 8) else absent)"
    define palette_size where "palette_size = (if too_many then absent
      else palette_cost (split_runs tile) + zr_count z1 * cpixel_width f)"
    define plain_size where "plain_size = plain_cost (cpixel_width f) (split_runs tile)"
    define b1 where "b1 = (if plain_size < w * h * cpixel_width f then plain_size else w * h * cpixel_width f)"
    define b2 where "b2 = (if palette_size < b1 then palette_size else b1)"
    define b3 where "b3 = (if packed_size < b2 then packed_size else b2)"
    define form where "form = (if b3 = packed_size then zrle_packed (px_of f) tile w h (pack_bits (zr_count z1)) z1
        else if b3 = palette_size then zrle_palette_rle (px_of f) tile (length tile) z1
        else if b3 = plain_size then zrle_plain (px_of f) tile (length tile) z1
        else zrle_raw (px_of f) tile (length tile) z1)"
    have best: "b3 \<le> length tile * cpixel_width f" by (simp add: b1_def b2_def b3_def len)
    have "vnc_encode_zrle_tile (px_of f) s x y w h z = form"
      unfolding vnc_encode_zrle_tile_def eq bind.bind_lunit Let_def survey split_conv if_not_P [OF False] width len
        form_def b3_def b2_def b1_def packed_size_def palette_size_def plain_size_def by (rule refl)
    moreover have "zrle_reads f w h tile z1 form"
      by (rule zrle_form_reads [OF f tile(1) len tile(2,3) room1 cs packed_size_def palette_size_def plain_size_def best form_def])
        (use False in blast)
    ultimately show ?thesis by simp
  qed
  then show ?thesis using z1 unfolding tile_def by blast
qed

end
