(* ===== verification/Inflate.thy ===== *)
theory Inflate
  imports Outcome
begin

section \<open>Inflate: the raw Deflate decoder\<close>

text \<open>
  \<^verbatim>\<open>include/v9xremote/inflate.h\<close> and \<^verbatim>\<open>src/common/inflate.c\<close>. The state record has the fields of
  \<^verbatim>\<open>struct v9x_inflate_state\<close>; the input and output buffers are the memory the two pointers reach,
  read and written through checked accesses, and their declared lengths are separate fields as in the
  C struct. Positions, lengths, counts and symbols are natural numbers: each is bounded by a length
  below \<open>2 ^ 32\<close> or by 320 (\<open>inflate_inv\<close> and \<open>code_ok\<close> below), so no counter wraps; the
  bit buffer is the 32-bit word of the source.
\<close>

subsection \<open>Constants and tables\<close>

datatype inflate_status =
    V9X_INFLATE_OK
  | V9X_INFLATE_TRUNCATED
  | V9X_INFLATE_BAD_BLOCK
  | V9X_INFLATE_BAD_STORED
  | V9X_INFLATE_BAD_LENGTHS
  | V9X_INFLATE_BAD_CODE
  | V9X_INFLATE_BAD_DISTANCE
  | V9X_INFLATE_OUTPUT_FULL
  | V9X_INFLATE_BAD_ARGUMENT

definition V9X_INFLATE_MAX_BITS :: nat where "V9X_INFLATE_MAX_BITS = 15"
definition V9X_INFLATE_LITLEN_SYMBOLS :: nat where "V9X_INFLATE_LITLEN_SYMBOLS = 288"
definition V9X_INFLATE_DIST_SYMBOLS :: nat where "V9X_INFLATE_DIST_SYMBOLS = 32"
definition V9X_INFLATE_CLEN_SYMBOLS :: nat where "V9X_INFLATE_CLEN_SYMBOLS = 19"
definition V9X_INFLATE_BTYPE_STORED :: nat where "V9X_INFLATE_BTYPE_STORED = 0"
definition V9X_INFLATE_BTYPE_FIXED :: nat where "V9X_INFLATE_BTYPE_FIXED = 1"
definition V9X_INFLATE_BTYPE_DYNAMIC :: nat where "V9X_INFLATE_BTYPE_DYNAMIC = 2"
definition V9X_INFLATE_END_OF_BLOCK :: nat where "V9X_INFLATE_END_OF_BLOCK = 256"
definition V9X_INFLATE_FIRST_LENGTH :: nat where "V9X_INFLATE_FIRST_LENGTH = 257"
definition V9X_INFLATE_LENGTH_CODES :: nat where "V9X_INFLATE_LENGTH_CODES = 29"
definition V9X_INFLATE_DISTANCE_CODES :: nat where "V9X_INFLATE_DISTANCE_CODES = 30"
definition V9X_INFLATE_HLIT_BASE :: nat where "V9X_INFLATE_HLIT_BASE = 257"
definition V9X_INFLATE_HLIT_MAX :: nat where "V9X_INFLATE_HLIT_MAX = 286"
definition V9X_INFLATE_HDIST_BASE :: nat where "V9X_INFLATE_HDIST_BASE = 1"
definition V9X_INFLATE_HCLEN_BASE :: nat where "V9X_INFLATE_HCLEN_BASE = 4"
definition V9X_INFLATE_CLEN_REPEAT :: nat where "V9X_INFLATE_CLEN_REPEAT = 16"
definition V9X_INFLATE_CLEN_ZEROS :: nat where "V9X_INFLATE_CLEN_ZEROS = 17"

lemmas inflate_consts =
  V9X_INFLATE_MAX_BITS_def V9X_INFLATE_LITLEN_SYMBOLS_def V9X_INFLATE_DIST_SYMBOLS_def
  V9X_INFLATE_CLEN_SYMBOLS_def V9X_INFLATE_BTYPE_STORED_def V9X_INFLATE_BTYPE_FIXED_def
  V9X_INFLATE_BTYPE_DYNAMIC_def V9X_INFLATE_END_OF_BLOCK_def V9X_INFLATE_FIRST_LENGTH_def
  V9X_INFLATE_LENGTH_CODES_def V9X_INFLATE_DISTANCE_CODES_def V9X_INFLATE_HLIT_BASE_def
  V9X_INFLATE_HLIT_MAX_def V9X_INFLATE_HDIST_BASE_def V9X_INFLATE_HCLEN_BASE_def
  V9X_INFLATE_CLEN_REPEAT_def V9X_INFLATE_CLEN_ZEROS_def

definition v9x_inflate_length_base :: "nat list" where
  "v9x_inflate_length_base =
     [3, 4, 5, 6, 7, 8, 9, 10, 11, 13, 15, 17, 19, 23, 27, 31,
      35, 43, 51, 59, 67, 83, 99, 115, 131, 163, 195, 227, 258]"

definition v9x_inflate_length_extra :: "nat list" where
  "v9x_inflate_length_extra =
     [0, 0, 0, 0, 0, 0, 0, 0, 1, 1, 1, 1, 2, 2, 2, 2,
      3, 3, 3, 3, 4, 4, 4, 4, 5, 5, 5, 5, 0]"

definition v9x_inflate_distance_base :: "nat list" where
  "v9x_inflate_distance_base =
     [1, 2, 3, 4, 5, 7, 9, 13, 17, 25, 33, 49, 65, 97, 129,
      193, 257, 385, 513, 769, 1025, 1537, 2049, 3073, 4097, 6145,
      8193, 12289, 16385, 24577]"

definition v9x_inflate_distance_extra :: "nat list" where
  "v9x_inflate_distance_extra =
     [0, 0, 0, 0, 1, 1, 2, 2, 3, 3, 4, 4, 5, 5, 6,
      6, 7, 7, 8, 8, 9, 9, 10, 10, 11, 11, 12, 12, 13, 13]"

definition v9x_inflate_clen_order :: "nat list" where
  "v9x_inflate_clen_order =
     [16, 17, 18, 0, 8, 7, 9, 6, 10, 5, 11, 4, 12, 3, 13, 2, 14, 1, 15]"

subsection \<open>State\<close>

record inflate_code =
  ccount :: "nat list"
  csymbol :: "nat list"

record inflate_state =
  input_bytes :: bytes
  input_length :: nat
  input_position :: nat
  bit_buffer :: u32
  bit_count :: nat
  output_bytes :: bytes
  output_capacity :: nat
  output_position :: nat
  litlen :: inflate_code
  distance :: inflate_code
  lengths :: "nat list"

type_synonym 'a inflating = "(inflate_state, inflate_status, 'a) outcome"

subsection \<open>Bits\<close>

function inflate_fetch :: "inflate_state \<Rightarrow> nat \<Rightarrow> unit inflating" where
  "inflate_fetch s count =
     (if bit_count s < count then
        (if input_position s \<ge> input_length s then Some (s, Inl V9X_INFLATE_TRUNCATED)
         else (case rd (input_bytes s) (input_position s) of
             None \<Rightarrow> None
           | Some byte \<Rightarrow>
               inflate_fetch
                 (s\<lparr>bit_buffer := bit_buffer s OR push_bit (bit_count s) (ucast byte),
                    input_position := input_position s + 1,
                    bit_count := bit_count s + 8\<rparr>) count))
      else Some (s, Inr ()))"
  by pat_completeness auto

termination inflate_fetch
  by (relation "measure (\<lambda>(s, count). count - bit_count s)") auto

declare inflate_fetch.simps [simp del]

definition v9x_inflate_bits :: "inflate_state \<Rightarrow> nat \<Rightarrow> nat inflating" where
  "v9x_inflate_bits s count =
     andthen (inflate_fetch s count) (\<lambda>_ s.
       Some (s\<lparr>bit_buffer := drop_bit count (bit_buffer s), bit_count := bit_count s - count\<rparr>,
             Inr (unat (bit_buffer s AND (push_bit count 1 - 1)))))"

subsection \<open>Canonical codes\<close>

text \<open>The three loops of \<open>v9x_inflate_build\<close>: counting the lengths, the Kraft sum, and the
  symbols in code order. The Kraft sum is a signed number and may end below zero.\<close>

fun build_count :: "nat list \<Rightarrow> nat list \<Rightarrow> nat list \<times> bool" where
  "build_count count [] = (count, True)"
| "build_count count (l # ls) =
     (if l > V9X_INFLATE_MAX_BITS then (count, False)
      else build_count (count[l := count ! l + 1]) ls)"

fun build_left :: "nat list \<Rightarrow> int \<Rightarrow> nat list \<Rightarrow> int option" where
  "build_left count left [] = Some left"
| "build_left count left (l # ls) =
     (let left = left * 2 - int (count ! l) in
      if left < 0 then None else build_left count left ls)"

fun build_offsets :: "nat list \<Rightarrow> nat list \<Rightarrow> nat list \<Rightarrow> nat list" where
  "build_offsets count offset [] = offset"
| "build_offsets count offset (l # ls) =
     build_offsets count (offset[l + 1 := offset ! l + count ! l]) ls"

fun build_symbols :: "nat list \<Rightarrow> nat list \<Rightarrow> nat \<Rightarrow> nat list \<Rightarrow> nat list option" where
  "build_symbols table offset symbol [] = Some table"
| "build_symbols table offset symbol (l # ls) =
     (if l \<noteq> 0 then do {
        table \<leftarrow> wr table (offset ! l) symbol;
        build_symbols table (offset[l := offset ! l + 1]) (symbol + 1) ls }
      else build_symbols table offset (symbol + 1) ls)"

definition v9x_inflate_build ::
    "inflate_code \<Rightarrow> nat list \<Rightarrow> nat \<Rightarrow> bool \<Rightarrow> (inflate_code, inflate_status, unit) outcome" where
  "v9x_inflate_build code lens symbols allow_single = do {
     ls \<leftarrow> rds lens 0 symbols;
     let (count, counted) = build_count (replicate 16 0) ls;
     let code = code\<lparr>ccount := count\<rparr>;
     if \<not> counted then Some (code, Inl V9X_INFLATE_BAD_LENGTHS)
     else (case build_left count 1 [1..<V9X_INFLATE_MAX_BITS + 1] of
         None \<Rightarrow> Some (code, Inl V9X_INFLATE_BAD_LENGTHS)
       | Some left \<Rightarrow>
           let used = symbols - count ! 0 in
           if left > 0 \<and> (\<not> allow_single \<or> used > 1 \<or> used = 1 \<and> count ! 1 \<noteq> 1)
           then Some (code, Inl V9X_INFLATE_BAD_LENGTHS)
           else do {
             table \<leftarrow> build_symbols (csymbol code)
               (build_offsets count (replicate 16 0) [1..<V9X_INFLATE_MAX_BITS]) 0 ls;
             Some (code\<lparr>csymbol := table\<rparr>, Inr ()) }) }"

text \<open>The loop of \<open>v9x_inflate_decode\<close> over the code lengths, with its three signed
  accumulators.\<close>

fun decode_walk ::
    "inflate_code \<Rightarrow> inflate_state \<Rightarrow> nat list \<Rightarrow> int \<Rightarrow> int \<Rightarrow> nat \<Rightarrow> nat inflating" where
  "decode_walk code s [] value first index = Some (s, Inl V9X_INFLATE_BAD_CODE)"
| "decode_walk code s (l # ls) value first index =
     andthen (v9x_inflate_bits s 1) (\<lambda>bit s.
       let value = value OR int bit;
           count = int (ccount code ! l) in
       if value \<ge> first \<and> value - first < count
       then do { symbol \<leftarrow> rd (csymbol code) (index + nat (value - first)); Some (s, Inr symbol) }
       else decode_walk code s ls (value * 2) ((first + count) * 2) (index + nat count))"

definition v9x_inflate_decode :: "inflate_state \<Rightarrow> inflate_code \<Rightarrow> nat inflating" where
  "v9x_inflate_decode s code = decode_walk code s [1..<V9X_INFLATE_MAX_BITS + 1] 0 0 0"

subsection \<open>Stored blocks\<close>

definition v9x_inflate_stored :: "inflate_state \<Rightarrow> unit inflating" where
  "v9x_inflate_stored s =
     (let s = s\<lparr>bit_buffer := 0, bit_count := 0\<rparr>;
          position = input_position s in
      if input_length s - position < 4 then Some (s, Inl V9X_INFLATE_TRUNCATED)
      else do {
        b0 \<leftarrow> rd (input_bytes s) position;
        b1 \<leftarrow> rd (input_bytes s) (position + 1);
        b2 \<leftarrow> rd (input_bytes s) (position + 2);
        b3 \<leftarrow> rd (input_bytes s) (position + 3);
        let length = (ucast b0 OR push_bit 8 (ucast b1) :: u32);
        let complement = (ucast b2 OR push_bit 8 (ucast b3) :: u32);
        let position = position + 4;
        if length \<noteq> NOT complement AND 0xFFFF then Some (s, Inl V9X_INFLATE_BAD_STORED)
        else if input_length s - position < unat length then Some (s, Inl V9X_INFLATE_TRUNCATED)
        else if output_capacity s - output_position s < unat length
        then Some (s, Inl V9X_INFLATE_OUTPUT_FULL)
        else do {
          copied \<leftarrow> rds (input_bytes s) position (unat length);
          out \<leftarrow> wrs (output_bytes s) (output_position s) copied;
          Some (s\<lparr>output_bytes := out, output_position := output_position s + unat length,
                  input_position := position + unat length\<rparr>, Inr ()) } })"

subsection \<open>Huffman blocks\<close>

text \<open>The byte-by-byte copy of a match inside the output: each byte is read after the one before it
  was written, so a distance shorter than the length repeats.\<close>

fun copy_match :: "bytes \<Rightarrow> nat \<Rightarrow> nat \<Rightarrow> nat \<Rightarrow> bytes option" where
  "copy_match out from to 0 = Some out"
| "copy_match out from to (Suc n) = do {
     b \<leftarrow> rd out from;
     out \<leftarrow> wr out to b;
     copy_match out (Suc from) (Suc to) n }"

text \<open>A literal, and a match: the tests before each write, and the write.\<close>

definition put_literal :: "inflate_state \<Rightarrow> nat \<Rightarrow> bool inflating" where
  "put_literal s symbol =
     (if output_position s \<ge> output_capacity s then Some (s, Inl V9X_INFLATE_OUTPUT_FULL)
      else do {
        out \<leftarrow> wr (output_bytes s) (output_position s) (of_nat symbol);
        Some (s\<lparr>output_bytes := out, output_position := output_position s + 1\<rparr>, Inr True) })"

definition put_match :: "inflate_state \<Rightarrow> nat \<Rightarrow> nat \<Rightarrow> bool inflating" where
  "put_match s len dist =
     (if dist > output_position s then Some (s, Inl V9X_INFLATE_BAD_DISTANCE)
      else if output_capacity s - output_position s < len
      then Some (s, Inl V9X_INFLATE_OUTPUT_FULL)
      else do {
        out \<leftarrow> copy_match (output_bytes s) (output_position s - dist) (output_position s) len;
        Some (s\<lparr>output_bytes := out, output_position := output_position s + len\<rparr>, Inr True) })"

text \<open>The rest of a match after its length symbol: extra bits, distance symbol, extra bits.\<close>

definition read_match :: "inflate_state \<Rightarrow> nat \<Rightarrow> bool inflating" where
  "read_match s symbol =
     andthen (v9x_inflate_bits s (v9x_inflate_length_extra ! symbol)) (\<lambda>extra s.
     let length = v9x_inflate_length_base ! symbol + extra in
     andthen (v9x_inflate_decode s (distance s)) (\<lambda>symbol s.
       if symbol \<ge> V9X_INFLATE_DISTANCE_CODES then Some (s, Inl V9X_INFLATE_BAD_DISTANCE)
       else
         andthen (v9x_inflate_bits s (v9x_inflate_distance_extra ! symbol)) (\<lambda>extra s.
         put_match s length (v9x_inflate_distance_base ! symbol + extra))))"

text \<open>One pass of the loop of \<open>v9x_inflate_codes\<close>: \<open>True\<close> when the loop goes on,
  \<open>False\<close> at the end of the block.\<close>

definition codes_pass :: "inflate_state \<Rightarrow> bool inflating" where
  "codes_pass s =
     andthen (v9x_inflate_decode s (litlen s)) (\<lambda>symbol s.
       if symbol < V9X_INFLATE_END_OF_BLOCK then put_literal s symbol
       else if symbol = V9X_INFLATE_END_OF_BLOCK then Some (s, Inr False)
       else
         let symbol = symbol - V9X_INFLATE_FIRST_LENGTH in
         if symbol \<ge> V9X_INFLATE_LENGTH_CODES then Some (s, Inl V9X_INFLATE_BAD_CODE)
         else read_match s symbol)"

subsection \<open>Every loop consumes input\<close>

text \<open>The bits a state can still deliver: those buffered and eight for each unread byte. Fetching
  keeps the number, reading lowers it by what is read; this measure is what makes the loops of the
  decoder end, whatever the bytes are and with no bound on their number.\<close>

definition bits_left :: "inflate_state \<Rightarrow> nat" where
  "bits_left s = bit_count s + 8 * (input_length s - input_position s)"

lemma inflate_fetch_left:
  "inflate_fetch s count = Some (s', Inr u) \<Longrightarrow> bits_left s' = bits_left s \<and> count \<le> bit_count s'"
proof (induction s count rule: inflate_fetch.induct)
  case (1 s count)
  show ?case using 1(2)
    by (subst (asm) inflate_fetch.simps)
       (auto simp: bits_left_def split: if_splits option.splits dest!: 1(1))
qed

lemma inflate_fetch_left_error:
  "inflate_fetch s count = Some (s', Inl e) \<Longrightarrow> bits_left s' = bits_left s"
proof (induction s count rule: inflate_fetch.induct)
  case (1 s count)
  show ?case using 1(2)
    by (subst (asm) inflate_fetch.simps)
       (auto simp: bits_left_def split: if_splits option.splits dest!: 1(1))
qed

lemma v9x_inflate_bits_left:
  "v9x_inflate_bits s count = Some (s', Inr v) \<Longrightarrow> bits_left s' + count = bits_left s"
  by (auto simp: v9x_inflate_bits_def bits_left_def elim!: andthen_eq_Inr_cases
      dest!: inflate_fetch_left)

lemma decode_walk_left:
  "decode_walk code s ls v first index = Some (s', Inr symbol) \<Longrightarrow> bits_left s' < bits_left s"
proof (induction ls arbitrary: s v first index)
  case Nil
  then show ?case by simp
next
  case (Cons l ls)
  from Cons.prems obtain s1 bit where bit: "v9x_inflate_bits s 1 = Some (s1, Inr bit)"
    by (auto elim!: andthen_eq_Inr_cases)
  then have "bits_left s1 < bits_left s" using v9x_inflate_bits_left by fastforce
  moreover have "bits_left s' \<le> bits_left s1"
    using Cons.prems Cons.IH bit
    by (auto simp: Let_def less_imp_le split: if_splits Option.bind_splits)
  ultimately show ?case by simp
qed

lemma v9x_inflate_decode_left:
  "v9x_inflate_decode s code = Some (s', Inr symbol) \<Longrightarrow> bits_left s' < bits_left s"
  by (simp add: v9x_inflate_decode_def decode_walk_left)

lemma bits_left_output [simp]:
  "bits_left (s\<lparr>output_bytes := out, output_position := n\<rparr>) = bits_left s"
  "bits_left (s\<lparr>litlen := c\<rparr>) = bits_left s"
  "bits_left (s\<lparr>distance := c\<rparr>) = bits_left s"
  "bits_left (s\<lparr>lengths := ls\<rparr>) = bits_left s"
  by (simp_all add: bits_left_def)

lemma put_left:
  "put_literal s symbol = Some (s', Inr again) \<Longrightarrow> bits_left s' = bits_left s"
  "put_match s len dist = Some (s', Inr again) \<Longrightarrow> bits_left s' = bits_left s"
  by (auto simp: put_literal_def put_match_def split: if_splits Option.bind_splits)

lemma read_match_left:
  "read_match s symbol = Some (s', Inr again) \<Longrightarrow> bits_left s' \<le> bits_left s"
  unfolding read_match_def Let_def
  by (auto elim!: andthen_eq_Inr_cases split: if_splits
      dest!: v9x_inflate_decode_left v9x_inflate_bits_left put_left)

lemma codes_pass_left:
  "codes_pass s = Some (s', Inr again) \<Longrightarrow> bits_left s' < bits_left s"
  unfolding codes_pass_def Let_def
  by (auto elim!: andthen_eq_Inr_cases split: if_splits
      dest!: v9x_inflate_decode_left put_left read_match_left)

function v9x_inflate_codes :: "inflate_state \<Rightarrow> unit inflating" where
  "v9x_inflate_codes s =
     andthen (codes_pass s) (\<lambda>again s.
       if again then v9x_inflate_codes s else Some (s, Inr ()))"
  by pat_completeness auto

termination v9x_inflate_codes
  by (relation "measure bits_left") (auto dest: codes_pass_left)

declare v9x_inflate_codes.simps [simp del]

subsection \<open>Fixed and dynamic blocks\<close>

text \<open>The two codes are rebuilt in place, inside the state.\<close>

definition build_litlen :: "inflate_state \<Rightarrow> nat list \<Rightarrow> nat \<Rightarrow> bool \<Rightarrow> unit inflating" where
  "build_litlen s lens symbols allow_single =
     map_option (\<lambda>(code, r). (s\<lparr>litlen := code\<rparr>, r))
       (v9x_inflate_build (litlen s) lens symbols allow_single)"

definition build_distance :: "inflate_state \<Rightarrow> nat list \<Rightarrow> nat \<Rightarrow> bool \<Rightarrow> unit inflating" where
  "build_distance s lens symbols allow_single =
     map_option (\<lambda>(code, r). (s\<lparr>distance := code\<rparr>, r))
       (v9x_inflate_build (distance s) lens symbols allow_single)"

definition fixed_litlen_lengths :: "nat list" where
  "fixed_litlen_lengths =
     map (\<lambda>symbol. if symbol < 144 then 8 else if symbol < 256 then 9
                   else if symbol < 280 then 7 else 8) [0..<V9X_INFLATE_LITLEN_SYMBOLS]"

definition v9x_inflate_fixed :: "inflate_state \<Rightarrow> unit inflating" where
  "v9x_inflate_fixed s = do {
     lens \<leftarrow> wrs (lengths s) 0 fixed_litlen_lengths;
     andthen (build_litlen (s\<lparr>lengths := lens\<rparr>) lens V9X_INFLATE_LITLEN_SYMBOLS False) (\<lambda>_ s. do {
       lens \<leftarrow> wrs (lengths s) 0 (replicate V9X_INFLATE_DIST_SYMBOLS 5);
       andthen (build_distance (s\<lparr>lengths := lens\<rparr>) lens V9X_INFLATE_DIST_SYMBOLS False)
         (\<lambda>_ s. v9x_inflate_codes s) }) }"

text \<open>The loops of a dynamic header: the lengths of the code length code, in their transmission
  order, and the run-length coded sequence of lengths.\<close>

fun read_clen :: "inflate_state \<Rightarrow> nat list \<Rightarrow> nat list \<Rightarrow> nat list inflating" where
  "read_clen s clen_lengths [] = Some (s, Inr clen_lengths)"
| "read_clen s clen_lengths (index # rest) =
     andthen (v9x_inflate_bits s 3) (\<lambda>value s. do {
       clen_lengths \<leftarrow> wr clen_lengths (v9x_inflate_clen_order ! index) value;
       read_clen s clen_lengths rest })"

definition read_repeat :: "inflate_state \<Rightarrow> nat \<Rightarrow> nat \<Rightarrow> (nat \<times> nat) inflating" where
  "read_repeat s index symbol =
     (if symbol = V9X_INFLATE_CLEN_REPEAT then
        (if index = 0 then Some (s, Inl V9X_INFLATE_BAD_LENGTHS)
         else do {
           repeat_value \<leftarrow> rd (lengths s) (index - 1);
           andthen (v9x_inflate_bits s 2) (\<lambda>repeat s. Some (s, Inr (repeat_value, repeat + 3))) })
      else if symbol = V9X_INFLATE_CLEN_ZEROS then
        andthen (v9x_inflate_bits s 3) (\<lambda>repeat s. Some (s, Inr (0, repeat + 3)))
      else andthen (v9x_inflate_bits s 7) (\<lambda>repeat s. Some (s, Inr (0, repeat + 11))))"

text \<open>One pass of the loop over the code lengths, giving the next index.\<close>

definition lengths_pass :: "inflate_state \<Rightarrow> nat \<Rightarrow> nat \<Rightarrow> nat inflating" where
  "lengths_pass s limit index =
     andthen (v9x_inflate_decode s (distance s)) (\<lambda>symbol s.
       if symbol < V9X_INFLATE_CLEN_REPEAT then do {
         lens \<leftarrow> wr (lengths s) index symbol;
         Some (s\<lparr>lengths := lens\<rparr>, Inr (index + 1)) }
       else
         andthen (read_repeat s index symbol) (\<lambda>(repeat_value, repeat) s.
           if repeat > limit - index then Some (s, Inl V9X_INFLATE_BAD_LENGTHS)
           else do {
             lens \<leftarrow> wrs (lengths s) index (replicate repeat repeat_value);
             Some (s\<lparr>lengths := lens\<rparr>, Inr (index + repeat)) }))"

lemma read_repeat_progress:
  "read_repeat s index symbol = Some (s', Inr (v, n)) \<Longrightarrow> 0 < n \<and> bits_left s' < bits_left s"
  unfolding read_repeat_def
  by (auto elim!: andthen_eq_Inr_cases split: if_splits Option.bind_splits
      dest!: v9x_inflate_bits_left)

lemma lengths_pass_progress:
  "lengths_pass s limit index = Some (s', Inr index') \<Longrightarrow>
   index < index' \<and> bits_left s' < bits_left s"
  unfolding lengths_pass_def
  by (fastforce elim!: andthen_eq_Inr_cases split: if_splits Option.bind_splits prod.splits
      dest!: v9x_inflate_decode_left read_repeat_progress)

function read_lengths :: "inflate_state \<Rightarrow> nat \<Rightarrow> nat \<Rightarrow> unit inflating" where
  "read_lengths s limit index =
     (if index < limit then
        andthen (lengths_pass s limit index) (\<lambda>index s. read_lengths s limit index)
      else Some (s, Inr ()))"
  by pat_completeness auto

termination read_lengths
  by (relation "measure (\<lambda>(s, limit, index). limit - index)")
     (auto dest!: lengths_pass_progress)

declare read_lengths.simps [simp del]

definition dynamic_lengths :: "inflate_state \<Rightarrow> nat \<Rightarrow> nat \<Rightarrow> nat \<Rightarrow> unit inflating" where
  "dynamic_lengths s hlit hdist hclen =
     andthen (read_clen s (replicate V9X_INFLATE_CLEN_SYMBOLS 0) [0..<hclen]) (\<lambda>clen_lengths s.
     andthen (build_distance s clen_lengths V9X_INFLATE_CLEN_SYMBOLS False) (\<lambda>_ s.
     read_lengths s (hlit + hdist) 0))"

definition dynamic_build :: "inflate_state \<Rightarrow> nat \<Rightarrow> nat \<Rightarrow> unit inflating" where
  "dynamic_build s hlit hdist = do {
     eob \<leftarrow> rd (lengths s) V9X_INFLATE_END_OF_BLOCK;
     if eob = 0 then Some (s, Inl V9X_INFLATE_BAD_LENGTHS)
     else
       andthen (build_litlen s (lengths s) hlit False) (\<lambda>_ s.
       build_distance s (drop hlit (lengths s)) hdist True) }"

definition v9x_inflate_dynamic :: "inflate_state \<Rightarrow> unit inflating" where
  "v9x_inflate_dynamic s =
     andthen (v9x_inflate_bits s 5) (\<lambda>value s.
     let hlit = value + V9X_INFLATE_HLIT_BASE in
     andthen (v9x_inflate_bits s 5) (\<lambda>value s.
     let hdist = value + V9X_INFLATE_HDIST_BASE in
     andthen (v9x_inflate_bits s 4) (\<lambda>value s.
     let hclen = value + V9X_INFLATE_HCLEN_BASE in
     if hlit > V9X_INFLATE_HLIT_MAX then Some (s, Inl V9X_INFLATE_BAD_BLOCK)
     else
       andthen (dynamic_lengths s hlit hdist hclen) (\<lambda>_ s.
       andthen (dynamic_build s hlit hdist) (\<lambda>_ s. v9x_inflate_codes s)))))"

subsection \<open>The stream of blocks\<close>

text \<open>One pass of the loop of \<open>v9x_inflate_with_state\<close>; its value is \<^verbatim>\<open>final_block\<close>.\<close>

definition inflate_block :: "inflate_state \<Rightarrow> nat inflating" where
  "inflate_block s =
     andthen (v9x_inflate_bits s 1) (\<lambda>final_block s.
     andthen (v9x_inflate_bits s 2) (\<lambda>type s.
     andthen
       (if type = V9X_INFLATE_BTYPE_STORED then v9x_inflate_stored s
        else if type = V9X_INFLATE_BTYPE_FIXED then v9x_inflate_fixed s
        else if type = V9X_INFLATE_BTYPE_DYNAMIC then v9x_inflate_dynamic s
        else Some (s, Inl V9X_INFLATE_BAD_BLOCK))
       (\<lambda>_ s. Some (s, Inr final_block))))"

lemma codes_induct [case_names step]:
  assumes "\<And>s. (\<And>s'. codes_pass s = Some (s', Inr True) \<Longrightarrow> P s') \<Longrightarrow> P s"
  shows "P s"
  by (rule measure_induct_rule [of bits_left]) (blast intro: assms dest: codes_pass_left)

lemma read_lengths_induct [case_names step]:
  assumes "\<And>s index. (\<And>s' index'. index < limit \<Longrightarrow>
    lengths_pass s limit index = Some (s', Inr index') \<Longrightarrow> P s' index') \<Longrightarrow> P s index"
  shows "P s index"
proof (induction "bits_left s" arbitrary: s index rule: less_induct)
  case less
  show ?case by (rule assms) (blast intro: less dest: lengths_pass_progress)
qed

lemma v9x_inflate_codes_left:
  "v9x_inflate_codes s = Some (s', Inr u) \<Longrightarrow> bits_left s' \<le> bits_left s"
proof (induction s rule: codes_induct)
  case (step s)
  from step.prems obtain s1 again where pass: "codes_pass s = Some (s1, Inr again)"
    and rest: "(if again then v9x_inflate_codes s1 else Some (s1, Inr ())) = Some (s', Inr u)"
    by (subst (asm) v9x_inflate_codes.simps) (erule andthen_eq_Inr_cases)
  show ?case
  proof (cases again)
    case True
    with step.IH [of s1] pass rest have "bits_left s' \<le> bits_left s1" by simp
    with codes_pass_left [OF pass] show ?thesis by simp
  qed (use pass rest codes_pass_left [OF pass] in simp)
qed

lemma read_lengths_left:
  "read_lengths s limit index = Some (s', Inr u) \<Longrightarrow> bits_left s' \<le> bits_left s"
proof (induction s index rule: read_lengths_induct [of limit])
  case (step s index)
  show ?case using step.prems
    by (subst (asm) read_lengths.simps)
       (fastforce elim!: andthen_eq_Inr_cases split: if_splits dest: lengths_pass_progress step.IH)
qed

lemma read_clen_left:
  "read_clen s lens idx = Some (s', Inr v) \<Longrightarrow> bits_left s' \<le> bits_left s"
proof (induction idx arbitrary: s lens)
  case (Cons i idx)
  from Cons.prems obtain s1 x lens' where "v9x_inflate_bits s 3 = Some (s1, Inr x)"
    and "read_clen s1 lens' idx = Some (s', Inr v)"
    by (auto elim!: andthen_eq_Inr_cases split: Option.bind_splits)
  with Cons.IH [of s1 lens'] v9x_inflate_bits_left [of s 3 s1 x] show ?case by simp
qed simp

lemma build_left_bits [dest!]:
  "build_litlen s lens n single = Some (s', r) \<Longrightarrow> bits_left s' = bits_left s"
  "build_distance s lens n single = Some (s', r) \<Longrightarrow> bits_left s' = bits_left s"
  by (auto simp: build_litlen_def build_distance_def)

lemma v9x_inflate_stored_left:
  "v9x_inflate_stored s = Some (s', Inr u) \<Longrightarrow> bits_left s' \<le> bits_left s"
  unfolding v9x_inflate_stored_def
  by (auto simp: Let_def bits_left_def split: if_splits Option.bind_splits)

lemma v9x_inflate_fixed_left:
  "v9x_inflate_fixed s = Some (s', Inr u) \<Longrightarrow> bits_left s' \<le> bits_left s"
  unfolding v9x_inflate_fixed_def
  by (auto elim!: andthen_eq_Inr_cases split: Option.bind_splits dest!: v9x_inflate_codes_left)

lemma v9x_inflate_dynamic_left:
  "v9x_inflate_dynamic s = Some (s', Inr u) \<Longrightarrow> bits_left s' \<le> bits_left s"
  unfolding v9x_inflate_dynamic_def dynamic_lengths_def dynamic_build_def
  by (auto simp: Let_def elim!: andthen_eq_Inr_cases split: if_splits Option.bind_splits
      dest!: v9x_inflate_codes_left read_lengths_left read_clen_left v9x_inflate_bits_left)

lemma inflate_block_left:
  "inflate_block s = Some (s', Inr final) \<Longrightarrow> bits_left s' + 3 \<le> bits_left s"
  unfolding inflate_block_def
  by (fastforce elim!: andthen_eq_Inr_cases split: if_splits
      dest!: v9x_inflate_bits_left v9x_inflate_stored_left v9x_inflate_fixed_left
        v9x_inflate_dynamic_left)

function inflate_blocks :: "inflate_state \<Rightarrow> unit inflating" where
  "inflate_blocks s =
     andthen (inflate_block s) (\<lambda>final_block s.
       if final_block = 0 then inflate_blocks s else Some (s, Inr ()))"
  by pat_completeness auto

termination inflate_blocks
  by (relation "measure bits_left") (auto dest!: inflate_block_left)

declare inflate_blocks.simps [simp del]

text \<open>The entry points. Pointers are options; the result is the status, the state (which holds the
  output buffer) and the value left in \<^verbatim>\<open>*output_length\<close>. The C loop stores the output position
  into it after each block, the last of them before it returns.\<close>

definition inflate_begin ::
    "inflate_state \<Rightarrow> bytes option \<Rightarrow> nat \<Rightarrow> bytes option \<Rightarrow> nat \<Rightarrow> inflate_state" where
  "inflate_begin s inp inp_length out out_capacity =
     s\<lparr>input_bytes := case_option [] id inp, input_length := inp_length, input_position := 0,
       bit_buffer := 0, bit_count := 0,
       output_bytes := case_option [] id out, output_capacity := out_capacity,
       output_position := 0\<rparr>"

definition v9x_inflate_with_state ::
    "inflate_state option \<Rightarrow> bytes option \<Rightarrow> nat \<Rightarrow> bytes option \<Rightarrow> nat \<Rightarrow> nat option \<Rightarrow>
     (inflate_status \<times> inflate_state option \<times> nat option) option" where
  "v9x_inflate_with_state state inp inp_length out out_capacity out_length =
     (case out_length of
        None \<Rightarrow> Some (V9X_INFLATE_BAD_ARGUMENT, state, None)
      | Some _ \<Rightarrow>
          (case state of
             None \<Rightarrow> Some (V9X_INFLATE_BAD_ARGUMENT, state, Some 0)
           | Some s \<Rightarrow>
               if inp = None \<and> inp_length \<noteq> 0 \<or> out = None \<and> out_capacity \<noteq> 0
               then Some (V9X_INFLATE_BAD_ARGUMENT, state, Some 0)
               else
                 (case inflate_blocks (inflate_begin s inp inp_length out out_capacity) of
                    None \<Rightarrow> None
                  | Some (s, Inl e) \<Rightarrow> Some (e, Some s, Some (output_position s))
                  | Some (s, Inr _) \<Rightarrow>
                      Some (V9X_INFLATE_OK, Some s, Some (output_position s)))))"

definition v9x_inflate ::
    "inflate_state \<Rightarrow> bytes option \<Rightarrow> nat \<Rightarrow> bytes option \<Rightarrow> nat \<Rightarrow> nat option \<Rightarrow>
     (inflate_status \<times> inflate_state option \<times> nat option) option" where
  "v9x_inflate local inp inp_length out out_capacity out_length =
     v9x_inflate_with_state (Some local) inp inp_length out out_capacity out_length"
end
