(* ===== verification/InflateBits.thy ===== *)
theory InflateBits
  imports Inflate
begin

section \<open>The bit reader: a stream of bits\<close>

text \<open>
  What \<open>v9x_inflate_bits\<close> promises its clients: a state stands for the list of the bits it has
  not delivered yet (\<open>bit_stream\<close>), reading takes them from the front, least significant first,
  and it fails exactly when too few are left. \<open>bits_ok\<close> is the invariant of the reader, the
  sentence of the source that "after any call fewer than 8 bits remain, and those are always the
  unread high bits of the last byte fetched".
\<close>

definition byte_bits :: "u8 \<Rightarrow> bool list" where
  "byte_bits b = map (bit b) [0..<8]"

definition bits_of_bytes :: "bytes \<Rightarrow> bool list" where
  "bits_of_bytes bs = concat (map byte_bits bs)"

definition bits_value :: "bool list \<Rightarrow> nat" where
  "bits_value bs = horner_sum of_bool 2 bs"

definition bits_ok :: "inflate_state \<Rightarrow> bool" where
  "bits_ok s \<longleftrightarrow> input_position s \<le> input_length s \<and> input_length s \<le> length (input_bytes s) \<and>
     bit_count s < 8 \<and> take_bit (bit_count s) (bit_buffer s) = bit_buffer s"

definition unread :: "inflate_state \<Rightarrow> bytes" where
  "unread s = take (input_length s - input_position s) (drop (input_position s) (input_bytes s))"

definition bit_stream :: "inflate_state \<Rightarrow> bool list" where
  "bit_stream s = map (bit (bit_buffer s)) [0..<bit_count s] @ bits_of_bytes (unread s)"

text \<open>The reader touches nothing but its three fields.\<close>

definition bit_step :: "inflate_state \<Rightarrow> inflate_state \<Rightarrow> bool" where
  "bit_step s s' \<longleftrightarrow>
     s' = s\<lparr>bit_buffer := bit_buffer s', input_position := input_position s',
            bit_count := bit_count s'\<rparr>"

lemma length_byte_bits [simp]: "length (byte_bits b) = 8"
  by (simp add: byte_bits_def)

lemma bits_of_bytes_simps [simp]:
  "bits_of_bytes [] = []"
  "bits_of_bytes (b # bs) = byte_bits b @ bits_of_bytes bs"
  "bits_of_bytes (xs @ ys) = bits_of_bytes xs @ bits_of_bytes ys"
  by (simp_all add: bits_of_bytes_def)

lemma length_bits_of_bytes [simp]: "length (bits_of_bytes bs) = 8 * length bs"
  by (induction bs) simp_all

lemma bits_value_simps [simp]:
  "bits_value [] = 0"
  "bits_value (b # bs) = of_bool b + 2 * bits_value bs"
  by (simp_all add: bits_value_def)

lemma bits_value_append: "bits_value (xs @ ys) = bits_value xs + 2 ^ length xs * bits_value ys"
  by (induction xs) (simp_all add: algebra_simps)

lemma bits_value_less: "bits_value bs < 2 ^ length bs"
  by (induction bs) auto

lemma bits_value_le: "length bs \<le> n \<Longrightarrow> bits_value bs < 2 ^ n"
  by (rule less_le_trans [OF bits_value_less]) simp

lemma bit_step_refl [simp]: "bit_step s s"
  by (simp add: bit_step_def)

lemma bit_step_trans [trans]: "bit_step s t \<Longrightarrow> bit_step t u \<Longrightarrow> bit_step s u"
  by (cases s; cases t; cases u) (simp add: bit_step_def)

lemma bit_stepD:
  assumes "bit_step s s'"
  shows "input_bytes s' = input_bytes s" "input_length s' = input_length s"
    "output_bytes s' = output_bytes s" "output_capacity s' = output_capacity s"
    "output_position s' = output_position s" "litlen s' = litlen s" "distance s' = distance s"
    "lengths s' = lengths s"
  by (subst assms [unfolded bit_step_def], simp)+

lemma length_bit_stream: "bits_ok s \<Longrightarrow> length (bit_stream s) = bits_left s"
  by (auto simp: bits_ok_def bit_stream_def bits_left_def unread_def min_def)

text \<open>Fetching keeps the stream.\<close>

definition fetch_ok :: "inflate_state \<Rightarrow> bool" where
  "fetch_ok s \<longleftrightarrow> input_position s \<le> input_length s \<and> input_length s \<le> length (input_bytes s) \<and>
     bit_count s < 24 \<and> take_bit (bit_count s) (bit_buffer s) = bit_buffer s"

lemma bits_ok_fetch_ok: "bits_ok s \<Longrightarrow> fetch_ok s"
  by (simp add: bits_ok_def fetch_ok_def)

lemma fetch_byte_bits:
  fixes w :: u32
  assumes "n < 24" "take_bit n w = w"
  shows "map (bit (w OR push_bit n (ucast (b :: u8)))) [0..<n + 8] =
    map (bit w) [0..<n] @ byte_bits b"
    and "take_bit (n + 8) (w OR push_bit n (ucast b)) = w OR push_bit n (ucast b)"
proof -
  have w: "i < n" if "bit w i" for i
    using assms(2) that by (metis bit_take_bit_iff)
  have bits: "bit (w OR push_bit n (ucast b)) i \<longleftrightarrow> (if i < n then bit w i else bit b (i - n))" for i
  proof (cases "i < n")
    case True
    then show ?thesis by (simp add: bit_or_iff bit_push_bit_iff)
  next
    case False
    have "\<not> bit w i" using False w by blast
    moreover have "bit b (i - n) \<Longrightarrow> i < 32" using bit_u8_less [of b "i - n"] assms(1) by simp
    ultimately show ?thesis using False
      by (auto simp: bit_or_iff bit_push_bit_iff bit_unsigned_iff)
  qed
  have "[0..<n + 8] = [0..<n] @ map (\<lambda>i. i + n) [0..<8]"
    unfolding map_add_upt add.commute [of 8] by (rule upt_add_eq_append) simp
  then show "map (bit (w OR push_bit n (ucast (b :: u8)))) [0..<n + 8] =
    map (bit w) [0..<n] @ byte_bits b"
    by (simp add: byte_bits_def bits del: upt_Suc)
  show "take_bit (n + 8) (w OR push_bit n (ucast b)) = w OR push_bit n (ucast b)"
  proof (rule bit_word_eqI)
    fix i
    show "bit (take_bit (n + 8) (w OR push_bit n (ucast b))) i = bit (w OR push_bit n (ucast b)) i"
      unfolding bit_take_bit_iff bits using bit_u8_less [of b "i - n"] by auto
  qed
qed

lemma inflate_fetch_spec:
  assumes "fetch_ok s" "count \<le> 16"
  shows "outcome (inflate_fetch s count)
    (\<lambda>e s'. e = V9X_INFLATE_TRUNCATED \<and> bit_step s s' \<and> length (bit_stream s) < count)
    (\<lambda>_ s'. fetch_ok s' \<and> bit_step s s' \<and> bit_stream s' = bit_stream s \<and> count \<le> bit_count s' \<and>
       bit_count s' \<le> max (bit_count s) (count + 7))"
  using assms
proof (induction s count rule: inflate_fetch.induct)
  case (1 s count)
  show ?case
  proof (cases "bit_count s < count")
    case False
    then show ?thesis using 1(2) by (subst inflate_fetch.simps) simp
  next
    case True
    show ?thesis
    proof (cases "input_length s \<le> input_position s")
      case empty: True
      then have "unread s = []" by (simp add: unread_def)
      then show ?thesis using empty True
        by (subst inflate_fetch.simps) (simp add: bit_stream_def)
    next
      case more: False
      then have rd: "rd (input_bytes s) (input_position s) =
          Some (input_bytes s ! input_position s)" (is "_ = Some ?b")
        using 1(2) by (simp add: fetch_ok_def rd_def)
      let ?s = "s\<lparr>bit_buffer := bit_buffer s OR push_bit (bit_count s) (ucast ?b),
                  input_position := input_position s + 1, bit_count := bit_count s + 8\<rparr>"
      have b: "bit_count s < 24" "take_bit (bit_count s) (bit_buffer s) = bit_buffer s"
        using 1(2) by (auto simp: fetch_ok_def)
      have ok: "fetch_ok ?s"
        using 1(2,3) True more fetch_byte_bits(2) [OF b, of ?b]
        by (simp add: fetch_ok_def)
      have "unread s = ?b # unread ?s"
        using 1(2) more
        by (simp add: unread_def fetch_ok_def Cons_nth_drop_Suc [symmetric] Suc_diff_Suc
            take_Suc_Cons [symmetric])
      then have stream: "bit_stream ?s = bit_stream s"
        unfolding bit_stream_def using fetch_byte_bits(1) [OF b, of ?b] by simp
      have step: "bit_step s ?s" by (simp add: bit_step_def)
      obtain t where t: "t = ?s" by simp
      have unfold: "inflate_fetch s count = inflate_fetch t count"
        using True more rd unfolding t by (subst inflate_fetch.simps) simp
      have "outcome (inflate_fetch t count)
          (\<lambda>e s'. e = V9X_INFLATE_TRUNCATED \<and> bit_step t s' \<and> length (bit_stream t) < count)
          (\<lambda>_ s'. fetch_ok s' \<and> bit_step t s' \<and> bit_stream s' = bit_stream t \<and>
             count \<le> bit_count s' \<and> bit_count s' \<le> max (bit_count t) (count + 7))"
        unfolding t by (rule 1(1)) (use True more rd ok 1(3) in auto)
      moreover have "bit_stream t = bit_stream s" "bit_step s t" "bit_count t \<le> count + 7"
        using stream step True unfolding t by simp_all
      ultimately show ?thesis
        unfolding unfold by (auto elim!: outcome_mono intro: bit_step_trans)
    qed
  qed
qed

lemma bits_value_map_bit: "bits_value (map (bit w) [0..<n]) = unat (take_bit n w)" for w :: u32
proof -
  have "bits_value (map (bit w) [0..<n]) = bits_value (map (bit (unat w)) [0..<n])"
    by (rule arg_cong [where f = bits_value]) (simp add: bit_unsigned_iff)
  also have "\<dots> = take_bit n (unat w)"
    unfolding bits_value_def by (rule horner_sum_bit_eq_take_bit)
  finally show ?thesis by (simp add: unsigned_take_bit_eq)
qed

lemma drop_append_le: "n \<le> length xs \<Longrightarrow> drop n xs @ ys = drop n (xs @ ys)"
  by simp

lemma map_bit_drop:
  "n \<le> m \<Longrightarrow> map (bit (drop_bit n w)) [0..<m - n] = drop n (map (bit w) [0..<m])" for w :: u32
  by (rule nth_equalityI) (auto simp: bit_simps)

theorem v9x_inflate_bits_spec:
  assumes "bits_ok s" "count \<le> 16"
  shows "outcome (v9x_inflate_bits s count)
    (\<lambda>e s'. e = V9X_INFLATE_TRUNCATED \<and> bit_step s s' \<and> length (bit_stream s) < count)
    (\<lambda>v s'. bits_ok s' \<and> bit_step s s' \<and> count \<le> length (bit_stream s) \<and>
       v = bits_value (take count (bit_stream s)) \<and> bit_stream s' = drop count (bit_stream s))"
  unfolding v9x_inflate_bits_def
proof (rule outcome_andthen [OF inflate_fetch_spec [OF bits_ok_fetch_ok [OF assms(1)] assms(2)]])
  fix u and t :: inflate_state
  assume t: "fetch_ok t \<and> bit_step s t \<and> bit_stream t = bit_stream s \<and> count \<le> bit_count t \<and>
     bit_count t \<le> max (bit_count s) (count + 7)"
  let ?t = "t\<lparr>bit_buffer := drop_bit count (bit_buffer t), bit_count := bit_count t - count\<rparr>"
  have "bit_count t - count < 8"
    using t assms(1) by (auto simp: bits_ok_def)
  moreover have "take_bit (bit_count t - count) (drop_bit count (bit_buffer t)) =
      drop_bit count (bit_buffer t)"
    using t by (simp add: fetch_ok_def take_bit_drop_bit)
  ultimately have ok: "bits_ok ?t" using t by (simp add: bits_ok_def fetch_ok_def)
  have "bit_step t ?t" by (simp add: bit_step_def)
  then have step: "bit_step s ?t" using t by (blast intro: bit_step_trans)
  have stream: "bit_stream t = map (bit (bit_buffer t)) [0..<bit_count t] @ bits_of_bytes (unread t)"
    by (simp add: bit_stream_def)
  have "unread ?t = unread t" by (simp add: unread_def)
  then have "bit_stream ?t =
      drop count (map (bit (bit_buffer t)) [0..<bit_count t]) @ bits_of_bytes (unread t)"
    using t by (simp add: bit_stream_def [of ?t] map_bit_drop)
  also have "\<dots> = drop count (bit_stream t)"
    unfolding stream using t by (metis (no_types) drop_append_le length_map length_upt minus_nat.diff_0)
  finally have "bit_stream ?t = drop count (bit_stream t)" .
  moreover have "take count (bit_stream t) = map (bit (bit_buffer t)) [0..<count]"
    unfolding stream using t by (simp add: take_map)
  moreover have "bit_buffer t AND (push_bit count 1 - 1) = take_bit count (bit_buffer t)"
    by (simp add: take_bit_eq_mask mask_eq_exp_minus_1 push_bit_eq_mult)
  moreover have "count \<le> bit_count t" using t by simp
  then have length_bit: "count \<le> length (bit_stream t)" by (simp add: stream)
  ultimately show "outcome (Some (?t, Inr (unat (bit_buffer t AND (push_bit count 1 - 1)))))
      (\<lambda>e s'. e = V9X_INFLATE_TRUNCATED \<and> bit_step s s' \<and> length (bit_stream s) < count)
      (\<lambda>v s'. bits_ok s' \<and> bit_step s s' \<and> count \<le> length (bit_stream s) \<and>
         v = bits_value (take count (bit_stream s)) \<and> bit_stream s' = drop count (bit_stream s))"
    using t ok step by (simp add: bits_value_map_bit length_bit)
qed

end
