(* ===== verification/InflateCode.thy ===== *)
theory InflateCode
  imports InflateBits
begin

section \<open>Canonical Huffman codes\<close>

text \<open>
  What \<open>v9x_inflate_build\<close> and \<open>v9x_inflate_decode\<close> promise together: the tables built from a
  list of code lengths decode exactly the canonical code of RFC 1951 3.2.2. The code is defined here
  from the lengths alone: \<open>code_end ls l\<close> is the number after the last code of length \<open>l\<close>,
  \<open>first_code ls l\<close> is the first code of length \<open>l\<close>, and a symbol's code
  word is the first one of its length plus the number of smaller symbols of that length.
\<close>

definition first_slot :: "nat list \<Rightarrow> nat \<Rightarrow> nat" where
  "first_slot ls l = length (filter (\<lambda>x. 0 < x \<and> x < l) ls)"

definition rank_of :: "nat list \<Rightarrow> nat \<Rightarrow> nat" where
  "rank_of ls symbol = count_list (take symbol ls) (ls ! symbol)"

definition slot_of :: "nat list \<Rightarrow> nat \<Rightarrow> nat" where
  "slot_of ls symbol = first_slot ls (ls ! symbol) + rank_of ls symbol"

fun code_end :: "nat list \<Rightarrow> nat \<Rightarrow> nat" where
  "code_end ls 0 = 0"
| "code_end ls (Suc l) = 2 * code_end ls l + count_list ls (Suc l)"

definition first_code :: "nat list \<Rightarrow> nat \<Rightarrow> nat" where
  "first_code ls l = (if l = 0 then 0 else 2 * code_end ls (l - 1))"

definition code_word :: "nat list \<Rightarrow> nat \<Rightarrow> nat" where
  "code_word ls symbol = first_code ls (ls ! symbol) + rank_of ls symbol"

text \<open>The bits of a code word, most significant first.\<close>

definition code_bits :: "nat list \<Rightarrow> nat \<Rightarrow> bool list" where
  "code_bits ls symbol = rev (map (bit (code_word ls symbol)) [0..<ls ! symbol])"

text \<open>The Kraft condition: no length runs out of code space.\<close>

definition kraft :: "nat list \<Rightarrow> bool" where
  "kraft ls \<longleftrightarrow> (\<forall>l\<in>{1..15}. code_end ls l \<le> 2 ^ l)"

subsection \<open>The counts\<close>

lemma count_list_take_less:
  "k < length ls \<Longrightarrow> ls ! k = l \<Longrightarrow> count_list (take k ls) l < count_list ls l"
  using arg_cong [OF id_take_nth_drop [of k ls], of "\<lambda>xs. count_list xs l"] by simp

lemma first_slot_Suc: "0 < l \<Longrightarrow> first_slot ls (Suc l) = first_slot ls l + count_list ls l"
  unfolding first_slot_def by (induction ls) (auto simp: less_Suc_eq)

lemma first_slot_1 [simp]: "first_slot ls (Suc 0) = 0"
  by (auto simp: first_slot_def filter_empty_conv)

lemma first_slot_mono: "l \<le> m \<Longrightarrow> first_slot ls l \<le> first_slot ls m"
  unfolding first_slot_def by (induction ls) auto

lemma first_slot_le: "first_slot ls l \<le> length ls"
  by (simp add: first_slot_def)

lemma slot_less:
  assumes "k < length ls" "ls ! k = l" "0 < l"
  shows "slot_of ls k < first_slot ls (Suc l)"
  using count_list_take_less [OF assms(1,2)] assms
  by (simp add: slot_of_def rank_of_def first_slot_Suc)

lemma slot_less_length:
  assumes "k < length ls" "0 < ls ! k"
  shows "slot_of ls k < length ls"
  using slot_less [OF assms(1) refl assms(2)] first_slot_le [of ls "Suc (ls ! k)"] by simp

lemma count_list_take_mono:
  assumes "j < k" "k \<le> length ls" "ls ! j = l"
  shows "count_list (take j ls) l < count_list (take k ls) l"
  using count_list_take_less [of j "take k ls" l] assms by (simp add: min_def)

lemma slot_inj:
  assumes "j < length ls" "k < length ls" "0 < ls ! j" "0 < ls ! k" "slot_of ls j = slot_of ls k"
  shows "j = k"
proof -
  have le: "ls ! a \<ge> ls ! b"
    if ab: "a < length ls" "b < length ls" "0 < ls ! a" "0 < ls ! b" "slot_of ls a = slot_of ls b"
    for a b
  proof (rule ccontr)
    assume "\<not> ls ! b \<le> ls ! a"
    then have "first_slot ls (Suc (ls ! a)) \<le> first_slot ls (ls ! b)" by (intro first_slot_mono) simp
    with slot_less [OF ab(1) refl ab(3)] have "slot_of ls a < slot_of ls b"
      by (simp add: slot_of_def)
    with ab(5) show False by simp
  qed
  have eq: "ls ! j = ls ! k"
    using le [of j k] le [of k j] assms by simp
  have lt: False if ab: "a < b" "b < length ls" "ls ! a = ls ! b" "slot_of ls a = slot_of ls b" for a b
    using count_list_take_mono [of a b ls "ls ! b"] ab by (simp add: slot_of_def rank_of_def)
  show ?thesis
    using lt [of j k] lt [of k j] eq assms by (cases j k rule: linorder_cases) auto
qed

lemma build_count_spec:
  "length count = 16 \<Longrightarrow>
   (\<forall>x \<in> set ls. x \<le> 15) \<longrightarrow>
     build_count count ls = (map (\<lambda>l. count ! l + count_list ls l) [0..<16], True)"
proof (induction ls arbitrary: count)
  case Nil
  then show ?case by (auto intro!: nth_equalityI)
next
  case (Cons x ls)
  show ?case
  proof (intro impI)
    assume "\<forall>x \<in> set (x # ls). x \<le> 15"
    then show "build_count count (x # ls) =
        (map (\<lambda>l. count ! l + count_list (x # ls) l) [0..<16], True)"
      using Cons by (auto simp: V9X_INFLATE_MAX_BITS_def nth_list_update)
  qed
qed

lemma build_count_bad: "\<not> (\<forall>x \<in> set ls. x \<le> 15) \<Longrightarrow> \<not> snd (build_count count ls)"
  by (induction ls arbitrary: count) (auto simp: V9X_INFLATE_MAX_BITS_def)

lemma length_build_count [simp]: "length (fst (build_count count ls)) = length count"
  by (induction ls arbitrary: count) auto

subsection \<open>The Kraft sum\<close>

lemma build_left_iff:
  assumes "\<forall>l\<in>{Suc b..<Suc b + n}. count ! l = count_list ls l"
  shows "build_left count (2 ^ b - int (code_end ls b)) [Suc b..<Suc b + n] =
    (if \<forall>l\<in>{Suc b..<Suc b + n}. code_end ls l \<le> 2 ^ l
     then Some (2 ^ (b + n) - int (code_end ls (b + n))) else None)"
  using assms
proof (induction n arbitrary: b)
  case 0
  then show ?case by simp
next
  case (Suc n)
  have upt: "[Suc b..<Suc b + Suc n] = Suc b # [Suc (Suc b)..<Suc (Suc b) + n]"
    using upt_conv_Cons [of "Suc b" "Suc b + Suc n"] by (simp del: upt_Suc)
  have "{Suc b..<Suc b + Suc n} = insert (Suc b) {Suc (Suc b)..<Suc (Suc b) + n}" by auto
  then have ball: "(\<forall>l\<in>{Suc b..<Suc b + Suc n}. P l) \<longleftrightarrow> P (Suc b) \<and> (\<forall>l\<in>{Suc (Suc b)..<Suc (Suc b) + n}. P l)"
    for P by simp
  have left: "(2 ^ b - int (code_end ls b)) * 2 - int (count ! Suc b) =
      2 ^ Suc b - int (code_end ls (Suc b))"
    using Suc.prems by simp
  have neg: "2 ^ Suc b - int (code_end ls (Suc b)) < 0 \<longleftrightarrow> \<not> code_end ls (Suc b) \<le> 2 ^ Suc b"
    using of_nat_less_iff [of "2 ^ Suc b" "code_end ls (Suc b)", where 'a = int]
    by (simp add: not_le del: power_Suc code_end.simps)
  have IH: "build_left count (2 ^ Suc b - int (code_end ls (Suc b))) [Suc (Suc b)..<Suc (Suc b) + n] =
    (if \<forall>l\<in>{Suc (Suc b)..<Suc (Suc b) + n}. code_end ls l \<le> 2 ^ l
     then Some (2 ^ (Suc b + n) - int (code_end ls (Suc b + n))) else None)"
    by (rule Suc.IH) (use Suc.prems in auto)
  show ?case
    unfolding upt ball build_left.simps Let_def left neg IH by simp
qed

lemma build_left_kraft:
  assumes "\<forall>l\<in>{1..15}. count ! l = count_list ls l"
  shows "build_left count 1 [1..<16] =
    (if kraft ls then Some (2 ^ 15 - int (code_end ls 15)) else None)"
proof -
  have "{Suc 0..<Suc 0 + 15} = {1..15::nat}" "[Suc 0..<Suc 0 + 15] = [1..<16]" by auto
  then show ?thesis
    using build_left_iff [of 0 15 count ls] assms by (simp only: kraft_def) simp
qed

subsection \<open>The symbols in code order\<close>

lemma build_offsets_spec:
  assumes "length offset = 16" "0 < a" "a + n \<le> 15"
    "\<forall>l\<in>{a..<a + n}. count ! l = count_list ls l" "\<forall>l\<in>{1..a}. offset ! l = first_slot ls l"
  shows "length (build_offsets count offset [a..<a + n]) = 16 \<and>
    (\<forall>l\<in>{1..a + n}. build_offsets count offset [a..<a + n] ! l = first_slot ls l)"
  using assms
proof (induction n arbitrary: a offset)
  case 0
  then show ?case by simp
next
  case (Suc n)
  have upt: "[a..<a + Suc n] = a # [Suc a..<Suc a + n]" by (simp add: upt_conv_Cons)
  let ?o = "offset[a + 1 := offset ! a + count ! a]"
  have "length (build_offsets count ?o [Suc a..<Suc a + n]) = 16 \<and>
    (\<forall>l\<in>{1..Suc a + n}. build_offsets count ?o [Suc a..<Suc a + n] ! l = first_slot ls l)"
    by (rule Suc.IH) (use Suc.prems in \<open>auto simp: nth_list_update first_slot_Suc\<close>)
  then show ?case unfolding upt build_offsets.simps by simp
qed

definition slots_ok :: "nat list \<Rightarrow> nat \<Rightarrow> nat list \<Rightarrow> bool" where
  "slots_ok ls k table \<longleftrightarrow> (\<forall>j<k. 0 < ls ! j \<longrightarrow> table ! slot_of ls j = j)"

lemma build_symbols_spec:
  assumes "pre @ suf = ls" "length ls \<le> length table" "\<forall>x\<in>set ls. x \<le> 15" "length offset = 16"
    "\<forall>l\<in>{1..15}. offset ! l = first_slot ls l + count_list pre l" "slots_ok ls (length pre) table"
  shows "\<exists>table'. build_symbols table offset (length pre) suf = Some table' \<and>
    length table' = length table \<and> slots_ok ls (length ls) table'"
  using assms
proof (induction suf arbitrary: pre table offset)
  case Nil
  then show ?case by simp
next
  case (Cons x suf)
  have pre: "(pre @ [x]) @ suf = ls" and x: "ls ! length pre = x" "length pre < length ls"
    using Cons.prems(1) by (auto simp: nth_append)
  have IH: "\<exists>table''. build_symbols table' offset' (length (pre @ [x])) suf = Some table'' \<and>
      length table'' = length table' \<and> slots_ok ls (length ls) table''"
    if "length ls \<le> length table'" "length offset' = 16"
      "\<forall>l\<in>{1..15}. offset' ! l = first_slot ls l + count_list (pre @ [x]) l"
      "slots_ok ls (length (pre @ [x])) table'" for table' offset'
    using Cons.IH [OF pre that(1) Cons.prems(3) that(2-4)] .
  show ?case
  proof (cases "x = 0")
    case True
    have "slots_ok ls (length (pre @ [x])) table"
      using Cons.prems(6) True x by (auto simp: slots_ok_def less_Suc_eq)
    then have "\<exists>table''. build_symbols table offset (length (pre @ [x])) suf = Some table'' \<and>
        length table'' = length table \<and> slots_ok ls (length ls) table''"
      by (intro IH) (use Cons.prems True in auto)
    then show ?thesis using True by simp
  next
    case False
    have le: "x \<le> 15" using Cons.prems(1,3) by auto
    have take: "take (length pre) ls = pre" using Cons.prems(1) by auto
    have slot: "offset ! x = slot_of ls (length pre)"
      using Cons.prems(5) False le x by (simp add: slot_of_def rank_of_def take)
    have room: "slot_of ls (length pre) < length table"
      using slot_less_length [OF x(2)] x(1) False Cons.prems(2) by simp
    let ?t = "table[slot_of ls (length pre) := length pre]"
    let ?o = "offset[x := offset ! x + 1]"
    have other: "slot_of ls (length pre) \<noteq> slot_of ls j" if "j < length pre" "0 < ls ! j" for j
      using slot_inj [of "length pre" ls j] that x False by auto
    have "slots_ok ls (length (pre @ [x])) ?t"
      using Cons.prems(6) other room by (auto simp: slots_ok_def less_Suc_eq)
    moreover have "\<forall>l\<in>{1..15}. ?o ! l = first_slot ls l + count_list (pre @ [x]) l"
      using Cons.prems(4,5) by (auto simp: nth_list_update)
    ultimately have "\<exists>table''. build_symbols ?t ?o (length (pre @ [x])) suf = Some table'' \<and>
        length table'' = length ?t \<and> slots_ok ls (length ls) table''"
      by (intro IH) (use Cons.prems in simp_all)
    then show ?thesis using False slot room by (simp add: wr_Some)
  qed
qed

subsection \<open>Building\<close>

text \<open>The sets of lengths the code accepts: no length above 15, no length out of code space, and
  nothing of the code space left over, but for the distance code of one or no symbol that RFC 1951
  allows.\<close>

definition valid_lengths :: "bool \<Rightarrow> nat list \<Rightarrow> bool" where
  "valid_lengths allow_single ls \<longleftrightarrow>
     (\<forall>x\<in>set ls. x \<le> 15) \<and> kraft ls \<and>
     (code_end ls 15 = 2 ^ 15 \<or>
      allow_single \<and> (count_list ls 0 = length ls \<or>
        Suc (count_list ls 0) = length ls \<and> count_list ls 1 = 1))"

definition coded :: "inflate_code \<Rightarrow> nat list \<Rightarrow> bool" where
  "coded code ls \<longleftrightarrow>
     length (csymbol code) = 288 \<and> length (ccount code) = 16 \<and> length ls \<le> 288 \<and>
     (\<forall>l\<in>{1..15}. ccount code ! l = count_list ls l) \<and> kraft ls \<and>
     (\<forall>x\<in>set ls. x \<le> 15) \<and> slots_ok ls (length ls) (csymbol code)"

lemma count_list_le_length: "count_list ls x \<le> length ls"
  by (induction ls) auto

lemma if_not_cond: "(if \<not> c then x else y) = (if c then y else x)"
  by simp

lemma v9x_inflate_build_spec:
  assumes "length (csymbol code) = 288" "symbols \<le> 288" "symbols \<le> length lens"
  shows "outcome (v9x_inflate_build code lens symbols allow_single)
    (\<lambda>e c. e = V9X_INFLATE_BAD_LENGTHS \<and> \<not> valid_lengths allow_single (take symbols lens) \<and>
       length (csymbol c) = 288)
    (\<lambda>_ c. valid_lengths allow_single (take symbols lens) \<and> coded c (take symbols lens))"
proof -
  let ?ls = "take symbols lens"
  have rds: "rds lens 0 symbols = Some ?ls" using assms(3) by (simp add: rds_Some)
  have len: "length ?ls = symbols" using assms(3) by simp
  obtain count counted where bc: "build_count (replicate 16 0) ?ls = (count, counted)"
    by (cases "build_count (replicate 16 0) ?ls")
  show ?thesis
  proof (cases "\<forall>x\<in>set ?ls. x \<le> 15")
    case False
    then have "\<not> counted" using build_count_bad [of ?ls "replicate 16 0"] bc by simp
    then show ?thesis
      using False assms(1) by (simp add: v9x_inflate_build_def rds bc valid_lengths_def)
  next
    case small: True
    then have count: "count = map (count_list ?ls) [0..<16]" and counted: "counted = True"
      using build_count_spec [of "replicate 16 0" ?ls] bc by auto
    have nth: "count ! l = count_list ?ls l" if "l < 16" for l
      using that unfolding count by simp
    have left: "build_left count 1 [Suc 0..<Suc V9X_INFLATE_MAX_BITS] =
        (if kraft ?ls then Some (2 ^ 15 - int (code_end ?ls 15)) else None)"
      unfolding V9X_INFLATE_MAX_BITS_def using build_left_kraft [of count ?ls] nth by simp
    show ?thesis
    proof (cases "kraft ?ls")
      case False
      then show ?thesis
        using counted assms(1)
        by (simp add: v9x_inflate_build_def rds bc left valid_lengths_def del: upt_Suc)
    next
      case True
      then have le: "code_end ?ls 15 \<le> 2 ^ 15" unfolding kraft_def by (rule bspec) simp
      have pos: "(2::int) ^ 15 - int (code_end ?ls 15) > 0 \<longleftrightarrow> code_end ?ls 15 \<noteq> 2 ^ 15"
        using le by simp linarith
      have zero: "count_list ?ls 0 \<le> symbols" using count_list_le_length [of ?ls 0] len by simp
      have valid: "valid_lengths allow_single ?ls \<longleftrightarrow>
          \<not> ((2::int) ^ 15 - int (code_end ?ls 15) > 0 \<and>
             (\<not> allow_single \<or> symbols - count_list ?ls 0 > 1 \<or>
              symbols - count_list ?ls 0 = 1 \<and> count_list ?ls 1 \<noteq> 1))"
        unfolding pos valid_lengths_def len using True small zero by auto
      let ?o = "build_offsets count (replicate 16 0) [Suc 0..<V9X_INFLATE_MAX_BITS]"
      have "length (build_offsets count (replicate 16 0) [1..<1 + 14]) = 16 \<and>
          (\<forall>l\<in>{1..1 + 14}. build_offsets count (replicate 16 0) [1..<1 + 14] ! l = first_slot ?ls l)"
        by (rule build_offsets_spec) (auto simp: nth)
      then have "length ?o = 16" "\<forall>l\<in>{1..15}. ?o ! l = first_slot ?ls l + count_list [] l"
        by (simp_all add: V9X_INFLATE_MAX_BITS_def)
      then obtain table where table: "build_symbols (csymbol code) ?o 0 ?ls = Some table"
        "length table = 288" "slots_ok ?ls (length ?ls) table"
        using build_symbols_spec [of "[]" ?ls ?ls "csymbol code" ?o] assms small
        by (auto simp: slots_ok_def)
      have sym: "csymbol (code\<lparr>ccount := count\<rparr>) = csymbol code" by simp
      have nth01: "count ! 0 = count_list ?ls 0" "count ! 1 = count_list ?ls 1"
        by (simp_all add: nth)
      have lists: "[1..<V9X_INFLATE_MAX_BITS + 1] = [Suc 0..<Suc V9X_INFLATE_MAX_BITS]"
        "[1..<V9X_INFLATE_MAX_BITS] = [Suc 0..<V9X_INFLATE_MAX_BITS]" by simp_all
      have "v9x_inflate_build code lens symbols allow_single =
          (if valid_lengths allow_single ?ls
           then Some (code\<lparr>ccount := count, csymbol := table\<rparr>, Inr ())
           else Some (code\<lparr>ccount := count\<rparr>, Inl V9X_INFLATE_BAD_LENGTHS))"
        unfolding v9x_inflate_build_def lists rds
        by (simp only: bc counted left True table nth01 valid Option.bind.bind_lunit Let_def
            prod.case if_True if_False not_True_eq_False not_not option.case sym
            if_not_cond)
      moreover have "coded (code\<lparr>ccount := count, csymbol := table\<rparr>) ?ls"
        using table assms(1,2) True small len nth by (simp add: coded_def count)
      ultimately show ?thesis using assms(1) by simp
    qed
  qed
qed

subsection \<open>Decoding\<close>

lemma bits_value_bits: "map (bit (bits_value bs)) [0..<length bs] = bs"
proof (induction bs)
  case (Cons b bs)
  have "bit (of_bool b + 2 * bits_value bs) (Suc i) = bit (bits_value bs) i" for i
    by (cases b) (simp_all add: bit_Suc)
  moreover have "bit (of_bool b + 2 * bits_value bs) 0 = b" by (cases b) (simp_all add: bit_0)
  ultimately show ?case
    using Cons by (simp add: upt_conv_Cons map_Suc_upt [symmetric] comp_def del: upt_Suc)
qed simp

lemma bits_value_of_bits: "bits_value (map (bit n) [0..<l]) = take_bit l n"
  unfolding bits_value_def by (rule horner_sum_bit_eq_take_bit)

lemma length_code_bits [simp]: "length (code_bits ls k) = ls ! k"
  by (simp add: code_bits_def)

lemma rank_less: "k < length ls \<Longrightarrow> rank_of ls k < count_list ls (ls ! k)"
  unfolding rank_of_def by (rule count_list_take_less) auto

lemma code_end_split: "0 < l \<Longrightarrow> code_end ls l = first_code ls l + count_list ls l"
  by (cases l) (simp_all add: first_code_def)

lemma code_word_less:
  assumes "k < length ls" "0 < ls ! k"
  shows "code_word ls k < code_end ls (ls ! k)"
  using rank_less [OF assms(1)] assms by (simp add: code_word_def code_end_split)

lemma code_end_double: "code_end ls j * 2 ^ d \<le> code_end ls (j + d)"
  by (induction d) auto

lemma code_word_not_before:
  assumes "j < ls ! k"
  shows "code_end ls j \<le> code_word ls k div 2 ^ (ls ! k - j)"
proof -
  let ?d = "ls ! k - 1 - j"
  have "code_end ls j * 2 ^ ?d \<le> code_end ls (ls ! k - 1)"
    using code_end_double [of ls j ?d] assms by simp
  then have "code_end ls j * 2 ^ ?d * 2 \<le> code_word ls k"
    using assms by (simp add: code_word_def first_code_def)
  moreover have "ls ! k - j = Suc ?d" using assms by simp
  ultimately have "code_end ls j * 2 ^ (ls ! k - j) \<le> code_word ls k" by (simp add: mult.assoc)
  then show ?thesis by (simp add: less_eq_div_iff_mult_less_eq)
qed

lemma rank_surj:
  "r < count_list ls l \<Longrightarrow> \<exists>k<length ls. ls ! k = l \<and> rank_of ls k = r"
proof (induction ls rule: rev_induct)
  case (snoc x ls)
  show ?case
  proof (cases "r < count_list ls l")
    case True
    then obtain k where "k < length ls" "ls ! k = l" "rank_of ls k = r" using snoc.IH by blast
    then show ?thesis by (intro exI [of _ k]) (simp add: rank_of_def nth_append)
  next
    case False
    with snoc.prems have "x = l" "r = count_list ls l" by (auto split: if_splits)
    then show ?thesis by (intro exI [of _ "length ls"]) (simp add: rank_of_def)
  qed
qed simp

text \<open>What the walk has seen after \<open>j\<close> bits: \<open>bs\<close> are those bits, and as a number they
  lie past every code of their length.\<close>

lemma or_bit: "2 * int x OR int (of_bool b) = int (of_bool b + 2 * x)"
  by (cases b) (simp_all add: or_one_eq)

lemma take_1_bits_value: "1 \<le> length bs \<Longrightarrow> bits_value (take 1 bs) = of_bool (hd bs)"
  by (cases bs) simp_all

lemma code_bits_iff:
  assumes "length bs = ls ! k" "code_word ls k < 2 ^ (ls ! k)"
  shows "bs = code_bits ls k \<longleftrightarrow> bits_value (rev bs) = code_word ls k"
proof
  assume "bs = code_bits ls k"
  then show "bits_value (rev bs) = code_word ls k"
    using assms(2) by (simp add: code_bits_def bits_value_of_bits take_bit_nat_eq_self)
next
  assume "bits_value (rev bs) = code_word ls k"
  then have "rev (code_bits ls k) = map (bit (bits_value (rev bs))) [0..<length (rev bs)]"
    using assms(1) by (simp add: code_bits_def)
  then have "rev (code_bits ls k) = rev bs" unfolding bits_value_bits .
  then show "bs = code_bits ls k" by simp
qed

lemma codedD:
  assumes "coded code ls" "k < length ls" "0 < ls ! k"
  shows "ls ! k \<le> 15" "code_word ls k < 2 ^ (ls ! k)" "slot_of ls k < 288"
    "csymbol code ! slot_of ls k = k"
proof -
  show le: "ls ! k \<le> 15" using assms by (simp add: coded_def)
  have "code_end ls (ls ! k) \<le> 2 ^ (ls ! k)"
    using assms le by (simp add: coded_def kraft_def)
  with code_word_less [OF assms(2,3)] show "code_word ls k < 2 ^ (ls ! k)" by simp
  show "slot_of ls k < 288" using slot_less_length [OF assms(2,3)] assms(1) by (simp add: coded_def)
  show "csymbol code ! slot_of ls k = k" using assms by (simp add: coded_def slots_ok_def)
qed

lemma decode_walk_sound:
  assumes "coded code ls" "bits_ok s" "j + n = 15" "length bs = j"
    "code_end ls j \<le> bits_value (rev bs)"
  shows "outcome (decode_walk code s [Suc j..<Suc j + n] (2 * int (bits_value (rev bs)))
      (int (first_code ls (Suc j))) (first_slot ls (Suc j)))
    (\<lambda>e s'. bit_step s s' \<and> e \<in> {V9X_INFLATE_TRUNCATED, V9X_INFLATE_BAD_CODE})
    (\<lambda>symbol s'. bits_ok s' \<and> bit_step s s' \<and> symbol < length ls \<and> 0 < ls ! symbol \<and>
       bs @ bit_stream s = code_bits ls symbol @ bit_stream s')"
  using assms(2-5)
proof (induction n arbitrary: s j bs)
  case 0
  then show ?case by simp
next
  case (Suc n)
  have upt: "[Suc j..<Suc j + Suc n] = Suc j # [Suc (Suc j)..<Suc (Suc j) + n]"
    using upt_conv_Cons [of "Suc j" "Suc j + Suc n"] by (simp del: upt_Suc)
  have cnt: "ccount code ! Suc j = count_list ls (Suc j)"
    using assms(1) Suc.prems(2) by (auto simp: coded_def)
  show ?case
    unfolding upt decode_walk.simps Let_def cnt
  proof (rule outcome_andthen [OF outcome_mono [OF v9x_inflate_bits_spec [OF Suc.prems(1), of 1]]])
    fix v s1
    assume "bits_ok s1 \<and> bit_step s s1 \<and> 1 \<le> length (bit_stream s) \<and>
       v = bits_value (take 1 (bit_stream s)) \<and> bit_stream s1 = drop 1 (bit_stream s)"
    then have s1: "bits_ok s1" "bit_step s s1"
      and ne: "1 \<le> length (bit_stream s)" and v: "v = of_bool (hd (bit_stream s))"
      and rest: "bit_stream s1 = drop 1 (bit_stream s)"
      using take_1_bits_value by auto
    define b where "b = hd (bit_stream s)"
    have stream: "bit_stream s = b # bit_stream s1"
      using ne unfolding rest b_def by (cases "bit_stream s") simp_all
    let ?x = "bits_value (rev (bs @ [b]))"
    have x: "2 * int (bits_value (rev bs)) OR int v = int ?x"
      unfolding v b_def [symmetric] or_bit by simp
    have len: "length (bs @ [b]) = Suc j" using Suc.prems(3) by simp
    have ge: "first_code ls (Suc j) \<le> ?x"
      using Suc.prems(4) by (simp add: first_code_def)
    have nat: "nat (int ?x - int (first_code ls (Suc j))) = ?x - first_code ls (Suc j)"
      by (simp only: of_nat_diff [OF ge, symmetric] nat_int)
    show "outcome
      (if int (first_code ls (Suc j)) \<le> (2 * int (bits_value (rev bs)) OR int v) \<and>
          (2 * int (bits_value (rev bs)) OR int v) - int (first_code ls (Suc j))
            < int (count_list ls (Suc j))
       then do {
         symbol \<leftarrow> rd (csymbol code) (first_slot ls (Suc j) +
           nat ((2 * int (bits_value (rev bs)) OR int v) - int (first_code ls (Suc j))));
         Some (s1, Inr symbol) }
       else decode_walk code s1 [Suc (Suc j)..<Suc (Suc j) + n]
         ((2 * int (bits_value (rev bs)) OR int v) * 2)
         ((int (first_code ls (Suc j)) + int (count_list ls (Suc j))) * 2)
         (first_slot ls (Suc j) + nat (int (count_list ls (Suc j)))))
      (\<lambda>e s'. bit_step s s' \<and> e \<in> {V9X_INFLATE_TRUNCATED, V9X_INFLATE_BAD_CODE})
      (\<lambda>symbol s'. bits_ok s' \<and> bit_step s s' \<and> symbol < length ls \<and> 0 < ls ! symbol \<and>
         bs @ bit_stream s = code_bits ls symbol @ bit_stream s')"
    proof (cases "?x - first_code ls (Suc j) < count_list ls (Suc j)")
      case True
      then obtain k where k: "k < length ls" "ls ! k = Suc j"
          "rank_of ls k = ?x - first_code ls (Suc j)"
        using rank_surj by blast
      have pos: "0 < ls ! k" using k by simp
      have slot: "first_slot ls (Suc j) + (?x - first_code ls (Suc j)) = slot_of ls k"
        using k by (simp add: slot_of_def)
      have "code_word ls k = ?x" using k ge by (simp add: code_word_def)
      then have "bs @ [b] = code_bits ls k"
        using code_bits_iff [of "bs @ [b]" ls k] codedD(2) [OF assms(1) k(1) pos] k len by simp
      then have "bs @ bit_stream s = code_bits ls k @ bit_stream s1"
        unfolding stream by (metis append.assoc append_Cons append_Nil)
      moreover have "rd (csymbol code) (slot_of ls k) = Some k"
        using codedD(3,4) [OF assms(1) k(1) pos] assms(1) by (simp add: rd_def coded_def)
      moreover have "int (first_code ls (Suc j)) \<le> int ?x"
        "int ?x - int (first_code ls (Suc j)) < int (count_list ls (Suc j))"
        using ge True by linarith+
      ultimately show ?thesis
        unfolding x nat slot using s1 k pos by (subst if_P) (auto simp del: rev_append)
    next
      case False
      have next_first: "(int (first_code ls (Suc j)) + int (count_list ls (Suc j))) * 2 =
          int (first_code ls (Suc (Suc j)))"
        using code_end_split [of "Suc j" ls] by (simp add: first_code_def)
      have next_slot: "first_slot ls (Suc j) + nat (int (count_list ls (Suc j))) =
          first_slot ls (Suc (Suc j))"
        by (simp add: first_slot_Suc)
      have "code_end ls (Suc j) \<le> ?x"
        using False ge code_end_split [of "Suc j" ls] by simp
      then have "outcome (decode_walk code s1 [Suc (Suc j)..<Suc (Suc j) + n]
          (2 * int ?x) (int (first_code ls (Suc (Suc j)))) (first_slot ls (Suc (Suc j))))
        (\<lambda>e s'. bit_step s1 s' \<and> e \<in> {V9X_INFLATE_TRUNCATED, V9X_INFLATE_BAD_CODE})
        (\<lambda>symbol s'. bits_ok s' \<and> bit_step s1 s' \<and> symbol < length ls \<and> 0 < ls ! symbol \<and>
           (bs @ [b]) @ bit_stream s1 = code_bits ls symbol @ bit_stream s')"
        by (intro Suc.IH) (use s1 Suc.prems(2) len in auto)
      then show ?thesis
        unfolding x next_first next_slot mult.commute [of "int ?x" 2] stream
        using False ge s1(2) by (auto elim!: outcome_mono intro: bit_step_trans)
    qed
  qed auto
qed

theorem v9x_inflate_decode_spec:
  assumes "coded code ls" "bits_ok s"
  shows "outcome (v9x_inflate_decode s code)
    (\<lambda>e s'. bit_step s s' \<and> e \<in> {V9X_INFLATE_TRUNCATED, V9X_INFLATE_BAD_CODE})
    (\<lambda>symbol s'. bits_ok s' \<and> bit_step s s' \<and> symbol < length ls \<and> 0 < ls ! symbol \<and>
       bit_stream s = code_bits ls symbol @ bit_stream s')"
  using decode_walk_sound [OF assms, of 0 15 "[]"]
  by (simp add: v9x_inflate_decode_def V9X_INFLATE_MAX_BITS_def first_code_def del: upt_Suc)

text \<open>Conversely the code word of a symbol, read from the stream, gives the symbol.\<close>

lemma v9x_inflate_bits_ok:
  assumes "bits_ok s" "count \<le> 16" "bit_stream s = bs @ rest" "length bs = count"
  obtains s' where "v9x_inflate_bits s count = Some (s', Inr (bits_value bs))" "bits_ok s'"
    "bit_step s s'" "bit_stream s' = rest"
  using outcome_cases [OF v9x_inflate_bits_spec [OF assms(1,2)]] assms(3,4) by (metis (no_types, lifting)
      append_eq_conv_conj length_append not_add_less1)

lemma take_code_bits:
  assumes "j \<le> ls ! k" "code_word ls k < 2 ^ (ls ! k)"
  shows "bits_value (rev (take j (code_bits ls k))) = code_word ls k div 2 ^ (ls ! k - j)"
proof -
  let ?M = "map (bit (code_word ls k)) [0..<ls ! k]"
  have "rev (take j (code_bits ls k)) = drop (ls ! k - j) ?M"
    unfolding code_bits_def by (simp add: take_rev)
  also have "\<dots> = map (bit (drop_bit (ls ! k - j) (code_word ls k))) [0..<j]"
    by (rule nth_equalityI) (use assms(1) in \<open>auto simp: bit_drop_bit_eq add.commute\<close>)
  finally have "bits_value (rev (take j (code_bits ls k))) =
      take_bit j (code_word ls k div 2 ^ (ls ! k - j))"
    by (simp only: bits_value_of_bits drop_bit_eq_div)
  also have "\<dots> = code_word ls k div 2 ^ (ls ! k - j)"
    by (rule take_bit_nat_eq_self) (use assms in \<open>simp add: less_mult_imp_div_less power_add [symmetric]\<close>)
  finally show ?thesis .
qed

lemma decode_walk_complete:
  assumes "coded code ls" "k < length ls" "0 < ls ! k" "bits_ok s" "j + n = 15" "length bs = j"
    "j < ls ! k" "bs @ bit_stream s = code_bits ls k @ rest"
  shows "\<exists>s'. decode_walk code s [Suc j..<Suc j + n] (2 * int (bits_value (rev bs)))
      (int (first_code ls (Suc j))) (first_slot ls (Suc j)) = Some (s', Inr k) \<and>
    bits_ok s' \<and> bit_step s s' \<and> bit_stream s' = rest"
  using assms(4-8)
proof (induction n arbitrary: s j bs)
  case 0
  then show ?case using codedD(1) [OF assms(1-3)] by simp
next
  case (Suc n)
  have upt: "[Suc j..<Suc j + Suc n] = Suc j # [Suc (Suc j)..<Suc (Suc j) + n]"
    using upt_conv_Cons [of "Suc j" "Suc j + Suc n"] by (simp del: upt_Suc)
  have cnt: "ccount code ! Suc j = count_list ls (Suc j)"
    using assms(1) Suc.prems(2) by (auto simp: coded_def)
  define b where "b = code_bits ls k ! j"
  have bs: "bs = take j (code_bits ls k)"
    using arg_cong [OF Suc.prems(5), of "take j"] Suc.prems(3,4) by simp
  have bsb: "bs @ [b] = take (Suc j) (code_bits ls k)"
    unfolding bs b_def using Suc.prems(4) by (simp add: take_Suc_conv_app_nth)
  have "bit_stream s = drop j (code_bits ls k) @ rest"
    using arg_cong [OF Suc.prems(5), of "drop j"] Suc.prems(3,4) by simp
  then have stream: "bit_stream s = [b] @ drop (Suc j) (code_bits ls k) @ rest"
    unfolding b_def using Suc.prems(4) by (simp add: Cons_nth_drop_Suc)
  obtain s1 where s1: "v9x_inflate_bits s 1 = Some (s1, Inr (bits_value [b]))" "bits_ok s1"
      "bit_step s s1" "bit_stream s1 = drop (Suc j) (code_bits ls k) @ rest"
    by (rule v9x_inflate_bits_ok [OF Suc.prems(1) _ stream]) auto
  let ?x = "bits_value (rev (bs @ [b]))"
  have x: "2 * int (bits_value (rev bs)) OR int (bits_value [b]) = int ?x"
    using or_bit [of "bits_value (rev bs)" b] by simp
  have cw: "code_word ls k < 2 ^ (ls ! k)" by (rule codedD(2) [OF assms(1-3)])
  have val: "?x = code_word ls k div 2 ^ (ls ! k - Suc j)"
    unfolding bsb by (rule take_code_bits) (use Suc.prems(4) cw in auto)
  show ?case
  proof (cases "Suc j = ls ! k")
    case True
    then have eq: "?x = code_word ls k" using val by simp
    have r: "rank_of ls k < count_list ls (Suc j)" using rank_less [OF assms(2)] True by simp
    have cwr: "code_word ls k = first_code ls (Suc j) + rank_of ls k"
      using True by (simp add: code_word_def)
    have "rd (csymbol code) (slot_of ls k) = Some k"
      using codedD(3,4) [OF assms(1-3)] assms(1) by (simp add: rd_def coded_def)
    moreover have "first_slot ls (Suc j) + rank_of ls k = slot_of ls k"
      using True by (simp add: slot_of_def)
    ultimately show ?thesis
      unfolding upt decode_walk.simps s1(1) andthen_simps Let_def x eq cwr cnt
      using r s1 True by simp
  next
    case False
    then have lt: "Suc j < ls ! k" using Suc.prems(4) by simp
    have "first_code ls (Suc j) + count_list ls (Suc j) \<le> ?x"
      unfolding val using code_word_not_before [OF lt] code_end_split [of "Suc j" ls] by simp
    then have nomatch: "\<not> (int (first_code ls (Suc j)) \<le> int ?x \<and>
        int ?x - int (first_code ls (Suc j)) < int (count_list ls (Suc j)))"
      by linarith
    have next_first: "(int (first_code ls (Suc j)) + int (count_list ls (Suc j))) * 2 =
        int (first_code ls (Suc (Suc j)))"
      using code_end_split [of "Suc j" ls] by (simp add: first_code_def)
    have next_slot: "first_slot ls (Suc j) + nat (int (count_list ls (Suc j))) =
        first_slot ls (Suc (Suc j))"
      by (simp add: first_slot_Suc)
    have "(bs @ [b]) @ bit_stream s1 = code_bits ls k @ rest"
      unfolding bsb s1(4) by simp
    then have "\<exists>s'. decode_walk code s1 [Suc (Suc j)..<Suc (Suc j) + n] (2 * int ?x)
        (int (first_code ls (Suc (Suc j)))) (first_slot ls (Suc (Suc j))) = Some (s', Inr k) \<and>
      bits_ok s' \<and> bit_step s1 s' \<and> bit_stream s' = rest"
      by (intro Suc.IH) (use s1 Suc.prems(2,3) lt in auto)
    then show ?thesis
      unfolding upt decode_walk.simps s1(1) andthen_simps Let_def x cnt next_first next_slot
        mult.commute [of "int ?x" 2]
      if_not_P [OF nomatch]
      using bit_step_trans [OF s1(3)] by blast
  qed
qed

lemma v9x_inflate_decode_complete:
  assumes "coded code ls" "k < length ls" "0 < ls ! k" "bits_ok s"
    "bit_stream s = code_bits ls k @ rest"
  obtains s' where "v9x_inflate_decode s code = Some (s', Inr k)" "bits_ok s'" "bit_step s s'"
    "bit_stream s' = rest"
proof -
  have "\<exists>s'. decode_walk code s [Suc 0..<Suc 0 + 15] (2 * int (bits_value (rev [])))
      (int (first_code ls (Suc 0))) (first_slot ls (Suc 0)) = Some (s', Inr k) \<and>
    bits_ok s' \<and> bit_step s s' \<and> bit_stream s' = rest"
    by (rule decode_walk_complete [OF assms(1-4)]) (use assms in auto)
  then show thesis
    using that by (auto simp: v9x_inflate_decode_def V9X_INFLATE_MAX_BITS_def first_code_def
        simp del: upt_Suc)
qed

end
