(* ===== verification/InflateSafe.thy ===== *)
theory InflateSafe
  imports InflateCode
begin

section \<open>Inflate never leaves its buffers\<close>

text \<open>
  The promise of \<^verbatim>\<open>inflate.h\<close>: whatever the bytes are, no read outside the input, no write
  outside the output's capacity, nothing written is ever changed again, nothing beyond the reported
  output length is touched, and decoding ends. \<open>inflate_ok\<close> is the invariant of the decoder's state
  and \<open>extends s s'\<close> says how a later state relates to an earlier one.
\<close>

definition inflate_ok :: "inflate_state \<Rightarrow> bool" where
  "inflate_ok s \<longleftrightarrow> bits_ok s \<and> output_position s \<le> output_capacity s \<and>
     output_capacity s \<le> length (output_bytes s) \<and> length (lengths s) = 320 \<and>
     length (csymbol (litlen s)) = 288 \<and> length (csymbol (distance s)) = 288"

definition extends :: "inflate_state \<Rightarrow> inflate_state \<Rightarrow> bool" where
  "extends s s' \<longleftrightarrow> input_bytes s' = input_bytes s \<and> input_length s' = input_length s \<and>
     output_capacity s' = output_capacity s \<and>
     output_position s \<le> output_position s' \<and> output_position s' \<le> output_capacity s \<and>
     length (output_bytes s') = length (output_bytes s) \<and>
     take (output_position s) (output_bytes s') = take (output_position s) (output_bytes s) \<and>
     drop (output_position s') (output_bytes s') = drop (output_position s') (output_bytes s)"

definition codes_ok :: "inflate_state \<Rightarrow> bool" where
  "codes_ok s \<longleftrightarrow> (\<exists>ls. coded (litlen s) ls) \<and> (\<exists>ds. coded (distance s) ds)"

lemma extends_refl: "inflate_ok s \<Longrightarrow> extends s s"
  by (simp add: extends_def inflate_ok_def)

lemma take_take_eq: "take n xs = take n ys \<Longrightarrow> m \<le> n \<Longrightarrow> take m xs = take m ys"
  by (metis min.absorb1 take_take)

lemma drop_drop_eq: "drop n xs = drop n ys \<Longrightarrow> n \<le> m \<Longrightarrow> drop m xs = drop m ys"
  by (metis add.commute drop_drop le_add_diff_inverse2)

lemma extends_trans: "extends s t \<Longrightarrow> extends t u \<Longrightarrow> extends s u"
  unfolding extends_def
  by (intro conjI; (elim conjE)?; (simp; fail)?)
     (metis take_take_eq drop_drop_eq order_trans)+

lemma bit_step_extends: "inflate_ok s \<Longrightarrow> bit_step s s' \<Longrightarrow> extends s s'"
  by (simp add: extends_def inflate_ok_def bit_stepD)

lemma bit_step_ok: "inflate_ok s \<Longrightarrow> bit_step s s' \<Longrightarrow> bits_ok s' \<Longrightarrow> inflate_ok s'"
  by (simp add: inflate_ok_def bit_stepD)

lemma inflate_ok_bits: "inflate_ok s \<Longrightarrow> bits_ok s"
  by (simp add: inflate_ok_def)

lemma inflate_ok_output: "inflate_ok s \<Longrightarrow> output_position s \<le> output_capacity s"
  by (simp add: inflate_ok_def)

lemma bit_step_codes_ok: "codes_ok s \<Longrightarrow> bit_step s s' \<Longrightarrow> codes_ok s'"
  by (simp add: codes_ok_def bit_stepD)

text \<open>A step of the decoder is safe when it keeps the invariant and extends the output.\<close>

definition safe :: "inflate_state \<Rightarrow> ('a \<Rightarrow> inflate_state \<Rightarrow> bool) \<Rightarrow> 'a inflating \<Rightarrow> bool" where
  "safe s Q r \<longleftrightarrow>
     outcome r (\<lambda>e s'. extends s s') (\<lambda>a s'. inflate_ok s' \<and> extends s s' \<and> Q a s')"

lemma safe_error [intro]: "inflate_ok s \<Longrightarrow> safe s Q (Some (s, Inl e))"
  by (simp add: safe_def extends_refl)

lemma safe_return: "inflate_ok s \<Longrightarrow> Q a s \<Longrightarrow> safe s Q (Some (s, Inr a))"
  by (simp add: safe_def extends_refl)

lemma safe_andthen:
  assumes "safe s P r" and "\<And>a s'. inflate_ok s' \<Longrightarrow> P a s' \<Longrightarrow> safe s' Q (f a s')"
  shows "safe s Q (andthen r f)"
  unfolding safe_def
proof (rule outcome_andthen [OF assms(1) [unfolded safe_def]])
  fix a s'
  assume s': "inflate_ok s' \<and> extends s s' \<and> P a s'"
  with assms(2) have "safe s' Q (f a s')" by blast
  then show "outcome (f a s') (\<lambda>e. extends s) (\<lambda>a s'. inflate_ok s' \<and> extends s s' \<and> Q a s')"
    unfolding safe_def by (rule outcome_mono) (use s' in \<open>blast intro: extends_trans\<close>)+
qed

lemma safe_mono: "safe s P r \<Longrightarrow> (\<And>a s'. P a s' \<Longrightarrow> Q a s') \<Longrightarrow> safe s Q r"
  unfolding safe_def by (erule outcome_mono) auto

lemma safe_bits:
  assumes "inflate_ok s" "count \<le> 16"
  shows "safe s (\<lambda>v s'. bit_step s s' \<and> v < 2 ^ count) (v9x_inflate_bits s count)"
  unfolding safe_def
  by (rule outcome_mono [OF v9x_inflate_bits_spec])
     (use assms in \<open>auto intro: bit_step_extends bit_step_ok bits_value_le inflate_ok_bits\<close>)

lemma safe_decode:
  assumes "inflate_ok s" "coded code ls"
  shows "safe s (\<lambda>symbol s'. bit_step s s' \<and> symbol < 288) (v9x_inflate_decode s code)"
  unfolding safe_def
  by (rule outcome_mono [OF v9x_inflate_decode_spec [OF assms(2)]])
     (use assms in \<open>auto intro: bit_step_extends bit_step_ok inflate_ok_bits simp: coded_def\<close>)

subsection \<open>Blocks\<close>

text \<open>Writing at the output position and moving it past what was written.\<close>

lemma output_extends:
  assumes "inflate_ok s" "length bs = n" "output_position s + n \<le> output_capacity s"
  shows "inflate_ok (s\<lparr>output_bytes := take (output_position s) (output_bytes s) @ bs @
      drop (output_position s + n) (output_bytes s), output_position := output_position s + n\<rparr>)"
    and "extends s (s\<lparr>output_bytes := take (output_position s) (output_bytes s) @ bs @
      drop (output_position s + n) (output_bytes s), output_position := output_position s + n\<rparr>)"
  using assms by (auto simp: inflate_ok_def extends_def bits_ok_def)

fun match_bytes :: "bytes \<Rightarrow> nat \<Rightarrow> nat \<Rightarrow> bytes" where
  "match_bytes out d 0 = out"
| "match_bytes out d (Suc n) = match_bytes (out @ [out ! (length out - d)]) d n"

lemma length_match_bytes [simp]: "length (match_bytes out d n) = length out + n"
  by (induction out d n rule: match_bytes.induct) simp_all

lemma take_match_bytes: "take (length out) (match_bytes out d n) = out"
proof (induction n arbitrary: out)
  case (Suc n)
  let ?out = "out @ [out ! (length out - d)]"
  have "take (length ?out) (match_bytes ?out d n) = take (length ?out) ?out"
    using Suc [of ?out] by simp
  then have "take (length out) (match_bytes ?out d n) = take (length out) ?out"
    by (rule take_take_eq) simp
  then show ?case by simp
qed simp

text \<open>The copy loop in place is the copy that appends, one byte after the other.\<close>

lemma copy_match_eq:
  assumes "0 < d" "d \<le> to" "to + n \<le> length out"
  shows "copy_match out (to - d) to n =
    Some (match_bytes (take to out) d n @ drop (to + n) out)"
  using assms
proof (induction n arbitrary: out to)
  case 0
  then show ?case by simp
next
  case (Suc n)
  let ?b = "out ! (to - d)"
  have read: "rd out (to - d) = Some ?b" using Suc.prems by (simp add: rd_def)
  have stored: "wr out to ?b = Some (out[to := ?b])" using Suc.prems by (simp add: wr_def)
  have shift: "Suc (to - d) = Suc to - d" using Suc.prems by simp
  have taken: "take (Suc to) (out[to := ?b]) = take to out @ [?b]"
    using Suc.prems by (simp add: take_Suc_conv_app_nth)
  have dropped: "drop (Suc to + n) (out[to := ?b]) = drop (to + Suc n) out" by simp
  have b: "take to out ! (length (take to out) - d) = ?b" using Suc.prems by simp
  have "copy_match (out[to := ?b]) (Suc to - d) (Suc to) n =
      Some (match_bytes (take (Suc to) (out[to := ?b])) d n @ drop (Suc to + n) (out[to := ?b]))"
    by (rule Suc.IH) (use Suc.prems in auto)
  then show ?case
    unfolding copy_match.simps read stored Option.bind.bind_lunit shift taken dropped
      match_bytes.simps b .
qed

lemma safe_output:
  assumes "inflate_ok s" "length bs = n" "output_position s + n \<le> output_capacity s"
    "Q a (s\<lparr>output_bytes := take (output_position s) (output_bytes s) @ bs @
      drop (output_position s + n) (output_bytes s), output_position := output_position s + n\<rparr>)"
  shows "safe s Q (Some (s\<lparr>output_bytes := take (output_position s) (output_bytes s) @ bs @
      drop (output_position s + n) (output_bytes s), output_position := output_position s + n\<rparr>, Inr a))"
  using output_extends [OF assms(1-3)] assms(4) by (simp add: safe_def)

lemma safe_if: "(c \<Longrightarrow> safe s Q r) \<Longrightarrow> (\<not> c \<Longrightarrow> safe s Q r') \<Longrightarrow> safe s Q (if c then r else r')"
  by simp

lemma safe_same:
  assumes "safe t Q r" "inflate_ok s" "extends s t"
  shows "safe s Q r"
  using assms unfolding safe_def by (auto elim!: outcome_mono intro: extends_trans)

lemma u16_pair_less: "unat (ucast b0 OR push_bit 8 (ucast b1) :: u32) < 65536" for b0 b1 :: u8
proof -
  have "ucast b0 OR push_bit 8 (ucast b1) = u32_of b0 b1 0 0" by (simp add: u32_of_def)
  then show ?thesis using unat_u32_of [of b0 b1 0 0] unat_u8_less [of b0] unat_u8_less [of b1]
    by (simp del: unat_u8_less)
qed

definition stored_len :: "u8 \<Rightarrow> u8 \<Rightarrow> u32" where
  "stored_len b0 b1 = ucast b0 OR push_bit 8 (ucast b1)"

lemma v9x_inflate_stored_eq:
  assumes "\<not> input_length s - input_position s < 4"
    "rd (input_bytes s) (input_position s) = Some b0" "rd (input_bytes s) (input_position s + 1) = Some b1"
    "rd (input_bytes s) (input_position s + 2) = Some b2" "rd (input_bytes s) (input_position s + 3) = Some b3"
  shows "v9x_inflate_stored s =
      (let s = s\<lparr>bit_buffer := 0, bit_count := 0\<rparr>; n = unat (stored_len b0 b1) in
       if stored_len b0 b1 \<noteq> NOT (stored_len b2 b3) AND 0xFFFF then Some (s, Inl V9X_INFLATE_BAD_STORED)
       else if input_length s - (input_position s + 4) < n then Some (s, Inl V9X_INFLATE_TRUNCATED)
       else if output_capacity s - output_position s < n then Some (s, Inl V9X_INFLATE_OUTPUT_FULL)
       else do {
         copied \<leftarrow> rds (input_bytes s) (input_position s + 4) n;
         out \<leftarrow> wrs (output_bytes s) (output_position s) copied;
         Some (s\<lparr>output_bytes := out, output_position := output_position s + n,
                  input_position := input_position s + 4 + n\<rparr>, Inr ()) })"
  using assms unfolding v9x_inflate_stored_def Let_def stored_len_def by simp

lemma safe_stored:
  assumes "inflate_ok s"
  shows "safe s (\<lambda>_ s'. litlen s' = litlen s \<and> distance s' = distance s) (v9x_inflate_stored s)"
proof -
  let ?s = "s\<lparr>bit_buffer := 0, bit_count := 0\<rparr>"
  have ok: "inflate_ok ?s" using assms by (simp add: inflate_ok_def bits_ok_def)
  have ext: "extends s ?s" using assms by (simp add: extends_def inflate_ok_def)
  show ?thesis
  proof (cases "input_length s - input_position s < 4")
    case True
    then show ?thesis using ext by (simp add: v9x_inflate_stored_def safe_def)
  next
    case False
    let ?p = "input_position s" and ?in = "input_bytes s"
    have room: "?p + 4 \<le> input_length s" "input_length s \<le> length ?in"
      using False assms by (auto simp: inflate_ok_def bits_ok_def)
    then have rd: "rd ?in ?p = Some (?in ! ?p)" "rd ?in (?p + 1) = Some (?in ! (?p + 1))"
      "rd ?in (?p + 2) = Some (?in ! (?p + 2))" "rd ?in (?p + 3) = Some (?in ! (?p + 3))"
      by (simp_all add: rd_def)
    define n where "n = unat (stored_len (?in ! ?p) (?in ! (?p + 1)))"
    define ok where "ok \<longleftrightarrow> stored_len (?in ! ?p) (?in ! (?p + 1)) =
      NOT (stored_len (?in ! (?p + 2)) (?in ! (?p + 3))) AND 0xFFFF"
    have eq: "v9x_inflate_stored s =
      (if \<not> ok then Some (?s, Inl V9X_INFLATE_BAD_STORED)
       else if input_length s - (?p + 4) < n then Some (?s, Inl V9X_INFLATE_TRUNCATED)
       else if output_capacity s - output_position s < n then Some (?s, Inl V9X_INFLATE_OUTPUT_FULL)
       else do {
         copied \<leftarrow> rds ?in (?p + 4) n;
         out \<leftarrow> wrs (output_bytes s) (output_position s) copied;
         Some (?s\<lparr>output_bytes := out, output_position := output_position s + n,
                  input_position := ?p + 4 + n\<rparr>, Inr ()) })"
      using v9x_inflate_stored_eq [OF False rd] unfolding Let_def n_def ok_def by simp
    show ?thesis
      unfolding eq
    proof (intro safe_if)
      assume n: "\<not> input_length s - (?p + 4) < n" "\<not> output_capacity s - output_position s < n"
      let ?bs = "take n (drop (?p + 4) ?in)"
      have len: "length ?bs = n" using n(1) room by simp
      have rds: "rds ?in (?p + 4) n = Some ?bs" using n(1) room by (simp add: rds_Some)
      have cap: "output_position s + n \<le> output_capacity s" "output_capacity s \<le> length (output_bytes s)"
        using n(2) assms by (auto simp: inflate_ok_def)
      have wrs: "wrs (output_bytes s) (output_position s) ?bs = Some (take (output_position s) (output_bytes s) @
          ?bs @ drop (output_position s + n) (output_bytes s))"
        using wrs_Some [of "output_position s" ?bs "output_bytes s"] cap unfolding len by simp
      show "safe s (\<lambda>_ s'. litlen s' = litlen s \<and> distance s' = distance s) (do {
         copied \<leftarrow> rds ?in (?p + 4) n;
         out \<leftarrow> wrs (output_bytes s) (output_position s) copied;
         Some (?s\<lparr>output_bytes := out, output_position := output_position s + n,
                  input_position := ?p + 4 + n\<rparr>, Inr ()) })"
        unfolding rds Option.bind.bind_lunit wrs using assms cap n room len
        by (auto simp: safe_def inflate_ok_def bits_ok_def extends_def)
    qed (use ext in \<open>simp_all add: safe_def\<close>)
  qed
qed

lemma length_extra_le: "i < 29 \<Longrightarrow> v9x_inflate_length_extra ! i \<le> 16"
proof -
  have "\<forall>x\<in>set v9x_inflate_length_extra. x \<le> 16" "length v9x_inflate_length_extra = 29"
    by (simp_all add: v9x_inflate_length_extra_def)
  then show "i < 29 \<Longrightarrow> v9x_inflate_length_extra ! i \<le> 16" by simp
qed

lemma distance_extra_le: "i < 30 \<Longrightarrow> v9x_inflate_distance_extra ! i \<le> 16"
proof -
  have "\<forall>x\<in>set v9x_inflate_distance_extra. x \<le> 16" "length v9x_inflate_distance_extra = 30"
    by (simp_all add: v9x_inflate_distance_extra_def)
  then show "i < 30 \<Longrightarrow> v9x_inflate_distance_extra ! i \<le> 16" by simp
qed

lemma distance_base_pos: "i < 30 \<Longrightarrow> 0 < v9x_inflate_distance_base ! i"
proof -
  have "\<forall>x\<in>set v9x_inflate_distance_base. 0 < x" "length v9x_inflate_distance_base = 30"
    by (simp_all add: v9x_inflate_distance_base_def)
  then show "i < 30 \<Longrightarrow> 0 < v9x_inflate_distance_base ! i" by simp
qed

lemma codes_ok_output [simp]:
  "codes_ok (s\<lparr>output_bytes := out, output_position := n\<rparr>) = codes_ok s"
  by (simp add: codes_ok_def)

lemma put_literal_ok:
  assumes "inflate_ok s" "output_position s < output_capacity s"
  shows "put_literal s symbol =
    Some (s\<lparr>output_bytes := take (output_position s) (output_bytes s) @ [of_nat symbol] @
      drop (output_position s + 1) (output_bytes s), output_position := output_position s + 1\<rparr>, Inr True)"
  using assms by (auto simp: put_literal_def wr_def inflate_ok_def upd_conv_take_nth_drop)

lemma put_match_ok:
  assumes "inflate_ok s" "0 < d" "d \<le> output_position s" "output_position s + n \<le> output_capacity s"
  shows "put_match s n d =
    Some (s\<lparr>output_bytes := take (output_position s) (output_bytes s) @
        drop (output_position s) (match_bytes (take (output_position s) (output_bytes s)) d n) @
        drop (output_position s + n) (output_bytes s), output_position := output_position s + n\<rparr>, Inr True)"
proof -
  let ?o = "output_position s" and ?out = "output_bytes s"
  let ?m = "match_bytes (take ?o ?out) d n"
  have room: "?o + n \<le> length ?out" and len: "length (take ?o ?out) = ?o"
    using assms by (auto simp: inflate_ok_def)
  have m: "?m = take ?o ?out @ drop ?o ?m"
    using take_match_bytes [of "take ?o ?out" d n] unfolding len by (metis append_take_drop_id)
  have "copy_match ?out (?o - d) ?o n = Some (take ?o ?out @ drop ?o ?m @ drop (?o + n) ?out)"
    using copy_match_eq [OF assms(2,3) room] m by (metis append.assoc)
  then show ?thesis using assms(3,4) by (simp add: put_match_def)
qed

lemma safe_put_literal:
  assumes "inflate_ok s" "codes_ok s"
  shows "safe s (\<lambda>_. codes_ok) (put_literal s symbol)"
proof (cases "output_position s < output_capacity s")
  case True
  show ?thesis
    unfolding put_literal_ok [OF assms(1) True]
    by (rule safe_output) (use assms True in auto)
next
  case False
  then show ?thesis using assms(1) by (simp add: put_literal_def safe_def extends_refl)
qed

lemma safe_put_match:
  assumes "inflate_ok s" "codes_ok s" "0 < d"
  shows "safe s (\<lambda>_. codes_ok) (put_match s n d)"
proof (cases "d \<le> output_position s \<and> output_position s + n \<le> output_capacity s")
  case True
  have "length (take (output_position s) (output_bytes s)) = output_position s"
    using assms(1) by (simp add: inflate_ok_def)
  then show ?thesis
    unfolding put_match_ok [OF assms(1,3) conjunct1 [OF True] conjunct2 [OF True]]
    by (intro safe_output) (use assms True in auto)
next
  case False
  then show ?thesis using assms(1) inflate_ok_output [OF assms(1)] by (auto simp: put_match_def)
qed

lemma safe_read_match:
  assumes "inflate_ok s" "codes_ok s" "symbol < 29"
  shows "safe s (\<lambda>_. codes_ok) (read_match s symbol)"
  unfolding read_match_def Let_def
proof (rule safe_andthen [OF safe_bits [OF assms(1) length_extra_le [OF assms(3)]]])
  fix e1 s1
  let ?n = "v9x_inflate_length_base ! symbol + e1"
  assume s1: "inflate_ok s1" "bit_step s s1 \<and> e1 < 2 ^ (v9x_inflate_length_extra ! symbol)"
  then have codes1: "codes_ok s1" using assms(2) by (auto intro: bit_step_codes_ok)
  then obtain ds where ds: "coded (distance s1) ds" by (auto simp: codes_ok_def)
  show "safe s1 (\<lambda>_. codes_ok) (andthen (v9x_inflate_decode s1 (distance s1)) (\<lambda>symbol s.
      if symbol \<ge> V9X_INFLATE_DISTANCE_CODES then Some (s, Inl V9X_INFLATE_BAD_DISTANCE)
      else andthen (v9x_inflate_bits s (v9x_inflate_distance_extra ! symbol)) (\<lambda>extra s.
        put_match s ?n (v9x_inflate_distance_base ! symbol + extra))))"
  proof (rule safe_andthen [OF safe_decode [OF s1(1) ds]], intro safe_if safe_error)
    fix dsym s2
    assume s2: "inflate_ok s2" "bit_step s1 s2 \<and> dsym < 288"
      and "\<not> V9X_INFLATE_DISTANCE_CODES \<le> dsym"
    then have dsym: "dsym < 30" and codes2: "codes_ok s2"
      using codes1 by (auto simp: V9X_INFLATE_DISTANCE_CODES_def intro: bit_step_codes_ok)
    show "safe s2 (\<lambda>_. codes_ok)
      (andthen (v9x_inflate_bits s2 (v9x_inflate_distance_extra ! dsym)) (\<lambda>extra s.
        put_match s ?n (v9x_inflate_distance_base ! dsym + extra)))"
      by (rule safe_andthen [OF safe_bits [OF s2(1) distance_extra_le [OF dsym]]])
        (use codes2 distance_base_pos [OF dsym] in \<open>auto intro!: safe_put_match intro: bit_step_codes_ok\<close>)
  qed
qed

lemma safe_codes_pass:
  assumes "inflate_ok s" "codes_ok s"
  shows "safe s (\<lambda>_. codes_ok) (codes_pass s)"
proof -
  obtain ls where ls: "coded (litlen s) ls" using assms(2) by (auto simp: codes_ok_def)
  show ?thesis
    unfolding codes_pass_def Let_def
  proof (rule safe_andthen [OF safe_decode [OF assms(1) ls]], intro safe_if safe_error)
    fix symbol :: nat and s1
    assume s1: "inflate_ok s1" "bit_step s s1 \<and> symbol < 288"
    then have codes1: "codes_ok s1" using assms(2) by (auto intro: bit_step_codes_ok)
    then show "safe s1 (\<lambda>_. codes_ok) (put_literal s1 symbol)" by (rule safe_put_literal [OF s1(1)])
    show "safe s1 (\<lambda>_. codes_ok) (Some (s1, Inr False))"
      using s1(1) codes1 by (simp add: safe_def extends_refl)
    assume "\<not> V9X_INFLATE_LENGTH_CODES \<le> symbol - V9X_INFLATE_FIRST_LENGTH"
    then show "safe s1 (\<lambda>_. codes_ok) (read_match s1 (symbol - V9X_INFLATE_FIRST_LENGTH))"
      using safe_read_match [OF s1(1) codes1] by (simp add: V9X_INFLATE_LENGTH_CODES_def)
  qed
qed

lemma safe_codes:
  assumes "inflate_ok s" "codes_ok s"
  shows "safe s (\<lambda>_. codes_ok) (v9x_inflate_codes s)"
  using assms
proof (induction s rule: codes_induct)
  case (step s)
  have pass: "safe s (\<lambda>again s'. codes_ok s' \<and> codes_pass s = Some (s', Inr again)) (codes_pass s)"
    using safe_codes_pass [OF step.prems] unfolding safe_def by (auto elim!: outcome_cases)
  show ?case
    by (subst v9x_inflate_codes.simps, rule safe_andthen [OF pass])
      (auto simp: safe_def extends_refl step.IH [unfolded safe_def])
qed

subsection \<open>Block headers\<close>

lemma safe_build_litlen:
  assumes "inflate_ok s" "n \<le> 288" "n \<le> length lens"
  shows "safe s (\<lambda>_ s'. s' = s\<lparr>litlen := litlen s'\<rparr> \<and> coded (litlen s') (take n lens))
    (build_litlen s lens n single)"
proof -
  have "outcome (v9x_inflate_build (litlen s) lens n single)
    (\<lambda>e c. e = V9X_INFLATE_BAD_LENGTHS \<and> \<not> valid_lengths single (take n lens) \<and> length (csymbol c) = 288)
    (\<lambda>_ c. valid_lengths single (take n lens) \<and> coded c (take n lens))"
    by (rule v9x_inflate_build_spec) (use assms in \<open>auto simp: inflate_ok_def\<close>)
  then show ?thesis
    using assms(1)
    by (auto simp: build_litlen_def safe_def extends_def inflate_ok_def bits_ok_def coded_def
        elim!: outcome_cases)
qed

lemma safe_build_distance:
  assumes "inflate_ok s" "n \<le> 288" "n \<le> length lens"
  shows "safe s (\<lambda>_ s'. s' = s\<lparr>distance := distance s'\<rparr> \<and> coded (distance s') (take n lens))
    (build_distance s lens n single)"
proof -
  have "outcome (v9x_inflate_build (distance s) lens n single)
    (\<lambda>e c. e = V9X_INFLATE_BAD_LENGTHS \<and> \<not> valid_lengths single (take n lens) \<and> length (csymbol c) = 288)
    (\<lambda>_ c. valid_lengths single (take n lens) \<and> coded c (take n lens))"
    by (rule v9x_inflate_build_spec) (use assms in \<open>auto simp: inflate_ok_def\<close>)
  then show ?thesis
    using assms(1)
    by (auto simp: build_distance_def safe_def extends_def inflate_ok_def bits_ok_def coded_def
        elim!: outcome_cases)
qed

lemma inflate_ok_lengths:
  "inflate_ok s \<Longrightarrow> length lens = 320 \<Longrightarrow> inflate_ok (s\<lparr>lengths := lens\<rparr>)"
  "inflate_ok s \<Longrightarrow> extends s (s\<lparr>lengths := lens\<rparr>)"
  by (simp_all add: inflate_ok_def bits_ok_def extends_def)

lemma safe_fixed:
  assumes "inflate_ok s"
  shows "safe s (\<lambda>_. codes_ok) (v9x_inflate_fixed s)"
proof -
  let ?l = "fixed_litlen_lengths @ drop 288 (lengths s)"
  have len: "length fixed_litlen_lengths = 288" "length (lengths s) = 320"
    using assms by (simp_all add: fixed_litlen_lengths_def V9X_INFLATE_LITLEN_SYMBOLS_def inflate_ok_def)
  have w: "wrs (lengths s) 0 fixed_litlen_lengths = Some ?l"
    using wrs_Some [of 0 fixed_litlen_lengths "lengths s"] len by simp
  have ok: "inflate_ok (s\<lparr>lengths := ?l\<rparr>)"
    using inflate_ok_lengths(1) [OF assms, of ?l] len by simp
  have "safe (s\<lparr>lengths := ?l\<rparr>) (\<lambda>_. codes_ok)
      (andthen (build_litlen (s\<lparr>lengths := ?l\<rparr>) ?l V9X_INFLATE_LITLEN_SYMBOLS False) (\<lambda>_ s. do {
       lens \<leftarrow> wrs (lengths s) 0 (replicate V9X_INFLATE_DIST_SYMBOLS 5);
       andthen (build_distance (s\<lparr>lengths := lens\<rparr>) lens V9X_INFLATE_DIST_SYMBOLS False)
         (\<lambda>_ s. v9x_inflate_codes s) }))"
  proof (rule safe_andthen [OF safe_build_litlen [OF ok]])
    fix u and s1
    assume s1: "inflate_ok s1" "s1 = s\<lparr>lengths := ?l\<rparr>\<lparr>litlen := litlen s1\<rparr> \<and>
      coded (litlen s1) (take V9X_INFLATE_LITLEN_SYMBOLS ?l)"
    let ?d = "replicate 32 5 @ drop 32 (lengths s1)"
    have wd: "wrs (lengths s1) 0 (replicate V9X_INFLATE_DIST_SYMBOLS 5) = Some ?d"
      using wrs_Some [of 0 "replicate 32 5" "lengths s1"] s1(1)
      by (simp add: V9X_INFLATE_DIST_SYMBOLS_def inflate_ok_def)
    have ld: "length ?d = 320" using s1(1) by (simp add: inflate_ok_def)
    have ok1: "inflate_ok (s1\<lparr>lengths := ?d\<rparr>)" by (rule inflate_ok_lengths(1) [OF s1(1) ld])
    have "safe (s1\<lparr>lengths := ?d\<rparr>) (\<lambda>_. codes_ok)
        (andthen (build_distance (s1\<lparr>lengths := ?d\<rparr>) ?d V9X_INFLATE_DIST_SYMBOLS False)
          (\<lambda>_ s. v9x_inflate_codes s))"
    proof (rule safe_andthen [OF safe_build_distance [OF ok1]])
      fix u and s2
      assume s2: "inflate_ok s2" "s2 = s1\<lparr>lengths := ?d\<rparr>\<lparr>distance := distance s2\<rparr> \<and>
        coded (distance s2) (take V9X_INFLATE_DIST_SYMBOLS ?d)"
      have "litlen s2 = litlen s1" by (subst conjunct1 [OF s2(2)]) simp
      then show "safe s2 (\<lambda>_. codes_ok) (v9x_inflate_codes s2)"
        using s1(2) s2 by (intro safe_codes) (auto simp: codes_ok_def)
    qed (simp_all add: V9X_INFLATE_DIST_SYMBOLS_def)
    then show "safe s1 (\<lambda>_. codes_ok) (do {
       lens \<leftarrow> wrs (lengths s1) 0 (replicate V9X_INFLATE_DIST_SYMBOLS 5);
       andthen (build_distance (s1\<lparr>lengths := lens\<rparr>) lens V9X_INFLATE_DIST_SYMBOLS False)
         (\<lambda>_ s. v9x_inflate_codes s) })"
      unfolding wd Option.bind.bind_lunit
      by (rule safe_same) (use s1(1) inflate_ok_lengths(2) in auto)
  qed (simp_all add: V9X_INFLATE_LITLEN_SYMBOLS_def len)
  then show ?thesis
    unfolding v9x_inflate_fixed_def w Option.bind.bind_lunit
    by (rule safe_same) (use assms inflate_ok_lengths(2) in auto)
qed

lemma clen_order_less: "i < 19 \<Longrightarrow> v9x_inflate_clen_order ! i < 19"
proof -
  have "\<forall>x\<in>set v9x_inflate_clen_order. x < 19" "length v9x_inflate_clen_order = 19"
    by (simp_all add: v9x_inflate_clen_order_def)
  then show "i < 19 \<Longrightarrow> v9x_inflate_clen_order ! i < 19" by simp
qed

lemma safe_read_clen:
  "inflate_ok s \<Longrightarrow> length lens = 19 \<Longrightarrow> \<forall>i\<in>set idx. i < 19 \<Longrightarrow>
   safe s (\<lambda>v s'. length v = 19) (read_clen s lens idx)"
proof (induction idx arbitrary: s lens)
  case Nil
  then show ?case by (simp add: safe_def extends_refl)
next
  case (Cons i idx)
  show ?case
    unfolding read_clen.simps
  proof (rule safe_andthen [OF safe_bits [OF Cons.prems(1)]])
    fix v :: nat and s1
    assume s1: "inflate_ok s1" "bit_step s s1 \<and> v < 2 ^ 3"
    have "v9x_inflate_clen_order ! i < length lens" using Cons.prems clen_order_less by simp
    then show "safe s1 (\<lambda>v s'. length v = 19) (do {
        clen_lengths \<leftarrow> wr lens (v9x_inflate_clen_order ! i) v;
        read_clen s1 clen_lengths idx })"
      using Cons.IH [OF s1(1)] Cons.prems by (simp add: wr_def)
  qed simp
qed

lemma safe_read_repeat:
  assumes "inflate_ok s" "index < 320"
  shows "safe s (\<lambda>v s'. bit_step s s') (read_repeat s index symbol)"
proof -
  have ret: "safe s1 (\<lambda>v s'. bit_step s s') (Some (s1, Inr v))"
    if "inflate_ok s1" "bit_step s s1 \<and> P" for s1 P and v :: "nat \<times> nat"
    using that by (simp add: safe_def extends_refl)
  have "rd (lengths s) (index - 1) = Some (lengths s ! (index - 1))"
    using assms by (simp add: rd_def inflate_ok_def)
  then show ?thesis
    unfolding read_repeat_def using assms(1)
    by (auto intro!: safe_if safe_andthen [OF safe_bits] ret)
qed

lemma safe_lengths_pass:
  assumes "inflate_ok s" "coded (distance s) ds" "index < limit" "limit \<le> 320"
  shows "safe s (\<lambda>index' s'. distance s' = distance s) (lengths_pass s limit index)"
  unfolding lengths_pass_def
proof (rule safe_andthen [OF safe_decode [OF assms(1,2)]], intro safe_if)
  fix symbol :: nat and s1
  assume s1: "inflate_ok s1" "bit_step s s1 \<and> symbol < 288"
  have ls: "length (lengths s1) = 320" using s1(1) by (simp add: inflate_ok_def)
  show "safe s1 (\<lambda>index' s'. distance s' = distance s) (do {
      lens \<leftarrow> wr (lengths s1) index symbol;
      Some (s1\<lparr>lengths := lens\<rparr>, Inr (index + 1)) })"
    using s1 assms(3,4) ls inflate_ok_lengths [OF s1(1)]
    by (auto simp: wr_def safe_def bit_stepD)
  show "safe s1 (\<lambda>index' s'. distance s' = distance s)
    (andthen (read_repeat s1 index symbol) (\<lambda>(repeat_value, repeat) s.
       if repeat > limit - index then Some (s, Inl V9X_INFLATE_BAD_LENGTHS)
       else do {
         lens \<leftarrow> wrs (lengths s) index (replicate repeat repeat_value);
         Some (s\<lparr>lengths := lens\<rparr>, Inr (index + repeat)) }))"
  proof (rule safe_andthen [OF safe_read_repeat [OF s1(1)]], goal_cases idx step)
    case idx
    then show ?case using assms by simp
  next
    case (step p s2)
    obtain v n where p: "p = (v, n)" by (cases p)
    have ls2: "length (lengths s2) = 320" using step(1) by (simp add: inflate_ok_def)
    show ?case
      unfolding p prod.case
    proof (intro safe_if safe_error step(1))
      assume n: "\<not> limit - index < n"
      let ?l = "take index (lengths s2) @ replicate n v @ drop (index + n) (lengths s2)"
      have "wrs (lengths s2) index (replicate n v) = Some ?l"
        using wrs_Some [of index "replicate n v" "lengths s2"] n ls2 assms(3,4) by simp
      moreover have "length ?l = 320" using n ls2 assms(3,4) by simp
      ultimately show "safe s2 (\<lambda>index' s'. distance s' = distance s) (do {
          lens \<leftarrow> wrs (lengths s2) index (replicate n v);
          Some (s2\<lparr>lengths := lens\<rparr>, Inr (index + n)) })"
        using step s1(2) inflate_ok_lengths [OF step(1)] by (simp add: safe_def bit_stepD)
    qed
  qed
qed

lemma safe_read_lengths:
  assumes "inflate_ok s" "coded (distance s) ds" "limit \<le> 320"
  shows "safe s (\<lambda>_ s'. True) (read_lengths s limit index)"
  using assms(1,2)
proof (induction s index rule: read_lengths_induct [of limit])
  case (step s index)
  show ?case
  proof (cases "index < limit")
    case True
    have pass: "safe s (\<lambda>index' s'. distance s' = distance s \<and>
        lengths_pass s limit index = Some (s', Inr index')) (lengths_pass s limit index)"
      using safe_lengths_pass [OF step.prems True assms(3)] unfolding safe_def
      by (auto elim!: outcome_cases)
    show ?thesis
      by (subst read_lengths.simps, simp only: True if_True, rule safe_andthen [OF pass])
        (use True step in auto)
  next
    case False
    then show ?thesis
      using step.prems by (subst read_lengths.simps) (simp add: safe_def extends_refl)
  qed
qed

lemma safe_dynamic_lengths:
  assumes "inflate_ok s" "hlit + hdist \<le> 320" "hclen \<le> 19"
  shows "safe s (\<lambda>_ s'. True) (dynamic_lengths s hlit hdist hclen)"
  unfolding dynamic_lengths_def V9X_INFLATE_CLEN_SYMBOLS_def
proof (rule safe_andthen [OF safe_read_clen [OF assms(1)]])
  fix clen :: "nat list" and s1
  assume s1: "inflate_ok s1" "length clen = 19"
  show "safe s1 (\<lambda>_ s'. True) (andthen (build_distance s1 clen 19 False)
      (\<lambda>_ s. read_lengths s (hlit + hdist) 0))"
  proof (rule safe_andthen [OF safe_build_distance [OF s1(1)]])
    fix u and s2
    assume "inflate_ok s2" "s2 = s1\<lparr>distance := distance s2\<rparr> \<and> coded (distance s2) (take 19 clen)"
    then show "safe s2 (\<lambda>_ s'. True) (read_lengths s2 (hlit + hdist) 0)"
      using assms(2) by (auto intro: safe_read_lengths)
  qed (use s1 in simp_all)
qed (use assms(3) in auto)

lemma safe_dynamic_build:
  assumes "inflate_ok s" "hlit \<le> 286" "hdist \<le> 32"
  shows "safe s (\<lambda>_. codes_ok) (dynamic_build s hlit hdist)"
proof -
  have ls: "length (lengths s) = 320" using assms(1) by (simp add: inflate_ok_def)
  then have eob: "rd (lengths s) V9X_INFLATE_END_OF_BLOCK = Some (lengths s ! 256)"
    by (simp add: rd_def V9X_INFLATE_END_OF_BLOCK_def)
  show ?thesis
    unfolding dynamic_build_def eob Option.bind.bind_lunit
  proof (intro safe_if safe_error [OF assms(1)], rule safe_andthen [OF safe_build_litlen [OF assms(1)]])
    fix u and s1
    assume s1: "inflate_ok s1" "s1 = s\<lparr>litlen := litlen s1\<rparr> \<and> coded (litlen s1) (take hlit (lengths s))"
    have ls1: "length (lengths s1) = 320" using s1(1) by (simp add: inflate_ok_def)
    have "codes_ok s2" if "s2 = s1\<lparr>distance := distance s2\<rparr> \<and>
        coded (distance s2) (take hdist (drop hlit (lengths s1)))" for s2
    proof -
      have "litlen s2 = litlen s1" by (subst conjunct1 [OF that]) simp
      then show ?thesis using that s1(2) by (auto simp: codes_ok_def)
    qed
    then show "safe s1 (\<lambda>_. codes_ok) (build_distance s1 (drop hlit (lengths s1)) hdist True)"
      by (rule safe_mono [OF safe_build_distance [OF s1(1)], rotated 2]) (use assms ls1 in auto)
  qed (use assms ls in auto)
qed

lemma safe_dynamic:
  assumes "inflate_ok s"
  shows "safe s (\<lambda>_ s'. True) (v9x_inflate_dynamic s)"
proof -
  have tail: "safe s3 (\<lambda>_ s'. True)
      (if hlit + V9X_INFLATE_HLIT_BASE > V9X_INFLATE_HLIT_MAX then Some (s3, Inl V9X_INFLATE_BAD_BLOCK)
       else andthen (dynamic_lengths s3 (hlit + V9X_INFLATE_HLIT_BASE) (hdist + V9X_INFLATE_HDIST_BASE)
           (hclen + V9X_INFLATE_HCLEN_BASE)) (\<lambda>_ s.
         andthen (dynamic_build s (hlit + V9X_INFLATE_HLIT_BASE) (hdist + V9X_INFLATE_HDIST_BASE))
           (\<lambda>_ s. v9x_inflate_codes s)))"
    if s3: "inflate_ok s3" and "hdist < 2 ^ 5" "hclen < 2 ^ 4" for s3 hlit hdist hclen
    unfolding inflate_consts using that
    by (auto intro!: safe_andthen [OF safe_dynamic_lengths] safe_andthen [OF safe_dynamic_build]
        intro: safe_mono [OF safe_codes])
  show ?thesis
    unfolding v9x_inflate_dynamic_def Let_def
    by (rule safe_andthen [OF safe_bits [OF assms]], simp)+
       (auto intro!: safe_andthen [OF safe_bits] tail simp del: power_Suc)
qed

subsection \<open>The stream of blocks\<close>

lemma safe_block:
  assumes "inflate_ok s"
  shows "safe s (\<lambda>_ s'. True) (inflate_block s)"
  unfolding inflate_block_def
proof (rule safe_andthen [OF safe_bits [OF assms]], simp, goal_cases)
  case (1 final s1)
  show ?case
  proof (rule safe_andthen [OF safe_bits [OF 1(1)]], simp, goal_cases)
    case (1 type s2)
    have "safe s2 (\<lambda>_ s'. True)
       (if type = V9X_INFLATE_BTYPE_STORED then v9x_inflate_stored s2
        else if type = V9X_INFLATE_BTYPE_FIXED then v9x_inflate_fixed s2
        else if type = V9X_INFLATE_BTYPE_DYNAMIC then v9x_inflate_dynamic s2
        else Some (s2, Inl V9X_INFLATE_BAD_BLOCK))"
      by (intro safe_if safe_error 1(1) safe_dynamic safe_mono [OF safe_stored]
          safe_mono [OF safe_fixed]) simp_all
    then show ?case
      by (rule safe_andthen) (simp add: safe_def extends_refl)
  qed
qed

lemma inflate_blocks_induct [case_names step]:
  assumes "\<And>s. (\<And>s'. inflate_block s = Some (s', Inr 0) \<Longrightarrow> P s') \<Longrightarrow> P s"
  shows "P s"
  by (rule measure_induct_rule [of bits_left]) (fastforce intro: assms dest: inflate_block_left)

lemma safe_blocks: "inflate_ok s \<Longrightarrow> safe s (\<lambda>_ s'. True) (inflate_blocks s)"
proof (induction s rule: inflate_blocks_induct)
  case (step s)
  have pass: "safe s (\<lambda>final s'. inflate_block s = Some (s', Inr final)) (inflate_block s)"
    using safe_block [OF step.prems] unfolding safe_def by (auto elim!: outcome_cases)
  show ?case
    by (subst inflate_blocks.simps, rule safe_andthen [OF pass])
      (auto intro!: step.IH safe_return)
qed

text \<open>The scratch state a caller supplies need only have the sizes the struct gives it.\<close>

definition scratch_ok :: "inflate_state \<Rightarrow> bool" where
  "scratch_ok s \<longleftrightarrow> length (lengths s) = 320 \<and> length (csymbol (litlen s)) = 288 \<and>
     length (csymbol (distance s)) = 288"

lemma inflate_begin_ok:
  assumes "scratch_ok s" "n \<le> length inp" "cap \<le> length out"
  shows "inflate_ok (inflate_begin s (Some inp) n (Some out) cap)"
  using assms by (simp add: inflate_begin_def inflate_ok_def bits_ok_def scratch_ok_def)

definition zero_scratch :: inflate_state where
  "zero_scratch = \<lparr>input_bytes = [], input_length = 0, input_position = 0, bit_buffer = 0,
     bit_count = 0, output_bytes = [], output_capacity = 0, output_position = 0,
     litlen = \<lparr>ccount = replicate 16 0, csymbol = replicate 288 0\<rparr>,
     distance = \<lparr>ccount = replicate 16 0, csymbol = replicate 288 0\<rparr>, lengths = replicate 320 0\<rparr>"

lemma zero_scratch_ok: "scratch_ok zero_scratch"
  by (simp add: scratch_ok_def zero_scratch_def)

end
