(* ===== verification/InflateSpec.thy ===== *)
theory InflateSpec
  imports InflateSafe
begin

section \<open>Inflate decodes Deflate\<close>

text \<open>
  A declarative Deflate (RFC 1951) to compare the decoder with: \<open>tokens_bits\<close> says which bit strings
  encode a list of literals and matches under a pair of canonical codes, \<open>expand\<close> what such a list
  stands for, and \<open>deflate_block\<close> and \<open>deflates\<close> which bit strings are stored and fixed blocks and
  their sequences. The encodings are relations: a block may be cut and a match may be chosen in many
  ways, and the decoder has to accept all of them.
\<close>

subsection \<open>Tokens\<close>

datatype token = Literal u8 | Match nat nat

fun expand :: "bytes \<Rightarrow> token list \<Rightarrow> bytes" where
  "expand out [] = out"
| "expand out (Literal b # ts) = expand (out @ [b]) ts"
| "expand out (Match n d # ts) = expand (match_bytes out d n) ts"

fun expands :: "bytes \<Rightarrow> token list \<Rightarrow> bool" where
  "expands out [] \<longleftrightarrow> True"
| "expands out (Literal b # ts) \<longleftrightarrow> expands (out @ [b]) ts"
| "expands out (Match n d # ts) \<longleftrightarrow> 0 < d \<and> d \<le> length out \<and> expands (match_bytes out d n) ts"

inductive tokens_bits :: "nat list \<Rightarrow> nat list \<Rightarrow> token list \<Rightarrow> bool list \<Rightarrow> bool"
  for ls ds where
  end_of_block: "256 < length ls \<Longrightarrow> 0 < ls ! 256 \<Longrightarrow> tokens_bits ls ds [] (code_bits ls 256)"
| literal: "tokens_bits ls ds ts bits \<Longrightarrow> unat b < length ls \<Longrightarrow> 0 < ls ! unat b \<Longrightarrow>
    tokens_bits ls ds (Literal b # ts) (code_bits ls (unat b) @ bits)"
| match: "tokens_bits ls ds ts bits \<Longrightarrow> i < 29 \<Longrightarrow> 257 + i < length ls \<Longrightarrow> 0 < ls ! (257 + i) \<Longrightarrow>
    j < 30 \<Longrightarrow> j < length ds \<Longrightarrow> 0 < ds ! j \<Longrightarrow>
    length e = v9x_inflate_length_extra ! i \<Longrightarrow> length e' = v9x_inflate_distance_extra ! j \<Longrightarrow>
    tokens_bits ls ds
      (Match (v9x_inflate_length_base ! i + bits_value e) (v9x_inflate_distance_base ! j + bits_value e') # ts)
      (code_bits ls (257 + i) @ e @ code_bits ds j @ e' @ bits)"

definition written :: "inflate_state \<Rightarrow> bytes" where
  "written s = take (output_position s) (output_bytes s)"

lemma length_expand: "length out \<le> length (expand out ts)"
  by (induction out ts rule: expand.induct) auto

lemma written_bit_step: "bit_step s s' \<Longrightarrow> written s' = written s"
  by (simp add: written_def bit_stepD)

lemma length_written: "inflate_ok s \<Longrightarrow> length (written s) = output_position s"
  by (simp add: written_def inflate_ok_def)

text \<open>What the decoder's actions on the output do to \<open>written\<close>.\<close>

lemma put_literal_written:
  assumes "inflate_ok s" "output_position s < output_capacity s"
  obtains s' where "put_literal s symbol = Some (s', Inr True)" "inflate_ok s'"
    "written s' = written s @ [of_nat symbol]" "bit_stream s' = bit_stream s"
    "litlen s' = litlen s" "distance s' = distance s" "output_capacity s' = output_capacity s"
proof (rule that [OF put_literal_ok [OF assms]])
  show "inflate_ok (s\<lparr>output_bytes := take (output_position s) (output_bytes s) @ [of_nat symbol] @
      drop (output_position s + 1) (output_bytes s), output_position := output_position s + 1\<rparr>)"
    by (rule output_extends(1)) (use assms in auto)
  have "length (take (output_position s) (output_bytes s)) = output_position s"
    using assms by (simp add: inflate_ok_def)
  then show "written (s\<lparr>output_bytes := take (output_position s) (output_bytes s) @ [of_nat symbol] @
      drop (output_position s + 1) (output_bytes s), output_position := output_position s + 1\<rparr>) =
      written s @ [of_nat symbol]"
    unfolding written_def by simp
qed (simp_all add: bit_stream_def unread_def)

lemma put_match_written:
  assumes "inflate_ok s" "0 < d" "d \<le> output_position s" "output_position s + n \<le> output_capacity s"
  obtains s' where "put_match s n d = Some (s', Inr True)" "inflate_ok s'"
    "written s' = match_bytes (written s) d n" "bit_stream s' = bit_stream s"
    "litlen s' = litlen s" "distance s' = distance s" "output_capacity s' = output_capacity s"
proof (rule that [OF put_match_ok [OF assms]])
  let ?w = "take (output_position s) (output_bytes s)"
  have len: "length ?w = output_position s" using assms by (simp add: inflate_ok_def)
  show "inflate_ok (s\<lparr>output_bytes := ?w @ drop (output_position s) (match_bytes ?w d n) @
      drop (output_position s + n) (output_bytes s), output_position := output_position s + n\<rparr>)"
    by (rule output_extends(1)) (use assms len in auto)
  have "?w @ drop (output_position s) (match_bytes ?w d n) = match_bytes ?w d n"
    using take_match_bytes [of ?w d n] unfolding len by (metis append_take_drop_id)
  then have "take (output_position s + n) (?w @ drop (output_position s) (match_bytes ?w d n) @
      drop (output_position s + n) (output_bytes s)) = match_bytes ?w d n"
    using len by (metis append.assoc append_eq_conv_conj length_match_bytes)
  then show "written (s\<lparr>output_bytes := ?w @ drop (output_position s) (match_bytes ?w d n) @
      drop (output_position s + n) (output_bytes s), output_position := output_position s + n\<rparr>) =
      match_bytes (written s) d n"
    by (simp add: written_def)
qed (simp_all add: bit_stream_def unread_def)

text \<open>The data of a Huffman block, for any pair of codes.\<close>

lemma v9x_inflate_codes_complete:
  assumes "tokens_bits ls ds ts bits" "inflate_ok s" "coded (litlen s) ls" "coded (distance s) ds"
    "bit_stream s = bits @ rest" "expands (written s) ts"
    "length (expand (written s) ts) \<le> output_capacity s"
  shows "\<exists>s'. v9x_inflate_codes s = Some (s', Inr ()) \<and> inflate_ok s' \<and> bit_stream s' = rest \<and>
    written s' = expand (written s) ts \<and> output_capacity s' = output_capacity s"
  using assms
proof (induction arbitrary: s rule: tokens_bits.induct)
  case end_of_block
  obtain s1 where s1: "v9x_inflate_decode s (litlen s) = Some (s1, Inr 256)" "bits_ok s1"
      "bit_step s s1" "bit_stream s1 = rest"
    by (rule v9x_inflate_decode_complete [OF end_of_block(4) end_of_block(1,2)
          inflate_ok_bits [OF end_of_block(3)] end_of_block(6)])
  have "codes_pass s = Some (s1, Inr False)"
    by (simp add: codes_pass_def s1(1) inflate_consts)
  then show ?case
    using s1 end_of_block(3)
    by (subst v9x_inflate_codes.simps) (auto simp: written_bit_step bit_stepD intro: bit_step_ok)
next
  case (literal ts bits b)
  obtain s1 where s1: "v9x_inflate_decode s (litlen s) = Some (s1, Inr (unat b))" "bits_ok s1"
      "bit_step s s1" "bit_stream s1 = bits @ rest"
    using v9x_inflate_decode_complete [OF literal.prems(2) literal.hyps(2,3)
        inflate_ok_bits [OF literal.prems(1)], of "bits @ rest"] literal.prems(4) by auto
  have ok1: "inflate_ok s1" using literal.prems(1) s1 by (blast intro: bit_step_ok)
  have "length (written s @ [b]) \<le> length (expand (written s @ [b]) ts)" by (rule length_expand)
  then have "output_position s1 < output_capacity s1"
    using literal.prems s1(3) length_written [OF literal.prems(1)] by (simp add: bit_stepD)
  then obtain s2 where s2: "put_literal s1 (unat b) = Some (s2, Inr True)" "inflate_ok s2"
      "written s2 = written s1 @ [of_nat (unat b)]" "bit_stream s2 = bit_stream s1"
      "litlen s2 = litlen s1" "distance s2 = distance s1" "output_capacity s2 = output_capacity s1"
    by (rule put_literal_written [OF ok1])
  have w2: "written s2 = written s @ [b]" using s2(3) s1(3) by (simp add: written_bit_step)
  have pass: "codes_pass s = Some (s2, Inr True)"
    using unat_u8_less [of b]
    by (simp add: codes_pass_def s1(1) s2(1) inflate_consts del: unat_u8_less)
  have "\<exists>s'. v9x_inflate_codes s2 = Some (s', Inr ()) \<and> inflate_ok s' \<and> bit_stream s' = rest \<and>
      written s' = expand (written s2) ts \<and> output_capacity s' = output_capacity s2"
    using literal.prems s1 s2 unfolding w2
    by (intro literal.IH [of s2, unfolded w2]) (auto simp: bit_stepD)
  then show ?case
    using s1(3) s2(7) by (subst v9x_inflate_codes.simps) (simp add: pass w2 bit_stepD)
next
  case (match ts bits i j e e')
  let ?n = "v9x_inflate_length_base ! i + bits_value e"
  let ?d = "v9x_inflate_distance_base ! j + bits_value e'"
  obtain s1 where s1: "v9x_inflate_decode s (litlen s) = Some (s1, Inr (257 + i))" "bits_ok s1"
      "bit_step s s1" "bit_stream s1 = e @ code_bits ds j @ e' @ bits @ rest"
    using v9x_inflate_decode_complete [OF match.prems(2) match.hyps(3,4)
        inflate_ok_bits [OF match.prems(1)], of "e @ code_bits ds j @ e' @ bits @ rest"]
      match.prems(4) by auto
  obtain s2 where s2: "v9x_inflate_bits s1 (v9x_inflate_length_extra ! i) = Some (s2, Inr (bits_value e))"
      "bits_ok s2" "bit_step s1 s2" "bit_stream s2 = code_bits ds j @ e' @ bits @ rest"
    by (rule v9x_inflate_bits_ok [OF s1(2) length_extra_le [OF match.hyps(2)] s1(4) match.hyps(8)])
  have d2: "coded (distance s2) ds" using match.prems(3) s1(3) s2(3) by (simp add: bit_stepD)
  obtain s3 where s3: "v9x_inflate_decode s2 (distance s2) = Some (s3, Inr j)" "bits_ok s3"
      "bit_step s2 s3" "bit_stream s3 = e' @ bits @ rest"
    by (rule v9x_inflate_decode_complete [OF d2 match.hyps(6,7) s2(2,4)])
  obtain s4 where s4: "v9x_inflate_bits s3 (v9x_inflate_distance_extra ! j) = Some (s4, Inr (bits_value e'))"
      "bits_ok s4" "bit_step s3 s4" "bit_stream s4 = bits @ rest"
    by (rule v9x_inflate_bits_ok [OF s3(2) distance_extra_le [OF match.hyps(5)] s3(4) match.hyps(9)])
  have step: "bit_step s s4" using s1(3) s2(3) s3(3) s4(3) by (blast intro: bit_step_trans)
  have ok4: "inflate_ok s4" using match.prems(1) step s4(2) by (rule bit_step_ok)
  have w: "length (written s) = output_position s" by (rule length_written [OF match.prems(1)])
  have "length (match_bytes (written s) ?d ?n) \<le> length (expand (match_bytes (written s) ?d ?n) ts)"
    by (rule length_expand)
  then have room: "output_position s4 + ?n \<le> output_capacity s4" "0 < ?d" "?d \<le> output_position s4"
    using match.prems(5,6) w step by (simp_all add: bit_stepD)
  obtain s5 where s5: "put_match s4 ?n ?d = Some (s5, Inr True)" "inflate_ok s5"
      "written s5 = match_bytes (written s4) ?d ?n" "bit_stream s5 = bit_stream s4"
      "litlen s5 = litlen s4" "distance s5 = distance s4" "output_capacity s5 = output_capacity s4"
    by (rule put_match_written [OF ok4 room(2,3,1)])
  have w5: "written s5 = match_bytes (written s) ?d ?n" using s5(3) step by (simp add: written_bit_step)
  have "read_match s1 i = Some (s5, Inr True)"
    using match.hyps(5) by (simp add: read_match_def Let_def s2(1) s3(1) s4(1) s5(1) inflate_consts)
  then have pass: "codes_pass s = Some (s5, Inr True)"
    using match.hyps(2) by (simp add: codes_pass_def s1(1) inflate_consts)
  have "\<exists>s'. v9x_inflate_codes s5 = Some (s', Inr ()) \<and> inflate_ok s' \<and> bit_stream s' = rest \<and>
      written s' = expand (written s5) ts \<and> output_capacity s' = output_capacity s5"
    using match.prems step s4(4) s5 w5
    by (intro match.IH [of s5]) (auto simp: bit_stepD)
  then show ?case
    using step s5(7) by (subst v9x_inflate_codes.simps) (simp add: pass w5 bit_stepD)
qed

subsection \<open>Blocks\<close>

definition fixed_distance_lengths :: "nat list" where
  "fixed_distance_lengths = replicate 32 5"

inductive deflate_block :: "bool list \<Rightarrow> bytes \<Rightarrow> bool \<Rightarrow> bytes \<Rightarrow> bool list \<Rightarrow> bool" where
  stored: "length pad < 8 \<Longrightarrow> 8 dvd length rest \<Longrightarrow> length data < 65536 \<Longrightarrow>
    deflate_block ([final, False, False] @ pad @
      bits_of_bytes (le16 (of_nat (length data)) @ le16 (NOT (of_nat (length data))) @ data) @ rest)
      out final (out @ data) rest"
| fixed: "tokens_bits fixed_litlen_lengths fixed_distance_lengths ts bits \<Longrightarrow> expands out ts \<Longrightarrow>
    deflate_block ([final, True, False] @ bits @ rest) out final (expand out ts) rest"

inductive deflates :: "bool list \<Rightarrow> bytes \<Rightarrow> bytes \<Rightarrow> bool list \<Rightarrow> bool" where
  last_block: "deflate_block stream out True out' rest \<Longrightarrow> deflates stream out out' rest"
| next_block: "deflate_block stream out False out' rest \<Longrightarrow> deflates rest out' out'' rest' \<Longrightarrow>
    deflates stream out out'' rest'"

lemma byte_bits_inj: "byte_bits a = byte_bits b \<Longrightarrow> a = b"
  unfolding byte_bits_def by (rule bit_word_eqI) auto

lemma bits_of_bytes_prefix:
  "bits_of_bytes us = bits_of_bytes xs @ rest \<Longrightarrow> \<exists>ys. us = xs @ ys \<and> bits_of_bytes ys = rest"
proof (induction xs arbitrary: us)
  case (Cons x xs)
  then have "length (bits_of_bytes us) = length (bits_of_bytes (x # xs) @ rest)" by simp
  then obtain u us' where us: "us = u # us'" by (cases us) auto
  with Cons.prems have "byte_bits u = byte_bits x" "bits_of_bytes us' = bits_of_bytes xs @ rest"
    by (simp_all add: append_eq_append_conv)
  with Cons.IH [of us'] us byte_bits_inj show ?case by auto
qed simp

lemma unread_drop:
  "unread (s\<lparr>bit_buffer := b, bit_count := c, input_position := input_position s + n\<rparr>) = drop n (unread s)"
  by (simp add: unread_def drop_take add.commute)

text \<open>LEN and NLEN of a stored block.\<close>

lemma stored_length:
  assumes "n < 65536"
  defines "w \<equiv> of_nat n :: u16"
  defines "b0 \<equiv> ucast (w AND 0xff) :: u8" and "b1 \<equiv> ucast (drop_bit 8 w AND 0xff) :: u8"
    and "c0 \<equiv> ucast (NOT w AND 0xff) :: u8" and "c1 \<equiv> ucast (drop_bit 8 (NOT w) AND 0xff) :: u8"
  shows "unat (ucast b0 OR push_bit 8 (ucast b1) :: u32) = n"
    and "(ucast b0 OR push_bit 8 (ucast b1) :: u32) =
      NOT (ucast c0 OR push_bit 8 (ucast c1)) AND 0xFFFF"
proof -
  have word: "(ucast (ucast (x AND 0xff) :: u8) OR push_bit 8 (ucast (ucast (drop_bit 8 x AND 0xff) :: u8)) :: u32)
      = ucast x" for x :: u16
  proof (rule bit_word_eqI)
    fix i
    show "bit (ucast (ucast (x AND 0xff) :: u8) OR push_bit 8 (ucast (ucast (drop_bit 8 x AND 0xff) :: u8)) :: u32) i
        = bit (ucast x :: u32) i"
      using bit_imp_le_length [of x i] by (cases "i < 8") (auto simp: bit_simps and_0xff)
  qed
  show "unat (ucast b0 OR push_bit 8 (ucast b1) :: u32) = n"
    using assms(1) unfolding b0_def b1_def word
    by (simp add: w_def unsigned_ucast_eq unat_of_nat take_bit_nat_eq_self)
  have "(ucast w :: u32) = NOT (ucast (NOT w)) AND 0xFFFF"
    using bit_imp_le_length [of w]
    by (intro bit_word_eqI) (auto simp: bit_simps and_0xffff)
  then show "(ucast b0 OR push_bit 8 (ucast b1) :: u32) =
      NOT (ucast c0 OR push_bit 8 (ucast c1)) AND 0xFFFF"
    unfolding b0_def b1_def c0_def c1_def word .
qed

lemma v9x_inflate_stored_complete:
  assumes "inflate_ok s" "length pad < 8" "8 dvd length rest" "length data < 65536"
    "bit_stream s = pad @
      bits_of_bytes (le16 (of_nat (length data)) @ le16 (NOT (of_nat (length data))) @ data) @ rest"
    "length (written s) + length data \<le> output_capacity s"
  shows "\<exists>s'. v9x_inflate_stored s = Some (s', Inr ()) \<and> inflate_ok s' \<and> bit_stream s' = rest \<and>
    written s' = written s @ data \<and> output_capacity s' = output_capacity s"
proof -
  define head where "head = le16 (of_nat (length data)) @ le16 (NOT (of_nat (length data)))"
  have len_head: "length head = 4" by (simp add: head_def)
  have "length (bit_stream s) = bit_count s + 8 * length (unread s)" by (simp add: bit_stream_def)
  moreover have "length (bit_stream s) = length pad + 8 * (length head + length data) + length rest"
    unfolding assms(5) by (simp add: head_def)
  moreover obtain k where "length rest = 8 * k" using assms(3) by (rule dvdE)
  ultimately have "bit_count s + 8 * length (unread s) =
      length pad + 8 * (length head + length data + k)"
    by simp
  then have "bit_count s mod 8 = length pad mod 8" by (metis mod_mult_self2)
  then have cnt: "bit_count s = length pad"
    using assms(1,2) by (simp add: inflate_ok_def bits_ok_def)
  then have "bits_of_bytes (unread s) = bits_of_bytes (head @ data) @ rest"
    using assms(5) by (simp add: bit_stream_def head_def)
  then obtain ys where ys: "unread s = (head @ data) @ ys" "bits_of_bytes ys = rest"
    using bits_of_bytes_prefix by blast
  let ?p = "input_position s" and ?in = "input_bytes s" and ?n = "length data"
  have in_len: "?p + 4 + ?n \<le> input_length s" "input_length s \<le> length ?in"
  proof -
    have "length (unread s) \<le> input_length s - ?p" by (simp add: unread_def)
    then show "?p + 4 + ?n \<le> input_length s" "input_length s \<le> length ?in"
      using assms(1) len_head unfolding ys by (auto simp: inflate_ok_def bits_ok_def)
  qed
  have drop: "take (input_length s - ?p) (drop ?p ?in) = head @ data @ ys"
    using ys(1) by (simp add: unread_def)
  have rd: "rd ?in (?p + i) = Some (head ! i)" if "i < 4" for i
    using arg_cong [OF drop, of "\<lambda>xs. xs ! i"] that in_len len_head
    by (simp add: rd_def nth_append)
  have bytes: "rds ?in (?p + 4) ?n = Some data"
  proof -
    have "take ?n (drop 4 (take (input_length s - ?p) (drop ?p ?in))) = data"
      unfolding drop using len_head by simp
    moreover have "?n \<le> input_length s - (?p + 4)" using in_len by simp
    ultimately show ?thesis using in_len by (simp add: rds_Some drop_take min_def add.commute)
  qed
  have wr: "wrs (output_bytes s) (output_position s) data =
      Some (written s @ data @ drop (output_position s + ?n) (output_bytes s))"
    unfolding written_def
    by (rule wrs_Some) (use assms(1,6) length_written [OF assms(1)] in \<open>simp add: inflate_ok_def\<close>)
  let ?s' = "s\<lparr>bit_buffer := 0, bit_count := 0\<rparr>\<lparr>output_bytes := written s @ data @
        drop (output_position s + ?n) (output_bytes s), output_position := output_position s + ?n,
        input_position := ?p + 4 + ?n\<rparr>"
  have head: "head ! 0 = ucast (of_nat ?n AND 0xff :: u16)"
    "head ! Suc 0 = ucast (drop_bit 8 (of_nat ?n) AND 0xff :: u16)"
    "head ! 2 = ucast (NOT (of_nat ?n) AND 0xff :: u16)"
    "head ! 3 = ucast (drop_bit 8 (NOT (of_nat ?n)) AND 0xff :: u16)"
    by (simp_all add: head_def le16_def)
  have n: "unat (stored_len (head ! 0) (head ! Suc 0)) = ?n"
    and ok: "stored_len (head ! 0) (head ! Suc 0) = NOT (stored_len (head ! 2) (head ! 3)) AND 0xFFFF"
    unfolding head stored_len_def by (rule stored_length [OF assms(4)])+
  have rds4: "rd ?in ?p = Some (head ! 0)" "rd ?in (?p + 1) = Some (head ! Suc 0)"
    "rd ?in (?p + 2) = Some (head ! 2)" "rd ?in (?p + 3) = Some (head ! 3)"
    using rd [of 0] rd [of 1] rd [of 2] rd [of 3] by simp_all
  have w: "length (written s) = output_position s" by (rule length_written [OF assms(1)])
  have "\<not> output_capacity s - output_position s < ?n" "\<not> input_length s - (?p + 4) < ?n"
    "\<not> input_length s - ?p < 4"
    using in_len assms(6) w by auto
  then have "v9x_inflate_stored s = Some (?s', Inr ())"
    using v9x_inflate_stored_eq [OF _ rds4]
    by (simp add: Let_def n ok [symmetric] bytes wr)
  moreover have "inflate_ok ?s'"
    using assms(1,6) in_len w by (simp add: inflate_ok_def bits_ok_def)
  moreover have "unread ?s' = ys"
    using arg_cong [OF drop, of "drop (4 + ?n)"] len_head
    by (simp add: unread_def drop_take ac_simps)
  then have "bit_stream ?s' = rest" using ys(2) by (simp add: bit_stream_def)
  moreover have "written ?s' = written s @ data"
    using w by (simp add: written_def)
  ultimately show ?thesis by (intro exI [of _ ?s']) simp
qed

text \<open>The two fixed codes are canonical codes; their Kraft sums are evaluated.\<close>

lemma build_litlen_complete:
  assumes "inflate_ok s" "n \<le> 288" "n \<le> length lens" "valid_lengths single (take n lens)"
  obtains c where "build_litlen s lens n single = Some (s\<lparr>litlen := c\<rparr>, Inr ())"
    "coded c (take n lens)"
proof -
  have "outcome (v9x_inflate_build (litlen s) lens n single)
    (\<lambda>e c. e = V9X_INFLATE_BAD_LENGTHS \<and> \<not> valid_lengths single (take n lens) \<and> length (csymbol c) = 288)
    (\<lambda>_ c. valid_lengths single (take n lens) \<and> coded c (take n lens))"
    by (rule v9x_inflate_build_spec) (use assms in \<open>auto simp: inflate_ok_def\<close>)
  then show thesis
    using assms(4) that by (auto simp: build_litlen_def elim!: outcome_cases)
qed

lemma build_distance_complete:
  assumes "inflate_ok s" "n \<le> 288" "n \<le> length lens" "valid_lengths single (take n lens)"
  obtains c where "build_distance s lens n single = Some (s\<lparr>distance := c\<rparr>, Inr ())"
    "coded c (take n lens)"
proof -
  have "outcome (v9x_inflate_build (distance s) lens n single)
    (\<lambda>e c. e = V9X_INFLATE_BAD_LENGTHS \<and> \<not> valid_lengths single (take n lens) \<and> length (csymbol c) = 288)
    (\<lambda>_ c. valid_lengths single (take n lens) \<and> coded c (take n lens))"
    by (rule v9x_inflate_build_spec) (use assms in \<open>auto simp: inflate_ok_def\<close>)
  then show thesis
    using assms(4) that by (auto simp: build_distance_def elim!: outcome_cases)
qed

lemma fixed_litlen_eq:
  "fixed_litlen_lengths = replicate 144 8 @ replicate 112 9 @ replicate 24 7 @ replicate 8 8"
  by (rule nth_equalityI)
    (auto simp: fixed_litlen_lengths_def V9X_INFLATE_LITLEN_SYMBOLS_def nth_append)

lemma count_list_replicate: "count_list (replicate n x) y = (if x = y then n else 0)"
  by (induction n) auto

lemma code_end_numeral: "code_end ls (numeral n) = 2 * code_end ls (pred_numeral n) + count_list ls (numeral n)"
  by (simp add: numeral_eq_Suc)

lemma upto_15: "(\<forall>l\<in>{1..15::nat}. P l) \<longleftrightarrow>
    list_all P [1, 2, 3, 4, 5, 6, 7, 8, 9, 10, 11, 12, 13, 14, 15]"
proof -
  have "[1..<16] = [1, 2, 3, 4, 5, 6, 7, 8, 9, 10, 11, 12, 13, 14, 15::nat]" by code_simp
  moreover have "{1..15::nat} = set [1..<16]" by auto
  ultimately show ?thesis by (simp only: list_all_iff)
qed

lemma fixed_litlen_valid: "valid_lengths False fixed_litlen_lengths"
  unfolding valid_lengths_def kraft_def fixed_litlen_eq upto_15
  by (simp add: code_end_numeral count_list_replicate)

lemma fixed_distance_valid: "valid_lengths False fixed_distance_lengths"
  unfolding valid_lengths_def kraft_def fixed_distance_lengths_def upto_15
  by (simp add: code_end_numeral count_list_replicate)

lemma v9x_inflate_fixed_complete:
  assumes "inflate_ok s" "tokens_bits fixed_litlen_lengths fixed_distance_lengths ts bits"
    "bit_stream s = bits @ rest" "expands (written s) ts"
    "length (expand (written s) ts) \<le> output_capacity s"
  shows "\<exists>s'. v9x_inflate_fixed s = Some (s', Inr ()) \<and> inflate_ok s' \<and> bit_stream s' = rest \<and>
    written s' = expand (written s) ts \<and> output_capacity s' = output_capacity s"
proof -
  let ?l = "fixed_litlen_lengths @ drop 288 (lengths s)"
  let ?d = "replicate 32 5 @ drop 32 ?l"
  have len: "length fixed_litlen_lengths = 288" "length (lengths s) = 320"
    using assms by (simp_all add: fixed_litlen_lengths_def V9X_INFLATE_LITLEN_SYMBOLS_def inflate_ok_def)
  have w: "wrs (lengths s) 0 fixed_litlen_lengths = Some ?l"
    using wrs_Some [of 0 fixed_litlen_lengths "lengths s"] len by simp
  have ok1: "inflate_ok (s\<lparr>lengths := ?l\<rparr>)"
    using inflate_ok_lengths(1) [OF assms(1), of ?l] len by simp
  obtain c where c: "build_litlen (s\<lparr>lengths := ?l\<rparr>) ?l 288 False =
      Some (s\<lparr>lengths := ?l\<rparr>\<lparr>litlen := c\<rparr>, Inr ())" "coded c (take 288 ?l)"
    by (rule build_litlen_complete [OF ok1, of 288 ?l False])
      (use len fixed_litlen_valid in auto)
  let ?s1 = "s\<lparr>lengths := ?l\<rparr>\<lparr>litlen := c\<rparr>"
  have wd: "wrs (lengths ?s1) 0 (replicate 32 5) = Some ?d"
    using wrs_Some [of 0 "replicate 32 5" ?l] len by simp
  have ok2: "inflate_ok (?s1\<lparr>lengths := ?d\<rparr>)"
    using assms(1) c(2) len by (simp add: inflate_ok_def bits_ok_def coded_def)
  obtain d where d: "build_distance (?s1\<lparr>lengths := ?d\<rparr>) ?d 32 False =
      Some (?s1\<lparr>lengths := ?d\<rparr>\<lparr>distance := d\<rparr>, Inr ())" "coded d (take 32 ?d)"
    by (rule build_distance_complete [OF ok2, of 32 ?d False])
      (use fixed_distance_valid in \<open>simp_all add: fixed_distance_lengths_def\<close>)
  let ?s2 = "?s1\<lparr>lengths := ?d\<rparr>\<lparr>distance := d\<rparr>"
  have ok3: "inflate_ok ?s2" using ok2 d(2) by (simp add: inflate_ok_def bits_ok_def coded_def)
  have "v9x_inflate_fixed s = v9x_inflate_codes ?s2"
    by (simp only: v9x_inflate_fixed_def inflate_consts w c(1) wd d(1) Option.bind.bind_lunit andthen_simps)
  moreover have "\<exists>s'. v9x_inflate_codes ?s2 = Some (s', Inr ()) \<and> inflate_ok s' \<and> bit_stream s' = rest \<and>
    written s' = expand (written ?s2) ts \<and> output_capacity s' = output_capacity ?s2"
    by (rule v9x_inflate_codes_complete [OF assms(2) ok3])
      (use c(2) d(2) len assms in
        \<open>simp_all add: fixed_distance_lengths_def bit_stream_def unread_def written_def\<close>)
  ultimately show ?thesis by (simp add: written_def)
qed

lemma block_header:
  assumes "inflate_ok s" "bit_stream s = [final] @ kind @ tail" "length kind = 2"
  obtains s1 s2 where "v9x_inflate_bits s 1 = Some (s1, Inr (of_bool final))"
    "v9x_inflate_bits s1 2 = Some (s2, Inr (bits_value kind))" "inflate_ok s2" "bit_stream s2 = tail"
    "written s2 = written s" "output_capacity s2 = output_capacity s"
proof -
  obtain s1 where s1: "v9x_inflate_bits s 1 = Some (s1, Inr (bits_value [final]))" "bits_ok s1"
      "bit_step s s1" "bit_stream s1 = kind @ tail"
    by (rule v9x_inflate_bits_ok [OF inflate_ok_bits [OF assms(1)] _ assms(2)]) auto
  obtain s2 where s2: "v9x_inflate_bits s1 2 = Some (s2, Inr (bits_value kind))" "bits_ok s2"
      "bit_step s1 s2" "bit_stream s2 = tail"
    by (rule v9x_inflate_bits_ok [OF s1(2) _ s1(4) assms(3)]) auto
  have step: "bit_step s s2" using s1(3) s2(3) by (rule bit_step_trans)
  show thesis
    by (rule that [OF _ s2(1) bit_step_ok [OF assms(1) step s2(2)] s2(4)])
      (use s1(1) step in \<open>simp_all add: written_bit_step bit_stepD\<close>)
qed

lemma inflate_block_complete:
  assumes "deflate_block stream out final out' rest" "inflate_ok s" "bit_stream s = stream"
    "written s = out" "length out' \<le> output_capacity s"
  shows "\<exists>s'. inflate_block s = Some (s', Inr (of_bool final)) \<and> inflate_ok s' \<and>
    bit_stream s' = rest \<and> written s' = out' \<and> output_capacity s' = output_capacity s"
  using assms(1)
proof cases
  case (stored pad data)
  obtain s1 s2 where h: "v9x_inflate_bits s 1 = Some (s1, Inr (of_bool final))"
    "v9x_inflate_bits s1 2 = Some (s2, Inr (bits_value [False, False]))" "inflate_ok s2"
    "bit_stream s2 = pad @ bits_of_bytes
      (le16 (of_nat (length data)) @ le16 (NOT (of_nat (length data))) @ data) @ rest"
    "written s2 = written s" "output_capacity s2 = output_capacity s"
    by (rule block_header [OF assms(2), of final "[False, False]"]) (use assms(3) stored in auto)
  obtain s3 where "v9x_inflate_stored s2 = Some (s3, Inr ())" "inflate_ok s3" "bit_stream s3 = rest"
    "written s3 = written s2 @ data" "output_capacity s3 = output_capacity s2"
    using v9x_inflate_stored_complete [OF h(3) stored(3-5) h(4)] h(5,6) assms(4,5) stored(2) by auto
  then show ?thesis
    using h assms(4) stored(2) by (auto simp: inflate_block_def inflate_consts)
next
  case (fixed ts bits)
  obtain s1 s2 where h: "v9x_inflate_bits s 1 = Some (s1, Inr (of_bool final))"
    "v9x_inflate_bits s1 2 = Some (s2, Inr (bits_value [True, False]))" "inflate_ok s2"
    "bit_stream s2 = bits @ rest" "written s2 = written s" "output_capacity s2 = output_capacity s"
    by (rule block_header [OF assms(2), of final "[True, False]"]) (use assms(3) fixed in auto)
  obtain s3 where "v9x_inflate_fixed s2 = Some (s3, Inr ())" "inflate_ok s3" "bit_stream s3 = rest"
    "written s3 = expand (written s2) ts" "output_capacity s3 = output_capacity s2"
    using v9x_inflate_fixed_complete [OF h(3) fixed(3) h(4)] h(5,6) assms(4,5) fixed(2,4) by auto
  then show ?thesis
    using h assms(4) fixed(2) by (auto simp: inflate_block_def inflate_consts)
qed

lemma deflate_block_length: "deflate_block stream out final out' rest \<Longrightarrow> length out \<le> length out'"
  by (induction rule: deflate_block.induct) (simp_all add: length_expand)

lemma deflates_length: "deflates stream out out' rest \<Longrightarrow> length out \<le> length out'"
  by (induction rule: deflates.induct) (auto dest: deflate_block_length)

lemma inflate_blocks_complete:
  assumes "deflates stream out out' rest" "inflate_ok s" "bit_stream s = stream" "written s = out"
    "length out' \<le> output_capacity s"
  shows "\<exists>s'. inflate_blocks s = Some (s', Inr ()) \<and> inflate_ok s' \<and> bit_stream s' = rest \<and> written s' = out'"
  using assms
proof (induction arbitrary: s rule: deflates.induct)
  case (last_block stream out out' rest)
  then show ?case
    using inflate_block_complete [OF last_block.hyps last_block.prems]
    by (subst inflate_blocks.simps) auto
next
  case (next_block stream out out' rest out'' rest')
  have "length out' \<le> output_capacity s"
    using deflates_length [OF next_block.hyps(2)] next_block.prems(4) by simp
  then obtain s1 where "inflate_block s = Some (s1, Inr (of_bool False))" "inflate_ok s1"
      "bit_stream s1 = rest" "written s1 = out'" "output_capacity s1 = output_capacity s"
    using inflate_block_complete [OF next_block.hyps(1) next_block.prems(1-3)] by blast
  with next_block.IH [of s1] next_block.prems(4) show ?case
    by (subst inflate_blocks.simps) auto
qed

subsection \<open>The promises of inflate.h\<close>

text \<open>C6. Memory safety of the decoder, for arbitrary input bytes, an arbitrary scratch state and an
  output buffer of any capacity: \<open>v9x_inflate\<close> returns (it is a total function and never \<open>None\<close>),
  so it reads only the declared input and writes only below the capacity; it reports at most the
  capacity, leaves the input and everything past the reported length as they were.\<close>

theorem inflate_memory_safe:
  assumes "scratch_ok st" "n \<le> length inp" "cap \<le> length out"
  shows "\<exists>status s'. v9x_inflate st (Some inp) n (Some out) cap (Some k) =
      Some (status, Some s', Some (output_position s')) \<and>
    output_position s' \<le> cap \<and> input_bytes s' = inp \<and> length (output_bytes s') = length out \<and>
    drop (output_position s') (output_bytes s') = drop (output_position s') out"
proof -
  let ?s = "inflate_begin st (Some inp) n (Some out) cap"
  have "safe ?s (\<lambda>_ s'. True) (inflate_blocks ?s)"
    by (rule safe_blocks [OF inflate_begin_ok [OF assms]])
  then show ?thesis
    by (auto simp: v9x_inflate_def v9x_inflate_with_state_def safe_def extends_def inflate_begin_def
        elim!: outcome_cases)
qed

theorem inflate_memory_safe_witness:
  "\<exists>status s'. v9x_inflate zero_scratch (Some [0x4B, 0x04, 0xFF]) 3 (Some [0, 0]) 2 (Some 7) =
      Some (status, Some s', Some (output_position s')) \<and>
    output_position s' \<le> 2 \<and> input_bytes s' = [0x4B, 0x04, 0xFF] \<and> length (output_bytes s') = length [0, 0 :: u8] \<and>
    drop (output_position s') (output_bytes s') = drop (output_position s') [0, 0]"
  by (rule inflate_memory_safe [OF zero_scratch_ok]) simp_all

lemma inflate_decodes_eq:
  assumes "deflates (bits_of_bytes inp) [] data rest" "length data \<le> cap" "cap \<le> length out"
    "scratch_ok st"
  shows "\<exists>s'. v9x_inflate st (Some inp) (length inp) (Some out) cap (Some k) =
      Some (V9X_INFLATE_OK, Some s', Some (length data)) \<and> take (length data) (output_bytes s') = data"
proof -
  let ?s = "inflate_begin st (Some inp) (length inp) (Some out) cap"
  have ok: "inflate_ok ?s" by (rule inflate_begin_ok [OF assms(4) le_refl assms(3)])
  have "bit_stream ?s = bits_of_bytes inp" "written ?s = []" "output_capacity ?s = cap"
    by (simp_all add: bit_stream_def unread_def inflate_begin_def written_def)
  then obtain s' where s': "inflate_blocks ?s = Some (s', Inr ())" "inflate_ok s'" "written s' = data"
    using inflate_blocks_complete [OF assms(1) ok] assms(2) by auto
  have "output_position s' = length data" using length_written [OF s'(2)] s'(3) by simp
  then show ?thesis
    using s' by (simp add: v9x_inflate_def v9x_inflate_with_state_def written_def)
qed

text \<open>C10. The decoder decodes Deflate: whatever sequence of stored blocks and fixed-code blocks the
  input is (any literals and matches, any of the equivalent ways to code them), the output is the
  data it stands for, \<open>*output_length\<close> is its size, and what follows the last block is ignored.\<close>

theorem inflate_decodes:
  assumes "deflates (bits_of_bytes inp) [] data rest" "length data \<le> cap" "cap \<le> length out"
    "scratch_ok st"
  shows "\<exists>s'. v9x_inflate st (Some inp) (length inp) (Some out) cap (Some k) =
      Some (V9X_INFLATE_OK, Some s', Some (length data)) \<and> take (length data) (output_bytes s') = data"
  by (rule inflate_decodes_eq [OF assms])

theorem inflate_decodes_witness:
  "\<exists>s'. v9x_inflate zero_scratch (Some [0x01, 0x01, 0x00, 0xFE, 0xFF, 0x41])
      (length [0x01, 0x01, 0x00, 0xFE, 0xFF, 0x41 :: u8]) (Some [0, 0, 0]) 2 (Some 0) =
      Some (V9X_INFLATE_OK, Some s', Some (length [0x41 :: u8])) \<and>
    take (length [0x41 :: u8]) (output_bytes s') = [0x41]"
proof (rule inflate_decodes [OF deflates.last_block _ _ zero_scratch_ok])
  have eq: "bits_of_bytes [0x01, 0x01, 0x00, 0xFE, 0xFF, 0x41] = [True, False, False] @ replicate 5 False @
      bits_of_bytes (le16 (of_nat (length [0x41 :: u8])) @ le16 (NOT (of_nat (length [0x41 :: u8]))) @ [0x41]) @ []"
    by code_simp
  show "deflate_block (bits_of_bytes [0x01, 0x01, 0x00, 0xFE, 0xFF, 0x41]) [] True [0x41] []"
    using deflate_block.stored [of "replicate 5 False" "[]" "[0x41]" True "[]"] unfolding eq by simp
qed simp_all

text \<open>C28. The canonical codes: the table building accepts exactly the complete sets of code lengths
  (and the single distance code RFC 1951 allows), answers \<open>BAD_LENGTHS\<close> for every other set, and the
  tables it builds turn the code word of any symbol back into the symbol, leaving the rest of the
  stream unread.\<close>

theorem huffman_code_roundtrip:
  assumes "length (csymbol code) = 288" "length ls \<le> 288"
  shows "if valid_lengths single ls
    then \<exists>c. v9x_inflate_build code ls (length ls) single = Some (c, Inr ()) \<and>
      (\<forall>k s rest. k < length ls \<longrightarrow> 0 < ls ! k \<longrightarrow> bits_ok s \<longrightarrow> bit_stream s = code_bits ls k @ rest \<longrightarrow>
         (\<exists>s'. v9x_inflate_decode s c = Some (s', Inr k) \<and> bit_stream s' = rest))
    else \<exists>c. v9x_inflate_build code ls (length ls) single = Some (c, Inl V9X_INFLATE_BAD_LENGTHS)"
proof -
  have build: "outcome (v9x_inflate_build code ls (length ls) single)
    (\<lambda>e c. e = V9X_INFLATE_BAD_LENGTHS \<and> \<not> valid_lengths single ls \<and> length (csymbol c) = 288)
    (\<lambda>_ c. valid_lengths single ls \<and> coded c ls)"
    using v9x_inflate_build_spec [OF assms, of ls single] by simp
  show ?thesis
  proof (cases "valid_lengths single ls")
    case False
    then show ?thesis using build by (auto elim!: outcome_cases)
  next
    case True
    then obtain c where c: "v9x_inflate_build code ls (length ls) single = Some (c, Inr ())" "coded c ls"
      using build by (auto elim!: outcome_cases)
    have "\<exists>s'. v9x_inflate_decode s c = Some (s', Inr k) \<and> bit_stream s' = rest"
      if "k < length ls" "0 < ls ! k" "bits_ok s" "bit_stream s = code_bits ls k @ rest" for k s rest
      using v9x_inflate_decode_complete [OF c(2) that] by metis
    with c(1) True show ?thesis by simp
  qed
qed

theorem huffman_code_roundtrip_witness:
  "\<exists>c. v9x_inflate_build (litlen zero_scratch) [2, 1, 2] (length [2, 1, 2 :: nat]) False = Some (c, Inr ()) \<and>
     (\<exists>s'. v9x_inflate_decode (zero_scratch\<lparr>input_bytes := [0x03], input_length := 1\<rparr>) c = Some (s', Inr 2) \<and>
      bit_stream s' = [False, False, False, False, False, False])"
proof -
  have valid: "valid_lengths False [2, 1, 2]"
    unfolding valid_lengths_def kraft_def upto_15 by (simp add: code_end_numeral)
  have z: "length (csymbol (litlen zero_scratch)) = 288" by (simp add: zero_scratch_def)
  let ?s = "zero_scratch\<lparr>input_bytes := [0x03], input_length := 1\<rparr>"
  have s: "bits_ok ?s" "bit_stream ?s = code_bits [2, 1, 2] 2 @ [False, False, False, False, False, False]"
    by (simp_all add: bits_ok_def zero_scratch_def bit_stream_def unread_def code_bits_def code_word_def
        first_code_def rank_of_def byte_bits_def upt_rec bit_0 bit_numeral_word_iff)
  show ?thesis
    using huffman_code_roundtrip [OF z, of "[2, 1, 2]" False] valid s by auto
qed

text \<open>Progress: every block costs at least three bits of the input and every pass of the Huffman
  loop at least one, so decoding takes no more steps than the input has bits, whatever it holds.\<close>

theorem inflate_progress:
  "(\<forall>s' final. inflate_block s = Some (s', Inr final) \<longrightarrow> bits_left s' + 3 \<le> bits_left s) \<and>
   (\<forall>s' again. codes_pass s = Some (s', Inr again) \<longrightarrow> bits_left s' < bits_left s)"
  by (simp add: inflate_block_left codes_pass_left)

lemma one_bit_block:
  "inflate_block (zero_scratch\<lparr>input_bytes := [1, 0, 0, 0xFF, 0xFF], input_length := 5\<rparr>) =
     Some (zero_scratch\<lparr>input_bytes := [1, 0, 0, 0xFF, 0xFF], input_length := 5, input_position := 5\<rparr>, Inr 1)"
  by code_simp

theorem inflate_progress_witness:
  "bits_left (zero_scratch\<lparr>input_bytes := [1, 0, 0, 0xFF, 0xFF], input_length := 5, input_position := 5\<rparr>) + 3
     \<le> bits_left (zero_scratch\<lparr>input_bytes := [1, 0, 0, 0xFF, 0xFF], input_length := 5\<rparr>)"
  using inflate_progress one_bit_block by blast

end
