(* ===== verification/VnczProps.thy ===== *)
theory VnczProps
  imports Vncz InflateSpec
begin

section \<open>The deflate encoder of the VNC server round-trips\<close>

text \<open>
  \<open>puts s bs r\<close> says what a step of the encoder does to its sink: unless the sink has failed it has
  appended the bits \<open>bs\<close>, and it cannot fail while the capacity has room for them. The steps are
  put together into the tokens of one fixed-code block, in the declarative Deflate the decoder is
  compared with, so that encoder and decoder meet in one specification.
\<close>

subsection \<open>The sink as a list of bits\<close>

definition low_bits :: "u32 \<Rightarrow> nat \<Rightarrow> bool list" where
  "low_bits v n = map (bit v) [0..<n]"

definition sink_ok :: "vnc_bits \<Rightarrow> bool" where
  "sink_ok s \<longleftrightarrow> sink_count s < 8 \<and> take_bit (sink_count s) (sink_bits s) = sink_bits s \<and>
     sink_length s \<le> sink_capacity s \<and> sink_capacity s \<le> length (sink_out s)"

definition sink_stream :: "vnc_bits \<Rightarrow> bool list" where
  "sink_stream s = bits_of_bytes (take (sink_length s) (sink_out s)) @ low_bits (sink_bits s) (sink_count s)"

definition puts :: "vnc_bits \<Rightarrow> bool list \<Rightarrow> vnc_bits option \<Rightarrow> bool" where
  "puts s bs r \<longleftrightarrow>
     (\<exists>s'. r = Some s' \<and> sink_ok s' \<and> sink_capacity s' = sink_capacity s \<and> length (sink_out s') = length (sink_out s) \<and>
        (sink_failed s \<longrightarrow> sink_failed s') \<and>
        (\<not> sink_failed s' \<longrightarrow> sink_stream s' = sink_stream s @ bs) \<and>
        (\<not> sink_failed s \<and> length (sink_stream s) + length bs \<le> 8 * sink_capacity s \<longrightarrow> \<not> sink_failed s'))"

lemma length_low_bits [simp]: "length (low_bits v n) = n"
  by (simp add: low_bits_def)

lemma low_bits_split: "low_bits v (m + n) = low_bits v m @ low_bits (drop_bit m v) n"
  by (rule nth_equalityI) (auto simp: low_bits_def nth_append bit_simps)

lemma low_bits_byte: "low_bits v 8 = byte_bits (ucast (v AND 0xff))"
  by (auto simp: low_bits_def byte_bits_def and_0xff bit_simps)

lemma low_bits_value: "n \<le> 32 \<Longrightarrow> bits_value (low_bits v n) = unat (take_bit n v)"
  by (simp add: low_bits_def bits_value_map_bit)

lemma take_bit_drop: "take_bit n (v :: u32) = v \<Longrightarrow> take_bit (n - m) (drop_bit m v) = drop_bit m v"
  by (metis drop_bit_take_bit)

lemma flush_ok:
  assumes "take_bit (sink_count s) (sink_bits s) = sink_bits s" "sink_length s \<le> sink_capacity s"
    "sink_capacity s \<le> length (sink_out s)"
  shows "\<exists>s'. vnc_bits_flush s = Some s' \<and> sink_ok s' \<and> sink_capacity s' = sink_capacity s \<and>
    length (sink_out s') = length (sink_out s) \<and> (sink_failed s \<longrightarrow> sink_failed s') \<and>
    (\<not> sink_failed s' \<longrightarrow> sink_stream s' = sink_stream s) \<and>
    (\<not> sink_failed s \<and> length (sink_stream s) \<le> 8 * sink_capacity s \<longrightarrow> \<not> sink_failed s')"
  using assms
proof (induction s rule: vnc_bits_flush.induct)
  case (1 s)
  show ?case
  proof (cases "sink_count s \<ge> 8")
    case False
    then show ?thesis using 1(2-4) by (subst vnc_bits_flush.simps) (simp add: sink_ok_def)
  next
    case long: True
    show ?thesis
    proof (cases "sink_length s \<ge> sink_capacity s")
      case True
      have "8 * sink_capacity s < length (sink_stream s)"
        using long True 1(3,4) by (simp add: sink_stream_def)
      then show ?thesis using long True 1(2-4) by (subst vnc_bits_flush.simps) (simp add: sink_ok_def)
    next
      case False
      define b where "b = (ucast (sink_bits s AND 0xff) :: u8)"
      define s1 where "s1 = s\<lparr>sink_out := (sink_out s)[sink_length s := b], sink_length := sink_length s + 1,
        sink_bits := drop_bit 8 (sink_bits s), sink_count := sink_count s - 8\<rparr>"
      have w: "wr (sink_out s) (sink_length s) b = Some ((sink_out s)[sink_length s := b])"
        using False 1(4) by (simp add: wr_def)
      have step: "vnc_bits_flush s = vnc_bits_flush s1"
        using long False w by (subst vnc_bits_flush.simps) (simp add: b_def [symmetric] s1_def)
      have stream: "sink_stream s1 = sink_stream s"
      proof -
        have "take (sink_length s + 1) ((sink_out s)[sink_length s := b]) = take (sink_length s) (sink_out s) @ [b]"
          using False 1(4) by (simp add: take_Suc_conv_app_nth)
        moreover have "low_bits (sink_bits s) (sink_count s) =
            byte_bits b @ low_bits (drop_bit 8 (sink_bits s)) (sink_count s - 8)"
          using low_bits_split [of "sink_bits s" 8 "sink_count s - 8"] long by (simp add: low_bits_byte b_def)
        ultimately show ?thesis by (simp add: sink_stream_def s1_def)
      qed
      have "\<exists>s'. vnc_bits_flush s1 = Some s' \<and> sink_ok s' \<and> sink_capacity s' = sink_capacity s1 \<and>
        length (sink_out s') = length (sink_out s1) \<and> (sink_failed s1 \<longrightarrow> sink_failed s') \<and>
        (\<not> sink_failed s' \<longrightarrow> sink_stream s' = sink_stream s1) \<and>
        (\<not> sink_failed s1 \<and> length (sink_stream s1) \<le> 8 * sink_capacity s1 \<longrightarrow> \<not> sink_failed s')"
        unfolding s1_def b_def
        by (rule 1(1) [OF long False])
           (use 1(2-4) False w in \<open>auto simp: b_def take_bit_drop\<close>)
      then show ?thesis unfolding step using stream by (simp add: s1_def)
    qed
  qed
qed

lemma puts_put:
  assumes "sink_ok s" "take_bit n v = v" "n \<le> 24"
  shows "puts s (low_bits v n) (vnc_bits_put s v n)"
proof -
  define s1 where "s1 = s\<lparr>sink_bits := sink_bits s OR push_bit (sink_count s) v, sink_count := sink_count s + n\<rparr>"
  have c: "sink_count s < 8" "take_bit (sink_count s) (sink_bits s) = sink_bits s" using assms(1) by (simp_all add: sink_ok_def)
  have low: "bit (sink_bits s) i \<Longrightarrow> i < sink_count s" for i
    using c(2) by (metis bit_take_bit_iff)
  have high: "bit v i \<Longrightarrow> i < n" for i using assms(2) by (metis bit_take_bit_iff)
  have merged: "low_bits (sink_bits s OR push_bit (sink_count s) v) (sink_count s + n) =
      low_bits (sink_bits s) (sink_count s) @ low_bits v n"
    using low c(1) assms(3) by (intro nth_equalityI) (auto simp: low_bits_def nth_append bit_simps)
  then have stream: "sink_stream s1 = sink_stream s @ low_bits v n" by (simp add: s1_def sink_stream_def)
  have "take_bit (sink_count s + n) (sink_bits s OR push_bit (sink_count s) v) = sink_bits s OR push_bit (sink_count s) v"
    by (intro bit_word_eqI) (auto simp: bit_simps dest: low high)
  then have "\<exists>s'. vnc_bits_flush s1 = Some s' \<and> sink_ok s' \<and> sink_capacity s' = sink_capacity s1 \<and>
    length (sink_out s') = length (sink_out s1) \<and> (sink_failed s1 \<longrightarrow> sink_failed s') \<and>
    (\<not> sink_failed s' \<longrightarrow> sink_stream s' = sink_stream s1) \<and>
    (\<not> sink_failed s1 \<and> length (sink_stream s1) \<le> 8 * sink_capacity s1 \<longrightarrow> \<not> sink_failed s')"
    by (intro flush_ok) (use assms(1) in \<open>simp_all add: s1_def sink_ok_def\<close>)
  then show ?thesis
    unfolding puts_def vnc_bits_put_def s1_def [symmetric] stream by (simp add: s1_def)
qed

lemma puts_nothing: "sink_ok s \<Longrightarrow> puts s [] (Some s)"
  by (simp add: puts_def)

lemma puts_bind:
  assumes "puts s xs r" and "\<And>s'. r = Some s' \<Longrightarrow> sink_ok s' \<Longrightarrow> puts s' ys (f s')"
  shows "puts s (xs @ ys) (r \<bind> f)"
proof -
  obtain s' where s': "r = Some s'" "sink_ok s'" "sink_capacity s' = sink_capacity s"
    "length (sink_out s') = length (sink_out s)" "sink_failed s \<longrightarrow> sink_failed s'"
    "\<not> sink_failed s' \<longrightarrow> sink_stream s' = sink_stream s @ xs"
    "\<not> sink_failed s \<and> length (sink_stream s) + length xs \<le> 8 * sink_capacity s \<longrightarrow> \<not> sink_failed s'"
    using assms(1) unfolding puts_def by blast
  obtain s'' where s'': "f s' = Some s''" "sink_ok s''" "sink_capacity s'' = sink_capacity s'"
    "length (sink_out s'') = length (sink_out s')" "sink_failed s' \<longrightarrow> sink_failed s''"
    "\<not> sink_failed s'' \<longrightarrow> sink_stream s'' = sink_stream s' @ ys"
    "\<not> sink_failed s' \<and> length (sink_stream s') + length ys \<le> 8 * sink_capacity s' \<longrightarrow> \<not> sink_failed s''"
    using assms(2) [OF s'(1,2)] unfolding puts_def by blast
  show ?thesis
    unfolding puts_def
  proof (intro exI [of _ s''] conjI impI)
    show "r \<bind> f = Some s''" using s'(1) s''(1) by simp
    show "sink_stream s'' = sink_stream s @ xs @ ys" if "\<not> sink_failed s''"
      using that s'(6) s''(5,6) by auto
    show "\<not> sink_failed s''" if "\<not> sink_failed s \<and> length (sink_stream s) + length (xs @ ys) \<le> 8 * sink_capacity s"
    proof -
      have ok: "\<not> sink_failed s'" using that s'(7) by simp
      then show ?thesis using that s'(3,6) s''(7) by simp
    qed
  qed (use s' s'' in auto)
qed

subsection \<open>Codes\<close>

lemma bit_shift_in: "bit (push_bit 1 r OR (c AND 1)) i \<longleftrightarrow> (if i = 0 then bit c 0 else i < 32 \<and> bit r (i - 1))"
  for r c :: u32
  unfolding bit_or_iff bit_push_bit_iff bit_and_iff bit_1_iff by (cases i) auto

lemma reverse_bits_eq: "n + m \<le> 32 \<Longrightarrow> take_bit m r = r \<Longrightarrow>
    low_bits (reverse_bits n code r) (n + m) = rev (low_bits code n) @ low_bits r m"
proof (induction n arbitrary: code r m)
  case (Suc n)
  define r' where "r' = push_bit 1 r OR (code AND 1)"
  have zero: "bit r i \<Longrightarrow> i < m" for i using Suc.prems(2) by (metis bit_take_bit_iff)
  note r'_bit = bit_shift_in [of r code, folded r'_def]
  have r': "take_bit (Suc m) r' = r'"
  proof (rule bit_word_eqI)
    fix i assume "i < LENGTH(32)"
    then show "bit (take_bit (Suc m) r') i = bit r' i"
      using zero [of "i - 1"] by (cases i) (auto simp: bit_take_bit_iff r'_bit)
  qed
  have "low_bits r' (Suc m) = bit code 0 # low_bits r m"
  proof (rule nth_equalityI)
    fix i assume "i < length (low_bits r' (Suc m))"
    then show "low_bits r' (Suc m) ! i = (bit code 0 # low_bits r m) ! i"
      using Suc.prems(1) by (cases i) (auto simp: low_bits_def r'_bit simp del: upt_Suc)
  qed simp
  moreover have "low_bits code (Suc n) = bit code 0 # low_bits (drop_bit 1 code) n"
    using low_bits_split [of code 1 n] by (simp add: low_bits_def bit_0)
  moreover have "low_bits (reverse_bits n (drop_bit 1 code) r') (n + Suc m) =
      rev (low_bits (drop_bit 1 code) n) @ low_bits r' (Suc m)"
    by (rule Suc.IH) (use Suc.prems r' in auto)
  ultimately show ?case by (simp add: r'_def)
qed (simp add: low_bits_def)

lemma puts_code:
  assumes "sink_ok s" "n \<le> 24"
  shows "puts s (rev (low_bits code n)) (vnc_bits_code s code n)"
proof -
  have "low_bits (reverse_bits n code 0) n = rev (low_bits code n)"
    using reverse_bits_eq [of n 0 0 code] assms(2) by (simp add: low_bits_def)
  moreover have "take_bit n (reverse_bits n code 0) = reverse_bits n code 0"
  proof -
    have "bit (reverse_bits k c r) i \<Longrightarrow> (\<And>j. bit r j \<Longrightarrow> j < m) \<Longrightarrow> i < k + m" for k c r m i
    proof (induction k arbitrary: c r m)
      case (Suc k)
      have "j < Suc m" if "bit (push_bit 1 r OR (c AND 1)) j" for j
        using that Suc.prems(2) [of "j - 1"] unfolding bit_shift_in by (cases j) auto
      then show ?case using Suc.IH [of "drop_bit 1 c" "push_bit 1 r OR (c AND 1)" "Suc m"] Suc.prems(1) by simp
    qed simp
    from this [of n code 0 _ 0] show ?thesis by (intro bit_word_eqI) (auto simp: bit_take_bit_iff)
  qed
  ultimately show ?thesis unfolding vnc_bits_code_def using puts_put [OF assms(1) _ assms(2)] by metis
qed

lemma code_bits_low:
  assumes "ls ! k \<le> 32" "code_word ls k < 4294967296"
  shows "rev (low_bits (of_nat (code_word ls k)) (ls ! k)) = code_bits ls k"
proof -
  have "bit (of_nat (code_word ls k) :: u32) i = bit (code_word ls k) i" if "i < 32" for i
    using that by (simp add: bit_of_nat_iff)
  then have "low_bits (of_nat (code_word ls k)) (ls ! k) = map (bit (code_word ls k)) [0..<ls ! k]"
    using assms(1) by (auto simp: low_bits_def)
  then show ?thesis by (simp add: code_bits_def)
qed

text \<open>The code words of the fixed codes, as RFC 1951 lists them.\<close>

lemma fixed_litlen_ends:
  "code_end fixed_litlen_lengths 6 = 0" "code_end fixed_litlen_lengths 7 = 24" "code_end fixed_litlen_lengths 8 = 200"
  unfolding fixed_litlen_eq by (simp_all add: code_end_numeral count_list_replicate)

lemma fixed_litlen_word:
  assumes "k < 288"
  shows "fixed_litlen_lengths ! k = (if k < 144 then 8 else if k < 256 then 9 else if k < 280 then 7 else 8)"
    "code_word fixed_litlen_lengths k =
      (if k < 144 then 0x30 + k else if k < 256 then 0x190 + k - 144 else if k < 280 then k - 256 else 0xc0 + k - 280)"
proof -
  show len: "fixed_litlen_lengths ! k = (if k < 144 then 8 else if k < 256 then 9 else if k < 280 then 7 else 8)"
    using assms by (simp add: fixed_litlen_lengths_def V9X_INFLATE_LITLEN_SYMBOLS_def)
  show "code_word fixed_litlen_lengths k =
      (if k < 144 then 0x30 + k else if k < 256 then 0x190 + k - 144 else if k < 280 then k - 256 else 0xc0 + k - 280)"
    unfolding code_word_def first_code_def rank_of_def len
    using assms fixed_litlen_ends
    by (auto simp: fixed_litlen_eq take_append min_def count_list_replicate)
qed

lemma puts_symbol:
  assumes "sink_ok s" "k < 288"
  shows "puts s (code_bits fixed_litlen_lengths k) (vnc_symbol s k)"
proof -
  have w: "code_word fixed_litlen_lengths k < 4294967296" "fixed_litlen_lengths ! k \<le> 24"
    using fixed_litlen_word [OF assms(2)] assms(2) by auto
  have "vnc_symbol s k = vnc_bits_code s (of_nat (code_word fixed_litlen_lengths k)) (fixed_litlen_lengths ! k)"
    unfolding vnc_symbol_def fixed_litlen_word [OF assms(2)] by simp
  then show ?thesis
    using puts_code [OF assms(1) w(2), of "of_nat (code_word fixed_litlen_lengths k)"] code_bits_low [OF _ w(1)] w(2) by simp
qed

lemma puts_distance:
  assumes "sink_ok s" "j < 30"
  shows "puts s (code_bits fixed_distance_lengths j) (vnc_bits_code s (of_nat j) 5)"
proof -
  have "code_end fixed_distance_lengths 4 = 0"
    unfolding fixed_distance_lengths_def by (simp add: code_end_numeral count_list_replicate)
  moreover have len: "fixed_distance_lengths ! j = 5" using assms(2) by (simp add: fixed_distance_lengths_def)
  ultimately have "code_word fixed_distance_lengths j = j"
    using assms(2) unfolding code_word_def first_code_def rank_of_def len
    by (simp add: fixed_distance_lengths_def count_list_replicate)
  then show ?thesis
    using puts_code [OF assms(1), of 5 "of_nat j"] code_bits_low [of fixed_distance_lengths j] len assms(2) by simp
qed

subsection \<open>Matches\<close>

lemma tables_same:
  "vnc_length_base = v9x_inflate_length_base" "vnc_length_extra = v9x_inflate_length_extra"
  "vnc_distance_base = v9x_inflate_distance_base" "vnc_distance_extra = v9x_inflate_distance_extra"
  by (simp_all add: vnc_length_base_def v9x_inflate_length_base_def vnc_length_extra_def v9x_inflate_length_extra_def
      vnc_distance_base_def v9x_inflate_distance_base_def vnc_distance_extra_def v9x_inflate_distance_extra_def)

lemma base_index_eq:
  "i < length table \<Longrightarrow> table ! 0 \<le> v \<Longrightarrow>
   \<exists>j. base_index table v i = Some j \<and> j \<le> i \<and> table ! j \<le> v \<and> (j < i \<longrightarrow> v < table ! (j + 1))"
proof (induction i)
  case (Suc i)
  show ?case
  proof (cases "table ! Suc i > v")
    case True
    obtain j where j: "base_index table v i = Some j" "j \<le> i" "table ! j \<le> v" "j < i \<longrightarrow> v < table ! (j + 1)"
      using Suc by auto
    have "v < table ! (j + 1)" using j(2,4) True by (cases "j = i") auto
    then show ?thesis using j True Suc.prems(1) by (auto simp: rd_Some)
  next
    case False
    then show ?thesis using Suc.prems(1) by (auto simp: rd_Some)
  qed
qed (auto simp: rd_def)

lemma length_gaps:
  "list_all (\<lambda>i. vnc_length_base ! (i + 1) \<le> vnc_length_base ! i + 2 ^ (vnc_length_extra ! i)) [0..<28]"
  "list_all (\<lambda>i. vnc_distance_base ! (i + 1) \<le> vnc_distance_base ! i + 2 ^ (vnc_distance_extra ! i)) [0..<29]"
  "list_all (\<lambda>i. (if i < 23 then 7 else 8) + vnc_length_extra ! i + 18 \<le> 9 * vnc_length_base ! i) [0..<29]"
  "list_all (\<lambda>i. vnc_length_extra ! i \<le> 5) [0..<29]" "list_all (\<lambda>i. vnc_distance_extra ! i \<le> 13) [0..<30]"
  by (simp_all add: upt_conv_Cons vnc_length_base_def vnc_length_extra_def vnc_distance_base_def vnc_distance_extra_def)

lemma match_index:
  assumes "3 \<le> n" "n \<le> 258"
  obtains i where "base_index vnc_length_base n 28 = Some i" "i < 29" "vnc_length_base ! i \<le> n"
    "n - vnc_length_base ! i < 2 ^ (vnc_length_extra ! i)"
proof -
  obtain i where i: "base_index vnc_length_base n 28 = Some i" "i \<le> 28" "vnc_length_base ! i \<le> n"
    "i < 28 \<longrightarrow> n < vnc_length_base ! (i + 1)"
    using base_index_eq [of 28 vnc_length_base n] assms(1) by (auto simp: vnc_length_base_def)
  show thesis
  proof (cases "i < 28")
    case True
    then have "vnc_length_base ! (i + 1) \<le> vnc_length_base ! i + 2 ^ (vnc_length_extra ! i)"
      using length_gaps(1) by (simp add: list_all_iff)
    then show thesis using i True by (intro that) auto
  next
    case False
    then have "i = 28" using i(2) by simp
    then show thesis using i assms(2) by (intro that) (auto simp: vnc_length_base_def vnc_length_extra_def)
  qed
qed

lemma distance_index:
  assumes "1 \<le> n" "n \<le> 32768"
  obtains j where "base_index vnc_distance_base n 29 = Some j" "j < 30" "vnc_distance_base ! j \<le> n"
    "n - vnc_distance_base ! j < 2 ^ (vnc_distance_extra ! j)"
proof -
  obtain j where j: "base_index vnc_distance_base n 29 = Some j" "j \<le> 29" "vnc_distance_base ! j \<le> n"
    "j < 29 \<longrightarrow> n < vnc_distance_base ! (j + 1)"
    using base_index_eq [of 29 vnc_distance_base n] assms(1) by (auto simp: vnc_distance_base_def)
  show thesis
  proof (cases "j < 29")
    case True
    then have "vnc_distance_base ! (j + 1) \<le> vnc_distance_base ! j + 2 ^ (vnc_distance_extra ! j)"
      using length_gaps(2) by (simp add: list_all_iff)
    then show thesis using j True by (intro that) auto
  next
    case False
    then have "j = 29" using j(2) by simp
    then show thesis using j assms(2) by (intro that) (auto simp: vnc_distance_base_def vnc_distance_extra_def)
  qed
qed

text \<open>Bits that extend any rest of a block by the tokens \<open>ts\<close>.\<close>

definition token_bits :: "token list \<Rightarrow> bool list \<Rightarrow> bool" where
  "token_bits ts bs \<longleftrightarrow>
     (\<forall>us cs. tokens_bits fixed_litlen_lengths fixed_distance_lengths us cs \<longrightarrow>
        tokens_bits fixed_litlen_lengths fixed_distance_lengths (ts @ us) (bs @ cs))"

lemma token_bits_Nil: "token_bits [] []"
  by (simp add: token_bits_def)

lemma token_bits_append: "token_bits xs bs \<Longrightarrow> token_bits ys cs \<Longrightarrow> token_bits (xs @ ys) (bs @ cs)"
  by (simp add: token_bits_def)

lemma length_fixed_litlen: "length fixed_litlen_lengths = 288"
  by (simp add: fixed_litlen_lengths_def V9X_INFLATE_LITLEN_SYMBOLS_def)

lemma token_bits_literal: "token_bits [Literal b] (code_bits fixed_litlen_lengths (unat b))"
proof -
  have "unat b < 288" using unat_u8_less [of b] by linarith
  then show ?thesis
    using fixed_litlen_word(1) [of "unat b"] by (auto simp: token_bits_def length_fixed_litlen intro!: tokens_bits.literal)
qed

lemma bits_value_low: "v < 2 ^ n \<Longrightarrow> n \<le> 24 \<Longrightarrow> bits_value (low_bits (of_nat v) n) = v"
proof -
  assume v: "v < 2 ^ n" and n: "n \<le> 24"
  have "(2 :: nat) ^ n \<le> 2 ^ 24" by (rule power_increasing) (use n in auto)
  then have "unat (of_nat v :: u32) = v" using v by (simp add: u32_of_nat)
  then show ?thesis
    using v n by (simp add: low_bits_value unsigned_take_bit_eq take_bit_nat_eq_self)
qed

lemma take_bit_small: "v < 2 ^ n \<Longrightarrow> n \<le> 24 \<Longrightarrow> take_bit n (of_nat v :: u32) = of_nat v"
proof -
  assume v: "v < 2 ^ n" and n: "n \<le> 24"
  have "(2 :: nat) ^ n \<le> 2 ^ 24" by (rule power_increasing) (use n in auto)
  then have "unat (of_nat v :: u32) = v" using v by (simp add: u32_of_nat)
  then show ?thesis
    using v by (simp add: word_unat_eq_iff unsigned_take_bit_eq take_bit_nat_eq_self)
qed

lemma puts_match:
  assumes "sink_ok s" "3 \<le> n" "n \<le> 258" "1 \<le> d" "d \<le> 32768"
  shows "\<exists>bs. puts s bs (vnc_match s n d) \<and> token_bits [Match n d] bs \<and> length bs \<le> 9 * n"
proof -
  obtain i where i: "base_index vnc_length_base n 28 = Some i" "i < 29" "vnc_length_base ! i \<le> n"
    "n - vnc_length_base ! i < 2 ^ (vnc_length_extra ! i)"
    using assms by (rule_tac match_index)
  obtain j where j: "base_index vnc_distance_base d 29 = Some j" "j < 30" "vnc_distance_base ! j \<le> d"
    "d - vnc_distance_base ! j < 2 ^ (vnc_distance_extra ! j)"
    using assms by (rule_tac distance_index)
  have "vnc_length_extra ! i \<le> 5" using length_gaps(4) i(2) by (simp add: list_all_iff)
  moreover have "vnc_distance_extra ! j \<le> 13" using length_gaps(5) j(2) by (simp add: list_all_iff)
  ultimately have extra: "vnc_length_extra ! i \<le> 24" "vnc_distance_extra ! j \<le> 24" "vnc_distance_extra ! j \<le> 13"
    by linarith+
  define e where "e = low_bits (of_nat (n - vnc_length_base ! i)) (vnc_length_extra ! i)"
  define e' where "e' = low_bits (of_nat (d - vnc_distance_base ! j)) (vnc_distance_extra ! j)"
  define bs where "bs = code_bits fixed_litlen_lengths (257 + i) @ e @ code_bits fixed_distance_lengths j @ e'"
  have k: "257 + i < 288" using i(2) by simp
  have "puts s (code_bits fixed_litlen_lengths (257 + i) @ (e @ (code_bits fixed_distance_lengths j @ e')))
    (vnc_symbol s (257 + i) \<bind> (\<lambda>s. vnc_bits_put s (of_nat (n - vnc_length_base ! i)) (vnc_length_extra ! i) \<bind>
      (\<lambda>s. vnc_bits_code s (of_nat j) 5 \<bind>
      (\<lambda>s. vnc_bits_put s (of_nat (d - vnc_distance_base ! j)) (vnc_distance_extra ! j)))))"
    unfolding e_def e'_def
    by (intro puts_bind puts_symbol puts_distance puts_put take_bit_small i(4) j(4) extra(1,2) assms(1) k j(2))
  then have "puts s bs (vnc_match s n d)"
    unfolding vnc_match_def bs_def using i(1) j(1) by simp
  moreover have "token_bits [Match n d] bs"
    unfolding token_bits_def
  proof (intro allI impI)
    fix us cs assume "tokens_bits fixed_litlen_lengths fixed_distance_lengths us cs"
    then have "tokens_bits fixed_litlen_lengths fixed_distance_lengths
      (Match (v9x_inflate_length_base ! i + bits_value e) (v9x_inflate_distance_base ! j + bits_value e') # us)
      (code_bits fixed_litlen_lengths (257 + i) @ e @ code_bits fixed_distance_lengths j @ e' @ cs)"
      using fixed_litlen_word(1) [OF k] i(2) j(2)
      by (intro tokens_bits.match)
         (auto simp: length_fixed_litlen fixed_distance_lengths_def e_def e'_def tables_same)
    moreover have "v9x_inflate_length_base ! i + bits_value e = n" "v9x_inflate_distance_base ! j + bits_value e' = d"
      using bits_value_low [OF i(4) extra(1), folded e_def] bits_value_low [OF j(4) extra(2), folded e'_def] i(3) j(3)
      by (simp_all add: tables_same [symmetric])
    ultimately show "tokens_bits fixed_litlen_lengths fixed_distance_lengths ([Match n d] @ us) (bs @ cs)"
      by (simp add: bs_def)
  qed
  moreover have "length bs \<le> 9 * n"
  proof -
    have "(if i < 23 then 7 else 8) + vnc_length_extra ! i + 18 \<le> 9 * vnc_length_base ! i"
      using length_gaps(3) i(2) by (simp add: list_all_iff)
    moreover have "fixed_litlen_lengths ! (257 + i) = (if i < 23 then 7 else 8)"
      using fixed_litlen_word(1) [OF k] by simp
    moreover have "fixed_distance_lengths ! j = 5" using j(2) by (simp add: fixed_distance_lengths_def)
    ultimately show ?thesis using extra(3) i(3) by (simp add: bs_def e_def e'_def)
  qed
  ultimately show ?thesis by blast
qed

subsection \<open>The matcher\<close>

text \<open>Every entry of the hash table is a position before the current one, plus one.\<close>

definition head_ok :: "nat \<Rightarrow> nat list \<Rightarrow> bool" where
  "head_ok position head \<longleftrightarrow> length head = 4096 \<and> (\<forall>h < 4096. head ! h \<le> position)"

lemma vnc_hash3_ok:
  assumes "position + 3 \<le> length inp"
  shows "\<exists>h. vnc_hash3 inp position = Some h \<and> h < 4096"
proof -
  have "unat (x AND 4095) < 4096" for x :: u32
  proof -
    have "unat (x AND 4095) \<le> unat (4095 :: u32)"
      using word_and_le1 [of x 4095] by (simp add: word_le_nat_alt)
    then show ?thesis by simp
  qed
  then show ?thesis
    using assms by (simp add: vnc_hash3_def rd_Some VNC_DEFLATE_HASH_SIZE_def)
qed

lemma vnc_run_ok:
  assumes "from_at \<le> position" "position + limit \<le> length inp" "run \<le> limit"
    "\<And>k. k < run \<Longrightarrow> inp ! (from_at + k) = inp ! (position + k)"
  shows "\<exists>r. vnc_run inp from_at position limit run = Some r \<and> run \<le> r \<and> r \<le> limit \<and>
    (\<forall>k < r. inp ! (from_at + k) = inp ! (position + k))"
  using assms
proof (induction inp from_at position limit run rule: vnc_run.induct)
  case (1 inp from_at position limit run)
  show ?case
  proof (cases "run < limit \<and> inp ! (from_at + run) = inp ! (position + run)")
    case True
    then have reads: "rd inp (from_at + run) = Some (inp ! (from_at + run))"
      "rd inp (position + run) = Some (inp ! (position + run))" "run < limit"
      using 1(2,3) by (auto simp: rd_Some)
    have "\<exists>r. vnc_run inp from_at position limit (run + 1) = Some r \<and> run + 1 \<le> r \<and> r \<le> limit \<and>
      (\<forall>k < r. inp ! (from_at + k) = inp ! (position + k))"
      by (rule 1(1) [OF reads(3,1,2)]) (use True 1(2-5) in \<open>auto simp: less_Suc_eq\<close>)
    then show ?thesis using True reads by (subst vnc_run.simps) auto
  next
    case False
    then show ?thesis using 1(2-5) by (subst vnc_run.simps) (auto simp: rd_Some)
  qed
qed

lemma vnc_find_ok:
  assumes "head_ok position head" "position < length inp"
  shows "\<exists>head' best dist. vnc_find inp position head = Some (head', best, dist) \<and> head_ok (position + 1) head' \<and>
    (best = 0 \<or> 3 \<le> best \<and> best \<le> 258 \<and> position + best \<le> length inp \<and> 1 \<le> dist \<and> dist \<le> position \<and> dist \<le> 32768 \<and>
       (\<forall>k < best. inp ! (position - dist + k) = inp ! (position + k)))"
proof (cases "position + 3 \<le> length inp")
  case False
  then show ?thesis using assms by (auto simp: vnc_find_def head_ok_def intro: le_SucI)
next
  case True
  obtain h where h: "vnc_hash3 inp position = Some h" "h < 4096" using vnc_hash3_ok [OF True] by blast
  define candidate where "candidate = head ! h"
  have c: "rd head h = Some candidate" "candidate \<le> position"
    using assms(1) h(2) by (auto simp: head_ok_def rd_Some candidate_def)
  define head' where "head' = head[h := position + 1]"
  have w: "wr head h (position + 1) = Some head'" "head_ok (position + 1) head'"
    using assms(1) h(2) by (auto simp: head_ok_def wr_def head'_def nth_list_update intro: le_SucI)
  show ?thesis
  proof (cases "candidate \<noteq> 0 \<and> position - (candidate - 1) \<le> 32768")
    case False
    then show ?thesis using True h(1) c(1) w by (auto simp: vnc_find_def)
  next
    case near: True
    define limit where "limit = (if length inp - position > 258 then 258 else length inp - position)"
    have "candidate - 1 \<le> position" "position + limit \<le> length inp"
      using c(2) assms(2) by (auto simp: limit_def)
    then obtain r where r: "vnc_run inp (candidate - 1) position limit 0 = Some r" "r \<le> limit"
      "\<forall>k < r. inp ! (candidate - 1 + k) = inp ! (position + k)"
      using vnc_run_ok [of "candidate - 1" position limit inp 0] by blast
    define dist where "dist = position - (candidate - 1)"
    have dist: "1 \<le> dist" "dist \<le> position" "dist \<le> 32768" "position - dist = candidate - 1"
      using near c(2) by (auto simp: dist_def)
    have run: "3 \<le> r \<Longrightarrow> r \<le> 258 \<and> position + r \<le> length inp"
      using r(2) \<open>position + limit \<le> length inp\<close> by (auto simp: limit_def split: if_splits)
    have "vnc_find inp position head = Some (head', if r \<ge> 3 then (r, dist) else (0, 0))"
    proof -
      have "Suc position - candidate \<le> 32768" using near by linarith
      then show ?thesis
        unfolding vnc_find_def using True h(1) c(1) w near r(1) by (simp add: Let_def limit_def dist_def)
    qed
    then show ?thesis using w(2) r(3) dist run by (cases "3 \<le> r") simp_all
  qed
qed

lemma vnc_enter_ok:
  assumes "head_ok (position + 1) head" "1 \<le> best" "position + best \<le> length inp"
  shows "\<exists>head'. vnc_enter inp position best head = Some head' \<and> head_ok (position + best) head'"
proof -
  have "\<exists>t. for_up 1 (best - 1) (\<lambda>step head.
       if position + step + 3 \<le> length inp then do {
         hash \<leftarrow> vnc_hash3 inp (position + step);
         wr head hash (position + step + 1) }
       else Some head) head = Some t \<and> head_ok (position + (1 + (best - 1))) t"
  proof (rule for_up_rule [where P = "\<lambda>j t. head_ok (position + j) t"])
    fix j and t :: "nat list" assume t: "head_ok (position + j) t"
    have more: "head_ok (position + Suc j) t" using t by (auto simp: head_ok_def intro: le_SucI)
    show "\<exists>t'. (if position + j + 3 \<le> length inp then do {
         hash \<leftarrow> vnc_hash3 inp (position + j);
         wr t hash (position + j + 1) }
       else Some t) = Some t' \<and> head_ok (position + Suc j) t'"
    proof (cases "position + j + 3 \<le> length inp")
      case True
      then obtain h where h: "vnc_hash3 inp (position + j) = Some h" "h < 4096" using vnc_hash3_ok by blast
      moreover have "head_ok (position + Suc j) (t[h := position + j + 1])"
        using more h(2) by (auto simp: head_ok_def nth_list_update)
      ultimately show ?thesis using True t by (auto simp: head_ok_def wr_def)
    next
      case False
      then show ?thesis using more by simp
    qed
  qed (use assms(1) in simp)
  then show ?thesis using assms(2) by (simp add: vnc_enter_def)
qed

text \<open>A match copies what the input has at the current position.\<close>

lemma match_bytes_eq:
  assumes "d \<le> length (pre @ take position inp)" "1 \<le> d" "d \<le> position" "position + n \<le> length inp"
    "\<And>k. k < n \<Longrightarrow> inp ! (position - d + k) = inp ! (position + k)"
  shows "match_bytes (pre @ take position inp) d n = pre @ take (position + n) inp"
  using assms
proof (induction n arbitrary: position)
  case (Suc n)
  have "(pre @ take position inp) ! (length (pre @ take position inp) - d) = inp ! (position - d)"
  proof -
    have "length (pre @ take position inp) - d = length pre + (position - d)" using Suc.prems(3,4) by simp
    moreover have "position - d < position" using Suc.prems(2,3) by linarith
    ultimately show ?thesis by (simp add: nth_append)
  qed
  also have "\<dots> = inp ! position" using Suc.prems(5) [of 0] by simp
  finally have "match_bytes (pre @ take position inp) d (Suc n) = match_bytes (pre @ take (Suc position) inp) d n"
    using Suc.prems(4) by (simp add: take_Suc_conv_app_nth)
  also have "\<dots> = pre @ take (Suc position + n) inp"
  proof (rule Suc.IH)
    fix k assume "k < n"
    then show "inp ! (Suc position - d + k) = inp ! (Suc position + k)"
      using Suc.prems(3) Suc.prems(5) [of "Suc k"] by (simp add: Suc_diff_le)
  qed (use Suc.prems in auto)
  finally show ?case by simp
qed simp

subsection \<open>The loop and the call\<close>

lemma expand_append: "expand out (xs @ ys) = expand (expand out xs) ys"
  by (induction out xs rule: expand.induct) simp_all

lemma expands_append: "expands out (xs @ ys) \<longleftrightarrow> expands out xs \<and> expands (expand out xs) ys"
  by (induction out xs rule: expands.induct) auto

lemma vnc_step_ok:
  assumes "sink_ok s" "head_ok position head" "position < length inp"
  shows "\<exists>s' head' n t bs. vnc_step inp s head position = Some (s', head', position + n) \<and> puts s bs (Some s') \<and>
    head_ok (position + n) head' \<and> 1 \<le> n \<and> position + n \<le> length inp \<and> length bs \<le> 9 * n \<and> token_bits [t] bs \<and>
    (\<forall>pre. expands (pre @ take position inp) [t] \<and> expand (pre @ take position inp) [t] = pre @ take (position + n) inp)"
proof -
  obtain head1 best dist where find: "vnc_find inp position head = Some (head1, best, dist)" "head_ok (position + 1) head1"
    and best: "best = 0 \<or> 3 \<le> best \<and> best \<le> 258 \<and> position + best \<le> length inp \<and> 1 \<le> dist \<and> dist \<le> position \<and> dist \<le> 32768 \<and>
       (\<forall>k < best. inp ! (position - dist + k) = inp ! (position + k))"
    using vnc_find_ok [OF assms(2,3)] by blast
  show ?thesis
  proof (cases "best = 0")
    case True
    define b where "b = inp ! position"
    have k: "unat b < 256" by simp
    then have k': "unat b < 288" by linarith
    obtain s' where s': "vnc_symbol s (unat b) = Some s'" "puts s (code_bits fixed_litlen_lengths (unat b)) (Some s')"
      using puts_symbol [OF assms(1) k'] unfolding puts_def by blast
    have "vnc_step inp s head position = Some (s', head1, position + 1)"
      using True find(1) s'(1) assms(3) by (simp add: vnc_step_def rd_Some b_def)
    moreover have "length (code_bits fixed_litlen_lengths (unat b)) \<le> 9 * 1"
      using fixed_litlen_word(1) [OF k'] by simp
    moreover have "expand (pre @ take position inp) [Literal b] = pre @ take (position + 1) inp" for pre
      using assms(3) by (simp add: take_Suc_conv_app_nth b_def)
    ultimately show ?thesis
      using s'(2) find(2) assms(3) token_bits_literal [of b]
      by (intro exI [of _ s'] exI [of _ head1] exI [of _ 1] exI [of _ "Literal b"]
          exI [of _ "code_bits fixed_litlen_lengths (unat b)"]) auto
  next
    case False
    then have m: "3 \<le> best" "best \<le> 258" "position + best \<le> length inp" "1 \<le> dist" "dist \<le> position" "dist \<le> 32768"
      "\<And>k. k < best \<Longrightarrow> inp ! (position - dist + k) = inp ! (position + k)"
      using best by auto
    obtain bs where bs: "puts s bs (vnc_match s best dist)" "token_bits [Match best dist] bs" "length bs \<le> 9 * best"
      using puts_match [OF assms(1) m(1,2,4,6)] by blast
    then obtain s' where s': "vnc_match s best dist = Some s'" unfolding puts_def by blast
    obtain head' where head': "vnc_enter inp position best head1 = Some head'" "head_ok (position + best) head'"
      using vnc_enter_ok [OF find(2) _ m(3)] m(1) by auto
    have "vnc_step inp s head position = Some (s', head', position + best)"
      using False find(1) s' head'(1) by (simp add: vnc_step_def)
    moreover have "expands (pre @ take position inp) [Match best dist] \<and>
        expand (pre @ take position inp) [Match best dist] = pre @ take (position + best) inp" for pre
      using m match_bytes_eq [of dist pre position inp best] by simp
    ultimately show ?thesis
      using bs s' head'(2) m(1,3)
      by (intro exI [of _ s'] exI [of _ head'] exI [of _ best] exI [of _ "Match best dist"] exI [of _ bs]) auto
  qed
qed

lemma vnc_loop_ok:
  assumes "sink_ok s" "head_ok position head" "position \<le> length inp"
  shows "\<exists>s' head' ts bs. vnc_loop inp s head position = Some (s', head') \<and> puts s bs (Some s') \<and>
    length head' = 4096 \<and> (\<not> sink_failed s' \<longrightarrow> length bs \<le> 9 * (length inp - position) \<and> token_bits ts bs \<and>
    (\<forall>pre. expands (pre @ take position inp) ts \<and> expand (pre @ take position inp) ts = pre @ inp)) \<and>
    (\<not> sink_failed s \<and> length (sink_stream s) + 9 * (length inp - position) \<le> 8 * sink_capacity s \<longrightarrow> \<not> sink_failed s')"
  using assms
proof (induction "length inp - position" arbitrary: s position head rule: less_induct)
  case less
  show ?case
  proof (cases "position < length inp \<and> \<not> sink_failed s")
    case False
    have "vnc_loop inp s head position = Some (s, head)" using False by (subst vnc_loop.simps) auto
    then show ?thesis
      using False less.prems puts_nothing [OF less.prems(1)] token_bits_Nil
      by (intro exI [of _ s] exI [of _ head] exI [of _ "[]"] exI [of _ "[]"]) (auto simp: head_ok_def)
  next
    case True
    obtain s1 head1 n t bs where step: "vnc_step inp s head position = Some (s1, head1, position + n)" "puts s bs (Some s1)"
      "head_ok (position + n) head1" "1 \<le> n" "position + n \<le> length inp" "length bs \<le> 9 * n" "token_bits [t] bs"
      "\<And>pre. expands (pre @ take position inp) [t] \<and> expand (pre @ take position inp) [t] = pre @ take (position + n) inp"
      using vnc_step_ok [OF less.prems(1,2)] True by blast
    have ok1: "sink_ok s1" using step(2) unfolding puts_def by blast
    have less_step: "length inp - (position + n) < length inp - position" using step(4,5) by linarith
    obtain s' head' ts cs where rest: "vnc_loop inp s1 head1 (position + n) = Some (s', head')" "puts s1 cs (Some s')"
      "length head' = 4096" "\<not> sink_failed s' \<longrightarrow> length cs \<le> 9 * (length inp - (position + n)) \<and> token_bits ts cs \<and>
        (\<forall>pre. expands (pre @ take (position + n) inp) ts \<and> expand (pre @ take (position + n) inp) ts = pre @ inp)"
      "\<not> sink_failed s1 \<and> length (sink_stream s1) + 9 * (length inp - (position + n)) \<le> 8 * sink_capacity s1 \<longrightarrow> \<not> sink_failed s'"
      using less.hyps [OF _ ok1 step(3,5)] less_step by blast
    have "vnc_loop inp s head position = Some (s', head')"
      using True step(1) rest(1) by (subst vnc_loop.simps) simp
    moreover have "puts s (bs @ cs) (Some s')"
      using puts_bind [OF step(2), of cs "\<lambda>_. Some s'"] rest(2) by simp
    moreover have "length (bs @ cs) \<le> 9 * (length inp - position) \<and> token_bits (t # ts) (bs @ cs) \<and>
        (\<forall>pre. expands (pre @ take position inp) (t # ts) \<and> expand (pre @ take position inp) (t # ts) = pre @ inp)"
      if ok: "\<not> sink_failed s'"
    proof (intro conjI allI)
      show "length (bs @ cs) \<le> 9 * (length inp - position)" using rest(4) ok step(5,6) by auto
      show "token_bits (t # ts) (bs @ cs)" using token_bits_append [OF step(7), of ts cs] rest(4) ok by simp
      show "expands (pre @ take position inp) (t # ts)" "expand (pre @ take position inp) (t # ts) = pre @ inp" for pre
      proof -
        have r: "expands (pre @ take (position + n) inp) ts" "expand (pre @ take (position + n) inp) ts = pre @ inp"
          using rest(4) ok by blast+
        show "expands (pre @ take position inp) (t # ts)"
          using expands_append [of "pre @ take position inp" "[t]" ts] step(8) [of pre] r
          by (simp only: append_Cons append_Nil simp_thms)
        show "expand (pre @ take position inp) (t # ts) = pre @ inp"
          using expand_append [of "pre @ take position inp" "[t]" ts] step(8) [of pre] r
          by (simp only: append_Cons append_Nil simp_thms)
      qed
    qed
    moreover have "\<not> sink_failed s'"
      if fits: "\<not> sink_failed s \<and> length (sink_stream s) + 9 * (length inp - position) \<le> 8 * sink_capacity s"
    proof -
      have "length (sink_stream s) + length bs \<le> 8 * sink_capacity s" using fits step(5,6) by linarith
      then have one: "\<not> sink_failed s1" "sink_stream s1 = sink_stream s @ bs" "sink_capacity s1 = sink_capacity s"
        using step(2) fits unfolding puts_def by auto
      then show ?thesis using rest(5) fits step(5,6) by auto
    qed
    ultimately show ?thesis using rest(3)
      by (intro exI [of _ s'] exI [of _ head'] exI [of _ "t # ts"] exI [of _ "bs @ cs"]) blast
  qed
qed

text \<open>The bits of one call: the stream header when it is the first, one block of fixed codes, and an
  empty stored block that brings the stream to a byte boundary.\<close>

definition header_bits :: "vnc_deflate \<Rightarrow> bool list" where
  "header_bits st = (if header_written st then [] else byte_bits 0x78 @ byte_bits 0x01)"

lemma low_bits_0: "low_bits 0 n = replicate n False"
  by (rule nth_equalityI) (auto simp: low_bits_def)

lemma low_bits_const:
  "low_bits 0x78 8 = byte_bits 0x78" "low_bits 1 8 = byte_bits 1"
  "low_bits 0 1 = [False]" "low_bits 1 2 = [True, False]"
  by (auto simp: low_bits_def byte_bits_def map_replicate_const bit_numeral_word_iff upt_conv_Cons bit_1_iff intro!: nth_equalityI)

lemma vnc_sync_begin_ok:
  assumes "capacity \<le> length out"
  defines "s0 \<equiv> \<lparr>sink_out = out, sink_length = 0, sink_capacity = capacity, sink_bits = 0, sink_count = 0, sink_failed = False\<rparr>"
  shows "puts s0 (header_bits st @ [False] @ [True, False]) (vnc_sync_begin st out capacity)"
proof -
  have ok: "sink_ok s0" using assms(1) by (simp add: s0_def sink_ok_def)
  have t: "take_bit 8 (0x78 :: u32) = 0x78" "take_bit 8 (1 :: u32) = 1" "take_bit 1 (0 :: u32) = 0" "take_bit 2 (1 :: u32) = 1"
    by simp_all
  have header: "puts s0 (header_bits st) (if \<not> header_written st then vnc_bits_put s0 0x78 8 \<bind> (\<lambda>s. vnc_bits_put s 1 8) else Some s0)"
  proof (cases "header_written st")
    case True
    then show ?thesis using puts_nothing [OF ok] by (simp add: header_bits_def)
  next
    case False
    have "puts s0 (byte_bits 0x78 @ byte_bits 1) (vnc_bits_put s0 0x78 8 \<bind> (\<lambda>s. vnc_bits_put s 1 8))"
      unfolding low_bits_const(1,2) [symmetric] by (intro puts_bind puts_put ok t) simp_all
    then show ?thesis using False by (simp add: header_bits_def)
  qed
  have "puts s0 (header_bits st @ (low_bits 0 1 @ low_bits 1 2))
    ((if \<not> header_written st then vnc_bits_put s0 0x78 8 \<bind> (\<lambda>s. vnc_bits_put s 1 8) else Some s0) \<bind>
      (\<lambda>s. vnc_bits_put s 0 1 \<bind> (\<lambda>s. vnc_bits_put s 1 2)))"
    by (rule puts_bind [OF header], rule puts_bind [OF puts_put], assumption) (rule t, simp, rule puts_put, assumption, rule t, simp)
  then show ?thesis unfolding vnc_sync_begin_def Let_def s0_def [symmetric] low_bits_const(3,4) .
qed

lemma vnc_sync_flush_ok:
  assumes "sink_ok s"
  shows "\<exists>s' pad. vnc_sync_flush s = Some s' \<and> length pad < 8 \<and>
    puts s (code_bits fixed_litlen_lengths 256 @ [False, False, False] @ pad @ replicate 16 False @ replicate 16 True) (Some s') \<and>
    (\<not> sink_failed s' \<longrightarrow> sink_count s' = 0)"
proof -
  have t: "take_bit 3 (0 :: u32) = 0" "take_bit 16 (0xffff :: u32) = 0xffff" "take_bit n (0 :: u32) = 0" for n by simp_all
  have ones: "low_bits 0xffff 16 = replicate 16 True"
  proof -
    have eq: "(0xffff :: u32) = mask 16" by (simp add: mask_eq_exp_minus_1)
    show ?thesis unfolding low_bits_def eq bit_mask_iff by (rule nth_equalityI) auto
  qed
  have ok: "sink_ok t" if "puts u bs (Some t)" for t u bs using that unfolding puts_def by blast
  obtain s1 where s1: "vnc_symbol s 256 = Some s1" "puts s (code_bits fixed_litlen_lengths 256) (Some s1)"
    using puts_symbol [OF assms, of 256] unfolding puts_def by auto
  obtain s2 where s2: "vnc_bits_put s1 0 3 = Some s2" "puts s1 [False, False, False] (Some s2)"
    using puts_put [OF ok [OF s1(2)] t(1)] unfolding puts_def low_bits_0 by (auto simp: numeral_3_eq_3)
  have c2: "sink_count s2 < 8" using ok [OF s2(2)] by (simp add: sink_ok_def)
  have c24: "8 - sink_count s2 \<le> 24" by simp
  define k where "k = (if sink_count s2 > 0 then 8 - sink_count s2 else 0)"
  obtain s3 where s3: "(if sink_count s2 > 0 then vnc_bits_put s2 0 (8 - sink_count s2) else Some s2) = Some s3"
    "puts s2 (replicate k False) (Some s3)"
    using puts_put [OF ok [OF s2(2)] t(3) c24] puts_nothing [OF ok [OF s2(2)]]
    unfolding puts_def low_bits_0 by (cases "sink_count s2 > 0") (auto simp: k_def)
  obtain s4 where s4: "vnc_bits_put s3 0 16 = Some s4" "puts s3 (replicate 16 False) (Some s4)"
    using puts_put [OF ok [OF s3(2)] t(3), of 16] unfolding puts_def low_bits_0 by auto
  obtain s5 where s5: "vnc_bits_put s4 0xffff 16 = Some s5" "puts s4 (replicate 16 True) (Some s5)"
    using puts_put [OF ok [OF s4(2)] t(2)] unfolding puts_def ones by auto
  have run: "vnc_sync_flush s = Some s5"
    unfolding vnc_sync_flush_def using s1(1) s2(1) s3(1) s4(1) s5(1) by simp
  have all: "puts s (code_bits fixed_litlen_lengths 256 @ [False, False, False] @ replicate k False @ replicate 16 False @ replicate 16 True)
      (Some s1 \<bind> (\<lambda>_. Some s2 \<bind> (\<lambda>_. Some s3 \<bind> (\<lambda>_. Some s4 \<bind> (\<lambda>_. Some s5)))))"
    by (intro puts_bind s1(2)) (use s2(2) s3(2) s4(2) s5(2) in simp_all)
  have "sink_count s5 = 0" if good: "\<not> sink_failed s5"
  proof -
    have f: "\<not> sink_failed s4" "\<not> sink_failed s3" "\<not> sink_failed s2"
      using good s5(2) s4(2) s3(2) unfolding puts_def by auto
    have "length (sink_stream s5) = length (sink_stream s2) + k + 32"
      using good f s5(2) s4(2) s3(2) unfolding puts_def by auto
    moreover have "length (sink_stream t) = 8 * sink_length t + sink_count t" if "sink_ok t" for t
      using that by (simp add: sink_stream_def sink_ok_def)
    ultimately have "8 * sink_length s5 + sink_count s5 = 8 * sink_length s2 + (sink_count s2 + k) + 32"
      using ok s5(2) s2(2) by auto
    moreover have "sink_count s2 + k = 0 \<or> sink_count s2 + k = 8" using c2 by (simp add: k_def)
    moreover have "sink_count s5 < 8" using ok [OF s5(2)] by (simp add: sink_ok_def)
    ultimately show ?thesis by presburger
  qed
  moreover have "k < 8" by (simp add: k_def)
  ultimately show ?thesis using run all by (intro exI [of _ s5] exI [of _ "replicate k False"]) auto
qed

lemma stored_empty_bits:
  "replicate 16 False @ replicate 16 True =
   bits_of_bytes (le16 (of_nat (length ([] :: bytes))) @ le16 (NOT (of_nat (length ([] :: bytes)))) @ [])"
  by code_simp

lemma vnc_deflate_sync_ok:
  assumes "capacity \<le> length out" "length (deflate_head st) = 4096"
  shows "\<exists>st' out' n. vnc_deflate_sync st inp out capacity = Some (st', out', n) \<and>
    header_written st' \<and> length (deflate_head st') = 4096 \<and> length out' = length out \<and> n \<le> capacity \<and>
    (vnc_deflate_bound (length inp) \<le> capacity \<longrightarrow> 0 < n) \<and>
    (0 < n \<longrightarrow> (\<exists>body. bits_of_bytes (take n out') = header_bits st @ body \<and>
       (\<forall>pre rest. 8 dvd length rest \<longrightarrow>
          (\<exists>mid. deflate_block (body @ rest) pre False (pre @ inp) mid \<and>
                 deflate_block mid (pre @ inp) False (pre @ inp) rest))))"
proof -
  define s0 where "s0 = \<lparr>sink_out = out, sink_length = 0, sink_capacity = capacity, sink_bits = 0, sink_count = 0, sink_failed = False\<rparr>"
  define hb where "hb = header_bits st"
  obtain s1 where s1: "vnc_sync_begin st out capacity = Some s1" "puts s0 (hb @ [False] @ [True, False]) (Some s1)"
    using vnc_sync_begin_ok [OF assms(1), of st] unfolding puts_def s0_def hb_def by blast
  then have ok1: "sink_ok s1" unfolding puts_def by blast
  define head where "head = replicate 4096 (0 :: nat)"
  have clear: "for_up 0 VNC_DEFLATE_HASH_SIZE (\<lambda>index head. wr head index 0) (deflate_head st) = Some head"
  proof -
    have "for_up 0 4096 (\<lambda>index head. wr head index 0) (deflate_head st) =
        Some (splice (deflate_head st) 0 (replicate 4096 0))"
      by (rule for_up_fill) (use assms(2) in \<open>auto simp: wr_splice\<close>)
    then show ?thesis by (simp add: VNC_DEFLATE_HASH_SIZE_def head_def splice_all assms(2))
  qed
  have h0: "head_ok 0 head" by (simp add: head_ok_def head_def)
  obtain s2 head' ts bs where s2: "vnc_loop inp s1 head 0 = Some (s2, head')" "puts s1 bs (Some s2)" "length head' = 4096"
    "\<not> sink_failed s2 \<longrightarrow> length bs \<le> 9 * length inp \<and> token_bits ts bs \<and>
      (\<forall>pre. expands pre ts \<and> expand pre ts = pre @ inp)"
    "\<not> sink_failed s1 \<and> length (sink_stream s1) + 9 * length inp \<le> 8 * sink_capacity s1 \<longrightarrow> \<not> sink_failed s2"
    using vnc_loop_ok [OF ok1 h0, of inp] by auto
  then have ok2: "sink_ok s2" unfolding puts_def by blast
  define tail where "tail pad = code_bits fixed_litlen_lengths 256 @ [False, False, False] @ pad @ replicate 16 False @ replicate 16 True" for pad
  obtain s3 pad where s3: "vnc_sync_flush s2 = Some s3" "length pad < 8" "puts s2 (tail pad) (Some s3)"
    "\<not> sink_failed s3 \<longrightarrow> sink_count s3 = 0"
    using vnc_sync_flush_ok [OF ok2] unfolding tail_def by blast
  then have ok3: "sink_ok s3" unfolding puts_def by blast
  define n where "n = (if sink_failed s3 then 0 else sink_length s3)"
  have run: "vnc_deflate_sync st inp out capacity =
      Some (\<lparr>header_written = True, deflate_head = head'\<rparr>, sink_out s3, n)"
    unfolding vnc_deflate_sync_def using s1(1) clear s2(1) s3(1) by (simp add: n_def)
  have frame: "sink_capacity s3 = capacity" "length (sink_out s3) = length out"
    using s1(2) s2(2) s3(3) unfolding puts_def s0_def by auto
  have start: "sink_stream s0 = []" by (simp add: s0_def sink_stream_def low_bits_def)
  have good: "\<not> sink_failed s1 \<and> \<not> sink_failed s2 \<and> sink_stream s3 = hb @ [False, True, False] @ bs @ tail pad"
    if "\<not> sink_failed s3"
    using that s1(2) s2(2) s3(3) start unfolding puts_def by auto
  have bytes: "bits_of_bytes (take n (sink_out s3)) = hb @ [False, True, False] @ bs @ tail pad" if "\<not> sink_failed s3"
    using good [OF that] s3(4) that by (simp add: sink_stream_def n_def low_bits_def)
  have eob: "fixed_litlen_lengths ! 256 = 7" using fixed_litlen_word(1) [of 256] by simp
  have pos: "0 < n" if "\<not> sink_failed s3"
  proof (rule ccontr)
    assume "\<not> 0 < n"
    then have "bits_of_bytes (take n (sink_out s3)) = []" by simp
    then show False using bytes [OF that] by simp
  qed
  have enough: "\<not> sink_failed s3" if bound: "vnc_deflate_bound (length inp) \<le> capacity"
  proof -
    have "length inp < 8 * (length inp div 8) + 8" by presburger
    then have room: "9 * length inp + 120 \<le> 8 * capacity"
      using bound unfolding vnc_deflate_bound_def by linarith
    have "length hb \<le> 16" by (simp add: hb_def header_bits_def)
    moreover have "\<not> sink_failed s0" "sink_capacity s0 = capacity" by (simp_all add: s0_def)
    ultimately have f1: "\<not> sink_failed s1 \<and> sink_stream s1 = hb @ [False, True, False] \<and> sink_capacity s1 = capacity"
      using s1(2) start room unfolding puts_def by auto
    then have f2: "\<not> sink_failed s2" using s2(5) room \<open>length hb \<le> 16\<close> by simp
    then have "length (sink_stream s2) \<le> 19 + 9 * length inp \<and> sink_capacity s2 = capacity"
      using s2(2,4) f1 \<open>length hb \<le> 16\<close> unfolding puts_def by auto
    moreover have "length (tail pad) \<le> 50" using s3(2) eob by (simp add: tail_def)
    ultimately show ?thesis using s3(3) f2 room unfolding puts_def by auto
  qed
  have blocks: "\<exists>mid. deflate_block (([False, True, False] @ bs @ tail pad) @ rest) pre False (pre @ inp) mid \<and>
      deflate_block mid (pre @ inp) False (pre @ inp) rest"
    if f: "\<not> sink_failed s3" and rest: "8 dvd length rest" for pre rest
  proof -
    have ts: "token_bits ts bs" "expands pre ts" "expand pre ts = pre @ inp" using good [OF f] s2(4) by auto
    define mid where "mid = [False, False, False] @ pad @
      bits_of_bytes (le16 (of_nat (length ([] :: bytes))) @ le16 (NOT (of_nat (length ([] :: bytes)))) @ []) @ rest"
    have "tokens_bits fixed_litlen_lengths fixed_distance_lengths [] (code_bits fixed_litlen_lengths 256)"
      by (rule tokens_bits.end_of_block) (use eob in \<open>simp_all add: length_fixed_litlen\<close>)
    then have "tokens_bits fixed_litlen_lengths fixed_distance_lengths (ts @ []) (bs @ code_bits fixed_litlen_lengths 256)"
      using ts(1) unfolding token_bits_def by blast
    then have "deflate_block ([False, True, False] @ (bs @ code_bits fixed_litlen_lengths 256) @ mid) pre False (expand pre ts) mid"
      by (intro deflate_block.fixed) (simp_all add: ts(2))
    moreover have "[False, True, False] @ (bs @ code_bits fixed_litlen_lengths 256) @ mid = ([False, True, False] @ bs @ tail pad) @ rest"
      unfolding mid_def tail_def stored_empty_bits [symmetric] by simp
    moreover have "deflate_block mid (pre @ inp) False ((pre @ inp) @ []) rest"
      unfolding mid_def by (rule deflate_block.stored [OF s3(2) rest]) simp
    ultimately show ?thesis using ts(3) by auto
  qed
  show ?thesis
  proof (intro exI conjI impI)
    show "vnc_deflate_sync st inp out capacity = Some (\<lparr>header_written = True, deflate_head = head'\<rparr>, sink_out s3, n)"
      by (rule run)
    show "n \<le> capacity" using ok3 frame by (simp add: n_def sink_ok_def)
    show "0 < n" if "vnc_deflate_bound (length inp) \<le> capacity" using pos enough that by blast
    assume "0 < n"
    then have f: "\<not> sink_failed s3" by (auto simp: n_def split: if_splits)
    show "bits_of_bytes (take n (sink_out s3)) = header_bits st @ ([False, True, False] @ bs @ tail pad)"
      using bytes [OF f] by (simp add: hb_def)
    show "\<forall>pre rest. 8 dvd length rest \<longrightarrow>
          (\<exists>mid. deflate_block (([False, True, False] @ bs @ tail pad) @ rest) pre False (pre @ inp) mid \<and>
                 deflate_block mid (pre @ inp) False (pre @ inp) rest)"
      using blocks [OF f] by blast
  qed (use s2(3) frame in simp_all)
qed

end
