(* ===== verification/VnczSession.thy ===== *)
theory VnczSession
  imports VnczProps
begin

section \<open>A VNC session's deflate stream, decoded by the updater's inflate\<close>

text \<open>
  ZRLE keeps one deflate stream for a connection and compresses each rectangle with one call. The
  two halves of the repository meet here: the stream that the encoder of \<^verbatim>\<open>vncz.c\<close> makes of any
  sequence of rectangles, without its two header bytes and with an empty last block, is decoded by
  the decoder of \<^verbatim>\<open>inflate.c\<close> to those rectangles.
\<close>

fun vnc_session :: "vnc_deflate \<Rightarrow> bytes list \<Rightarrow> (vnc_deflate \<times> bytes) option" where
  "vnc_session st [] = Some (st, [])"
| "vnc_session st (inp # inps) =
     do {
       let bound = vnc_deflate_bound (length inp);
       (st, out, n) \<leftarrow> vnc_deflate_sync st inp (replicate bound 0) bound;
       (st, more) \<leftarrow> vnc_session st inps;
       Some (st, take n out @ more) }"

definition last_empty_block :: bytes where
  "last_empty_block = [0x01, 0x00, 0x00, 0xFF, 0xFF]"

lemma last_empty_block_deflates: "deflates (bits_of_bytes last_empty_block) out out []"
proof (rule deflates.last_block)
  have eq: "bits_of_bytes last_empty_block = [True, False, False] @ replicate 5 False @
      bits_of_bytes (le16 (of_nat (length ([] :: bytes))) @ le16 (NOT (of_nat (length ([] :: bytes)))) @ []) @ []"
    by code_simp
  show "deflate_block (bits_of_bytes last_empty_block) out True out []"
    using deflate_block.stored [of "replicate 5 False" "[]" "[]" True out] unfolding eq by simp
qed

lemma vnc_session_step:
  assumes "length (deflate_head st) = 4096"
  obtains st' piece where
    "\<And>inps. vnc_session st (inp # inps) = do { (st, more) \<leftarrow> vnc_session st' inps; Some (st, piece @ more) }"
    "header_written st'" "length (deflate_head st') = 4096"
    "\<exists>body. bits_of_bytes piece = header_bits st @ body \<and>
       (\<forall>pre out rest rest'. 8 dvd length rest \<longrightarrow> deflates rest (pre @ inp) out rest' \<longrightarrow>
          deflates (body @ rest) pre out rest')"
proof -
  define bound where "bound = vnc_deflate_bound (length inp)"
  obtain st' out n where sync: "vnc_deflate_sync st inp (replicate bound 0) bound = Some (st', out, n)"
    "header_written st'" "length (deflate_head st') = 4096" "0 < n"
    and body: "\<exists>body. bits_of_bytes (take n out) = header_bits st @ body \<and>
       (\<forall>pre rest. 8 dvd length rest \<longrightarrow>
          (\<exists>mid. deflate_block (body @ rest) pre False (pre @ inp) mid \<and>
                 deflate_block mid (pre @ inp) False (pre @ inp) rest))"
    using vnc_deflate_sync_ok [of bound "replicate bound 0" st inp] assms unfolding bound_def by auto
  show thesis
  proof (rule that)
    show "vnc_session st (inp # inps) = do { (st, more) \<leftarrow> vnc_session st' inps; Some (st, take n out @ more) }" for inps
      using sync(1) by (simp add: bound_def [symmetric] Let_def)
    show "\<exists>body. bits_of_bytes (take n out) = header_bits st @ body \<and>
       (\<forall>pre out rest rest'. 8 dvd length rest \<longrightarrow> deflates rest (pre @ inp) out rest' \<longrightarrow>
          deflates (body @ rest) pre out rest')"
      using body by (meson deflates.next_block)
  qed (fact sync(2) sync(3))+
qed

lemma vnc_session_deflates:
  assumes "length (deflate_head st) = 4096" "header_written st"
  shows "\<exists>st' stream. vnc_session st inps = Some (st', stream) \<and>
    (\<forall>pre out rest rest'. 8 dvd length rest \<longrightarrow> deflates rest (pre @ concat inps) out rest' \<longrightarrow>
       deflates (bits_of_bytes stream @ rest) pre out rest')"
  using assms
proof (induction inps arbitrary: st)
  case (Cons inp inps)
  obtain st1 piece where step:
    "vnc_session st (inp # inps) = do { (st, more) \<leftarrow> vnc_session st1 inps; Some (st, piece @ more) }"
    "header_written st1" "length (deflate_head st1) = 4096"
    "\<exists>body. bits_of_bytes piece = header_bits st @ body \<and>
       (\<forall>pre out rest rest'. 8 dvd length rest \<longrightarrow> deflates rest (pre @ inp) out rest' \<longrightarrow>
          deflates (body @ rest) pre out rest')"
    using Cons.prems(1) by (rule vnc_session_step) blast
  obtain st' stream where more: "vnc_session st1 inps = Some (st', stream)"
    "\<forall>pre out rest rest'. 8 dvd length rest \<longrightarrow> deflates rest (pre @ concat inps) out rest' \<longrightarrow>
       deflates (bits_of_bytes stream @ rest) pre out rest'"
    using Cons.IH [OF step(3,2)] by blast
  have "deflates (bits_of_bytes (piece @ stream) @ rest) pre out rest'"
    if "8 dvd length rest" "deflates rest (pre @ concat (inp # inps)) out rest'" for pre out rest rest'
  proof -
    have "deflates (bits_of_bytes stream @ rest) (pre @ inp) out rest'" using more(2) that by simp
    moreover have "8 dvd length (bits_of_bytes stream @ rest)" using that(1) by simp
    ultimately show ?thesis using step(4) Cons.prems(2) by (auto simp: header_bits_def)
  qed
  then show ?case using step(1) more(1) by simp
qed simp

lemma vnc_session_stream:
  assumes "length head = 4096" "inps \<noteq> []"
  shows "\<exists>st' stream. vnc_session (vnc_deflate_init head) inps = Some (st', [0x78, 0x01] @ stream) \<and>
    deflates (bits_of_bytes (stream @ last_empty_block)) [] (concat inps) []"
proof -
  obtain inp more where inps: "inps = inp # more" using assms(2) by (cases inps) auto
  obtain st1 piece where step:
    "vnc_session (vnc_deflate_init head) (inp # more) = do { (st, more) \<leftarrow> vnc_session st1 more; Some (st, piece @ more) }"
    "header_written st1" "length (deflate_head st1) = 4096"
    "\<exists>body. bits_of_bytes piece = header_bits (vnc_deflate_init head) @ body \<and>
       (\<forall>pre out rest rest'. 8 dvd length rest \<longrightarrow> deflates rest (pre @ inp) out rest' \<longrightarrow>
          deflates (body @ rest) pre out rest')"
    by (rule vnc_session_step [of "vnc_deflate_init head" inp]) (use assms(1) in \<open>auto simp: vnc_deflate_init_def\<close>)
  then obtain body where body: "bits_of_bytes piece = bits_of_bytes [0x78, 0x01] @ body"
    "\<And>pre out rest rest'. 8 dvd length rest \<Longrightarrow> deflates rest (pre @ inp) out rest' \<Longrightarrow> deflates (body @ rest) pre out rest'"
    by (auto simp: header_bits_def vnc_deflate_init_def)
  then obtain tail where tail: "piece = [0x78, 0x01] @ tail" "bits_of_bytes tail = body"
    using bits_of_bytes_prefix by blast
  obtain st' stream where rest: "vnc_session st1 more = Some (st', stream)"
    "\<And>pre out rest rest'. 8 dvd length rest \<Longrightarrow> deflates rest (pre @ concat more) out rest' \<Longrightarrow>
       deflates (bits_of_bytes stream @ rest) pre out rest'"
    using vnc_session_deflates [OF step(3,2), of more] by blast
  have "deflates (bits_of_bytes stream @ bits_of_bytes last_empty_block) inp (concat inps) []"
    by (rule rest(2)) (use last_empty_block_deflates in \<open>simp_all add: inps\<close>)
  then have "deflates (body @ bits_of_bytes stream @ bits_of_bytes last_empty_block) [] (concat inps) []"
    by (intro body(2)) simp_all
  then have "deflates (bits_of_bytes ((tail @ stream) @ last_empty_block)) [] (concat inps) []" using tail(2) by simp
  then show ?thesis using step(1) rest(1) tail(1) inps by (intro exI [of _ st'] exI [of _ "tail @ stream"]) simp
qed

text \<open>C4. The deflate stream of a VNC session: for every sequence of rectangles, of any content and any
  number, the encoder succeeds in the buffers its bound asks for; the stream starts with the zlib
  header, and what follows it, closed by an empty last block, is decoded by the inflate of the
  updater to exactly the rectangles one after the other.\<close>

theorem vnc_session_inflates:
  assumes "length head = 4096" "inps \<noteq> []" "length (concat inps) \<le> cap" "cap \<le> length out" "scratch_ok s"
  shows "\<exists>st' stream s'. vnc_session (vnc_deflate_init head) inps = Some (st', [0x78, 0x01] @ stream) \<and>
    v9x_inflate s (Some (stream @ last_empty_block)) (length (stream @ last_empty_block)) (Some out) cap (Some k) =
      Some (V9X_INFLATE_OK, Some s', Some (length (concat inps))) \<and>
    take (length (concat inps)) (output_bytes s') = concat inps"
  using vnc_session_stream [OF assms(1,2)] inflate_decodes_eq [OF _ assms(3-5)] by blast

theorem vnc_session_inflates_witness:
  "\<exists>st' stream s'. vnc_session (vnc_deflate_init (replicate 4096 0)) [[1, 1, 1, 1, 1], [2]] = Some (st', [0x78, 0x01] @ stream) \<and>
    v9x_inflate zero_scratch (Some (stream @ last_empty_block)) (length (stream @ last_empty_block))
      (Some (replicate 9 0)) 6 (Some 0) =
      Some (V9X_INFLATE_OK, Some s', Some (length (concat [[1, 1, 1, 1, 1], [2 :: u8]]))) \<and>
    take (length (concat [[1, 1, 1, 1, 1], [2 :: u8]])) (output_bytes s') = concat [[1, 1, 1, 1, 1], [2]]"
  by (rule vnc_session_inflates [OF _ _ _ _ zero_scratch_ok]) simp_all

text \<open>C29. Bounds of the encoder: on any stream state, input and buffer, a call returns without touching
  memory outside its buffers and reports at most the capacity it was given; a capacity of the size that
  \<open>vnc_deflate_bound\<close> computes is always enough.\<close>

theorem vnc_deflate_bounds:
  assumes "capacity \<le> length out" "length (deflate_head st) = 4096"
  shows "\<exists>st' out' n. vnc_deflate_sync st inp out capacity = Some (st', out', n) \<and>
    header_written st' \<and> length (deflate_head st') = 4096 \<and> length out' = length out \<and> n \<le> capacity \<and>
    (vnc_deflate_bound (length inp) \<le> capacity \<longrightarrow> 0 < n)"
  using vnc_deflate_sync_ok [OF assms, of inp] by blast

theorem vnc_deflate_bounds_witness:
  "\<exists>st' out' n. vnc_deflate_sync (vnc_deflate_init (replicate 4096 0)) [1, 2, 3] (replicate 19 0) 19 = Some (st', out', n) \<and>
    header_written st' \<and> length (deflate_head st') = 4096 \<and> length out' = length (replicate 19 (0 :: u8)) \<and> n \<le> 19 \<and>
    (vnc_deflate_bound (length [1, 2, 3 :: u8]) \<le> 19 \<longrightarrow> 0 < n)"
  by (rule vnc_deflate_bounds) (simp_all add: vnc_deflate_init_def)

end
