(* ===== verification/VncZrleShow.thy ===== *)
theory VncZrleShow
  imports VncZrleTile VnczSession
begin

section \<open>ZRLE rectangles reach the viewer\<close>

text \<open>
  The tiles of a rectangle are collected, deflated with the stream of the connection and sent with
  their length. The reference viewer keeps the compressed bytes it has got so far: with a new piece
  appended, and closed by an empty last block, they must be a zlib stream after RFC 1950 and 1951
  (\<open>deflates\<close>), and what it yields beyond what was read before must be the tiles of the rectangle, to
  the last byte.
\<close>

subsection \<open>The tiles of a rectangle\<close>

fun view_zrle_tiles ::
    "vnc_format \<Rightarrow> nat \<Rightarrow> (nat \<times> nat \<times> nat \<times> nat) list \<Rightarrow> u32 list \<Rightarrow> bytes \<Rightarrow> (u32 list \<times> bytes) option" where
  "view_zrle_tiles f w [] fb bs = Some (fb, bs)"
| "view_zrle_tiles f w ((tx, ty, tw, th) # tiles) fb bs =
     do {
       (pixels, bs) \<leftarrow> view_zrle_tile f tw th bs;
       view_zrle_tiles f w tiles (put_rect w tx ty tw th pixels fb) bs }"

definition tile_cost :: "vnc_format \<Rightarrow> nat \<times> nat \<times> nat \<times> nat \<Rightarrow> nat" where
  "tile_cost f = (\<lambda>(tx, ty, tw, th). 1 + tw * th * cpixel_width f)"

lemma zrle_tiles_read:
  assumes f: "format_rfc f" and s: "frame_ok s"
    and "\<forall>(tx, ty, tw, th) \<in> set tiles. 0 < tw \<and> tw \<le> 64 \<and> 0 < th \<and> th \<le> 16 \<and> tx + tw \<le> vs_width s \<and> ty + th \<le> vs_height s"
    and "palette_sizes z" and "zr_room z (sum_list (map (tile_cost f) tiles))"
  shows "\<exists>z' bs. zrle_tiles (px_of f) s tiles z = Some z' \<and> palette_sizes z' \<and> length (zr_raw z') = length (zr_raw z) \<and>
    zr_content z' = zr_content z @ bs \<and> zr_length z' = zr_length z + length bs \<and>
    length bs \<le> sum_list (map (tile_cost f) tiles) \<and>
    (\<forall>fb rest. view_zrle_tiles f (vs_width s) tiles fb (bs @ rest) =
      Some (fold (\<lambda>(tx, ty, tw, th). shown f s tx ty tw th) tiles fb, rest))"
  using assms(3-5)
proof (induction tiles arbitrary: z)
  case Nil
  then show ?case by (intro exI [of _ z] exI [of _ "[]"]) simp
next
  case (Cons t tiles)
  obtain tx ty tw th where t: "t = (tx, ty, tw, th)" by (metis prod_cases4)
  let ?more = "sum_list (map (tile_cost f) tiles)"
  have room: "zr_room z (1 + tw * th * cpixel_width f + ?more)" using Cons.prems(3) by (simp add: t tile_cost_def)
  have "\<exists>z1. zr_raw z1 = zr_raw z \<and> zr_length z1 = zr_length z \<and> palette_sizes z1 \<and>
      zrle_reads f tw th (rect_pixels f s tx ty tw th) z1 (vnc_encode_zrle_tile (px_of f) s tx ty tw th z)"
    by (rule zrle_tile_reads [OF f s]) (use Cons.prems room in \<open>auto simp: t zr_room_def\<close>)
  then obtain z1 bs where z1: "zr_raw z1 = zr_raw z" "zr_length z1 = zr_length z" "palette_sizes z1"
      and tile: "vnc_encode_zrle_tile (px_of f) s tx ty tw th z = Some (zr_append z1 bs)"
        "length bs \<le> 1 + tw * th * cpixel_width f"
        "\<And>rest. view_zrle_tile f tw th (bs @ rest) = Some (rect_pixels f s tx ty tw th, rest)"
    by (auto simp: zrle_reads_def mult.commute)
  have room1: "zr_room z1 (length bs + ?more)" using room tile(2) z1 by (simp add: zr_room_def)
  let ?z = "zr_append z1 bs"
  have sizes: "palette_sizes ?z" using z1(3) by (simp add: palette_sizes_def)
  have len: "length (zr_raw ?z) = length (zr_raw z)" using room1 z1 by (simp add: zr_append_raw zr_room_def)
  have rest: "\<forall>(tx, ty, tw, th) \<in> set tiles. 0 < tw \<and> tw \<le> 64 \<and> 0 < th \<and> th \<le> 16 \<and> tx + tw \<le> vs_width s \<and> ty + th \<le> vs_height s"
    using Cons.prems(1) by simp
  from Cons.IH [OF rest sizes zr_room_append [OF room1]] obtain z' cs where
      z': "zrle_tiles (px_of f) s tiles ?z = Some z'" "palette_sizes z'" "length (zr_raw z') = length (zr_raw ?z)"
        "zr_content z' = zr_content ?z @ cs" "zr_length z' = zr_length ?z + length cs" "length cs \<le> ?more"
        "\<And>fb rest. view_zrle_tiles f (vs_width s) tiles fb (cs @ rest) =
          Some (fold (\<lambda>(tx, ty, tw, th). shown f s tx ty tw th) tiles fb, rest)" by blast
  have "zr_content ?z = zr_content z @ bs"
    using zr_content_append [of z1 bs] zr_room_mono [OF room1, of "length bs"] z1 by (simp add: zr_content_def)
  then have "zr_content z' = zr_content z @ bs @ cs" using z'(4) by simp
  moreover have "view_zrle_tiles f (vs_width s) (t # tiles) fb ((bs @ cs) @ rest) =
      Some (fold (\<lambda>(tx, ty, tw, th). shown f s tx ty tw th) (t # tiles) fb, rest)" for fb rest
    using tile(3) z'(7) s by (simp add: t put_rect_pixels frame_ok_def)
  moreover have "zrle_tiles (px_of f) s (t # tiles) z = Some z'" using tile(1) z'(1) by (simp add: t)
  moreover have "length (bs @ cs) \<le> sum_list (map (tile_cost f) (t # tiles))" using tile(2) z'(6) by (simp add: t tile_cost_def)
  ultimately show ?case using z'(2,3,5) len z1(2) by (intro exI [of _ z'] exI [of _ "bs @ cs"]) simp
qed

lemma sum_list_le_times: "\<forall>x \<in> set xs. g x \<le> c \<Longrightarrow> sum_list (map g xs) \<le> length xs * (c :: nat)"
  by (induction xs) auto

lemma zrle_rect_size:
  assumes f: "format_rfc f" and "0 < h" "h \<le> 16" "w \<le> VNC_MAX_DIM"
  shows "sum_list (map (tile_cost f) (tile_grid 64 x y w h)) \<le> VNC_ZRLE_RAW_CAP"
proof -
  have len: "length (tile_grid 64 x y w h) = (h + 64 - 1) div 64 * ((w + 64 - 1) div 64)"
    unfolding tile_grid_def by (subst length_concat_const [where c = "(w + 64 - 1) div 64"]) simp_all
  have "(h + 64 - 1) div 64 \<le> (16 + 64 - 1) div 64" using assms(3) by (intro div_le_mono) simp
  moreover have "(w + 64 - 1) div 64 \<le> (4096 + 64 - 1) div 64" using assms(4) by (intro div_le_mono) (simp add: VNC_MAX_DIM_def)
  ultimately have "(h + 64 - 1) div 64 * ((w + 64 - 1) div 64) \<le> 1 * 64" by (intro mult_le_mono) simp_all
  then have n: "length (tile_grid 64 x y w h) \<le> 64" unfolding len by simp
  have "tile_cost f t \<le> 4097" if t: "t \<in> set (tile_grid 64 x y w h)" for t
  proof -
    obtain tx ty tw th where p: "t = (tx, ty, tw, th)" by (metis prod_cases4)
    then have "tw \<le> 64" "ty + th \<le> y + h" "y \<le> ty" using tile_grid_fits [of 64 tx ty tw th x y w h] t by simp_all
    then have "tw * th * cpixel_width f \<le> 64 * 16 * 4"
      using assms(3) cpx_facts(4) [of f] f by (intro mult_le_mono) (simp_all add: format_rfc_def)
    then show ?thesis by (simp add: p tile_cost_def)
  qed
  then have "sum_list (map (tile_cost f) (tile_grid 64 x y w h)) \<le> length (tile_grid 64 x y w h) * 4097"
    by (intro sum_list_le_times) blast
  also have "\<dots> \<le> 64 * 4097" using n by (rule mult_le_mono1)
  finally show ?thesis by (simp add: VNC_ZRLE_RAW_CAP_def VNC_MAX_DIM_def VNC_TILE_def)
qed

subsection \<open>The compressed stream\<close>

text \<open>A piece of a deflate stream that adds \<open>inp\<close> to the output, whatever comes before and after.\<close>

definition stream_adds :: "bytes \<Rightarrow> bytes \<Rightarrow> bool" where
  "stream_adds piece inp \<longleftrightarrow> (\<forall>pre out rest rest'. 8 dvd length rest \<longrightarrow> deflates rest (pre @ inp) out rest' \<longrightarrow>
     deflates (bits_of_bytes piece @ rest) pre out rest')"

lemma stream_adds_append:
  assumes "stream_adds p i" and "stream_adds q j"
  shows "stream_adds (p @ q) (i @ j)"
  unfolding stream_adds_def
proof (intro allI impI)
  fix pre out :: bytes and rest rest' assume rest: "8 dvd length rest" "deflates rest (pre @ i @ j) out rest'"
  then have "deflates (bits_of_bytes q @ rest) (pre @ i) out rest'" using assms(2) by (simp add: stream_adds_def)
  then show "deflates (bits_of_bytes (p @ q) @ rest) pre out rest'"
    using assms(1) rest(1) by (simp add: stream_adds_def)
qed

lemma stream_adds_ends: "stream_adds p i \<Longrightarrow> deflates (bits_of_bytes (p @ last_empty_block)) [] i []"
  unfolding stream_adds_def using last_empty_block_deflates [of i] by simp

definition zlib_state :: "vnc_deflate \<Rightarrow> bytes \<Rightarrow> bytes \<Rightarrow> bool" where
  "zlib_state st str raw \<longleftrightarrow> length (deflate_head st) = 4096 \<and>
     (if header_written st then \<exists>tail. str = [0x78, 0x01] @ tail \<and> stream_adds tail raw else str = [] \<and> raw = [])"

lemma deflate_piece:
  assumes st: "zlib_state st str raw" and "cap \<le> length out" and "vnc_deflate_bound (length inp) \<le> cap"
  shows "\<exists>st' out' n. vnc_deflate_sync st inp out cap = Some (st', out', n) \<and> 0 < n \<and> n \<le> cap \<and>
    length out' = length out \<and> header_written st' \<and> zlib_state st' (str @ take n out') (raw @ inp)"
proof -
  obtain st' out' n where sync: "vnc_deflate_sync st inp out cap = Some (st', out', n)" "header_written st'"
      "length (deflate_head st') = 4096" "length out' = length out" "n \<le> cap" "0 < n"
    and body: "\<exists>body. bits_of_bytes (take n out') = header_bits st @ body \<and>
       (\<forall>pre rest. 8 dvd length rest \<longrightarrow>
          (\<exists>mid. deflate_block (body @ rest) pre False (pre @ inp) mid \<and>
                 deflate_block mid (pre @ inp) False (pre @ inp) rest))"
    using vnc_deflate_sync_ok [OF assms(2), of st inp] st assms(3) by (auto simp: zlib_state_def)
  then obtain body where bits: "bits_of_bytes (take n out') = header_bits st @ body"
    and grow: "\<And>pre out rest rest'. 8 dvd length rest \<Longrightarrow> deflates rest (pre @ inp) out rest' \<Longrightarrow> deflates (body @ rest) pre out rest'"
    by (meson deflates.next_block)
  have "\<exists>tail. str @ take n out' = [0x78, 0x01] @ tail \<and> stream_adds tail (raw @ inp)"
  proof (cases "header_written st")
    case True
    then obtain tail where tail: "str = [0x78, 0x01] @ tail" "stream_adds tail raw" using st by (auto simp: zlib_state_def)
    have "stream_adds (take n out') inp"
      using grow bits True by (simp add: stream_adds_def header_bits_def)
    then show ?thesis using stream_adds_append [OF tail(2)] tail(1) by (intro exI [of _ "tail @ take n out'"]) simp
  next
    case False
    then have "bits_of_bytes (take n out') = bits_of_bytes [0x78, 0x01] @ body" using bits by (simp add: header_bits_def)
    then obtain tail where tail: "take n out' = [0x78, 0x01] @ tail" "bits_of_bytes tail = body"
      using bits_of_bytes_prefix by blast
    then have "stream_adds tail inp" using grow by (simp add: stream_adds_def)
    then show ?thesis using tail(1) False st by (simp add: zlib_state_def)
  qed
  then show ?thesis using sync by (simp add: zlib_state_def)
qed

subsection \<open>Sending a piece\<close>

lemma send_parts_emits:
  assumes "packed \<le> length zout" "net_ok net"
  shows "emits (send_parts zout packed sent net) net (take (packed - sent) (drop sent zout))"
  using assms(2)
proof (induction "packed - sent" arbitrary: sent net rule: less_induct)
  case less
  show ?case
  proof (cases "sent < packed")
    case True
    define part where "part = (if packed - sent > 32768 then 32768 else packed - sent)"
    have part: "0 < part" "part \<le> VNC_OUT_SIZE" "sent + part \<le> packed" using True by (auto simp: part_def VNC_OUT_SIZE_def)
    have data: "rds zout sent part = Some (take part (drop sent zout))" using part(3) assms(1) by (simp add: rds_Some)
    have "take (packed - sent) (drop sent zout) = take part (drop sent zout) @ take (packed - (sent + part)) (drop (sent + part) zout)"
      using part(3) take_add [of part "packed - (sent + part)" "drop sent zout"] by (simp add: add.commute)
    moreover have "emits (andthen (vnc_emit part (take part (drop sent zout)) net) (\<lambda>_ net. send_parts zout packed (sent + part) net)) net
        (take part (drop sent zout) @ take (packed - (sent + part)) (drop (sent + part) zout))"
    proof (rule emits_seq)
      show "emits (vnc_emit part (take part (drop sent zout)) net) net (take part (drop sent zout))"
        by (rule emit_emits [OF less.prems _ part(2)]) (use part(3) assms(1) in simp)
      show "emits (send_parts zout packed (sent + part) t) t (take (packed - (sent + part)) (drop (sent + part) zout))"
        if "net_ok t" for t
        by (rule less.hyps [OF _ that]) (use part(1,3) in simp)
    qed
    ultimately show ?thesis
      using True data by (subst send_parts.simps) (simp add: Let_def part_def [symmetric])
  qed (use less in \<open>simp add: send_parts.simps emits_done\<close>)
qed

subsection \<open>A rectangle\<close>

text \<open>The viewer's state is the zlib stream it has got and the bytes it has taken from it.\<close>

definition view_zrle ::
    "vnc_format \<Rightarrow> nat \<Rightarrow> nat \<times> nat \<times> nat \<times> nat \<Rightarrow> (bytes \<times> nat) \<times> u32 list \<times> bytes \<Rightarrow> (bytes \<times> nat) \<times> u32 list \<times> bytes \<Rightarrow> bool" where
  "view_zrle f w = (\<lambda>(x, y, width, height) ((str, got), fb, bs) ((str', got'), fb', rest).
     \<exists>n data. 4 \<le> length bs \<and> n = unat (wire_value (take 4 bs)) \<and> 4 + n \<le> length bs \<and>
       str' = str @ take n (drop 4 bs) \<and> rest = drop (4 + n) bs \<and>
       take 2 str' = [0x78, 0x01] \<and> deflates (bits_of_bytes (drop 2 str' @ last_empty_block)) [] data [] \<and>
       got' = length data \<and>
       view_zrle_tiles f w (tile_grid 64 x y width height) fb (drop got data) = Some (fb', []))"

definition link_ok :: "zrle_link \<Rightarrow> bool" where
  "link_ok link \<longleftrightarrow> palette_sizes (zl_work link) \<and> length (zr_raw (zl_work link)) = VNC_ZRLE_RAW_CAP \<and>
     length (zl_out link) = vnc_deflate_bound VNC_ZRLE_RAW_CAP"

definition link_agrees :: "zrle_link \<Rightarrow> bytes \<times> nat \<Rightarrow> bool" where
  "link_agrees link = (\<lambda>(str, got). link_ok link \<and> (\<exists>raw. zlib_state (zl_stream link) str raw \<and> got = length raw))"

lemma put32_value: "wire_value (vnc_put32 v) = v"
  by (simp add: put32_bytes four_bytes)

lemma bound_mono: "m \<le> n \<Longrightarrow> vnc_deflate_bound m \<le> vnc_deflate_bound n"
  unfolding vnc_deflate_bound_def by (intro add_mono div_le_mono) simp_all

lemma zrle_reads_rect:
  assumes f: "format_rfc f" and s: "frame_ok s" and fits: "x + w \<le> vs_width s" "y + h \<le> vs_height s"
    and h: "0 < h" "h \<le> 16" and v: "link_agrees link v"
  shows "\<exists>bs link' v'. (\<forall>net. net_ok net \<longrightarrow> emits_val (vnc_encode_zrle (px_of f) s x y w h link net) net bs link') \<and>
    link_agrees link' v' \<and> (\<forall>fb rest. view_zrle f (vs_width s) (x, y, w, h) (v, fb, bs @ rest) (v', shown f s x y w h fb, rest))"
proof -
  obtain str got where sg: "v = (str, got)" by (cases v)
  obtain raw where link: "link_ok link" and z: "zlib_state (zl_stream link) str raw" "got = length raw"
    using v by (auto simp: sg link_agrees_def)
  let ?tiles = "tile_grid 64 x y w h" and ?z = "(zl_work link)\<lparr>zr_length := 0\<rparr>"
  have step: "0 < (64 :: nat)" by simp
  have tiles: "\<forall>(tx, ty, tw, th) \<in> set ?tiles. 0 < tw \<and> tw \<le> 64 \<and> 0 < th \<and> th \<le> 16 \<and> tx + tw \<le> vs_width s \<and> ty + th \<le> vs_height s"
  proof -
    have "0 < tw \<and> tw \<le> 64 \<and> 0 < th \<and> th \<le> 16 \<and> tx + tw \<le> vs_width s \<and> ty + th \<le> vs_height s"
      if "(tx, ty, tw, th) \<in> set ?tiles" for tx ty tw th
      using tile_grid_fits [OF step that] fits h by linarith
    then show ?thesis by blast
  qed
  have "w \<le> VNC_MAX_DIM" using fits(1) s by (simp add: frame_ok_def)
  then have size: "sum_list (map (tile_cost f) ?tiles) \<le> VNC_ZRLE_RAW_CAP" by (rule zrle_rect_size [OF f h])
  have "palette_sizes ?z" "zr_room ?z (sum_list (map (tile_cost f) ?tiles))"
    using link size by (simp_all add: link_ok_def palette_sizes_def zr_room_def)
  from zrle_tiles_read [OF f s tiles this] obtain work inp where
      work1: "zrle_tiles (px_of f) s ?tiles ?z = Some work" "palette_sizes work" "length (zr_raw work) = length (zr_raw ?z)"
        "zr_content work = zr_content ?z @ inp" "zr_length work = zr_length ?z + length inp"
        "length inp \<le> sum_list (map (tile_cost f) ?tiles)"
      and view1: "\<And>fb rest. view_zrle_tiles f (vs_width s) ?tiles fb (inp @ rest) =
        Some (fold (\<lambda>(tx, ty, tw, th). shown f s tx ty tw th) ?tiles fb, rest)" by blast
  have work: "zrle_tiles (px_of f) s ?tiles ?z = Some work" "palette_sizes work" "length (zr_raw work) = VNC_ZRLE_RAW_CAP"
      "zr_content work = inp" "zr_length work = length inp" "length inp \<le> VNC_ZRLE_RAW_CAP"
    using work1 link size by (simp_all add: link_ok_def zr_content_def)
  have view: "view_zrle_tiles f (vs_width s) ?tiles fb (inp @ rest) = Some (shown f s x y w h fb, rest)" for fb rest
    using view1 unfolding fold_shown_grid [OF step] .
  have raw_read: "rds (zr_raw work) 0 (zr_length work) = Some inp"
    using work(3-6) by (simp add: rds_Some zr_content_def)
  let ?cap = "vnc_deflate_bound VNC_ZRLE_RAW_CAP"
  have "?cap \<le> length (zl_out link)" using link by (simp add: link_ok_def)
  from deflate_piece [OF z(1) this bound_mono [OF work(6)]] obtain stream out n where
      sync: "vnc_deflate_sync (zl_stream link) inp (zl_out link) ?cap = Some (stream, out, n)" "0 < n" "n \<le> ?cap"
        "length out = length (zl_out link)" "header_written stream" "zlib_state stream (str @ take n out) (raw @ inp)" by blast
  define piece where "piece = take n out"
  have n: "length piece = n" using sync(3,4) link by (simp add: piece_def link_ok_def)
  have "?cap \<le> 400000" by (simp add: vnc_deflate_bound_def VNC_ZRLE_RAW_CAP_def VNC_MAX_DIM_def VNC_TILE_def)
  then have num: "unat (of_nat n :: u32) = n" using sync(3) by (intro u32_of_nat) simp
  let ?link = "\<lparr>zl_work = work, zl_stream = stream, zl_out = out\<rparr>" and ?v = "(str @ piece, length (raw @ inp))"
  let ?bs = "vnc_put32 (of_nat n) @ piece"
  have "emits_val (vnc_encode_zrle (px_of f) s x y w h link net) net ?bs ?link" if net: "net_ok net" for net
  proof -
    have "emits_val (andthen (vnc_emit 4 (vnc_put32 (of_nat n)) net) (\<lambda>_ net.
        andthen (send_parts out n 0 net) (\<lambda>_ net. Some (net, Inr ?link)))) net (vnc_put32 (of_nat n) @ piece @ []) ?link"
    proof (rule emits_val_seq)
      show "emits_val (vnc_emit 4 (vnc_put32 (of_nat n)) net) net (vnc_put32 (of_nat n)) ()"
        unfolding emits_val_unit by (rule emit_emits [OF net]) (simp_all add: vnc_put32_def VNC_OUT_SIZE_def)
      fix t assume t: "net_ok t"
      show "emits_val (andthen (send_parts out n 0 t) (\<lambda>_ net. Some (net, Inr ?link))) t (piece @ []) ?link"
      proof (rule emits_val_seq)
        show "emits_val (send_parts out n 0 t) t piece ()"
          unfolding emits_val_unit piece_def
          using send_parts_emits [of n out t 0] t sync(3,4) link by (simp add: link_ok_def)
      qed (rule emits_val_done)
    qed
    then show ?thesis
      using work(1) raw_read sync(1,2) by (simp add: vnc_encode_zrle_def VNC_ZRLE_TILE_def)
  qed
  moreover have "link_agrees ?link ?v"
    using link work(2,3) sync(4,6) by (auto simp: link_agrees_def link_ok_def piece_def)
  moreover have "view_zrle f (vs_width s) (x, y, w, h) (v, fb, ?bs @ rest) (?v, shown f s x y w h fb, rest)" for fb rest
  proof -
    obtain tail where tail: "str @ piece = [0x78, 0x01] @ tail" "stream_adds tail (raw @ inp)"
      using sync(5,6) by (auto simp: zlib_state_def piece_def)
    have "length (vnc_put32 (of_nat n)) = 4" by (simp add: vnc_put32_def)
    moreover have "deflates (bits_of_bytes (drop 2 (str @ piece) @ last_empty_block)) [] (raw @ inp) []"
      using stream_adds_ends [OF tail(2)] unfolding tail(1) by simp
    moreover have "take 2 (str @ piece) = [0x78, 0x01]" unfolding tail(1) by simp
    moreover have "view_zrle_tiles f (vs_width s) ?tiles fb (drop got (raw @ inp)) = Some (shown f s x y w h fb, [])"
      using view [of fb "[]"] z(2) by simp
    ultimately show ?thesis
      using n num by (auto simp: sg view_zrle_def put32_value intro!: exI [of _ "raw @ inp"])
  qed
  ultimately show ?thesis by blast
qed

text \<open>
  C13. The ZRLE encoder: for a format the server accepts whose maxima are those of RFC 6143 and a
  rectangle of the height the server sends, \<^verbatim>\<open>vnc_encode_zrle\<close> sends (unless the connection fails, and
  then a prefix of it) a length and a piece of the connection's zlib stream; with every piece sent
  before, the stream follows RFC 1950 and 1951, and what this piece adds to its output is read by a
  viewer that follows RFC 6143 without error and to the last byte. The viewer's framebuffer then
  shows the previous frame on the rectangle and is unchanged elsewhere, and viewer and server agree
  on the stream again, so the next rectangle can follow. No buffer is left: not the palette's hash
  table, the tile buffer, the compressed buffer or the output buffer.
\<close>

theorem vnc_zrle_shows:
  assumes "format_rfc f" and "vnc_build_tables f = Some px" and "frame_ok s" and "x + w \<le> vs_width s" and "y + h \<le> vs_height s"
    and "0 < h" and "h \<le> 16" and "link_agrees link v"
  shows "\<exists>bs link' v'. (\<forall>net. net_ok net \<longrightarrow> emits_val (vnc_encode_zrle px s x y w h link net) net bs link') \<and>
    link_agrees link' v' \<and> (\<forall>fb rest. view_zrle f (vs_width s) (x, y, w, h) (v, fb, bs @ rest) (v', shown f s x y w h fb, rest))"
proof -
  have "px = px_of f" using build_tables_eq [of f] assms(1,2) by (simp add: format_rfc_def)
  then show ?thesis using zrle_reads_rect [OF assms(1,3-8)] by simp
qed

definition fresh_link :: zrle_link where
  "fresh_link = \<lparr>zl_work = \<lparr>zr_raw = replicate VNC_ZRLE_RAW_CAP 0, zr_length = 0, zr_palette = replicate 128 0,
       zr_count = 0, zr_keys = replicate 256 0, zr_slots = replicate 256 0\<rparr>,
     zl_stream = vnc_deflate_init (replicate 4096 0), zl_out = replicate (vnc_deflate_bound VNC_ZRLE_RAW_CAP) 0\<rparr>"

lemma fresh_link_agrees: "link_agrees fresh_link ([], 0)"
  by (simp add: link_agrees_def link_ok_def fresh_link_def palette_sizes_def zlib_state_def vnc_deflate_init_def)

lemma default_format_rfc: "format_rfc default_format"
proof -
  have "\<exists>n \<le> 16. mask n = (255 :: u32)" by (rule exI [of _ 8]) (simp add: mask_eq_exp_minus_1)
  then show ?thesis using default_ok by (simp add: format_rfc_def maxima_ok_def default_format_def)
qed

lemma vnc_zrle_shows_witness:
  "\<exists>bs link' v'. (\<forall>net. net_ok net \<longrightarrow> emits_val (vnc_encode_zrle (px_of default_format) one_pixel 0 0 1 1 fresh_link net) net bs link') \<and>
    link_agrees link' v' \<and> (\<forall>fb rest. view_zrle default_format (vs_width one_pixel) (0, 0, 1, 1) (([], 0), fb, bs @ rest)
      (v', shown default_format one_pixel 0 0 1 1 fb, rest))"
  by (rule vnc_zrle_shows [OF default_format_rfc build_tables_eq [OF default_ok] one_pixel_ok _ _ _ _ fresh_link_agrees])
    (simp_all add: one_pixel_def)

end
