(* ===== verification/VncViewer.thy ===== *)
theory VncViewer
  imports VncMove VncHextileShow VncZrleShow
begin

section \<open>A viewer reads an update\<close>

text \<open>
  The reference viewer of \<open>VncView\<close> for whole updates, after RFC 6143 section 7.6: a header, and
  rectangles of any of the encodings the server uses, each of which changes the framebuffer, the zlib
  stream, the cursor or the place of the pointer. \<open>delivers\<close> says that a step of the server sends what
  such a viewer reads as a number of rectangles.
\<close>

record viewer =
  vw_fb :: "u32 list"
  vw_zlib :: "bytes \<times> nat"
  vw_cursor :: "nat \<times> nat \<times> nat \<times> nat \<times> u32 list \<times> bool list"
  vw_at :: "nat \<times> nat"

abbreviation wire_nat :: "bytes \<Rightarrow> nat" where
  "wire_nat bs \<equiv> unat (wire_value bs)"

definition view_header :: "bytes \<Rightarrow> ((nat \<times> nat \<times> nat \<times> nat) \<times> u32 \<times> bytes) option" where
  "view_header bs =
     (if length bs < 12 then None
      else Some ((wire_nat (take 2 bs), wire_nat (take 2 (drop 2 bs)), wire_nat (take 2 (drop 4 bs)), wire_nat (take 2 (drop 6 bs))),
        wire_value (take 4 (drop 8 bs)), drop 12 bs))"

definition view_mask :: "nat \<Rightarrow> nat \<Rightarrow> bytes \<Rightarrow> bool list" where
  "view_mask n k bs =
     concat (map (\<lambda>row. map (\<lambda>column. bit (bs ! (row * ((n + 7) div 8) + column div 8)) (7 - column mod 8)) [0..<n]) [0..<k])"

inductive view_rect :: "vnc_format \<Rightarrow> nat \<Rightarrow> nat \<Rightarrow> viewer \<times> bytes \<Rightarrow> viewer \<times> bytes \<Rightarrow> bool" for f w h where
  raw: "view_header bs = Some ((x, y, n, k), 0, bs') \<Longrightarrow> x + n \<le> w \<Longrightarrow> y + k \<le> h \<Longrightarrow>
    view_raw f w x y n k (vw_fb v) bs' = Some (fb, rest) \<Longrightarrow> view_rect f w h (v, bs) (v\<lparr>vw_fb := fb\<rparr>, rest)"
| copied: "view_header bs = Some ((x, y, n, k), 1, bs') \<Longrightarrow> x + n \<le> w \<Longrightarrow> y + k \<le> h \<Longrightarrow>
    4 \<le> length bs' \<Longrightarrow> sx = wire_nat (take 2 bs') \<Longrightarrow> sy = wire_nat (take 2 (drop 2 bs')) \<Longrightarrow> sx + n \<le> w \<Longrightarrow> sy + k \<le> h \<Longrightarrow>
    view_rect f w h (v, bs) (v\<lparr>vw_fb := copy_rect w (x, y, n, k) sx sy (vw_fb v)\<rparr>, drop 4 bs')"
| hextile: "view_header bs = Some ((x, y, n, k), 5, bs') \<Longrightarrow> x + n \<le> w \<Longrightarrow> y + k \<le> h \<Longrightarrow>
    view_hextile f w x y n k (vw_fb v) bs' = Some (fb, rest) \<Longrightarrow> view_rect f w h (v, bs) (v\<lparr>vw_fb := fb\<rparr>, rest)"
| zrle: "view_header bs = Some ((x, y, n, k), 16, bs') \<Longrightarrow> x + n \<le> w \<Longrightarrow> y + k \<le> h \<Longrightarrow>
    view_zrle f w (x, y, n, k) (vw_zlib v, vw_fb v, bs') (z, fb, rest) \<Longrightarrow>
    view_rect f w h (v, bs) (v\<lparr>vw_fb := fb, vw_zlib := z\<rparr>, rest)"
| cursor: "view_header bs = Some ((x, y, n, k), - 239, bs') \<Longrightarrow> view_pixels f (n * k) bs' = Some (ps, mask_bytes) \<Longrightarrow>
    k * ((n + 7) div 8) \<le> length mask_bytes \<Longrightarrow>
    view_rect f w h (v, bs) (v\<lparr>vw_cursor := (x, y, n, k, ps, view_mask n k mask_bytes)\<rparr>, drop (k * ((n + 7) div 8)) mask_bytes)"
| position: "view_header bs = Some ((x, y, n, k), - 232, rest) \<Longrightarrow> view_rect f w h (v, bs) (v\<lparr>vw_at := (x, y)\<rparr>, rest)"

inductive view_rects :: "vnc_format \<Rightarrow> nat \<Rightarrow> nat \<Rightarrow> nat \<Rightarrow> viewer \<times> bytes \<Rightarrow> viewer \<times> bytes \<Rightarrow> bool" for f w h where
  none: "view_rects f w h 0 st st"
| more: "view_rect f w h st st1 \<Longrightarrow> view_rects f w h k st1 st2 \<Longrightarrow> view_rects f w h (Suc k) st st2"

definition view_update :: "vnc_format \<Rightarrow> nat \<Rightarrow> nat \<Rightarrow> viewer \<times> bytes \<Rightarrow> viewer \<times> bytes \<Rightarrow> bool" where
  "view_update f w h = (\<lambda>(v, bs) st.
     4 \<le> length bs \<and> hd bs = 0 \<and> view_rects f w h (wire_nat (take 2 (drop 2 bs))) (v, drop 4 bs) st)"

inductive_simps view_rects_0 [simp]: "view_rects f w h 0 st st'"
inductive_simps view_rects_Suc [simp]: "view_rects f w h (Suc k) st st'"

lemma view_rects_append:
  "view_rects f w h k st st1 \<Longrightarrow> view_rects f w h l st1 st2 \<Longrightarrow> view_rects f w h (k + l) st st2"
  by (induction rule: view_rects.induct) auto

subsection \<open>Headers\<close>

lemma length_put16 [simp]: "length (vnc_put16 v) = 2"
  by (simp add: vnc_put16_def)

lemma length_put32 [simp]: "length (vnc_put32 v) = 4"
  by (simp add: vnc_put32_def)

lemma put16_value: "wire_value (vnc_put16 v) = v AND 0xffff"
proof (rule bit_word_eqI)
  fix n assume "n < LENGTH(32)"
  have m: "(0xffff :: u32) = mask 16" "(0xff :: u32) = mask 8" by (simp_all add: mask_eq_exp_minus_1)
  show "bit (wire_value (vnc_put16 v)) n = bit (v AND 0xffff) n"
    unfolding wire_value_def vnc_put16_def m
    by (cases "16 \<le> n"; cases "8 \<le> n") (auto simp: bit_simps)
qed

lemma put16_nat: "n < 65536 \<Longrightarrow> wire_nat (vnc_put16 (of_nat n)) = n"
proof -
  assume n: "n < 65536"
  have "(of_nat n :: u32) AND 0xffff = of_nat n"
  proof -
    have "(0xffff :: u32) = mask 16" by (simp add: mask_eq_exp_minus_1)
    moreover have "take_bit 16 (of_nat n :: u32) = of_nat n"
      using n by (simp add: take_bit_of_nat take_bit_nat_eq_self)
    ultimately show ?thesis by (simp add: take_bit_eq_mask)
  qed
  then show ?thesis using n by (simp add: put16_value u32_of_nat)
qed

lemma view_rect_header:
  assumes "x < 65536" "y < 65536" "n < 65536" "k < 65536"
  shows "view_header (rect_header x y n k e @ rest) = Some ((x, y, n, k), e, rest)"
  using assms by (simp add: view_header_def rect_header_def put16_nat put32_value)

lemma length_rect_header [simp]: "length (rect_header x y n k e) = 12"
  by (simp add: rect_header_def)

subsection \<open>Delivering rectangles\<close>

definition delivers ::
    "vnc_format \<Rightarrow> vnc_screen \<Rightarrow> nat \<Rightarrow> viewer \<Rightarrow> (vnc_net \<Rightarrow> 'a net_result) \<Rightarrow> 'a \<Rightarrow> viewer \<Rightarrow> bool" where
  "delivers f s k v m a v' \<longleftrightarrow>
     (\<exists>bs. (\<forall>net. net_ok net \<longrightarrow> emits_val (m net) net bs a) \<and>
       (\<forall>rest. view_rects f (vs_width s) (vs_height s) k (v, bs @ rest) (v', rest)))"

lemma delivers_done: "delivers f s 0 v (\<lambda>net. Some (net, Inr a)) a v"
  unfolding delivers_def by (rule exI [of _ "[]"]) (simp add: emits_val_done)

lemma delivers_seq:
  assumes "delivers f s k v m a v1" and "delivers f s l v1 (g a) b v2"
  shows "delivers f s (k + l) v (\<lambda>net. andthen (m net) g) b v2"
proof -
  obtain bs where bs: "\<And>net. net_ok net \<Longrightarrow> emits_val (m net) net bs a"
      "\<And>rest. view_rects f (vs_width s) (vs_height s) k (v, bs @ rest) (v1, rest)"
    using assms(1) by (auto simp: delivers_def)
  obtain cs where cs: "\<And>net. net_ok net \<Longrightarrow> emits_val (g a net) net cs b"
      "\<And>rest. view_rects f (vs_width s) (vs_height s) l (v1, cs @ rest) (v2, rest)"
    using assms(2) by (auto simp: delivers_def)
  have "view_rects f (vs_width s) (vs_height s) (k + l) (v, (bs @ cs) @ rest) (v2, rest)" for rest
    using view_rects_append [OF bs(2) cs(2)] by simp
  moreover have "emits_val (andthen (m net) g) net (bs @ cs) b" if "net_ok net" for net
    by (rule emits_val_seq, rule bs(1) [OF that], rule cs(1))
  ultimately show ?thesis unfolding delivers_def by blast
qed

lemma delivers_map:
  assumes "delivers f s k v m a v'"
  shows "delivers f s k v (\<lambda>net. andthen (m net) (\<lambda>a net. Some (net, Inr (g a)))) (g a) v'"
  using delivers_seq [OF assms delivers_done, of g] by simp

text \<open>A header and a body are one rectangle.\<close>

lemma delivers_rect:
  assumes at: "x < 65536" "y < 65536" "n < 65536" "k < 65536"
    and body: "\<And>net. net_ok net \<Longrightarrow> emits_val (m net) net bs a"
    and view: "\<And>rest hd. view_header hd = Some ((x, y, n, k), e, bs @ rest) \<Longrightarrow>
      view_rect f (vs_width s) (vs_height s) (v, hd) (v', rest)"
  shows "delivers f s 1 v (\<lambda>net. andthen (vnc_rect_header x y n k e net) (\<lambda>_. m)) a v'"
  unfolding delivers_def
proof (intro exI conjI allI impI)
  fix net assume net: "net_ok net"
  have "emits_val (vnc_rect_header x y n k e net) net (rect_header x y n k e) ()"
    unfolding emits_val_unit vnc_rect_header_def by (rule emit_emits [OF net]) (simp_all add: VNC_OUT_SIZE_def)
  then show "emits_val (andthen (vnc_rect_header x y n k e net) (\<lambda>_. m)) net (rect_header x y n k e @ bs) a"
    by (rule emits_val_seq) (rule body)
next
  fix rest
  have "view_rect f (vs_width s) (vs_height s) (v, rect_header x y n k e @ bs @ rest) (v', rest)"
    by (rule view) (rule view_rect_header [OF at])
  then show "view_rects f (vs_width s) (vs_height s) 1 (v, (rect_header x y n k e @ bs) @ rest) (v', rest)"
    by (auto simp: numeral_eq_Suc)
qed

end
