(* ===== verification/VncDirty.thy ===== *)
theory VncDirty
  imports VncViewer
begin

section \<open>The dirty tiles reach the viewer\<close>

text \<open>
  The contract of a rectangle encoder, its three providers, and the loop that sends a rectangle per run
  of dirty tiles: the viewer reads as many rectangles as the header of the update announces, and its
  framebuffer then shows the previous frame on the dirty tiles and is unchanged on the others.
\<close>

subsection \<open>The contract of an encoder\<close>

text \<open>
  \<open>agree e v\<close> relates what the encoder keeps between rectangles to what the viewer keeps. The law: the
  bytes an encoder sends for a rectangle are read by the viewer, to the last one, as a rectangle of its
  encoding, the framebuffer then shows the previous frame there, and the two agree again.
\<close>

definition rect_inside :: "vnc_screen \<Rightarrow> nat \<times> nat \<times> nat \<times> nat \<Rightarrow> bool" where
  "rect_inside s = (\<lambda>(x, y, n, k). x + n \<le> vs_width s \<and> y + k \<le> vs_height s \<and> 0 < n \<and> 0 < k \<and> k \<le> 16)"

locale rect_encoder =
  fixes accepts :: "vnc_format \<Rightarrow> bool"
    and encode :: "vnc_px \<Rightarrow> vnc_screen \<Rightarrow> nat \<times> nat \<times> nat \<times> nat \<Rightarrow> 'e \<Rightarrow> vnc_net \<Rightarrow> 'e net_result"
    and number :: u32
    and agree :: "'e \<Rightarrow> viewer \<Rightarrow> bool"
  assumes reads: "accepts f \<Longrightarrow> frame_ok s \<Longrightarrow> rect_inside s (x, y, n, k) \<Longrightarrow> agree e v \<Longrightarrow>
    \<exists>bs e' z. (\<forall>net. net_ok net \<longrightarrow> emits_val (encode (px_of f) s (x, y, n, k) e net) net bs e') \<and>
      agree e' (v\<lparr>vw_fb := shown f s x y n k (vw_fb v), vw_zlib := z\<rparr>) \<and>
      (\<forall>rest hd. view_header hd = Some ((x, y, n, k), number, bs @ rest) \<longrightarrow>
        view_rect f (vs_width s) (vs_height s) (v, hd) (v\<lparr>vw_fb := shown f s x y n k (vw_fb v), vw_zlib := z\<rparr>, rest))"
begin

lemma rect_delivered:
  assumes "accepts f" and s: "frame_ok s" and inside: "rect_inside s (x, y, n, k)" and "agree e v"
  shows "\<exists>e' z. agree e' (v\<lparr>vw_fb := shown f s x y n k (vw_fb v), vw_zlib := z\<rparr>) \<and>
    delivers f s 1 v (\<lambda>net. andthen (vnc_rect_header x y n k number net) (\<lambda>_ net.
      andthen (encode (px_of f) s (x, y, n, k) e net) (\<lambda>e net. Some (net, Inr (g e)))))
      (g e') (v\<lparr>vw_fb := shown f s x y n k (vw_fb v), vw_zlib := z\<rparr>)"
proof -
  obtain bs e' z where bs: "\<And>net. net_ok net \<Longrightarrow> emits_val (encode (px_of f) s (x, y, n, k) e net) net bs e'"
      "agree e' (v\<lparr>vw_fb := shown f s x y n k (vw_fb v), vw_zlib := z\<rparr>)"
      "\<And>rest hd. view_header hd = Some ((x, y, n, k), number, bs @ rest) \<Longrightarrow>
        view_rect f (vs_width s) (vs_height s) (v, hd) (v\<lparr>vw_fb := shown f s x y n k (vw_fb v), vw_zlib := z\<rparr>, rest)"
    using reads [OF assms] by blast
  have at: "x < 65536" "y < 65536" "n < 65536" "k < 65536"
    using inside s by (auto simp: rect_inside_def frame_ok_def VNC_MAX_DIM_def)
  have "delivers f s 1 v (\<lambda>net. andthen (vnc_rect_header x y n k number net) (\<lambda>_ net.
      andthen (encode (px_of f) s (x, y, n, k) e net) (\<lambda>e net. Some (net, Inr (g e)))))
      (g e') (v\<lparr>vw_fb := shown f s x y n k (vw_fb v), vw_zlib := z\<rparr>)"
    by (rule delivers_rect [OF at emits_val_map [OF bs(1)] bs(3)])
  then show ?thesis using bs(2) by blast
qed

end

subsection \<open>The three encoders\<close>

definition raw_encode :: "vnc_px \<Rightarrow> vnc_screen \<Rightarrow> nat \<times> nat \<times> nat \<times> nat \<Rightarrow> unit \<Rightarrow> vnc_net \<Rightarrow> unit net_result" where
  "raw_encode px s = (\<lambda>(x, y, n, k) _. vnc_encode_raw px s x y n k)"

interpretation raw: rect_encoder format_ok raw_encode VNC_ENC_RAW "\<lambda>_ _. True"
proof
  fix f s x y n k and e :: unit and v :: viewer
  assume f: "format_ok f" and s: "frame_ok s" and inside: "rect_inside s (x, y, n, k)"
  have fit: "x + n \<le> vs_width s" "y + k \<le> vs_height s" "0 < vs_width s"
    using inside s by (simp_all add: rect_inside_def frame_ok_def)
  let ?v = "v\<lparr>vw_fb := shown f s x y n k (vw_fb v), vw_zlib := vw_zlib v\<rparr>"
  let ?bs = "store_pixels (px_of f) (rect_pixels f s x y n k)"
  have "view_rect f (vs_width s) (vs_height s) (v, hd) (?v, rest)"
    if "view_header hd = Some ((x, y, n, k), VNC_ENC_RAW, ?bs @ rest)" for rest hd
    using view_rect.raw [OF that [unfolded VNC_ENC_RAW_def] fit(1,2) view_raw_shows [OF f fit(3)], of v] by simp
  moreover have "emits_val (raw_encode (px_of f) s (x, y, n, k) e net) net ?bs e" if "net_ok net" for net
    using encode_raw_emits [OF f s fit(1,2) that] by (simp add: raw_encode_def emits_val_unit)
  ultimately show "\<exists>bs e' z. (\<forall>net. net_ok net \<longrightarrow> emits_val (raw_encode (px_of f) s (x, y, n, k) e net) net bs e') \<and> True \<and>
      (\<forall>rest hd. view_header hd = Some ((x, y, n, k), VNC_ENC_RAW, bs @ rest) \<longrightarrow>
        view_rect f (vs_width s) (vs_height s) (v, hd) (v\<lparr>vw_fb := shown f s x y n k (vw_fb v), vw_zlib := z\<rparr>, rest))"
    by blast
qed

definition hextile_encode ::
    "bytes \<Rightarrow> vnc_px \<Rightarrow> vnc_screen \<Rightarrow> nat \<times> nat \<times> nat \<times> nat \<Rightarrow> hex_state \<Rightarrow> vnc_net \<Rightarrow> hex_state net_result" where
  "hextile_encode subrects px s = (\<lambda>(x, y, n, k) hex. vnc_encode_hextile px s x y n k subrects hex)"

interpretation hextile: rect_encoder "\<lambda>f. format_ok f \<and> length subrects = 1536" "hextile_encode subrects" VNC_ENC_HEXTILE "\<lambda>_ _. True"
  for subrects
proof
  fix f s x y n k and e :: hex_state and v :: viewer
  assume f: "format_ok f \<and> length subrects = 1536" and s: "frame_ok s" and inside: "rect_inside s (x, y, n, k)"
  have fit: "x + n \<le> vs_width s" "y + k \<le> vs_height s" using inside by (simp_all add: rect_inside_def)
  let ?v = "v\<lparr>vw_fb := shown f s x y n k (vw_fb v), vw_zlib := vw_zlib v\<rparr>"
  obtain bs e' where bs: "\<And>net. net_ok net \<Longrightarrow> emits_val (vnc_encode_hextile (px_of f) s x y n k subrects e net) net bs e'"
      "\<And>fb rest. view_hextile f (vs_width s) x y n k fb (bs @ rest) = Some (shown f s x y n k fb, rest)"
    using hextile_reads_rect [OF conjunct1 [OF f] s fit conjunct2 [OF f]] by blast
  have "view_rect f (vs_width s) (vs_height s) (v, hd) (?v, rest)"
    if "view_header hd = Some ((x, y, n, k), VNC_ENC_HEXTILE, bs @ rest)" for rest hd
    using view_rect.hextile [OF that [unfolded VNC_ENC_HEXTILE_def] fit bs(2), of v] by simp
  then show "\<exists>bs e' z. (\<forall>net. net_ok net \<longrightarrow> emits_val (hextile_encode subrects (px_of f) s (x, y, n, k) e net) net bs e') \<and> True \<and>
      (\<forall>rest hd. view_header hd = Some ((x, y, n, k), VNC_ENC_HEXTILE, bs @ rest) \<longrightarrow>
        view_rect f (vs_width s) (vs_height s) (v, hd) (v\<lparr>vw_fb := shown f s x y n k (vw_fb v), vw_zlib := z\<rparr>, rest))"
    using bs(1) by (intro exI [of _ bs] exI [of _ e'] exI [of _ "vw_zlib v"]) (auto simp: hextile_encode_def)
qed

definition zrle_encode ::
    "vnc_px \<Rightarrow> vnc_screen \<Rightarrow> nat \<times> nat \<times> nat \<times> nat \<Rightarrow> zrle_link \<Rightarrow> vnc_net \<Rightarrow> zrle_link net_result" where
  "zrle_encode px s = (\<lambda>(x, y, n, k). vnc_encode_zrle px s x y n k)"

interpretation zrle: rect_encoder format_rfc zrle_encode VNC_ENC_ZRLE "\<lambda>link v. link_agrees link (vw_zlib v)"
proof
  fix f s x y n k and e :: zrle_link and v :: viewer
  assume f: "format_rfc f" and s: "frame_ok s" and inside: "rect_inside s (x, y, n, k)" and e: "link_agrees e (vw_zlib v)"
  have fit: "x + n \<le> vs_width s" "y + k \<le> vs_height s" "0 < k" "k \<le> 16" using inside by (simp_all add: rect_inside_def)
  obtain bs e' z where bs: "\<And>net. net_ok net \<Longrightarrow> emits_val (vnc_encode_zrle (px_of f) s x y n k e net) net bs e'"
      "link_agrees e' z"
      "\<And>fb rest. view_zrle f (vs_width s) (x, y, n, k) (vw_zlib v, fb, bs @ rest) (z, shown f s x y n k fb, rest)"
    using zrle_reads_rect [OF f s fit e] by blast
  have "view_rect f (vs_width s) (vs_height s) (v, hd) (v\<lparr>vw_fb := shown f s x y n k (vw_fb v), vw_zlib := z\<rparr>, rest)"
    if "view_header hd = Some ((x, y, n, k), VNC_ENC_ZRLE, bs @ rest)" for rest hd
    by (rule view_rect.zrle [OF that [unfolded VNC_ENC_ZRLE_def] fit(1,2) bs(3)])
  then show "\<exists>bs e' z. (\<forall>net. net_ok net \<longrightarrow> emits_val (zrle_encode (px_of f) s (x, y, n, k) e net) net bs e') \<and>
      link_agrees e' (vw_zlib (v\<lparr>vw_fb := shown f s x y n k (vw_fb v), vw_zlib := z\<rparr>)) \<and>
      (\<forall>rest hd. view_header hd = Some ((x, y, n, k), VNC_ENC_ZRLE, bs @ rest) \<longrightarrow>
        view_rect f (vs_width s) (vs_height s) (v, hd) (v\<lparr>vw_fb := shown f s x y n k (vw_fb v), vw_zlib := z\<rparr>, rest))"
    using bs(1,2) by (intro exI [of _ bs] exI [of _ e'] exI [of _ z]) (auto simp: zrle_encode_def)
qed

subsection \<open>Whichever the viewer asked for\<close>

definition conn_agrees :: "vnc_format \<Rightarrow> vnc_conn \<Rightarrow> viewer \<Rightarrow> bool" where
  "conn_agrees f c v \<longleftrightarrow> format_ok f \<and> cn_px c = px_of f \<and> length (cn_subrects c) = 1536 \<and>
     (cn_zrle c \<longrightarrow> maxima_ok f \<and> link_agrees (cn_link c) (vw_zlib v))"

lemma send_rect_delivers:
  assumes c: "conn_agrees f c v" and s: "frame_ok s" and inside: "rect_inside s (x, y, n, k)"
  shows "\<exists>c' z. conn_agrees f c' (v\<lparr>vw_fb := shown f s x y n k (vw_fb v), vw_zlib := z\<rparr>) \<and>
    delivers f s 1 v (vnc_send_rect s (x, y, n, k) c) c' (v\<lparr>vw_fb := shown f s x y n k (vw_fb v), vw_zlib := z\<rparr>)"
proof -
  have f: "format_ok f" "cn_px c = px_of f" "length (cn_subrects c) = 1536" using c by (simp_all add: conn_agrees_def)
  consider "cn_zrle c" | "\<not> cn_zrle c" "cn_hextile c" | "\<not> cn_zrle c" "\<not> cn_hextile c" by blast
  then show ?thesis
  proof cases
    case 1
    then have "format_rfc f" "link_agrees (cn_link c) (vw_zlib v)" using c by (simp_all add: conn_agrees_def format_rfc_def)
    then obtain link z where "link_agrees link z"
        "delivers f s 1 v (\<lambda>net. andthen (vnc_rect_header x y n k VNC_ENC_ZRLE net) (\<lambda>_ net.
          andthen (zrle_encode (px_of f) s (x, y, n, k) (cn_link c) net) (\<lambda>link net. Some (net, Inr (c\<lparr>cn_link := link\<rparr>)))))
          (c\<lparr>cn_link := link\<rparr>) (v\<lparr>vw_fb := shown f s x y n k (vw_fb v), vw_zlib := z\<rparr>)"
      using zrle.rect_delivered [OF _ s inside, of f "cn_link c" v "\<lambda>link. c\<lparr>cn_link := link\<rparr>"] by auto
    then show ?thesis
      using 1 c by (intro exI [of _ "c\<lparr>cn_link := link\<rparr>"] exI [of _ z]) (simp add: conn_agrees_def vnc_send_rect_def zrle_encode_def f(2))
  next
    case 2
    then obtain hex z where "delivers f s 1 v (\<lambda>net. andthen (vnc_rect_header x y n k VNC_ENC_HEXTILE net) (\<lambda>_ net.
          andthen (hextile_encode (cn_subrects c) (px_of f) s (x, y, n, k) (cn_hex c) net) (\<lambda>hex net. Some (net, Inr (c\<lparr>cn_hex := hex\<rparr>)))))
          (c\<lparr>cn_hex := hex\<rparr>) (v\<lparr>vw_fb := shown f s x y n k (vw_fb v), vw_zlib := z\<rparr>)"
      using hextile.rect_delivered [where subrects = "cn_subrects c" and f = f and e = "cn_hex c" and v = v and
          g = "\<lambda>hex. c\<lparr>cn_hex := hex\<rparr>", OF _ s inside] f by auto
    then show ?thesis
      using 2 c by (intro exI [of _ "c\<lparr>cn_hex := hex\<rparr>"] exI [of _ z]) (simp add: conn_agrees_def vnc_send_rect_def hextile_encode_def f(2))
  next
    case 3
    obtain z where "delivers f s 1 v (\<lambda>net. andthen (vnc_rect_header x y n k VNC_ENC_RAW net) (\<lambda>_ net.
          andthen (raw_encode (px_of f) s (x, y, n, k) () net) (\<lambda>_ net. Some (net, Inr c))))
          c (v\<lparr>vw_fb := shown f s x y n k (vw_fb v), vw_zlib := z\<rparr>)"
      using raw.rect_delivered [where e = "()" and v = v and g = "\<lambda>_. c", OF f(1) s inside] by auto
    then show ?thesis
      using 3 c by (intro exI [of _ c] exI [of _ z]) (simp add: conn_agrees_def vnc_send_rect_def raw_encode_def f(2))
  qed
qed

subsection \<open>Painted tiles\<close>

definition painted :: "vnc_format \<Rightarrow> vnc_screen \<Rightarrow> (nat \<Rightarrow> bool) \<Rightarrow> u32 list \<Rightarrow> u32 list" where
  "painted f s K fb = map (\<lambda>p. if K (tile_of s p) then pixel_of f (vs_prev s ! p) else fb ! p) [0..<length fb]"

lemma length_painted [simp]: "length (painted f s K fb) = length fb"
  by (simp add: painted_def)

lemma painted_none: "painted f s (\<lambda>k. False) fb = fb"
  by (simp add: painted_def map_nth)

lemma painted_painted: "painted f s K (painted f s L fb) = painted f s (\<lambda>k. L k \<or> K k) fb"
  by (rule nth_equalityI) (simp_all add: painted_def)

lemma painted_cong:
  assumes "length fb = vs_width s * vs_height s" and "\<And>p. p < vs_width s * vs_height s \<Longrightarrow> K (tile_of s p) = L (tile_of s p)"
  shows "painted f s K fb = painted f s L fb"
  using assms by (auto simp: painted_def)

text \<open>Once every tile that is not painted was right already, all of the framebuffer is right.\<close>

lemma painted_all:
  assumes "length fb = vs_width s * vs_height s" and "length (vs_prev s) = vs_width s * vs_height s"
    and "\<And>p. p < vs_width s * vs_height s \<Longrightarrow> \<not> K (tile_of s p) \<Longrightarrow> fb ! p = pixel_of f (vs_prev s ! p)"
  shows "painted f s K fb = map (pixel_of f) (vs_prev s)"
  using assms by (auto simp: painted_def intro!: nth_equalityI)

subsection \<open>Runs of dirty tiles\<close>

definition tile_dirty :: "vnc_screen \<Rightarrow> nat \<Rightarrow> nat \<Rightarrow> bool" where
  "tile_dirty s band i \<longleftrightarrow> vs_dirty s ! (band * vs_tiles_x s + i)"

definition run_starts :: "vnc_screen \<Rightarrow> nat \<Rightarrow> nat \<Rightarrow> bool" where
  "run_starts s band i \<longleftrightarrow> tile_dirty s band i \<and> (i = 0 \<or> \<not> tile_dirty s band (i - 1))"

definition runs_from :: "vnc_screen \<Rightarrow> nat \<Rightarrow> nat \<Rightarrow> nat" where
  "runs_from s band i = length (filter (run_starts s band) [i..<vs_tiles_x s])"

lemma suspect_run_ends:
  assumes "suspect_run flags base tile_x count run = Some n" and "tile_x + run \<le> count"
  shows "tile_x + n = count \<or> \<not> flags ! (base + tile_x + n)"
  using assms
proof (induction flags base tile_x count run rule: suspect_run.induct)
  case (1 flags base tile_x count run)
  show ?case
  proof (cases "tile_x + run < count")
    case True
    then obtain b where b: "rd flags (base + tile_x + run) = Some b"
      using "1.prems"(1) by (subst (asm) suspect_run.simps) (auto split: bind_splits)
    show ?thesis
    proof (cases b)
      case True
      then have "suspect_run flags base tile_x count (run + 1) = Some n"
        using "1.prems"(1) b \<open>tile_x + run < count\<close> by (subst (asm) suspect_run.simps) simp
      then show ?thesis using "1.IH" [OF \<open>tile_x + run < count\<close> b True] \<open>tile_x + run < count\<close> by simp
    next
      case False
      then have "n = run" using "1.prems"(1) b \<open>tile_x + run < count\<close> by (subst (asm) suspect_run.simps) simp
      then show ?thesis using b False by (auto simp: rd_eq_Some_iff)
    qed
  next
    case False
    then have "n = run" using "1.prems"(1) by (subst (asm) suspect_run.simps) simp
    then show ?thesis using False "1.prems"(2) by simp
  qed
qed

text \<open>A run starts once, and not more than every other tile starts one.\<close>

lemma runs_from_clean: "i < vs_tiles_x s \<Longrightarrow> \<not> tile_dirty s band i \<Longrightarrow> runs_from s band i = runs_from s band (i + 1)"
  by (simp add: runs_from_def upt_conv_Cons run_starts_def)

lemma runs_from_run:
  assumes "run_starts s band i" and "0 < n" "i + n \<le> vs_tiles_x s" and "\<forall>j < n. tile_dirty s band (i + j)"
  shows "runs_from s band i = Suc (runs_from s band (i + n))"
proof -
  have "\<not> run_starts s band j" if "i < j" "j < i + n" for j
  proof -
    have "i + (j - 1 - i) = j - 1" "j - 1 - i < n" using that by simp_all
    then have "tile_dirty s band (j - 1)" using assms(4) by metis
    then show ?thesis using that by (simp add: run_starts_def)
  qed
  then have "filter (run_starts s band) [Suc i..<i + n] = []" by (simp add: filter_empty_conv)
  moreover have "[i..<vs_tiles_x s] = i # [Suc i..<i + n] @ [i + n..<vs_tiles_x s]"
  proof -
    have "[i..<vs_tiles_x s] = [i..<i + n] @ [i + n..<vs_tiles_x s]" using assms(3) by (metis le_add1 upt_add_eq_append le_Suc_ex)
    then show ?thesis using assms(2) upt_conv_Cons [of i "i + n"] by simp
  qed
  ultimately show ?thesis using assms(1) by (simp add: runs_from_def)
qed

lemma runs_every_other:
  "2 * length (filter (run_starts s band) [0..<m]) \<le> m + of_bool (0 < m \<and> tile_dirty s band (m - 1))"
proof (induction m)
  case (Suc m)
  then show ?case by (cases "run_starts s band m") (auto simp: run_starts_def of_bool_def split: if_splits)
qed simp

lemma runs_from_le: "2 * runs_from s band 0 \<le> vs_tiles_x s + 1"
  using runs_every_other [of s band "vs_tiles_x s"] unfolding runs_from_def by (simp add: of_bool_def split: if_splits)

subsection \<open>The loops\<close>

text \<open>What a step of the loops leaves unchanged in the viewer.\<close>

definition only_screen :: "viewer \<Rightarrow> viewer \<Rightarrow> bool" where
  "only_screen v v' \<longleftrightarrow> length (vw_fb v') = length (vw_fb v) \<and> vw_cursor v' = vw_cursor v \<and> vw_at v' = vw_at v"

definition band_tiles :: "vnc_screen \<Rightarrow> nat \<Rightarrow> nat \<Rightarrow> nat \<Rightarrow> bool" where
  "band_tiles s band i k \<longleftrightarrow> band * vs_tiles_x s + i \<le> k \<and> k < band * vs_tiles_x s + vs_tiles_x s \<and> vs_dirty s ! k"

definition band_rect :: "vnc_screen \<Rightarrow> nat \<Rightarrow> nat \<Rightarrow> nat \<Rightarrow> nat \<times> nat \<times> nat \<times> nat" where
  "band_rect s band i run =
     (let x = i * VNC_TILE; y = band * VNC_TILE in
      (x, y, if (i + run) * VNC_TILE > vs_width s then vs_width s - x else run * VNC_TILE,
       if y + VNC_TILE > vs_height s then vs_height s - y else VNC_TILE))"

lemma run_delivers:
  assumes s: "frame_ok s" and band: "band < vs_tiles_y s" and run: "i + run \<le> vs_tiles_x s" "0 < run"
    and c: "conn_agrees f c v" and len: "length (vw_fb v) = vs_width s * vs_height s"
  shows "\<exists>c' v'. delivers f s 1 v (vnc_send_rect s (band_rect s band i run) c) c' v' \<and> conn_agrees f c' v' \<and> only_screen v v' \<and>
    vw_fb v' = painted f s (\<lambda>k. band * vs_tiles_x s + i \<le> k \<and> k < band * vs_tiles_x s + (i + run)) (vw_fb v)"
proof -
  obtain x y n k where r: "band_rect s band i run = (x, y, n, k)" by (metis prod_cases4)
  note rect = run_rect [OF s _ band run]
  have at: "x = i * VNC_TILE" "y = band * VNC_TILE"
      "n = (if (i + run) * VNC_TILE > vs_width s then vs_width s - x else run * VNC_TILE)"
      "k = (if y + VNC_TILE > vs_height s then vs_height s - y else VNC_TILE)"
    using r by (auto simp: band_rect_def Let_def)
  have size: "0 < vs_width s * vs_height s" using s by (simp add: frame_ok_def)
  have "x + n \<le> vs_width s" "y + k \<le> vs_height s" using rect(2,3) [OF size] unfolding at by simp_all
  moreover have "x < vs_width s" "y < vs_height s"
    using tile_fits(1) [of i "vs_width s"] tile_fits(1) [of band "vs_height s"] s band run unfolding at by (simp_all add: frame_ok_def)
  ultimately have "rect_inside s (x, y, n, k)"
    using run(2) by (auto simp: rect_inside_def at VNC_TILE_def)
  from send_rect_delivers [OF c s this] obtain c' z where
      c': "conn_agrees f c' (v\<lparr>vw_fb := shown f s x y n k (vw_fb v), vw_zlib := z\<rparr>)"
        "delivers f s 1 v (vnc_send_rect s (x, y, n, k) c) c' (v\<lparr>vw_fb := shown f s x y n k (vw_fb v), vw_zlib := z\<rparr>)" by blast
  have "shown f s x y n k (vw_fb v) =
      painted f s (\<lambda>k. band * vs_tiles_x s + i \<le> k \<and> k < band * vs_tiles_x s + (i + run)) (vw_fb v)"
    unfolding shown_def painted_def using rect(1) len by (intro map_cong) (auto simp: at)
  then show ?thesis
    using c' unfolding r by (intro exI [of _ c'] exI [of _ "v\<lparr>vw_fb := shown f s x y n k (vw_fb v), vw_zlib := z\<rparr>"])
      (simp add: only_screen_def)
qed

lemma send_band_delivers:
  assumes s: "frame_ok s" and band: "band < vs_tiles_y s"
    and "i \<le> vs_tiles_x s" and "tile_dirty s band i \<Longrightarrow> i < vs_tiles_x s \<Longrightarrow> run_starts s band i"
    and "conn_agrees f c v" and "length (vw_fb v) = vs_width s * vs_height s"
  shows "\<exists>c' v'. delivers f s (runs_from s band i) v (send_band s band i c) c' v' \<and> conn_agrees f c' v' \<and>
    only_screen v v' \<and> vw_fb v' = painted f s (band_tiles s band i) (vw_fb v)"
  using assms(3-)
proof (induction "vs_tiles_x s - i" arbitrary: i c v rule: less_induct)
  case less
  let ?n = "vs_tiles_x s"
  have lens: "length (vs_dirty s) = VNC_MAX_TILES" using s by (simp add: frame_ok_def)
  have all: "band * ?n + ?n \<le> length (vs_dirty s)"
    using row_bound [OF band, of 0 ?n ?n] tiles_max [OF s] lens by simp
  show ?case
  proof (cases "i < ?n")
    case False
    then have "runs_from s band i = 0" "send_band s band i c = (\<lambda>net. Some (net, Inr c))"
      by (simp_all add: runs_from_def fun_eq_iff send_band.simps [of s band i])
    moreover have "painted f s (band_tiles s band i) (vw_fb v) = painted f s (\<lambda>k. False) (vw_fb v)"
      using False by (intro arg_cong2 [where f = "painted f s"]) (auto simp: band_tiles_def)
    ultimately show ?thesis using less.prems delivers_done
      by (intro exI [of _ c] exI [of _ v]) (simp add: only_screen_def painted_none)
  next
    case True
    then have first: "rd (vs_dirty s) (band * ?n + i) = Some (tile_dirty s band i)"
      using all by (simp add: rd_def tile_dirty_def)
    show ?thesis
    proof (cases "tile_dirty s band i")
      case False
      then have "send_band s band i c = send_band s band (i + 1) c"
        using True first by (auto simp: fun_eq_iff send_band.simps [of s band i])
      moreover have "painted f s (band_tiles s band (i + 1)) (vw_fb v) = painted f s (band_tiles s band i) (vw_fb v)"
        using False by (intro arg_cong2 [where f = "painted f s"])
          (auto simp: band_tiles_def tile_dirty_def fun_eq_iff le_eq_less_or_eq Suc_le_eq)
      ultimately show ?thesis
        using less.hyps [of "i + 1" c v] less.prems True False runs_from_clean [OF True False] by (auto simp: run_starts_def)
    next
      case dirty: True
      have "\<exists>run. suspect_run (vs_dirty s) (band * ?n) i ?n 1 = Some run \<and> 1 \<le> run \<and> i + run \<le> ?n \<and>
          (\<forall>j < run. vs_dirty s ! (band * ?n + i + j))"
        by (rule suspect_run_spec) (use True all dirty in \<open>auto simp: tile_dirty_def\<close>)
      then obtain run where run: "suspect_run (vs_dirty s) (band * ?n) i ?n 1 = Some run" "1 \<le> run" "i + run \<le> ?n"
          "\<forall>j < run. tile_dirty s band (i + j)"
        by (auto simp: tile_dirty_def add.assoc)
      have ends: "i + run = ?n \<or> \<not> tile_dirty s band (i + run)"
        using suspect_run_ends [OF run(1)] True by (simp add: tile_dirty_def add.assoc)
      from run_delivers [OF s band run(3) _ less.prems(3,4)] run(2) obtain c1 v1 where
          one: "delivers f s 1 v (vnc_send_rect s (band_rect s band i run) c) c1 v1" "conn_agrees f c1 v1" "only_screen v v1"
            "vw_fb v1 = painted f s (\<lambda>k. band * ?n + i \<le> k \<and> k < band * ?n + (i + run)) (vw_fb v)"
        by auto
      have start: "run_starts s band i" using less.prems(2) dirty True by simp
      have "\<exists>c' v'. delivers f s (runs_from s band (i + run)) v1 (send_band s band (i + run) c1) c' v' \<and> conn_agrees f c' v' \<and>
          only_screen v1 v' \<and> vw_fb v' = painted f s (band_tiles s band (i + run)) (vw_fb v1)"
        by (rule less.hyps) (use True run(2,3) ends one less.prems(4) in \<open>auto simp: run_starts_def only_screen_def\<close>)
      then obtain c2 v2 where rest: "delivers f s (runs_from s band (i + run)) v1 (send_band s band (i + run) c1) c2 v2"
          "conn_agrees f c2 v2" "only_screen v1 v2" "vw_fb v2 = painted f s (band_tiles s band (i + run)) (vw_fb v1)"
        by blast
      have "send_band s band i c = (\<lambda>net. andthen (vnc_send_rect s (band_rect s band i run) c net) (\<lambda>c net. send_band s band (i + run) c net))"
        using True first dirty run(1,2) by (simp add: fun_eq_iff send_band.simps [of s band i] band_rect_def Let_def)
      moreover have "runs_from s band i = 1 + runs_from s band (i + run)"
        using runs_from_run [OF start _ run(3,4)] run(2) by simp
      moreover have "painted f s (band_tiles s band (i + run)) (vw_fb v1) = painted f s (band_tiles s band i) (vw_fb v)"
      proof -
        have "vs_dirty s ! k" if "band * ?n + i \<le> k" "k < band * ?n + (i + run)" for k
        proof -
          have "k - (band * ?n + i) < run" "band * ?n + (i + (k - (band * ?n + i))) = k" using that by linarith+
          then show ?thesis using run(4) unfolding tile_dirty_def by metis
        qed
        then have "(\<lambda>k. band * ?n + i \<le> k \<and> k < band * ?n + (i + run) \<or> band_tiles s band (i + run) k) = band_tiles s band i"
          using run(3) by (auto simp: band_tiles_def fun_eq_iff)
        then show ?thesis unfolding one(4) painted_painted by simp
      qed
      moreover have "delivers f s (1 + runs_from s band (i + run)) v
          (\<lambda>net. andthen (vnc_send_rect s (band_rect s band i run) c net) (\<lambda>c net. send_band s band (i + run) c net)) c2 v2"
        by (rule delivers_seq [OF one(1)]) (rule rest(1))
      ultimately show ?thesis
        using rest(2-4) one(3) by (intro exI [of _ c2] exI [of _ v2]) (simp add: only_screen_def)
    qed
  qed
qed

lemma send_bands_delivers:
  assumes s: "frame_ok s" and "\<forall>band \<in> set bands. band < vs_tiles_y s"
    and "conn_agrees f c v" and "length (vw_fb v) = vs_width s * vs_height s"
  shows "\<exists>c' v'. delivers f s (sum_list (map (\<lambda>band. runs_from s band 0) bands)) v (send_bands s bands c) c' v' \<and> conn_agrees f c' v' \<and>
    only_screen v v' \<and> vw_fb v' = painted f s (\<lambda>k. \<exists>band \<in> set bands. band_tiles s band 0 k) (vw_fb v)"
  using assms(2-)
proof (induction bands arbitrary: c v)
  case Nil
  have "send_bands s [] c = (\<lambda>net. Some (net, Inr c))" by (simp add: fun_eq_iff)
  then show ?case using Nil delivers_done
    by (intro exI [of _ c] exI [of _ v]) (simp add: only_screen_def painted_none)
next
  case (Cons band bands)
  from send_band_delivers [OF s _ _ _ Cons.prems(2,3), of band 0] Cons.prems(1) obtain c1 v1 where
      one: "delivers f s (runs_from s band 0) v (send_band s band 0 c) c1 v1" "conn_agrees f c1 v1" "only_screen v v1"
        "vw_fb v1 = painted f s (band_tiles s band 0) (vw_fb v)"
    by (auto simp: run_starts_def)
  from Cons.IH [OF _ one(2)] Cons.prems(1,3) one(3) obtain c2 v2 where
      rest: "delivers f s (sum_list (map (\<lambda>band. runs_from s band 0) bands)) v1 (send_bands s bands c1) c2 v2"
        "conn_agrees f c2 v2" "only_screen v1 v2"
        "vw_fb v2 = painted f s (\<lambda>k. \<exists>band \<in> set bands. band_tiles s band 0 k) (vw_fb v1)"
    by (auto simp: only_screen_def)
  have "send_bands s (band # bands) c = (\<lambda>net. andthen (send_band s band 0 c net) (\<lambda>c net. send_bands s bands c net))"
    by (simp add: fun_eq_iff)
  moreover have "delivers f s (runs_from s band 0 + sum_list (map (\<lambda>band. runs_from s band 0) bands)) v
      (\<lambda>net. andthen (send_band s band 0 c net) (\<lambda>c net. send_bands s bands c net)) c2 v2"
    by (rule delivers_seq [OF one(1)]) (rule rest(1))
  moreover have "vw_fb v2 = painted f s (\<lambda>k. \<exists>band \<in> set (band # bands). band_tiles s band 0 k) (vw_fb v)"
    unfolding rest(4) one(4) painted_painted by simp
  ultimately show ?case
    using rest(2,3) one(3) by (intro exI [of _ c2] exI [of _ v2]) (simp add: only_screen_def)
qed

subsection \<open>All dirty tiles and their number\<close>

definition dirty_runs :: "vnc_screen \<Rightarrow> nat" where
  "dirty_runs s = sum_list (map (\<lambda>band. runs_from s band 0) [0..<vs_tiles_y s])"

lemma for_up_filter: "(\<And>j. i \<le> j \<Longrightarrow> j < i + n \<Longrightarrow> g j = Some (P j)) \<Longrightarrow>
   for_up i n (\<lambda>j a. do { b \<leftarrow> g j; Some (if b then a + 1 else a) }) a = Some (a + length (filter P [i..<i + n]))"
proof (induction n arbitrary: i a)
  case (Suc n)
  have "[i..<i + Suc n] = i # [Suc i..<Suc i + n]" by (simp add: upt_conv_Cons)
  then show ?case using Suc.prems [of i] Suc.IH [of "Suc i"] Suc.prems by (simp del: upt_Suc)
qed simp

lemma fold_add_sum: "fold (\<lambda>x a. a + g x) xs a = a + sum_list (map g xs)" for a :: nat
  by (induction xs arbitrary: a) simp_all

lemma count_runs_eq:
  assumes s: "frame_ok s"
  shows "count_runs s = Some (dirty_runs s)"
proof -
  let ?n = "vs_tiles_x s"
  have row: "for_up 0 ?n (\<lambda>tile_x rects. do {
      dirty \<leftarrow> rd (vs_dirty s) (band * ?n + tile_x);
      start \<leftarrow> (if \<not> dirty then Some False else if tile_x = 0 then Some True
        else do { left \<leftarrow> rd (vs_dirty s) (band * ?n + tile_x - 1); Some (\<not> left) });
      Some (if start then rects + 1 else rects) }) a = Some (a + runs_from s band 0)" if band: "band < vs_tiles_y s" for band a
  proof -
    have all: "band * ?n + ?n \<le> length (vs_dirty s)"
      using row_bound [OF band, of 0 ?n ?n] tiles_max [OF s] s by (simp add: frame_ok_def)
    have "do { dirty \<leftarrow> rd (vs_dirty s) (band * ?n + j);
        if \<not> dirty then Some False else if j = 0 then Some True
        else do { left \<leftarrow> rd (vs_dirty s) (band * ?n + j - 1); Some (\<not> left) } } = Some (run_starts s band j)"
      if "j < ?n" for j
      using that all by (auto simp: rd_def run_starts_def tile_dirty_def)
    then show ?thesis
      using for_up_filter [of 0 ?n "\<lambda>j. do { dirty \<leftarrow> rd (vs_dirty s) (band * ?n + j);
        if \<not> dirty then Some False else if j = 0 then Some True
        else do { left \<leftarrow> rd (vs_dirty s) (band * ?n + j - 1); Some (\<not> left) } }" "run_starts s band" a]
      by (simp add: runs_from_def)
  qed
  have "for_up 0 m (\<lambda>tile_y. for_up 0 ?n (\<lambda>tile_x rects. do {
      dirty \<leftarrow> rd (vs_dirty s) (tile_y * ?n + tile_x);
      start \<leftarrow> (if \<not> dirty then Some False else if tile_x = 0 then Some True
        else do { left \<leftarrow> rd (vs_dirty s) (tile_y * ?n + tile_x - 1); Some (\<not> left) });
      Some (if start then rects + 1 else rects) })) 0 = Some (sum_list (map (\<lambda>band. runs_from s band 0) [0..<m]))"
    if "m \<le> vs_tiles_y s" for m
    using for_up_total [of 0 m "\<lambda>_. True" _ "\<lambda>band a. a + runs_from s band 0" 0] row that
    by (simp add: fold_add_sum)
  then show ?thesis unfolding count_runs_def dirty_runs_def by simp
qed

lemma dirty_runs_le:
  assumes "frame_ok s"
  shows "dirty_runs s \<le> 32768"
proof -
  have n: "vs_tiles_x s \<le> 256" "vs_tiles_y s \<le> 256"
    using assms by (auto simp: frame_ok_def VNC_TILE_def VNC_MAX_DIM_def)
  have "runs_from s band 0 \<le> 128" for band using runs_from_le [of s band] n(1) by simp
  then have "dirty_runs s \<le> length [0..<vs_tiles_y s] * 128" unfolding dirty_runs_def by (intro sum_list_le_times) simp
  also have "\<dots> \<le> 256 * 128" using n(2) by (intro mult_le_mono1) simp
  finally show ?thesis by simp
qed

lemma dirty_runs_pos:
  assumes "k < vs_tiles_x s * vs_tiles_y s" and "vs_dirty s ! k"
  shows "0 < dirty_runs s"
proof -
  let ?n = "vs_tiles_x s" and ?b = "k div vs_tiles_x s"
  have n: "0 < ?n" "?b < vs_tiles_y s" using assms(1) by (auto simp: less_mult_imp_div_less mult.commute intro: Nat.gr0I)
  have "tile_dirty s ?b (k mod ?n)" using assms(2) by (simp add: tile_dirty_def)
  define i where "i = (LEAST i. tile_dirty s ?b i)"
  have i: "tile_dirty s ?b i" "i \<le> k mod ?n"
    using LeastI [of "tile_dirty s ?b"] Least_le [of "tile_dirty s ?b"] \<open>tile_dirty s ?b (k mod ?n)\<close> by (auto simp: i_def)
  have "run_starts s ?b i"
    using i(1) not_less_Least [of "i - 1" "tile_dirty s ?b"] by (cases i) (auto simp: run_starts_def i_def)
  moreover have "i < ?n" using i(2) n(1) by (meson le_less_trans mod_less_divisor)
  ultimately have "i \<in> set (filter (run_starts s ?b) [0..<?n])" by simp
  then have "0 < runs_from s ?b 0" unfolding runs_from_def by (metis length_pos_if_in_set)
  moreover have "runs_from s ?b 0 \<in> set (map (\<lambda>band. runs_from s band 0) [0..<vs_tiles_y s])" using n(2) by simp
  then have "runs_from s ?b 0 \<le> dirty_runs s" unfolding dirty_runs_def by (rule member_le_sum_list) simp
  ultimately show ?thesis by simp
qed

lemma all_bands_deliver:
  assumes s: "frame_ok s" and c: "conn_agrees f c v" and len: "length (vw_fb v) = vs_width s * vs_height s"
  shows "\<exists>c' v'. delivers f s (dirty_runs s) v (send_bands s [0..<vs_tiles_y s] c) c' v' \<and> conn_agrees f c' v' \<and>
    only_screen v v' \<and> vw_fb v' = painted f s (\<lambda>k. vs_dirty s ! k) (vw_fb v)"
proof -
  have "painted f s (\<lambda>k. \<exists>band \<in> set [0..<vs_tiles_y s]. band_tiles s band 0 k) (vw_fb v) = painted f s (\<lambda>k. vs_dirty s ! k) (vw_fb v)"
  proof (rule painted_cong [OF len])
    fix p assume p: "p < vs_width s * vs_height s"
    let ?b = "p div vs_width s div VNC_TILE"
    have "?b < vs_tiles_y s" "?b * vs_tiles_x s \<le> tile_of s p" "tile_of s p < ?b * vs_tiles_x s + vs_tiles_x s"
      using tile_below(1,2) [OF s p] by (simp_all add: tile_of_def)
    then show "(\<exists>band \<in> set [0..<vs_tiles_y s]. band_tiles s band 0 (tile_of s p)) = vs_dirty s ! tile_of s p"
      by (auto simp: band_tiles_def)
  qed
  then show ?thesis using send_bands_delivers [OF s _ c len, of "[0..<vs_tiles_y s]"] by (simp add: dirty_runs_def)
qed

end
