(* ===== verification/VncInStep.thy ===== *)
theory VncInStep
  imports VncDirty
begin

section \<open>Server and viewer stay in step\<close>

text \<open>
  The pseudo-rectangles of the cursor, the copied window and the dirty tiles together: after an update
  the framebuffer of the viewer is the previous frame of the server, which is what the next comparison
  and the next copy start from.
\<close>

subsection \<open>The cursor\<close>

definition cursor_ok :: "vnc_cursor \<Rightarrow> bool" where
  "cursor_ok c \<longleftrightarrow> cu_w c \<le> VNC_CURSOR_MAX \<and> cu_h c \<le> VNC_CURSOR_MAX \<and> cu_hot_x c < VNC_CURSOR_MAX \<and> cu_hot_y c < VNC_CURSOR_MAX \<and>
     length (cu_rgb c) = VNC_CURSOR_MAX * VNC_CURSOR_MAX \<and> length (cu_mask c) = VNC_CURSOR_MAX * VNC_CURSOR_MAX"

text \<open>The capture keeps the shape within its arrays.\<close>

lemma grab_cursor_ok:
  assumes ok: "cursor_ok c" and len: "length black = VNC_CURSOR_MAX * VNC_CURSOR_MAX" "length white = VNC_CURSOR_MAX * VNC_CURSOR_MAX"
  shows "\<exists>c'. vnc_grab_cursor info surface metrics hot black white c = Some c' \<and> cursor_ok c'"
proof -
  let ?m = VNC_CURSOR_MAX
  have loop: "\<exists>rgb mask. for_up 0 (width * height) (\<lambda>index (rgb, mask). do {
      on_black \<leftarrow> rd black (index div width * ?m + index mod width);
      on_white \<leftarrow> rd white (index div width * ?m + index mod width);
      rgb \<leftarrow> wr rgb index (fst (cursor_pixel on_black on_white));
      mask \<leftarrow> wr mask index (snd (cursor_pixel on_black on_white));
      Some (rgb, mask) }) (cu_rgb c, cu_mask c) = Some (rgb, mask) \<and> length rgb = ?m * ?m \<and> length mask = ?m * ?m"
    if side: "width \<le> ?m" "height \<le> ?m" for width height
  proof -
    let ?inv = "\<lambda>(rgb :: u32 list, mask :: bool list). length rgb = ?m * ?m \<and> length mask = ?m * ?m"
    have "\<exists>t. for_up 0 (width * height) (\<lambda>index (rgb, mask). do {
        on_black \<leftarrow> rd black (index div width * ?m + index mod width);
        on_white \<leftarrow> rd white (index div width * ?m + index mod width);
        rgb \<leftarrow> wr rgb index (fst (cursor_pixel on_black on_white));
        mask \<leftarrow> wr mask index (snd (cursor_pixel on_black on_white));
        Some (rgb, mask) }) (cu_rgb c, cu_mask c) = Some t \<and> (\<lambda>_. ?inv) (0 + width * height) t"
    proof (rule for_up_rule)
      show "?inv (cu_rgb c, cu_mask c)" using ok by (simp add: cursor_ok_def)
      fix j and t :: "u32 list \<times> bool list" assume j: "j < 0 + width * height" and t: "?inv t"
      have w: "0 < width" using j by (cases width) simp_all
      have row: "j div width < ?m" using j side(2) less_mult_imp_div_less [of j height width] by (simp add: mult.commute)
      have col: "j mod width + 1 \<le> ?m" using w side(1) mod_less_divisor [of width j] by linarith
      have at: "j div width * ?m + j mod width < ?m * ?m" using row_bound [OF row col] by linarith
      have "width * height \<le> ?m * ?m" using side by (intro mult_le_mono)
      then have "j < ?m * ?m" using j by linarith
      then show "\<exists>t'. (\<lambda>index (rgb, mask). do {
          on_black \<leftarrow> rd black (index div width * ?m + index mod width);
          on_white \<leftarrow> rd white (index div width * ?m + index mod width);
          rgb \<leftarrow> wr rgb index (fst (cursor_pixel on_black on_white));
          mask \<leftarrow> wr mask index (snd (cursor_pixel on_black on_white));
          Some (rgb, mask) }) j t = Some t' \<and> ?inv t'"
        using t at len by (auto simp: rd_def wr_def)
    qed
    then show ?thesis by auto
  qed
  have side: "cursor_side n \<le> ?m" for n by (auto simp: cursor_side_def VNC_CURSOR_MAX_def)
  have hot: "(if k < cursor_side n then k else 0) < ?m" for n k
    using side [of n] by (auto simp: VNC_CURSOR_MAX_def)
  obtain rgb mask where "for_up 0 (cursor_side (fst metrics) * cursor_side (snd metrics)) (\<lambda>index (rgb, mask). do {
      on_black \<leftarrow> rd black (index div cursor_side (fst metrics) * ?m + index mod cursor_side (fst metrics));
      on_white \<leftarrow> rd white (index div cursor_side (fst metrics) * ?m + index mod cursor_side (fst metrics));
      rgb \<leftarrow> wr rgb index (fst (cursor_pixel on_black on_white));
      mask \<leftarrow> wr mask index (snd (cursor_pixel on_black on_white));
      Some (rgb, mask) }) (cu_rgb c, cu_mask c) = Some (rgb, mask)" "length rgb = ?m * ?m" "length mask = ?m * ?m"
    using loop [OF side side] by blast
  moreover have "0 < ?m * ?m" "1 \<le> ?m" "0 < ?m" by (simp_all add: VNC_CURSOR_MAX_def)
  ultimately show ?thesis
    using ok side hot by (cases info) (auto simp: vnc_grab_cursor_def Let_def cursor_ok_def wr_def)
qed

text \<open>What the viewer shows as its pointer.\<close>

definition cursor_of :: "vnc_format \<Rightarrow> vnc_cursor \<Rightarrow> nat \<times> nat \<times> nat \<times> nat \<times> u32 list \<times> bool list" where
  "cursor_of f c = (cu_hot_x c, cu_hot_y c, cu_w c, cu_h c,
     map (pixel_of f) (take (cu_w c * cu_h c) (cu_rgb c)), take (cu_w c * cu_h c) (cu_mask c))"

lemma bit_0x80:
  assumes "m < 8" "c < 8"
  shows "bit (drop_bit m (0x80 :: u8)) (7 - c) \<longleftrightarrow> m = c"
proof -
  have p: "(0x80 :: u8) = push_bit 7 1" by (simp add: push_bit_eq_mult)
  have "bit (0x80 :: u8) k \<longleftrightarrow> k = 7" for k
    unfolding p bit_push_bit_iff bit_1_iff by auto
  then have "bit (drop_bit m (0x80 :: u8)) (7 - c) \<longleftrightarrow> m + (7 - c) = 7" by (simp only: bit_drop_bit_eq o_def)
  then show ?thesis using assms by linarith
qed

lemma mask_row_eq:
  assumes "row * cu_w c + cu_w c \<le> length (cu_mask c)" and "cu_w c \<le> n * 8"
  shows "\<exists>at. mask_row c n row = Some at \<and> length at = n \<and>
    (\<forall>j < cu_w c. bit (at ! (j div 8)) (7 - j mod 8) = cu_mask c ! (row * cu_w c + j))"
proof -
  let ?inv = "\<lambda>i at. length at = n \<and> (\<forall>j < cu_w c. bit (at ! (j div 8)) (7 - j mod 8) \<longleftrightarrow> j < i \<and> cu_mask c ! (row * cu_w c + j))"
  have "\<exists>at. mask_row c n row = Some at \<and> ?inv (0 + cu_w c) at"
    unfolding mask_row_def
  proof (rule for_up_rule)
    have "j div 8 < n" if "j < cu_w c" for j using assms(2) that by (simp add: less_mult_imp_div_less)
    then show "?inv 0 (replicate n 0)" by simp
    fix i and at :: bytes assume i: "i < 0 + cu_w c" and inv: "?inv i at"
    have at: "i div 8 < length at" using assms(2) i inv by (simp add: less_mult_imp_div_less)
    have opaque: "rd (cu_mask c) (row * cu_w c + i) = Some (cu_mask c ! (row * cu_w c + i))" using assms(1) i by (simp add: rd_def)
    show "\<exists>at'. do {
        opaque \<leftarrow> rd (cu_mask c) (row * cu_w c + i);
        if opaque then do { b \<leftarrow> rd at (i div 8); wr at (i div 8) (b OR drop_bit (i mod 8) 0x80) } else Some at } = Some at' \<and> ?inv (Suc i) at'"
    proof (cases "cu_mask c ! (row * cu_w c + i)")
      case True
      let ?at = "at[i div 8 := at ! (i div 8) OR drop_bit (i mod 8) 0x80]"
      have "bit (?at ! (j div 8)) (7 - j mod 8) \<longleftrightarrow> j < Suc i \<and> cu_mask c ! (row * cu_w c + j)" if j: "j < cu_w c" for j
      proof (cases "j div 8 = i div 8")
        case same: True
        then have "j mod 8 = i mod 8 \<longleftrightarrow> j = i" by (metis div_mult_mod_eq)
        moreover have "bit (?at ! (j div 8)) (7 - j mod 8) \<longleftrightarrow> bit (at ! (j div 8)) (7 - j mod 8) \<or> i mod 8 = j mod 8"
          using at bit_0x80 [of "i mod 8" "j mod 8"] by (simp add: same bit_or_iff)
        ultimately show ?thesis using inv j True by (auto simp: less_Suc_eq)
      next
        case False
        then show ?thesis using inv j by (auto simp: less_Suc_eq)
      qed
      then show ?thesis using opaque True at inv by (simp add: rd_def wr_def)
    next
      case False
      then show ?thesis using opaque inv by (auto simp: less_Suc_eq)
    qed
  qed
  then show ?thesis by auto
qed

lemma concat_rows: "k * n \<le> length xs \<Longrightarrow> concat (map (\<lambda>row. map (\<lambda>j. xs ! (row * n + j)) [0..<n]) [0..<k]) = take (k * n) xs"
proof (induction k)
  case (Suc k)
  have "map (\<lambda>j. xs ! (k * n + j)) [0..<n] = take n (drop (k * n) xs)"
    using Suc.prems by (intro nth_equalityI) simp_all
  then show ?case using Suc take_add [of "k * n" n xs] by (simp add: add.commute)
qed simp

lemma mask_rows_eq:
  assumes ok: "cursor_ok c" and n: "n = (cu_w c + 7) div 8"
  shows "\<exists>rows. those (map (mask_row c n) [0..<cu_h c]) = Some rows \<and> length (concat rows) = n * cu_h c \<and>
    (\<forall>rest. view_mask (cu_w c) (cu_h c) (concat rows @ rest) = take (cu_w c * cu_h c) (cu_mask c))"
proof -
  have size: "cu_h c * cu_w c \<le> length (cu_mask c)"
    using ok mult_le_mono [of "cu_h c" VNC_CURSOR_MAX "cu_w c" VNC_CURSOR_MAX] by (simp add: cursor_ok_def)
  have fit: "cu_w c \<le> n * 8" unfolding n by linarith
  have "\<exists>at. mask_row c n row = Some at \<and> length at = n \<and>
      (\<forall>j < cu_w c. bit (at ! (j div 8)) (7 - j mod 8) = cu_mask c ! (row * cu_w c + j))" if "row < cu_h c" for row
  proof (rule mask_row_eq [OF _ fit])
    have "Suc row * cu_w c \<le> cu_h c * cu_w c" using that by (intro mult_le_mono1) simp
    then show "row * cu_w c + cu_w c \<le> length (cu_mask c)" using size by simp
  qed
  then obtain g where g: "\<And>row. row < cu_h c \<Longrightarrow> mask_row c n row = Some (g row) \<and> length (g row) = n \<and>
      (\<forall>j < cu_w c. bit (g row ! (j div 8)) (7 - j mod 8) = cu_mask c ! (row * cu_w c + j))"
    by metis
  have "those (map (mask_row c n) [0..<cu_h c]) = Some (map g [0..<cu_h c])" by (rule those_map) (use g in simp)
  moreover have "length (concat (map g [0..<cu_h c])) = n * cu_h c"
    using length_concat_const [of "[0..<cu_h c]" g n] g by (simp add: mult.commute)
  moreover have "view_mask (cu_w c) (cu_h c) (concat (map g [0..<cu_h c]) @ rest) = take (cu_w c * cu_h c) (cu_mask c)" for rest
  proof -
    have "(concat (map g [0..<cu_h c]) @ rest) ! (row * n + j div 8) = g row ! (j div 8)" if "row < cu_h c" "j < cu_w c" for row j
    proof -
      have d: "j div 8 < n" using fit that(2) by (simp add: less_mult_imp_div_less)
      have "Suc row * n \<le> cu_h c * n" using that(1) by (intro mult_le_mono1) simp
      then have "row * n + j div 8 < length (concat (map g [0..<cu_h c]))"
        using d length_concat_const [of "[0..<cu_h c]" g n] g by simp
      then show ?thesis using nth_concat_const [of "[0..<cu_h c]" g n row "j div 8"] g d that(1) by (simp add: nth_append)
    qed
    then have "view_mask (cu_w c) (cu_h c) (concat (map g [0..<cu_h c]) @ rest) =
        concat (map (\<lambda>row. map (\<lambda>j. cu_mask c ! (row * cu_w c + j)) [0..<cu_w c]) [0..<cu_h c])"
      unfolding view_mask_def n [symmetric] using g by (intro arg_cong [where f = concat] map_cong) simp_all
    then show ?thesis using concat_rows [OF size] by (simp add: mult.commute)
  qed
  ultimately show ?thesis by blast
qed

lemma cursor_shape_delivers:
  assumes f: "format_ok f" and ok: "cursor_ok c"
  shows "delivers f s 1 v (vnc_send_cursor_shape (px_of f) c) (c\<lparr>cu_sent_serial := cu_serial c\<rparr>) (v\<lparr>vw_cursor := cursor_of f c\<rparr>)"
proof -
  define n where "n = (cu_w c + 7) div 8"
  let ?count = "cu_w c * cu_h c"
  let ?ps = "map (pixel_of f) (take ?count (cu_rgb c))"
  have count: "?count \<le> length (cu_rgb c)" "?count \<le> 64 * 64"
    using ok mult_le_mono [of "cu_w c" VNC_CURSOR_MAX "cu_h c" VNC_CURSOR_MAX] by (simp_all add: cursor_ok_def VNC_CURSOR_MAX_def)
  have at: "cu_hot_x c < 65536" "cu_hot_y c < 65536" "cu_w c < 65536" "cu_h c < 65536"
    using ok by (simp_all add: cursor_ok_def VNC_CURSOR_MAX_def)
  have "map (\<lambda>i. pixel_of f (cu_rgb c ! i)) [0..<?count] = ?ps" using count(1) by (intro nth_equalityI) simp_all
  moreover have "those (map (\<lambda>i. do { p \<leftarrow> rd (cu_rgb c) i; vnc_translate (px_of f) p }) [0..<?count]) =
      Some (map (\<lambda>i. pixel_of f (cu_rgb c ! i)) [0..<?count])"
    by (rule those_map) (use count(1) in \<open>simp add: rd_def translate_eq\<close>)
  ultimately have pixels: "those (map (\<lambda>i. do { p \<leftarrow> rd (cu_rgb c) i; vnc_translate (px_of f) p }) [0..<?count]) = Some ?ps"
    by simp
  obtain rows where rows: "those (map (mask_row c n) [0..<cu_h c]) = Some rows" "length (concat rows) = n * cu_h c"
      "\<And>rest. view_mask (cu_w c) (cu_h c) (concat rows @ rest) = take ?count (cu_mask c)"
    using mask_rows_eq [OF ok n_def] by blast
  have psize: "length (store_pixels (px_of f) ?ps) = ?count * pixel_bytes (px_of f)"
    using length_store_pixels [OF f, of ?ps] pixel_bytes_4 [OF f] count(1) by (simp add: min_absorb2)
  have "?count * pixel_bytes (px_of f) \<le> 64 * 64 * 4" using pixel_bytes_4 [OF f] by (intro mult_le_mono [OF count(2)]) simp
  moreover have "n * cu_h c \<le> 8 * 64"
    using ok by (intro mult_le_mono) (auto simp: n_def cursor_ok_def VNC_CURSOR_MAX_def)
  ultimately have size: "?count * pixel_bytes (px_of f) + n * cu_h c \<le> VNC_OUT_SIZE" by (simp add: VNC_OUT_SIZE_def)
  let ?bs = "store_pixels (px_of f) ?ps @ concat rows"
  have send: "vnc_send_cursor_shape (px_of f) c = (\<lambda>net. andthen
      (vnc_rect_header (cu_hot_x c) (cu_hot_y c) (cu_w c) (cu_h c) VNC_ENC_RICH_CURSOR net) (\<lambda>_ net.
       andthen (vnc_emit (?count * pixel_bytes (px_of f) + n * cu_h c) ?bs net)
          (\<lambda>_ net. Some (net, Inr (c\<lparr>cu_sent_serial := cu_serial c\<rparr>)))))"
    unfolding vnc_send_cursor_shape_def Let_def n_def [symmetric] pixels rows(1) by simp
  show ?thesis
    unfolding send
  proof (rule delivers_rect [OF at])
    fix net assume net: "net_ok net"
    have "emits_val (vnc_emit (?count * pixel_bytes (px_of f) + n * cu_h c) ?bs net) net ?bs ()"
      unfolding emits_val_unit by (rule emit_emits [OF net _ size]) (use psize rows(2) in simp)
    then show "emits_val (andthen (vnc_emit (?count * pixel_bytes (px_of f) + n * cu_h c) ?bs net)
        (\<lambda>_ net. Some (net, Inr (c\<lparr>cu_sent_serial := cu_serial c\<rparr>)))) net ?bs (c\<lparr>cu_sent_serial := cu_serial c\<rparr>)"
      by (rule emits_val_map)
  next
    fix rest hd assume hd: "view_header hd = Some ((cu_hot_x c, cu_hot_y c, cu_w c, cu_h c), VNC_ENC_RICH_CURSOR, ?bs @ rest)"
    have "view_pixels f (length ?ps) (store_pixels (px_of f) ?ps @ concat rows @ rest) = Some (?ps, concat rows @ rest)"
      by (rule view_stored_pixels [OF f]) (use pixel_fits [OF f] in auto)
    moreover have "length ?ps = ?count" using count(1) by simp
    ultimately have "view_pixels f ?count (?bs @ rest) = Some (?ps, concat rows @ rest)" by simp
    then have "view_rect f (vs_width s) (vs_height s) (v, hd) (v\<lparr>vw_cursor := (cu_hot_x c, cu_hot_y c, cu_w c, cu_h c, ?ps,
        view_mask (cu_w c) (cu_h c) (concat rows @ rest))\<rparr>, drop (cu_h c * n) (concat rows @ rest))"
      unfolding n_def by (intro view_rect.cursor [OF hd [unfolded VNC_ENC_RICH_CURSOR_def]]) (use rows(2) in \<open>simp_all add: n_def\<close>)
    moreover have "drop (cu_h c * n) (concat rows @ rest) = rest" using rows(2) by (simp add: mult.commute)
    ultimately show "view_rect f (vs_width s) (vs_height s) (v, hd) (v\<lparr>vw_cursor := cursor_of f c\<rparr>, rest)"
      unfolding rows(3) cursor_of_def by simp
  qed
qed

lemma position_delivers:
  "\<exists>at. delivers f s (of_bool due) v (send_position due c) (if due then c\<lparr>cu_pos_sent := cu_at c\<rparr> else c) (v\<lparr>vw_at := at\<rparr>)"
proof (cases due)
  case True
  let ?x = "vnc_put16 (of_int (fst (cu_at c)))" and ?y = "vnc_put16 (of_int (snd (cu_at c)))"
  let ?bs = "?x @ ?y @ vnc_put16 0 @ vnc_put16 0 @ vnc_put32 VNC_ENC_POINTER_POS"
  let ?v = "v\<lparr>vw_at := (wire_nat ?x, wire_nat ?y)\<rparr>"
  have "view_header (?bs @ rest) = Some ((wire_nat ?x, wire_nat ?y, 0, 0), VNC_ENC_POINTER_POS, rest)" for rest
    by (simp add: view_header_def put16_value put32_value)
  then have "view_rects f (vs_width s) (vs_height s) 1 (v, ?bs @ rest) (?v, rest)" for rest
    using view_rect.position [of "?bs @ rest"] by (simp add: VNC_ENC_POINTER_POS_def numeral_eq_Suc)
  moreover have "emits_val (send_position due c net) net ?bs (c\<lparr>cu_pos_sent := cu_at c\<rparr>)" if net: "net_ok net" for net
  proof -
    have "emits_val (vnc_emit 12 ?bs net) net ?bs ()"
      unfolding emits_val_unit by (rule emit_emits [OF net]) (simp_all add: VNC_OUT_SIZE_def)
    then show ?thesis using emits_val_map True by (simp add: send_position_def)
  qed
  ultimately have "delivers f s 1 v (send_position due c) (c\<lparr>cu_pos_sent := cu_at c\<rparr>) ?v" unfolding delivers_def by blast
  then show ?thesis using True by auto
next
  case False
  then have step: "send_position due c = (\<lambda>net. Some (net, Inr c))" "of_bool due = (0 :: nat)"
      "(if due then c\<lparr>cu_pos_sent := cu_at c\<rparr> else c) = c"
    by (simp_all add: send_position_def fun_eq_iff)
  have "delivers f s 0 v (\<lambda>net. Some (net, Inr c)) c (v\<lparr>vw_at := vw_at v\<rparr>)" using delivers_done [of f s v c] by simp
  then show ?thesis unfolding step by blast
qed

subsection \<open>The copy\<close>

lemma copy_delivers:
  assumes s: "frame_ok s" and move: "move_agrees s m prev"
    and fb: "mv_pending m \<Longrightarrow> vw_fb v = map (pixel_of f) (vs_prev s)" and dims: "vs_width t = vs_width s" "vs_height t = vs_height s"
  shows "delivers f t (of_bool (mv_pending m)) v (send_copy m) (m\<lparr>mv_pending := False\<rparr>)
    (v\<lparr>vw_fb := if mv_pending m then map (pixel_of f) prev else vw_fb v\<rparr>)"
proof (cases "mv_pending m")
  case False
  then have m: "m\<lparr>mv_pending := False\<rparr> = m" and v: "v\<lparr>vw_fb := if mv_pending m then map (pixel_of f) prev else vw_fb v\<rparr> = v"
    by simp_all
  have copy: "send_copy m = (\<lambda>net. Some (net, Inr m))" using False by (simp add: send_copy_def fun_eq_iff)
  have "of_bool (mv_pending m) = (0 :: nat)" using False by simp
  then show ?thesis unfolding m v copy using delivers_done [of f t v m] by (simp only:)
next
  case True
  then obtain x y n k sx sy where at: "mv_x m = int x" "mv_y m = int y" "mv_w m = int n" "mv_h m = int k"
      "mv_src_x m = int sx" "mv_src_y m = int sy"
      and fit: "x + n \<le> vs_width s" "y + k \<le> vs_height s" "sx + n \<le> vs_width s" "sy + k \<le> vs_height s"
      and prev: "prev = copy_rect (vs_width s) (x, y, n, k) sx sy (vs_prev s)"
    using move by (auto simp: move_agrees_def)
  have small: "x < 65536" "y < 65536" "n < 65536" "k < 65536" "sx < 65536" "sy < 65536"
    using fit s by (auto simp: frame_ok_def VNC_MAX_DIM_def)
  let ?bs = "vnc_put16 (of_nat sx) @ vnc_put16 (of_nat sy)"
  have fb': "copy_rect (vs_width s) (x, y, n, k) sx sy (vw_fb v) = map (pixel_of f) prev"
    using copy_rect_map [of "vs_prev s" "vs_width s" "vs_height s" x n y k sx sy "pixel_of f"] fit s by (simp add: fb [OF True] prev frame_ok_def)
  have send: "send_copy m = (\<lambda>net. andthen (vnc_rect_header x y n k VNC_ENC_COPYRECT net) (\<lambda>_ net.
      andthen (vnc_emit 4 ?bs net) (\<lambda>_ net. Some (net, Inr (m\<lparr>mv_pending := False\<rparr>)))))"
    using True at by (simp add: send_copy_def fun_eq_iff)
  have "delivers f t 1 v (send_copy m) (m\<lparr>mv_pending := False\<rparr>) (v\<lparr>vw_fb := map (pixel_of f) prev\<rparr>)"
    unfolding send
  proof (rule delivers_rect [OF small(1-4)])
    fix net assume net: "net_ok net"
    have "emits_val (vnc_emit 4 ?bs net) net ?bs ()"
      unfolding emits_val_unit by (rule emit_emits [OF net]) (simp_all add: VNC_OUT_SIZE_def)
    then show "emits_val (andthen (vnc_emit 4 ?bs net) (\<lambda>_ net. Some (net, Inr (m\<lparr>mv_pending := False\<rparr>)))) net ?bs (m\<lparr>mv_pending := False\<rparr>)"
      by (rule emits_val_map)
  next
    fix rest hd assume hd: "view_header hd = Some ((x, y, n, k), VNC_ENC_COPYRECT, ?bs @ rest)"
    have "view_rect f (vs_width t) (vs_height t) (v, hd) (v\<lparr>vw_fb := copy_rect (vs_width t) (x, y, n, k) sx sy (vw_fb v)\<rparr>, drop 4 (?bs @ rest))"
      by (rule view_rect.copied [OF hd [unfolded VNC_ENC_COPYRECT_def]]) (use fit small dims in \<open>simp_all add: put16_nat\<close>)
    then show "view_rect f (vs_width t) (vs_height t) (v, hd) (v\<lparr>vw_fb := map (pixel_of f) prev\<rparr>, rest)"
      using fb' by (simp add: dims)
  qed
  then show ?thesis using True by simp
qed

subsection \<open>One update\<close>

text \<open>Everything has left the buffer.\<close>

definition emits_out :: "'a net_result \<Rightarrow> vnc_net \<Rightarrow> bytes \<Rightarrow> 'a \<Rightarrow> bool" where
  "emits_out r s bs a \<longleftrightarrow> outcome r (\<lambda>_ t. prefix (net_sent t) (stream s @ bs))
     (\<lambda>b t. b = a \<and> net_ok t \<and> out_length t = 0 \<and> net_sent t = stream s @ bs)"

lemma emits_out_seq:
  assumes "emits_val r s bs a" and "\<And>t. net_ok t \<Longrightarrow> emits_out (f a t) t cs b"
  shows "emits_out (andthen r f) s (bs @ cs) b"
  unfolding emits_out_def
proof (rule outcome_andthen [OF outcome_mono [OF assms(1) [unfolded emits_val_def]]])
  fix c t assume "c = a \<and> net_ok t \<and> stream t = stream s @ bs"
  then show "outcome (f c t) (\<lambda>_ t. prefix (net_sent t) (stream s @ bs @ cs))
      (\<lambda>d t. d = b \<and> net_ok t \<and> out_length t = 0 \<and> net_sent t = stream s @ bs @ cs)"
    using assms(2) [of t] by (simp add: emits_out_def)
next
  fix t assume "prefix (net_sent t) (stream s @ bs)"
  then show "prefix (net_sent t) (stream s @ bs @ cs)" by (metis append_assoc prefix_prefix)
qed simp_all

lemma flush_out:
  assumes "net_ok net"
  shows "emits_out (andthen (vnc_flush net) (\<lambda>_ net. Some (net, Inr a))) net [] a"
  unfolding emits_out_def
  by (rule outcome_andthen [OF outcome_mono [OF flush_emits [OF assms]]]) (auto simp: stream_def)

definition delivers_out ::
    "vnc_format \<Rightarrow> vnc_screen \<Rightarrow> nat \<Rightarrow> viewer \<Rightarrow> (vnc_net \<Rightarrow> 'a net_result) \<Rightarrow> 'a \<Rightarrow> viewer \<Rightarrow> bool" where
  "delivers_out f s k v m a v' \<longleftrightarrow>
     (\<exists>bs. (\<forall>net. net_ok net \<longrightarrow> emits_out (m net) net bs a) \<and>
       (\<forall>rest. view_rects f (vs_width s) (vs_height s) k (v, bs @ rest) (v', rest)))"

lemma delivers_flush: "delivers_out f s 0 v (\<lambda>net. andthen (vnc_flush net) (\<lambda>_ net. Some (net, Inr a))) a v"
  unfolding delivers_out_def by (rule exI [of _ "[]"]) (simp add: flush_out)

lemma delivers_out_seq:
  assumes "delivers f s k v m a v1" and "delivers_out f s l v1 (g a) b v2"
  shows "delivers_out f s (k + l) v (\<lambda>net. andthen (m net) g) b v2"
proof -
  obtain bs where bs: "\<And>net. net_ok net \<Longrightarrow> emits_val (m net) net bs a"
      "\<And>rest. view_rects f (vs_width s) (vs_height s) k (v, bs @ rest) (v1, rest)"
    using assms(1) by (auto simp: delivers_def)
  obtain cs where cs: "\<And>net. net_ok net \<Longrightarrow> emits_out (g a net) net cs b"
      "\<And>rest. view_rects f (vs_width s) (vs_height s) l (v1, cs @ rest) (v2, rest)"
    using assms(2) by (auto simp: delivers_out_def)
  have "view_rects f (vs_width s) (vs_height s) (k + l) (v, (bs @ cs) @ rest) (v2, rest)" for rest
    using view_rects_append [OF bs(2) cs(2)] by simp
  moreover have "emits_out (andthen (m net) g) net (bs @ cs) b" if "net_ok net" for net
    by (rule emits_out_seq, rule bs(1) [OF that], rule cs(1))
  ultimately show ?thesis unfolding delivers_out_def by blast
qed

text \<open>The header of an update and its rectangles.\<close>

lemma update_out:
  assumes "k < 65536" and "delivers_out f s k v m a v'"
  shows "\<exists>bs. (\<forall>net. net_ok net \<longrightarrow>
      emits_out (andthen (vnc_emit 4 ([0, 0] @ vnc_put16 (of_nat k)) net) (\<lambda>_. m)) net bs a) \<and>
    (\<forall>rest. view_update f (vs_width s) (vs_height s) (v, bs @ rest) (v', rest))"
proof -
  obtain bs where bs: "\<And>net. net_ok net \<Longrightarrow> emits_out (m net) net bs a"
      "\<And>rest. view_rects f (vs_width s) (vs_height s) k (v, bs @ rest) (v', rest)"
    using assms(2) by (auto simp: delivers_out_def)
  let ?hd = "[0, 0] @ vnc_put16 (of_nat k)"
  have "emits_out (andthen (vnc_emit 4 ?hd net) (\<lambda>_. m)) net (?hd @ bs) a" if net: "net_ok net" for net
  proof (rule emits_out_seq)
    show "emits_val (vnc_emit 4 ?hd net) net ?hd ()"
      unfolding emits_val_unit by (rule emit_emits [OF net]) (simp_all add: VNC_OUT_SIZE_def)
  qed (rule bs(1))
  moreover have "view_update f (vs_width s) (vs_height s) (v, (?hd @ bs) @ rest) (v', rest)" for rest
    using bs(2) assms(1) by (simp add: view_update_def put16_nat)
  ultimately show ?thesis by blast
qed

text \<open>Whether the position is due changes only what is remembered of it.\<close>

lemma pos_due_cases:
  obtains at where "fst (vnc_cursor_pos_due c) = c\<lparr>cu_pos_sent := at\<rparr>"
    "snd (vnc_cursor_pos_due (fst (vnc_cursor_pos_due c))) = snd (vnc_cursor_pos_due c)"
proof (cases "cu_use_pos c \<and> cu_at_valid c \<and> cu_at c \<noteq> cu_pos_sent c \<and> cu_at c = cu_pointer c")
  case True
  then have "vnc_cursor_pos_due c = (c\<lparr>cu_pos_sent := cu_at c\<rparr>, False)" by (simp add: vnc_cursor_pos_due_def)
  then show thesis using that [of "cu_at c"] by (simp add: vnc_cursor_pos_due_def)
next
  case False
  then have "fst (vnc_cursor_pos_due c) = c" by (auto simp: vnc_cursor_pos_due_def)
  then show thesis using that [of "cu_pos_sent c"] by simp
qed

definition same_cursor :: "vnc_cursor \<Rightarrow> vnc_cursor \<Rightarrow> bool" where
  "same_cursor c c' \<longleftrightarrow> (\<exists>at n. c' = c\<lparr>cu_pos_sent := at, cu_sent_serial := n\<rparr>)"

lemma same_cursor_keeps:
  assumes "same_cursor c c'"
  shows "cursor_of f c' = cursor_of f c" "cursor_ok c' = cursor_ok c" "cu_serial c' = cu_serial c"
  using assms by (auto simp: same_cursor_def cursor_of_def cursor_ok_def)

text \<open>The body of an update: what is pending in the order in which it is sent.\<close>

definition update_body ::
    "vnc_screen \<Rightarrow> bool \<Rightarrow> bool \<Rightarrow> vnc_move \<Rightarrow> vnc_cursor \<Rightarrow> vnc_conn \<Rightarrow> vnc_net \<Rightarrow> (vnc_move \<times> vnc_cursor \<times> vnc_conn) net_result" where
  "update_body s shape position m cu c net =
     andthen (send_copy m net) (\<lambda>m net.
     andthen (if shape then vnc_send_cursor_shape (cn_px c) cu net else Some (net, Inr cu)) (\<lambda>cu net.
     andthen (send_position position cu net) (\<lambda>cu net.
     andthen (send_bands s [0..<vs_tiles_y s] c net) (\<lambda>c net.
     andthen (vnc_flush net) (\<lambda>_ net. Some (net, Inr (m, cu, c)))))))"

lemma update_body_out:
  assumes t: "frame_ok t" and c: "conn_agrees f c v" and cu: "cursor_ok cu" and s: "frame_ok s"
    and dims: "vs_width t = vs_width s" "vs_height t = vs_height s"
    and move: "move_agrees s m prev" and fb: "mv_pending m \<Longrightarrow> vw_fb v = map (pixel_of f) (vs_prev s)"
    and len: "length prev = vs_width s * vs_height s" "length (vw_fb v) = vs_width s * vs_height s"
  shows "\<exists>cu' c' v'. delivers_out f t (of_bool (mv_pending m) + (of_bool shape + (of_bool position + (dirty_runs t + 0)))) v
      (update_body t shape position m cu c) (m\<lparr>mv_pending := False\<rparr>, cu', c') v' \<and>
    conn_agrees f c' v' \<and> vw_fb v' = painted f t (\<lambda>k. vs_dirty t ! k) (if mv_pending m then map (pixel_of f) prev else vw_fb v) \<and>
    same_cursor cu cu' \<and> cu_sent_serial cu' = (if shape then cu_serial cu else cu_sent_serial cu) \<and>
    vw_cursor v' = (if shape then cursor_of f cu else vw_cursor v)"
proof -
  let ?m = "m\<lparr>mv_pending := False\<rparr>" and ?cu = "if shape then cu\<lparr>cu_sent_serial := cu_serial cu\<rparr> else cu"
  let ?cu' = "if position then ?cu\<lparr>cu_pos_sent := cu_at ?cu\<rparr> else ?cu"
  have px: "cn_px c = px_of f" "format_ok f" using c by (simp_all add: conn_agrees_def)
  let ?fb = "if mv_pending m then map (pixel_of f) prev else vw_fb v"
  let ?v1 = "v\<lparr>vw_fb := ?fb\<rparr>" and ?v2 = "v\<lparr>vw_fb := ?fb, vw_cursor := if shape then cursor_of f cu else vw_cursor v\<rparr>"
  have copy: "delivers f t (of_bool (mv_pending m)) v (send_copy m) ?m ?v1"
    by (rule copy_delivers [OF s move fb dims])
  have shape_step: "delivers f t (of_bool shape) ?v1
      (\<lambda>net. if shape then vnc_send_cursor_shape (cn_px c) cu net else Some (net, Inr cu)) ?cu ?v2"
  proof (cases shape)
    case True
    then show ?thesis using cursor_shape_delivers [OF px(2) cu, of t ?v1] by (simp add: px(1))
  next
    case False
    have "?v2 = ?v1" using False by simp
    then show ?thesis using False delivers_done [of f t ?v1 cu] by simp
  qed
  obtain at where position_step: "delivers f t (of_bool position) ?v2 (send_position position ?cu) ?cu' (?v2\<lparr>vw_at := at\<rparr>)"
    using position_delivers by blast
  let ?v3 = "?v2\<lparr>vw_at := at\<rparr>"
  have "conn_agrees f c ?v3" "length (vw_fb ?v3) = vs_width t * vs_height t"
    using c len dims by (simp_all add: conn_agrees_def)
  from all_bands_deliver [OF t this] obtain c' v' where
      bands: "delivers f t (dirty_runs t) ?v3 (send_bands t [0..<vs_tiles_y t] c) c' v'" "conn_agrees f c' v'"
        "only_screen ?v3 v'" "vw_fb v' = painted f t (\<lambda>k. vs_dirty t ! k) (vw_fb ?v3)" by blast
  have "delivers_out f t (of_bool (mv_pending m) + (of_bool shape + (of_bool position + (dirty_runs t + 0)))) v
      (update_body t shape position m cu c) (?m, ?cu', c') v'"
    unfolding update_body_def
    by (rule delivers_out_seq [OF copy], rule delivers_out_seq [OF shape_step], rule delivers_out_seq [OF position_step],
      rule delivers_out_seq [OF bands(1)], rule delivers_flush)
  moreover have "same_cursor cu ?cu'"
    unfolding same_cursor_def by (rule exI [of _ "cu_pos_sent ?cu'"], rule exI [of _ "cu_sent_serial ?cu'"]) simp
  ultimately show ?thesis
    using bands(2-4) by (intro exI [of _ ?cu'] exI [of _ c'] exI [of _ v']) (auto simp: only_screen_def)
qed

lemma send_update_eq:
  assumes t: "frame_ok t" and n: "n = dirty_runs t + of_bool (vnc_cursor_shape_due t cu) + of_bool position + of_bool (mv_pending m)"
    and "0 < n" and cu: "vnc_cursor_pos_due cu = (cu', position)"
  shows "vnc_send_update t m cu c = (\<lambda>net. andthen (vnc_emit 4 ([0, 0] @ vnc_put16 (of_nat n)) net)
    (\<lambda>_. update_body t (vnc_cursor_shape_due t cu) position m cu' c))"
  using assms(3) unfolding vnc_send_update_def update_body_def cu count_runs_eq [OF t] n
  by (auto simp: fun_eq_iff Let_def)

subsection \<open>A captured frame\<close>

definition in_step :: "vnc_format \<Rightarrow> vnc_screen \<Rightarrow> vnc_cursor \<Rightarrow> vnc_conn \<Rightarrow> viewer \<Rightarrow> bool" where
  "in_step f s cu c v \<longleftrightarrow> conn_agrees f c v \<and> cursor_ok cu \<and> length (vw_fb v) = vs_width s * vs_height s \<and>
     (vs_rich s \<and> cu_serial cu = cu_sent_serial cu \<longrightarrow> vw_cursor v = cursor_of f cu)"

text \<open>What comes before the update: the move and the comparison.\<close>

lemma frame_compared:
  assumes s: "frame_ok s" and fb: "full \<or> vw_fb v = map (pixel_of f) (vs_prev s)"
    and len: "length (vw_fb v) = vs_width s * vs_height s"
  shows "\<exists>m1 prev t n. (if full then Some (forget_move m, s) else vnc_detect_move m s) = Some (m1, s\<lparr>vs_prev := prev\<rparr>) \<and>
    vnc_diff full (s\<lparr>vs_prev := prev\<rparr>) = Some (t, n) \<and> frame_ok t \<and> vs_width t = vs_width s \<and> vs_height t = vs_height s \<and>
    vs_rich t = vs_rich s \<and> move_agrees s m1 prev \<and> length prev = vs_width s * vs_height s \<and>
    (mv_pending m1 \<longrightarrow> vw_fb v = map (pixel_of f) (vs_prev s)) \<and> (0 < n \<longrightarrow> 0 < dirty_runs t) \<and>
    painted f t (\<lambda>k. vs_dirty t ! k) (if mv_pending m1 then map (pixel_of f) prev else vw_fb v) = map (pixel_of f) (vs_prev t) \<and>
    (n = 0 \<and> \<not> mv_pending m1 \<longrightarrow> vw_fb v = map (pixel_of f) (vs_prev t))"
proof -
  have lens: "length (vs_prev s) = vs_width s * vs_height s" using s by (simp add: frame_ok_def)
  obtain m1 prev where move: "(if full then Some (forget_move m, s) else vnc_detect_move m s) = Some (m1, s\<lparr>vs_prev := prev\<rparr>)"
      "move_agrees s m1 prev" "full \<longrightarrow> \<not> mv_pending m1"
  proof (cases full)
    case True
    then show thesis using that [of "forget_move m" "vs_prev s"] by (simp add: forget_move_def move_agrees_def)
  next
    case False
    then show thesis using that detect_move_agrees [OF lens, of m] by auto
  qed
  have prev: "length prev = vs_width s * vs_height s"
    using move(2) lens by (auto simp: move_agrees_def copy_rect_def split: if_splits)
  let ?s = "s\<lparr>vs_prev := prev\<rparr>"
  have ok: "frame_ok ?s" using s prev by (simp add: frame_ok_def)
  obtain t n where diff: "vnc_diff full ?s = Some (t, n)" using vnc_diff_spec [OF ok, of full] by auto
  note d = diffedE [OF ok diff]
  obtain a b e where "t = ?s\<lparr>vs_prev := a, vs_dirty := b, vs_read_mask := e\<rparr>" using d(1) by blast
  then have dims: "vs_width t = vs_width s" "vs_height t = vs_height s" "vs_rich t = vs_rich s" "tile_of t = tile_of s" "tile_of ?s = tile_of s"
      "vs_tiles_x t = vs_tiles_x s" "vs_tiles_y t = vs_tiles_y s"
    by (simp_all add: tile_of_def fun_eq_iff)
  have clean: "vs_prev t ! p = prev ! p" if p: "p < vs_width s * vs_height s" and k: "\<not> vs_dirty t ! tile_of s p" for p
    using d(3) [of p] d(4) [of "tile_of s p"] tile_below(3) [OF s p] p k by (auto simp: dims tile_changed_def)
  have lent: "length (vs_prev t) = vs_width s * vs_height s" using d(2) by (simp add: frame_ok_def dims)
  let ?fb = "if mv_pending m1 then map (pixel_of f) prev else vw_fb v"
  have fb': "?fb = map (pixel_of f) prev" if "\<not> full" using that fb move(2) by (auto simp: move_agrees_def)
  have right: "?fb ! p = pixel_of f (vs_prev t ! p)" if p: "p < vs_width s * vs_height s" and k: "\<not> vs_dirty t ! tile_of s p" for p
  proof (cases full)
    case True
    then show ?thesis using d(4) [of "tile_of s p"] tile_below(3) [OF s p] k by (simp add: dims)
  next
    case False
    then show ?thesis unfolding fb' [OF False] using clean [OF p k] p prev by simp
  qed
  have painted: "painted f t (\<lambda>k. vs_dirty t ! k) ?fb = map (pixel_of f) (vs_prev t)"
    by (rule painted_all) (use right lent len prev in \<open>auto simp: dims\<close>)
  have dirty: "0 < n \<longleftrightarrow> (\<exists>k < vs_tiles_x s * vs_tiles_y s. vs_dirty t ! k)"
    using d(6) by (auto simp: dims card_gt_0_iff)
  then have "0 < n \<longrightarrow> 0 < dirty_runs t" using dirty_runs_pos [of _ t] by (auto simp: dims)
  moreover have "vw_fb v = map (pixel_of f) (vs_prev t)" if "n = 0" "\<not> mv_pending m1"
  proof (rule nth_equalityI)
    show "length (vw_fb v) = length (map (pixel_of f) (vs_prev t))" using len lent by simp
    fix p assume "p < length (vw_fb v)"
    then have p: "p < vs_width s * vs_height s" using len by simp
    then have "\<not> vs_dirty t ! tile_of s p" using dirty that(1) tile_below(3) [OF s p] by auto
    then show "vw_fb v ! p = map (pixel_of f) (vs_prev t) ! p" using right [OF p] that(2) p lent by simp
  qed
  moreover have "mv_pending m1 \<longrightarrow> vw_fb v = map (pixel_of f) (vs_prev s)" using move(3) fb by auto
  ultimately show ?thesis using move(1,2) diff d(2) dims(1-3) prev painted by (intro exI [of _ m1] exI [of _ prev] exI [of _ t] exI [of _ n]) simp
qed

lemma same_cursor_refl: "same_cursor c c"
  unfolding same_cursor_def by (rule exI [of _ "cu_pos_sent c"], rule exI [of _ "cu_sent_serial c"]) simp

lemma same_cursor_at: "same_cursor c (c\<lparr>cu_pos_sent := at\<rparr>)"
  unfolding same_cursor_def by (rule exI [of _ at], rule exI [of _ "cu_sent_serial c"]) simp

lemma same_cursor_trans:
  assumes "same_cursor a b" and "same_cursor b c"
  shows "same_cursor a c"
proof -
  obtain p n q k where "b = a\<lparr>cu_pos_sent := p, cu_sent_serial := n\<rparr>" "c = b\<lparr>cu_pos_sent := q, cu_sent_serial := k\<rparr>"
    using assms unfolding same_cursor_def by blast
  then have "c = a\<lparr>cu_pos_sent := q, cu_sent_serial := k\<rparr>" by simp
  then show ?thesis unfolding same_cursor_def by blast
qed

lemma emits_out_map:
  assumes "emits_out r s bs a"
  shows "emits_out (andthen r (\<lambda>a t. Some (t, Inr (g a)))) s bs (g a)"
  using assms unfolding emits_out_def by (auto elim!: outcome_cases)

lemma update_in_step:
  assumes s: "frame_ok s" and t: "frame_ok t" "vs_width t = vs_width s" "vs_height t = vs_height s" "vs_rich t = vs_rich s"
    and v: "in_step f s cu c v"
    and copy: "move_agrees s m prev" "length prev = vs_width s * vs_height s" "mv_pending m \<Longrightarrow> vw_fb v = map (pixel_of f) (vs_prev s)"
    and painted: "painted f t (\<lambda>k. vs_dirty t ! k) (if mv_pending m then map (pixel_of f) prev else vw_fb v) = map (pixel_of f) (vs_prev t)"
    and cu2: "same_cursor cu cu2" "cu_sent_serial cu2 = cu_sent_serial cu" "vnc_cursor_pos_due cu2 = (cu3, position)"
    and due: "0 < dirty_runs t \<or> vnc_cursor_shape_due t cu \<or> position \<or> mv_pending m"
  shows "\<exists>bs cu' c' v'.
    (\<forall>net. net_ok net \<longrightarrow> emits_out (vnc_send_update t m cu2 c net) net bs (m\<lparr>mv_pending := False\<rparr>, cu', c')) \<and>
    (\<forall>rest. view_update f (vs_width s) (vs_height s) (v, bs @ rest) (v', rest)) \<and>
    in_step f t cu' c' v' \<and> vw_fb v' = map (pixel_of f) (vs_prev t) \<and> (vs_rich s \<longrightarrow> vw_cursor v' = cursor_of f cu)"
proof -
  have v': "conn_agrees f c v" "cursor_ok cu" "length (vw_fb v) = vs_width s * vs_height s"
      "vs_rich s \<Longrightarrow> cu_serial cu = cu_sent_serial cu \<Longrightarrow> vw_cursor v = cursor_of f cu"
    using v by (simp_all add: in_step_def)
  obtain at where "fst (vnc_cursor_pos_due cu2) = cu2\<lparr>cu_pos_sent := at\<rparr>" by (rule pos_due_cases [of cu2])
  then have "cu3 = cu2\<lparr>cu_pos_sent := at\<rparr>" by (simp add: cu2(3))
  then have cu3: "same_cursor cu cu3" "cu_sent_serial cu3 = cu_sent_serial cu"
    using cu2(1,2) same_cursor_at [of cu2 at] same_cursor_trans by auto
  define shape where "shape \<longleftrightarrow> vnc_cursor_shape_due t cu"
  have shape: "vnc_cursor_shape_due t cu2 \<longleftrightarrow> shape"
    using cu2(2) same_cursor_keeps(3) [OF cu2(1)] by (simp add: shape_def vnc_cursor_shape_due_def)
  define k where "k = dirty_runs t + of_bool shape + of_bool position + of_bool (mv_pending m)"
  have "0 < k" using due by (auto simp: k_def shape_def)
  have "k < 65536" using dirty_runs_le [OF t(1)] by (auto simp: k_def of_bool_def)
  note update = send_update_eq [OF t(1), of k cu2 position m cu3 c, unfolded shape, OF k_def \<open>0 < k\<close> cu2(3)]
  have "cursor_ok cu3" using v'(2) same_cursor_keeps(2) [OF cu3(1)] by simp
  from update_body_out [OF t(1) v'(1) this s t(2,3) copy(1,3,2) v'(3), of shape position]
  obtain cu' c' v1 where body: "delivers_out f t k v (update_body t shape position m cu3 c) (m\<lparr>mv_pending := False\<rparr>, cu', c') v1"
      and v1: "conn_agrees f c' v1" "vw_fb v1 = map (pixel_of f) (vs_prev t)" "same_cursor cu3 cu'"
        "cu_sent_serial cu' = (if shape then cu_serial cu3 else cu_sent_serial cu3)"
        "vw_cursor v1 = (if shape then cursor_of f cu3 else vw_cursor v)"
    unfolding painted by (auto simp: k_def add_ac)
  from update_out [OF \<open>k < 65536\<close> body] obtain bs where
      bs: "\<And>net. net_ok net \<Longrightarrow> emits_out (vnc_send_update t m cu2 c net) net bs (m\<lparr>mv_pending := False\<rparr>, cu', c')"
        "\<And>rest. view_update f (vs_width t) (vs_height t) (v, bs @ rest) (v1, rest)"
    unfolding update by blast
  have cursor: "vw_cursor v1 = cursor_of f cu" if "vs_rich s"
    using v'(4) that same_cursor_keeps(1) [OF cu3(1)] t(4) by (auto simp: v1(5) shape_def vnc_cursor_shape_due_def)
  have "in_step f t cu' c' v1"
    using v1(1,2) v'(2) cursor same_cursor_keeps [OF same_cursor_trans [OF cu3(1) v1(3)]] t by (simp add: in_step_def frame_ok_def)
  then show ?thesis using bs cursor v1(2) unfolding t(2,3) by blast
qed

lemma serve_frame_eq:
  assumes move: "(if full then Some (forget_move m, s) else vnc_detect_move m s) = Some (m1, s1)"
    and diff: "vnc_diff full s1 = Some (t, n)" and due: "vnc_cursor_pos_due cu = (cu', position)"
  defines "quiet \<equiv> n = 0 \<and> \<not> mv_pending m1 \<and> \<not> vnc_cursor_shape_due t cu"
  shows "serve_frame full s m cu c = (\<lambda>net.
    if quiet \<and> \<not> position then Some (net, Inr (False, t, m1, cu', c))
    else andthen (vnc_send_update t m1 (if quiet then cu' else cu) c net)
      (\<lambda>(m, cu, c) net. Some (net, Inr (True, t, m, cu, c))))"
  unfolding serve_frame_def move quiet_def using diff due by (auto simp: fun_eq_iff Let_def)

text \<open>
  C2. The frame step of the VNC server: from a state in which the viewer's framebuffer shows the
  previous frame (or before a full frame), whatever the capture brought, whichever window has moved
  where and whatever the cursor does, the step either sends nothing because the viewer is right as it
  is, or sends one update (unless the connection fails, and then a prefix of it), leaving nothing in the
  buffer. A viewer after RFC 6143 reads that update without error and to the last byte: as many
  rectangles as announced, each inside the screen. Afterwards its framebuffer shows the new previous
  frame of the server, its pointer is the server's cursor, and both agree on the state of the
  encoding, so the next step starts from the same state.
\<close>

theorem vnc_viewer_in_step:
  assumes "frame_ok s" and "in_step f s cu c v" and "full \<or> vw_fb v = map (pixel_of f) (vs_prev s)"
  shows "\<exists>sent t m' cu' c' v'.
    (if sent then
       \<exists>bs. (\<forall>net. net_ok net \<longrightarrow> emits_out (serve_frame full s m cu c net) net bs (True, t, m', cu', c')) \<and>
         (\<forall>rest. view_update f (vs_width s) (vs_height s) (v, bs @ rest) (v', rest))
     else v' = v \<and> (\<forall>net. serve_frame full s m cu c net = Some (net, Inr (False, t, m', cu', c')))) \<and>
    frame_ok t \<and> vs_width t = vs_width s \<and> vs_height t = vs_height s \<and> in_step f t cu' c' v' \<and>
    vw_fb v' = map (pixel_of f) (vs_prev t) \<and> (vs_rich s \<longrightarrow> vw_cursor v' = cursor_of f cu)"
proof -
  have v: "conn_agrees f c v" "cursor_ok cu" "length (vw_fb v) = vs_width s * vs_height s"
      "vs_rich s \<Longrightarrow> cu_serial cu = cu_sent_serial cu \<Longrightarrow> vw_cursor v = cursor_of f cu"
    using assms(2) by (simp_all add: in_step_def)
  obtain m1 prev t n where move: "(if full then Some (forget_move m, s) else vnc_detect_move m s) = Some (m1, s\<lparr>vs_prev := prev\<rparr>)"
      and diff: "vnc_diff full (s\<lparr>vs_prev := prev\<rparr>) = Some (t, n)"
      and t: "frame_ok t" "vs_width t = vs_width s" "vs_height t = vs_height s" "vs_rich t = vs_rich s"
      and copy: "move_agrees s m1 prev" "length prev = vs_width s * vs_height s" "mv_pending m1 \<longrightarrow> vw_fb v = map (pixel_of f) (vs_prev s)"
      and dirty: "0 < n \<longrightarrow> 0 < dirty_runs t"
      and painted: "painted f t (\<lambda>k. vs_dirty t ! k) (if mv_pending m1 then map (pixel_of f) prev else vw_fb v) = map (pixel_of f) (vs_prev t)"
      and still: "n = 0 \<and> \<not> mv_pending m1 \<longrightarrow> vw_fb v = map (pixel_of f) (vs_prev t)"
    using frame_compared [OF assms(1,3) v(3), of m] by blast
  obtain cu1 position where due: "vnc_cursor_pos_due cu = (cu1, position)" by force
  obtain at where cu1: "cu1 = cu\<lparr>cu_pos_sent := at\<rparr>" "snd (vnc_cursor_pos_due cu1) = position"
    using pos_due_cases [of cu] due by auto
  note serve = serve_frame_eq [OF move diff due, of c]
  define quiet where "quiet \<longleftrightarrow> n = 0 \<and> \<not> mv_pending m1 \<and> \<not> vnc_cursor_shape_due t cu"
  note serve = serve [folded quiet_def]
  have lent: "length (vs_prev t) = vs_width t * vs_height t" using t(1) by (simp add: frame_ok_def)
  show ?thesis
  proof (cases "quiet \<and> \<not> position")
    case True
    then have "\<not> (vs_rich s \<and> cu_serial cu \<noteq> cu_sent_serial cu)" by (simp add: quiet_def vnc_cursor_shape_due_def t(4))
    then have "in_step f t cu1 c v" "vs_rich s \<longrightarrow> vw_cursor v = cursor_of f cu"
      using v t by (auto simp: in_step_def cu1(1) cursor_ok_def cursor_of_def)
    then show ?thesis
      using True serve still t by (intro exI [of _ False] exI [of _ t] exI [of _ m1] exI [of _ cu1] exI [of _ c] exI [of _ v]) (simp add: quiet_def)
  next
    case False
    define cu2 where "cu2 = (if quiet then cu1 else cu)"
    have "vnc_cursor_pos_due cu2 = (fst (vnc_cursor_pos_due cu2), position)"
      using due cu1(2) by (cases "vnc_cursor_pos_due cu2") (auto simp: cu2_def split: if_splits)
    moreover have "same_cursor cu cu2" "cu_sent_serial cu2 = cu_sent_serial cu"
      by (auto simp: cu2_def cu1(1) same_cursor_refl same_cursor_at)
    moreover have "0 < dirty_runs t \<or> vnc_cursor_shape_due t cu \<or> position \<or> mv_pending m1"
      using False dirty by (auto simp: quiet_def)
    moreover note update_in_step [OF assms(1) t assms(2) copy(1,2) _ painted, of cu2 "fst (vnc_cursor_pos_due cu2)" position]
    ultimately obtain bs cu' c' v' where
        bs: "\<And>net. net_ok net \<Longrightarrow> emits_out (vnc_send_update t m1 cu2 c net) net bs (m1\<lparr>mv_pending := False\<rparr>, cu', c')"
          "\<And>rest. view_update f (vs_width s) (vs_height s) (v, bs @ rest) (v', rest)"
        and v': "in_step f t cu' c' v'" "vw_fb v' = map (pixel_of f) (vs_prev t)" "vs_rich s \<longrightarrow> vw_cursor v' = cursor_of f cu"
      using copy(3) by blast
    have out: "emits_out (serve_frame full s m cu c net) net bs (True, t, m1\<lparr>mv_pending := False\<rparr>, cu', c')" if "net_ok net" for net
      using emits_out_map [OF bs(1) [OF that], of "\<lambda>(m, cu, c). (True, t, m, cu, c)"]
      unfolding serve cu2_def [symmetric] if_not_P [OF False] by (simp add: case_prod_unfold)
    then show ?thesis
      using bs(2) v' t by (intro exI [of _ True] exI [of _ t] exI [of _ "m1\<lparr>mv_pending := False\<rparr>"] exI [of _ cu'] exI [of _ c'] exI [of _ v']) auto
  qed
qed

text \<open>A screen of one pixel, a new cursor, and a viewer that asked for ZRLE.\<close>

definition new_cursor :: vnc_cursor where
  "new_cursor = \<lparr>cu_serial = 1, cu_w = 1, cu_h = 1, cu_hot_x = 0, cu_hot_y = 0,
     cu_rgb = replicate (VNC_CURSOR_MAX * VNC_CURSOR_MAX) 0, cu_mask = replicate (VNC_CURSOR_MAX * VNC_CURSOR_MAX) True,
     cu_at = (0, 0), cu_at_valid = True, cu_use_pos = True, cu_sent_serial = 0, cu_pos_sent = (- 1, - 1), cu_pointer = (- 1, - 1),
     cu_seen = 0, cu_shown = True, cu_reset = False\<rparr>"

definition new_conn :: vnc_conn where
  "new_conn = \<lparr>cn_px = px_of default_format, cn_zrle = True, cn_hextile = False,
     cn_hex = \<lparr>hex_bg_valid = False, hex_fg_valid = False, hex_bg = 0, hex_fg = 0\<rparr>,
     cn_subrects = replicate 1536 0, cn_link = fresh_link\<rparr>"

definition new_viewer :: viewer where
  "new_viewer = \<lparr>vw_fb = map (pixel_of default_format) (vs_prev one_pixel), vw_zlib = ([], 0), vw_cursor = (0, 0, 0, 0, [], []), vw_at = (0, 0)\<rparr>"

definition no_move :: vnc_move where
  "no_move = \<lparr>mv_use = True, mv_window = 0, mv_rect = (0, 0, 0, 0), mv_last = 0, mv_last_rect = (0, 0, 0, 0), mv_pending = False,
     mv_x = 0, mv_y = 0, mv_w = 0, mv_h = 0, mv_src_x = 0, mv_src_y = 0\<rparr>"

lemma new_in_step: "in_step default_format one_pixel new_cursor new_conn new_viewer"
  using default_format_rfc fresh_link_agrees
  by (simp add: in_step_def conn_agrees_def format_rfc_def new_conn_def new_viewer_def new_cursor_def cursor_ok_def one_pixel_def
      VNC_CURSOR_MAX_def)

lemma vnc_viewer_in_step_witness:
  "\<exists>sent t m' cu' c' v'.
    (if sent then
       \<exists>bs. (\<forall>net. net_ok net \<longrightarrow> emits_out (serve_frame False one_pixel no_move new_cursor new_conn net) net bs (True, t, m', cu', c')) \<and>
         (\<forall>rest. view_update default_format (vs_width one_pixel) (vs_height one_pixel) (new_viewer, bs @ rest) (v', rest))
     else v' = new_viewer \<and> (\<forall>net. serve_frame False one_pixel no_move new_cursor new_conn net = Some (net, Inr (False, t, m', cu', c')))) \<and>
    frame_ok t \<and> vs_width t = vs_width one_pixel \<and> vs_height t = vs_height one_pixel \<and> in_step default_format t cu' c' v' \<and>
    vw_fb v' = map (pixel_of default_format) (vs_prev t) \<and> (vs_rich one_pixel \<longrightarrow> vw_cursor v' = cursor_of default_format new_cursor)"
  by (rule vnc_viewer_in_step [OF one_pixel_ok new_in_step]) (simp add: new_viewer_def)

end
