(* ===== verification/Crc32.thy ===== *)
theory Crc32
  imports V9xPrelude
begin

section \<open>CRC-32 (\<^verbatim>\<open>src/common/crc32.c\<close>)\<close>

text \<open>
  The table-driven CRC that guards file transfers and zip members, with its lazily filled static
  table as explicit state, the bit-at-a-time definition it abbreviates, and what the checksum
  detects.
\<close>

subsection \<open>The code\<close>

text \<open>One iteration of the inner loop of \<open>v9x_crc32_initialize\<close>.\<close>

definition crc_bit :: "u32 \<Rightarrow> u32" where
  "crc_bit value = drop_bit 1 value XOR (0xedb88320 AND (0 - (value AND 1)))"

definition crc_entry :: "nat \<Rightarrow> u32" where
  "crc_entry index = (crc_bit ^^ 8) (of_nat index)"

text \<open>The two static variables.\<close>

record crc_static =
  crc32_table :: "u32 list"
  crc32_ready :: bool

definition crc_static_init :: crc_static where
  "crc_static_init = \<lparr>crc32_table = replicate 256 0, crc32_ready = False\<rparr>"

definition v9x_crc32_initialize :: "crc_static \<Rightarrow> crc_static" where
  "v9x_crc32_initialize g =
     (if crc32_ready g then g
      else g\<lparr>crc32_table := map crc_entry [0..<256], crc32_ready := True\<rparr>)"

definition v9x_crc32_begin :: "crc_static \<Rightarrow> u32 \<times> crc_static" where
  "v9x_crc32_begin g = (0xffffffff, v9x_crc32_initialize g)"

definition crc_table_step :: "u32 list \<Rightarrow> u8 \<Rightarrow> u32 \<Rightarrow> u32" where
  "crc_table_step table byte crc =
     drop_bit 8 crc XOR table ! unat ((crc XOR ucast byte) AND 0xff)"

definition v9x_crc32_update :: "crc_static \<Rightarrow> u32 \<Rightarrow> bytes \<Rightarrow> u32 \<times> crc_static" where
  "v9x_crc32_update g crc data =
     (let g = v9x_crc32_initialize g in (fold (crc_table_step (crc32_table g)) data crc, g))"

definition v9x_crc32_end :: "u32 \<Rightarrow> u32" where
  "v9x_crc32_end crc = crc XOR 0xffffffff"

definition v9x_crc32_call :: "crc_static \<Rightarrow> bytes \<Rightarrow> u32 \<times> crc_static" where
  "v9x_crc32_call g data =
     (let (crc, g) = v9x_crc32_begin g; (crc, g) = v9x_crc32_update g crc data
      in (v9x_crc32_end crc, g))"

text \<open>The call as its users see it: the checksum does not depend on the static table (below).\<close>

definition v9x_crc32 :: "bytes \<Rightarrow> u32" where
  "v9x_crc32 data = fst (v9x_crc32_call crc_static_init data)"

text \<open>The static table is either still empty or the one the code fills in; every call keeps this.\<close>

definition crc_static_ok :: "crc_static \<Rightarrow> bool" where
  "crc_static_ok g \<longleftrightarrow> (crc32_ready g \<longrightarrow> crc32_table g = map crc_entry [0..<256])"

subsection \<open>The reference: one bit at a time\<close>

definition crc_byte :: "u8 \<Rightarrow> u32 \<Rightarrow> u32" where
  "crc_byte byte crc = (crc_bit ^^ 8) (crc XOR ucast byte)"

definition crc32_spec :: "bytes \<Rightarrow> u32" where
  "crc32_spec data = fold crc_byte data 0xffffffff XOR 0xffffffff"

lemma crc_bit_alt:
  "crc_bit v = drop_bit 1 v XOR (if bit v 0 then 0xedb88320 else 0)"
proof (cases "odd v")
  case True
  then have "v AND 1 = 1" by (simp add: and_one_eq odd_iff_mod_2_eq_one)
  then show ?thesis using True by (simp add: crc_bit_def bit_0)
next
  case False
  then have "v AND 1 = 0" by (simp add: and_one_eq even_iff_mod_2_eq_zero)
  then show ?thesis using False by (simp add: crc_bit_def bit_0)
qed

lemma crc_bit_xor: "crc_bit (x XOR y) = crc_bit x XOR crc_bit y"
  by (simp add: crc_bit_alt drop_bit_xor bit_xor_iff ac_simps)

lemma crc_bits_xor: "(crc_bit ^^ n) (x XOR y) = (crc_bit ^^ n) x XOR (crc_bit ^^ n) y"
  by (induction n) (simp_all add: crc_bit_xor)

lemma crc_bits_shift:
  assumes "n + k \<le> 32"
  shows "(crc_bit ^^ n) (push_bit n (take_bit k x)) = take_bit k x"
  using assms
proof (induction n)
  case 0
  then show ?case by simp
next
  case (Suc n)
  let ?y = "push_bit (Suc n) (take_bit k x)"
  have "\<not> bit ?y 0" by (simp only: bit_push_bit_iff) simp
  moreover have "drop_bit 1 ?y = push_bit n (take_bit k x)"
    using Suc.prems
    by (intro bit_word_eqI) (auto simp only: bit_drop_bit_eq bit_push_bit_iff bit_take_bit_iff o_def, auto)
  ultimately have "crc_bit ?y = push_bit n (take_bit k x)"
    by (simp add: crc_bit_alt del: push_bit_Suc)
  then show ?case using Suc by (simp add: funpow_Suc_right del: funpow.simps(2) push_bit_Suc)
qed

lemma low_byte_less: "unat (take_bit 8 y) < 256" for y :: u32
proof -
  have "take_bit 8 (unat y) < 2 ^ 8" by (rule take_bit_nat_less_exp)
  then show ?thesis by (simp add: unsigned_take_bit_eq)
qed

lemma crc_bits_split: "(crc_bit ^^ 8) y = take_bit 24 (drop_bit 8 y) XOR (crc_bit ^^ 8) (take_bit 8 y)"
proof -
  have "y = push_bit 8 (take_bit 24 (drop_bit 8 y)) XOR take_bit 8 y"
    by (rule bit_word_eqI) (auto simp: bit_simps)
  then have "(crc_bit ^^ 8) y =
      (crc_bit ^^ 8) (push_bit 8 (take_bit 24 (drop_bit 8 y))) XOR (crc_bit ^^ 8) (take_bit 8 y)"
    by (metis crc_bits_xor)
  then show ?thesis by (simp add: crc_bits_shift)
qed

lemma high_part: "take_bit 24 (drop_bit 8 (crc XOR ucast byte)) = drop_bit 8 crc"
  for crc :: u32 and byte :: u8
proof (rule bit_word_eqI)
  fix n assume "n < LENGTH(32)"
  then show "bit (take_bit 24 (drop_bit 8 (crc XOR ucast byte))) n = bit (drop_bit 8 crc) n"
    using bit_imp_le_length [of crc "8 + n"] by (auto simp: bit_simps)
qed

lemma crc_table_step_eq:
  "crc_table_step (map crc_entry [0..<256]) byte crc = crc_byte byte crc"
  unfolding crc_byte_def
  by (subst crc_bits_split)
    (simp add: crc_table_step_def crc_entry_def high_part and_0xff low_byte_less del: take_bit_xor drop_bit_xor)

lemma initialize_ok [simp]:
  "crc_static_ok g \<Longrightarrow> crc32_table (v9x_crc32_initialize g) = map crc_entry [0..<256]"
  "crc_static_ok g \<Longrightarrow> crc_static_ok (v9x_crc32_initialize g)"
  by (auto simp: v9x_crc32_initialize_def crc_static_ok_def)

lemma fold_crc_table_step:
  "fold (crc_table_step (map crc_entry [0..<256])) data crc = fold crc_byte data crc"
  by (induction data arbitrary: crc) (simp_all add: crc_table_step_eq)

lemma update_eq:
  "crc_static_ok g \<Longrightarrow> fst (v9x_crc32_update g crc data) = fold crc_byte data crc"
  by (simp add: v9x_crc32_update_def Let_def fold_crc_table_step)

lemma crc32_bitwise: "crc_static_ok g \<Longrightarrow> fst (v9x_crc32_call g data) = crc32_spec data"
  by (simp add: v9x_crc32_call_def v9x_crc32_begin_def v9x_crc32_end_def crc32_spec_def Let_def
      v9x_crc32_update_def fold_crc_table_step)

text \<open>
  C37. The table-driven CRC equals the bit-by-bit reflected polynomial division of the CRC-32
  standard, whatever the state of the static table, and leaves a valid table behind.
\<close>

theorem crc32_is_bitwise:
  assumes "crc_static_ok g"
  shows "fst (v9x_crc32_call g data) = crc32_spec data \<and> crc_static_ok (snd (v9x_crc32_call g data))"
  using assms
  by (simp add: v9x_crc32_call_def v9x_crc32_begin_def v9x_crc32_end_def crc32_spec_def Let_def
      v9x_crc32_update_def fold_crc_table_step)

lemma crc_static_init_ok [simp]: "crc_static_ok crc_static_init"
  by (simp add: crc_static_ok_def crc_static_init_def)

lemma crc_bit_eval:
  "crc_bit 0 = 0" "crc_bit 1 = 0xedb88320"
  "crc_bit (numeral (num.Bit0 n)) = drop_bit 1 (numeral (num.Bit0 n))"
  "crc_bit (numeral (num.Bit1 n)) = drop_bit 1 (numeral (num.Bit1 n)) XOR 0xedb88320"
  by (simp_all add: crc_bit_alt bit_0)

lemma crc_byte_eval:
  "crc_byte b c =
     crc_bit (crc_bit (crc_bit (crc_bit (crc_bit (crc_bit (crc_bit (crc_bit (c XOR ucast b))))))))"
  by (simp add: crc_byte_def numeral_eq_Suc)

lemma check_value: "crc32_spec (asc ''123456789'') = 0xCBF43926"
  by (simp add: crc32_spec_def crc_byte_eval crc_bit_eval)

theorem crc32_is_bitwise_witness:
  "fst (v9x_crc32_call crc_static_init (asc ''123456789'')) = 0xCBF43926"
proof -
  have "fst (v9x_crc32_call crc_static_init (asc ''123456789'')) = crc32_spec (asc ''123456789'')"
    using crc32_is_bitwise [OF crc_static_init_ok, of "asc ''123456789''"] by blast
  then show ?thesis by (simp only: check_value)
qed

subsection \<open>What the checksum detects\<close>

lemma crc_bit_inj: "crc_bit x = crc_bit y \<Longrightarrow> x = y"
proof -
  assume eq: "crc_bit x = crc_bit y"
  have top: "bit (crc_bit v) 31 = bit v 0" for v
    by (auto simp: crc_bit_alt bit_xor_iff bit_drop_bit_eq bit_simps)
  have b0: "bit x 0 = bit y 0"
    using top [of x] top [of y] eq by simp
  then have d: "drop_bit 1 x = drop_bit 1 y"
    using eq by (simp add: crc_bit_alt xor_right_cancel split: if_splits)
  show "x = y"
  proof (rule bit_word_eqI)
    fix n
    show "bit x n = bit y n"
    proof (cases n)
      case 0
      then show ?thesis using b0 by simp
    next
      case (Suc m)
      have "bit (drop_bit 1 x) m = bit (drop_bit 1 y) m" using d by simp
      then show ?thesis using Suc by (simp add: bit_drop_bit_eq)
    qed
  qed
qed

lemma crc_bits_inj: "(crc_bit ^^ n) x = (crc_bit ^^ n) y \<Longrightarrow> x = y"
  by (induction n) (auto dest: crc_bit_inj)

lemma fold_crc_byte_inj:
  "fold crc_byte data c = fold crc_byte data d \<Longrightarrow> c = d"
proof (induction data arbitrary: c d)
  case Nil
  then show ?case by simp
next
  case (Cons b data)
  then have "crc_byte b c = crc_byte b d" by simp
  then have "c XOR ucast b = d XOR ucast b"
    unfolding crc_byte_def by (rule crc_bits_inj)
  then show ?case by (simp only: xor_right_cancel)
qed

text \<open>Four bytes in a row are one 32-bit word xored into the register and divided at once.\<close>

lemma crc_word:
  "fold crc_byte [a, b, c, d] crc = (crc_bit ^^ 32) (crc XOR u32_of a b c d)"
proof -
  have sh: "(crc_bit ^^ n) (push_bit n (ucast e)) = (ucast e :: u32)" if "n \<le> 24" for n and e :: u8
  proof -
    have "take_bit 8 (ucast e :: u32) = ucast e"
      by (rule bit_word_eqI) (auto simp: bit_simps dest: bit_u8_less)
    then show ?thesis using crc_bits_shift [of n 8 "ucast e"] that by simp
  qed
  have s1: "(crc_bit ^^ 8) x XOR ucast e = (crc_bit ^^ 8) (x XOR push_bit 8 (ucast e))"
    and s2: "(crc_bit ^^ 16) x XOR ucast e = (crc_bit ^^ 16) (x XOR push_bit 16 (ucast e))"
    and s3: "(crc_bit ^^ 24) x XOR ucast e = (crc_bit ^^ 24) (x XOR push_bit 24 (ucast e))"
    for x and e :: u8
    using sh [of 8 e] sh [of 16 e] sh [of 24 e] by (simp_all add: crc_bits_xor)
  have word: "u32_of a b c d =
      ucast a XOR push_bit 8 (ucast b) XOR push_bit 16 (ucast c) XOR push_bit 24 (ucast d)"
    by (rule bit_word_eqI) (auto simp: u32_of_def bit_simps)
  have pow: "(crc_bit ^^ 8) ((crc_bit ^^ 8) x) = (crc_bit ^^ 16) x"
      "(crc_bit ^^ 8) ((crc_bit ^^ 16) x) = (crc_bit ^^ 24) x"
      "(crc_bit ^^ 8) ((crc_bit ^^ 24) x) = (crc_bit ^^ 32) x" for x
    using funpow_add [of 8 8 crc_bit] funpow_add [of 8 16 crc_bit] funpow_add [of 8 24 crc_bit]
    by (simp_all add: o_def del: funpow.simps)
  show ?thesis
    unfolding word
    by (simp only: fold_simps crc_byte_def s1 s2 s3 pow xor.assoc)
qed

text \<open>
  Every error burst of at most 32 bits is detected: two messages that differ only inside
  four consecutive bytes never have the same checksum. In particular a changed byte, or two
  swapped neighbouring bytes, is always noticed by the transfer and zip checks.
\<close>

theorem crc32_detects_bursts:
  assumes "length xs = 4" "length ys = 4" "xs \<noteq> ys" "crc_static_ok g"
  shows "fst (v9x_crc32_call g (pre @ xs @ post)) \<noteq> fst (v9x_crc32_call g (pre @ ys @ post))"
proof
  assume eq: "fst (v9x_crc32_call g (pre @ xs @ post)) = fst (v9x_crc32_call g (pre @ ys @ post))"
  obtain a b c d where xs: "xs = [a, b, c, d]"
    using assms(1) by (auto simp: length_Suc_conv numeral_eq_Suc)
  obtain a' b' c' d' where ys: "ys = [a', b', c', d']"
    using assms(2) by (auto simp: length_Suc_conv numeral_eq_Suc)
  let ?r = "fold crc_byte pre 0xffffffff"
  have unspec: "fst (v9x_crc32_call g m) = fold crc_byte m 0xffffffff XOR 0xffffffff" for m
    using crc32_bitwise [OF assms(4)] by (simp add: crc32_spec_def)
  have "fold crc_byte post (fold crc_byte xs ?r) = fold crc_byte post (fold crc_byte ys ?r)"
    using eq unfolding unspec xor_right_cancel by simp
  then have "fold crc_byte xs ?r = fold crc_byte ys ?r"
    by (rule fold_crc_byte_inj)
  then have "?r XOR u32_of a b c d = ?r XOR u32_of a' b' c' d'"
    unfolding xs ys crc_word by (rule crc_bits_inj)
  then have "u32_of a b c d = u32_of a' b' c' d'"
    by (simp only: xor_left_cancel)
  then have "le32 (u32_of a b c d) = le32 (u32_of a' b' c' d')" by simp
  then have "xs = ys" by (simp add: le32_u32_of xs ys)
  then show False using assms(3) by simp
qed

theorem crc32_detects_bursts_witness:
  "fst (v9x_crc32_call crc_static_init (asc ''ab'' @ asc ''1234'' @ asc ''yz'')) \<noteq>
   fst (v9x_crc32_call crc_static_init (asc ''ab'' @ asc ''1243'' @ asc ''yz''))"
  by (rule crc32_detects_bursts) simp_all

end
