(* ===== verification/ZipRead.thy ===== *)
theory ZipRead
  imports InflateSafe Crc32
begin

section \<open>ZipRead: members of an archive held in memory\<close>

text \<open>
  \<^verbatim>\<open>include/v9xremote/zipread.h\<close> and \<^verbatim>\<open>src/common/zipread.c\<close>. The archive is the list \<open>data\<close>,
  every offset and size is the 32-bit word of the source (so a sum that wrapped would show), and
  every field is read through checked accesses at the numeric value of its offset. Loop counters and
  indices are natural numbers; pointers into the archive are offsets. \<open>None\<close> is an access outside
  the archive or the output buffer.
\<close>

subsection \<open>Constants\<close>

datatype zip_status =
    V9X_ZIP_OK
  | V9X_ZIP_BAD_ARGUMENT
  | V9X_ZIP_NO_END
  | V9X_ZIP_BAD_END
  | V9X_ZIP_MULTI_DISK
  | V9X_ZIP_ZIP64
  | V9X_ZIP_BAD_CENTRAL
  | V9X_ZIP_BAD_INDEX
  | V9X_ZIP_NOT_FOUND
  | V9X_ZIP_DUPLICATE
  | V9X_ZIP_UNSAFE_NAME
  | V9X_ZIP_ENCRYPTED
  | V9X_ZIP_BAD_METHOD
  | V9X_ZIP_BAD_LOCAL
  | V9X_ZIP_NAME_MISMATCH
  | V9X_ZIP_OUTPUT_FULL
  | V9X_ZIP_BAD_DATA
  | V9X_ZIP_BAD_SIZE
  | V9X_ZIP_BAD_CRC

definition V9X_ZIP_NAME_MAX_8_3 :: nat where "V9X_ZIP_NAME_MAX_8_3 = 12"
definition V9X_ZIP_END_SIGNATURE :: u32 where "V9X_ZIP_END_SIGNATURE = 0x06054B50"
definition V9X_ZIP_END_FIXED :: u32 where "V9X_ZIP_END_FIXED = 22"
definition V9X_ZIP_END_SEARCH :: u32 where "V9X_ZIP_END_SEARCH = 65557"
definition V9X_ZIP_CENTRAL_SIGNATURE :: u32 where "V9X_ZIP_CENTRAL_SIGNATURE = 0x02014B50"
definition V9X_ZIP_CENTRAL_FIXED :: u32 where "V9X_ZIP_CENTRAL_FIXED = 46"
definition V9X_ZIP_LOCAL_SIGNATURE :: u32 where "V9X_ZIP_LOCAL_SIGNATURE = 0x04034B50"
definition V9X_ZIP_LOCAL_FIXED :: u32 where "V9X_ZIP_LOCAL_FIXED = 30"
definition V9X_ZIP_FLAGS_ENCRYPTED :: u16 where "V9X_ZIP_FLAGS_ENCRYPTED = 0x2041"
definition V9X_ZIP_METHOD_STORED :: u16 where "V9X_ZIP_METHOD_STORED = 0"
definition V9X_ZIP_METHOD_DEFLATE :: u16 where "V9X_ZIP_METHOD_DEFLATE = 8"
definition V9X_ZIP_U16_SATURATED :: u16 where "V9X_ZIP_U16_SATURATED = 0xFFFF"
definition V9X_ZIP_U32_SATURATED :: u32 where "V9X_ZIP_U32_SATURATED = 0xFFFFFFFF"

lemmas zip_consts =
  V9X_ZIP_NAME_MAX_8_3_def V9X_ZIP_END_SIGNATURE_def V9X_ZIP_END_FIXED_def V9X_ZIP_END_SEARCH_def
  V9X_ZIP_CENTRAL_SIGNATURE_def V9X_ZIP_CENTRAL_FIXED_def V9X_ZIP_LOCAL_SIGNATURE_def
  V9X_ZIP_LOCAL_FIXED_def V9X_ZIP_FLAGS_ENCRYPTED_def V9X_ZIP_METHOD_STORED_def
  V9X_ZIP_METHOD_DEFLATE_def V9X_ZIP_U16_SATURATED_def V9X_ZIP_U32_SATURATED_def

subsection \<open>State\<close>

record zip =
  zdata :: "bytes option"
  zlength :: u32
  directory_offset :: u32
  directory_size :: u32
  entry_count :: u16

text \<open>The bytes the data pointer reaches; none when it is null.\<close>

definition zip_bytes :: "zip \<Rightarrow> bytes" where
  "zip_bytes z = case_option [] id (zdata z)"

record zip_entry =
  eindex :: nat
  eflags :: u16
  emethod :: u16
  name_length :: u16
  name_at :: nat
  ecrc32 :: u32
  compressed_size :: u32
  uncompressed_size :: u32
  local_offset :: u32

subsection \<open>Fields and names\<close>

definition v9x_zip_read16 :: "bytes \<Rightarrow> nat \<Rightarrow> u16 option" where
  "v9x_zip_read16 data p = do {
     b0 \<leftarrow> rd data p;
     b1 \<leftarrow> rd data (p + 1);
     Some (ucast b0 OR push_bit 8 (ucast b1)) }"

definition v9x_zip_read32 :: "bytes \<Rightarrow> nat \<Rightarrow> u32 option" where
  "v9x_zip_read32 data p = do {
     b0 \<leftarrow> rd data p;
     b1 \<leftarrow> rd data (p + 1);
     b2 \<leftarrow> rd data (p + 2);
     b3 \<leftarrow> rd data (p + 3);
     Some (ucast b0 OR push_bit 8 (ucast b1) OR push_bit 16 (ucast b2) OR push_bit 24 (ucast b3)) }"

definition v9x_zip_ascii_upper :: "u8 \<Rightarrow> u8" where
  "v9x_zip_ascii_upper c = (if c \<ge> 0x61 \<and> c \<le> 0x7A then c - (0x61 - 0x41) else c)"

text \<open>Two names, each at its own place in memory.\<close>

fun v9x_zip_same_name :: "bytes \<Rightarrow> nat \<Rightarrow> bytes \<Rightarrow> nat \<Rightarrow> nat \<Rightarrow> bool option" where
  "v9x_zip_same_name a i b j 0 = Some True"
| "v9x_zip_same_name a i b j (Suc n) = do {
     x \<leftarrow> rd a i;
     y \<leftarrow> rd b j;
     if v9x_zip_ascii_upper x \<noteq> v9x_zip_ascii_upper y then Some False
     else v9x_zip_same_name a (Suc i) b (Suc j) n }"

subsection \<open>The central directory\<close>

definition v9x_zip_read_central ::
    "zip \<Rightarrow> u32 \<Rightarrow> u32 \<Rightarrow> nat \<Rightarrow> zip_entry \<Rightarrow> (zip_entry, zip_status, u32) outcome" where
  "v9x_zip_read_central z offset end_at index entry =
     (if offset > end_at \<or> end_at - offset < V9X_ZIP_CENTRAL_FIXED
      then Some (entry, Inl V9X_ZIP_BAD_CENTRAL)
      else
        let record_at = unat offset; data = zip_bytes z in do {
        signature \<leftarrow> v9x_zip_read32 data record_at;
        if signature \<noteq> V9X_ZIP_CENTRAL_SIGNATURE then Some (entry, Inl V9X_ZIP_BAD_CENTRAL)
        else do {
          name_len \<leftarrow> v9x_zip_read16 data (record_at + 28);
          extra_len \<leftarrow> v9x_zip_read16 data (record_at + 30);
          comment_len \<leftarrow> v9x_zip_read16 data (record_at + 32);
          let record_length = V9X_ZIP_CENTRAL_FIXED + ucast name_len + ucast extra_len + ucast comment_len;
          if end_at - offset < record_length then Some (entry, Inl V9X_ZIP_BAD_CENTRAL)
          else do {
            flags \<leftarrow> v9x_zip_read16 data (record_at + 8);
            method \<leftarrow> v9x_zip_read16 data (record_at + 10);
            crc \<leftarrow> v9x_zip_read32 data (record_at + 16);
            compressed \<leftarrow> v9x_zip_read32 data (record_at + 20);
            uncompressed \<leftarrow> v9x_zip_read32 data (record_at + 24);
            local_off \<leftarrow> v9x_zip_read32 data (record_at + 42);
            disk \<leftarrow> v9x_zip_read16 data (record_at + 34);
            let entry = \<lparr>eindex = index, eflags = flags, emethod = method, name_length = name_len,
                         name_at = record_at + unat V9X_ZIP_CENTRAL_FIXED, ecrc32 = crc,
                         compressed_size = compressed, uncompressed_size = uncompressed,
                         local_offset = local_off\<rparr>;
            if disk \<noteq> 0 then Some (entry, Inl V9X_ZIP_MULTI_DISK)
            else if compressed = V9X_ZIP_U32_SATURATED \<or> uncompressed = V9X_ZIP_U32_SATURATED \<or>
                    local_off = V9X_ZIP_U32_SATURATED
            then Some (entry, Inl V9X_ZIP_ZIP64)
            else Some (entry, Inr (offset + record_length)) } } })"

text \<open>The loop of \<open>v9x_zip_walk\<close>: \<open>n\<close> records are left, \<open>i\<close> is the current one.\<close>

fun walk_from ::
    "zip \<Rightarrow> nat \<Rightarrow> u32 \<Rightarrow> u32 \<Rightarrow> nat \<Rightarrow> nat \<Rightarrow> zip_entry \<Rightarrow> (zip_entry, zip_status, unit) outcome" where
  "walk_from z index end_at offset i 0 entry =
     (if offset \<noteq> end_at then Some (entry, Inl V9X_ZIP_BAD_CENTRAL) else Some (entry, Inr ()))"
| "walk_from z index end_at offset i (Suc n) entry =
     andthen (v9x_zip_read_central z offset end_at i entry) (\<lambda>next_offset entry.
       if i = index then Some (entry, Inr ())
       else walk_from z index end_at next_offset (i + 1) n entry)"

definition v9x_zip_walk :: "zip \<Rightarrow> nat \<Rightarrow> zip_entry \<Rightarrow> (zip_entry, zip_status, unit) outcome" where
  "v9x_zip_walk z index entry =
     walk_from z index (directory_offset z + directory_size z) (directory_offset z) 0
       (unat (entry_count z)) entry"

text \<open>The backward search for the end record, from \<open>position\<close> down to \<open>floor_at\<close>.\<close>

function search_end :: "bytes \<Rightarrow> u32 \<Rightarrow> u32 \<Rightarrow> u32 \<Rightarrow> u32 option option" where
  "search_end data len floor_at position = do {
     signature \<leftarrow> v9x_zip_read32 data (unat position);
     found \<leftarrow> (if signature = V9X_ZIP_END_SIGNATURE then do {
         comment \<leftarrow> v9x_zip_read16 data (unat position + 20);
         Some (ucast comment = len - position - V9X_ZIP_END_FIXED) }
       else Some False);
     if found then Some (Some position)
     else if position = floor_at then Some None
     else search_end data len floor_at (position - 1) }"
  by pat_completeness auto

termination search_end
proof (relation "measure (\<lambda>(data, len, floor_at, position). unat (position - floor_at))", simp, goal_cases)
  case (1 data len floor_at position signature found)
  then have "position - floor_at \<noteq> 0" by simp
  then have "unat (position - floor_at - 1) < unat (position - floor_at)" by (rule measure_unat)
  then show ?case by (simp add: algebra_simps)
qed

declare search_end.simps [simp del]

text \<open>Opening. \<open>scratch_entry\<close> stands for the uninitialised local entry the directory check
  decodes into; only the status of that walk is used.\<close>

definition scratch_entry :: zip_entry where
  "scratch_entry = \<lparr>eindex = 0, eflags = 0, emethod = 0, name_length = 0, name_at = 0, ecrc32 = 0,
     compressed_size = 0, uncompressed_size = 0, local_offset = 0\<rparr>"

definition v9x_zip_open :: "zip option \<Rightarrow> bytes option \<Rightarrow> u32 \<Rightarrow> (zip option, zip_status, unit) outcome" where
  "v9x_zip_open zp dp len =
     (case (zp, dp) of
        (Some z, Some data) \<Rightarrow>
          let z = \<lparr>zdata = Some data, zlength = len, directory_offset = 0, directory_size = 0, entry_count = 0\<rparr> in
          if len < V9X_ZIP_END_FIXED then Some (Some z, Inl V9X_ZIP_NO_END)
          else
            let floor_at = (if len > V9X_ZIP_END_SEARCH then len - V9X_ZIP_END_SEARCH else 0) in do {
            found \<leftarrow> search_end data len floor_at (len - V9X_ZIP_END_FIXED);
            (case found of
               None \<Rightarrow> Some (Some z, Inl V9X_ZIP_NO_END)
             | Some position \<Rightarrow> let end_record = unat position in do {
                 entries_here \<leftarrow> v9x_zip_read16 data (end_record + 8);
                 entries_total \<leftarrow> v9x_zip_read16 data (end_record + 10);
                 dir_size \<leftarrow> v9x_zip_read32 data (end_record + 12);
                 dir_offset \<leftarrow> v9x_zip_read32 data (end_record + 16);
                 if entries_total = V9X_ZIP_U16_SATURATED \<or> entries_here = V9X_ZIP_U16_SATURATED \<or>
                    dir_size = V9X_ZIP_U32_SATURATED \<or> dir_offset = V9X_ZIP_U32_SATURATED
                 then Some (Some z, Inl V9X_ZIP_ZIP64)
                 else do {
                   disk_here \<leftarrow> v9x_zip_read16 data (end_record + 4);
                   disk_start \<leftarrow> v9x_zip_read16 data (end_record + 6);
                   if disk_here \<noteq> 0 \<or> disk_start \<noteq> 0 \<or> entries_here \<noteq> entries_total
                   then Some (Some z, Inl V9X_ZIP_MULTI_DISK)
                   else if dir_offset > position \<or> position - dir_offset < dir_size
                   then Some (Some z, Inl V9X_ZIP_BAD_END)
                   else
                     let z = z\<lparr>directory_offset := dir_offset, directory_size := dir_size,
                               entry_count := entries_total\<rparr> in
                     map_option (\<lambda>(entry, r). (Some z, r)) (v9x_zip_walk z (unat entries_total) scratch_entry) } }) }
      | _ \<Rightarrow> Some (zp, Inl V9X_ZIP_BAD_ARGUMENT))"

definition v9x_zip_entry_at ::
    "zip option \<Rightarrow> nat \<Rightarrow> zip_entry option \<Rightarrow> (zip_entry option, zip_status, unit) outcome" where
  "v9x_zip_entry_at zp index ep =
     (case (zp, ep) of
        (Some z, Some entry) \<Rightarrow>
          if zdata z = None then Some (ep, Inl V9X_ZIP_BAD_ARGUMENT)
          else if index \<ge> unat (entry_count z) then Some (ep, Inl V9X_ZIP_BAD_INDEX)
          else map_option (\<lambda>(entry, r). (Some entry, r)) (v9x_zip_walk z index entry)
      | _ \<Rightarrow> Some (ep, Inl V9X_ZIP_BAD_ARGUMENT))"

subsection \<open>Safe names\<close>

definition zip_device_names :: "bytes list" where
  "zip_device_names = [asc ''CON'', asc ''PRN'', asc ''AUX'', asc ''NUL'', asc ''CLOCK$'']"

text \<open>The stem: the index of the first dot, or the length.\<close>

fun stem_from :: "bytes \<Rightarrow> nat \<Rightarrow> nat \<Rightarrow> nat option" where
  "stem_from name stem 0 = Some stem"
| "stem_from name stem (Suc n) = do {
     c \<leftarrow> rd name stem;
     if c \<noteq> 0x2E then stem_from name (stem + 1) n else Some stem }"

text \<open>One device name against the stem: the loop stops at the stem's end, at the device's terminator
  or at the first difference; the device is named when both ends were reached.\<close>

fun device_from :: "bytes \<Rightarrow> nat \<Rightarrow> bytes \<Rightarrow> nat \<Rightarrow> nat \<Rightarrow> bool option" where
  "device_from name stem device k 0 = Some (k = stem \<and> k = length device)"
| "device_from name stem device k (Suc n) =
     (if k < stem \<and> k < length device then do {
        c \<leftarrow> rd name k;
        if v9x_zip_ascii_upper c = device ! k then device_from name stem device (k + 1) n
        else Some (k = stem \<and> k = length device) }
      else Some (k = stem \<and> k = length device))"

fun any_device :: "bytes \<Rightarrow> nat \<Rightarrow> bytes list \<Rightarrow> bool option" where
  "any_device name stem [] = Some False"
| "any_device name stem (device # devices) = do {
     hit \<leftarrow> device_from name stem device 0 (Suc stem);
     if hit then Some True else any_device name stem devices }"

definition v9x_zip_is_device :: "bytes \<Rightarrow> nat \<Rightarrow> bool option" where
  "v9x_zip_is_device name len = do {
     stem \<leftarrow> stem_from name 0 len;
     fixed \<leftarrow> any_device name stem zip_device_names;
     if fixed then Some True
     else if stem \<noteq> 4 then Some False
     else do {
       c \<leftarrow> rd name 3;
       if c < 0x31 \<or> c > 0x39 then Some False
       else do {
         com \<leftarrow> v9x_zip_same_name name 0 (asc ''COM'') 0 3;
         if com then Some True else v9x_zip_same_name name 0 (asc ''LPT'') 0 3 } } }"

text \<open>The characters a name may not hold: slashes, colon, wildcards, quotes and redirections.\<close>

definition zip_forbidden :: "u8 list" where
  "zip_forbidden = [0x2F, 0x5C, 0x3A, 0x2A, 0x3F, 0x22, 0x3C, 0x3E, 0x7C]"

fun safe_from :: "bytes \<Rightarrow> nat \<Rightarrow> nat \<Rightarrow> nat \<Rightarrow> bool option" where
  "safe_from name len i 0 = Some True"
| "safe_from name len i (Suc n) = do {
     c \<leftarrow> rd name i;
     if c \<le> 0x20 \<or> c > 0x7E then Some False
     else if c \<in> set zip_forbidden then Some False
     else do {
       dots \<leftarrow> (if c = 0x2E \<and> i + 1 < len then do { d \<leftarrow> rd name (i + 1); Some (d = 0x2E) }
               else Some False);
       if dots then Some False else safe_from name len (i + 1) n } }"

definition v9x_zip_name_is_safe :: "bytes option \<Rightarrow> nat \<Rightarrow> nat \<Rightarrow> bool option" where
  "v9x_zip_name_is_safe np len max_length =
     (case np of
        None \<Rightarrow> Some False
      | Some name \<Rightarrow>
          if len = 0 \<or> len > max_length then Some False
          else do {
            ok \<leftarrow> safe_from name len 0 len;
            if \<not> ok then Some False
            else do {
              c \<leftarrow> rd name (len - 1);
              if c = 0x2E then Some False
              else map_option Not (v9x_zip_is_device name len) } })"

subsection \<open>Finding a member\<close>

text \<open>Measuring the wanted name, at most one past the limit; the terminator follows the bytes.\<close>

fun measure_name :: "bytes \<Rightarrow> nat \<Rightarrow> nat \<Rightarrow> nat" where
  "measure_name wanted len 0 = len"
| "measure_name wanted len (Suc n) =
     (if len \<le> V9X_ZIP_NAME_MAX_8_3 \<and> len < length wanted then measure_name wanted (len + 1) n else len)"

text \<open>The loop over the entries: \<open>found\<close> is the entry matched so far (\<open>matches\<close> of them).\<close>

fun find_from ::
    "zip \<Rightarrow> bytes \<Rightarrow> nat \<Rightarrow> nat \<Rightarrow> nat \<Rightarrow> nat \<Rightarrow> zip_entry \<Rightarrow> zip_entry \<Rightarrow>
     (zip_entry, zip_status, unit) outcome" where
  "find_from z wanted len index 0 matches candidate entry =
     (if matches = 0 then Some (entry, Inl V9X_ZIP_NOT_FOUND) else Some (entry, Inr ()))"
| "find_from z wanted len index (Suc n) matches candidate entry =
     (case v9x_zip_walk z index candidate of
        None \<Rightarrow> None
      | Some (candidate, Inl status) \<Rightarrow> Some (entry, Inl status)
      | Some (candidate, Inr _) \<Rightarrow> do {
          same \<leftarrow> (if unat (name_length candidate) \<noteq> len then Some False
                  else v9x_zip_same_name (zip_bytes z) (name_at candidate) wanted 0 len);
          if \<not> same then find_from z wanted len (index + 1) n matches candidate entry
          else if matches + 1 > 1 then Some (entry, Inl V9X_ZIP_DUPLICATE)
          else find_from z wanted len (index + 1) n (matches + 1) candidate candidate })"

definition v9x_zip_find ::
    "zip option \<Rightarrow> bytes option \<Rightarrow> zip_entry option \<Rightarrow> (zip_entry option, zip_status, unit) outcome" where
  "v9x_zip_find zp np ep =
     (case (zp, np, ep) of
        (Some z, Some wanted, Some entry) \<Rightarrow>
          if zdata z = None then Some (ep, Inl V9X_ZIP_BAD_ARGUMENT)
          else
            let len = measure_name wanted 0 (Suc V9X_ZIP_NAME_MAX_8_3) in do {
            safe \<leftarrow> v9x_zip_name_is_safe (Some wanted) len V9X_ZIP_NAME_MAX_8_3;
            if \<not> safe then Some (ep, Inl V9X_ZIP_UNSAFE_NAME)
            else map_option (\<lambda>(entry, r). (Some entry, r))
              (find_from z wanted len 0 (unat (entry_count z)) 0 scratch_entry entry) }
      | _ \<Rightarrow> Some (ep, Inl V9X_ZIP_BAD_ARGUMENT))"

subsection \<open>Extracting a member\<close>

text \<open>What an extraction leaves behind: the decoder's scratch state, the output buffer and the value
  of \<^verbatim>\<open>*output_length\<close> (when that pointer is null nothing is stored and the value is not used).\<close>

record zip_target =
  zstate :: "inflate_state option"
  zoutput :: "bytes option"
  zwritten :: nat

text \<open>The checks of the local header, up to the position of the data.\<close>

definition local_data :: "zip \<Rightarrow> zip_entry \<Rightarrow> (zip_status + u32) option" where
  "local_data z entry =
     (if local_offset entry > directory_offset z then Some (Inl V9X_ZIP_BAD_LOCAL)
      else
        let local_room = directory_offset z - local_offset entry in
        if local_room < V9X_ZIP_LOCAL_FIXED then Some (Inl V9X_ZIP_BAD_LOCAL)
        else
          let data = zip_bytes z; local_at = unat (local_offset entry) in do {
          signature \<leftarrow> v9x_zip_read32 data local_at;
          if signature \<noteq> V9X_ZIP_LOCAL_SIGNATURE then Some (Inl V9X_ZIP_BAD_LOCAL)
          else do {
            name_len \<leftarrow> v9x_zip_read16 data (local_at + 26);
            extra_len \<leftarrow> v9x_zip_read16 data (local_at + 28);
            let header_length = V9X_ZIP_LOCAL_FIXED + ucast name_len + ucast extra_len;
            if local_room < header_length then Some (Inl V9X_ZIP_BAD_LOCAL)
            else do {
              flags \<leftarrow> v9x_zip_read16 data (local_at + 6);
              if flags AND V9X_ZIP_FLAGS_ENCRYPTED \<noteq> 0 then Some (Inl V9X_ZIP_ENCRYPTED)
              else do {
                method \<leftarrow> v9x_zip_read16 data (local_at + 8);
                if method \<noteq> emethod entry then Some (Inl V9X_ZIP_BAD_LOCAL)
                else if name_len \<noteq> name_length entry then Some (Inl V9X_ZIP_NAME_MISMATCH)
                else do {
                  local_name \<leftarrow> rds data (local_at + unat V9X_ZIP_LOCAL_FIXED) (unat (name_length entry));
                  entry_name \<leftarrow> rds data (name_at entry) (unat (name_length entry));
                  if local_name \<noteq> entry_name then Some (Inl V9X_ZIP_NAME_MISMATCH)
                  else if local_room - header_length < compressed_size entry
                  then Some (Inl V9X_ZIP_BAD_LOCAL)
                  else Some (Inr (local_offset entry + header_length)) } } } } })"

text \<open>The data itself, by method.\<close>

definition extract_data ::
    "zip \<Rightarrow> zip_entry \<Rightarrow> u32 \<Rightarrow> zip_target \<Rightarrow> (zip_target, zip_status, unit) outcome" where
  "extract_data z entry data_offset t =
     (if emethod entry = V9X_ZIP_METHOD_STORED then
        (if compressed_size entry \<noteq> uncompressed_size entry then Some (t, Inl V9X_ZIP_BAD_SIZE)
         else do {
           copied \<leftarrow> rds (zip_bytes z) (unat data_offset) (unat (compressed_size entry));
           out \<leftarrow> wrs (case_option [] id (zoutput t)) 0 copied;
           Some (t\<lparr>zoutput := map_option (\<lambda>_. out) (zoutput t),
                   zwritten := unat (compressed_size entry)\<rparr>, Inr ()) })
      else do {
        (status, state, out_length) \<leftarrow>
          v9x_inflate_with_state (zstate t) (Some (drop (unat data_offset) (zip_bytes z)))
            (unat (compressed_size entry)) (zoutput t) (unat (uncompressed_size entry))
            (Some (zwritten t));
        let t = t\<lparr>zstate := state, zoutput := map_option (\<lambda>_. case_option [] output_bytes state) (zoutput t),
                  zwritten := case_option 0 id out_length\<rparr>;
        if status = V9X_INFLATE_OUTPUT_FULL then Some (t, Inl V9X_ZIP_BAD_SIZE)
        else if status \<noteq> V9X_INFLATE_OK then Some (t, Inl V9X_ZIP_BAD_DATA)
        else if zwritten t \<noteq> unat (uncompressed_size entry) then Some (t, Inl V9X_ZIP_BAD_SIZE)
        else Some (t, Inr ()) })"

text \<open>The data, then its checksum.\<close>

definition extract_checked :: "zip \<Rightarrow> zip_entry \<Rightarrow> u32 \<Rightarrow> zip_target \<Rightarrow> (zip_target, zip_status, unit) outcome" where
  "extract_checked z entry data_offset t =
     andthen (extract_data z entry data_offset t) (\<lambda>_ t. do {
       out \<leftarrow> rds (case_option [] id (zoutput t)) 0 (zwritten t);
       if v9x_crc32 out \<noteq> ecrc32 entry then Some (t, Inl V9X_ZIP_BAD_CRC)
       else Some (t, Inr ()) })"

text \<open>Everything \<open>v9x_zip_extract\<close> does once it has the entry.\<close>

definition extract_entry :: "zip \<Rightarrow> zip_entry \<Rightarrow> u32 \<Rightarrow> zip_target \<Rightarrow> (zip_target, zip_status, unit) outcome" where
  "extract_entry z entry out_capacity t =
     (if eflags entry AND V9X_ZIP_FLAGS_ENCRYPTED \<noteq> 0 then Some (t, Inl V9X_ZIP_ENCRYPTED)
      else if emethod entry \<noteq> V9X_ZIP_METHOD_STORED \<and> emethod entry \<noteq> V9X_ZIP_METHOD_DEFLATE
      then Some (t, Inl V9X_ZIP_BAD_METHOD)
      else if out_capacity < uncompressed_size entry then Some (t, Inl V9X_ZIP_OUTPUT_FULL)
      else do {
        found \<leftarrow> local_data z entry;
        (case found of
           Inl status \<Rightarrow> Some (t, Inl status)
         | Inr data_offset \<Rightarrow> extract_checked z entry data_offset t) })"

definition v9x_zip_extract ::
    "zip option \<Rightarrow> nat \<Rightarrow> inflate_state option \<Rightarrow> bytes option \<Rightarrow> u32 \<Rightarrow> nat option \<Rightarrow>
     (zip_target, zip_status, unit) outcome" where
  "v9x_zip_extract zp index state out out_capacity out_length =
     (let t = \<lparr>zstate = state, zoutput = out, zwritten = 0\<rparr> in
      case (out_length, zp) of
        (Some _, Some z) \<Rightarrow>
          if state = None \<or> out = None \<and> out_capacity \<noteq> 0 then Some (t, Inl V9X_ZIP_BAD_ARGUMENT)
          else
            (case v9x_zip_entry_at zp index (Some scratch_entry) of
               None \<Rightarrow> None
             | Some (_, Inl status) \<Rightarrow> Some (t, Inl status)
             | Some (ep, Inr _) \<Rightarrow> extract_entry z (case_option scratch_entry id ep) out_capacity t)
      | _ \<Rightarrow> Some (t, Inl V9X_ZIP_BAD_ARGUMENT))"

definition v9x_zip_extract_named ::
    "zip option \<Rightarrow> bytes option \<Rightarrow> inflate_state option \<Rightarrow> bytes option \<Rightarrow> u32 \<Rightarrow> nat option \<Rightarrow>
     (zip_target, zip_status, unit) outcome" where
  "v9x_zip_extract_named zp np state out out_capacity out_length =
     (let t = \<lparr>zstate = state, zoutput = out, zwritten = 0\<rparr> in
      case out_length of
        None \<Rightarrow> Some (t, Inl V9X_ZIP_BAD_ARGUMENT)
      | Some _ \<Rightarrow>
          (case v9x_zip_find zp np (Some scratch_entry) of
             None \<Rightarrow> None
           | Some (_, Inl status) \<Rightarrow> Some (t, Inl status)
           | Some (ep, Inr _) \<Rightarrow>
               v9x_zip_extract zp (eindex (case_option scratch_entry id ep)) state out out_capacity
                 out_length))"

end
