(* ===== verification/ZipProps.thy ===== *)
theory ZipProps
  imports ZipRead
begin

section \<open>ZipProps: what reading an archive promises\<close>

text \<open>
  Nothing is read outside the archive and nothing written outside the output buffer, whatever the
  bytes are; a successful extraction has the declared size and checksum; names are checked; and a
  name found is the name of exactly one entry.
\<close>

lemma unat_ucast_u16_u32 [simp]: "unat (ucast w :: u32) = unat w" for w :: u16
proof -
  have "unat w < 2 ^ LENGTH(16)" by (rule unsigned_less)
  then have "unat w < 2 ^ 32" by simp
  then show ?thesis by (simp add: unsigned_ucast_eq take_bit_nat_eq_self)
qed

lemma unat_u16_less: "unat w < 65536" for w :: u16
proof -
  have "unat w < 2 ^ LENGTH(16)" by (rule unsigned_less)
  then show ?thesis by simp
qed

lemma v9x_zip_read16_Some: "p + 2 \<le> length data \<Longrightarrow>
    v9x_zip_read16 data p = Some (u16_of (data ! p) (data ! (p + 1)))"
  by (simp add: v9x_zip_read16_def rd_def u16_of_def)

lemma v9x_zip_read32_Some: "p + 4 \<le> length data \<Longrightarrow>
    v9x_zip_read32 data p =
      Some (u32_of (data ! p) (data ! (p + 1)) (data ! (p + 2)) (data ! (p + 3)))"
  by (simp add: v9x_zip_read32_def rd_def u32_of_def)

text \<open>Fields for the specification: the value at a place of the archive.\<close>

definition field16 :: "bytes \<Rightarrow> nat \<Rightarrow> u16" where
  "field16 data p = u16_of (data ! p) (data ! (p + 1))"

definition field32 :: "bytes \<Rightarrow> nat \<Rightarrow> u32" where
  "field32 data p = u32_of (data ! p) (data ! (p + 1)) (data ! (p + 2)) (data ! (p + 3))"

lemmas read_fields = v9x_zip_read16_Some [folded field16_def] v9x_zip_read32_Some [folded field32_def]

subsection \<open>The central directory\<close>

text \<open>An archive that opened: the directory lies inside the data, and the sum of its offset and size
  does not wrap.\<close>

definition zip_ok :: "zip \<Rightarrow> bool" where
  "zip_ok z \<longleftrightarrow> zdata z \<noteq> None \<and>
     unat (directory_offset z) + unat (directory_size z) \<le> length (zip_bytes z) \<and>
     length (zip_bytes z) < 4294967296"

definition entry_ok :: "zip \<Rightarrow> zip_entry \<Rightarrow> bool" where
  "entry_ok z e \<longleftrightarrow> name_at e + unat (name_length e) \<le> length (zip_bytes z)"

definition central_entry :: "bytes \<Rightarrow> nat \<Rightarrow> nat \<Rightarrow> zip_entry" where
  "central_entry data p index =
     \<lparr>eindex = index, eflags = field16 data (p + 8), emethod = field16 data (p + 10),
      name_length = field16 data (p + 28), name_at = p + 46, ecrc32 = field32 data (p + 16),
      compressed_size = field32 data (p + 20), uncompressed_size = field32 data (p + 24),
      local_offset = field32 data (p + 42)\<rparr>"

definition central_size :: "bytes \<Rightarrow> nat \<Rightarrow> nat" where
  "central_size data p =
     46 + unat (field16 data (p + 28)) + unat (field16 data (p + 30)) + unat (field16 data (p + 32))"

lemma v9x_zip_read_central_spec:
  assumes "unat end_at \<le> length (zip_bytes z)"
  shows "outcome (v9x_zip_read_central z offset end_at index entry) (\<lambda>_ _. True)
    (\<lambda>next_offset e. e = central_entry (zip_bytes z) (unat offset) index \<and>
       unat next_offset = unat offset + central_size (zip_bytes z) (unat offset) \<and>
       unat next_offset \<le> unat end_at \<and> entry_ok z e \<and>
       field32 (zip_bytes z) (unat offset) = V9X_ZIP_CENTRAL_SIGNATURE)"
proof (cases "offset > end_at \<or> end_at - offset < V9X_ZIP_CENTRAL_FIXED")
  case True
  then show ?thesis by (simp add: v9x_zip_read_central_def)
next
  case False
  let ?d = "zip_bytes z" and ?p = "unat offset"
  have le: "offset \<le> end_at" using False by (simp add: not_less)
  have diff: "unat (end_at - offset) = unat end_at - ?p" by (rule u32_sub [OF le])
  have room: "?p + 46 \<le> unat end_at"
    using False le diff by (auto simp: zip_consts word_less_nat_alt word_le_nat_alt)
  define size :: u32 where "size = V9X_ZIP_CENTRAL_FIXED + ucast (field16 ?d (?p + 28)) +
    ucast (field16 ?d (?p + 30)) + ucast (field16 ?d (?p + 32))"
  have size: "unat size = central_size ?d ?p"
    using unat_u16_less [of "field16 ?d (?p + 28)"] unat_u16_less [of "field16 ?d (?p + 30)"]
      unat_u16_less [of "field16 ?d (?p + 32)"]
    by (simp add: size_def central_size_def zip_consts unat_word_ariths)
  have fields: "v9x_zip_read32 ?d ?p = Some (field32 ?d ?p)"
    "v9x_zip_read16 ?d (?p + 28) = Some (field16 ?d (?p + 28))"
    "v9x_zip_read16 ?d (?p + 30) = Some (field16 ?d (?p + 30))"
    "v9x_zip_read16 ?d (?p + 32) = Some (field16 ?d (?p + 32))"
    "v9x_zip_read16 ?d (?p + 8) = Some (field16 ?d (?p + 8))"
    "v9x_zip_read16 ?d (?p + 10) = Some (field16 ?d (?p + 10))"
    "v9x_zip_read32 ?d (?p + 16) = Some (field32 ?d (?p + 16))"
    "v9x_zip_read32 ?d (?p + 20) = Some (field32 ?d (?p + 20))"
    "v9x_zip_read32 ?d (?p + 24) = Some (field32 ?d (?p + 24))"
    "v9x_zip_read32 ?d (?p + 42) = Some (field32 ?d (?p + 42))"
    "v9x_zip_read16 ?d (?p + 34) = Some (field16 ?d (?p + 34))"
    using room assms by (simp_all add: read_fields)
  have eq: "v9x_zip_read_central z offset end_at index entry =
    (if field32 ?d ?p \<noteq> V9X_ZIP_CENTRAL_SIGNATURE then Some (entry, Inl V9X_ZIP_BAD_CENTRAL)
     else if end_at - offset < size then Some (entry, Inl V9X_ZIP_BAD_CENTRAL)
     else if field16 ?d (?p + 34) \<noteq> 0 then Some (central_entry ?d ?p index, Inl V9X_ZIP_MULTI_DISK)
     else if field32 ?d (?p + 20) = V9X_ZIP_U32_SATURATED \<or> field32 ?d (?p + 24) = V9X_ZIP_U32_SATURATED \<or>
        field32 ?d (?p + 42) = V9X_ZIP_U32_SATURATED
     then Some (central_entry ?d ?p index, Inl V9X_ZIP_ZIP64)
     else Some (central_entry ?d ?p index, Inr (offset + size)))"
    unfolding v9x_zip_read_central_def Let_def
    using False by (simp add: fields size_def central_entry_def V9X_ZIP_CENTRAL_FIXED_def cong: if_cong)
  show ?thesis
  proof (cases "end_at - offset < size")
    case True
    then show ?thesis by (simp add: eq)
  next
    case fits: False
    then have sum: "?p + central_size ?d ?p \<le> unat end_at"
      using diff size room by (simp add: word_less_nat_alt)
    then have "unat (offset + size) = ?p + central_size ?d ?p"
      using size u32_less [of end_at] by (subst u32_add) linarith+
    moreover have "entry_ok z (central_entry ?d ?p index)"
      using sum assms by (simp add: entry_ok_def central_entry_def central_size_def)
    ultimately show ?thesis using sum by (simp add: eq)
  qed
qed

text \<open>The specification of a walk: the place of each record follows from the sizes of those before.\<close>

fun record_place :: "bytes \<Rightarrow> nat \<Rightarrow> nat \<Rightarrow> nat" where
  "record_place data start 0 = start"
| "record_place data start (Suc n) =
     record_place data (start + central_size data start) n"

lemma walk_from_spec:
  assumes "unat end_at \<le> length (zip_bytes z)" "i \<le> index"
  shows "outcome (walk_from z index end_at offset i n entry) (\<lambda>_ _. True)
    (\<lambda>_ e. index < i + n \<longrightarrow>
       e = central_entry (zip_bytes z) (record_place (zip_bytes z) (unat offset) (index - i)) index \<and>
       entry_ok z e)"
  using assms(2)
proof (induction n arbitrary: offset i entry)
  case 0
  then show ?case by simp
next
  case (Suc n)
  show ?case
    unfolding walk_from.simps
  proof (rule outcome_andthen [OF outcome_mono [OF v9x_zip_read_central_spec [OF assms(1)]]], simp, assumption)
    fix next_offset :: u32 and e
    assume e: "e = central_entry (zip_bytes z) (unat offset) i \<and>
       unat next_offset = unat offset + central_size (zip_bytes z) (unat offset) \<and>
       unat next_offset \<le> unat end_at \<and> entry_ok z e \<and>
       field32 (zip_bytes z) (unat offset) = V9X_ZIP_CENTRAL_SIGNATURE"
    show "outcome (if i = index then Some (e, Inr ()) else walk_from z index end_at next_offset (i + 1) n e)
      (\<lambda>_ _. True)
      (\<lambda>_ e. index < i + Suc n \<longrightarrow>
       e = central_entry (zip_bytes z) (record_place (zip_bytes z) (unat offset) (index - i)) index \<and>
       entry_ok z e)"
    proof (cases "i = index")
      case True
      then show ?thesis using e by auto
    next
      case False
      then have i: "i + 1 \<le> index" using Suc.prems by simp
      have "index - i = Suc (index - (i + 1))" using i by simp
      then have "record_place (zip_bytes z) (unat offset) (index - i) =
          record_place (zip_bytes z) (unat next_offset) (index - (i + 1))"
        using e by simp
      then show ?thesis using Suc.IH [OF i, of next_offset e] False by simp
    qed
  qed
qed

lemma v9x_zip_read_central_status:
  "v9x_zip_read_central z offset end_at index entry = Some (e, Inl status) \<Longrightarrow>
   status \<in> {V9X_ZIP_BAD_CENTRAL, V9X_ZIP_MULTI_DISK, V9X_ZIP_ZIP64}"
  unfolding v9x_zip_read_central_def by (auto simp: Let_def split: if_splits Option.bind_splits)

lemma v9x_zip_walk_status:
  "v9x_zip_walk z index entry = Some (e, Inl status) \<Longrightarrow>
   status \<in> {V9X_ZIP_BAD_CENTRAL, V9X_ZIP_MULTI_DISK, V9X_ZIP_ZIP64}"
proof -
  have "walk_from z index end_at offset i n entry = Some (e, Inl status) \<Longrightarrow>
      status \<in> {V9X_ZIP_BAD_CENTRAL, V9X_ZIP_MULTI_DISK, V9X_ZIP_ZIP64}" for end_at offset i n entry
  proof (induction n arbitrary: offset i entry)
    case (Suc n)
    then show ?case
      by (auto simp: andthen_def split: option.splits sum.splits if_splits
          dest: v9x_zip_read_central_status)
  qed (simp split: if_splits)
  then show "v9x_zip_walk z index entry = Some (e, Inl status) \<Longrightarrow>
      status \<in> {V9X_ZIP_BAD_CENTRAL, V9X_ZIP_MULTI_DISK, V9X_ZIP_ZIP64}"
    unfolding v9x_zip_walk_def by blast
qed

lemma zip_ok_end:
  assumes "zip_ok z"
  shows "unat (directory_offset z + directory_size z) =
      unat (directory_offset z) + unat (directory_size z)"
    "unat (directory_offset z + directory_size z) \<le> length (zip_bytes z)"
  using assms by (simp_all add: zip_ok_def u32_add)

definition zip_entry_of :: "zip \<Rightarrow> nat \<Rightarrow> zip_entry" where
  "zip_entry_of z index = central_entry (zip_bytes z)
     (record_place (zip_bytes z) (unat (directory_offset z)) index) index"

lemma v9x_zip_walk_spec:
  assumes "zip_ok z"
  shows "outcome (v9x_zip_walk z index entry) (\<lambda>_ _. True)
    (\<lambda>_ e. index < unat (entry_count z) \<longrightarrow> e = zip_entry_of z index \<and> entry_ok z e)"
  using walk_from_spec [OF zip_ok_end(2) [OF assms], of 0 index "directory_offset z" "unat (entry_count z)" entry]
  by (simp add: v9x_zip_walk_def zip_entry_of_def)

subsection \<open>Opening\<close>

lemma search_end_spec:
  assumes "floor_at \<le> position" "unat position + 22 \<le> length data"
  shows "\<exists>r. search_end data len floor_at position = Some r \<and>
    (\<forall>p. r = Some p \<longrightarrow> floor_at \<le> p \<and> p \<le> position)"
  using assms
proof (induction data len floor_at position rule: search_end.induct)
  case (1 data len floor_at position)
  have sig: "v9x_zip_read32 data (unat position) = Some (field32 data (unat position))"
    and cmt: "v9x_zip_read16 data (unat position + 20) = Some (field16 data (unat position + 20))"
    using 1(3) by (simp_all add: read_fields)
  define found where "found \<longleftrightarrow> field32 data (unat position) = V9X_ZIP_END_SIGNATURE \<and>
    ucast (field16 data (unat position + 20)) = len - position - V9X_ZIP_END_FIXED"
  have found: "(if field32 data (unat position) = V9X_ZIP_END_SIGNATURE then do {
         comment \<leftarrow> v9x_zip_read16 data (unat position + 20);
         Some (ucast comment = len - position - V9X_ZIP_END_FIXED) }
       else Some False) = Some found"
    by (simp add: cmt found_def)
  have step: "search_end data len floor_at position =
      (if found then Some (Some position) else if position = floor_at then Some None
       else search_end data len floor_at (position - 1))"
    by (subst search_end.simps) (simp add: sig found)
  show ?case
  proof (cases "found \<or> position = floor_at")
    case True
    then show ?thesis using 1(2) by (auto simp: step)
  next
    case False
    then have "floor_at < position" using 1(2) by (auto simp: order.strict_iff_order)
    then have lt_nat: "unat floor_at < unat position" by (simp add: word_less_nat_alt)
    then have "position \<noteq> 0" by auto
    then have "unat (position - 1) = unat position - 1" by (rule unat_minus_one)
    then have ge: "floor_at \<le> position - 1" and lt: "position - 1 < position"
      using lt_nat by (auto simp: word_le_nat_alt word_less_nat_alt)
    have "\<exists>r. search_end data len floor_at (position - 1) = Some r \<and>
        (\<forall>p. r = Some p \<longrightarrow> floor_at \<le> p \<and> p \<le> position - 1)"
      by (rule 1(1) [OF sig found]) (use False ge lt 1(3) in \<open>auto simp: word_less_nat_alt\<close>)
    then show ?thesis using False lt by (auto simp: step intro: order_trans [OF _ less_imp_le])
  qed
qed

lemma v9x_zip_open_spec:
  assumes "unat len \<le> length data" "length data < 4294967296"
  shows "outcome (v9x_zip_open (Some z) (Some data) len) (\<lambda>_ _. True)
    (\<lambda>_ zp. \<exists>z'. zp = Some z' \<and> zip_ok z' \<and> zip_bytes z' = data \<and> zlength z' = len)"
proof (cases "len < V9X_ZIP_END_FIXED")
  case True
  then show ?thesis by (simp add: v9x_zip_open_def Let_def)
next
  case False
  define floor_at where "floor_at = (if len > V9X_ZIP_END_SEARCH then len - V9X_ZIP_END_SEARCH else 0)"
  have len: "unat (len - V9X_ZIP_END_FIXED) = unat len - 22" "22 \<le> unat len"
    using False by (auto simp: V9X_ZIP_END_FIXED_def u32_sub word_less_nat_alt not_less word_le_nat_alt)
  have "floor_at \<le> len - V9X_ZIP_END_FIXED"
  proof (cases "len > V9X_ZIP_END_SEARCH")
    case True
    then have "unat (len - V9X_ZIP_END_SEARCH) = unat len - 65557"
      by (simp add: V9X_ZIP_END_SEARCH_def u32_sub)
    then show ?thesis using True len by (simp add: floor_at_def word_le_nat_alt)
  qed (simp add: floor_at_def)
  then obtain r where r: "search_end data len floor_at (len - V9X_ZIP_END_FIXED) = Some r"
    and place: "\<And>p. r = Some p \<Longrightarrow> p \<le> len - V9X_ZIP_END_FIXED"
    using search_end_spec [of floor_at "len - V9X_ZIP_END_FIXED" data len] len assms by auto
  show ?thesis
  proof (cases r)
    case None
    then show ?thesis using False r by (simp add: v9x_zip_open_def Let_def floor_at_def)
  next
    case (Some p)
    have p: "unat p + 22 \<le> length data"
      using place [OF Some] len assms(1) by (simp add: word_le_nat_alt)
    let ?n = "field16 data (unat p + 10)" and ?s = "field32 data (unat p + 12)"
      and ?o = "field32 data (unat p + 16)"
    let ?z = "\<lparr>zdata = Some data, zlength = len, directory_offset = 0, directory_size = 0, entry_count = 0\<rparr>"
    let ?z' = "?z\<lparr>directory_offset := ?o, directory_size := ?s, entry_count := ?n\<rparr>"
    have fields: "v9x_zip_read16 data (unat p + 8) = Some (field16 data (unat p + 8))"
      "v9x_zip_read16 data (unat p + 10) = Some ?n" "v9x_zip_read32 data (unat p + 12) = Some ?s"
      "v9x_zip_read32 data (unat p + 16) = Some ?o"
      "v9x_zip_read16 data (unat p + 4) = Some (field16 data (unat p + 4))"
      "v9x_zip_read16 data (unat p + 6) = Some (field16 data (unat p + 6))"
      using p by (simp_all add: read_fields)
    have eq: "v9x_zip_open (Some z) (Some data) len =
      (if ?n = V9X_ZIP_U16_SATURATED \<or> field16 data (unat p + 8) = V9X_ZIP_U16_SATURATED \<or>
          ?s = V9X_ZIP_U32_SATURATED \<or> ?o = V9X_ZIP_U32_SATURATED
       then Some (Some ?z, Inl V9X_ZIP_ZIP64)
       else if field16 data (unat p + 4) \<noteq> 0 \<or> field16 data (unat p + 6) \<noteq> 0 \<or>
          field16 data (unat p + 8) \<noteq> ?n then Some (Some ?z, Inl V9X_ZIP_MULTI_DISK)
       else if ?o > p \<or> p - ?o < ?s then Some (Some ?z, Inl V9X_ZIP_BAD_END)
       else map_option (\<lambda>(entry, r). (Some ?z', r)) (v9x_zip_walk ?z' (unat ?n) scratch_entry))"
      using False r Some unfolding v9x_zip_open_def floor_at_def
      by (simp add: Let_def fields cong: if_cong)
    show ?thesis
    proof (cases "?o > p \<or> p - ?o < ?s")
      case True
      then show ?thesis by (simp add: eq)
    next
      case inside: False
      then have "unat (p - ?o) = unat p - unat ?o" "unat ?o \<le> unat p"
        by (auto simp: u32_sub not_less word_le_nat_alt)
      then have ok: "zip_ok ?z'"
        using inside p assms(2)
        by (simp add: zip_ok_def zip_bytes_def not_less word_le_nat_alt)
      show ?thesis
        using v9x_zip_walk_spec [OF ok, of "unat ?n" scratch_entry] ok
        by (auto simp: eq zip_bytes_def elim!: outcome_cases)
    qed
  qed
qed

subsection \<open>The local header and the data\<close>

lemma local_data_spec:
  assumes "zip_ok z" "entry_ok z e"
  shows "\<exists>r. local_data z e = Some r \<and>
    (\<forall>at. r = Inr at \<longrightarrow> unat at + unat (compressed_size e) \<le> unat (directory_offset z))"
proof (cases "local_offset e > directory_offset z \<or>
    directory_offset z - local_offset e < V9X_ZIP_LOCAL_FIXED")
  case True
  then show ?thesis by (auto simp: local_data_def Let_def)
next
  case False
  let ?d = "zip_bytes z" and ?p = "unat (local_offset e)" and ?room = "directory_offset z - local_offset e"
  have room: "unat ?room = unat (directory_offset z) - ?p" "?p \<le> unat (directory_offset z)"
    "30 \<le> unat ?room"
    using False by (auto simp: u32_sub not_less word_le_nat_alt V9X_ZIP_LOCAL_FIXED_def)
  have dir: "unat (directory_offset z) \<le> length ?d" using assms(1) by (simp add: zip_ok_def)
  define name_len where "name_len = field16 ?d (?p + 26)"
  define size :: u32 where "size = V9X_ZIP_LOCAL_FIXED + ucast name_len + ucast (field16 ?d (?p + 28))"
  have size: "unat size = 30 + unat name_len + unat (field16 ?d (?p + 28))"
    using unat_u16_less [of name_len] unat_u16_less [of "field16 ?d (?p + 28)"]
    by (simp add: size_def V9X_ZIP_LOCAL_FIXED_def unat_word_ariths)
  have fields: "v9x_zip_read32 ?d ?p = Some (field32 ?d ?p)"
    "v9x_zip_read16 ?d (?p + 26) = Some name_len"
    "v9x_zip_read16 ?d (?p + 28) = Some (field16 ?d (?p + 28))"
    "v9x_zip_read16 ?d (?p + 6) = Some (field16 ?d (?p + 6))"
    "v9x_zip_read16 ?d (?p + 8) = Some (field16 ?d (?p + 8))"
    using room dir by (simp_all add: read_fields name_len_def)
  define n where "n = unat (name_length e)"
  have name2: "rds ?d (name_at e) n = Some (take n (drop (name_at e) ?d))"
    using assms(2) by (simp add: rds_Some entry_ok_def n_def)
  define tail where "tail = do {
      local_name \<leftarrow> rds ?d (?p + unat V9X_ZIP_LOCAL_FIXED) n;
      entry_name \<leftarrow> rds ?d (name_at e) n;
      if local_name \<noteq> entry_name then Some (Inl V9X_ZIP_NAME_MISMATCH)
      else if ?room - size < compressed_size e then Some (Inl V9X_ZIP_BAD_LOCAL)
      else Some (Inr (local_offset e + size)) }"
  have eq: "local_data z e =
    (if field32 ?d ?p \<noteq> V9X_ZIP_LOCAL_SIGNATURE then Some (Inl V9X_ZIP_BAD_LOCAL)
     else if ?room < size then Some (Inl V9X_ZIP_BAD_LOCAL)
     else if field16 ?d (?p + 6) AND V9X_ZIP_FLAGS_ENCRYPTED \<noteq> 0 then Some (Inl V9X_ZIP_ENCRYPTED)
     else if field16 ?d (?p + 8) \<noteq> emethod e then Some (Inl V9X_ZIP_BAD_LOCAL)
     else if name_len \<noteq> name_length e then Some (Inl V9X_ZIP_NAME_MISMATCH)
     else tail)"
    using False unfolding local_data_def tail_def n_def
    by (simp add: Let_def fields size_def cong: if_cong)
  show ?thesis
  proof (cases "?room < size \<or> name_len \<noteq> name_length e")
    case True
    then show ?thesis by (auto simp: eq)
  next
    case fits: False
    then have szr: "unat size \<le> unat ?room" by (simp add: not_less word_le_nat_alt)
    have "?p + 30 + n \<le> length ?d" using szr size fits room dir by (simp add: n_def)
    then have name1: "rds ?d (?p + unat V9X_ZIP_LOCAL_FIXED) n = Some (take n (drop (?p + 30) ?d))"
      by (simp add: rds_Some V9X_ZIP_LOCAL_FIXED_def)
    have diff: "unat (?room - size) = unat ?room - unat size"
      using szr by (intro u32_sub) (simp add: word_le_nat_alt)
    have sum: "unat (local_offset e + size) = ?p + unat size"
      using szr room u32_less [of "directory_offset z"] by (intro u32_add) linarith
    have "\<exists>r. tail = Some r \<and> (\<forall>at. r = Inr at \<longrightarrow>
        unat at + unat (compressed_size e) \<le> unat (directory_offset z))"
      unfolding tail_def name1 name2 Option.bind.bind_lunit
      using diff sum szr room by (auto simp: word_less_nat_alt not_less)
    then show ?thesis by (auto simp: eq)
  qed
qed

lemma v9x_inflate_with_state_spec:
  assumes "scratch_ok st" "n \<le> length inp" "cap \<le> length out"
  shows "\<exists>status s'. v9x_inflate_with_state (Some st) (Some inp) n (Some out) cap (Some k) =
      Some (status, Some s', Some (output_position s')) \<and> output_position s' \<le> cap \<and>
    length (output_bytes s') = length out \<and>
    drop (output_position s') (output_bytes s') = drop (output_position s') out"
proof -
  let ?s = "inflate_begin st (Some inp) n (Some out) cap"
  have "safe ?s (\<lambda>_ s'. True) (inflate_blocks ?s)"
    by (rule safe_blocks [OF inflate_begin_ok [OF assms]])
  then show ?thesis
    by (auto simp: v9x_inflate_with_state_def safe_def extends_def inflate_begin_def elim!: outcome_cases)
qed

text \<open>Both methods write inside the declared size only, and on success exactly that much.\<close>

lemma extract_data_spec:
  assumes "zip_ok z" "scratch_ok st" "unat (uncompressed_size e) \<le> length out"
    "unat at + unat (compressed_size e) \<le> unat (directory_offset z)"
  shows "outcome (extract_data z e at \<lparr>zstate = Some st, zoutput = Some out, zwritten = 0\<rparr>)
    (\<lambda>_ t. \<exists>out'. zoutput t = Some out' \<and> length out' = length out \<and>
       drop (unat (uncompressed_size e)) out' = drop (unat (uncompressed_size e)) out)
    (\<lambda>_ t. \<exists>out'. zoutput t = Some out' \<and> length out' = length out \<and>
       drop (unat (uncompressed_size e)) out' = drop (unat (uncompressed_size e)) out \<and>
       zwritten t = unat (uncompressed_size e))"
proof (cases "emethod e = V9X_ZIP_METHOD_STORED")
  case True
  show ?thesis
  proof (cases "compressed_size e = uncompressed_size e")
    case False
    then show ?thesis using True by (simp add: extract_data_def)
  next
    case same: True
    let ?n = "unat (compressed_size e)"
    let ?bs = "take ?n (drop (unat at) (zip_bytes z))"
    have room: "unat at + ?n \<le> length (zip_bytes z)" using assms(1,4) by (simp add: zip_ok_def)
    then have rds: "rds (zip_bytes z) (unat at) ?n = Some ?bs" and len: "length ?bs = ?n"
      by (simp_all add: rds_Some)
    have wrs: "wrs out 0 ?bs = Some (?bs @ drop ?n out)"
      using wrs_Some [of 0 ?bs out] assms(3) same len by simp
    show ?thesis
      using True same len [unfolded same] assms(3)
      by (simp add: extract_data_def rds [unfolded same] wrs [unfolded same])
  qed
next
  case False
  have room: "unat (compressed_size e) \<le> length (drop (unat at) (zip_bytes z))"
    using assms(1,4) by (auto simp: zip_ok_def)
  obtain status s' where inf: "v9x_inflate_with_state (Some st) (Some (drop (unat at) (zip_bytes z)))
      (unat (compressed_size e)) (Some out) (unat (uncompressed_size e)) (Some 0) =
      Some (status, Some s', Some (output_position s'))"
    and s': "output_position s' \<le> unat (uncompressed_size e)" "length (output_bytes s') = length out"
      "drop (output_position s') (output_bytes s') = drop (output_position s') out"
    using v9x_inflate_with_state_spec [OF assms(2) room assms(3), of 0] by blast
  have "drop (unat (uncompressed_size e)) (output_bytes s') = drop (unat (uncompressed_size e)) out"
    by (rule drop_drop_eq [OF s'(3) s'(1)])
  then show ?thesis
    using False s' by (simp add: extract_data_def inf Let_def)
qed

text \<open>The whole extraction, on an archive that opened: no illegal access, and what success means.\<close>

lemma extract_entry_spec:
  assumes "zip_ok z" "entry_ok z e" "scratch_ok st" "unat capacity \<le> length out"
  shows "outcome (extract_entry z e capacity \<lparr>zstate = Some st, zoutput = Some out, zwritten = 0\<rparr>)
    (\<lambda>_ t. True)
    (\<lambda>_ t. \<exists>out'. zoutput t = Some out' \<and> length out' = length out \<and>
       zwritten t = unat (uncompressed_size e) \<and> zwritten t \<le> unat capacity \<and>
       drop (zwritten t) out' = drop (zwritten t) out \<and>
       v9x_crc32 (take (zwritten t) out') = ecrc32 e \<and> eflags e AND V9X_ZIP_FLAGS_ENCRYPTED = 0)"
  (is "outcome (extract_entry z e capacity ?t) _ ?Q")
proof (cases "eflags e AND V9X_ZIP_FLAGS_ENCRYPTED \<noteq> 0 \<or>
    emethod e \<noteq> V9X_ZIP_METHOD_STORED \<and> emethod e \<noteq> V9X_ZIP_METHOD_DEFLATE \<or>
    capacity < uncompressed_size e")
  case True
  then show ?thesis by (auto simp: extract_entry_def)
next
  case False
  then have cap: "unat (uncompressed_size e) \<le> unat capacity" by (simp add: not_less word_le_nat_alt)
  obtain r where r: "local_data z e = Some r"
    and room: "\<And>at. r = Inr at \<Longrightarrow> unat at + unat (compressed_size e) \<le> unat (directory_offset z)"
    using local_data_spec [OF assms(1,2)] by blast
  show ?thesis
  proof (cases r)
    case (Inl status)
    then show ?thesis using False by (auto simp: extract_entry_def r)
  next
    case (Inr at)
    have "outcome (extract_checked z e at ?t) (\<lambda>_ _. True) ?Q"
      unfolding extract_checked_def
      by (rule outcome_andthen [OF outcome_mono [OF extract_data_spec [OF assms(1,3) _ room [OF Inr]]]])
        (use cap assms(4) False in \<open>auto simp: rds_Some\<close>)
    then show ?thesis using False by (auto simp: extract_entry_def r Inr)
  qed
qed

lemma v9x_zip_extract_spec:
  assumes "zip_ok z" "scratch_ok st" "unat capacity \<le> length out"
  shows "outcome (v9x_zip_extract (Some z) index (Some st) (Some out) capacity (Some k))
    (\<lambda>_ t. True)
    (\<lambda>_ t. \<exists>out'. zoutput t = Some out' \<and> length out' = length out \<and> index < unat (entry_count z) \<and>
       zwritten t = unat (uncompressed_size (zip_entry_of z index)) \<and> zwritten t \<le> unat capacity \<and>
       drop (zwritten t) out' = drop (zwritten t) out \<and>
       v9x_crc32 (take (zwritten t) out') = ecrc32 (zip_entry_of z index) \<and>
       eflags (zip_entry_of z index) AND V9X_ZIP_FLAGS_ENCRYPTED = 0)"
proof (cases "index < unat (entry_count z)")
  case False
  then show ?thesis
    by (cases "zdata z") (simp_all add: v9x_zip_extract_def v9x_zip_entry_at_def Let_def)
next
  case True
  have data: "zdata z \<noteq> None" using assms(1) by (simp add: zip_ok_def)
  from v9x_zip_walk_spec [OF assms(1), of index scratch_entry] show ?thesis
  proof (cases rule: outcome_cases)
    case (1 e status)
    then show ?thesis
      using True data by (simp add: v9x_zip_extract_def v9x_zip_entry_at_def Let_def)
  next
    case (2 e u)
    then have e: "e = zip_entry_of z index" "entry_ok z e" using True by auto
    show ?thesis
      using extract_entry_spec [OF assms(1) e(2) assms(2,3)] True data 2(1) e(1)
      by (auto simp: v9x_zip_extract_def v9x_zip_entry_at_def Let_def elim!: outcome_mono)
  qed
qed

subsection \<open>Safe names\<close>

text \<open>What \<open>v9x_zip_name_is_safe\<close> means, as a predicate on the bytes of the name.\<close>

definition device_stem :: "bytes \<Rightarrow> bool" where
  "device_stem stem \<longleftrightarrow> (let up = map v9x_zip_ascii_upper stem in
     up \<in> set zip_device_names \<or>
     (\<exists>d. 0x31 \<le> d \<and> d \<le> 0x39 \<and> (up = asc ''COM'' @ [d] \<or> up = asc ''LPT'' @ [d])))"

definition safe_name :: "bytes \<Rightarrow> bool" where
  "safe_name name \<longleftrightarrow>
     (\<forall>c\<in>set name. 0x20 < c \<and> c \<le> 0x7E \<and> c \<notin> set zip_forbidden) \<and>
     (\<forall>i. Suc i < length name \<longrightarrow> \<not> (name ! i = 0x2E \<and> name ! Suc i = 0x2E)) \<and>
     name \<noteq> [] \<and> last name \<noteq> 0x2E \<and> \<not> device_stem (takeWhile (\<lambda>c. c \<noteq> 0x2E) name)"

definition char_safe :: "bytes \<Rightarrow> nat \<Rightarrow> nat \<Rightarrow> bool" where
  "char_safe name len j \<longleftrightarrow> 0x20 < name ! j \<and> name ! j \<le> 0x7E \<and> name ! j \<notin> set zip_forbidden \<and>
    \<not> (Suc j < len \<and> name ! j = 0x2E \<and> name ! Suc j = 0x2E)"

lemma safe_from_spec:
  assumes "i + n = len" "len \<le> length name"
  shows "safe_from name len i n = Some (\<forall>j. i \<le> j \<and> j < len \<longrightarrow> char_safe name len j)"
  using assms(1)
proof (induction n arbitrary: i)
  case 0
  then show ?case by auto
next
  case (Suc n)
  have i: "i < len" using Suc.prems by simp
  have dots: "(if name ! i = 0x2E \<and> i + 1 < len then do { d \<leftarrow> rd name (i + 1); Some (d = 0x2E) }
      else Some False) = Some (name ! i = 0x2E \<and> Suc i < len \<and> name ! Suc i = 0x2E)"
    using assms(2) by (auto simp: rd_def)
  have rd: "rd name i = Some (name ! i)" using i assms(2) by (simp add: rd_def)
  have step: "safe_from name len i (Suc n) =
      (if char_safe name len i then safe_from name len (Suc i) n else Some False)"
    unfolding safe_from.simps rd Option.bind.bind_lunit dots char_safe_def
    by (auto simp: not_le not_less)
  have IH: "safe_from name len (Suc i) n = Some (\<forall>j. Suc i \<le> j \<and> j < len \<longrightarrow> char_safe name len j)"
    by (rule Suc.IH) (use Suc.prems in simp)
  have split: "(\<forall>j. i \<le> j \<and> j < len \<longrightarrow> char_safe name len j) \<longleftrightarrow>
      char_safe name len i \<and> (\<forall>j. Suc i \<le> j \<and> j < len \<longrightarrow> char_safe name len j)"
    using i by (metis Suc_le_eq le_eq_less_or_eq)
  show ?case unfolding step IH split by simp
qed

lemma stem_from_spec:
  "k + n \<le> length name \<Longrightarrow>
   stem_from name k n = Some (k + length (takeWhile (\<lambda>c. c \<noteq> 0x2E) (take n (drop k name))))"
proof (induction n arbitrary: k)
  case (Suc n)
  then have "drop k name = name ! k # drop (Suc k) name" by (simp add: Cons_nth_drop_Suc)
  then show ?case using Suc by (simp add: rd_def)
qed simp

lemma device_from_spec:
  assumes "stem \<le> length name" "k \<le> stem" "k \<le> length device" "stem - k < n"
    "map v9x_zip_ascii_upper (take k name) = take k device"
  shows "device_from name stem device k n =
    Some (map v9x_zip_ascii_upper (take stem name) = device)"
  using assms(2-5)
proof (induction n arbitrary: k)
  case 0
  then show ?case by simp
next
  case (Suc n)
  show ?case
  proof (cases "k < stem \<and> k < length device")
    case False
    have "k = stem \<and> k = length device \<longleftrightarrow> map v9x_zip_ascii_upper (take stem name) = device"
      using False Suc.prems assms(1) by (metis le_neq_implies_less length_map length_take min.absorb2 take_all_iff order_refl)
    then show ?thesis using False by auto
  next
    case True
    have rd: "rd name k = Some (name ! k)" using True assms(1) by (simp add: rd_def)
    show ?thesis
    proof (cases "v9x_zip_ascii_upper (name ! k) = device ! k")
      case eq: True
      have "map v9x_zip_ascii_upper (take (Suc k) name) = take (Suc k) device"
        using Suc.prems(4) True assms(1) eq by (simp add: take_Suc_conv_app_nth)
      then have "device_from name stem device (k + 1) n =
          Some (map v9x_zip_ascii_upper (take stem name) = device)"
        using True Suc.prems(3) by (intro Suc.IH) auto
      then show ?thesis using True rd eq by simp
    next
      case False
      then have "map v9x_zip_ascii_upper (take stem name) \<noteq> device"
        using True assms(1) by (metis length_map length_take min.absorb2 nth_map nth_take)
      then show ?thesis using True rd False by auto
    qed
  qed
qed

lemma any_device_spec:
  assumes "stem \<le> length name"
  shows "any_device name stem devices = Some (map v9x_zip_ascii_upper (take stem name) \<in> set devices)"
  by (induction devices) (use device_from_spec [OF assms, of 0 _ "Suc stem"] in auto)

lemma v9x_zip_same_name_spec:
  "i + n \<le> length a \<Longrightarrow> j + n \<le> length b \<Longrightarrow>
   v9x_zip_same_name a i b j n = Some (map v9x_zip_ascii_upper (take n (drop i a)) =
     map v9x_zip_ascii_upper (take n (drop j b)))"
proof (induction n arbitrary: i j)
  case (Suc n)
  then have "drop i a = a ! i # drop (Suc i) a" "drop j b = b ! j # drop (Suc j) b"
    by (simp_all add: Cons_nth_drop_Suc)
  then show ?case using Suc by (simp add: rd_def)
qed simp

lemma upper_digit: "0x31 \<le> v9x_zip_ascii_upper c \<and> v9x_zip_ascii_upper c \<le> 0x39 \<longleftrightarrow> 0x31 \<le> c \<and> c \<le> 0x39"
proof (cases "c \<ge> 0x61 \<and> c \<le> 0x7A")
  case True
  then have "unat (c - (0x61 - 0x41)) = unat c - 0x20" by (simp add: unat_sub word_le_nat_alt)
  then show ?thesis using True by (auto simp: v9x_zip_ascii_upper_def word_le_nat_alt)
qed (auto simp: v9x_zip_ascii_upper_def)

lemma length_4_eq: "length xs = 4 \<Longrightarrow> xs = take 3 xs @ [xs ! 3]"
  using take_Suc_conv_app_nth [of 3 xs] by simp

lemma device_port:
  assumes "length p = 3"
  shows "map f stem = p @ [d] \<longleftrightarrow> length stem = 4 \<and> map f (take 3 stem) = p \<and> f (stem ! 3) = d"
proof
  assume eq: "map f stem = p @ [d]"
  have len: "length stem = 4" using arg_cong [OF eq, of length] assms by simp
  have "map f (take 3 stem) = p" using arg_cong [OF eq, of "take 3"] assms by (simp add: take_map)
  moreover have "f (stem ! 3) = d" using arg_cong [OF eq, of "\<lambda>xs. xs ! 3"] assms len by (simp add: nth_append)
  ultimately show "length stem = 4 \<and> map f (take 3 stem) = p \<and> f (stem ! 3) = d" using len by simp
next
  assume a: "length stem = 4 \<and> map f (take 3 stem) = p \<and> f (stem ! 3) = d"
  then have "stem = take 3 stem @ [stem ! 3]" using length_4_eq by blast
  then have "map f stem = map f (take 3 stem) @ [f (stem ! 3)]" by (metis map_append list.map)
  then show "map f stem = p @ [d]" using a by simp
qed

lemma v9x_zip_is_device_spec:
  "v9x_zip_is_device name (length name) = Some (device_stem (takeWhile (\<lambda>c. c \<noteq> 0x2E) name))"
proof -
  let ?st = "takeWhile (\<lambda>c. c \<noteq> 0x2E) name"
  have stem: "stem_from name 0 (length name) = Some (length ?st)"
    using stem_from_spec [of 0 "length name" name] by simp
  have take: "take (length ?st) name = ?st" by (metis takeWhile_eq_take)
  have le: "length ?st \<le> length name" by (rule length_takeWhile_le)
  have fixed: "any_device name (length ?st) zip_device_names =
      Some (map v9x_zip_ascii_upper ?st \<in> set zip_device_names)"
    using any_device_spec [OF le] take by simp
  have ports: "map v9x_zip_ascii_upper ?st = asc ''COM'' @ [d] \<longleftrightarrow>
      length ?st = 4 \<and> map v9x_zip_ascii_upper (take 3 ?st) = asc ''COM'' \<and> v9x_zip_ascii_upper (?st ! 3) = d"
    "map v9x_zip_ascii_upper ?st = asc ''LPT'' @ [d] \<longleftrightarrow>
      length ?st = 4 \<and> map v9x_zip_ascii_upper (take 3 ?st) = asc ''LPT'' \<and> v9x_zip_ascii_upper (?st ! 3) = d" for d
    by (rule device_port; simp)+
  show ?thesis
  proof (cases "map v9x_zip_ascii_upper ?st \<in> set zip_device_names")
    case True
    then show ?thesis by (simp add: v9x_zip_is_device_def stem fixed device_stem_def Let_def)
  next
    case False
    have stem_iff: "device_stem ?st \<longleftrightarrow> length ?st = 4 \<and>
        0x31 \<le> ?st ! 3 \<and> ?st ! 3 \<le> 0x39 \<and>
        (map v9x_zip_ascii_upper (take 3 ?st) = asc ''COM'' \<or> map v9x_zip_ascii_upper (take 3 ?st) = asc ''LPT'')"
      using False upper_digit [of "?st ! 3"] unfolding device_stem_def Let_def ports by auto
    show ?thesis
    proof (cases "length ?st = 4")
      case other: False
      then show ?thesis
        using False by (simp add: v9x_zip_is_device_def stem fixed stem_iff)
    next
      case four: True
      have "?st ! 3 = take (length ?st) name ! 3" "take 3 ?st = take 3 (take (length ?st) name)"
        by (simp_all only: take)
      then have "?st ! 3 = name ! 3" "take 3 ?st = take 3 name"
        unfolding four by simp_all
      then have st: "device_stem ?st \<longleftrightarrow> 0x31 \<le> name ! 3 \<and> name ! 3 \<le> 0x39 \<and>
        (map v9x_zip_ascii_upper (take 3 name) = asc ''COM'' \<or> map v9x_zip_ascii_upper (take 3 name) = asc ''LPT'')"
        unfolding stem_iff using four by simp
      have len: "4 \<le> length name" using le four by simp
      have up: "map v9x_zip_ascii_upper (asc ''COM'') = asc ''COM''" "map v9x_zip_ascii_upper (asc ''LPT'') = asc ''LPT''"
        by (simp_all add: v9x_zip_ascii_upper_def)
      have rd: "rd name 3 = Some (name ! 3)" using len by (simp add: rd_def)
      have "v9x_zip_same_name name 0 (asc ''COM'') 0 3 = Some (map v9x_zip_ascii_upper (take 3 name) = asc ''COM'')"
        "v9x_zip_same_name name 0 (asc ''LPT'') 0 3 = Some (map v9x_zip_ascii_upper (take 3 name) = asc ''LPT'')"
        using v9x_zip_same_name_spec [of 0 3 name 0 "asc ''COM''"] v9x_zip_same_name_spec [of 0 3 name 0 "asc ''LPT''"]
          len up by (simp_all del: asc_Cons)
      then show ?thesis
        using False four by (auto simp: v9x_zip_is_device_def stem fixed [unfolded four] rd st not_le not_less simp del: asc_Cons)
    qed
  qed
qed

lemma v9x_zip_name_is_safe_spec:
  "v9x_zip_name_is_safe (Some name) (length name) max_length =
     Some (length name \<le> max_length \<and> safe_name name)"
proof (cases "name = [] \<or> max_length < length name")
  case True
  then show ?thesis by (auto simp: v9x_zip_name_is_safe_def safe_name_def)
next
  case False
  have chars: "safe_from name (length name) 0 (length name) =
      Some (\<forall>j. 0 \<le> j \<and> j < length name \<longrightarrow> char_safe name (length name) j)"
    by (rule safe_from_spec) simp_all
  have iff: "(\<forall>j. 0 \<le> j \<and> j < length name \<longrightarrow> char_safe name (length name) j) \<longleftrightarrow>
      (\<forall>c\<in>set name. 0x20 < c \<and> c \<le> 0x7E \<and> c \<notin> set zip_forbidden) \<and>
      (\<forall>i. Suc i < length name \<longrightarrow> \<not> (name ! i = 0x2E \<and> name ! Suc i = 0x2E))"
    unfolding char_safe_def by (auto simp: all_set_conv_all_nth)
  have last: "rd name (length name - 1) = Some (last name)"
    using False by (simp add: rd_def last_conv_nth)
  show ?thesis
    using False by (auto simp: v9x_zip_name_is_safe_def chars [unfolded iff] last [simplified]
        v9x_zip_is_device_spec safe_name_def)
qed

subsection \<open>Finding by name\<close>

definition entry_name :: "zip \<Rightarrow> nat \<Rightarrow> bytes" where
  "entry_name z i = (let e = zip_entry_of z i in
     take (unat (name_length e)) (drop (name_at e) (zip_bytes z)))"

definition named :: "zip \<Rightarrow> bytes \<Rightarrow> nat \<Rightarrow> bool" where
  "named z name i \<longleftrightarrow> map v9x_zip_ascii_upper (entry_name z i) = map v9x_zip_ascii_upper name"

lemma candidate_matches:
  assumes "entry_ok z (zip_entry_of z i)"
  shows "(if unat (name_length (zip_entry_of z i)) \<noteq> length wanted then Some False
      else v9x_zip_same_name (zip_bytes z) (name_at (zip_entry_of z i)) wanted 0 (length wanted)) =
    Some (named z wanted i)"
proof (cases "unat (name_length (zip_entry_of z i)) = length wanted")
  case True
  have "name_at (zip_entry_of z i) + length wanted \<le> length (zip_bytes z)"
    using assms True by (simp add: entry_ok_def)
  then show ?thesis
    using v9x_zip_same_name_spec [of "name_at (zip_entry_of z i)" "length wanted" "zip_bytes z" 0 wanted] True
    by (simp add: named_def entry_name_def Let_def)
next
  case False
  have "length (entry_name z i) = unat (name_length (zip_entry_of z i))"
    using assms by (simp add: entry_name_def Let_def entry_ok_def)
  then have "\<not> named z wanted i" using False by (auto simp: named_def dest: map_eq_imp_length_eq)
  then show ?thesis using False by simp
qed

definition hits :: "zip \<Rightarrow> bytes \<Rightarrow> nat list \<Rightarrow> nat list" where
  "hits z wanted idx = filter (named z wanted) idx"

lemma find_from_spec:
  assumes "zip_ok z" "index + n = unat (entry_count z)" "matches \<le> 1"
  shows "outcome (find_from z wanted (length wanted) index n matches candidate entry)
    (\<lambda>status _. status = V9X_ZIP_NOT_FOUND \<and> matches + length (hits z wanted [index..<index + n]) = 0 \<or>
       status = V9X_ZIP_DUPLICATE \<and> 1 < matches + length (hits z wanted [index..<index + n]) \<or>
       status \<in> {V9X_ZIP_BAD_CENTRAL, V9X_ZIP_MULTI_DISK, V9X_ZIP_ZIP64})
    (\<lambda>_ e. matches + length (hits z wanted [index..<index + n]) = 1 \<and>
       (matches = 1 \<longrightarrow> e = entry) \<and>
       (\<forall>i\<in>set (hits z wanted [index..<index + n]). e = zip_entry_of z i))"
  using assms(2,3)
proof (induction n arbitrary: index matches candidate entry)
  case 0
  then show ?case by (auto simp: hits_def)
next
  case (Suc n)
  have lt: "index < unat (entry_count z)" using Suc.prems(1) by simp
  have "[index..<index + Suc n] = index # [index + 1..<(index + 1) + n]"
    using upt_conv_Cons [of index "index + Suc n"] by simp
  then have hits: "hits z wanted [index..<index + Suc n] =
      (if named z wanted index then index # hits z wanted [index + 1..<(index + 1) + n]
       else hits z wanted [index + 1..<(index + 1) + n])"
    by (simp add: hits_def)
  have pre: "(index + 1) + n = unat (entry_count z)" using Suc.prems(1) by simp
  note IH = Suc.IH [OF pre]
  from v9x_zip_walk_spec [OF assms(1), of index candidate] show ?case
  proof (cases rule: outcome_cases)
    case (1 e status)
    then show ?thesis using v9x_zip_walk_status [OF 1(1)] by auto
  next
    case (2 e u)
    then have e: "e = zip_entry_of z index" "entry_ok z (zip_entry_of z index)" using lt by auto
    have step: "find_from z wanted (length wanted) index (Suc n) matches candidate entry =
      (if \<not> named z wanted index then find_from z wanted (length wanted) (index + 1) n matches e entry
       else if matches + 1 > 1 then Some (entry, Inl V9X_ZIP_DUPLICATE)
       else find_from z wanted (length wanted) (index + 1) n (matches + 1) e e)"
      using candidate_matches [OF e(2), of wanted] by (simp add: 2(1) e(1))
    consider (other) "\<not> named z wanted index" | (first) "named z wanted index" "matches = 0"
      | (second) "named z wanted index" "matches = 1"
      using Suc.prems(2) by linarith
    then show ?thesis
    proof cases
      case other
      then show ?thesis
        unfolding step hits using IH [OF Suc.prems(2), of e entry] by simp
    next
      case first
      have "outcome (find_from z wanted (length wanted) (index + 1) n 1 e e)
        (\<lambda>status _. status = V9X_ZIP_NOT_FOUND \<and> 1 + length (hits z wanted [index + 1..<(index + 1) + n]) = 0 \<or>
           status = V9X_ZIP_DUPLICATE \<and> 1 < 1 + length (hits z wanted [index + 1..<(index + 1) + n]) \<or>
           status \<in> {V9X_ZIP_BAD_CENTRAL, V9X_ZIP_MULTI_DISK, V9X_ZIP_ZIP64})
        (\<lambda>_ e'. 1 + length (hits z wanted [index + 1..<(index + 1) + n]) = 1 \<and> (1 = 1 \<longrightarrow> e' = e) \<and>
           (\<forall>i\<in>set (hits z wanted [index + 1..<(index + 1) + n]). e' = zip_entry_of z i))"
        using IH [of 1 e e] by simp
      then show ?thesis
        unfolding step hits using first e(1) by (auto elim!: outcome_mono)
    next
      case second
      then show ?thesis unfolding step hits by simp
    qed
  qed
qed

lemma measure_name_eq:
  "len + n = 13 \<Longrightarrow> len \<le> length wanted \<Longrightarrow> measure_name wanted len n = min 13 (length wanted)"
  by (induction n arbitrary: len) (auto simp: V9X_ZIP_NAME_MAX_8_3_def min_def)

lemma v9x_zip_find_spec:
  assumes "zip_ok z"
  shows "outcome (v9x_zip_find (Some z) (Some wanted) (Some entry))
    (\<lambda>status _. status = V9X_ZIP_UNSAFE_NAME \<and> \<not> (length wanted \<le> 12 \<and> safe_name wanted) \<or>
       status = V9X_ZIP_NOT_FOUND \<and> hits z wanted [0..<unat (entry_count z)] = [] \<or>
       status = V9X_ZIP_DUPLICATE \<and> 1 < length (hits z wanted [0..<unat (entry_count z)]) \<or>
       status \<in> {V9X_ZIP_BAD_CENTRAL, V9X_ZIP_MULTI_DISK, V9X_ZIP_ZIP64})
    (\<lambda>_ ep. length wanted \<le> 12 \<and> safe_name wanted \<and>
       (\<exists>i. hits z wanted [0..<unat (entry_count z)] = [i] \<and> ep = Some (zip_entry_of z i)))"
proof -
  have data: "zdata z \<noteq> None" using assms by (simp add: zip_ok_def)
  have len: "measure_name wanted 0 13 = min 13 (length wanted)"
    by (rule measure_name_eq) simp_all
  show ?thesis
  proof (cases "length wanted \<le> 12 \<and> safe_name wanted")
    case False
    have "v9x_zip_name_is_safe (Some wanted) (min 13 (length wanted)) 12 = Some False"
    proof (cases "length wanted \<le> 12")
      case True
      then show ?thesis using False v9x_zip_name_is_safe_spec [of wanted 12] by (simp add: min_def)
    next
      case long: False
      then show ?thesis by (simp add: v9x_zip_name_is_safe_def)
    qed
    then show ?thesis using False data by (auto simp: v9x_zip_find_def len V9X_ZIP_NAME_MAX_8_3_def Let_def)
  next
    case True
    then have min: "min 13 (length wanted) = length wanted" by simp
    have safe: "v9x_zip_name_is_safe (Some wanted) (length wanted) 12 = Some True"
      using True v9x_zip_name_is_safe_spec [of wanted 12] by simp
    have "outcome (find_from z wanted (length wanted) 0 (unat (entry_count z)) 0 scratch_entry entry)
      (\<lambda>status _. status = V9X_ZIP_NOT_FOUND \<and> 0 + length (hits z wanted [0..<0 + unat (entry_count z)]) = 0 \<or>
         status = V9X_ZIP_DUPLICATE \<and> 1 < 0 + length (hits z wanted [0..<0 + unat (entry_count z)]) \<or>
         status \<in> {V9X_ZIP_BAD_CENTRAL, V9X_ZIP_MULTI_DISK, V9X_ZIP_ZIP64})
      (\<lambda>_ e. 0 + length (hits z wanted [0..<0 + unat (entry_count z)]) = 1 \<and> (0 = (1::nat) \<longrightarrow> e = entry) \<and>
         (\<forall>i\<in>set (hits z wanted [0..<0 + unat (entry_count z)]). e = zip_entry_of z i))"
      by (rule find_from_spec [OF assms]) simp_all
    then show ?thesis
      using True data
      by (auto simp: v9x_zip_find_def len min safe V9X_ZIP_NAME_MAX_8_3_def Let_def length_Suc_conv
          elim!: outcome_cases)
  qed
qed

subsection \<open>The promises of zipread.h\<close>

text \<open>C35. Opening an arbitrary buffer never reads outside it, and an archive that opens has its central
  directory inside the buffer, with no sum of offsets wrapping.\<close>

theorem zip_open_safe:
  assumes "unat len \<le> length data" "length data < 4294967296"
  shows "\<exists>zp r. v9x_zip_open (Some z) (Some data) len = Some (zp, r) \<and>
    (r = Inr () \<longrightarrow> (\<exists>z'. zp = Some z' \<and> zdata z' = Some data \<and>
       unat (directory_offset z') + unat (directory_size z') \<le> length data))"
  using v9x_zip_open_spec [OF assms, of z]
  by (auto simp: zip_ok_def zip_bytes_def elim!: outcome_cases)

text \<open>An archive of one stored member, \<open>A\<close>, holding the byte \<open>0x41\<close>.\<close>

definition sample_zip :: bytes where
  "sample_zip =
     [0x50, 0x4B, 0x03, 0x04, 0x14, 0x00, 0x00, 0x00, 0x00, 0x00, 0x00, 0x00, 0x00, 0x00,
      0x8B, 0x9E, 0xD9, 0xD3, 0x01, 0x00, 0x00, 0x00, 0x01, 0x00, 0x00, 0x00, 0x01, 0x00,
      0x00, 0x00, 0x41, 0x41, 0x50, 0x4B, 0x01, 0x02, 0x14, 0x00, 0x14, 0x00, 0x00, 0x00,
      0x00, 0x00, 0x00, 0x00, 0x00, 0x00, 0x8B, 0x9E, 0xD9, 0xD3, 0x01, 0x00, 0x00, 0x00,
      0x01, 0x00, 0x00, 0x00, 0x01, 0x00, 0x00, 0x00, 0x00, 0x00, 0x00, 0x00, 0x00, 0x00,
      0x00, 0x00, 0x00, 0x00, 0x00, 0x00, 0x00, 0x00, 0x41, 0x50, 0x4B, 0x05, 0x06, 0x00,
      0x00, 0x00, 0x00, 0x01, 0x00, 0x01, 0x00, 0x2F, 0x00, 0x00, 0x00, 0x20, 0x00, 0x00,
      0x00, 0x00, 0x00]"

definition no_zip :: zip where
  "no_zip = \<lparr>zdata = None, zlength = 0, directory_offset = 0, directory_size = 0, entry_count = 0\<rparr>"

definition opened_sample :: zip where
  "opened_sample = \<lparr>zdata = Some sample_zip, zlength = 101, directory_offset = 32, directory_size = 47,
     entry_count = 1\<rparr>"

lemma length_sample_zip: "length sample_zip = 101"
  by (simp add: sample_zip_def)

theorem zip_open_safe_witness:
  "\<exists>zp r. v9x_zip_open (Some no_zip) (Some sample_zip) 101 = Some (zp, r) \<and>
    (r = Inr () \<longrightarrow> (\<exists>z'. zp = Some z' \<and> zdata z' = Some sample_zip \<and>
       unat (directory_offset z') + unat (directory_size z') \<le> length sample_zip))"
  by (rule zip_open_safe) (simp_all add: length_sample_zip)

lemma open_sample: "v9x_zip_open (Some no_zip) (Some sample_zip) 101 = Some (Some opened_sample, Inr ())"
  unfolding opened_sample_def no_zip_def sample_zip_def by code_simp

text \<open>C7. What extraction from an opened archive promises, for any name, any scratch state and any
  output buffer: no access outside the archive or the buffer; and on success the name is safe, exactly
  one entry has it, the output holds exactly the declared number of bytes, within the capacity, with
  the declared CRC-32, the entry is not encrypted, and the rest of the buffer is untouched.\<close>

theorem zip_extract_sound:
  assumes "unat len \<le> length data" "length data < 4294967296"
    "v9x_zip_open (Some z0) (Some data) len = Some (Some z, Inr ())"
    "scratch_ok st" "unat capacity \<le> length out"
  shows "\<exists>t r. v9x_zip_extract_named (Some z) (Some name) (Some st) (Some out) capacity (Some k) =
      Some (t, r) \<and>
    (r = Inr () \<longrightarrow> length name \<le> 12 \<and> safe_name name \<and>
      (\<exists>i out'. hits z name [0..<unat (entry_count z)] = [i] \<and>
         zoutput t = Some out' \<and> length out' = length out \<and>
         zwritten t = unat (uncompressed_size (zip_entry_of z i)) \<and> zwritten t \<le> unat capacity \<and>
         v9x_crc32 (take (zwritten t) out') = ecrc32 (zip_entry_of z i) \<and>
         eflags (zip_entry_of z i) AND V9X_ZIP_FLAGS_ENCRYPTED = 0 \<and>
         drop (zwritten t) out' = drop (zwritten t) out))"
proof -
  have ok: "zip_ok z" using v9x_zip_open_spec [OF assms(1,2), of z0] assms(3) by simp
  have idx: "eindex (zip_entry_of z i) = i" for i by (simp add: zip_entry_of_def central_entry_def)
  from v9x_zip_find_spec [OF ok, of name scratch_entry] show ?thesis
  proof (cases rule: outcome_cases)
    case (1 e status)
    then show ?thesis by (simp add: v9x_zip_extract_named_def)
  next
    case (2 ep u)
    then obtain i where i: "hits z name [0..<unat (entry_count z)] = [i]" "ep = Some (zip_entry_of z i)"
      "length name \<le> 12" "safe_name name" by blast
    from v9x_zip_extract_spec [OF ok assms(4,5), of i k] show ?thesis
    proof (cases rule: outcome_cases)
      case (1 t status)
      then show ?thesis using 2(1) i by (simp add: v9x_zip_extract_named_def idx)
    next
      case s: (2 t v)
      have "v9x_zip_extract_named (Some z) (Some name) (Some st) (Some out) capacity (Some k) = Some (t, Inr v)"
        using 2(1) i s(1) by (simp add: v9x_zip_extract_named_def idx)
      then show ?thesis using s(2) i by auto
    qed
  qed
qed

theorem zip_extract_sound_witness:
  "\<exists>t r. v9x_zip_extract_named (Some opened_sample) (Some (asc ''a'')) (Some zero_scratch) (Some [7, 7]) 2 (Some 0) =
      Some (t, r) \<and>
    (r = Inr () \<longrightarrow> length (asc ''a'') \<le> 12 \<and> safe_name (asc ''a'') \<and>
      (\<exists>i out'. hits opened_sample (asc ''a'') [0..<unat (entry_count opened_sample)] = [i] \<and>
         zoutput t = Some out' \<and> length out' = length [7, 7 :: u8] \<and>
         zwritten t = unat (uncompressed_size (zip_entry_of opened_sample i)) \<and> zwritten t \<le> unat (2 :: u32) \<and>
         v9x_crc32 (take (zwritten t) out') = ecrc32 (zip_entry_of opened_sample i) \<and>
         eflags (zip_entry_of opened_sample i) AND V9X_ZIP_FLAGS_ENCRYPTED = 0 \<and>
         drop (zwritten t) out' = drop (zwritten t) [7, 7]))"
  by (rule zip_extract_sound [OF _ _ open_sample]) (simp_all add: length_sample_zip zero_scratch_ok)

text \<open>C36. \<open>v9x_zip_name_is_safe\<close> accepts exactly the names that fit the limit and name an ordinary
  file: printable characters other than path, stream, wildcard and redirection characters, no two
  dots in a row, no dot at the end, and a stem that is no DOS device in any case.\<close>

theorem zip_name_is_safe:
  "v9x_zip_name_is_safe (Some name) (length name) max_length =
     Some (length name \<le> max_length \<and> safe_name name)"
  by (rule v9x_zip_name_is_safe_spec)

text \<open>A name is found when exactly one entry has it, up to ASCII case: two such entries are
  refused as \<open>DUPLICATE\<close> rather than one being picked, none is \<open>NOT_FOUND\<close>, an unsafe name is
  never looked up.\<close>

theorem zip_find_unique:
  assumes "zip_ok z"
  shows "\<exists>ep r. v9x_zip_find (Some z) (Some wanted) (Some entry) = Some (ep, r) \<and>
    (case r of
       Inr _ \<Rightarrow> safe_name wanted \<and>
         (\<exists>i. hits z wanted [0..<unat (entry_count z)] = [i] \<and> ep = Some (zip_entry_of z i))
     | Inl status \<Rightarrow>
         (status = V9X_ZIP_NOT_FOUND \<longrightarrow> hits z wanted [0..<unat (entry_count z)] = []) \<and>
         (status = V9X_ZIP_DUPLICATE \<longrightarrow> 1 < length (hits z wanted [0..<unat (entry_count z)])) \<and>
         (status = V9X_ZIP_UNSAFE_NAME \<longrightarrow> \<not> (length wanted \<le> 12 \<and> safe_name wanted)))"
  using v9x_zip_find_spec [OF assms, of wanted entry] by (auto elim!: outcome_cases)

theorem zip_find_unique_witness:
  "\<exists>ep r. v9x_zip_find (Some opened_sample) (Some (asc ''a'')) (Some scratch_entry) = Some (ep, r) \<and>
    (case r of
       Inr _ \<Rightarrow> safe_name (asc ''a'') \<and>
         (\<exists>i. hits opened_sample (asc ''a'') [0..<unat (entry_count opened_sample)] = [i] \<and>
           ep = Some (zip_entry_of opened_sample i))
     | Inl status \<Rightarrow>
         (status = V9X_ZIP_NOT_FOUND \<longrightarrow> hits opened_sample (asc ''a'') [0..<unat (entry_count opened_sample)] = []) \<and>
         (status = V9X_ZIP_DUPLICATE \<longrightarrow> 1 < length (hits opened_sample (asc ''a'') [0..<unat (entry_count opened_sample)])) \<and>
         (status = V9X_ZIP_UNSAFE_NAME \<longrightarrow> \<not> (length (asc ''a'') \<le> 12 \<and> safe_name (asc ''a''))))"
  by (rule zip_find_unique)
    (simp add: zip_ok_def zip_bytes_def opened_sample_def length_sample_zip)

end
