(* ===== verification/Spec2Isabelle.thy ===== *)
theory Spec2Isabelle
  imports Frame IniRepair InstallIdProps ReleaseProps RemoteProps ShotProps TextScan UpdateIni UpdateUrl VncDes VncInStep ZipProps
begin

text \<open>
  \<^bold>\<open>A verification library for the V9x remote agent.\<close> The V9x remote agent runs inside a Windows 9x, 2000 or DOS guest and lets a host program it: it
  serves requests over framed TCP connections, ships screenshots, serves a VNC viewer, updates itself
  from signed releases, and can be lent over the Internet to a developer whose every command is
  signed. This library models the parts of the program that compute something, function by function
  from the C source, and proves what they have to guarantee. A definition keeps the name of the C
  function it models; helpers are the loops and branches of that function.


  \<^bold>\<open>How the program fits together.\<close> Requests and replies are frames (\<^verbatim>\<open>frame.c\<close>, \<^verbatim>\<open>bounds.c\<close>), files
  travel under a CRC (\<^verbatim>\<open>crc32.c\<close>), \<^verbatim>\<open>READ_TEXT\<close> filters lines on the guest (\<^verbatim>\<open>textscan.c\<close>), and a
  screenshot is scaled and packed before it is sent (\<^verbatim>\<open>shotxf.c\<close>). The updater reads a URL, a response
  head and an INI file (\<^verbatim>\<open>update_proto.c\<close>), accepts a release only when Ed25519 says so
  (\<^verbatim>\<open>update_release.c\<close>, \<^verbatim>\<open>ed25519.c\<close>, \<^verbatim>\<open>sha512.c\<close>), checks the package hash (\<^verbatim>\<open>sha256.c\<close>) and unpacks
  it (\<^verbatim>\<open>zipread.c\<close>, \<^verbatim>\<open>inflate.c\<close>). Remote help polls a server (\<^verbatim>\<open>remote.c\<close>), opens a session and hands
  on only what the developer signed for it (\<^verbatim>\<open>relay.c\<close>), under an identity drawn from the machine
  (\<^verbatim>\<open>installid.c\<close>). The VNC server authenticates with DES (\<^verbatim>\<open>vncdes.c\<close>), captures and compares frames,
  encodes the changed tiles (\<^verbatim>\<open>vnc.c\<close>) and deflates them (\<^verbatim>\<open>vncz.c\<close>).


  \<^bold>\<open>Conventions.\<close> Machine integers are words of their width (\<open>u8\<close>, \<open>u16\<close>, \<open>u32\<close>) wherever the value may
  come from outside or may wrap; a counter that the code keeps below a bound is \<open>nat\<close>, and the theory
  says which bound. Three of these bounds come from the callers and not from the function itself: the
  counters of \<open>TextScan\<close> (file size and reply capacity), the capacity \<open>vnc_deflate_bound\<close> asks for (the
  32-bit value of the code would wrap only for pieces of 3.8 GB), and the window coordinates of
  \<open>VncUpdate\<close>, which are \<open>int\<close>. A buffer is a list read and written through checked accesses (\<open>rd\<close>, \<open>wr\<close>, \<open>rds\<close>,
  \<open>wrs\<close>), a pointer into it is a position, a C string is the list of the bytes before its terminator.
  \<open>None\<close> as the result of a model stands for what C leaves undefined (an access outside a buffer, a
  shift too far) or a loop that does not end; a theorem that gives \<open>Some\<close> therefore includes memory
  safety and termination. Statuses and early returns are values of a sum type, with the state that
  they leave behind (\<open>Outcome\<close>). Static variables are fields of a record that is passed along. There is
  no fuel: loops are structural, have a measure, or (\<open>chat_trim\<close>, \<open>index_probe\<close>, \<open>vnc_loop\<close>,
  \<open>zpalette_probe\<close>, whose end depends on data) are partial functions shown to return.


  \<^bold>\<open>Foundations.\<close>
  \<^item> \<open>V9xPrelude\<close> has the words, the checked accesses and the collections \<open>mem_simps\<close> and \<open>le_simps\<close>;
    \<open>Outcome\<close> the results with a status; \<open>Loops\<close> the counted loops \<open>for_up\<close> with their invariant rules.
  \<^item> \<open>BlockStream\<close> has the locale \<open>block_stream\<close>, the contract of absorbing bytes into blocks, which
    SHA-256 and SHA-512 interpret; \<open>Ed25519Field\<close> the locale \<open>ladder\<close>, interpreted by field powers and
    by the reduction of scalars; \<open>VncDes\<close> the locale \<open>feistel\<close>, interpreted by the rounds of DES;
    \<open>Probing\<close> the locale \<open>probing\<close>, the contract between an open-addressing table and its search,
    interpreted by the palette of ZRLE; \<open>VncDirty\<close> the locale \<open>rect_encoder\<close>, the contract between an
    encoder of rectangles and the update that calls it, interpreted by raw, Hextile and ZRLE.


  \<^bold>\<open>Transport and files\<close> (\<^verbatim>\<open>src/common\<close>).
  \<^item> \<open>Frame\<close>: the 24-byte header (\<open>frame_header\<close> is \<^verbatim>\<open>V9xFrameHeader\<close>), its writer and reader, and the
    bounded strings of payloads. The reader inverts the writer and accepts exactly the headers with the
    magic.
  \<^item> \<open>Crc32\<close>: the lazily filled table as explicit state; the table-driven checksum is the bitwise one,
    from every state the program can be in, and it detects every burst of up to 32 bits.
  \<^item> \<open>TextScan\<close>: the scanner state of \<^verbatim>\<open>V9xTextScan\<close>; feeding a file in any pieces gives the matching
    lines of the whole file in the bounded buffer.
  \<^item> \<open>Shotxf\<close>, \<open>ShotRle\<close> (model), \<open>ShotScale\<close>, \<open>ShotIndex\<close>, \<open>ShotPalette\<close>, \<open>ShotRleProps\<close>,
    \<open>ShotPicture\<close>, \<open>ShotProps\<close>: the screenshot transform on its three buffers. A strict BMP reader gets
    back the box-averaged region of the screen, in full colour, or with the exact palette, or in gray,
    and nothing outside the buffers is touched.


  \<^bold>\<open>Hashes and signatures.\<close>
  \<^item> \<open>Sha256\<close>, \<open>Sha512\<close>: the streaming contexts; for every way a message is cut into updates the digest
    is that of FIPS 180-4, which is defined beside them. The 64-bit words of SHA-512 are pairs of
    32-bit halves, as in the code.
  \<^item> \<open>Ed25519Field\<close>, \<open>Ed25519\<close>: 32 limbs of 8 bits. The field operations compute modulo \<open>2^255 - 19\<close>
    without overflow, scalars modulo the group order, points by the formulas of RFC 8032; decoding is
    strict and inverts encoding; verification and signing are the equations of RFC 8032 on these
    points. The group law of the curve is not proved, so nothing is said of verifying what was signed.


  \<^bold>\<open>Updates.\<close>
  \<^item> \<open>Inflate\<close> (model), \<open>InflateBits\<close>, \<open>InflateCode\<close>, \<open>InflateSafe\<close>, \<open>InflateSpec\<close>: the decoder with
    \<^verbatim>\<open>V9xInflateState\<close> as \<open>inflate_state\<close>. Every input is decoded or refused without an access outside
    its buffers; canonical Huffman codes are read as RFC 1951 defines them; a stream of stored and
    fixed blocks is decoded to what the declarative Deflate (\<open>deflates\<close>) says. Dynamic blocks have the
    safety results and the code construction, not the last one.
  \<^item> \<open>ZipRead\<close>, \<open>ZipProps\<close>: opening, walking, finding, and extracting. Whatever the bytes are, reads stay
    in the archive; a successful extraction has the declared size and CRC; accepted names are safe.
  \<^item> \<open>UpdateProto\<close> (model), \<open>UpdateProps\<close>, \<open>UpdateUrl\<close>, \<open>UpdateIni\<close>, \<open>UpdateHttp\<close>: percent encoding,
    versions, the grammar of URLs, INI lookups as lookups in a list of items, and response heads as
    lists of lines, each equivalent to the positions and loops of the code.
  \<^item> \<open>UpdateRelease\<close>, \<open>ReleaseProps\<close>: a release is accepted exactly when it is a body, one signature
    section that is the rest of the file, and a valid signature over the body.


  \<^bold>\<open>Remote help.\<close>
  \<^item> \<open>InstallId\<close>, \<open>InstallIdProps\<close>, \<open>IniRepair\<close>: the mixing pool loses no difference of its inputs, the
    identifier is a version 4 UUID, and a repaired INI file is stable.
  \<^item> \<open>Relay\<close>, \<open>RelayProps\<close>: the signed text determines the session, the number and the chunk; a record is
    taken exactly when it is next, complete, and signed.
  \<^item> \<open>RemoteText\<close>, \<open>Remote\<close> (model), \<open>RemoteProps\<close>: the chat log and queue, and the worker, with HTTP
    replies, the loopback socket, ticks, the pause flag and typed lines as inputs of each step. The
    handlers behind the tunnel see only what was signed for the session, in order, without gaps or repeats;
    the chat stays in its buffers. A pass of the worker goes round without a wait only when the server
    was reached and rejected the machine or offered a session; a server that does so again and again
    keeps the worker busy, at the pace of its own answers. Every other pass stops because it was told
    to, leaves a session open, or waits: after a failure the backoff, which doubles up to 960 seconds,
    and after a check-in the time the server asked for, if it lies between one second and one hour, and
    a minute otherwise.


  \<^bold>\<open>VNC.\<close>
  \<^item> \<open>VncDes\<close>: DES with the key schedule turned round by round; decryption inverts encryption, and the
    response is the encryption of both halves of the challenge under the key that has the first eight
    characters of the password with their bits mirrored (\<open>mirrored_key\<close>). That the tables are those of
    the standard is not a theorem: the reference (\<open>des_crypt\<close>) uses the tables of the code.
  \<^item> \<open>VncPixel\<close>, \<open>VncPixelProps\<close>: a format a viewer may set has channels inside the pixel, the tables
    build without an undefined shift, and a viewer reads back the pixel that was stored.
  \<^item> \<open>VncFrame\<close>, \<open>VncFrameProps\<close>: sampling, band reads and the tile comparison; the screen \<open>blit\<close> reads is
    an input with the documented effect of \<^verbatim>\<open>BitBlt\<close> (\<open>blits\<close>). The comparison flags exactly the tiles
    that changed, and a screen that stands still is wholly captured after a bounded number of frames.
  \<^item> \<open>VncOut\<close>: the output buffer over a connection that may fail at any byte (\<open>net_room\<close>); \<open>emits r s bs\<close>
    says that a step sends \<open>bs\<close>, or a prefix of it when the connection fails. \<open>VncGrid\<close>: the tiles of a
    rectangle. \<open>VncView\<close>: the reference viewer, and \<open>shown\<close>, what each encoding has to achieve.
  \<^item> \<open>VncHextile\<close> (model), \<open>VncHextileProps\<close>, \<open>VncHextileShow\<close>; \<open>VncZrle\<close> (model), \<open>VncZrleWork\<close>,
    \<open>VncZrleRead\<close>, \<open>VncZrleTile\<close>, \<open>VncZrleShow\<close>: whatever form the encoders choose for a tile, a viewer
    after RFC 6143 reads the rectangle to the last byte and shows the previous frame of the server.
  \<^item> \<open>VncUpdate\<close> (model), \<open>VncMove\<close>, \<open>VncViewer\<close>, \<open>VncDirty\<close>, \<open>VncInStep\<close>: the step of \<^verbatim>\<open>vnc_serve\<close>
    from a captured frame to the bytes of one update. The copy of a moved window inside the previous
    frame is the simultaneous copy of a CopyRect (\<open>VncMove\<close>); \<open>VncViewer\<close> extends the reference viewer
    to whole updates; \<open>VncDirty\<close> sends a rectangle for each run of dirty tiles, whatever the encoder;
    and \<open>VncInStep\<close> puts them together (\<open>vnc_viewer_in_step\<close>): after the update viewer and server show
    the same frame and agree for the next one. The capture itself, the foreground window and the drawn
    cursor are inputs.
  \<^item> \<open>Vncz\<close> (model), \<open>VnczProps\<close>, \<open>VnczSession\<close>: every deflated piece extends the stream of the
    connection by exactly its input, and the inflate of the updater decodes the whole session.


  \<^bold>\<open>What crosses components.\<close> \<open>verify_spec\<close> of \<open>Ed25519\<close> carries the signature claims of \<open>ReleaseProps\<close>,
  \<open>RelayProps\<close> and \<open>RemoteProps\<close>, over the hashes of \<open>Sha256\<close> and \<open>Sha512\<close>; \<open>ZipProps\<close> rests on \<open>Inflate\<close>
  and \<open>Crc32\<close>; the declarative Deflate of \<open>InflateSpec\<close> is the meeting point of the decoder, of the
  encoder of \<open>Vncz\<close> and of the viewer of \<open>VncZrleShow\<close>.


  \<^bold>\<open>What is not modelled.\<close> System calls and what surrounds them: Winsock, GDI, threads, the registry,
  services, profile files, log lines and windows (\<^verbatim>\<open>src/guest\<close> apart from the files above,
  \<^verbatim>\<open>src/guest-dos\<close>, \<^verbatim>\<open>src/setup\<close>), the command-line signing tool, and the host programs in Python,
  PowerShell and C#. Of \<^verbatim>\<open>vnc.c\<close> the handshake and the message loop, input injection, the clipboard and the
  surfaces the cursor is drawn on are left out; of \<^verbatim>\<open>remote.c\<close> profile files, the Winsock loopback pair
  and the quiet update check. Of the agent, what such code hands to the modelled functions is an argument.
\<close>

end
